(* ===== verification/VTS_Prelude.thy ===== *)
theory VTS_Prelude
  imports Complex_Main
begin

text \<open>
  Shared vocabulary of the development: Python text as lists of code points, the
  whitespace-based string operations the program uses (\<open>str.strip\<close>,
  \<open>str.split()\<close>, \<open>sep.join\<close>, the sentence splitter
  \<open>re.compile(r"(?<=[.!?...])\s+")\<close>), and the generic facts about lists and
  state machines the components share.

  Exact rationals stand for Python floats: the rounding of double arithmetic is
  outside the model. Database identifiers (UUIDs) are natural numbers, instants are
  integers.
\<close>

named_theorems vts_text \<open>facts about text operations\<close>
named_theorems vts_store \<open>facts about the database tables\<close>

section \<open>Types\<close>

type_synonym ustr = "nat list"
type_synonym uuid = nat
type_synonym instant = int

text \<open>An ASCII literal as a list of code points.\<close>

definition lit :: "string \<Rightarrow> ustr" where
  "lit s = map of_char s"

lemma lit_inject [simp]: "lit s = lit t \<longleftrightarrow> s = t"
  by (simp add: lit_def inj_map_eq_map inj_on_def)

section \<open>Generic list facts\<close>

lemma concat_map_filter_Nil:
  "(\<And>x. x \<in> set xs \<Longrightarrow> \<not> P x \<Longrightarrow> f x = []) \<Longrightarrow> concat (map f (filter P xs)) = concat (map f xs)"
  by (induction xs) auto

lemma butlast_last_eq: "xs \<noteq> [] \<Longrightarrow> xs = butlast xs @ [last xs]"
  by simp

declare length_dropWhile_le [termination_simp]

lemma filter_takeWhile_Nil: "filter (\<lambda>x. \<not> P x) (takeWhile P xs) = []"
  by (induction xs) auto

lemma filter_dropWhile_eq: "filter (\<lambda>x. \<not> P x) (dropWhile P xs) = filter (\<lambda>x. \<not> P x) xs"
  by (induction xs) auto

lemma sum_list_map_le_mem:
  fixes f :: "'a \<Rightarrow> nat"
  shows "x \<in> set xs \<Longrightarrow> f x \<le> sum_list (map f xs)"
  by (simp add: member_le_sum_list)

section \<open>Whitespace\<close>

text \<open>The code points \<open>str.isspace()\<close> accepts; \<open>\s\<close> of a text pattern matches the same set.\<close>

definition py_space :: "nat \<Rightarrow> bool" where
  "py_space c \<longleftrightarrow> (9 \<le> c \<and> c \<le> 13) \<or> (28 \<le> c \<and> c \<le> 32) \<or> c = 133 \<or> c = 160 \<or> c = 5760
     \<or> (8192 \<le> c \<and> c \<le> 8202) \<or> c = 8232 \<or> c = 8233 \<or> c = 8239 \<or> c = 8287 \<or> c = 12288"

lemma py_space_32 [simp]: "py_space 32"
  by (simp add: py_space_def)

definition lstrip :: "ustr \<Rightarrow> ustr" where
  "lstrip s = dropWhile py_space s"

definition rstrip :: "ustr \<Rightarrow> ustr" where
  "rstrip s = rev (dropWhile py_space (rev s))"

definition strip :: "ustr \<Rightarrow> ustr" where
  "strip s = rstrip (lstrip s)"

text \<open>The characters of a text that are not whitespace, in order: what no re-flow may lose.\<close>

definition solid :: "ustr \<Rightarrow> ustr" where
  "solid s = filter (\<lambda>c. \<not> py_space c) s"

lemma solid_Nil [simp]: "solid [] = []"
  by (simp add: solid_def)

lemma solid_append [simp]: "solid (a @ b) = solid a @ solid b"
  by (simp add: solid_def)

lemma solid_Cons: "solid (c # s) = (if py_space c then solid s else c # solid s)"
  by (simp add: solid_def)

lemma solid_space [simp]: "solid [32] = []"
  by (simp add: solid_def)

lemma solid_Cons_space [simp]: "solid (32 # s) = solid s"
  by (simp add: solid_def)

lemma solid_lstrip [simp]: "solid (lstrip s) = solid s"
  by (simp add: solid_def lstrip_def filter_dropWhile_eq)

lemma solid_rev: "solid (rev s) = rev (solid s)"
  by (simp add: solid_def rev_filter)

lemma solid_rstrip [simp]: "solid (rstrip s) = solid s"
proof -
  have "solid (dropWhile py_space (rev s)) = solid (rev s)"
    by (simp add: solid_def filter_dropWhile_eq)
  then show ?thesis by (simp add: rstrip_def solid_rev)
qed

lemma solid_strip [simp]: "solid (strip s) = solid s"
  by (simp add: strip_def)

lemma length_lstrip: "length (lstrip s) \<le> length s"
  by (simp add: lstrip_def length_dropWhile_le)

lemma length_rstrip: "length (rstrip s) \<le> length s"
  using length_dropWhile_le [of py_space "rev s"] by (simp add: rstrip_def)

lemma length_strip [vts_text]: "length (strip s) \<le> length s"
  using length_lstrip [of s] length_rstrip [of "lstrip s"] by (simp add: strip_def)

lemma strip_Nil [simp]: "strip [] = []"
  by (simp add: strip_def lstrip_def rstrip_def)

lemma strip_eq_Nil_iff: "strip s = [] \<longleftrightarrow> solid s = []"
proof
  assume "strip s = []"
  then have "solid (strip s) = []" by simp
  then show "solid s = []" by simp
next
  assume "solid s = []"
  then have all: "\<forall>c\<in>set s. py_space c"
    by (auto simp: solid_def filter_empty_conv)
  then have "lstrip s = []" by (simp add: lstrip_def)
  then show "strip s = []" by (simp add: strip_def rstrip_def)
qed

section \<open>Joining\<close>

fun join :: "ustr \<Rightarrow> ustr list \<Rightarrow> ustr" where
  "join sep [] = []"
| "join sep [x] = x"
| "join sep (x # y # zs) = x @ sep @ join sep (y # zs)"

abbreviation unwords :: "ustr list \<Rightarrow> ustr" where
  "unwords \<equiv> join [32]"

lemma join_Cons: "xs \<noteq> [] \<Longrightarrow> join sep (x # xs) = x @ sep @ join sep xs"
  by (cases xs) auto

lemma solid_join: "solid sep = [] \<Longrightarrow> solid (join sep xs) = concat (map solid xs)"
  by (induction sep xs rule: join.induct) auto

lemma solid_unwords [simp]: "solid (unwords xs) = concat (map solid xs)"
  by (simp add: solid_join)

lemma length_unwords:
  "length (unwords xs) = sum_list (map length xs) + (length xs - 1)"
  by (induction "[32::nat]" xs rule: join.induct) auto

lemma length_unwords_le: "length (unwords xs) \<le> sum_list (map (\<lambda>x. length x + 1) xs)"
  by (induction "[32::nat]" xs rule: join.induct) auto

lemma length_unwords_append_le:
  "length (unwords xs) \<le> length (unwords (xs @ ys))"
  by (cases ys) (simp_all add: length_unwords)

section \<open>Substrings: \<open>s.startswith(p)\<close> and \<open>p in s\<close>\<close>

definition starts_with :: "ustr \<Rightarrow> ustr \<Rightarrow> bool" where
  "starts_with p s \<longleftrightarrow> take (length p) s = p"

lemma starts_with_append [simp]: "starts_with p (p @ s)"
  by (simp add: starts_with_def)

fun contains :: "ustr \<Rightarrow> ustr \<Rightarrow> bool" where
  "contains p [] = (p = [])"
| "contains p (c # s) = (starts_with p (c # s) \<or> contains p s)"

lemma starts_with_Nil [simp]: "starts_with [] s"
  by (simp add: starts_with_def)

lemma contains_append: "contains p t \<Longrightarrow> contains p (a @ t)"
  by (induction a) simp_all

section \<open>Splitting on whitespace: \<open>str.split()\<close>\<close>

function split_ws :: "ustr \<Rightarrow> ustr list" where
  "split_ws s =
     (let t = lstrip s
      in if t = [] then []
         else takeWhile (\<lambda>c. \<not> py_space c) t # split_ws (dropWhile (\<lambda>c. \<not> py_space c) t))"
  by pat_completeness auto
termination
proof (relation "measure length", simp, goal_cases)
  case (1 s)
  then have ne: "lstrip s \<noteq> []" by simp
  then have hd: "\<not> py_space (hd (lstrip s))"
    by (simp add: lstrip_def hd_dropWhile)
  obtain c cs where t: "lstrip s = c # cs" using ne by (cases "lstrip s") auto
  have "length (dropWhile (\<lambda>c. \<not> py_space c) (lstrip s)) < length (lstrip s)"
    using hd t length_dropWhile_le [of "\<lambda>c. \<not> py_space c" cs] by simp
  then have "length (dropWhile (\<lambda>c. \<not> py_space c) (lstrip s)) < length s"
    using length_lstrip [of s] by linarith
  then show ?case using 1 by simp
qed

declare split_ws.simps [simp del]

lemma split_ws_Nil [simp]: "split_ws [] = []"
  by (simp add: split_ws.simps lstrip_def)

lemma solid_takeWhile_solid: "solid (takeWhile (\<lambda>c. \<not> py_space c) t) = takeWhile (\<lambda>c. \<not> py_space c) t"
  by (induction t) (auto simp: solid_def)

lemma solid_split_ws: "concat (map solid (split_ws s)) = solid s"
proof (induction s rule: split_ws.induct)
  case (1 s)
  let ?P = "\<lambda>c. \<not> py_space c"
  show ?case
  proof (cases "lstrip s = []")
    case True
    then have "solid s = []" using solid_lstrip [of s] by simp
    then show ?thesis using True by (simp add: split_ws.simps)
  next
    case False
    have "concat (map solid (split_ws s)) = solid (takeWhile ?P (lstrip s)) @ solid (dropWhile ?P (lstrip s))"
      using False "1.IH" by (subst split_ws.simps) (simp add: Let_def)
    also have "\<dots> = solid (lstrip s)"
      by (simp flip: solid_append)
    finally show ?thesis by simp
  qed
qed

text \<open>\<open>" ".join(s.split())\<close>: the flattened form most display text takes.\<close>

definition flatten_ws :: "ustr \<Rightarrow> ustr" where
  "flatten_ws s = unwords (split_ws s)"

lemma solid_flatten_ws [simp]: "solid (flatten_ws s) = solid s"
  by (simp add: flatten_ws_def solid_split_ws)

section \<open>Splitting after sentence ends\<close>

text \<open>The terminators \<open>. ! ?\<close> and the ellipsis (code point 8230).\<close>

definition sentence_end :: "nat \<Rightarrow> bool" where
  "sentence_end c \<longleftrightarrow> c = 46 \<or> c = 33 \<or> c = 63 \<or> c = 8230"

text \<open>
  \<open>pattern.split(text)\<close> for \<open>(?<=[.!?...])\s+\<close>: a maximal run of whitespace is a separator
  exactly when the character before it is a terminator. The first argument is the current
  piece, reversed.
\<close>

fun sentence_split_from :: "ustr \<Rightarrow> ustr \<Rightarrow> ustr list" where
  "sentence_split_from cur [] = [rev cur]"
| "sentence_split_from cur (c # cs) =
     (if py_space c \<and> cur \<noteq> [] \<and> sentence_end (hd cur)
      then rev cur # sentence_split_from [] (dropWhile py_space cs)
      else sentence_split_from (c # cur) cs)"

definition sentence_split :: "ustr \<Rightarrow> ustr list" where
  "sentence_split s = sentence_split_from [] s"

lemma sentence_split_from_not_Nil [simp]: "sentence_split_from cur s \<noteq> []"
  by (induction cur s rule: sentence_split_from.induct) auto

lemma solid_sentence_split_from:
  "concat (map solid (sentence_split_from cur s)) = solid (rev cur) @ solid s"
proof (induction cur s rule: sentence_split_from.induct)
  case (1 cur)
  then show ?case by simp
next
  case (2 cur c cs)
  then show ?case
    by (auto simp: solid_def filter_dropWhile_eq)
qed

lemma solid_sentence_split [simp]: "concat (map solid (sentence_split s)) = solid s"
  by (simp add: sentence_split_def solid_sentence_split_from)

text \<open>The pieces, joined by single spaces again, are no longer than the text.\<close>

lemma length_sentence_split_from:
  "sum_list (map length (sentence_split_from cur s)) + (length (sentence_split_from cur s) - 1)
     \<le> length cur + length s"
proof (induction cur s rule: sentence_split_from.induct)
  case (1 cur)
  then show ?case by simp
next
  case (2 cur c cs)
  show ?case
  proof (cases "py_space c \<and> cur \<noteq> [] \<and> sentence_end (hd cur)")
    case True
    let ?r = "sentence_split_from [] (dropWhile py_space cs)"
    have "sum_list (map length ?r) + (length ?r - 1) \<le> length cs"
      using "2.IH"(1) [OF True] length_dropWhile_le [of py_space cs] by simp
    moreover have "length ?r \<noteq> 0" by simp
    ultimately show ?thesis using True by simp
  next
    case False
    then show ?thesis using "2.IH"(2) [OF False] by auto
  qed
qed

lemma length_unwords_sentence_split:
  "length (unwords (sentence_split s)) \<le> length s"
  using length_sentence_split_from [of "[]" s] by (simp add: length_unwords sentence_split_def)

section \<open>Unicode tables\<close>

text \<open>
  The character class \<open>\w\<close> and the case mappings are tables of the Unicode database that ships
  with the interpreter: the operations that use them take them as a parameter. The ASCII part,
  on which the witnesses evaluate, is written out.
\<close>

record unicode =
  uc_word :: "nat \<Rightarrow> bool"
  uc_lower :: "ustr \<Rightarrow> ustr"

definition ascii_lower1 :: "nat \<Rightarrow> nat" where
  "ascii_lower1 c = (if 65 \<le> c \<and> c \<le> 90 then c + 32 else c)"

definition ascii_word :: "nat \<Rightarrow> bool" where
  "ascii_word c \<longleftrightarrow> (48 \<le> c \<and> c \<le> 57) \<or> (65 \<le> c \<and> c \<le> 90) \<or> c = 95 \<or> (97 \<le> c \<and> c \<le> 122)"

definition ascii_tables :: unicode where
  "ascii_tables = \<lparr>uc_word = ascii_word, uc_lower = map ascii_lower1\<rparr>"

section \<open>Decimal numerals\<close>

fun decimal :: "nat \<Rightarrow> ustr" where
  "decimal n = (if n < 10 then [48 + n] else decimal (n div 10) @ [48 + n mod 10])"

declare decimal.simps [simp del]

fun undecimal_from :: "nat \<Rightarrow> ustr \<Rightarrow> nat" where
  "undecimal_from a [] = a"
| "undecimal_from a (c # cs) = undecimal_from (10 * a + (c - 48)) cs"

lemma undecimal_append: "undecimal_from a (s @ t) = undecimal_from (undecimal_from a s) t"
  by (induction a s rule: undecimal_from.induct) auto

lemma undecimal_decimal: "undecimal_from 0 (decimal n) = n"
proof (induction n rule: decimal.induct)
  case (1 n)
  then show ?case by (subst decimal.simps) (auto simp: undecimal_append)
qed

lemma decimal_inject [simp]: "decimal a = decimal b \<longleftrightarrow> a = b"
  by (metis undecimal_decimal)

lemma decimal_not_Nil [simp]: "decimal n \<noteq> []"
  by (subst decimal.simps) simp

section \<open>Dictionaries in insertion order\<close>

text \<open>A Python \<open>dict\<close> iterates in insertion order: an association list with distinct keys.\<close>

definition dict_get :: "('k \<times> 'v) list \<Rightarrow> 'k \<Rightarrow> 'v option" where
  "dict_get d k = map_of d k"

fun dict_set :: "('k \<times> 'v) list \<Rightarrow> 'k \<Rightarrow> 'v \<Rightarrow> ('k \<times> 'v) list" where
  "dict_set [] k v = [(k, v)]"
| "dict_set ((k', v') # d) k v = (if k' = k then (k, v) # d else (k', v') # dict_set d k v)"

lemma dict_get_set [simp]: "dict_get (dict_set d k v) k' = (if k' = k then Some v else dict_get d k')"
  by (induction d k v rule: dict_set.induct) (auto simp: dict_get_def)

lemma keys_dict_set:
  "map fst (dict_set d k v) = (if k \<in> fst ` set d then map fst d else map fst d @ [k])"
  by (induction d k v rule: dict_set.induct) auto

lemma distinct_dict_set: "distinct (map fst d) \<Longrightarrow> distinct (map fst (dict_set d k v))"
  by (simp add: keys_dict_set)

definition dict_del :: "('k \<times> 'v) list \<Rightarrow> 'k \<Rightarrow> ('k \<times> 'v) list" where
  "dict_del d k = filter (\<lambda>p. fst p \<noteq> k) d"

lemma dict_get_del [simp]: "dict_get (dict_del d k) k' = (if k' = k then None else dict_get d k')"
  by (induction d) (auto simp: dict_get_def dict_del_def)

section \<open>Paths\<close>

text \<open>\<open>Path(p).name\<close>, and \<open>Path(p).suffix\<close>: the last dot of the name and what follows, unless the dot is
  the first or the last character.\<close>

definition path_name :: "ustr \<Rightarrow> ustr" where
  "path_name p = rev (takeWhile (\<lambda>c. c \<noteq> 47) (dropWhile (\<lambda>c. c = 47) (rev p)))"

definition path_suffix :: "ustr \<Rightarrow> ustr" where
  "path_suffix p = (let n = path_name p; ext = takeWhile (\<lambda>c. c \<noteq> 46) (rev n)
     in if ext \<noteq> [] \<and> length ext + 1 < length n then 46 # rev ext else [])"

end
