(* ===== verification/Contracts.thy ===== *)
theory Contracts
  imports VTS_Prelude
begin

text \<open>
  The interfaces the components rely on, as locales, with the facts their clients need proved once:
  a machine driven by events (the lanes), a store of rows that have a status (tasks), a loop whose rounds act on independent items (the worker pool), and a
  splitter of texts that loses nothing. Each is interpreted on the component that provides it.
\<close>

section \<open>Machines\<close>

text \<open>The state after a sequence of events.\<close>

definition run :: "('e \<Rightarrow> 's \<Rightarrow> 's) \<Rightarrow> 'e list \<Rightarrow> 's \<Rightarrow> 's" where
  "run step es s = foldl (\<lambda>x e. step e x) s es"

lemma run_Nil [simp]: "run step [] s = s"
  by (simp add: run_def)

lemma run_Cons [simp]: "run step (e # es) s = run step es (step e s)"
  by (simp add: run_def)

lemma run_append [simp]: "run step (es @ fs) s = run step fs (run step es s)"
  by (simp add: run_def)

text \<open>Every event that is possible in a state keeps the invariant.\<close>

locale machine =
  fixes step :: "'e \<Rightarrow> 's \<Rightarrow> 's"
    and enabled :: "'e \<Rightarrow> 's \<Rightarrow> bool"
    and inv :: "'s \<Rightarrow> bool"
  assumes step_inv: "inv s \<Longrightarrow> enabled e s \<Longrightarrow> inv (step e s)"
begin

fun all_enabled :: "'e list \<Rightarrow> 's \<Rightarrow> bool" where
  "all_enabled [] s = True"
| "all_enabled (e # es) s = (enabled e s \<and> all_enabled es (step e s))"

lemma run_inv: "inv s \<Longrightarrow> all_enabled es s \<Longrightarrow> inv (run step es s)"
  by (induction es arbitrary: s) (simp_all add: step_inv)

lemma run_inv_always: "inv s \<Longrightarrow> (\<And>e s. enabled e s) \<Longrightarrow> inv (run step es s)"
  by (induction es arbitrary: s) (simp_all add: step_inv)

end

text \<open>A machine with a measure that no event lowers.\<close>

locale growing_machine = machine step enabled inv
  for step :: "'e \<Rightarrow> 's \<Rightarrow> 's" and enabled :: "'e \<Rightarrow> 's \<Rightarrow> bool" and inv :: "'s \<Rightarrow> bool" +
  fixes amount :: "'s \<Rightarrow> nat"
  assumes step_grows: "inv s \<Longrightarrow> enabled e s \<Longrightarrow> amount s \<le> amount (step e s)"
begin

lemma run_grows: "inv s \<Longrightarrow> all_enabled es s \<Longrightarrow> amount s \<le> amount (run step es s)"
proof (induction es arbitrary: s)
  case Nil
  then show ?case by simp
next
  case (Cons e es)
  then have "amount s \<le> amount (step e s)" "amount (step e s) \<le> amount (run step es (step e s))"
    using step_grows step_inv by auto
  then show ?case by simp
qed

end

section \<open>Stores of rows with a status\<close>

locale status_store =
  fixes stat :: "'db \<Rightarrow> uuid \<Rightarrow> 'st option"
    and put :: "uuid \<Rightarrow> 'st \<Rightarrow> 'db \<Rightarrow> 'db"
  assumes stat_put_same: "stat db k \<noteq> None \<Longrightarrow> stat (put k s db) k = Some s"
    and stat_put_other: "k' \<noteq> k \<Longrightarrow> stat (put k s db) k' = stat db k'"
    and stat_put_missing: "stat db k = None \<Longrightarrow> stat (put k s db) k = None"

text \<open>The conditional update \<open>UPDATE ... WHERE id = k AND status IN froms\<close>, and whether it hit.\<close>

definition cond_put ::
  "('db \<Rightarrow> uuid \<Rightarrow> 'st option) \<Rightarrow> (uuid \<Rightarrow> 'st \<Rightarrow> 'db \<Rightarrow> 'db) \<Rightarrow> 'st list \<Rightarrow> uuid \<Rightarrow> 'st \<Rightarrow> 'db \<Rightarrow> 'db \<times> bool" where
  "cond_put stat put froms k s db =
     (case stat db k of None \<Rightarrow> (db, False)
      | Some x \<Rightarrow> if x \<in> set froms then (put k s db, True) else (db, False))"

context status_store begin

lemma stat_put:
  "stat (put k s db) k' = (if k' = k \<and> stat db k \<noteq> None then Some s else stat db k')"
  using stat_put_same stat_put_other stat_put_missing by (cases "k' = k") auto

lemma cond_put_hit: "snd (cond_put stat put froms k s db) \<longleftrightarrow> (\<exists>x\<in>set froms. stat db k = Some x)"
  by (auto simp: cond_put_def split: option.splits)

lemma cond_put_miss: "\<not> snd (cond_put stat put froms k s db) \<Longrightarrow> fst (cond_put stat put froms k s db) = db"
  by (auto simp: cond_put_def split: option.splits)

lemma cond_put_stat:
  "stat (fst (cond_put stat put froms k s db)) k' =
     (if k' = k \<and> snd (cond_put stat put froms k s db) then Some s else stat db k')"
  by (auto simp: cond_put_def stat_put split: option.splits)

text \<open>Of two racing transitions whose source sets do not contain the target, at most one hits.\<close>

lemma cond_put_once:
  assumes "snd (cond_put stat put froms k s db)" and "s \<notin> set froms'"
  shows "\<not> snd (cond_put stat put froms' k s' (fst (cond_put stat put froms k s db)))"
  using assms cond_put_stat [of froms k s db k] by (simp add: cond_put_hit)

end

section \<open>Loops over independent items\<close>

text \<open>A loop whose rounds act on one item each: what an item shows is changed by its own round, and by
  no round of an item apart from it.\<close>

locale local_loop =
  fixes round :: "'s \<Rightarrow> 'k \<Rightarrow> 's"
    and view :: "'s \<Rightarrow> 'k \<Rightarrow> 'v"
    and change :: "'k \<Rightarrow> 'v \<Rightarrow> 'v"
    and apart :: "'k \<Rightarrow> 'k \<Rightarrow> bool"
  assumes view_own: "view (round s k) k = change k (view s k)"
    and view_apart: "apart k k' \<Longrightarrow> view (round s k) k' = view s k'"
begin

lemma loop_apart: "(\<And>k. k \<in> set ks \<Longrightarrow> apart k k') \<Longrightarrow> view (foldl round s ks) k' = view s k'"
  by (induction ks arbitrary: s) (simp_all add: view_apart)

lemma loop_view:
  "sorted_wrt (\<lambda>a b. apart a b \<and> apart b a) ks \<Longrightarrow> k \<in> set ks \<Longrightarrow> view (foldl round s ks) k = change k (view s k)"
proof (induction ks arbitrary: s)
  case Nil
  then show ?case by simp
next
  case (Cons a ks)
  show ?case
  proof (cases "k = a")
    case True
    then have "view (foldl round (round s a) ks) k = view (round s a) k"
      using Cons.prems by (intro loop_apart) auto
    then show ?thesis using True by (simp add: view_own)
  next
    case False
    then show ?thesis using Cons by (simp add: view_apart)
  qed
qed

end

section \<open>Splitters\<close>

locale splitter =
  fixes split :: "ustr \<Rightarrow> ustr list"
  assumes split_solid: "concat (map solid (split s)) = solid s"
begin

lemma split_unwords_solid: "solid (unwords (split s)) = solid s"
  by (simp add: split_solid)

lemma split_filtered_solid: "concat (map solid (filter (\<lambda>t. t \<noteq> []) (map strip (split s)))) = solid s"
proof -
  have "concat (map solid (filter (\<lambda>t. t \<noteq> []) (map strip xs))) = concat (map solid xs)" for xs
    by (induction xs) (auto simp: strip_eq_Nil_iff)
  then show ?thesis by (simp add: split_solid)
qed

lemma split_Nil_iff: "split s = [] \<Longrightarrow> solid s = []"
  using split_solid [of s] by simp

end

interpretation ws: splitter split_ws
  by unfold_locales (rule solid_split_ws)

interpretation sentences: splitter sentence_split
  by unfold_locales (rule solid_sentence_split)

end
