(* ===== verification/Json_Values.thy ===== *)
theory Json_Values
  imports VTS_Prelude
begin

text \<open>
  JSON values as the interpreter holds them (task options, prompt references, presets), with the
  few Python operations the program applies to them: \<open>dict.get\<close>, \<open>dict.update\<close>, truth
  testing, \<open>str(...)\<close>, and iteration.

  \<open>str\<close> of a float, a list or a dictionary is the interpreter's \<open>repr\<close>: the operations that
  need it take it as the argument \<open>rp\<close>.
\<close>

datatype json =
    JNull
  | JBool bool
  | JInt int
  | JNum rat
  | JStr ustr
  | JList "json list"
  | JDict "(ustr \<times> json) list"

type_synonym jdict = "(ustr \<times> json) list"

text \<open>\<open>d.get(k)\<close> and \<open>d.get(k, default)\<close>.\<close>

definition jget :: "jdict \<Rightarrow> ustr \<Rightarrow> json" where
  "jget d k = (case dict_get d k of None \<Rightarrow> JNull | Some v \<Rightarrow> v)"

definition jget_or :: "jdict \<Rightarrow> ustr \<Rightarrow> json \<Rightarrow> json" where
  "jget_or d k dflt = (case dict_get d k of None \<Rightarrow> dflt | Some v \<Rightarrow> v)"

text \<open>\<open>v if isinstance(v, dict) else {}\<close>.\<close>

definition as_dict :: "json \<Rightarrow> jdict" where
  "as_dict v = (case v of JDict d \<Rightarrow> d | _ \<Rightarrow> [])"

fun is_dict :: "json \<Rightarrow> bool" where
  "is_dict (JDict d) = True"
| "is_dict _ = False"

text \<open>\<open>bool(v)\<close>.\<close>

fun truthy :: "json \<Rightarrow> bool" where
  "truthy JNull = False"
| "truthy (JBool b) = b"
| "truthy (JInt i) = (i \<noteq> 0)"
| "truthy (JNum q) = (q \<noteq> 0)"
| "truthy (JStr s) = (s \<noteq> [])"
| "truthy (JList xs) = (xs \<noteq> [])"
| "truthy (JDict d) = (d \<noteq> [])"

text \<open>\<open>str(v)\<close>.\<close>

fun py_str :: "(json \<Rightarrow> ustr) \<Rightarrow> json \<Rightarrow> ustr" where
  "py_str rp JNull = lit ''None''"
| "py_str rp (JBool b) = (if b then lit ''True'' else lit ''False'')"
| "py_str rp (JInt i) = (if i < 0 then 45 # decimal (nat (- i)) else decimal (nat i))"
| "py_str rp (JStr s) = s"
| "py_str rp v = rp v"

text \<open>Iterating a value: \<open>None\<close> is the \<open>TypeError\<close> of a value that is not iterable. A string
  yields its characters, a dictionary its keys.\<close>

fun py_iter :: "json \<Rightarrow> json list option" where
  "py_iter (JList xs) = Some xs"
| "py_iter (JStr s) = Some (map (\<lambda>c. JStr [c]) s)"
| "py_iter (JDict d) = Some (map (\<lambda>(k, v). JStr k) d)"
| "py_iter _ = None"

text \<open>\<open>for x in v or []\<close>.\<close>

definition iter_or_empty :: "json \<Rightarrow> json list option" where
  "iter_or_empty v = (if truthy v then py_iter v else Some [])"

text \<open>\<open>==\<close>: numbers compare by value (a truth value is a number), dictionaries ignore the order of
  their keys.\<close>

fun json_num :: "json \<Rightarrow> rat option" where
  "json_num (JBool b) = Some (if b then 1 else 0)"
| "json_num (JInt i) = Some (of_int i)"
| "json_num (JNum q) = Some q"
| "json_num _ = None"

fun py_eq :: "json \<Rightarrow> json \<Rightarrow> bool" where
  "py_eq JNull w = (w = JNull)"
| "py_eq (JBool b) w = (json_num w = Some (if b then 1 else 0))"
| "py_eq (JInt i) w = (json_num w = Some (of_int i))"
| "py_eq (JNum q) w = (json_num w = Some q)"
| "py_eq (JStr s) w = (w = JStr s)"
| "py_eq (JList xs) w = (case w of JList ys \<Rightarrow> list_all2 py_eq xs ys | _ \<Rightarrow> False)"
| "py_eq (JDict d) w = (case w of JDict e \<Rightarrow> length d = length e
     \<and> list_all (\<lambda>p. case dict_get e (fst p) of None \<Rightarrow> False | Some v' \<Rightarrow> py_eq (snd p) v') d | _ \<Rightarrow> False)"

lemma jget_set [simp]: "jget (dict_set d k v) k' = (if k' = k then v else jget d k')"
  by (simp add: jget_def)

lemma as_dict_JDict [simp]: "as_dict (JDict d) = d"
  by (simp add: as_dict_def)

lemma iter_or_empty_JList [simp]: "iter_or_empty (JList xs) = Some xs"
  by (simp add: iter_or_empty_def)

end
