(* ===== verification/Chunking.thy ===== *)
theory Chunking
  imports VTS_Prelude
begin

text \<open>
  \<open>vts/services/chunking.py\<close>: a transcript cut into retrievable passages. The entries are
  cleaned and sorted, short turns are merged, over-long turns are split on sentence ends,
  stubs are folded into a neighbour, and every chunk is numbered.

  A transcript entry is a record of what the code reads from the dictionary: the timings as
  the Python value found there, the text and the speaker tag (\<open>None\<close> when missing). Sizes
  are natural numbers, as the callers only pass the positive module constants.
\<close>

section \<open>Data\<close>

text \<open>A Python value offered to \<open>float()\<close>: a text carries the number it parses to, if any.\<close>

datatype pyvalue = PyNone | PyBool bool | PyNum rat | PyText "rat option" | PyOther

definition as_float :: "pyvalue \<Rightarrow> rat option" where
  "as_float v = (case v of PyNone \<Rightarrow> None | PyBool _ \<Rightarrow> None | PyNum r \<Rightarrow> Some r
     | PyText p \<Rightarrow> p | PyOther \<Rightarrow> None)"

record raw_entry =
  re_start :: pyvalue
  re_end :: pyvalue
  re_text :: "ustr option"
  re_speaker :: "ustr option"

record entry =
  en_start :: rat
  en_end :: rat
  en_text :: ustr
  en_speaker :: "ustr option"

record chunk =
  ck_index :: nat
  ck_start :: rat
  ck_end :: rat
  ck_text :: ustr
  ck_speakers :: "ustr list"

definition MIN_CHARS :: nat where "MIN_CHARS = 100"
definition MAX_CHARS :: nat where "MAX_CHARS = 1000"
definition TARGET_CHARS :: nat where "TARGET_CHARS = 500"

section \<open>Cleaning\<close>

definition truthy_text :: "ustr option \<Rightarrow> ustr option" where
  "truthy_text t = (case t of None \<Rightarrow> None | Some s \<Rightarrow> if s = [] then None else Some s)"

text \<open>One round of the cleaning loop; \<open>None\<close> is the \<open>continue\<close>. A list item that is not a
  dictionary is itself \<open>None\<close>.\<close>

definition clean_entry :: "raw_entry option \<Rightarrow> entry option" where
  "clean_entry r = (case r of None \<Rightarrow> None | Some e \<Rightarrow>
     (case (as_float (re_start e), as_float (re_end e)) of
        (Some s, Some t) \<Rightarrow>
          (let text = flatten_ws (case re_text e of None \<Rightarrow> [] | Some x \<Rightarrow> x)
           in if text = [] then None
              else Some \<lparr>en_start = s, en_end = max t s, en_text = text,
                         en_speaker = truthy_text (re_speaker e)\<rparr>)
      | _ \<Rightarrow> None))"

definition clean_entries :: "raw_entry option list option \<Rightarrow> entry list" where
  "clean_entries entries = (case entries of None \<Rightarrow> []
     | Some es \<Rightarrow> sort_key en_start (List.map_filter clean_entry es))"

section \<open>Splitting a long text\<close>

text \<open>\<open>sentence.rfind(" ", 0, max_chars)\<close>; \<open>None\<close> is Python's -1.\<close>

definition rfind_space :: "nat \<Rightarrow> ustr \<Rightarrow> nat option" where
  "rfind_space m s = (let is = filter (\<lambda>i. s ! i = 32) [0..<min m (length s)]
     in if is = [] then None else Some (last is))"

definition cut_point :: "nat \<Rightarrow> ustr \<Rightarrow> nat" where
  "cut_point m s = (case rfind_space m s of None \<Rightarrow> m | Some i \<Rightarrow> if i = 0 then m else i)"

text \<open>
  The \<open>while len(sentence) > max_chars\<close> loop: the pieces it appends and the remainder. With
  a cap of 0 the cut is 0 and the loop never ends, which is the value \<open>None\<close>.
\<close>

function cut_long :: "nat \<Rightarrow> ustr \<Rightarrow> (ustr list \<times> ustr) option" where
  "cut_long m s =
     (if length s \<le> m then Some ([], s)
      else if m = 0 then None
      else (case cut_long m (strip (drop (cut_point m s) s)) of
              None \<Rightarrow> None
            | Some (ps, rest) \<Rightarrow> Some (strip (take (cut_point m s) s) # ps, rest)))"
  by pat_completeness auto

lemma cut_point_pos: "0 < m \<Longrightarrow> 0 < cut_point m s"
  by (auto simp: cut_point_def split: option.split)

lemma rfind_space_less: "rfind_space m s = Some i \<Longrightarrow> i < m \<and> i < length s"
proof -
  let ?is = "filter (\<lambda>i. s ! i = 32) [0..<min m (length s)]"
  assume "rfind_space m s = Some i"
  then have ne: "?is \<noteq> []" and i: "i = last ?is"
    by (auto simp: rfind_space_def Let_def split: if_splits)
  have "i \<in> set ?is" unfolding i using ne by (rule last_in_set)
  then show ?thesis by simp
qed

lemma cut_point_le: "cut_point m s \<le> m"
  by (auto simp: cut_point_def split: option.split dest: rfind_space_less)

termination cut_long
proof (relation "measure (\<lambda>(m, s). length s)", simp, goal_cases)
  case (1 m s)
  then have "0 < cut_point m s" by (simp add: cut_point_pos)
  moreover have "length (strip (drop (cut_point m s) s)) \<le> length s - cut_point m s"
    using length_strip [of "drop (cut_point m s) s"] by simp
  ultimately show ?case using 1 by simp
qed

declare cut_long.simps [simp del]

text \<open>One sentence into the accumulator \<open>(pieces, current)\<close>.\<close>

definition add_sentence :: "nat \<Rightarrow> ustr list \<times> ustr \<Rightarrow> ustr \<Rightarrow> (ustr list \<times> ustr) option" where
  "add_sentence m acc sentence = (case acc of (pieces, current) \<Rightarrow>
     (let candidate = (if current \<noteq> [] then strip (current @ [32] @ sentence) else sentence)
      in if length candidate \<le> m then Some (pieces, candidate)
         else (let pieces' = (if current \<noteq> [] then pieces @ [current] else pieces)
               in (case cut_long m sentence of None \<Rightarrow> None
                   | Some (ps, rest) \<Rightarrow> Some (pieces' @ ps, rest)))))"

fun add_sentences :: "nat \<Rightarrow> ustr list \<times> ustr \<Rightarrow> ustr list \<Rightarrow> (ustr list \<times> ustr) option" where
  "add_sentences m acc [] = Some acc"
| "add_sentences m acc (s # ss) =
     (case add_sentence m acc s of None \<Rightarrow> None | Some acc' \<Rightarrow> add_sentences m acc' ss)"

definition nonblank_sentences :: "ustr \<Rightarrow> ustr list" where
  "nonblank_sentences text = filter (\<lambda>s. strip s \<noteq> []) (sentence_split text)"

text \<open>\<open>while donors and len(" ".join(moved + [stub])) < MIN_CHARS\<close>, donors taken from the end.\<close>

function move_donors :: "ustr list \<Rightarrow> ustr list \<Rightarrow> ustr \<Rightarrow> ustr list \<times> ustr list" where
  "move_donors donors moved stub =
     (if donors \<noteq> [] \<and> length (unwords (moved @ [stub])) < MIN_CHARS
      then move_donors (butlast donors) (last donors # moved) stub
      else (donors, moved))"
  by pat_completeness auto
termination
  by (relation "measure (\<lambda>(donors, moved, stub). length donors)") auto

declare move_donors.simps [simp del]

text \<open>The handling of a last piece below the floor.\<close>

definition rebalance :: "nat \<Rightarrow> ustr list \<Rightarrow> ustr list" where
  "rebalance m pieces =
     (if length pieces > 1 \<and> length (last pieces) < MIN_CHARS
      then (let stub = last pieces; previous = last (butlast pieces);
                rest = butlast (butlast pieces);
                merged = strip (previous @ [32] @ stub)
            in if length merged \<le> m then rest @ [merged]
               else (case move_donors (nonblank_sentences previous) [] stub of (donors, moved) \<Rightarrow>
                       (let head = strip (unwords donors); tail = strip (unwords (moved @ [stub]))
                        in if head \<noteq> [] \<and> MIN_CHARS \<le> length head \<and> length tail \<le> m
                           then rest @ [head, tail] else rest @ [previous, stub])))
      else pieces)"

definition split_long_text :: "nat \<Rightarrow> ustr \<Rightarrow> ustr list option" where
  "split_long_text m text =
     (case add_sentences m ([], []) (nonblank_sentences text) of
        None \<Rightarrow> None
      | Some (pieces, current) \<Rightarrow>
          (let pieces' = rebalance m (if current \<noteq> [] then pieces @ [current] else pieces)
           in Some (if pieces' = [] then [take m text] else pieces')))"

section \<open>Chunks of one long turn\<close>

text \<open>Every speaker of the entries, in the order of first appearance.\<close>

fun speakers_from :: "ustr list \<Rightarrow> entry list \<Rightarrow> ustr list" where
  "speakers_from seen [] = seen"
| "speakers_from seen (e # es) =
     (case en_speaker e of None \<Rightarrow> speakers_from seen es
      | Some s \<Rightarrow> speakers_from (if s \<noteq> [] \<and> s \<notin> set seen then seen @ [s] else seen) es)"

definition speakers_of :: "entry list \<Rightarrow> ustr list" where
  "speakers_of es = speakers_from [] es"

text \<open>The loop over the pieces: \<open>first\<close> is \<open>index == 0\<close>; the last piece ends the list.\<close>

fun emit_pieces :: "entry \<Rightarrow> nat \<Rightarrow> bool \<Rightarrow> nat \<Rightarrow> ustr list \<Rightarrow> chunk list" where
  "emit_pieces e tot first consumed [] = []"
| "emit_pieces e tot first consumed (p # ps) =
     (let span = en_end e - en_start e;
          s = (if first then en_start e
               else en_start e + span * (of_nat consumed / of_nat tot));
          consumed' = consumed + length p;
          t = (if ps = [] then en_end e
               else en_start e + span * (of_nat consumed' / of_nat tot))
      in \<lparr>ck_index = 0, ck_start = s, ck_end = max t s, ck_text = p, ck_speakers = speakers_of [e]\<rparr>
         # emit_pieces e tot False consumed' ps)"

definition emit_split :: "entry \<Rightarrow> nat \<Rightarrow> chunk list option" where
  "emit_split e m = (case split_long_text m (en_text e) of None \<Rightarrow> None
     | Some pieces \<Rightarrow>
         Some (case pieces of
             [p] \<Rightarrow> [\<lparr>ck_index = 0, ck_start = en_start e, ck_end = en_end e, ck_text = p,
                      ck_speakers = speakers_of [e]\<rparr>]
           | _ \<Rightarrow> (let n = sum_list (map length pieces); tot = (if n = 0 then 1 else n)
                   in emit_pieces e tot True 0 pieces)))"

section \<open>Accumulating turns\<close>

definition flush :: "chunk list \<times> entry list \<Rightarrow> chunk list \<times> entry list" where
  "flush st = (case st of (chunks, pending) \<Rightarrow>
     if pending = [] then (chunks, pending)
     else (chunks @ [\<lparr>ck_index = 0, ck_start = en_start (hd pending),
                       ck_end = foldl (\<lambda>a e. max a (en_end e)) (en_end (hd pending)) (tl pending),
                       ck_text = strip (unwords (map en_text pending)),
                       ck_speakers = speakers_of pending\<rparr>], []))"

definition pending_size :: "entry list \<Rightarrow> nat" where
  "pending_size pending = sum_list (map (\<lambda>e. length (en_text e) + 1) pending)"

text \<open>A short remainder is carried into the first piece of the long turn that follows it.\<close>

definition carry_pending :: "nat \<Rightarrow> nat \<Rightarrow> entry \<Rightarrow> entry list \<Rightarrow> chunk list \<Rightarrow> entry list \<times> chunk list" where
  "carry_pending mn m e pending pieces =
     (if pending \<noteq> [] \<and> pending_size pending < mn \<and> pieces \<noteq> []
      then (let merged = strip (strip (unwords (map en_text pending)) @ [32] @ ck_text (hd pieces))
            in if length merged \<le> m
               then ([], (hd pieces)\<lparr>ck_start := en_start (hd pending), ck_text := merged,
                                     ck_speakers := speakers_of (pending @ [e])\<rparr> # tl pieces)
               else (pending, pieces))
      else (pending, pieces))"

definition add_entry ::
  "nat \<Rightarrow> nat \<Rightarrow> nat \<Rightarrow> chunk list \<times> entry list \<Rightarrow> entry \<Rightarrow> (chunk list \<times> entry list) option" where
  "add_entry mn m target st e = (case st of (chunks, pending) \<Rightarrow>
     if m < length (en_text e)
     then (case emit_split e m of None \<Rightarrow> None
           | Some pieces \<Rightarrow>
               (case carry_pending mn m e pending pieces of (pending', pieces') \<Rightarrow>
                 (case flush (chunks, pending') of (chunks', pending'') \<Rightarrow>
                   Some (chunks' @ pieces', pending''))))
     else (let prospective = pending_size pending + length (en_text e);
               (chunks', pending') =
                 (if pending \<noteq> [] \<and> m < prospective then flush (chunks, pending)
                  else (chunks, pending));
               pending'' = pending' @ [e]
           in Some (if target \<le> pending_size pending'' then flush (chunks', pending'')
                    else (chunks', pending''))))"

fun add_entries ::
  "nat \<Rightarrow> nat \<Rightarrow> nat \<Rightarrow> chunk list \<times> entry list \<Rightarrow> entry list \<Rightarrow> (chunk list \<times> entry list) option" where
  "add_entries mn m target st [] = Some st"
| "add_entries mn m target st (e # es) =
     (case add_entry mn m target st e of None \<Rightarrow> None
      | Some st' \<Rightarrow> add_entries mn m target st' es)"

section \<open>Folding fragments into a neighbour\<close>

fun add_missing :: "'a list \<Rightarrow> 'a list \<Rightarrow> 'a list" where
  "add_missing host [] = host"
| "add_missing host (g # gs) = add_missing (if g \<in> set host then host else host @ [g]) gs"

definition absorb :: "chunk \<Rightarrow> chunk \<Rightarrow> bool \<Rightarrow> chunk" where
  "absorb host guest guest_first = host\<lparr>
     ck_text := strip (if guest_first then ck_text guest @ [32] @ ck_text host
                       else ck_text host @ [32] @ ck_text guest),
     ck_start := min (ck_start host) (ck_start guest),
     ck_end := max (ck_end host) (ck_end guest),
     ck_speakers := add_missing (ck_speakers host) (ck_speakers guest)\<rparr>"

definition fits_beside :: "nat \<Rightarrow> chunk \<Rightarrow> chunk \<Rightarrow> bool" where
  "fits_beside m a b \<longleftrightarrow> length (ck_text a) + length (ck_text b) + 1 \<le> m"

fun compact :: "nat \<Rightarrow> nat \<Rightarrow> chunk list \<Rightarrow> chunk list \<Rightarrow> chunk list" where
  "compact mn m done [] = done"
| "compact mn m done (c # rest) =
     (if mn \<le> length (ck_text c) then compact mn m (done @ [c]) rest
      else if done \<noteq> [] \<and> fits_beside m (last done) c
      then compact mn m (butlast done @ [absorb (last done) c False]) rest
      else (case rest of
              nxt # rest' \<Rightarrow>
                (if fits_beside m nxt c then compact mn m done (absorb nxt c True # rest')
                 else compact mn m (done @ [c]) rest)
            | [] \<Rightarrow> done @ [c]))"

definition fold_tail :: "nat \<Rightarrow> nat \<Rightarrow> chunk list \<Rightarrow> chunk list" where
  "fold_tail mn m chunks =
     (if length chunks > 1 \<and> length (ck_text (last chunks)) < mn
      then (let tail = last chunks; rest = butlast chunks; previous = last rest;
                merged = strip (ck_text previous @ [32] @ ck_text tail)
            in if length merged \<le> m
               then butlast rest @ [previous\<lparr>ck_text := merged,
                      ck_end := max (ck_end previous) (ck_end tail),
                      ck_speakers := add_missing (ck_speakers previous) (ck_speakers tail)\<rparr>]
               else rest @ [tail])
      else chunks)"

definition number_chunks :: "chunk list \<Rightarrow> chunk list" where
  "number_chunks chunks = map (\<lambda>(i, c). c\<lparr>ck_index := i\<rparr>) (enumerate 0 chunks)"

definition chunk_cleaned :: "entry list \<Rightarrow> nat \<Rightarrow> nat \<Rightarrow> nat \<Rightarrow> chunk list option" where
  "chunk_cleaned cleaned mn m target =
     (if cleaned = [] then Some []
      else (case add_entries mn m target ([], []) cleaned of None \<Rightarrow> None
            | Some st \<Rightarrow>
                Some (number_chunks (fold_tail mn m (compact mn m [] (fst (flush st)))))))"

definition chunk_entries :: "raw_entry option list option \<Rightarrow> nat \<Rightarrow> nat \<Rightarrow> nat \<Rightarrow> chunk list option" where
  "chunk_entries entries mn m target = chunk_cleaned (clean_entries entries) mn m target"

lemma length_unwords_filter: "length (unwords (filter P xs)) \<le> length (unwords xs)"
proof -
  have "sum_list (map length (filter P xs)) \<le> sum_list (map length xs)"
    by (induction xs) auto
  moreover have "length (filter P xs) \<le> length xs" by simp
  ultimately show ?thesis unfolding length_unwords by linarith
qed

section \<open>Termination, size and content of the splitter\<close>

lemma cut_long_total: "0 < m \<Longrightarrow> cut_long m s \<noteq> None"
proof (induction m s rule: cut_long.induct)
  case (1 m s)
  then show ?case by (subst cut_long.simps) auto
qed

lemma cut_long_spec:
  "cut_long m s = Some (ps, rest) \<Longrightarrow>
     (\<forall>p\<in>set (rest # ps). length p \<le> m) \<and> concat (map solid ps) @ solid rest = solid s"
proof (induction m s arbitrary: ps rest rule: cut_long.induct)
  case (1 m s)
  show ?case
  proof (cases "length s \<le> m \<or> m = 0")
    case True
    then show ?thesis using "1.prems" by (subst (asm) cut_long.simps) (auto split: if_splits)
  next
    case False
    let ?k = "cut_point m s"
    obtain qs where qs: "cut_long m (strip (drop ?k s)) = Some (qs, rest)"
      and ps: "ps = strip (take ?k s) # qs"
      using "1.prems" False by (subst (asm) cut_long.simps) (auto split: option.splits)
    have IH: "(\<forall>p\<in>set (rest # qs). length p \<le> m) \<and> concat (map solid qs) @ solid rest = solid (drop ?k s)"
      using "1.IH" [OF _ _ qs] False by simp
    have "length (strip (take ?k s)) \<le> m"
      using length_strip [of "take ?k s"] cut_point_le [of m s] by simp
    moreover have "solid (take ?k s) @ solid (drop ?k s) = solid s"
      by (simp flip: solid_append)
    ultimately show ?thesis using IH ps by auto
  qed
qed

definition acc_text :: "ustr list \<times> ustr \<Rightarrow> ustr" where
  "acc_text acc = concat (map solid (fst acc)) @ solid (snd acc)"

definition acc_capped :: "nat \<Rightarrow> ustr list \<times> ustr \<Rightarrow> bool" where
  "acc_capped m acc \<longleftrightarrow> (\<forall>p\<in>set (snd acc # fst acc). length p \<le> m)"

lemma add_sentence_spec:
  assumes "add_sentence m acc s = Some acc'" and "acc_capped m acc"
  shows "acc_capped m acc' \<and> acc_text acc' = acc_text acc @ solid s"
proof -
  obtain pieces current where acc: "acc = (pieces, current)" by (cases acc)
  let ?cand = "if current \<noteq> [] then strip (current @ [32] @ s) else s"
  show ?thesis
  proof (cases "length ?cand \<le> m")
    case True
    then show ?thesis using assms acc
      by (auto simp: add_sentence_def Let_def acc_capped_def acc_text_def)
  next
    case False
    then obtain ps rest where c: "cut_long m s = Some (ps, rest)"
      and a: "acc' = ((if current \<noteq> [] then pieces @ [current] else pieces) @ ps, rest)"
      using assms(1) acc by (auto simp: add_sentence_def Let_def split: option.splits)
    show ?thesis using cut_long_spec [OF c] assms(2) a acc
      by (auto simp: acc_capped_def acc_text_def)
  qed
qed

lemma add_sentences_spec:
  "add_sentences m acc ss = Some acc' \<Longrightarrow> acc_capped m acc \<Longrightarrow>
     acc_capped m acc' \<and> acc_text acc' = acc_text acc @ concat (map solid ss)"
  by (induction ss arbitrary: acc) (force split: option.splits dest: add_sentence_spec)+

lemma add_sentences_total: "0 < m \<Longrightarrow> add_sentences m acc ss \<noteq> None"
  by (induction ss arbitrary: acc)
     (auto simp: add_sentence_def Let_def cut_long_total split: option.splits prod.splits)

lemma solid_nonblank_sentences: "concat (map solid (nonblank_sentences t)) = solid t"
  unfolding nonblank_sentences_def
  by (subst concat_map_filter_Nil) (auto simp: strip_eq_Nil_iff)

lemma length_nonblank_sentences: "length (unwords (nonblank_sentences t)) \<le> length t"
  unfolding nonblank_sentences_def
  using length_unwords_filter length_unwords_sentence_split le_trans by blast

lemma move_donors_append: "move_donors donors moved stub = (d, mv) \<Longrightarrow> d @ mv = donors @ moved"
proof (induction donors moved stub rule: move_donors.induct)
  case (1 donors moved stub)
  then show ?case
    by (subst (asm) (2) move_donors.simps) (auto split: if_splits)
qed

lemma last_two:
  assumes "length xs > 1"
  shows "xs = butlast (butlast xs) @ [last (butlast xs), last xs]"
proof -
  have "xs \<noteq> []" and "butlast xs \<noteq> []" using assms by (auto simp flip: length_greater_0_conv)
  then show ?thesis by (metis append_butlast_last_id append.assoc append_Cons append_Nil)
qed

lemma rebalance_spec:
  assumes "\<forall>p\<in>set ps. length p \<le> m"
  shows "(\<forall>p\<in>set (rebalance m ps). length p \<le> m) \<and>
         concat (map solid (rebalance m ps)) = concat (map solid ps)"
proof (cases "length ps > 1 \<and> length (last ps) < MIN_CHARS")
  case False
  then show ?thesis using assms by (auto simp: rebalance_def)
next
  case True
  define stub previous rest where d: "stub = last ps" "previous = last (butlast ps)"
    "rest = butlast (butlast ps)"
  have ps: "ps = rest @ [previous, stub]" using last_two True d by blast
  obtain donors moved where mv: "move_donors (nonblank_sentences previous) [] stub = (donors, moved)"
    by (cases "move_donors (nonblank_sentences previous) [] stub")
  have split: "donors @ moved = nonblank_sentences previous"
    using move_donors_append [OF mv] by simp
  have "length (unwords donors) \<le> length previous"
    using length_unwords_append_le [of donors moved] length_nonblank_sentences [of previous] split
    by simp
  then have head: "length (strip (unwords donors)) \<le> m"
    using length_strip [of "unwords donors"] assms ps by simp
  have solid_prev: "concat (map solid donors) @ concat (map solid moved) = solid previous"
    using solid_nonblank_sentences [of previous] split by (metis concat_append map_append)
  have eq: "rebalance m ps =
      (let merged = strip (previous @ [32] @ stub)
       in if length merged \<le> m then rest @ [merged]
          else (let head = strip (unwords donors); tail = strip (unwords (moved @ [stub]))
                in if head \<noteq> [] \<and> MIN_CHARS \<le> length head \<and> length tail \<le> m
                   then rest @ [head, tail] else rest @ [previous, stub]))"
    using True mv d by (simp add: rebalance_def Let_def)
  show ?thesis unfolding eq using assms head
    by (auto simp: Let_def ps simp flip: solid_prev)
qed

lemma split_long_text_spec:
  assumes "split_long_text m t = Some ps"
  shows "(\<forall>p\<in>set ps. length p \<le> m) \<and> concat (map solid ps) = solid t \<and> ps \<noteq> []"
proof -
  obtain pieces current where a: "add_sentences m ([], []) (nonblank_sentences t) = Some (pieces, current)"
    using assms by (auto simp: split_long_text_def split: option.splits)
  define qs where "qs = (if current \<noteq> [] then pieces @ [current] else pieces)"
  have "acc_capped m (pieces, current) \<and> acc_text (pieces, current) = solid t"
    using add_sentences_spec [OF a] by (simp add: acc_capped_def acc_text_def solid_nonblank_sentences)
  then have qs: "\<forall>p\<in>set qs. length p \<le> m" "concat (map solid qs) = solid t"
    by (auto simp: qs_def acc_capped_def acc_text_def)
  have ps: "ps = (if rebalance m qs = [] then [take m t] else rebalance m qs)"
    using assms a by (auto simp: split_long_text_def Let_def qs_def)
  show ?thesis
  proof (cases "rebalance m qs = []")
    case True
    then have "solid t = []" using rebalance_spec [OF qs(1)] qs(2) by simp
    moreover have "solid (take m t) @ solid (drop m t) = solid t" by (simp flip: solid_append)
    ultimately show ?thesis using True ps by simp
  next
    case False
    then show ?thesis using rebalance_spec [OF qs(1)] qs(2) ps by simp
  qed
qed

lemma split_long_text_total: "0 < m \<Longrightarrow> \<exists>ps. split_long_text m t = Some ps"
  using add_sentences_total [of m "([], [])" "nonblank_sentences t"]
  by (auto simp: split_long_text_def Let_def)

section \<open>Chunk lists: content, size, speakers and span\<close>

definition chunks_text :: "chunk list \<Rightarrow> ustr" where
  "chunks_text cs = concat (map (\<lambda>c. solid (ck_text c)) cs)"

definition entries_text :: "entry list \<Rightarrow> ustr" where
  "entries_text es = concat (map (\<lambda>e. solid (en_text e)) es)"

definition chunks_voices :: "chunk list \<Rightarrow> ustr set" where
  "chunks_voices cs = (\<Union>c\<in>set cs. set (ck_speakers c))"

text \<open>The speaker of an entry, when it names one (an empty tag does not).\<close>

definition entry_voice :: "entry \<Rightarrow> ustr set" where
  "entry_voice e = {s. s \<noteq> [] \<and> en_speaker e = Some s}"

definition entries_voices :: "entry list \<Rightarrow> ustr set" where
  "entries_voices es = (\<Union>e\<in>set es. entry_voice e)"

definition capped :: "nat \<Rightarrow> chunk list \<Rightarrow> bool" where
  "capped m cs \<longleftrightarrow> (\<forall>c\<in>set cs. length (ck_text c) \<le> m)"

text \<open>Every chunk is an interval inside \<open>[lo, hi]\<close>.\<close>

definition spans_in :: "rat \<Rightarrow> rat \<Rightarrow> chunk list \<Rightarrow> bool" where
  "spans_in lo hi cs \<longleftrightarrow> (\<forall>c\<in>set cs. lo \<le> ck_start c \<and> ck_start c \<le> ck_end c \<and> ck_end c \<le> hi)"

lemmas chunk_defs = chunks_text_def chunks_voices_def capped_def spans_in_def

lemma chunks_simps [simp]:
  "chunks_text [] = []" "chunks_text (a @ b) = chunks_text a @ chunks_text b"
  "chunks_text (c # cs) = solid (ck_text c) @ chunks_text cs"
  "chunks_voices [] = {}" "chunks_voices (a @ b) = chunks_voices a \<union> chunks_voices b"
  "chunks_voices (c # cs) = set (ck_speakers c) \<union> chunks_voices cs"
  "capped m []" "capped m (a @ b) \<longleftrightarrow> capped m a \<and> capped m b"
  "capped m (c # cs) \<longleftrightarrow> length (ck_text c) \<le> m \<and> capped m cs"
  "spans_in lo hi []" "spans_in lo hi (a @ b) \<longleftrightarrow> spans_in lo hi a \<and> spans_in lo hi b"
  "spans_in lo hi (c # cs) \<longleftrightarrow>
     (lo \<le> ck_start c \<and> ck_start c \<le> ck_end c \<and> ck_end c \<le> hi) \<and> spans_in lo hi cs"
  by (auto simp: chunk_defs)

lemma entries_simps [simp]:
  "entries_text [] = []" "entries_text (a @ b) = entries_text a @ entries_text b"
  "entries_text (e # es) = solid (en_text e) @ entries_text es"
  "entries_voices [] = {}" "entries_voices (a @ b) = entries_voices a \<union> entries_voices b"
  "entries_voices (e # es) = entry_voice e \<union> entries_voices es"
  by (auto simp: entries_text_def entries_voices_def)

lemma set_speakers_from: "set (speakers_from seen es) = set seen \<union> entries_voices es"
  by (induction seen es rule: speakers_from.induct)
     (auto simp: entry_voice_def split: option.splits)

lemma set_speakers_of [simp]: "set (speakers_of es) = entries_voices es"
  by (simp add: speakers_of_def set_speakers_from)

lemma distinct_speakers_from: "distinct seen \<Longrightarrow> distinct (speakers_from seen es)"
  by (induction seen es rule: speakers_from.induct) (auto split: option.splits)

lemma set_add_missing [simp]: "set (add_missing h g) = set h \<union> set g"
  by (induction h g rule: add_missing.induct) auto

text \<open>The entries the cleaning produces: a span that does not run backwards.\<close>

definition entries_in :: "rat \<Rightarrow> rat \<Rightarrow> entry list \<Rightarrow> bool" where
  "entries_in lo hi es \<longleftrightarrow> (\<forall>e\<in>set es. lo \<le> en_start e \<and> en_start e \<le> en_end e \<and> en_end e \<le> hi)"

lemma entries_in_simps [simp]:
  "entries_in lo hi []" "entries_in lo hi (a @ b) \<longleftrightarrow> entries_in lo hi a \<and> entries_in lo hi b"
  "entries_in lo hi (e # es) \<longleftrightarrow>
     (lo \<le> en_start e \<and> en_start e \<le> en_end e \<and> en_end e \<le> hi) \<and> entries_in lo hi es"
  by (auto simp: entries_in_def)

section \<open>One long turn\<close>

lemma emit_pieces_text: "map ck_text (emit_pieces e tot b k ps) = ps"
  by (induction e tot b k ps rule: emit_pieces.induct) (auto simp: Let_def)

lemma emit_pieces_speakers: "c \<in> set (emit_pieces e tot b k ps) \<Longrightarrow> ck_speakers c = speakers_of [e]"
  by (induction e tot b k ps rule: emit_pieces.induct) (auto simp: Let_def)

text \<open>A share of a span stays inside the span.\<close>

lemma share_bounds:
  fixes s t :: rat
  assumes "s \<le> t" and "k \<le> n" and "0 < n"
  shows "s \<le> s + (t - s) * (of_nat k / of_nat n) \<and> s + (t - s) * (of_nat k / of_nat n) \<le> t"
proof -
  have "(t - s) * (of_nat k / of_nat n) \<le> (t - s) * 1"
    using assms by (intro mult_left_mono) (auto simp: divide_le_eq)
  then show ?thesis using assms by simp
qed

lemma emit_pieces_spans:
  assumes "en_start e \<le> en_end e" and "0 < tot"
  shows "k + sum_list (map length ps) \<le> tot \<Longrightarrow>
    spans_in (en_start e) (en_end e) (emit_pieces e tot b k ps)"
proof (induction ps arbitrary: b k)
  case Nil
  then show ?case by simp
next
  case (Cons p ps)
  have 1: "k \<le> tot" "k + length p \<le> tot" using Cons.prems by auto
  note sb = share_bounds [OF assms(1) 1(1) assms(2)] share_bounds [OF assms(1) 1(2) assms(2)]
  have "spans_in (en_start e) (en_end e) (emit_pieces e tot False (k + length p) ps)"
    using Cons.IH [of "k + length p"] Cons.prems by simp
  then show ?case using sb assms(1) by (auto simp: Let_def)
qed

lemma emit_split_cases:
  assumes "emit_split e m = Some cs"
  obtains ps where "split_long_text m (en_text e) = Some ps" and "map ck_text cs = ps"
    and "\<forall>c\<in>set cs. ck_speakers c = speakers_of [e]"
    and "en_start e \<le> en_end e \<longrightarrow> spans_in (en_start e) (en_end e) cs"
proof -
  obtain ps where ps: "split_long_text m (en_text e) = Some ps"
    using assms by (auto simp: emit_split_def split: option.splits)
  let ?n = "sum_list (map length ps)"
  let ?tot = "if ?n = 0 then 1 else ?n"
  have "map ck_text cs = ps \<and> (\<forall>c\<in>set cs. ck_speakers c = speakers_of [e]) \<and>
    (en_start e \<le> en_end e \<longrightarrow> spans_in (en_start e) (en_end e) cs)"
  proof (cases "\<exists>p. ps = [p]")
    case True
    then show ?thesis using assms ps by (auto simp: emit_split_def)
  next
    case False
    then have cs: "cs = emit_pieces e ?tot True 0 ps"
      using assms ps by (auto simp: emit_split_def Let_def split: list.splits)
    have "en_start e \<le> en_end e \<longrightarrow> spans_in (en_start e) (en_end e) cs"
      unfolding cs using emit_pieces_spans [of e ?tot 0 ps True] by (simp del: sum_list_eq_0_iff)
    then show ?thesis using cs emit_pieces_text emit_pieces_speakers by blast
  qed
  then show thesis using that ps by blast
qed

lemma emit_split_spec:
  assumes "emit_split e m = Some cs"
  shows "capped m cs \<and> chunks_text cs = solid (en_text e) \<and> cs \<noteq> []
    \<and> chunks_voices cs = entry_voice e
    \<and> (en_start e \<le> en_end e \<longrightarrow> spans_in (en_start e) (en_end e) cs)"
proof -
  obtain ps where ps: "split_long_text m (en_text e) = Some ps" "map ck_text cs = ps"
    "\<forall>c\<in>set cs. ck_speakers c = speakers_of [e]"
    "en_start e \<le> en_end e \<longrightarrow> spans_in (en_start e) (en_end e) cs"
    using emit_split_cases [OF assms] by blast
  note sp = split_long_text_spec [OF ps(1)]
  have ne: "cs \<noteq> []" using sp ps(2) by (metis list.simps(8))
  have "\<forall>x\<in>set (map ck_text cs). length x \<le> m" unfolding ps(2) using sp by blast
  then have "capped m cs" by (simp add: capped_def)
  moreover have "chunks_text cs = concat (map solid (map ck_text cs))"
    by (simp add: chunks_text_def comp_def)
  moreover have "chunks_voices cs = entry_voice e"
    unfolding chunks_voices_def using ps(3) ne by (cases cs) auto
  ultimately show ?thesis using ne ps(2,4) sp by simp
qed

lemma emit_split_total: "0 < m \<Longrightarrow> \<exists>cs. emit_split e m = Some cs"
  using split_long_text_total [of m "en_text e"] by (auto simp: emit_split_def)

section \<open>The accumulation loop\<close>

text \<open>
  What every step of the loop keeps: every emitted chunk respects the cap, the pending entries
  would still make a chunk within it, and everything lies in the span of the recording. The
  text and the voices of a state grow by exactly those of the entry consumed.
\<close>

definition state_ok :: "nat \<Rightarrow> rat \<Rightarrow> rat \<Rightarrow> chunk list \<times> entry list \<Rightarrow> bool" where
  "state_ok m lo hi st \<longleftrightarrow> capped m (fst st) \<and> (snd st = [] \<or> pending_size (snd st) \<le> m + 1)
     \<and> spans_in lo hi (fst st) \<and> entries_in lo hi (snd st)"

definition state_text :: "chunk list \<times> entry list \<Rightarrow> ustr" where
  "state_text st = chunks_text (fst st) @ entries_text (snd st)"

definition state_voices :: "chunk list \<times> entry list \<Rightarrow> ustr set" where
  "state_voices st = chunks_voices (fst st) \<union> entries_voices (snd st)"

lemmas state_defs = state_ok_def state_text_def state_voices_def

lemma pending_size_simps [simp]:
  "pending_size [] = 0" "pending_size (e # es) = length (en_text e) + 1 + pending_size es"
  "pending_size (a @ b) = pending_size a + pending_size b"
  by (simp_all add: pending_size_def)

lemma solid_pending: "solid (unwords (map en_text es)) = entries_text es"
  by (induction es) (auto simp: join_Cons entries_text_def comp_def)

lemma concat_solid_pending [simp]: "concat (map (solid \<circ> en_text) es) = entries_text es"
  by (simp add: entries_text_def comp_def)

lemma length_unwords_pending:
  "es \<noteq> [] \<Longrightarrow> length (unwords (map en_text es)) + 1 = pending_size es"
  by (induction es rule: list_nonempty_induct) (auto simp: join_Cons)

lemma foldl_max_ge: "(a :: rat) \<le> foldl (\<lambda>x e. max x (f e)) a es"
  by (induction es arbitrary: a) (auto intro: order_trans [OF max.cobounded1])

lemma foldl_max_le: "(a :: rat) \<le> hi \<Longrightarrow> \<forall>e\<in>set es. f e \<le> hi \<Longrightarrow> foldl (\<lambda>x e. max x (f e)) a es \<le> hi"
  by (induction es arbitrary: a) auto

lemma flush_text: "state_text (flush st) = state_text st"
  by (cases st) (simp add: flush_def state_text_def solid_pending)

lemma flush_voices: "state_voices (flush st) = state_voices st"
  by (cases st) (simp add: flush_def state_voices_def)

lemma flush_empties: "snd (flush st) = []"
  by (cases st) (simp add: flush_def)

lemma flush_ok:
  assumes "state_ok m lo hi st"
  shows "state_ok m lo hi (flush st)"
proof -
  obtain chunks pending where st: "st = (chunks, pending)" by (cases st)
  show ?thesis
  proof (cases pending)
    case Nil
    then show ?thesis using assms st by (simp add: flush_def)
  next
    case (Cons e es)
    have span: "entries_in lo hi (e # es)" using assms st Cons by (simp add: state_ok_def)
    then have "foldl (\<lambda>a e. max a (en_end e)) (en_end e) es \<le> hi"
      by (intro foldl_max_le) (auto simp: entries_in_def)
    moreover have "en_start e \<le> foldl (\<lambda>a e. max a (en_end e)) (en_end e) es"
      using span foldl_max_ge [of "en_end e" en_end es] by simp
    moreover have "length (strip (unwords (map en_text (e # es)))) \<le> m"
      using length_strip [of "unwords (map en_text (e # es))"] length_unwords_pending [of "e # es"]
        assms st Cons by (auto simp: state_ok_def)
    ultimately show ?thesis using assms st Cons span
      by (simp add: flush_def state_ok_def)
  qed
qed

lemmas flush_spec = flush_ok flush_text flush_voices flush_empties

lemma carry_pending_spec:
  assumes "carry_pending mn m e pending pieces = (pending', pieces')"
    and "capped m pieces" and "spans_in lo hi pieces" and "entries_in lo hi pending"
    and "chunks_voices pieces = entry_voice e"
    and "pending \<noteq> [] \<longrightarrow> (\<forall>c\<in>set pieces. en_start (hd pending) \<le> ck_start c)"
  shows "capped m pieces' \<and> spans_in lo hi pieces' \<and> (pending' = [] \<or> pending' = pending)
    \<and> entries_text pending' @ chunks_text pieces' = entries_text pending @ chunks_text pieces
    \<and> entries_voices pending' \<union> chunks_voices pieces' = entries_voices pending \<union> chunks_voices pieces"
proof (cases "pending' = pending \<and> pieces' = pieces")
  case True
  then show ?thesis using assms by simp
next
  case False
  let ?merged = "strip (strip (unwords (map en_text pending)) @ [32] @ ck_text (hd pieces))"
  have c: "pending \<noteq> []" "pieces \<noteq> []" "length ?merged \<le> m" "pending' = []"
    "pieces' = (hd pieces)\<lparr>ck_start := en_start (hd pending), ck_text := ?merged,
                 ck_speakers := speakers_of (pending @ [e])\<rparr> # tl pieces"
    using assms(1) False by (auto simp: carry_pending_def Let_def split: if_splits)
  obtain p ps where p: "pieces = p # ps" using c(2) by (cases pieces) auto
  obtain q qs where q: "pending = q # qs" using c(1) by (cases pending) auto
  have "chunks_voices pieces' = entries_voices pending \<union> chunks_voices pieces"
    using assms(5) unfolding c(5) p by auto
  moreover have "chunks_text pieces' = entries_text pending @ chunks_text pieces"
    unfolding c(5) by (simp add: p solid_pending del: solid_unwords)
  moreover have "spans_in lo hi pieces'"
    using assms(3,4,6) unfolding c(5) by (auto simp: p q)
  moreover have "capped m pieces'"
    using assms(2) c(3) unfolding c(5) by (auto simp: p)
  ultimately show ?thesis using c(4) by simp
qed

lemma add_entry_long:
  assumes st: "add_entry mn m target st e = Some st'" and ok: "state_ok m lo hi st"
    and e: "entries_in lo hi [e]" and ord: "\<forall>x\<in>set (snd st). en_start x \<le> en_start e"
    and long: "m < length (en_text e)"
  shows "state_ok m lo hi st' \<and> state_text st' = state_text st @ solid (en_text e)
    \<and> state_voices st' = state_voices st \<union> entry_voice e \<and> snd st' = []"
proof -
  obtain chunks pending where s: "st = (chunks, pending)" by (cases st)
  obtain pieces where p: "emit_split e m = Some pieces"
    using st s long by (auto simp: add_entry_def split: option.splits)
  obtain pending' pieces' where cp: "carry_pending mn m e pending pieces = (pending', pieces')"
    by (cases "carry_pending mn m e pending pieces")
  obtain chunks' pending'' where fl: "flush (chunks, pending') = (chunks', pending'')"
    by (cases "flush (chunks, pending')")
  note es = emit_split_spec [OF p]
  have sp: "spans_in (en_start e) (en_end e) pieces" using es e by simp
  then have sp': "spans_in lo hi pieces" using e by (fastforce simp: spans_in_def)
  have "pending \<noteq> [] \<Longrightarrow> en_start (hd pending) \<le> en_start e" using ord s by simp
  then have before: "pending \<noteq> [] \<longrightarrow> (\<forall>c\<in>set pieces. en_start (hd pending) \<le> ck_start c)"
    using sp unfolding spans_in_def by (meson order_trans)
  have car: "capped m pieces' \<and> spans_in lo hi pieces' \<and> (pending' = [] \<or> pending' = pending)
    \<and> entries_text pending' @ chunks_text pieces' = entries_text pending @ chunks_text pieces
    \<and> entries_voices pending' \<union> chunks_voices pieces' = entries_voices pending \<union> chunks_voices pieces"
    by (rule carry_pending_spec [OF cp]) (use es sp' before ok s in \<open>auto simp: state_ok_def\<close>)
  have "state_ok m lo hi (chunks, pending')" using car ok s by (auto simp: state_ok_def)
  note F = flush_spec(1) [OF this] flush_spec(2-) [of "(chunks, pending')"]
  have st': "st' = (chunks' @ pieces', pending'')"
    using st s long p cp fl by (simp add: add_entry_def)
  have "state_text st' = state_text (chunks, pending') @ chunks_text pieces'"
    using F(2,4) unfolding fl st' by (simp add: state_text_def)
  moreover have "state_voices st' = state_voices (chunks, pending') \<union> chunks_voices pieces'"
    using F(3,4) unfolding fl st' by (auto simp: state_voices_def)
  moreover have "state_ok m lo hi st' \<and> snd st' = []"
    using F(1,4) car unfolding fl st' by (auto simp: state_ok_def)
  ultimately show ?thesis using car es s by (auto simp: state_text_def state_voices_def)
qed

lemma add_entry_short:
  assumes st: "add_entry mn m target st e = Some st'" and ok: "state_ok m lo hi st"
    and e: "entries_in lo hi [e]" and short: "\<not> m < length (en_text e)"
  shows "state_ok m lo hi st' \<and> state_text st' = state_text st @ solid (en_text e)
    \<and> state_voices st' = state_voices st \<union> entry_voice e \<and> set (snd st') \<subseteq> insert e (set (snd st))"
proof -
  define st1 where "st1 = (if snd st \<noteq> [] \<and> m < pending_size (snd st) + length (en_text e)
    then flush st else st)"
  define st2 where "st2 = (fst st1, snd st1 @ [e])"
  have st': "st' = (if target \<le> pending_size (snd st2) then flush st2 else st2)"
    using st short by (cases st; cases st1) (auto simp: add_entry_def Let_def st1_def st2_def split: if_splits prod.splits)
  have 1: "state_ok m lo hi st1" "state_text st1 = state_text st" "state_voices st1 = state_voices st"
    "set (snd st1) \<subseteq> set (snd st)"
    using ok flush_spec by (auto simp: st1_def)
  have "snd st1 = [] \<or> pending_size (snd st1) + length (en_text e) \<le> m"
    using flush_empties by (auto simp: st1_def)
  then have "state_ok m lo hi st2" "state_text st2 = state_text st @ solid (en_text e)"
    "state_voices st2 = state_voices st \<union> entry_voice e"
    using 1 e short by (auto simp: st2_def state_defs)
  then show ?thesis using 1(4) flush_spec unfolding st' by (auto simp: st2_def)
qed

lemma add_entry_spec:
  assumes "add_entry mn m target st e = Some st'" and "state_ok m lo hi st"
    and "entries_in lo hi [e]" and "\<forall>x\<in>set (snd st). en_start x \<le> en_start e"
  shows "state_ok m lo hi st' \<and> state_text st' = state_text st @ solid (en_text e)
    \<and> state_voices st' = state_voices st \<union> entry_voice e \<and> set (snd st') \<subseteq> insert e (set (snd st))"
  using add_entry_long [OF assms] add_entry_short [OF assms(1-3)] by fastforce

lemma add_entries_spec:
  "add_entries mn m target st es = Some st' \<Longrightarrow> state_ok m lo hi st \<Longrightarrow> entries_in lo hi es \<Longrightarrow>
   sorted (map en_start es) \<Longrightarrow> \<forall>x\<in>set (snd st). \<forall>e\<in>set es. en_start x \<le> en_start e \<Longrightarrow>
   state_ok m lo hi st' \<and> state_text st' = state_text st @ entries_text es
   \<and> state_voices st' = state_voices st \<union> entries_voices es"
proof (induction es arbitrary: st)
  case Nil
  then show ?case by simp
next
  case (Cons e es)
  obtain st1 where st1: "add_entry mn m target st e = Some st1"
    and rest: "add_entries mn m target st1 es = Some st'"
    using Cons.prems(1) by (auto split: option.splits)
  have s: "state_ok m lo hi st1 \<and> state_text st1 = state_text st @ solid (en_text e)
    \<and> state_voices st1 = state_voices st \<union> entry_voice e \<and> set (snd st1) \<subseteq> insert e (set (snd st))"
    by (rule add_entry_spec [OF st1 Cons.prems(2)]) (use Cons.prems in auto)
  have "\<forall>x\<in>set (snd st1). \<forall>y\<in>set es. en_start x \<le> en_start y"
    using s Cons.prems(4,5) by auto
  then have "state_ok m lo hi st' \<and> state_text st' = state_text st1 @ entries_text es
   \<and> state_voices st' = state_voices st1 \<union> entries_voices es"
    using Cons.IH [OF rest] s Cons.prems by auto
  then show ?case using s by auto
qed

lemma add_entries_total: "0 < m \<Longrightarrow> \<exists>st'. add_entries mn m target st es = Some st'"
proof (induction es arbitrary: st)
  case (Cons e es)
  obtain cs where "emit_split e m = Some cs" using emit_split_total [OF Cons.prems] by blast
  then have "\<exists>st1. add_entry mn m target st e = Some st1"
    by (cases st) (auto simp: add_entry_def Let_def split: prod.splits)
  then show ?case using Cons.IH [OF Cons.prems] by fastforce
qed simp

section \<open>Compaction\<close>

lemma absorb_spec:
  "solid (ck_text (absorb h g b)) =
     (if b then solid (ck_text g) @ solid (ck_text h) else solid (ck_text h) @ solid (ck_text g))"
  "fits_beside m h g \<Longrightarrow> length (ck_text (absorb h g b)) \<le> m"
  "set (ck_speakers (absorb h g b)) = set (ck_speakers h) \<union> set (ck_speakers g)"
  "spans_in lo hi [h, g] \<Longrightarrow> spans_in lo hi [absorb h g b]"
proof -
  show "fits_beside m h g \<Longrightarrow> length (ck_text (absorb h g b)) \<le> m"
    using length_strip [of "ck_text g @ 32 # ck_text h"] length_strip [of "ck_text h @ 32 # ck_text g"]
    by (auto simp: absorb_def fits_beside_def)
qed (auto simp: absorb_def)

text \<open>Two chunk lists carry the same passage: same text, same voices.\<close>

definition same_passage :: "chunk list \<Rightarrow> chunk list \<Rightarrow> bool" where
  "same_passage a b \<longleftrightarrow> chunks_text a = chunks_text b \<and> chunks_voices a = chunks_voices b"

lemma same_passage_absorb_left:
  "d \<noteq> [] \<Longrightarrow> same_passage (butlast d @ absorb (last d) c False # r) (d @ c # r)"
proof -
  assume "d \<noteq> []"
  then obtain d0 h where "d = d0 @ [h]" by (metis append_butlast_last_id)
  then show ?thesis by (auto simp: same_passage_def absorb_spec)
qed

lemma same_passage_absorb_right: "same_passage (d @ absorb n c True # r) (d @ c # n # r)"
  by (auto simp: same_passage_def absorb_spec)

lemma compact_passage: "same_passage (compact mn m d cs) (d @ cs)"
proof (induction mn m d cs rule: compact.induct)
  case (1 mn m d)
  then show ?case by (simp add: same_passage_def)
next
  case (2 mn m d c rest)
  consider (keep) "mn \<le> length (ck_text c)"
    | (left) "\<not> mn \<le> length (ck_text c)" "d \<noteq> [] \<and> fits_beside m (last d) c"
    | (other) "\<not> mn \<le> length (ck_text c)" "\<not> (d \<noteq> [] \<and> fits_beside m (last d) c)"
    by blast
  then show ?case
  proof cases
    case keep
    then show ?thesis using "2.IH"(1) by simp
  next
    case left
    then show ?thesis using "2.IH"(2) same_passage_absorb_left [of d c rest]
      by (simp add: same_passage_def)
  next
    case other
    then show ?thesis using "2.IH"(3,4) same_passage_absorb_right [of d _ c]
      by (cases rest) (auto simp: same_passage_def)
  qed
qed

definition chunks_ok :: "nat \<Rightarrow> rat \<Rightarrow> rat \<Rightarrow> chunk list \<Rightarrow> bool" where
  "chunks_ok m lo hi cs \<longleftrightarrow> capped m cs \<and> spans_in lo hi cs"

lemma chunks_ok_simps [simp]:
  "chunks_ok m lo hi []"
  "chunks_ok m lo hi (a @ b) \<longleftrightarrow> chunks_ok m lo hi a \<and> chunks_ok m lo hi b"
  "chunks_ok m lo hi (c # d # cs) \<longleftrightarrow> chunks_ok m lo hi [c] \<and> chunks_ok m lo hi (d # cs)"
  by (auto simp: chunks_ok_def)

lemma chunks_ok_Cons: "chunks_ok m lo hi (c # cs) \<longleftrightarrow> chunks_ok m lo hi [c] \<and> chunks_ok m lo hi cs"
  by (auto simp: chunks_ok_def)

lemma absorb_ok:
  "fits_beside m h g \<Longrightarrow> chunks_ok m lo hi [h] \<Longrightarrow> chunks_ok m lo hi [g] \<Longrightarrow>
     chunks_ok m lo hi [absorb h g b]"
  using absorb_spec(2) [of m h g b] absorb_spec(4) [of lo hi h g b] by (auto simp: chunks_ok_def)

lemma chunks_ok_butlast_last:
  "d \<noteq> [] \<Longrightarrow> chunks_ok m lo hi d \<longleftrightarrow> chunks_ok m lo hi (butlast d) \<and> chunks_ok m lo hi [last d]"
  by (metis append_butlast_last_id chunks_ok_simps(2))

lemma compact_ok: "chunks_ok m lo hi d \<Longrightarrow> chunks_ok m lo hi cs \<Longrightarrow> chunks_ok m lo hi (compact mn m d cs)"
proof (induction mn m d cs rule: compact.induct)
  case (1 mn m d)
  then show ?case by simp
next
  case (2 mn m d c rest)
  have c: "chunks_ok m lo hi [c]" "chunks_ok m lo hi rest"
    using "2.prems"(2) by (simp_all add: chunks_ok_Cons [of _ _ _ c rest])
  have abs: "chunks_ok m lo hi (butlast d @ [absorb (last d) c False])"
    if "d \<noteq> [] \<and> fits_beside m (last d) c"
    using that c absorb_ok [of m "last d" c] "2.prems"(1) chunks_ok_butlast_last [of d] by auto
  show ?case
  proof (cases "\<not> mn \<le> length (ck_text c) \<and> \<not> (d \<noteq> [] \<and> fits_beside m (last d) c)")
    case False
    then show ?thesis using "2.IH"(1,2) "2.prems"(1) c abs by auto
  next
    case True
    show ?thesis
    proof (cases rest)
      case Nil
      then show ?thesis using True "2.prems"(1) c by auto
    next
      case (Cons n ns)
      then have n: "chunks_ok m lo hi [n]" "chunks_ok m lo hi ns"
        using c(2) by (simp_all add: chunks_ok_Cons [of _ _ _ n ns])
      then have "fits_beside m n c \<Longrightarrow> chunks_ok m lo hi (absorb n c True # ns)"
        using absorb_ok [of m n c] c(1) chunks_ok_Cons by blast
      then show ?thesis using True "2.IH"(3,4) "2.prems"(1) c Cons by auto
    qed
  qed
qed

lemma fold_tail_cases:
  obtains "fold_tail mn m cs = cs"
  | rest p t where "cs = rest @ [p, t]"
    and "length (strip (ck_text p @ [32] @ ck_text t)) \<le> m"
    and "fold_tail mn m cs = rest @ [p\<lparr>ck_text := strip (ck_text p @ [32] @ ck_text t),
           ck_end := max (ck_end p) (ck_end t),
           ck_speakers := add_missing (ck_speakers p) (ck_speakers t)\<rparr>]"
proof (cases "length cs > 1")
  case False
  then show thesis using that(1) by (simp add: fold_tail_def)
next
  case True
  then obtain rest p t where cs: "cs = rest @ [p, t]" using last_two [OF True] by metis
  let ?w = "strip (ck_text p @ [32] @ ck_text t)"
  have eq: "fold_tail mn m cs = (if length (ck_text t) < mn \<and> length ?w \<le> m
      then rest @ [p\<lparr>ck_text := ?w, ck_end := max (ck_end p) (ck_end t),
                    ck_speakers := add_missing (ck_speakers p) (ck_speakers t)\<rparr>]
      else cs)"
    by (simp add: fold_tail_def Let_def cs butlast_append)
  show thesis
  proof (cases "length (ck_text t) < mn \<and> length ?w \<le> m")
    case True
    then show thesis using that(2) [OF cs] unfolding eq if_P [OF True] by blast
  next
    case False
    then have "fold_tail mn m cs = cs" unfolding eq by (rule if_not_P)
    then show thesis by (rule that(1))
  qed
qed

lemma fold_tail_passage: "same_passage (fold_tail mn m cs) cs"
  by (rule fold_tail_cases [of mn m cs]) (auto simp: same_passage_def)

lemma fold_tail_ok: "chunks_ok m lo hi cs \<Longrightarrow> chunks_ok m lo hi (fold_tail mn m cs)"
  by (rule fold_tail_cases [of mn m cs]) (auto simp: chunks_ok_def)

lemma length_number_chunks [simp]: "length (number_chunks cs) = length cs"
  by (simp add: number_chunks_def)

lemma nth_number_chunks [simp]: "i < length cs \<Longrightarrow> number_chunks cs ! i = (cs ! i)\<lparr>ck_index := i\<rparr>"
  by (simp add: number_chunks_def nth_enumerate_eq)

lemma map_number_chunks:
  "(\<And>c i. f (c\<lparr>ck_index := i\<rparr>) = f c) \<Longrightarrow> map f (number_chunks cs) = map f cs"
  by (rule nth_equalityI) simp_all

lemma set_number_chunks: "c \<in> set (number_chunks cs) \<Longrightarrow> \<exists>i. \<exists>c'\<in>set cs. c = c'\<lparr>ck_index := i\<rparr>"
  by (metis in_set_conv_nth length_number_chunks nth_number_chunks)

lemma number_chunks_ok: "chunks_ok m lo hi cs \<Longrightarrow> chunks_ok m lo hi (number_chunks cs)"
  by (fastforce simp: chunks_ok_def capped_def spans_in_def dest: set_number_chunks)

lemma number_chunks_passage: "same_passage (number_chunks cs) cs"
proof -
  have "chunks_text (number_chunks cs) = chunks_text cs"
    unfolding chunks_text_def by (rule arg_cong [where f = concat]) (rule map_number_chunks, simp)
  moreover have "chunks_voices xs = \<Union> (set (map (\<lambda>c. set (ck_speakers c)) xs))" for xs
    by (simp add: chunks_voices_def)
  then have "chunks_voices (number_chunks cs) = chunks_voices cs"
    by (simp only:) (subst map_number_chunks, simp_all)
  ultimately show ?thesis by (simp add: same_passage_def)
qed

section \<open>The whole pipeline\<close>

lemma clean_entry_span: "clean_entry r = Some e \<Longrightarrow> en_start e \<le> en_end e"
  by (auto simp: clean_entry_def Let_def split: option.splits if_splits)

lemma set_clean_entries:
  "e \<in> set (clean_entries raw) \<Longrightarrow> \<exists>r. clean_entry r = Some e"
  by (auto simp: clean_entries_def map_filter_def split: option.splits)

lemma clean_entries_span: "e \<in> set (clean_entries raw) \<Longrightarrow> en_start e \<le> en_end e"
  using set_clean_entries clean_entry_span by blast

lemma sorted_clean_entries: "sorted (map en_start (clean_entries raw))"
  by (simp add: clean_entries_def split: option.splits)

lemma chunk_entries_all:
  assumes "0 < m"
  obtains cs where "chunk_entries raw mn m target = Some cs"
    and "chunks_text cs = entries_text (clean_entries raw)"
    and "chunks_voices cs = entries_voices (clean_entries raw)"
    and "\<And>lo hi. \<forall>e\<in>set (clean_entries raw). lo \<le> en_start e \<and> en_end e \<le> hi \<Longrightarrow> chunks_ok m lo hi cs"
    and "\<forall>i<length cs. ck_index (cs ! i) = i"
proof (cases "clean_entries raw = []")
  case True
  then show thesis
    by (intro that [of "[]"]) (simp_all add: chunk_entries_def chunk_cleaned_def same_passage_def)
next
  case False
  let ?es = "clean_entries raw"
  obtain st where st: "add_entries mn m target ([], []) ?es = Some st"
    using add_entries_total [OF assms] by blast
  define cs0 where "cs0 = compact mn m [] (fst (flush st))"
  define cs where "cs = number_chunks (fold_tail mn m cs0)"
  have res: "chunk_entries raw mn m target = Some cs"
    using False st by (simp add: chunk_entries_def chunk_cleaned_def cs_def cs0_def)
  have inv: "state_ok m lo hi st \<and> state_text st = entries_text ?es \<and> state_voices st = entries_voices ?es"
    if "\<forall>e\<in>set ?es. lo \<le> en_start e \<and> en_end e \<le> hi" for lo hi
    using add_entries_spec [OF st, of lo hi] that clean_entries_span sorted_clean_entries
    by (auto simp: state_defs entries_in_def)
  have "\<exists>lo hi. \<forall>e\<in>set ?es. lo \<le> en_start e \<and> en_end e \<le> hi"
  proof (intro exI ballI)
    fix e assume "e \<in> set ?es"
    then show "Min (en_start ` set ?es) \<le> en_start e \<and> en_end e \<le> Max (en_end ` set ?es)" by simp
  qed
  then have tv: "state_text st = entries_text ?es" "state_voices st = entries_voices ?es"
    using inv by blast+
  have fl: "chunks_text (fst (flush st)) = entries_text ?es" "chunks_voices (fst (flush st)) = entries_voices ?es"
    using flush_text [of st] flush_voices [of st] flush_empties [of st] tv
    by (simp_all add: state_text_def state_voices_def)
  have "chunks_text cs = entries_text ?es \<and> chunks_voices cs = entries_voices ?es"
    using number_chunks_passage [of "fold_tail mn m cs0"] fold_tail_passage [of mn m cs0]
      compact_passage [of mn m "[]" "fst (flush st)"] fl
    by (simp add: same_passage_def cs_def cs0_def)
  moreover have "chunks_ok m lo hi cs"
    if "\<forall>e\<in>set ?es. lo \<le> en_start e \<and> en_end e \<le> hi" for lo hi
    unfolding cs_def cs0_def using flush_ok [of m lo hi st] inv [OF that]
    by (intro number_chunks_ok fold_tail_ok compact_ok) (auto simp: state_ok_def chunks_ok_def)
  moreover have "\<forall>i<length cs. ck_index (cs ! i) = i" by (simp add: cs_def)
  ultimately show thesis using that res by (auto simp: same_passage_def)
qed

section \<open>Properties\<close>

text \<open>A two-voice exchange and a long turn, used by the witnesses.\<close>

definition sample_raw :: "raw_entry option list option" where
  "sample_raw = Some
     [Some \<lparr>re_start = PyNum 4, re_end = PyNum 9, re_text = Some (lit ''bb bb. bb bb''), re_speaker = Some (lit ''S1'')\<rparr>,
      None,
      Some \<lparr>re_start = PyNum 0, re_end = PyNum 1, re_text = Some (lit ''a.''), re_speaker = Some (lit ''S0'')\<rparr>,
      Some \<lparr>re_start = PyNone, re_end = PyNum 1, re_text = Some (lit ''zz''), re_speaker = None\<rparr>]"

text \<open>(C18) Chunking always returns (for a positive cap), and it loses nothing: the chunks, read in
  order, carry exactly the non-blank characters of the usable entries, in the order of their
  start times.\<close>

theorem chunk_entries_lossless:
  assumes "0 < m"
  shows "\<exists>cs. chunk_entries raw mn m target = Some cs
           \<and> chunks_text cs = entries_text (clean_entries raw)"
  by (rule chunk_entries_all [OF assms, of raw mn target]) blast

theorem chunk_entries_lossless_witness:
  "(0::nat) < 8 \<and> (\<exists>cs. chunk_entries sample_raw 3 8 5 = Some cs
     \<and> chunks_text cs = entries_text (clean_entries sample_raw))"
  using chunk_entries_lossless [of 8 sample_raw 3 5] by simp

text \<open>(C35) No chunk is longer than the cap, whatever was merged, split, rebalanced or absorbed.\<close>

theorem chunk_entries_within_cap:
  assumes "0 < m"
  shows "\<exists>cs. chunk_entries raw mn m target = Some cs \<and> (\<forall>c\<in>set cs. length (ck_text c) \<le> m)"
proof (rule chunk_entries_all [OF assms, of raw mn target])
  fix cs
  let ?es = "clean_entries raw"
  assume r: "chunk_entries raw mn m target = Some cs"
    and ok: "\<And>lo hi. \<forall>e\<in>set ?es. lo \<le> en_start e \<and> en_end e \<le> hi \<Longrightarrow> chunks_ok m lo hi cs"
  have "chunks_ok m (Min (en_start ` set ?es)) (Max (en_end ` set ?es)) cs"
    by (rule ok) simp
  then show ?thesis using r by (auto simp: chunks_ok_def capped_def)
qed

theorem chunk_entries_within_cap_witness:
  "(0::nat) < 8 \<and> (\<exists>cs. chunk_entries sample_raw 3 8 5 = Some cs \<and> (\<forall>c\<in>set cs. length (ck_text c) \<le> 8))"
  using chunk_entries_within_cap [of 8 sample_raw 3 5] by simp

text \<open>A citation names every voice and none that did not speak: the speakers recorded on the
  chunks are exactly the non-empty speaker tags of the usable entries. The chunks are numbered
  0, 1, ... in order.\<close>

theorem chunk_entries_speakers:
  assumes "0 < m"
  shows "\<exists>cs. chunk_entries raw mn m target = Some cs
           \<and> chunks_voices cs = entries_voices (clean_entries raw)
           \<and> map ck_index cs = [0..<length cs]"
proof (rule chunk_entries_all [OF assms, of raw mn target])
  fix cs
  assume r: "chunk_entries raw mn m target = Some cs"
    and v: "chunks_voices cs = entries_voices (clean_entries raw)"
    and i: "\<forall>i<length cs. ck_index (cs ! i) = i"
  have "map ck_index cs = [0..<length cs]" by (rule nth_equalityI) (use i in auto)
  then show ?thesis using r v by blast
qed

theorem chunk_entries_speakers_witness:
  "(0::nat) < 8 \<and> (\<exists>cs. chunk_entries sample_raw 3 8 5 = Some cs
     \<and> chunks_voices cs = entries_voices (clean_entries sample_raw)
     \<and> map ck_index cs = [0..<length cs])"
  using chunk_entries_speakers [of 8 sample_raw 3 5] by simp

text \<open>Every chunk is an interval of the recording: it does not run backwards, and it lies
  inside any interval that holds all the usable entries (so an interpolated timing never points
  outside the recording).\<close>

theorem chunk_entries_spans:
  assumes "0 < m" and "\<forall>e\<in>set (clean_entries raw). lo \<le> en_start e \<and> en_end e \<le> hi"
  shows "\<exists>cs. chunk_entries raw mn m target = Some cs
           \<and> (\<forall>c\<in>set cs. lo \<le> ck_start c \<and> ck_start c \<le> ck_end c \<and> ck_end c \<le> hi)"
  by (rule chunk_entries_all [OF assms(1), of raw mn target])
     (use assms(2) in \<open>auto simp: chunks_ok_def spans_in_def\<close>)

lemma clean_entry_times:
  "clean_entry r = Some e \<Longrightarrow> \<exists>x t. r = Some x \<and> as_float (re_start x) = Some (en_start e)
     \<and> as_float (re_end x) = Some t \<and> en_end e = max t (en_start e)"
  by (auto simp: clean_entry_def Let_def split: option.splits if_splits)

lemma set_clean_entries_Some:
  "e \<in> set (clean_entries (Some rs)) \<Longrightarrow> \<exists>r\<in>set rs. clean_entry r = Some e"
  by (auto simp: clean_entries_def map_filter_def)

lemma clean_sample: "\<forall>e\<in>set (clean_entries sample_raw). 0 \<le> en_start e \<and> en_end e \<le> 9"
  unfolding sample_raw_def
  by (auto dest!: set_clean_entries_Some clean_entry_times simp: as_float_def)

theorem chunk_entries_spans_witness:
  "(0::nat) < 8 \<and> list_all (\<lambda>e. 0 \<le> en_start e \<and> en_end e \<le> 9) (clean_entries sample_raw)
   \<and> (\<exists>cs. chunk_entries sample_raw 3 8 5 = Some cs
        \<and> (\<forall>c\<in>set cs. 0 \<le> ck_start c \<and> ck_start c \<le> ck_end c \<and> ck_end c \<le> 9))"
  using chunk_entries_spans [OF _ clean_sample, of 8 3 5] clean_sample by (simp add: list_all_iff)

text \<open>The voices of a chunk are listed by first appearance, except where a fragment was put in
  front of the chunk that follows it: then the host's voices come first.\<close>

lemma absorb_front_order:
  "ck_speakers (absorb \<lparr>ck_index = 0, ck_start = 1, ck_end = 2, ck_text = lit ''b'', ck_speakers = [lit ''S1'']\<rparr>
                       \<lparr>ck_index = 0, ck_start = 0, ck_end = 1, ck_text = lit ''a'', ck_speakers = [lit ''S0'']\<rparr> True)
     = [lit ''S1'', lit ''S0'']"
  by (simp add: absorb_def lit_def)

end
