(* ===== verification/Diar_Merge.thy ===== *)
theory Diar_Merge
  imports VTS_Prelude
begin

text \<open>
  \<open>vts/services/diarization/merge.py\<close>: attributing a transcript to the speakers a diarization
  found. Speaker lookup by overlap, the split of an entry where the speaker changes, the fold of
  marginal speakers, the cleanup of repeated sentences, and the labelled rendering.

  Dictionaries read by fixed keys are records. A Whisper payload is the nested optional lists its
  \<open>isinstance\<close> tests distinguish. Times are rationals.
\<close>

section \<open>Data\<close>

record diar_segment =
  ds_start :: rat
  ds_end :: rat
  ds_speaker :: ustr

record transcript_entry =
  te_start :: rat
  te_end :: rat
  te_text :: ustr
  te_speaker :: "ustr option"

text \<open>A word of a payload, its timings possibly absent; and a usable word.\<close>

record raw_word =
  rw_word :: ustr
  rw_start :: "rat option"
  rw_end :: "rat option"

record timed_word =
  tw_word :: ustr
  tw_start :: rat
  tw_end :: rat

text \<open>\<open>raw_json["segments"]\<close>: \<open>None\<close> where the value is not a list, a segment \<open>None\<close> where it is
  not a dictionary, a word likewise; missing \<open>words\<close> are the empty list.\<close>

type_synonym whisper_segments = "raw_word option list option list option"

record group =
  gr_speaker :: "ustr option"
  gr_words :: "timed_word list"
  gr_start :: rat
  gr_end :: rat

section \<open>Repeated units at the edges\<close>

definition normalize_token :: "unicode \<Rightarrow> ustr \<Rightarrow> ustr" where
  "normalize_token uc v = uc_lower uc (strip (filter (uc_word uc) v))"

definition min_repeats :: nat where "min_repeats = 6"

text \<open>The length of the run of units that normalise to \<open>h\<close> at the front.\<close>

definition run_length :: "unicode \<Rightarrow> ustr \<Rightarrow> ustr list \<Rightarrow> nat" where
  "run_length uc h units = length (takeWhile (\<lambda>v. normalize_token uc v = h) units)"

text \<open>One \<open>while\<close> loop: what remains, the number of units removed, the last phrase removed.
  The second loop of the source is the same loop on the reversed list.\<close>

function trim_run ::
  "unicode \<Rightarrow> ustr list \<Rightarrow> nat \<Rightarrow> ustr option \<Rightarrow> ustr list \<times> nat \<times> ustr option" where
  "trim_run uc units removed phrase =
     (if length units < min_repeats then (units, removed, phrase)
      else (let h = normalize_token uc (hd units) in
            if h = [] \<or> 64 < length h then (units, removed, phrase)
            else (let repeats = run_length uc h units in
                  if repeats < min_repeats then (units, removed, phrase)
                  else trim_run uc (drop repeats units) (removed + repeats) (Some (hd units)))))"
  by pat_completeness auto
termination
  by (relation "measure (\<lambda>(uc, units, removed, phrase). length units)") (auto simp: min_repeats_def)

declare trim_run.simps [simp del]

record trim_meta =
  tm_head :: nat
  tm_tail :: nat
  tm_head_phrase :: "ustr option"
  tm_tail_phrase :: "ustr option"

definition empty_meta :: trim_meta where
  "empty_meta = \<lparr>tm_head = 0, tm_tail = 0, tm_head_phrase = None, tm_tail_phrase = None\<rparr>"

definition trim_repetitive_units :: "unicode \<Rightarrow> ustr list \<Rightarrow> ustr list \<times> trim_meta" where
  "trim_repetitive_units uc units =
     (case trim_run uc units 0 None of (rest, nh, ph) \<Rightarrow>
       (case trim_run uc (rev rest) 0 None of (tser, nt, pt) \<Rightarrow>
         (rev tser, \<lparr>tm_head = nh, tm_tail = nt, tm_head_phrase = ph, tm_tail_phrase = pt\<rparr>)))"

text \<open>The stripped non-empty sentences of an entry.\<close>

definition entry_sentences :: "transcript_entry \<Rightarrow> ustr list" where
  "entry_sentences e = (let text = strip (te_text e)
     in if text = [] then [] else filter (\<lambda>p. p \<noteq> []) (map strip (sentence_split text)))"

definition owned_sentences :: "transcript_entry list \<Rightarrow> (nat \<times> ustr) list" where
  "owned_sentences entries =
     concat (map (\<lambda>(i, e). map (\<lambda>p. (i, p)) (entry_sentences e)) (enumerate 0 entries))"

definition trim_repetitive_entries ::
  "unicode \<Rightarrow> transcript_entry list \<Rightarrow> transcript_entry list \<times> trim_meta" where
  "trim_repetitive_entries uc entries =
     (if entries = [] then ([], empty_meta)
      else (let pairs = owned_sentences entries; owners = map fst pairs; sentences = map snd pairs
            in if sentences = [] then (entries, empty_meta)
               else (case trim_repetitive_units uc sentences of (kept, meta) \<Rightarrow>
                 (let kept_owners =
                        (if tm_head meta \<noteq> 0 \<or> tm_tail meta \<noteq> 0
                         then drop (tm_head meta) (take (length sentences - tm_tail meta) owners)
                         else owners)
                  in if kept = [] then (entries, meta)
                     else (let owned = (\<lambda>i. map snd (filter (\<lambda>(o', s). o' = i) (zip kept_owners kept)))
                           in (List.map_filter
                                 (\<lambda>(i, e). if owned i = [] then None
                                           else Some (e\<lparr>te_text := unwords (owned i)\<rparr>))
                                 (enumerate 0 entries), meta))))))"

section \<open>Who speaks in an interval\<close>

definition overlap :: "rat \<Rightarrow> rat \<Rightarrow> rat \<Rightarrow> rat \<Rightarrow> rat" where
  "overlap a_start a_end b_start b_end = max 0 (min a_end b_end - max a_start b_start)"

fun best_overlap ::
  "rat \<Rightarrow> rat \<Rightarrow> ustr option \<Rightarrow> rat \<Rightarrow> diar_segment list \<Rightarrow> ustr option" where
  "best_overlap s t speaker best [] = speaker"
| "best_overlap s t speaker best (d # ds) =
     (let ov = overlap s t (ds_start d) (ds_end d)
      in if best < ov then best_overlap s t (Some (ds_speaker d)) ov ds
         else best_overlap s t speaker best ds)"

definition speaker_at :: "diar_segment list \<Rightarrow> rat \<Rightarrow> rat \<Rightarrow> ustr option" where
  "speaker_at ds s t =
     (if t \<le> s then map_option ds_speaker (find (\<lambda>d. ds_start d \<le> s \<and> s \<le> ds_end d) ds)
      else best_overlap s t None 0 ds)"

definition edge_distance :: "rat \<Rightarrow> diar_segment \<Rightarrow> rat" where
  "edge_distance x d = (if ds_start d \<le> x \<and> x \<le> ds_end d then 0
     else min \<bar>x - ds_start d\<bar> \<bar>x - ds_end d\<bar>)"

text \<open>\<open>best\<close> is \<open>None\<close> for the initial infinity.\<close>

fun nearest_from :: "rat \<Rightarrow> ustr option \<Rightarrow> rat option \<Rightarrow> diar_segment list \<Rightarrow> ustr option" where
  "nearest_from x speaker best [] = speaker"
| "nearest_from x speaker best (d # ds) =
     (let dist = edge_distance x d
      in if (case best of None \<Rightarrow> True | Some b \<Rightarrow> dist < b)
         then nearest_from x (Some (ds_speaker d)) (Some dist) ds
         else nearest_from x speaker best ds)"

definition nearest_speaker :: "diar_segment list \<Rightarrow> rat \<Rightarrow> rat \<Rightarrow> ustr option" where
  "nearest_speaker ds s t =
     (case speaker_at ds s t of Some sp \<Rightarrow> Some sp | None \<Rightarrow> nearest_from ((s + t) / 2) None None ds)"

section \<open>Speaking time and noise\<close>

fun add_seconds :: "(ustr \<times> rat) list \<Rightarrow> diar_segment list \<Rightarrow> (ustr \<times> rat) list" where
  "add_seconds totals [] = totals"
| "add_seconds totals (d # ds) =
     add_seconds (dict_set totals (ds_speaker d)
       ((case dict_get totals (ds_speaker d) of None \<Rightarrow> 0 | Some v \<Rightarrow> v) + (ds_end d - ds_start d))) ds"

definition speaker_seconds :: "diar_segment list \<Rightarrow> (ustr \<times> rat) list" where
  "speaker_seconds ds = add_seconds [] ds"

definition speaker_shares :: "diar_segment list \<Rightarrow> (ustr \<times> rat) list" where
  "speaker_shares ds = (let totals = speaker_seconds ds; overall = sum_list (map snd totals)
     in if overall \<le> 0 then [] else map (\<lambda>(s, v). (s, v / overall)) totals)"

definition cosine_distance :: "real list \<Rightarrow> real list \<Rightarrow> real" where
  "cosine_distance a b =
     (let dot = sum_list (map2 (*) a b); na = sqrt (sum_list (map (\<lambda>x. x * x) a));
          nb = sqrt (sum_list (map (\<lambda>x. x * x) b))
      in if na = 0 \<or> nb = 0 then 1 else 1 - dot / (na * nb))"

text \<open>\<open>embeddings.get(label)\<close>, an empty vector counting as none.\<close>

definition embedding_of :: "(ustr \<times> real list) list \<Rightarrow> ustr \<Rightarrow> real list option" where
  "embedding_of embeddings l =
     (case dict_get embeddings l of None \<Rightarrow> None | Some e \<Rightarrow> if e = [] then None else Some e)"

definition is_auto_noise ::
  "(ustr \<times> rat) list \<Rightarrow> (ustr \<times> real list) list \<Rightarrow> rat \<Rightarrow> real \<Rightarrow> ustr \<Rightarrow> rat \<Rightarrow> bool" where
  "is_auto_noise shares embeddings min_share max_distance label share =
     (if min_share \<le> share then False
      else (case embedding_of embeddings label of None \<Rightarrow> False
            | Some emb \<Rightarrow>
                list_ex (\<lambda>(other, other_share).
                  if other = label \<or> other_share \<le> share then False
                  else (case embedding_of embeddings other of None \<Rightarrow> False
                        | Some other_emb \<Rightarrow> cosine_distance emb other_emb \<le> max_distance)) shares))"

definition auto_noise_labels ::
  "(ustr \<times> rat) list \<Rightarrow> (ustr \<times> real list) list \<Rightarrow> rat \<Rightarrow> real \<Rightarrow> ustr list" where
  "auto_noise_labels shares embeddings min_share max_distance =
     map fst (filter (\<lambda>(l, s). is_auto_noise shares embeddings min_share max_distance l s) shares)"

section \<open>Words of a payload\<close>

text \<open>The words with their timings read; the caller has checked that they are present.\<close>

definition timed :: "raw_word \<Rightarrow> ustr \<Rightarrow> timed_word" where
  "timed w text = \<lparr>tw_word = text, tw_start = (case rw_start w of Some s \<Rightarrow> s | None \<Rightarrow> 0),
                   tw_end = (case rw_end w of Some t \<Rightarrow> t | None \<Rightarrow> 0)\<rparr>"

definition starts_with_space :: "ustr \<Rightarrow> bool" where
  "starts_with_space s \<longleftrightarrow> s \<noteq> [] \<and> hd s = 32"

fun glue_from :: "timed_word list \<Rightarrow> raw_word list \<Rightarrow> timed_word list" where
  "glue_from glued [] = glued"
| "glue_from glued (w # ws) =
     (let text = strip (rw_word w)
      in if text = [] then glue_from glued ws
         else if starts_with_space (rw_word w) \<or> glued = [] then glue_from (glued @ [timed w text]) ws
         else (let g = last glued
               in glue_from (butlast glued @ [g\<lparr>tw_word := tw_word g @ text,
                                                tw_end := tw_end (timed w text)\<rparr>]) ws))"

definition glue_subwords :: "raw_word list \<Rightarrow> timed_word list" where
  "glue_subwords words =
     (if \<not> list_ex (\<lambda>w. starts_with_space (rw_word w)) words
      then map (\<lambda>w. timed w (strip (rw_word w))) (filter (\<lambda>w. strip (rw_word w) \<noteq> []) words)
      else glue_from [] words)"

text \<open>The words of all dictionary segments; \<open>None\<close> where a word lacks a timing.\<close>

definition payload_words :: "raw_word option list option list \<Rightarrow> raw_word list option" where
  "payload_words segs =
     (let ws = List.map_filter (\<lambda>w. w) (concat (List.map_filter (\<lambda>s. s) segs))
      in if list_ex (\<lambda>w. rw_start w = None \<or> rw_end w = None) ws then None else Some ws)"

definition usable_words :: "whisper_segments \<Rightarrow> timed_word list option" where
  "usable_words raw = (case raw of None \<Rightarrow> None | Some segs \<Rightarrow>
     (case payload_words segs of None \<Rightarrow> None
      | Some ws \<Rightarrow> if ws = [] then None
                   else (let glued = glue_subwords ws in if glued = [] then None else Some glued)))"

section \<open>Splitting an entry by speaker\<close>

fun group_words_from :: "group list \<Rightarrow> diar_segment list \<Rightarrow> timed_word list \<Rightarrow> group list" where
  "group_words_from groups ds [] = groups"
| "group_words_from groups ds (w # ws) =
     (let speaker = nearest_speaker ds (tw_start w) (tw_end w)
      in if groups \<noteq> [] \<and> (speaker = None \<or> gr_speaker (last groups) = speaker)
         then (let g = last groups
               in group_words_from (butlast groups @ [g\<lparr>gr_words := gr_words g @ [w], gr_end := tw_end w\<rparr>]) ds ws)
         else group_words_from (groups @ [\<lparr>gr_speaker = speaker, gr_words = [w],
                                           gr_start = tw_start w, gr_end = tw_end w\<rparr>]) ds ws)"

definition group_words_by_speaker :: "timed_word list \<Rightarrow> diar_segment list \<Rightarrow> group list" where
  "group_words_by_speaker ws ds = group_words_from [] ds ws"

definition extend_last :: "group list \<Rightarrow> group \<Rightarrow> group list" where
  "extend_last kept g = (let k = last kept
     in butlast kept @ [k\<lparr>gr_words := gr_words k @ gr_words g, gr_end := gr_end g\<rparr>])"

definition big_enough :: "nat \<Rightarrow> rat \<Rightarrow> group \<Rightarrow> bool" where
  "big_enough min_words min_seconds g \<longleftrightarrow>
     min_words \<le> length (gr_words g) \<and> min_seconds \<le> gr_end g - gr_start g"

definition absorb_step ::
  "nat \<Rightarrow> rat \<Rightarrow> group list \<times> group option \<Rightarrow> group \<Rightarrow> group list \<times> group option" where
  "absorb_step min_words min_seconds st g = (case st of (kept, leading) \<Rightarrow>
     if big_enough min_words min_seconds g \<or> gr_speaker g = None
     then (if gr_speaker g = None \<and> kept \<noteq> [] then (extend_last kept g, leading)
           else (case leading of None \<Rightarrow> (kept @ [g], None)
                 | Some l \<Rightarrow> (kept @ [g\<lparr>gr_words := gr_words l @ gr_words g, gr_start := gr_start l\<rparr>], None)))
     else if kept \<noteq> [] then (extend_last kept g, leading)
     else (case leading of None \<Rightarrow> (kept, Some g)
           | Some l \<Rightarrow> (kept, Some (l\<lparr>gr_words := gr_words l @ gr_words g, gr_end := gr_end g\<rparr>))))"

fun merge_adjacent_from :: "group list \<Rightarrow> group list \<Rightarrow> group list" where
  "merge_adjacent_from merged [] = merged"
| "merge_adjacent_from merged (g # gs) =
     (if merged \<noteq> [] \<and> gr_speaker (last merged) = gr_speaker g
      then merge_adjacent_from (extend_last merged g) gs
      else merge_adjacent_from (merged @ [g]) gs)"

definition merge_adjacent_same_speaker :: "group list \<Rightarrow> group list" where
  "merge_adjacent_same_speaker gs = merge_adjacent_from [] gs"

definition absorb_small_groups :: "group list \<Rightarrow> nat \<Rightarrow> rat \<Rightarrow> group list" where
  "absorb_small_groups groups min_words min_seconds =
     merge_adjacent_same_speaker (fst (foldl (absorb_step min_words min_seconds) ([], None) groups))"

definition group_text :: "group \<Rightarrow> ustr" where
  "group_text g = unwords (filter (\<lambda>t. t \<noteq> []) (map (\<lambda>w. strip (tw_word w)) (gr_words g)))"

definition split_entry_by_speaker ::
  "transcript_entry \<Rightarrow> timed_word list \<Rightarrow> diar_segment list \<Rightarrow> nat \<Rightarrow> rat \<Rightarrow> transcript_entry list" where
  "split_entry_by_speaker e ws ds min_words min_seconds =
     (let whole = speaker_at ds (te_start e) (te_end e)
      in if ws = [] then [e\<lparr>te_speaker := whole\<rparr>]
         else (let groups = absorb_small_groups (group_words_by_speaker ws ds) min_words min_seconds
               in if length groups \<le> 1
                  then (let speaker = (case groups of [] \<Rightarrow> None | g # _ \<Rightarrow> gr_speaker g)
                        in [e\<lparr>te_speaker := (if speaker = None then whole else speaker)\<rparr>])
                  else map (\<lambda>g. \<lparr>te_start = gr_start g, te_end = gr_end g,
                                 te_text = group_text g, te_speaker = gr_speaker g\<rparr>) groups))"

text \<open>The words of the chunk behind an entry, moved to the recording's clock and cut to the entry.\<close>

definition entry_words :: "transcript_entry \<Rightarrow> whisper_segments option \<Rightarrow> timed_word list" where
  "entry_words e raw = (let offset = te_start e;
       ws = (case raw of None \<Rightarrow> [] | Some r \<Rightarrow> (case usable_words r of None \<Rightarrow> [] | Some x \<Rightarrow> x));
       shifted = map (\<lambda>w. w\<lparr>tw_start := tw_start w + offset, tw_end := tw_end w + offset\<rparr>) ws
     in filter (\<lambda>w. offset < tw_end w \<and> tw_start w < te_end e) shifted)"

definition merge_entries ::
  "transcript_entry list \<Rightarrow> (nat \<Rightarrow> whisper_segments option) \<Rightarrow> diar_segment list \<Rightarrow> nat \<Rightarrow> rat
     \<Rightarrow> transcript_entry list" where
  "merge_entries entries raw_by_index ds min_words min_seconds =
     concat (map (\<lambda>(i, e). split_entry_by_speaker e (entry_words e (raw_by_index i)) ds min_words min_seconds)
                 (enumerate 0 entries))"

section \<open>Folding marginal speakers\<close>

fun entry_totals :: "(ustr \<times> rat) list \<Rightarrow> transcript_entry list \<Rightarrow> (ustr \<times> rat) list" where
  "entry_totals totals [] = totals"
| "entry_totals totals (e # es) =
     (case te_speaker e of None \<Rightarrow> entry_totals totals es
      | Some s \<Rightarrow> entry_totals (dict_set totals s
          ((case dict_get totals s of None \<Rightarrow> 0 | Some v \<Rightarrow> v) + (te_end e - te_start e))) es)"

text \<open>\<open>max(totals, key=...)\<close>: the first key with the greatest value.\<close>

fun first_max :: "'k \<times> rat \<Rightarrow> ('k \<times> rat) list \<Rightarrow> 'k" where
  "first_max best [] = fst best"
| "first_max best (p # ps) = first_max (if snd best < snd p then p else best) ps"

definition drop_marginal_speakers :: "transcript_entry list \<Rightarrow> rat \<Rightarrow> transcript_entry list" where
  "drop_marginal_speakers entries min_share =
     (case entry_totals [] entries of [] \<Rightarrow> entries
      | p # ps \<Rightarrow>
          (let totals = p # ps; overall = sum_list (map snd totals)
           in if overall \<le> 0 then entries
              else (let dominant = first_max p ps;
                        marginal = map fst (filter (\<lambda>(s, v). v / overall < min_share) totals)
                    in if marginal = [] then entries
                       else map (\<lambda>e. case te_speaker e of None \<Rightarrow> e
                           | Some s \<Rightarrow> if s \<in> set marginal then e\<lparr>te_speaker := Some dominant\<rparr> else e)
                         entries)))"

section \<open>Labels and rendering\<close>

text \<open>The Russian word for voice, in code points.\<close>

definition golos :: ustr where "golos = [1043, 1086, 1083, 1086, 1089]"

definition speaker_label_word :: "unicode \<Rightarrow> ustr option \<Rightarrow> ustr" where
  "speaker_label_word uc language =
     (let key = uc_lower uc (strip (case language of None \<Rightarrow> [] | Some l \<Rightarrow> l))
      in if key = lit ''ru'' then golos else lit ''Speaker'')"

fun label_map_from ::
  "(ustr \<times> ustr) list \<Rightarrow> ustr \<Rightarrow> (ustr \<times> ustr) list \<Rightarrow> transcript_entry list \<Rightarrow> (ustr \<times> ustr) list" where
  "label_map_from mapping w names [] = mapping"
| "label_map_from mapping w names (e # es) =
     (case te_speaker e of None \<Rightarrow> label_map_from mapping w names es
      | Some s \<Rightarrow>
          if dict_get mapping s \<noteq> None then label_map_from mapping w names es
          else (let position = length mapping + 1;
                    numbered = w @ [32] @ decimal position;
                    label = (case dict_get names s of None \<Rightarrow> numbered
                             | Some n \<Rightarrow> if n = [] then numbered else n)
                in label_map_from (dict_set mapping s label) w names es))"

definition label_map :: "transcript_entry list \<Rightarrow> ustr \<Rightarrow> (ustr \<times> ustr) list \<Rightarrow> (ustr \<times> ustr) list" where
  "label_map entries w names = label_map_from [] w names entries"

text \<open>The rendering loop: the blocks so far and the speaker key of the open block (\<open>None\<close> before
  the first block; an unattributed entry has the key \<open>Some None\<close>).\<close>

fun render_blocks ::
  "(ustr \<times> ustr) list \<Rightarrow> ustr list \<Rightarrow> ustr option option \<Rightarrow> transcript_entry list \<Rightarrow> ustr list option" where
  "render_blocks mapping blocks cur [] = Some blocks"
| "render_blocks mapping blocks cur (e # es) =
     (let text = strip (te_text e)
      in if text = [] then render_blocks mapping blocks cur es
         else if cur \<noteq> Some (te_speaker e)
         then (case te_speaker e of
                 None \<Rightarrow> render_blocks mapping (blocks @ [text]) (Some None) es
               | Some s \<Rightarrow> (case dict_get mapping s of None \<Rightarrow> None
                   | Some l \<Rightarrow> render_blocks mapping (blocks @ [l @ [58, 32] @ text]) (Some (Some s)) es))
         else render_blocks mapping (butlast blocks @ [last blocks @ [32] @ text]) cur es)"

text \<open>\<open>None\<close> is the \<open>KeyError\<close> of a speaker that has no label.\<close>

definition render_cleaned_transcript ::
  "transcript_entry list \<Rightarrow> (ustr \<times> ustr) list \<Rightarrow> ustr option" where
  "render_cleaned_transcript cleaned mapping =
     (if length mapping \<le> 1
      then Some (unwords (filter (\<lambda>t. t \<noteq> []) (map (\<lambda>e. strip (te_text e)) cleaned)))
      else map_option (join [10, 10]) (render_blocks mapping [] None cleaned))"

definition render_transcript ::
  "transcript_entry list \<Rightarrow> rat \<Rightarrow> ustr \<Rightarrow> (ustr \<times> ustr) list \<Rightarrow> ustr option" where
  "render_transcript entries min_share w names =
     (let cleaned = drop_marginal_speakers entries min_share
      in render_cleaned_transcript cleaned (label_map cleaned w names))"

section \<open>Best overlap\<close>

lemma overlap_nonneg [simp]: "0 \<le> overlap a b c d"
  by (simp add: overlap_def)

text \<open>What the scan keeps: the start values, or the earliest strictly greatest overlap.\<close>

lemma best_overlap_cases:
  "(best_overlap s t sp b ds = sp \<and> (\<forall>d\<in>set ds. overlap s t (ds_start d) (ds_end d) \<le> b))
   \<or> (\<exists>i<length ds. best_overlap s t sp b ds = Some (ds_speaker (ds ! i))
        \<and> b < overlap s t (ds_start (ds ! i)) (ds_end (ds ! i))
        \<and> (\<forall>d\<in>set ds. overlap s t (ds_start d) (ds_end d) \<le> overlap s t (ds_start (ds ! i)) (ds_end (ds ! i)))
        \<and> (\<forall>j<i. overlap s t (ds_start (ds ! j)) (ds_end (ds ! j)) < overlap s t (ds_start (ds ! i)) (ds_end (ds ! i))))"
proof (induction s t sp b ds rule: best_overlap.induct)
  case (1 s t sp b)
  then show ?case by simp
next
  case (2 s t sp b d ds)
  let ?ov = "\<lambda>d. overlap s t (ds_start d) (ds_end d)"
  show ?case
  proof (cases "b < ?ov d")
    case True
    from "2.IH"(1) [OF refl True] show ?thesis
    proof (elim disjE exE conjE)
      assume "best_overlap s t (Some (ds_speaker d)) (?ov d) ds = Some (ds_speaker d)"
        and "\<forall>x\<in>set ds. ?ov x \<le> ?ov d"
      then show ?thesis using True by (intro disjI2 exI [of _ 0]) simp
    next
      fix i assume i: "i < length ds" and r: "best_overlap s t (Some (ds_speaker d)) (?ov d) ds = Some (ds_speaker (ds ! i))"
        and gt: "?ov d < ?ov (ds ! i)" and mx: "\<forall>x\<in>set ds. ?ov x \<le> ?ov (ds ! i)"
        and st: "\<forall>j<i. ?ov (ds ! j) < ?ov (ds ! i)"
      have "\<forall>j<Suc i. ?ov ((d # ds) ! j) < ?ov ((d # ds) ! Suc i)"
        using gt st by (auto simp: less_Suc_eq_0_disj)
      then show ?thesis
        using True i r gt mx by (intro disjI2 exI [of _ "Suc i"]) auto
    qed
  next
    case False
    from "2.IH"(2) [OF refl False] show ?thesis
    proof (elim disjE exE conjE)
      assume "best_overlap s t sp b ds = sp" and "\<forall>x\<in>set ds. ?ov x \<le> b"
      then show ?thesis using False by (intro disjI1) simp
    next
      fix i assume i: "i < length ds" and r: "best_overlap s t sp b ds = Some (ds_speaker (ds ! i))"
        and gt: "b < ?ov (ds ! i)" and mx: "\<forall>x\<in>set ds. ?ov x \<le> ?ov (ds ! i)"
        and st: "\<forall>j<i. ?ov (ds ! j) < ?ov (ds ! i)"
      have "\<forall>j<Suc i. ?ov ((d # ds) ! j) < ?ov ((d # ds) ! Suc i)"
        using gt st False by (auto simp: less_Suc_eq_0_disj)
      then show ?thesis
        using False i r gt mx by (intro disjI2 exI [of _ "Suc i"]) auto
    qed
  qed
qed

lemma nearest_from_Some: "sp \<noteq> None \<or> (best = None \<and> ds \<noteq> []) \<Longrightarrow> nearest_from x sp best ds \<noteq> None"
  by (induction x sp best ds rule: nearest_from.induct) (auto simp: Let_def split: option.splits)

lemma nearest_speaker_eq_None_iff: "nearest_speaker ds s t = None \<longleftrightarrow> ds = []"
proof
  assume "nearest_speaker ds s t = None"
  then have "nearest_from ((s + t) / 2) None None ds = None"
    by (simp add: nearest_speaker_def split: option.splits)
  then show "ds = []" using nearest_from_Some by blast
next
  assume "ds = []"
  then show "nearest_speaker ds s t = None" by (simp add: nearest_speaker_def speaker_at_def)
qed

section \<open>Repeated units\<close>

text \<open>What one trimming loop removes: whole runs of at least six units that normalise to one
  short non-empty token.\<close>

inductive repetitive :: "unicode \<Rightarrow> ustr list \<Rightarrow> bool" for uc where
  repetitive_Nil: "repetitive uc []"
| repetitive_run: "\<lbrakk>min_repeats \<le> length run; h \<noteq> []; length h \<le> 64;
     \<forall>v\<in>set run. normalize_token uc v = h; repetitive uc rest\<rbrakk> \<Longrightarrow> repetitive uc (run @ rest)"

inductive_simps repetitive_Nil_simp [simp]: "repetitive uc []"

text \<open>No run is left at the front.\<close>

definition front_clean :: "unicode \<Rightarrow> ustr list \<Rightarrow> bool" where
  "front_clean uc units \<longleftrightarrow> length units < min_repeats
     \<or> (let h = normalize_token uc (hd units) in h = [] \<or> 64 < length h \<or> run_length uc h units < min_repeats)"

lemma run_length_le: "run_length uc h units \<le> length units"
  by (simp add: run_length_def length_takeWhile_le)

lemma take_run: "v \<in> set (take (run_length uc h units) units) \<Longrightarrow> normalize_token uc v = h"
  unfolding run_length_def takeWhile_eq_take [symmetric] by (auto dest: set_takeWhileD)

lemma trim_run_spec:
  "trim_run uc units n ph = (rest, n', ph') \<Longrightarrow>
     \<exists>gone. units = gone @ rest \<and> n' = n + length gone \<and> repetitive uc gone \<and> front_clean uc rest"
proof (induction uc units n ph arbitrary: rest n' ph' rule: trim_run.induct)
  case (1 uc units n ph)
  let ?h = "normalize_token uc (hd units)"
  let ?k = "run_length uc ?h units"
  show ?case
  proof (cases "length units < min_repeats \<or> ?h = [] \<or> 64 < length ?h \<or> ?k < min_repeats")
    case True
    then have "rest = units \<and> n' = n"
      using "1.prems" by (auto simp: trim_run.simps [of uc units] Let_def split: if_splits)
    then show ?thesis
      using True by (intro exI [of _ "[]"]) (auto simp: front_clean_def Let_def)
  next
    case False
    then have step: "trim_run uc (drop ?k units) (n + ?k) (Some (hd units)) = (rest, n', ph')"
      using "1.prems" by (simp add: trim_run.simps [of uc units] Let_def)
    obtain gone where g: "drop ?k units = gone @ rest" "n' = n + ?k + length gone"
      "repetitive uc gone" "front_clean uc rest"
      using "1.IH" [OF _ refl _ refl _ step] False by auto
    have lk: "length (take ?k units) = ?k" using run_length_le [of uc ?h units] by simp
    have "units = take ?k units @ drop ?k units" by simp
    also have "\<dots> = (take ?k units @ gone) @ rest" using g(1) by simp
    finally have eq: "units = (take ?k units @ gone) @ rest" .
    moreover have "repetitive uc (take ?k units @ gone)"
    proof (rule repetitive_run)
      show "min_repeats \<le> length (take ?k units)" using False unfolding lk by linarith
      show "?h \<noteq> []" and "length ?h \<le> 64" using False by auto
      show "\<forall>v\<in>set (take ?k units). normalize_token uc v = ?h" by (simp add: take_run)
    qed (fact g(3))
    moreover have "n' = n + length (take ?k units @ gone)" using g(2) lk by simp
    ultimately show ?thesis using g(4) by blast
  qed
qed

lemma trim_units_spec:
  assumes "trim_repetitive_units uc units = (kept, m)"
  shows "\<exists>pre suf. units = pre @ kept @ suf \<and> length pre = tm_head m \<and> length suf = tm_tail m
           \<and> repetitive uc pre \<and> repetitive uc (rev suf) \<and> front_clean uc (rev kept)"
proof -
  obtain rest nh ph where a: "trim_run uc units 0 None = (rest, nh, ph)" by (cases "trim_run uc units 0 None") auto
  obtain tser nt pt where b: "trim_run uc (rev rest) 0 None = (tser, nt, pt)"
    by (cases "trim_run uc (rev rest) 0 None") auto
  have k: "kept = rev tser" and m: "tm_head m = nh" "tm_tail m = nt"
    using assms by (auto simp: trim_repetitive_units_def a b)
  obtain pre where p: "units = pre @ rest" "nh = length pre" "repetitive uc pre"
    using trim_run_spec [OF a] by auto
  obtain g where g: "rev rest = g @ tser" "nt = length g" "repetitive uc g" "front_clean uc tser"
    using trim_run_spec [OF b] by auto
  have "rest = rev tser @ rev g" using arg_cong [OF g(1), of rev] by simp
  then have "units = pre @ kept @ rev g" using p(1) k by simp
  then show ?thesis using p g k m by (intro exI [of _ pre] exI [of _ "rev g"]) simp
qed

section \<open>Groups of words\<close>

text \<open>A well-formed group holds words, and its span runs from its first word to its last.\<close>

definition group_ok :: "group \<Rightarrow> bool" where
  "group_ok g \<longleftrightarrow> gr_words g \<noteq> [] \<and> gr_start g = tw_start (hd (gr_words g)) \<and> gr_end g = tw_end (last (gr_words g))"

definition groups_words :: "group list \<Rightarrow> timed_word list" where
  "groups_words gs = concat (map gr_words gs)"

lemma groups_words_simps [simp]:
  "groups_words [] = []"
  "groups_words (g # gs) = gr_words g @ groups_words gs"
  "groups_words (gs @ hs) = groups_words gs @ groups_words hs"
  by (simp_all add: groups_words_def)

lemma extend_last_words: "kept \<noteq> [] \<Longrightarrow> groups_words (extend_last kept g) = groups_words kept @ gr_words g"
  by (cases kept rule: rev_cases) (auto simp: extend_last_def Let_def)

lemma extend_last_not_Nil [simp]: "extend_last kept g \<noteq> []"
  by (simp add: extend_last_def Let_def)

lemma extend_last_set:
  assumes "kept \<noteq> []" and "\<forall>k\<in>set kept. P k"
    and "\<And>k. P k \<Longrightarrow> P (k\<lparr>gr_words := gr_words k @ gr_words g, gr_end := gr_end g\<rparr>)"
  shows "\<forall>k\<in>set (extend_last kept g). P k"
  using assms by (cases kept rule: rev_cases) (auto simp: extend_last_def Let_def)

lemma extend_last_speakers:
  "kept \<noteq> [] \<Longrightarrow> map gr_speaker (extend_last kept g) = map gr_speaker kept"
  by (cases kept rule: rev_cases) (auto simp: extend_last_def Let_def)

lemma group_ok_extend:
  "group_ok k \<Longrightarrow> group_ok g \<Longrightarrow> group_ok (k\<lparr>gr_words := gr_words k @ gr_words g, gr_end := gr_end g\<rparr>)"
  by (auto simp: group_ok_def)

lemma group_ok_prepend:
  "group_ok l \<Longrightarrow> group_ok g \<Longrightarrow> group_ok (g\<lparr>gr_words := gr_words l @ gr_words g, gr_start := gr_start l\<rparr>)"
  by (auto simp: group_ok_def)

lemma group_words_from_spec:
  assumes "\<forall>g\<in>set groups. group_ok g \<and> (ds \<noteq> [] \<longrightarrow> gr_speaker g \<noteq> None)"
  shows "groups_words (group_words_from groups ds ws) = groups_words groups @ ws
       \<and> (\<forall>g\<in>set (group_words_from groups ds ws). group_ok g \<and> (ds \<noteq> [] \<longrightarrow> gr_speaker g \<noteq> None))"
  using assms
proof (induction groups ds ws rule: group_words_from.induct)
  case (1 groups ds)
  then show ?case by simp
next
  case (2 groups ds w ws)
  let ?sp = "nearest_speaker ds (tw_start w) (tw_end w)"
  let ?c = "groups \<noteq> [] \<and> (?sp = None \<or> gr_speaker (last groups) = ?sp)"
  let ?w = "\<lparr>gr_speaker = ?sp, gr_words = [w], gr_start = tw_start w, gr_end = tw_end w\<rparr>"
  show ?case
  proof (cases ?c)
    case True
    have ext: "butlast groups @ [(last groups)\<lparr>gr_words := gr_words (last groups) @ [w], gr_end := tw_end w\<rparr>]
               = extend_last groups ?w"
      by (simp add: extend_last_def Let_def)
    have ok: "\<forall>g\<in>set (extend_last groups ?w). group_ok g \<and> (ds \<noteq> [] \<longrightarrow> gr_speaker g \<noteq> None)"
      using True "2.prems" by (intro extend_last_set) (auto simp: group_ok_def)
    show ?thesis
      using "2.IH"(1) [OF refl True refl] ok True extend_last_words [of groups ?w]
      unfolding ext by (simp add: ext)
  next
    case False
    have ok: "\<forall>g\<in>set (groups @ [?w]). group_ok g \<and> (ds \<noteq> [] \<longrightarrow> gr_speaker g \<noteq> None)"
      using "2.prems" nearest_speaker_eq_None_iff [of ds] by (auto simp: group_ok_def)
    show ?thesis
      using "2.IH"(2) [OF refl False] ok False by auto
  qed
qed

lemma group_words_spec:
  "groups_words (group_words_by_speaker ws ds) = ws"
  "\<forall>g\<in>set (group_words_by_speaker ws ds). group_ok g \<and> (ds \<noteq> [] \<longrightarrow> gr_speaker g \<noteq> None)"
  using group_words_from_spec [of "[]" ds ws] by (auto simp: group_words_by_speaker_def)

text \<open>The state of the absorbing loop: what was kept is large (or unattributed), the words read so
  far are the kept ones, or the leading fragment while nothing is kept.\<close>

definition large :: "nat \<Rightarrow> group \<Rightarrow> bool" where
  "large mw g \<longleftrightarrow> group_ok g \<and> (gr_speaker g = None \<or> mw \<le> length (gr_words g))"

lemma large_extend:
  "large mw k \<Longrightarrow> group_ok g \<Longrightarrow> large mw (k\<lparr>gr_words := gr_words k @ gr_words g, gr_end := gr_end g\<rparr>)"
  by (auto simp: large_def group_ok_extend)

definition absorb_inv :: "nat \<Rightarrow> timed_word list \<Rightarrow> group list \<times> group option \<Rightarrow> bool" where
  "absorb_inv mw ws st = (case st of (kept, leading) \<Rightarrow>
     (\<forall>k\<in>set kept. large mw k)
     \<and> (case leading of None \<Rightarrow> groups_words kept = ws | Some l \<Rightarrow> kept = [] \<and> group_ok l \<and> gr_words l = ws))"

lemma absorb_step_inv:
  assumes inv: "absorb_inv mw ws st" and g: "group_ok g"
  shows "absorb_inv mw (ws @ gr_words g) (absorb_step mw ms st g)"
proof (cases st)
  case (Pair kept leading)
  show ?thesis
  proof (cases "kept = []")
    case True
    then show ?thesis
      using inv g group_ok_prepend [of _ g] group_ok_extend [of _ g]
      by (auto simp: absorb_inv_def absorb_step_def big_enough_def large_def Pair split: option.splits)
  next
    case False
    then have l: "leading = None" using inv by (auto simp: absorb_inv_def Pair split: option.splits)
    have "\<forall>k\<in>set (extend_last kept g). large mw k"
      using inv by (intro extend_last_set [OF False]) (auto simp: absorb_inv_def Pair large_extend g)
    then show ?thesis
      using inv g False l
      by (auto simp: absorb_inv_def absorb_step_def big_enough_def large_def Pair extend_last_words)
  qed
qed

lemma absorb_fold_inv:
  "absorb_inv mw ws st \<Longrightarrow> \<forall>g\<in>set gs. group_ok g \<Longrightarrow>
     absorb_inv mw (ws @ groups_words gs) (foldl (absorb_step mw ms) st gs)"
proof (induction gs arbitrary: ws st)
  case Nil
  then show ?case by simp
next
  case (Cons g gs)
  then show ?case using absorb_step_inv [of mw ws st g ms] Cons.IH [of "ws @ gr_words g"] by auto
qed

lemma merge_adjacent_from_spec:
  assumes "\<forall>g\<in>set merged. large mw g" and "\<forall>g\<in>set gs. large mw g" and "distinct_adj (map gr_speaker merged)"
  shows "groups_words (merge_adjacent_from merged gs) = groups_words merged @ groups_words gs
       \<and> (\<forall>g\<in>set (merge_adjacent_from merged gs). large mw g)
       \<and> distinct_adj (map gr_speaker (merge_adjacent_from merged gs))"
  using assms
proof (induction merged gs rule: merge_adjacent_from.induct)
  case (1 merged)
  then show ?case by simp
next
  case (2 merged g gs)
  let ?c = "merged \<noteq> [] \<and> gr_speaker (last merged) = gr_speaker g"
  show ?case
  proof (cases ?c)
    case True
    have "group_ok g" using "2.prems"(2) by (simp add: large_def)
    then have "\<forall>k\<in>set (extend_last merged g). large mw k"
      using True "2.prems"(1) by (intro extend_last_set) (auto simp: large_extend)
    then show ?thesis
      using "2.IH"(1) [OF True] "2.prems" True by (simp add: extend_last_speakers extend_last_words)
  next
    case False
    have "distinct_adj (map gr_speaker (merged @ [g]))"
      using "2.prems"(3) False by (auto simp: distinct_adj_append_iff last_map)
    then show ?thesis using "2.IH"(2) [OF False] "2.prems" False by auto
  qed
qed

lemma absorb_small_groups_spec:
  assumes "\<forall>g\<in>set gs. group_ok g"
  shows "(\<forall>g\<in>set (absorb_small_groups gs mw ms). large mw g)
       \<and> distinct_adj (map gr_speaker (absorb_small_groups gs mw ms))
       \<and> (absorb_small_groups gs mw ms = [] \<or> groups_words (absorb_small_groups gs mw ms) = groups_words gs)"
proof -
  obtain kept leading where f: "foldl (absorb_step mw ms) ([], None) gs = (kept, leading)"
    by (cases "foldl (absorb_step mw ms) ([], None) gs") auto
  have inv: "absorb_inv mw (groups_words gs) (kept, leading)"
    using absorb_fold_inv [of mw "[]" "([], None)" gs ms] assms by (simp add: f absorb_inv_def)
  then have k: "\<forall>g\<in>set kept. large mw g"
    and w: "kept = [] \<or> groups_words kept = groups_words gs"
    by (auto simp: absorb_inv_def split: option.splits)
  have "absorb_small_groups gs mw ms = merge_adjacent_from [] kept"
    by (simp add: absorb_small_groups_def merge_adjacent_same_speaker_def f)
  then show ?thesis
    using merge_adjacent_from_spec [of "[]" mw kept] k w by auto
qed

text \<open>No pass invents a speaker.\<close>

lemma absorb_step_speakers:
  assumes "gr_speaker ` set (fst st) \<subseteq> S" and "gr_speaker g \<in> S"
  shows "gr_speaker ` set (fst (absorb_step mw ms st g)) \<subseteq> S"
proof (cases st)
  case (Pair kept leading)
  have "kept \<noteq> [] \<Longrightarrow> \<forall>k\<in>set (extend_last kept g). gr_speaker k \<in> S"
    using assms Pair by (intro extend_last_set) auto
  then show ?thesis
    using assms Pair by (auto simp: absorb_step_def split: option.splits)
qed

lemma absorb_fold_speakers:
  "gr_speaker ` set (fst st) \<subseteq> S \<Longrightarrow> gr_speaker ` set gs \<subseteq> S \<Longrightarrow>
     gr_speaker ` set (fst (foldl (absorb_step mw ms) st gs)) \<subseteq> S"
  by (induction gs arbitrary: st) (simp_all add: absorb_step_speakers)

lemma merge_adjacent_from_speakers:
  "gr_speaker ` set merged \<subseteq> S \<Longrightarrow> gr_speaker ` set gs \<subseteq> S \<Longrightarrow>
     gr_speaker ` set (merge_adjacent_from merged gs) \<subseteq> S"
proof (induction merged gs rule: merge_adjacent_from.induct)
  case (2 merged g gs)
  have "merged \<noteq> [] \<Longrightarrow> \<forall>k\<in>set (extend_last merged g). gr_speaker k \<in> S"
    using "2.prems" by (intro extend_last_set) auto
  then show ?case using 2 by auto
qed simp

lemma absorb_small_groups_speakers:
  "gr_speaker ` set (absorb_small_groups gs mw ms) \<subseteq> gr_speaker ` set gs"
  unfolding absorb_small_groups_def merge_adjacent_same_speaker_def
  by (intro merge_adjacent_from_speakers absorb_fold_speakers) simp_all

lemma solid_strip_filter:
  "concat (map solid (filter (\<lambda>t. t \<noteq> []) (map (\<lambda>w. strip (f w)) ws))) = concat (map (\<lambda>w. solid (f w)) ws)"
proof (induction ws)
  case (Cons w ws)
  then show ?case by (auto simp: strip_eq_Nil_iff)
qed simp

lemma solid_group_text: "solid (group_text g) = concat (map (\<lambda>w. solid (tw_word w)) (gr_words g))"
  by (simp add: group_text_def solid_strip_filter)

lemma nearest_speaker_Nil [simp]: "nearest_speaker [] s t = None"
  by (simp add: nearest_speaker_eq_None_iff)

lemma group_words_from_None:
  "\<forall>g\<in>set groups. gr_speaker g = None \<Longrightarrow> \<forall>g\<in>set (group_words_from groups [] ws). gr_speaker g = None"
proof (induction ws arbitrary: groups)
  case (Cons w ws)
  show ?case
    by (simp add: Let_def, intro conjI impI; rule Cons.IH)
       (use Cons.prems in \<open>auto dest: in_set_butlastD\<close>)
qed simp

text \<open>The turns an entry is split into, as groups: at least two, every word once and in order, long
  enough, no two neighbours with the same speaker.\<close>

definition proper_turns :: "group list \<Rightarrow> timed_word list \<Rightarrow> nat \<Rightarrow> bool" where
  "proper_turns gs ws mw \<longleftrightarrow> 2 \<le> length gs \<and> groups_words gs = ws \<and> distinct_adj (map gr_speaker gs)
     \<and> (\<forall>g\<in>set gs. group_ok g \<and> gr_speaker g \<noteq> None \<and> mw \<le> length (gr_words g))"

definition turn_entry :: "group \<Rightarrow> transcript_entry" where
  "turn_entry g = \<lparr>te_start = gr_start g, te_end = gr_end g, te_text = group_text g, te_speaker = gr_speaker g\<rparr>"

lemma absorbed_turns:
  assumes "gs = absorb_small_groups (group_words_by_speaker ws ds) mw ms" and "1 < length gs"
  shows "proper_turns gs ws mw"
proof -
  have g: "\<forall>g\<in>set (group_words_by_speaker ws ds). group_ok g \<and> (ds \<noteq> [] \<longrightarrow> gr_speaker g \<noteq> None)"
    and w: "groups_words (group_words_by_speaker ws ds) = ws"
    using group_words_spec by auto
  have L: "\<forall>g\<in>set gs. large mw g" and D: "distinct_adj (map gr_speaker gs)"
    and W: "gs = [] \<or> groups_words gs = ws"
    using absorb_small_groups_spec [of "group_words_by_speaker ws ds" mw ms] g w assms(1) by auto
  have sub: "gr_speaker ` set gs \<subseteq> gr_speaker ` set (group_words_by_speaker ws ds)"
    using absorb_small_groups_speakers assms(1) by simp
  have "ds \<noteq> []"
  proof
    assume e: "ds = []"
    have "\<forall>g\<in>set (group_words_by_speaker ws ds). gr_speaker g = None"
      using group_words_from_None [of "[]"] e by (simp add: group_words_by_speaker_def)
    then have "\<forall>x\<in>set (map gr_speaker gs). x = None" using sub by auto
    then have "\<forall>g\<in>set gs. gr_speaker g = None" by auto
    moreover obtain a b rest where "gs = a # b # rest"
      using assms(2) by (cases gs; cases "tl gs") auto
    ultimately show False using D by simp
  qed
  then have N: "gr_speaker x \<noteq> None" if "x \<in> set gs" for x
    using g sub that by (metis (no_types, lifting) image_iff subsetD image_eqI)
  moreover have "mw \<le> length (gr_words x)" if "x \<in> set gs" for x
    using N [OF that] L that by (auto simp: large_def)
  ultimately show ?thesis using L D W assms(2) by (auto simp: proper_turns_def large_def)
qed

lemma split_entry_cases:
  "(\<exists>sp. split_entry_by_speaker e ws ds mw ms = [e\<lparr>te_speaker := sp\<rparr>])
   \<or> (\<exists>gs. split_entry_by_speaker e ws ds mw ms = map turn_entry gs \<and> proper_turns gs ws mw)"
proof -
  let ?gs = "absorb_small_groups (group_words_by_speaker ws ds) mw ms"
  show ?thesis
  proof (cases "ws = [] \<or> length ?gs \<le> 1")
    case True
    then show ?thesis by (intro disjI1) (auto simp: split_entry_by_speaker_def Let_def)
  next
    case False
    then have "split_entry_by_speaker e ws ds mw ms = map turn_entry ?gs"
      by (simp add: split_entry_by_speaker_def Let_def turn_entry_def)
    moreover have "proper_turns ?gs ws mw" using False by (intro absorbed_turns [OF refl]) simp
    ultimately show ?thesis by blast
  qed
qed

lemma solid_turns:
  "concat (map (\<lambda>t. solid (te_text t)) (map turn_entry gs)) = concat (map (\<lambda>w. solid (tw_word w)) (groups_words gs))"
  by (induction gs) (simp_all add: turn_entry_def solid_group_text)

section \<open>Shares of speech\<close>

text \<open>The seconds the entries give to a speaker.\<close>

definition seconds_of :: "transcript_entry list \<Rightarrow> ustr \<Rightarrow> rat" where
  "seconds_of es s = sum_list (map (\<lambda>e. te_end e - te_start e) (filter (\<lambda>e. te_speaker e = Some s) es))"

definition speakers_of :: "transcript_entry list \<Rightarrow> ustr set" where
  "speakers_of es = {s. Some s \<in> te_speaker ` set es}"

lemma dict_get_None_iff: "dict_get d k = None \<longleftrightarrow> k \<notin> fst ` set d"
  by (simp add: dict_get_def map_of_eq_None_iff)

lemma set_keys_dict_set: "fst ` set (dict_set d k v) = insert k (fst ` set d)"
proof -
  have "set (map fst (dict_set d k v)) = insert k (set (map fst d))"
    by (simp only: keys_dict_set) auto
  then show ?thesis by simp
qed

lemma entry_totals_spec:
  assumes "distinct (map fst t)"
  shows "distinct (map fst (entry_totals t es))
       \<and> fst ` set (entry_totals t es) = fst ` set t \<union> speakers_of es
       \<and> (\<forall>s. dict_get (entry_totals t es) s =
            (if s \<in> fst ` set t \<union> speakers_of es
             then Some ((case dict_get t s of None \<Rightarrow> 0 | Some v \<Rightarrow> v) + seconds_of es s) else None))"
  using assms
proof (induction t es rule: entry_totals.induct)
  case (1 t)
  have eq: "(if s \<in> fst ` set t then Some (case dict_get t s of None \<Rightarrow> 0 | Some v \<Rightarrow> v) else None) = dict_get t s" for s
    using dict_get_None_iff [of t s] by (cases "dict_get t s") auto
  have k: "dict_get t s = Some (case dict_get t s of None \<Rightarrow> 0 | Some v \<Rightarrow> v)" if "s \<in> fst ` set t" for s
    using eq [of s] that by simp
  have "speakers_of [] = {}" "seconds_of [] s = 0" for s
    by (simp_all add: speakers_of_def seconds_of_def)
  then show ?case
    using 1 k dict_get_None_iff [of t] by (simp del: split_paired_All)
next
  case (2 t e es)
  show ?case
  proof (cases "te_speaker e")
    case None
    then show ?thesis using "2.IH"(1) [OF None "2.prems"]
      by (simp add: speakers_of_def seconds_of_def)
  next
    case (Some s)
    let ?t = "dict_set t s ((case dict_get t s of None \<Rightarrow> 0 | Some v \<Rightarrow> v) + (te_end e - te_start e))"
    have sp: "speakers_of (e # es) = insert s (speakers_of es)"
      using Some by (auto simp: speakers_of_def)
    have sec: "seconds_of (e # es) x = (if x = s then te_end e - te_start e else 0) + seconds_of es x" for x
      using Some by (simp add: seconds_of_def)
    have eq: "entry_totals t (e # es) = entry_totals ?t es"
      by (simp add: Some)
    show ?thesis
      using "2.IH"(2) [OF Some distinct_dict_set [OF "2.prems"]]
      unfolding eq sp sec set_keys_dict_set by (auto simp: add.assoc)
  qed
qed

lemma entry_totals_mem:
  "(s, v) \<in> set (entry_totals [] es) \<longleftrightarrow> s \<in> speakers_of es \<and> v = seconds_of es s"
proof -
  have d: "distinct (map fst (entry_totals [] es))"
    and k: "fst ` set (entry_totals [] es) = speakers_of es"
    and g: "\<forall>s. dict_get (entry_totals [] es) s = (if s \<in> speakers_of es then Some (seconds_of es s) else None)"
    using entry_totals_spec [of "[]" es] by (auto simp: dict_get_def)
  have "(s, v) \<in> set (entry_totals [] es) \<longleftrightarrow> dict_get (entry_totals [] es) s = Some v"
    using d by (simp add: dict_get_def)
  then show ?thesis using g by auto
qed

lemma mem_filter_share:
  "s \<in> set (map fst (filter (\<lambda>(s, v). v / t < q) T)) \<longleftrightarrow> (\<exists>v. (s, v) \<in> set T \<and> v / t < q)"
  by force

lemma first_max_spec:
  "\<exists>v. (first_max b ps, v) \<in> set (b # ps) \<and> (\<forall>p\<in>set (b # ps). snd p \<le> v)"
proof (induction b ps rule: first_max.induct)
  case (1 b)
  then show ?case by (cases b) auto
next
  case (2 b p ps)
  then show ?case by (cases "snd b < snd p") fastforce+
qed

text \<open>The whole amount of attributed speech, over the speakers in order of first appearance.\<close>

definition total_seconds :: "transcript_entry list \<Rightarrow> rat" where
  "total_seconds es = sum_list (map snd (entry_totals [] es))"

lemma drop_marginal_spec:
  "(drop_marginal_speakers es q = es)
   \<or> (\<exists>dom. dom \<in> speakers_of es \<and> (\<forall>s\<in>speakers_of es. seconds_of es s \<le> seconds_of es dom)
        \<and> drop_marginal_speakers es q =
            map (\<lambda>e. case te_speaker e of None \<Rightarrow> e
                  | Some s \<Rightarrow> if seconds_of es s / total_seconds es < q then e\<lparr>te_speaker := Some dom\<rparr> else e) es)"
proof (cases "entry_totals [] es")
  case Nil
  then show ?thesis by (simp add: drop_marginal_speakers_def)
next
  case (Cons p ps)
  let ?dom = "first_max p ps"
  let ?marg = "map fst (filter (\<lambda>(s, v). v / total_seconds es < q) (p # ps))"
  have ov: "sum_list (map snd (p # ps)) = total_seconds es" by (simp add: total_seconds_def Cons)
  show ?thesis
  proof (cases "total_seconds es \<le> 0 \<or> ?marg = []")
    case True
    then show ?thesis
      unfolding drop_marginal_speakers_def Cons list.case Let_def ov by argo
  next
    case False
    have mem: "(s, v) \<in> set (p # ps) \<longleftrightarrow> s \<in> speakers_of es \<and> v = seconds_of es s" for s v
      using entry_totals_mem [of s v es] by (simp add: Cons)
    have marg: "s \<in> set ?marg \<longleftrightarrow> s \<in> speakers_of es \<and> seconds_of es s / total_seconds es < q" for s
      unfolding mem_filter_share by (simp only: mem) blast
    obtain v where v: "(?dom, v) \<in> set (p # ps)" and mx: "\<forall>x\<in>set (p # ps). snd x \<le> v"
      using first_max_spec [of p ps] by blast
    have d1: "?dom \<in> speakers_of es" and d2: "v = seconds_of es ?dom" using v mem by blast+
    have dom: "?dom \<in> speakers_of es" "\<forall>s\<in>speakers_of es. seconds_of es s \<le> seconds_of es ?dom"
      using d1 mx mem unfolding d2 [symmetric] by force+
    have "drop_marginal_speakers es q =
        map (\<lambda>e. case te_speaker e of None \<Rightarrow> e
          | Some s \<Rightarrow> if s \<in> set ?marg then e\<lparr>te_speaker := Some ?dom\<rparr> else e) es"
      using False by (simp only: drop_marginal_speakers_def Cons list.case Let_def ov) (simp del: filter.simps list.map)
    also have "\<dots> = map (\<lambda>e. case te_speaker e of None \<Rightarrow> e
          | Some s \<Rightarrow> if seconds_of es s / total_seconds es < q then e\<lparr>te_speaker := Some ?dom\<rparr> else e) es"
    proof (rule map_cong [OF refl])
      fix e assume e: "e \<in> set es"
      have "s \<in> speakers_of es" if "te_speaker e = Some s" for s
        using e that by (force simp: speakers_of_def)
      then show "(case te_speaker e of None \<Rightarrow> e | Some s \<Rightarrow> if s \<in> set ?marg then e\<lparr>te_speaker := Some ?dom\<rparr> else e)
          = (case te_speaker e of None \<Rightarrow> e
              | Some s \<Rightarrow> if seconds_of es s / total_seconds es < q then e\<lparr>te_speaker := Some ?dom\<rparr> else e)"
        using marg by (simp del: set_map split: option.split)
    qed
    finally show ?thesis using dom by blast
  qed
qed

section \<open>Labels\<close>

text \<open>The speakers in order of first appearance.\<close>

fun first_seen :: "ustr list \<Rightarrow> transcript_entry list \<Rightarrow> ustr list" where
  "first_seen seen [] = seen"
| "first_seen seen (e # es) =
     (case te_speaker e of None \<Rightarrow> first_seen seen es
      | Some s \<Rightarrow> if s \<in> set seen then first_seen seen es else first_seen (seen @ [s]) es)"

definition spoken_order :: "transcript_entry list \<Rightarrow> ustr list" where
  "spoken_order es = first_seen [] es"

text \<open>The label of the speaker at a position (from zero).\<close>

definition label_at :: "ustr \<Rightarrow> (ustr \<times> ustr) list \<Rightarrow> nat \<Rightarrow> ustr \<Rightarrow> ustr" where
  "label_at w names i s = (case dict_get names s of None \<Rightarrow> w @ 32 # decimal (Suc i)
     | Some n \<Rightarrow> if n = [] then w @ 32 # decimal (Suc i) else n)"

definition labelled :: "ustr \<Rightarrow> (ustr \<times> ustr) list \<Rightarrow> ustr list \<Rightarrow> (ustr \<times> ustr) list" where
  "labelled w names ss = map (\<lambda>(i, s). (s, label_at w names i s)) (enumerate 0 ss)"

lemma dict_set_new: "k \<notin> fst ` set d \<Longrightarrow> dict_set d k v = d @ [(k, v)]"
  by (induction d k v rule: dict_set.induct) auto

lemma labelled_snoc: "labelled w names (ss @ [s]) = labelled w names ss @ [(s, label_at w names (length ss) s)]"
  by (simp add: labelled_def enumerate_append_eq)

lemma map_fst_labelled [simp]: "map fst (labelled w names ss) = ss"
  by (simp add: labelled_def comp_def case_prod_beta)

lemma keys_labelled [simp]: "fst ` set (labelled w names ss) = set ss"
  using arg_cong [OF map_fst_labelled, of set] by (simp del: map_fst_labelled)

lemma nth_labelled: "i < length ss \<Longrightarrow> labelled w names ss ! i = (ss ! i, label_at w names i (ss ! i))"
  by (simp add: labelled_def nth_enumerate_eq)

lemma length_labelled [simp]: "length (labelled w names ss) = length ss"
  by (simp add: labelled_def)

lemma label_map_from_labelled:
  "label_map_from (labelled w names seen) w names es = labelled w names (first_seen seen es)"
proof (induction seen es rule: first_seen.induct)
  case (1 seen)
  then show ?case by simp
next
  case (2 seen e es)
  show ?case
  proof (cases "te_speaker e")
    case None
    then show ?thesis using "2.IH"(1) [OF None] by simp
  next
    case (Some s)
    have in_iff: "dict_get (labelled w names seen) s = None \<longleftrightarrow> s \<notin> set seen"
      by (simp add: dict_get_None_iff)
    show ?thesis
    proof (cases "s \<in> set seen")
      case True
      then have "dict_get (labelled w names seen) s \<noteq> None" using in_iff by simp
      then show ?thesis using "2.IH"(2) [OF Some True] True Some by simp
    next
      case False
      then have "dict_set (labelled w names seen) s (label_at w names (length seen) s) = labelled w names (seen @ [s])"
        by (simp add: dict_set_new labelled_snoc)
      then show ?thesis
        using "2.IH"(3) [OF Some False] False in_iff Some
        by (simp add: label_at_def Let_def)
    qed
  qed
qed

lemma label_map_labelled: "label_map es w names = labelled w names (spoken_order es)"
  using label_map_from_labelled [of w names "[]" es] by (simp add: label_map_def spoken_order_def labelled_def)

lemma first_seen_spec:
  "distinct seen \<Longrightarrow> distinct (first_seen seen es) \<and> set (first_seen seen es) = set seen \<union> speakers_of es"
  by (induction seen es rule: first_seen.induct) (auto simp: speakers_of_def split: option.splits)

lemma spoken_order_spec: "distinct (spoken_order es)" "set (spoken_order es) = speakers_of es"
  using first_seen_spec [of "[]" es] by (auto simp: spoken_order_def)

lemma dict_get_labelled:
  assumes "distinct ss" and "i < length ss"
  shows "dict_get (labelled w names ss) (ss ! i) = Some (label_at w names i (ss ! i))"
proof -
  have "(ss ! i, label_at w names i (ss ! i)) \<in> set (labelled w names ss)"
    using assms(2) nth_mem [of i "labelled w names ss"] by (simp add: nth_labelled)
  then show ?thesis using assms(1) by (simp add: dict_get_def)
qed

lemma render_blocks_total:
  "speakers_of es \<subseteq> fst ` set m \<Longrightarrow> render_blocks m blocks cur es \<noteq> None"
proof (induction m blocks cur es rule: render_blocks.induct)
  case (2 m blocks cur e es)
  have sub: "speakers_of es \<subseteq> fst ` set m" using "2.prems" by (auto simp: speakers_of_def)
  have "dict_get m s \<noteq> None" if "te_speaker e = Some s" for s
    using "2.prems" that by (auto simp: dict_get_None_iff speakers_of_def)
  then show ?case using 2 sub by (auto simp: Let_def split: option.splits)
qed simp

section \<open>Trimming keeps sentences with their entries\<close>

lemma run_length_prefix: "run_length uc h xs \<le> run_length uc h (xs @ ys)"
  unfolding run_length_def by (induction xs) auto

lemma front_clean_prefix: "front_clean uc (xs @ ys) \<Longrightarrow> front_clean uc xs"
  using run_length_prefix [of uc "normalize_token uc (hd xs)" xs ys]
  by (cases xs) (auto simp: front_clean_def Let_def min_repeats_def)

lemma trim_units_clean:
  assumes "trim_repetitive_units uc units = (kept, m)"
  shows "front_clean uc kept"
proof -
  obtain rest nh ph where a: "trim_run uc units 0 None = (rest, nh, ph)" by (cases "trim_run uc units 0 None") auto
  obtain tser nt pt where b: "trim_run uc (rev rest) 0 None = (tser, nt, pt)"
    by (cases "trim_run uc (rev rest) 0 None") auto
  have "front_clean uc rest" using trim_run_spec [OF a] by blast
  moreover obtain g where "rev rest = g @ tser" using trim_run_spec [OF b] by blast
  then have "rest = rev tser @ rev g" by (metis rev_append rev_rev_ident)
  ultimately have "front_clean uc (rev tser)" using front_clean_prefix by simp
  then show ?thesis using assms by (simp add: trim_repetitive_units_def a b)
qed

text \<open>Pairs sorted by owner, regrouped owner by owner, are the pairs again.\<close>

lemma regroup_sorted:
  "sorted (map fst ps) \<Longrightarrow> \<forall>p\<in>set ps. fst p < n \<Longrightarrow>
     concat (map (\<lambda>i. filter (\<lambda>p. fst p = i) ps) [0..<n]) = ps"
proof (induction n arbitrary: ps)
  case 0
  then show ?case by (cases ps) auto
next
  case (Suc n)
  have "sorted (map fst ps) \<Longrightarrow> \<forall>p\<in>set ps. fst p < Suc n \<Longrightarrow>
      ps = filter (\<lambda>p. fst p < n) ps @ filter (\<lambda>p. fst p = n) ps" for ps :: "(nat \<times> 'b) list"
  proof (induction ps)
    case (Cons p ps)
    show ?case
    proof (cases "fst p = n")
      case True
      then have "\<forall>q\<in>set ps. fst q = n" using Cons.prems by (auto simp: less_Suc_eq_le antisym)
      then show ?thesis using True by simp
    next
      case False
      then show ?thesis using Cons by (simp add: less_Suc_eq)
    qed
  qed simp
  from this [OF Suc.prems] have split: "ps = filter (\<lambda>p. fst p < n) ps @ filter (\<lambda>p. fst p = n) ps" .
  let ?qs = "filter (\<lambda>p. fst p < n) ps"
  have "concat (map (\<lambda>i. filter (\<lambda>p. fst p = i) ?qs) [0..<n]) = ?qs"
    by (rule Suc.IH) (use sorted_filter [OF Suc.prems(1)] in simp_all)
  moreover have "map (\<lambda>i. filter (\<lambda>p. fst p = i) ?qs) [0..<n] = map (\<lambda>i. filter (\<lambda>p. fst p = i) ps) [0..<n]"
    by (intro map_cong refl) (auto simp: filter_filter intro!: filter_cong)
  ultimately have "concat (map (\<lambda>i. filter (\<lambda>p. fst p = i) ps) [0..<n]) = ?qs"
    by metis
  then have "concat (map (\<lambda>i. filter (\<lambda>p. fst p = i) ps) [0..<Suc n]) = ?qs @ filter (\<lambda>p. fst p = n) ps"
    by simp
  then show ?case using split by metis
qed

lemma sorted_owners: "sorted (map fst (concat (map (\<lambda>(i, e). map (\<lambda>p. (i, p)) (f e)) (enumerate n es))))"
proof (induction es arbitrary: n)
  case (Cons e es)
  have "sorted (map (\<lambda>x. n) (f e))" by (induction "f e") (auto simp: sorted_wrt_map)
  then show ?case using Cons [of "Suc n"]
    by (auto simp: sorted_append comp_def in_set_enumerate_eq)
qed simp

lemma set_owned: "p \<in> set (owned_sentences es) \<Longrightarrow> fst p < length es"
  by (auto simp: owned_sentences_def in_set_enumerate_eq)

lemma concat_map_concat: "concat (map f (concat xss)) = concat (map (\<lambda>xs. concat (map f xs)) xss)"
  by (induction xss) auto

text \<open>Handing kept sentences back to their entries loses none of them.\<close>

lemma solid_handed_back:
  fixes es :: "transcript_entry list"
  assumes "sorted (map fst kp)" and "\<forall>p\<in>set kp. fst p < length es"
  shows "concat (map (\<lambda>e. solid (te_text e)) (List.map_filter
           (\<lambda>(i, e). if map snd (filter (\<lambda>(k, s). k = i) kp) = [] then None
                     else Some (e\<lparr>te_text := unwords (map snd (filter (\<lambda>(k, s). k = i) kp))\<rparr>)) (enumerate 0 es)))
         = concat (map solid (map snd kp))" (is "?lhs = ?rhs")
proof -
  let ?own = "\<lambda>i. filter (\<lambda>p. fst p = i) kp"
  have own: "filter (\<lambda>(k, s). k = i) kp = ?own i" for i by (rule filter_cong) auto
  have mf: "concat (map (\<lambda>e. solid (te_text e)) (List.map_filter
           (\<lambda>(i, e). if map snd (f i) = [] then None
                     else Some (e\<lparr>te_text := unwords (map snd (f i))\<rparr>)) xs))
        = concat (map (\<lambda>i. concat (map solid (map snd (f i)))) (map fst xs))"
    for xs :: "(nat \<times> transcript_entry) list" and f :: "nat \<Rightarrow> (nat \<times> ustr) list"
    by (induction xs) (auto simp: List.map_filter_simps)
  have "?lhs = concat (map (\<lambda>i. concat (map solid (map snd (?own i)))) [0..<length es])"
    using mf [of "\<lambda>i. filter (\<lambda>(k, s). k = i) kp" "enumerate 0 es"] unfolding own by simp
  also have "\<dots> = concat (map (\<lambda>p. solid (snd p)) (concat (map ?own [0..<length es])))"
    by (simp add: concat_map_concat comp_def)
  also have "\<dots> = ?rhs" using regroup_sorted [OF assms] by (simp add: comp_def)
  finally show ?thesis .
qed

lemma trim_entries_spec:
  assumes "trim_repetitive_entries uc es = (out, m)"
  shows "out = es \<or> (\<exists>pre kept suf. map snd (owned_sentences es) = pre @ kept @ suf
            \<and> repetitive uc pre \<and> repetitive uc (rev suf)
            \<and> front_clean uc kept \<and> front_clean uc (rev kept)
            \<and> length pre = tm_head m \<and> length suf = tm_tail m
            \<and> concat (map (\<lambda>e. solid (te_text e)) out) = concat (map solid kept)
            \<and> (\<forall>x\<in>set out. \<exists>e\<in>set es. x = e\<lparr>te_text := te_text x\<rparr>))"
proof (cases "out = es")
  case False
  let ?pairs = "owned_sentences es"
  let ?ss = "map snd ?pairs"
  obtain kept m' where t: "trim_repetitive_units uc ?ss = (kept, m')" by (cases "trim_repetitive_units uc ?ss") auto
  have ne: "es \<noteq> []" "?ss \<noteq> []" "kept \<noteq> []"
    using False assms t by (auto simp: trim_repetitive_entries_def Let_def split: if_splits)
  obtain pre suf where d: "?ss = pre @ kept @ suf" "length pre = tm_head m'" "length suf = tm_tail m'"
    "repetitive uc pre" "repetitive uc (rev suf)" "front_clean uc (rev kept)"
    using trim_units_spec [OF t] by blast
  let ?ko = "if tm_head m' \<noteq> 0 \<or> tm_tail m' \<noteq> 0
             then drop (tm_head m') (take (length ?ss - tm_tail m') (map fst ?pairs)) else map fst ?pairs"
  let ?kp = "drop (tm_head m') (take (length ?ss - tm_tail m') ?pairs)"
  have len: "length ?ss = length pre + length kept + length suf" using d(1) by (metis length_append add.assoc)
  have "map snd ?kp = drop (tm_head m') (take (length ?ss - tm_tail m') ?ss)"
    by (simp add: drop_map take_map)
  also have "\<dots> = drop (length pre) (take (length pre + length kept) (pre @ kept @ suf))"
    unfolding d(2,3) [symmetric] by (simp add: len d(1))
  also have "\<dots> = kept" by simp
  finally have snd_kp: "map snd ?kp = kept" .
  have fst_kp: "map fst ?kp = ?ko" by (simp add: drop_map take_map)
  have kp: "zip ?ko kept = ?kp" unfolding fst_kp [symmetric] snd_kp [symmetric] by (simp add: zip_map_fst_snd)
  have "trim_repetitive_entries uc es = (List.map_filter
           (\<lambda>(i, e). if map snd (filter (\<lambda>(k, s). k = i) ?kp) = [] then None
                     else Some (e\<lparr>te_text := unwords (map snd (filter (\<lambda>(k, s). k = i) ?kp))\<rparr>)) (enumerate 0 es), m')"
    using ne unfolding trim_repetitive_entries_def Let_def t case_prod_conv kp
    by (simp only: if_False refl)
  then have "out = List.map_filter
           (\<lambda>(i, e). if map snd (filter (\<lambda>(k, s). k = i) ?kp) = [] then None
                     else Some (e\<lparr>te_text := unwords (map snd (filter (\<lambda>(k, s). k = i) ?kp))\<rparr>)) (enumerate 0 es)"
    and mm: "m = m'"
    using assms by (simp_all only: prod.inject)
  moreover have "sorted (map fst ?kp)"
    unfolding drop_map [symmetric] take_map [symmetric]
    by (intro sorted_wrt_drop sorted_wrt_take) (simp add: owned_sentences_def sorted_owners)
  moreover have "\<forall>p\<in>set ?kp. fst p < length es"
    using set_owned by (meson in_set_dropD in_set_takeD)
  ultimately have "concat (map (\<lambda>e. solid (te_text e)) out) = concat (map solid kept)"
    and "\<forall>x\<in>set out. \<exists>e\<in>set es. x = e\<lparr>te_text := te_text x\<rparr>"
    using solid_handed_back [of ?kp es] snd_kp
    by (auto simp: map_filter_def in_set_enumerate_eq split: if_splits intro: bexI [of _ "es ! _"])
  then show ?thesis using d mm trim_units_clean [OF t] by blast
qed simp

section \<open>Properties\<close>

definition diar :: "rat \<Rightarrow> rat \<Rightarrow> string \<Rightarrow> diar_segment" where
  "diar a b s = \<lparr>ds_start = a, ds_end = b, ds_speaker = lit s\<rparr>"

definition entry_at :: "rat \<Rightarrow> rat \<Rightarrow> string \<Rightarrow> string option \<Rightarrow> transcript_entry" where
  "entry_at a b t s = \<lparr>te_start = a, te_end = b, te_text = lit t, te_speaker = map_option lit s\<rparr>"

definition word_at :: "rat \<Rightarrow> rat \<Rightarrow> string \<Rightarrow> timed_word" where
  "word_at a b t = \<lparr>tw_word = lit t, tw_start = a, tw_end = b\<rparr>"

text \<open>An interval goes to the first of the segments that overlap it most, and to nobody exactly
  when no segment overlaps it.\<close>

theorem speaker_at_greatest_overlap:
  assumes "s < t"
  shows "(\<exists>i<length ds. speaker_at ds s t = Some (ds_speaker (ds ! i))
            \<and> 0 < overlap s t (ds_start (ds ! i)) (ds_end (ds ! i))
            \<and> (\<forall>d\<in>set ds. overlap s t (ds_start d) (ds_end d) \<le> overlap s t (ds_start (ds ! i)) (ds_end (ds ! i)))
            \<and> (\<forall>j<i. overlap s t (ds_start (ds ! j)) (ds_end (ds ! j)) < overlap s t (ds_start (ds ! i)) (ds_end (ds ! i))))
         \<or> (speaker_at ds s t = None \<and> (\<forall>d\<in>set ds. overlap s t (ds_start d) (ds_end d) = 0))"
proof -
  have "speaker_at ds s t = best_overlap s t None 0 ds" using assms by (simp add: speaker_at_def)
  then show ?thesis
    using best_overlap_cases [of s t None 0 ds] overlap_nonneg by (auto simp: order_eq_iff)
qed

theorem speaker_at_greatest_overlap_witness:
  "(0::rat) < 4 \<and> speaker_at [diar 0 1 ''A'', diar 1 4 ''B''] 0 4 = Some (lit ''B'')
   \<and> (\<exists>i<length [diar 0 1 ''A'', diar 1 4 ''B'']. speaker_at [diar 0 1 ''A'', diar 1 4 ''B''] 0 4 = Some (ds_speaker ([diar 0 1 ''A'', diar 1 4 ''B''] ! i)))"
proof -
  have "speaker_at [diar 0 1 ''A'', diar 1 4 ''B''] 0 4 = Some (lit ''B'')"
    by (simp add: speaker_at_def diar_def overlap_def)
  then show ?thesis
    using speaker_at_greatest_overlap [of 0 4 "[diar 0 1 ''A'', diar 1 4 ''B'']"] by auto
qed

text \<open>(C20) Splitting an entry at its speaker changes keeps every word, in order: either the entry
  stays whole with its own text, or it becomes at least two turns whose texts are exactly the words,
  each turn holding at least \<open>min_words\<close> words of one known speaker, running from its first word
  to its last, and no two neighbours sharing a speaker.\<close>

theorem split_entry_keeps_words:
  "(\<exists>sp. split_entry_by_speaker e ws ds mw ms = [e\<lparr>te_speaker := sp\<rparr>])
   \<or> (\<exists>gs. split_entry_by_speaker e ws ds mw ms = map turn_entry gs \<and> proper_turns gs ws mw
        \<and> concat (map (\<lambda>t. solid (te_text t)) (split_entry_by_speaker e ws ds mw ms))
          = concat (map (\<lambda>w. solid (tw_word w)) ws))"
  using split_entry_cases [of e ws ds mw ms] solid_turns by (metis proper_turns_def)

text \<open>Trimming repeated sentences removes only whole runs of at least six sentences that
  normalise to one token, from the two ends; it removes all of them; every other sentence stays, in
  order, in an entry with the times and the speaker it had.\<close>

theorem trim_entries_only_runs:
  assumes "trim_repetitive_entries uc es = (out, m)" and "out \<noteq> es"
  shows "\<exists>pre kept suf. map snd (owned_sentences es) = pre @ kept @ suf
            \<and> repetitive uc pre \<and> repetitive uc (rev suf)
            \<and> front_clean uc kept \<and> front_clean uc (rev kept)
            \<and> length pre = tm_head m \<and> length suf = tm_tail m
            \<and> concat (map (\<lambda>e. solid (te_text e)) out) = concat (map solid kept)
            \<and> (\<forall>x\<in>set out. \<exists>e\<in>set es. x = e\<lparr>te_text := te_text x\<rparr>)"
  using trim_entries_spec [OF assms(1)] assms(2) by blast

definition sample_loop :: "transcript_entry list" where
  "sample_loop = [entry_at 0 1 ''a'' None, entry_at 1 9 ''b. b. b. b. b. b.'' None]"

lemma owned_sample_loop:
  "owned_sentences sample_loop = [(0, [97]), (1, [98, 46]), (1, [98, 46]), (1, [98, 46]),
     (1, [98, 46]), (1, [98, 46]), (1, [98, 46])]"
  by (simp add: owned_sentences_def sample_loop_def entry_at_def lit_def entry_sentences_def Let_def
      strip_def lstrip_def rstrip_def py_space_def sentence_split_def sentence_end_def)

lemma trim_sample_loop_units:
  "trim_repetitive_units ascii_tables [[97], [98, 46], [98, 46], [98, 46], [98, 46], [98, 46], [98, 46]]
     = ([[97]], \<lparr>tm_head = 0, tm_tail = 6, tm_head_phrase = None, tm_tail_phrase = Some [98, 46]\<rparr>)"
  by (simp add: trim_repetitive_units_def trim_run.simps normalize_token_def ascii_tables_def ascii_word_def
      ascii_lower1_def min_repeats_def run_length_def Let_def strip_def lstrip_def rstrip_def py_space_def)

lemma trim_sample_loop:
  "trim_repetitive_entries ascii_tables sample_loop
     = ([entry_at 0 1 ''a'' None], \<lparr>tm_head = 0, tm_tail = 6, tm_head_phrase = None, tm_tail_phrase = Some [98, 46]\<rparr>)"
proof -
  have e: "sample_loop \<noteq> []" by (simp add: sample_loop_def)
  show ?thesis
    unfolding trim_repetitive_entries_def owned_sample_loop
    by (simp add: e trim_sample_loop_units)
       (simp add: sample_loop_def entry_at_def lit_def List.map_filter_simps)
qed

theorem trim_entries_only_runs_witness:
  "\<exists>out m. trim_repetitive_entries ascii_tables sample_loop = (out, m) \<and> out \<noteq> sample_loop
     \<and> (\<exists>pre kept suf. map snd (owned_sentences sample_loop) = pre @ kept @ suf
          \<and> repetitive ascii_tables pre \<and> repetitive ascii_tables (rev suf)
          \<and> concat (map (\<lambda>e. solid (te_text e)) out) = concat (map solid kept))"
proof -
  have "[entry_at 0 1 ''a'' None] \<noteq> sample_loop" by (simp add: sample_loop_def)
  then show ?thesis
    using trim_entries_only_runs [OF trim_sample_loop] trim_sample_loop by blast
qed

text \<open>Folding marginal speakers changes nothing but speakers: every entry keeps its times and
  text, an unattributed entry stays unattributed, and an entry changes hands only when its speaker's
  share of the attributed speech is below the threshold, and then goes to the speaker with the most
  speech.\<close>

theorem drop_marginal_only_folds:
  "(drop_marginal_speakers es q = es)
   \<or> (\<exists>dom. dom \<in> speakers_of es \<and> (\<forall>s\<in>speakers_of es. seconds_of es s \<le> seconds_of es dom)
        \<and> drop_marginal_speakers es q =
            map (\<lambda>e. case te_speaker e of None \<Rightarrow> e
                  | Some s \<Rightarrow> if seconds_of es s / total_seconds es < q then e\<lparr>te_speaker := Some dom\<rparr> else e) es)"
  by (rule drop_marginal_spec)

theorem drop_marginal_only_folds_witness:
  "(\<exists>dom. drop_marginal_speakers [entry_at 0 9 ''a'' (Some ''A''), entry_at 9 10 ''b'' (Some ''B'')] (1/5)
      = [entry_at 0 9 ''a'' (Some ''A''), (entry_at 9 10 ''b'' (Some ''B''))\<lparr>te_speaker := Some dom\<rparr>])"
proof -
  let ?es = "[entry_at 0 9 ''a'' (Some ''A''), entry_at 9 10 ''b'' (Some ''B'')]"
  have "drop_marginal_speakers ?es (1/5) \<noteq> ?es"
    by (simp add: drop_marginal_speakers_def entry_at_def lit_def dict_get_def)
  then obtain dom where "drop_marginal_speakers ?es (1/5) =
            map (\<lambda>e. case te_speaker e of None \<Rightarrow> e
                  | Some s \<Rightarrow> if seconds_of ?es s / total_seconds ?es < 1/5 then e\<lparr>te_speaker := Some dom\<rparr> else e) ?es"
    using drop_marginal_only_folds [of ?es "1/5"] by blast
  then show ?thesis
    by (simp add: entry_at_def seconds_of_def total_seconds_def lit_def dict_get_def)
qed

text \<open>Speakers are labelled once each, numbered by first appearance; a named speaker shows the
  name but still takes its number, so naming one never renumbers another; and the labels cover every
  speaker, so rendering a transcript never meets a missing label.\<close>

theorem label_map_numbering:
  "map fst (label_map es w names) = spoken_order es \<and> distinct (spoken_order es)
   \<and> set (spoken_order es) = speakers_of es
   \<and> (\<forall>i<length (spoken_order es). dict_get (label_map es w names) (spoken_order es ! i)
        = Some (label_at w names i (spoken_order es ! i)))
   \<and> render_transcript es q w names \<noteq> None"
proof (intro conjI allI impI)
  show "map fst (label_map es w names) = spoken_order es" by (simp add: label_map_labelled)
  show "dict_get (label_map es w names) (spoken_order es ! i) = Some (label_at w names i (spoken_order es ! i))"
    if "i < length (spoken_order es)" for i
    using dict_get_labelled [OF spoken_order_spec(1) that] by (simp add: label_map_labelled)
  have "render_cleaned_transcript x (label_map x w names) \<noteq> None" for x
    using render_blocks_total [of x "label_map x w names" "[]" None]
    by (auto simp: render_cleaned_transcript_def label_map_labelled spoken_order_spec)
  then show "render_transcript es q w names \<noteq> None" by (simp add: render_transcript_def Let_def)
qed (rule spoken_order_spec)+

theorem label_map_numbering_witness:
  "dict_get (label_map [entry_at 0 1 ''a'' (Some ''A''), entry_at 1 2 ''b'' (Some ''B'')] (lit ''V'')
       [(lit ''A'', lit ''Ann'')]) (lit ''B'') = Some (lit ''V 2'')"
proof -
  let ?es = "[entry_at 0 1 ''a'' (Some ''A''), entry_at 1 2 ''b'' (Some ''B'')]"
  have o: "spoken_order ?es = [lit ''A'', lit ''B'']"
    by (simp add: spoken_order_def entry_at_def lit_def)
  show ?thesis
    using label_map_numbering [of ?es "lit ''V''" "[(lit ''A'', lit ''Ann'')]" 0] unfolding o
    by (simp add: label_at_def dict_get_def lit_def decimal.simps less_Suc_eq_0_disj)
qed

text \<open>A speaker is flagged as noise only when its share is below the threshold and some speaker
  with a strictly greater share has a similar voice; so the speaker who talks most is never
  flagged.\<close>

theorem auto_noise_only_small:
  assumes "l \<in> set (auto_noise_labels shares embs q d)"
  shows "\<exists>s other other_share e1 e2. (l, s) \<in> set shares \<and> s < q \<and> (other, other_share) \<in> set shares
     \<and> other \<noteq> l \<and> s < other_share \<and> embedding_of embs l = Some e1 \<and> embedding_of embs other = Some e2
     \<and> cosine_distance e1 e2 \<le> d"
  using assms
  by (fastforce simp: auto_noise_labels_def is_auto_noise_def list_ex_iff split: option.splits if_splits)

theorem auto_noise_only_small_witness:
  "lit ''B'' \<in> set (auto_noise_labels [(lit ''A'', 9/10), (lit ''B'', 1/10)]
      [(lit ''A'', [1]), (lit ''B'', [1])] (1/5) (1/2))
   \<and> (\<exists>s. (lit ''B'', s) \<in> set [(lit ''A'', 9/10), (lit ''B'', 1/10)] \<and> s < (1/5::rat))"
proof -
  have m: "lit ''B'' \<in> set (auto_noise_labels [(lit ''A'', 9/10), (lit ''B'', 1/10)]
      [(lit ''A'', [1]), (lit ''B'', [1])] (1/5) (1/2))"
    by (simp add: auto_noise_labels_def is_auto_noise_def embedding_of_def dict_get_def cosine_distance_def lit_def)
  then show ?thesis using auto_noise_only_small [OF m] by blast
qed

end
