(* ===== verification/Task_Status.thy ===== *)
theory Task_Status
  imports VTS_Prelude
begin

text \<open>
  The status enumerations of \<open>vts/db/models.py\<close> and their semantics:
  \<open>vts/services/task_status.py\<close> and \<open>vts/services/delivery_status.py\<close>. Each set of the source is
  a list, each predicate a membership test.
\<close>

section \<open>Enumerations\<close>

datatype task_status = Queued | Running | Waiting | Paused | Completed | Archived | Failed | Canceled | AwaitingInput

datatype step_status = SPending | SRunning | SCompleted | SFailed | SSkipped

datatype delivery_status = DPending | DDelivering | DDelivered | DDead | DWaitingAdapter

definition all_task_statuses :: "task_status list" where
  "all_task_statuses = [Queued, Running, Waiting, Paused, Completed, Archived, Failed, Canceled, AwaitingInput]"

fun status_value :: "task_status \<Rightarrow> string" where
  "status_value Queued = ''queued''"
| "status_value Running = ''running''"
| "status_value Waiting = ''waiting''"
| "status_value Paused = ''paused''"
| "status_value Completed = ''completed''"
| "status_value Archived = ''archived''"
| "status_value Failed = ''failed''"
| "status_value Canceled = ''canceled''"
| "status_value AwaitingInput = ''awaiting_input''"

section \<open>Task statuses\<close>

definition active_statuses :: "task_status list" where "active_statuses = [Running, Waiting]"
definition pending_statuses :: "task_status list" where "pending_statuses = [Queued, Waiting]"
definition finished_statuses :: "task_status list" where
  "finished_statuses = [Completed, Failed, Canceled, Archived]"
definition pausable_statuses :: "task_status list" where "pausable_statuses = [Queued, Running, Waiting]"
definition resumable_statuses :: "task_status list" where "resumable_statuses = [Paused, Failed, AwaitingInput]"
definition archivable_statuses :: "task_status list" where
  "archivable_statuses = [Completed, Failed, AwaitingInput]"
definition skippable_on_start_statuses :: "task_status list" where
  "skippable_on_start_statuses = [Canceled, Completed, Archived]"
definition terminal_for_wait_statuses :: "task_status list" where
  "terminal_for_wait_statuses = finished_statuses"
definition needs_input_statuses :: "task_status list" where "needs_input_statuses = [AwaitingInput]"

lemmas task_status_sets = active_statuses_def pending_statuses_def finished_statuses_def
  pausable_statuses_def resumable_statuses_def archivable_statuses_def
  skippable_on_start_statuses_def terminal_for_wait_statuses_def needs_input_statuses_def

definition is_active :: "task_status \<Rightarrow> bool" where "is_active s = (s \<in> set active_statuses)"
definition is_pending :: "task_status \<Rightarrow> bool" where "is_pending s = (s \<in> set pending_statuses)"
definition is_finished :: "task_status \<Rightarrow> bool" where "is_finished s = (s \<in> set finished_statuses)"
definition shows_progress :: "task_status \<Rightarrow> bool" where
  "shows_progress s = (is_active s \<or> s \<in> set [Completed, Failed])"
definition can_pause :: "task_status \<Rightarrow> bool" where "can_pause s = (s \<in> set pausable_statuses)"
definition can_resume :: "task_status \<Rightarrow> bool" where "can_resume s = (s \<in> set resumable_statuses)"
definition can_archive :: "task_status \<Rightarrow> bool" where "can_archive s = (s \<in> set archivable_statuses)"
definition is_skippable_on_start :: "task_status \<Rightarrow> bool" where
  "is_skippable_on_start s = (s \<in> set skippable_on_start_statuses)"
definition is_terminal_for_wait :: "task_status \<Rightarrow> bool" where
  "is_terminal_for_wait s = (s \<in> set terminal_for_wait_statuses)"
definition needs_input :: "task_status \<Rightarrow> bool" where "needs_input s = (s \<in> set needs_input_statuses)"

lemmas task_status_defs = is_active_def is_pending_def is_finished_def shows_progress_def can_pause_def
  can_resume_def can_archive_def is_skippable_on_start_def is_terminal_for_wait_def needs_input_def

text \<open>\<open>status_flags()\<close>, the table the frontend receives.\<close>

record status_flag_row =
  sf_active :: bool
  sf_pending :: bool
  sf_finished :: bool
  sf_progress :: bool
  sf_pause :: bool
  sf_resume :: bool
  sf_archive :: bool
  sf_needs_input :: bool

definition flags_of :: "task_status \<Rightarrow> status_flag_row" where
  "flags_of s = \<lparr>sf_active = is_active s, sf_pending = is_pending s, sf_finished = is_finished s,
     sf_progress = shows_progress s, sf_pause = can_pause s, sf_resume = can_resume s,
     sf_archive = can_archive s, sf_needs_input = needs_input s\<rparr>"

definition status_flags :: "(string \<times> status_flag_row) list" where
  "status_flags = map (\<lambda>s. (status_value s, flags_of s)) all_task_statuses"

section \<open>Delivery statuses\<close>

definition terminal_deliveries :: "delivery_status list" where "terminal_deliveries = [DDelivered, DDead]"
definition in_flight_deliveries :: "delivery_status list" where
  "in_flight_deliveries = [DPending, DDelivering, DWaitingAdapter]"
definition claimable_deliveries :: "delivery_status list" where
  "claimable_deliveries = [DPending, DWaitingAdapter]"
definition retryable_deliveries :: "delivery_status list" where "retryable_deliveries = [DDead]"
definition error_deliveries :: "delivery_status list" where "error_deliveries = [DDead]"

definition delivery_is_terminal :: "delivery_status \<Rightarrow> bool" where
  "delivery_is_terminal s = (s \<in> set terminal_deliveries)"
definition delivery_is_in_flight :: "delivery_status \<Rightarrow> bool" where
  "delivery_is_in_flight s = (s \<in> set in_flight_deliveries)"
definition delivery_is_claimable :: "delivery_status \<Rightarrow> bool" where
  "delivery_is_claimable s = (s \<in> set claimable_deliveries)"
definition delivery_can_retry :: "delivery_status \<Rightarrow> bool" where
  "delivery_can_retry s = (s \<in> set retryable_deliveries)"
definition delivery_is_error :: "delivery_status \<Rightarrow> bool" where
  "delivery_is_error s = (s \<in> set error_deliveries)"
definition is_waiting_for_adapter :: "delivery_status \<Rightarrow> bool" where
  "is_waiting_for_adapter s = (s = DWaitingAdapter)"

lemmas delivery_status_defs = terminal_deliveries_def in_flight_deliveries_def claimable_deliveries_def
  retryable_deliveries_def error_deliveries_def delivery_is_terminal_def delivery_is_in_flight_def
  delivery_is_claimable_def delivery_can_retry_def delivery_is_error_def is_waiting_for_adapter_def

section \<open>How the sets relate\<close>

lemma status_complete: "s \<in> set all_task_statuses"
  by (cases s) (simp_all add: all_task_statuses_def)

lemma status_value_inject: "status_value a = status_value b \<longleftrightarrow> a = b"
  by (cases a; cases b) simp_all

lemma status_flags_lookup: "map_of status_flags (status_value s) = Some (flags_of s)"
  by (cases s) (simp_all add: status_flags_def all_task_statuses_def)

text \<open>The user always has exactly one way on: a status is pausable, or resumable, or finished, and
  only \<open>Failed\<close> is two of these.\<close>

lemma controls_partition:
  "can_pause s \<or> can_resume s \<or> is_finished s"
  "\<not> (can_pause s \<and> can_resume s)"
  "\<not> (can_pause s \<and> is_finished s)"
  "can_resume s \<and> is_finished s \<longleftrightarrow> s = Failed"
  by (cases s; simp add: task_status_defs task_status_sets)+

lemma delivery_partition:
  "delivery_is_terminal d \<longleftrightarrow> \<not> delivery_is_in_flight d"
  "delivery_is_claimable d \<Longrightarrow> delivery_is_in_flight d"
  "delivery_can_retry d \<Longrightarrow> delivery_is_terminal d"
  "is_waiting_for_adapter d \<Longrightarrow> delivery_is_claimable d \<and> \<not> delivery_is_error d \<and> \<not> delivery_can_retry d"
  by (cases d; simp add: delivery_status_defs)+

end
