(* ===== verification/Prompt_Options.thy ===== *)
theory Prompt_Options
  imports Json_Values
begin

text \<open>
  Which prompts a task runs and what became of them: \<open>vts/services/prompt_registry.py\<close>,
  \<open>preset_registry.py\<close>, \<open>preset_expand.py\<close>, \<open>prompt_results.py\<close>, \<open>task_progress.py\<close>, the step list
  of \<open>vts/pipeline/types.py\<close> and the option tests of \<open>TaskProcessor\<close>.
\<close>

section \<open>Prompt references\<close>

record prompt_ref =
  pr_source :: ustr
  pr_id :: ustr

datatype ref_error = InvalidRef | InvalidSource ustr | EmptyId

definition valid_source :: "ustr \<Rightarrow> bool" where
  "valid_source s \<longleftrightarrow> s = lit ''system'' \<or> s = lit ''user''"

text \<open>\<open>s.partition(":")\<close> without the separator.\<close>

definition partition_colon :: "ustr \<Rightarrow> ustr \<times> ustr" where
  "partition_colon s = (takeWhile (\<lambda>c. c \<noteq> 58) s, drop 1 (dropWhile (\<lambda>c. c \<noteq> 58) s))"

definition check_ref :: "ustr \<times> ustr \<Rightarrow> ref_error + prompt_ref" where
  "check_ref p = (case p of (source, ref_id) \<Rightarrow>
     if \<not> valid_source source then Inl (InvalidSource source)
     else if ref_id = [] then Inl EmptyId
     else Inr \<lparr>pr_source = source, pr_id = ref_id\<rparr>)"

definition parse_ref :: "(json \<Rightarrow> ustr) \<Rightarrow> json \<Rightarrow> ref_error + prompt_ref" where
  "parse_ref rp v = (case v of
      JStr s \<Rightarrow> check_ref (partition_colon s)
    | JDict d \<Rightarrow> check_ref (py_str rp (jget_or d (lit ''source'') (JStr [])), py_str rp (jget_or d (lit ''id'') (JStr [])))
    | _ \<Rightarrow> Inl InvalidRef)"

text \<open>\<open>parse_preset_ref\<close> of the preset registry is the same code.\<close>

definition parse_preset_ref :: "(json \<Rightarrow> ustr) \<Rightarrow> json \<Rightarrow> ref_error + prompt_ref" where
  "parse_preset_ref rp v = (case v of
      JStr s \<Rightarrow> check_ref (partition_colon s)
    | JDict d \<Rightarrow> check_ref (py_str rp (jget_or d (lit ''source'') (JStr [])), py_str rp (jget_or d (lit ''id'') (JStr [])))
    | _ \<Rightarrow> Inl InvalidRef)"

definition ref_to_dict :: "prompt_ref \<Rightarrow> json" where
  "ref_to_dict r = JDict [(lit ''source'', JStr (pr_source r)), (lit ''id'', JStr (pr_id r))]"

definition ref_key :: "ustr \<Rightarrow> ustr \<Rightarrow> ustr" where
  "ref_key source i = source @ 58 # i"

definition summary_ref :: prompt_ref where
  "summary_ref = \<lparr>pr_source = lit ''system'', pr_id = lit ''summary''\<rparr>"

definition system_prompt_keys :: "ustr list" where
  "system_prompt_keys = [lit ''summary'']"

text \<open>References that do not parse are dropped; without a list of prompts the legacy \<open>summary\<close> flag
  decides.\<close>

fun parsed_refs :: "(json \<Rightarrow> ustr) \<Rightarrow> json list \<Rightarrow> prompt_ref list" where
  "parsed_refs rp [] = []"
| "parsed_refs rp (v # vs) = (case parse_ref rp v of Inl _ \<Rightarrow> parsed_refs rp vs | Inr r \<Rightarrow> r # parsed_refs rp vs)"

definition selected_prompt_refs :: "(json \<Rightarrow> ustr) \<Rightarrow> json \<Rightarrow> prompt_ref list" where
  "selected_prompt_refs rp options = (case options of
     JDict d \<Rightarrow> (case jget d (lit ''prompts'') of
         JList vs \<Rightarrow> parsed_refs rp vs
       | _ \<Rightarrow> if jget_or d (lit ''summary'') (JBool True) = JBool False then [] else [summary_ref])
   | _ \<Rightarrow> [summary_ref])"

text \<open>\<open>summary_progress_for_task\<close>: the stored counters are integers.\<close>

definition summary_progress_for_task :: "jdict \<Rightarrow> (int \<times> int) option \<Rightarrow> int \<times> int" where
  "summary_progress_for_task options progress =
     (if jget options (lit ''summary'') = JBool False then (0, 0)
      else (case progress of None \<Rightarrow> (0, 0) | Some (current, n) \<Rightarrow> (max current 0, max n 0)))"

section \<open>The steps of a task\<close>

definition dag_head :: "ustr list" where
  "dag_head = map lit [''download'', ''extract_audio'', ''trim_initial_silence'', ''segment_audio'',
     ''detect_language'', ''transcribe_segments'', ''diarize'', ''merge_transcript'',
     ''prepare_llama_model'', ''match_speakers'', ''prepare_summary_chunks'', ''summarize_windows'',
     ''pack_window_notes'']"

definition finalize_step_name :: "prompt_ref \<Rightarrow> ustr" where
  "finalize_step_name r =
     (if pr_source r = lit ''system'' \<and> pr_id r = lit ''summary'' then lit ''summarize_final''
      else lit ''finalize:'' @ ref_key (pr_source r) (pr_id r))"

definition build_dag_steps :: "(json \<Rightarrow> ustr) \<Rightarrow> json \<Rightarrow> ustr list" where
  "build_dag_steps rp options = dag_head @ map finalize_step_name (selected_prompt_refs rp options)"

definition task_flag :: "unicode \<Rightarrow> jdict \<Rightarrow> ustr \<Rightarrow> bool \<Rightarrow> bool" where
  "task_flag uc options key dflt = (case jget_or options key (JBool dflt) of
      JBool b \<Rightarrow> b
    | JStr s \<Rightarrow> uc_lower uc (strip s) \<in> set [lit ''1'', lit ''true'', lit ''yes'', lit ''on'']
    | v \<Rightarrow> truthy v)"

definition summary_head :: "ustr list" where
  "summary_head = map lit [''prepare_llama_model'', ''prepare_summary_chunks'', ''summarize_windows'', ''pack_window_notes'']"

definition is_step_enabled :: "unicode \<Rightarrow> (json \<Rightarrow> ustr) \<Rightarrow> ustr \<Rightarrow> jdict \<Rightarrow> bool" where
  "is_step_enabled uc rp step options =
     (if \<not> task_flag uc options (lit ''transcript'') True then step = lit ''download''
      else if step = lit ''summarize_final'' \<or> starts_with (lit ''finalize:'') step then True
      else if step \<in> set summary_head then selected_prompt_refs rp (JDict options) \<noteq> []
      else True)"

section \<open>Presets\<close>

text \<open>\<open>None\<close> is the \<open>TypeError\<close> of iterating a value that is neither empty nor iterable.\<close>

definition filter_prompt_ref :: "(json \<Rightarrow> ustr) \<Rightarrow> ustr list \<Rightarrow> json \<Rightarrow> prompt_ref option" where
  "filter_prompt_ref rp valid_user_ids r = (case r of
     JDict d \<Rightarrow>
       (let i = py_str rp (jget d (lit ''id'')) in
        if jget d (lit ''source'') = JStr (lit ''system'') then Some \<lparr>pr_source = lit ''system'', pr_id = i\<rparr>
        else if jget d (lit ''source'') = JStr (lit ''user'') \<and> i \<in> set valid_user_ids
        then Some \<lparr>pr_source = lit ''user'', pr_id = i\<rparr> else None)
   | _ \<Rightarrow> None)"

definition filter_prompt_refs :: "(json \<Rightarrow> ustr) \<Rightarrow> json \<Rightarrow> ustr list \<Rightarrow> prompt_ref list option" where
  "filter_prompt_refs rp prompts valid_user_ids =
     map_option (List.map_filter (filter_prompt_ref rp valid_user_ids)) (iter_or_empty prompts)"

record delivery_ref =
  dr_deliver_to :: ustr
  dr_variant :: "ustr option"

definition filter_delivery_ref :: "(json \<Rightarrow> ustr) \<Rightarrow> json \<Rightarrow> delivery_ref option" where
  "filter_delivery_ref rp item = (case item of
     JDict d \<Rightarrow>
       (if \<not> truthy (jget d (lit ''deliver_to'')) then None
        else Some \<lparr>dr_deliver_to = py_str rp (jget d (lit ''deliver_to'')),
                   dr_variant = (if truthy (jget d (lit ''variant'')) then Some (py_str rp (jget d (lit ''variant''))) else None)\<rparr>)
   | _ \<Rightarrow> None)"

definition filter_delivery_refs :: "(json \<Rightarrow> ustr) \<Rightarrow> json \<Rightarrow> delivery_ref list option" where
  "filter_delivery_refs rp delivery = map_option (List.map_filter (filter_delivery_ref rp)) (iter_or_empty delivery)"

definition delivery_ref_to_dict :: "delivery_ref \<Rightarrow> json" where
  "delivery_ref_to_dict r = JDict ((lit ''deliver_to'', JStr (dr_deliver_to r)) #
     (case dr_variant r of None \<Rightarrow> [] | Some v \<Rightarrow> [(lit ''variant'', JStr v)]))"

record preset_options =
  po_language :: json
  po_audio_only :: bool
  po_transcript :: bool
  po_diarize :: bool
  po_prompts :: "prompt_ref list"
  po_delivery :: "delivery_ref list"

definition expand_preset_options :: "(json \<Rightarrow> ustr) \<Rightarrow> jdict \<Rightarrow> ustr list \<Rightarrow> preset_options option" where
  "expand_preset_options rp o' valid_user_prompt_ids =
     (case filter_prompt_refs rp (jget_or o' (lit ''prompts'') (JList [])) valid_user_prompt_ids of None \<Rightarrow> None
      | Some ps \<Rightarrow>
     (case filter_delivery_refs rp (jget_or o' (lit ''delivery'') (JList [])) of None \<Rightarrow> None
      | Some ds \<Rightarrow> Some \<lparr>po_language = jget o' (lit ''language''),
          po_audio_only = truthy (jget_or o' (lit ''audio_only'') (JBool False)),
          po_transcript = truthy (jget_or o' (lit ''transcript'') (JBool True)),
          po_diarize = truthy (jget_or o' (lit ''diarize'') (JBool False)),
          po_prompts = ps, po_delivery = ds\<rparr>))"

record system_preset =
  sp_key :: ustr
  sp_options :: jdict

definition system_presets :: "system_preset list" where
  "system_presets = [\<lparr>sp_key = lit ''default'',
     sp_options = [(lit ''language'', JNull), (lit ''audio_only'', JBool False), (lit ''transcript'', JBool True),
                   (lit ''prompts'', JList [ref_to_dict summary_ref])]\<rparr>]"

definition resolve_preset :: "ustr \<Rightarrow> ustr \<Rightarrow> system_preset list \<Rightarrow> jdict option \<Rightarrow> jdict option" where
  "resolve_preset source i presets user_options =
     (if source = lit ''system'' then map_option sp_options (find (\<lambda>p. sp_key p = i) presets)
      else user_options)"

section \<open>Prompt results\<close>

text \<open>An entry of \<open>options["prompt_results"]\<close> is a dictionary; the list is rebuilt, never mutated.\<close>

definition entry_key :: "(json \<Rightarrow> ustr) \<Rightarrow> jdict \<Rightarrow> ustr" where
  "entry_key rp e = ref_key (py_str rp (jget e (lit ''source''))) (py_str rp (jget e (lit ''id'')))"

definition update_entry :: "jdict \<Rightarrow> ustr \<Rightarrow> ustr \<Rightarrow> ustr \<Rightarrow> jdict" where
  "update_entry e name path status =
     dict_set (dict_set (dict_set e (lit ''name'') (JStr name)) (lit ''path'') (JStr path)) (lit ''status'') (JStr status)"

fun upsert_entries ::
  "(json \<Rightarrow> ustr) \<Rightarrow> jdict list \<Rightarrow> ustr \<Rightarrow> ustr \<Rightarrow> ustr \<Rightarrow> ustr \<Rightarrow> ustr \<Rightarrow> jdict list" where
  "upsert_entries rp [] source i name path status =
     [[(lit ''source'', JStr source), (lit ''id'', JStr i), (lit ''name'', JStr name),
       (lit ''path'', JStr path), (lit ''status'', JStr status)]]"
| "upsert_entries rp (e # es) source i name path status =
     (if entry_key rp e = ref_key source i then update_entry e name path status # es
      else e # upsert_entries rp es source i name path status)"

text \<open>\<open>dict(e)\<close> for every entry: \<open>None\<close> is the error of an entry that is not a dictionary (the
  only writer stores dictionaries).\<close>

fun dict_entries :: "json list \<Rightarrow> jdict list option" where
  "dict_entries [] = Some []"
| "dict_entries (JDict d # vs) = map_option ((#) d) (dict_entries vs)"
| "dict_entries (_ # vs) = None"

definition result_entries :: "json \<Rightarrow> json list" where
  "result_entries options = (case options of
     JDict d \<Rightarrow> (case jget d (lit ''prompt_results'') of JList vs \<Rightarrow> vs | _ \<Rightarrow> [])
   | _ \<Rightarrow> [])"

definition upsert_result_entry ::
  "(json \<Rightarrow> ustr) \<Rightarrow> jdict \<Rightarrow> ustr \<Rightarrow> ustr \<Rightarrow> ustr \<Rightarrow> ustr \<Rightarrow> ustr \<Rightarrow> jdict list option" where
  "upsert_result_entry rp options source i name path status =
     map_option (\<lambda>es. upsert_entries rp es source i name path status)
       (case jget options (lit ''prompt_results'') of JList vs \<Rightarrow> dict_entries vs | _ \<Rightarrow> Some [])"

text \<open>The outer \<open>None\<close> is the error of reading an entry that is not a dictionary, the inner one
  "no such result".\<close>

fun resolve_in :: "(json \<Rightarrow> ustr) \<Rightarrow> json list \<Rightarrow> ustr \<Rightarrow> ustr option option" where
  "resolve_in rp [] wanted = Some None"
| "resolve_in rp (JDict e # es) wanted =
     (if entry_key rp e = wanted
      then (case jget e (lit ''path'') of
              JStr p \<Rightarrow> if p \<noteq> [] then Some (Some p) else resolve_in rp es wanted
            | _ \<Rightarrow> resolve_in rp es wanted)
      else resolve_in rp es wanted)"
| "resolve_in rp (_ # es) wanted = None"

definition resolve_result_path ::
  "(json \<Rightarrow> ustr) \<Rightarrow> json \<Rightarrow> ustr option \<Rightarrow> ustr \<Rightarrow> ustr \<Rightarrow> ustr option option" where
  "resolve_result_path rp options summary_path source i =
     map_option (\<lambda>r. case r of
         Some p \<Rightarrow> Some p
       | None \<Rightarrow> if source = lit ''system'' \<and> i = lit ''summary'' \<and> summary_path \<noteq> Some []
                 then summary_path else None) (resolve_in rp (result_entries options) (ref_key source i))"

definition downgrade_entry :: "(jdict \<Rightarrow> bool) \<Rightarrow> jdict \<Rightarrow> jdict" where
  "downgrade_entry should e =
     (if jget e (lit ''status'') = JStr (lit ''completed'') \<and> should e
      then dict_set e (lit ''status'') (JStr (lit ''pending'')) else e)"

definition downgrade_entries :: "(jdict \<Rightarrow> bool) \<Rightarrow> json \<Rightarrow> json option" where
  "downgrade_entries should options = map_option (\<lambda>es.
     if list_ex (\<lambda>e. jget e (lit ''status'') = JStr (lit ''completed'') \<and> should e) es
     then JDict (dict_set (as_dict options) (lit ''prompt_results'') (JList (map (\<lambda>e. JDict (downgrade_entry should e)) es)))
     else options) (dict_entries (result_entries options))"

definition downgrade_system_summary_entry :: "(json \<Rightarrow> ustr) \<Rightarrow> json \<Rightarrow> json option" where
  "downgrade_system_summary_entry rp options =
     downgrade_entries (\<lambda>e. entry_key rp e = ref_key (lit ''system'') (lit ''summary'')) options"

definition downgrade_all_result_entries :: "json \<Rightarrow> json option" where
  "downgrade_all_result_entries options = downgrade_entries (\<lambda>e. True) options"

text \<open>The files of \<open>clear_all_finalize_results\<close>, as (directory, name) pairs under the artifact root.\<close>

definition finalize_result_file :: "ustr list \<Rightarrow> bool" where
  "finalize_result_file p \<longleftrightarrow>
     (length p = 3 \<and> take 2 p = [lit ''summary'', lit ''results''])
     \<or> p \<in> set [[lit ''summary'', lit ''final.md''], [lit ''summary'', lit ''final.json''],
                [lit ''outputs'', lit ''summary.md''], [lit ''outputs'', lit ''summary.json'']]"

definition clear_all_finalize_results ::
  "json \<times> ustr option \<times> ustr list list \<Rightarrow> json \<times> ustr option \<times> ustr list list" where
  "clear_all_finalize_results st = (case st of (options, summary_path, files) \<Rightarrow>
     (JDict (dict_set (as_dict options) (lit ''prompt_results'') (JList [])), None,
      filter (\<lambda>p. \<not> finalize_result_file p) files))"

section \<open>References and step names\<close>

lemma valid_source_no_colon: "valid_source s \<Longrightarrow> 58 \<notin> set s"
  by (auto simp: valid_source_def lit_def)

lemma takeWhile_before: "c \<notin> set a \<Longrightarrow> takeWhile (\<lambda>x. x \<noteq> c) (a @ c # b) = a"
  by (induction a) auto

lemma dropWhile_before: "c \<notin> set a \<Longrightarrow> dropWhile (\<lambda>x. x \<noteq> c) (a @ c # b) = c # b"
  by (induction a) auto

lemma partition_colon_ref_key: "58 \<notin> set s \<Longrightarrow> partition_colon (ref_key s i) = (s, i)"
  by (simp add: partition_colon_def ref_key_def takeWhile_before dropWhile_before)

lemma ref_key_inject:
  "valid_source s \<Longrightarrow> valid_source s' \<Longrightarrow> ref_key s i = ref_key s' i' \<longleftrightarrow> s = s' \<and> i = i'"
  using partition_colon_ref_key [OF valid_source_no_colon] by (metis prod.inject)

definition valid_ref :: "prompt_ref \<Rightarrow> bool" where
  "valid_ref r \<longleftrightarrow> valid_source (pr_source r) \<and> pr_id r \<noteq> []"

lemma check_ref_Inr: "check_ref p = Inr r \<Longrightarrow> valid_ref r \<and> p = (pr_source r, pr_id r)"
  by (auto simp: check_ref_def valid_ref_def split: if_splits prod.splits)

lemma check_ref_valid: "valid_ref r \<Longrightarrow> check_ref (pr_source r, pr_id r) = Inr r"
  by (simp add: check_ref_def valid_ref_def)

lemma parse_ref_valid: "parse_ref rp v = Inr r \<Longrightarrow> valid_ref r"
  by (auto simp: parse_ref_def dest: check_ref_Inr split: json.splits)

lemma parse_ref_key: "valid_ref r \<Longrightarrow> parse_ref rp (JStr (ref_key (pr_source r) (pr_id r))) = Inr r"
  by (simp add: parse_ref_def partition_colon_ref_key valid_source_no_colon check_ref_valid valid_ref_def)

lemma ref_dict_get [simp]:
  "jget_or [(lit ''source'', a), (lit ''id'', b)] (lit ''source'') d = a"
  "jget_or [(lit ''source'', a), (lit ''id'', b)] (lit ''id'') d = b"
  "jget [(lit ''source'', a), (lit ''id'', b)] (lit ''source'') = a"
  "jget [(lit ''source'', a), (lit ''id'', b)] (lit ''id'') = b"
  by (simp_all add: jget_or_def jget_def dict_get_def lit_def)

lemma parse_ref_dict: "valid_ref r \<Longrightarrow> parse_ref rp (ref_to_dict r) = Inr r"
  by (simp add: parse_ref_def ref_to_dict_def check_ref_valid)

lemma parsed_refs_valid: "r \<in> set (parsed_refs rp vs) \<Longrightarrow> valid_ref r"
  by (induction rp vs rule: parsed_refs.induct) (auto simp: parse_ref_valid split: sum.splits)

lemma parsed_refs_dicts: "\<forall>r\<in>set rs. valid_ref r \<Longrightarrow> parsed_refs rp (map ref_to_dict rs) = rs"
  by (induction rs) (simp_all add: parse_ref_dict)

lemma valid_summary_ref: "valid_ref summary_ref"
  by (simp add: valid_ref_def summary_ref_def valid_source_def lit_def)

lemma selected_refs_valid: "r \<in> set (selected_prompt_refs rp options) \<Longrightarrow> valid_ref r"
  by (auto simp: selected_prompt_refs_def valid_summary_ref dest: parsed_refs_valid split: json.splits if_splits)

definition is_finalize :: "ustr \<Rightarrow> bool" where
  "is_finalize step \<longleftrightarrow> step = lit ''summarize_final'' \<or> starts_with (lit ''finalize:'') step"

lemma finalize_step_is_finalize: "is_finalize (finalize_step_name r)"
  by (simp add: is_finalize_def finalize_step_name_def)

lemma head_not_finalize: "step \<in> set dag_head \<Longrightarrow> \<not> is_finalize step"
  by (auto simp: dag_head_def is_finalize_def starts_with_def lit_def)

lemma finalize_step_name_inject:
  assumes "valid_ref r" and "valid_ref r'"
  shows "finalize_step_name r = finalize_step_name r' \<longleftrightarrow> r = r'"
proof -
  have "lit ''summarize_final'' \<noteq> lit ''finalize:'' @ k" for k by (simp add: lit_def)
  then have "finalize_step_name r = finalize_step_name r' \<Longrightarrow> pr_source r = pr_source r' \<and> pr_id r = pr_id r'"
    using assms ref_key_inject [of "pr_source r" "pr_source r'" "pr_id r" "pr_id r'"]
    by (auto simp: finalize_step_name_def valid_ref_def split: if_splits) (metis append_same_eq same_append_eq)+
  then show ?thesis by auto
qed

lemma distinct_head: "distinct dag_head"
  by (simp add: dag_head_def lit_def)

lemma summary_head_in_dag: "set summary_head \<subseteq> set dag_head"
  by (auto simp: dag_head_def summary_head_def)

lemma distinct_finalize:
  "distinct (map finalize_step_name (selected_prompt_refs rp options)) \<longleftrightarrow> distinct (selected_prompt_refs rp options)"
  by (auto simp: distinct_map inj_on_def finalize_step_name_inject selected_refs_valid)

section \<open>Presets\<close>

lemma filtered_prompt_ref:
  "filter_prompt_ref rp ids v = Some r \<Longrightarrow> filter_prompt_ref rp' ids (ref_to_dict r) = Some r"
  by (auto simp: filter_prompt_ref_def ref_to_dict_def Let_def split: json.splits if_splits)

lemma refilter:
  assumes "\<And>v r. f v = Some r \<Longrightarrow> g (h r) = Some r"
  shows "List.map_filter g (map h (List.map_filter f vs)) = List.map_filter f vs"
  by (induction vs) (auto simp: List.map_filter_simps assms split: option.splits)

lemma filter_delivery_ref_dict:
  "filter_delivery_ref rp v = Some r \<Longrightarrow> dr_deliver_to r \<noteq> [] \<Longrightarrow> dr_variant r \<noteq> Some []
     \<Longrightarrow> filter_delivery_ref rp' (delivery_ref_to_dict r) = Some r"
  by (cases r) (auto simp: filter_delivery_ref_def delivery_ref_to_dict_def jget_def dict_get_def lit_def
      split: json.splits if_splits option.splits)

section \<open>Results\<close>

lemma entry_key_update [simp]: "entry_key rp (update_entry e name path status) = entry_key rp e"
  by (simp add: entry_key_def update_entry_def lit_def)

lemma update_entry_path [simp]: "jget (update_entry e name path status) (lit ''path'') = JStr path"
  by (simp add: update_entry_def lit_def)

lemma new_entry_get:
  "entry_key rp [(lit ''source'', JStr s), (lit ''id'', JStr i), (lit ''name'', n), (lit ''path'', p), (lit ''status'', t)] = ref_key s i"
  "jget [(lit ''source'', JStr s), (lit ''id'', JStr i), (lit ''name'', n), (lit ''path'', p), (lit ''status'', t)] (lit ''path'') = p"
  by (simp_all add: entry_key_def jget_def dict_get_def lit_def)

lemma resolve_upsert:
  assumes "path \<noteq> []"
  shows "resolve_in rp (map JDict (upsert_entries rp es s i name path status)) (ref_key s i) = Some (Some path)"
  using assms by (induction es) (auto simp: new_entry_get split: json.splits)

lemma resolve_upsert_other:
  assumes "w \<noteq> ref_key s i"
  shows "resolve_in rp (map JDict (upsert_entries rp es s i name path status)) w = resolve_in rp (map JDict es) w"
  using assms by (induction es) (auto simp: new_entry_get split: json.splits)

lemma upsert_keys:
  "map (entry_key rp) (upsert_entries rp es s i name path status) =
     (if ref_key s i \<in> entry_key rp ` set es then map (entry_key rp) es else map (entry_key rp) es @ [ref_key s i])"
  by (induction es) (auto simp: new_entry_get)

lemma dict_entries_JDict [simp]: "dict_entries (map JDict es) = Some es"
  by (induction es) auto

lemma downgrade_entry_status:
  "jget (downgrade_entry should e) (lit ''status'') =
     (if jget e (lit ''status'') = JStr (lit ''completed'') \<and> should e then JStr (lit ''pending'') else jget e (lit ''status''))"
  by (simp add: downgrade_entry_def)

lemma downgrade_entry_other:
  "k \<noteq> lit ''status'' \<Longrightarrow> jget (downgrade_entry should e) k = jget e k"
  by (simp add: downgrade_entry_def)

section \<open>Properties\<close>

text \<open>A prompt reference survives both its spellings: the key \<open>source:id\<close> and the dictionary
  parse back to the reference, whatever characters the id holds.\<close>

theorem parse_ref_roundtrip:
  assumes "valid_ref r"
  shows "parse_ref rp (JStr (ref_key (pr_source r) (pr_id r))) = Inr r \<and> parse_ref rp (ref_to_dict r) = Inr r"
  using assms by (simp add: parse_ref_key parse_ref_dict)

theorem parse_ref_roundtrip_witness:
  "valid_ref \<lparr>pr_source = lit ''user'', pr_id = lit ''a:b''\<rparr>
   \<and> parse_ref (\<lambda>v. []) (JStr (lit ''user:a:b'')) = Inr \<lparr>pr_source = lit ''user'', pr_id = lit ''a:b''\<rparr>"
proof -
  have v: "valid_ref \<lparr>pr_source = lit ''user'', pr_id = lit ''a:b''\<rparr>"
    by (simp add: valid_ref_def valid_source_def lit_def)
  then show ?thesis using parse_ref_roundtrip [OF v, of "\<lambda>v. []"] by (simp add: ref_key_def lit_def)
qed

text \<open>(C23) The plan of a task is the fixed head, download first, the steps that prepare the summary input last
  in it, and then one finalize step per selected prompt, in their order; the names are distinct exactly
  when the prompts are. Without a transcript only the download runs. With one, every step runs, except
  that those that prepare the summary input run exactly when there is a finalize step to consume it. As
  they all stand before every finalize step, no prompt is rendered from an input nobody prepared.\<close>

theorem dag_steps_plan:
  "takeWhile (\<lambda>step. \<not> is_finalize step) (build_dag_steps rp (JDict d))
     = map lit [''download'', ''extract_audio'', ''trim_initial_silence'', ''segment_audio'', ''detect_language'',
         ''transcribe_segments'', ''diarize'', ''merge_transcript'', ''prepare_llama_model'', ''match_speakers'',
         ''prepare_summary_chunks'', ''summarize_windows'', ''pack_window_notes'']
   \<and> dropWhile (\<lambda>step. \<not> is_finalize step) (build_dag_steps rp (JDict d)) = map finalize_step_name (selected_prompt_refs rp (JDict d))
   \<and> set summary_head \<subseteq> set (takeWhile (\<lambda>step. \<not> is_finalize step) (build_dag_steps rp (JDict d)))
   \<and> (distinct (build_dag_steps rp (JDict d)) \<longleftrightarrow> distinct (selected_prompt_refs rp (JDict d)))
   \<and> (task_flag uc d (lit ''transcript'') True \<longrightarrow>
        (\<forall>step\<in>set (build_dag_steps rp (JDict d)). step \<notin> set summary_head \<longrightarrow> is_step_enabled uc rp step d)
        \<and> (\<forall>step\<in>set summary_head. is_step_enabled uc rp step d
              \<longleftrightarrow> (\<exists>f\<in>set (build_dag_steps rp (JDict d)). is_finalize f)))
   \<and> (\<not> task_flag uc d (lit ''transcript'') True \<longrightarrow>
        (\<forall>step\<in>set (build_dag_steps rp (JDict d)). is_step_enabled uc rp step d \<longleftrightarrow> step = lit ''download''))"
proof (intro conjI impI ballI)
  let ?tail = "map finalize_step_name (selected_prompt_refs rp (JDict d))"
  have tail: "is_finalize f" if "f \<in> set ?tail" for f
    using that finalize_step_is_finalize by auto
  have disj: "set dag_head \<inter> set ?tail = {}" using tail head_not_finalize by blast
  have ends: "takeWhile (\<lambda>step. \<not> is_finalize step) ?tail = []" "dropWhile (\<lambda>step. \<not> is_finalize step) ?tail = ?tail"
    using tail by (cases ?tail; simp)+
  have head: "takeWhile (\<lambda>step. \<not> is_finalize step) (build_dag_steps rp (JDict d)) = dag_head"
    and rest: "dropWhile (\<lambda>step. \<not> is_finalize step) (build_dag_steps rp (JDict d)) = ?tail"
    using head_not_finalize ends by (simp_all add: build_dag_steps_def)
  show "takeWhile (\<lambda>step. \<not> is_finalize step) (build_dag_steps rp (JDict d))
     = map lit [''download'', ''extract_audio'', ''trim_initial_silence'', ''segment_audio'', ''detect_language'',
         ''transcribe_segments'', ''diarize'', ''merge_transcript'', ''prepare_llama_model'', ''match_speakers'',
         ''prepare_summary_chunks'', ''summarize_windows'', ''pack_window_notes'']"
    unfolding head by (rule dag_head_def)
  show "dropWhile (\<lambda>step. \<not> is_finalize step) (build_dag_steps rp (JDict d)) = ?tail" by (rule rest)
  show "set summary_head \<subseteq> set (takeWhile (\<lambda>step. \<not> is_finalize step) (build_dag_steps rp (JDict d)))"
    unfolding head by (rule summary_head_in_dag)
  show "distinct (build_dag_steps rp (JDict d)) \<longleftrightarrow> distinct (selected_prompt_refs rp (JDict d))"
    using disj by (simp only: build_dag_steps_def distinct_append distinct_head distinct_finalize) simp
  have ex: "(\<exists>f\<in>set (build_dag_steps rp (JDict d)). is_finalize f) \<longleftrightarrow> selected_prompt_refs rp (JDict d) \<noteq> []"
    using tail head_not_finalize
    by (cases "selected_prompt_refs rp (JDict d)") (auto simp: build_dag_steps_def finalize_step_is_finalize)
  show "is_step_enabled uc rp step d"
    if "task_flag uc d (lit ''transcript'') True" and "step \<notin> set summary_head" for step
    using that by (simp add: is_step_enabled_def)
  show "is_step_enabled uc rp step d \<longleftrightarrow> (\<exists>f\<in>set (build_dag_steps rp (JDict d)). is_finalize f)"
    if "task_flag uc d (lit ''transcript'') True" and "step \<in> set summary_head" for step
  proof -
    have "\<not> is_finalize step" using that(2) summary_head_in_dag head_not_finalize by blast
    then show ?thesis using that unfolding ex by (simp add: is_step_enabled_def is_finalize_def)
  qed
  show "is_step_enabled uc rp step d \<longleftrightarrow> step = lit ''download''"
    if "\<not> task_flag uc d (lit ''transcript'') True" for step
    using that by (simp add: is_step_enabled_def)
qed

theorem dag_steps_plan_witness:
  "is_step_enabled ascii_tables (\<lambda>v. []) (lit ''summarize_final'') []
   \<and> list_all (\<lambda>step. is_step_enabled ascii_tables (\<lambda>v. []) step [(lit ''transcript'', JStr (lit '' No ''))] \<longleftrightarrow> step = lit ''download'')
        (build_dag_steps (\<lambda>v. []) (JDict [(lit ''transcript'', JStr (lit '' No ''))]))"
proof
  have f: "task_flag ascii_tables [] (lit ''transcript'') True" by (simp add: task_flag_def jget_or_def dict_get_def)
  have m: "lit ''summarize_final'' \<in> set (build_dag_steps (\<lambda>v. []) (JDict []))"
    by (simp add: build_dag_steps_def selected_prompt_refs_def jget_def jget_or_def dict_get_def
        finalize_step_name_def summary_ref_def)
  have "lit ''summarize_final'' \<notin> set summary_head" by (simp add: summary_head_def)
  then show "is_step_enabled ascii_tables (\<lambda>v. []) (lit ''summarize_final'') []"
    using dag_steps_plan [of "\<lambda>v. []" "[]" ascii_tables] f m by blast
  have "\<not> task_flag ascii_tables [(lit ''transcript'', JStr (lit '' No ''))] (lit ''transcript'') True"
    by (simp add: task_flag_def jget_or_def dict_get_def lit_def strip_def lstrip_def rstrip_def py_space_def
        ascii_tables_def ascii_lower1_def)
  then show "list_all (\<lambda>step. is_step_enabled ascii_tables (\<lambda>v. []) step [(lit ''transcript'', JStr (lit '' No ''))] \<longleftrightarrow> step = lit ''download'')
        (build_dag_steps (\<lambda>v. []) (JDict [(lit ''transcript'', JStr (lit '' No ''))]))"
    unfolding list_all_iff
    using dag_steps_plan [of "\<lambda>v. []" "[(lit ''transcript'', JStr (lit '' No ''))]" ascii_tables] by blast
qed

text \<open>Storing a prompt result is visible at once under its own key and invisible under every
  other, and it never duplicates a key: the second of two finalize steps cannot lose the first
  one's result.\<close>

theorem upsert_result_visible:
  assumes "path \<noteq> []" and "upsert_result_entry rp options s i name path status = Some es"
  shows "resolve_result_path rp (JDict (dict_set options (lit ''prompt_results'') (JList (map JDict es)))) sp s i = Some (Some path)
     \<and> (\<forall>s' i'. ref_key s' i' \<noteq> ref_key s i \<longrightarrow>
          resolve_result_path rp (JDict (dict_set options (lit ''prompt_results'') (JList (map JDict es)))) sp s' i'
          = resolve_result_path rp (JDict options) sp s' i')
     \<and> (\<forall>old. dict_entries (result_entries (JDict options)) = Some old \<and> distinct (map (entry_key rp) old)
          \<longrightarrow> distinct (map (entry_key rp) es))"
proof -
  have old: "\<exists>old. dict_entries (result_entries (JDict options)) = Some old
      \<and> es = upsert_entries rp old s i name path status \<and> result_entries (JDict options) = map JDict old"
  proof -
    have inv: "dict_entries vs = Some old \<Longrightarrow> vs = map JDict old" for vs old
      by (induction vs arbitrary: old rule: dict_entries.induct) auto
    show ?thesis using assms(2) inv
      by (fastforce simp: upsert_result_entry_def result_entries_def split: json.splits)
  qed
  then obtain o' where o': "dict_entries (result_entries (JDict options)) = Some o'"
    "es = upsert_entries rp o' s i name path status" "result_entries (JDict options) = map JDict o'" by blast
  have new: "result_entries (JDict (dict_set options (lit ''prompt_results'') (JList (map JDict es)))) = map JDict es"
    by (simp add: result_entries_def)
  show ?thesis
    unfolding resolve_result_path_def new o'(3)
    using o' assms(1) by (auto simp: resolve_upsert resolve_upsert_other upsert_keys)
qed

theorem upsert_result_visible_witness:
  "\<exists>es. upsert_result_entry (\<lambda>v. []) [] (lit ''user'') (lit ''1'') (lit ''n'') (lit ''p'') (lit ''completed'') = Some es
     \<and> resolve_result_path (\<lambda>v. []) (JDict (dict_set [] (lit ''prompt_results'') (JList (map JDict es)))) None (lit ''user'') (lit ''1'') = Some (Some (lit ''p''))"
proof -
  obtain es where e: "upsert_result_entry (\<lambda>v. []) [] (lit ''user'') (lit ''1'') (lit ''n'') (lit ''p'') (lit ''completed'') = Some es"
    by (simp add: upsert_result_entry_def jget_def dict_get_def)
  have p: "lit ''p'' \<noteq> []" by (simp add: lit_def)
  show ?thesis using upsert_result_visible [OF p e] e by blast
qed

text \<open>Expanding a preset lets through only the system prompts and the user's own prompts, and
  what it lets through is stable: filtering it again changes nothing, and the pipeline selects
  exactly those prompts.\<close>

theorem preset_prompts_stable:
  assumes "filter_prompt_refs rp prompts ids = Some ps"
  shows "(\<forall>r\<in>set ps. pr_source r = lit ''system'' \<or> (pr_source r = lit ''user'' \<and> pr_id r \<in> set ids))
     \<and> filter_prompt_refs rp' (JList (map ref_to_dict ps)) ids = Some ps
     \<and> ((\<forall>r\<in>set ps. pr_id r \<noteq> []) \<longrightarrow>
          selected_prompt_refs rp' (JDict [(lit ''prompts'', JList (map ref_to_dict ps))]) = ps)"
proof -
  obtain vs where vs: "ps = List.map_filter (filter_prompt_ref rp ids) vs"
    using assms by (auto simp: filter_prompt_refs_def)
  have src: "\<forall>r\<in>set ps. pr_source r = lit ''system'' \<or> (pr_source r = lit ''user'' \<and> pr_id r \<in> set ids)"
    unfolding vs by (auto simp: map_filter_def filter_prompt_ref_def Let_def split: json.splits if_splits)
  moreover have "filter_prompt_refs rp' (JList (map ref_to_dict ps)) ids = Some ps"
    unfolding vs filter_prompt_refs_def iter_or_empty_JList option.map
    by (simp only: refilter [of "filter_prompt_ref rp ids" "filter_prompt_ref rp' ids" ref_to_dict, OF filtered_prompt_ref])
  moreover have "selected_prompt_refs rp' (JDict [(lit ''prompts'', JList (map ref_to_dict ps))]) = ps"
    if "\<forall>r\<in>set ps. pr_id r \<noteq> []"
  proof -
    have "\<forall>r\<in>set ps. valid_ref r" using src that by (auto simp: valid_ref_def valid_source_def)
    then show ?thesis by (simp add: selected_prompt_refs_def jget_def dict_get_def parsed_refs_dicts)
  qed
  ultimately show ?thesis by blast
qed

theorem preset_prompts_stable_witness:
  "\<exists>ps. filter_prompt_refs (\<lambda>v. []) (JList [ref_to_dict summary_ref, JNull]) [] = Some ps
     \<and> (\<forall>r\<in>set ps. pr_source r = lit ''system'' \<or> (pr_source r = lit ''user'' \<and> pr_id r \<in> set []))"
proof -
  obtain ps where p: "filter_prompt_refs (\<lambda>v. []) (JList [ref_to_dict summary_ref, JNull]) [] = Some ps"
    by (simp add: filter_prompt_refs_def)
  show ?thesis using preset_prompts_stable [OF p] p by blast
qed

end
