(* ===== verification/Asr_Payload.thy ===== *)
theory Asr_Payload
  imports Json_Values Diar_Merge "HOL-Library.Multiset"
begin

text \<open>
  \<open>vts/services/asr_payload.py\<close>: the two stored axes of a recognition payload (the token timeline and
  the sentence timeline), and the payload rebuilt from them for the consumers.

  The stored axes are records; \<open>recompose_raw_json\<close> is modelled on the axes \<open>decompose_raw_json\<close>
  writes. \<open>fs\<close> is \<open>float()\<close> on a text: \<open>None\<close> where it raises \<open>ValueError\<close>.
\<close>

record axis_token =
  tk_text :: ustr
  tk_start :: rat
  tk_end :: rat
  tk_probability :: "rat option"

record axis_sentence =
  sn_start :: rat
  sn_end :: rat
  sn_text :: ustr

record axis_meta =
  am_language :: "ustr option"
  am_duration :: "rat option"
  am_avg_logprob :: "rat option list"
  am_no_speech_prob :: "rat option list"

record asr_axes =
  ax_tokens :: "axis_token list"
  ax_sentences :: "axis_sentence list"
  ax_meta :: axis_meta

section \<open>Decomposition\<close>

definition float_of :: "(ustr \<Rightarrow> rat option) \<Rightarrow> json \<Rightarrow> rat option" where
  "float_of fs v = (case v of JNull \<Rightarrow> None | JBool _ \<Rightarrow> None | JInt i \<Rightarrow> Some (of_int i) | JNum q \<Rightarrow> Some q
     | JStr s \<Rightarrow> fs s | _ \<Rightarrow> None)"

definition segments_of :: "json \<Rightarrow> jdict list" where
  "segments_of raw = (case raw of
     JDict d \<Rightarrow> (case jget d (lit ''segments'') of
        JList vs \<Rightarrow> List.map_filter (\<lambda>v. case v of JDict s \<Rightarrow> Some s | _ \<Rightarrow> None) vs | _ \<Rightarrow> [])
   | _ \<Rightarrow> [])"

definition sentence_of :: "(ustr \<Rightarrow> rat option) \<Rightarrow> jdict \<Rightarrow> axis_sentence option" where
  "sentence_of fs s = (case (float_of fs (jget s (lit ''start'')), float_of fs (jget s (lit ''end'')), jget s (lit ''text'')) of
     (Some a, Some b, JStr t) \<Rightarrow> Some \<lparr>sn_start = a, sn_end = b, sn_text = t\<rparr> | _ \<Rightarrow> None)"

definition token_of :: "(ustr \<Rightarrow> rat option) \<Rightarrow> json \<Rightarrow> axis_token option" where
  "token_of fs v = (case v of JDict w \<Rightarrow>
      (case (float_of fs (jget w (lit ''start'')), float_of fs (jget w (lit ''end'')), jget w (lit ''word'')) of
         (Some a, Some b, JStr t) \<Rightarrow> Some \<lparr>tk_text = t, tk_start = a, tk_end = b,
            tk_probability = float_of fs (jget w (lit ''probability''))\<rparr>
       | _ \<Rightarrow> None)
   | _ \<Rightarrow> None)"

text \<open>The axes so far: tokens, sentences and the two metric lists. \<open>None\<close> is the \<open>TypeError\<close> of
  iterating a \<open>words\<close> value that is neither empty nor iterable.\<close>

fun decompose_segments ::
  "(ustr \<Rightarrow> rat option) \<Rightarrow> axis_token list \<Rightarrow> axis_sentence list \<Rightarrow> rat option list \<Rightarrow> rat option list
     \<Rightarrow> jdict list \<Rightarrow> (axis_token list \<times> axis_sentence list \<times> rat option list \<times> rat option list) option" where
  "decompose_segments fs tks sns lps nsp [] = Some (tks, sns, lps, nsp)"
| "decompose_segments fs tks sns lps nsp (s # ss) =
     (let (sns', lps', nsp') =
            (case sentence_of fs s of None \<Rightarrow> (sns, lps, nsp)
             | Some sn \<Rightarrow> (sns @ [sn], lps @ [float_of fs (jget s (lit ''avg_logprob''))],
                          nsp @ [float_of fs (jget s (lit ''no_speech_prob''))]))
      in (case iter_or_empty (jget s (lit ''words'')) of None \<Rightarrow> None
          | Some ws \<Rightarrow> decompose_segments fs (tks @ List.map_filter (token_of fs) ws) sns' lps' nsp' ss))"

definition decompose_raw_json :: "(ustr \<Rightarrow> rat option) \<Rightarrow> json \<Rightarrow> asr_axes option" where
  "decompose_raw_json fs raw =
     map_option (\<lambda>(tks, sns, lps, nsp).
        \<lparr>ax_tokens = tks, ax_sentences = sns,
         ax_meta = \<lparr>am_language = (case raw of
                        JDict d \<Rightarrow> (case jget d (lit ''language'') of JStr l \<Rightarrow> if l \<noteq> [] then Some l else None | _ \<Rightarrow> None)
                      | _ \<Rightarrow> None),
                    am_duration = (case raw of JDict d \<Rightarrow> float_of fs (jget d (lit ''duration'')) | _ \<Rightarrow> None),
                    am_avg_logprob = lps, am_no_speech_prob = nsp\<rparr>\<rparr>)
       (decompose_segments fs [] [] [] [] (segments_of raw))"

section \<open>Recomposition\<close>

record rc_segment =
  rs_start :: rat
  rs_end :: rat
  rs_text :: ustr
  rs_words :: "axis_token list"
  rs_avg_logprob :: "rat option"
  rs_no_speech_prob :: "rat option"

record rc_payload =
  rp_segments :: "rc_segment list"
  rp_language :: "ustr option"
  rp_duration :: "rat option"

definition nth_opt :: "'a option list \<Rightarrow> nat \<Rightarrow> 'a option" where
  "nth_opt xs i = (if i < length xs then xs ! i else None)"

definition sentence_segment :: "axis_meta \<Rightarrow> nat \<times> axis_sentence \<Rightarrow> rc_segment" where
  "sentence_segment m p = (case p of (i, s) \<Rightarrow>
     \<lparr>rs_start = sn_start s, rs_end = sn_end s, rs_text = sn_text s, rs_words = [],
      rs_avg_logprob = nth_opt (am_avg_logprob m) i, rs_no_speech_prob = nth_opt (am_no_speech_prob m) i\<rparr>)"

text \<open>Where a token goes: the first segment whose window contains it, else the last that starts
  before it, else the first.\<close>

fun first_index :: "('a \<Rightarrow> bool) \<Rightarrow> 'a list \<Rightarrow> nat option" where
  "first_index P [] = None"
| "first_index P (x # xs) = (if P x then Some 0 else map_option Suc (first_index P xs))"

fun last_index :: "('a \<Rightarrow> bool) \<Rightarrow> 'a list \<Rightarrow> nat option" where
  "last_index P [] = None"
| "last_index P (x # xs) = (case last_index P xs of Some i \<Rightarrow> Some (Suc i) | None \<Rightarrow> if P x then Some 0 else None)"

definition token_target :: "rc_segment list \<Rightarrow> rat \<Rightarrow> nat option" where
  "token_target segs t =
     (case first_index (\<lambda>s. rs_start s \<le> t \<and> t < rs_end s) segs of Some i \<Rightarrow> Some i
      | None \<Rightarrow> (case last_index (\<lambda>s. rs_start s \<le> t) segs of Some i \<Rightarrow> Some i
                | None \<Rightarrow> if segs = [] then None else Some 0))"

definition place_token :: "rc_segment list \<Rightarrow> axis_token \<Rightarrow> rc_segment list" where
  "place_token segs k = (case token_target segs (tk_start k) of
      None \<Rightarrow> segs @ [\<lparr>rs_start = tk_start k, rs_end = tk_end k, rs_text = [], rs_words = [k],
                       rs_avg_logprob = None, rs_no_speech_prob = None\<rparr>]
    | Some i \<Rightarrow> segs[i := (segs ! i)\<lparr>rs_words := rs_words (segs ! i) @ [k]\<rparr>])"

definition recompose_raw_json :: "asr_axes \<Rightarrow> rc_payload" where
  "recompose_raw_json ax =
     \<lparr>rp_segments = foldl place_token (map (sentence_segment (ax_meta ax)) (enumerate 0 (ax_sentences ax))) (ax_tokens ax),
      rp_language = (case am_language (ax_meta ax) of Some l \<Rightarrow> if l \<noteq> [] then Some l else None | None \<Rightarrow> None),
      rp_duration = am_duration (ax_meta ax)\<rparr>"

section \<open>The stored row\<close>

text \<open>A row carries the legacy payload, the axes, or both. What the consumers parse: the recomposed
  axes when there is a token or a sentence, else the legacy object.\<close>

datatype segment_view = Recomposed rc_payload | Legacy jdict

definition axes_usable :: "asr_axes option \<Rightarrow> bool" where
  "axes_usable p = (case p of None \<Rightarrow> False | Some ax \<Rightarrow> ax_tokens ax \<noteq> [] \<or> ax_sentences ax \<noteq> [])"

definition segment_raw_payload :: "json \<Rightarrow> asr_axes option \<Rightarrow> segment_view" where
  "segment_raw_payload raw payload =
     (case payload of None \<Rightarrow> Legacy (as_dict raw)
      | Some ax \<Rightarrow> if axes_usable payload then Recomposed (recompose_raw_json ax) else Legacy (as_dict raw))"

text \<open>The words a recomposed payload offers the speaker merge.\<close>

definition payload_view :: "rc_payload \<Rightarrow> whisper_segments" where
  "payload_view p = Some (map (\<lambda>s. Some (map (\<lambda>k. Some \<lparr>rw_word = tk_text k, rw_start = Some (tk_start k),
     rw_end = Some (tk_end k)\<rparr>) (rs_words s))) (rp_segments p))"

definition payload_tokens :: "rc_segment list \<Rightarrow> axis_token list" where
  "payload_tokens segs = concat (map rs_words segs)"

section \<open>The metrics stay with their sentences\<close>

lemma decompose_segments_aligned:
  "decompose_segments fs tks sns lps nsp ss = Some (tks', sns', lps', nsp') \<Longrightarrow>
     length lps = length sns \<Longrightarrow> length nsp = length sns \<Longrightarrow>
     length lps' = length sns' \<and> length nsp' = length sns'"
  by (induction fs tks sns lps nsp ss arbitrary: tks' sns' lps' nsp' rule: decompose_segments.induct)
     (auto simp: Let_def split: option.splits)

lemma decompose_segments_sentences:
  "decompose_segments fs tks sns lps nsp ss = Some (tks', sns', lps', nsp') \<Longrightarrow>
     sns' = sns @ List.map_filter (sentence_of fs) ss"
  by (induction fs tks sns lps nsp ss arbitrary: tks' sns' lps' nsp' rule: decompose_segments.induct)
     (auto simp: Let_def List.map_filter_simps split: option.splits)

lemma decompose_segments_total:
  assumes "\<forall>s\<in>set ss. iter_or_empty (jget s (lit ''words'')) \<noteq> None"
  shows "decompose_segments fs tks sns lps nsp ss \<noteq> None"
  using assms
  by (induction fs tks sns lps nsp ss rule: decompose_segments.induct) (auto simp: Let_def split: option.splits)

section \<open>Where the tokens go\<close>

lemma first_index_less: "first_index P xs = Some i \<Longrightarrow> i < length xs \<and> P (xs ! i)"
  by (induction xs arbitrary: i) (auto split: if_splits)

lemma last_index_less: "last_index P xs = Some i \<Longrightarrow> i < length xs \<and> P (xs ! i)"
  by (induction xs arbitrary: i) (auto split: if_splits option.splits)

lemma first_index_map: "first_index Q (map f xs) = first_index (\<lambda>x. Q (f x)) xs"
  by (induction xs) auto

lemma last_index_map: "last_index Q (map f xs) = last_index (\<lambda>x. Q (f x)) xs"
  by (induction xs) (auto split: option.splits)

definition windows :: "rc_segment list \<Rightarrow> (rat \<times> rat) list" where
  "windows segs = map (\<lambda>s. (rs_start s, rs_end s)) segs"

lemma token_target_windows:
  assumes "windows a = windows b"
  shows "token_target a t = token_target b t"
proof -
  have f: "first_index (\<lambda>s. rs_start s \<le> t \<and> t < rs_end s) x = first_index (\<lambda>w. fst w \<le> t \<and> t < snd w) (windows x)"
    and l: "last_index (\<lambda>s. rs_start s \<le> t) x = last_index (\<lambda>w. fst w \<le> t) (windows x)"
    and n: "x = [] \<longleftrightarrow> windows x = []" for x
    by (simp_all add: windows_def first_index_map last_index_map)
  show ?thesis unfolding token_target_def f l n [of a] n [of b] assms ..
qed

lemma token_target_less: "token_target segs t = Some i \<Longrightarrow> i < length segs"
  by (auto simp: token_target_def dest: first_index_less last_index_less split: option.splits if_splits)

lemma token_target_None_iff: "token_target segs t = None \<longleftrightarrow> segs = []"
  by (auto simp: token_target_def split: option.splits)

lemma place_token_windows: "segs \<noteq> [] \<Longrightarrow> windows (place_token segs k) = windows segs"
  by (auto simp: place_token_def windows_def map_update list_update_same_conv token_target_None_iff
      dest: token_target_less split: option.splits)

lemma place_token_texts: "segs \<noteq> [] \<Longrightarrow> map rs_text (place_token segs k) = map rs_text segs"
  by (auto simp: place_token_def map_update list_update_same_conv token_target_None_iff
      dest: token_target_less split: option.splits)

lemma place_token_not_Nil: "place_token segs k \<noteq> []"
  by (auto simp: place_token_def split: option.splits dest: token_target_less)

lemma mset_payload_update:
  "i < length segs \<Longrightarrow>
     mset (payload_tokens (segs[i := (segs ! i)\<lparr>rs_words := rs_words (segs ! i) @ [k]\<rparr>])) = add_mset k (mset (payload_tokens segs))"
  by (subst (3) id_take_nth_drop [of i segs]) (simp_all add: payload_tokens_def upd_conv_take_nth_drop)

lemma mset_place_token: "mset (payload_tokens (place_token segs k)) = add_mset k (mset (payload_tokens segs))"
proof (cases "token_target segs (tk_start k)")
  case None
  then show ?thesis by (simp add: place_token_def payload_tokens_def)
next
  case (Some i)
  then show ?thesis using mset_payload_update [of i segs k] token_target_less [OF Some]
    by (simp add: place_token_def)
qed

lemma mset_place_tokens: "mset (payload_tokens (foldl place_token segs ks)) = mset (payload_tokens segs) + mset ks"
  by (induction ks arbitrary: segs) (simp_all add: mset_place_token)

lemma foldl_place_windows: "segs \<noteq> [] \<Longrightarrow> windows (foldl place_token segs ks) = windows segs
    \<and> map rs_text (foldl place_token segs ks) = map rs_text segs"
  by (induction ks arbitrary: segs) (simp_all add: place_token_windows place_token_texts place_token_not_Nil)

text \<open>Each segment receives its tokens in order.\<close>

lemma words_place_tokens:
  assumes "segs \<noteq> []"
  shows "map rs_words (foldl place_token segs ks) =
     map (\<lambda>i. rs_words (segs ! i) @ filter (\<lambda>k. token_target segs (tk_start k) = Some i) ks) [0..<length segs]"
  using assms
proof (induction ks arbitrary: segs)
  case Nil
  show ?case by (intro nth_equalityI) simp_all
next
  case (Cons k ks)
  obtain j where j: "token_target segs (tk_start k) = Some j"
    using Cons.prems token_target_None_iff by (metis option.exhaust)
  have lj: "j < length segs" using token_target_less [OF j] .
  let ?s = "segs[j := (segs ! j)\<lparr>rs_words := rs_words (segs ! j) @ [k]\<rparr>]"
  have p: "place_token segs k = ?s" by (simp add: place_token_def j)
  have tt: "token_target ?s t = token_target segs t" for t
    using token_target_windows [OF place_token_windows [OF Cons.prems, of k]] unfolding p .
  have "map rs_words (foldl place_token segs (k # ks)) = map rs_words (foldl place_token ?s ks)" by (simp add: p)
  also have "\<dots> = map (\<lambda>i. rs_words (?s ! i) @ filter (\<lambda>k. token_target segs (tk_start k) = Some i) ks) [0..<length segs]"
    using Cons.IH [of ?s] Cons.prems unfolding tt by simp
  also have "\<dots> = map (\<lambda>i. rs_words (segs ! i) @ filter (\<lambda>k. token_target segs (tk_start k) = Some i) (k # ks)) [0..<length segs]"
    using lj j by (intro map_cong refl) (auto simp: nth_list_update)
  finally show ?case .
qed

section \<open>Order\<close>

lemma last_index_ge: "j < length xs \<Longrightarrow> P (xs ! j) \<Longrightarrow> \<exists>i. last_index P xs = Some i \<and> j \<le> i"
proof (induction xs arbitrary: j)
  case (Cons x xs)
  show ?case
  proof (cases j)
    case 0
    then show ?thesis using Cons.prems by (auto split: option.splits)
  next
    case (Suc j')
    then obtain i where "last_index P xs = Some i" "j' \<le> i" using Cons.IH [of j'] Cons.prems by auto
    then show ?thesis using Suc by simp
  qed
qed simp

text \<open>Sentences that follow one another without overlap.\<close>

definition in_sequence :: "rc_segment list \<Rightarrow> bool" where
  "in_sequence segs \<longleftrightarrow> sorted_wrt (\<lambda>a b. rs_end a \<le> rs_start b) segs"

lemma token_target_sequence:
  assumes "in_sequence segs" and "segs \<noteq> []"
  shows "token_target segs t = Some (case last_index (\<lambda>s. rs_start s \<le> t) segs of Some i \<Rightarrow> i | None \<Rightarrow> 0)"
proof (cases "first_index (\<lambda>s. rs_start s \<le> t \<and> t < rs_end s) segs")
  case None
  then show ?thesis using assms(2) by (simp add: token_target_def split: option.splits)
next
  case (Some i)
  have i: "i < length segs" "rs_start (segs ! i) \<le> t" "t < rs_end (segs ! i)"
    using first_index_less [OF Some] by auto
  obtain l where l: "last_index (\<lambda>s. rs_start s \<le> t) segs = Some l" "i \<le> l"
    using last_index_ge [OF i(1), of "\<lambda>s. rs_start s \<le> t"] i(2) by blast
  have ll: "l < length segs" "rs_start (segs ! l) \<le> t" using last_index_less [OF l(1)] by auto
  have "\<not> i < l"
  proof
    assume "i < l"
    then have "rs_end (segs ! i) \<le> rs_start (segs ! l)"
      using assms(1) ll(1) by (auto simp: in_sequence_def sorted_wrt_iff_nth_less)
    then show False using i(3) ll(2) by linarith
  qed
  then show ?thesis using Some l by (simp add: token_target_def)
qed

lemma token_target_mono:
  assumes "in_sequence segs" and "segs \<noteq> []" and "t \<le> t'"
  shows "the (token_target segs t) \<le> the (token_target segs t')"
proof (cases "last_index (\<lambda>s. rs_start s \<le> t) segs")
  case None
  then show ?thesis using assms by (simp add: token_target_sequence)
next
  case (Some l)
  then have "l < length segs" "rs_start (segs ! l) \<le> t'" using last_index_less [OF Some] assms(3) by auto
  then obtain l' where "last_index (\<lambda>s. rs_start s \<le> t') segs = Some l'" "l \<le> l'"
    using last_index_ge [of l segs "\<lambda>s. rs_start s \<le> t'"] by blast
  then show ?thesis using assms Some by (simp add: token_target_sequence)
qed

lemma place_tokens_order:
  assumes seq: "in_sequence segs" and ne: "segs \<noteq> []" and empty: "\<forall>s\<in>set segs. rs_words s = []"
    and srt: "sorted (map tk_start ks)"
  shows "payload_tokens (foldl place_token segs ks) = ks"
proof -
  let ?f = "\<lambda>k. the (token_target segs (tk_start k))"
  let ?ps = "map (\<lambda>k. (?f k, k)) ks"
  have tgt: "token_target segs (tk_start k) = Some i \<longleftrightarrow> ?f k = i" for k i
    using ne token_target_None_iff by (cases "token_target segs (tk_start k)") auto
  have less: "?f k < length segs" for k
    using tgt token_target_less by blast
  have "sorted (map fst ?ps)"
    using srt by (auto simp: sorted_wrt_map comp_def intro: sorted_wrt_mono_rel [rotated] token_target_mono [OF seq ne])
  then have r: "concat (map (\<lambda>i. filter (\<lambda>p. fst p = i) ?ps) [0..<length segs]) = ?ps"
    by (intro regroup_sorted) (auto simp: less)
  have "payload_tokens (foldl place_token segs ks) = concat (map (\<lambda>i. filter (\<lambda>k. ?f k = i) ks) [0..<length segs])"
    unfolding payload_tokens_def words_place_tokens [OF ne] tgt using empty by (intro arg_cong [of _ _ concat] map_cong refl) simp
  also have "\<dots> = concat (map (\<lambda>i. map snd (filter (\<lambda>p. fst p = i) ?ps)) [0..<length segs])"
    by (simp add: filter_map comp_def)
  also have "\<dots> = map snd (concat (map (\<lambda>i. filter (\<lambda>p. fst p = i) ?ps) [0..<length segs]))"
    by (simp add: map_concat comp_def)
  also have "\<dots> = ks" unfolding r by (simp add: comp_def)
  finally show ?thesis .
qed

definition sentences_in_sequence :: "axis_sentence list \<Rightarrow> bool" where
  "sentences_in_sequence sns \<longleftrightarrow> sorted_wrt (\<lambda>a b. sn_end a \<le> sn_start b) sns"

lemma in_sequence_segments:
  "in_sequence (map (sentence_segment m) (enumerate n sns)) \<longleftrightarrow> sentences_in_sequence sns"
proof -
  have "in_sequence (map (sentence_segment m) (enumerate n sns))
      = sorted_wrt (\<lambda>a b. sn_end a \<le> sn_start b) (map snd (enumerate n sns))"
    unfolding in_sequence_def sorted_wrt_map by (simp add: sentence_segment_def case_prod_beta)
  then show ?thesis by (simp add: sentences_in_sequence_def)
qed

lemma segment_metrics_place:
  "segs \<noteq> [] \<Longrightarrow> map (\<lambda>s. (rs_avg_logprob s, rs_no_speech_prob s)) (foldl place_token segs ks)
     = map (\<lambda>s. (rs_avg_logprob s, rs_no_speech_prob s)) segs"
proof (induction ks arbitrary: segs)
  case (Cons k ks)
  have "map (\<lambda>s. (rs_avg_logprob s, rs_no_speech_prob s)) (place_token segs k)
     = map (\<lambda>s. (rs_avg_logprob s, rs_no_speech_prob s)) segs"
    using Cons.prems by (auto simp: place_token_def map_update list_update_same_conv token_target_None_iff
      dest: token_target_less split: option.splits)
  then show ?case using Cons.IH [OF place_token_not_Nil] by simp
qed simp

section \<open>Properties\<close>

text \<open>(C34) Rebuilding a payload from its stored axes loses no word: the words of the rebuilt payload
  are the stored tokens, whatever their timings. With at least one sentence the sentences come back
  with their own times, texts and metrics; and when the sentences follow one another and the tokens
  are in order of their start, the words come back in exactly that order, which is what the speaker
  merge reads.\<close>

theorem recompose_keeps_words:
  "mset (payload_tokens (rp_segments (recompose_raw_json ax))) = mset (ax_tokens ax)
   \<and> (ax_sentences ax \<noteq> [] \<longrightarrow>
        map (\<lambda>s. (rs_start s, rs_end s, rs_text s)) (rp_segments (recompose_raw_json ax))
          = map (\<lambda>s. (sn_start s, sn_end s, sn_text s)) (ax_sentences ax)
        \<and> map (\<lambda>s. (rs_avg_logprob s, rs_no_speech_prob s)) (rp_segments (recompose_raw_json ax))
          = map (\<lambda>i. (nth_opt (am_avg_logprob (ax_meta ax)) i, nth_opt (am_no_speech_prob (ax_meta ax)) i))
              [0..<length (ax_sentences ax)]
        \<and> (sentences_in_sequence (ax_sentences ax) \<and> sorted (map tk_start (ax_tokens ax)) \<longrightarrow>
             payload_tokens (rp_segments (recompose_raw_json ax)) = ax_tokens ax))"
proof -
  let ?segs = "map (sentence_segment (ax_meta ax)) (enumerate 0 (ax_sentences ax))"
  have rp: "rp_segments (recompose_raw_json ax) = foldl place_token ?segs (ax_tokens ax)"
    by (simp add: recompose_raw_json_def)
  have empty: "\<forall>s\<in>set ?segs. rs_words s = []" by (auto simp: sentence_segment_def)
  have "payload_tokens ?segs = []" using empty by (simp add: payload_tokens_def)
  then have "mset (payload_tokens (rp_segments (recompose_raw_json ax))) = mset (ax_tokens ax)"
    unfolding rp by (simp add: mset_place_tokens)
  moreover have "map (\<lambda>s. (rs_start s, rs_end s, rs_text s)) (rp_segments (recompose_raw_json ax))
          = map (\<lambda>s. (sn_start s, sn_end s, sn_text s)) (ax_sentences ax)"
    and "map (\<lambda>s. (rs_avg_logprob s, rs_no_speech_prob s)) (rp_segments (recompose_raw_json ax))
          = map (\<lambda>i. (nth_opt (am_avg_logprob (ax_meta ax)) i, nth_opt (am_no_speech_prob (ax_meta ax)) i))
              [0..<length (ax_sentences ax)]"
    and "sentences_in_sequence (ax_sentences ax) \<and> sorted (map tk_start (ax_tokens ax)) \<longrightarrow>
             payload_tokens (rp_segments (recompose_raw_json ax)) = ax_tokens ax"
    if "ax_sentences ax \<noteq> []"
  proof -
    have ne: "?segs \<noteq> []" using that by (simp add: enumerate_eq_zip)
    have w: "windows (foldl place_token ?segs (ax_tokens ax)) = windows ?segs"
      and x: "map rs_text (foldl place_token ?segs (ax_tokens ax)) = map rs_text ?segs"
      using foldl_place_windows [OF ne] by auto
    have zip: "map (\<lambda>s. (rs_start s, rs_end s, rs_text s)) a = map2 (\<lambda>w t. (fst w, snd w, t)) (windows a) (map rs_text a)" for a
      by (induction a) (simp_all add: windows_def)
    show "map (\<lambda>s. (rs_start s, rs_end s, rs_text s)) (rp_segments (recompose_raw_json ax))
          = map (\<lambda>s. (sn_start s, sn_end s, sn_text s)) (ax_sentences ax)"
      unfolding rp zip [of "foldl place_token ?segs (ax_tokens ax)"] w x
      unfolding zip [symmetric]
      by (intro nth_equalityI) (simp_all add: sentence_segment_def nth_enumerate_eq)
    show "map (\<lambda>s. (rs_avg_logprob s, rs_no_speech_prob s)) (rp_segments (recompose_raw_json ax))
          = map (\<lambda>i. (nth_opt (am_avg_logprob (ax_meta ax)) i, nth_opt (am_no_speech_prob (ax_meta ax)) i))
              [0..<length (ax_sentences ax)]"
      unfolding rp segment_metrics_place [OF ne]
      by (intro nth_equalityI) (simp_all add: sentence_segment_def nth_enumerate_eq)
    show "sentences_in_sequence (ax_sentences ax) \<and> sorted (map tk_start (ax_tokens ax)) \<longrightarrow>
             payload_tokens (rp_segments (recompose_raw_json ax)) = ax_tokens ax"
      unfolding rp using place_tokens_order [OF _ ne empty] in_sequence_segments by blast
  qed
  ultimately show ?thesis by blast
qed

definition sample_axes :: asr_axes where
  "sample_axes = \<lparr>ax_tokens = [\<lparr>tk_text = lit '' hi'', tk_start = 0, tk_end = 1, tk_probability = None\<rparr>,
       \<lparr>tk_text = lit '' you'', tk_start = 5, tk_end = 6, tk_probability = Some (1/2)\<rparr>],
     ax_sentences = [\<lparr>sn_start = 0, sn_end = 2, sn_text = lit ''hi''\<rparr>, \<lparr>sn_start = 3, sn_end = 4, sn_text = lit ''you''\<rparr>],
     ax_meta = \<lparr>am_language = None, am_duration = Some 6, am_avg_logprob = [None, Some 1], am_no_speech_prob = [None, None]\<rparr>\<rparr>"

theorem recompose_keeps_words_witness:
  "ax_sentences sample_axes \<noteq> [] \<and> payload_tokens (rp_segments (recompose_raw_json sample_axes)) = ax_tokens sample_axes"
proof -
  have "ax_sentences sample_axes \<noteq> []" "sentences_in_sequence (ax_sentences sample_axes)"
    "sorted (map tk_start (ax_tokens sample_axes))"
    by (simp_all add: sample_axes_def sentences_in_sequence_def)
  then show ?thesis using recompose_keeps_words [of sample_axes] by blast
qed

text \<open>Decomposing keeps exactly the sentences that have both times and a text, in order, and
  every metric list grows only with a sentence, so a metric is always read back for the sentence it
  was measured on; it succeeds on every payload whose word lists are lists or absent.\<close>

theorem decompose_aligned:
  assumes "\<forall>s\<in>set (segments_of raw). iter_or_empty (jget s (lit ''words'')) \<noteq> None"
  shows "\<exists>ax. decompose_raw_json fs raw = Some ax
     \<and> ax_sentences ax = List.map_filter (sentence_of fs) (segments_of raw)
     \<and> length (am_avg_logprob (ax_meta ax)) = length (ax_sentences ax)
     \<and> length (am_no_speech_prob (ax_meta ax)) = length (ax_sentences ax)"
proof -
  obtain tks sns lps nsp where d: "decompose_segments fs [] [] [] [] (segments_of raw) = Some (tks, sns, lps, nsp)"
    using decompose_segments_total [OF assms, of fs "[]" "[]" "[]" "[]"] by auto
  show ?thesis
    using decompose_segments_sentences [OF d] decompose_segments_aligned [OF d]
    by (simp add: decompose_raw_json_def d)
qed

theorem decompose_aligned_witness:
  "segments_of (JDict [(lit ''segments'', JList [JDict [(lit ''words'', JNull)], JNull])]) \<noteq> []
   \<and> (\<exists>ax. decompose_raw_json (\<lambda>_. None) (JDict [(lit ''segments'', JList [JDict [(lit ''words'', JNull)], JNull])]) = Some ax
      \<and> length (am_avg_logprob (ax_meta ax)) = length (ax_sentences ax))"
proof -
  let ?raw = "JDict [(lit ''segments'', JList [JDict [(lit ''words'', JNull)], JNull])]"
  have s: "segments_of ?raw = [[(lit ''words'', JNull)]]"
    by (simp add: segments_of_def jget_def dict_get_def List.map_filter_simps)
  have "\<forall>x\<in>set (segments_of ?raw). iter_or_empty (jget x (lit ''words'')) \<noteq> None"
    by (simp add: s jget_def dict_get_def iter_or_empty_def)
  then show ?thesis using decompose_aligned [of ?raw "\<lambda>_. None"] s by auto
qed

text \<open>A word list that is a number makes the decomposition raise, although it says it never does.\<close>

lemma decompose_raises:
  "decompose_raw_json fs (JDict [(lit ''segments'', JList [JDict [(lit ''words'', JInt 5)]])]) = None"
  by (simp add: decompose_raw_json_def segments_of_def jget_def dict_get_def List.map_filter_simps
      iter_or_empty_def sentence_of_def float_of_def)

end
