(* ===== verification/Task_Store.thy ===== *)
theory Task_Store
  imports Contracts Task_Status Prompt_Options Asr_Payload
begin

text \<open>
  The task tables of \<open>vts/db/models.py\<close> and the operations of \<open>Repo\<close> (\<open>vts/db/repo.py\<close>) the pipeline
  runs on them: the queue, the status of tasks and steps, the recognised segments, and the donor
  lookup and clone (\<open>TaskProcessor._clone_from_donor\<close>).

  A table is the list of its rows in insertion order. An operation that stamps a time takes the
  instant \<open>now\<close>. A transaction commits as a whole, so an operation is a function of the tables.
\<close>

section \<open>Rows\<close>

record step_row =
  st_name :: ustr
  st_status :: step_status
  st_attempt :: nat
  st_started :: "instant option"
  st_finished :: "instant option"
  st_message :: "ustr option"

record task_row =
  t_id :: uuid
  t_user :: uuid
  t_status :: task_status
  t_error :: "ustr option"
  t_awaiting :: "ustr option"
  t_created :: instant
  t_updated :: instant
  t_url :: ustr
  t_title :: "ustr option"
  t_options :: json
  t_dir :: ustr
  t_transcript :: "ustr option"
  t_summary :: "ustr option"
  t_progress :: "(int \<times> int) option"
  t_steps :: "step_row list"

record asr_row =
  ar_task :: uuid
  ar_index :: nat
  ar_start :: rat
  ar_end :: rat
  ar_text :: ustr
  ar_raw :: json
  ar_payload :: "asr_axes option"

record task_db =
  db_tasks :: "task_row list"
  db_asr :: "asr_row list"

text \<open>The queue orders rows by the pair of creation time and id.\<close>

datatype row_key = RowKey (rk_created: instant) (rk_id: uuid)

instantiation row_key :: linorder
begin

definition less_eq_row_key :: "row_key \<Rightarrow> row_key \<Rightarrow> bool" where
  "less_eq_row_key a b \<longleftrightarrow> rk_created a < rk_created b \<or> (rk_created a = rk_created b \<and> rk_id a \<le> rk_id b)"

definition less_row_key :: "row_key \<Rightarrow> row_key \<Rightarrow> bool" where
  "less_row_key a b \<longleftrightarrow> rk_created a < rk_created b \<or> (rk_created a = rk_created b \<and> rk_id a < rk_id b)"

instance
  by standard (auto simp: less_eq_row_key_def less_row_key_def intro: row_key.expand)

end

definition task_key :: "task_row \<Rightarrow> row_key" where
  "task_key t = RowKey (t_created t) (t_id t)"

section \<open>Tasks\<close>

definition find_task :: "task_db \<Rightarrow> uuid \<Rightarrow> task_row option" where
  "find_task db i = find (\<lambda>t. t_id t = i) (db_tasks db)"

definition update_task :: "uuid \<Rightarrow> (task_row \<Rightarrow> task_row) \<Rightarrow> task_db \<Rightarrow> task_db" where
  "update_task i f db = db\<lparr>db_tasks := map (\<lambda>t. if t_id t = i then f t else t) (db_tasks db)\<rparr>"

definition create_task ::
  "instant \<Rightarrow> uuid \<Rightarrow> uuid \<Rightarrow> ustr \<Rightarrow> json \<Rightarrow> ustr \<Rightarrow> ustr option \<Rightarrow> task_db \<Rightarrow> task_db" where
  "create_task now i user url options dir title db =
     db\<lparr>db_tasks := db_tasks db @ [\<lparr>t_id = i, t_user = user, t_status = Queued, t_error = None,
        t_awaiting = None, t_created = now, t_updated = now, t_url = url, t_title = title,
        t_options = options, t_dir = dir, t_transcript = None, t_summary = None, t_progress = None,
        t_steps = []\<rparr>]\<rparr>"

definition queued_tasks :: "task_db \<Rightarrow> task_row list" where
  "queued_tasks db = sort_key task_key (filter (\<lambda>t. t_status t = Queued) (db_tasks db))"

definition list_task_ids_for_statuses :: "task_status list \<Rightarrow> task_db \<Rightarrow> uuid list" where
  "list_task_ids_for_statuses ss db =
     map t_id (sort_key task_key (filter (\<lambda>t. t_status t \<in> set ss) (db_tasks db)))"

definition task_ids_in :: "uuid list \<Rightarrow> task_db \<Rightarrow> uuid list" where
  "task_ids_in ids db = (if ids = [] then [] else map t_id (filter (\<lambda>t. t_id t \<in> set ids) (db_tasks db)))"

definition get_global_queue_positions :: "task_db \<Rightarrow> (uuid \<times> nat) list" where
  "get_global_queue_positions db = map (\<lambda>(n, t). (t_id t, n)) (enumerate 1 (queued_tasks db))"

definition set_task_status_by_id :: "instant \<Rightarrow> uuid \<Rightarrow> task_status \<Rightarrow> task_db \<Rightarrow> task_db" where
  "set_task_status_by_id now i s db = update_task i (\<lambda>t. t\<lparr>t_status := s, t_updated := now\<rparr>) db"

text \<open>Claim the oldest queued task. Transactions are serialised here, so no row is ever locked by another one,
  and the \<open>skip_locked\<close> of the query, by which concurrent claims pass each other, has nothing to skip.\<close>

definition dequeue_task :: "instant \<Rightarrow> task_db \<Rightarrow> uuid option \<times> task_db" where
  "dequeue_task now db = (case queued_tasks db of [] \<Rightarrow> (None, db)
     | t # _ \<Rightarrow> (Some (t_id t), update_task (t_id t) (\<lambda>t. t\<lparr>t_status := Running, t_updated := now\<rparr>) db))"

text \<open>\<open>UPDATE ... WHERE id = ? AND status IN (...)\<close>; the boolean is \<open>rowcount\<close>.\<close>

definition transition_task_status ::
  "instant \<Rightarrow> uuid \<Rightarrow> task_status list \<Rightarrow> task_status \<Rightarrow> task_db \<Rightarrow> task_db \<times> bool" where
  "transition_task_status now i froms to db =
     (db\<lparr>db_tasks := map (\<lambda>t. if t_id t = i \<and> t_status t \<in> set froms
                              then t\<lparr>t_status := to, t_updated := now\<rparr> else t) (db_tasks db)\<rparr>,
      list_ex (\<lambda>t. t_id t = i \<and> t_status t \<in> set froms) (db_tasks db))"

definition requeue_running_tasks :: "instant \<Rightarrow> task_db \<Rightarrow> task_db \<times> uuid list" where
  "requeue_running_tasks now db =
     (db\<lparr>db_tasks := map (\<lambda>t. if t_status t \<in> set active_statuses
                              then t\<lparr>t_status := Queued, t_error := None, t_updated := now\<rparr> else t) (db_tasks db)\<rparr>,
      map t_id (filter (\<lambda>t. t_status t \<in> set active_statuses) (db_tasks db)))"

definition get_tasks_for_user :: "uuid \<Rightarrow> uuid list \<Rightarrow> task_db \<Rightarrow> task_row list" where
  "get_tasks_for_user user ids db = filter (\<lambda>t. t_user t = user \<and> t_id t \<in> set ids) (db_tasks db)"

definition get_task_for_user :: "uuid \<Rightarrow> uuid \<Rightarrow> task_db \<Rightarrow> task_row option" where
  "get_task_for_user user i db = find (\<lambda>t. t_user t = user \<and> t_id t = i) (db_tasks db)"

definition set_task_status :: "instant \<Rightarrow> uuid \<Rightarrow> task_status \<Rightarrow> ustr option \<Rightarrow> task_db \<Rightarrow> task_db" where
  "set_task_status now i s err db =
     update_task i (\<lambda>t. t\<lparr>t_status := s, t_error := err, t_awaiting := None, t_updated := now\<rparr>) db"

definition set_awaiting_input :: "instant \<Rightarrow> uuid \<Rightarrow> ustr \<Rightarrow> task_db \<Rightarrow> task_db" where
  "set_awaiting_input now i step db =
     update_task i (\<lambda>t. t\<lparr>t_status := AwaitingInput, t_awaiting := Some step, t_updated := now\<rparr>) db"

definition set_task_summary_progress :: "instant \<Rightarrow> uuid \<Rightarrow> int \<Rightarrow> int \<Rightarrow> task_db \<Rightarrow> task_db" where
  "set_task_summary_progress now i current n db =
     update_task i (\<lambda>t. t\<lparr>t_progress := Some (current, n), t_updated := now\<rparr>) db"

definition set_task_prompt_results :: "instant \<Rightarrow> uuid \<Rightarrow> jdict list \<Rightarrow> task_db \<Rightarrow> task_db" where
  "set_task_prompt_results now i entries db =
     update_task i (\<lambda>t. t\<lparr>t_options := JDict (dict_set (as_dict (t_options t)) (lit ''prompt_results'')
        (JList (map JDict entries))), t_updated := now\<rparr>) db"

text \<open>The status of a task, for the status store.\<close>

definition task_stat :: "task_db \<Rightarrow> uuid \<Rightarrow> task_status option" where
  "task_stat db i = map_option t_status (find_task db i)"

section \<open>Steps\<close>

definition new_step :: "ustr \<Rightarrow> step_row" where
  "new_step name = \<lparr>st_name = name, st_status = SPending, st_attempt = 0, st_started = None,
     st_finished = None, st_message = None\<rparr>"

definition upsert_step_row :: "ustr \<Rightarrow> step_row list \<Rightarrow> step_row list" where
  "upsert_step_row name steps =
     (if list_ex (\<lambda>s. st_name s = name) steps then steps else steps @ [new_step name])"

definition upsert_step :: "uuid \<Rightarrow> ustr \<Rightarrow> task_db \<Rightarrow> task_db" where
  "upsert_step i name db = update_task i (\<lambda>t. t\<lparr>t_steps := upsert_step_row name (t_steps t)\<rparr>) db"

definition find_step :: "ustr \<Rightarrow> step_row list \<Rightarrow> step_row option" where
  "find_step name steps = find (\<lambda>s. st_name s = name) steps"

definition delete_steps_by_name :: "uuid \<Rightarrow> ustr list \<Rightarrow> task_db \<Rightarrow> task_db" where
  "delete_steps_by_name i names db =
     (if names = [] then db
      else update_task i (\<lambda>t. t\<lparr>t_steps := filter (\<lambda>s. st_name s \<notin> set names) (t_steps t)\<rparr>) db)"

definition step_status_update :: "instant \<Rightarrow> step_status \<Rightarrow> ustr option \<Rightarrow> step_row \<Rightarrow> step_row" where
  "step_status_update now s msg row =
     (let row1 = (if s = SRunning then row\<lparr>st_started := Some now, st_attempt := st_attempt row + 1\<rparr> else row);
          row2 = (if s \<in> set [SCompleted, SFailed, SSkipped] then row1\<lparr>st_finished := Some now\<rparr> else row1)
      in row2\<lparr>st_status := s, st_message := msg\<rparr>)"

definition set_step_status :: "instant \<Rightarrow> uuid \<Rightarrow> ustr \<Rightarrow> step_status \<Rightarrow> ustr option \<Rightarrow> task_db \<Rightarrow> task_db" where
  "set_step_status now i name s msg db =
     update_task i (\<lambda>t. t\<lparr>t_steps := map (\<lambda>r. if st_name r = name then step_status_update now s msg r else r) (t_steps t)\<rparr>) db"

section \<open>Recognised segments\<close>

definition has_segment :: "uuid \<Rightarrow> nat \<Rightarrow> task_db \<Rightarrow> bool" where
  "has_segment i n db = list_ex (\<lambda>r. ar_task r = i \<and> ar_index r = n) (db_asr db)"

text \<open>\<open>None\<close> is the exception of a payload that does not decompose.\<close>

definition add_asr_segment ::
  "(ustr \<Rightarrow> rat option) \<Rightarrow> uuid \<Rightarrow> nat \<Rightarrow> rat \<Rightarrow> rat \<Rightarrow> ustr \<Rightarrow> json \<Rightarrow> task_db \<Rightarrow> task_db option" where
  "add_asr_segment fs i n a b text raw db =
     map_option (\<lambda>ax. db\<lparr>db_asr := db_asr db @ [\<lparr>ar_task = i, ar_index = n, ar_start = a, ar_end = b,
        ar_text = text, ar_raw = raw, ar_payload = Some ax\<rparr>]\<rparr>) (decompose_raw_json fs raw)"

definition upsert_asr_segment_payload ::
  "(ustr \<Rightarrow> rat option) \<Rightarrow> uuid \<Rightarrow> nat \<Rightarrow> rat \<Rightarrow> rat \<Rightarrow> ustr \<Rightarrow> json \<Rightarrow> task_db \<Rightarrow> task_db option" where
  "upsert_asr_segment_payload fs i n a b text raw db =
     (if \<not> has_segment i n db then add_asr_segment fs i n a b text raw db
      else map_option (\<lambda>ax. db\<lparr>db_asr := map (\<lambda>r. if ar_task r = i \<and> ar_index r = n
             then r\<lparr>ar_start := a, ar_end := b, ar_text := text, ar_raw := raw, ar_payload := Some ax\<rparr> else r)
             (db_asr db)\<rparr>) (decompose_raw_json fs raw))"

definition get_task_segments :: "uuid \<Rightarrow> task_db \<Rightarrow> asr_row list" where
  "get_task_segments i db = sort_key ar_index (filter (\<lambda>r. ar_task r = i) (db_asr db))"

definition clear_asr_for_task :: "uuid \<Rightarrow> task_db \<Rightarrow> task_db" where
  "clear_asr_for_task i db = db\<lparr>db_asr := filter (\<lambda>r. ar_task r \<noteq> i) (db_asr db)\<rparr>"

text \<open>The pair of segments done and segments present; a legacy object that is empty or null is not
  done.\<close>

definition raw_done :: "json \<Rightarrow> bool" where
  "raw_done raw \<longleftrightarrow> raw \<noteq> JDict [] \<and> raw \<noteq> JNull"

definition get_asr_progress :: "uuid \<Rightarrow> task_db \<Rightarrow> (nat \<times> nat) option" where
  "get_asr_progress i db = (let rows = filter (\<lambda>r. ar_task r = i) (db_asr db)
     in if rows = [] then None else Some (length (filter (\<lambda>r. raw_done (ar_raw r)) rows), length rows))"

section \<open>Donors\<close>

definition donor_candidate_limit :: nat where "donor_candidate_limit = 20"

text \<open>The newest candidate whose options are equal; candidates updated at the same instant keep the
  table's order.\<close>

definition donor_candidates :: "ustr \<Rightarrow> uuid \<Rightarrow> task_db \<Rightarrow> task_row list" where
  "donor_candidates url exclude_user db = take donor_candidate_limit
     (sort_key (\<lambda>t. - t_updated t) (filter (\<lambda>t. t_url t = url \<and> t_status t = Completed \<and> t_user t \<noteq> exclude_user) (db_tasks db)))"

definition find_completed_donor :: "ustr \<Rightarrow> json \<Rightarrow> uuid \<Rightarrow> task_db \<Rightarrow> task_row option" where
  "find_completed_donor url options exclude_user db =
     find (\<lambda>t. py_eq (t_options t) options) (donor_candidates url exclude_user db)"

definition clone_row :: "uuid \<Rightarrow> asr_row \<Rightarrow> asr_row" where
  "clone_row dst r = \<lparr>ar_task = dst, ar_index = ar_index r, ar_start = ar_start r, ar_end = ar_end r,
     ar_text = ar_text r, ar_raw = ar_raw r, ar_payload = None\<rparr>"

definition clone_asr_segments :: "uuid \<Rightarrow> uuid \<Rightarrow> task_db \<Rightarrow> task_db" where
  "clone_asr_segments src dst db =
     db\<lparr>db_asr := db_asr db @ map (clone_row dst) (get_task_segments src db)\<rparr>"

text \<open>Paths under the donor's directory move to the task's; \<open>None\<close> of \<open>relative_to\<close> keeps the path.
  A path is under a directory when it is the directory or continues it with a slash.\<close>

definition remap_path :: "ustr \<Rightarrow> ustr \<Rightarrow> ustr option \<Rightarrow> ustr option" where
  "remap_path donor_dir task_dir p = (case p of None \<Rightarrow> None | Some s \<Rightarrow>
     if s = donor_dir then Some task_dir
     else if starts_with (donor_dir @ [47]) s then Some (task_dir @ drop (length donor_dir) s)
     else Some s)"

definition title_or :: "ustr option \<Rightarrow> ustr option \<Rightarrow> ustr option" where
  "title_or a b = (if a = None \<or> a = Some [] then b else a)"

definition cloned_step :: "step_row \<Rightarrow> step_row" where
  "cloned_step s = \<lparr>st_name = st_name s, st_status = SSkipped, st_attempt = 0, st_started = None,
     st_finished = None, st_message = Some (lit ''cloned from donor'')\<rparr>"

text \<open>The clone of a donor into a task, the files apart. A task that already has a step of the same
  name violates the unique constraint: \<open>None\<close>, and the caller rolls the session back.\<close>

definition clone_from_donor :: "instant \<Rightarrow> uuid \<Rightarrow> task_row \<Rightarrow> task_db \<Rightarrow> task_db option" where
  "clone_from_donor now i donor db = (case find_task db i of None \<Rightarrow> None | Some task \<Rightarrow>
     if list_ex (\<lambda>s. list_ex (\<lambda>d. st_name d = st_name s) (t_steps donor)) (t_steps task) then None
     else (let db1 = update_task i (\<lambda>t. t\<lparr>t_title := title_or (t_title t) (t_title donor),
                 t_transcript := remap_path (t_dir donor) (t_dir t) (t_transcript donor),
                 t_summary := remap_path (t_dir donor) (t_dir t) (t_summary donor),
                 t_steps := t_steps t @ map cloned_step (t_steps donor)\<rparr>) db
           in Some (set_task_status now i Completed None (clone_asr_segments (t_id donor) i db1))))"

section \<open>Reading after writing\<close>

text \<open>An update of a row that keeps its id and owner.\<close>

definition keeps_identity :: "(task_row \<Rightarrow> task_row) \<Rightarrow> bool" where
  "keeps_identity f \<longleftrightarrow> (\<forall>t. t_id (f t) = t_id t \<and> t_user (f t) = t_user t \<and> t_created (f t) = t_created t)"

lemma find_map_keyed:
  "(\<And>x. key (f x) = key x) \<Longrightarrow> find (\<lambda>x. key x = k) (map (\<lambda>x. if key x = i then f x else x) xs)
     = (if k = i then map_option f (find (\<lambda>x. key x = k) xs) else find (\<lambda>x. key x = k) xs)"
  by (induction xs) auto

lemma find_update_task [vts_store]:
  "keeps_identity f \<Longrightarrow> find_task (update_task i f db) j =
     (if j = i then map_option f (find_task db i) else find_task db j)"
  by (simp add: find_task_def update_task_def keeps_identity_def find_map_keyed)

lemma keeps_identity_updates [simp]:
  "keeps_identity (\<lambda>t. t\<lparr>t_status := s, t_updated := now\<rparr>)"
  "keeps_identity (\<lambda>t. t\<lparr>t_status := s, t_error := err, t_awaiting := None, t_updated := now\<rparr>)"
  "keeps_identity (\<lambda>t. t\<lparr>t_status := s, t_awaiting := w, t_updated := now\<rparr>)"
  "keeps_identity (\<lambda>t. t\<lparr>t_progress := p, t_updated := now\<rparr>)"
  "keeps_identity (\<lambda>t. t\<lparr>t_steps := g (t_steps t)\<rparr>)"
  by (simp_all add: keeps_identity_def)

lemma find_set_status_by_id [vts_store]:
  "find_task (set_task_status_by_id now i s db) j =
     (if j = i then map_option (\<lambda>t. t\<lparr>t_status := s, t_updated := now\<rparr>) (find_task db i) else find_task db j)"
  by (simp add: set_task_status_by_id_def find_update_task)

lemma find_set_task_status [vts_store]:
  "find_task (set_task_status now i s err db) j =
     (if j = i then map_option (\<lambda>t. t\<lparr>t_status := s, t_error := err, t_awaiting := None, t_updated := now\<rparr>) (find_task db i)
      else find_task db j)"
  by (simp add: set_task_status_def find_update_task)

lemma find_set_awaiting_input [vts_store]:
  "find_task (set_awaiting_input now i step db) j =
     (if j = i then map_option (\<lambda>t. t\<lparr>t_status := AwaitingInput, t_awaiting := Some step, t_updated := now\<rparr>) (find_task db i)
      else find_task db j)"
  by (simp add: set_awaiting_input_def find_update_task)

text \<open>Tasks form a store of statuses, under both status writers.\<close>

interpretation task_store: status_store task_stat "set_task_status_by_id now" for now
  by unfold_locales (auto simp: task_stat_def vts_store)

interpretation task_status_store: status_store task_stat "\<lambda>i s. set_task_status now i s err" for now err
  by unfold_locales (auto simp: task_stat_def vts_store)

section \<open>Well-formed tables\<close>

definition task_ok :: "task_row \<Rightarrow> bool" where
  "task_ok t \<longleftrightarrow> (t_awaiting t \<noteq> None \<longrightarrow> t_status t = AwaitingInput) \<and> distinct (map st_name (t_steps t))"

definition db_ok :: "task_db \<Rightarrow> bool" where
  "db_ok db \<longleftrightarrow> distinct (map t_id (db_tasks db)) \<and> (\<forall>t\<in>set (db_tasks db). task_ok t)"

lemma find_task_Some: "find_task db i = Some t \<Longrightarrow> t \<in> set (db_tasks db) \<and> t_id t = i"
  by (auto simp: find_task_def find_Some_iff)

lemma find_task_mem:
  "db_ok db \<Longrightarrow> t \<in> set (db_tasks db) \<Longrightarrow> find_task db (t_id t) = Some t"
proof -
  assume "db_ok db" and t: "t \<in> set (db_tasks db)"
  then have d: "distinct (map t_id (db_tasks db))" by (simp add: db_ok_def)
  obtain u where u: "find_task db (t_id t) = Some u"
    using t by (cases "find_task db (t_id t)") (auto simp: find_task_def find_None_iff)
  then have "u \<in> set (db_tasks db)" "t_id u = t_id t" using find_task_Some by auto
  then have "u = t" using d t by (auto simp: distinct_map inj_on_def)
  then show ?thesis using u by simp
qed

lemma map_ids_update: "keeps_identity f \<Longrightarrow> map t_id (db_tasks (update_task i f db)) = map t_id (db_tasks db)"
  by (simp add: update_task_def keeps_identity_def)

lemma db_ok_map:
  assumes "db_ok db" and "\<And>t. t_id (g t) = t_id t" and "\<And>t. t \<in> set (db_tasks db) \<Longrightarrow> task_ok (g t)"
  shows "db_ok (db\<lparr>db_tasks := map g (db_tasks db)\<rparr>)"
proof -
  have "map t_id (map g ts) = map t_id ts" for ts using assms(2) by simp
  then show ?thesis using assms(1,3) by (auto simp: db_ok_def simp del: map_map)
qed

lemma db_ok_update:
  assumes "db_ok db" and "keeps_identity f" and "\<And>t. t_id t = i \<Longrightarrow> t \<in> set (db_tasks db) \<Longrightarrow> task_ok (f t)"
  shows "db_ok (update_task i f db)"
  unfolding update_task_def
  by (rule db_ok_map [OF assms(1)]) (use assms in \<open>auto simp: keeps_identity_def db_ok_def\<close>)

lemma db_ok_set_task_status [intro]: "db_ok db \<Longrightarrow> db_ok (set_task_status now i s err db)"
  unfolding set_task_status_def by (rule db_ok_update) (auto simp: db_ok_def task_ok_def)

lemma db_ok_set_awaiting_input [intro]: "db_ok db \<Longrightarrow> db_ok (set_awaiting_input now i step db)"
  unfolding set_awaiting_input_def by (rule db_ok_update) (auto simp: db_ok_def task_ok_def)

lemma distinct_upsert_step: "distinct (map st_name ss) \<Longrightarrow> distinct (map st_name (upsert_step_row n ss))"
  by (auto simp: upsert_step_row_def new_step_def list_ex_iff)

lemma db_ok_upsert_step [intro]: "db_ok db \<Longrightarrow> db_ok (upsert_step i n db)"
  unfolding upsert_step_def by (rule db_ok_update) (auto simp: db_ok_def task_ok_def distinct_upsert_step)

lemma map_step_update: "map st_name (map (\<lambda>r. if st_name r = n then step_status_update now s msg r else r) ss) = map st_name ss"
  by (induction ss) (auto simp: step_status_update_def Let_def)

lemma db_ok_set_step_status [intro]: "db_ok db \<Longrightarrow> db_ok (set_step_status now i n s msg db)"
  unfolding set_step_status_def
  by (rule db_ok_update) (auto simp: db_ok_def task_ok_def map_step_update simp del: map_map)

lemma distinct_map_filter: "distinct (map f xs) \<Longrightarrow> distinct (map f (filter P xs))"
  by (induction xs) auto

lemma db_ok_delete_steps [intro]:
  assumes "db_ok db"
  shows "db_ok (delete_steps_by_name i ns db)"
proof -
  have "db_ok (update_task i (\<lambda>t. t\<lparr>t_steps := filter (\<lambda>s. st_name s \<notin> set ns) (t_steps t)\<rparr>) db)"
    by (rule db_ok_update [OF assms])
       (use assms in \<open>auto simp: keeps_identity_def db_ok_def task_ok_def distinct_map_filter\<close>)
  then show ?thesis using assms by (simp add: delete_steps_by_name_def)
qed

lemma db_ok_requeue [intro]: "db_ok db \<Longrightarrow> db_ok (fst (requeue_running_tasks now db))"
  unfolding requeue_running_tasks_def fst_conv
  by (rule db_ok_map) (auto simp: db_ok_def task_ok_def active_statuses_def)

lemma db_ok_transition [intro]:
  assumes "db_ok db" and "AwaitingInput \<notin> set froms"
  shows "db_ok (fst (transition_task_status now i froms to db))"
  unfolding transition_task_status_def fst_conv
  by (rule db_ok_map) (use assms in \<open>auto simp: db_ok_def task_ok_def\<close>)

section \<open>The queue\<close>

lemma queued_tasks_mem: "t \<in> set (queued_tasks db) \<longleftrightarrow> t \<in> set (db_tasks db) \<and> t_status t = Queued"
  by (auto simp: queued_tasks_def)

lemma queued_tasks_sorted: "sorted (map task_key (queued_tasks db))"
  by (simp add: queued_tasks_def)

lemma distinct_queued: "db_ok db \<Longrightarrow> distinct (map t_id (queued_tasks db))"
proof -
  assume "db_ok db"
  then have d: "distinct (map t_id (db_tasks db))" by (simp add: db_ok_def)
  have "inj_on t_id (set (queued_tasks db))"
    using d by (auto simp: inj_on_def distinct_map queued_tasks_mem)
  moreover have "distinct (queued_tasks db)"
    using d by (simp add: queued_tasks_def distinct_map distinct_sort)
  ultimately show ?thesis by (simp add: distinct_map)
qed

lemma filter_unqueue:
  assumes "s \<noteq> Queued"
  shows "filter (\<lambda>t. t_status t = Queued) (map (\<lambda>t. if t_id t = i then t\<lparr>t_status := s, t_updated := now\<rparr> else t) ts)
     = filter (\<lambda>t. t_id t \<noteq> i) (filter (\<lambda>t. t_status t = Queued) ts)"
  using assms by (induction ts) auto

lemma queued_after_unqueue:
  assumes "s \<noteq> Queued"
  shows "queued_tasks (update_task i (\<lambda>t. t\<lparr>t_status := s, t_updated := now\<rparr>) db)
     = filter (\<lambda>t. t_id t \<noteq> i) (queued_tasks db)"
  unfolding queued_tasks_def by (simp add: update_task_def filter_unqueue [OF assms] filter_sort)

lemma dequeue_cases:
  "(queued_tasks db = [] \<and> dequeue_task now db = (None, db))
   \<or> (\<exists>t rest. queued_tasks db = t # rest \<and> dequeue_task now db = (Some (t_id t), set_task_status_by_id now (t_id t) Running db))"
  by (cases "queued_tasks db") (simp_all add: dequeue_task_def set_task_status_by_id_def)

lemma db_ok_set_status_by_id:
  assumes "db_ok db" and "task_stat db i \<noteq> Some AwaitingInput"
  shows "db_ok (set_task_status_by_id now i s db)"
  unfolding set_task_status_by_id_def
proof (rule db_ok_update [OF assms(1)])
  show "keeps_identity (\<lambda>t. t\<lparr>t_status := s, t_updated := now\<rparr>)" by simp
  fix t assume t: "t_id t = i" "t \<in> set (db_tasks db)"
  then have "t_status t \<noteq> AwaitingInput"
    using assms find_task_mem [OF assms(1) t(2)] by (simp add: task_stat_def)
  then show "task_ok (t\<lparr>t_status := s, t_updated := now\<rparr>)"
    using assms(1) t(2) by (auto simp: db_ok_def task_ok_def)
qed

lemma db_ok_dequeue [intro]:
  assumes "db_ok db"
  shows "db_ok (snd (dequeue_task now db))"
proof -
  from dequeue_cases [of db now] show ?thesis
  proof (elim disjE exE conjE)
    fix t rest assume q: "queued_tasks db = t # rest" and d: "dequeue_task now db = (Some (t_id t), set_task_status_by_id now (t_id t) Running db)"
    have t: "t \<in> set (db_tasks db)" "t_status t = Queued" using queued_tasks_mem [of t db] q by auto
    then have "task_stat db (t_id t) = Some Queued" using find_task_mem [OF assms] by (simp add: task_stat_def)
    then show ?thesis using d db_ok_set_status_by_id [OF assms] by simp
  qed (simp add: assms)
qed

text \<open>The guarded update is the conditional update of the status store.\<close>

lemma transition_is_cond_put:
  assumes "db_ok db"
  shows "transition_task_status now i froms to db = cond_put task_stat (set_task_status_by_id now) froms i to db"
proof (cases "\<exists>t\<in>set (db_tasks db). t_id t = i")
  case True
  then obtain t where t: "t \<in> set (db_tasks db)" "t_id t = i" by blast
  then have s: "task_stat db i = Some (t_status t)" using find_task_mem [OF assms t(1)] by (simp add: task_stat_def)
  have uniq: "u = t" if "u \<in> set (db_tasks db)" "t_id u = i" for u
    using that find_task_mem [OF assms] t by (metis option.inject)
  show ?thesis
  proof (cases "t_status t \<in> set froms")
    case True
    have "map (\<lambda>u. if t_id u = i \<and> t_status u \<in> set froms then u\<lparr>t_status := to, t_updated := now\<rparr> else u) (db_tasks db)
        = map (\<lambda>u. if t_id u = i then u\<lparr>t_status := to, t_updated := now\<rparr> else u) (db_tasks db)"
      using uniq True by (intro map_cong refl) auto
    then show ?thesis
      using True s t by (auto simp: transition_task_status_def cond_put_def set_task_status_by_id_def update_task_def list_ex_iff)
  next
    case False
    have "map (\<lambda>u. if t_id u = i \<and> t_status u \<in> set froms then u\<lparr>t_status := to, t_updated := now\<rparr> else u) (db_tasks db)
        = db_tasks db"
      using uniq False by (intro map_idI) auto
    then show ?thesis using False s uniq by (auto simp: transition_task_status_def cond_put_def list_ex_iff)
  qed
next
  case False
  then have "find_task db i = None" by (auto simp: find_task_def find_None_iff)
  moreover have "map (\<lambda>u. if t_id u = i \<and> t_status u \<in> set froms then u\<lparr>t_status := to, t_updated := now\<rparr> else u) (db_tasks db)
        = db_tasks db"
    using False by (intro map_idI) auto
  ultimately show ?thesis using False
    by (auto simp: transition_task_status_def cond_put_def task_stat_def list_ex_iff)
qed

section \<open>Donors\<close>

lemma find_in_take: "find P (take n xs) = Some x \<Longrightarrow> x \<in> set xs \<and> P x"
  by (auto simp: find_Some_iff dest: in_set_takeD)

lemma find_completed_donor_Some:
  assumes "find_completed_donor url options user db = Some d"
  shows "d \<in> set (db_tasks db) \<and> t_status d = Completed \<and> t_user d \<noteq> user \<and> t_url d = url \<and> py_eq (t_options d) options"
  using find_in_take [OF assms [unfolded find_completed_donor_def donor_candidates_def]] by simp

lemma get_task_segments_clone:
  assumes "src \<noteq> dst" and "get_task_segments dst db = []"
  shows "get_task_segments dst (clone_asr_segments src dst db) = map (clone_row dst) (get_task_segments src db)"
proof -
  have none: "filter (\<lambda>r. ar_task r = dst) (db_asr db) = []"
    using assms(2) by (metis get_task_segments_def length_0_conv length_sort)
  have all: "filter (\<lambda>r. ar_task r = dst) (map (clone_row dst) rs) = map (clone_row dst) rs" for rs
    by (induction rs) (simp_all add: clone_row_def)
  have "sorted (map ar_index (map (clone_row dst) (get_task_segments src db)))"
    by (simp add: get_task_segments_def clone_row_def comp_def)
  then show ?thesis
    by (simp add: get_task_segments_def clone_asr_segments_def none all sort_key_id_if_sorted)
qed

lemma find_requeue:
  "find_task (fst (requeue_running_tasks now db)) j = map_option (\<lambda>t. if t_status t \<in> set active_statuses
      then t\<lparr>t_status := Queued, t_error := None, t_updated := now\<rparr> else t) (find_task db j)"
proof -
  have "find (\<lambda>t. t_id t = j) (map (\<lambda>t. if t_status t \<in> set active_statuses
      then t\<lparr>t_status := Queued, t_error := None, t_updated := now\<rparr> else t) ts)
    = map_option (\<lambda>t. if t_status t \<in> set active_statuses
      then t\<lparr>t_status := Queued, t_error := None, t_updated := now\<rparr> else t) (find (\<lambda>t. t_id t = j) ts)" for ts
    by (induction ts) auto
  then show ?thesis by (simp add: find_task_def requeue_running_tasks_def)
qed

lemma keeps_identity_clone:
  "keeps_identity (\<lambda>t. t\<lparr>t_title := f t, t_transcript := g t, t_summary := h t, t_steps := k t\<rparr>)"
  by (simp add: keeps_identity_def)

lemma clone_from_donor_Some:
  assumes "clone_from_donor now i donor db = Some db'"
  shows "\<exists>t. find_task db i = Some t
     \<and> find_task db' i = Some (t\<lparr>t_title := title_or (t_title t) (t_title donor),
                 t_transcript := remap_path (t_dir donor) (t_dir t) (t_transcript donor),
                 t_summary := remap_path (t_dir donor) (t_dir t) (t_summary donor),
                 t_steps := t_steps t @ map cloned_step (t_steps donor),
                 t_status := Completed, t_error := None, t_awaiting := None, t_updated := now\<rparr>)
     \<and> (\<forall>j. j \<noteq> i \<longrightarrow> find_task db' j = find_task db j)
     \<and> db_asr db' = db_asr (clone_asr_segments (t_id donor) i db)"
proof -
  obtain t where t: "find_task db i = Some t" using assms by (auto simp: clone_from_donor_def split: option.splits)
  let ?f = "\<lambda>t. t\<lparr>t_title := title_or (t_title t) (t_title donor),
                 t_transcript := remap_path (t_dir donor) (t_dir t) (t_transcript donor),
                 t_summary := remap_path (t_dir donor) (t_dir t) (t_summary donor),
                 t_steps := t_steps t @ map cloned_step (t_steps donor)\<rparr>"
  have d: "db' = set_task_status now i Completed None (clone_asr_segments (t_id donor) i (update_task i ?f db))"
    using assms t by (auto simp: clone_from_donor_def Let_def split: if_splits)
  have c: "find_task (clone_asr_segments s i x) j = find_task x j" for s x j
    by (simp add: find_task_def clone_asr_segments_def)
  have a: "db_asr db' = db_asr (clone_asr_segments (t_id donor) i db)"
    by (simp add: d set_task_status_def update_task_def clone_asr_segments_def get_task_segments_def)
  show ?thesis
    using t a by (auto simp: d find_set_task_status c find_update_task [OF keeps_identity_clone])
qed

section \<open>Properties\<close>

definition sample_task :: "uuid \<Rightarrow> uuid \<Rightarrow> task_status \<Rightarrow> instant \<Rightarrow> task_row" where
  "sample_task i user s created = \<lparr>t_id = i, t_user = user, t_status = s, t_error = None, t_awaiting = None,
     t_created = created, t_updated = created, t_url = lit ''u'', t_title = None, t_options = JDict [],
     t_dir = lit ''d'', t_transcript = None, t_summary = None, t_progress = None, t_steps = []\<rparr>"

lemma sample_task_id [simp]: "t_id (sample_task i u s c) = i"
  by (simp add: sample_task_def)

definition sample_db :: task_db where
  "sample_db = \<lparr>db_tasks = [sample_task 1 7 Queued 20, sample_task 2 7 Queued 10, sample_task 3 8 Completed 5,
      sample_task 4 7 Waiting 30], db_asr = []\<rparr>"

lemma sample_db_ok: "db_ok sample_db"
  by (simp add: db_ok_def sample_db_def sample_task_def task_ok_def)

text \<open>(C17) The queue is first in, first out: a dequeue claims a queued task no other queued task
  precedes (by creation time, then id), turns exactly that task to running, and every task behind it
  moves up one place; it claims nothing only when nothing is queued.\<close>

theorem dequeue_oldest_first:
  assumes "db_ok db"
  shows "(dequeue_task now db = (None, db) \<and> queued_tasks db = [])
   \<or> (\<exists>t db'. dequeue_task now db = (Some (t_id t), db') \<and> t \<in> set (db_tasks db) \<and> t_status t = Queued
        \<and> (\<forall>q\<in>set (queued_tasks db). task_key t \<le> task_key q)
        \<and> task_stat db' (t_id t) = Some Running
        \<and> (\<forall>j. j \<noteq> t_id t \<longrightarrow> task_stat db' j = task_stat db j)
        \<and> queued_tasks db = t # queued_tasks db'
        \<and> get_global_queue_positions db = (t_id t, 1) # map (\<lambda>(i, n). (i, n + 1)) (get_global_queue_positions db'))"
  using dequeue_cases [of db now]
proof (elim disjE exE conjE)
  fix t rest assume q: "queued_tasks db = t # rest"
    and d: "dequeue_task now db = (Some (t_id t), set_task_status_by_id now (t_id t) Running db)"
  let ?db = "set_task_status_by_id now (t_id t) Running db"
  have t: "t \<in> set (db_tasks db)" "t_status t = Queued" using queued_tasks_mem [of t db] q by auto
  have min: "\<forall>x\<in>set (queued_tasks db). task_key t \<le> task_key x"
    using queued_tasks_sorted [of db] q by simp
  have st: "task_stat ?db j = (if j = t_id t then Some Running else task_stat db j)" for j
    using find_task_mem [OF assms t(1)] task_store.stat_put [of now "t_id t" Running db j]
    by (simp add: task_stat_def)
  have "t_id x \<noteq> t_id t" if "x \<in> set rest" for x
    using distinct_queued [OF assms] that q by (auto simp: image_iff)
  then have "filter (\<lambda>x. t_id x \<noteq> t_id t) rest = rest" by (auto simp: filter_id_conv)
  then have rest: "queued_tasks ?db = rest"
    using queued_after_unqueue [of Running "t_id t" now db] q by (simp add: set_task_status_by_id_def)
  have "map (\<lambda>(n, t). (t_id t, n)) (enumerate (Suc m) xs) = map (\<lambda>(i, n). (i, n + 1)) (map (\<lambda>(n, t). (t_id t, n)) (enumerate m xs))" for m xs
    by (intro nth_equalityI) (simp_all add: nth_enumerate_eq)
  then have "get_global_queue_positions db = (t_id t, 1) # map (\<lambda>(i, n). (i, n + 1)) (get_global_queue_positions ?db)"
    by (simp add: get_global_queue_positions_def q rest)
  then show ?thesis using d t min st rest q by auto
qed simp

theorem dequeue_oldest_first_witness:
  "db_ok sample_db \<and> (\<exists>t db'. dequeue_task 99 sample_db = (Some (t_id t), db') \<and> t_status t = Queued
     \<and> queued_tasks sample_db = t # queued_tasks db')"
proof -
  have "sample_task 1 7 Queued 20 \<in> set (queued_tasks sample_db)"
    by (simp add: queued_tasks_mem sample_db_def sample_task_def)
  then have "queued_tasks sample_db \<noteq> []" by force
  then show ?thesis using dequeue_oldest_first [OF sample_db_ok, of 99] sample_db_ok by blast
qed

text \<open>The guarded status update hits exactly when the task is in one of the source statuses, and
  then changes that one status; otherwise nothing changes at all. So of two racing transitions out of
  the same statuses only the first hits, and a task the API paused or cancelled in the meantime is
  never overwritten.\<close>

theorem transition_guarded:
  assumes "db_ok db" and "transition_task_status now i froms to db = (db', hit)"
  shows "(hit \<longleftrightarrow> (\<exists>s\<in>set froms. task_stat db i = Some s))
     \<and> (\<not> hit \<longrightarrow> db' = db)
     \<and> (\<forall>j. task_stat db' j = (if j = i \<and> hit then Some to else task_stat db j))
     \<and> (hit \<and> to \<notin> set froms \<and> AwaitingInput \<notin> set froms \<longrightarrow> \<not> snd (transition_task_status now' i froms to' db'))"
proof -
  have c: "cond_put task_stat (set_task_status_by_id now) froms i to db = (db', hit)"
    using assms transition_is_cond_put [OF assms(1)] by simp
  have "\<not> snd (transition_task_status now' i froms to' db')" if "hit" "to \<notin> set froms" "AwaitingInput \<notin> set froms"
  proof -
    have ok: "db_ok db'" using db_ok_transition [OF assms(1) that(3), of now i to] assms(2) by simp
    have "task_stat db' i = Some to" using task_store.cond_put_stat [of now froms i to db i] c that(1) by simp
    then show ?thesis
      using task_store.cond_put_hit [of now' froms i to' db'] that(2) transition_is_cond_put [OF ok, of now' i froms to'] by simp
  qed
  then show ?thesis
    using task_store.cond_put_hit [of now froms i to db] task_store.cond_put_miss [of now froms i to db]
      task_store.cond_put_stat [of now froms i to db] c by auto
qed

theorem transition_guarded_witness:
  "db_ok sample_db \<and> (\<exists>db'. transition_task_status 50 4 [Waiting] Running sample_db = (db', True)
     \<and> task_stat db' 4 = Some Running \<and> \<not> snd (transition_task_status 51 4 [Waiting] Running db'))"
proof -
  obtain db' where d: "transition_task_status 50 4 [Waiting] Running sample_db = (db', True)"
    by (simp add: transition_task_status_def sample_db_def sample_task_def)
  show ?thesis using transition_guarded [OF sample_db_ok d, of 51 Running] d sample_db_ok by auto
qed

text \<open>Recovery after a restart leaves no task marked as running or waiting: exactly those go back
  to the queue, with their error cleared, and every other task is untouched.\<close>

theorem recovery_requeues_active:
  assumes "db_ok db" and "requeue_running_tasks now db = (db', ids)"
  shows "(\<forall>j. task_stat db' j = (case task_stat db j of None \<Rightarrow> None
              | Some s \<Rightarrow> if is_active s then Some Queued else Some s))
     \<and> (\<forall>j. j \<in> set ids \<longleftrightarrow> (\<exists>s. task_stat db j = Some s \<and> is_active s))
     \<and> (\<forall>j t. find_task db j = Some t \<and> \<not> is_active (t_status t) \<longrightarrow> find_task db' j = Some t)"
proof -
  have f: "find_task db' j = map_option (\<lambda>t. if t_status t \<in> set active_statuses
      then t\<lparr>t_status := Queued, t_error := None, t_updated := now\<rparr> else t) (find_task db j)" for j
    using find_requeue [of now db j] assms(2) by simp
  have "j \<in> set ids \<longleftrightarrow> (\<exists>s. task_stat db j = Some s \<and> is_active s)" for j
  proof -
    have "j \<in> set ids \<longleftrightarrow> (\<exists>t\<in>set (db_tasks db). t_id t = j \<and> is_active (t_status t))"
      using assms(2) by (auto simp: requeue_running_tasks_def is_active_def)
    also have "\<dots> \<longleftrightarrow> (\<exists>t. find_task db j = Some t \<and> is_active (t_status t))"
      using find_task_mem [OF assms(1)] find_task_Some by blast
    finally show ?thesis by (auto simp: task_stat_def)
  qed
  then show ?thesis using f by (auto simp: task_stat_def is_active_def split: option.split)
qed

theorem recovery_requeues_active_witness:
  "db_ok sample_db \<and> (\<exists>db' ids. requeue_running_tasks 60 sample_db = (db', ids) \<and> task_stat db' 4 = Some Queued
     \<and> task_stat db' 3 = Some Completed)"
proof -
  obtain db' ids where d: "requeue_running_tasks 60 sample_db = (db', ids)" by (cases "requeue_running_tasks 60 sample_db") auto
  have "task_stat sample_db 4 = Some Waiting" "task_stat sample_db 3 = Some Completed"
    by (simp_all add: task_stat_def find_task_def sample_db_def sample_task_def)
  then show ?thesis using recovery_requeues_active [OF sample_db_ok d] d sample_db_ok
    by (simp add: is_active_def active_statuses_def)
qed

text \<open>A donor is a completed task of another user for the same URL with equal options; its clone
  completes the task with every step skipped and touches no other task. The recognised segments are
  copied with their texts and times, but without the stored axes: a donor segment whose legacy object
  was cleared comes out with no words at all.\<close>

theorem donor_clone_loses_axes:
  assumes "find_completed_donor (t_url t) (t_options t) (t_user t) db = Some d"
    and "clone_from_donor now (t_id t) d db = Some db'"
    and "t_id d \<noteq> t_id t" and "get_task_segments (t_id t) db = []"
  shows "t_status d = Completed \<and> t_user d \<noteq> t_user t \<and> t_url d = t_url t \<and> py_eq (t_options d) (t_options t)
     \<and> task_stat db' (t_id t) = Some Completed \<and> (\<forall>j. j \<noteq> t_id t \<longrightarrow> find_task db' j = find_task db j)
     \<and> map (\<lambda>r. (ar_index r, ar_start r, ar_end r, ar_text r)) (get_task_segments (t_id t) db')
       = map (\<lambda>r. (ar_index r, ar_start r, ar_end r, ar_text r)) (get_task_segments (t_id d) db)
     \<and> map (\<lambda>r. segment_raw_payload (ar_raw r) (ar_payload r)) (get_task_segments (t_id t) db')
       = map (\<lambda>r. Legacy (as_dict (ar_raw r))) (get_task_segments (t_id d) db)"
proof -
  have asr: "db_asr db' = db_asr (clone_asr_segments (t_id d) (t_id t) db)"
    and st: "task_stat db' (t_id t) = Some Completed" "\<forall>j. j \<noteq> t_id t \<longrightarrow> find_task db' j = find_task db j"
    using clone_from_donor_Some [OF assms(2)] by (auto simp: task_stat_def)
  have seg: "get_task_segments (t_id t) db' = map (clone_row (t_id t)) (get_task_segments (t_id d) db)"
    using get_task_segments_clone [OF assms(3,4)] asr by (simp add: get_task_segments_def)
  show ?thesis
    using find_completed_donor_Some [OF assms(1)] st
    by (simp add: seg clone_row_def segment_raw_payload_def comp_def)
qed

definition donor_db :: task_db where
  "donor_db = \<lparr>db_tasks = [sample_task 1 7 Queued 20, sample_task 3 8 Completed 5],
     db_asr = [\<lparr>ar_task = 3, ar_index = 0, ar_start = 0, ar_end = 2, ar_text = lit ''hi you'', ar_raw = JDict [],
                ar_payload = Some sample_axes\<rparr>]\<rparr>"

theorem donor_clone_loses_axes_witness:
  "(\<exists>r\<in>set (get_task_segments 3 donor_db). axes_usable (ar_payload r))
   \<and> (\<exists>db'. clone_from_donor 9 1 (sample_task 3 8 Completed 5) donor_db = Some db'
        \<and> map (\<lambda>r. segment_raw_payload (ar_raw r) (ar_payload r)) (get_task_segments 1 db') = [Legacy []])"
proof -
  let ?t = "sample_task 1 7 Queued 20" and ?d = "sample_task 3 8 Completed 5"
  have id: "t_id ?t = 1" "t_id ?d = 3" by (simp_all add: sample_task_def)
  have f: "find_completed_donor (t_url ?t) (t_options ?t) (t_user ?t) donor_db = Some ?d"
    by (simp add: find_completed_donor_def donor_candidates_def donor_db_def sample_task_def donor_candidate_limit_def)
  have "clone_from_donor 9 1 ?d donor_db \<noteq> None"
    by (simp add: clone_from_donor_def find_task_def donor_db_def sample_task_def)
  then obtain db' where c: "clone_from_donor 9 (t_id ?t) ?d donor_db = Some db'" using id by auto
  have s: "get_task_segments (t_id ?t) donor_db = []" by (simp add: get_task_segments_def donor_db_def sample_task_def)
  have s3: "get_task_segments 3 donor_db = db_asr donor_db" by (simp add: get_task_segments_def donor_db_def)
  have ne: "t_id ?d \<noteq> t_id ?t" by (simp add: sample_task_def)
  have "map (\<lambda>r. segment_raw_payload (ar_raw r) (ar_payload r)) (get_task_segments 1 db') = [Legacy []]"
    using donor_clone_loses_axes [OF f c ne s] s3 by (simp add: donor_db_def)
  then show ?thesis using c s3 by (auto simp: donor_db_def axes_usable_def sample_axes_def)
qed

end
