(* ===== verification/Lanes.thy ===== *)
theory Lanes
  imports Contracts
begin

text \<open>
  \<open>vts/worker/lanes.py\<close>: the slot scheduler of the pipeline's resource lanes. \<open>LaneManager\<close> keeps, per
  lane, the number of slots in use and the queues of waiters; the gpu lane has two classes, of which
  \<open>asr\<close> goes first for at most a burst of grants while \<open>llm\<close> waits.

  The state also records every \<open>_SlotContext\<close> and how far its coroutine got, because the interesting
  behaviour is what a cancellation does at each \<open>await\<close>. The code between two awaits is one event.
  Whether the night window is open is read from the clock: it is an argument of the events that read
  it. Slot contexts are numbered in the order they are entered.
\<close>

section \<open>State\<close>

datatype lane = Network | Ffmpeg | Gpu | Diarize

datatype lane_class = MainClass | AsrClass | LlmClass

definition all_lanes :: "lane list" where "all_lanes = [Network, Ffmpeg, Gpu, Diarize]"

text \<open>Where a slot context's coroutine is: announcing its immediate grant; queued, and awaiting the
  snapshot or \<open>on_wait\<close>; awaiting its future; cancelled while awaiting it; granted, and awaiting the
  snapshot or \<open>on_grant\<close>; inside the body; gone.\<close>

datatype phase = Entering | Announcing | Awaiting | Cancelling | Granted | Holding | Gone

record slot_context =
  cx_client :: nat
  cx_task :: uuid
  cx_lane :: lane
  cx_class :: lane_class
  cx_phase :: phase
  cx_popped :: bool

record lane_state =
  ls_slots :: "lane \<Rightarrow> nat"
  ls_active :: "lane \<Rightarrow> nat"
  ls_queue :: "lane \<Rightarrow> lane_class \<Rightarrow> nat list"
  ls_streak :: nat
  ls_burst :: nat
  ls_timer :: bool
  ls_contexts :: "slot_context list"

section \<open>Configuration\<close>

record lane_settings =
  cfg_network :: int
  cfg_ffmpeg :: int
  cfg_gpu :: int
  cfg_diarize :: int
  cfg_burst :: int
  cfg_cores :: int

definition diarize_threads :: int where "diarize_threads = 8"

text \<open>\<open>_diarize_slots\<close>; the cores the process may use are an input.\<close>

definition diarize_slots :: "lane_settings \<Rightarrow> int" where
  "diarize_slots s = (if 0 < cfg_diarize s then cfg_diarize s else max (cfg_cores s div diarize_threads) 1)"

definition init_slots :: "lane_settings \<Rightarrow> lane \<Rightarrow> nat" where
  "init_slots s l = (case l of Network \<Rightarrow> nat (max (cfg_network s) 1) | Ffmpeg \<Rightarrow> nat (max (cfg_ffmpeg s) 1)
     | Gpu \<Rightarrow> nat (max (cfg_gpu s) 1) | Diarize \<Rightarrow> nat (diarize_slots s))"

definition init_lanes :: "lane_settings \<Rightarrow> lane_state" where
  "init_lanes s = \<lparr>ls_slots = init_slots s, ls_active = (\<lambda>_. 0), ls_queue = (\<lambda>_ _. []), ls_streak = 0,
     ls_burst = nat (max (cfg_burst s) 1), ls_timer = False, ls_contexts = []\<rparr>"

text \<open>\<open>_default_night_allowed\<close> at an hour of the day.\<close>

definition night_allowed :: "bool \<Rightarrow> int \<Rightarrow> int \<Rightarrow> int \<Rightarrow> bool" where
  "night_allowed night_mode start stop hour =
     (if \<not> night_mode then True
      else if stop < start then start \<le> hour \<or> hour < stop else start \<le> hour \<and> hour < stop)"

text \<open>\<open>slot()\<close>: the class a request is queued under; \<open>None\<close> is the \<open>ValueError\<close> of an unknown gpu
  class.\<close>

definition slot_class :: "lane \<Rightarrow> lane_class \<Rightarrow> lane_class option" where
  "slot_class l c = (if l \<noteq> Gpu then Some MainClass else if c = MainClass then None else Some c)"

section \<open>Granting\<close>

definition has_waiters :: "lane_state \<Rightarrow> lane \<Rightarrow> bool" where
  "has_waiters s l = (if l = Gpu then ls_queue s Gpu AsrClass \<noteq> [] \<or> ls_queue s Gpu LlmClass \<noteq> []
                      else ls_queue s l MainClass \<noteq> [])"

definition set_active :: "lane \<Rightarrow> nat \<Rightarrow> lane_state \<Rightarrow> lane_state" where
  "set_active l n s = s\<lparr>ls_active := (ls_active s)(l := n)\<rparr>"

definition set_queue :: "lane \<Rightarrow> lane_class \<Rightarrow> nat list \<Rightarrow> lane_state \<Rightarrow> lane_state" where
  "set_queue l c q s = s\<lparr>ls_queue := (ls_queue s)(l := (ls_queue s l)(c := q))\<rparr>"

definition schedule_night_retry :: "lane_state \<Rightarrow> lane_state" where
  "schedule_night_retry s = s\<lparr>ls_timer := True\<rparr>"

text \<open>The decision and the state it leaves.\<close>

definition try_immediate :: "bool \<Rightarrow> lane \<Rightarrow> lane_state \<Rightarrow> bool \<times> lane_state" where
  "try_immediate night l s =
     (if ls_slots s l \<le> ls_active s l then (False, s)
      else if has_waiters s l then (False, s)
      else if l = Gpu \<and> \<not> night then (False, schedule_night_retry s)
      else (True, set_active l (ls_active s l + 1) s))"

definition pick_gpu_queue :: "lane_state \<Rightarrow> lane_class option" where
  "pick_gpu_queue s =
     (let asr_q = ls_queue s Gpu AsrClass; llm_q = ls_queue s Gpu LlmClass
      in if asr_q \<noteq> [] \<and> llm_q \<noteq> [] \<and> ls_burst s \<le> ls_streak s then Some LlmClass
         else if asr_q \<noteq> [] then Some AsrClass
         else if llm_q \<noteq> [] then Some LlmClass
         else None)"

text \<open>Setting a waiter's future: the context knows it was taken from its queue.\<close>

definition mark_popped :: "nat \<Rightarrow> slot_context list \<Rightarrow> slot_context list" where
  "mark_popped c cxs = map (\<lambda>x. if cx_client x = c then x\<lparr>cx_popped := True\<rparr> else x) cxs"

definition pop_waiter :: "lane \<Rightarrow> lane_class \<Rightarrow> lane_state \<Rightarrow> lane_state" where
  "pop_waiter l cl s = (case ls_queue s l cl of [] \<Rightarrow> s
     | c # q \<Rightarrow> (set_active l (ls_active s l + 1) (set_queue l cl q s))\<lparr>ls_contexts := mark_popped c (ls_contexts s)\<rparr>)"

definition count_streak :: "lane_class \<Rightarrow> lane_state \<Rightarrow> lane_state" where
  "count_streak cl s = s\<lparr>ls_streak := (if cl = AsrClass then ls_streak s + 1 else 0)\<rparr>"

text \<open>The body of the \<open>while\<close> of \<open>_grant_pending\<close>; \<open>None\<close> is its \<open>return\<close>.\<close>

definition grant_one :: "lane \<Rightarrow> lane_state \<Rightarrow> lane_state option" where
  "grant_one l s =
     (if l = Gpu
      then (case pick_gpu_queue s of None \<Rightarrow> None | Some cl \<Rightarrow> Some (count_streak cl (pop_waiter Gpu cl s)))
      else if ls_queue s l MainClass = [] then None else Some (pop_waiter l MainClass s))"

lemma grant_one_active:
  "grant_one l s = Some s' \<Longrightarrow> ls_active s' l = ls_active s l + 1 \<and> ls_slots s' = ls_slots s"
  by (auto simp: grant_one_def pick_gpu_queue_def pop_waiter_def count_streak_def set_active_def
      set_queue_def Let_def split: if_splits option.splits list.splits)

function grant_pending :: "bool \<Rightarrow> lane \<Rightarrow> lane_state \<Rightarrow> lane_state" where
  "grant_pending night l s =
     (if ls_slots s l \<le> ls_active s l then s
      else if l = Gpu \<and> \<not> night then schedule_night_retry s
      else (case grant_one l s of None \<Rightarrow> s | Some s' \<Rightarrow> grant_pending night l s'))"
  by pat_completeness auto
termination
  by (relation "measure (\<lambda>(night, l, s). ls_slots s l - ls_active s l)") (auto dest!: grant_one_active)

declare grant_pending.simps [simp del]

definition release :: "bool \<Rightarrow> lane \<Rightarrow> lane_state \<Rightarrow> lane_state" where
  "release night l s = grant_pending night l (set_active l (ls_active s l - 1) s)"

definition poke :: "bool \<Rightarrow> lane_state \<Rightarrow> lane_state" where
  "poke night s = foldl (\<lambda>x l. grant_pending night l x) s all_lanes"

text \<open>The timer's \<open>_retry\<close>.\<close>

definition night_retry :: "bool \<Rightarrow> lane_state \<Rightarrow> lane_state" where
  "night_retry night s =
     (let s1 = s\<lparr>ls_timer := False\<rparr>
      in if has_waiters s1 Gpu
         then (let s2 = grant_pending night Gpu s1 in if has_waiters s2 Gpu then schedule_night_retry s2 else s2)
         else s1)"

definition queue_tasks :: "lane_state \<Rightarrow> lane \<Rightarrow> lane_class \<Rightarrow> uuid list" where
  "queue_tasks s l c = List.map_filter
     (\<lambda>w. map_option cx_task (find (\<lambda>x. cx_client x = w) (ls_contexts s))) (ls_queue s l c)"

definition snapshot :: "lane_state \<Rightarrow> (string \<times> uuid list) list" where
  "snapshot s = [(''network'', queue_tasks s Network MainClass), (''ffmpeg'', queue_tasks s Ffmpeg MainClass),
     (''gpu_asr'', queue_tasks s Gpu AsrClass), (''gpu_llm'', queue_tasks s Gpu LlmClass),
     (''diarize'', queue_tasks s Diarize MainClass)]"

section \<open>Slot contexts\<close>

definition set_phase :: "nat \<Rightarrow> phase \<Rightarrow> lane_state \<Rightarrow> lane_state" where
  "set_phase c p s = s\<lparr>ls_contexts := map (\<lambda>x. if cx_client x = c then x\<lparr>cx_phase := p\<rparr> else x) (ls_contexts s)\<rparr>"

definition context_of :: "lane_state \<Rightarrow> nat \<Rightarrow> slot_context option" where
  "context_of s c = find (\<lambda>x. cx_client x = c) (ls_contexts s)"

text \<open>\<open>__aenter__\<close> up to its first await. A context's number is its place among the contexts.\<close>

definition enter :: "bool \<Rightarrow> lane \<Rightarrow> lane_class \<Rightarrow> uuid \<Rightarrow> lane_state \<Rightarrow> lane_state" where
  "enter night l cl task s =
     (let c = length (ls_contexts s);
          cx = \<lparr>cx_client = c, cx_task = task, cx_lane = l, cx_class = cl, cx_phase = Announcing, cx_popped = False\<rparr>
      in (case try_immediate night l s of
            (True, s1) \<Rightarrow> s1\<lparr>ls_contexts := ls_contexts s1 @ [cx\<lparr>cx_phase := Entering\<rparr>]\<rparr>
          | (False, s1) \<Rightarrow> (set_queue l cl (ls_queue s1 l cl @ [c]) s1)\<lparr>ls_contexts := ls_contexts s1 @ [cx]\<rparr>))"

text \<open>An await returns normally. Awaiting the future returns only once it was set.\<close>

definition proceed :: "nat \<Rightarrow> lane_state \<Rightarrow> lane_state" where
  "proceed c s = (case context_of s c of None \<Rightarrow> s | Some x \<Rightarrow>
     (case cx_phase x of
        Entering \<Rightarrow> set_phase c Holding s
      | Announcing \<Rightarrow> set_phase c Awaiting s
      | Awaiting \<Rightarrow> if cx_popped x then set_phase c Granted s else s
      | Granted \<Rightarrow> set_phase c Holding s
      | _ \<Rightarrow> s))"

text \<open>A cancellation arrives at an await. Only the one that waits for the future has a handler; from
  the others it leaves \<open>__aenter__\<close>, and \<open>__aexit__\<close> never runs.\<close>

definition cancel_at :: "nat \<Rightarrow> lane_state \<Rightarrow> lane_state" where
  "cancel_at c s = (case context_of s c of None \<Rightarrow> s | Some x \<Rightarrow>
     (case cx_phase x of
        Awaiting \<Rightarrow> set_phase c Cancelling s
      | Entering \<Rightarrow> set_phase c Gone s
      | Announcing \<Rightarrow> set_phase c Gone s
      | Granted \<Rightarrow> set_phase c Gone s
      | _ \<Rightarrow> s))"

text \<open>The handler: leave the queue, or give back a slot that was granted in the meantime.\<close>

definition cancel_handler :: "bool \<Rightarrow> nat \<Rightarrow> lane_state \<Rightarrow> lane_state" where
  "cancel_handler night c s = (case context_of s c of None \<Rightarrow> s | Some x \<Rightarrow>
     if cx_phase x \<noteq> Cancelling then s
     else if c \<in> set (ls_queue s (cx_lane x) (cx_class x))
     then set_phase c Gone (set_queue (cx_lane x) (cx_class x) (remove1 c (ls_queue s (cx_lane x) (cx_class x))) s)
     else release night (cx_lane x) (set_phase c Gone s))"

text \<open>\<open>__aexit__\<close>.\<close>

definition exit_slot :: "bool \<Rightarrow> nat \<Rightarrow> lane_state \<Rightarrow> lane_state" where
  "exit_slot night c s = (case context_of s c of None \<Rightarrow> s | Some x \<Rightarrow>
     if cx_phase x \<noteq> Holding then s else release night (cx_lane x) (set_phase c Gone s))"

section \<open>Events\<close>

datatype lane_event =
    Enter bool lane lane_class uuid
  | Proceed nat
  | CancelAt nat
  | CancelHandler bool nat
  | ExitSlot bool nat
  | Poke bool
  | NightRetry bool

fun lane_step :: "lane_event \<Rightarrow> lane_state \<Rightarrow> lane_state" where
  "lane_step (Enter night l cl task) s = (case slot_class l cl of None \<Rightarrow> s | Some cl' \<Rightarrow> enter night l cl' task s)"
| "lane_step (Proceed c) s = proceed c s"
| "lane_step (CancelAt c) s = cancel_at c s"
| "lane_step (CancelHandler night c) s = cancel_handler night c s"
| "lane_step (ExitSlot night c) s = exit_slot night c s"
| "lane_step (Poke night) s = poke night s"
| "lane_step (NightRetry night) s = (if ls_timer s then night_retry night s else s)"

section \<open>Changing one row of a keyed list\<close>

abbreviation keyed_update :: "('a \<Rightarrow> 'k) \<Rightarrow> 'k \<Rightarrow> ('a \<Rightarrow> 'a) \<Rightarrow> 'a list \<Rightarrow> 'a list" where
  "keyed_update k c f xs \<equiv> map (\<lambda>x. if k x = c then f x else x) xs"

lemma keyed_update_absent: "c \<notin> k ` set xs \<Longrightarrow> keyed_update k c f xs = xs"
  by (rule map_idI) auto

lemma length_filter_update:
  assumes "distinct (map k xs)" and "x \<in> set xs" and "k x = c"
  shows "length (filter P (keyed_update k c f xs)) + (if P x then 1 else 0) = length (filter P xs) + (if P (f x) then 1 else 0)"
  using assms
proof (induction xs)
  case (Cons y ys)
  show ?case
  proof (cases "k y = c")
    case True
    then have "c \<notin> k ` set ys" using Cons.prems(1) by auto
    moreover have "y = x" using Cons.prems True calculation by auto
    ultimately show ?thesis using True keyed_update_absent [of c k ys f] by simp
  next
    case False
    then show ?thesis using Cons by auto
  qed
qed simp

lemma filter_update_same:
  assumes "distinct (map k xs)" and "x \<in> set xs" and "k x = c" and "k (f x) = k x" and "P (f x) = P x"
  shows "map k (filter P (keyed_update k c f xs)) = map k (filter P xs)"
  using assms
proof (induction xs)
  case (Cons y ys)
  show ?case
  proof (cases "k y = c")
    case True
    then have "c \<notin> k ` set ys" using Cons.prems(1) by auto
    moreover have "y = x" using Cons.prems True calculation by auto
    ultimately show ?thesis using True keyed_update_absent [of c k ys f] Cons.prems by simp
  next
    case False
    then show ?thesis using Cons by auto
  qed
qed simp

lemma filter_update_drop:
  assumes "distinct (map k xs)" and "x \<in> set xs" and "k x = c" and "P x" and "\<not> P (f x)"
  shows "map k (filter P (keyed_update k c f xs)) = remove1 c (map k (filter P xs))"
  using assms
proof (induction xs)
  case (Cons y ys)
  show ?case
  proof (cases "k y = c")
    case True
    then have "c \<notin> k ` set ys" using Cons.prems(1) by auto
    moreover have "y = x" using Cons.prems True calculation by auto
    ultimately show ?thesis using True keyed_update_absent [of c k ys f] Cons.prems by simp
  next
    case False
    then show ?thesis using Cons by auto
  qed
qed simp

section \<open>The invariant\<close>

definition queued_phase :: "phase \<Rightarrow> bool" where
  "queued_phase p \<longleftrightarrow> p \<in> {Announcing, Awaiting, Cancelling}"

text \<open>A context holds a slot of a lane, or waits in a queue for one.\<close>

definition holds :: "lane \<Rightarrow> slot_context \<Rightarrow> bool" where
  "holds l x \<longleftrightarrow> cx_lane x = l \<and> (cx_phase x \<in> {Entering, Granted, Holding} \<or> (queued_phase (cx_phase x) \<and> cx_popped x))"

definition waits :: "lane \<Rightarrow> lane_class \<Rightarrow> slot_context \<Rightarrow> bool" where
  "waits l cl x \<longleftrightarrow> cx_lane x = l \<and> cx_class x = cl \<and> queued_phase (cx_phase x) \<and> \<not> cx_popped x"

definition lanes_core :: "lane_state \<Rightarrow> bool" where
  "lanes_core s \<longleftrightarrow> map cx_client (ls_contexts s) = [0..<length (ls_contexts s)]
     \<and> (\<forall>l. ls_active s l = length (filter (holds l) (ls_contexts s)))
     \<and> (\<forall>l cl. ls_queue s l cl = map cx_client (filter (waits l cl) (ls_contexts s)))
     \<and> (\<forall>l. ls_active s l \<le> ls_slots s l)
     \<and> (\<forall>x\<in>set (ls_contexts s). (cx_lane x = Gpu) \<longleftrightarrow> (cx_class x \<noteq> MainClass))"

text \<open>No lane idles while somebody waits for it, except the gpu outside the night window, and then
  the retry timer is armed.\<close>

definition idle_ok :: "lane_state \<Rightarrow> lane \<Rightarrow> bool" where
  "idle_ok s l \<longleftrightarrow> (ls_active s l < ls_slots s l \<and> has_waiters s l \<longrightarrow> l = Gpu \<and> ls_timer s)"

definition lanes_ok :: "lane_state \<Rightarrow> bool" where
  "lanes_ok s \<longleftrightarrow> lanes_core s \<and> (\<forall>l. idle_ok s l)"

lemma coreD:
  assumes "lanes_core s"
  shows "distinct (map cx_client (ls_contexts s))"
    and "ls_active s l = length (filter (holds l) (ls_contexts s))"
    and "ls_queue s l cl = map cx_client (filter (waits l cl) (ls_contexts s))"
    and "ls_active s l \<le> ls_slots s l"
  using assms by (auto simp: lanes_core_def)

lemma context_of_mem: "context_of s c = Some x \<Longrightarrow> x \<in> set (ls_contexts s) \<and> cx_client x = c"
  by (auto simp: context_of_def find_Some_iff)

lemma context_unique:
  "lanes_core s \<Longrightarrow> x \<in> set (ls_contexts s) \<Longrightarrow> context_of s (cx_client x) = Some x"
proof -
  assume c: "lanes_core s" and x: "x \<in> set (ls_contexts s)"
  obtain y where y: "context_of s (cx_client x) = Some y"
    using x by (cases "context_of s (cx_client x)") (auto simp: context_of_def find_None_iff)
  then have "y \<in> set (ls_contexts s)" "cx_client y = cx_client x" using context_of_mem by auto
  then have "y = x" using coreD(1) [OF c] x by (auto simp: distinct_map inj_on_def)
  then show ?thesis using y by simp
qed

text \<open>A change of one context that keeps its number, lane and class.\<close>

lemma core_update:
  assumes core: "lanes_core s" and x: "x \<in> set (ls_contexts s)"
    and f: "cx_client (f x) = cx_client x" "cx_lane (f x) = cx_lane x" "cx_class (f x) = cx_class x"
    and cx: "ls_contexts s' = keyed_update cx_client (cx_client x) f (ls_contexts s)"
    and slots: "ls_slots s' = ls_slots s"
    and act: "\<And>l. ls_active s' l + (if holds l x then 1 else 0) = ls_active s l + (if holds l (f x) then 1 else 0)"
    and room: "\<And>l. holds l (f x) \<Longrightarrow> \<not> holds l x \<Longrightarrow> ls_active s l < ls_slots s l"
    and que: "\<And>l cl. ls_queue s' l cl = (if waits l cl x \<and> \<not> waits l cl (f x) then remove1 (cx_client x) (ls_queue s l cl) else ls_queue s l cl)"
    and new: "\<And>l cl. waits l cl (f x) \<Longrightarrow> waits l cl x"
  shows "lanes_core s'"
proof -
  have d: "distinct (map cx_client (ls_contexts s))" using coreD(1) [OF core] .
  have only: "y = x" if "y \<in> set (ls_contexts s)" "cx_client y = cx_client x" for y
    using that d x by (auto simp: distinct_map inj_on_def)
  have "map cx_client (ls_contexts s') = map cx_client (ls_contexts s)"
    using f(1) only by (auto simp: cx)
  moreover have "length (ls_contexts s') = length (ls_contexts s)" by (simp add: cx)
  ultimately have "map cx_client (ls_contexts s') = [0..<length (ls_contexts s')]"
    using core unfolding lanes_core_def by metis
  moreover have "ls_active s' l = length (filter (holds l) (ls_contexts s'))" for l
    using length_filter_update [OF d x refl, of "holds l" f] act [of l] coreD(2) [OF core, of l] unfolding cx by auto
  moreover have "ls_queue s' l cl = map cx_client (filter (waits l cl) (ls_contexts s'))" for l cl
  proof (cases "waits l cl x \<and> \<not> waits l cl (f x)")
    case True
    then show ?thesis using filter_update_drop [where k = cx_client and f = f, OF d x refl, of "waits l cl"]
        que [of l cl] coreD(3) [OF core, of l cl] unfolding cx by simp
  next
    case False
    then have "waits l cl (f x) = waits l cl x" using new by blast
    then show ?thesis using filter_update_same [where k = cx_client and f = f, OF d x refl f(1), of "waits l cl"]
        que [of l cl] coreD(3) [OF core, of l cl] False unfolding cx by simp
  qed
  moreover have "ls_active s' l \<le> ls_slots s' l" for l
    using act [of l] room [of l] coreD(4) [OF core, of l] by (auto simp: slots split: if_splits)
  moreover have "\<forall>y\<in>set (ls_contexts s'). (cx_lane y = Gpu) \<longleftrightarrow> (cx_class y \<noteq> MainClass)"
  proof
    fix y assume "y \<in> set (ls_contexts s')"
    then obtain z where z: "z \<in> set (ls_contexts s)" "y = (if cx_client z = cx_client x then f z else z)"
      by (auto simp: cx)
    have "cx_lane y = cx_lane z \<and> cx_class y = cx_class z"
      using z only [OF z(1)] f by (cases "cx_client z = cx_client x") auto
    then show "(cx_lane y = Gpu) \<longleftrightarrow> (cx_class y \<noteq> MainClass)"
      using core z(1) by (simp add: lanes_core_def)
  qed
  ultimately show ?thesis by (simp add: lanes_core_def)
qed

lemma queue_head:
  assumes "lanes_core s" and "ls_queue s l cl = c # q"
  shows "\<exists>x\<in>set (ls_contexts s). cx_client x = c \<and> waits l cl x"
proof -
  have "c \<in> set (map cx_client (filter (waits l cl) (ls_contexts s)))"
    using coreD(3) [OF assms(1), of l cl] assms(2) by (metis list.set_intros(1))
  then show ?thesis by auto
qed

lemma queue_mem_waits:
  assumes "lanes_core s" and "x \<in> set (ls_contexts s)"
  shows "cx_client x \<in> set (ls_queue s l cl) \<longleftrightarrow> waits l cl x"
  using assms coreD(1,3) [OF assms(1)] by (auto simp: distinct_map inj_on_def)

lemma core_pop_waiter:
  assumes core: "lanes_core s" and room: "ls_active s l < ls_slots s l"
  shows "lanes_core (pop_waiter l cl s)"
proof (cases "ls_queue s l cl")
  case Nil
  then show ?thesis using core by (simp add: pop_waiter_def)
next
  case (Cons c q)
  obtain x where x: "x \<in> set (ls_contexts s)" "cx_client x = c" "waits l cl x"
    using queue_head [OF core Cons] by blast
  show ?thesis
  proof (rule core_update [OF core x(1), where f = "\<lambda>x. x\<lparr>cx_popped := True\<rparr>"])
    show "ls_contexts (pop_waiter l cl s) = keyed_update cx_client (cx_client x) (\<lambda>x. x\<lparr>cx_popped := True\<rparr>) (ls_contexts s)"
      using Cons x(2) by (simp add: pop_waiter_def mark_popped_def)
    show "ls_active (pop_waiter l cl s) l' + (if holds l' x then 1 else 0) = ls_active s l' + (if holds l' (x\<lparr>cx_popped := True\<rparr>) then 1 else 0)" for l'
      using x(3) Cons by (auto simp: pop_waiter_def set_active_def set_queue_def holds_def waits_def queued_phase_def)
    show "ls_queue (pop_waiter l cl s) l' cl' = (if waits l' cl' x \<and> \<not> waits l' cl' (x\<lparr>cx_popped := True\<rparr>)
        then remove1 (cx_client x) (ls_queue s l' cl') else ls_queue s l' cl')" for l' cl'
      using x Cons by (auto simp: pop_waiter_def set_active_def set_queue_def waits_def)
    show "ls_active s l' < ls_slots s l'" if "holds l' (x\<lparr>cx_popped := True\<rparr>)" for l'
      using that x(3) room by (auto simp: holds_def waits_def)
  qed (auto simp: pop_waiter_def set_active_def set_queue_def waits_def Cons)
qed

lemma core_cong:
  "ls_contexts s' = ls_contexts s \<Longrightarrow> ls_active s' = ls_active s \<Longrightarrow> ls_queue s' = ls_queue s \<Longrightarrow> ls_slots s' = ls_slots s
     \<Longrightarrow> lanes_core s' \<longleftrightarrow> lanes_core s"
  by (simp add: lanes_core_def)

lemma core_count_streak [simp]: "lanes_core (count_streak cl s) = lanes_core s"
  by (rule core_cong) (simp_all add: count_streak_def)

lemma core_schedule [simp]: "lanes_core (schedule_night_retry s) = lanes_core s"
  by (rule core_cong) (simp_all add: schedule_night_retry_def)

lemma core_grant_one:
  "lanes_core s \<Longrightarrow> ls_active s l < ls_slots s l \<Longrightarrow> grant_one l s = Some s' \<Longrightarrow> lanes_core s'"
  by (auto simp: grant_one_def core_pop_waiter split: if_splits option.splits)

lemma grant_pending_cases:
  "ls_slots s l \<le> ls_active s l \<Longrightarrow> grant_pending night l s = s"
  "ls_active s l < ls_slots s l \<Longrightarrow> l = Gpu \<Longrightarrow> \<not> night \<Longrightarrow> grant_pending night l s = schedule_night_retry s"
  "ls_active s l < ls_slots s l \<Longrightarrow> l \<noteq> Gpu \<or> night \<Longrightarrow> grant_one l s = None \<Longrightarrow> grant_pending night l s = s"
  "ls_active s l < ls_slots s l \<Longrightarrow> l \<noteq> Gpu \<or> night \<Longrightarrow> grant_one l s = Some s' \<Longrightarrow>
     grant_pending night l s = grant_pending night l s'"
  by (subst grant_pending.simps, auto)+

text \<open>Induction over the granting loop, with its four ways to go on.\<close>

lemma grant_pending_induct:
  assumes "\<And>s. ls_slots s l \<le> ls_active s l \<Longrightarrow> P s s"
    and "\<And>s. ls_active s l < ls_slots s l \<Longrightarrow> l = Gpu \<Longrightarrow> P s (schedule_night_retry s)"
    and "\<And>s. ls_active s l < ls_slots s l \<Longrightarrow> grant_one l s = None \<Longrightarrow> P s s"
    and "\<And>s s' r. ls_active s l < ls_slots s l \<Longrightarrow> grant_one l s = Some s' \<Longrightarrow> P s' r \<Longrightarrow> P s r"
  shows "P s (grant_pending night l s)"
proof (induction "ls_slots s l - ls_active s l" arbitrary: s rule: less_induct)
  case less
  show ?case
  proof (cases "ls_slots s l \<le> ls_active s l")
    case True
    then show ?thesis using assms(1) by (simp add: grant_pending_cases)
  next
    case room: False
    show ?thesis
    proof (cases "l = Gpu \<and> \<not> night")
      case True
      then show ?thesis using assms(2) room by (simp add: grant_pending_cases)
    next
      case night: False
      show ?thesis
      proof (cases "grant_one l s")
        case None
        then show ?thesis using assms(3) room night by (simp add: grant_pending_cases)
      next
        case (Some s')
        then have "P s' (grant_pending night l s')"
          using less [of s'] grant_one_active [OF Some] room by simp
        then show ?thesis using assms(4) Some room night by (simp add: grant_pending_cases)
      qed
    qed
  qed
qed

lemma core_grant_pending: "lanes_core s \<longrightarrow> lanes_core (grant_pending night l s)"
  by (rule grant_pending_induct) (auto dest: core_grant_one)

text \<open>Granting leaves the lane busy or without waiters, and does not touch the other lanes.\<close>

lemma grant_one_None: "grant_one l s = None \<Longrightarrow> \<not> has_waiters s l"
  by (auto simp: grant_one_def pick_gpu_queue_def has_waiters_def Let_def split: if_splits option.splits)

lemma idle_grant_pending: "idle_ok (grant_pending night l s) l"
  by (rule grant_pending_induct [where P = "\<lambda>s r. idle_ok r l"])
     (auto simp: idle_ok_def schedule_night_retry_def dest: grant_one_None)

definition same_elsewhere :: "lane \<Rightarrow> lane_state \<Rightarrow> lane_state \<Rightarrow> bool" where
  "same_elsewhere l s s' \<longleftrightarrow> ls_slots s' = ls_slots s \<and> ls_burst s' = ls_burst s \<and> (ls_timer s \<longrightarrow> ls_timer s')
     \<and> length (ls_contexts s') = length (ls_contexts s)
     \<and> (\<forall>l'. l' \<noteq> l \<longrightarrow> ls_active s' l' = ls_active s l' \<and> ls_queue s' l' = ls_queue s l')"

lemma same_elsewhere_refl [simp]: "same_elsewhere l s s"
  by (simp add: same_elsewhere_def)

lemma same_elsewhere_trans: "same_elsewhere l s s' \<Longrightarrow> same_elsewhere l s' s'' \<Longrightarrow> same_elsewhere l s s''"
  by (auto simp: same_elsewhere_def)

lemma same_grant_one: "grant_one l s = Some s' \<Longrightarrow> same_elsewhere l s s'"
  by (auto simp: grant_one_def pop_waiter_def count_streak_def set_active_def set_queue_def mark_popped_def
      same_elsewhere_def split: if_splits option.splits list.splits)

lemma same_schedule [simp]: "same_elsewhere l s (schedule_night_retry s)"
  by (simp add: same_elsewhere_def schedule_night_retry_def)

lemma same_grant_pending: "same_elsewhere l s (grant_pending night l s)"
  by (rule grant_pending_induct) (auto dest: same_grant_one intro: same_elsewhere_trans)

lemma idle_same: "same_elsewhere l s s' \<Longrightarrow> l' \<noteq> l \<Longrightarrow> idle_ok s l' \<Longrightarrow> idle_ok s' l'"
  unfolding same_elsewhere_def idle_ok_def has_waiters_def by (cases "l' = Gpu") simp_all

lemma ok_grant_pending: "lanes_ok s \<Longrightarrow> lanes_ok (grant_pending night l s)"
  using core_grant_pending idle_grant_pending idle_same [OF same_grant_pending] by (metis lanes_ok_def)

section \<open>Every event keeps the invariant\<close>

lemma set_phase_frame [simp]:
  "ls_active (set_phase c p s) = ls_active s" "ls_queue (set_phase c p s) = ls_queue s"
  "ls_slots (set_phase c p s) = ls_slots s" "ls_timer (set_phase c p s) = ls_timer s"
  by (simp_all add: set_phase_def)

text \<open>A phase change that neither takes nor frees a slot.\<close>

lemma core_set_phase:
  assumes "lanes_core s" and "context_of s c = Some x"
    and "\<And>l. holds l (x\<lparr>cx_phase := p\<rparr>) = holds l x" and "\<And>l cl. waits l cl (x\<lparr>cx_phase := p\<rparr>) = waits l cl x"
  shows "lanes_core (set_phase c p s)"
proof -
  have x: "x \<in> set (ls_contexts s)" "cx_client x = c" using context_of_mem [OF assms(2)] by auto
  show ?thesis
    by (rule core_update [OF assms(1) x(1), where f = "\<lambda>x. x\<lparr>cx_phase := p\<rparr>"])
       (use assms(3,4) x(2) in \<open>auto simp: set_phase_def\<close>)
qed

lemma idle_ok_set_phase [simp]: "idle_ok (set_phase c p s) l = idle_ok s l"
  by (simp add: idle_ok_def has_waiters_def)

lemma okD: "lanes_ok s \<Longrightarrow> lanes_core s" "lanes_ok s \<Longrightarrow> idle_ok s l"
  unfolding lanes_ok_def by blast+

lemma idle_ok_cong:
  "ls_active s' l = ls_active s l \<Longrightarrow> ls_slots s' l = ls_slots s l \<Longrightarrow> ls_queue s' l = ls_queue s l
     \<Longrightarrow> (l = Gpu \<Longrightarrow> ls_timer s' = ls_timer s) \<Longrightarrow> idle_ok s' l \<longleftrightarrow> idle_ok s l"
  by (cases "l = Gpu") (simp_all add: idle_ok_def has_waiters_def)

lemma ok_from_lane:
  assumes "lanes_core x" and "\<And>l'. l' \<noteq> l \<Longrightarrow> idle_ok x l'"
  shows "lanes_ok (grant_pending night l x)"
  unfolding lanes_ok_def
proof (intro conjI allI)
  show "lanes_core (grant_pending night l x)" using core_grant_pending assms(1) by blast
  show "idle_ok (grant_pending night l x) l'" for l'
    using idle_grant_pending idle_same [OF same_grant_pending, of l' l] assms(2) by (cases "l' = l") auto
qed

text \<open>A context that holds a slot goes, and the slot count goes down with it.\<close>

lemma core_free_slot:
  assumes "lanes_core s" and "context_of s c = Some x" and "holds (cx_lane x) x"
  shows "lanes_core (set_active (cx_lane x) (ls_active s (cx_lane x) - 1) (set_phase c Gone s))"
proof -
  have x: "x \<in> set (ls_contexts s)" "cx_client x = c" using context_of_mem [OF assms(2)] by auto
  have h: "holds l x \<longleftrightarrow> l = cx_lane x" for l using assms(3) by (auto simp: holds_def)
  have nw: "\<not> waits l cl x" for l cl using assms(3) by (auto simp: holds_def waits_def queued_phase_def)
  have "0 < length (filter (holds (cx_lane x)) (ls_contexts s))"
    using x(1) assms(3) by (auto simp: filter_empty_conv)
  then have pos: "0 < ls_active s (cx_lane x)" using coreD(2) [OF assms(1), of "cx_lane x"] by simp
  show ?thesis
    by (rule core_update [OF assms(1) x(1), where f = "\<lambda>x. x\<lparr>cx_phase := Gone\<rparr>"])
       (use h nw pos x(2) in \<open>auto simp: set_phase_def set_active_def holds_def waits_def queued_phase_def\<close>)
qed

lemma core_leave_queue:
  assumes "lanes_core s" and "context_of s c = Some x" and "waits (cx_lane x) (cx_class x) x"
  shows "lanes_core (set_phase c Gone (set_queue (cx_lane x) (cx_class x) (remove1 c (ls_queue s (cx_lane x) (cx_class x))) s))"
proof -
  have x: "x \<in> set (ls_contexts s)" "cx_client x = c" using context_of_mem [OF assms(2)] by auto
  show ?thesis
    by (rule core_update [OF assms(1) x(1), where f = "\<lambda>x. x\<lparr>cx_phase := Gone\<rparr>"])
       (use assms(3) x(2) in \<open>auto simp: set_phase_def set_queue_def holds_def waits_def queued_phase_def\<close>)
qed

lemma ok_release:
  assumes "lanes_ok s" and "context_of s c = Some x" and "holds (cx_lane x) x"
  shows "lanes_ok (release night (cx_lane x) (set_phase c Gone s))"
proof -
  let ?l = "cx_lane x"
  let ?s = "set_active ?l (ls_active s ?l - 1) (set_phase c Gone s)"
  have core: "lanes_core ?s" using core_free_slot [OF _ assms(2,3)] assms(1) by (simp add: lanes_ok_def)
  have r: "release night ?l (set_phase c Gone s) = grant_pending night ?l ?s" by (simp add: release_def)
  have "idle_ok ?s l" if "l \<noteq> ?l" for l
    using okD(2) [OF assms(1), of l] idle_ok_cong [of ?s l s] that by (simp add: set_active_def)
  then show ?thesis
    unfolding r by (rule ok_from_lane [OF core])
qed

lemma holds_flags:
  assumes "lanes_core s" and "context_of s c = Some x" and "cx_phase x = Cancelling" and "c \<notin> set (ls_queue s (cx_lane x) (cx_class x))"
  shows "holds (cx_lane x) x"
proof -
  have x: "x \<in> set (ls_contexts s)" "cx_client x = c" using context_of_mem [OF assms(2)] by auto
  have "\<not> waits (cx_lane x) (cx_class x) x" using queue_mem_waits [OF assms(1) x(1)] assms(4) x(2) by blast
  then show ?thesis using assms(3) by (simp add: waits_def holds_def queued_phase_def)
qed

lemma ok_cancel_handler: "lanes_ok s \<Longrightarrow> lanes_ok (cancel_handler night c s)"
proof (cases "context_of s c")
  case None
  then show "lanes_ok s \<Longrightarrow> ?thesis" by (simp add: cancel_handler_def)
next
  case (Some x)
  assume ok: "lanes_ok s"
  have x: "x \<in> set (ls_contexts s)" "cx_client x = c" using context_of_mem [OF Some] by auto
  let ?l = "cx_lane x" and ?cl = "cx_class x"
  show ?thesis
  proof (cases "cx_phase x = Cancelling")
    case False
    then show ?thesis using ok by (simp add: cancel_handler_def Some)
  next
    case True
    show ?thesis
    proof (cases "c \<in> set (ls_queue s ?l ?cl)")
      case False
      have "holds ?l x" using holds_flags [OF _ Some True False] ok by (simp add: lanes_ok_def)
      then show ?thesis using ok_release [OF ok Some, of night] True False by (simp add: cancel_handler_def Some)
    next
      case queued: True
      then have "waits ?l ?cl x" using queue_mem_waits [of s x ?l ?cl] ok x by (simp add: lanes_ok_def)
      then have "lanes_core (cancel_handler night c s)"
        using core_leave_queue [OF _ Some] ok True queued by (simp add: cancel_handler_def Some lanes_ok_def)
      moreover have "idle_ok (cancel_handler night c s) l" for l
      proof -
        have "idle_ok s l" using okD [OF ok] by blast
        moreover have "ls_active (cancel_handler night c s) = ls_active s" "ls_slots (cancel_handler night c s) = ls_slots s"
          "ls_timer (cancel_handler night c s) = ls_timer s"
          using True queued by (simp_all add: cancel_handler_def Some set_queue_def)
        moreover have "remove1 c q \<noteq> [] \<Longrightarrow> q \<noteq> []" for q by (cases q) auto
        then have "ls_queue (cancel_handler night c s) l cl \<noteq> [] \<Longrightarrow> ls_queue s l cl \<noteq> []" for cl
          using True queued by (auto simp: cancel_handler_def Some set_queue_def split: if_splits)
        then have "has_waiters (cancel_handler night c s) l \<Longrightarrow> has_waiters s l"
          unfolding has_waiters_def by (auto split: if_splits)
        ultimately show ?thesis by (simp add: idle_ok_def)
      qed
      ultimately show ?thesis by (simp add: lanes_ok_def)
    qed
  qed
qed

lemma ok_exit: "lanes_ok s \<Longrightarrow> lanes_ok (exit_slot night c s)"
proof (cases "context_of s c")
  case (Some x)
  assume "lanes_ok s"
  moreover have "cx_phase x = Holding \<Longrightarrow> holds (cx_lane x) x" by (simp add: holds_def)
  ultimately show ?thesis using ok_release [OF _ Some, of night] by (simp add: exit_slot_def Some)
qed (simp add: exit_slot_def)

lemma ok_proceed: "lanes_ok s \<Longrightarrow> lanes_ok (proceed c s)"
proof (cases "context_of s c")
  case None
  then show "lanes_ok s \<Longrightarrow> ?thesis" by (simp add: proceed_def)
next
  case (Some x)
  assume ok: "lanes_ok s"
  then show ?thesis using core_set_phase [OF _ Some]
    by (cases "cx_phase x") (simp_all add: proceed_def Some lanes_ok_def holds_def waits_def queued_phase_def)
qed

text \<open>A cancellation is contained when it arrives where the handler is.\<close>

definition contained :: "lane_event \<Rightarrow> lane_state \<Rightarrow> bool" where
  "contained e s = (case e of
      CancelAt c \<Rightarrow> (case context_of s c of Some x \<Rightarrow> cx_phase x \<notin> {Entering, Announcing, Granted} | None \<Rightarrow> True)
    | _ \<Rightarrow> True)"

lemma ok_cancel_at: "lanes_ok s \<Longrightarrow> contained (CancelAt c) s \<Longrightarrow> lanes_ok (cancel_at c s)"
proof (cases "context_of s c")
  case None
  then show "lanes_ok s \<Longrightarrow> ?thesis" by (simp add: cancel_at_def)
next
  case (Some x)
  assume ok: "lanes_ok s" and c: "contained (CancelAt c) s"
  then show ?thesis using core_set_phase [OF _ Some]
    by (cases "cx_phase x") (simp_all add: cancel_at_def contained_def Some lanes_ok_def holds_def waits_def queued_phase_def)
qed

lemma slot_class_ok: "slot_class l cl = Some cl' \<Longrightarrow> (l = Gpu) \<longleftrightarrow> (cl' \<noteq> MainClass)"
  by (auto simp: slot_class_def split: if_splits)

lemma core_enter:
  assumes core: "lanes_core s" and cl: "(l = Gpu) \<longleftrightarrow> (cl \<noteq> MainClass)"
  shows "lanes_core (enter night l cl task s)"
proof -
  let ?n = "length (ls_contexts s)"
  let ?x = "\<lambda>p. \<lparr>cx_client = ?n, cx_task = task, cx_lane = l, cx_class = cl, cx_phase = p, cx_popped = False\<rparr>"
  have w: "waits l' cl' (?x Entering) = False" "waits l' cl' (?x Announcing) \<longleftrightarrow> l' = l \<and> cl' = cl"
    and h: "holds l' (?x Entering) \<longleftrightarrow> l' = l" "holds l' (?x Announcing) = False" for l' cl'
    by (auto simp: waits_def holds_def queued_phase_def)
  have cases: "(try_immediate night l s = (True, set_active l (ls_active s l + 1) s) \<and> ls_active s l < ls_slots s l)
      \<or> (\<exists>s1. try_immediate night l s = (False, s1) \<and> ls_active s1 = ls_active s \<and> ls_queue s1 = ls_queue s
           \<and> ls_slots s1 = ls_slots s \<and> ls_contexts s1 = ls_contexts s)"
    by (simp add: try_immediate_def schedule_night_retry_def)
  show ?thesis
    using cases
  proof (elim disjE exE conjE)
    assume t: "try_immediate night l s = (True, set_active l (ls_active s l + 1) s)" and r: "ls_active s l < ls_slots s l"
    have e: "enter night l cl task s = (set_active l (ls_active s l + 1) s)\<lparr>ls_contexts := ls_contexts s @ [?x Entering]\<rparr>"
      by (simp add: enter_def t set_active_def Let_def)
    show ?thesis
      using core cl r unfolding e lanes_core_def by (auto simp: set_active_def w h)
  next
    fix s1 assume t: "try_immediate night l s = (False, s1)" and s1: "ls_active s1 = ls_active s" "ls_queue s1 = ls_queue s"
      "ls_slots s1 = ls_slots s" "ls_contexts s1 = ls_contexts s"
    have e: "enter night l cl task s = (set_queue l cl (ls_queue s l cl @ [?n]) s1)\<lparr>ls_contexts := ls_contexts s @ [?x Announcing]\<rparr>"
      by (simp add: enter_def t s1 Let_def)
    show ?thesis
      using core cl s1 unfolding e lanes_core_def by (auto simp: set_queue_def w h)
  qed
qed

lemma idle_enter:
  assumes ok: "lanes_ok s" and cl: "(l = Gpu) \<longleftrightarrow> (cl \<noteq> MainClass)"
  shows "idle_ok (enter night l cl task s) l'"
proof (cases "l' = l")
  case False
  have "idle_ok s l'" using ok by (simp add: lanes_ok_def)
  then show ?thesis using False
    by (cases "l' = Gpu"; cases "l = Gpu")
       (auto simp: enter_def try_immediate_def schedule_night_retry_def set_active_def set_queue_def idle_ok_def has_waiters_def Let_def)
next
  case True
  have "idle_ok s l" using ok by (simp add: lanes_ok_def)
  then show ?thesis using True
    by (cases "l = Gpu")
       (auto simp: enter_def try_immediate_def schedule_night_retry_def set_active_def set_queue_def idle_ok_def has_waiters_def Let_def)
qed

lemma ok_enter: "lanes_ok s \<Longrightarrow> slot_class l cl = Some cl' \<Longrightarrow> lanes_ok (enter night l cl' task s)"
  by (simp add: lanes_ok_def [of "enter night l cl' task s"] core_enter idle_enter slot_class_ok lanes_ok_def [of s, THEN iffD1])

lemma ok_poke: "lanes_ok s \<Longrightarrow> lanes_ok (poke night s)"
  by (simp add: poke_def all_lanes_def ok_grant_pending)

lemma ok_night_retry:
  assumes "lanes_ok s"
  shows "lanes_ok (night_retry night s)"
proof -
  let ?s1 = "s\<lparr>ls_timer := False\<rparr>"
  have core: "lanes_core ?s1" using assms core_cong [of ?s1 s] by (simp add: lanes_ok_def)
  have other: "idle_ok ?s1 l" if "l \<noteq> Gpu" for l
    using okD(2) [OF assms, of l] idle_ok_cong [of ?s1 l s] that by simp
  have g: "lanes_ok (grant_pending night Gpu ?s1)"
    by (rule ok_from_lane [OF core other])
  have sch: "lanes_ok (schedule_night_retry x)" if "lanes_ok x" for x
    unfolding lanes_ok_def
  proof (intro conjI allI)
    show "lanes_core (schedule_night_retry x)" using okD(1) [OF that] by simp
    show "idle_ok (schedule_night_retry x) l" for l
      using okD(2) [OF that, of l] idle_ok_cong [of "schedule_night_retry x" l x]
      by (cases "l = Gpu") (simp_all add: schedule_night_retry_def idle_ok_def)
  qed
  have idle: "idle_ok ?s1 l" if "\<not> has_waiters ?s1 Gpu" for l
    using that other [of l] by (cases "l = Gpu") (simp_all add: idle_ok_def)
  have "lanes_ok ?s1" if "\<not> has_waiters ?s1 Gpu"
    unfolding lanes_ok_def using core idle [OF that] by blast
  then show ?thesis using g sch by (simp add: night_retry_def Let_def)
qed

lemma ok_lane_step: "lanes_ok s \<Longrightarrow> contained e s \<Longrightarrow> lanes_ok (lane_step e s)"
  by (cases e) (auto simp: ok_enter ok_proceed ok_cancel_at ok_cancel_handler ok_exit ok_poke ok_night_retry split: option.split)

lemma ok_init: "lanes_ok (init_lanes cfg)"
  by (auto simp: lanes_ok_def lanes_core_def idle_ok_def has_waiters_def init_lanes_def)

lemma contexts_grow: "length (ls_contexts s) \<le> length (ls_contexts (lane_step e s))"
proof -
  have g: "length (ls_contexts (grant_pending night l x)) = length (ls_contexts x)" for night l x
    using same_grant_pending [of l x night] by (simp add: same_elsewhere_def)
  show ?thesis
    by (cases e)
       (auto simp: enter_def try_immediate_def proceed_def cancel_at_def cancel_handler_def exit_slot_def release_def
         poke_def all_lanes_def night_retry_def g set_phase_def set_active_def set_queue_def schedule_night_retry_def Let_def
         split: option.split phase.split)
qed

interpretation lanes: growing_machine lane_step contained lanes_ok "\<lambda>s. length (ls_contexts s)"
  by unfold_locales (auto intro: ok_lane_step contexts_grow)

section \<open>The burst limit\<close>

text \<open>Rounds of the gpu lane: in each, waiters of either class arrive, then one is granted. The result
  lists the granted clients.\<close>

definition arrive :: "nat list \<times> nat list \<Rightarrow> lane_state \<Rightarrow> lane_state" where
  "arrive ws s = set_queue Gpu LlmClass (ls_queue s Gpu LlmClass @ snd ws)
     (set_queue Gpu AsrClass (ls_queue s Gpu AsrClass @ fst ws) s)"

definition next_grant :: "lane_state \<Rightarrow> nat option" where
  "next_grant s = (case pick_gpu_queue s of None \<Rightarrow> None | Some cl \<Rightarrow> Some (hd (ls_queue s Gpu cl)))"

fun gpu_rounds :: "(nat list \<times> nat list) list \<Rightarrow> lane_state \<Rightarrow> nat list" where
  "gpu_rounds [] s = []"
| "gpu_rounds (ws # rs) s =
     (let s1 = arrive ws s in
      (case grant_one Gpu s1 of None \<Rightarrow> gpu_rounds rs s1
       | Some s2 \<Rightarrow> (case next_grant s1 of None \<Rightarrow> gpu_rounds rs s2 | Some c \<Rightarrow> c # gpu_rounds rs s2)))"

lemma arrive_frame [simp]:
  "ls_queue (arrive ws s) Gpu LlmClass = ls_queue s Gpu LlmClass @ snd ws"
  "ls_queue (arrive ws s) Gpu AsrClass = ls_queue s Gpu AsrClass @ fst ws"
  "ls_streak (arrive ws s) = ls_streak s" "ls_burst (arrive ws s) = ls_burst s"
  by (simp_all add: arrive_def set_queue_def)

text \<open>While an \<open>llm\<close> waiter waits, each grant serves it or uses up one of the remaining \<open>asr\<close> grants.\<close>

lemma grant_with_llm_waiting:
  assumes "ls_queue s Gpu LlmClass = c # q"
  shows "(\<exists>s'. grant_one Gpu s = Some s' \<and> next_grant s = Some c)
   \<or> (\<exists>s' d. grant_one Gpu s = Some s' \<and> next_grant s = Some d \<and> ls_queue s' Gpu LlmClass = c # q
        \<and> ls_streak s < ls_burst s \<and> ls_streak s' = ls_streak s + 1 \<and> ls_burst s' = ls_burst s)"
proof (cases "ls_queue s Gpu AsrClass = [] \<or> ls_burst s \<le> ls_streak s")
  case True
  then have "pick_gpu_queue s = Some LlmClass" using assms by (auto simp: pick_gpu_queue_def Let_def)
  then show ?thesis using assms by (simp add: grant_one_def next_grant_def)
next
  case False
  then obtain d r where a: "ls_queue s Gpu AsrClass = d # r" by (cases "ls_queue s Gpu AsrClass") auto
  then have "pick_gpu_queue s = Some AsrClass" using False by (auto simp: pick_gpu_queue_def Let_def)
  then show ?thesis using assms a False
    by (simp add: grant_one_def next_grant_def count_streak_def pop_waiter_def set_active_def set_queue_def)
qed

lemma gpu_rounds_serve_llm:
  assumes "ls_queue s Gpu LlmClass = c # q" and "ls_burst s - ls_streak s < length rounds"
  shows "c \<in> set (take (ls_burst s - ls_streak s + 1) (gpu_rounds rounds s))"
  using assms
proof (induction rounds arbitrary: s q)
  case Nil
  then show ?case by simp
next
  case (Cons ws rs)
  have q: "ls_queue (arrive ws s) Gpu LlmClass = c # (q @ snd ws)" using Cons.prems(1) by simp
  from grant_with_llm_waiting [OF q] show ?case
  proof (elim disjE exE conjE)
    fix s' assume "grant_one Gpu (arrive ws s) = Some s'" "next_grant (arrive ws s) = Some c"
    then show ?thesis by simp
  next
    fix s' d assume g: "grant_one Gpu (arrive ws s) = Some s'" "next_grant (arrive ws s) = Some d"
      and l: "ls_queue s' Gpu LlmClass = c # (q @ snd ws)" and st: "ls_streak (arrive ws s) < ls_burst (arrive ws s)"
        "ls_streak s' = ls_streak (arrive ws s) + 1" "ls_burst s' = ls_burst (arrive ws s)"
    have n: "ls_burst s - ls_streak s = Suc (ls_burst s' - ls_streak s')" using st by simp
    have "c \<in> set (take (ls_burst s' - ls_streak s' + 1) (gpu_rounds rs s'))"
      using Cons.IH [OF l] Cons.prems(2) n by simp
    then show ?thesis using g n by simp
  qed
qed

section \<open>A leaked slot is lost for good\<close>

definition queues_typed :: "lane_state \<Rightarrow> bool" where
  "queues_typed s \<longleftrightarrow> map cx_client (ls_contexts s) = [0..<length (ls_contexts s)]
     \<and> (\<forall>l cl c. c \<in> set (ls_queue s l cl) \<longrightarrow> (\<exists>x\<in>set (ls_contexts s). cx_client x = c \<and> cx_lane x = l))"

text \<open>The gpu lane is full, and no context holds a slot of it or is about to.\<close>

definition gpu_dead :: "lane_state \<Rightarrow> bool" where
  "gpu_dead s \<longleftrightarrow> queues_typed s \<and> ls_slots s Gpu \<le> ls_active s Gpu
     \<and> (\<forall>x\<in>set (ls_contexts s). cx_lane x = Gpu \<longrightarrow> \<not> holds Gpu x
          \<and> (queued_phase (cx_phase x) \<longrightarrow> cx_client x \<in> set (ls_queue s Gpu (cx_class x))))"

lemma typed_unique:
  "queues_typed s \<Longrightarrow> x \<in> set (ls_contexts s) \<Longrightarrow> y \<in> set (ls_contexts s) \<Longrightarrow> cx_client x = cx_client y \<Longrightarrow> x = y"
proof -
  assume t: "queues_typed s" and xy: "x \<in> set (ls_contexts s)" "y \<in> set (ls_contexts s)" "cx_client x = cx_client y"
  have "distinct (map cx_client (ls_contexts s))" using t by (simp add: queues_typed_def)
  then show "x = y" using xy by (auto simp: distinct_map inj_on_def)
qed

lemma context_of_unique:
  "queues_typed s \<Longrightarrow> context_of s c = Some x \<Longrightarrow> y \<in> set (ls_contexts s) \<Longrightarrow> cx_client y = c \<Longrightarrow> y = x"
  using typed_unique context_of_mem by metis

text \<open>A change of contexts that keeps their numbers and lanes, with no queue growing.\<close>

lemma dead_change:
  assumes dead: "gpu_dead s" and slots: "ls_slots s' Gpu = ls_slots s Gpu" and act: "ls_active s Gpu \<le> ls_active s' Gpu"
    and cx: "ls_contexts s' = map g (ls_contexts s)" and g: "\<And>x. cx_client (g x) = cx_client x \<and> cx_lane (g x) = cx_lane x \<and> cx_class (g x) = cx_class x"
    and q: "\<And>l cl. set (ls_queue s' l cl) \<subseteq> set (ls_queue s l cl)"
    and free: "\<And>x. x \<in> set (ls_contexts s) \<Longrightarrow> cx_lane x = Gpu \<Longrightarrow> \<not> holds Gpu x \<Longrightarrow> \<not> holds Gpu (g x)"
    and stay: "\<And>x. x \<in> set (ls_contexts s) \<Longrightarrow> cx_lane x = Gpu \<Longrightarrow> queued_phase (cx_phase (g x)) \<Longrightarrow>
       queued_phase (cx_phase x) \<and> (cx_client x \<in> set (ls_queue s Gpu (cx_class x)) \<longrightarrow> cx_client x \<in> set (ls_queue s' Gpu (cx_class x)))"
  shows "gpu_dead s'"
proof -
  have "map cx_client (map g xs) = map cx_client xs" for xs using g by simp
  then have "map cx_client (ls_contexts s') = [0..<length (ls_contexts s')]"
    using dead by (simp add: gpu_dead_def queues_typed_def cx del: map_map)
  moreover have "\<exists>x\<in>set (ls_contexts s'). cx_client x = c \<and> cx_lane x = l" if "c \<in> set (ls_queue s' l cl)" for c l cl
  proof -
    have "c \<in> set (ls_queue s l cl)" using that q by blast
    then obtain x where "x \<in> set (ls_contexts s)" "cx_client x = c" "cx_lane x = l"
      using dead unfolding gpu_dead_def queues_typed_def by blast
    then show ?thesis using g by (auto simp: cx)
  qed
  ultimately have "queues_typed s'" by (auto simp: queues_typed_def)
  moreover have "ls_slots s' Gpu \<le> ls_active s' Gpu" using dead slots act by (simp add: gpu_dead_def)
  moreover have "\<not> holds Gpu y \<and> (queued_phase (cx_phase y) \<longrightarrow> cx_client y \<in> set (ls_queue s' Gpu (cx_class y)))"
    if y: "y \<in> set (ls_contexts s')" "cx_lane y = Gpu" for y
  proof -
    obtain x where x: "x \<in> set (ls_contexts s)" "y = g x" using y(1) by (auto simp: cx)
    have lx: "cx_lane x = Gpu" using y(2) x(2) g by simp
    have "\<not> holds Gpu x \<and> (queued_phase (cx_phase x) \<longrightarrow> cx_client x \<in> set (ls_queue s Gpu (cx_class x)))"
      using dead x(1) lx by (auto simp: gpu_dead_def)
    then show ?thesis using free [OF x(1) lx] stay [OF x(1) lx] x(2) g by auto
  qed
  ultimately show ?thesis by (auto simp: gpu_dead_def)
qed

lemma dead_grant_one:
  assumes dead: "gpu_dead s" and l: "l \<noteq> Gpu" and g: "grant_one l s = Some s'"
  shows "gpu_dead s'"
proof -
  obtain c q where q: "ls_queue s l MainClass = c # q"
    using g l by (cases "ls_queue s l MainClass") (auto simp: grant_one_def)
  have s': "s' = pop_waiter l MainClass s" using g l by (auto simp: grant_one_def split: if_splits)
  obtain z where z: "z \<in> set (ls_contexts s)" "cx_client z = c" "cx_lane z = l"
    using dead q unfolding gpu_dead_def queues_typed_def by (metis list.set_intros(1))
  have other: "cx_client x \<noteq> c" if "x \<in> set (ls_contexts s)" "cx_lane x = Gpu" for x
    using that z typed_unique [of s x z] dead l by (auto simp: gpu_dead_def)
  show ?thesis
    by (rule dead_change [OF dead, where g = "\<lambda>x. if cx_client x = c then x\<lparr>cx_popped := True\<rparr> else x"])
       (use q l other in \<open>auto simp: s' pop_waiter_def set_active_def set_queue_def mark_popped_def\<close>)
qed

lemma dead_cong:
  "ls_slots s' = ls_slots s \<Longrightarrow> ls_active s' = ls_active s \<Longrightarrow> ls_queue s' = ls_queue s \<Longrightarrow> ls_contexts s' = ls_contexts s
     \<Longrightarrow> gpu_dead s' \<longleftrightarrow> gpu_dead s"
  by (simp add: gpu_dead_def queues_typed_def)

lemma dead_grant_pending: "gpu_dead s \<Longrightarrow> gpu_dead (grant_pending night l s)"
proof (cases "l = Gpu")
  case True
  then show "gpu_dead s \<Longrightarrow> ?thesis" by (simp add: gpu_dead_def grant_pending_cases(1))
next
  case False
  have "gpu_dead s \<longrightarrow> gpu_dead (grant_pending night l s)"
    by (rule grant_pending_induct) (use False in \<open>auto dest: dead_grant_one\<close>)
  then show "gpu_dead s \<Longrightarrow> ?thesis" by blast
qed

text \<open>Setting the phase of one context.\<close>

lemma dead_set_phase:
  assumes dead: "gpu_dead s" and x: "context_of s c = Some x"
    and p: "cx_lane x = Gpu \<Longrightarrow> \<not> holds Gpu x \<Longrightarrow> \<not> holds Gpu (x\<lparr>cx_phase := p\<rparr>) \<and> (queued_phase p \<longrightarrow> queued_phase (cx_phase x))"
  shows "gpu_dead (set_phase c p s)"
proof -
  have typed: "queues_typed s" using dead by (simp add: gpu_dead_def)
  show ?thesis
  proof (rule dead_change [OF dead, where g = "\<lambda>y. if cx_client y = c then y\<lparr>cx_phase := p\<rparr> else y"])
    fix y assume y: "y \<in> set (ls_contexts s)" "cx_lane y = Gpu"
    have yx: "cx_client y = c \<Longrightarrow> y = x" using context_of_unique [OF typed x y(1)] .
    show "\<not> holds Gpu (if cx_client y = c then y\<lparr>cx_phase := p\<rparr> else y)" if "\<not> holds Gpu y"
      using that p yx y(2) by auto
    have nh: "\<not> holds Gpu y" using dead y by (simp add: gpu_dead_def)
    show "queued_phase (cx_phase y) \<and> (cx_client y \<in> set (ls_queue s Gpu (cx_class y)) \<longrightarrow> cx_client y \<in> set (ls_queue (set_phase c p s) Gpu (cx_class y)))"
      if "queued_phase (cx_phase (if cx_client y = c then y\<lparr>cx_phase := p\<rparr> else y))"
      using that p yx y(2) nh by (cases "cx_client y = c") auto
  qed (simp_all add: set_phase_def)
qed

lemma dead_release:
  assumes dead: "gpu_dead s" and x: "context_of s c = Some x" and l: "cx_lane x \<noteq> Gpu"
  shows "gpu_dead (release night (cx_lane x) (set_phase c Gone s))"
proof -
  have "gpu_dead (set_phase c Gone s)" using dead_set_phase [OF dead x] l by simp
  then have "gpu_dead (set_active (cx_lane x) n (set_phase c Gone s))" for n
    using l by (simp add: gpu_dead_def queues_typed_def set_active_def)
  then show ?thesis by (simp add: release_def dead_grant_pending)
qed

lemma dead_context:
  assumes "gpu_dead s" and "context_of s c = Some x" and "cx_lane x = Gpu"
  shows "\<not> holds Gpu x" and "queued_phase (cx_phase x) \<Longrightarrow> c \<in> set (ls_queue s Gpu (cx_class x))"
  using assms context_of_mem [OF assms(2)] by (auto simp: gpu_dead_def)

lemma dead_cancel_handler:
  assumes dead: "gpu_dead s"
  shows "gpu_dead (cancel_handler night c s)"
proof (cases "context_of s c")
  case None
  then show ?thesis using dead by (simp add: cancel_handler_def)
next
  case (Some x)
  have x: "x \<in> set (ls_contexts s)" "cx_client x = c" using context_of_mem [OF Some] by auto
  have typed: "queues_typed s" using dead by (simp add: gpu_dead_def)
  let ?q = "ls_queue s (cx_lane x) (cx_class x)"
  show ?thesis
  proof (cases "cx_phase x = Cancelling")
    case False
    then show ?thesis using dead by (simp add: cancel_handler_def Some)
  next
    case canc: True
    show ?thesis
    proof (cases "c \<in> set ?q")
      case False
      then have "cx_lane x \<noteq> Gpu" using dead_context(2) [OF dead Some] canc by (auto simp: queued_phase_def)
      then show ?thesis using dead_release [OF dead Some] canc False by (simp add: cancel_handler_def Some)
    next
      case True
      let ?s = "set_queue (cx_lane x) (cx_class x) (remove1 c ?q) s"
      have s': "cancel_handler night c s = set_phase c Gone ?s"
        using canc True by (simp add: cancel_handler_def Some)
      show ?thesis unfolding s'
      proof (rule dead_change [OF dead, where g = "\<lambda>y. if cx_client y = c then y\<lparr>cx_phase := Gone\<rparr> else y"])
        show "set (ls_queue (set_phase c Gone ?s) l cl) \<subseteq> set (ls_queue s l cl)" for l cl
          using set_remove1_subset [of c ?q] by (auto simp: set_queue_def dest: notin_set_remove1)
        fix y assume y: "y \<in> set (ls_contexts s)" "cx_lane y = Gpu"
        show "\<not> holds Gpu (if cx_client y = c then y\<lparr>cx_phase := Gone\<rparr> else y)" if "\<not> holds Gpu y"
          using that by (auto simp: holds_def queued_phase_def)
        show "queued_phase (cx_phase y) \<and> (cx_client y \<in> set (ls_queue s Gpu (cx_class y)) \<longrightarrow> cx_client y \<in> set (ls_queue (set_phase c Gone ?s) Gpu (cx_class y)))"
          if "queued_phase (cx_phase (if cx_client y = c then y\<lparr>cx_phase := Gone\<rparr> else y))"
          using that by (auto simp: queued_phase_def set_queue_def split: if_splits)
      qed (simp_all add: set_phase_def set_queue_def)
    qed
  qed
qed

lemma dead_exit:
  assumes dead: "gpu_dead s"
  shows "gpu_dead (exit_slot night c s)"
proof (cases "context_of s c")
  case None
  then show ?thesis using dead by (simp add: exit_slot_def)
next
  case (Some x)
  show ?thesis
  proof (cases "cx_phase x = Holding")
    case True
    then have "cx_lane x \<noteq> Gpu" using dead_context(1) [OF dead Some] by (auto simp: holds_def)
    then show ?thesis using dead_release [OF dead Some] True by (simp add: exit_slot_def Some)
  qed (simp add: exit_slot_def Some dead)
qed

lemma dead_proceed: "gpu_dead s \<Longrightarrow> gpu_dead (proceed c s)"
proof (cases "context_of s c")
  case None
  then show "gpu_dead s \<Longrightarrow> ?thesis" by (simp add: proceed_def)
next
  case (Some x)
  assume dead: "gpu_dead s"
  show ?thesis using dead dead_set_phase [OF dead Some, of Granted] dead_set_phase [OF dead Some]
    by (cases "cx_phase x"; cases "cx_popped x") (simp_all add: proceed_def Some holds_def queued_phase_def)
qed

lemma dead_cancel_at: "gpu_dead s \<Longrightarrow> gpu_dead (cancel_at c s)"
proof (cases "context_of s c")
  case None
  then show "gpu_dead s \<Longrightarrow> ?thesis" by (simp add: cancel_at_def)
next
  case (Some x)
  assume dead: "gpu_dead s"
  show ?thesis using dead dead_set_phase [OF dead Some]
    by (cases "cx_phase x") (simp_all add: cancel_at_def Some holds_def queued_phase_def)
qed

lemma dead_enter:
  assumes dead: "gpu_dead s"
  shows "gpu_dead (enter night l cl task s)"
proof -
  let ?n = "length (ls_contexts s)"
  let ?x = "\<lambda>p. \<lparr>cx_client = ?n, cx_task = task, cx_lane = l, cx_class = cl, cx_phase = p, cx_popped = False\<rparr>"
  have full: "ls_slots s Gpu \<le> ls_active s Gpu" using dead by (simp add: gpu_dead_def)
  show ?thesis
  proof (cases "fst (try_immediate night l s)")
    case True
    then have l: "l \<noteq> Gpu" using full by (auto simp: try_immediate_def)
    then have e: "enter night l cl task s = (set_active l (ls_active s l + 1) s)\<lparr>ls_contexts := ls_contexts s @ [?x Entering]\<rparr>"
      using True by (auto simp: enter_def try_immediate_def set_active_def Let_def split: if_splits)
    show ?thesis using dead l unfolding e gpu_dead_def queues_typed_def by (auto simp: set_active_def)
  next
    case False
    then obtain s1 where t: "try_immediate night l s = (False, s1)" by (cases "try_immediate night l s") auto
    have s1: "ls_active s1 = ls_active s" "ls_queue s1 = ls_queue s" "ls_slots s1 = ls_slots s" "ls_contexts s1 = ls_contexts s"
      using t by (auto simp: try_immediate_def schedule_night_retry_def split: if_splits)
    have e: "enter night l cl task s = (set_queue l cl (ls_queue s l cl @ [?n]) s1)\<lparr>ls_contexts := ls_contexts s @ [?x Announcing]\<rparr>"
      by (simp add: enter_def t s1 Let_def)
    have "queues_typed (enter night l cl task s)"
      using dead s1 unfolding e gpu_dead_def queues_typed_def by (auto simp: set_queue_def split: if_splits)
    then show ?thesis
      using dead s1 unfolding gpu_dead_def e by (auto simp: set_queue_def holds_def queued_phase_def split: if_splits)
  qed
qed

lemma dead_step: "gpu_dead s \<Longrightarrow> gpu_dead (lane_step e s)"
proof (cases e)
  case (NightRetry night)
  assume dead: "gpu_dead s"
  have "gpu_dead (s\<lparr>ls_timer := False\<rparr>)" using dead dead_cong [of "s\<lparr>ls_timer := False\<rparr>" s] by simp
  moreover have "gpu_dead x \<Longrightarrow> gpu_dead (schedule_night_retry x)" for x
    using dead_cong [of "schedule_night_retry x" x] by (simp add: schedule_night_retry_def)
  ultimately show ?thesis using dead by (simp add: NightRetry night_retry_def dead_grant_pending Let_def)
qed (auto simp: dead_enter dead_proceed dead_cancel_at dead_cancel_handler dead_exit poke_def all_lanes_def
       dead_grant_pending split: option.split)

interpretation dead_gpu: machine lane_step "\<lambda>e s. True" gpu_dead
  by unfold_locales (rule dead_step)

text \<open>A request for a lane that others wait for joins its queue.\<close>

lemma waiters_first:
  "has_waiters s l \<Longrightarrow> ls_queue (enter night l cl task s) l cl = ls_queue s l cl @ [length (ls_contexts s)]"
  by (auto simp: enter_def try_immediate_def set_queue_def Let_def)

section \<open>Inside the window\<close>

text \<open>A lane with a free slot that nobody gets although somebody waits.\<close>

definition stalled :: "lane_state \<Rightarrow> lane \<Rightarrow> bool" where
  "stalled s l \<longleftrightarrow> ls_active s l < ls_slots s l \<and> has_waiters s l"

lemma idle_ok_stalled: "idle_ok s l \<longleftrightarrow> (stalled s l \<longrightarrow> l = Gpu \<and> ls_timer s)"
  by (simp add: idle_ok_def stalled_def)

text \<open>The event reads the clock and finds the window shut.\<close>

fun window_shut :: "lane_event \<Rightarrow> bool" where
  "window_shut (Enter night l cl task) = (\<not> night)"
| "window_shut (CancelHandler night c) = (\<not> night)"
| "window_shut (ExitSlot night c) = (\<not> night)"
| "window_shut (Poke night) = (\<not> night)"
| "window_shut (NightRetry night) = (\<not> night)"
| "window_shut _ = False"

lemma grant_inside_window: "\<not> stalled (grant_pending True l s) l"
proof (induction "ls_slots s l - ls_active s l" arbitrary: s rule: less_induct)
  case less
  show ?case
  proof (cases "grant_one l s")
    case None
    then have "grant_pending True l s = s" by (cases "ls_slots s l \<le> ls_active s l") (simp_all add: grant_pending_cases)
    then show ?thesis using grant_one_None [OF None] by (simp add: stalled_def)
  next
    case (Some s')
    show ?thesis
    proof (cases "ls_slots s l \<le> ls_active s l")
      case True
      then show ?thesis by (simp add: grant_pending_cases stalled_def)
    next
      case False
      then show ?thesis using less [of s'] grant_one_active [OF Some] Some by (simp add: grant_pending_cases)
    qed
  qed
qed

lemma release_inside_window: "\<not> stalled (release True l s) l"
  by (simp add: release_def grant_inside_window)

lemma stalled_elsewhere: "l' \<noteq> l \<Longrightarrow> stalled (grant_pending night l s) l' = stalled s l'"
  using same_grant_pending [of l s night] unfolding same_elsewhere_def stalled_def has_waiters_def
  by (cases "l' = Gpu") simp_all

lemma poke_inside_window: "\<not> stalled (poke True s) l"
  using grant_inside_window [of l] by (cases l) (simp_all add: poke_def all_lanes_def stalled_elsewhere)

lemma stalled_timer [simp]: "stalled (s\<lparr>ls_timer := b\<rparr>) l = stalled s l" "stalled (schedule_night_retry s) l = stalled s l"
  by (simp_all add: stalled_def has_waiters_def schedule_night_retry_def)

lemma retry_inside_window:
  assumes "lanes_ok s"
  shows "\<not> stalled (lane_step (NightRetry True) s) l"
proof (cases "l = Gpu")
  case False
  then have "\<not> stalled s l" using okD(2) [OF assms, of l] by (simp add: idle_ok_stalled)
  then show ?thesis using False by (simp add: night_retry_def Let_def stalled_elsewhere)
next
  case True
  have "\<not> ls_timer s \<Longrightarrow> \<not> stalled s Gpu" using okD(2) [OF assms, of Gpu] by (simp add: idle_ok_stalled)
  moreover have "\<not> has_waiters (s\<lparr>ls_timer := False\<rparr>) Gpu \<Longrightarrow> \<not> stalled s Gpu" by (simp add: stalled_def has_waiters_def)
  ultimately show ?thesis
    using True grant_inside_window by (simp add: night_retry_def Let_def)
qed

text \<open>As long as nobody finds the window shut the timer is not armed.\<close>

lemma timer_grant_one: "grant_one l s = Some s' \<Longrightarrow> ls_timer s' = ls_timer s"
  by (auto simp: grant_one_def pop_waiter_def count_streak_def set_active_def set_queue_def
      split: if_splits option.splits list.splits)

lemma timer_grant_pending: "ls_timer (grant_pending True l s) = ls_timer s"
proof (induction "ls_slots s l - ls_active s l" arbitrary: s rule: less_induct)
  case less
  show ?case
  proof (cases "grant_one l s")
    case None
    then show ?thesis by (cases "ls_slots s l \<le> ls_active s l") (simp_all add: grant_pending_cases)
  next
    case (Some s')
    then show ?thesis
      using less [of s'] grant_one_active [OF Some] timer_grant_one [OF Some]
      by (cases "ls_slots s l \<le> ls_active s l") (simp_all add: grant_pending_cases)
  qed
qed

lemma timer_open_step: "\<not> ls_timer s \<Longrightarrow> \<not> window_shut e \<Longrightarrow> \<not> ls_timer (lane_step e s)"
proof -
  assume t: "\<not> ls_timer s" and o: "\<not> window_shut e"
  have rel: "\<not> ls_timer (release True l (set_phase c p s))" for l c p
    using t by (simp add: release_def timer_grant_pending set_active_def)
  show ?thesis
    using t o rel
    by (cases e) (auto simp: enter_def try_immediate_def proceed_def cancel_at_def cancel_handler_def exit_slot_def
        poke_def all_lanes_def timer_grant_pending set_queue_def set_active_def Let_def split: option.splits phase.splits)
qed

interpretation open_window: machine lane_step "\<lambda>e s. \<not> window_shut e" "\<lambda>s. \<not> ls_timer s"
  by unfold_locales (rule timer_open_step)

lemma open_enabled: "open_window.all_enabled es s \<longleftrightarrow> (\<forall>e\<in>set es. \<not> window_shut e)"
  by (induction es arbitrary: s) simp_all

lemma timer_needs_shut: "ls_timer (run lane_step es (init_lanes cfg)) \<Longrightarrow> \<exists>e\<in>set es. window_shut e"
  using open_window.run_inv [of "init_lanes cfg" es] by (auto simp: open_enabled init_lanes_def)

section \<open>Properties\<close>

fun all_contained :: "lane_event list \<Rightarrow> lane_state \<Rightarrow> bool" where
  "all_contained [] s = True"
| "all_contained (e # es) s = (contained e s \<and> all_contained es (lane_step e s))"

lemma all_contained_enabled: "all_contained es s \<longleftrightarrow> lanes.all_enabled es s"
  by (induction es arbitrary: s) simp_all

definition one_gpu :: lane_settings where
  "one_gpu = \<lparr>cfg_network = 1, cfg_ffmpeg = 1, cfg_gpu = 1, cfg_diarize = 0, cfg_burst = 2, cfg_cores = 16\<rparr>"

text \<open>(C1) Whatever the order of requests, releases, night windows and cancellations of waiting
  tasks, the slots counted as used are exactly those some task holds, never more than the lane has;
  the queue of a lane holds exactly its waiting tasks in the order they came. A lane with a free slot
  and waiters is the gpu, some event before found the night window shut, and the retry timer is
  armed; from such a state, and from any other, a slot given back, a poke or the timer's retry inside
  the window grants until the lane is full or nobody waits. A task that asks for a lane others wait
  for queues behind them, whatever the hour. The cancellations are those that arrive while a task
  holds its slot or awaits its grant; the theorem on cancelled announcements shows what the others do.\<close>

theorem lanes_bounded_fair_and_busy:
  assumes "all_contained es (init_lanes cfg)" and "s = run lane_step es (init_lanes cfg)"
  shows "ls_active s l = length (filter (holds l) (ls_contexts s)) \<and> ls_active s l \<le> ls_slots s l
     \<and> ls_queue s l cl = map cx_client (filter (waits l cl) (ls_contexts s))
     \<and> (stalled s l \<longrightarrow> l = Gpu \<and> ls_timer s \<and> (\<exists>e\<in>set es. window_shut e))
     \<and> \<not> stalled (release True l s) l \<and> \<not> stalled (poke True s) l \<and> \<not> stalled (lane_step (NightRetry True) s) l
     \<and> (has_waiters s l \<longrightarrow> ls_queue (enter night l cl task s) l cl = ls_queue s l cl @ [length (ls_contexts s)])"
proof -
  have ok: "lanes_ok s"
    using lanes.run_inv [OF ok_init] assms by (simp add: all_contained_enabled)
  have idle: "stalled s l \<Longrightarrow> l = Gpu \<and> ls_timer s"
    using okD(2) [OF ok, of l] by (simp add: idle_ok_stalled)
  have shut: "ls_timer s \<Longrightarrow> \<exists>e\<in>set es. window_shut e"
    using timer_needs_shut [of es cfg] assms(2) by blast
  have retry: "\<not> stalled (lane_step (NightRetry True) s) l"
    using retry_inside_window [OF ok] .
  show ?thesis
    using coreD(2-4) [OF okD(1) [OF ok]] idle shut retry poke_inside_window [of s l] release_inside_window [of l s]
      waiters_first [of s l night cl task]
    by (intro conjI impI) simp_all
qed

definition busy_run :: "lane_event list" where
  "busy_run = [Enter True Gpu AsrClass 7, Proceed 0, Enter True Gpu LlmClass 8, Proceed 1, CancelAt 1, ExitSlot True 0,
     CancelHandler True 1]"

lemmas lane_eval = init_lanes_def one_gpu_def init_slots_def slot_class_def enter_def try_immediate_def has_waiters_def
  set_active_def set_queue_def proceed_def context_of_def set_phase_def cancel_at_def cancel_handler_def exit_slot_def
  release_def grant_pending.simps grant_one_def pick_gpu_queue_def pop_waiter_def mark_popped_def count_streak_def

theorem lanes_bounded_fair_and_busy_witness:
  "all_contained busy_run (init_lanes one_gpu)
   \<and> ls_active (run lane_step busy_run (init_lanes one_gpu)) Gpu = 0
   \<and> ls_active (run lane_step busy_run (init_lanes one_gpu)) Gpu \<le> ls_slots (run lane_step busy_run (init_lanes one_gpu)) Gpu"
proof -
  have c: "all_contained busy_run (init_lanes one_gpu)"
    by (simp add: busy_run_def contained_def lane_eval)
  have "ls_active (run lane_step busy_run (init_lanes one_gpu)) Gpu = 0"
    by (simp add: busy_run_def lane_eval)
  then show ?thesis using lanes_bounded_fair_and_busy [OF c refl, of Gpu] c by blast
qed

text \<open>(C36) The gpu cannot starve the summary: an \<open>llm\<close> waiter at the head of its queue is granted
  within the burst limit, counted from the current streak, plus one grant, however many \<open>asr\<close> and
  \<open>llm\<close> requests arrive before each grant.\<close>

theorem llm_granted_within_burst:
  assumes "ls_queue s Gpu LlmClass = c # q" and "ls_burst s - ls_streak s < length rounds"
  shows "c \<in> set (take (ls_burst s - ls_streak s + 1) (gpu_rounds rounds s))"
  using assms by (rule gpu_rounds_serve_llm)

theorem llm_granted_within_burst_witness:
  "\<exists>s. ls_queue s Gpu LlmClass = [0] \<and> (0::nat) \<in> set (take 3 (gpu_rounds [([1], []), ([2], []), ([3], [])] s))"
proof -
  let ?s = "set_queue Gpu LlmClass [0] (init_lanes one_gpu)"
  have q: "ls_queue ?s Gpu LlmClass = 0 # []" by (simp add: set_queue_def)
  have n: "ls_burst ?s - ls_streak ?s = 2" by (simp add: set_queue_def init_lanes_def one_gpu_def)
  have "(0::nat) \<in> set (take 3 (gpu_rounds [([1], []), ([2], []), ([3], [])] ?s))"
    using llm_granted_within_burst [OF q, of "[([1], []), ([2], []), ([3], [])]"] unfolding n by simp
  then show ?thesis using q by blast
qed

text \<open>A cancellation that arrives while a queued task awaits \<open>on_wait\<close>: its waiter stays in the queue,
  the slot the other task frees goes to it, and nobody will ever release it.\<close>

definition leak_run :: "lane_event list" where
  "leak_run = [Enter True Gpu AsrClass 7, Proceed 0, Enter True Gpu LlmClass 8, CancelAt 1, ExitSlot True 0]"

lemma leak_is_dead: "gpu_dead (run lane_step leak_run (init_lanes one_gpu))"
  by (simp add: leak_run_def lane_eval gpu_dead_def queues_typed_def holds_def queued_phase_def)

text \<open>(C22) With one gpu slot, a cancellation that arrives between joining the queue and waiting for
  the grant loses the slot for good: no later sequence of events, of any length, ever lets a task
  hold the gpu again.\<close>

theorem cancelled_announcement_leaks_gpu:
  "\<forall>x\<in>set (ls_contexts (run lane_step es (run lane_step leak_run (init_lanes one_gpu)))).
     cx_lane x = Gpu \<longrightarrow> cx_phase x \<noteq> Holding"
proof -
  have "gpu_dead (run lane_step es (run lane_step leak_run (init_lanes one_gpu)))"
    by (rule dead_gpu.run_inv_always [OF leak_is_dead]) simp
  then show ?thesis by (auto simp: gpu_dead_def holds_def)
qed

theorem cancelled_announcement_leaks_gpu_witness:
  "length (ls_contexts (run lane_step [Enter True Gpu AsrClass 9, Proceed 2, Poke True] (run lane_step leak_run (init_lanes one_gpu)))) = 3
   \<and> cx_lane (ls_contexts (run lane_step [Enter True Gpu AsrClass 9, Proceed 2, Poke True] (run lane_step leak_run (init_lanes one_gpu))) ! 2) = Gpu
   \<and> cx_phase (ls_contexts (run lane_step [Enter True Gpu AsrClass 9, Proceed 2, Poke True] (run lane_step leak_run (init_lanes one_gpu))) ! 2) \<noteq> Holding"
proof -
  let ?cxs = "ls_contexts (run lane_step [Enter True Gpu AsrClass 9, Proceed 2, Poke True] (run lane_step leak_run (init_lanes one_gpu)))"
  have c: "length ?cxs = 3" "cx_lane (?cxs ! 2) = Gpu"
    by (simp_all add: leak_run_def lane_eval poke_def all_lanes_def)
  then have "?cxs ! 2 \<in> set ?cxs" by (intro nth_mem) simp
  then show ?thesis
    using cancelled_announcement_leaks_gpu [of "[Enter True Gpu AsrClass 9, Proceed 2, Poke True]"] c by blast
qed

end
