(* ===== verification/Task_Control.thy ===== *)
theory Task_Control
  imports Task_Store
begin

text \<open>
  What a user can do to a task: the pause, resume, delete, archive and restart endpoints of
  \<open>vts/api/routers/tasks.py\<close>, the predicates of \<open>vts/api/_helpers/serialization.py\<close>, the step resets of
  \<open>vts/api/_helpers/artifact_store.py\<close>, \<open>vts/services/summary_restart.py\<close>, and the request flags of
  \<open>RedisBus\<close> (\<open>vts/services/redis_bus.py\<close>) through which they reach the worker.

  A flag of a task is a truth value per kind and task; a flag that expires is cleared by the
  environment. The files an endpoint deletes are not modelled here.
\<close>

section \<open>Request flags\<close>

record bus =
  b_cancel :: "uuid \<Rightarrow> bool"
  b_pause :: "uuid \<Rightarrow> bool"
  b_restart :: "uuid \<Rightarrow> bool"

definition empty_bus :: bus where
  "empty_bus = \<lparr>b_cancel = (\<lambda>_. False), b_pause = (\<lambda>_. False), b_restart = (\<lambda>_. False)\<rparr>"

definition request_cancel :: "uuid \<Rightarrow> bus \<Rightarrow> bus" where
  "request_cancel i b = b\<lparr>b_cancel := (b_cancel b)(i := True)\<rparr>"
definition clear_cancel_request :: "uuid \<Rightarrow> bus \<Rightarrow> bus" where
  "clear_cancel_request i b = b\<lparr>b_cancel := (b_cancel b)(i := False)\<rparr>"
definition request_pause :: "uuid \<Rightarrow> bus \<Rightarrow> bus" where
  "request_pause i b = b\<lparr>b_pause := (b_pause b)(i := True)\<rparr>"
definition clear_pause_request :: "uuid \<Rightarrow> bus \<Rightarrow> bus" where
  "clear_pause_request i b = b\<lparr>b_pause := (b_pause b)(i := False)\<rparr>"
definition request_restart :: "uuid \<Rightarrow> bus \<Rightarrow> bus" where
  "request_restart i b = b\<lparr>b_restart := (b_restart b)(i := True)\<rparr>"
definition clear_restart_request :: "uuid \<Rightarrow> bus \<Rightarrow> bus" where
  "clear_restart_request i b = b\<lparr>b_restart := (b_restart b)(i := False)\<rparr>"

lemmas bus_defs = request_cancel_def clear_cancel_request_def request_pause_def clear_pause_request_def
  request_restart_def clear_restart_request_def

section \<open>Predicates\<close>

definition summary_step_names :: "ustr list" where
  "summary_step_names = map lit [''prepare_llama_model'', ''prepare_summary_chunks'', ''summarize_windows'',
     ''pack_window_notes'', ''summarize_final'']"

definition find_step_status :: "task_row \<Rightarrow> ustr \<Rightarrow> step_status option" where
  "find_step_status t name = map_option st_status (find_step name (t_steps t))"

definition can_restart_summary_task :: "(json \<Rightarrow> ustr) \<Rightarrow> task_row \<Rightarrow> bool" where
  "can_restart_summary_task rp t =
     (if selected_prompt_refs rp (JDict (as_dict (t_options t))) = [] then False
      else if t_status t = Completed then True
      else if t_status t \<in> set [Running, Waiting, Paused] then True
      else if t_status t \<noteq> Failed then False
      else list_ex (\<lambda>s. st_name s \<in> set summary_step_names \<and> st_status s = SFailed) (t_steps t))"

definition can_restart_final_summary_task :: "(json \<Rightarrow> ustr) \<Rightarrow> task_row \<Rightarrow> bool" where
  "can_restart_final_summary_task rp t =
     (if selected_prompt_refs rp (JDict (as_dict (t_options t))) = [] then False
      else if find_step_status t (lit ''summarize_windows'') \<noteq> Some SCompleted then False
      else if t_status t = Completed then True
      else if t_status t \<noteq> Failed then False
      else find_step_status t (lit ''summarize_final'') = Some SFailed)"

text \<open>Whether the file of speaker matches exists is an input.\<close>

definition can_resolve_speakers_task :: "bool \<Rightarrow> task_row \<Rightarrow> bool" where
  "can_resolve_speakers_task matches_exist t =
     (if t_status t \<in> set [Archived, Canceled] then False else matches_exist)"

section \<open>Step resets\<close>

definition reset_step :: "step_row \<Rightarrow> step_row" where
  "reset_step s = s\<lparr>st_status := SPending, st_attempt := 0, st_started := None, st_finished := None, st_message := None\<rparr>"

definition reset_summary_steps :: "step_row list \<Rightarrow> step_row list" where
  "reset_summary_steps steps = map (\<lambda>s. if st_name s \<notin> set summary_step_names \<and> \<not> starts_with (lit ''finalize:'') (st_name s)
     then s else reset_step s) steps"

definition reset_final_summary_step :: "step_row list \<Rightarrow> step_row list" where
  "reset_final_summary_step steps = map (\<lambda>s. if st_name s \<noteq> lit ''summarize_final'' then s else reset_step s) steps"

definition rebuild_finalize_tail :: "(json \<Rightarrow> ustr) \<Rightarrow> json \<Rightarrow> step_row list \<Rightarrow> step_row list" where
  "rebuild_finalize_tail rp new_options steps =
     (let target_tail = filter (\<lambda>n. n \<notin> set dag_head) (build_dag_steps rp new_options);
          current_final = filter is_finalize (map st_name steps);
          to_delete = filter (\<lambda>n. n \<notin> set target_tail) current_final;
          kept = filter (\<lambda>s. st_name s \<notin> set to_delete) steps
      in foldl (\<lambda>ss n. map (\<lambda>s. if st_name s = n then reset_step s else s) (upsert_step_row n ss)) kept target_tail)"

section \<open>Restart for a fresh summary\<close>

definition worker_held :: "task_status \<Rightarrow> bool" where
  "worker_held s \<longleftrightarrow> s \<in> set [Running, Waiting]"

text \<open>The row after \<open>reset_task_for_summary_restart\<close>; \<open>None\<close> when its stored results are malformed.\<close>

definition reset_row :: "instant \<Rightarrow> task_row \<Rightarrow> task_row option" where
  "reset_row now t = map_option (\<lambda>opts. t\<lparr>t_steps := reset_summary_steps (t_steps t), t_options := opts,
      t_summary := None, t_progress := Some (0, 0), t_status := Queued, t_error := None, t_awaiting := None,
      t_updated := now\<rparr>) (downgrade_all_result_entries (t_options t))"

definition reset_task_for_summary_restart :: "instant \<Rightarrow> uuid \<Rightarrow> task_db \<Rightarrow> task_db option" where
  "reset_task_for_summary_restart now i db = (case find_task db i of None \<Rightarrow> None | Some t \<Rightarrow>
     (case reset_row now t of None \<Rightarrow> None | Some t' \<Rightarrow> Some (update_task i (\<lambda>_. t') db)))"

section \<open>Endpoints\<close>

datatype outcome = NotFound | Refused task_status | Done task_status | Restarting | ServerError

type_synonym world = "task_db \<times> bus"

definition pause_one :: "instant \<Rightarrow> uuid \<Rightarrow> uuid \<Rightarrow> world \<Rightarrow> world \<times> outcome" where
  "pause_one now user i w = (case w of (db, b) \<Rightarrow>
     (case get_task_for_user user i db of None \<Rightarrow> (w, NotFound)
      | Some t \<Rightarrow> if \<not> can_pause (t_status t) then (w, Refused (t_status t))
                  else ((set_task_status now i Paused None db, request_pause i b), Done Paused)))"

definition resume_one :: "instant \<Rightarrow> uuid \<Rightarrow> uuid \<Rightarrow> world \<Rightarrow> world \<times> outcome" where
  "resume_one now user i w = (case w of (db, b) \<Rightarrow>
     (case get_task_for_user user i db of None \<Rightarrow> (w, NotFound)
      | Some t \<Rightarrow> if \<not> can_resume (t_status t) then (w, Refused (t_status t))
                  else ((set_task_status now i Queued None db,
                         clear_restart_request i (clear_cancel_request i (clear_pause_request i b))), Done Queued)))"

definition archive_one :: "instant \<Rightarrow> uuid \<Rightarrow> uuid \<Rightarrow> world \<Rightarrow> world \<times> outcome" where
  "archive_one now user i w = (case w of (db, b) \<Rightarrow>
     (case get_task_for_user user i db of None \<Rightarrow> (w, NotFound)
      | Some t \<Rightarrow> if \<not> can_archive (t_status t) then (w, Refused (t_status t))
                  else ((set_task_status now i Archived None db, b), Done Archived)))"

text \<open>Deleting a task removes its row and, by the foreign keys, its segments.\<close>

definition delete_one :: "uuid \<Rightarrow> uuid \<Rightarrow> world \<Rightarrow> world \<times> outcome" where
  "delete_one user i w = (case w of (db, b) \<Rightarrow>
     (case get_task_for_user user i db of None \<Rightarrow> (w, NotFound)
      | Some t \<Rightarrow> ((\<lparr>db_tasks = filter (\<lambda>t. t_id t \<noteq> i) (db_tasks db), db_asr = filter (\<lambda>r. ar_task r \<noteq> i) (db_asr db)\<rparr>,
                    request_cancel i b), Done Canceled)))"

text \<open>A request names several tasks; the rows of one session are shared, so a later entry sees what an
  earlier one did.\<close>

fun batch :: "(uuid \<Rightarrow> world \<Rightarrow> world \<times> outcome) \<Rightarrow> uuid list \<Rightarrow> world \<Rightarrow> world \<times> (uuid \<times> outcome) list" where
  "batch f [] w = (w, [])"
| "batch f (i # is) w = (case f i w of (w', r) \<Rightarrow> (case batch f is w' of (w'', rs) \<Rightarrow> (w'', (i, r) # rs)))"

definition pause_tasks :: "instant \<Rightarrow> uuid \<Rightarrow> uuid list \<Rightarrow> world \<Rightarrow> world \<times> (uuid \<times> outcome) list" where
  "pause_tasks now user ids w = batch (pause_one now user) ids w"

definition resume_tasks :: "instant \<Rightarrow> uuid \<Rightarrow> uuid list \<Rightarrow> world \<Rightarrow> world \<times> (uuid \<times> outcome) list" where
  "resume_tasks now user ids w = batch (resume_one now user) ids w"

definition archive_tasks :: "instant \<Rightarrow> uuid \<Rightarrow> uuid list \<Rightarrow> world \<Rightarrow> world \<times> (uuid \<times> outcome) list" where
  "archive_tasks now user ids w = batch (archive_one now user) ids w"

text \<open>Deleting looks every task up before it removes any.\<close>

definition delete_tasks :: "uuid \<Rightarrow> uuid list \<Rightarrow> world \<Rightarrow> world \<times> (uuid \<times> outcome) list" where
  "delete_tasks user ids w =
     (foldl (\<lambda>w i. fst (delete_one user i w)) w ids, map (\<lambda>i. (i, snd (delete_one user i w))) ids)"

datatype restart_mode = FullRestart | FinalOnly "prompt_ref list option"

text \<open>The row a \<open>final_only\<close> restart leaves.\<close>

definition final_restart_row :: "(json \<Rightarrow> ustr) \<Rightarrow> instant \<Rightarrow> prompt_ref list option \<Rightarrow> task_row \<Rightarrow> task_row option" where
  "final_restart_row rp now prompts t =
     map_option (\<lambda>(opts, steps). t\<lparr>t_options := opts, t_steps := steps, t_summary := None, t_progress := Some (0, 0),
         t_status := Queued, t_error := None, t_awaiting := None, t_updated := now\<rparr>)
       (case prompts of
          Some refs \<Rightarrow>
            (let cleared = dict_set (as_dict (t_options t)) (lit ''prompt_results'') (JList []);
                 new_options = dict_set cleared (lit ''prompts'') (JList (map ref_to_dict refs))
             in Some (JDict new_options, rebuild_finalize_tail rp (JDict new_options) (t_steps t)))
        | None \<Rightarrow> map_option (\<lambda>opts. (opts, reset_final_summary_step (t_steps t)))
                    (downgrade_system_summary_entry rp (t_options t)))"

definition restart_summary_task ::
  "(json \<Rightarrow> ustr) \<Rightarrow> instant \<Rightarrow> uuid \<Rightarrow> uuid \<Rightarrow> restart_mode \<Rightarrow> world \<Rightarrow> world \<times> outcome" where
  "restart_summary_task rp now user i mode w = (case w of (db, b) \<Rightarrow>
     (case get_task_for_user user i db of None \<Rightarrow> (w, NotFound)
      | Some t \<Rightarrow> (case mode of
          FinalOnly prompts \<Rightarrow>
            if \<not> can_restart_final_summary_task rp t then (w, Refused (t_status t))
            else (case final_restart_row rp now prompts t of None \<Rightarrow> (w, ServerError)
                  | Some t' \<Rightarrow> ((update_task i (\<lambda>_. t') db, b), Done Queued))
        | FullRestart \<Rightarrow>
            if \<not> can_restart_summary_task rp t then (w, Refused (t_status t))
            else if worker_held (t_status t) then ((db, request_cancel i (request_restart i b)), Restarting)
            else (let b' = clear_cancel_request i (clear_pause_request i b) in
                  (case reset_task_for_summary_restart now i db of None \<Rightarrow> ((db, b'), ServerError)
                   | Some db' \<Rightarrow> ((db', b'), Done Queued))))))"

section \<open>Rows and owners\<close>

lemma get_task_for_user_Some:
  "db_ok db \<Longrightarrow> get_task_for_user user i db = Some t \<Longrightarrow> find_task db i = Some t \<and> t_user t = user"
proof -
  assume ok: "db_ok db" and g: "get_task_for_user user i db = Some t"
  then have "t \<in> set (db_tasks db)" "t_user t = user" "t_id t = i"
    by (auto simp: get_task_for_user_def find_Some_iff)
  then show ?thesis using find_task_mem [OF ok] by auto
qed

lemma find_update_const:
  "t_id t' = i \<Longrightarrow> t_user t' = t_user t \<Longrightarrow> find_task db i = Some t \<Longrightarrow>
     find_task (update_task i (\<lambda>_. t') db) j = (if j = i then Some t' else find_task db j)"
proof -
  assume a: "t_id t' = i" "find_task db i = Some t"
  have "find (\<lambda>t. t_id t = j) (map (\<lambda>t. if t_id t = i then t' else t) ts) =
      (if j = i then map_option (\<lambda>_. t') (find (\<lambda>t. t_id t = i) ts) else find (\<lambda>t. t_id t = j) ts)" for ts
    using a(1) by (induction ts) auto
  then show ?thesis using a(2) by (simp add: find_task_def update_task_def)
qed

section \<open>Rebuilding the finalize tail\<close>

definition put_step :: "step_row list \<Rightarrow> ustr \<Rightarrow> step_row list" where
  "put_step ss n = map (\<lambda>s. if st_name s = n then reset_step s else s) (upsert_step_row n ss)"

lemma reset_step_simps [simp]:
  "st_name (reset_step s) = st_name s" "st_status (reset_step s) = SPending" "st_attempt (reset_step s) = 0"
  by (simp_all add: reset_step_def)

lemma names_put_step: "map st_name (put_step ss n) = (if n \<in> st_name ` set ss then map st_name ss else map st_name ss @ [n])"
proof -
  have m: "map st_name (map (\<lambda>s. if st_name s = n then reset_step s else s) xs) = map st_name xs" for xs
    by (induction xs) auto
  have l: "list_ex (\<lambda>s. st_name s = n) ss = (n \<in> st_name ` set ss)" by (induction ss) auto
  show ?thesis unfolding put_step_def m upsert_step_row_def l by (simp add: new_step_def)
qed

lemma put_step_others: "filter (\<lambda>s. st_name s \<noteq> n) (put_step ss n) = filter (\<lambda>s. st_name s \<noteq> n) ss"
proof -
  have "filter (\<lambda>s. st_name s \<noteq> n) (map (\<lambda>s. if st_name s = n then reset_step s else s) xs) = filter (\<lambda>s. st_name s \<noteq> n) xs" for xs
    by (induction xs) auto
  then show ?thesis by (simp add: put_step_def upsert_step_row_def new_step_def)
qed

lemma put_step_pending:
  "s \<in> set (put_step ss n) \<Longrightarrow> st_name s = n \<Longrightarrow> st_status s = SPending \<and> st_attempt s = 0"
proof -
  assume s: "s \<in> set (put_step ss n)" "st_name s = n"
  then obtain x where "s = (if st_name x = n then reset_step x else x)" unfolding put_step_def set_map by blast
  then show ?thesis using s(2) by (cases "st_name x = n") simp_all
qed

lemma put_step_keeps:
  "s \<in> set (put_step ss n) \<Longrightarrow> st_name s \<noteq> n \<Longrightarrow> s \<in> set ss"
  by (auto simp: put_step_def upsert_step_row_def new_step_def split: if_splits)

lemma put_steps_spec:
  assumes "distinct (map st_name ss)"
  shows "distinct (map st_name (foldl put_step ss ns))
     \<and> st_name ` set (foldl put_step ss ns) = st_name ` set ss \<union> set ns
     \<and> (\<forall>s\<in>set (foldl put_step ss ns). st_name s \<in> set ns \<longrightarrow> st_status s = SPending \<and> st_attempt s = 0)
     \<and> filter (\<lambda>s. st_name s \<notin> set ns) (foldl put_step ss ns) = filter (\<lambda>s. st_name s \<notin> set ns) ss"
  using assms
proof (induction ns arbitrary: ss rule: rev_induct)
  case Nil
  then show ?case by simp
next
  case (snoc n ns)
  let ?r = "foldl put_step ss ns"
  have IH: "distinct (map st_name ?r)" "st_name ` set ?r = st_name ` set ss \<union> set ns"
    "\<forall>s\<in>set ?r. st_name s \<in> set ns \<longrightarrow> st_status s = SPending \<and> st_attempt s = 0"
    "filter (\<lambda>s. st_name s \<notin> set ns) ?r = filter (\<lambda>s. st_name s \<notin> set ns) ss"
    using snoc by blast+
  have nm: "st_name ` set (put_step ?r n) = insert n (st_name ` set ?r)"
    using arg_cong [OF names_put_step [of ?r n], of set] by (auto split: if_splits)
  have "filter (\<lambda>s. st_name s \<notin> set (ns @ [n])) (put_step ?r n)
      = filter (\<lambda>s. st_name s \<notin> set ns) (filter (\<lambda>s. st_name s \<noteq> n) (put_step ?r n))"
    by (simp add: conj_commute)
  also have "\<dots> = filter (\<lambda>s. st_name s \<noteq> n) (filter (\<lambda>s. st_name s \<notin> set ns) ?r)"
    by (simp add: put_step_others conj_commute)
  also have "\<dots> = filter (\<lambda>s. st_name s \<notin> set (ns @ [n])) ss"
    unfolding IH(4) by (simp add: conj_commute)
  finally have f: "filter (\<lambda>s. st_name s \<notin> set (ns @ [n])) (put_step ?r n) = filter (\<lambda>s. st_name s \<notin> set (ns @ [n])) ss" .
  have d: "distinct (map st_name (put_step ?r n))" using IH(1) names_put_step [of ?r n] by auto
  have p: "st_status s = SPending \<and> st_attempt s = 0" if "s \<in> set (put_step ?r n)" "st_name s \<in> set (ns @ [n])" for s
    using that put_step_pending [of s ?r n] put_step_keeps [of s ?r n] IH(3) by (cases "st_name s = n") auto
  show ?case using f d p nm IH(2) by simp
qed

lemma target_tail:
  "filter (\<lambda>n. n \<notin> set dag_head) (build_dag_steps rp opts) = map finalize_step_name (selected_prompt_refs rp opts)"
proof -
  have "filter (\<lambda>n. n \<notin> set dag_head) dag_head = []" by simp
  moreover have "filter (\<lambda>n. n \<notin> set dag_head) (map finalize_step_name rs) = map finalize_step_name rs" for rs
    using head_not_finalize finalize_step_is_finalize by (auto simp: filter_id_conv)
  ultimately show ?thesis by (simp add: build_dag_steps_def)
qed

section \<open>Properties\<close>

text \<open>A restart with a new set of prompts leaves the task with exactly one finalize step per
  selected prompt, each pending and with its attempts cleared, and does not touch any other step.\<close>

theorem rebuilt_tail_exact:
  assumes "distinct (map st_name steps)"
  shows "{n \<in> st_name ` set (rebuild_finalize_tail rp opts steps). is_finalize n} = finalize_step_name ` set (selected_prompt_refs rp opts)
     \<and> (\<forall>s\<in>set (rebuild_finalize_tail rp opts steps). is_finalize (st_name s) \<longrightarrow> st_status s = SPending \<and> st_attempt s = 0)
     \<and> filter (\<lambda>s. \<not> is_finalize (st_name s)) (rebuild_finalize_tail rp opts steps) = filter (\<lambda>s. \<not> is_finalize (st_name s)) steps
     \<and> distinct (map st_name (rebuild_finalize_tail rp opts steps))"
proof -
  let ?tail = "map finalize_step_name (selected_prompt_refs rp opts)"
  let ?kept = "filter (\<lambda>s. st_name s \<notin> set (filter (\<lambda>n. n \<notin> set ?tail) (filter is_finalize (map st_name steps)))) steps"
  let ?r = "rebuild_finalize_tail rp opts steps"
  have r: "?r = foldl put_step ?kept ?tail"
    unfolding rebuild_finalize_tail_def Let_def target_tail put_step_def [abs_def] ..
  have tf: "n \<in> set ?tail \<Longrightarrow> is_finalize n" for n using finalize_step_is_finalize by auto
  have kept: "s \<in> set ?kept \<Longrightarrow> is_finalize (st_name s) \<Longrightarrow> st_name s \<in> set ?tail" for s by auto
  have sp: "distinct (map st_name ?r)" "st_name ` set ?r = st_name ` set ?kept \<union> set ?tail"
    "\<forall>s\<in>set ?r. st_name s \<in> set ?tail \<longrightarrow> st_status s = SPending \<and> st_attempt s = 0"
    "filter (\<lambda>s. st_name s \<notin> set ?tail) ?r = filter (\<lambda>s. st_name s \<notin> set ?tail) ?kept"
    unfolding r using put_steps_spec [OF distinct_map_filter [OF assms]] by blast+
  have names: "is_finalize n \<Longrightarrow> n \<in> st_name ` set ?r \<Longrightarrow> n \<in> set ?tail" for n
    using sp(2) kept by auto
  have split: "filter (\<lambda>s. \<not> is_finalize (st_name s)) xs = filter (\<lambda>s. \<not> is_finalize (st_name s)) (filter (\<lambda>s. st_name s \<notin> set ?tail) xs)" for xs
    using tf by (induction xs) auto
  have "filter (\<lambda>s. \<not> is_finalize (st_name s)) ?r = filter (\<lambda>s. \<not> is_finalize (st_name s)) ?kept"
    unfolding split [of ?r] split [of ?kept] sp(4) ..
  also have "\<dots> = filter (\<lambda>s. \<not> is_finalize (st_name s)) steps"
    unfolding filter_filter by (rule filter_cong) auto
  finally have f: "filter (\<lambda>s. \<not> is_finalize (st_name s)) ?r = filter (\<lambda>s. \<not> is_finalize (st_name s)) steps" .
  have "{n \<in> st_name ` set ?r. is_finalize n} = set ?tail"
    using names sp(2) tf by blast
  moreover have "st_status s = SPending \<and> st_attempt s = 0" if "s \<in> set ?r" "is_finalize (st_name s)" for s
    using names [of "st_name s"] sp(3) that by blast
  ultimately show ?thesis using f sp(1) by simp
qed

theorem rebuilt_tail_exact_witness:
  "distinct (map st_name [new_step (lit ''download''), new_step (lit ''summarize_final'')])
   \<and> distinct (map st_name (rebuild_finalize_tail (\<lambda>v. []) (JDict [(lit ''prompts'', JList [JStr (lit ''user:1'')])])
        [new_step (lit ''download''), new_step (lit ''summarize_final'')]))"
proof -
  have d: "distinct (map st_name [new_step (lit ''download''), new_step (lit ''summarize_final'')])"
    by (simp add: new_step_def)
  show ?thesis using rebuilt_tail_exact [OF d] d by blast
qed

text \<open>Resuming a task withdraws every pending request against it: it is queued with no pause,
  cancel or restart flag left, nothing else about any other task changes, and it is refused exactly
  for a status that cannot be resumed.\<close>

theorem resume_withdraws_requests:
  assumes "db_ok db" and "resume_one now user i (db, b) = ((db', b'), r)"
  shows "(r = Done Queued \<longleftrightarrow> (\<exists>t. get_task_for_user user i db = Some t \<and> can_resume (t_status t)))
     \<and> (r = Done Queued \<longrightarrow> task_stat db' i = Some Queued \<and> \<not> b_pause b' i \<and> \<not> b_cancel b' i \<and> \<not> b_restart b' i
           \<and> (\<forall>j. j \<noteq> i \<longrightarrow> find_task db' j = find_task db j \<and> b_pause b' j = b_pause b j \<and> b_cancel b' j = b_cancel b j
                \<and> b_restart b' j = b_restart b j))
     \<and> (r \<noteq> Done Queued \<longrightarrow> db' = db \<and> b' = b) \<and> db_ok db'"
proof (cases "get_task_for_user user i db")
  case None
  then show ?thesis using assms by (auto simp: resume_one_def)
next
  case (Some t)
  then have f: "find_task db i = Some t" using get_task_for_user_Some [OF assms(1)] by blast
  show ?thesis
  proof (cases "can_resume (t_status t)")
    case False
    then show ?thesis using assms Some by (auto simp: resume_one_def)
  next
    case True
    then have "db' = set_task_status now i Queued None db"
      "b' = clear_restart_request i (clear_cancel_request i (clear_pause_request i b))" "r = Done Queued"
      using assms(2) Some by (auto simp: resume_one_def)
    then show ?thesis using f Some True assms(1)
      by (auto simp: task_stat_def find_set_task_status bus_defs)
  qed
qed

definition control_db :: task_db where
  "control_db = \<lparr>db_tasks = [sample_task 1 7 Paused 20], db_asr = []\<rparr>"

lemma control_db_ok: "db_ok control_db"
  by (simp add: db_ok_def control_db_def sample_task_def task_ok_def)

theorem resume_withdraws_requests_witness:
  "db_ok control_db \<and> (\<exists>db' b'. resume_one 9 7 1 (control_db, request_pause 1 empty_bus) = ((db', b'), Done Queued)
     \<and> task_stat db' 1 = Some Queued \<and> \<not> b_pause b' 1)"
proof -
  obtain db' b' r where e: "resume_one 9 7 1 (control_db, request_pause 1 empty_bus) = ((db', b'), r)"
    by (metis prod.exhaust)
  have "\<exists>t. get_task_for_user 7 1 control_db = Some t \<and> can_resume (t_status t)"
    by (simp add: get_task_for_user_def control_db_def sample_task_def can_resume_def resumable_statuses_def)
  then show ?thesis
    using resume_withdraws_requests [OF control_db_ok e] e control_db_ok by blast
qed

lemma downgrade_all_entries:
  assumes "downgrade_all_result_entries opts = Some opts'"
  shows "\<exists>es. dict_entries (result_entries opts) = Some es
     \<and> result_entries opts' = map (\<lambda>e. JDict (downgrade_entry (\<lambda>_. True) e)) es"
proof -
  obtain es where es: "dict_entries (result_entries opts) = Some es"
    using assms by (auto simp: downgrade_all_result_entries_def downgrade_entries_def)
  have inv: "dict_entries vs = Some es \<Longrightarrow> vs = map JDict es" for vs es
    by (induction vs arbitrary: es rule: dict_entries.induct) auto
  show ?thesis
  proof (cases "list_ex (\<lambda>e. jget e (lit ''status'') = JStr (lit ''completed'')) es")
    case True
    then have "opts' = JDict (dict_set (as_dict opts) (lit ''prompt_results'') (JList (map (\<lambda>e. JDict (downgrade_entry (\<lambda>_. True) e)) es)))"
      using assms es by (simp add: downgrade_all_result_entries_def downgrade_entries_def)
    then show ?thesis using es by (simp add: result_entries_def)
  next
    case False
    then have "opts' = opts" using assms es by (simp add: downgrade_all_result_entries_def downgrade_entries_def)
    moreover have "\<forall>e\<in>set es. downgrade_entry (\<lambda>_. True) e = e"
      using False by (auto simp: downgrade_entry_def list_ex_iff)
    ultimately show ?thesis using es inv [OF es] by (auto simp: comp_def)
  qed
qed

text \<open>A full restart of a task nobody holds queues it with a clean slate: every summary and
  finalize step is pending, no stored result is still marked completed, the summary and its progress
  are cleared, and no pause or cancel flag is left to divert it; the other steps are untouched. A
  task a worker holds is not touched at all: it only receives the restart and cancel requests.\<close>

theorem full_restart_cleans:
  assumes "db_ok db" and "get_task_for_user user i db = Some t"
    and "restart_summary_task rp now user i FullRestart (db, b) = ((db', b'), r)"
  shows "(r = Restarting \<longrightarrow> db' = db \<and> worker_held (t_status t) \<and> b_cancel b' i \<and> b_restart b' i)
   \<and> (r = Done Queued \<longrightarrow> \<not> worker_held (t_status t) \<and> \<not> b_cancel b' i \<and> \<not> b_pause b' i
        \<and> (\<exists>t'. find_task db' i = Some t' \<and> t_status t' = Queued \<and> t_summary t' = None \<and> t_progress t' = Some (0, 0)
             \<and> map st_name (t_steps t') = map st_name (t_steps t)
             \<and> (\<forall>s\<in>set (t_steps t'). st_name s \<in> set summary_step_names \<or> is_finalize (st_name s) \<longrightarrow> st_status s = SPending)
             \<and> filter (\<lambda>s. st_name s \<notin> set summary_step_names \<and> \<not> is_finalize (st_name s)) (t_steps t')
               = filter (\<lambda>s. st_name s \<notin> set summary_step_names \<and> \<not> is_finalize (st_name s)) (t_steps t)
             \<and> (\<forall>e. JDict e \<in> set (result_entries (t_options t')) \<longrightarrow> jget e (lit ''status'') \<noteq> JStr (lit ''completed''))))"
proof -
  have f: "find_task db i = Some t" using get_task_for_user_Some [OF assms(1,2)] by blast
  have tid: "t_id t = i" using find_task_Some [OF f] by blast
  have fin: "is_finalize n \<longleftrightarrow> n = lit ''summarize_final'' \<or> starts_with (lit ''finalize:'') n" for n
    by (simp add: is_finalize_def)
  have sf: "lit ''summarize_final'' \<in> set summary_step_names" by (simp add: summary_step_names_def)
  let ?reset = "\<lambda>s. if st_name s \<notin> set summary_step_names \<and> \<not> starts_with (lit ''finalize:'') (st_name s) then s else reset_step s"
  have others: "filter (\<lambda>s. st_name s \<notin> set summary_step_names \<and> \<not> is_finalize (st_name s)) (map ?reset ss)
      = filter (\<lambda>s. st_name s \<notin> set summary_step_names \<and> \<not> is_finalize (st_name s)) ss" for ss
    using sf by (induction ss) (auto simp: fin)
  have clean: "\<exists>t'. find_task db' i = Some t' \<and> t_status t' = Queued \<and> t_summary t' = None \<and> t_progress t' = Some (0, 0)
             \<and> map st_name (t_steps t') = map st_name (t_steps t)
             \<and> (\<forall>s\<in>set (t_steps t'). st_name s \<in> set summary_step_names \<or> is_finalize (st_name s) \<longrightarrow> st_status s = SPending)
             \<and> filter (\<lambda>s. st_name s \<notin> set summary_step_names \<and> \<not> is_finalize (st_name s)) (t_steps t')
               = filter (\<lambda>s. st_name s \<notin> set summary_step_names \<and> \<not> is_finalize (st_name s)) (t_steps t)
             \<and> (\<forall>e. JDict e \<in> set (result_entries (t_options t')) \<longrightarrow> jget e (lit ''status'') \<noteq> JStr (lit ''completed''))"
    if reset: "reset_task_for_summary_restart now i db = Some db'"
  proof -
    obtain t' where t': "reset_row now t = Some t'" "db' = update_task i (\<lambda>_. t') db"
      using reset f by (auto simp: reset_task_for_summary_restart_def split: option.splits)
    obtain opts where o': "downgrade_all_result_entries (t_options t) = Some opts"
      "t' = t\<lparr>t_steps := reset_summary_steps (t_steps t), t_options := opts, t_summary := None, t_progress := Some (0, 0),
        t_status := Queued, t_error := None, t_awaiting := None, t_updated := now\<rparr>"
      using t'(1) by (auto simp: reset_row_def)
    have ft: "find_task db' i = Some t'"
      using find_update_const [of t' i t db i] f tid by (simp add: t'(2) o'(2))
    have steps: "t_steps t' = map ?reset (t_steps t)" by (simp add: o'(2) reset_summary_steps_def)
    have "jget e (lit ''status'') \<noteq> JStr (lit ''completed'')" if "JDict e \<in> set (result_entries opts)" for e
      using downgrade_all_entries [OF o'(1)] that by (auto simp: downgrade_entry_status split: if_splits)
    then have entries: "\<forall>e. JDict e \<in> set (result_entries (t_options t')) \<longrightarrow> jget e (lit ''status'') \<noteq> JStr (lit ''completed'')"
      by (simp add: o'(2))
    have row: "t_status t' = Queued" "t_summary t' = None" "t_progress t' = Some (0, 0)" by (simp_all add: o'(2))
    have nm: "map st_name (map ?reset ss) = map st_name ss" for ss by (induction ss) auto
    have pend: "\<forall>s\<in>set (map ?reset ss). st_name s \<in> set summary_step_names \<or> is_finalize (st_name s) \<longrightarrow> st_status s = SPending" for ss
    proof
      fix s assume "s \<in> set (map ?reset ss)"
      then obtain x where x: "s = ?reset x" unfolding set_map by blast
      show "st_name s \<in> set summary_step_names \<or> is_finalize (st_name s) \<longrightarrow> st_status s = SPending"
        using sf fin [of "st_name x"] by (cases "st_name x \<notin> set summary_step_names \<and> \<not> starts_with (lit ''finalize:'') (st_name x)") (auto simp: x)
    qed
    show ?thesis
      using ft row entries nm [of "t_steps t"] pend [of "t_steps t"] others [of "t_steps t"] unfolding steps [symmetric] by blast
  qed
  show ?thesis
    using assms(2,3) clean
    by (auto simp: restart_summary_task_def Let_def bus_defs split: if_splits option.splits)
qed

theorem full_restart_cleans_witness:
  "db_ok control_db \<and> get_task_for_user 7 1 control_db \<noteq> None
   \<and> (\<exists>db' b'. restart_summary_task (\<lambda>v. []) 9 7 1 FullRestart (control_db, request_pause 1 empty_bus) = ((db', b'), Done Queued)
        \<and> \<not> b_pause b' 1)"
proof -
  let ?t = "sample_task 1 7 Paused 20"
  have g: "get_task_for_user 7 1 control_db = Some ?t"
    by (simp add: get_task_for_user_def control_db_def sample_task_def)
  obtain db' b' r where e: "restart_summary_task (\<lambda>v. []) 9 7 1 FullRestart (control_db, request_pause 1 empty_bus) = ((db', b'), r)"
    by (metis prod.exhaust)
  have opts: "can_restart_summary_task (\<lambda>v. []) ?t" "\<not> worker_held (t_status ?t)"
    by (simp_all add: can_restart_summary_task_def sample_task_def worker_held_def selected_prompt_refs_def
        jget_def jget_or_def dict_get_def)
  have "reset_task_for_summary_restart 9 1 control_db \<noteq> None"
    by (simp add: reset_task_for_summary_restart_def find_task_def control_db_def reset_row_def sample_task_def
        downgrade_all_result_entries_def downgrade_entries_def result_entries_def jget_def dict_get_def)
  then have "r = Done Queued"
    using e g opts by (auto simp: restart_summary_task_def Let_def split: option.splits)
  then show ?thesis using full_restart_cleans [OF control_db_ok g e] e g control_db_ok by blast
qed

text \<open>A final-only restart without a new prompt set, of a task that has no system summary step,
  queues the task and drops its summary path, but resets no step and clears no flag: every finalize
  step keeps its status, so there is nothing for the worker to redo.\<close>

theorem final_restart_without_summary_step:
  assumes "db_ok db" and "get_task_for_user user i db = Some t"
    and "\<forall>s\<in>set (t_steps t). st_name s \<noteq> lit ''summarize_final''"
    and "restart_summary_task rp now user i (FinalOnly None) (db, b) = ((db', b'), Done Queued)"
  shows "b' = b \<and> (\<exists>t'. find_task db' i = Some t' \<and> t_status t' = Queued \<and> t_summary t' = None \<and> t_steps t' = t_steps t)"
proof -
  have f: "find_task db i = Some t" using get_task_for_user_Some [OF assms(1,2)] by blast
  have tid: "t_id t = i" using find_task_Some [OF f] by blast
  have "reset_final_summary_step (t_steps t) = t_steps t"
    using assms(3) by (simp add: reset_final_summary_step_def map_idI)
  then obtain opts t' where t': "t' = t\<lparr>t_options := opts, t_steps := t_steps t, t_summary := None,
      t_progress := Some (0, 0), t_status := Queued, t_error := None, t_awaiting := None, t_updated := now\<rparr>"
    and d: "db' = update_task i (\<lambda>_. t') db" "b' = b"
    using assms(2,4) by (auto simp: restart_summary_task_def final_restart_row_def split: if_splits option.splits)
  show ?thesis using find_update_const [of t' i t db i] f tid d by (simp add: t')
qed

definition memo_task :: task_row where
  "memo_task = (sample_task 1 7 Completed 20)\<lparr>
     t_options := JDict [(lit ''prompts'', JList [JStr (lit ''user:5'')])], t_summary := Some (lit ''p''),
     t_steps := [(new_step (lit ''summarize_windows''))\<lparr>st_status := SCompleted\<rparr>,
                 (new_step (lit ''finalize:user:5''))\<lparr>st_status := SCompleted\<rparr>]\<rparr>"

definition memo_db :: task_db where "memo_db = \<lparr>db_tasks = [memo_task], db_asr = []\<rparr>"

lemma memo_db_ok: "db_ok memo_db"
  by (simp add: db_ok_def memo_db_def memo_task_def sample_task_def task_ok_def new_step_def)

lemma memo_selected: "selected_prompt_refs (\<lambda>v. []) (t_options memo_task) = [\<lparr>pr_source = lit ''user'', pr_id = lit ''5''\<rparr>]"
  by (simp add: memo_task_def selected_prompt_refs_def jget_def dict_get_def parse_ref_def partition_colon_def
      check_ref_def valid_source_def lit_def)

theorem final_restart_without_summary_step_witness:
  "\<exists>db' b'. restart_summary_task (\<lambda>v. []) 9 7 1 (FinalOnly None) (memo_db, empty_bus) = ((db', b'), Done Queued)
     \<and> (\<exists>t'. find_task db' 1 = Some t' \<and> t_status t' = Queued \<and> t_steps t' = t_steps memo_task)"
proof -
  have g: "get_task_for_user 7 1 memo_db = Some memo_task"
    by (simp add: get_task_for_user_def memo_db_def memo_task_def sample_task_def)
  have ns: "\<forall>s\<in>set (t_steps memo_task). st_name s \<noteq> lit ''summarize_final''"
    by (simp add: memo_task_def new_step_def)
  have "can_restart_final_summary_task (\<lambda>v. []) memo_task"
    using memo_selected
    by (simp add: can_restart_final_summary_task_def find_step_status_def find_step_def)
       (simp add: memo_task_def new_step_def sample_task_def)
  moreover have "final_restart_row (\<lambda>v. []) 9 None memo_task \<noteq> None"
    by (simp add: final_restart_row_def downgrade_system_summary_entry_def downgrade_entries_def result_entries_def
        memo_task_def jget_def dict_get_def)
  ultimately obtain db' b' where r: "restart_summary_task (\<lambda>v. []) 9 7 1 (FinalOnly None) (memo_db, empty_bus) = ((db', b'), Done Queued)"
    using g by (auto simp: restart_summary_task_def)
  show ?thesis using final_restart_without_summary_step [OF memo_db_ok g ns r] r by blast
qed

end
