(* ===== verification/Worker_Pool.thy ===== *)
theory Worker_Pool
  imports Task_Control
begin

text \<open>
  \<open>vts/worker/main.py\<close>: \<open>WorkerPool\<close> admits queued tasks up to its capacity, interrupts those whose
  cancel or pause was requested, and reaps the finished ones; \<open>recover_pending_tasks\<close> runs at start.

  A coroutine is a row of its own, so that a coroutine the pool no longer knows is still visible: it
  has the task it processes, whether it is done, and whether a cancellation was sent to it. What a
  coroutine does to its task is the subject of \<open>Processor\<close>; here it is an event of the environment.
\<close>

section \<open>State\<close>

record coroutine =
  co_task :: uuid
  co_done :: bool
  co_interrupted :: bool

record pool =
  p_max :: nat
  p_active :: "(uuid \<times> nat) list"
  p_cancel_sent :: "uuid list"
  p_deadline :: "(uuid \<times> rat) list"

record system =
  y_db :: task_db
  y_bus :: bus
  y_pool :: pool
  y_coroutines :: "coroutine list"

definition init_pool :: "int \<Rightarrow> pool" where
  "init_pool max_active = \<lparr>p_max = nat (max max_active 1), p_active = [], p_cancel_sent = [], p_deadline = []\<rparr>"

definition active_count :: "system \<Rightarrow> nat" where
  "active_count y = length (p_active (y_pool y))"

definition recover_pending_tasks :: "instant \<Rightarrow> system \<Rightarrow> system" where
  "recover_pending_tasks now y = y\<lparr>y_db := fst (requeue_running_tasks now (y_db y))\<rparr>"

section \<open>Admission\<close>

text \<open>What admission does with one dequeued task: divert it to \<open>canceled\<close> or \<open>paused\<close>, or start a
  coroutine. The boolean says whether one was started.\<close>

definition admit_one :: "instant \<Rightarrow> uuid \<Rightarrow> system \<Rightarrow> system \<times> bool" where
  "admit_one now i y =
     (if b_cancel (y_bus y) i
      then (y\<lparr>y_bus := clear_cancel_request i (y_bus y), y_db := set_task_status_by_id now i Canceled (y_db y)\<rparr>, False)
      else if b_pause (y_bus y) i
      then (y\<lparr>y_bus := clear_pause_request i (y_bus y), y_db := set_task_status_by_id now i Paused (y_db y)\<rparr>, False)
      else (y\<lparr>y_bus := clear_cancel_request i (y_bus y),
              y_pool := (y_pool y)\<lparr>p_active := dict_set (p_active (y_pool y)) i (length (y_coroutines y))\<rparr>,
              y_coroutines := y_coroutines y @ [\<lparr>co_task = i, co_done = False, co_interrupted = False\<rparr>]\<rparr>, True))"

lemma queued_set_status_by_id:
  "s \<noteq> Queued \<Longrightarrow> queued_tasks (set_task_status_by_id now i s db) = filter (\<lambda>t. t_id t \<noteq> i) (queued_tasks db)"
  by (simp add: set_task_status_by_id_def queued_after_unqueue)

lemma queued_dequeue:
  "dequeue_task now db = (Some i, db') \<Longrightarrow> length (queued_tasks db') < length (queued_tasks db)"
  using dequeue_cases [of db now] queued_set_status_by_id [of Running]
  by (auto simp: length_filter_le less_Suc_eq_le)

lemma queued_admit_one:
  "admit_one now i y = (y', started) \<Longrightarrow> length (queued_tasks (y_db y')) \<le> length (queued_tasks (y_db y))"
  by (auto simp: admit_one_def queued_set_status_by_id length_filter_le split: if_splits)

lemma admit_measure:
  assumes "(Some i, db) = dequeue_task now (y_db y)" and "(y', started) = admit_one now i (y\<lparr>y_db := db\<rparr>)"
  shows "length (queued_tasks (y_db y')) < length (queued_tasks (y_db y))"
  using queued_dequeue [OF assms(1) [symmetric]] queued_admit_one [OF assms(2) [symmetric]] by simp

function admit :: "instant \<Rightarrow> bool \<Rightarrow> system \<Rightarrow> system \<times> bool" where
  "admit now admitted y =
     (if p_max (y_pool y) \<le> active_count y then (y, admitted)
      else (case dequeue_task now (y_db y) of
              (None, _) \<Rightarrow> (y, admitted)
            | (Some i, db) \<Rightarrow> (case admit_one now i (y\<lparr>y_db := db\<rparr>) of
                                (y', started) \<Rightarrow> admit now (admitted \<or> started) y')))"
  by pat_completeness auto
termination
  by (relation "measure (\<lambda>(now, admitted, y). length (queued_tasks (y_db y)))")
     (auto dest: admit_measure)

declare admit.simps [simp del]

section \<open>Interruption\<close>

definition interrupt :: "nat \<Rightarrow> system \<Rightarrow> system" where
  "interrupt c y = y\<lparr>y_coroutines := (y_coroutines y)[c := (y_coroutines y ! c)\<lparr>co_interrupted := True\<rparr>]\<rparr>"

definition pause_grace :: rat where "pause_grace = 3"

definition set_pool :: "(pool \<Rightarrow> pool) \<Rightarrow> system \<Rightarrow> system" where
  "set_pool f y = y\<lparr>y_pool := f (y_pool y)\<rparr>"

text \<open>One round of the loop of \<open>watch_cancels\<close>, for an active task and its coroutine.\<close>

definition watch_one :: "rat \<Rightarrow> system \<Rightarrow> uuid \<times> nat \<Rightarrow> system" where
  "watch_one now y p = (case p of (i, c) \<Rightarrow>
     if i \<in> set (p_cancel_sent (y_pool y)) then y
     else if b_cancel (y_bus y) i
     then set_pool (\<lambda>q. q\<lparr>p_cancel_sent := p_cancel_sent q @ [i]\<rparr>) (interrupt c y)
     else if \<not> b_pause (y_bus y) i
     then set_pool (\<lambda>q. q\<lparr>p_deadline := dict_del (p_deadline q) i\<rparr>) y
     else (case dict_get (p_deadline (y_pool y)) i of
             None \<Rightarrow> set_pool (\<lambda>q. q\<lparr>p_deadline := dict_set (p_deadline q) i (now + pause_grace)\<rparr>) y
           | Some deadline \<Rightarrow>
               if now < deadline then y
               else set_pool (\<lambda>q. q\<lparr>p_cancel_sent := p_cancel_sent q @ [i]\<rparr>) (interrupt c y)))"

definition watch_cancels :: "rat \<Rightarrow> system \<Rightarrow> system" where
  "watch_cancels now y = foldl (watch_one now) y (p_active (y_pool y))"

section \<open>Reaping\<close>

text \<open>A restart that fails leaves the flag set, for the next reap.\<close>

definition restart_if_requested :: "instant \<Rightarrow> uuid \<Rightarrow> system \<Rightarrow> system" where
  "restart_if_requested now i y =
     (if \<not> b_restart (y_bus y) i then y
      else (case find_task (y_db y) i of
              None \<Rightarrow> y\<lparr>y_bus := clear_restart_request i (y_bus y)\<rparr>
            | Some _ \<Rightarrow> (case reset_task_for_summary_restart now i (y_db y) of
                None \<Rightarrow> y
              | Some db \<Rightarrow> y\<lparr>y_db := db, y_bus := clear_restart_request i (y_bus y)\<rparr>)))"

definition reap_one :: "instant \<Rightarrow> system \<Rightarrow> uuid \<times> nat \<Rightarrow> system" where
  "reap_one now y p = (case p of (i, c) \<Rightarrow>
     if \<not> co_done (y_coroutines y ! c) then y
     else restart_if_requested now i
            (set_pool (\<lambda>q. q\<lparr>p_active := dict_del (p_active q) i, p_cancel_sent := filter (\<lambda>j. j \<noteq> i) (p_cancel_sent q),
                             p_deadline := dict_del (p_deadline q) i\<rparr>)
               (y\<lparr>y_bus := clear_cancel_request i (y_bus y)\<rparr>)))"

definition reap :: "instant \<Rightarrow> system \<Rightarrow> system" where
  "reap now y = foldl (reap_one now) y (p_active (y_pool y))"

text \<open>Teardown: every active coroutine that is not done is cancelled and awaited.\<close>

definition cancel_all :: "system \<Rightarrow> system" where
  "cancel_all y = set_pool (\<lambda>q. q\<lparr>p_active := [], p_cancel_sent := [], p_deadline := []\<rparr>)
     (y\<lparr>y_coroutines := map (\<lambda>(c, r). if c \<in> snd ` set (p_active (y_pool y))
         then (if co_done r then r else r\<lparr>co_interrupted := True, co_done := True\<rparr>) else r) (enumerate 0 (y_coroutines y))\<rparr>)"

section \<open>Events\<close>

text \<open>The loop's phases, the endpoints, and the environment: a coroutine writes the status of its task
  or finishes, a flag expires.\<close>

datatype pool_event =
    Admit instant
  | Watch rat
  | Reap instant
  | ApiPause instant uuid uuid
  | ApiResume instant uuid uuid
  | ApiRestart instant uuid uuid restart_mode
  | ApiDelete uuid uuid
  | Writes instant nat task_status
  | Finishes nat
  | Expires uuid

definition on_world :: "(world \<Rightarrow> world \<times> outcome) \<Rightarrow> system \<Rightarrow> system" where
  "on_world f y = (case fst (f (y_db y, y_bus y)) of (db, b) \<Rightarrow> y\<lparr>y_db := db, y_bus := b\<rparr>)"

fun pool_step :: "(json \<Rightarrow> ustr) \<Rightarrow> pool_event \<Rightarrow> system \<Rightarrow> system" where
  "pool_step rp (Admit now) y = fst (admit now False y)"
| "pool_step rp (Watch now) y = watch_cancels now y"
| "pool_step rp (Reap now) y = reap now y"
| "pool_step rp (ApiPause now user i) y = on_world (pause_one now user i) y"
| "pool_step rp (ApiResume now user i) y = on_world (resume_one now user i) y"
| "pool_step rp (ApiRestart now user i mode) y = on_world (restart_summary_task rp now user i mode) y"
| "pool_step rp (ApiDelete user i) y = on_world (delete_one user i) y"
| "pool_step rp (Writes now c s) y =
     (if c < length (y_coroutines y) \<and> \<not> co_done (y_coroutines y ! c)
      then y\<lparr>y_db := set_task_status now (co_task (y_coroutines y ! c)) s None (y_db y)\<rparr> else y)"
| "pool_step rp (Finishes c) y =
     (if c < length (y_coroutines y)
      then y\<lparr>y_coroutines := (y_coroutines y)[c := (y_coroutines y ! c)\<lparr>co_done := True\<rparr>]\<rparr> else y)"
| "pool_step rp (Expires i) y = y\<lparr>y_bus := clear_restart_request i (clear_pause_request i (clear_cancel_request i (y_bus y)))\<rparr>"

section \<open>Admission, properties\<close>

definition fate :: "bus \<Rightarrow> uuid \<Rightarrow> task_status" where
  "fate b i = (if b_cancel b i then Canceled else if b_pause b i then Paused else Running)"

definition starts :: "bus \<Rightarrow> uuid list \<Rightarrow> uuid list" where
  "starts b is = filter (\<lambda>i. fate b i = Running) is"

definition fresh :: "uuid \<Rightarrow> coroutine" where
  "fresh i = \<lparr>co_task = i, co_done = False, co_interrupted = False\<rparr>"

lemma admit_one_spec:
  assumes "admit_one now i y = (y', s)"
  shows "s \<longleftrightarrow> fate (y_bus y) i = Running"
    and "y_coroutines y' = y_coroutines y @ map fresh (starts (y_bus y) [i])"
    and "task_stat (y_db y) i = Some Running \<Longrightarrow> task_stat (y_db y') j = (if j = i then Some (fate (y_bus y) i) else task_stat (y_db y) j)"
    and "p_max (y_pool y') = p_max (y_pool y)"
    and "p_active (y_pool y') = (if s then dict_set (p_active (y_pool y)) i (length (y_coroutines y)) else p_active (y_pool y))"
    and "b_cancel (y_bus y') = (b_cancel (y_bus y))(i := False)"
    and "b_pause (y_bus y') = (if b_cancel (y_bus y) i then b_pause (y_bus y) else (b_pause (y_bus y))(i := False))"
  using assms task_store.stat_put [of now i _ "y_db y" j]
  by (auto simp: admit_one_def fate_def starts_def fresh_def bus_defs fun_upd_idem split: if_splits)

lemma db_ok_admit_one:
  assumes "db_ok (y_db y)" and "task_stat (y_db y) i = Some Running" and "admit_one now i y = (y', s)"
  shows "db_ok (y_db y')"
  using assms db_ok_set_status_by_id by (auto simp: admit_one_def split: if_splits)

lemma admit_one_queue:
  assumes "admit_one now i y = (y', s)" and "i \<notin> t_id ` set (queued_tasks (y_db y))"
  shows "queued_tasks (y_db y') = queued_tasks (y_db y)"
proof -
  have "filter (\<lambda>t. t_id t \<noteq> i) (queued_tasks (y_db y)) = queued_tasks (y_db y)"
    using assms(2) by (auto simp: filter_id_conv)
  then show ?thesis using assms(1) by (auto simp: admit_one_def queued_set_status_by_id split: if_splits)
qed

lemma dequeue_ok:
  assumes "db_ok db" and "dequeue_task now db = (Some i, db')"
  obtains t where "queued_tasks db = t # queued_tasks db'" and "t_id t = i" and "i \<notin> t_id ` set (queued_tasks db')"
    and "db_ok db'" and "task_stat db i = Some Queued"
    and "\<And>j. task_stat db' j = (if j = i then Some Running else task_stat db j)"
proof -
  obtain t rest where q: "queued_tasks db = t # rest" "i = t_id t" "db' = set_task_status_by_id now i Running db"
    using dequeue_cases [of db now] assms(2) by auto
  have r: "i \<notin> t_id ` set rest" using distinct_queued [OF assms(1)] q by simp
  then have "filter (\<lambda>x. t_id x \<noteq> i) rest = rest" by (auto simp: filter_id_conv)
  then have rest: "queued_tasks db' = rest" using queued_set_status_by_id [of Running now i db] q by simp
  have "t \<in> set (db_tasks db)" "t_status t = Queued" using queued_tasks_mem [of t db] q by auto
  then have st: "task_stat db i = Some Queued" using find_task_mem [OF assms(1)] q(2) by (auto simp: task_stat_def)
  have ok: "db_ok db'" using db_ok_dequeue [OF assms(1), of now] assms(2) by simp
  have st': "task_stat db' j = (if j = i then Some Running else task_stat db j)" for j
    using task_store.stat_put [of now i Running db j] st q(3) by simp
  show ?thesis by (rule that [of t, OF _ _ _ ok st st']) (use q r rest in simp_all)
qed

lemma starts_cong: "(\<And>j. j \<in> set is \<Longrightarrow> fate b j = fate b' j) \<Longrightarrow> starts b is = starts b' is"
  unfolding starts_def by (rule filter_cong) auto

lemma admit_general:
  assumes "db_ok (y_db y)"
  shows "\<exists>taken. map t_id (queued_tasks (y_db y)) = taken @ map t_id (queued_tasks (y_db (fst (admit now a y))))
     \<and> db_ok (y_db (fst (admit now a y)))
     \<and> y_coroutines (fst (admit now a y)) = y_coroutines y @ map fresh (starts (y_bus y) taken)
     \<and> (\<forall>j. task_stat (y_db (fst (admit now a y))) j = (if j \<in> set taken then Some (fate (y_bus y) j) else task_stat (y_db y) j))
     \<and> (snd (admit now a y) \<longleftrightarrow> a \<or> starts (y_bus y) taken \<noteq> [])
     \<and> fst ` set (p_active (y_pool (fst (admit now a y)))) = fst ` set (p_active (y_pool y)) \<union> set (starts (y_bus y) taken)
     \<and> (\<forall>j. b_cancel (y_bus (fst (admit now a y))) j \<longleftrightarrow> b_cancel (y_bus y) j \<and> j \<notin> set taken)
     \<and> (active_count y \<le> p_max (y_pool y) \<longrightarrow> active_count (fst (admit now a y)) \<le> p_max (y_pool y))
     \<and> (active_count (fst (admit now a y)) < p_max (y_pool y) \<longrightarrow> queued_tasks (y_db (fst (admit now a y))) = [])"
  using assms
proof (induction now a y rule: admit.induct)
  case (1 now a y)
  show ?case
  proof (cases "p_max (y_pool y) \<le> active_count y")
    case True
    then have "admit now a y = (y, a)" by (simp add: admit.simps)
    then show ?thesis using True 1(2) by (intro exI [of _ "[]"]) (simp add: starts_def comp_def)
  next
    case False
    show ?thesis
    proof (cases "fst (dequeue_task now (y_db y))")
      case None
      then have e: "queued_tasks (y_db y) = []" using dequeue_cases [of "y_db y" now] by auto
      have "admit now a y = (y, a)" using None False dequeue_cases [of "y_db y" now] by (auto simp: admit.simps)
      then show ?thesis using e 1(2) False by (intro exI [of _ "[]"]) (simp add: starts_def comp_def)
    next
      case (Some i)
      then obtain db where d: "dequeue_task now (y_db y) = (Some i, db)" by (metis prod.collapse)
      obtain y1 s where ao: "admit_one now i (y\<lparr>y_db := db\<rparr>) = (y1, s)" by (metis prod.exhaust)
      obtain t where q: "queued_tasks (y_db y) = t # queued_tasks db" "t_id t = i" "i \<notin> t_id ` set (queued_tasks db)"
        "db_ok db" "task_stat (y_db y) i = Some Queued"
        "\<And>j. task_stat db j = (if j = i then Some Running else task_stat (y_db y) j)"
        using dequeue_ok [OF 1(2) d] by blast
      have st1: "task_stat (y_db y1) j = (if j = i then Some (fate (y_bus y) i) else task_stat (y_db y) j)" for j
        using admit_one_spec(3) [OF ao, of j] q(6) by simp
      have ok1: "db_ok (y_db y1)" using db_ok_admit_one [OF _ _ ao] q by simp
      have q1: "queued_tasks (y_db y1) = queued_tasks db" using admit_one_queue [OF ao] q(3) by simp
      have ad: "admit now a y = admit now (a \<or> s) y1" using False d ao by (simp add: admit.simps)
      let ?z = "admit now (a \<or> s) y1"
      obtain taken where IH: "map t_id (queued_tasks db) = taken @ map t_id (queued_tasks (y_db (fst ?z)))"
        "db_ok (y_db (fst ?z))" "y_coroutines (fst ?z) = y_coroutines y1 @ map fresh (starts (y_bus y1) taken)"
        "\<forall>j. task_stat (y_db (fst ?z)) j = (if j \<in> set taken then Some (fate (y_bus y1) j) else task_stat (y_db y1) j)"
        "snd ?z \<longleftrightarrow> (a \<or> s) \<or> starts (y_bus y1) taken \<noteq> []"
        "fst ` set (p_active (y_pool (fst ?z))) = fst ` set (p_active (y_pool y1)) \<union> set (starts (y_bus y1) taken)"
        "\<forall>j. b_cancel (y_bus (fst ?z)) j \<longleftrightarrow> b_cancel (y_bus y1) j \<and> j \<notin> set taken"
        "active_count y1 \<le> p_max (y_pool y1) \<longrightarrow> active_count (fst ?z) \<le> p_max (y_pool y1)"
        "active_count (fst ?z) < p_max (y_pool y1) \<longrightarrow> queued_tasks (y_db (fst ?z)) = []"
        using 1(1) [OF False d [symmetric] refl ao [symmetric] ok1] unfolding q1 by blast
      have ni: "i \<notin> set taken"
      proof
        assume "i \<in> set taken"
        then have "i \<in> set (map t_id (queued_tasks db))" using IH(1) by simp
        then show False using q(3) by simp
      qed
      have bus: "b_cancel (y_bus y1) j = b_cancel (y_bus y) j" "b_pause (y_bus y1) j = b_pause (y_bus y) j" if "j \<noteq> i" for j
        using admit_one_spec(6,7) [OF ao] that by (cases "b_cancel (y_bus y) i"; simp)+
      have f: "fate (y_bus y1) j = fate (y_bus y) j" if "j \<in> set taken" for j
        using bus [of j] that ni by (auto simp: fate_def)
      have s1: "starts (y_bus y1) taken = starts (y_bus y) taken" using f by (rule starts_cong)
      have s2: "starts (y_bus y) (i # taken) = (if s then [i] else []) @ starts (y_bus y) taken"
        using admit_one_spec(1) [OF ao] by (simp add: starts_def)
      have co: "y_coroutines y1 = y_coroutines y @ map fresh (if s then [i] else [])"
        using admit_one_spec(1,2) [OF ao] by (simp add: starts_def)
      have keys: "fst ` set (dict_set d k v) = insert k (fst ` set d)" for d :: "(uuid \<times> nat) list" and k v
        using arg_cong [OF keys_dict_set [of d k v], of set] by (auto split: if_splits)
      have act: "fst ` set (p_active (y_pool (fst ?z))) = fst ` set (p_active (y_pool y)) \<union> set (starts (y_bus y) (i # taken))"
        using IH(6) admit_one_spec(5) [OF ao] by (auto simp: s1 s2 keys)
      have cnt: "active_count y1 \<le> p_max (y_pool y)"
      proof -
        have l: "length (dict_set d k v) \<le> Suc (length d)" for d :: "(uuid \<times> nat) list" and k v
          by (induction d k v rule: dict_set.induct) auto
        show ?thesis using admit_one_spec(5) [OF ao] False l [of "p_active (y_pool y)" i "length (y_coroutines y)"]
          by (cases s) (simp_all add: active_count_def)
      qed
      show ?thesis
        unfolding ad
        using IH q1 q st1 f ni co cnt act admit_one_spec(4,6) [OF ao] s1 s2
        by (intro exI [of _ "i # taken"]) auto
    qed
  qed
qed

text \<open>(C19) Admission takes a prefix of the queue, oldest first, and decides each task it takes by its
  flags alone: a task with a cancel request is canceled, one with only a pause request is paused, and
  the rest are running with one fresh coroutine each, in queue order. No other task changes, the
  capacity is never exceeded, spare capacity is left only when the queue is empty, and the result
  says whether anything was started.\<close>

theorem admission_fills_capacity:
  assumes "db_ok (y_db y)" and "active_count y \<le> p_max (y_pool y)" and "admit now False y = (y', admitted)"
  shows "\<exists>taken. map t_id (queued_tasks (y_db y)) = taken @ map t_id (queued_tasks (y_db y'))
     \<and> y_coroutines y' = y_coroutines y @ map fresh (starts (y_bus y) taken)
     \<and> fst ` set (p_active (y_pool y')) = fst ` set (p_active (y_pool y)) \<union> set (starts (y_bus y) taken)
     \<and> (\<forall>j. task_stat (y_db y') j = (if j \<in> set taken then Some (fate (y_bus y) j) else task_stat (y_db y) j))
     \<and> (\<forall>j\<in>set taken. \<not> b_cancel (y_bus y') j)
     \<and> active_count y' \<le> p_max (y_pool y)
     \<and> (active_count y' < p_max (y_pool y) \<longrightarrow> queued_tasks (y_db y') = [])
     \<and> (admitted \<longleftrightarrow> starts (y_bus y) taken \<noteq> [])"
  using admit_general [OF assms(1), of now False] assms(2,3) by auto

definition pool_sample :: "nat \<Rightarrow> task_db \<Rightarrow> bus \<Rightarrow> system" where
  "pool_sample n db b = \<lparr>y_db = db, y_bus = b, y_pool = init_pool (int n), y_coroutines = []\<rparr>"

lemma pool_sample_simps [simp]:
  "y_db (pool_sample n db b) = db" "y_bus (pool_sample n db b) = b" "y_coroutines (pool_sample n db b) = []"
  "active_count (pool_sample n db b) = 0" "p_max (y_pool (pool_sample n db b)) = max n 1"
  "p_active (y_pool (pool_sample n db b)) = []"
  by (simp_all add: pool_sample_def active_count_def init_pool_def max_def)

theorem admission_fills_capacity_witness:
  "\<exists>y' r taken. admit 99 False (pool_sample 2 sample_db (request_cancel 2 empty_bus)) = (y', r)
     \<and> [2, 1] = taken @ map t_id (queued_tasks (y_db y')) \<and> active_count y' \<le> 2
     \<and> (1 \<in> set taken \<longrightarrow> task_stat (y_db y') 1 = Some Running) \<and> (2 \<in> set taken \<longrightarrow> task_stat (y_db y') 2 = Some Canceled)"
proof -
  let ?b = "request_cancel 2 empty_bus"
  let ?y = "pool_sample 2 sample_db ?b"
  obtain y' r where e: "admit 99 False ?y = (y', r)" by (metis prod.exhaust)
  have ok: "db_ok (y_db ?y)" "active_count ?y \<le> p_max (y_pool ?y)" by (simp_all add: sample_db_ok)
  have q: "map t_id (queued_tasks sample_db) = [2, 1]"
    by (simp add: queued_tasks_def sample_db_def task_key_def less_eq_row_key_def sample_task_def)
  have f: "fate ?b 1 = Running" "fate ?b 2 = Canceled" by (simp_all add: fate_def bus_defs empty_bus_def)
  obtain taken where t: "map t_id (queued_tasks (y_db ?y)) = taken @ map t_id (queued_tasks (y_db y'))"
    "\<forall>j. task_stat (y_db y') j = (if j \<in> set taken then Some (fate (y_bus ?y) j) else task_stat (y_db ?y) j)"
    "active_count y' \<le> p_max (y_pool ?y)"
    using admission_fills_capacity [OF ok e] by blast
  show ?thesis using e t q f by (intro exI [of _ y'] exI [of _ r] exI [of _ taken]) simp
qed

section \<open>Interruption, properties\<close>

text \<open>What a tick of \<open>watch_cancels\<close> sees of an active task: its flags, whether it was interrupted
  already, its deadline and its coroutine.\<close>

record watched =
  w_cancel :: bool
  w_pause :: bool
  w_sent :: bool
  w_deadline :: "rat option"
  w_coroutine :: "coroutine option"

definition watch_view :: "system \<Rightarrow> uuid \<times> nat \<Rightarrow> watched" where
  "watch_view y p = \<lparr>w_cancel = b_cancel (y_bus y) (fst p), w_pause = b_pause (y_bus y) (fst p),
     w_sent = (fst p \<in> set (p_cancel_sent (y_pool y))), w_deadline = dict_get (p_deadline (y_pool y)) (fst p),
     w_coroutine = (if snd p < length (y_coroutines y) then Some (y_coroutines y ! snd p) else None)\<rparr>"

definition watch_change :: "rat \<Rightarrow> watched \<Rightarrow> watched" where
  "watch_change now v =
     (let hit = v\<lparr>w_sent := True, w_coroutine := map_option (\<lambda>r. r\<lparr>co_interrupted := True\<rparr>) (w_coroutine v)\<rparr> in
      if w_sent v then v
      else if w_cancel v then hit
      else if \<not> w_pause v then v\<lparr>w_deadline := None\<rparr>
      else (case w_deadline v of None \<Rightarrow> v\<lparr>w_deadline := Some (now + pause_grace)\<rparr>
            | Some d \<Rightarrow> if now < d then v else hit))"

definition apart :: "uuid \<times> nat \<Rightarrow> uuid \<times> nat \<Rightarrow> bool" where
  "apart p q \<longleftrightarrow> fst p \<noteq> fst q \<and> snd p \<noteq> snd q"

interpretation watching: local_loop "watch_one now" watch_view "\<lambda>_. watch_change now" apart for now
proof
  fix y p
  show "watch_view (watch_one now y p) p = watch_change now (watch_view y p)"
    by (cases p) (auto simp: watch_one_def watch_view_def watch_change_def set_pool_def interrupt_def Let_def split: option.split)
  fix q assume "apart p q"
  then show "watch_view (watch_one now y p) q = watch_view y q"
    by (cases p; cases q) (auto simp: apart_def watch_one_def watch_view_def set_pool_def interrupt_def split: option.split)
qed

lemma map_update_same: "(\<And>x. f (g x) = f x) \<Longrightarrow> map f (xs[c := g (xs ! c)]) = map f xs"
  by (cases "c < length xs") (auto simp: map_update list_update_same_conv list_update_beyond)

lemma interrupt_frame [simp]:
  "y_db (interrupt c y) = y_db y" "y_bus (interrupt c y) = y_bus y" "y_pool (interrupt c y) = y_pool y"
  "map co_task (y_coroutines (interrupt c y)) = map co_task (y_coroutines y)"
  "map co_done (y_coroutines (interrupt c y)) = map co_done (y_coroutines y)"
  using map_update_same [of co_task "\<lambda>r. r\<lparr>co_interrupted := True\<rparr>" "y_coroutines y" c]
    map_update_same [of co_done "\<lambda>r. r\<lparr>co_interrupted := True\<rparr>" "y_coroutines y" c]
  by (simp_all add: interrupt_def)

lemma watch_one_frame:
  "y_db (watch_one now y p) = y_db y \<and> y_bus (watch_one now y p) = y_bus y \<and> p_max (y_pool (watch_one now y p)) = p_max (y_pool y)
   \<and> p_active (y_pool (watch_one now y p)) = p_active (y_pool y)
   \<and> map co_task (y_coroutines (watch_one now y p)) = map co_task (y_coroutines y)
   \<and> map co_done (y_coroutines (watch_one now y p)) = map co_done (y_coroutines y)"
  by (cases p) (simp add: watch_one_def set_pool_def split: option.split)

lemma watch_frame:
  "y_db (watch_cancels now y) = y_db y \<and> y_bus (watch_cancels now y) = y_bus y
   \<and> p_max (y_pool (watch_cancels now y)) = p_max (y_pool y) \<and> p_active (y_pool (watch_cancels now y)) = p_active (y_pool y)
   \<and> map co_task (y_coroutines (watch_cancels now y)) = map co_task (y_coroutines y)
   \<and> map co_done (y_coroutines (watch_cancels now y)) = map co_done (y_coroutines y)"
proof -
  have "y_db (foldl (watch_one now) y ps) = y_db y \<and> y_bus (foldl (watch_one now) y ps) = y_bus y
   \<and> p_max (y_pool (foldl (watch_one now) y ps)) = p_max (y_pool y) \<and> p_active (y_pool (foldl (watch_one now) y ps)) = p_active (y_pool y)
   \<and> map co_task (y_coroutines (foldl (watch_one now) y ps)) = map co_task (y_coroutines y)
   \<and> map co_done (y_coroutines (foldl (watch_one now) y ps)) = map co_done (y_coroutines y)" for ps
    by (induction ps arbitrary: y) (simp_all add: watch_one_frame)
  then show ?thesis by (simp add: watch_cancels_def)
qed

lemma watch_length: "length (y_coroutines (watch_cancels now y)) = length (y_coroutines y)"
  using watch_frame [of now y] by (metis length_map)

text \<open>The pool knows each of its coroutines once.\<close>

definition pool_ok :: "system \<Rightarrow> bool" where
  "pool_ok y \<longleftrightarrow> sorted_wrt (\<lambda>a b. apart a b \<and> apart b a) (p_active (y_pool y))
     \<and> (\<forall>p\<in>set (p_active (y_pool y)). snd p < length (y_coroutines y))"

lemma pool_ok_watch: "pool_ok y \<Longrightarrow> pool_ok (watch_cancels now y)"
proof -
  assume "pool_ok y"
  then show ?thesis using watch_frame [of now y] by (simp add: pool_ok_def watch_length)
qed

lemma watch_view_tick:
  "pool_ok y \<Longrightarrow> p \<in> set (p_active (y_pool y)) \<Longrightarrow> watch_view (watch_cancels now y) p = watch_change now (watch_view y p)"
  unfolding watch_cancels_def by (rule watching.loop_view) (auto simp: pool_ok_def)

definition ticks :: "rat list \<Rightarrow> system \<Rightarrow> system" where
  "ticks ts y = foldl (\<lambda>y t. watch_cancels t y) y ts"

lemma ticks_view:
  "pool_ok y \<Longrightarrow> p \<in> set (p_active (y_pool y)) \<Longrightarrow>
     watch_view (ticks ts y) p = foldl (\<lambda>v t. watch_change t v) (watch_view y p) ts"
  by (induction ts arbitrary: y) (simp_all add: ticks_def pool_ok_watch watch_view_tick watch_frame)

lemma waiting_ticks:
  assumes "w_cancel v = False" and "w_pause v" and "\<not> w_sent v" and "w_deadline v = Some d"
  shows "w_sent (foldl (\<lambda>v t. watch_change t v) v ts) \<longleftrightarrow> (\<exists>t\<in>set ts. d \<le> t)"
    and "w_coroutine (foldl (\<lambda>v t. watch_change t v) v ts)
       = (if \<exists>t\<in>set ts. d \<le> t then map_option (\<lambda>r. r\<lparr>co_interrupted := True\<rparr>) (w_coroutine v) else w_coroutine v)"
proof -
  have stuck: "foldl (\<lambda>v t. watch_change t v) v ts = v" if "w_sent v" for v ts
    using that by (induction ts) (simp_all add: watch_change_def)
  let ?hit = "v\<lparr>w_sent := True, w_coroutine := map_option (\<lambda>r. r\<lparr>co_interrupted := True\<rparr>) (w_coroutine v)\<rparr>"
  have one: "watch_change t v = (if d \<le> t then ?hit else v)" for t
    using assms by (simp add: watch_change_def Let_def not_less)
  have "foldl (\<lambda>v t. watch_change t v) v ts = (if \<exists>t\<in>set ts. d \<le> t then ?hit else v)"
    by (induction ts) (simp_all add: one stuck)
  then have "w_sent (foldl (\<lambda>v t. watch_change t v) v ts) = (\<exists>t\<in>set ts. d \<le> t)
    \<and> w_coroutine (foldl (\<lambda>v t. watch_change t v) v ts)
       = (if \<exists>t\<in>set ts. d \<le> t then map_option (\<lambda>r. r\<lparr>co_interrupted := True\<rparr>) (w_coroutine v) else w_coroutine v)"
    using assms(3) by simp
  then show "w_sent (foldl (\<lambda>v t. watch_change t v) v ts) \<longleftrightarrow> (\<exists>t\<in>set ts. d \<le> t)"
    and "w_coroutine (foldl (\<lambda>v t. watch_change t v) v ts)
       = (if \<exists>t\<in>set ts. d \<le> t then map_option (\<lambda>r. r\<lparr>co_interrupted := True\<rparr>) (w_coroutine v) else w_coroutine v)" by auto
qed

text \<open>A cancel interrupts a running task at the next tick. A pause, while it stands, interrupts it
  at the first tick that comes at least three seconds after the tick that noticed it, and at no
  earlier one; a tick that finds neither request leaves the coroutine alone and forgets the deadline.
  The task row and the flags are never touched.\<close>

theorem pause_has_grace_window:
  assumes "pool_ok y" and "(i, c) \<in> set (p_active (y_pool y))" and "i \<notin> set (p_cancel_sent (y_pool y))"
  shows "(b_cancel (y_bus y) i \<longrightarrow> co_interrupted (y_coroutines (ticks [t0] y) ! c))
     \<and> (\<not> b_cancel (y_bus y) i \<and> b_pause (y_bus y) i \<and> dict_get (p_deadline (y_pool y)) i = None \<longrightarrow>
          (co_interrupted (y_coroutines (ticks (t0 # ts) y) ! c) \<longleftrightarrow> co_interrupted (y_coroutines y ! c) \<or> (\<exists>t\<in>set ts. t0 + 3 \<le> t)))
     \<and> (\<not> b_cancel (y_bus y) i \<and> \<not> b_pause (y_bus y) i \<longrightarrow>
          y_coroutines (ticks [t0] y) ! c = y_coroutines y ! c \<and> dict_get (p_deadline (y_pool (ticks [t0] y))) i = None)
     \<and> y_db (ticks ts y) = y_db y \<and> y_bus (ticks ts y) = y_bus y"
proof -
  have frame: "y_db (ticks us y) = y_db y \<and> y_bus (ticks us y) = y_bus y
     \<and> length (y_coroutines (ticks us y)) = length (y_coroutines y)" for us
  proof (induction us arbitrary: y)
    case (Cons a us)
    then show ?case using watch_frame [of a y] watch_length [of a y] by (simp add: ticks_def)
  qed (simp add: ticks_def)
  have c: "c < length (y_coroutines y)" using assms(1,2) by (auto simp: pool_ok_def)
  have w: "w_coroutine (watch_view (ticks us y) (i, c)) = Some (y_coroutines (ticks us y) ! c)" for us
    using c frame [of us] by (simp add: watch_view_def)
  have w0: "w_coroutine (watch_view y (i, c)) = Some (y_coroutines y ! c)" using c by (simp add: watch_view_def)
  let ?v = "watch_view y (i, c)"
  have v: "w_cancel ?v = b_cancel (y_bus y) i" "w_pause ?v = b_pause (y_bus y) i" "\<not> w_sent ?v"
    "w_deadline ?v = dict_get (p_deadline (y_pool y)) i" using assms(3) by (simp_all add: watch_view_def)
  have one: "watch_view (ticks [t0] y) (i, c) = watch_change t0 ?v" using ticks_view [OF assms(1,2), of "[t0]"] by simp
  have "co_interrupted (y_coroutines (ticks [t0] y) ! c)" if "b_cancel (y_bus y) i"
  proof -
    have "w_coroutine (watch_view (ticks [t0] y) (i, c)) = Some ((y_coroutines y ! c)\<lparr>co_interrupted := True\<rparr>)"
      using one v w0 that by (simp add: watch_change_def)
    then have "(y_coroutines y ! c)\<lparr>co_interrupted := True\<rparr> = y_coroutines (ticks [t0] y) ! c" using w [of "[t0]"] by simp
    from this [symmetric] show ?thesis by simp
  qed
  moreover have "co_interrupted (y_coroutines (ticks (t0 # ts) y) ! c) \<longleftrightarrow> co_interrupted (y_coroutines y ! c) \<or> (\<exists>t\<in>set ts. t0 + 3 \<le> t)"
    if a: "\<not> b_cancel (y_bus y) i" "b_pause (y_bus y) i" "dict_get (p_deadline (y_pool y)) i = None"
  proof -
    let ?v1 = "?v\<lparr>w_deadline := Some (t0 + pause_grace)\<rparr>"
    have "watch_change t0 ?v = ?v1" using v a by (simp add: watch_change_def)
    then have "watch_view (ticks (t0 # ts) y) (i, c) = foldl (\<lambda>v t. watch_change t v) ?v1 ts"
      using ticks_view [OF assms(1,2), of "t0 # ts"] by simp
    then have "Some (y_coroutines (ticks (t0 # ts) y) ! c)
        = (if \<exists>t\<in>set ts. t0 + pause_grace \<le> t then map_option (\<lambda>r. r\<lparr>co_interrupted := True\<rparr>) (w_coroutine ?v1) else w_coroutine ?v1)"
      using waiting_ticks(2) [of ?v1 "t0 + pause_grace" ts] v a w [of "t0 # ts"] by simp
    then have "y_coroutines (ticks (t0 # ts) y) ! c
        = (if \<exists>t\<in>set ts. t0 + 3 \<le> t then (y_coroutines y ! c)\<lparr>co_interrupted := True\<rparr> else y_coroutines y ! c)"
      using w0 by (cases "\<exists>t\<in>set ts. t0 + 3 \<le> t") (simp_all add: pause_grace_def)
    then show ?thesis by simp
  qed
  moreover have "y_coroutines (ticks [t0] y) ! c = y_coroutines y ! c \<and> dict_get (p_deadline (y_pool (ticks [t0] y))) i = None"
    if "\<not> b_cancel (y_bus y) i" "\<not> b_pause (y_bus y) i"
  proof -
    have "w_deadline (watch_view (ticks [t0] y) (i, c)) = dict_get (p_deadline (y_pool (ticks [t0] y))) i" by (simp add: watch_view_def)
    then show ?thesis using w [of "[t0]"] one v w0 that by (simp add: watch_change_def)
  qed
  ultimately show ?thesis using frame by blast
qed

definition paused_system :: system where
  "paused_system = \<lparr>y_db = control_db, y_bus = request_pause 1 empty_bus,
     y_pool = \<lparr>p_max = 1, p_active = [(1, 0)], p_cancel_sent = [], p_deadline = []\<rparr>, y_coroutines = [fresh 1]\<rparr>"

theorem pause_has_grace_window_witness:
  "\<not> co_interrupted (y_coroutines (ticks [10, 12] paused_system) ! 0)
   \<and> co_interrupted (y_coroutines (ticks [10, 12, 13] paused_system) ! 0)"
proof -
  have ok: "pool_ok paused_system" "(1, 0) \<in> set (p_active (y_pool paused_system))" "1 \<notin> set (p_cancel_sent (y_pool paused_system))"
    by (simp_all add: pool_ok_def paused_system_def)
  have f: "\<not> b_cancel (y_bus paused_system) 1" "b_pause (y_bus paused_system) 1" "dict_get (p_deadline (y_pool paused_system)) 1 = None"
    "\<not> co_interrupted (y_coroutines paused_system ! 0)"
    by (simp_all add: paused_system_def bus_defs empty_bus_def dict_get_def fresh_def)
  show ?thesis
    using pause_has_grace_window [OF ok, of 10 "[12]"] pause_has_grace_window [OF ok, of 10 "[12, 13]"] f by simp
qed

section \<open>Reaping, properties\<close>

text \<open>What \<open>reap\<close> sees of an active task.\<close>

record reaped =
  r_active :: "nat option"
  r_sent :: bool
  r_deadline :: "rat option"
  r_cancel :: bool
  r_restart :: bool
  r_row :: "task_row option"
  r_done :: bool

definition reap_view :: "system \<Rightarrow> uuid \<times> nat \<Rightarrow> reaped" where
  "reap_view y p = \<lparr>r_active = dict_get (p_active (y_pool y)) (fst p), r_sent = (fst p \<in> set (p_cancel_sent (y_pool y))),
     r_deadline = dict_get (p_deadline (y_pool y)) (fst p), r_cancel = b_cancel (y_bus y) (fst p),
     r_restart = b_restart (y_bus y) (fst p), r_row = find_task (y_db y) (fst p), r_done = co_done (y_coroutines y ! snd p)\<rparr>"

definition reap_change :: "instant \<Rightarrow> reaped \<Rightarrow> reaped" where
  "reap_change now v =
     (let v1 = v\<lparr>r_active := None, r_sent := False, r_deadline := None, r_cancel := False\<rparr> in
      if \<not> r_done v then v
      else if \<not> r_restart v then v1
      else (case r_row v of None \<Rightarrow> v1\<lparr>r_restart := False\<rparr>
            | Some t \<Rightarrow> (case reset_row now t of None \<Rightarrow> v1 | Some t' \<Rightarrow> v1\<lparr>r_row := Some t', r_restart := False\<rparr>)))"

lemma reset_row_identity: "reset_row now t = Some t' \<Longrightarrow> t_id t' = t_id t \<and> t_user t' = t_user t \<and> t_status t' = Queued"
  by (auto simp: reset_row_def)

lemma find_task_reset:
  assumes "reset_task_for_summary_restart now i db = Some db'"
  obtains t t' where "find_task db i = Some t" and "reset_row now t = Some t'"
    and "\<And>j. find_task db' j = (if j = i then Some t' else find_task db j)"
proof -
  obtain t t' where t: "find_task db i = Some t" "reset_row now t = Some t'" "db' = update_task i (\<lambda>_. t') db"
    using assms by (auto simp: reset_task_for_summary_restart_def split: option.splits)
  have "t_id t' = i" "t_user t' = t_user t" using reset_row_identity [OF t(2)] find_task_Some [OF t(1)] by auto
  then show ?thesis using that [of t t'] t find_update_const [of t' i t db] by simp
qed

lemma reset_fails:
  "reset_task_for_summary_restart now i db = None \<longleftrightarrow> (\<forall>t. find_task db i = Some t \<longrightarrow> reset_row now t = None)"
  by (auto simp: reset_task_for_summary_restart_def split: option.splits)

text \<open>The effect of one round on the flags and rows, split off the bookkeeping.\<close>

lemma restart_frame:
  "y_pool (restart_if_requested now i y) = y_pool y \<and> y_coroutines (restart_if_requested now i y) = y_coroutines y
   \<and> b_cancel (y_bus (restart_if_requested now i y)) = b_cancel (y_bus y) \<and> b_pause (y_bus (restart_if_requested now i y)) = b_pause (y_bus y)"
  by (auto simp: restart_if_requested_def bus_defs split: option.split)

lemma restart_effect:
  "b_restart (y_bus (restart_if_requested now i y)) j =
     (if j = i \<and> b_restart (y_bus y) i \<and> (\<forall>t. find_task (y_db y) i = Some t \<longrightarrow> reset_row now t \<noteq> None) then False else b_restart (y_bus y) j)"
  "find_task (y_db (restart_if_requested now i y)) j =
     (if j = i \<and> b_restart (y_bus y) i then (case find_task (y_db y) i of None \<Rightarrow> None
         | Some t \<Rightarrow> (case reset_row now t of None \<Rightarrow> Some t | Some t' \<Rightarrow> Some t')) else find_task (y_db y) j)"
proof -
  have "b_restart (y_bus (restart_if_requested now i y)) j =
     (if j = i \<and> b_restart (y_bus y) i \<and> (\<forall>t. find_task (y_db y) i = Some t \<longrightarrow> reset_row now t \<noteq> None) then False else b_restart (y_bus y) j)
     \<and> find_task (y_db (restart_if_requested now i y)) j =
     (if j = i \<and> b_restart (y_bus y) i then (case find_task (y_db y) i of None \<Rightarrow> None
         | Some t \<Rightarrow> (case reset_row now t of None \<Rightarrow> Some t | Some t' \<Rightarrow> Some t')) else find_task (y_db y) j)"
  proof (cases "reset_task_for_summary_restart now i (y_db y)")
    case None
    then show ?thesis using reset_fails [THEN iffD1, OF None] by (auto simp: restart_if_requested_def bus_defs split: option.splits)
  next
    case (Some db')
    then obtain t t' where t: "find_task (y_db y) i = Some t" "reset_row now t = Some t'"
      "find_task db' j = (if j = i then Some t' else find_task (y_db y) j)" using find_task_reset [OF Some] by metis
    show ?thesis
    proof (cases "b_restart (y_bus y) i")
      case False
      then show ?thesis by (simp add: restart_if_requested_def)
    next
      case True
      then have "restart_if_requested now i y = y\<lparr>y_db := db', y_bus := clear_restart_request i (y_bus y)\<rparr>"
        using t(1) Some by (simp add: restart_if_requested_def)
      then show ?thesis using t True by (simp add: bus_defs)
    qed
  qed
  then show "b_restart (y_bus (restart_if_requested now i y)) j =
     (if j = i \<and> b_restart (y_bus y) i \<and> (\<forall>t. find_task (y_db y) i = Some t \<longrightarrow> reset_row now t \<noteq> None) then False else b_restart (y_bus y) j)"
  "find_task (y_db (restart_if_requested now i y)) j =
     (if j = i \<and> b_restart (y_bus y) i then (case find_task (y_db y) i of None \<Rightarrow> None
         | Some t \<Rightarrow> (case reset_row now t of None \<Rightarrow> Some t | Some t' \<Rightarrow> Some t')) else find_task (y_db y) j)" by blast+
qed

lemma reap_view_own: "reap_view (reap_one now y p) p = reap_change now (reap_view y p)"
proof (cases p)
  case (Pair i c)
  show ?thesis
  proof (cases "co_done (y_coroutines y ! c)")
    case False
    then show ?thesis by (simp add: Pair reap_one_def reap_view_def reap_change_def)
  next
    case True
    then show ?thesis
      by (simp add: Pair reap_one_def reap_view_def reap_change_def restart_frame restart_effect set_pool_def bus_defs split: option.split)
  qed
qed

lemma reap_view_apart: "apart p q \<Longrightarrow> reap_view (reap_one now y p) q = reap_view y q"
  by (cases p; cases q)
     (auto simp: apart_def reap_one_def reap_view_def restart_frame restart_effect set_pool_def bus_defs)

interpretation reaping: local_loop "reap_one now" reap_view "\<lambda>_. reap_change now" apart for now
  by unfold_locales (simp_all add: reap_view_own reap_view_apart)

text \<open>Reaping forgets exactly the finished coroutines and withdraws their cancel requests. A restart
  that was deferred because the task was held is executed then: the row is reset and queued and the
  request cleared; if the row cannot be reset it stays as it is and the request stays for the next
  reap. A task still being processed is not touched.\<close>

theorem reap_runs_deferred_restart:
  assumes "pool_ok y" and "(i, c) \<in> set (p_active (y_pool y))" and "y' = reap now y"
  shows "(\<not> co_done (y_coroutines y ! c) \<longrightarrow> find_task (y_db y') i = find_task (y_db y) i
            \<and> dict_get (p_active (y_pool y')) i = dict_get (p_active (y_pool y)) i \<and> b_cancel (y_bus y') i = b_cancel (y_bus y) i
            \<and> b_restart (y_bus y') i = b_restart (y_bus y) i)
     \<and> (co_done (y_coroutines y ! c) \<longrightarrow> dict_get (p_active (y_pool y')) i = None \<and> \<not> b_cancel (y_bus y') i
            \<and> (\<not> b_restart (y_bus y) i \<longrightarrow> find_task (y_db y') i = find_task (y_db y) i)
            \<and> (\<forall>t t'. b_restart (y_bus y) i \<and> find_task (y_db y) i = Some t \<and> reset_row now t = Some t' \<longrightarrow>
                 find_task (y_db y') i = Some t' \<and> t_status t' = Queued \<and> \<not> b_restart (y_bus y') i)
            \<and> (\<forall>t. b_restart (y_bus y) i \<and> find_task (y_db y) i = Some t \<and> reset_row now t = None \<longrightarrow>
                 find_task (y_db y') i = Some t \<and> b_restart (y_bus y') i))"
proof -
  have s: "sorted_wrt (\<lambda>a b. apart a b \<and> apart b a) (p_active (y_pool y))" using assms(1) by (simp add: pool_ok_def)
  have e: "reap_view y' (i, c) = reap_change now (reap_view y (i, c))"
    unfolding assms(3) reap_def using reaping.loop_view [OF s assms(2)] .
  then have v: "dict_get (p_active (y_pool y')) i = r_active (reap_change now (reap_view y (i, c)))"
    "b_cancel (y_bus y') i = r_cancel (reap_change now (reap_view y (i, c)))"
    "b_restart (y_bus y') i = r_restart (reap_change now (reap_view y (i, c)))"
    "find_task (y_db y') i = r_row (reap_change now (reap_view y (i, c)))"
    unfolding e [symmetric] by (simp_all add: reap_view_def)
  show ?thesis
    unfolding v by (auto simp: reap_change_def reap_view_def Let_def dest: reset_row_identity split: option.split)
qed

definition reap_system :: system where
  "reap_system = \<lparr>y_db = \<lparr>db_tasks = [sample_task 1 7 Canceled 20], db_asr = []\<rparr>,
     y_bus = request_cancel 1 (request_restart 1 empty_bus),
     y_pool = \<lparr>p_max = 1, p_active = [(1, 0)], p_cancel_sent = [1], p_deadline = []\<rparr>,
     y_coroutines = [(fresh 1)\<lparr>co_done := True, co_interrupted := True\<rparr>]\<rparr>"

theorem reap_runs_deferred_restart_witness:
  "task_stat (y_db (reap 50 reap_system)) 1 = Some Queued \<and> \<not> b_restart (y_bus (reap 50 reap_system)) 1
   \<and> \<not> b_cancel (y_bus (reap 50 reap_system)) 1"
proof -
  have ok: "pool_ok reap_system" "(1, 0) \<in> set (p_active (y_pool reap_system))"
    by (simp_all add: pool_ok_def reap_system_def)
  have f: "find_task (y_db reap_system) 1 = Some (sample_task 1 7 Canceled 20)" "b_restart (y_bus reap_system) 1"
    "co_done (y_coroutines reap_system ! 0)"
    by (simp_all add: find_task_def reap_system_def bus_defs)
  have "reset_row 50 (sample_task 1 7 Canceled 20) \<noteq> None"
    by (simp add: reset_row_def sample_task_def downgrade_all_result_entries_def downgrade_entries_def result_entries_def
        jget_def dict_get_def)
  then obtain t' where t': "reset_row 50 (sample_task 1 7 Canceled 20) = Some t'" by blast
  have "find_task (y_db (reap 50 reap_system)) 1 = Some t' \<and> t_status t' = Queued \<and> \<not> b_restart (y_bus (reap 50 reap_system)) 1
     \<and> \<not> b_cancel (y_bus (reap 50 reap_system)) 1"
    using reap_runs_deferred_restart [OF ok refl, of 50] f t' by blast
  then show ?thesis by (simp add: task_stat_def)
qed

section \<open>Requests that miss the worker\<close>

lemma admission_fate:
  assumes "db_ok (y_db y)" and "task_stat (y_db y) i = Some Queued"
  shows "task_stat (y_db (fst (admit now a y))) i = Some Queued \<or> task_stat (y_db (fst (admit now a y))) i = Some (fate (y_bus y) i)"
proof -
  obtain taken where "\<forall>j. task_stat (y_db (fst (admit now a y))) j = (if j \<in> set taken then Some (fate (y_bus y) j) else task_stat (y_db y) j)"
    using admit_general [OF assms(1), of now a] by blast
  then show ?thesis using assms(2) by (cases "i \<in> set taken") simp_all
qed

lemma admit_bus_restart: "b_restart (y_bus (fst (admit now a y))) = b_restart (y_bus y)"
proof (induction now a y rule: admit.induct)
  case (1 now a y)
  have one: "b_restart (y_bus y') = b_restart (y_bus y)" if "admit_one now i (y\<lparr>y_db := db\<rparr>) = (y', s)" for i db y' s
    using that by (auto simp: admit_one_def bus_defs split: if_splits)
  show ?case
    using 1 one by (subst admit.simps) (auto split: option.splits prod.splits)
qed

lemma final_restart_row_ok:
  assumes "task_ok t" and "final_restart_row rp now prompts t = Some t'"
  shows "task_ok t'"
proof -
  have d: "distinct (map st_name (t_steps t))" using assms(1) by (simp add: task_ok_def)
  have "map st_name (reset_final_summary_step ss) = map st_name ss" for ss
    by (induction ss) (simp_all add: reset_final_summary_step_def reset_step_def)
  moreover have "distinct (map st_name (rebuild_finalize_tail rp opts (t_steps t)))" for opts
    unfolding rebuild_finalize_tail_def Let_def put_step_def [abs_def, symmetric]
    by (rule conjunct1 [OF put_steps_spec [OF distinct_map_filter [OF d]]])
  ultimately show ?thesis using assms(2) d
    by (auto simp: final_restart_row_def task_ok_def Let_def split: option.splits)
qed

text \<open>A restart with mode \<open>final_only\<close> queues the task but, unlike a full restart, withdraws no flag: with
  a pause request left from before, the next admission never runs the task but pauses it.\<close>

theorem final_restart_diverted:
  assumes "db_ok db" and "restart_summary_task rp now user i (FinalOnly prompts) (db, b) = ((db', b'), Done Queued)"
    and "b_pause b i" and "\<not> b_cancel b i"
  shows "task_stat db' i = Some Queued
     \<and> (let y = fst (admit later False (y\<lparr>y_db := db', y_bus := b'\<rparr>)) in task_stat (y_db y) i \<in> {Some Queued, Some Paused})"
proof -
  obtain t t' where t: "get_task_for_user user i db = Some t" "final_restart_row rp now prompts t = Some t'"
    "db' = update_task i (\<lambda>_. t') db" "b' = b"
    using assms(2) by (auto simp: restart_summary_task_def split: option.splits if_splits)
  have f: "find_task db i = Some t" using get_task_for_user_Some [OF assms(1) t(1)] by blast
  have "t_id t' = t_id t" "t_user t' = t_user t" "t_status t' = Queued"
    using t(2) by (auto simp: final_restart_row_def)
  then have q: "task_stat db' i = Some Queued"
    using find_update_const [of t' i t db i] f find_task_Some [OF f] t(3) by (simp add: task_stat_def)
  have "task_ok t'" using final_restart_row_ok [OF _ t(2)] assms(1) find_task_Some [OF f] by (auto simp: db_ok_def)
  moreover have "map t_id (map (\<lambda>x. if t_id x = i then t' else x) ts) = map t_id ts" for ts
    using find_task_Some [OF f] \<open>t_id t' = t_id t\<close> by (induction ts) auto
  ultimately have ok: "db_ok db'"
    unfolding t(3) db_ok_def update_task_def using assms(1) by (auto simp: db_ok_def simp del: map_map)
  have "fate b i = Paused" using assms(3,4) by (simp add: fate_def)
  then show ?thesis
    using q admission_fate [of "y\<lparr>y_db := db', y_bus := b'\<rparr>" i later False] ok t(4) by (auto simp: Let_def)
qed

theorem final_restart_diverted_witness:
  "\<exists>db' b'. restart_summary_task (\<lambda>v. []) 9 7 1 (FinalOnly None) (memo_db, request_pause 1 empty_bus) = ((db', b'), Done Queued)
     \<and> task_stat (y_db (fst (admit 12 False ((pool_sample 1 memo_db empty_bus)\<lparr>y_db := db', y_bus := b'\<rparr>)))) 1 \<in> {Some Queued, Some Paused}"
proof -
  have g: "get_task_for_user 7 1 memo_db = Some memo_task"
    by (simp add: get_task_for_user_def memo_db_def memo_task_def sample_task_def)
  have "can_restart_final_summary_task (\<lambda>v. []) memo_task"
    using memo_selected
    by (simp add: can_restart_final_summary_task_def find_step_status_def find_step_def)
       (simp add: memo_task_def new_step_def sample_task_def)
  moreover have "final_restart_row (\<lambda>v. []) 9 None memo_task \<noteq> None"
    by (simp add: final_restart_row_def downgrade_system_summary_entry_def downgrade_entries_def result_entries_def
        memo_task_def jget_def dict_get_def)
  ultimately obtain db' b' where r: "restart_summary_task (\<lambda>v. []) 9 7 1 (FinalOnly None) (memo_db, request_pause 1 empty_bus) = ((db', b'), Done Queued)"
    using g by (auto simp: restart_summary_task_def)
  have p: "b_pause (request_pause 1 empty_bus) 1" "\<not> b_cancel (request_pause 1 empty_bus) 1"
    by (simp_all add: bus_defs empty_bus_def)
  show ?thesis using final_restart_diverted [OF memo_db_ok r p, of 12 "pool_sample 1 memo_db empty_bus"] r by (auto simp: Let_def)
qed

text \<open>A full restart of a task that is marked running although no worker holds it (the worker is
  down) is lost: once a worker starts, recovers its tasks and admits them, the task is still queued or
  has been canceled, never reset, and the restart request is left standing.\<close>

theorem restart_while_worker_down:
  assumes "db_ok (y_db y)" and "get_task_for_user user i (y_db y) = Some t" and "t_status t = Running"
    and "restart_summary_task rp now user i FullRestart (y_db y, y_bus y) = ((db', b'), Restarting)"
  shows "let y' = fst (admit later False (recover_pending_tasks boot (y\<lparr>y_db := db', y_bus := b'\<rparr>))) in
     task_stat (y_db y') i \<in> {Some Queued, Some Canceled} \<and> b_restart (y_bus y') i"
proof -
  have f: "find_task (y_db y) i = Some t" using get_task_for_user_Some [OF assms(1,2)] by blast
  have w: "db' = y_db y" "b' = request_cancel i (request_restart i (y_bus y))"
    using assms(2,4) by (auto simp: restart_summary_task_def Let_def split: if_splits option.splits)
  let ?y = "recover_pending_tasks boot (y\<lparr>y_db := db', y_bus := b'\<rparr>)"
  have "task_stat (y_db y) i = Some Running" using f assms(3) by (simp add: task_stat_def)
  then have q: "task_stat (y_db ?y) i = Some Queued" "db_ok (y_db ?y)"
    using find_requeue [of boot "y_db y" i] f assms(3) db_ok_requeue [OF assms(1), of boot]
    by (simp_all add: recover_pending_tasks_def w task_stat_def active_statuses_def)
  have b: "y_bus ?y = b'" by (simp add: recover_pending_tasks_def)
  have "fate b' i = Canceled" by (simp add: fate_def w bus_defs)
  moreover have "b_restart b' i" by (simp add: w bus_defs)
  ultimately show ?thesis
    using admission_fate [OF q(2,1), of later False] admit_bus_restart [of later False ?y] b by (auto simp: Let_def)
qed

definition orphan_system :: system where
  "orphan_system = pool_sample 1 \<lparr>db_tasks = [sample_task 1 7 Running 20], db_asr = []\<rparr> empty_bus"

theorem restart_while_worker_down_witness:
  "\<exists>db' b'. restart_summary_task (\<lambda>v. []) 9 7 1 FullRestart (y_db orphan_system, y_bus orphan_system) = ((db', b'), Restarting)
     \<and> b_restart (y_bus (fst (admit 30 False (recover_pending_tasks 20 (orphan_system\<lparr>y_db := db', y_bus := b'\<rparr>))))) 1"
proof -
  have ok: "db_ok (y_db orphan_system)"
    by (simp add: orphan_system_def db_ok_def sample_task_def task_ok_def)
  have g: "get_task_for_user 7 1 (y_db orphan_system) = Some (sample_task 1 7 Running 20)"
    by (simp add: orphan_system_def get_task_for_user_def sample_task_def)
  have r: "t_status (sample_task 1 7 Running 20) = Running" by (simp add: sample_task_def)
  have "can_restart_summary_task (\<lambda>v. []) (sample_task 1 7 Running 20)" "worker_held (t_status (sample_task 1 7 Running 20))"
    by (simp_all add: can_restart_summary_task_def sample_task_def worker_held_def selected_prompt_refs_def jget_def jget_or_def dict_get_def)
  then obtain db' b' where e: "restart_summary_task (\<lambda>v. []) 9 7 1 FullRestart (y_db orphan_system, y_bus orphan_system) = ((db', b'), Restarting)"
    using g by (auto simp: restart_summary_task_def)
  show ?thesis using restart_while_worker_down [OF ok g r e, of 30 20] e by (auto simp: Let_def)
qed

lemma admit_single:
  assumes "queued_tasks (y_db y) = [t]" and "active_count y < p_max (y_pool y)" and "fate (y_bus y) (t_id t) = Running"
  shows "fst (admit now a y) = y\<lparr>y_db := set_task_status_by_id now (t_id t) Running (y_db y), y_bus := clear_cancel_request (t_id t) (y_bus y),
     y_pool := (y_pool y)\<lparr>p_active := dict_set (p_active (y_pool y)) (t_id t) (length (y_coroutines y))\<rparr>,
     y_coroutines := y_coroutines y @ [fresh (t_id t)]\<rparr>"
proof -
  have d: "dequeue_task now (y_db y) = (Some (t_id t), set_task_status_by_id now (t_id t) Running (y_db y))"
    using dequeue_cases [of "y_db y" now] assms(1) by auto
  have q: "queued_tasks (set_task_status_by_id now (t_id t) Running (y_db y)) = []"
    using assms(1) by (simp add: queued_set_status_by_id)
  then have none: "dequeue_task now (set_task_status_by_id now (t_id t) Running (y_db y)) = (None, set_task_status_by_id now (t_id t) Running (y_db y))"
    by (simp add: dequeue_task_def)
  have stop: "fst (admit now b z) = z" if "y_db z = set_task_status_by_id now (t_id t) Running (y_db y)" for b z
    using none that by (simp add: admit.simps)
  have "\<not> b_cancel (y_bus y) (t_id t)" "\<not> b_pause (y_bus y) (t_id t)" using assms(3) by (simp_all add: fate_def split: if_splits)
  then have "fst (admit now a y) = fst (admit now True (y\<lparr>y_db := set_task_status_by_id now (t_id t) Running (y_db y), y_bus := clear_cancel_request (t_id t) (y_bus y),
     y_pool := (y_pool y)\<lparr>p_active := dict_set (p_active (y_pool y)) (t_id t) (length (y_coroutines y))\<rparr>,
     y_coroutines := y_coroutines y @ [fresh (t_id t)]\<rparr>))"
    using assms(2) d by (simp add: admit.simps [of now a y] admit_one_def fresh_def)
  then show ?thesis by (simp add: stop)
qed

lemma unknown_not_watched:
  "c \<notin> snd ` set ps \<Longrightarrow> y_coroutines (foldl (watch_one now) y ps) ! c = y_coroutines y ! c"
proof (induction ps arbitrary: y)
  case (Cons p ps)
  have "y_coroutines (watch_one now y p) ! c = y_coroutines y ! c"
    using Cons.prems by (cases p) (auto simp: watch_one_def set_pool_def interrupt_def split: option.split)
  then show ?case using Cons by simp
qed simp

lemma unknown_not_interrupted:
  "c \<notin> snd ` set (p_active (y_pool y)) \<Longrightarrow> y_coroutines (ticks ts y) ! c = y_coroutines y ! c"
proof (induction ts arbitrary: y)
  case (Cons t ts)
  then show ?case using watch_frame [of t y] unknown_not_watched [of c "p_active (y_pool y)" t y]
    by (simp add: ticks_def watch_cancels_def [symmetric])
qed (simp add: ticks_def)

lemma queued_after_pause_resume:
  assumes "db_ok db" and "find_task db i = Some t" and "queued_tasks db = []"
  shows "\<exists>q. queued_tasks (set_task_status n2 i Queued None (set_task_status n1 i Paused None db)) = [q] \<and> t_id q = i"
proof -
  let ?db = "set_task_status n2 i Queued None (set_task_status n1 i Paused None db)"
  have ok: "db_ok ?db" using assms(1) by blast
  obtain q where q: "find_task ?db i = Some q" "t_status q = Queued" using assms(2) by (auto simp: find_set_task_status)
  then have qi: "t_id q = i" "q \<in> set (queued_tasks ?db)" using find_task_Some by (auto simp: queued_tasks_mem)
  have "t_id x = i" if "x \<in> set (queued_tasks ?db)" for x
  proof (rule ccontr)
    assume "t_id x \<noteq> i"
    moreover have "x \<in> set (db_tasks ?db)" "t_status x = Queued" using that by (simp_all add: queued_tasks_mem)
    ultimately have "find_task db (t_id x) = Some x" using find_task_mem [OF ok, of x] by (auto simp: find_set_task_status)
    then have "x \<in> set (queued_tasks db)" using find_task_Some \<open>t_status x = Queued\<close> by (auto simp: queued_tasks_mem)
    then show False using assms(3) by simp
  qed
  then have "set (map t_id (queued_tasks ?db)) \<subseteq> {i}" by auto
  then have "length (queued_tasks ?db) \<le> 1"
    using card_mono [of "{i}" "set (map t_id (queued_tasks ?db))"] distinct_card [OF distinct_queued [OF ok]] by simp
  then show ?thesis using qi by (cases "queued_tasks ?db") auto
qed

text \<open>(C21) Pausing a running task and resuming it before the worker has acted on the pause runs it twice.
  The task is queued again while its coroutine is still alive, so with spare capacity the next
  admission starts a second one; the pool then knows only the second, still counts one, and no later
  tick, whatever flags are set, ever interrupts the first.\<close>

theorem resume_spawns_second_coroutine:
  assumes "db_ok (y_db y)" and "pool_ok y" and "(i, c) \<in> set (p_active (y_pool y))" and "\<not> co_interrupted (y_coroutines y ! c)"
    and "get_task_for_user user i (y_db y) = Some t" and "t_status t = Running"
    and "active_count y < p_max (y_pool y)" and "queued_tasks (y_db y) = []"
    and "y' = run (pool_step rp) [ApiPause n1 user i, ApiResume n2 user i, Admit n3] y"
  shows "y_coroutines y' = y_coroutines y @ [fresh i] \<and> task_stat (y_db y') i = Some Running
     \<and> dict_get (p_active (y_pool y')) i = Some (length (y_coroutines y)) \<and> active_count y' = active_count y
     \<and> (\<forall>b ts. \<not> co_interrupted (y_coroutines (ticks ts (y'\<lparr>y_bus := b\<rparr>)) ! c))"
proof -
  have f: "find_task (y_db y) i = Some t" using get_task_for_user_Some [OF assms(1,5)] by blast
  let ?db = "set_task_status n2 i Queued None (set_task_status n1 i Paused None (y_db y))"
  let ?b = "clear_restart_request i (clear_cancel_request i (clear_pause_request i (request_pause i (y_bus y))))"
  have g: "\<exists>t'. get_task_for_user user i (set_task_status n1 i Paused None (y_db y)) = Some t' \<and> t_status t' = Paused"
  proof -
    have "find (\<lambda>t. t_user t = user \<and> t_id t = i) (map (\<lambda>t. if t_id t = i then t\<lparr>t_status := Paused, t_error := None, t_awaiting := None, t_updated := n1\<rparr> else t) ts)
       = map_option (\<lambda>t. t\<lparr>t_status := Paused, t_error := None, t_awaiting := None, t_updated := n1\<rparr>) (find (\<lambda>t. t_user t = user \<and> t_id t = i) ts)" for ts :: "task_row list"
      by (induction ts) auto
    then show ?thesis using assms(5) by (simp add: get_task_for_user_def set_task_status_def update_task_def)
  qed
  let ?y2 = "y\<lparr>y_db := ?db, y_bus := ?b\<rparr>"
  have y2: "run (pool_step rp) [ApiPause n1 user i, ApiResume n2 user i] y = ?y2"
    using assms(5,6) g by (auto simp: on_world_def pause_one_def resume_one_def can_pause_def can_resume_def
        pausable_statuses_def resumable_statuses_def)
  obtain q where q: "queued_tasks (y_db ?y2) = [q]" "t_id q = i" using queued_after_pause_resume [OF assms(1) f assms(8)] by auto
  have fate: "fate (y_bus ?y2) (t_id q) = Running" by (simp add: q fate_def bus_defs)
  have "y' = fst (admit n3 False ?y2)" using y2 assms(9) by simp
  moreover have "active_count ?y2 < p_max (y_pool ?y2)" using assms(7) by (simp add: active_count_def)
  ultimately have y': "y' = ?y2\<lparr>y_db := set_task_status_by_id n3 i Running ?db, y_bus := clear_cancel_request i ?b,
     y_pool := (y_pool y)\<lparr>p_active := dict_set (p_active (y_pool y)) i (length (y_coroutines y))\<rparr>,
     y_coroutines := y_coroutines y @ [fresh i]\<rparr>"
    using admit_single [OF q(1) _ fate, of n3 False] q(2) by simp
  have c: "c < length (y_coroutines y)" using assms(2,3) by (auto simp: pool_ok_def)
  have len: "length (dict_set d i v) = length d" if "i \<in> fst ` set d" for d :: "(uuid \<times> nat) list" and v
    using that arg_cong [OF keys_dict_set [of d i v], of length] by simp
  have act: "i \<in> fst ` set (p_active (y_pool y))" using assms(3) by force
  have "c \<notin> snd ` set (dict_set (p_active (y_pool y)) i (length (y_coroutines y)))"
  proof -
    have "(i, c) \<in> set d \<Longrightarrow> sorted_wrt (\<lambda>a b. apart a b \<and> apart b a) d \<Longrightarrow> n \<noteq> c \<Longrightarrow> c \<notin> snd ` set (dict_set d i n)" for d n
      by (induction d i n rule: dict_set.induct) (auto simp: apart_def)
    then show ?thesis using assms(2,3) c by (auto simp: pool_ok_def)
  qed
  then have "\<not> co_interrupted (y_coroutines (ticks ts (y'\<lparr>y_bus := b\<rparr>)) ! c)" for b ts
    using assms(4) c unknown_not_interrupted [of c "y'\<lparr>y_bus := b\<rparr>" ts] by (simp add: y' nth_append)
  moreover have "task_stat (y_db y') i = Some Running"
    using f by (simp add: y' task_stat_def find_set_status_by_id find_set_task_status)
  ultimately show ?thesis using len [OF act] by (simp add: y' active_count_def)
qed

definition busy_system :: system where
  "busy_system = \<lparr>y_db = \<lparr>db_tasks = [sample_task 1 7 Running 20], db_asr = []\<rparr>, y_bus = empty_bus,
     y_pool = \<lparr>p_max = 2, p_active = [(1, 0)], p_cancel_sent = [], p_deadline = []\<rparr>, y_coroutines = [fresh 1]\<rparr>"

theorem resume_spawns_second_coroutine_witness:
  "y_coroutines (run (pool_step (\<lambda>v. [])) [ApiPause 30 7 1, ApiResume 31 7 1, Admit 32] busy_system) = [fresh 1, fresh 1]
   \<and> active_count (run (pool_step (\<lambda>v. [])) [ApiPause 30 7 1, ApiResume 31 7 1, Admit 32] busy_system) = 1"
proof -
  have h: "db_ok (y_db busy_system)" "pool_ok busy_system" "(1, 0) \<in> set (p_active (y_pool busy_system))"
    "\<not> co_interrupted (y_coroutines busy_system ! 0)"
    "get_task_for_user 7 1 (y_db busy_system) = Some (sample_task 1 7 Running 20)"
    "t_status (sample_task 1 7 Running 20) = Running" "active_count busy_system < p_max (y_pool busy_system)"
    "queued_tasks (y_db busy_system) = []"
    by (simp_all add: busy_system_def db_ok_def task_ok_def pool_ok_def fresh_def get_task_for_user_def sample_task_def
        active_count_def queued_tasks_def)
  have b: "y_coroutines busy_system = [fresh 1]" "active_count busy_system = 1" by (simp_all add: busy_system_def active_count_def)
  show ?thesis using resume_spawns_second_coroutine [OF h refl, of "\<lambda>v. []" 30 31 32] b by simp
qed

end
