(* ===== verification/Processor.thy ===== *)
theory Processor
  imports Task_Control "HOL-Library.Sublist"
begin

text \<open>
  \<open>TaskProcessor\<close> (\<open>vts/pipeline/processor.py\<close>) with the status marks of \<open>PipelineContext\<close>
  (\<open>vts/pipeline/context.py\<close>): one run of a task over its steps, the table of outcomes, the donor
  shortcut, and what an interruption records.

  The tables, the request flags and the list of what was announced are the state. What the run does
  not decide itself is an environment: whether a step's output is already there, whether its lane is
  contended, what its body does (and what everybody else does meanwhile), what others do between two
  steps, and where an interruption arrives. A write to a row that is gone raises, as the flush of an
  object whose row was deleted does.
\<close>

section \<open>What is announced, and how a run can end\<close>

datatype exn = TaskPaused | TaskAwaitingInput ustr | TaskGone | DiarizationCancelled | DownloadCancelled
  | CancelledError | StaleRow | Failure ustr

text \<open>A status event, the event of a failure with its code, the event of a wait, a step event with its
  error, a push message, and the notification that deliveries were queued.\<close>

datatype notice =
    StatusEvent uuid task_status
  | FailedEvent uuid ustr "ustr option"
  | AwaitingEvent uuid ustr
  | StepEvent uuid ustr step_status "ustr option"
  | Push uuid task_status "ustr option"
  | DeliveriesQueued uuid

record proc =
  x_db :: task_db
  x_bus :: bus
  x_out :: "notice list"

datatype ended = Fine | Stop | Raised exn

record run_env =
  ev_now :: instant
  ev_unicode :: unicode
  ev_repr :: "json \<Rightarrow> ustr"
  ev_donors :: bool
  ev_done :: "ustr \<Rightarrow> bool"
  ev_contended :: "ustr \<Rightarrow> bool"
  ev_wait :: "ustr \<Rightarrow> world \<Rightarrow> world \<times> bool"
  ev_body :: "ustr \<Rightarrow> world \<Rightarrow> world \<times> exn option"
  ev_outside :: "nat \<Rightarrow> world \<Rightarrow> world \<times> bool"
  ev_finishing :: "world \<Rightarrow> world"
  ev_enqueue :: "task_row \<Rightarrow> nat option"

text \<open>Sequencing: what follows runs only after a normal end.\<close>

definition next_do :: "proc \<times> ended \<Rightarrow> (proc \<Rightarrow> proc \<times> ended) \<Rightarrow> proc \<times> ended" where
  "next_do r f = (case r of (x, Fine) \<Rightarrow> f x | _ \<Rightarrow> r)"

definition publish :: "notice \<Rightarrow> proc \<Rightarrow> proc" where
  "publish n x = x\<lparr>x_out := x_out x @ [n]\<rparr>"

definition exn_text :: "exn \<Rightarrow> ustr" where
  "exn_text e = (case e of Failure msg \<Rightarrow> msg | TaskAwaitingInput s \<Rightarrow> s | _ \<Rightarrow> [])"

section \<open>Failure codes\<close>

definition live_not_started_patterns :: "ustr list" where
  "live_not_started_patterns = map lit [''this live event will begin in a few moments'',
     ''this live event has not started'', ''premieres in'']"

definition classify_failure_code :: "unicode \<Rightarrow> ustr \<Rightarrow> ustr option" where
  "classify_failure_code uc error_message =
     (let message = strip error_message in
      if message = [] then None
      else if list_ex (\<lambda>p. contains p (uc_lower uc message)) live_not_started_patterns
      then Some (lit ''download_live_not_started'') else None)"

section \<open>Writes and checks\<close>

definition upd_db :: "(task_db \<Rightarrow> task_db) \<Rightarrow> proc \<Rightarrow> proc" where
  "upd_db f x = x\<lparr>x_db := f (x_db x)\<rparr>"

definition set_world :: "world \<Rightarrow> proc \<Rightarrow> proc" where
  "set_world w x = x\<lparr>x_db := fst w, x_bus := snd w\<rparr>"

definition write_status :: "run_env \<Rightarrow> uuid \<Rightarrow> task_status \<Rightarrow> ustr option \<Rightarrow> proc \<Rightarrow> proc \<times> ended" where
  "write_status env i s err x = (if find_task (x_db x) i = None then (x, Raised StaleRow)
     else (upd_db (set_task_status (ev_now env) i s err) x, Fine))"

definition write_awaiting :: "run_env \<Rightarrow> uuid \<Rightarrow> ustr \<Rightarrow> proc \<Rightarrow> proc \<times> ended" where
  "write_awaiting env i step x = (if find_task (x_db x) i = None then (x, Raised StaleRow)
     else (upd_db (set_awaiting_input (ev_now env) i step) x, Fine))"

definition write_step ::
  "run_env \<Rightarrow> uuid \<Rightarrow> ustr \<Rightarrow> step_status \<Rightarrow> ustr option \<Rightarrow> proc \<Rightarrow> proc \<times> ended" where
  "write_step env i name s msg x =
     (case find_task (x_db x) i of None \<Rightarrow> (x, Raised StaleRow)
      | Some t \<Rightarrow> if find_step name (t_steps t) = None then (x, Raised StaleRow)
                  else (upd_db (set_step_status (ev_now env) i name s msg) x, Fine))"

definition check_paused :: "uuid \<Rightarrow> proc \<Rightarrow> proc \<times> ended" where
  "check_paused i x = (x, if b_pause (x_bus x) i then Raised TaskPaused else Fine)"

definition refresh_task :: "uuid \<Rightarrow> proc \<Rightarrow> proc \<times> ended" where
  "refresh_task i x = (x, if find_task (x_db x) i = None then Raised TaskGone else Fine)"

definition stat_of :: "proc \<Rightarrow> uuid \<Rightarrow> task_status option" where
  "stat_of x i = task_stat (x_db x) i"

definition mark_waiting :: "run_env \<Rightarrow> uuid \<Rightarrow> proc \<Rightarrow> proc" where
  "mark_waiting env i x = (case transition_task_status (ev_now env) i [Running] Waiting (x_db x) of
     (db, changed) \<Rightarrow> (if changed then publish (StatusEvent i Waiting) else id) (x\<lparr>x_db := db\<rparr>))"

definition mark_running :: "run_env \<Rightarrow> uuid \<Rightarrow> proc \<Rightarrow> proc" where
  "mark_running env i x = (case transition_task_status (ev_now env) i [Waiting] Running (x_db x) of
     (db, changed) \<Rightarrow> (if changed then publish (StatusEvent i Running) else id) (x\<lparr>x_db := db\<rparr>))"

text \<open>Entering the step's lane: a contended one marks the task waiting, and an interruption may arrive
  while it waits.\<close>

definition enter_lane :: "run_env \<Rightarrow> uuid \<Rightarrow> ustr \<Rightarrow> proc \<Rightarrow> proc \<times> ended" where
  "enter_lane env i name x =
     (if \<not> ev_contended env name then (x, Fine)
      else (let x1 = mark_waiting env i x in
            (case ev_wait env name (x_db x1, x_bus x1) of (w, interrupted) \<Rightarrow>
               if interrupted then (set_world w x1, Raised CancelledError)
               else (mark_running env i (set_world w x1), Fine))))"

section \<open>One step\<close>

definition finish_step :: "run_env \<Rightarrow> uuid \<Rightarrow> ustr \<Rightarrow> step_status \<Rightarrow> ustr option \<Rightarrow> ended \<Rightarrow> proc \<Rightarrow> proc \<times> ended" where
  "finish_step env i name s msg e x =
     next_do (write_step env i name s msg x) (\<lambda>x. (publish (StepEvent i name s msg) x, e))"

definition run_body :: "run_env \<Rightarrow> uuid \<Rightarrow> ustr \<Rightarrow> proc \<Rightarrow> proc \<times> ended" where
  "run_body env i name x =
     (case ev_body env name (x_db x, x_bus x) of (w, r) \<Rightarrow>
       (let x1 = set_world w x in
        (case r of
           None \<Rightarrow> finish_step env i name SCompleted None Fine x1
         | Some (TaskAwaitingInput s) \<Rightarrow> finish_step env i name SCompleted None (Raised (TaskAwaitingInput s)) x1
         | Some TaskPaused \<Rightarrow> finish_step env i name SPending None (Raised TaskPaused) x1
         | Some CancelledError \<Rightarrow> (x1, Raised CancelledError)
         | Some e \<Rightarrow> finish_step env i name SFailed (Some (exn_text e)) (Raised e) x1)))"

definition run_step :: "run_env \<Rightarrow> uuid \<Rightarrow> ustr \<Rightarrow> jdict \<Rightarrow> proc \<Rightarrow> proc \<times> ended" where
  "run_step env i name options x =
     (if find_task (x_db x) i = None then (x, Raised StaleRow)
      else (let x1 = upd_db (upsert_step i name) x;
                status = (case find_task (x_db x1) i of None \<Rightarrow> None
                          | Some t \<Rightarrow> map_option st_status (find_step name (t_steps t))) in
        if \<not> is_step_enabled (ev_unicode env) (ev_repr env) name options
        then next_do (if status \<noteq> Some SSkipped
                      then write_step env i name SSkipped (Some (lit ''Disabled by task options'')) x1 else (x1, Fine))
               (\<lambda>x. (publish (StepEvent i name SSkipped None) x, Fine))
        else if status = Some SCompleted \<and> ev_done env name then (x1, Fine)
        else next_do (enter_lane env i name x1)
               (\<lambda>x. next_do (write_step env i name SRunning None x)
                 (\<lambda>x. run_body env i name (publish (StepEvent i name SRunning None) x)))))"

section \<open>The loop over the steps\<close>

fun step_loop :: "run_env \<Rightarrow> uuid \<Rightarrow> jdict \<Rightarrow> nat \<Rightarrow> ustr list \<Rightarrow> proc \<Rightarrow> proc \<times> ended" where
  "step_loop env i options k [] x = (x, Fine)"
| "step_loop env i options k (name # names) x =
     (case ev_outside env k (x_db x, x_bus x) of (w, interrupted) \<Rightarrow>
        if interrupted then (set_world w x, Raised CancelledError)
        else next_do (check_paused i (set_world w x)) (\<lambda>x.
             next_do (refresh_task i x) (\<lambda>x.
               if stat_of x i = Some Canceled then (x, Stop)
               else next_do (run_step env i name options x) (\<lambda>x.
                    next_do (refresh_task i x) (\<lambda>x. step_loop env i options (k + 1) names x)))))"

text \<open>After the last step: the library record and the clean-up are left to the environment, with
  whatever others do meanwhile; the completion is written, announced and pushed, and the deliveries
  are queued, a failure of which changes nothing.\<close>

definition complete_task :: "run_env \<Rightarrow> uuid \<Rightarrow> proc \<Rightarrow> proc \<times> ended" where
  "complete_task env i x =
     next_do (write_status env i Completed None (set_world (ev_finishing env (x_db x, x_bus x)) x)) (\<lambda>x.
       (let x1 = publish (Push i Completed None) (publish (StatusEvent i Completed) x) in
        (case find_task (x_db x1) i of None \<Rightarrow> (x1, Fine)
         | Some t \<Rightarrow> (case ev_enqueue env t of
             Some n \<Rightarrow> ((if n \<noteq> 0 then publish (DeliveriesQueued i) x1 else x1), Fine) | None \<Rightarrow> (x1, Fine)))))"

section \<open>Outcomes\<close>

definition record_cancellation :: "run_env \<Rightarrow> uuid \<Rightarrow> proc \<Rightarrow> proc \<times> ended" where
  "record_cancellation env i x =
     (if \<not> b_pause (x_bus x) i then (x, Fine)
      else next_do (refresh_task i (x\<lparr>x_bus := clear_pause_request i (x_bus x)\<rparr>)) (\<lambda>x.
           next_do (if stat_of x i \<noteq> Some Paused then write_status env i Paused None x else (x, Fine)) (\<lambda>x.
             (publish (StatusEvent i Paused) x, Fine))))"

fun handle :: "run_env \<Rightarrow> uuid \<Rightarrow> exn \<Rightarrow> proc \<Rightarrow> proc \<times> ended" where
  "handle env i TaskPaused x =
     next_do (refresh_task i (x\<lparr>x_bus := clear_pause_request i (x_bus x)\<rparr>)) (\<lambda>x.
       next_do (if stat_of x i \<noteq> Some Paused then write_status env i Paused None x else (x, Fine)) (\<lambda>x.
         (publish (StatusEvent i Paused) x, Fine)))"
| "handle env i (TaskAwaitingInput s) x =
     next_do (refresh_task i x) (\<lambda>x.
       next_do (if stat_of x i \<noteq> Some AwaitingInput then write_awaiting env i s x else (x, Fine)) (\<lambda>x.
         (publish (AwaitingEvent i s) x, Fine)))"
| "handle env i TaskGone x = (x\<lparr>x_bus := clear_pause_request i (x_bus x)\<rparr>, Fine)"
| "handle env i DiarizationCancelled x = (x\<lparr>x_bus := clear_pause_request i (x_bus x)\<rparr>, Fine)"
| "handle env i DownloadCancelled x = (x\<lparr>x_bus := clear_pause_request i (x_bus x)\<rparr>, Fine)"
| "handle env i CancelledError x = (fst (record_cancellation env i x), Raised CancelledError)"
| "handle env i e x =
     next_do (write_status env i Failed (Some (exn_text e)) x) (\<lambda>x.
       (publish (Push i Failed (Some (exn_text e)))
          (publish (FailedEvent i (exn_text e) (classify_failure_code (ev_unicode env) (exn_text e))) x), Fine))"

text \<open>The body of the \<open>try\<close>, and the run with its handlers.\<close>

definition run_steps :: "run_env \<Rightarrow> uuid \<Rightarrow> jdict \<Rightarrow> proc \<Rightarrow> proc \<times> ended" where
  "run_steps env i options x =
     next_do (step_loop env i options 0 (build_dag_steps (ev_repr env) (JDict options)) x) (complete_task env i)"

definition settle :: "run_env \<Rightarrow> uuid \<Rightarrow> proc \<times> ended \<Rightarrow> proc \<times> ended" where
  "settle env i r = (case r of (x, Raised e) \<Rightarrow> handle env i e x | (x, _) \<Rightarrow> (x, Fine))"

text \<open>The shortcut: the state and whether to go on. A failed clone is rolled back.\<close>

definition try_donor_clone :: "run_env \<Rightarrow> task_row \<Rightarrow> proc \<Rightarrow> proc \<times> bool" where
  "try_donor_clone env t x =
     (case (if ev_donors env then find_completed_donor (t_url t) (t_options t) (t_user t) (x_db x) else None) of
        None \<Rightarrow> (x, True)
      | Some d \<Rightarrow> (case clone_from_donor (ev_now env) (t_id t) d (x_db x) of
          None \<Rightarrow> (x, find_task (x_db x) (t_id t) \<noteq> None)
        | Some db \<Rightarrow> (publish (StatusEvent (t_id t) Completed) (x\<lparr>x_db := db\<rparr>), False)))"

definition process_task :: "run_env \<Rightarrow> uuid \<Rightarrow> proc \<Rightarrow> proc \<times> ended" where
  "process_task env i x =
     (case find_task (x_db x) i of None \<Rightarrow> (x, Fine)
      | Some t \<Rightarrow>
        if is_skippable_on_start (t_status t) then (x, Fine)
        else (case try_donor_clone env t x of
            (x1, False) \<Rightarrow> (x1, Fine)
          | (x1, True) \<Rightarrow>
              next_do (write_status env i Running None x1) (\<lambda>x2.
                settle env i (run_steps env i (as_dict (t_options t)) (publish (StatusEvent i Running) x2)))))"

section \<open>The write behind an interruption\<close>

text \<open>\<open>_handle_cancellation\<close>: the write runs on its own and ends at \<open>done_at\<close> (never, when \<open>None\<close>); at the
  times of \<open>cancels\<close> further cancellations arrive. Whether the write is awaited to its end.\<close>

definition absorb_budget :: rat where "absorb_budget = 5"

definition write_done :: "rat option \<Rightarrow> rat \<Rightarrow> bool" where
  "write_done done_at t = (case done_at of None \<Rightarrow> False | Some d \<Rightarrow> d \<le> t)"

fun absorb_cancels :: "rat \<Rightarrow> rat option \<Rightarrow> rat \<Rightarrow> rat list \<Rightarrow> bool" where
  "absorb_cancels deadline done_at now [] =
     (now < deadline \<and> write_done done_at deadline)"
| "absorb_cancels deadline done_at now (c # cs) =
     (if deadline \<le> now then False
      else if c < deadline \<and> \<not> write_done done_at c then absorb_cancels deadline done_at (max now c) cs
      else write_done done_at deadline)"

definition handle_cancellation :: "rat \<Rightarrow> rat option \<Rightarrow> rat list \<Rightarrow> bool" where
  "handle_cancellation start done_at cancels = absorb_cancels (start + absorb_budget) done_at start cancels"

section \<open>Sequencing and writing\<close>

lemma next_do_simps [simp]:
  "next_do (x, Fine) f = f x" "next_do (x, Stop) f = (x, Stop)" "next_do (x, Raised e) f = (x, Raised e)"
  by (simp_all add: next_do_def)

lemma next_do_Fine: "next_do r f = (y, Fine) \<longleftrightarrow> (\<exists>x. r = (x, Fine) \<and> f x = (y, Fine))"
  by (cases r; cases "snd r") (auto simp: next_do_def)

lemma next_do_Stop: "next_do r f = (y, Stop) \<longleftrightarrow> r = (y, Stop) \<or> (\<exists>x. r = (x, Fine) \<and> f x = (y, Stop))"
  by (cases r; cases "snd r") (auto simp: next_do_def)

lemma find_task_steps:
  "find_task (set_step_status now i name s msg db) j = (if j = i then map_option (\<lambda>t. t\<lparr>t_steps := map (\<lambda>r. if st_name r = name
      then step_status_update now s msg r else r) (t_steps t)\<rparr>) (find_task db i) else find_task db j)"
  by (simp add: set_step_status_def find_update_task keeps_identity_def)

lemma find_task_upsert:
  "find_task (upsert_step i name db) j = (if j = i then map_option (\<lambda>t. t\<lparr>t_steps := upsert_step_row name (t_steps t)\<rparr>) (find_task db i)
     else find_task db j)"
  by (simp add: upsert_step_def find_update_task keeps_identity_def)

lemma write_status_cases:
  "(find_task (x_db x) i = None \<and> write_status env i s err x = (x, Raised StaleRow))
   \<or> (\<exists>t. find_task (x_db x) i = Some t \<and> write_status env i s err x = (upd_db (set_task_status (ev_now env) i s err) x, Fine)
        \<and> stat_of (upd_db (set_task_status (ev_now env) i s err) x) i = Some s)"
  by (auto simp: write_status_def upd_db_def stat_of_def task_stat_def find_set_task_status)

lemmas proc_defs = publish_def upd_db_def set_world_def stat_of_def

lemma write_status_Fine:
  "write_status env i s err x = (y, Fine) \<Longrightarrow> stat_of y i = Some s \<and> x_out y = x_out x \<and> x_bus y = x_bus x"
  using write_status_cases [of x i env s err] by (auto simp: upd_db_def)

lemma write_awaiting_Fine:
  "write_awaiting env i s x = (y, Fine) \<Longrightarrow> stat_of y i = Some AwaitingInput \<and> x_out y = x_out x \<and> x_bus y = x_bus x"
  by (auto simp: write_awaiting_def upd_db_def stat_of_def task_stat_def find_set_awaiting_input split: if_splits)

lemma publish_simps [simp]:
  "x_db (publish n x) = x_db x" "x_bus (publish n x) = x_bus x" "x_out (publish n x) = x_out x @ [n]"
  "stat_of (publish n x) i = stat_of x i"
  by (simp_all add: publish_def stat_of_def)

section \<open>How a run settles\<close>

fun told_status :: "uuid \<Rightarrow> notice \<Rightarrow> task_status option" where
  "told_status i (StatusEvent j s) = (if j = i then Some s else None)"
| "told_status i (FailedEvent j _ _) = (if j = i then Some Failed else None)"
| "told_status i (AwaitingEvent j _) = (if j = i then Some AwaitingInput else None)"
| "told_status i _ = None"

text \<open>The status the user was told last.\<close>

definition last_told :: "uuid \<Rightarrow> proc \<Rightarrow> task_status option" where
  "last_told i x = (case rev (List.map_filter (told_status i) (x_out x)) of [] \<Rightarrow> None | s # _ \<Rightarrow> Some s)"

lemma last_told_publish [simp]:
  "last_told i (publish n x) = (case told_status i n of None \<Rightarrow> last_told i x | Some s \<Rightarrow> Some s)"
  by (simp add: last_told_def map_filter_def split: option.split)

fun discarding :: "exn \<Rightarrow> bool" where
  "discarding TaskGone = True" | "discarding DiarizationCancelled = True" | "discarding DownloadCancelled = True"
| "discarding e = False"

lemma handle_settles:
  assumes "handle env i e x = (y, Fine)" and "\<not> discarding e"
  shows "\<exists>s. stat_of y i = Some s \<and> s \<in> {Paused, AwaitingInput, Failed} \<and> last_told i y = Some s"
proof (cases e)
  case TaskPaused
  then show ?thesis using assms
    by (auto simp: next_do_Fine refresh_task_def dest: write_status_Fine split: if_splits)
next
  case (TaskAwaitingInput s)
  then show ?thesis using assms
    by (auto simp: next_do_Fine refresh_task_def dest: write_awaiting_Fine split: if_splits)
qed (use assms in \<open>auto simp: next_do_Fine dest: write_status_Fine\<close>)

lemma complete_task_cases:
  assumes "complete_task env i x = (y, Fine)"
  obtains xa where "write_status env i Completed None (set_world (ev_finishing env (x_db x, x_bus x)) x) = (xa, Fine)"
    and "y = publish (Push i Completed None) (publish (StatusEvent i Completed) xa)
      \<or> y = publish (DeliveriesQueued i) (publish (Push i Completed None) (publish (StatusEvent i Completed) xa))"
proof -
  obtain xa where w: "write_status env i Completed None (set_world (ev_finishing env (x_db x, x_bus x)) x) = (xa, Fine)"
    and y: "(let x1 = publish (Push i Completed None) (publish (StatusEvent i Completed) xa) in
        (case find_task (x_db x1) i of None \<Rightarrow> (x1, Fine)
         | Some t \<Rightarrow> (case ev_enqueue env t of
             Some n \<Rightarrow> ((if n \<noteq> 0 then publish (DeliveriesQueued i) x1 else x1), Fine) | None \<Rightarrow> (x1, Fine)))) = (y, Fine)"
    using assms unfolding complete_task_def next_do_Fine by blast
  show ?thesis
    by (rule that [OF w]) (use y in \<open>auto simp: Let_def split: option.splits if_splits\<close>)
qed

lemma complete_settles:
  assumes "complete_task env i x = (y, Fine)"
  shows "stat_of y i = Some Completed \<and> last_told i y = Some Completed"
  using assms by (rule complete_task_cases) (auto dest!: write_status_Fine)

text \<open>A run stops without an exception only at a task it finds cancelled.\<close>

lemma writes_never_stop:
  "write_status env i s err x \<noteq> (y, Stop)" "write_step env i n ss err x \<noteq> (y, Stop)"
  "enter_lane env i n x \<noteq> (y, Stop)" "refresh_task i x \<noteq> (y, Stop)" "check_paused i x \<noteq> (y, Stop)"
  by (auto simp: write_status_def write_step_def enter_lane_def refresh_task_def check_paused_def Let_def
      split: option.splits prod.splits if_splits)

lemma run_step_never_stops: "run_step env i n options x \<noteq> (y, Stop)"
proof -
  have b: "run_body env i n x \<noteq> (y, Stop)" for x
    by (auto simp: run_body_def finish_step_def next_do_Stop writes_never_stop Let_def
        split: prod.splits option.splits exn.splits)
  show ?thesis
    by (auto simp: run_step_def next_do_Stop writes_never_stop b Let_def)
qed

lemma step_loop_stops: "step_loop env i options k ns x = (y, Stop) \<Longrightarrow> stat_of y i = Some Canceled"
  by (induction ns arbitrary: k x)
    (auto simp: next_do_Stop writes_never_stop run_step_never_stops split: prod.splits if_splits)

lemma complete_task_never_stops: "complete_task env i x \<noteq> (y, Stop)"
proof -
  have "(case o1 of None \<Rightarrow> (a, Fine) | Some t \<Rightarrow> (case f t of Some n \<Rightarrow> (g n, Fine) | None \<Rightarrow> (a, Fine))) \<noteq> (y, Stop)"
    for o1 and a :: proc and f :: "task_row \<Rightarrow> nat option" and g
    by (auto split: option.splits)
  then show ?thesis by (auto simp: complete_task_def next_do_Stop writes_never_stop Let_def)
qed

lemma run_steps_stops: "run_steps env i options x = (y, Stop) \<Longrightarrow> stat_of y i = Some Canceled"
  by (auto simp: run_steps_def next_do_Stop complete_task_never_stops dest: step_loop_stops)

text \<open>(C24) A run that ends normally settles its task and says so: the task was already over and nothing
  is touched; or its status is one of completed, paused, waiting for input and failed and that status
  is the last one announced; or the run stopped at a task the user had cancelled; or the run of its
  steps was discarded (its row deleted, or a long step cancelled by the user) and the only thing done
  after that is to withdraw the pause request.\<close>

theorem run_settles_task:
  assumes "process_task env i x = (y, Fine)" and "find_task (x_db x) i = Some t"
  shows "(is_skippable_on_start (t_status t) \<and> y = x)
     \<or> (\<exists>s. stat_of y i = Some s \<and> s \<in> {Completed, Paused, AwaitingInput, Failed} \<and> last_told i y = Some s)
     \<or> stat_of y i = Some Canceled
     \<or> (\<exists>z z' e. run_steps env i (as_dict (t_options t)) z = (z', Raised e) \<and> discarding e
          \<and> y = z'\<lparr>x_bus := clear_pause_request i (x_bus z')\<rparr>)"
proof (cases "is_skippable_on_start (t_status t)")
  case True
  then show ?thesis using assms by (simp add: process_task_def)
next
  case False
  obtain x1 go where d: "try_donor_clone env t x = (x1, go)" by (metis prod.exhaust)
  show ?thesis
  proof (cases go)
    case False
    have ti: "t_id t = i" using find_task_Some [OF assms(2)] by simp
    have y: "y = x1" using assms d False \<open>\<not> is_skippable_on_start (t_status t)\<close> by (simp add: process_task_def)
    have "stat_of x1 i = Some Completed \<and> last_told i x1 = Some Completed"
      using d False assms(2) ti clone_from_donor_Some
      by (fastforce simp: try_donor_clone_def stat_of_def task_stat_def split: option.splits)
    then show ?thesis using y by blast
  next
    case True
    then obtain x2 where w: "settle env i (run_steps env i (as_dict (t_options t)) (publish (StatusEvent i Running) x2)) = (y, Fine)"
      using assms d \<open>\<not> is_skippable_on_start (t_status t)\<close> by (auto simp: process_task_def next_do_Fine)
    obtain z' e where r: "run_steps env i (as_dict (t_options t)) (publish (StatusEvent i Running) x2) = (z', e)" by (metis prod.exhaust)
    show ?thesis
    proof (cases e)
      case Fine
      then have "y = z'" using w r by (simp add: settle_def)
      moreover obtain z where "complete_task env i z = (z', Fine)" using r Fine by (auto simp: run_steps_def next_do_Fine)
      ultimately show ?thesis using complete_settles by blast
    next
      case Stop
      then have "y = z'" using w r by (simp add: settle_def)
      then show ?thesis using r Stop run_steps_stops by blast
    next
      case (Raised ex)
      then have h: "handle env i ex z' = (y, Fine)" using w r by (simp add: settle_def)
      show ?thesis
      proof (cases "discarding ex")
        case True
        then have "y = z'\<lparr>x_bus := clear_pause_request i (x_bus z')\<rparr>" using h by (cases ex) auto
        then show ?thesis using r Raised True by blast
      next
        case False
        then show ?thesis using handle_settles [OF h] by blast
      qed
    qed
  qed
qed

section \<open>The write behind an interruption, bounded\<close>

text \<open>The bookkeeping of an interruption is awaited to its end exactly when it ends within five
  seconds: no number of further cancellations, whenever they arrive, loses it or prolongs it.\<close>

theorem cancellation_write_bounded:
  assumes "sorted cancels" and "\<forall>c\<in>set cancels. start \<le> c"
  shows "handle_cancellation start done_at cancels \<longleftrightarrow> (\<exists>d. done_at = Some d \<and> d \<le> start + 5)"
proof -
  have "absorb_cancels deadline done_at now cs = write_done done_at deadline"
    if "now < deadline" "sorted cs" "\<forall>c\<in>set cs. now \<le> c" for now deadline cs
    using that
  proof (induction cs arbitrary: now)
    case (Cons c cs)
    then show ?case by (auto simp: max_def)
  qed simp
  from this [of start "start + absorb_budget"] show ?thesis
    using assms by (auto simp: handle_cancellation_def absorb_budget_def write_done_def split: option.split)
qed

theorem cancellation_write_bounded_witness:
  "handle_cancellation 10 (Some 14) [11, 12, 13] \<and> \<not> handle_cancellation 10 (Some 16) [11, 12]"
  using cancellation_write_bounded [of "[11, 12, 13]" 10 "Some 14"] cancellation_write_bounded [of "[11, 12]" 10 "Some 16"] by simp

section \<open>Which steps a run starts\<close>

definition sstat :: "proc \<Rightarrow> uuid \<Rightarrow> ustr \<Rightarrow> step_status option" where
  "sstat x i n = Option.bind (find_task (x_db x) i) (\<lambda>t. map_option st_status (find_step n (t_steps t)))"

fun start_of :: "uuid \<Rightarrow> notice \<Rightarrow> ustr option" where
  "start_of i (StepEvent j n SRunning _) = (if j = i then Some n else None)"
| "start_of i _ = None"

definition started :: "uuid \<Rightarrow> proc \<Rightarrow> ustr list" where
  "started i x = List.map_filter (start_of i) (x_out x)"

lemma started_publish [simp]:
  "started i (publish n x) = started i x @ (case start_of i n of None \<Rightarrow> [] | Some m \<Rightarrow> [m])"
  by (simp add: started_def map_filter_def split: option.split)

lemma started_same: "x_out y = x_out x \<Longrightarrow> started i y = started i x"
  by (simp add: started_def)

lemma sstat_publish [simp]: "sstat (publish n x) i m = sstat x i m"
  by (simp add: sstat_def)

lemma find_step_map:
  "(\<And>r. st_name (f r) = st_name r) \<Longrightarrow> find_step n (map f ss) = map_option f (find_step n ss)"
  unfolding find_step_def by (induction ss) auto

lemma find_step_update:
  "find_step m (map (\<lambda>r. if st_name r = n then step_status_update now s msg r else r) ss)
     = (if m = n then map_option (step_status_update now s msg) (find_step m ss) else find_step m ss)"
proof -
  have "st_name (if st_name r = n then step_status_update now s msg r else r) = st_name r" for r
    by (simp add: step_status_update_def Let_def)
  then have "find_step m (map (\<lambda>r. if st_name r = n then step_status_update now s msg r else r) ss)
     = map_option (\<lambda>r. if st_name r = n then step_status_update now s msg r else r) (find_step m ss)"
    by (rule find_step_map)
  moreover have "find_step m ss = Some r \<Longrightarrow> st_name r = m" for r
    unfolding find_step_def by (induction ss) (auto split: if_splits)
  ultimately show ?thesis by (cases "find_step m ss") auto
qed

lemma find_step_upsert:
  "find_step m (upsert_step_row n ss) = (if m = n \<and> find_step n ss = None then Some (new_step n) else find_step m ss)"
proof -
  have "find_step n ss = None \<longleftrightarrow> \<not> list_ex (\<lambda>s. st_name s = n) ss"
    unfolding find_step_def by (induction ss) auto
  moreover have "find_step m (ss @ [new_step n]) = (case find_step m ss of Some r \<Rightarrow> Some r | None \<Rightarrow> if m = n then Some (new_step n) else None)"
    unfolding find_step_def by (induction ss) (auto simp: new_step_def)
  ultimately show ?thesis by (auto simp: upsert_step_row_def split: option.split)
qed

lemma write_step_ok:
  assumes "sstat x i n \<noteq> None"
  obtains y where "write_step env i n s msg x = (y, Fine)" and "x_out y = x_out x" and "x_bus y = x_bus x"
    and "stat_of y i = stat_of x i" and "\<And>m. sstat y i m = (if m = n then Some s else sstat x i m)"
proof -
  obtain t r where t: "find_task (x_db x) i = Some t" "find_step n (t_steps t) = Some r"
    using assms by (auto simp: sstat_def bind_eq_Some_conv)
  let ?y = "upd_db (set_step_status (ev_now env) i n s msg) x"
  have st: "st_status (step_status_update now s msg r) = s" for now r
    by (simp add: step_status_update_def Let_def)
  show ?thesis
    by (rule that [of ?y])
       (auto simp: write_step_def t upd_db_def stat_of_def task_stat_def find_task_steps sstat_def find_step_update st)
qed

lemma upsert_effect:
  assumes "find_task (x_db x) i = Some t"
  shows "x_out (upd_db (upsert_step i n) x) = x_out x" "x_bus (upd_db (upsert_step i n) x) = x_bus x"
    "stat_of (upd_db (upsert_step i n) x) i = stat_of x i" "find_task (x_db (upd_db (upsert_step i n) x)) i \<noteq> None"
    "sstat (upd_db (upsert_step i n) x) i m = (if m = n \<and> sstat x i n = None then Some SPending else sstat x i m)"
  using assms by (auto simp: upd_db_def stat_of_def task_stat_def find_task_upsert sstat_def find_step_upsert new_step_def)

text \<open>What a step's body may do to the tables without disturbing the run: the row of the task keeps its
  status and steps, and no pause is requested.\<close>

definition undisturbed :: "uuid \<Rightarrow> world \<Rightarrow> world \<Rightarrow> bool" where
  "undisturbed i w w' \<longleftrightarrow> map_option (\<lambda>t. (t_status t, t_steps t)) (find_task (fst w') i) = map_option (\<lambda>t. (t_status t, t_steps t)) (find_task (fst w) i)
     \<and> b_pause (snd w') i = b_pause (snd w) i"

definition calm :: "run_env \<Rightarrow> uuid \<Rightarrow> bool" where
  "calm env i \<longleftrightarrow> (\<forall>k w. \<not> snd (ev_outside env k w) \<and> undisturbed i w (fst (ev_outside env k w)))
     \<and> (\<forall>n. \<not> ev_contended env n) \<and> (\<forall>n w. snd (ev_body env n w) = None \<and> undisturbed i w (fst (ev_body env n w)))
     \<and> (\<forall>w. undisturbed i w (ev_finishing env w))"

lemma set_world_effect:
  assumes "undisturbed i (x_db x, x_bus x) w"
  shows "x_out (set_world w x) = x_out x" "b_pause (x_bus (set_world w x)) i = b_pause (x_bus x) i"
    "stat_of (set_world w x) i = stat_of x i" "sstat (set_world w x) i m = sstat x i m"
proof -
  show "x_out (set_world w x) = x_out x" "b_pause (x_bus (set_world w x)) i = b_pause (x_bus x) i"
    using assms by (simp_all add: set_world_def undisturbed_def)
  have e: "map_option (\<lambda>t. (t_status t, t_steps t)) (find_task (fst w) i) = map_option (\<lambda>t. (t_status t, t_steps t)) (find_task (x_db x) i)"
    using assms by (simp add: undisturbed_def)
  show "stat_of (set_world w x) i = stat_of x i"
    using arg_cong [OF e, of "map_option fst"] by (simp add: stat_of_def task_stat_def set_world_def option.map_comp comp_def)
  have "sstat z i m = Option.bind (map_option (\<lambda>t. (t_status t, t_steps t)) (find_task (x_db z) i)) (\<lambda>p. map_option st_status (find_step m (snd p)))" for z
    by (cases "find_task (x_db z) i") (simp_all add: sstat_def)
  then show "sstat (set_world w x) i m = sstat x i m" using e by (simp add: set_world_def)
qed

definition needed :: "run_env \<Rightarrow> uuid \<Rightarrow> jdict \<Rightarrow> proc \<Rightarrow> ustr \<Rightarrow> bool" where
  "needed env i options x n \<longleftrightarrow> is_step_enabled (ev_unicode env) (ev_repr env) n options
     \<and> \<not> (sstat x i n = Some SCompleted \<and> ev_done env n)"

definition outcome_of :: "run_env \<Rightarrow> jdict \<Rightarrow> ustr \<Rightarrow> step_status" where
  "outcome_of env options n = (if is_step_enabled (ev_unicode env) (ev_repr env) n options then SCompleted else SSkipped)"

text \<open>A run in calm: what one step leaves.\<close>

definition ran :: "run_env \<Rightarrow> uuid \<Rightarrow> jdict \<Rightarrow> ustr list \<Rightarrow> proc \<Rightarrow> proc \<Rightarrow> bool" where
  "ran env i options ns x y \<longleftrightarrow> stat_of y i = stat_of x i \<and> b_pause (x_bus y) i = b_pause (x_bus x) i
     \<and> started i y = started i x @ filter (needed env i options x) ns
     \<and> (\<forall>m. sstat y i m = (if m \<in> set ns then Some (outcome_of env options m) else sstat x i m))"

lemma run_step_calm:
  assumes "calm env i" and "stat_of x i \<noteq> None"
  obtains y where "run_step env i n options x = (y, Fine)" and "ran env i options [n] x y"
proof -
  obtain t where t: "find_task (x_db x) i = Some t" using assms(2) by (auto simp: stat_of_def task_stat_def)
  let ?x1 = "upd_db (upsert_step i n) x"
  note up = upsert_effect [OF t, of n]
  have row: "sstat ?x1 i n \<noteq> None" by (simp add: up)
  have status: "(case find_task (x_db ?x1) i of None \<Rightarrow> None | Some t \<Rightarrow> map_option st_status (find_step n (t_steps t))) = sstat ?x1 i n"
    by (cases "find_task (x_db ?x1) i") (simp_all add: sstat_def)
  have rs: "run_step env i n options x =
       (if \<not> is_step_enabled (ev_unicode env) (ev_repr env) n options
        then next_do (if sstat ?x1 i n \<noteq> Some SSkipped
                      then write_step env i n SSkipped (Some (lit ''Disabled by task options'')) ?x1 else (?x1, Fine))
               (\<lambda>x. (publish (StepEvent i n SSkipped None) x, Fine))
        else if sstat ?x1 i n = Some SCompleted \<and> ev_done env n then (?x1, Fine)
        else next_do (enter_lane env i n ?x1)
               (\<lambda>x. next_do (write_step env i n SRunning None x)
                 (\<lambda>x. run_body env i n (publish (StepEvent i n SRunning None) x))))"
    using t status by (simp add: run_step_def Let_def)
  show ?thesis
  proof (cases "is_step_enabled (ev_unicode env) (ev_repr env) n options")
    case False
    show ?thesis
    proof (cases "sstat ?x1 i n = Some SSkipped")
      case True
      show ?thesis
        by (rule that [of "publish (StepEvent i n SSkipped None) ?x1"])
           (use rs False True up started_same [OF up(1), of i] in \<open>auto simp: ran_def needed_def outcome_of_def split: if_splits\<close>)
    next
      case skip: False
      obtain y where y: "write_step env i n SSkipped (Some (lit ''Disabled by task options'')) ?x1 = (y, Fine)"
        "x_out y = x_out ?x1" "x_bus y = x_bus ?x1" "stat_of y i = stat_of ?x1 i"
        "\<And>m. sstat y i m = (if m = n then Some SSkipped else sstat ?x1 i m)"
        using write_step_ok [OF row] by metis
      let ?p = "publish (StepEvent i n SSkipped None) y"
      have r: "run_step env i n options x = (?p, Fine)" using rs False skip y(1) by simp
      have "started i ?p = started i x" using started_same [of y x i] y(2) up(1) by simp
      moreover have "sstat ?p i m = (if m = n then Some SSkipped else sstat x i m)" for m
        using y(5) [of m] up(5) [of m] by simp
      ultimately have "ran env i options [n] x ?p"
        using False y(3,4) up(2,3) by (simp add: ran_def needed_def outcome_of_def)
      then show ?thesis using that r by blast
    qed
  next
    case True
    show ?thesis
    proof (cases "sstat ?x1 i n = Some SCompleted \<and> ev_done env n")
      case already: True
      show ?thesis
        by (rule that [of ?x1]) (use rs True already up started_same [OF up(1), of i] in \<open>auto simp: ran_def needed_def outcome_of_def split: if_splits\<close>)
    next
      case run: False
      have e: "enter_lane env i n ?x1 = (?x1, Fine)" using assms(1) by (simp add: enter_lane_def calm_def)
      obtain y where y: "write_step env i n SRunning None ?x1 = (y, Fine)" "x_out y = x_out ?x1" "x_bus y = x_bus ?x1"
        "stat_of y i = stat_of ?x1 i" "\<And>m. sstat y i m = (if m = n then Some SRunning else sstat ?x1 i m)"
        using write_step_ok [OF row] by metis
      let ?p = "publish (StepEvent i n SRunning None) y"
      obtain w where w: "ev_body env n (x_db ?p, x_bus ?p) = (w, None)" "undisturbed i (x_db ?p, x_bus ?p) w"
        using assms(1) unfolding calm_def by (metis prod.collapse)
      note sw = set_world_effect [OF w(2)]
      have "sstat (set_world w ?p) i n \<noteq> None" by (simp add: sw y)
      then obtain z where z: "write_step env i n SCompleted None (set_world w ?p) = (z, Fine)"
        "x_out z = x_out (set_world w ?p)" "x_bus z = x_bus (set_world w ?p)" "stat_of z i = stat_of (set_world w ?p) i"
        "\<And>m. sstat z i m = (if m = n then Some SCompleted else sstat (set_world w ?p) i m)"
        using write_step_ok by metis
      have st: "started i z = started i x @ [n]"
        using z(2) sw(1) y(2) up(1) by (simp add: started_def map_filter_def)
      have nd: "needed env i options x n" using True run up(5) [of n] by (auto simp: needed_def split: if_splits)
      show ?thesis
      proof (rule that [of "publish (StepEvent i n SCompleted None) z"])
        show "run_step env i n options x = (publish (StepEvent i n SCompleted None) z, Fine)"
          using rs True run e y w z by (simp add: run_body_def finish_step_def Let_def)
        show "ran env i options [n] x (publish (StepEvent i n SCompleted None) z)"
          using z sw y up st nd True by (simp add: ran_def outcome_of_def)
      qed
    qed
  qed
qed

lemma step_loop_calm:
  assumes "calm env i" and "stat_of x i = Some Running" and "\<not> b_pause (x_bus x) i" and "distinct ns"
  shows "\<exists>y. step_loop env i options k ns x = (y, Fine) \<and> ran env i options ns x y"
  using assms(2-)
proof (induction ns arbitrary: k x)
  case Nil
  then show ?case by (simp add: ran_def)
next
  case (Cons n ns)
  obtain w where w: "ev_outside env k (x_db x, x_bus x) = (w, False)" "undisturbed i (x_db x, x_bus x) w"
    using assms(1) unfolding calm_def by (metis prod.collapse)
  note sw = set_world_effect [OF w(2)]
  let ?x0 = "set_world w x"
  have s0: "stat_of ?x0 i = Some Running" using Cons.prems sw by simp
  then have "stat_of ?x0 i \<noteq> None" by simp
  then obtain y where y: "run_step env i n options ?x0 = (y, Fine)" "ran env i options [n] ?x0 y"
    using run_step_calm [OF assms(1)] by metis
  have sy: "stat_of y i = Some Running" "\<not> b_pause (x_bus y) i" using y(2) s0 sw Cons.prems by (simp_all add: ran_def)
  obtain z where z: "step_loop env i options (k + 1) ns y = (z, Fine)" "ran env i options ns y z"
    using Cons.IH [OF sy, of "k + 1"] Cons.prems(3) by auto
  have row: "find_task (x_db ?x0) i \<noteq> None" "find_task (x_db y) i \<noteq> None"
    using s0 sy by (auto simp: stat_of_def task_stat_def)
  have "step_loop env i options k (n # ns) x = (z, Fine)"
    using w(1) row s0 y(1) z(1) Cons.prems(2) sw(2) by (simp add: check_paused_def refresh_task_def)
  moreover have "needed env i options y m = needed env i options x m" if "m \<in> set ns" for m
    using y(2) sw(4) Cons.prems(3) that by (auto simp: ran_def needed_def)
  then have "filter (needed env i options y) ns = filter (needed env i options x) ns" by (rule filter_cong [OF refl])
  moreover have "needed env i options ?x0 n = needed env i options x n" using sw by (simp add: needed_def)
  moreover have "started i ?x0 = started i x" using sw(1) by (simp add: started_def)
  ultimately show ?case using y(2) z(2) sw by (auto simp: ran_def)
qed

section \<open>Properties of a run\<close>

lemma sstat_write_status:
  "write_status env i s err x = (y, Fine) \<Longrightarrow> sstat y i m = sstat x i m"
  by (auto simp: write_status_def upd_db_def sstat_def find_set_task_status split: if_splits)

lemma write_status_exists: "find_task (x_db x) i \<noteq> None \<Longrightarrow> \<exists>y. write_status env i s err x = (y, Fine)"
  by (auto simp: write_status_def)

text \<open>(C25) A run of an existing task that nothing disturbs picks the task up where it stands: it starts
  exactly the enabled steps that are not completed with their output in place, each once and in the order
  of the plan, leaves every enabled step completed and every other one skipped, and completes the task.
  The conditions: the task's status is not one a start leaves alone (canceled, completed, archived); when donors are
  looked for, no completed task of another user with the same source and options is found (with one, the
  run may copy its results and start no step at all); no pause is requested when the run begins; the plan names
  no step twice (a task may be created with the same prompt twice, and its plan then does); and while it
  runs nobody cancels it or changes its status, its steps or its pause request, no other holder contends
  for a resource, and no step's body fails.\<close>

theorem run_starts_unfinished_steps:
  assumes "calm env i" and "find_task (x_db x) i = Some t" and "\<not> is_skippable_on_start (t_status t)"
    and "ev_donors env \<longrightarrow> find_completed_donor (t_url t) (t_options t) (t_user t) (x_db x) = None"
    and "\<not> b_pause (x_bus x) i" and "plan = build_dag_steps (ev_repr env) (JDict (as_dict (t_options t)))" and "distinct plan"
  shows "\<exists>y. process_task env i x = (y, Fine) \<and> stat_of y i = Some Completed
     \<and> started i y = started i x @ filter (needed env i (as_dict (t_options t)) x) plan
     \<and> (\<forall>m\<in>set plan. sstat y i m = Some (outcome_of env (as_dict (t_options t)) m))"
proof -
  let ?opts = "as_dict (t_options t)"
  have d: "try_donor_clone env t x = (x, True)" using assms(4) by (simp add: try_donor_clone_def)
  obtain x2 where x2: "write_status env i Running None x = (x2, Fine)" using write_status_exists assms(2) by blast
  note w2 = write_status_Fine [OF x2] sstat_write_status [OF x2]
  let ?x3 = "publish (StatusEvent i Running) x2"
  have "stat_of ?x3 i = Some Running" "\<not> b_pause (x_bus ?x3) i" using w2 assms(5) by simp_all
  then obtain y where y: "step_loop env i ?opts 0 plan ?x3 = (y, Fine)" "ran env i ?opts plan ?x3 y"
    using step_loop_calm [OF assms(1) _ _ assms(7)] by blast
  let ?f = "set_world (ev_finishing env (x_db y, x_bus y)) y"
  have "undisturbed i (x_db y, x_bus y) (ev_finishing env (x_db y, x_bus y))" using assms(1) by (simp add: calm_def)
  note f = set_world_effect [OF this]
  have "find_task (x_db ?f) i \<noteq> None" using f(3) y(2) w2 by (auto simp: ran_def stat_of_def task_stat_def)
  then obtain z where z: "write_status env i Completed None ?f = (z, Fine)" using write_status_exists by blast
  have "\<exists>v. complete_task env i y = (v, Fine) \<and> x_db v = x_db z \<and> started i v = started i z"
    using z by (auto simp: complete_task_def Let_def split: option.split)
  then obtain v where v: "complete_task env i y = (v, Fine)" "x_db v = x_db z" "started i v = started i z" by blast
  have "process_task env i x = (v, Fine)"
    using assms(2,3,6) d x2 y(1) v(1) by (simp add: process_task_def settle_def run_steps_def)
  moreover have "stat_of v i = Some Completed" using complete_settles [OF v(1)] by blast
  moreover have "sstat v i m = sstat y i m" for m
    using v(2) sstat_write_status [OF z] f(4) by (simp add: sstat_def)
  moreover have "started i v = started i y"
    using v(3) started_same [of z ?f i] started_same [of ?f y i] write_status_Fine [OF z] f(1) by simp
  moreover have "started i ?x3 = started i x" using started_same [of x2 x i] w2 by simp
  moreover have "needed env i ?opts ?x3 = needed env i ?opts x" using w2 by (simp add: needed_def fun_eq_iff)
  ultimately show ?thesis using y(2) by (auto simp: ran_def)
qed

definition steady_env :: run_env where
  "steady_env = \<lparr>ev_now = 50, ev_unicode = ascii_tables, ev_repr = (\<lambda>v. []), ev_donors = False, ev_done = (\<lambda>n. True),
     ev_contended = (\<lambda>n. False), ev_wait = (\<lambda>n w. (w, False)), ev_body = (\<lambda>n w. (w, None)),
     ev_outside = (\<lambda>k w. (w, False)), ev_finishing = (\<lambda>w. w), ev_enqueue = (\<lambda>t. Some 0)\<rparr>"

text \<open>A task with only a transcript whose download is done: the second step is the first one started.\<close>

definition half_done :: task_row where
  "half_done = (sample_task 1 7 Running 20)\<lparr>t_options := JDict [(lit ''prompts'', JList [])],
     t_steps := [(new_step (lit ''download''))\<lparr>st_status := SCompleted\<rparr>]\<rparr>"

definition half_done_proc :: proc where
  "half_done_proc = \<lparr>x_db = \<lparr>db_tasks = [half_done], db_asr = []\<rparr>, x_bus = empty_bus, x_out = []\<rparr>"

lemma half_done_plan: "build_dag_steps (ev_repr steady_env) (JDict (as_dict (t_options half_done))) = dag_head"
  by (simp add: half_done_def build_dag_steps_def selected_prompt_refs_def as_dict_def jget_def dict_get_def steady_env_def)

lemma distinct_dag_head: "distinct dag_head"
  by (simp add: dag_head_def lit_inject)

lemma half_done_premises:
  "calm steady_env 1" "find_task (x_db half_done_proc) 1 = Some half_done" "\<not> is_skippable_on_start (t_status half_done)"
  "ev_donors steady_env \<longrightarrow> find_completed_donor (t_url half_done) (t_options half_done) (t_user half_done) (x_db half_done_proc) = None"
  "\<not> b_pause (x_bus half_done_proc) 1"
  by (simp_all add: calm_def steady_env_def undisturbed_def find_task_def half_done_proc_def half_done_def sample_task_def
      is_skippable_on_start_def skippable_on_start_statuses_def empty_bus_def)

theorem run_starts_unfinished_steps_witness:
  "\<exists>y. process_task steady_env 1 half_done_proc = (y, Fine) \<and> stat_of y 1 = Some Completed
     \<and> lit ''download'' \<notin> set (started 1 y) \<and> lit ''extract_audio'' \<in> set (started 1 y)
     \<and> lit ''summarize_windows'' \<notin> set (started 1 y)"
proof -
  let ?o = "as_dict (t_options half_done)"
  obtain y where y: "process_task steady_env 1 half_done_proc = (y, Fine)" "stat_of y 1 = Some Completed"
    "started 1 y = started 1 half_done_proc @ filter (needed steady_env 1 ?o half_done_proc) dag_head"
    using run_starts_unfinished_steps [OF half_done_premises half_done_plan [symmetric] distinct_dag_head] by blast
  have o': "?o = [(lit ''prompts'', JList [])]" by (simp add: half_done_def as_dict_def)
  have tf: "task_flag ascii_tables ?o (lit ''transcript'') True"
    by (simp add: o' task_flag_def jget_or_def dict_get_def lit_inject)
  have sel: "selected_prompt_refs (\<lambda>v. []) (JDict ?o) = []"
    by (simp add: o' selected_prompt_refs_def jget_def dict_get_def)
  have st: "sstat half_done_proc 1 n = (if n = lit ''download'' then Some SCompleted else None)" for n
    using half_done_premises(2) by (simp add: sstat_def half_done_def find_step_def new_step_def)
  have n1: "\<not> needed steady_env 1 ?o half_done_proc (lit ''download'')"
    using st [of "lit ''download''"] by (simp add: needed_def steady_env_def)
  have n2: "needed steady_env 1 ?o half_done_proc (lit ''extract_audio'')"
    using tf st [of "lit ''extract_audio''"]
    by (simp add: needed_def is_step_enabled_def steady_env_def summary_head_def lit_inject)
  have n3: "\<not> needed steady_env 1 ?o half_done_proc (lit ''summarize_windows'')"
    using tf sel by (simp add: needed_def is_step_enabled_def steady_env_def summary_head_def lit_inject) (simp add: starts_with_def lit_def)
  have "started 1 half_done_proc = []" by (simp add: started_def half_done_proc_def map_filter_def)
  then show ?thesis using y n1 n2 n3 by (auto simp: dag_head_def)
qed

theorem run_settles_task_witness:
  "\<exists>y. process_task steady_env 1 half_done_proc = (y, Fine)
     \<and> ((\<exists>s. stat_of y 1 = Some s \<and> s \<in> {Completed, Paused, AwaitingInput, Failed} \<and> last_told 1 y = Some s)
        \<or> stat_of y 1 = Some Canceled
        \<or> (\<exists>z z' e. run_steps steady_env 1 (as_dict (t_options half_done)) z = (z', Raised e) \<and> discarding e
             \<and> y = z'\<lparr>x_bus := clear_pause_request 1 (x_bus z')\<rparr>))"
proof -
  obtain y where y: "process_task steady_env 1 half_done_proc = (y, Fine)"
    using run_starts_unfinished_steps [OF half_done_premises half_done_plan [symmetric] distinct_dag_head] by blast
  show ?thesis using run_settles_task [OF y half_done_premises(2)] y half_done_premises(2,3) by blast
qed

section \<open>Order of the steps, whatever happens\<close>

lemma started_write_step: "write_step env i n s msg x = (y, e) \<Longrightarrow> started j y = started j x"
  by (auto simp: write_step_def upd_db_def started_def split: option.splits if_splits)

lemma started_finish_step:
  "finish_step env i n s msg e x = (y, e') \<Longrightarrow> s \<noteq> SRunning \<Longrightarrow> started i y = started i x"
  using started_write_step [of env i n s msg x]
  by (cases "write_step env i n s msg x"; cases "snd (write_step env i n s msg x)"; cases s) (auto simp: finish_step_def)

lemma started_enter_lane: "enter_lane env i n x = (y, e) \<Longrightarrow> started i y = started i x"
  by (auto simp: enter_lane_def mark_waiting_def mark_running_def set_world_def Let_def started_def map_filter_def
      split: if_splits prod.splits)

lemma started_run_body: "run_body env i n x = (y, e) \<Longrightarrow> started i y = started i x"
proof -
  assume r: "run_body env i n x = (y, e)"
  obtain w b where b: "ev_body env n (x_db x, x_bus x) = (w, b)" by (metis prod.exhaust)
  have "started i (set_world w x) = started i x" by (simp add: set_world_def started_def)
  then show ?thesis
    using r b started_finish_step [of env i n _ _ _ "set_world w x" y e]
    by (auto simp: run_body_def Let_def split: option.splits exn.splits)
qed

lemma started_run_step:
  assumes "run_step env i n options x = (y, e)"
  shows "started i y = started i x
     \<or> (started i y = started i x @ [n] \<and> is_step_enabled (ev_unicode env) (ev_repr env) n options)"
proof (cases "find_task (x_db x) i = None")
  case True
  then show ?thesis using assms by (simp add: run_step_def)
next
  case row: False
  let ?x1 = "upd_db (upsert_step i n) x"
  have x1: "started i ?x1 = started i x" by (simp add: upd_db_def started_def)
  show ?thesis
  proof (cases "is_step_enabled (ev_unicode env) (ev_repr env) n options")
    case False
    then show ?thesis using assms row x1 started_write_step [of env i n SSkipped "Some (lit ''Disabled by task options'')" ?x1]
      by (auto simp: run_step_def Let_def next_do_def split: if_splits prod.splits ended.splits)
  next
    case True
    obtain a ea where a: "enter_lane env i n ?x1 = (a, ea)" by (metis prod.exhaust)
    obtain b eb where b: "write_step env i n SRunning None a = (b, eb)" by (metis prod.exhaust)
    have sa: "started i a = started i x" using started_enter_lane [OF a] x1 by simp
    have sb: "started i b = started i x" using started_write_step [OF b] sa by simp
    show ?thesis
      using assms row True a b sa sb x1 started_run_body [of env i n "publish (StepEvent i n SRunning None) b"]
      by (cases ea; cases eb) (auto simp: run_step_def Let_def split: if_splits)
  qed
qed

lemma started_step_loop:
  "step_loop env i options k ns x = (y, e) \<Longrightarrow>
     \<exists>ss. started i y = started i x @ ss \<and> subseq ss (filter (\<lambda>n. is_step_enabled (ev_unicode env) (ev_repr env) n options) ns)"
proof (induction ns arbitrary: k x)
  case Nil
  then show ?case by simp
next
  case (Cons n ns)
  let ?en = "\<lambda>n. is_step_enabled (ev_unicode env) (ev_repr env) n options"
  obtain w b where w: "ev_outside env k (x_db x, x_bus x) = (w, b)" by (metis prod.exhaust)
  have s0: "started i (set_world w x) = started i x" by (simp add: set_world_def started_def)
  show ?case
  proof (cases "step_loop env i options k (n # ns) x = (set_world w x, e)")
    case True
    then show ?thesis using Cons.prems s0 by auto
  next
    case False
    obtain z ez where z: "run_step env i n options (set_world w x) = (z, ez)" by (metis prod.exhaust)
    have r: "next_do (z, ez) (\<lambda>x. next_do (refresh_task i x) (\<lambda>x. step_loop env i options (k + 1) ns x)) = (y, e)"
      using Cons.prems w z False by (auto simp: check_paused_def refresh_task_def split: if_splits)
    obtain s1 where s1: "started i z = started i x @ s1" "subseq s1 (filter ?en [n])"
      using started_run_step [OF z] s0 by auto
    show ?thesis
    proof (cases "y = z")
      case True
      have "subseq (s1 @ []) (filter ?en [n] @ filter ?en ns)" using s1(2) by (rule list_emb_append_mono) simp
      then have "subseq s1 (filter ?en (n # ns))" by (simp split: if_splits)
      then show ?thesis using True s1 by auto
    next
      case False
      then have "step_loop env i options (k + 1) ns z = (y, e)"
        using r by (cases ez) (auto simp: refresh_task_def split: if_splits)
      then obtain s2 where s2: "started i y = started i z @ s2" "subseq s2 (filter ?en ns)" using Cons.IH by blast
      have "subseq (s1 @ s2) (filter ?en [n] @ filter ?en ns)" using s1(2) s2(2) by (rule list_emb_append_mono)
      then show ?thesis using s1 s2 by (intro exI [of _ "s1 @ s2"]) (simp split: if_splits)
    qed
  qed
qed

lemma started_handle: "handle env i e x = (y, r) \<Longrightarrow> started i y = started i x"
proof -
  have w: "write_status env i s err x = (y, r) \<Longrightarrow> started i y = started i x" for s err x y r
    by (auto simp: write_status_def upd_db_def started_def split: if_splits)
  have a: "write_awaiting env i s x = (y, r) \<Longrightarrow> started i y = started i x" for s x y r
    by (auto simp: write_awaiting_def upd_db_def started_def split: if_splits)
  have b: "started i (x\<lparr>x_bus := b\<rparr>) = started i x" for b x by (simp add: started_def)
  have c: "record_cancellation env i x = (y, r) \<Longrightarrow> started i y = started i x" for x y r
    by (auto simp: record_cancellation_def refresh_task_def next_do_def b dest: w split: if_splits prod.splits ended.splits)
  assume "handle env i e x = (y, r)"
  then show ?thesis
    using c [OF surjective_pairing, of x]
    by (cases e) (auto simp: refresh_task_def next_do_def b dest: w a split: if_splits prod.splits ended.splits)
qed

lemma started_complete: "complete_task env i x = (y, r) \<Longrightarrow> started i y = started i x"
proof -
  have w: "write_status env i s err x = (y, r) \<Longrightarrow> started i y = started i x" for s err x y r
    by (auto simp: write_status_def upd_db_def started_def split: if_splits)
  have s0: "started i (set_world u x) = started i x" for u by (simp add: set_world_def started_def)
  assume "complete_task env i x = (y, r)"
  then show ?thesis
    by (auto simp: complete_task_def next_do_def Let_def s0 dest!: w split: if_splits prod.splits ended.splits option.splits)
qed

text \<open>(C26) Whatever happens around a run (pauses, cancellations, failing or waiting steps, a row deleted
  under it), the steps it starts are enabled steps of the plan in the plan's order, none started twice
  when the plan has no duplicates.\<close>

theorem steps_start_in_order:
  assumes "process_task env i x = (y, e)" and "find_task (x_db x) i = Some t"
    and "plan = build_dag_steps (ev_repr env) (JDict (as_dict (t_options t)))"
  shows "\<exists>ss. started i y = started i x @ ss
     \<and> subseq ss (filter (\<lambda>n. is_step_enabled (ev_unicode env) (ev_repr env) n (as_dict (t_options t))) plan)
     \<and> (distinct plan \<longrightarrow> distinct ss)"
proof -
  let ?opts = "as_dict (t_options t)"
  let ?en = "\<lambda>n. is_step_enabled (ev_unicode env) (ev_repr env) n ?opts"
  have "\<exists>ss. started i y = started i x @ ss \<and> subseq ss (filter ?en plan)"
  proof (cases "is_skippable_on_start (t_status t)")
    case True
    then show ?thesis using assms by (simp add: process_task_def)
  next
    case False
    obtain x1 go where d: "try_donor_clone env t x = (x1, go)" by (metis prod.exhaust)
    have s1: "started i x1 = started i x"
      using d by (auto simp: try_donor_clone_def started_def map_filter_def split: option.splits)
    obtain x2 e2 where x2: "write_status env i Running None x1 = (x2, e2)" by (metis prod.exhaust)
    have s2: "started i x2 = started i x"
      using x2 s1 by (auto simp: write_status_def upd_db_def started_def split: if_splits)
    show ?thesis
    proof (cases "go \<and> e2 = Fine")
      case False
      then have "y = x1 \<or> y = x2"
        using assms d x2 \<open>\<not> is_skippable_on_start (t_status t)\<close>
        by (cases e2) (auto simp: process_task_def split: if_splits bool.splits)
      then show ?thesis using s1 s2 by auto
    next
      case True
      obtain l el where l: "step_loop env i ?opts 0 plan (publish (StatusEvent i Running) x2) = (l, el)" by (metis prod.exhaust)
      obtain ss where ss: "started i l = started i x @ ss" "subseq ss (filter ?en plan)"
        using started_step_loop [OF l] s2 by auto
      obtain c ec where c: "run_steps env i ?opts (publish (StatusEvent i Running) x2) = (c, ec)" by (metis prod.exhaust)
      have sc: "started i c = started i l"
        using c l assms(3) started_complete by (cases el) (auto simp: run_steps_def)
      have "settle env i (c, ec) = (y, e)"
        using assms d x2 c True \<open>\<not> is_skippable_on_start (t_status t)\<close> by (simp add: process_task_def)
      then have "started i y = started i c" using started_handle by (cases ec) (auto simp: settle_def)
      then show ?thesis using ss sc by auto
    qed
  qed
  then obtain ss where ss: "started i y = started i x @ ss" "subseq ss (filter ?en plan)" by blast
  moreover have "distinct plan \<longrightarrow> distinct ss"
    using ss(2) by (auto simp: subseq_conv_nths intro: distinct_nthsI)
  ultimately show ?thesis by blast
qed

theorem steps_start_in_order_witness:
  "\<exists>y e ss. process_task steady_env 1 half_done_proc = (y, e) \<and> started 1 y = ss \<and> distinct ss"
proof -
  obtain y e where y: "process_task steady_env 1 half_done_proc = (y, e)" by (metis prod.exhaust)
  have "started 1 half_done_proc = []" by (simp add: started_def half_done_proc_def map_filter_def)
  then show ?thesis
    using steps_start_in_order [OF y half_done_premises(2) half_done_plan [symmetric]] distinct_dag_head y by auto
qed

section \<open>A pause that comes too late\<close>

text \<open>A pause that arrives after the last step is accepted and lost: the user is told the task is
  paused, yet the run completes it, and the pause request stays behind.\<close>

theorem late_pause_lost:
  assumes "db_ok (x_db x)" and "get_task_for_user user i (x_db x) = Some t" and "can_pause (t_status t)"
    and "ev_finishing env = (\<lambda>w. fst (pause_one now user i w))"
    and "complete_task env i x = (y, e)"
  shows "snd (pause_one now user i (x_db x, x_bus x)) = Done Paused
     \<and> e = Fine \<and> stat_of y i = Some Completed \<and> last_told i y = Some Completed \<and> b_pause (x_bus y) i"
proof -
  have f: "find_task (x_db x) i = Some t" using get_task_for_user_Some [OF assms(1,2)] by blast
  let ?f = "set_world (set_task_status now i Paused None (x_db x), request_pause i (x_bus x)) x"
  have p: "pause_one now user i (x_db x, x_bus x) = ((set_task_status now i Paused None (x_db x), request_pause i (x_bus x)), Done Paused)"
    using assms(2,3) by (simp add: pause_one_def)
  have "find_task (x_db ?f) i \<noteq> None" using f by (simp add: set_world_def find_set_task_status)
  then obtain z where z: "write_status env i Completed None ?f = (z, Fine)" using write_status_exists by blast
  have e: "e = Fine" using assms(5) z
    by (auto simp: complete_task_def assms(4) p Let_def split: option.splits)
  then have c: "complete_task env i y' = (y, Fine) \<Longrightarrow> True" for y' by simp
  have "x_bus y = x_bus z"
    using assms(5) z by (auto simp: complete_task_def assms(4) p Let_def split: option.splits)
  then have "b_pause (x_bus y) i" using write_status_Fine [OF z] by (simp add: set_world_def bus_defs)
  then show ?thesis using p e complete_settles assms(5) by auto
qed

definition late_env :: run_env where
  "late_env = steady_env\<lparr>ev_finishing := (\<lambda>w. fst (pause_one 60 7 1 w))\<rparr>"

theorem late_pause_lost_witness:
  "\<exists>y. complete_task late_env 1 half_done_proc = (y, Fine) \<and> stat_of y 1 = Some Completed \<and> b_pause (x_bus y) 1"
proof -
  have ok: "db_ok (x_db half_done_proc)"
    by (simp add: db_ok_def half_done_proc_def half_done_def sample_task_def task_ok_def)
  have g: "get_task_for_user 7 1 (x_db half_done_proc) = Some half_done"
    by (simp add: get_task_for_user_def half_done_proc_def half_done_def sample_task_def)
  have p: "can_pause (t_status half_done)"
    by (simp add: half_done_def sample_task_def can_pause_def pausable_statuses_def)
  have f: "ev_finishing late_env = (\<lambda>w. fst (pause_one 60 7 1 w))" by (simp add: late_env_def)
  obtain y e where y: "complete_task late_env 1 half_done_proc = (y, e)" by (metis prod.exhaust)
  show ?thesis using late_pause_lost [OF ok g p f y] y by blast
qed

text \<open>A step whose task was deleted under it: whatever the body raises for it, the write of the step's
  status raises instead, and so does the handler's write, so that the run ends with an exception and
  not quietly.\<close>

lemma discarded_step_raises:
  assumes "ev_body env n (x_db x, x_bus x) = (w, Some e)" and "e \<noteq> CancelledError" and "find_task (fst w) i = None"
  shows "settle env i (run_body env i n x) = (set_world w x, Raised StaleRow)"
proof -
  have "run_body env i n x = (set_world w x, Raised StaleRow)"
    using assms by (cases e) (simp_all add: run_body_def finish_step_def write_step_def set_world_def)
  then show ?thesis using assms(3) by (simp add: settle_def write_status_def set_world_def)
qed

end
