(* ===== verification/Delivery_Config.thy ===== *)
theory Delivery_Config
  imports Task_Store
begin

text \<open>
  What a delivery is made of: the adapters a process has loaded (\<open>vts/delivery/registry.py\<close>), the
  configuration an adapter sees (\<open>vts/services/delivery_config.py\<close>), the content of a variant
  (\<open>vts/delivery/resolve.py\<close>) and the check of a submitted delivery list
  (\<open>vts/services/delivery_submit.py\<close>).

  An adapter is third-party code: what an entry point yields is an input. Reading a file and parsing
  a UUID are inputs too.
\<close>

section \<open>The adapter registry\<close>

text \<open>The value an adapter declares as its contract version: missing, a tuple of parts (an integer or
  something else), or another value.\<close>

datatype version_part = VInt int | VPart ustr

datatype version_value = VMissing | VTuple "version_part list" | VOther ustr

text \<open>What loading an entry point yields: an exception, or an object with an optional name, the declared
  version, and whether it has the members of the protocol.\<close>

record adapter =
  ad_name :: "ustr option"
  ad_version :: version_value
  ad_complete :: bool
  ad_connection :: "ustr list"

record entry_point =
  ep_name :: ustr
  ep_load :: "ustr + adapter"

datatype problem = NoVersion | NotAPair | NotIntegers | WrongMajor int | NewerMinor int | NotAnAdapter
  | LoadFailed ustr

definition contract_version :: "int \<times> int" where "contract_version = (1, 3)"

definition version_problem :: "version_value \<Rightarrow> problem option" where
  "version_problem v = (case v of
      VMissing \<Rightarrow> Some NoVersion
    | VOther r \<Rightarrow> Some NotAPair
    | VTuple ps \<Rightarrow> if length ps \<noteq> 2 then Some NotAPair
                  else if \<not> list_all (\<lambda>p. case p of VInt i \<Rightarrow> True | VPart r \<Rightarrow> False) ps then Some NotIntegers
                  else None)"

definition compatibility_problem :: "int \<times> int \<Rightarrow> problem option" where
  "compatibility_problem v = (case v of (major, minor) \<Rightarrow>
     if major \<noteq> fst contract_version then Some (WrongMajor major)
     else if snd contract_version < minor then Some (NewerMinor minor)
     else None)"

text \<open>The version of an adapter whose version has no problem.\<close>

fun version_pair :: "version_value \<Rightarrow> int \<times> int" where
  "version_pair (VTuple [VInt major, VInt minor]) = (major, minor)"
| "version_pair _ = (0, 0)"

text \<open>The checks of one loaded adapter; an adapter without a name cannot satisfy the protocol.\<close>

definition adapter_problem :: "adapter \<Rightarrow> problem option" where
  "adapter_problem a = (case version_problem (ad_version a) of
      Some p \<Rightarrow> Some p
    | None \<Rightarrow> (case compatibility_problem (version_pair (ad_version a)) of
        Some p \<Rightarrow> Some p
      | None \<Rightarrow> if \<not> ad_complete a \<or> ad_name a = None then Some NotAnAdapter else None))"

definition adapter_label :: "entry_point \<Rightarrow> adapter \<Rightarrow> ustr" where
  "adapter_label ep a = (case ad_name a of None \<Rightarrow> ep_name ep | Some n \<Rightarrow> if n = [] then ep_name ep else n)"

type_synonym registry = "(ustr \<times> adapter) list"

definition discover_one :: "registry \<times> (ustr \<times> problem) list \<Rightarrow> entry_point \<Rightarrow> registry \<times> (ustr \<times> problem) list" where
  "discover_one acc ep = (case acc of (usable, rejected) \<Rightarrow>
     (case ep_load ep of
        Inl reason \<Rightarrow> (usable, dict_set rejected (ep_name ep) (LoadFailed reason))
      | Inr a \<Rightarrow> (case adapter_problem a of
          Some p \<Rightarrow> (usable, dict_set rejected (adapter_label ep a) p)
        | None \<Rightarrow> (dict_set usable (the (ad_name a)) a, rejected))))"

definition discover :: "entry_point list \<Rightarrow> registry \<times> (ustr \<times> problem) list" where
  "discover eps = foldl discover_one ([], []) eps"

text \<open>\<open>get_adapter\<close>: \<open>None\<close> is \<open>UnknownAdapter\<close>.\<close>

definition get_adapter :: "registry \<Rightarrow> ustr \<Rightarrow> adapter option" where
  "get_adapter reg name = dict_get reg name"

section \<open>Configuration\<close>

record credential =
  cr_id :: uuid
  cr_user :: uuid
  cr_name :: ustr
  cr_adapter :: ustr
  cr_config :: jdict
  cr_secrets :: "ustr option"

record target =
  tg_id :: uuid
  tg_user :: uuid
  tg_name :: ustr
  tg_adapter :: ustr
  tg_credential :: uuid
  tg_config :: jdict

definition core_config_fields :: "ustr list" where "core_config_fields = [lit ''default_variant'']"

definition strip_core_fields :: "jdict \<Rightarrow> jdict" where
  "strip_core_fields config = filter (\<lambda>p. fst p \<notin> set core_config_fields) config"

text \<open>\<open>dict.update\<close>.\<close>

definition dict_update :: "('k \<times> 'v) list \<Rightarrow> ('k \<times> 'v) list \<Rightarrow> ('k \<times> 'v) list" where
  "dict_update d e = foldl (\<lambda>x p. dict_set x (fst p) (snd p)) d e"

definition merge_config :: "credential option \<Rightarrow> target option \<Rightarrow> jdict" where
  "merge_config c t = dict_update (case c of None \<Rightarrow> [] | Some x \<Rightarrow> cr_config x)
     (case t of None \<Rightarrow> [] | Some x \<Rightarrow> tg_config x)"

definition split_by_connection :: "adapter \<Rightarrow> jdict \<Rightarrow> jdict \<times> jdict" where
  "split_by_connection a config =
     (filter (\<lambda>p. fst p \<in> set (ad_connection a)) config, filter (\<lambda>p. fst p \<notin> set (ad_connection a)) config)"

definition get_delivery_target :: "uuid \<Rightarrow> uuid \<Rightarrow> target list \<Rightarrow> target option" where
  "get_delivery_target user i ts = find (\<lambda>t. tg_id t = i \<and> tg_user t = user) ts"

definition get_delivery_credential :: "uuid \<Rightarrow> uuid \<Rightarrow> credential list \<Rightarrow> credential option" where
  "get_delivery_credential user i cs = find (\<lambda>c. cr_id c = i \<and> cr_user c = user) cs"

section \<open>Content\<close>

record task_meta =
  tm_url :: ustr
  tm_title :: "ustr option"
  tm_language :: json
  tm_duration :: json
  tm_created :: instant

record payload =
  pl_task :: uuid
  pl_variant :: ustr
  pl_content :: ustr
  pl_format :: string
  pl_meta :: task_meta

definition json_or :: "json \<Rightarrow> json \<Rightarrow> json" where
  "json_or v w = (if truthy v then v else w)"

definition task_meta_of :: "task_row \<Rightarrow> task_meta" where
  "task_meta_of t = (let opts = as_dict (t_options t) in
     \<lparr>tm_url = t_url t, tm_title = t_title t,
      tm_language = json_or (jget opts (lit ''detected_language'')) (jget opts (lit ''language'')),
      tm_duration = jget opts (lit ''duration_s''), tm_created = t_created t\<rparr>)"

definition valid_variants :: "ustr list" where
  "valid_variants = [lit ''raw'', lit ''redacted'', lit ''summary'']"

text \<open>An unavailable variant: unknown, nothing recorded, or the file is gone. The remaining error is the
  exception a malformed result index raises.\<close>

datatype variant_error = UnknownVariant | NoPath | FileMissing ustr | NoResult | BadIndex

definition read_file :: "(ustr \<Rightarrow> ustr option) \<Rightarrow> ustr option \<Rightarrow> variant_error + ustr" where
  "read_file files path = (case path of None \<Rightarrow> Inl NoPath
     | Some p \<Rightarrow> (case files p of None \<Rightarrow> Inl (FileMissing p) | Some s \<Rightarrow> Inr s))"

text \<open>\<open>Path(p).suffix == ".txt"\<close>.\<close>

definition has_txt_suffix :: "ustr \<Rightarrow> bool" where
  "has_txt_suffix p \<longleftrightarrow> path_suffix p = lit ''.txt''"

definition path_or_none :: "ustr option \<Rightarrow> ustr option" where
  "path_or_none p = (if p = Some [] then None else p)"

definition is_prompt_variant :: "ustr \<Rightarrow> bool" where
  "is_prompt_variant variant \<longleftrightarrow> 58 \<in> set variant"

definition payload_of :: "task_row \<Rightarrow> ustr \<Rightarrow> string \<Rightarrow> variant_error + ustr \<Rightarrow> variant_error + payload" where
  "payload_of t variant fmt r = (case r of Inl e \<Rightarrow> Inl e
     | Inr content \<Rightarrow> Inr \<lparr>pl_task = t_id t, pl_variant = variant, pl_content = content, pl_format = fmt,
                          pl_meta = task_meta_of t\<rparr>)"

definition resolve_prompt_variant ::
  "(json \<Rightarrow> ustr) \<Rightarrow> (ustr \<Rightarrow> ustr option) \<Rightarrow> task_row \<Rightarrow> ustr \<Rightarrow> variant_error + payload" where
  "resolve_prompt_variant rp files t variant =
     (case parse_ref rp (JStr variant) of
        Inl e \<Rightarrow> Inl UnknownVariant
      | Inr r \<Rightarrow> (case resolve_result_path rp (t_options t) (t_summary t) (pr_source r) (pr_id r) of
          None \<Rightarrow> Inl BadIndex
        | Some path \<Rightarrow> (case path_or_none path of None \<Rightarrow> Inl NoResult
            | Some p \<Rightarrow> payload_of t variant ''markdown'' (read_file files (Some p)))))"

definition resolve_variant ::
  "(json \<Rightarrow> ustr) \<Rightarrow> (ustr \<Rightarrow> ustr option) \<Rightarrow> task_row \<Rightarrow> ustr \<Rightarrow> variant_error + payload" where
  "resolve_variant rp files t variant =
     (if is_prompt_variant variant then resolve_prompt_variant rp files t variant
      else if variant \<notin> set valid_variants then Inl UnknownVariant
      else if variant = lit ''raw''
      then (let path = path_or_none (t_transcript t)
            in payload_of t variant (case path of None \<Rightarrow> ''json'' | Some p \<Rightarrow> if has_txt_suffix p then ''txt'' else ''json'')
                 (read_file files path))
      else if variant = lit ''summary''
      then payload_of t variant ''markdown'' (read_file files (path_or_none (t_summary t)))
      else payload_of t variant ''txt'' (read_file files (Some (t_dir t @ lit ''/outputs/redacted_transcript.txt''))))"

section \<open>Submitted deliveries\<close>

datatype submit_error = NotAnObject | NoDeliverTo | NotAnId | UnknownTarget | AdapterMissing

definition validate_ref ::
  "(json \<Rightarrow> ustr) \<Rightarrow> (ustr \<Rightarrow> uuid option) \<Rightarrow> (uuid \<Rightarrow> ustr) \<Rightarrow> registry \<Rightarrow> uuid \<Rightarrow> target list \<Rightarrow> json \<Rightarrow> submit_error + jdict" where
  "validate_ref rp parse_uuid uuid_str reg user ts item = (case item of
     JDict d \<Rightarrow>
       (let ref = jget d (lit ''deliver_to'') in
        if \<not> truthy ref then Inl NoDeliverTo
        else (case parse_uuid (py_str rp ref) of
           None \<Rightarrow> Inl NotAnId
         | Some i \<Rightarrow> (case get_delivery_target user i ts of
             None \<Rightarrow> Inl UnknownTarget
           | Some t \<Rightarrow>
               if get_adapter reg (tg_adapter t) = None then Inl AdapterMissing
               else Inr ([(lit ''deliver_to'', JStr (uuid_str i))]
                 @ (let variant = jget d (lit ''variant'')
                    in if truthy variant then [(lit ''variant'', JStr (py_str rp variant))] else [])))))
   | _ \<Rightarrow> Inl NotAnObject)"

fun validate_delivery_refs ::
  "(json \<Rightarrow> ustr) \<Rightarrow> (ustr \<Rightarrow> uuid option) \<Rightarrow> (uuid \<Rightarrow> ustr) \<Rightarrow> registry \<Rightarrow> uuid \<Rightarrow> target list \<Rightarrow> json list
     \<Rightarrow> submit_error + jdict list" where
  "validate_delivery_refs rp pu us reg user ts [] = Inr []"
| "validate_delivery_refs rp pu us reg user ts (item # items) =
     (case validate_ref rp pu us reg user ts item of Inl e \<Rightarrow> Inl e
      | Inr d \<Rightarrow> (case validate_delivery_refs rp pu us reg user ts items of Inl e \<Rightarrow> Inl e | Inr ds \<Rightarrow> Inr (d # ds)))"

section \<open>Facts\<close>

lemma version_pair_ok:
  "version_problem v = None \<Longrightarrow> \<exists>major minor. v = VTuple [VInt major, VInt minor] \<and> version_pair v = (major, minor)"
  by (cases v rule: version_pair.cases)
    (auto simp: version_problem_def length_Suc_conv numeral_2_eq_2 split: if_splits version_part.splits)

text \<open>An adapter is usable exactly when it has the name and members of the contract, asks for this
  major version and for a minor version this core has.\<close>

lemma adapter_problem_None:
  "adapter_problem a = None \<longleftrightarrow> ad_complete a \<and> ad_name a \<noteq> None
     \<and> (\<exists>minor. ad_version a = VTuple [VInt 1, VInt minor] \<and> minor \<le> 3)"
proof
  assume p: "adapter_problem a = None"
  then have "version_problem (ad_version a) = None" by (auto simp: adapter_problem_def split: option.splits)
  from version_pair_ok [OF this] show "ad_complete a \<and> ad_name a \<noteq> None
     \<and> (\<exists>minor. ad_version a = VTuple [VInt 1, VInt minor] \<and> minor \<le> 3)"
    using p by (auto simp: adapter_problem_def compatibility_problem_def contract_version_def
        split: option.splits if_splits)
qed (auto simp: adapter_problem_def version_problem_def compatibility_problem_def contract_version_def)

text \<open>The adapter an entry point contributes, if any.\<close>

definition contributes :: "ustr \<Rightarrow> entry_point \<Rightarrow> adapter option" where
  "contributes name ep = (case ep_load ep of Inl _ \<Rightarrow> None
     | Inr a \<Rightarrow> if ad_name a = Some name \<and> adapter_problem a = None then Some a else None)"

lemma discover_one_get:
  "get_adapter (fst (discover_one acc ep)) name =
     (case contributes name ep of None \<Rightarrow> get_adapter (fst acc) name | Some a \<Rightarrow> Some a)"
proof (cases "ep_load ep")
  case (Inl reason)
  then show ?thesis by (simp add: discover_one_def contributes_def split: prod.split)
next
  case (Inr a)
  show ?thesis
  proof (cases "adapter_problem a")
    case None
    then obtain n where "ad_name a = Some n" by (auto simp: adapter_problem_None)
    then show ?thesis using Inr None
      by (auto simp: discover_one_def contributes_def get_adapter_def split: prod.split)
  qed (use Inr in \<open>simp add: discover_one_def contributes_def split: prod.split\<close>)
qed

lemma discover_get:
  "get_adapter (fst (discover eps)) name =
     (case List.map_filter (contributes name) (rev eps) of [] \<Rightarrow> None | a # _ \<Rightarrow> Some a)"
proof (induction eps rule: rev_induct)
  case Nil
  then show ?case by (simp add: discover_def get_adapter_def dict_get_def map_filter_def)
next
  case (snoc ep eps)
  then show ?case
    by (simp add: discover_def discover_one_get map_filter_simps split: option.splits list.splits)
qed

lemma dict_get_Cons: "dict_get (p # e) k = (if fst p = k then Some (snd p) else dict_get e k)"
  by (cases p) (simp add: dict_get_def)

lemma dict_get_update:
  "distinct (map fst e) \<Longrightarrow> dict_get (dict_update d e) k = (case dict_get e k of None \<Rightarrow> dict_get d k | Some v \<Rightarrow> Some v)"
proof (induction e arbitrary: d)
  case Nil
  then show ?case by (simp add: dict_update_def) (simp add: dict_get_def)
next
  case (Cons p e)
  have fresh: "dict_get e (fst p) = None" using Cons.prems by (force simp: dict_get_def map_of_eq_None_iff)
  have step: "dict_update d (p # e) = dict_update (dict_set d (fst p) (snd p)) e" by (simp add: dict_update_def)
  have "distinct (map fst e)" using Cons.prems by simp
  from Cons.IH [OF this] show ?case
    unfolding step using fresh by (auto simp: dict_get_Cons split: option.splits)
qed

lemma dict_get_filter:
  "dict_get (filter (\<lambda>p. P (fst p)) d) k = (if P k then dict_get d k else None)"
  by (induction d) (auto simp: dict_get_def)

text \<open>The first of the mapped values, seen from the list.\<close>

lemma map_filter_head:
  "(case List.map_filter f xs of [] \<Rightarrow> None | a # _ \<Rightarrow> Some a) = Some y
     \<longleftrightarrow> (\<exists>us x vs. xs = us @ x # vs \<and> f x = Some y \<and> list_all (\<lambda>z. f z = None) us)"
proof (induction xs)
  case Nil
  then show ?case by (simp add: map_filter_def)
next
  case (Cons z zs)
  have split: "(\<exists>us x vs. z # zs = us @ x # vs \<and> P us x) \<longleftrightarrow> P [] z \<or> (\<exists>us x vs. zs = us @ x # vs \<and> P (z # us) x)" for P
    by (auto simp: Cons_eq_append_conv)
  show ?case
  proof (cases "f z")
    case None
    then show ?thesis using Cons.IH by (subst split) (simp add: map_filter_simps)
  next
    case (Some v)
    then show ?thesis by (subst split) (auto simp: map_filter_simps)
  qed
qed

lemma contributes_Some:
  "contributes name ep = Some a \<longleftrightarrow> ep_load ep = Inr a \<and> ad_name a = Some name \<and> ad_complete a
     \<and> (\<exists>minor. ad_version a = VTuple [VInt 1, VInt minor] \<and> minor \<le> 3)"
  by (auto simp: contributes_def adapter_problem_None split: sum.splits)

text \<open>Plugins are isolated from each other: an adapter is registered under a name exactly when some
  entry point yields it with that name, it has the members of the contract, asks for major version 1
  and at most minor version 3, and no later entry point yields a usable adapter of the name. Whatever
  the other entry points do, fail to load, declare nonsense or ask for another version, costs nobody
  else their adapter.\<close>

theorem adapters_isolated:
  "get_adapter (fst (discover eps)) name = Some a \<longleftrightarrow>
     (\<exists>before ep after. eps = before @ ep # after \<and> ep_load ep = Inr a \<and> ad_name a = Some name \<and> ad_complete a
        \<and> (\<exists>minor. ad_version a = VTuple [VInt 1, VInt minor] \<and> minor \<le> 3)
        \<and> list_all (\<lambda>e. contributes name e = None) after)"
proof -
  have "get_adapter (fst (discover eps)) name = Some a \<longleftrightarrow>
     (\<exists>us ep vs. rev eps = us @ ep # vs \<and> contributes name ep = Some a \<and> list_all (\<lambda>e. contributes name e = None) us)"
    unfolding discover_get by (rule map_filter_head)
  also have "\<dots> \<longleftrightarrow> (\<exists>before ep after. eps = before @ ep # after \<and> contributes name ep = Some a
        \<and> list_all (\<lambda>e. contributes name e = None) after)"
  proof
    assume "\<exists>us ep vs. rev eps = us @ ep # vs \<and> contributes name ep = Some a \<and> list_all (\<lambda>e. contributes name e = None) us"
    then obtain us ep vs where "rev eps = us @ ep # vs" "contributes name ep = Some a" "list_all (\<lambda>e. contributes name e = None) us" by blast
    then show "\<exists>before ep after. eps = before @ ep # after \<and> contributes name ep = Some a
        \<and> list_all (\<lambda>e. contributes name e = None) after"
      by (intro exI [of _ "rev vs"] exI [of _ ep] exI [of _ "rev us"]) (simp add: rev_swap list_all_iff)
  next
    assume "\<exists>before ep after. eps = before @ ep # after \<and> contributes name ep = Some a \<and> list_all (\<lambda>e. contributes name e = None) after"
    then obtain us ep vs where "eps = us @ ep # vs" "contributes name ep = Some a" "list_all (\<lambda>e. contributes name e = None) vs" by blast
    then show "\<exists>us ep vs. rev eps = us @ ep # vs \<and> contributes name ep = Some a \<and> list_all (\<lambda>e. contributes name e = None) us"
      by (intro exI [of _ "rev vs"] exI [of _ ep] exI [of _ "rev us"]) (simp add: list_all_iff)
  qed
  finally show ?thesis unfolding contributes_Some by blast
qed

text \<open>What the adapter sees of a key: the target's value, else the credential's, and never a field of the
  core; and splitting a configuration at the adapter's connection fields and merging the halves again
  loses nothing.\<close>

lemma adapter_sees:
  assumes "distinct (map fst (tg_config t))"
  shows "dict_get (strip_core_fields (merge_config (Some c) (Some t))) k =
     (if k = lit ''default_variant'' then None
      else case dict_get (tg_config t) k of None \<Rightarrow> dict_get (cr_config c) k | Some v \<Rightarrow> Some v)"
  using dict_get_update [OF assms, of "cr_config c" k]
    dict_get_filter [of "\<lambda>x. x \<noteq> lit ''default_variant''" "dict_update (cr_config c) (tg_config t)" k]
  by (simp add: strip_core_fields_def core_config_fields_def merge_config_def)

lemma split_then_merge:
  assumes "distinct (map fst config)" and "split_by_connection a config = (conn, params)"
  shows "dict_get (dict_update conn params) k = dict_get config k"
proof -
  have p: "params = filter (\<lambda>p. fst p \<notin> set (ad_connection a)) config"
    and c: "conn = filter (\<lambda>p. fst p \<in> set (ad_connection a)) config"
    using assms(2) by (simp_all add: split_by_connection_def)
  have "distinct (map fst params)" unfolding p using assms(1) by (simp add: distinct_map_filter)
  then show ?thesis
    using dict_get_filter [of "\<lambda>k. k \<notin> set (ad_connection a)" config k] dict_get_filter [of "\<lambda>k. k \<in> set (ad_connection a)" config k]
    by (simp add: dict_get_update p c split: option.split)
qed

text \<open>A validated list has one entry per submitted entry, each naming a target of the user whose adapter
  is loaded.\<close>

lemma validate_ref_ok:
  assumes "validate_ref rp pu us reg user ts item = Inr d" and "\<And>i. pu (us i) = Some i"
  shows "\<exists>i t s. dict_get d (lit ''deliver_to'') = Some (JStr s) \<and> pu s = Some i
     \<and> get_delivery_target user i ts = Some t \<and> get_adapter reg (tg_adapter t) \<noteq> None"
  using assms by (auto simp: validate_ref_def Let_def dict_get_def split: json.splits option.splits if_splits)

lemma validate_refs_ok:
  "validate_delivery_refs rp pu us reg user ts items = Inr ds \<Longrightarrow>
     length ds = length items \<and> list_all2 (\<lambda>item d. validate_ref rp pu us reg user ts item = Inr d) items ds"
  by (induction items arbitrary: ds) (auto split: sum.splits)

end
