(* ===== verification/Delivery_Queue.thy ===== *)
theory Delivery_Queue
  imports Delivery_Config
begin

text \<open>
  The delivery queue: the rows of \<open>DeliveryAttempt\<close> and the operations of \<open>Repo\<close> on them
  (\<open>vts/db/repo.py\<close>), what completion queues (\<open>vts/delivery/queue.py\<close>), and the consumer
  (\<open>vts/delivery/consumer.py\<close>) as one worker's tick. Many workers are the theory
  \<open>Delivery_Workers\<close>.

  A worker processes a row in its own session: it loads the row once, and the write at the end sends
  only the columns that differ from what was loaded. Instants are microseconds.
\<close>

section \<open>Rows\<close>

record attempt =
  da_id :: uuid
  da_task :: uuid
  da_target :: "uuid option"
  da_adapter :: ustr
  da_variant :: ustr
  da_status :: delivery_status
  da_attempts :: int
  da_max :: int
  da_next :: "instant option"
  da_error :: "ustr option"
  da_ext_id :: "ustr option"
  da_ext_url :: "ustr option"
  da_created :: instant
  da_updated :: instant

record delivery_db =
  dd_attempts :: "attempt list"
  dd_targets :: "target list"
  dd_credentials :: "credential list"

record delivery_settings =
  ds_max :: int
  ds_base :: int
  ds_cap :: int
  ds_batch :: nat
  ds_stuck :: int
  ds_wait :: int

text \<open>What the process around the consumer provides; the last two fields are the readings of the clock for each
  row of a batch.\<close>

record delivery_env =
  de_repr :: "json \<Rightarrow> ustr"
  de_uuid :: "ustr \<Rightarrow> uuid option"
  de_uuid_str :: "uuid \<Rightarrow> ustr"
  de_files :: "ustr \<Rightarrow> ustr option"
  de_registry :: registry
  de_decrypt :: "ustr \<Rightarrow> ustr + (ustr \<times> ustr) list"
  de_deliver :: "adapter \<Rightarrow> payload \<Rightarrow> jdict \<Rightarrow> (ustr \<times> ustr) list \<Rightarrow> ustr + (ustr option \<times> ustr option)"
  de_text :: "variant_error \<Rightarrow> ustr"
  de_now :: "uuid \<Rightarrow> instant"
  de_written :: "uuid \<Rightarrow> instant"

definition find_attempt :: "delivery_db \<Rightarrow> uuid \<Rightarrow> attempt option" where
  "find_attempt db i = find (\<lambda>r. da_id r = i) (dd_attempts db)"

definition map_attempts :: "(attempt \<Rightarrow> attempt) \<Rightarrow> delivery_db \<Rightarrow> delivery_db" where
  "map_attempts f db = db\<lparr>dd_attempts := map f (dd_attempts db)\<rparr>"

section \<open>Repository operations\<close>

text \<open>A variant that is not a text of at most 64 characters is refused by the column: \<open>None\<close>.\<close>

definition create_delivery_attempt ::
  "instant \<Rightarrow> uuid \<Rightarrow> uuid \<Rightarrow> uuid option \<Rightarrow> ustr \<Rightarrow> json \<Rightarrow> int \<Rightarrow> instant \<Rightarrow> delivery_db \<Rightarrow> delivery_db option" where
  "create_delivery_attempt clock i task tgt adapter variant max_attempts next_at db = (case variant of
     JStr v \<Rightarrow> if 64 < length v then None
       else Some (db\<lparr>dd_attempts := dd_attempts db @ [\<lparr>da_id = i, da_task = task, da_target = tgt, da_adapter = adapter,
         da_variant = v, da_status = DPending, da_attempts = 0, da_max = max_attempts, da_next = Some next_at,
         da_error = None, da_ext_id = None, da_ext_url = None, da_created = clock, da_updated = clock\<rparr>]\<rparr>)
   | _ \<Rightarrow> None)"

definition is_due :: "instant \<Rightarrow> attempt \<Rightarrow> bool" where
  "is_due now r \<longleftrightarrow> delivery_is_claimable (da_status r) \<and> (case da_next r of None \<Rightarrow> False | Some t \<Rightarrow> t \<le> now)"

definition due_rows :: "instant \<Rightarrow> nat \<Rightarrow> delivery_db \<Rightarrow> attempt list" where
  "due_rows now limit db = take limit (sort_key (\<lambda>r. the (da_next r)) (filter (is_due now) (dd_attempts db)))"

definition claim_row :: "instant \<Rightarrow> attempt \<Rightarrow> attempt" where
  "claim_row now r = r\<lparr>da_status := DDelivering, da_attempts := da_attempts r + 1, da_updated := now\<rparr>"

definition claim_due_deliveries :: "instant \<Rightarrow> nat \<Rightarrow> delivery_db \<Rightarrow> delivery_db \<times> uuid list" where
  "claim_due_deliveries now limit db =
     (let ids = map da_id (due_rows now limit db)
      in (map_attempts (\<lambda>r. if da_id r \<in> set ids then claim_row now r else r) db, ids))"

definition result_row :: "ustr option \<Rightarrow> ustr option \<Rightarrow> attempt \<Rightarrow> attempt" where
  "result_row ext_id ext_url r = r\<lparr>da_status := DDelivered, da_ext_id := ext_id, da_ext_url := ext_url, da_error := None\<rparr>"

definition failure_row :: "ustr \<Rightarrow> instant option \<Rightarrow> bool \<Rightarrow> attempt \<Rightarrow> attempt" where
  "failure_row msg next_at dead r =
     r\<lparr>da_status := (if dead then DDead else DPending), da_error := Some (take 2000 msg), da_next := next_at\<rparr>"

definition park_row :: "instant \<Rightarrow> attempt \<Rightarrow> attempt" where
  "park_row next_at r =
     r\<lparr>da_status := DWaitingAdapter, da_attempts := max 0 (da_attempts r - 1), da_next := Some next_at\<rparr>"

definition list_deliveries_for_task :: "uuid \<Rightarrow> delivery_db \<Rightarrow> attempt list" where
  "list_deliveries_for_task i db = sort_key da_created (filter (\<lambda>r. da_task r = i) (dd_attempts db))"

definition is_stuck :: "instant \<Rightarrow> attempt \<Rightarrow> bool" where
  "is_stuck older_than r \<longleftrightarrow> da_status r = DDelivering \<and> da_updated r < older_than"

definition reap_stuck_deliveries :: "instant \<Rightarrow> instant \<Rightarrow> delivery_db \<Rightarrow> delivery_db" where
  "reap_stuck_deliveries clock older_than db =
     map_attempts (\<lambda>r. if is_stuck older_than r then r\<lparr>da_status := DPending, da_updated := clock\<rparr> else r) db"

definition reset_delivery_for_retry :: "instant \<Rightarrow> uuid \<Rightarrow> uuid option \<Rightarrow> delivery_db \<Rightarrow> delivery_db \<times> nat" where
  "reset_delivery_for_retry now task tgt db =
     (let hit = (\<lambda>r. da_task r = task \<and> delivery_can_retry (da_status r) \<and> (tgt = None \<or> da_target r = tgt))
      in (map_attempts (\<lambda>r. if hit r then r\<lparr>da_status := DPending, da_next := Some now, da_updated := now\<rparr> else r) db,
          length (filter hit (dd_attempts db))))"

section \<open>Queueing on completion\<close>

definition backoff_seconds :: "int \<Rightarrow> int \<Rightarrow> int \<Rightarrow> rat" where
  "backoff_seconds attempts base cap = min (of_int base * 2 powi (attempts - 1)) (of_int cap)"

text \<open>\<open>now + timedelta(seconds=s)\<close>.\<close>

definition later :: "instant \<Rightarrow> rat \<Rightarrow> instant" where
  "later now s = now + \<lfloor>1000000 * s\<rfloor>"

text \<open>One entry of the task's delivery list. The result: skipped, or the database with one row more, or
  the exception of a refused insert.\<close>

definition enqueue_one ::
  "delivery_env \<Rightarrow> int \<Rightarrow> instant \<Rightarrow> (nat \<Rightarrow> uuid) \<Rightarrow> task_row \<Rightarrow> delivery_db \<times> nat \<Rightarrow> json \<Rightarrow> (delivery_db \<times> nat) option" where
  "enqueue_one env max_attempts now fresh t acc item = (case acc of (db, n) \<Rightarrow> (case item of
     JDict d \<Rightarrow>
       (let ref = jget d (lit ''deliver_to'') in
        if \<not> truthy ref then Some acc
        else (case de_uuid env (py_str (de_repr env) ref) of None \<Rightarrow> Some acc
         | Some i \<Rightarrow> (case get_delivery_target (t_user t) i (dd_targets db) of None \<Rightarrow> Some acc
             | Some tgt \<Rightarrow>
                 (let variant = json_or (jget d (lit ''variant''))
                      (jget_or (tg_config tgt) (lit ''default_variant'') (JStr (lit ''summary'')))
                  in map_option (\<lambda>x. (x, n + 1))
                       (create_delivery_attempt now (fresh n) (t_id t) (Some (tg_id tgt)) (tg_adapter tgt) variant
                          max_attempts now db)))))
   | _ \<Rightarrow> Some acc))"

fun enqueue_items ::
  "delivery_env \<Rightarrow> int \<Rightarrow> instant \<Rightarrow> (nat \<Rightarrow> uuid) \<Rightarrow> task_row \<Rightarrow> json list \<Rightarrow> delivery_db \<times> nat \<Rightarrow> (delivery_db \<times> nat) option" where
  "enqueue_items env m now fresh t [] acc = Some acc"
| "enqueue_items env m now fresh t (item # items) acc =
     (case enqueue_one env m now fresh t acc item of None \<Rightarrow> None | Some acc' \<Rightarrow> enqueue_items env m now fresh t items acc')"

definition enqueue_deliveries ::
  "delivery_env \<Rightarrow> int \<Rightarrow> instant \<Rightarrow> (nat \<Rightarrow> uuid) \<Rightarrow> task_row \<Rightarrow> delivery_db \<Rightarrow> (delivery_db \<times> nat) option" where
  "enqueue_deliveries env max_attempts now fresh t db =
     (case json_or (jget (as_dict (t_options t)) (lit ''delivery'')) (JList []) of
        JList items \<Rightarrow> enqueue_items env max_attempts now fresh t items (db, 0)
      | _ \<Rightarrow> Some (db, 0))"

section \<open>Processing one row\<close>

text \<open>How the body of \<open>process_one_delivery\<close> ends: the adapter is not loaded, something failed, or the
  adapter took the content.\<close>

datatype outcome = Parked | Broken ustr | Sent "ustr option" "ustr option"

definition deliver_attempt :: "delivery_env \<Rightarrow> task_db \<Rightarrow> delivery_db \<Rightarrow> attempt \<Rightarrow> outcome" where
  "deliver_attempt env tasks db r =
     (case get_adapter (de_registry env) (da_adapter r) of None \<Rightarrow> Parked
      | Some a \<Rightarrow> (case find_task tasks (da_task r) of None \<Rightarrow> Broken (lit ''RuntimeError: task '' @ de_uuid_str env (da_task r) @ lit '' is gone'')
      | Some t \<Rightarrow> (case resolve_variant (de_repr env) (de_files env) t (da_variant r) of
          Inl e \<Rightarrow> Broken (de_text env e)
        | Inr pl \<Rightarrow>
           (let tgt = (case da_target r of None \<Rightarrow> None | Some i \<Rightarrow> get_delivery_target (t_user t) i (dd_targets db));
                cred = (case tgt of None \<Rightarrow> None | Some x \<Rightarrow> get_delivery_credential (t_user t) (tg_credential x) (dd_credentials db))
            in (case (case cred of None \<Rightarrow> Inr []
                      | Some c \<Rightarrow> (case cr_secrets c of None \<Rightarrow> Inr []
                          | Some enc \<Rightarrow> if enc = [] then Inr [] else de_decrypt env enc)) of
                  Inl msg \<Rightarrow> Broken msg
                | Inr secrets \<Rightarrow>
                    (case de_deliver env a pl (strip_core_fields (merge_config cred tgt)) secrets of
                       Inl msg \<Rightarrow> Broken msg
                     | Inr (ext_id, ext_url) \<Rightarrow> Sent ext_id ext_url))))))"

text \<open>The row as the session wants it, computed from the row it loaded.\<close>

definition settled_row :: "delivery_settings \<Rightarrow> instant \<Rightarrow> outcome \<Rightarrow> attempt \<Rightarrow> attempt" where
  "settled_row cfg now out r = (case out of
      Sent ext_id ext_url \<Rightarrow> result_row ext_id ext_url r
    | Parked \<Rightarrow> park_row (later now (of_int (ds_wait cfg))) r
    | Broken msg \<Rightarrow>
        (let dead = da_max r \<le> da_attempts r
         in failure_row msg (if dead then None
              else Some (later now (backoff_seconds (da_attempts r) (ds_base cfg) (ds_cap cfg)))) dead r))"

text \<open>The update a flush sends: the columns that differ from the loaded ones, and the time stamp; no
  difference, no update.\<close>

definition changed :: "'a \<Rightarrow> 'a \<Rightarrow> 'a \<Rightarrow> 'a" where
  "changed loaded new current = (if new = loaded then current else new)"

definition flush_row :: "instant \<Rightarrow> attempt \<Rightarrow> attempt \<Rightarrow> attempt \<Rightarrow> attempt" where
  "flush_row clock loaded new r = (if new = loaded then r
     else r\<lparr>da_status := changed (da_status loaded) (da_status new) (da_status r),
            da_attempts := changed (da_attempts loaded) (da_attempts new) (da_attempts r),
            da_next := changed (da_next loaded) (da_next new) (da_next r),
            da_error := changed (da_error loaded) (da_error new) (da_error r),
            da_ext_id := changed (da_ext_id loaded) (da_ext_id new) (da_ext_id r),
            da_ext_url := changed (da_ext_url loaded) (da_ext_url new) (da_ext_url r),
            da_updated := clock\<rparr>)"

text \<open>The write at the end, and whether it raises: the update of a row that is gone does.\<close>

definition record_outcome ::
  "delivery_settings \<Rightarrow> instant \<Rightarrow> instant \<Rightarrow> attempt \<Rightarrow> outcome \<Rightarrow> delivery_db \<Rightarrow> delivery_db \<times> bool" where
  "record_outcome cfg now clock loaded out db =
     (let new = settled_row cfg now out loaded
      in (map_attempts (\<lambda>r. if da_id r = da_id loaded then flush_row clock loaded new r else r) db,
          new \<noteq> loaded \<and> find_attempt db (da_id loaded) = None))"

section \<open>The tick of one worker\<close>

text \<open>Every row has its own reading of the clock, taken when it was loaded, and its own time of writing.\<close>

definition process_one_delivery ::
  "delivery_settings \<Rightarrow> delivery_env \<Rightarrow> task_db \<Rightarrow> uuid \<Rightarrow> delivery_db \<Rightarrow> delivery_db \<times> bool" where
  "process_one_delivery cfg env tasks i db = (case find_attempt db i of None \<Rightarrow> (db, False)
     | Some r \<Rightarrow> record_outcome cfg (de_now env i) (de_written env i) r (deliver_attempt env tasks db r) db)"

fun process_ids ::
  "delivery_settings \<Rightarrow> delivery_env \<Rightarrow> task_db \<Rightarrow> uuid list \<Rightarrow> delivery_db \<Rightarrow> delivery_db" where
  "process_ids cfg env tasks [] db = db"
| "process_ids cfg env tasks (i # ids) db =
     (case process_one_delivery cfg env tasks i db of
        (db', raised) \<Rightarrow> if raised then db' else process_ids cfg env tasks ids db')"

text \<open>The transaction that reaps and claims, and the whole tick.\<close>

definition claim_batch :: "delivery_settings \<Rightarrow> instant \<Rightarrow> delivery_db \<Rightarrow> delivery_db \<times> uuid list" where
  "claim_batch cfg now db =
     claim_due_deliveries now (ds_batch cfg) (reap_stuck_deliveries now (later now (- of_int (ds_stuck cfg))) db)"

definition delivery_tick ::
  "delivery_settings \<Rightarrow> delivery_env \<Rightarrow> task_db \<Rightarrow> instant \<Rightarrow> delivery_db \<Rightarrow> delivery_db \<times> nat" where
  "delivery_tick cfg env tasks now db =
     (case claim_batch cfg now db of (db1, ids) \<Rightarrow> (process_ids cfg env tasks ids db1, length ids))"

section \<open>One tick, row by row\<close>

definition attempts_ok :: "delivery_db \<Rightarrow> bool" where
  "attempts_ok db \<longleftrightarrow> distinct (map da_id (dd_attempts db))"

lemma find_map_keeping:
  "(\<And>r. da_id (f r) = da_id r) \<Longrightarrow> find (\<lambda>r. da_id r = i) (map f rs) = map_option f (find (\<lambda>r. da_id r = i) rs)"
  by (induction rs) auto

lemma find_map_attempts:
  "(\<And>r. da_id (f r) = da_id r) \<Longrightarrow> find_attempt (map_attempts f db) i = map_option f (find_attempt db i)"
  by (simp add: find_attempt_def map_attempts_def find_map_keeping)

lemma find_attempt_id: "find_attempt db i = Some r \<Longrightarrow> da_id r = i"
  by (auto simp: find_attempt_def find_Some_iff)

lemma find_attempt_mem: "find_attempt db i = Some r \<Longrightarrow> r \<in> set (dd_attempts db)"
  by (auto simp: find_attempt_def find_Some_iff)

lemma find_attempt_iff: "attempts_ok db \<Longrightarrow> find_attempt db i = Some r \<longleftrightarrow> r \<in> set (dd_attempts db) \<and> da_id r = i"
proof
  assume ok: "attempts_ok db" and r: "r \<in> set (dd_attempts db) \<and> da_id r = i"
  then obtain r' where r': "find_attempt db i = Some r'" by (fastforce simp: find_attempt_def find_None_iff)
  have "inj_on da_id (set (dd_attempts db))" using ok by (simp add: attempts_ok_def distinct_map)
  then have "r' = r" using r find_attempt_id [OF r'] find_attempt_mem [OF r'] by (auto dest: inj_onD)
  then show "find_attempt db i = Some r" using r' by simp
qed (auto dest: find_attempt_id find_attempt_mem)

lemma map_attempts_frame [simp]:
  "dd_targets (map_attempts f db) = dd_targets db" "dd_credentials (map_attempts f db) = dd_credentials db"
  "dd_attempts (map_attempts f db) = map f (dd_attempts db)"
  by (simp_all add: map_attempts_def)

lemma attempts_ok_map: "(\<And>r. da_id (f r) = da_id r) \<Longrightarrow> attempts_ok (map_attempts f db) \<longleftrightarrow> attempts_ok db"
  by (simp add: attempts_ok_def comp_def)

lemma row_ids [simp]:
  "da_id (claim_row now r) = da_id r" "da_id (flush_row clock l n r) = da_id r" "da_id (settled_row cfg now out r) = da_id r"
  by (simp_all add: claim_row_def flush_row_def settled_row_def result_row_def failure_row_def park_row_def Let_def
      split: outcome.split)

definition reap_row :: "instant \<Rightarrow> instant \<Rightarrow> attempt \<Rightarrow> attempt" where
  "reap_row clock older_than r = (if is_stuck older_than r then r\<lparr>da_status := DPending, da_updated := clock\<rparr> else r)"

lemma reap_row_id [simp]: "da_id (reap_row c t r) = da_id r"
  by (simp add: reap_row_def)

lemma reap_alt: "reap_stuck_deliveries c t db = map_attempts (reap_row c t) db"
  by (simp add: reap_stuck_deliveries_def reap_row_def [abs_def])

text \<open>The row a tick leaves when it handles \<open>r\<close>.\<close>

definition handled :: "delivery_settings \<Rightarrow> delivery_env \<Rightarrow> task_db \<Rightarrow> delivery_db \<Rightarrow> attempt \<Rightarrow> attempt" where
  "handled cfg env tasks db r = (settled_row cfg (de_now env (da_id r)) (deliver_attempt env tasks db r) r)
     \<lparr>da_updated := de_written env (da_id r)\<rparr>"

lemma deliver_attempt_frame:
  assumes "dd_targets db' = dd_targets db" and "dd_credentials db' = dd_credentials db"
  shows "deliver_attempt env tasks db' r = deliver_attempt env tasks db r"
  unfolding deliver_attempt_def assms ..

lemma settled_differs: "da_status r = DDelivering \<Longrightarrow> settled_row cfg now out r \<noteq> r"
  by (auto simp: settled_row_def result_row_def failure_row_def park_row_def Let_def dest: arg_cong [of _ _ da_status]
      split: outcome.splits if_splits)

lemma flush_row_same:
  "settled_row cfg now out r \<noteq> r \<Longrightarrow> flush_row clock r (settled_row cfg now out r) r
     = (settled_row cfg now out r)\<lparr>da_updated := clock\<rparr>"
  by (simp add: flush_row_def changed_def settled_row_def result_row_def failure_row_def park_row_def Let_def
      split: outcome.split)

text \<open>What the reaping and claiming transaction does to each row.\<close>

lemma claim_batch_rows:
  assumes "claim_batch cfg now db = (db1, ids)"
  defines "reaped \<equiv> reap_row now (later now (- of_int (ds_stuck cfg)))"
  shows "find_attempt db1 i = map_option (\<lambda>r. if i \<in> set ids then claim_row now (reaped r) else reaped r) (find_attempt db i)"
    and "dd_targets db1 = dd_targets db" and "dd_credentials db1 = dd_credentials db"
    and "attempts_ok db1 \<longleftrightarrow> attempts_ok db"
    and "attempts_ok db \<Longrightarrow> distinct ids"
    and "attempts_ok db \<Longrightarrow> i \<in> set ids \<Longrightarrow> \<exists>r. find_attempt db i = Some r \<and> is_due now (reaped r)"
    and "length ids \<le> ds_batch cfg"
proof -
  let ?db = "map_attempts reaped db"
  have ids: "ids = map da_id (due_rows now (ds_batch cfg) ?db)"
    and db1: "db1 = map_attempts (\<lambda>r. if da_id r \<in> set ids then claim_row now r else r) ?db"
    using assms by (auto simp: claim_batch_def claim_due_deliveries_def reap_alt Let_def)
  have f: "find_attempt ?db i = map_option reaped (find_attempt db i)"
    by (rule find_map_attempts) (simp add: reaped_def)
  have "find_attempt db1 i = map_option (\<lambda>r. if da_id r \<in> set ids then claim_row now r else r) (find_attempt ?db i)"
    unfolding db1 by (rule find_map_attempts) simp
  then show "find_attempt db1 i = map_option (\<lambda>r. if i \<in> set ids then claim_row now (reaped r) else reaped r) (find_attempt db i)"
    unfolding f by (cases "find_attempt db i") (auto simp: reaped_def dest: find_attempt_id)
  show "dd_targets db1 = dd_targets db" "dd_credentials db1 = dd_credentials db" by (simp_all add: db1)
  have ok: "attempts_ok ?db \<longleftrightarrow> attempts_ok db" by (rule attempts_ok_map) (simp add: reaped_def)
  then show "attempts_ok db1 \<longleftrightarrow> attempts_ok db" unfolding db1 by (subst attempts_ok_map) simp_all
  show "length ids \<le> ds_batch cfg" by (simp add: ids due_rows_def)
  assume "attempts_ok db"
  with ok have ok': "attempts_ok ?db" by simp
  have d: "distinct (map da_id (sort_key (\<lambda>r. the (da_next r)) (filter (is_due now) (dd_attempts ?db))))"
    using distinct_map_filter [OF ok' [unfolded attempts_ok_def], of "is_due now"] by (simp add: distinct_map)
  then show "distinct ids" unfolding ids due_rows_def by (simp add: take_map [symmetric])
  assume "i \<in> set ids"
  then obtain r where "r \<in> set (take (ds_batch cfg) (sort_key (\<lambda>r. the (da_next r)) (filter (is_due now) (dd_attempts ?db))))"
    and i: "da_id r = i"
    unfolding ids due_rows_def by auto
  from in_set_takeD [OF this(1)] have r: "r \<in> set (dd_attempts ?db)" "is_due now r" "da_id r = i" using i by auto
  then have "find_attempt ?db i = Some r" using find_attempt_iff [OF ok'] by blast
  then show "\<exists>r. find_attempt db i = Some r \<and> is_due now (reaped r)" using r f by auto
qed

lemma process_one_row:
  assumes "find_attempt db i = Some r" and "da_status r = DDelivering"
  shows "process_one_delivery cfg env tasks i db
     = (map_attempts (\<lambda>x. if da_id x = i then flush_row (de_written env i) r (settled_row cfg (de_now env i) (deliver_attempt env tasks db r) r) x else x) db, False)"
  using assms find_attempt_id [OF assms(1)] by (simp add: process_one_delivery_def record_outcome_def Let_def)

lemma process_ids_rows:
  assumes "distinct ids" and "\<And>i. i \<in> set ids \<Longrightarrow> \<exists>r. find_attempt db i = Some r \<and> da_status r = DDelivering"
  shows "find_attempt (process_ids cfg env tasks ids db) i
      = map_option (\<lambda>r. if i \<in> set ids then handled cfg env tasks db r else r) (find_attempt db i)
    \<and> map da_id (dd_attempts (process_ids cfg env tasks ids db)) = map da_id (dd_attempts db)
    \<and> dd_targets (process_ids cfg env tasks ids db) = dd_targets db
    \<and> dd_credentials (process_ids cfg env tasks ids db) = dd_credentials db"
  using assms
proof (induction ids arbitrary: db)
  case Nil
  then show ?case by (simp add: option.map_ident)
next
  case (Cons j ids)
  obtain r where r: "find_attempt db j = Some r" "da_status r = DDelivering" using Cons.prems(2) by auto
  let ?new = "settled_row cfg (de_now env j) (deliver_attempt env tasks db r) r"
  define db2 where "db2 = map_attempts (\<lambda>x. if da_id x = j then flush_row (de_written env j) r ?new x else x) db"
  let ?db = db2
  have one: "process_one_delivery cfg env tasks j db = (db2, False)"
    unfolding db2_def by (rule process_one_row [OF r])
  have frame: "dd_targets db2 = dd_targets db" "dd_credentials db2 = dd_credentials db"
    "map da_id (dd_attempts db2) = map da_id (dd_attempts db)"
    by (auto simp: db2_def)
  have find: "find_attempt ?db k = (if k = j then Some (handled cfg env tasks db r) else find_attempt db k)" for k
  proof -
    have "find_attempt ?db k = map_option (\<lambda>x. if da_id x = j then flush_row (de_written env j) r ?new x else x) (find_attempt db k)"
      unfolding db2_def by (rule find_map_attempts) simp
    then show ?thesis using r flush_row_same [OF settled_differs [OF r(2)]]
      by (cases "find_attempt db k") (auto simp: handled_def dest: find_attempt_id)
  qed
  have same: "handled cfg env tasks ?db = handled cfg env tasks db"
    by (rule ext) (simp add: handled_def deliver_attempt_frame [OF frame(1,2)])
  have "distinct ids" "\<And>i. i \<in> set ids \<Longrightarrow> \<exists>r. find_attempt ?db i = Some r \<and> da_status r = DDelivering"
    using Cons.prems find by auto
  note IH = Cons.IH [OF this]
  show ?case
    using IH find [of i] r Cons.prems(1) frame unfolding same by (cases "i = j") (simp_all add: one)
qed

text \<open>The tick: a row that is not claimed is only reaped, a claimed one is handled.\<close>

lemma delivery_tick_rows:
  assumes "attempts_ok db" and "claim_batch cfg now db = (db1, ids)"
  defines "reaped \<equiv> reap_row now (later now (- of_int (ds_stuck cfg)))"
  shows "find_attempt (fst (delivery_tick cfg env tasks now db)) i = map_option
      (\<lambda>r. if i \<in> set ids then handled cfg env tasks db (claim_row now (reaped r)) else reaped r) (find_attempt db i)"
    and "attempts_ok (fst (delivery_tick cfg env tasks now db))"
    and "dd_targets (fst (delivery_tick cfg env tasks now db)) = dd_targets db"
    and "dd_credentials (fst (delivery_tick cfg env tasks now db)) = dd_credentials db"
proof -
  note c = claim_batch_rows [OF assms(2), folded reaped_def]
  have "\<exists>r. find_attempt db1 j = Some r \<and> da_status r = DDelivering" if "j \<in> set ids" for j
    using c(1) [of j] c(6) [OF assms(1) that] that by (auto simp: claim_row_def)
  note p = process_ids_rows [OF c(5) [OF assms(1)] this, of cfg env tasks]
  have same: "handled cfg env tasks db1 = handled cfg env tasks db"
    by (rule ext) (simp add: handled_def deliver_attempt_frame [OF c(2,3)])
  show "find_attempt (fst (delivery_tick cfg env tasks now db)) i = map_option
      (\<lambda>r. if i \<in> set ids then handled cfg env tasks db (claim_row now (reaped r)) else reaped r) (find_attempt db i)"
    using p [of i] c(1) [of i] same assms(2) by (cases "find_attempt db i") (simp_all add: delivery_tick_def)
  show "attempts_ok (fst (delivery_tick cfg env tasks now db))"
    using p c(4) assms(1,2) by (simp add: delivery_tick_def attempts_ok_def)
  show "dd_targets (fst (delivery_tick cfg env tasks now db)) = dd_targets db"
    "dd_credentials (fst (delivery_tick cfg env tasks now db)) = dd_credentials db"
    using p c(2,3) assms(2) by (simp_all add: delivery_tick_def)
qed

section \<open>Failing deliveries and missing adapters\<close>

text \<open>Ticks, each at its time and in its environment.\<close>

fun delivery_ticks ::
  "delivery_settings \<Rightarrow> task_db \<Rightarrow> (instant \<times> delivery_env) list \<Rightarrow> delivery_db \<Rightarrow> delivery_db" where
  "delivery_ticks cfg tasks [] db = db"
| "delivery_ticks cfg tasks ((now, env) # rounds) db =
     delivery_ticks cfg tasks rounds (fst (delivery_tick cfg env tasks now db))"

fun is_broken :: "outcome \<Rightarrow> bool" where
  "is_broken (Broken msg) = True" | "is_broken _ = False"

definition fails_in :: "delivery_settings \<Rightarrow> task_db \<Rightarrow> uuid \<Rightarrow> instant \<Rightarrow> delivery_env \<Rightarrow> delivery_db \<Rightarrow> bool" where
  "fails_in cfg tasks i now env db = (case claim_batch cfg now db of (db1, ids) \<Rightarrow>
     i \<in> set ids \<and> (case find_attempt db1 i of None \<Rightarrow> False | Some r \<Rightarrow> is_broken (deliver_attempt env tasks db1 r)))"

text \<open>Every tick claims the row, and its delivery fails.\<close>

fun failing_run :: "delivery_settings \<Rightarrow> task_db \<Rightarrow> uuid \<Rightarrow> (instant \<times> delivery_env) list \<Rightarrow> delivery_db \<Rightarrow> bool" where
  "failing_run cfg tasks i [] db = True"
| "failing_run cfg tasks i ((now, env) # rounds) db =
     (fails_in cfg tasks i now env db \<and> failing_run cfg tasks i rounds (fst (delivery_tick cfg env tasks now db)))"

lemma reap_claimable: "delivery_is_claimable (da_status r) \<Longrightarrow> reap_row c t r = r"
  by (auto simp: reap_row_def is_stuck_def delivery_is_claimable_def claimable_deliveries_def)

lemma reap_terminal: "delivery_is_terminal (da_status r) \<Longrightarrow> reap_row c t r = r"
  by (auto simp: reap_row_def is_stuck_def delivery_is_terminal_def terminal_deliveries_def)

lemma terminal_not_failing:
  assumes "attempts_ok db" and "find_attempt db i = Some r" and "delivery_is_terminal (da_status r)"
  shows "\<not> fails_in cfg tasks i now env db"
proof
  assume f: "fails_in cfg tasks i now env db"
  obtain db1 ids where c: "claim_batch cfg now db = (db1, ids)" by (metis prod.exhaust)
  then have "is_due now (reap_row now (later now (- of_int (ds_stuck cfg))) r)"
    using f claim_batch_rows(6) [OF c assms(1), of i] assms(2) by (auto simp: fails_in_def)
  then show False using assms(3) by (simp add: reap_terminal is_due_def delivery_status_defs) auto
qed

lemma failing_tick:
  assumes "attempts_ok db" and "find_attempt db i = Some r" and "delivery_is_claimable (da_status r)"
    and "fails_in cfg tasks i now env db"
  shows "\<exists>r1. find_attempt (fst (delivery_tick cfg env tasks now db)) i = Some r1
     \<and> da_attempts r1 = da_attempts r + 1 \<and> da_max r1 = da_max r
     \<and> da_status r1 = (if da_max r \<le> da_attempts r + 1 then DDead else DPending)
     \<and> da_next r1 = (if da_max r \<le> da_attempts r + 1 then None
          else Some (later (de_now env i) (backoff_seconds (da_attempts r + 1) (ds_base cfg) (ds_cap cfg))))"
proof -
  obtain db1 ids where c: "claim_batch cfg now db = (db1, ids)" by (metis prod.exhaust)
  have i: "i \<in> set ids" using assms(4) c by (simp add: fails_in_def)
  have f1: "find_attempt db1 i = Some (claim_row now r)"
    using claim_batch_rows(1) [OF c, of i] assms(2,3) i by (simp add: reap_claimable)
  have "is_broken (deliver_attempt env tasks db (claim_row now r))"
    using assms(4) c f1 deliver_attempt_frame [OF claim_batch_rows(2,3) [OF c]] by (simp add: fails_in_def)
  then obtain msg where "deliver_attempt env tasks db (claim_row now r) = Broken msg"
    by (cases "deliver_attempt env tasks db (claim_row now r)") auto
  then show ?thesis
    using delivery_tick_rows(1) [OF assms(1) c, of env tasks i] assms(2,3) i find_attempt_id [OF assms(2)]
    by (simp add: reap_claimable handled_def settled_row_def failure_row_def claim_row_def Let_def)
qed

lemma backoff_bounds:
  assumes "1 \<le> n" and "0 \<le> base" and "base \<le> cap"
  shows "of_int base \<le> backoff_seconds n base cap \<and> backoff_seconds n base cap \<le> of_int cap
     \<and> backoff_seconds n base cap \<le> backoff_seconds (n + 1) base cap"
proof -
  obtain k where n: "n = 1 + int k" using assms(1) by (metis zle_iff_zadd)
  have p: "(2::rat) powi (int m) = 2 ^ m" for m by simp
  have a: "(2::rat) powi (n - 1) = 2 ^ k" using p [of k] by (simp add: n)
  have b: "(2::rat) powi (n + 1 - 1) = 2 ^ Suc k" using p [of "Suc k"] by (simp add: n add.commute)
  have one: "(1::rat) \<le> 2 ^ k" by simp
  have base: "(0::rat) \<le> of_int base" using assms(2) by simp
  have "of_int base * (1::rat) \<le> of_int base * 2 ^ k" using one base by (rule mult_left_mono)
  moreover have "of_int base * (2::rat) ^ k \<le> of_int base * 2 ^ Suc k"
    using base by (intro mult_left_mono) simp_all
  ultimately show ?thesis unfolding backoff_seconds_def a b using assms(3) by (auto simp: min_def)
qed

text \<open>A delivery that keeps failing is tried a bounded number of times and then given up: a row with
  \<open>a\<close> attempts behind it survives at most the larger of one and \<open>max_attempts - a\<close> failing ticks, each
  charges one attempt and, short of the last, puts the next one off by the backoff, which starts at
  the base, never shrinks and never exceeds the cap. In particular a fresh row dies after exactly
  \<open>max_attempts\<close> failures, and a retried dead row, whose attempts are not reset, after one.\<close>

theorem failing_delivery_dies:
  assumes "attempts_ok db" and "find_attempt db i = Some r" and "delivery_is_claimable (da_status r)"
    and "failing_run cfg tasks i rounds db" and "rounds \<noteq> []"
  shows "int (length rounds) \<le> max 1 (da_max r - da_attempts r)
     \<and> (\<exists>r'. find_attempt (delivery_ticks cfg tasks rounds db) i = Some r'
          \<and> da_attempts r' = da_attempts r + int (length rounds)
          \<and> da_status r' = (if da_max r \<le> da_attempts r' then DDead else DPending)
          \<and> da_next r' = (if da_max r \<le> da_attempts r' then None
               else Some (later (de_now (snd (last rounds)) i) (backoff_seconds (da_attempts r') (ds_base cfg) (ds_cap cfg)))))
     \<and> (\<forall>n. 1 \<le> n \<and> 0 \<le> ds_base cfg \<and> ds_base cfg \<le> ds_cap cfg \<longrightarrow>
          of_int (ds_base cfg) \<le> backoff_seconds n (ds_base cfg) (ds_cap cfg)
          \<and> backoff_seconds n (ds_base cfg) (ds_cap cfg) \<le> of_int (ds_cap cfg)
          \<and> backoff_seconds n (ds_base cfg) (ds_cap cfg) \<le> backoff_seconds (n + 1) (ds_base cfg) (ds_cap cfg))"
proof -
  have "int (length rounds) \<le> max 1 (da_max r - da_attempts r)
     \<and> (\<exists>r'. find_attempt (delivery_ticks cfg tasks rounds db) i = Some r'
          \<and> da_attempts r' = da_attempts r + int (length rounds)
          \<and> da_status r' = (if da_max r \<le> da_attempts r' then DDead else DPending)
          \<and> da_next r' = (if da_max r \<le> da_attempts r' then None
               else Some (later (de_now (snd (last rounds)) i) (backoff_seconds (da_attempts r') (ds_base cfg) (ds_cap cfg)))))"
    using assms
  proof (induction rounds arbitrary: db r)
    case Nil
    then show ?case by simp
  next
    case (Cons round rounds)
    obtain now env where round: "round = (now, env)" by (metis prod.exhaust)
    let ?db1 = "fst (delivery_tick cfg env tasks now db)"
    have f: "fails_in cfg tasks i now env db" "failing_run cfg tasks i rounds ?db1" using Cons.prems round by auto
    obtain r1 where r1: "find_attempt ?db1 i = Some r1" "da_attempts r1 = da_attempts r + 1" "da_max r1 = da_max r"
      "da_status r1 = (if da_max r \<le> da_attempts r + 1 then DDead else DPending)"
      "da_next r1 = (if da_max r \<le> da_attempts r + 1 then None
          else Some (later (de_now env i) (backoff_seconds (da_attempts r + 1) (ds_base cfg) (ds_cap cfg))))"
      using failing_tick [OF Cons.prems(1-3) f(1)] by blast
    obtain db1 ids where c: "claim_batch cfg now db = (db1, ids)" by (metis prod.exhaust)
    have ok: "attempts_ok ?db1" using delivery_tick_rows(2) [OF Cons.prems(1) c] .
    show ?case
    proof (cases "rounds = []")
      case True
      then show ?thesis using r1 by (simp add: round)
    next
      case False
      have alive: "\<not> da_max r \<le> da_attempts r + 1"
      proof
        assume "da_max r \<le> da_attempts r + 1"
        then have "delivery_is_terminal (da_status r1)" using r1(4) by (simp add: delivery_status_defs)
        then show False using terminal_not_failing [OF ok r1(1)] f(2) False by (cases rounds) auto
      qed
      then have "delivery_is_claimable (da_status r1)" using r1(4) by (simp add: delivery_status_defs)
      from Cons.IH [OF ok r1(1) this f(2) False] show ?thesis
        using False alive r1(2,3) by (auto simp: round algebra_simps)
    qed
  qed
  then show ?thesis using backoff_bounds by blast
qed


text \<open>A tick in which the row's adapter is not loaded.\<close>

lemma parked_tick:
  assumes "attempts_ok db" and "find_attempt db i = Some r" and "delivery_is_claimable (da_status r)"
    and "0 \<le> da_attempts r" and "da_next r \<noteq> None" and "get_adapter (de_registry env) (da_adapter r) = None"
  shows "\<exists>r1. find_attempt (fst (delivery_tick cfg env tasks now db)) i = Some r1
     \<and> delivery_is_claimable (da_status r1) \<and> da_attempts r1 = da_attempts r \<and> da_next r1 \<noteq> None
     \<and> da_adapter r1 = da_adapter r \<and> da_error r1 = da_error r
     \<and> (da_status r1 = da_status r \<or> da_status r1 = DWaitingAdapter)"
proof -
  obtain db1 ids where c: "claim_batch cfg now db = (db1, ids)" by (metis prod.exhaust)
  show ?thesis
  proof (cases "i \<in> set ids")
    case True
    have "deliver_attempt env tasks db (claim_row now r) = Parked"
      using assms(6) by (simp add: deliver_attempt_def claim_row_def)
    then show ?thesis
      using delivery_tick_rows(1) [OF assms(1) c, of env tasks i] assms True
      by (simp add: reap_claimable handled_def settled_row_def park_row_def claim_row_def delivery_status_defs)
  next
    case False
    then show ?thesis
      using delivery_tick_rows(1) [OF assms(1) c, of env tasks i] assms by (simp add: reap_claimable)
  qed
qed

text \<open>A missing plugin never costs a delivery anything: through any number of ticks in which its adapter
  is not loaded, a row that waits for its turn keeps its number of attempts and its last error, is
  never dead and never without a next time, so that the first due tick with the adapter loaded
  tries it.\<close>

theorem missing_adapter_never_kills:
  assumes "attempts_ok db" and "find_attempt db i = Some r" and "delivery_is_claimable (da_status r)"
    and "0 \<le> da_attempts r" and "da_next r \<noteq> None"
    and "list_all (\<lambda>p. get_adapter (de_registry (snd p)) (da_adapter r) = None) rounds"
  shows "\<exists>r'. find_attempt (delivery_ticks cfg tasks rounds db) i = Some r'
     \<and> delivery_is_claimable (da_status r') \<and> da_attempts r' = da_attempts r \<and> da_error r' = da_error r
     \<and> (\<exists>t. da_next r' = Some t \<and> (\<forall>now. t \<le> now \<longrightarrow> is_due now r'))
     \<and> (da_status r' = da_status r \<or> da_status r' = DWaitingAdapter)"
  using assms
proof (induction rounds arbitrary: db r)
  case Nil
  then show ?case by (auto simp: is_due_def)
next
  case (Cons round rounds)
  obtain now env where round: "round = (now, env)" by (metis prod.exhaust)
  let ?db1 = "fst (delivery_tick cfg env tasks now db)"
  have "get_adapter (de_registry env) (da_adapter r) = None" using Cons.prems(6) round by simp
  from parked_tick [OF Cons.prems(1-5) this] obtain r1 where r1: "find_attempt ?db1 i = Some r1"
    "delivery_is_claimable (da_status r1)" "da_attempts r1 = da_attempts r" "da_next r1 \<noteq> None"
    "da_adapter r1 = da_adapter r" "da_error r1 = da_error r"
    "da_status r1 = da_status r \<or> da_status r1 = DWaitingAdapter" by blast
  obtain db1 ids where c: "claim_batch cfg now db = (db1, ids)" by (metis prod.exhaust)
  have ok: "attempts_ok ?db1" using delivery_tick_rows(2) [OF Cons.prems(1) c] .
  have "list_all (\<lambda>p. get_adapter (de_registry (snd p)) (da_adapter r1) = None) rounds"
    using Cons.prems(6) r1(5) by simp
  moreover have "0 \<le> da_attempts r1" using r1(3) Cons.prems(4) by simp
  ultimately obtain r' where r': "find_attempt (delivery_ticks cfg tasks rounds ?db1) i = Some r'"
    "delivery_is_claimable (da_status r')" "da_attempts r' = da_attempts r1" "da_error r' = da_error r1"
    "\<exists>t. da_next r' = Some t \<and> (\<forall>now. t \<le> now \<longrightarrow> is_due now r')"
    "da_status r' = da_status r1 \<or> da_status r' = DWaitingAdapter"
    using Cons.IH [OF ok r1(1,2) _ r1(4)] by blast
  then show ?case using r1 round by auto
qed

section \<open>A sample\<close>

definition plain_adapter :: adapter where
  "plain_adapter = \<lparr>ad_name = Some (lit ''wiki''), ad_version = VTuple [VInt 1, VInt 2], ad_complete = True,
     ad_connection = [lit ''base_url'']\<rparr>"

definition sample_attempt :: attempt where
  "sample_attempt = \<lparr>da_id = 1, da_task = 1, da_target = None, da_adapter = lit ''wiki'', da_variant = lit ''summary'',
     da_status = DPending, da_attempts = 0, da_max = 2, da_next = Some 0, da_error = None, da_ext_id = None,
     da_ext_url = None, da_created = 0, da_updated = 0\<rparr>"

definition sample_queue :: delivery_db where
  "sample_queue = \<lparr>dd_attempts = [sample_attempt], dd_targets = [], dd_credentials = []\<rparr>"

definition default_settings :: delivery_settings where
  "default_settings = \<lparr>ds_max = 5, ds_base = 60, ds_cap = 3600, ds_batch = 10, ds_stuck = 600, ds_wait = 300\<rparr>"

text \<open>An environment with the given adapters and an adapter call that ends as given.\<close>

definition sample_env :: "registry \<Rightarrow> ustr + (ustr option \<times> ustr option) \<Rightarrow> delivery_env" where
  "sample_env reg res = \<lparr>de_repr = (\<lambda>v. []), de_uuid = (\<lambda>s. None), de_uuid_str = decimal, de_files = (\<lambda>p. Some (lit ''text'')),
     de_registry = reg, de_decrypt = (\<lambda>s. Inr []), de_deliver = (\<lambda>a p c s. res), de_text = (\<lambda>e. []),
     de_now = (\<lambda>i. 1000000), de_written = (\<lambda>i. 1000000)\<rparr>"

definition refusing_env :: delivery_env where
  "refusing_env = sample_env [(lit ''wiki'', plain_adapter)] (Inl (lit ''refused''))"

lemma sample_queue_row: "attempts_ok sample_queue" "find_attempt sample_queue 1 = Some sample_attempt"
  "delivery_is_claimable (da_status sample_attempt)"
  by (simp_all add: attempts_ok_def sample_queue_def find_attempt_def sample_attempt_def delivery_status_defs)

lemmas queue_eval = delivery_tick_def claim_batch_def claim_due_deliveries_def due_rows_def reap_alt reap_row_def is_stuck_def
  is_due_def delivery_status_defs map_attempts_def sample_queue_def sample_attempt_def default_settings_def later_def
  find_attempt_def claim_row_def

lemma refusing_breaks: "is_broken (deliver_attempt refusing_env \<lparr>db_tasks = [], db_asr = []\<rparr> db r) \<longleftrightarrow> da_adapter r = lit ''wiki''"
  by (simp add: deliver_attempt_def refusing_env_def sample_env_def get_adapter_def dict_get_def find_task_def)

theorem failing_delivery_dies_witness:
  "\<exists>r'. find_attempt (delivery_ticks default_settings \<lparr>db_tasks = [], db_asr = []\<rparr>
       [(1000000, refusing_env)] sample_queue) 1 = Some r' \<and> da_attempts r' = 1 \<and> da_status r' = DPending
     \<and> da_next r' = Some (later 1000000 (backoff_seconds 1 60 3600))"
proof -
  let ?tasks = "\<lparr>db_tasks = [], db_asr = []\<rparr> :: task_db"
  have "failing_run default_settings ?tasks 1 [(1000000, refusing_env)] sample_queue"
    using refusing_breaks by (simp add: fails_in_def queue_eval)
  from failing_delivery_dies [OF sample_queue_row this] show ?thesis
    by (auto simp: sample_attempt_def default_settings_def refusing_env_def sample_env_def)
qed

theorem missing_adapter_never_kills_witness:
  "\<exists>r'. find_attempt (delivery_ticks default_settings \<lparr>db_tasks = [], db_asr = []\<rparr>
       (replicate 3 (1000000, sample_env [] (Inl []))) sample_queue) 1 = Some r' \<and> da_attempts r' = 0"
proof -
  have "list_all (\<lambda>p. get_adapter (de_registry (snd p)) (da_adapter sample_attempt) = None)
      (replicate 3 (1000000 :: int, sample_env [] (Inl [])))"
    by (simp add: sample_env_def get_adapter_def dict_get_def list_all_iff)
  from missing_adapter_never_kills [OF sample_queue_row _ _ this, of default_settings "\<lparr>db_tasks = [], db_asr = []\<rparr>"]
  show ?thesis by (auto simp: sample_attempt_def)
qed

end
