(* ===== verification/Delivery_Workers.thy ===== *)
theory Delivery_Workers
  imports Delivery_Queue
begin

text \<open>
  The delivery consumer run by any number of workers, interleaved with user requests, deletions and
  crashes: a step relation over the operations of \<open>Delivery_Queue\<close>, what every history keeps, and what is
  lost when a lease runs out under a slow adapter.
\<close>

section \<open>Any number of workers\<close>

text \<open>A worker's place: between rows, with a row loaded, or with the adapter's answer in hand.\<close>

datatype job = Idle | Loaded attempt | Answered attempt outcome

record worker =
  wk_ids :: "uuid list"
  wk_job :: job

record deliveries =
  dq_db :: delivery_db
  dq_tasks :: task_db
  dq_workers :: "nat \<Rightarrow> worker"
  dq_sent :: "uuid list"

definition at_rest :: worker where "at_rest = \<lparr>wk_ids = [], wk_job = Idle\<rparr>"

fun job_id :: "job \<Rightarrow> uuid list" where
  "job_id Idle = []" | "job_id (Loaded r) = [da_id r]" | "job_id (Answered r out) = [da_id r]"

definition hand :: "worker \<Rightarrow> uuid list" where
  "hand w = job_id (wk_job w) @ wk_ids w"

definition held :: "deliveries \<Rightarrow> uuid \<Rightarrow> bool" where
  "held s i \<longleftrightarrow> (\<exists>w. i \<in> set (hand (dq_workers s w)))"

fun is_sent :: "outcome \<Rightarrow> bool" where
  "is_sent (Sent ext_id ext_url) = True" | "is_sent _ = False"

definition set_worker :: "nat \<Rightarrow> worker \<Rightarrow> deliveries \<Rightarrow> deliveries" where
  "set_worker w x s = s\<lparr>dq_workers := (dq_workers s)(w := x)\<rparr>"

definition drop_target :: "uuid \<Rightarrow> delivery_db \<Rightarrow> delivery_db" where
  "drop_target i db = map_attempts (\<lambda>r. if da_target r = Some i then r\<lparr>da_target := None\<rparr> else r)
     (db\<lparr>dd_targets := filter (\<lambda>t. tg_id t \<noteq> i) (dd_targets db)\<rparr>)"

definition drop_task :: "uuid \<Rightarrow> delivery_db \<Rightarrow> delivery_db" where
  "drop_task i db = db\<lparr>dd_attempts := filter (\<lambda>r. da_task r \<noteq> i) (dd_attempts db)\<rparr>"

text \<open>The steps. With \<open>careful\<close>, no row is reaped while a worker holds it, and no worker dies between
  the adapter's success and the write; without it everything can happen. The environment of an adapter
  call, the clocks and what users do are arbitrary.\<close>

inductive dstep :: "bool \<Rightarrow> delivery_settings \<Rightarrow> deliveries \<Rightarrow> deliveries \<Rightarrow> bool" for careful cfg where
  tick: "dq_workers s w = at_rest \<Longrightarrow> claim_batch cfg now (dq_db s) = (db, ids) \<Longrightarrow>
     careful \<longrightarrow> (\<forall>r\<in>set (dd_attempts (dq_db s)). is_stuck (later now (- of_int (ds_stuck cfg))) r \<longrightarrow> \<not> held s (da_id r)) \<Longrightarrow>
     dstep careful cfg s (set_worker w \<lparr>wk_ids = ids, wk_job = Idle\<rparr> (s\<lparr>dq_db := db\<rparr>))"
| load: "dq_workers s w = \<lparr>wk_ids = i # ids, wk_job = Idle\<rparr> \<Longrightarrow> find_attempt (dq_db s) i = Some r \<Longrightarrow>
     dstep careful cfg s (set_worker w \<lparr>wk_ids = ids, wk_job = Loaded r\<rparr> s)"
| skip: "dq_workers s w = \<lparr>wk_ids = i # ids, wk_job = Idle\<rparr> \<Longrightarrow> find_attempt (dq_db s) i = None \<Longrightarrow>
     dstep careful cfg s (set_worker w \<lparr>wk_ids = ids, wk_job = Idle\<rparr> s)"
| answer: "dq_workers s w = \<lparr>wk_ids = ids, wk_job = Loaded r\<rparr> \<Longrightarrow> out = deliver_attempt env (dq_tasks s) (dq_db s) r \<Longrightarrow>
     dstep careful cfg s (set_worker w \<lparr>wk_ids = ids, wk_job = Answered r out\<rparr>
       (s\<lparr>dq_sent := (if is_sent out then dq_sent s @ [da_id r] else dq_sent s)\<rparr>))"
| settle: "dq_workers s w = \<lparr>wk_ids = ids, wk_job = Answered r out\<rparr> \<Longrightarrow>
     record_outcome cfg now clock r out (dq_db s) = (db, raised) \<Longrightarrow>
     dstep careful cfg s (set_worker w (if raised then at_rest else \<lparr>wk_ids = ids, wk_job = Idle\<rparr>) (s\<lparr>dq_db := db\<rparr>))"
| crash: "careful \<longrightarrow> (\<forall>r out. wk_job (dq_workers s w) = Answered r out \<longrightarrow> \<not> is_sent out) \<Longrightarrow>
     dstep careful cfg s (set_worker w at_rest s)"
| retry: "dstep careful cfg s (s\<lparr>dq_db := fst (reset_delivery_for_retry now task tgt (dq_db s))\<rparr>)"
| enqueue: "enqueue_deliveries env m now fresh t (dq_db s) = Some (db, n) \<Longrightarrow> inj fresh \<Longrightarrow>
     \<forall>k. fresh k \<notin> da_id ` set (dd_attempts (dq_db s)) \<union> set (dq_sent s) \<and> \<not> held s (fresh k) \<Longrightarrow>
     dstep careful cfg s (s\<lparr>dq_db := db\<rparr>)"
| delete: "dstep careful cfg s (s\<lparr>dq_db := drop_task i (dq_db s)\<rparr>)"
| detach: "dstep careful cfg s (s\<lparr>dq_db := drop_target i (dq_db s)\<rparr>)"
| edit: "dstep careful cfg s (s\<lparr>dq_tasks := tasks, dq_db := (dq_db s)\<lparr>dd_targets := tgts, dd_credentials := creds\<rparr>\<rparr>)"

inductive_cases dstepE: "dstep careful cfg s s'"

text \<open>Histories start with rows that were only just queued and with no worker at work.\<close>

definition fresh_row :: "attempt \<Rightarrow> bool" where
  "fresh_row r \<longleftrightarrow> da_status r = DPending \<and> da_next r \<noteq> None"

inductive history :: "bool \<Rightarrow> delivery_settings \<Rightarrow> deliveries \<Rightarrow> bool" for careful cfg where
  start: "attempts_ok db \<Longrightarrow> list_all fresh_row (dd_attempts db) \<Longrightarrow>
     history careful cfg \<lparr>dq_db = db, dq_tasks = tasks, dq_workers = (\<lambda>w. at_rest), dq_sent = []\<rparr>"
| further: "history careful cfg s \<Longrightarrow> dstep careful cfg s s' \<Longrightarrow> history careful cfg s'"

text \<open>The row a list of inserts adds.\<close>

lemma set_worker_simps [simp]:
  "dq_db (set_worker w x s) = dq_db s" "dq_tasks (set_worker w x s) = dq_tasks s" "dq_sent (set_worker w x s) = dq_sent s"
  "dq_workers (set_worker w x s) v = (if v = w then x else dq_workers s v)"
  by (simp_all add: set_worker_def)

lemma enqueue_one_rows:
  assumes "enqueue_one env m now fresh t (db, n) item = Some (db', n')"
  shows "(db' = db \<and> n' = n) \<or> (\<exists>r. dd_attempts db' = dd_attempts db @ [r] \<and> fresh_row r \<and> da_id r = fresh n \<and> n' = Suc n)"
  using assms
  by (auto simp: enqueue_one_def create_delivery_attempt_def fresh_row_def Let_def
      split: json.splits option.splits if_splits)

lemma enqueue_items_rows:
  assumes "enqueue_items env m now fresh t items (db, n) = Some (db', n')"
  shows "\<exists>rs. dd_attempts db' = dd_attempts db @ rs \<and> list_all fresh_row rs \<and> map da_id rs = map fresh [n..<n'] \<and> n \<le> n'"
  using assms
proof (induction items arbitrary: db n)
  case Nil
  then show ?case by simp
next
  case (Cons item items)
  obtain db1 n1 where one: "enqueue_one env m now fresh t (db, n) item = Some (db1, n1)"
    using Cons.prems by (auto split: option.splits)
  then have rest: "enqueue_items env m now fresh t items (db1, n1) = Some (db', n')" using Cons.prems by simp
  obtain rs where rs: "dd_attempts db' = dd_attempts db1 @ rs" "list_all fresh_row rs"
    "map da_id rs = map fresh [n1..<n']" "n1 \<le> n'" using Cons.IH [OF rest] by blast
  from enqueue_one_rows [OF one] show ?case
  proof (elim disjE exE conjE)
    assume "db1 = db" "n1 = n"
    then show ?thesis using rs by blast
  next
    fix r assume r: "dd_attempts db1 = dd_attempts db @ [r]" "fresh_row r" "da_id r = fresh n" "n1 = Suc n"
    then have "map da_id (r # rs) = map fresh [n..<n']" using rs by (simp add: upt_conv_Cons)
    then show ?thesis using r rs by (intro exI [of _ "r # rs"]) simp
  qed
qed

lemma enqueue_rows:
  assumes "enqueue_deliveries env m now fresh t db = Some (db', n)"
  shows "\<exists>rs. dd_attempts db' = dd_attempts db @ rs \<and> list_all fresh_row rs \<and> map da_id rs = map fresh [0..<n]"
proof -
  have "(db' = db \<and> n = 0) \<or> (\<exists>items. enqueue_items env m now fresh t items (db, 0) = Some (db', n))"
    using assms by (auto simp: enqueue_deliveries_def split: json.splits)
  then show ?thesis
  proof
    assume "db' = db \<and> n = 0"
    then show ?thesis by simp
  next
    assume "\<exists>items. enqueue_items env m now fresh t items (db, 0) = Some (db', n)"
    then show ?thesis using enqueue_items_rows by blast
  qed
qed

section \<open>Delivered means sent\<close>

fun job_honest :: "uuid list \<Rightarrow> job \<Rightarrow> bool" where
  "job_honest sent Idle = True"
| "job_honest sent (Loaded r) = (da_status r = DDelivered \<longrightarrow> da_id r \<in> set sent)"
| "job_honest sent (Answered r out) = (da_status r = DDelivered \<or> is_sent out \<longrightarrow> da_id r \<in> set sent)"

definition honest :: "deliveries \<Rightarrow> bool" where
  "honest s \<longleftrightarrow> (\<forall>r\<in>set (dd_attempts (dq_db s)). da_status r = DDelivered \<longrightarrow> da_id r \<in> set (dq_sent s))
     \<and> (\<forall>w. job_honest (dq_sent s) (wk_job (dq_workers s w)))"

lemma settled_status:
  "da_status (settled_row cfg now out r) = (case out of Sent a b \<Rightarrow> DDelivered | Parked \<Rightarrow> DWaitingAdapter
     | Broken msg \<Rightarrow> if da_max r \<le> da_attempts r then DDead else DPending)"
  by (simp add: settled_row_def result_row_def failure_row_def park_row_def Let_def split: outcome.split)

lemma settled_next:
  "da_next (settled_row cfg now out r) = (case out of Sent a b \<Rightarrow> da_next r | Parked \<Rightarrow> Some (later now (of_int (ds_wait cfg)))
     | Broken msg \<Rightarrow> if da_max r \<le> da_attempts r then None
         else Some (later now (backoff_seconds (da_attempts r) (ds_base cfg) (ds_cap cfg))))"
  by (simp add: settled_row_def result_row_def failure_row_def park_row_def Let_def split: outcome.split)

lemma flush_status:
  "da_status (flush_row clock l n r) = (if n = l \<or> da_status n = da_status l then da_status r else da_status n)"
  by (simp add: flush_row_def changed_def)

lemma flush_next:
  "da_next (flush_row clock l n r) = (if n = l \<or> da_next n = da_next l then da_next r else da_next n)"
  by (simp add: flush_row_def changed_def)

lemma honest_rows:
  assumes "honest s"
    and "\<And>r'. r' \<in> set (dd_attempts db) \<Longrightarrow> da_status r' = DDelivered \<Longrightarrow>
           \<exists>r\<in>set (dd_attempts (dq_db s)). da_id r = da_id r' \<and> da_status r = DDelivered"
  shows "honest (s\<lparr>dq_db := db\<rparr>)"
  using assms unfolding honest_def by simp metis

lemma honest_worker:
  "honest s \<Longrightarrow> job_honest (dq_sent s) (wk_job x) \<Longrightarrow> honest (set_worker w x s)"
  by (simp add: honest_def)

lemma claim_batch_statuses:
  assumes "claim_batch cfg now db = (db', ids)" and "r' \<in> set (dd_attempts db')" and "da_status r' = DDelivered"
  shows "\<exists>r\<in>set (dd_attempts db). da_id r = da_id r' \<and> da_status r = DDelivered"
  using assms by (auto simp: claim_batch_def claim_due_deliveries_def Let_def reap_alt reap_row_def claim_row_def split: if_splits)

lemma honest_step: "dstep careful cfg s s' \<Longrightarrow> honest s \<Longrightarrow> honest s'"
proof (induction rule: dstep.induct)
  case (tick s w now db ids)
  have "honest (s\<lparr>dq_db := db\<rparr>)"
    using tick(4) claim_batch_statuses [OF tick(2)] by (rule honest_rows)
  then show ?case by (rule honest_worker) simp
next
  case (load s w i ids r)
  then show ?case by (intro honest_worker) (auto simp: honest_def dest: find_attempt_mem)
next
  case (skip s w i ids)
  then show ?case by (intro honest_worker) auto
next
  case (answer s w ids r out env)
  let ?sent = "if is_sent out then dq_sent s @ [da_id r] else dq_sent s"
  have more: "job_honest (dq_sent s) j \<Longrightarrow> job_honest ?sent j" for j by (cases j) auto
  have "job_honest (dq_sent s) (Loaded r)" using answer(1,3) by (metis honest_def worker.select_convs(2))
  then have "job_honest ?sent (Answered r out)" by auto
  then show ?case using answer(3) more by (auto simp: honest_def)
next
  case (settle s w ids r out now clock db raised)
  have j: "job_honest (dq_sent s) (Answered r out)" using settle(1,3) by (metis honest_def worker.select_convs(2))
  have db: "db = map_attempts (\<lambda>x. if da_id x = da_id r then flush_row clock r (settled_row cfg now out r) x else x) (dq_db s)"
    using settle(2) by (simp add: record_outcome_def Let_def)
  have "is_sent out" if "da_status (settled_row cfg now out r) = DDelivered"
    using that by (cases out) (auto simp: settled_status split: if_splits)
  then have rows: "x' \<in> set (dd_attempts db) \<Longrightarrow> da_status x' = DDelivered \<Longrightarrow> da_id x' \<in> set (dq_sent s)" for x'
    using settle(3) j by (auto simp: db honest_def flush_status split: if_splits)
  then have "honest (s\<lparr>dq_db := db\<rparr>)" using settle(3) by (simp add: honest_def)
  then show ?case by (rule honest_worker) (simp add: at_rest_def)
next
  case (crash w s)
  then show ?case by (intro honest_worker) (auto simp: at_rest_def)
next
  case (retry s now task tgt)
  then show ?case by (intro honest_rows) (auto simp: reset_delivery_for_retry_def Let_def split: if_splits)
next
  case (enqueue env m now fresh t s db n)
  obtain rs where "dd_attempts db = dd_attempts (dq_db s) @ rs" "list_all fresh_row rs"
    using enqueue_rows [OF enqueue(1)] by blast
  with enqueue(4) show ?case by (intro honest_rows) (auto simp: fresh_row_def list_all_iff)
next
  case (delete s i)
  then show ?case by (intro honest_rows) (auto simp: drop_task_def)
next
  case (detach s i)
  then show ?case by (intro honest_rows) (auto simp: drop_target_def split: if_splits)
next
  case (edit s tasks tgts creds)
  then show ?case by (simp add: honest_def)
qed

lemma history_honest: "history careful cfg s \<Longrightarrow> honest s"
proof (induction rule: history.induct)
  case (start db tasks)
  then show ?case by (auto simp: honest_def at_rest_def list_all_iff fresh_row_def)
qed (rule honest_step)

section \<open>Sent once\<close>

definition agrees :: "delivery_db \<Rightarrow> attempt \<Rightarrow> bool" where
  "agrees db r \<longleftrightarrow> (\<forall>r'. find_attempt db (da_id r) = Some r' \<longrightarrow> da_next r' = da_next r)"

fun job_fine :: "delivery_db \<Rightarrow> uuid list \<Rightarrow> job \<Rightarrow> bool" where
  "job_fine db sent Idle = True"
| "job_fine db sent (Loaded r) = (da_status r = DDelivering \<and> da_id r \<notin> set sent \<and> agrees db r)"
| "job_fine db sent (Answered r out) = (da_status r = DDelivering \<and> (is_sent out \<longleftrightarrow> da_id r \<in> set sent) \<and> agrees db r)"

fun sent_job :: "uuid \<Rightarrow> job \<Rightarrow> bool" where
  "sent_job i (Answered r out) = (is_sent out \<and> da_id r = i)" | "sent_job i j = False"

definition row_fine :: "deliveries \<Rightarrow> uuid \<Rightarrow> attempt \<Rightarrow> bool" where
  "row_fine s i r \<longleftrightarrow> (held s i \<longrightarrow> da_status r = DDelivering)
     \<and> (delivery_is_in_flight (da_status r) \<longrightarrow> da_next r \<noteq> None)
     \<and> (i \<in> set (dq_sent s) \<longrightarrow> da_status r = DDelivered \<or> (\<exists>w. sent_job i (wk_job (dq_workers s w))))"

definition apart :: "(nat \<Rightarrow> worker) \<Rightarrow> bool" where
  "apart ws \<longleftrightarrow> (\<forall>w. distinct (hand (ws w))) \<and> (\<forall>w v i. i \<in> set (hand (ws w)) \<and> i \<in> set (hand (ws v)) \<longrightarrow> w = v)"

definition tidy :: "deliveries \<Rightarrow> bool" where
  "tidy s \<longleftrightarrow> attempts_ok (dq_db s) \<and> apart (dq_workers s) \<and> distinct (dq_sent s)
     \<and> (\<forall>i r. find_attempt (dq_db s) i = Some r \<longrightarrow> row_fine s i r)
     \<and> (\<forall>w. job_fine (dq_db s) (dq_sent s) (wk_job (dq_workers s w)))
     \<and> (\<forall>w. \<forall>i\<in>set (wk_ids (dq_workers s w)). i \<notin> set (dq_sent s))"

lemma tidyD:
  assumes "tidy s"
  shows "attempts_ok (dq_db s)" "apart (dq_workers s)" "distinct (dq_sent s)"
    "find_attempt (dq_db s) i = Some r \<Longrightarrow> row_fine s i r"
    "job_fine (dq_db s) (dq_sent s) (wk_job (dq_workers s w))"
    "i \<in> set (wk_ids (dq_workers s w)) \<Longrightarrow> i \<notin> set (dq_sent s)"
  using assms by (auto simp: tidy_def)

text \<open>A change of the rows alone: each keeps its status and next time, or is new to everybody.\<close>

lemma tidy_rows:
  assumes "tidy s" and "attempts_ok db"
    and "\<And>i r'. find_attempt db i = Some r' \<Longrightarrow>
        (\<exists>r. find_attempt (dq_db s) i = Some r \<and> da_status r' = da_status r \<and> da_next r' = da_next r)
        \<or> (\<not> held s i \<and> i \<notin> set (dq_sent s) \<and> da_next r' \<noteq> None)"
  shows "tidy (s\<lparr>dq_db := db\<rparr>)"
proof -
  have rows: "row_fine (s\<lparr>dq_db := db\<rparr>) i r'" if "find_attempt db i = Some r'" for i r'
    using assms(3) [OF that]
  proof (elim disjE exE conjE)
    fix r assume "find_attempt (dq_db s) i = Some r" "da_status r' = da_status r" "da_next r' = da_next r"
    with tidyD(4) [OF assms(1), of i r] show ?thesis by (simp add: row_fine_def held_def)
  qed (simp add: row_fine_def held_def)
  have agree: "agrees db r" if "agrees (dq_db s) r" "held s (da_id r)" for r
    using that assms(3) by (fastforce simp: agrees_def)
  have jobs: "job_fine db (dq_sent s) (wk_job (dq_workers s w))" for w
  proof -
    have "held s i" if "i \<in> set (job_id (wk_job (dq_workers s w)))" for i
      using that by (auto simp: held_def hand_def)
    then show ?thesis using tidyD(5) [OF assms(1), of w] agree by (cases "wk_job (dq_workers s w)") auto
  qed
  show ?thesis using assms(1,2) rows jobs by (simp add: tidy_def)
qed

text \<open>A worker that lets go of rows, none of them as sent.\<close>

lemma held_set_worker:
  "held (set_worker w x s) i \<longleftrightarrow> i \<in> set (hand x) \<or> (\<exists>v. v \<noteq> w \<and> i \<in> set (hand (dq_workers s v)))"
  by (auto simp: held_def)

lemma apart_update:
  assumes "apart ws" and "distinct (hand x)" and "\<And>v i. v \<noteq> w \<Longrightarrow> i \<in> set (hand (ws v)) \<Longrightarrow> i \<notin> set (hand x)"
  shows "apart (ws(w := x))"
  using assms unfolding apart_def by (simp split: if_splits) blast

lemma apart_sub:
  assumes "apart ws" and "\<exists>ys. hand (ws w) = ys @ hand x"
  shows "apart (ws(w := x))"
proof -
  obtain ys where ys: "hand (ws w) = ys @ hand x" using assms(2) by blast
  have "distinct (hand (ws w))" using assms(1) by (simp add: apart_def)
  then have d: "distinct (hand x)" by (simp add: ys)
  show ?thesis
  proof (rule apart_update [OF assms(1) d])
    fix v i assume v: "v \<noteq> w" "i \<in> set (hand (ws v))"
    have "i \<notin> set (hand (ws w))" using assms(1) v unfolding apart_def by blast
    then show "i \<notin> set (hand x)" by (simp add: ys)
  qed
qed

lemma workers_set_worker: "dq_workers (set_worker w x s) = (dq_workers s)(w := x)"
  by (simp add: set_worker_def)

lemma sent_job_hand: "sent_job i (wk_job x) \<Longrightarrow> i \<in> set (hand x)"
  by (cases "wk_job x") (auto simp: hand_def)

text \<open>A row of another worker is not in this worker's hands.\<close>

lemma apart_other: "apart ws \<Longrightarrow> v \<noteq> w \<Longrightarrow> i \<in> set (hand (ws v)) \<Longrightarrow> i \<notin> set (hand (ws w))"
  by (auto simp: apart_def)

lemma tidy_shrink:
  assumes "tidy s" and "wk_job x = Idle" and ys: "\<exists>ys. wk_ids (dq_workers s w) = ys @ wk_ids x"
    and "\<And>i r. sent_job i (wk_job (dq_workers s w)) \<Longrightarrow> find_attempt (dq_db s) i = Some r \<Longrightarrow> da_status r = DDelivered"
  shows "tidy (set_worker w x s)"
proof -
  obtain zs where zs: "hand (dq_workers s w) = zs @ hand x" using ys assms(2) by (auto simp: hand_def)
  have ap: "apart (dq_workers (set_worker w x s))"
    unfolding workers_set_worker using zs by (intro apart_sub [OF tidyD(2) [OF assms(1)]]) blast
  have "i \<in> set (hand x) \<Longrightarrow> i \<in> set (hand (dq_workers s w))" for i by (simp add: zs)
  then have held: "held (set_worker w x s) i \<Longrightarrow> held s i" for i
    unfolding held_set_worker unfolding held_def by blast
  have rows: "row_fine (set_worker w x s) i r" if f: "find_attempt (dq_db s) i = Some r" for i r
  proof (cases "sent_job i (wk_job (dq_workers s w))")
    case True
    then have "da_status r = DDelivered" using assms(4) f by blast
    moreover have "da_status r = DDelivering"
      using tidyD(4) [OF assms(1) f] sent_job_hand [OF True] by (auto simp: row_fine_def held_def)
    ultimately show ?thesis by simp
  next
    case False
    have "\<exists>v. sent_job i (wk_job (dq_workers (set_worker w x s) v))" if "sent_job i (wk_job (dq_workers s v))" for v
      using that False by (intro exI [of _ v]) auto
    then show ?thesis using tidyD(4) [OF assms(1) f] held [of i] unfolding row_fine_def set_worker_simps(3) by blast
  qed
  have ids: "i \<in> set (wk_ids x) \<Longrightarrow> i \<notin> set (dq_sent s)" for i
    using ys tidyD(6) [OF assms(1), of i w] by auto
  show ?thesis using assms(1,2) ap rows ids by (simp add: tidy_def)
qed


text \<open>The rows a tick claims were in nobody's hands and had not been sent.\<close>

lemma claim_batch_fresh:
  assumes "tidy s" and c: "claim_batch cfg now (dq_db s) = (db, ids)"
    and "\<forall>r\<in>set (dd_attempts (dq_db s)). is_stuck (later now (- of_int (ds_stuck cfg))) r \<longrightarrow> \<not> held s (da_id r)"
    and i: "i \<in> set ids"
  shows "\<not> held s i \<and> i \<notin> set (dq_sent s)
     \<and> (\<exists>r. find_attempt (dq_db s) i = Some r \<and> delivery_is_in_flight (da_status r))"
proof -
  obtain r where r: "find_attempt (dq_db s) i = Some r" "is_due now (reap_row now (later now (- of_int (ds_stuck cfg))) r)"
    using claim_batch_rows(6) [OF c tidyD(1) [OF assms(1)] i] by blast
  have mem: "r \<in> set (dd_attempts (dq_db s))" "da_id r = i" using r find_attempt_mem find_attempt_id by blast+
  have fine: "row_fine s i r" using tidyD(4) [OF assms(1) r(1)] .
  have free: "\<not> held s i"
  proof (cases "is_stuck (later now (- of_int (ds_stuck cfg))) r")
    case True
    then show ?thesis using assms(3) mem by blast
  next
    case False
    then have "delivery_is_claimable (da_status r)" using r(2) by (simp add: reap_row_def is_due_def)
    then show ?thesis using fine by (auto simp: row_fine_def delivery_status_defs)
  qed
  have live: "delivery_is_in_flight (da_status r)"
    using r(2) by (auto simp: reap_row_def is_due_def is_stuck_def delivery_status_defs split: if_splits)
  have "i \<notin> set (dq_sent s)"
  proof
    assume "i \<in> set (dq_sent s)"
    then have "da_status r = DDelivered \<or> held s i"
      using fine sent_job_hand unfolding row_fine_def held_def by blast
    then show False using live free by (auto simp: delivery_status_defs)
  qed
  then show ?thesis using free live r(1) by blast
qed

lemma tidy_tick:
  assumes t: "tidy s" and w: "dq_workers s w = at_rest" and c: "claim_batch cfg now (dq_db s) = (db, ids)"
    and careful: "\<forall>r\<in>set (dd_attempts (dq_db s)). is_stuck (later now (- of_int (ds_stuck cfg))) r \<longrightarrow> \<not> held s (da_id r)"
  shows "tidy (set_worker w \<lparr>wk_ids = ids, wk_job = Idle\<rparr> (s\<lparr>dq_db := db\<rparr>))"
proof -
  let ?x = "\<lparr>wk_ids = ids, wk_job = Idle\<rparr>" and ?s = "set_worker w \<lparr>wk_ids = ids, wk_job = Idle\<rparr> (s\<lparr>dq_db := db\<rparr>)"
  let ?reaped = "reap_row now (later now (- of_int (ds_stuck cfg)))"
  note fresh = claim_batch_fresh [OF t c careful]
  note row = claim_batch_rows(1) [OF c]
  have hx: "hand ?x = ids" by (simp add: hand_def)
  have held: "held ?s i \<longleftrightarrow> i \<in> set ids \<or> held s i" for i
  proof -
    have "i \<notin> set (hand (dq_workers s w))" using w by (simp add: hand_def at_rest_def)
    then show ?thesis unfolding held_set_worker hx unfolding held_def by simp metis
  qed
  have ap: "apart (dq_workers ?s)"
    unfolding workers_set_worker
    by (simp, rule apart_update [OF tidyD(2) [OF t]])
      (use fresh claim_batch_rows(5) [OF c tidyD(1) [OF t]] hx in \<open>auto simp: held_def\<close>)
  have rows: "row_fine ?s i r'" if f: "find_attempt db i = Some r'" for i r'
  proof -
    obtain r where r: "find_attempt (dq_db s) i = Some r"
      and r': "r' = (if i \<in> set ids then claim_row now (?reaped r) else ?reaped r)"
      using f row [of i] by auto
    have fine: "row_fine s i r" using tidyD(4) [OF t r] .
    have next': "da_next r' = da_next r" by (simp add: r' reap_row_def claim_row_def)
    have sent: "sent_job i (wk_job (dq_workers ?s v)) \<longleftrightarrow> sent_job i (wk_job (dq_workers s v))" for v
      using w by (simp add: at_rest_def)
    show ?thesis
    proof (cases "i \<in> set ids")
      case True
      then show ?thesis using fresh [OF True] r r' fine next' by (auto simp: row_fine_def held claim_row_def)
    next
      case False
      show ?thesis
      proof (cases "is_stuck (later now (- of_int (ds_stuck cfg))) r")
        case True
        then have "\<not> held s i" using careful find_attempt_mem [OF r] find_attempt_id [OF r] by blast
        moreover have "da_status r = DDelivering" "da_status r' = DPending"
          using True False r' by (auto simp: is_stuck_def reap_row_def)
        moreover have "i \<notin> set (dq_sent s)"
          using fine calculation sent_job_hand unfolding row_fine_def held_def by fastforce
        ultimately show ?thesis using fine next' False by (simp add: row_fine_def held delivery_status_defs)
      next
        case notstuck: False
        then have "r' = r" using False r' by (simp add: reap_row_def)
        then show ?thesis using fine False sent by (simp add: row_fine_def held)
      qed
    qed
  qed
  have agree: "agrees (dq_db s) r \<Longrightarrow> agrees db r" for r
    using row [of "da_id r"] by (auto simp: agrees_def reap_row_def claim_row_def)
  have jobs: "job_fine db (dq_sent s) (wk_job (dq_workers ?s v))" for v
    using tidyD(5) [OF t, of v] agree by (cases "wk_job (dq_workers s v)") auto
  show ?thesis
    using t ap rows jobs fresh claim_batch_rows(4) [OF c] unfolding tidy_def by (auto simp: at_rest_def)
qed


lemma tidy_load:
  assumes t: "tidy s" and w: "dq_workers s w = \<lparr>wk_ids = i # ids, wk_job = Idle\<rparr>"
    and r: "find_attempt (dq_db s) i = Some r"
  shows "tidy (set_worker w \<lparr>wk_ids = ids, wk_job = Loaded r\<rparr> s)"
proof -
  let ?x = "\<lparr>wk_ids = ids, wk_job = Loaded r\<rparr>" and ?s = "set_worker w \<lparr>wk_ids = ids, wk_job = Loaded r\<rparr> s"
  have ri: "da_id r = i" using find_attempt_id [OF r] .
  have hands: "hand (dq_workers ?s v) = hand (dq_workers s v)" for v using w ri by (simp add: hand_def)
  have held: "held ?s = held s" by (rule ext) (simp add: held_def hands del: set_worker_simps)
  have sent: "sent_job j (wk_job (dq_workers ?s v)) \<longleftrightarrow> sent_job j (wk_job (dq_workers s v))" for j v using w by simp
  have rows: "row_fine ?s j q \<longleftrightarrow> row_fine s j q" for j q
    unfolding row_fine_def held sent set_worker_simps(3) ..
  have "held s i" unfolding held_def using w by (intro exI [of _ w]) (simp add: hand_def)
  then have "da_status r = DDelivering" using tidyD(4) [OF t r] by (simp add: row_fine_def)
  moreover have "i \<notin> set (dq_sent s)" using tidyD(6) [OF t, of i w] w by simp
  ultimately have job: "job_fine (dq_db s) (dq_sent s) (Loaded r)" using r ri by (simp add: agrees_def)
  have ids: "j \<in> set ids \<Longrightarrow> j \<notin> set (dq_sent s)" for j using tidyD(6) [OF t, of j w] w by simp
  have ap: "apart (dq_workers ?s)" using tidyD(2) [OF t] unfolding apart_def hands .
  show ?thesis using t ap rows job ids by (simp add: tidy_def)
qed

lemma tidy_answer:
  assumes t: "tidy s" and w: "dq_workers s w = \<lparr>wk_ids = ids, wk_job = Loaded r\<rparr>"
  shows "tidy (set_worker w \<lparr>wk_ids = ids, wk_job = Answered r out\<rparr>
       (s\<lparr>dq_sent := (if is_sent out then dq_sent s @ [da_id r] else dq_sent s)\<rparr>))"
    (is "tidy ?s")
proof -
  let ?sent = "if is_sent out then dq_sent s @ [da_id r] else dq_sent s"
  have mine: "da_status r = DDelivering" "da_id r \<notin> set (dq_sent s)" "agrees (dq_db s) r"
    using tidyD(5) [OF t, of w] w by simp_all
  have hands: "hand (dq_workers ?s v) = hand (dq_workers s v)" for v using w by (simp add: hand_def)
  have ap: "apart (dq_workers ?s)" using tidyD(2) [OF t] unfolding apart_def hands .
  have held: "held ?s = held s" by (rule ext) (simp add: held_def hands del: set_worker_simps)
  have in_hand: "da_id r \<in> set (hand (dq_workers s w))" using w by (simp add: hand_def)
  have other: "i \<in> set (hand (dq_workers s v)) \<Longrightarrow> v \<noteq> w \<Longrightarrow> i \<noteq> da_id r" for i v
    using apart_other [OF tidyD(2) [OF t], of v w i] in_hand by blast
  have keep: "sent_job j (wk_job (dq_workers s v)) \<Longrightarrow> sent_job j (wk_job (dq_workers ?s v))" for j v
    using w by (cases "v = w") simp_all
  have now: "is_sent out \<Longrightarrow> sent_job (da_id r) (wk_job (dq_workers ?s w))" by simp
  have rows: "row_fine ?s j q" if f: "find_attempt (dq_db s) j = Some q" for j q
  proof -
    have "j \<in> set (dq_sent ?s) \<Longrightarrow> j \<in> set (dq_sent s) \<or> (is_sent out \<and> j = da_id r)" by (auto split: if_splits)
    then show ?thesis using tidyD(4) [OF t f] keep now unfolding row_fine_def held by blast
  qed
  have jobs: "job_fine (dq_db s) ?sent (wk_job (dq_workers ?s v))" for v
  proof (cases "v = w")
    case True
    then show ?thesis using mine by auto
  next
    case False
    have "i \<in> set (job_id (wk_job (dq_workers s v))) \<Longrightarrow> i \<noteq> da_id r" for i
      using other [of i v] False by (auto simp: hand_def)
    then show ?thesis using tidyD(5) [OF t, of v] False by (cases "wk_job (dq_workers s v)") auto
  qed
  have ids: "i \<notin> set ?sent" if i: "i \<in> set (wk_ids (dq_workers ?s v))" for i v
  proof -
    have i': "i \<in> set (wk_ids (dq_workers s v))" using i w by (cases "v = w") simp_all
    have "i \<noteq> da_id r"
    proof (cases "v = w")
      case True
      have "distinct (hand (dq_workers s w))" using tidyD(2) [OF t] by (simp add: apart_def)
      then show ?thesis using i' True w by (auto simp: hand_def)
    next
      case False
      then show ?thesis using other [of i v] i' by (simp add: hand_def)
    qed
    then show ?thesis using tidyD(6) [OF t i'] by simp
  qed
  show ?thesis using t ap rows jobs ids mine(2) unfolding tidy_def by simp
qed


text \<open>The write at the end of a row.\<close>

lemma record_outcome_find:
  assumes "record_outcome cfg now clock r out db = (db', raised)"
  shows "find_attempt db' j = (if j = da_id r then map_option (flush_row clock r (settled_row cfg now out r)) (find_attempt db j)
      else find_attempt db j)"
    and "attempts_ok db \<Longrightarrow> attempts_ok db'"
proof -
  let ?f = "\<lambda>x. if da_id x = da_id r then flush_row clock r (settled_row cfg now out r) x else x"
  have db: "db' = map_attempts ?f db" using assms by (simp add: record_outcome_def Let_def)
  have "find_attempt db' j = map_option ?f (find_attempt db j)"
    unfolding db by (rule find_map_attempts) simp
  then show "find_attempt db' j = (if j = da_id r then map_option (flush_row clock r (settled_row cfg now out r)) (find_attempt db j)
      else find_attempt db j)"
    by (cases "find_attempt db j") (auto dest: find_attempt_id)
  show "attempts_ok db \<Longrightarrow> attempts_ok db'" unfolding db by (subst attempts_ok_map) simp_all
qed

lemma tidy_settle:
  assumes t: "tidy s" and w: "dq_workers s w = \<lparr>wk_ids = ids, wk_job = Answered r out\<rparr>"
    and rec: "record_outcome cfg now clock r out (dq_db s) = (db, raised)"
  shows "tidy (set_worker w (if raised then at_rest else \<lparr>wk_ids = ids, wk_job = Idle\<rparr>) (s\<lparr>dq_db := db\<rparr>))"
    (is "tidy (set_worker w ?x (s\<lparr>dq_db := db\<rparr>))")
proof -
  let ?s = "set_worker w ?x (s\<lparr>dq_db := db\<rparr>)"
  let ?new = "settled_row cfg now out r" and ?i = "da_id r"
  have mine: "da_status r = DDelivering" "is_sent out \<longleftrightarrow> ?i \<in> set (dq_sent s)" "agrees (dq_db s) r"
    using tidyD(5) [OF t, of w] w by simp_all
  note differs = settled_differs [OF mine(1)]
  note find = record_outcome_find(1) [OF rec]
  have ids: "hand ?x = (if raised then [] else ids)" by (simp add: hand_def at_rest_def)
  have hw: "hand (dq_workers s w) = ?i # ids" using w by (simp add: hand_def)
  have ap: "apart (dq_workers ?s)"
  proof -
    have "dq_workers (s\<lparr>dq_db := db\<rparr>) = dq_workers s" by simp
    moreover have "apart ((dq_workers s)(w := ?x))" by (rule apart_sub [OF tidyD(2) [OF t]]) (auto simp: hw ids)
    ultimately show ?thesis unfolding workers_set_worker by argo
  qed
  have free: "\<not> held ?s ?i"
  proof -
    have "distinct (?i # ids)" using tidyD(2) [OF t] hw unfolding apart_def by metis
    then have "?i \<notin> set (hand ?x)" by (simp add: ids)
    moreover have "v \<noteq> w \<Longrightarrow> ?i \<notin> set (hand (dq_workers s v))" for v
      using apart_other [OF tidyD(2) [OF t], of v w ?i] hw by auto
    ultimately show ?thesis unfolding held_set_worker by auto
  qed
  have held: "held ?s j \<Longrightarrow> held s j" for j
  proof -
    have "set (hand ?x) \<subseteq> set (hand (dq_workers s w))" by (auto simp: ids hw)
    then show "held ?s j \<Longrightarrow> held s j" unfolding held_set_worker unfolding held_def by auto
  qed
  have still: "\<exists>v. sent_job j (wk_job (dq_workers ?s v))" if "sent_job j (wk_job (dq_workers s v))" "j \<noteq> ?i" for j v
    using that w by (intro exI [of _ v]) auto
  have sent: "dq_sent ?s = dq_sent s" by simp
  have rows: "row_fine ?s j q" if f: "find_attempt db j = Some q" for j q
  proof (cases "j = ?i")
    case True
    then obtain q0 where q0: "find_attempt (dq_db s) ?i = Some q0" "q = flush_row clock r ?new q0" using f find by auto
    have "held s ?i" unfolding held_def using hw by (intro exI [of _ w]) simp
    then have st: "da_status q0 = DDelivering" using tidyD(4) [OF t q0(1)] by (simp add: row_fine_def)
    have nx: "da_next q0 = da_next r" using mine(3) q0(1) by (simp add: agrees_def)
    have "da_next q0 \<noteq> None" using tidyD(4) [OF t q0(1)] st by (simp add: row_fine_def delivery_status_defs)
    then have "delivery_is_in_flight (da_status q) \<longrightarrow> da_next q \<noteq> None"
      using st nx mine(1) differs
      by (cases out) (auto simp: q0(2) flush_status flush_next settled_status settled_next delivery_status_defs)
    moreover have "is_sent out \<Longrightarrow> da_status q = DDelivered"
      using st mine(1) differs by (cases out) (auto simp: q0(2) flush_status settled_status)
    ultimately show ?thesis using free True mine(2) by (simp add: row_fine_def)
  next
    case False
    then have "find_attempt (dq_db s) j = Some q" using f find by simp
    then show ?thesis using tidyD(4) [OF t, of j q] held still False sent unfolding row_fine_def sent
      by blast
  qed
  have agree: "agrees (dq_db s) q \<Longrightarrow> da_id q \<noteq> ?i \<Longrightarrow> agrees db q" for q by (simp add: agrees_def find)
  have jobs: "job_fine db (dq_sent s) (wk_job (dq_workers ?s v))" for v
  proof (cases "v = w")
    case True
    then show ?thesis by (simp add: at_rest_def)
  next
    case False
    have "?i \<in> set (hand (dq_workers s w))" by (simp add: hw)
    then have "j \<in> set (job_id (wk_job (dq_workers s v))) \<Longrightarrow> j \<noteq> ?i" for j
      using apart_other [OF tidyD(2) [OF t] False, of j] by (auto simp: hand_def [of "dq_workers s v"])
    then show ?thesis using tidyD(5) [OF t, of v] False agree by (cases "wk_job (dq_workers s v)") auto
  qed
  have unsent: "j \<notin> set (dq_sent s)" if "j \<in> set (wk_ids (dq_workers ?s v))" for j v
    using tidyD(6) [OF t, of j v] that w by (auto simp: at_rest_def split: if_splits)
  have "attempts_ok db" using record_outcome_find(2) [OF rec tidyD(1) [OF t]] .
  then show ?thesis using tidyD(3) [OF t] ap rows jobs unsent unfolding tidy_def by simp
qed

lemma find_append:
  "find P (xs @ ys) = (case find P xs of None \<Rightarrow> find P ys | Some x \<Rightarrow> Some x)"
  by (induction xs) auto

lemma tidy_step: "dstep True cfg s s' \<Longrightarrow> tidy s \<Longrightarrow> tidy s'"
proof (induction rule: dstep.induct)
  case (tick s w now db ids)
  then show ?case by (intro tidy_tick) auto
next
  case (load s w i ids r)
  then show ?case by (intro tidy_load) auto
next
  case (skip s w i ids)
  show ?case by (rule tidy_shrink [OF skip(3)]) (use skip(1) in auto)
next
  case (answer s w ids r out env)
  then show ?case by (intro tidy_answer)
next
  case (settle s w ids r out now clock db raised)
  show ?case using settle(3,1,2) by (rule tidy_settle)
next
  case (crash s w)
  have "\<not> sent_job i (wk_job (dq_workers s w))" for i using crash(1) by (cases "wk_job (dq_workers s w)") auto
  then show ?case by (intro tidy_shrink [OF crash(2)]) (auto simp: at_rest_def)
next
  case (retry s now task tgt)
  let ?f = "\<lambda>r. if da_task r = task \<and> delivery_can_retry (da_status r) \<and> (tgt = None \<or> da_target r = tgt)
      then r\<lparr>da_status := DPending, da_next := Some now, da_updated := now\<rparr> else r"
  have f: "fst (reset_delivery_for_retry now task tgt (dq_db s)) = map_attempts ?f (dq_db s)"
    by (simp add: reset_delivery_for_retry_def Let_def)
  have find: "find_attempt (map_attempts ?f (dq_db s)) i = map_option ?f (find_attempt (dq_db s) i)" for i
    by (rule find_map_attempts) simp
  show ?case unfolding f
  proof (rule tidy_rows [OF retry])
    show "attempts_ok (map_attempts ?f (dq_db s))" using tidyD(1) [OF retry] by (subst attempts_ok_map) simp_all
    fix i r' assume "find_attempt (map_attempts ?f (dq_db s)) i = Some r'"
    then obtain r where r: "find_attempt (dq_db s) i = Some r" "r' = ?f r" using find by auto
    show "(\<exists>r. find_attempt (dq_db s) i = Some r \<and> da_status r' = da_status r \<and> da_next r' = da_next r)
        \<or> (\<not> held s i \<and> i \<notin> set (dq_sent s) \<and> da_next r' \<noteq> None)"
    proof (cases "r' = r")
      case False
      then have d: "da_status r = DDead" "da_next r' = Some now"
        using r(2) by (auto simp: delivery_status_defs split: if_splits)
      have "\<not> held s i" using tidyD(4) [OF retry r(1)] d by (auto simp: row_fine_def)
      moreover have "i \<notin> set (dq_sent s)"
        using tidyD(4) [OF retry r(1)] d calculation sent_job_hand unfolding row_fine_def held_def by fastforce
      ultimately show ?thesis using d by simp
    qed (use r in blast)
  qed
next
  case (enqueue env m now fresh t s db n)
  obtain rs where rs: "dd_attempts db = dd_attempts (dq_db s) @ rs" "list_all fresh_row rs" "map da_id rs = map fresh [0..<n]"
    using enqueue_rows [OF enqueue(1)] by blast
  have new: "r \<in> set rs \<Longrightarrow> \<exists>k. da_id r = fresh k" for r
    using arg_cong [OF rs(3), of set] by auto
  have "distinct (map da_id rs)" unfolding rs(3) using enqueue(2) by (simp add: distinct_map inj_on_subset [OF _ subset_UNIV])
  moreover have old: "da_id r \<notin> da_id ` set (dd_attempts (dq_db s))" if mem: "r \<in> set rs" for r
  proof -
    obtain k where k: "da_id r = fresh k" using new [OF mem] by blast
    show ?thesis unfolding k using enqueue(3) by blast
  qed
  moreover have "da_id ` set (dd_attempts (dq_db s)) \<inter> da_id ` set rs = {}"
  proof (rule equals0I)
    fix j assume j: "j \<in> da_id ` set (dd_attempts (dq_db s)) \<inter> da_id ` set rs"
    then obtain r where "r \<in> set rs" "j = da_id r" by auto
    then show False using old [of r] j by simp
  qed
  ultimately have ok: "attempts_ok db"
    using tidyD(1) [OF enqueue(4)] unfolding attempts_ok_def rs(1)
    by simp
  show ?case
  proof (rule tidy_rows [OF enqueue(4) ok])
    fix i r' assume f: "find_attempt db i = Some r'"
    show "(\<exists>r. find_attempt (dq_db s) i = Some r \<and> da_status r' = da_status r \<and> da_next r' = da_next r)
        \<or> (\<not> held s i \<and> i \<notin> set (dq_sent s) \<and> da_next r' \<noteq> None)"
    proof (cases "find_attempt (dq_db s) i")
      case None
      then have "find (\<lambda>r. da_id r = i) rs = Some r'" using f rs(1) by (simp add: find_attempt_def find_append)
      then have r': "r' \<in> set rs" "da_id r' = i" by (auto simp: find_Some_iff)
      obtain k where "i = fresh k" using new [OF r'(1)] r'(2) by blast
      then show ?thesis using enqueue(3) rs(2) r'(1) by (auto simp: fresh_row_def list_all_iff)
    qed (use f rs(1) in \<open>simp add: find_attempt_def find_append\<close>)
  qed
next
  case (delete s i)
  have ok: "attempts_ok (drop_task i (dq_db s))"
    using tidyD(1) [OF delete] by (simp add: attempts_ok_def drop_task_def distinct_map_filter)
  show ?case
    by (rule tidy_rows [OF delete ok])
      (use ok tidyD(1) [OF delete] in \<open>auto simp: find_attempt_iff drop_task_def\<close>)
next
  case (detach s i)
  let ?f = "\<lambda>r. if da_target r = Some i then r\<lparr>da_target := None\<rparr> else r"
  let ?db = "(dq_db s)\<lparr>dd_targets := filter (\<lambda>t. tg_id t \<noteq> i) (dd_targets (dq_db s))\<rparr>"
  have d: "drop_target i (dq_db s) = map_attempts ?f ?db" by (simp add: drop_target_def)
  have find: "find_attempt (map_attempts ?f ?db) j = map_option ?f (find_attempt (dq_db s) j)" for j
    by (subst find_map_attempts) (simp_all add: find_attempt_def)
  have ok: "attempts_ok (map_attempts ?f ?db)" using tidyD(1) [OF detach] by (subst attempts_ok_map) (simp_all add: attempts_ok_def)
  show ?case unfolding d by (rule tidy_rows [OF detach ok]) (auto simp: find split: if_splits)
next
  case (edit s creds tgts tasks)
  have "tidy (s\<lparr>dq_db := (dq_db s)\<lparr>dd_targets := tgts, dd_credentials := creds\<rparr>\<rparr>)"
    by (rule tidy_rows [OF edit]) (use tidyD(1) [OF edit] in \<open>auto simp: attempts_ok_def find_attempt_def\<close>)
  then show ?case by (simp add: tidy_def row_fine_def held_def)
qed


lemma history_tidy: "history True cfg s \<Longrightarrow> tidy s"
proof (induction rule: history.induct)
  case (start db tasks)
  then show ?case
    by (auto simp: tidy_def at_rest_def hand_def apart_def row_fine_def held_def fresh_row_def list_all_iff dest: find_attempt_mem)
qed (rule tidy_step)

text \<open>A delivered row stays delivered.\<close>

lemma delivered_final:
  assumes "tidy s" and "dstep True cfg s s'" and r: "find_attempt (dq_db s) i = Some r" "da_status r = DDelivered"
    and r': "find_attempt (dq_db s') i = Some r'"
  shows "da_status r' = DDelivered"
proof -
  have free: "\<not> held s i" using tidyD(4) [OF assms(1) r(1)] r(2) by (auto simp: row_fine_def)
  show ?thesis
    using assms(2)
  proof cases
    case (tick w now db ids)
    have "r' = reap_row now (later now (- of_int (ds_stuck cfg))) r \<or> i \<in> set ids"
      using r' tick claim_batch_rows(1) [OF tick(3), of i] r(1) by (auto split: if_splits)
    moreover have "i \<notin> set ids"
      using claim_batch_rows(6) [OF tick(3) tidyD(1) [OF assms(1)], of i] r
      by (auto simp: is_due_def reap_row_def is_stuck_def delivery_status_defs)
    ultimately show ?thesis using r(2) by (auto simp: reap_row_def is_stuck_def)
  next
    case (settle w ids q out now clock db raised)
    have "da_id q \<noteq> i" using free settle(2) unfolding held_def by (metis hand_def job_id.simps(3) append_Cons list.set_intros(1) worker.select_convs(2))
    then show ?thesis using r r' settle(1) record_outcome_find(1) [OF settle(3), of i] by simp
  next
    case (retry now task tgt)
    let ?f = "\<lambda>r. if da_task r = task \<and> delivery_can_retry (da_status r) \<and> (tgt = None \<or> da_target r = tgt)
      then r\<lparr>da_status := DPending, da_next := Some now, da_updated := now\<rparr> else r"
    have "find_attempt (map_attempts ?f (dq_db s)) i = map_option ?f (find_attempt (dq_db s) i)"
      by (rule find_map_attempts) simp
    then show ?thesis using r r' retry by (auto simp: reset_delivery_for_retry_def Let_def delivery_status_defs)
  next
    case (enqueue env m now fresh t db n)
    obtain rs where "dd_attempts db = dd_attempts (dq_db s) @ rs" using enqueue_rows [OF enqueue(2)] by blast
    then show ?thesis using r r' enqueue(1) by (simp add: find_attempt_def find_append)
  next
    case (delete j)
    have "r' \<in> set (dd_attempts (dq_db s))" "da_id r' = i"
      using find_attempt_mem [OF r'] find_attempt_id [OF r'] delete by (auto simp: drop_task_def)
    then have "r' = r" using find_attempt_iff [OF tidyD(1) [OF assms(1)], of i r'] r(1) by simp
    then show ?thesis using r(2) by simp
  next
    case (detach j)
    let ?f = "\<lambda>r. if da_target r = Some j then r\<lparr>da_target := None\<rparr> else r"
    have "find_attempt (map_attempts ?f ((dq_db s)\<lparr>dd_targets := filter (\<lambda>t. tg_id t \<noteq> j) (dd_targets (dq_db s))\<rparr>)) i
      = map_option ?f (find_attempt (dq_db s) i)"
      by (subst find_map_attempts) (simp_all add: find_attempt_def)
    then show ?thesis using r r' detach by (auto simp: drop_target_def)
  next
    case (edit tasks tgts creds)
    then show ?thesis using r r' by (simp add: find_attempt_def)
  qed (use r r' in auto)
qed

section \<open>How often a delivery is sent\<close>

text \<open>(C31) With the lease respected (nothing reaped in a worker's hands, no worker lost between the
  adapter's success and the write), deliveries are sent at most once, whatever the number of workers
  and whatever users do meanwhile: no attempt is sent twice, a delivered row was sent and stays
  delivered, and a row that is still in flight always has a next time, so that none is forgotten.\<close>

theorem delivery_sent_once:
  assumes "history True cfg s"
  shows "distinct (dq_sent s)
     \<and> (\<forall>i r. find_attempt (dq_db s) i = Some r \<longrightarrow>
          (da_status r = DDelivered \<longrightarrow> i \<in> set (dq_sent s))
          \<and> (i \<in> set (dq_sent s) \<longrightarrow> da_status r = DDelivered \<or> held s i)
          \<and> (delivery_is_in_flight (da_status r) \<longrightarrow> da_next r \<noteq> None))
     \<and> (\<forall>s' i r r'. dstep True cfg s s' \<and> find_attempt (dq_db s) i = Some r \<and> da_status r = DDelivered
          \<and> find_attempt (dq_db s') i = Some r' \<longrightarrow> da_status r' = DDelivered)"
proof -
  have t: "tidy s" using history_tidy [OF assms] .
  have h: "da_status r = DDelivered \<longrightarrow> i \<in> set (dq_sent s)" if "find_attempt (dq_db s) i = Some r" for i r
    using history_honest [OF assms] find_attempt_mem [OF that] find_attempt_id [OF that] by (auto simp: honest_def)
  have f: "(i \<in> set (dq_sent s) \<longrightarrow> da_status r = DDelivered \<or> held s i)
      \<and> (delivery_is_in_flight (da_status r) \<longrightarrow> da_next r \<noteq> None)" if "find_attempt (dq_db s) i = Some r" for i r
    using tidyD(4) [OF t that] sent_job_hand unfolding row_fine_def held_def by blast
  show ?thesis using tidyD(3) [OF t] h f delivered_final [OF t] by blast
qed

definition taking_env :: delivery_env where
  "taking_env = sample_env [(lit ''wiki'', plain_adapter)] (Inr (Some (lit ''page''), None))"

definition summarized :: task_row where
  "summarized = (sample_task 1 7 Completed 0)\<lparr>t_summary := Some (lit ''/out/summary.md'')\<rparr>"

definition done_tasks :: task_db where
  "done_tasks = \<lparr>db_tasks = [summarized], db_asr = []\<rparr>"

lemma summary_readable: "\<exists>pl. resolve_variant (\<lambda>v. []) (\<lambda>p. Some (lit ''text'')) summarized (lit ''summary'') = Inr pl"
proof -
  have "\<not> is_prompt_variant (lit ''summary'')" by (simp add: is_prompt_variant_def lit_def)
  moreover have "lit ''summary'' \<in> set valid_variants" "lit ''summary'' \<noteq> lit ''raw''"
    by (simp_all add: valid_variants_def lit_inject)
  ultimately show ?thesis
    by (simp add: resolve_variant_def path_or_none_def read_file_def payload_of_def summarized_def lit_def)
qed

lemma taking_sends:
  assumes "da_adapter r = lit ''wiki''" and "da_task r = 1" and "da_variant r = lit ''summary''" and "da_target r = None"
  shows "deliver_attempt taking_env done_tasks db r = Sent (Some (lit ''page'')) None"
  using assms summary_readable
  by (auto simp: deliver_attempt_def taking_env_def refusing_env_def sample_env_def get_adapter_def dict_get_def
      done_tasks_def find_task_def summarized_def)

lemma refusing_refuses:
  assumes "da_adapter r = lit ''wiki''" and "da_task r = 1" and "da_variant r = lit ''summary''" and "da_target r = None"
  shows "deliver_attempt refusing_env done_tasks db r = Broken (lit ''refused'')"
  using assms summary_readable
  by (auto simp: deliver_attempt_def taking_env_def refusing_env_def sample_env_def get_adapter_def dict_get_def
      done_tasks_def find_task_def summarized_def)

text \<open>The states of a history with the one sample row.\<close>

definition with_row :: "attempt \<Rightarrow> worker \<Rightarrow> worker \<Rightarrow> uuid list \<Rightarrow> deliveries" where
  "with_row r a b sent = \<lparr>dq_db = \<lparr>dd_attempts = [r], dd_targets = [], dd_credentials = []\<rparr>, dq_tasks = done_tasks,
     dq_workers = (\<lambda>w. at_rest)(0 := a, 1 := b), dq_sent = sent\<rparr>"

abbreviation holding :: "uuid list \<Rightarrow> job \<Rightarrow> worker" where
  "holding ids j \<equiv> \<lparr>wk_ids = ids, wk_job = j\<rparr>"

definition row1 :: attempt where "row1 = sample_attempt\<lparr>da_status := DDelivering, da_attempts := 1\<rparr>"
definition row2 :: attempt where "row2 = row1\<lparr>da_attempts := 2, da_updated := 600000001\<rparr>"
definition row3 :: attempt where
  "row3 = row2\<lparr>da_status := DDelivered, da_ext_id := Some (lit ''page''), da_updated := 600000002\<rparr>"
definition row4 :: attempt where
  "row4 = row3\<lparr>da_status := DPending, da_next := Some 660000003, da_error := Some (lit ''refused''), da_updated := 600000003\<rparr>"
definition row5 :: attempt where
  "row5 = row4\<lparr>da_status := DDelivering, da_attempts := 3, da_updated := 700000000\<rparr>"

lemmas row_defs = row5_def row4_def row3_def row2_def row1_def

lemma tick_one:
  assumes "claim_batch cfg now \<lparr>dd_attempts = [r], dd_targets = [], dd_credentials = []\<rparr>
      = (\<lparr>dd_attempts = [r'], dd_targets = [], dd_credentials = []\<rparr>, [1])"
  shows "dstep False cfg (with_row r at_rest b sent) (with_row r' (holding [1] Idle) b sent)"
    and "dstep False cfg (with_row r a at_rest sent) (with_row r' a (holding [1] Idle) sent)"
  using dstep.tick [of "with_row r at_rest b sent" 0 cfg now _ _ False] assms
    dstep.tick [of "with_row r a at_rest sent" 1 cfg now _ _ False]
  by (auto simp: with_row_def set_worker_def fun_upd_twist)


lemma load_one:
  assumes "da_id r = 1"
  shows "dstep c cfg (with_row r (holding [1] Idle) b sent) (with_row r (holding [] (Loaded r)) b sent)"
    and "dstep c cfg (with_row r a (holding [1] Idle) sent) (with_row r a (holding [] (Loaded r)) sent)"
  using dstep.load [of "with_row r (holding [1] Idle) b sent" 0 1 "[]" r c cfg] assms
    dstep.load [of "with_row r a (holding [1] Idle) sent" 1 1 "[]" r c cfg]
  by (auto simp: with_row_def set_worker_def fun_upd_twist find_attempt_def)

lemma answer_one:
  assumes "out = deliver_attempt env done_tasks \<lparr>dd_attempts = [r], dd_targets = [], dd_credentials = []\<rparr> q"
    and "sent' = (if is_sent out then sent @ [da_id q] else sent)"
  shows "dstep c cfg (with_row r (holding [] (Loaded q)) b sent) (with_row r (holding [] (Answered q out)) b sent')"
    and "dstep c cfg (with_row r a (holding [] (Loaded q)) sent) (with_row r a (holding [] (Answered q out)) sent')"
  using dstep.answer [of "with_row r (holding [] (Loaded q)) b sent" 0 "[]" q out env c cfg] assms
    dstep.answer [of "with_row r a (holding [] (Loaded q)) sent" 1 "[]" q out env c cfg]
  by (auto simp: with_row_def set_worker_def fun_upd_twist split: if_splits)

lemma settle_one:
  assumes "da_id r = da_id q" and "r' = flush_row clock q (settled_row cfg now out q) r"
  shows "dstep c cfg (with_row r (holding [] (Answered q out)) b sent) (with_row r' at_rest b sent)"
    and "dstep c cfg (with_row r a (holding [] (Answered q out)) sent) (with_row r' a at_rest sent)"
proof -
  let ?db = "\<lparr>dd_attempts = [r], dd_targets = [], dd_credentials = []\<rparr>"
  have rec: "record_outcome cfg now clock q out ?db = (\<lparr>dd_attempts = [r'], dd_targets = [], dd_credentials = []\<rparr>, False)"
    using assms by (simp add: record_outcome_def map_attempts_def find_attempt_def Let_def)
  show "dstep c cfg (with_row r (holding [] (Answered q out)) b sent) (with_row r' at_rest b sent)"
    "dstep c cfg (with_row r a (holding [] (Answered q out)) sent) (with_row r' a at_rest sent)"
    using dstep.settle [of "with_row r (holding [] (Answered q out)) b sent" 0 "[]" q out cfg now clock _ _ c]
      dstep.settle [of "with_row r a (holding [] (Answered q out)) sent" 1 "[]" q out cfg now clock _ _ c] rec
    by (auto simp: with_row_def set_worker_def fun_upd_twist at_rest_def)
qed

lemma tick_one_careful:
  assumes "claim_batch cfg now \<lparr>dd_attempts = [r], dd_targets = [], dd_credentials = []\<rparr>
      = (\<lparr>dd_attempts = [r'], dd_targets = [], dd_credentials = []\<rparr>, [1])" and "da_status r = DPending"
  shows "dstep True cfg (with_row r at_rest b sent) (with_row r' (holding [1] Idle) b sent)"
  using dstep.tick [of "with_row r at_rest b sent" 0 cfg now _ _ True] assms
  by (auto simp: with_row_def set_worker_def fun_upd_twist is_stuck_def)

lemma start_one: "history c cfg (with_row sample_attempt at_rest at_rest [])"
  using history.start [of "\<lparr>dd_attempts = [sample_attempt], dd_targets = [], dd_credentials = []\<rparr>" c cfg done_tasks]
  by (simp add: with_row_def attempts_ok_def fresh_row_def sample_attempt_def fun_upd_idem)

lemma claims:
  "claim_batch default_settings 0 \<lparr>dd_attempts = [sample_attempt], dd_targets = [], dd_credentials = []\<rparr>
     = (\<lparr>dd_attempts = [row1], dd_targets = [], dd_credentials = []\<rparr>, [1])"
  "claim_batch default_settings 600000001 \<lparr>dd_attempts = [row1], dd_targets = [], dd_credentials = []\<rparr>
     = (\<lparr>dd_attempts = [row2], dd_targets = [], dd_credentials = []\<rparr>, [1])"
  "claim_batch default_settings 700000000 \<lparr>dd_attempts = [row4], dd_targets = [], dd_credentials = []\<rparr>
     = (\<lparr>dd_attempts = [row5], dd_targets = [], dd_credentials = []\<rparr>, [1])"
  by (simp_all add: queue_eval row_defs)

lemma writes:
  "row3 = flush_row 600000002 row2 (settled_row default_settings 600000002 (Sent (Some (lit ''page'')) None) row2) row2"
  "row4 = flush_row 600000003 row1 (settled_row default_settings 600000003 (Broken (lit ''refused'')) row1) row3"
  by (simp_all add: flush_row_def changed_def settled_row_def result_row_def failure_row_def row_defs sample_attempt_def
      default_settings_def later_def backoff_seconds_def lit_def)

lemma row_facts:
  "deliver_attempt taking_env done_tasks db row1 = Sent (Some (lit ''page'')) None"
  "deliver_attempt taking_env done_tasks db row2 = Sent (Some (lit ''page'')) None"
  "deliver_attempt taking_env done_tasks db row5 = Sent (Some (lit ''page'')) None"
  "deliver_attempt refusing_env done_tasks db row1 = Broken (lit ''refused'')"
  "da_id row1 = 1" "da_id row2 = 1" "da_id row3 = 1" "da_id row4 = 1" "da_id row5 = 1"
  "da_status row3 = DDelivered" "da_status row4 = DPending"
  by (simp_all add: taking_sends refusing_refuses row_defs sample_attempt_def)

text \<open>(C32) The lease is needed: the write at the end checks neither that the row is still leased nor its
  status. When an adapter call outlasts the stuck limit and a second worker runs, the second delivers
  the reaped row; the first's late failure then turns the delivered row back to pending, and it is sent
  again.\<close>

theorem slow_delivery_sent_twice:
  "\<exists>sa sb sc ra rb. history False default_settings sa \<and> (dstep False default_settings)\<^sup>*\<^sup>* sa sb
     \<and> (dstep False default_settings)\<^sup>*\<^sup>* sb sc
     \<and> find_attempt (dq_db sa) 1 = Some ra \<and> da_status ra = DDelivered \<and> dq_sent sa = [1]
     \<and> find_attempt (dq_db sb) 1 = Some rb \<and> da_status rb = DPending \<and> dq_sent sb = [1]
     \<and> dq_sent sc = [1, 1]"
proof -
  let ?h = "history False default_settings" and ?d = "dstep False default_settings"
  let ?sent = "Sent (Some (lit ''page'')) None" and ?no = "Broken (lit ''refused'')"
  note further = history.further [of False default_settings]
  have "?h (with_row row1 (holding [1] Idle) at_rest [])"
    by (rule further [OF start_one tick_one(1) [OF claims(1)]])
  then have "?h (with_row row1 (holding [] (Loaded row1)) at_rest [])"
    by (rule further [OF _ load_one(1) [OF row_facts(5)]])
  then have "?h (with_row row2 (holding [] (Loaded row1)) (holding [1] Idle) [])"
    by (rule further [OF _ tick_one(2) [OF claims(2)]])
  then have "?h (with_row row2 (holding [] (Loaded row1)) (holding [] (Loaded row2)) [])"
    by (rule further [OF _ load_one(2) [OF row_facts(6)]])
  moreover have "?d (with_row row2 (holding [] (Loaded row1)) (holding [] (Loaded row2)) [])
      (with_row row2 (holding [] (Loaded row1)) (holding [] (Answered row2 ?sent)) [1])"
    by (rule answer_one(2) [of _ taking_env]) (simp_all add: row_facts)
  ultimately have "?h (with_row row2 (holding [] (Loaded row1)) (holding [] (Answered row2 ?sent)) [1])" by (rule further)
  then have a: "?h (with_row row3 (holding [] (Loaded row1)) at_rest [1])"
    by (rule further [OF _ settle_one(2) [OF _ writes(1)]]) simp
  have "?d (with_row row3 (holding [] (Loaded row1)) at_rest [1]) (with_row row3 (holding [] (Answered row1 ?no)) at_rest [1])"
    by (rule answer_one(1) [of _ refusing_env]) (simp_all add: row_facts)
  moreover have "?d (with_row row3 (holding [] (Answered row1 ?no)) at_rest [1]) (with_row row4 at_rest at_rest [1])"
    by (rule settle_one(1) [OF _ writes(2)]) (simp add: row_facts)
  ultimately have b: "?d\<^sup>*\<^sup>* (with_row row3 (holding [] (Loaded row1)) at_rest [1]) (with_row row4 at_rest at_rest [1])"
    by (meson rtranclp.rtrancl_into_rtrancl rtranclp.rtrancl_refl)
  have "?d (with_row row4 at_rest at_rest [1]) (with_row row5 (holding [1] Idle) at_rest [1])"
    by (rule tick_one(1) [OF claims(3)])
  moreover have "?d (with_row row5 (holding [1] Idle) at_rest [1]) (with_row row5 (holding [] (Loaded row5)) at_rest [1])"
    by (rule load_one(1) [OF row_facts(9)])
  moreover have "?d (with_row row5 (holding [] (Loaded row5)) at_rest [1])
      (with_row row5 (holding [] (Answered row5 ?sent)) at_rest [1, 1])"
    by (rule answer_one(1) [of _ taking_env]) (simp_all add: row_facts)
  ultimately have c: "?d\<^sup>*\<^sup>* (with_row row4 at_rest at_rest [1]) (with_row row5 (holding [] (Answered row5 ?sent)) at_rest [1, 1])"
    by (meson rtranclp.rtrancl_into_rtrancl rtranclp.rtrancl_refl)
  have "find_attempt (dq_db (with_row r x y sent)) 1 = (if da_id r = 1 then Some r else None)" "dq_sent (with_row r x y sent) = sent"
    for r x y sent by (simp_all add: with_row_def find_attempt_def)
  then show ?thesis using a b c row_facts(7,8,10,11)
    by (intro exI [of _ "with_row row3 (holding [] (Loaded row1)) at_rest [1]"]
        exI [of _ "with_row row4 at_rest at_rest [1]"] exI [of _ "with_row row5 (holding [] (Answered row5 ?sent)) at_rest [1, 1]"]
        exI [of _ row3] exI [of _ row4]) simp
qed

theorem delivery_sent_once_witness:
  "\<exists>s r. history True default_settings s \<and> find_attempt (dq_db s) 1 = Some r \<and> da_status r = DDelivered
     \<and> 1 \<in> set (dq_sent s) \<and> distinct (dq_sent s)"
proof -
  let ?sent = "Sent (Some (lit ''page'')) None"
  let ?r = "flush_row 5 row1 (settled_row default_settings 5 ?sent row1) row1"
  note further = history.further [of True default_settings]
  have p: "da_status sample_attempt = DPending" by (simp add: sample_attempt_def)
  have "history True default_settings (with_row row1 (holding [1] Idle) at_rest [])"
    by (rule further [OF start_one tick_one_careful [OF claims(1) p]])
  then have "history True default_settings (with_row row1 (holding [] (Loaded row1)) at_rest [])"
    by (rule further [OF _ load_one(1) [OF row_facts(5)]])
  moreover have "dstep True default_settings (with_row row1 (holding [] (Loaded row1)) at_rest [])
      (with_row row1 (holding [] (Answered row1 ?sent)) at_rest [1])"
    by (rule answer_one(1) [of _ taking_env]) (simp_all add: row_facts)
  ultimately have "history True default_settings (with_row row1 (holding [] (Answered row1 ?sent)) at_rest [1])"
    by (rule further)
  then have h: "history True default_settings (with_row ?r at_rest at_rest [1])"
    by (rule further [OF _ settle_one(1) [OF _ refl]]) simp
  have f: "find_attempt (dq_db (with_row ?r at_rest at_rest [1])) 1 = Some ?r"
    by (simp add: with_row_def find_attempt_def row_facts)
  have st: "da_status row1 = DDelivering" by (simp add: row1_def)
  have d: "da_status ?r = DDelivered" by (simp add: flush_status settled_status settled_differs [OF st] st)
  show ?thesis using delivery_sent_once [OF h] f d h by blast
qed

section \<open>The tick as steps\<close>

lemma set_worker_again [simp]: "set_worker w x (set_worker w y s) = set_worker w x s"
  by (simp add: set_worker_def)

lemma set_worker_db: "(set_worker w x s)\<lparr>dq_db := d\<rparr> = set_worker w x (s\<lparr>dq_db := d\<rparr>)"
  "(set_worker w x s)\<lparr>dq_sent := l\<rparr> = set_worker w x (s\<lparr>dq_sent := l\<rparr>)"
  by (simp_all add: set_worker_def)

lemma dq_swap: "(s :: deliveries)\<lparr>dq_sent := l, dq_db := d\<rparr> = s\<lparr>dq_db := d, dq_sent := l\<rparr>"
  by simp

lemma process_ids_steps:
  "\<exists>sent. (dstep c cfg)\<^sup>*\<^sup>* (set_worker w \<lparr>wk_ids = ids, wk_job = Idle\<rparr> s)
     (set_worker w at_rest (s\<lparr>dq_db := process_ids cfg env (dq_tasks s) ids (dq_db s), dq_sent := sent\<rparr>))"
proof (induction ids arbitrary: s)
  case Nil
  show ?case by (intro exI [of _ "dq_sent s"]) (simp add: at_rest_def)
next
  case (Cons i ids)
  let ?at = "\<lambda>j ids. \<lparr>wk_ids = ids, wk_job = j\<rparr>"
  show ?case
  proof (cases "find_attempt (dq_db s) i")
    case None
    have "dstep c cfg (set_worker w (?at Idle (i # ids)) s) (set_worker w (?at Idle ids) s)"
      using dstep.skip [of "set_worker w (?at Idle (i # ids)) s" w i ids c cfg] None by simp
    moreover obtain sent where "(dstep c cfg)\<^sup>*\<^sup>* (set_worker w (?at Idle ids) s)
        (set_worker w at_rest (s\<lparr>dq_db := process_ids cfg env (dq_tasks s) ids (dq_db s), dq_sent := sent\<rparr>))"
      using Cons.IH by blast
    ultimately show ?thesis using None
      by (intro exI [of _ sent]) (simp add: process_one_delivery_def converse_rtranclp_into_rtranclp)
  next
    case (Some r)
    let ?out = "deliver_attempt env (dq_tasks s) (dq_db s) r"
    define sent2 where "sent2 = (if is_sent ?out then dq_sent s @ [da_id r] else dq_sent s)"
    let ?sent = sent2
    obtain db raised where rec: "record_outcome cfg (de_now env i) (de_written env i) r ?out (dq_db s) = (db, raised)" by (metis prod.exhaust)
    let ?s2 = "s\<lparr>dq_sent := ?sent, dq_db := db\<rparr>"
    have "dstep c cfg (set_worker w (?at Idle (i # ids)) s) (set_worker w (?at (Loaded r) ids) s)"
      using dstep.load [of "set_worker w (?at Idle (i # ids)) s" w i ids r c cfg] Some by simp
    moreover have "dstep c cfg (set_worker w (?at (Loaded r) ids) s)
        (set_worker w (?at (Answered r ?out) ids) (s\<lparr>dq_sent := ?sent\<rparr>))"
      using dstep.answer [of "set_worker w (?at (Loaded r) ids) s" w ids r ?out env c cfg]
      by (simp add: set_worker_db sent2_def cong: if_cong)
    moreover have "dstep c cfg (set_worker w (?at (Answered r ?out) ids) (s\<lparr>dq_sent := ?sent\<rparr>))
        (set_worker w (if raised then at_rest else ?at Idle ids) ?s2)"
      using dstep.settle [of "set_worker w (?at (Answered r ?out) ids) (s\<lparr>dq_sent := ?sent\<rparr>)" w ids r ?out cfg "de_now env i" "de_written env i" db raised c] rec
      by (simp add: set_worker_db)
    ultimately have three: "(dstep c cfg)\<^sup>*\<^sup>* (set_worker w (?at Idle (i # ids)) s)
        (set_worker w (if raised then at_rest else ?at Idle ids) ?s2)"
      by (meson rtranclp.rtrancl_into_rtrancl rtranclp.rtrancl_refl)
    have one: "process_one_delivery cfg env (dq_tasks s) i (dq_db s) = (db, raised)"
      using Some rec by (simp add: process_one_delivery_def)
    show ?thesis
    proof (cases raised)
      case True
      then show ?thesis using three one unfolding dq_swap by (intro exI [of _ ?sent]) simp
    next
      case False
      obtain sent where "(dstep c cfg)\<^sup>*\<^sup>* (set_worker w (?at Idle ids) ?s2)
          (set_worker w at_rest (?s2\<lparr>dq_db := process_ids cfg env (dq_tasks ?s2) ids (dq_db ?s2), dq_sent := sent\<rparr>))"
        using Cons.IH [of ?s2] by blast
      then have "(dstep c cfg)\<^sup>*\<^sup>* (set_worker w (?at Idle ids) ?s2)
          (set_worker w at_rest (s\<lparr>dq_db := process_ids cfg env (dq_tasks s) ids db, dq_sent := sent\<rparr>))" by simp
      with three False have "(dstep c cfg)\<^sup>*\<^sup>* (set_worker w (?at Idle (i # ids)) s)
          (set_worker w at_rest (s\<lparr>dq_db := process_ids cfg env (dq_tasks s) ids db, dq_sent := sent\<rparr>))"
        by (simp add: rtranclp_trans)
      then show ?thesis using one False by (intro exI [of _ sent]) simp
    qed
  qed
qed

text \<open>(C33) The consumer of a single worker keeps the lease by itself: a whole tick of a worker that runs
  alone is a sequence of steps that respect it, so that in a deployment with one worker at-most-once
  sending is lost only to a crash.\<close>

theorem single_worker_keeps_lease:
  assumes "\<forall>v. dq_workers s v = at_rest"
  shows "\<exists>sent. (dstep True cfg)\<^sup>*\<^sup>* s
     (s\<lparr>dq_db := fst (delivery_tick cfg env (dq_tasks s) now (dq_db s)), dq_sent := sent\<rparr>)"
proof -
  obtain db ids where c: "claim_batch cfg now (dq_db s) = (db, ids)" by (metis prod.exhaust)
  let ?s1 = "s\<lparr>dq_db := db\<rparr>"
  have "\<not> held s i" for i using assms by (simp add: held_def hand_def at_rest_def)
  then have first: "dstep True cfg s (set_worker 0 \<lparr>wk_ids = ids, wk_job = Idle\<rparr> ?s1)"
    using dstep.tick [of s 0 cfg now db ids True] assms c by simp
  obtain sent where "(dstep True cfg)\<^sup>*\<^sup>* (set_worker 0 \<lparr>wk_ids = ids, wk_job = Idle\<rparr> ?s1)
      (set_worker 0 at_rest (?s1\<lparr>dq_db := process_ids cfg env (dq_tasks ?s1) ids (dq_db ?s1), dq_sent := sent\<rparr>))"
    using process_ids_steps by blast
  moreover have "set_worker 0 at_rest (?s1\<lparr>dq_db := d, dq_sent := sent\<rparr>) = s\<lparr>dq_db := d, dq_sent := sent\<rparr>" for d
    using assms by (simp add: set_worker_def fun_upd_idem)
  ultimately have "(dstep True cfg)\<^sup>*\<^sup>* s
      (s\<lparr>dq_db := process_ids cfg env (dq_tasks s) ids db, dq_sent := sent\<rparr>)"
    using first by (simp add: converse_rtranclp_into_rtranclp)
  then show ?thesis using c by (intro exI [of _ sent]) (simp add: delivery_tick_def)
qed

theorem single_worker_keeps_lease_witness:
  "\<exists>sent. (dstep True default_settings)\<^sup>*\<^sup>* (with_row sample_attempt at_rest at_rest [])
     ((with_row sample_attempt at_rest at_rest [])\<lparr>dq_db := fst (delivery_tick default_settings taking_env done_tasks 0 sample_queue),
        dq_sent := sent\<rparr>)"
proof -
  let ?s = "with_row sample_attempt at_rest at_rest []"
  have a: "\<forall>v. dq_workers ?s v = at_rest" by (simp add: with_row_def)
  have d: "dq_db ?s = sample_queue" "dq_tasks ?s = done_tasks" by (simp_all add: with_row_def sample_queue_def)
  show ?thesis using single_worker_keeps_lease [OF a, of default_settings taking_env 0] unfolding d .
qed

end
