(* ===== verification/Upload_Order.thy ===== *)
theory Upload_Order
  imports VTS_Prelude "HOL-Library.List_Lexorder" "HOL-Library.Multiset"
begin

text \<open>
  What a set of uploaded files must be, and in which order its parts are joined:
  \<open>vts/services/upload_set.py\<close> and \<open>vts/services/upload_order.py\<close>, with the probe of a file
  (\<open>MediaProbe\<close> of \<open>vts/services/media.py\<close>).

  Which characters are digits is an input, as is the parser of a time stamp.
\<close>

section \<open>Sets\<close>

datatype set_kind = VideoSet | AudioSet

datatype set_error = Unsupported "ustr list" | Mixed "ustr list" "ustr list" | NoVideo ustr | HasVideo ustr
  | VideoMismatch ustr ustr | AudioMismatch ustr ustr

definition video_suffixes :: "ustr list" where
  "video_suffixes = map lit [''.mp4'', ''.mkv'', ''.webm'', ''.avi'', ''.mov'', ''.wmv'', ''.flv'', ''.ts'', ''.m4v'']"

definition audio_suffixes :: "ustr list" where
  "audio_suffixes = map lit [''.mp3'', ''.m4a'', ''.aac'', ''.ogg'', ''.opus'', ''.flac'', ''.wav'', ''.wma'']"

definition lower_suffix :: "unicode \<Rightarrow> ustr \<Rightarrow> ustr" where
  "lower_suffix uc name = uc_lower uc (path_suffix name)"

definition classify_suffixes :: "unicode \<Rightarrow> ustr list \<Rightarrow> set_error + set_kind" where
  "classify_suffixes uc names =
     (let video = filter (\<lambda>n. lower_suffix uc n \<in> set video_suffixes) names;
          audio = filter (\<lambda>n. lower_suffix uc n \<notin> set video_suffixes \<and> lower_suffix uc n \<in> set audio_suffixes) names;
          unsupported = filter (\<lambda>n. lower_suffix uc n \<notin> set video_suffixes \<and> lower_suffix uc n \<notin> set audio_suffixes) names
      in if unsupported \<noteq> [] then Inl (Unsupported unsupported)
         else if video \<noteq> [] \<and> audio \<noteq> [] then Inl (Mixed video audio)
         else Inr (if video \<noteq> [] then VideoSet else AudioSet))"

record media_probe =
  mp_duration :: rat
  mp_creation :: "ustr option"
  mp_has_video :: bool
  mp_video_codec :: "ustr option"
  mp_width :: "int option"
  mp_height :: "int option"
  mp_frame_rate :: "ustr option"
  mp_audio_codec :: "ustr option"
  mp_sample_rate :: "int option"
  mp_channels :: "int option"

definition video_signature :: "media_probe \<Rightarrow> ustr option \<times> int option \<times> int option \<times> ustr option" where
  "video_signature p = (mp_video_codec p, mp_width p, mp_height p, mp_frame_rate p)"

definition audio_signature :: "media_probe \<Rightarrow> ustr option \<times> int option \<times> int option" where
  "audio_signature p = (mp_audio_codec p, mp_sample_rate p, mp_channels p)"

fun verify_kind :: "set_kind \<Rightarrow> (ustr \<times> media_probe) list \<Rightarrow> set_error option" where
  "verify_kind k [] = None"
| "verify_kind k ((name, p) # ps) =
     (if k = VideoSet \<and> \<not> mp_has_video p then Some (NoVideo name)
      else if k = AudioSet \<and> mp_has_video p then Some (HasVideo name)
      else verify_kind k ps)"

fun verify_match :: "ustr \<times> media_probe \<Rightarrow> (ustr \<times> media_probe) list \<Rightarrow> set_error option" where
  "verify_match first [] = None"
| "verify_match first ((name, p) # ps) =
     (if video_signature p \<noteq> video_signature (snd first) then Some (VideoMismatch name (fst first))
      else if audio_signature p \<noteq> audio_signature (snd first) then Some (AudioMismatch name (fst first))
      else verify_match first ps)"

definition verify_probes :: "set_kind \<Rightarrow> (ustr \<times> media_probe) list \<Rightarrow> set_error option" where
  "verify_probes k ps = (case verify_kind k ps of Some e \<Rightarrow> Some e
     | None \<Rightarrow> if k \<noteq> VideoSet \<or> length ps < 2 then None else verify_match (hd ps) (tl ps))"

section \<open>Natural order of names\<close>

text \<open>\<open>\d\<close> with its value, and the wider class of \<open>str.isdigit\<close>.\<close>

record digit_tables =
  dt_value :: "nat \<Rightarrow> nat option"
  dt_digit :: "nat \<Rightarrow> bool"

definition ascii_digits :: digit_tables where
  "ascii_digits = \<lparr>dt_value = (\<lambda>c. if 48 \<le> c \<and> c \<le> 57 then Some (c - 48) else None),
     dt_digit = (\<lambda>c. 48 \<le> c \<and> c \<le> 57)\<rparr>"

text \<open>\<open>re.compile(r"(\d+)").split(name)\<close>: a text without digits, digits, a text, and so on.\<close>

definition is_dec :: "digit_tables \<Rightarrow> nat \<Rightarrow> bool" where
  "is_dec dt c \<longleftrightarrow> dt_value dt c \<noteq> None"

function split_digits :: "digit_tables \<Rightarrow> ustr \<Rightarrow> ustr list" where
  "split_digits dt s = (let t = takeWhile (\<lambda>c. \<not> is_dec dt c) s; r = dropWhile (\<lambda>c. \<not> is_dec dt c) s
     in if r = [] then [t]
        else t # takeWhile (is_dec dt) r # split_digits dt (dropWhile (is_dec dt) r))"
  by pat_completeness auto
termination
proof (relation "measure (length \<circ> snd)", goal_cases)
  case (2 dt s t r)
  then obtain c r' where r: "r = c # r'" "is_dec dt c" by (metis dropWhile_eq_Cons_conv neq_Nil_conv)
  have "length (dropWhile (is_dec dt) r) \<le> length r'" using r by (simp add: length_dropWhile_le)
  also have "\<dots> < length r" using r by simp
  also have "length r \<le> length s" using 2 by (simp add: length_dropWhile_le)
  finally show ?case by simp
qed simp

declare split_digits.simps [simp del]

datatype key_part = KNum nat | KText ustr

text \<open>A number and a text are never compared: they stand at places of different parity. The order makes
  numbers the smaller.\<close>

instantiation key_part :: linorder
begin

fun less_eq_key_part :: "key_part \<Rightarrow> key_part \<Rightarrow> bool" where
  "less_eq_key_part (KNum a) (KNum b) = (a \<le> b)"
| "less_eq_key_part (KNum a) (KText t) = True"
| "less_eq_key_part (KText s) (KNum b) = False"
| "less_eq_key_part (KText s) (KText t) = (s \<le> t)"

definition less_key_part :: "key_part \<Rightarrow> key_part \<Rightarrow> bool" where
  "less_key_part a b \<longleftrightarrow> a \<le> b \<and> \<not> b \<le> a"

instance
proof
  fix a b c :: key_part
  show "(a < b) = (a \<le> b \<and> \<not> b \<le> a)" by (simp add: less_key_part_def)
  show "a \<le> a" by (cases a) simp_all
  show "a \<le> b \<Longrightarrow> b \<le> c \<Longrightarrow> a \<le> c" by (cases a; cases b; cases c) auto
  show "a \<le> b \<Longrightarrow> b \<le> a \<Longrightarrow> a = b" by (cases a; cases b) auto
  show "a \<le> b \<or> b \<le> a" by (cases a; cases b) auto
qed

end

definition int_of_digits :: "digit_tables \<Rightarrow> ustr \<Rightarrow> nat option" where
  "int_of_digits dt s = (if list_all (is_dec dt) s \<and> s \<noteq> []
     then Some (foldl (\<lambda>n c. 10 * n + the (dt_value dt c)) 0 s) else None)"

text \<open>\<open>int(part) if part.isdigit() else part.lower()\<close>; \<open>None\<close> is the \<open>ValueError\<close> of a character that is a
  digit but not a decimal one.\<close>

definition key_part_of :: "unicode \<Rightarrow> digit_tables \<Rightarrow> ustr \<Rightarrow> key_part option" where
  "key_part_of uc dt s = (if s \<noteq> [] \<and> list_all (dt_digit dt) s then map_option KNum (int_of_digits dt s)
     else Some (KText (uc_lower uc s)))"

fun all_some :: "'a option list \<Rightarrow> 'a list option" where
  "all_some [] = Some []"
| "all_some (None # xs) = None"
| "all_some (Some x # xs) = map_option (Cons x) (all_some xs)"

definition natural_key :: "unicode \<Rightarrow> digit_tables \<Rightarrow> ustr \<Rightarrow> key_part list option" where
  "natural_key uc dt name = all_some (map (key_part_of uc dt) (split_digits dt name))"

section \<open>The order of a set\<close>

record set_entry =
  se_name :: ustr
  se_index :: nat
  se_creation :: "ustr option"
  se_modified :: "int option"
  se_duration :: rat

text \<open>\<open>_parse\<close>: an empty or unreadable tag is no stamp; reading one (a naive one as UTC) is an input.\<close>

definition parse_stamp :: "(ustr \<Rightarrow> instant option) \<Rightarrow> ustr option \<Rightarrow> instant option" where
  "parse_stamp rd v = (case v of None \<Rightarrow> None | Some s \<Rightarrow> if s = [] then None else rd s)"

definition decides :: "(set_entry \<Rightarrow> 'k option) \<Rightarrow> set_entry list \<Rightarrow> bool" where
  "decides f items \<longleftrightarrow> list_all (\<lambda>e. f e \<noteq> None) items \<and> distinct (map f items)"

text \<open>The ordered entries and the rule that decided; \<open>None\<close> is the error of a name.\<close>

definition resolve_order ::
  "unicode \<Rightarrow> digit_tables \<Rightarrow> (ustr \<Rightarrow> instant option) \<Rightarrow> set_entry list \<Rightarrow> (set_entry list \<times> string) option" where
  "resolve_order uc dt rd items =
     (if decides (\<lambda>e. parse_stamp rd (se_creation e)) items
      then Some (sort_key (\<lambda>e. the (parse_stamp rd (se_creation e))) items, ''creation_time'')
      else if decides se_modified items
      then Some (sort_key (\<lambda>e. the (se_modified e)) items, ''last_modified'')
      else if list_all (\<lambda>e. natural_key uc dt (se_name e) \<noteq> None) items
      then Some (sort_key (\<lambda>e. the (natural_key uc dt (se_name e))) items, ''filename'')
      else None)"

section \<open>Facts\<close>

lemma all_some_None: "all_some xs = None \<longleftrightarrow> None \<in> set xs"
  by (induction xs rule: all_some.induct) auto

lemma concat_split_digits: "concat (split_digits dt s) = s"
proof (induction dt s rule: split_digits.induct)
  case (1 dt s)
  then show ?case by (subst split_digits.simps) (auto simp: Let_def)
qed

text \<open>A name fails only where a character that is a digit but has no decimal value makes up a whole part.\<close>

lemma natural_key_None:
  "natural_key uc dt name = None \<longleftrightarrow>
     (\<exists>p\<in>set (split_digits dt name). p \<noteq> [] \<and> list_all (dt_digit dt) p \<and> \<not> list_all (is_dec dt) p)"
  by (force simp: natural_key_def all_some_None key_part_of_def int_of_digits_def split: if_splits)

text \<open>The order is a permutation of the set, sorted by the rule named.\<close>

lemma resolve_order_perm: "resolve_order uc dt rd items = Some (ordered, rule) \<Longrightarrow> mset ordered = mset items"
  by (auto simp: resolve_order_def split: if_splits)

lemma resolve_order_total:
  "(\<And>c. dt_digit dt c \<Longrightarrow> is_dec dt c) \<Longrightarrow> resolve_order uc dt rd items \<noteq> None"
  by (auto simp: resolve_order_def natural_key_None list_all_iff)

end
