(* ===== verification/Upload_Session.thy ===== *)
theory Upload_Session
  imports Upload_Order Task_Store Delivery_Config "HOL-Library.Word" "HOL-Library.Sublist"
begin

text \<open>
  A chunked upload until it is finalized: the names and the sidecar of \<open>vts/services/upload_session.py\<close>,
  the handlers \<open>uploads_init\<close>, \<open>uploads_offset\<close> and \<open>uploads_patch\<close> of \<open>vts/api/routers/uploads.py\<close>,
  and the sweep of abandoned sessions (\<open>_upload_gc_tick\<close> of \<open>vts/worker/main.py\<close>).

  The directory of an upload holds the sidecar \<open>upload.json\<close> and the files of \<open>media\<close>, by name. The
  sidecar is written in place, so a crash can leave it unreadable.
\<close>

section \<open>Names\<close>

definition media_name :: "ustr \<Rightarrow> ustr" where
  "media_name sfx = lit ''audio.original'' @ sfx"

text \<open>\<open>f"{n:03d}"\<close>.\<close>

definition pad3 :: "nat \<Rightarrow> ustr" where
  "pad3 n = replicate (3 - length (decimal n)) 48 @ decimal n"

definition part_name :: "nat \<Rightarrow> ustr \<Rightarrow> ustr" where
  "part_name i sfx = lit ''audio.original.'' @ pad3 i @ sfx"

definition staged :: "ustr \<Rightarrow> ustr" where
  "staged name = name @ lit ''.part''"

section \<open>Files\<close>

type_synonym bytes = "8 word list"
type_synonym media = "(ustr \<times> bytes) list"

definition exists_file :: "media \<Rightarrow> ustr \<Rightarrow> bool" where
  "exists_file m f \<longleftrightarrow> dict_get m f \<noteq> None"

definition received_bytes :: "media \<Rightarrow> ustr \<Rightarrow> nat" where
  "received_bytes m f = (case dict_get m f of None \<Rightarrow> 0 | Some b \<Rightarrow> length b)"

definition touch :: "media \<Rightarrow> ustr \<Rightarrow> media" where
  "touch m f = (if exists_file m f then m else dict_set m f [])"

definition append_bytes :: "media \<Rightarrow> ustr \<Rightarrow> bytes \<Rightarrow> media" where
  "append_bytes m f data = dict_set m f ((case dict_get m f of None \<Rightarrow> [] | Some b \<Rightarrow> b) @ data)"

text \<open>\<open>rename\<close> replaces its target.\<close>

definition rename_file :: "media \<Rightarrow> ustr \<Rightarrow> ustr \<Rightarrow> media" where
  "rename_file m f g = (case dict_get m f of None \<Rightarrow> m | Some b \<Rightarrow> dict_set (dict_del m f) g b)"

section \<open>The sidecar\<close>

record file_entry =
  fe_index :: nat
  fe_filename :: ustr
  fe_suffix :: ustr
  fe_total :: int
  fe_modified :: "int option"
  fe_received :: nat

text \<open>The sidecar of a set has \<open>files\<close>; the sidecar of a single file has none, and \<open>sfx\<close>,
  \<open>filename\<close> and \<open>received\<close> of its own.\<close>

record upload_meta =
  um_user :: uuid
  um_files :: "file_entry list"
  um_kind :: set_kind
  um_suffix :: ustr
  um_filename :: ustr
  um_received :: nat
  um_total :: int
  um_options :: jdict
  um_display :: "ustr option"
  um_created :: "instant option"
  um_resolved :: "(set_entry list \<times> string) option"

datatype sidecar = NoSidecar | Torn | Sidecar upload_meta

record upload_dir =
  ud_sidecar :: sidecar
  ud_media :: media

definition load :: "upload_dir \<Rightarrow> upload_meta option" where
  "load d = (case ud_sidecar d of Sidecar m \<Rightarrow> Some m | _ \<Rightarrow> None)"

section \<open>Sessions\<close>

definition init_single ::
  "uuid \<Rightarrow> ustr \<Rightarrow> int \<Rightarrow> jdict \<Rightarrow> ustr option \<Rightarrow> ustr \<Rightarrow> instant \<Rightarrow> upload_dir" where
  "init_single user sfx declared options display filename now =
     \<lparr>ud_sidecar = Sidecar \<lparr>um_user = user, um_files = [], um_kind = AudioSet, um_suffix = sfx,
        um_filename = filename, um_received = 0, um_total = declared, um_options = options,
        um_display = display, um_created = Some now, um_resolved = None\<rparr>,
      ud_media = touch [] (staged (media_name sfx))\<rparr>"

record file_spec =
  fs_filename :: ustr
  fs_total :: int
  fs_modified :: "int option"

definition entry_of :: "unicode \<Rightarrow> nat \<times> file_spec \<Rightarrow> file_entry" where
  "entry_of uc p = \<lparr>fe_index = fst p, fe_filename = fs_filename (snd p),
     fe_suffix = lower_suffix uc (fs_filename (snd p)), fe_total = fs_total (snd p),
     fe_modified = fs_modified (snd p), fe_received = 0\<rparr>"

definition init_multi ::
  "unicode \<Rightarrow> uuid \<Rightarrow> file_spec list \<Rightarrow> set_kind \<Rightarrow> jdict \<Rightarrow> ustr option \<Rightarrow> instant \<Rightarrow> upload_dir" where
  "init_multi uc user files kind options display now =
     (let entries = map (entry_of uc) (enumerate 0 files)
      in \<lparr>ud_sidecar = Sidecar \<lparr>um_user = user, um_files = entries, um_kind = kind, um_suffix = [],
            um_filename = [], um_received = 0, um_total = sum_list (map fe_total entries),
            um_options = options, um_display = display, um_created = Some now, um_resolved = None\<rparr>,
          ud_media = foldl (\<lambda>m e. touch m (staged (part_name (fe_index e) (fe_suffix e)))) [] entries\<rparr>)"

text \<open>\<open>append_chunk\<close> and \<open>append_chunk_at\<close>: the bytes first, then the sidecar if it can be read.\<close>

definition append_chunk :: "ustr \<Rightarrow> bytes \<Rightarrow> upload_dir \<Rightarrow> upload_dir \<times> nat" where
  "append_chunk part data d =
     (let m = append_bytes (ud_media d) part data; n = received_bytes m part
      in (d\<lparr>ud_media := m, ud_sidecar := (case ud_sidecar d of
            Sidecar meta \<Rightarrow> Sidecar (meta\<lparr>um_received := n\<rparr>) | s \<Rightarrow> s)\<rparr>, n))"

fun set_received :: "nat \<Rightarrow> nat \<Rightarrow> file_entry list \<Rightarrow> file_entry list" where
  "set_received i n [] = []"
| "set_received i n (e # es) = (if fe_index e = i then e\<lparr>fe_received := n\<rparr> # es else e # set_received i n es)"

definition append_chunk_at :: "ustr \<Rightarrow> bytes \<Rightarrow> nat \<Rightarrow> upload_dir \<Rightarrow> upload_dir \<times> nat" where
  "append_chunk_at part data i d =
     (let m = append_bytes (ud_media d) part data; n = received_bytes m part
      in (d\<lparr>ud_media := m, ud_sidecar := (case ud_sidecar d of
            Sidecar meta \<Rightarrow> Sidecar (meta\<lparr>um_files := set_received i n (um_files meta)\<rparr>) | s \<Rightarrow> s)\<rparr>, n))"

section \<open>Handlers\<close>

datatype upload_error = TooManyFiles | SizeNotPositive | TooLarge | BadSet set_error | UnsupportedType ustr
  | BadPrompts | PromptsNeedTranscript | DiarizeNeedsTranscript | BadDelivery | DeliveryRejected submit_error
  | NotFound | NoSuchIndex nat | OffsetMismatch nat | ChunkTooLong
  | Incomplete ustr | MissingStaging "ustr list" | ProbeFailed | SetRejected set_error | ServerError

fun http_status :: "upload_error \<Rightarrow> nat" where
  "http_status TooLarge = 413"
| "http_status ChunkTooLong = 413"
| "http_status NotFound = 404"
| "http_status (NoSuchIndex i) = 404"
| "http_status (OffsetMismatch n) = 409"
| "http_status (Incomplete f) = 409"
| "http_status (MissingStaging fs) = 409"
| "http_status ServerError = 500"
| "http_status _ = 422"

subsection \<open>Opening a session\<close>

text \<open>The request; the two encoded lists are parsed by \<open>json.loads\<close>, an input of the operations.\<close>

record init_request =
  ir_filename :: ustr
  ir_total :: int
  ir_language :: "ustr option"
  ir_transcript :: bool
  ir_diarize :: bool
  ir_prompts :: "ustr option"
  ir_delivery :: "ustr option"
  ir_display :: "ustr option"
  ir_files :: "file_spec list"

definition normalize_display_name :: "ustr option \<Rightarrow> ustr option" where
  "normalize_display_name raw = (case raw of None \<Rightarrow> None
     | Some s \<Rightarrow> let c = strip s in if c = [] then None else Some (take 500 c))"

definition allowed_upload_suffixes :: "ustr list" where
  "allowed_upload_suffixes = video_suffixes @ audio_suffixes"

fun parse_refs :: "(json \<Rightarrow> ustr) \<Rightarrow> json list \<Rightarrow> prompt_ref list option" where
  "parse_refs rp [] = Some []"
| "parse_refs rp (v # vs) = (case parse_ref rp v of Inl e \<Rightarrow> None | Inr r \<Rightarrow> map_option (Cons r) (parse_refs rp vs))"

definition normalize_prompts_json :: "(json \<Rightarrow> ustr) \<Rightarrow> (ustr \<Rightarrow> json option) \<Rightarrow> ustr option \<Rightarrow> json list option" where
  "normalize_prompts_json rp loads prompts = (case prompts of
      None \<Rightarrow> Some [ref_to_dict summary_ref]
    | Some s \<Rightarrow> (case loads s of Some (JList refs) \<Rightarrow> map_option (map ref_to_dict) (parse_refs rp refs) | _ \<Rightarrow> None))"

definition normalize_delivery_entry :: "(json \<Rightarrow> ustr) \<Rightarrow> json \<Rightarrow> jdict option" where
  "normalize_delivery_entry rp entry = (case entry of
     JDict d \<Rightarrow>
       (let ref = jget d (lit ''deliver_to''); variant = jget d (lit ''variant'') in
        if \<not> truthy ref then None
        else if \<not> truthy variant then Some [(lit ''deliver_to'', JStr (py_str rp ref))]
        else if variant \<notin> JStr ` set [lit ''raw'', lit ''redacted'', lit ''summary'']
             \<and> (case parse_ref rp (JStr (py_str rp variant)) of Inl e \<Rightarrow> True | Inr r \<Rightarrow> False) then None
        else Some [(lit ''deliver_to'', JStr (py_str rp ref)), (lit ''variant'', JStr (py_str rp variant))])
   | _ \<Rightarrow> None)"

definition normalize_delivery_json :: "(json \<Rightarrow> ustr) \<Rightarrow> (ustr \<Rightarrow> json option) \<Rightarrow> ustr option \<Rightarrow> jdict list option" where
  "normalize_delivery_json rp loads delivery = (case delivery of
      None \<Rightarrow> Some []
    | Some s \<Rightarrow> if s = [] then Some []
        else (case loads s of Some (JList entries) \<Rightarrow> all_some (map (normalize_delivery_entry rp) entries) | _ \<Rightarrow> None))"

text \<open>What the handlers use of the interpreter, the settings and the tables.\<close>

record upload_env =
  ue_unicode :: unicode
  ue_repr :: "json \<Rightarrow> ustr"
  ue_loads :: "ustr \<Rightarrow> json option"
  ue_uuid :: "ustr \<Rightarrow> uuid option"
  ue_uuid_str :: "uuid \<Rightarrow> ustr"
  ue_registry :: registry
  ue_targets :: "target list"
  ue_max_files :: nat
  ue_max_bytes :: int

definition init_options :: "init_request \<Rightarrow> json list \<Rightarrow> jdict list \<Rightarrow> jdict" where
  "init_options r prompts delivery =
     [(lit ''language'', case ir_language r of None \<Rightarrow> JNull | Some l \<Rightarrow> if l = [] then JNull else JStr l),
      (lit ''audio_only'', JBool False), (lit ''transcript'', JBool (ir_transcript r)),
      (lit ''diarize'', JBool (ir_diarize r)), (lit ''prompts'', JList prompts),
      (lit ''delivery'', JList (map JDict delivery))]"

text \<open>The checks the two flows share, after those of the files: the options, or the refusal.\<close>

definition checked_options :: "upload_env \<Rightarrow> uuid \<Rightarrow> init_request \<Rightarrow> upload_error + jdict" where
  "checked_options env user r =
     (case normalize_prompts_json (ue_repr env) (ue_loads env) (ir_prompts r) of
        None \<Rightarrow> Inl BadPrompts
      | Some prompts \<Rightarrow>
          if prompts \<noteq> [] \<and> \<not> ir_transcript r then Inl PromptsNeedTranscript
          else if ir_diarize r \<and> \<not> ir_transcript r then Inl DiarizeNeedsTranscript
          else (case normalize_delivery_json (ue_repr env) (ue_loads env) (ir_delivery r) of
             None \<Rightarrow> Inl BadDelivery
           | Some entries \<Rightarrow>
               (case validate_delivery_refs (ue_repr env) (ue_uuid env) (ue_uuid_str env) (ue_registry env)
                       user (ue_targets env) (map JDict entries) of
                  Inl e \<Rightarrow> Inl (DeliveryRejected e)
                | Inr delivery \<Rightarrow> Inr (init_options r prompts delivery))))"

definition check_files :: "upload_env \<Rightarrow> file_spec list \<Rightarrow> upload_error + set_kind" where
  "check_files env files =
     (if length files > ue_max_files env then Inl TooManyFiles
      else if \<exists>f\<in>set files. fs_total f \<le> 0 then Inl SizeNotPositive
      else if sum_list (map fs_total files) > ue_max_bytes env then Inl TooLarge
      else (case classify_suffixes (ue_unicode env) (map fs_filename files) of
              Inl e \<Rightarrow> Inl (BadSet e) | Inr kind \<Rightarrow> Inr kind))"

definition uploads_init :: "upload_env \<Rightarrow> uuid \<Rightarrow> instant \<Rightarrow> init_request \<Rightarrow> upload_error + upload_dir" where
  "uploads_init env user now r =
     (if ir_files r \<noteq> []
      then (case check_files env (ir_files r) of Inl e \<Rightarrow> Inl e
        | Inr kind \<Rightarrow> (case checked_options env user r of Inl e \<Rightarrow> Inl e
            | Inr options \<Rightarrow> Inr (init_multi (ue_unicode env) user (ir_files r) kind options
                                    (normalize_display_name (ir_display r)) now)))
      else (let sfx = lower_suffix (ue_unicode env) (ir_filename r) in
        if sfx \<notin> set allowed_upload_suffixes then Inl (UnsupportedType sfx)
        else if ir_total r \<le> 0 then Inl SizeNotPositive
        else if ir_total r > ue_max_bytes env then Inl TooLarge
        else (case checked_options env user r of Inl e \<Rightarrow> Inl e
          | Inr options \<Rightarrow> Inr (init_single user sfx (ir_total r) options
                                  (normalize_display_name (ir_display r)) (ir_filename r) now))))"

subsection \<open>Chunks\<close>

definition load_owned_session :: "uuid \<Rightarrow> upload_dir \<Rightarrow> upload_error + upload_meta" where
  "load_owned_session user d = (case load d of None \<Rightarrow> Inl NotFound
     | Some m \<Rightarrow> if um_user m = user then Inr m else Inl NotFound)"

definition entry_for_index :: "upload_meta \<Rightarrow> nat \<Rightarrow> upload_error + file_entry" where
  "entry_for_index m i = (case find (\<lambda>e. fe_index e = i) (um_files m) of None \<Rightarrow> Inl (NoSuchIndex i) | Some e \<Rightarrow> Inr e)"

text \<open>The staging file a request is about, and its declared size.\<close>

definition staging_of :: "uuid \<Rightarrow> nat \<Rightarrow> upload_dir \<Rightarrow> upload_error + ustr \<times> int" where
  "staging_of user i d = (case load_owned_session user d of Inl e \<Rightarrow> Inl e
     | Inr m \<Rightarrow> if um_files m \<noteq> []
         then (case entry_for_index m i of Inl e \<Rightarrow> Inl e
               | Inr e \<Rightarrow> Inr (staged (part_name (fe_index e) (fe_suffix e)), fe_total e))
         else Inr (staged (media_name (um_suffix m)), um_total m))"

definition uploads_offset :: "uuid \<Rightarrow> nat \<Rightarrow> upload_dir \<Rightarrow> upload_error + nat \<times> int" where
  "uploads_offset user i d = (case staging_of user i d of Inl e \<Rightarrow> Inl e
     | Inr (part, declared) \<Rightarrow> Inr (received_bytes (ud_media d) part, declared))"

text \<open>
  A PATCH awaits the body between its two checks, and its append runs in a thread: other requests run
  in between. \<open>patch_offset\<close> is the part before the body, with the file, the declared size and the
  current length it goes on with; \<open>patch_body\<close> the check of the body against that length;
  \<open>patch_append\<close> the append.
\<close>

definition patch_offset :: "uuid \<Rightarrow> nat \<Rightarrow> nat \<Rightarrow> upload_dir \<Rightarrow> upload_error + ustr \<times> int \<times> nat" where
  "patch_offset user i off d = (case staging_of user i d of Inl e \<Rightarrow> Inl e
     | Inr (part, declared) \<Rightarrow>
         (let current = received_bytes (ud_media d) part
          in if off \<noteq> current then Inl (OffsetMismatch current) else Inr (part, declared, current)))"

definition patch_body :: "nat \<Rightarrow> int \<Rightarrow> bytes \<Rightarrow> upload_error option" where
  "patch_body current declared data = (if int current + int (length data) > declared then Some ChunkTooLong else None)"

definition patch_append :: "bool \<Rightarrow> nat \<Rightarrow> ustr \<Rightarrow> bytes \<Rightarrow> upload_dir \<Rightarrow> upload_dir \<times> nat" where
  "patch_append multi i part data d = (if multi then append_chunk_at part data i d else append_chunk part data d)"

definition is_multi :: "upload_dir \<Rightarrow> bool" where
  "is_multi d = (case load d of None \<Rightarrow> False | Some m \<Rightarrow> um_files m \<noteq> [])"

definition uploads_patch :: "uuid \<Rightarrow> nat \<Rightarrow> nat \<Rightarrow> bytes \<Rightarrow> upload_dir \<Rightarrow> upload_dir \<times> (upload_error + nat)" where
  "uploads_patch user i off data d = (case patch_offset user i off d of
      Inl e \<Rightarrow> (d, Inl e)
    | Inr (part, declared, current) \<Rightarrow> (case patch_body current declared data of
        Some e \<Rightarrow> (d, Inl e)
      | None \<Rightarrow> (case patch_append (is_multi d) i part data d of (d', n) \<Rightarrow> (d', Inr n))))"

section \<open>The protocol of chunks\<close>

text \<open>
  A request, or a request whose worker dies while it appends: \<open>k\<close> bytes of the chunk reach the file,
  and the sidecar may be left unreadable.
\<close>

datatype chunk_event = Patch nat nat bytes | CrashedPatch nat nat bytes nat bool

definition crash_append :: "ustr \<Rightarrow> bytes \<Rightarrow> bool \<Rightarrow> upload_dir \<Rightarrow> upload_dir" where
  "crash_append part data torn d = d\<lparr>ud_media := append_bytes (ud_media d) part data,
     ud_sidecar := if torn then Torn else ud_sidecar d\<rparr>"

fun chunk_step :: "uuid \<Rightarrow> upload_dir \<Rightarrow> chunk_event \<Rightarrow> upload_dir" where
  "chunk_step user d (Patch i off data) = fst (uploads_patch user i off data d)"
| "chunk_step user d (CrashedPatch i off data k torn) = (case patch_offset user i off d of
      Inl e \<Rightarrow> d
    | Inr (part, declared, current) \<Rightarrow>
        if patch_body current declared data = None then crash_append part (take k data) torn d else d)"

definition content :: "upload_dir \<Rightarrow> ustr \<Rightarrow> bytes" where
  "content d part = (case dict_get (ud_media d) part of None \<Rightarrow> [] | Some b \<Rightarrow> b)"

lemma received_content [simp]: "received_bytes (ud_media d) part = length (content d part)"
  by (simp add: received_bytes_def content_def split: option.split)

lemma received_append [simp]: "received_bytes (append_bytes m f data) f = received_bytes m f + length data"
  by (simp add: received_bytes_def append_bytes_def split: option.split)

lemma content_update [simp]:
  "content (d\<lparr>ud_sidecar := s\<rparr>) f = content d f"
  "content (d\<lparr>ud_media := append_bytes (ud_media d) part data\<rparr>) f = content d f @ (if f = part then data else [])"
  by (auto simp: content_def append_bytes_def)

lemma find_set_received:
  "find (\<lambda>e. fe_index e = i) (set_received j n es) =
     (if i = j then map_option (\<lambda>e. e\<lparr>fe_received := n\<rparr>) (find (\<lambda>e. fe_index e = i) es)
      else find (\<lambda>e. fe_index e = i) es)"
  by (induction j n es rule: set_received.induct) auto

lemma set_received_Nil [simp]: "set_received j n es = [] \<longleftrightarrow> es = []"
  by (induction j n es rule: set_received.induct) auto

lemma staging_of_media [simp]: "staging_of user i (d\<lparr>ud_media := m\<rparr>) = staging_of user i d"
  by (simp add: staging_of_def load_owned_session_def load_def)

lemma staging_of_torn [simp]: "staging_of user i (d\<lparr>ud_sidecar := Torn\<rparr>) = Inl NotFound"
  by (simp add: staging_of_def load_owned_session_def load_def)

lemma staging_of_received:
  assumes "ud_sidecar d = Sidecar m"
  shows "staging_of user i (d\<lparr>ud_media := x, ud_sidecar := Sidecar (m\<lparr>um_received := n\<rparr>)\<rparr>) = staging_of user i d"
    and "staging_of user i (d\<lparr>ud_media := x, ud_sidecar := Sidecar (m\<lparr>um_files := set_received j n (um_files m)\<rparr>)\<rparr>)
      = staging_of user i d"
  using assms by (simp_all add: staging_of_def load_owned_session_def load_def entry_for_index_def find_set_received
      split: option.split)

text \<open>An append adds its bytes to its file and leaves which file a request is about.\<close>

lemma patch_append_effect:
  assumes "patch_append multi i part data d = (d', n)"
  shows "content d' f = content d f @ (if f = part then data else [])"
    and "staging_of user j d' = staging_of user j d" and "n = length (content d' part)"
proof -
  have c: "content d' f = content d f @ (if f = part then data else [])" for f
    using assms by (auto simp: patch_append_def append_chunk_def append_chunk_at_def Let_def content_def append_bytes_def
        split: if_splits)
  then show "content d' f = content d f @ (if f = part then data else [])" .
  show "staging_of user j d' = staging_of user j d"
  proof (cases "ud_sidecar d")
    case (Sidecar m)
    then show ?thesis
      using assms by (cases multi)
        (auto simp: patch_append_def append_chunk_def append_chunk_at_def Let_def staging_of_received)
  qed (use assms in \<open>auto simp: patch_append_def append_chunk_def append_chunk_at_def Let_def staging_of_def
      load_owned_session_def load_def split: if_splits\<close>)
  have "n = received_bytes (ud_media d') part"
    using assms by (auto simp: patch_append_def append_chunk_def append_chunk_at_def Let_def split: if_splits)
  then show "n = length (content d' part)" by simp
qed

text \<open>What an accepted request is: its bytes fit and start where the file ends.\<close>

lemma uploads_patch_cases:
  obtains (refused) e where "uploads_patch user i off data d = (d, Inl e)"
  | (accepted) part declared d' where "staging_of user i d = Inr (part, declared)" "off = length (content d part)"
      "int off + int (length data) \<le> declared" "uploads_patch user i off data d = (d', Inr (off + length data))"
      "\<And>f. content d' f = content d f @ (if f = part then data else [])"
      "\<And>j. staging_of user j d' = staging_of user j d"
proof (cases "patch_offset user i off d")
  case (Inl e)
  then show thesis by (intro refused) (simp add: uploads_patch_def)
next
  case (Inr x)
  then obtain part declared where st: "staging_of user i d = Inr (part, declared)" "off = length (content d part)"
    and x: "x = (part, declared, off)"
    by (auto simp: patch_offset_def Let_def split: sum.splits if_splits prod.splits)
  show thesis
  proof (cases "patch_body off declared data")
    case None
    obtain d' n where p: "patch_append (is_multi d) i part data d = (d', n)" by (metis prod.exhaust)
    note e = patch_append_effect [OF p]
    show thesis
    proof (rule accepted [OF st])
      show "int off + int (length data) \<le> declared" using None by (simp add: patch_body_def split: if_splits)
      show "uploads_patch user i off data d = (d', Inr (off + length data))"
        using Inr x None p e(3) e(1) [of part] st(2) by (simp add: uploads_patch_def)
    qed (use e in auto)
  next
    case (Some e)
    then show thesis using Inr x by (intro refused) (simp add: uploads_patch_def)
  qed
qed

lemma chunk_step_cases:
  obtains (idle) "chunk_step user d ev = d"
  | (append) i off data k torn part declared where "ev = Patch i off data \<or> ev = CrashedPatch i off data k torn"
      "staging_of user i d = Inr (part, declared)" "off = length (content d part)"
      "\<And>f. content (chunk_step user d ev) f = content d f @ (if f = part then take k data else [])"
      "(\<forall>j. staging_of user j (chunk_step user d ev) = staging_of user j d)
        \<or> (\<forall>j. staging_of user j (chunk_step user d ev) = Inl NotFound)"
proof (cases ev)
  case (Patch i off data)
  show thesis
  proof (cases rule: uploads_patch_cases [of user i off data d])
    case (refused e)
    then show thesis using Patch by (intro idle) simp
  next
    case (accepted part declared d')
    show thesis
      by (rule append [of i off data "length data" False part declared]) (use Patch accepted in auto)
  qed
next
  case (CrashedPatch i off data k torn)
  show thesis
  proof (cases "patch_offset user i off d")
    case (Inl e)
    then show thesis using CrashedPatch by (intro idle) simp
  next
    case (Inr x)
    then obtain part declared where st: "staging_of user i d = Inr (part, declared)" "off = length (content d part)"
      and x: "x = (part, declared, off)"
      by (auto simp: patch_offset_def Let_def split: sum.splits if_splits prod.splits)
    show thesis
    proof (cases "patch_body off declared data")
      case None
      have "chunk_step user d ev = crash_append part (take k data) torn d"
        using CrashedPatch Inr x None by simp
      then show thesis
        by (intro append [of i off data k torn part declared])
          (use CrashedPatch st in \<open>auto simp: crash_append_def content_def append_bytes_def\<close>)
    next
      case (Some e)
      then have "chunk_step user d ev = d" using CrashedPatch Inr x by simp
      then show thesis by (rule idle)
    qed
  qed
qed


subsection \<open>Names are told apart\<close>

definition good_suffix :: "ustr \<Rightarrow> bool" where
  "good_suffix s \<longleftrightarrow> s \<noteq> [] \<and> hd s = 46 \<and> tl s \<noteq> [] \<and> 46 \<notin> set (tl s) \<and> 47 \<notin> set (tl s)"

lemma good_suffixE:
  "good_suffix s \<Longrightarrow> (\<And>t. s = 46 # t \<Longrightarrow> t \<noteq> [] \<Longrightarrow> 46 \<notin> set t \<Longrightarrow> 47 \<notin> set t \<Longrightarrow> thesis) \<Longrightarrow> thesis"
  by (cases s) (auto simp: good_suffix_def)

lemma good_allowed: "s \<in> set allowed_upload_suffixes \<Longrightarrow> good_suffix s"
proof -
  have "list_all good_suffix allowed_upload_suffixes"
    by (simp add: allowed_upload_suffixes_def video_suffixes_def audio_suffixes_def good_suffix_def lit_def)
  then show "s \<in> set allowed_upload_suffixes \<Longrightarrow> good_suffix s" by (simp add: list_all_iff)
qed

lemma decimal_digits: "c \<in> set (decimal n) \<Longrightarrow> 48 \<le> c \<and> c \<le> 57"
proof (induction n rule: decimal.induct)
  case (1 n)
  then show ?case by (subst (asm) decimal.simps) (auto split: if_splits)
qed

lemma pad3_digits: "c \<in> set (pad3 n) \<Longrightarrow> 48 \<le> c \<and> c \<le> 57"
  using decimal_digits [of c n] by (auto simp: pad3_def)

lemma undecimal_pad3: "undecimal_from 0 (pad3 n) = n"
proof -
  have z: "undecimal_from 0 (replicate k 48) = 0" for k by (induction k) auto
  show ?thesis by (simp add: pad3_def undecimal_append z undecimal_decimal)
qed

lemma pad3_no_dot: "46 \<notin> set (pad3 n)"
  using pad3_digits [of 46 n] by auto

lemma takeWhile_dot: "46 \<notin> set a \<Longrightarrow> takeWhile (\<lambda>c. c \<noteq> 46) (a @ 46 # s) = (a::ustr)"
  by (induction a) auto

lemma pad3_suffix_inject:
  assumes "good_suffix s" "good_suffix t"
  shows "pad3 i @ s @ x = pad3 j @ t @ y \<longleftrightarrow> i = j \<and> s @ x = t @ y"
proof
  assume eq: "pad3 i @ s @ x = pad3 j @ t @ y"
  obtain s' t' where st: "s = 46 # s'" "t = 46 # t'" using assms by (metis good_suffixE)
  have "takeWhile (\<lambda>c. c \<noteq> 46) (pad3 i @ s @ x) = takeWhile (\<lambda>c. c \<noteq> 46) (pad3 j @ t @ y)"
    by (simp only: eq)
  then have "pad3 i = pad3 j" using takeWhile_dot [OF pad3_no_dot] st by simp
  moreover from this have "i = j" by (metis undecimal_pad3)
  ultimately show "i = j \<and> s @ x = t @ y" using eq by simp
qed simp

lemma part_name_inject [simp]:
  "good_suffix s \<Longrightarrow> good_suffix t \<Longrightarrow> part_name i s = part_name j t \<longleftrightarrow> i = j \<and> s = t"
  using pad3_suffix_inject [of s t i "[]" j "[]"] by (simp add: part_name_def)

lemma staged_inject [simp]: "staged a = staged b \<longleftrightarrow> a = b"
  by (simp add: staged_def)

lemma staged_part_name [simp]:
  assumes "good_suffix s" "good_suffix t"
  shows "staged (part_name i s) \<noteq> part_name j t"
proof
  assume "staged (part_name i s) = part_name j t"
  then have "s @ lit ''.part'' = t"
    using pad3_suffix_inject [OF assms, of i "lit ''.part''" j "[]"] by (simp add: staged_def part_name_def)
  then show False using assms by (auto simp: lit_def elim!: good_suffixE)
qed

subsection \<open>A fresh session\<close>

lemma dict_get_Nil [simp]: "dict_get [] k = None"
  by (simp add: dict_get_def)

lemma enumerate_eq_Nil [simp]: "enumerate n xs = [] \<longleftrightarrow> xs = []"
  by (cases xs) simp_all

lemma content_touch: "dict_get (touch m f) g = (if g = f \<and> dict_get m g = None then Some [] else dict_get m g)"
  by (auto simp: touch_def exists_file_def)

lemma content_touches:
  "(\<And>f. dict_get m f = None \<or> dict_get m f = Some []) \<Longrightarrow>
   dict_get (foldl (\<lambda>m e. touch m (h e)) m es) f = None \<or> dict_get (foldl (\<lambda>m e. touch m (h e)) m es) f = Some []"
  by (induction es arbitrary: m) (simp_all add: content_touch)

lemma uploads_init_cases:
  assumes "uploads_init env user now r = Inr d"
  obtains (multi) kind options display where "ir_files r \<noteq> []" "check_files env (ir_files r) = Inr kind"
      "checked_options env user r = Inr options"
      "d = init_multi (ue_unicode env) user (ir_files r) kind options display now"
  | (single) sfx options display where "ir_files r = []" "sfx \<in> set allowed_upload_suffixes" "ir_total r > 0"
      "checked_options env user r = Inr options"
      "d = init_single user sfx (ir_total r) options display (ir_filename r) now"
proof (cases "ir_files r = []")
  case True
  then show thesis using assms
    by (auto simp: uploads_init_def Let_def split: if_splits sum.splits intro!: single)
next
  case False
  then show thesis using assms
    by (auto simp: uploads_init_def split: sum.splits intro!: multi)
qed

lemma uploads_init_content: "uploads_init env user now r = Inr d \<Longrightarrow> content d f = []"
proof (erule uploads_init_cases)
  fix kind options display
  assume "d = init_multi (ue_unicode env) user (ir_files r) kind options display now"
  then show "content d f = []"
    using content_touches [of "[]" "\<lambda>e. staged (part_name (fe_index e) (fe_suffix e))"
        "map (entry_of (ue_unicode env)) (enumerate 0 (ir_files r))" f]
    by (auto simp: content_def init_multi_def Let_def split: option.split)
next
  fix sfx options display
  assume "d = init_single user sfx (ir_total r) options display (ir_filename r) now"
  then show "content d f = []"
    by (simp add: content_def init_single_def content_touch)
qed

lemma find_entry_of:
  "find (\<lambda>e. fe_index e = i) (map (entry_of uc) (enumerate k fs)) =
     (if k \<le> i \<and> i < k + length fs then Some (entry_of uc (i, fs ! (i - k))) else None)"
proof (induction fs arbitrary: k)
  case (Cons f fs)
  consider "i \<le> k" | x where "i = Suc (k + x)" by (metis less_imp_Suc_add not_le)
  then show ?case by cases (use Cons in \<open>auto simp: entry_of_def\<close>)
qed simp

lemma check_files_good:
  assumes "check_files env fs = Inr kind" "f \<in> set fs"
  shows "good_suffix (lower_suffix (ue_unicode env) (fs_filename f)) \<and> fs_total f > 0"
proof -
  have "lower_suffix (ue_unicode env) (fs_filename f) \<in> set allowed_upload_suffixes"
    using assms by (auto simp: check_files_def classify_suffixes_def allowed_upload_suffixes_def Let_def
        filter_empty_conv split: if_splits sum.splits)
  moreover have "fs_total f > 0" using assms by (auto simp: check_files_def split: if_splits)
  ultimately show ?thesis using good_allowed by blast
qed

text \<open>A file of a fresh session has one declared size, and it is positive.\<close>

lemma uploads_init_staging:
  assumes "uploads_init env user now r = Inr d" "staging_of u1 i d = Inr (part, n)"
  shows "n > 0" and "staging_of u2 j d = Inr (part, n') \<Longrightarrow> n' = n"
proof -
  have "n > 0 \<and> (staging_of u2 j d = Inr (part, n') \<longrightarrow> n' = n)"
    using assms(1)
  proof (cases rule: uploads_init_cases)
    case (multi kind options display)
    have nth: "good_suffix (lower_suffix (ue_unicode env) (fs_filename (ir_files r ! i))) \<and> fs_total (ir_files r ! i) > 0"
      if "i < length (ir_files r)" for i
      using check_files_good [OF multi(2)] that by simp
    have st: "staging_of v i d = Inr (p, m) \<Longrightarrow> i < length (ir_files r)
        \<and> p = staged (part_name i (lower_suffix (ue_unicode env) (fs_filename (ir_files r ! i))))
        \<and> m = fs_total (ir_files r ! i)" for v i p m
      using multi(1,4)
      by (auto simp: staging_of_def load_owned_session_def load_def init_multi_def Let_def entry_for_index_def
          find_entry_of entry_of_def split: if_splits)
    show ?thesis using st [OF assms(2)] nth st [of u2 j part n'] by auto
  next
    case (single sfx options display)
    then show ?thesis using assms(2)
      by (auto simp: staging_of_def load_owned_session_def load_def init_single_def split: if_splits)
  qed
  then show "n > 0" and "staging_of u2 j d = Inr (part, n') \<Longrightarrow> n' = n" by auto
qed


subsection \<open>Chunks of one client, one after the other\<close>

text \<open>A client that sends, for each file, slices of one source.\<close>

definition slices :: "uuid \<Rightarrow> (ustr \<Rightarrow> bytes) \<Rightarrow> upload_dir \<Rightarrow> nat \<Rightarrow> nat \<Rightarrow> bytes \<Rightarrow> bool" where
  "slices user src d i off data = (case staging_of user i d of Inl e \<Rightarrow> True
     | Inr (part, n) \<Rightarrow> data = take (length data) (drop off (src part)))"

fun honest :: "uuid \<Rightarrow> (ustr \<Rightarrow> bytes) \<Rightarrow> upload_dir \<Rightarrow> chunk_event \<Rightarrow> bool" where
  "honest user src d (Patch i off data) = slices user src d i off data"
| "honest user src d (CrashedPatch i off data k torn) = slices user src d i off data"

lemma prefix_slice:
  assumes "prefix p src" "data = take (length data) (drop (length p) src)"
  shows "prefix (p @ take k data) src"
proof -
  obtain r where r: "src = p @ r" using assms(1) by (auto simp: prefix_def)
  then have "data = take (length data) r" using assms(2) by simp
  then have "take k data = take (min k (length data)) r" by (metis take_take)
  then have "prefix (take k data) r" by (simp add: take_is_prefix)
  then show ?thesis using r by simp
qed

text \<open>What every history keeps: which file a request is about (until the sidecar is lost), and how each
  file relates to its source.\<close>

definition faithful :: "uuid \<Rightarrow> (ustr \<Rightarrow> bytes) \<Rightarrow> upload_dir \<Rightarrow> upload_dir \<Rightarrow> bool" where
  "faithful user src d0 d \<longleftrightarrow>
     ((\<forall>i. staging_of user i d = staging_of user i d0) \<or> (\<forall>i. staging_of user i d = Inl NotFound))
   \<and> (\<forall>f. prefix (content d f) (src f))
   \<and> (\<forall>i part n. staging_of user i d0 = Inr (part, n) \<longrightarrow> int (length (content d part)) \<le> n)"

lemma faithfulD:
  assumes "faithful user src d0 d" "staging_of user i d = Inr (part, n)"
  shows "staging_of user i d0 = Inr (part, n)" "prefix (content d f) (src f)" "int (length (content d part)) \<le> n"
    "staging_of user j d = staging_of user j d0"
  using assms by (auto simp: faithful_def)

lemma chunk_step_fits:
  assumes "chunk_step user d ev \<noteq> d" "staging_of user i d = Inr (part, n)"
    "\<And>j n'. staging_of user j d = Inr (part, n') \<Longrightarrow> n' = n" "int (length (content d part)) \<le> n"
  shows "int (length (content (chunk_step user d ev) part)) \<le> n"
proof (cases ev)
  case (Patch j off data)
  show ?thesis
  proof (cases rule: uploads_patch_cases [of user j off data d])
    case (accepted part' declared d')
    have "declared = n" if "part' = part" using assms(3) accepted(1) that by blast
    then show ?thesis using Patch accepted(2-5) assms(4) by (cases "part' = part") simp_all
  next
    case (refused e)
    then show ?thesis using Patch assms(1) by simp
  qed
next
  case (CrashedPatch j off data k torn)
  then obtain part' declared where st: "staging_of user j d = Inr (part', declared)" "off = length (content d part')"
      "patch_body off declared data = None" "chunk_step user d ev = crash_append part' (take k data) torn d"
    using assms(1) by (auto simp: patch_offset_def Let_def split: sum.splits if_splits prod.splits)
  have "int off + int (length data) \<le> declared" using st(3) by (simp add: patch_body_def split: if_splits)
  moreover have "declared = n" if "part' = part" using assms(3) st(1) that by blast
  moreover have "content (chunk_step user d ev) part = content d part @ (if part = part' then take k data else [])"
    unfolding st(4) by (simp add: crash_append_def content_def append_bytes_def)
  ultimately show ?thesis using st(2) assms(4) by (cases "part' = part") simp_all
qed

lemma faithful_step:
  assumes init: "uploads_init env owner now r = Inr d0" and inv: "faithful user src d0 d" and ev: "honest user src d0 ev"
  shows "faithful user src d0 (chunk_step user d ev)"
proof (cases rule: chunk_step_cases [of user d ev])
  case idle
  then show ?thesis using inv by simp
next
  case (append i off data k torn part declared)
  let ?d = "chunk_step user d ev"
  note st = faithfulD [OF inv append(2)]
  have sl: "data = take (length data) (drop off (src part))"
    using ev append(1) st(1) by (auto simp: slices_def)
  have "prefix (content ?d f) (src f)" for f
    using st(2) [of f] prefix_slice [of "content d part" "src part" data k] sl append(3) append(4) [of f] st(2) [of part]
    by auto
  moreover have "int (length (content ?d p)) \<le> n" if "staging_of user j d0 = Inr (p, n)" for j p n
  proof (cases "?d = d")
    case True
    then show ?thesis using inv that by (auto simp: faithful_def)
  next
    case False
    show ?thesis
    proof (rule chunk_step_fits [OF False])
      show "staging_of user j d = Inr (p, n)" using that st(4) by simp
      show "\<And>j n'. staging_of user j d = Inr (p, n') \<Longrightarrow> n' = n"
        using uploads_init_staging(2) [OF init that] st(4) by simp
      show "int (length (content d p)) \<le> n" using inv that by (auto simp: faithful_def)
    qed
  qed
  moreover have "(\<forall>j. staging_of user j ?d = staging_of user j d0) \<or> (\<forall>j. staging_of user j ?d = Inl NotFound)"
    using append(5) st(4) by auto
  ultimately show ?thesis by (simp add: faithful_def)
qed

lemma faithful_run:
  assumes "uploads_init env owner now r = Inr d0" "list_all (honest user src d0) evs"
  shows "faithful user src d0 (foldl (chunk_step user) d0 evs)"
proof -
  have "faithful user src d0 (foldl (chunk_step user) d evs)" if "faithful user src d0 d" for d
    using assms(2) that by (induction evs arbitrary: d) (auto intro: faithful_step [OF assms(1)])
  moreover have "faithful user src d0 d0"
    using uploads_init_content [OF assms(1)] uploads_init_staging(1) [OF assms(1)]
    by (force simp: faithful_def)
  ultimately show ?thesis by blast
qed

text \<open>A crash that tears the sidecar is the only event that makes it unreadable.\<close>

fun tears :: "chunk_event \<Rightarrow> bool" where
  "tears (Patch i off data) = False"
| "tears (CrashedPatch i off data k torn) = torn"

lemma chunk_step_untorn: "\<not> tears ev \<Longrightarrow> staging_of user j (chunk_step user d ev) = staging_of user j d"
proof (cases ev)
  case (Patch i off data)
  then show ?thesis by (cases rule: uploads_patch_cases [of user i off data d]) simp_all
qed (auto simp: crash_append_def split: sum.split prod.split)

lemma chunk_run_untorn:
  "list_all (\<lambda>ev. \<not> tears ev) evs \<Longrightarrow> staging_of user j (foldl (chunk_step user) d evs) = staging_of user j d"
  by (induction evs arbitrary: d) (simp_all add: chunk_step_untorn)

lemma lost_session:
  assumes "\<forall>j. staging_of user j d = Inl NotFound"
  shows "uploads_offset user j d = Inl NotFound" and "uploads_patch user j off data d = (d, Inl NotFound)"
  using assms by (simp_all add: uploads_offset_def uploads_patch_def patch_offset_def)

text \<open>(C37) In a session built by requests that send slices of one source, any of which may die in the middle
  of its append, each staged file is a prefix of its source, never longer than declared, and when it has
  the declared length it is the source. The session is resumable, the server reporting the length of the
  file as its offset, unless a crash tore the sidecar; then every later request is answered not found and
  changes nothing. As long as no crash tears the sidecar, the first case holds.
\<close>

theorem honest_chunks_build_source:
  assumes "uploads_init env owner now r = Inr d0" "staging_of user i d0 = Inr (part, n)"
    and "list_all (honest user src d0) evs" and "d = foldl (chunk_step user) d0 evs"
  shows "prefix (content d part) (src part) \<and> int (length (content d part)) \<le> n
    \<and> (int (length (content d part)) = n \<and> int (length (src part)) = n \<longrightarrow> content d part = src part)
    \<and> (uploads_offset user i d = Inr (length (content d part), n)
       \<or> (\<forall>j off data. uploads_offset user j d = Inl NotFound \<and> uploads_patch user j off data d = (d, Inl NotFound)))
    \<and> (list_all (\<lambda>ev. \<not> tears ev) evs \<longrightarrow> uploads_offset user i d = Inr (length (content d part), n))"
proof -
  have f: "faithful user src d0 d" using faithful_run [OF assms(1,3)] assms(4) by simp
  have p: "prefix (content d part) (src part)" using f by (simp add: faithful_def)
  moreover have "int (length (content d part)) \<le> n" using f assms(2) unfolding faithful_def by blast
  moreover have "content d part = src part" if "int (length (content d part)) = n" "int (length (src part)) = n"
    using p that by (auto simp: prefix_def)
  moreover have "uploads_offset user i d = Inr (length (content d part), n)" if "staging_of user i d = staging_of user i d0"
    using that assms(2) by (simp add: uploads_offset_def)
  moreover have "(\<forall>j. staging_of user j d = staging_of user j d0) \<or> (\<forall>j. staging_of user j d = Inl NotFound)"
    using f by (simp add: faithful_def)
  ultimately show ?thesis using chunk_run_untorn [of evs user i d0] lost_session [of user d] assms(4) by blast
qed

text \<open>The client: ask for the offset, send the next chunk.\<close>

fun send_rest :: "uuid \<Rightarrow> nat \<Rightarrow> nat \<Rightarrow> bytes \<Rightarrow> nat \<Rightarrow> upload_dir \<Rightarrow> upload_dir" where
  "send_rest user i c s 0 d = d"
| "send_rest user i c s (Suc k) d = (case uploads_offset user i d of Inl e \<Rightarrow> d
     | Inr (n, declared) \<Rightarrow> send_rest user i c s k (fst (uploads_patch user i n (take c (drop n s)) d)))"

lemma send_rest_completes:
  assumes "staging_of user i d = Inr (part, int (length s))" "prefix (content d part) s" "0 < c"
    "length s \<le> length (content d part) + k * c"
  shows "content (send_rest user i c s k d) part = s"
  using assms
proof (induction k arbitrary: d)
  case 0
  then show ?case by (auto simp: prefix_def)
next
  case (Suc k)
  let ?n = "length (content d part)" let ?data = "take c (drop ?n s)"
  obtain x where s: "s = content d part @ x" using Suc.prems(2) by (auto simp: prefix_def)
  have off: "uploads_offset user i d = Inr (?n, int (length s))" using Suc.prems(1) by (simp add: uploads_offset_def)
  have ok: "patch_offset user i ?n d = Inr (part, int (length s), ?n)" "patch_body ?n (int (length s)) ?data = None"
    using Suc.prems(1) s by (auto simp: patch_offset_def patch_body_def)
  show ?case
  proof (cases rule: uploads_patch_cases [of user i ?n ?data d])
    case (refused e)
    then show ?thesis using ok by (simp add: uploads_patch_def split: prod.splits)
  next
    case (accepted part' declared d')
    then have p: "part' = part" using Suc.prems(1) by simp
    have c: "content d' part = content d part @ take c x" using accepted(5) p s
      by (metis append_eq_conv_conj)
    have "content (send_rest user i c s k d') part = s"
    proof (rule Suc.IH)
      show "staging_of user i d' = Inr (part, int (length s))" using accepted(6) Suc.prems(1) by simp
      show "prefix (content d' part) s" unfolding c using s by (metis append.assoc append_take_drop_id prefixI)
      show "length s \<le> length (content d' part) + k * c" unfolding c using Suc.prems(4) s
        by (cases "length x \<le> c") (auto simp: algebra_simps)
    qed (fact Suc.prems(3))
    then show ?thesis using off accepted(4) by simp
  qed
qed

text \<open>(C38) After any such history, as long as the sidecar can be read, a client that asks for the offset and
  sends the next chunk completes the file with its source, in as many requests as the rest has chunks.
\<close>

theorem resumed_upload_completes:
  assumes "uploads_init env owner now r = Inr d0" "list_all (honest user src d0) evs"
    and "d = foldl (chunk_step user) d0 evs" "staging_of user i d = Inr (part, int (length (src part)))"
    and "0 < c" "length (src part) \<le> length (content d part) + k * c"
  shows "content (send_rest user i c (src part) k d) part = src part"
proof -
  have "faithful user src d0 d" using faithful_run [OF assms(1,2)] assms(3) by simp
  from faithfulD(2) [OF this assms(4)] show ?thesis
    using assms(4-6) by (intro send_rest_completes)
qed

subsection \<open>Two requests at once\<close>

text \<open>Files only grow.\<close>

lemma chunk_step_grows: "prefix (content d f) (content (chunk_step user d ev) f)"
  by (cases rule: chunk_step_cases [of user d ev]) auto

lemma chunk_run_grows: "prefix (content d f) (content (foldl (chunk_step user) d evs) f)"
  by (induction evs arbitrary: d) (auto intro: prefix_order.trans chunk_step_grows)

text \<open>The check of the offset and the append are not one step. When the same chunk arrives twice at
  once (a client that timed out and retried), both requests pass the checks and both append: unless the
  file repeats itself there, no later requests can ever make it the source; and if the two together
  exceed the declared size, every later request for it is refused and it never gets complete.
\<close>

theorem racing_chunks_corrupt:
  assumes "patch_offset user i off d = Inr (part, declared, current)" "patch_body current declared data = None"
    and "patch_append multi i part data d = (d1, n1)" "patch_append multi i part data d1 = (d2, n2)"
    and "d3 = foldl (chunk_step user) d2 evs"
  shows "prefix (content d part @ data @ data) (content d3 part)
    \<and> (\<not> prefix (content d part @ data @ data) s \<longrightarrow> content d3 part \<noteq> s)
    \<and> (declared < int (length (content d part @ data @ data)) \<longrightarrow>
         int (received_bytes (ud_media d3) part) \<noteq> declared
       \<and> (\<exists>e. uploads_patch user i off' data' d3 = (d3, Inl e)))"
proof -
  have c2: "content d2 part = content d part @ data @ data"
    using patch_append_effect(1) [OF assms(3)] patch_append_effect(1) [OF assms(4)] by simp
  have g: "prefix (content d part @ data @ data) (content d3 part)"
    using chunk_run_grows [of d2 part user evs] c2 assms(5) by simp
  moreover have "\<exists>e. uploads_patch user i off' data' d3 = (d3, Inl e)"
    if "declared < int (length (content d part @ data @ data))"
  proof -
    have st: "staging_of user i d2 = Inr (part, declared)"
      using patch_append_effect(2) [OF assms(3)] patch_append_effect(2) [OF assms(4)] assms(1)
      by (auto simp: patch_offset_def Let_def split: sum.splits prod.splits if_splits)
    have st3: "(\<forall>j. staging_of user j (foldl (chunk_step user) x evs) = staging_of user j x)
        \<or> (\<forall>j. staging_of user j (foldl (chunk_step user) x evs) = Inl NotFound)" for x
    proof (induction evs arbitrary: x)
      case (Cons ev evs)
      have "(\<forall>j. staging_of user j (chunk_step user x ev) = staging_of user j x)
        \<or> (\<forall>j. staging_of user j (chunk_step user x ev) = Inl NotFound)"
        by (cases rule: chunk_step_cases [of user x ev]) auto
      then show ?case using Cons [of "chunk_step user x ev"] by auto
    qed simp
    have len: "declared < int (length (content d3 part))" using that prefix_length_le [OF g] by linarith
    show ?thesis
    proof (cases rule: uploads_patch_cases [of user i off' data' d3])
      case (accepted p dcl d')
      then show ?thesis using st3 [of d2] st assms(5) len by auto
    qed auto
  qed
  moreover have "int (received_bytes (ud_media d3) part) \<noteq> declared"
    if "declared < int (length (content d part @ data @ data))"
    using that prefix_length_le [OF g] by simp
  ultimately show ?thesis by blast
qed

subsection \<open>Witnesses\<close>

definition demo_env :: upload_env where
  "demo_env = \<lparr>ue_unicode = ascii_tables, ue_repr = (\<lambda>v. []), ue_loads = (\<lambda>s. None), ue_uuid = (\<lambda>s. None),
     ue_uuid_str = decimal, ue_registry = [], ue_targets = [], ue_max_files = 10, ue_max_bytes = 100\<rparr>"

definition demo_request :: init_request where
  "demo_request = \<lparr>ir_filename = lit ''a.mp4'', ir_total = 3, ir_language = None, ir_transcript = True,
     ir_diarize = False, ir_prompts = None, ir_delivery = None, ir_display = None, ir_files = []\<rparr>"

definition demo_dir :: upload_dir where
  "demo_dir = projr (uploads_init demo_env 1 0 demo_request)"

definition demo_part :: ustr where
  "demo_part = staged (media_name (lit ''.mp4''))"

lemma demo_dir: "uploads_init demo_env 1 0 demo_request = Inr demo_dir"
proof -
  have "\<not> isl (uploads_init demo_env 1 0 demo_request)" by code_simp
  then show ?thesis by (simp add: demo_dir_def)
qed

theorem honest_chunks_build_source_witness:
  "uploads_offset 1 0 (foldl (chunk_step 1) demo_dir [Patch 0 0 [7], CrashedPatch 0 1 [8, 9] 1 False])
     = Inr (length (content (foldl (chunk_step 1) demo_dir [Patch 0 0 [7], CrashedPatch 0 1 [8, 9] 1 False]) demo_part), 3)
   \<and> prefix (content (foldl (chunk_step 1) demo_dir [Patch 0 0 [7], CrashedPatch 0 1 [8, 9] 1 True]) demo_part) [7, 8, 9]"
proof -
  have h: "list_all (honest 1 (\<lambda>f. [7, 8, 9]) demo_dir) [Patch 0 0 [7], CrashedPatch 0 1 [8, 9] 1 False]"
    "list_all (honest 1 (\<lambda>f. [7, 8, 9]) demo_dir) [Patch 0 0 [7], CrashedPatch 0 1 [8, 9] 1 True]" by code_simp+
  have st: "staging_of 1 0 demo_dir = Inr (demo_part, 3)" by code_simp
  show ?thesis
    using honest_chunks_build_source [OF demo_dir st h(1) refl] honest_chunks_build_source [OF demo_dir st h(2) refl] by simp
qed

theorem resumed_upload_completes_witness:
  "content (send_rest 1 0 1 [7, 8, 9] 1
     (foldl (chunk_step 1) demo_dir [Patch 0 0 [7], CrashedPatch 0 1 [8, 9] 1 False])) demo_part = [7, 8, 9]"
proof -
  have "list_all (honest 1 (\<lambda>f. [7, 8, 9]) demo_dir) [Patch 0 0 [7], CrashedPatch 0 1 [8, 9] 1 False]" by code_simp
  moreover have "staging_of 1 0 (foldl (chunk_step 1) demo_dir [Patch 0 0 [7], CrashedPatch 0 1 [8, 9] 1 False])
     = Inr (demo_part, int (length [7::8 word, 8, 9]))" by code_simp
  moreover have "length [7::8 word, 8, 9] \<le> length (content (foldl (chunk_step 1) demo_dir
     [Patch 0 0 [7], CrashedPatch 0 1 [8, 9] 1 False]) demo_part) + 1 * 1" by code_simp
  ultimately show ?thesis by (intro resumed_upload_completes [OF demo_dir _ refl]) simp_all
qed

theorem racing_chunks_corrupt_witness:
  "\<exists>d2. int (received_bytes (ud_media d2) demo_part) \<noteq> 3
      \<and> (\<exists>e. uploads_patch 1 0 4 [9] d2 = (d2, Inl e))"
proof -
  let ?d1 = "fst (patch_append False 0 demo_part [7, 8] demo_dir)"
  let ?d2 = "fst (patch_append False 0 demo_part [7, 8] ?d1)"
  have "patch_offset 1 0 0 demo_dir = Inr (demo_part, 3, 0)" by code_simp
  moreover have "patch_body 0 3 [7, 8] = None" by code_simp
  moreover have "3 < int (length (content demo_dir demo_part @ [7::8 word, 8] @ [7, 8]))" by code_simp
  ultimately have "int (received_bytes (ud_media ?d2) demo_part) \<noteq> 3
      \<and> (\<exists>e. uploads_patch 1 0 4 [9] ?d2 = (?d2, Inl e))"
    using racing_chunks_corrupt [of 1 0 0 demo_dir demo_part 3 0 "[7, 8]" False ?d1
        "snd (patch_append False 0 demo_part [7, 8] demo_dir)" ?d2
        "snd (patch_append False 0 demo_part [7, 8] ?d1)" ?d2 "[]"] by simp
  then show ?thesis by blast
qed

section \<open>The sweep of abandoned sessions\<close>

text \<open>The directories under the artifacts root, by user hash and name. Instants are microseconds.\<close>

type_synonym artifacts = "((ustr \<times> ustr) \<times> upload_dir) list"

definition stale :: "instant \<Rightarrow> int \<Rightarrow> upload_dir \<Rightarrow> bool" where
  "stale now ttl d = (case load d of None \<Rightarrow> False | Some m \<Rightarrow>
     (case um_created m of None \<Rightarrow> False | Some created \<Rightarrow> \<not> now - created < ttl * 1000000))"

definition scan_one ::
  "(ustr \<Rightarrow> uuid option) \<Rightarrow> instant \<Rightarrow> int \<Rightarrow> (uuid \<times> ustr \<times> ustr) list \<Rightarrow> (ustr \<times> ustr) \<times> upload_dir
     \<Rightarrow> (uuid \<times> ustr \<times> ustr) list" where
  "scan_one parse_uuid now ttl found x = (case x of (path, d) \<Rightarrow>
     (case parse_uuid (snd path) of None \<Rightarrow> found
      | Some i \<Rightarrow> if stale now ttl d then dict_set found i path else found))"

definition find_abandoned_sessions ::
  "(ustr \<Rightarrow> uuid option) \<Rightarrow> instant \<Rightarrow> int \<Rightarrow> artifacts \<Rightarrow> (uuid \<times> ustr \<times> ustr) list" where
  "find_abandoned_sessions parse_uuid now ttl arts = foldl (scan_one parse_uuid now ttl) [] arts"

text \<open>One candidate: the Task row, the sidecar again, then \<open>rmtree\<close>, which may fail.\<close>

definition delete_one ::
  "(uuid \<Rightarrow> bool) \<Rightarrow> (ustr \<times> ustr \<Rightarrow> bool) \<Rightarrow> artifacts \<times> uuid list \<Rightarrow> uuid \<times> ustr \<times> ustr \<Rightarrow> artifacts \<times> uuid list" where
  "delete_one has_task fails s x = (case (s, x) of ((arts, removed), (i, path)) \<Rightarrow>
     if has_task i then (arts, removed)
     else (case dict_get arts path of None \<Rightarrow> (arts, removed)
       | Some d \<Rightarrow> if ud_sidecar d = NoSidecar \<or> fails path then (arts, removed)
           else (dict_del arts path, removed @ [i])))"

definition delete_abandoned_sessions ::
  "(uuid \<Rightarrow> bool) \<Rightarrow> (ustr \<times> ustr \<Rightarrow> bool) \<Rightarrow> (uuid \<times> ustr \<times> ustr) list \<Rightarrow> artifacts \<Rightarrow> artifacts \<times> uuid list" where
  "delete_abandoned_sessions has_task fails candidates arts = foldl (delete_one has_task fails) (arts, []) candidates"

definition upload_gc_tick ::
  "(ustr \<Rightarrow> uuid option) \<Rightarrow> instant \<Rightarrow> int \<Rightarrow> (ustr \<times> ustr \<Rightarrow> bool) \<Rightarrow> task_db \<Rightarrow> artifacts \<Rightarrow> artifacts \<times> uuid list" where
  "upload_gc_tick parse_uuid now ttl fails db arts =
     (let candidates = find_abandoned_sessions parse_uuid now ttl arts in
      if candidates = [] then (arts, [])
      else (let live = task_ids_in (map fst candidates) db
            in delete_abandoned_sessions (\<lambda>i. i \<in> set live) fails candidates arts))"

text \<open>No two directories are named by the same id.\<close>

definition ids_unique :: "(ustr \<Rightarrow> uuid option) \<Rightarrow> artifacts \<Rightarrow> bool" where
  "ids_unique parse_uuid arts \<longleftrightarrow> (\<forall>x\<in>set arts. \<forall>y\<in>set arts.
     parse_uuid (snd (fst x)) \<noteq> None \<and> parse_uuid (snd (fst x)) = parse_uuid (snd (fst y)) \<longrightarrow> fst x = fst y)"

lemma find_member: "find P xs = Some x \<Longrightarrow> x \<in> set xs \<and> P x"
  by (induction xs) (auto split: if_splits)

lemma find_exists: "x \<in> set xs \<Longrightarrow> P x \<Longrightarrow> \<exists>y. find P xs = Some y"
  by (induction xs) auto

lemma scan_one_pair: "scan_one pu now ttl found (p, d) = (case pu (snd p) of None \<Rightarrow> found
    | Some i \<Rightarrow> if stale now ttl d then dict_set found i p else found)"
  by (simp add: scan_one_def)

lemma ids_uniqueD:
  "ids_unique pu arts \<Longrightarrow> x \<in> set arts \<Longrightarrow> y \<in> set arts \<Longrightarrow> pu (snd (fst x)) = Some i \<Longrightarrow> pu (snd (fst y)) = Some i
     \<Longrightarrow> fst x = fst y"
  unfolding ids_unique_def by (metis option.distinct(1))

lemma ids_unique_Cons: "ids_unique pu (x # arts) \<Longrightarrow> ids_unique pu arts"
  unfolding ids_unique_def by (meson list.set_intros(2))

lemma scan_get:
  assumes "ids_unique pu arts" "distinct (map fst arts)"
  shows "dict_get (foldl (scan_one pu now ttl) found arts) i =
     (case find (\<lambda>x. pu (snd (fst x)) = Some i \<and> stale now ttl (snd x)) arts of
        Some x \<Rightarrow> Some (fst x) | None \<Rightarrow> dict_get found i)"
  using assms
proof (induction arts arbitrary: found)
  case (Cons x arts)
  obtain p d where x: "x = (p, d)" by (metis prod.exhaust)
  have IH: "dict_get (foldl (scan_one pu now ttl) g arts) i =
     (case find (\<lambda>x. pu (snd (fst x)) = Some i \<and> stale now ttl (snd x)) arts of
        Some x \<Rightarrow> Some (fst x) | None \<Rightarrow> dict_get g i)" for g
    by (rule Cons.IH [OF ids_unique_Cons]) (use Cons.prems in auto)
  show ?case
  proof (cases "pu (snd p) = Some i \<and> stale now ttl d")
    case True
    have "fst y = p" if "y \<in> set arts" "pu (snd (fst y)) = Some i" for y
      using ids_uniqueD [OF Cons.prems(1), of y x i] that True x by simp
    then have "find (\<lambda>x. pu (snd (fst x)) = Some i \<and> stale now ttl (snd x)) arts = None"
      using Cons.prems(2) x by (force simp: find_None_iff)
    then show ?thesis using True x IH by (simp add: scan_one_pair)
  next
    case False
    then show ?thesis using x IH by (auto simp: scan_one_pair split: option.split)
  qed
qed simp

lemma distinct_scan: "distinct (map fst found) \<Longrightarrow> distinct (map fst (foldl (scan_one pu now ttl) found arts))"
  by (induction arts arbitrary: found) (auto simp: scan_one_def distinct_dict_set split: option.split)

lemma delete_get:
  "dict_get (fst (foldl (delete_one live fails) (arts, r) cs)) path =
     (if \<exists>i d. (i, path) \<in> set cs \<and> \<not> live i \<and> dict_get arts path = Some d \<and> ud_sidecar d \<noteq> NoSidecar \<and> \<not> fails path
      then None else dict_get arts path)"
proof (induction cs arbitrary: arts r)
  case (Cons c cs)
  obtain i p where c: "c = (i, p)" by (metis prod.exhaust)
  obtain arts' r' where s: "delete_one live fails (arts, r) c = (arts', r')" by (metis prod.exhaust)
  have "dict_get arts' q = (if q = p \<and> \<not> live i \<and> \<not> fails p \<and> (\<exists>d. dict_get arts p = Some d \<and> ud_sidecar d \<noteq> NoSidecar)
      then None else dict_get arts q)" for q
    using s c by (auto simp: delete_one_def split: if_splits option.splits)
  then show ?case using Cons.IH [of arts' r'] s c by auto
qed simp

text \<open>An undisturbed sweep removes exactly the directories that are named by an id without a Task row and
  hold a readable sidecar of at least the configured age (unless the removal fails); every other
  directory stays as it is.
\<close>

theorem sweep_removes_exactly_abandoned:
  assumes "distinct (map fst arts)"
    and "ids_unique pu arts"
  shows "dict_get (fst (upload_gc_tick pu now ttl fails db arts)) path =
     (if \<exists>i d. pu (snd path) = Some i \<and> dict_get arts path = Some d \<and> stale now ttl d
           \<and> find_task db i = None \<and> \<not> fails path
      then None else dict_get arts path)"
proof -
  let ?cs = "find_abandoned_sessions pu now ttl arts"
  have mem: "(i, path) \<in> set ?cs \<longleftrightarrow> (\<exists>d. pu (snd path) = Some i \<and> dict_get arts path = Some d \<and> stale now ttl d)" for i
  proof -
    have "distinct (map fst ?cs)" by (simp add: find_abandoned_sessions_def distinct_scan)
    then have "(i, path) \<in> set ?cs \<longleftrightarrow> dict_get ?cs i = Some path" by (simp add: dict_get_def)
    also have "\<dots> \<longleftrightarrow> (\<exists>x. find (\<lambda>x. pu (snd (fst x)) = Some i \<and> stale now ttl (snd x)) arts = Some x \<and> fst x = path)"
      using scan_get [OF assms(2,1), of now ttl "[]" i]
      by (cases "find (\<lambda>x. pu (snd (fst x)) = Some i \<and> stale now ttl (snd x)) arts")
        (simp_all add: find_abandoned_sessions_def)
    also have "\<dots> \<longleftrightarrow> (\<exists>d. pu (snd path) = Some i \<and> (path, d) \<in> set arts \<and> stale now ttl d)"
    proof
      assume "\<exists>d. pu (snd path) = Some i \<and> (path, d) \<in> set arts \<and> stale now ttl d"
      then obtain d where d: "pu (snd path) = Some i" "(path, d) \<in> set arts" "stale now ttl d" by blast
      then obtain x where x: "find (\<lambda>x. pu (snd (fst x)) = Some i \<and> stale now ttl (snd x)) arts = Some x"
        using find_exists [of "(path, d)" arts "\<lambda>x. pu (snd (fst x)) = Some i \<and> stale now ttl (snd x)"] by auto
      then have "x \<in> set arts" "pu (snd (fst x)) = Some i" by (auto dest: find_member)
      then have "fst x = path" using ids_uniqueD [OF assms(2), of x "(path, d)" i] d by simp
      then show "\<exists>x. find (\<lambda>x. pu (snd (fst x)) = Some i \<and> stale now ttl (snd x)) arts = Some x \<and> fst x = path"
        using x by blast
    next
      assume "\<exists>x. find (\<lambda>x. pu (snd (fst x)) = Some i \<and> stale now ttl (snd x)) arts = Some x \<and> fst x = path"
      then obtain x where x: "find (\<lambda>x. pu (snd (fst x)) = Some i \<and> stale now ttl (snd x)) arts = Some x" "fst x = path"
        by blast
      then have "(path, snd x) \<in> set arts" "pu (snd path) = Some i" "stale now ttl (snd x)"
        using find_member [OF x(1)] by (metis prod.collapse, simp_all)
      then show "\<exists>d. pu (snd path) = Some i \<and> (path, d) \<in> set arts \<and> stale now ttl d"
        by blast
    qed
    also have "\<dots> \<longleftrightarrow> (\<exists>d. pu (snd path) = Some i \<and> dict_get arts path = Some d \<and> stale now ttl d)"
      using assms(1) by (simp add: dict_get_def)
    finally show ?thesis .
  qed
  have live: "i \<in> set (task_ids_in (map fst ?cs) db) \<longleftrightarrow> find_task db i \<noteq> None" if "(i, path) \<in> set ?cs" for i
  proof -
    have "i \<in> set (map fst ?cs)" using that by force
    then have "i \<in> set (task_ids_in (map fst ?cs) db) \<longleftrightarrow> (\<exists>t\<in>set (db_tasks db). t_id t = i)"
      by (auto simp: task_ids_in_def)
    then show ?thesis by (auto simp: find_task_def find_None_iff)
  qed
  have side: "stale now ttl d \<Longrightarrow> ud_sidecar d \<noteq> NoSidecar" for d
    by (auto simp: stale_def load_def)
  have "fst (upload_gc_tick pu now ttl fails db arts) = fst (foldl (delete_one (\<lambda>i. i \<in> set (task_ids_in (map fst ?cs) db)) fails) (arts, []) ?cs)"
    by (simp add: upload_gc_tick_def Let_def delete_abandoned_sessions_def)
  then show ?thesis using delete_get [of "\<lambda>i. i \<in> set (task_ids_in (map fst ?cs) db)" fails arts "[]" ?cs path]
      mem live side by auto
qed


theorem sweep_removes_exactly_abandoned_witness:
  "dict_get (fst (upload_gc_tick (\<lambda>s. if s = [49] then Some 1 else None) 86400000000 86400 (\<lambda>p. False)
     \<lparr>db_tasks = [], db_asr = []\<rparr> [(([], [49]), demo_dir), (([], [50]), demo_dir)])) ([], [49]) = None"
proof -
  let ?pu = "\<lambda>s::ustr. if s = [49] then Some (1::uuid) else None"
  let ?arts = "[(([]::ustr, [49]::ustr), demo_dir), (([], [50]), demo_dir)]"
  have "distinct (map fst ?arts)" "ids_unique ?pu ?arts" by (simp_all add: ids_unique_def)
  moreover have "stale 86400000000 86400 demo_dir" by code_simp
  moreover have "find_task \<lparr>db_tasks = [], db_asr = []\<rparr> 1 = None" by (simp add: find_task_def)
  ultimately show ?thesis by (subst sweep_removes_exactly_abandoned) (simp_all add: dict_get_def)
qed

end
