(* ===== verification/Upload_Finalize.thy ===== *)
theory Upload_Finalize
  imports Upload_Session
begin

text \<open>
  \<open>uploads_finalize\<close> of \<open>vts/api/routers/uploads.py\<close>: a complete session becomes a task, with its parts
  named in the order they are heard in.

  The handler acts on the disk and the database in single steps (a rename, the write of the sidecar, the
  commit, the unlink), and the process may die between any two of them. \<open>finalize_plan\<close> is the list of
  the steps one call performs, with its answer; a call that dies performs the first \<open>k\<close> of them
  (\<open>crash_after\<close>). Calls for one upload are serialised by the advisory lock.

  Each step is atomic here. The rename, the commit and the unlink are; the write of the resolved order is
  not: \<open>_persist_resolved_order\<close> rewrites \<open>upload.json\<close> in place, and a process that dies inside it leaves
  a torn sidecar, after which every request for the session answers 404, as \<open>Upload_Session\<close> models it for
  the sidecar's rewrite after a chunk. And the unlink of the sidecar always succeeds here, where the
  handler ignores an \<open>OSError\<close> of it: the task exists by then, and the sidecar would stay behind.

  The probe of a file's bytes, the digit tables, the reader of time stamps, the clock and the task
  directory are arguments.
\<close>

section \<open>Steps\<close>

record upload_state =
  us_dir :: upload_dir
  us_db :: task_db

datatype effect =
    Move ustr ustr
  | Persist "set_entry list \<times> string"
  | CommitTask uuid uuid ustr json "ustr option"
  | RemoveSidecar

record finalize_env =
  fz_unicode :: unicode
  fz_digits :: digit_tables
  fz_stamp :: "ustr \<Rightarrow> instant option"
  fz_probe :: "bytes \<Rightarrow> media_probe option"
  fz_now :: instant
  fz_dir :: ustr

text \<open>What a step does: a rename of the plan is done if its source exists; the resolved order is written into a
  readable sidecar, in one piece; the task is inserted; the sidecar is unlinked.\<close>

fun apply_effect :: "finalize_env \<Rightarrow> upload_state \<Rightarrow> effect \<Rightarrow> upload_state" where
  "apply_effect env st (Move f g) = st\<lparr>us_dir := (us_dir st)\<lparr>ud_media := rename_file (ud_media (us_dir st)) f g\<rparr>\<rparr>"
| "apply_effect env st (Persist r) = st\<lparr>us_dir := (us_dir st)\<lparr>ud_sidecar := (case ud_sidecar (us_dir st) of
     Sidecar m \<Rightarrow> Sidecar (m\<lparr>um_resolved := Some r\<rparr>) | s \<Rightarrow> s)\<rparr>\<rparr>"
| "apply_effect env st (CommitTask i user url options title) =
     st\<lparr>us_db := create_task (fz_now env) i user url options (fz_dir env) title (us_db st)\<rparr>"
| "apply_effect env st RemoveSidecar = st\<lparr>us_dir := (us_dir st)\<lparr>ud_sidecar := NoSidecar\<rparr>\<rparr>"

definition run_effects :: "finalize_env \<Rightarrow> upload_state \<Rightarrow> effect list \<Rightarrow> upload_state" where
  "run_effects env st es = foldl (apply_effect env) st es"

type_synonym moves = "(ustr \<times> ustr) list"

definition do_moves :: "media \<Rightarrow> moves \<Rightarrow> media" where
  "do_moves m ms = foldl (\<lambda>m p. rename_file m (fst p) (snd p)) m ms"

definition move_effects :: "moves \<Rightarrow> effect list" where
  "move_effects ms = map (\<lambda>p. Move (fst p) (snd p)) ms"

section \<open>Renames\<close>

definition ordered_name :: "nat \<Rightarrow> ustr \<Rightarrow> ustr" where
  "ordered_name p sfx = lit ''ordered.'' @ pad3 p @ sfx"

text \<open>\<open>int(stray.stem.split(".")[1])\<close>, for ASCII digits; \<open>None\<close> is the error.\<close>

definition stray_position :: "ustr \<Rightarrow> nat option" where
  "stray_position f =
     (let stem = take (length f - length (path_suffix f)) f;
          piece = takeWhile (\<lambda>c. c \<noteq> 46) (drop 1 (dropWhile (\<lambda>c. c \<noteq> 46) stem))
      in if piece \<noteq> [] \<and> list_all (\<lambda>c. 48 \<le> c \<and> c \<le> 57) piece then Some (undecimal_from 0 piece) else None)"

definition strays :: "media \<Rightarrow> ustr list" where
  "strays m = sort (filter (\<lambda>f. starts_with (lit ''ordered.'') f) (remdups (map fst m)))"

text \<open>\<open>_finish_interrupted_reorder\<close>: the renames, and whether it went through.\<close>

fun recovery_moves :: "ustr list \<Rightarrow> moves \<times> bool" where
  "recovery_moves [] = ([], True)"
| "recovery_moves (f # fs) = (case stray_position f of
      None \<Rightarrow> ([], False)
    | Some p \<Rightarrow> (case recovery_moves fs of (ms, ok) \<Rightarrow> ((f, part_name p (path_suffix f)) # ms, ok)))"

definition final_of :: "file_entry \<Rightarrow> ustr" where
  "final_of e = part_name (fe_index e) (fe_suffix e)"

text \<open>\<open>finalize_multi\<close>: every part is staged or already final, or nothing is renamed.\<close>

definition has_final :: "media \<Rightarrow> file_entry \<Rightarrow> bool" where
  "has_final m e \<longleftrightarrow> (case dict_get m (final_of e) of None \<Rightarrow> False | Some b \<Rightarrow> int (length b) = fe_total e)"

definition finalize_multi :: "media \<Rightarrow> file_entry list \<Rightarrow> ustr list + moves \<times> ustr list" where
  "finalize_multi m files =
     (let entries = sort_key fe_index files;
          missing = filter (\<lambda>e. \<not> exists_file m (staged (final_of e)) \<and> \<not> has_final m e) entries
      in if missing \<noteq> [] then Inl (map (\<lambda>e. staged (final_of e)) missing)
         else Inr (map (\<lambda>e. (staged (final_of e), final_of e)) entries, map final_of entries))"

definition part_complete :: "media \<Rightarrow> file_entry \<Rightarrow> bool" where
  "part_complete m e \<longleftrightarrow> int (received_bytes m (staged (final_of e))) = fe_total e \<or> has_final m e"

definition probe_files :: "finalize_env \<Rightarrow> media \<Rightarrow> ustr list \<Rightarrow> media_probe list option" where
  "probe_files env m finals =
     all_some (map (\<lambda>f. case dict_get m f of None \<Rightarrow> None | Some b \<Rightarrow> fz_probe env b) finals)"

definition set_entries :: "file_entry list \<Rightarrow> media_probe list \<Rightarrow> set_entry list" where
  "set_entries files probes = map (\<lambda>(e, p). \<lparr>se_name = fe_filename e, se_index = fe_index e,
     se_creation = mp_creation p, se_modified = fe_modified e, se_duration = mp_duration p\<rparr>) (zip files probes)"

text \<open>\<open>_rename_to_concat_order\<close>: first all parts to their place under \<open>ordered.*\<close>, then all of them back.\<close>

definition pass_one :: "unicode \<Rightarrow> set_entry list \<Rightarrow> moves" where
  "pass_one uc ordered = map (\<lambda>(p, e). let sfx = lower_suffix uc (se_name e)
     in (part_name (se_index e) sfx, ordered_name p sfx)) (enumerate 0 ordered)"

definition pass_two :: "unicode \<Rightarrow> set_entry list \<Rightarrow> moves" where
  "pass_two uc ordered = map (\<lambda>(p, e). let name = ordered_name p (lower_suffix uc (se_name e))
     in (name, part_name p (path_suffix name))) (enumerate 0 ordered)"

definition rename_to_concat_order :: "unicode \<Rightarrow> set_entry list \<Rightarrow> moves" where
  "rename_to_concat_order uc ordered = pass_one uc ordered @ pass_two uc ordered"

section \<open>The handler\<close>

datatype finalize_answer = Existing task_row | Created | Refused upload_error

definition source_file :: "set_entry \<Rightarrow> json" where
  "source_file e = JDict [(lit ''name'', JStr (se_name e)), (lit ''offset_sec'', JNum 0),
     (lit ''duration_sec'', JNum (se_duration e))]"

fun kind_name :: "set_kind \<Rightarrow> string" where
  "kind_name VideoSet = ''video''"
| "kind_name AudioSet = ''audio''"

definition set_options :: "upload_meta \<Rightarrow> set_entry list \<times> string \<Rightarrow> jdict" where
  "set_options meta r =
     dict_set (dict_set (dict_set (um_options meta)
       (lit ''source_files'') (JList (map source_file (fst r))))
       (lit ''source_files_order'') (JStr (lit (snd r))))
       (lit ''source_files_kind'') (JStr (lit (kind_name (um_kind meta))))"

definition create_from_set :: "finalize_env \<Rightarrow> uuid \<Rightarrow> uuid \<Rightarrow> upload_meta \<Rightarrow> set_entry list \<times> string \<Rightarrow> effect list" where
  "create_from_set env user i meta r =
     move_effects (rename_to_concat_order (fz_unicode env) (fst r))
     @ [CommitTask i user (lit ''file://'' @ se_name (hd (fst r))) (JDict (set_options meta r)) (um_display meta),
        RemoveSidecar]"

text \<open>The order of the set: completeness, \<open>finalize_multi\<close>, the probes, the checks, \<open>resolve_order\<close>.\<close>

definition decide_order ::
  "finalize_env \<Rightarrow> upload_meta \<Rightarrow> media \<Rightarrow> moves \<times> (upload_error + set_entry list \<times> string)" where
  "decide_order env meta m =
     (case find (\<lambda>e. \<not> part_complete m e) (um_files meta) of
        Some e \<Rightarrow> ([], Inl (Incomplete (fe_filename e)))
      | None \<Rightarrow> (case finalize_multi m (um_files meta) of
          Inl missing \<Rightarrow> ([], Inl (MissingStaging missing))
        | Inr (ms, finals) \<Rightarrow> (case probe_files env (do_moves m ms) finals of
            None \<Rightarrow> (ms, Inl ProbeFailed)
          | Some probes \<Rightarrow> (case verify_probes (um_kind meta) (zip (map fe_filename (um_files meta)) probes) of
              Some e \<Rightarrow> (ms, Inl (SetRejected e))
            | None \<Rightarrow> (case resolve_order (fz_unicode env) (fz_digits env) (fz_stamp env) (set_entries (um_files meta) probes) of
                None \<Rightarrow> (ms, Inl ServerError)
              | Some r \<Rightarrow> (ms, Inr r))))))"

definition finalize_set :: "finalize_env \<Rightarrow> uuid \<Rightarrow> uuid \<Rightarrow> upload_meta \<Rightarrow> media \<Rightarrow> effect list \<times> finalize_answer" where
  "finalize_set env user i meta m =
     (case recovery_moves (strays m) of (rs, ok) \<Rightarrow>
        if \<not> ok then (move_effects rs, Refused ServerError)
        else (case um_resolved meta of
            Some r \<Rightarrow> (move_effects rs @ create_from_set env user i meta r, Created)
          | None \<Rightarrow> (case decide_order env meta (do_moves m rs) of
              (ms, Inl e) \<Rightarrow> (move_effects rs @ move_effects ms, Refused e)
            | (ms, Inr r) \<Rightarrow>
                (move_effects rs @ move_effects ms @ [Persist r] @ create_from_set env user i meta r, Created))))"

definition finalize_single :: "finalize_env \<Rightarrow> uuid \<Rightarrow> uuid \<Rightarrow> upload_meta \<Rightarrow> media \<Rightarrow> effect list \<times> finalize_answer" where
  "finalize_single env user i meta m =
     (let part = staged (media_name (um_suffix meta))
      in if int (received_bytes m part) \<noteq> um_total meta then ([], Refused (Incomplete (um_filename meta)))
         else ([Move part (media_name (um_suffix meta)), RemoveSidecar,
                CommitTask i user (lit ''file://'' @ path_name (um_filename meta)) (JDict (um_options meta)) (um_display meta)],
               Created))"

definition finalize_plan :: "finalize_env \<Rightarrow> uuid \<Rightarrow> uuid \<Rightarrow> upload_state \<Rightarrow> effect list \<times> finalize_answer" where
  "finalize_plan env user i st =
     (case get_task_for_user user i (us_db st) of
        Some t \<Rightarrow> ([], Existing t)
      | None \<Rightarrow> (case load_owned_session user (us_dir st) of
          Inl e \<Rightarrow> ([], Refused e)
        | Inr meta \<Rightarrow>
            (if um_files meta \<noteq> [] then finalize_set else finalize_single) env user i meta (ud_media (us_dir st))))"

definition uploads_finalize :: "finalize_env \<Rightarrow> uuid \<Rightarrow> uuid \<Rightarrow> upload_state \<Rightarrow> upload_state \<times> finalize_answer" where
  "uploads_finalize env user i st =
     (case finalize_plan env user i st of (es, answer) \<Rightarrow> (run_effects env st es, answer))"

text \<open>A call that dies after \<open>k\<close> steps.\<close>

definition crash_after :: "finalize_env \<Rightarrow> uuid \<Rightarrow> uuid \<Rightarrow> nat \<Rightarrow> upload_state \<Rightarrow> upload_state" where
  "crash_after env user i k st = run_effects env st (take k (fst (finalize_plan env user i st)))"

section \<open>Renaming in bulk\<close>

text \<open>Renames that do not get in each other's way: sources and targets are all different names.\<close>

definition clean :: "moves \<Rightarrow> bool" where
  "clean ms \<longleftrightarrow> distinct (map fst ms @ map snd ms)"

lemma clean_Cons: "clean (p # ms) \<longleftrightarrow> clean ms \<and> fst p \<noteq> snd p
    \<and> fst p \<notin> fst ` set ms \<and> fst p \<notin> snd ` set ms \<and> snd p \<notin> fst ` set ms \<and> snd p \<notin> snd ` set ms"
  by (auto simp: clean_def)

lemma clean_take: "clean ms \<Longrightarrow> clean (take k ms)"
proof (induction ms arbitrary: k)
  case (Cons p ms)
  then show ?case by (cases k) (auto simp: clean_Cons clean_def dest: in_set_takeD)
qed simp

lemma rename_get: "dict_get (rename_file m f g) x = (if dict_get m f = None then dict_get m x
    else if x = g then dict_get m f else if x = f then None else dict_get m x)"
  by (auto simp: rename_file_def split: option.split)

lemma do_moves_Cons: "do_moves m (p # ms) = do_moves (rename_file m (fst p) (snd p)) ms"
  by (simp add: do_moves_def)

lemma do_moves_append: "do_moves m (ms @ ns) = do_moves (do_moves m ms) ns"
  by (simp add: do_moves_def)

lemma do_moves_other:
  "x \<notin> fst ` set ms \<Longrightarrow> x \<notin> snd ` set ms \<Longrightarrow> dict_get (do_moves m ms) x = dict_get m x"
  by (induction ms arbitrary: m) (auto simp: do_moves_Cons rename_get, simp add: do_moves_def)

lemma do_moves_pair:
  assumes "clean ms" "(f, g) \<in> set ms"
  shows "dict_get (do_moves m ms) g = (case dict_get m f of None \<Rightarrow> dict_get m g | Some b \<Rightarrow> Some b)"
    and "dict_get (do_moves m ms) f = None"
proof -
  have "dict_get (do_moves m ms) g = (case dict_get m f of None \<Rightarrow> dict_get m g | Some b \<Rightarrow> Some b)
      \<and> dict_get (do_moves m ms) f = None"
    using assms
  proof (induction ms arbitrary: m)
    case (Cons p ms)
    show ?case
    proof (cases "p = (f, g)")
      case True
      have "f \<notin> fst ` set ms" "f \<notin> snd ` set ms" "g \<notin> fst ` set ms" "g \<notin> snd ` set ms" "f \<noteq> g"
        using Cons.prems(1) True by (auto simp: clean_Cons)
      then show ?thesis using True by (auto simp: do_moves_Cons do_moves_other rename_get split: option.split)
    next
      case False
      then have fg: "(f, g) \<in> set ms" using Cons.prems(2) by auto
      then have "f \<in> fst ` set ms" "g \<in> snd ` set ms" by force+
      then have ne: "f \<noteq> fst p" "f \<noteq> snd p" "g \<noteq> fst p" "g \<noteq> snd p"
        using Cons.prems(1) unfolding clean_Cons by metis+
      have "dict_get (rename_file m (fst p) (snd p)) f = dict_get m f"
        "dict_get (rename_file m (fst p) (snd p)) g = dict_get m g" using ne by (simp_all add: rename_get)
      then show ?thesis using Cons.IH [OF _ fg, of "rename_file m (fst p) (snd p)"] Cons.prems(1)
        by (cases "dict_get m f") (simp_all add: do_moves_Cons clean_Cons)
    qed
  qed simp
  then show "dict_get (do_moves m ms) g = (case dict_get m f of None \<Rightarrow> dict_get m g | Some b \<Rightarrow> Some b)"
    and "dict_get (do_moves m ms) f = None" by auto
qed

text \<open>A family of renames \<open>a i \<rightarrow> c i\<close> over \<open>i < n\<close>, of which the first \<open>k\<close> are done.\<close>

definition family :: "nat \<Rightarrow> (nat \<Rightarrow> ustr) \<Rightarrow> (nat \<Rightarrow> ustr) \<Rightarrow> moves" where
  "family n a c = map (\<lambda>i. (a i, c i)) [0..<n]"

lemma clean_family:
  assumes "inj_on a {..<n}" "inj_on c {..<n}" "\<And>i j. i < n \<Longrightarrow> j < n \<Longrightarrow> a i \<noteq> c j"
  shows "clean (family n a c)"
  using assms by (auto simp: clean_def family_def distinct_map o_def inj_on_def)

lemma do_moves_family:
  assumes inj: "inj_on a {..<n}" "inj_on c {..<n}" and apart: "\<And>i j. i < n \<Longrightarrow> j < n \<Longrightarrow> a i \<noteq> c j"
  shows "i < n \<Longrightarrow> dict_get (do_moves m (take k (family n a c))) (c i) =
      (if i < k \<and> dict_get m (a i) \<noteq> None then dict_get m (a i) else dict_get m (c i))"
    and "i < n \<Longrightarrow> dict_get (do_moves m (take k (family n a c))) (a i) = (if i < k then None else dict_get m (a i))"
    and "x \<notin> a ` {..<n} \<Longrightarrow> x \<notin> c ` {..<n} \<Longrightarrow> dict_get (do_moves m (take k (family n a c))) x = dict_get m x"
proof -
  let ?ms = "take k (family n a c)"
  have ms: "?ms = map (\<lambda>i. (a i, c i)) [0..<min k n]"
    by (cases "k \<le> n") (simp_all add: family_def take_map take_upt min_def)
  have cl: "clean ?ms" by (intro clean_take clean_family inj apart)
  have mem: "(a i, c i) \<in> set ?ms" if "i < n" "i < k" for i using that by (simp add: ms)
  have out: "a i \<notin> fst ` set ?ms \<and> a i \<notin> snd ` set ?ms \<and> c i \<notin> fst ` set ?ms \<and> c i \<notin> snd ` set ?ms"
    if "i < n" "\<not> i < k" for i
  proof -
    have "a i \<noteq> a j" "c i \<noteq> c j" "a i \<noteq> c j" "c i \<noteq> a j" if "j < n" "j < k" for j
    proof -
      have "i \<noteq> j" using that(2) \<open>\<not> i < k\<close> by blast
      then show "a i \<noteq> a j" "c i \<noteq> c j"
        using inj_on_eq_iff [OF inj(1)] inj_on_eq_iff [OF inj(2)] \<open>i < n\<close> that(1) by simp_all
      show "a i \<noteq> c j" "c i \<noteq> a j" using apart [OF \<open>i < n\<close> that(1)] apart [OF that(1) \<open>i < n\<close>] by simp_all
    qed
    note ne = this
    have fs: "x \<in> fst ` set ?ms \<Longrightarrow> (\<exists>j. j < n \<and> j < k \<and> x = a j)"
      and sn: "x \<in> snd ` set ?ms \<Longrightarrow> (\<exists>j. j < n \<and> j < k \<and> x = c j)" for x by (auto simp: ms)
    show ?thesis
    proof (intro conjI notI)
      assume "a i \<in> fst ` set ?ms" then show False using fs [of "a i"] ne(1) by metis
    next
      assume "a i \<in> snd ` set ?ms" then show False using sn [of "a i"] ne(3) by metis
    next
      assume "c i \<in> fst ` set ?ms" then show False using fs [of "c i"] ne(4) by metis
    next
      assume "c i \<in> snd ` set ?ms" then show False using sn [of "c i"] ne(2) by metis
    qed
  qed
  show "dict_get (do_moves m ?ms) (c i) = (if i < k \<and> dict_get m (a i) \<noteq> None then dict_get m (a i) else dict_get m (c i))"
    if "i < n"
    using do_moves_pair(1) [OF cl mem [OF that], of m] do_moves_other [of "c i" ?ms m] out [OF that]
    by (cases "i < k") (auto split: option.split)
  show "dict_get (do_moves m ?ms) (a i) = (if i < k then None else dict_get m (a i))" if "i < n"
    using do_moves_pair(2) [OF cl mem [OF that], of m] do_moves_other [of "a i" ?ms m] out [OF that]
    by (cases "i < k") auto
  show "x \<notin> a ` {..<n} \<Longrightarrow> x \<notin> c ` {..<n} \<Longrightarrow> dict_get (do_moves m ?ms) x = dict_get m x"
    by (rule do_moves_other) (auto simp: ms)
qed

lemma take_family [simp]: "take n (family n a c) = family n a c"
  by (simp add: family_def)

text \<open>The steps of a plan.\<close>

lemma run_effects_append: "run_effects env st (es @ fs) = run_effects env (run_effects env st es) fs"
  by (simp add: run_effects_def)

lemma run_effects_simps [simp]:
  "run_effects env st [] = st"
  "run_effects env st (e # es) = run_effects env (apply_effect env st e) es"
  by (simp_all add: run_effects_def)

lemma run_move_effects [simp]:
  "run_effects env st (move_effects ms) = st\<lparr>us_dir := (us_dir st)\<lparr>ud_media := do_moves (ud_media (us_dir st)) ms\<rparr>\<rparr>"
  by (induction ms arbitrary: st) (simp_all add: move_effects_def do_moves_def)

lemma take_move_effects: "take k (move_effects ms) = move_effects (take k ms)"
  by (simp add: move_effects_def take_map)

lemma length_move_effects [simp]: "length (move_effects ms) = length ms"
  by (simp add: move_effects_def)

section \<open>Where the parts are\<close>

text \<open>The media directory holds exactly the files \<open>loc i\<close>, \<open>i < n\<close>, with the contents \<open>b i\<close>.\<close>

definition holds :: "media \<Rightarrow> nat \<Rightarrow> (nat \<Rightarrow> ustr) \<Rightarrow> (nat \<Rightarrow> bytes) \<Rightarrow> bool" where
  "holds m n loc b \<longleftrightarrow> (\<forall>i<n. dict_get m (loc i) = Some (b i)) \<and> (\<forall>x. dict_get m x \<noteq> None \<longrightarrow> (\<exists>i<n. x = loc i))"

lemma holdsD: "holds m n loc b \<Longrightarrow> i < n \<Longrightarrow> dict_get m (loc i) = Some (b i)"
  by (simp add: holds_def)

lemma holds_only: "holds m n loc b \<Longrightarrow> dict_get m x = Some c \<Longrightarrow> \<exists>i<n. x = loc i"
  by (simp add: holds_def)

lemma holds_absent: "holds m n loc b \<Longrightarrow> (\<And>i. i < n \<Longrightarrow> x \<noteq> loc i) \<Longrightarrow> dict_get m x = None"
  by (metis holds_def)

lemma holds_cong: "holds m n loc b \<Longrightarrow> (\<And>i. i < n \<Longrightarrow> loc' i = loc i) \<Longrightarrow> (\<And>i. i < n \<Longrightarrow> b' i = b i) \<Longrightarrow> holds m n loc' b'"
  unfolding holds_def by metis

lemma holds_permute:
  assumes "holds m n loc b" "bij_betw p {..<n} {..<n}"
  shows "holds m n (\<lambda>i. loc (p i)) (\<lambda>i. b (p i))"
proof -
  have "p i < n" if "i < n" for i using assms(2) that by (auto simp: bij_betw_def)
  moreover have "\<exists>j<n. i = p j" if "i < n" for i
    using assms(2) that unfolding bij_betw_def by (metis imageE lessThan_iff)
  ultimately show ?thesis using assms(1) unfolding holds_def by metis
qed

text \<open>Renames that take every part from \<open>loc i\<close> to \<open>loc' i\<close>; those whose source is missing do nothing.\<close>

lemma holds_moves:
  assumes m: "holds m n loc b" and cl: "clean ms"
    and from_loc: "\<And>f g. (f, g) \<in> set ms \<Longrightarrow> dict_get m f \<noteq> None \<Longrightarrow> \<exists>i<n. f = loc i \<and> g = loc' i"
    and step: "\<And>i. i < n \<Longrightarrow> (loc i, loc' i) \<in> set ms
      \<or> (loc' i = loc i \<and> loc i \<notin> fst ` set ms \<and> (\<forall>f. (f, loc i) \<in> set ms \<longrightarrow> dict_get m f = None))"
  shows "holds (do_moves m ms) n loc' b"
  unfolding holds_def
proof (intro conjI allI impI)
  fix i assume i: "i < n"
  note mi = holdsD [OF m i]
  show "dict_get (do_moves m ms) (loc' i) = Some (b i)"
  proof (cases "(loc i, loc' i) \<in> set ms")
    case True
    then show ?thesis using do_moves_pair(1) [OF cl True, of m] mi by simp
  next
    case False
    then have s: "loc' i = loc i" "loc i \<notin> fst ` set ms" "\<And>f. (f, loc i) \<in> set ms \<Longrightarrow> dict_get m f = None"
      using step [OF i] by auto
    show ?thesis
    proof (cases "loc i \<in> snd ` set ms")
      case True
      then obtain f where f: "(f, loc i) \<in> set ms" by force
      show ?thesis using do_moves_pair(1) [OF cl f, of m] s(3) [OF f] s(1) mi by simp
    next
      case False
      show ?thesis using do_moves_other [OF s(2) False, of m] s(1) mi by simp
    qed
  qed
next
  fix x assume x: "dict_get (do_moves m ms) x \<noteq> None"
  have nf: "x \<notin> fst ` set ms"
  proof
    assume "x \<in> fst ` set ms"
    then obtain g where "(x, g) \<in> set ms" by force
    from do_moves_pair(2) [OF cl this, of m] x show False by simp
  qed
  have stay: "\<exists>i<n. x = loc' i" if x: "dict_get m x \<noteq> None"
  proof -
    obtain i where i: "i < n" "x = loc i" using m x unfolding holds_def by blast
    have "(loc i, loc' i) \<notin> set ms" using nf i(2) by force
    then show ?thesis using step [OF i(1)] i by metis
  qed
  show "\<exists>i<n. x = loc' i"
  proof (cases "x \<in> snd ` set ms")
    case True
    then obtain f where f: "(f, x) \<in> set ms" by force
    show ?thesis
    proof (cases "dict_get m f")
      case None
      then show ?thesis using do_moves_pair(1) [OF cl f, of m] x stay by simp
    next
      case (Some c)
      then show ?thesis using from_loc [OF f] by auto
    qed
  next
    case False
    then show ?thesis using do_moves_other [OF nf False, of m] x stay by simp
  qed
qed

text \<open>The first \<open>k\<close> renames of a family, when every part is at its source or already at its target.\<close>

lemma holds_family:
  assumes m: "holds m n loc b"
    and inj: "inj_on a {..<n}" "inj_on c {..<n}" and apart: "\<And>i j. i < n \<Longrightarrow> j < n \<Longrightarrow> a i \<noteq> c j"
    and loc: "\<And>i. i < n \<Longrightarrow> loc i = a i \<or> loc i = c i"
  shows "holds (do_moves m (take k (family n a c))) n (\<lambda>i. if i < k then c i else loc i) b"
proof (rule holds_moves [OF m])
  have mem: "(f, g) \<in> set (take k (family n a c)) \<longleftrightarrow> (\<exists>i. i < n \<and> i < k \<and> f = a i \<and> g = c i)" for f g
  proof -
    have "take k (family n a c) = map (\<lambda>i. (a i, c i)) [0..<min k n]"
      by (cases "k \<le> n") (simp_all add: family_def take_map take_upt min_def)
    then show ?thesis by auto
  qed
  have fst_mem: "f \<in> fst ` set (take k (family n a c)) \<longleftrightarrow> (\<exists>i. i < n \<and> i < k \<and> f = a i)" for f
  proof -
    have "f \<in> fst ` S \<longleftrightarrow> (\<exists>g. (f, g) \<in> S)" for S :: "(ustr \<times> ustr) set" by force
    then show ?thesis using mem by auto
  qed
  have a_at: "loc i = a i" if "i < n" "dict_get m (a i) \<noteq> None" for i
  proof -
    obtain j where "j < n" "a i = loc j" using m \<open>dict_get m (a i) \<noteq> None\<close> unfolding holds_def by blast
    then show ?thesis using loc [of j] apart [OF \<open>i < n\<close> \<open>j < n\<close>] inj_on_eq_iff [OF inj(1)] \<open>i < n\<close> by auto
  qed
  show "clean (take k (family n a c))" by (intro clean_take clean_family inj apart)
  show "\<exists>i<n. f = loc i \<and> g = (if i < k then c i else loc i)"
    if fg: "(f, g) \<in> set (take k (family n a c))" and some: "dict_get m f \<noteq> None" for f g
  proof -
    obtain i where i: "i < n" "i < k" "f = a i" "g = c i" using fg mem [of f g] by auto
    then have "loc i = a i" using a_at [OF i(1)] some by simp
    then show ?thesis using i by (intro exI [of _ i]) simp
  qed
  show "(loc i, if i < k then c i else loc i) \<in> set (take k (family n a c))
      \<or> ((if i < k then c i else loc i) = loc i \<and> loc i \<notin> fst ` set (take k (family n a c))
         \<and> (\<forall>f. (f, loc i) \<in> set (take k (family n a c)) \<longrightarrow> dict_get m f = None))" if i: "i < n" for i
  proof (cases "i < k \<and> loc i = a i")
    case True
    then show ?thesis using i mem [of "loc i" "c i"] by auto
  next
    case False
    have "loc i \<notin> fst ` set (take k (family n a c))"
    proof
      assume "loc i \<in> fst ` set (take k (family n a c))"
      then obtain j where j: "j < n" "j < k" "loc i = a j" using fst_mem [of "loc i"] by auto
      then have "loc i = a i" using loc [OF i] apart [OF j(1) i] by auto
      then show False using False j inj_on_eq_iff [OF inj(1)] i by simp
    qed
    moreover have "dict_get m f = None" if fl: "(f, loc i) \<in> set (take k (family n a c))" for f
    proof (rule ccontr)
      assume f: "dict_get m f \<noteq> None"
      obtain j where j: "j < n" "j < k" "f = a j" "loc i = c j" using fl mem [of f "loc i"] by auto
      then have "loc i = c i" using loc [OF i] apart [OF i j(1)] by auto
      then have "i = j" using j inj_on_eq_iff [OF inj(2)] i by auto
      then show False using a_at [OF j(1)] f j False apart [OF j(1) j(1)] by simp
    qed
    moreover have "(if i < k then c i else loc i) = loc i" using False loc [OF i] by auto
    ultimately show ?thesis by blast
  qed
qed

section \<open>Names of a reorder\<close>

lemma ordered_inject [simp]:
  "good_suffix s \<Longrightarrow> good_suffix t \<Longrightarrow> ordered_name i s = ordered_name j t \<longleftrightarrow> i = j \<and> s = t"
  using pad3_suffix_inject [of s t i "[]" j "[]"] by (simp add: ordered_name_def)

lemma ordered_apart [simp]:
  "ordered_name p s \<noteq> part_name i t" "ordered_name p s \<noteq> staged (part_name i t)"
  "part_name i t \<noteq> ordered_name p s" "staged (part_name i t) \<noteq> ordered_name p s"
  by (simp_all add: ordered_name_def part_name_def staged_def lit_def)

lemma starts_with_ordered [simp]:
  "starts_with (lit ''ordered.'') (ordered_name p s)" "\<not> starts_with (lit ''ordered.'') (part_name i s)"
  "\<not> starts_with (lit ''ordered.'') (staged (part_name i s))"
  by (simp_all add: starts_with_def ordered_name_def part_name_def staged_def lit_def)

lemma takeWhile_all: "\<forall>x\<in>set xs. P x \<Longrightarrow> takeWhile P xs = xs"
  by (induction xs) auto

lemma dropWhile_none: "x \<notin> set xs \<Longrightarrow> dropWhile (\<lambda>c. c = x) xs = xs"
  by (cases xs) auto

lemma path_suffix_append:
  assumes "good_suffix s" "x \<noteq> []" "47 \<notin> set x"
  shows "path_suffix (x @ s) = s"
proof -
  obtain t where t: "s = 46 # t" "t \<noteq> []" "46 \<notin> set t" "47 \<notin> set t" using assms(1) by (rule good_suffixE)
  have no47: "47 \<notin> set (rev (x @ s))" using assms(3) t by simp
  have dw: "dropWhile (\<lambda>c. c = 47) (rev (x @ s)) = rev (x @ s)"
    using no47 by (rule dropWhile_none)
  have tw: "takeWhile (\<lambda>c. c \<noteq> 47) (rev (x @ s)) = rev (x @ s)"
    using no47 by (intro takeWhile_all) auto
  have n: "path_name (x @ s) = x @ s"
    unfolding path_name_def dw tw by simp
  have ext: "takeWhile (\<lambda>c. c \<noteq> 46) (rev (x @ s)) = rev t"
    using takeWhile_dot [of "rev t" "rev x"] t by simp
  show ?thesis unfolding path_suffix_def Let_def n ext using t assms(2) by (cases x) simp_all
qed

lemma path_suffix_ordered [simp]: "good_suffix s \<Longrightarrow> path_suffix (ordered_name p s) = s"
  using path_suffix_append [of s "lit ''ordered.'' @ pad3 p"] pad3_digits [of 47 p]
  by (auto simp: ordered_name_def lit_def)

lemma pad3_not_Nil [simp]: "pad3 p \<noteq> []"
  by (simp add: pad3_def)

lemma stray_position_ordered [simp]:
  assumes "good_suffix s"
  shows "stray_position (ordered_name p s) = Some p"
proof -
  have stem: "take (length (ordered_name p s) - length s) (ordered_name p s) = lit ''ordered.'' @ pad3 p"
    by (simp add: ordered_name_def)
  have dw: "dropWhile (\<lambda>c. c \<noteq> 46) (lit ''ordered.'' @ pad3 p) = 46 # pad3 p"
    by (simp add: lit_def)
  have tw: "takeWhile (\<lambda>c. c \<noteq> 46) (drop 1 (46 # pad3 p)) = pad3 p"
    using pad3_no_dot [of p] takeWhile_all [of "pad3 p" "\<lambda>c. c \<noteq> 46"] by force
  have "list_all (\<lambda>c. 48 \<le> c \<and> c \<le> 57) (pad3 p)"
    using pad3_digits [of _ p] by (auto simp: list_all_iff)
  then show ?thesis
    unfolding stray_position_def path_suffix_ordered [OF assms] stem Let_def dw tw by (simp add: undecimal_pad3)
qed

section \<open>Recovery\<close>

lemma recovery_moves_ordered:
  assumes "\<forall>f\<in>set fs. \<exists>p s. good_suffix s \<and> f = ordered_name p s"
  shows "recovery_moves fs = (map (\<lambda>f. (f, part_name (the (stray_position f)) (path_suffix f))) fs, True)"
  using assms by (induction fs) auto

text \<open>Every file under \<open>ordered.*\<close> goes to the place its name says, the others stay; nothing is lost if
  no other file is at one of those places.\<close>

lemma recover_holds:
  assumes m: "holds m n loc b"
    and P: "\<And>i. i < n \<Longrightarrow> P i \<Longrightarrow> loc i = ordered_name i (s i) \<and> good_suffix (s i)"
    and N: "\<And>i. i < n \<Longrightarrow> \<not> P i \<Longrightarrow> \<not> starts_with (lit ''ordered.'') (loc i)"
    and apart: "\<And>i j. i < n \<Longrightarrow> j < n \<Longrightarrow> P i \<Longrightarrow> \<not> P j \<Longrightarrow> part_name i (s i) \<noteq> loc j"
  shows "\<exists>rs. recovery_moves (strays m) = (rs, True)
    \<and> holds (do_moves m rs) n (\<lambda>i. if P i then part_name i (s i) else loc i) b"
proof -
  have mem: "f \<in> set (strays m) \<longleftrightarrow> (\<exists>i<n. P i \<and> f = loc i)" for f
  proof -
    have "f \<in> set (strays m) \<longleftrightarrow> starts_with (lit ''ordered.'') f \<and> dict_get m f \<noteq> None"
      by (auto simp: strays_def dict_get_def map_of_eq_None_iff)
    also have "\<dots> \<longleftrightarrow> starts_with (lit ''ordered.'') f \<and> (\<exists>i<n. f = loc i)"
      using m unfolding holds_def by (metis option.distinct(1))
    also have "\<dots> \<longleftrightarrow> (\<exists>i<n. P i \<and> f = loc i)" using P N by (metis starts_with_ordered(1))
    finally show ?thesis .
  qed
  define t where "t f = part_name (the (stray_position f)) (path_suffix f)" for f
  define rs where "rs = map (\<lambda>f. (f, t f)) (strays m)"
  have t: "t (loc i) = part_name i (s i)" if "i < n" "P i" for i using P [OF that] by (simp add: t_def)
  have "\<forall>f\<in>set (strays m). \<exists>p s. good_suffix s \<and> f = ordered_name p s" using mem P by metis
  then have rec: "recovery_moves (strays m) = (rs, True)"
    unfolding rs_def t_def by (rule recovery_moves_ordered)
  have "inj_on t (set (strays m))"
  proof (rule inj_onI)
    fix f g assume "f \<in> set (strays m)" "g \<in> set (strays m)" and eq: "t f = t g"
    then obtain i j where ij: "i < n" "P i" "f = loc i" "j < n" "P j" "g = loc j" using mem by metis
    then have "i = j" using eq t P by (metis part_name_inject)
    then show "f = g" using ij by simp
  qed
  moreover have "t f \<noteq> g" if "f \<in> set (strays m)" "g \<in> set (strays m)" for f g
    using that mem P t by (metis ordered_apart(3))
  moreover have "distinct (strays m)" by (simp add: strays_def)
  ultimately have cl: "clean rs" unfolding clean_def rs_def by (auto simp: o_def distinct_map)
  have rmem: "(f, g) \<in> set rs \<longleftrightarrow> (\<exists>i<n. P i \<and> f = loc i \<and> g = part_name i (s i))" for f g
  proof -
    have "(f, g) \<in> set rs \<longleftrightarrow> f \<in> set (strays m) \<and> g = t f" by (auto simp: rs_def)
    also have "\<dots> \<longleftrightarrow> (\<exists>i<n. P i \<and> f = loc i \<and> g = part_name i (s i))" unfolding mem using t by metis
    finally show ?thesis .
  qed
  have "holds (do_moves m rs) n (\<lambda>i. if P i then part_name i (s i) else loc i) b"
  proof (rule holds_moves [OF m cl])
    show "\<exists>i<n. f = loc i \<and> g = (if P i then part_name i (s i) else loc i)" if fg: "(f, g) \<in> set rs" for f g
      using rmem [of f g] fg by auto
    show "(loc i, if P i then part_name i (s i) else loc i) \<in> set rs
        \<or> ((if P i then part_name i (s i) else loc i) = loc i \<and> loc i \<notin> fst ` set rs
          \<and> (\<forall>f. (f, loc i) \<in> set rs \<longrightarrow> dict_get m f = None))" if i: "i < n" for i
    proof (cases "P i")
      case True
      then show ?thesis using rmem [of "loc i" "part_name i (s i)"] i by auto
    next
      case False
      have "loc i \<notin> fst ` set rs"
      proof
        assume "loc i \<in> fst ` set rs"
        then obtain j where "j < n" "P j" "loc i = loc j" using mem by (auto simp: rs_def image_iff)
        then show False using N [OF i False] P [of j] by simp
      qed
      moreover have "(f, loc i) \<notin> set rs" for f
        using rmem [of f "loc i"] apart i False by metis
      ultimately show ?thesis using False by simp
    qed
  qed
  then show ?thesis using rec by blast
qed

section \<open>Complete sets\<close>

text \<open>The entries as \<open>uploads_init\<close> makes them.\<close>

definition set_ok :: "unicode \<Rightarrow> file_entry list \<Rightarrow> bool" where
  "set_ok uc files \<longleftrightarrow> files \<noteq> [] \<and> map fe_index files = [0..<length files]
     \<and> list_all (\<lambda>e. good_suffix (fe_suffix e) \<and> fe_suffix e = lower_suffix uc (fe_filename e)) files"

definition sfx_at :: "file_entry list \<Rightarrow> nat \<Rightarrow> ustr" where
  "sfx_at files i = fe_suffix (files ! i)"

definition final_at :: "file_entry list \<Rightarrow> nat \<Rightarrow> ustr" where
  "final_at files i = part_name i (sfx_at files i)"

definition staged_at :: "file_entry list \<Rightarrow> nat \<Rightarrow> ustr" where
  "staged_at files i = staged (final_at files i)"

text \<open>The decision on the order, from the contents of the parts alone.\<close>

definition decision :: "finalize_env \<Rightarrow> upload_meta \<Rightarrow> (nat \<Rightarrow> bytes) \<Rightarrow> upload_error + set_entry list \<times> string" where
  "decision env meta b =
     (case all_some (map (\<lambda>i. fz_probe env (b i)) [0..<length (um_files meta)]) of
        None \<Rightarrow> Inl ProbeFailed
      | Some probes \<Rightarrow> (case verify_probes (um_kind meta) (zip (map fe_filename (um_files meta)) probes) of
          Some e \<Rightarrow> Inl (SetRejected e)
        | None \<Rightarrow> (case resolve_order (fz_unicode env) (fz_digits env) (fz_stamp env) (set_entries (um_files meta) probes) of
            None \<Rightarrow> Inl ServerError | Some r \<Rightarrow> Inr r)))"

text \<open>The part that ends up at a position.\<close>

definition source_of :: "set_entry list \<Rightarrow> nat \<Rightarrow> nat" where
  "source_of ordered p = se_index (ordered ! p)"

definition target_at :: "file_entry list \<Rightarrow> set_entry list \<Rightarrow> nat \<Rightarrow> ustr" where
  "target_at files ordered p = part_name p (sfx_at files (source_of ordered p))"

definition waiting_at :: "file_entry list \<Rightarrow> set_entry list \<Rightarrow> nat \<Rightarrow> ustr" where
  "waiting_at files ordered p = ordered_name p (sfx_at files (source_of ordered p))"

lemma set_ok_nth:
  assumes "set_ok uc files" "i < length files"
  shows "fe_index (files ! i) = i" "good_suffix (sfx_at files i)" "sfx_at files i = lower_suffix uc (fe_filename (files ! i))"
    "final_of (files ! i) = final_at files i"
proof -
  have "map fe_index files ! i = [0..<length files] ! i" using assms(1) by (simp add: set_ok_def)
  then show "fe_index (files ! i) = i" using assms(2) by simp
  then show "final_of (files ! i) = final_at files i" by (simp add: final_of_def final_at_def sfx_at_def)
  have e: "good_suffix (fe_suffix (files ! i)) \<and> fe_suffix (files ! i) = lower_suffix uc (fe_filename (files ! i))"
    using assms unfolding set_ok_def list_all_length by blast
  then show "good_suffix (sfx_at files i)" unfolding sfx_at_def by blast
  show "sfx_at files i = lower_suffix uc (fe_filename (files ! i))" using e unfolding sfx_at_def by blast
qed

lemma inj_final: "set_ok uc files \<Longrightarrow> inj_on (final_at files) {..<length files}"
  by (rule inj_onI) (simp add: final_at_def set_ok_nth(2))

lemma inj_staged: "set_ok uc files \<Longrightarrow> inj_on (staged_at files) {..<length files}"
  using inj_final [of uc files] by (simp add: inj_on_def staged_at_def)

lemma staged_not_final:
  "set_ok uc files \<Longrightarrow> i < length files \<Longrightarrow> j < length files \<Longrightarrow> staged_at files i \<noteq> final_at files j"
  by (simp add: staged_at_def final_at_def set_ok_nth(2))

lemma all_some_map: "all_some (map f xs) = Some ys \<longleftrightarrow> map f xs = map Some ys"
proof (induction xs arbitrary: ys)
  case Nil
  then show ?case by auto
next
  case (Cons x xs)
  then show ?case by (cases "f x"; cases ys) auto
qed

subsection \<open>The order is a permutation of the parts\<close>

lemma decision_order:
  assumes ok: "set_ok uc (um_files meta)" and dec: "decision env meta b = Inr (ordered, rule)"
  shows "length ordered = length (um_files meta)"
    and "bij_betw (source_of ordered) {..<length (um_files meta)} {..<length (um_files meta)}"
    and "p < length (um_files meta) \<Longrightarrow> se_name (ordered ! p) = fe_filename (um_files meta ! source_of ordered p)"
proof -
  let ?files = "um_files meta" let ?n = "length ?files"
  obtain probes where pr: "all_some (map (\<lambda>i. fz_probe env (b i)) [0..<?n]) = Some probes"
      and res: "resolve_order (fz_unicode env) (fz_digits env) (fz_stamp env) (set_entries ?files probes) = Some (ordered, rule)"
    using dec by (auto simp: decision_def split: option.splits)
  have len: "length probes = ?n" using pr by (auto simp: all_some_map dest: map_eq_imp_length_eq)
  have ms: "mset ordered = mset (set_entries ?files probes)" by (rule resolve_order_perm [OF res])
  have le: "length (set_entries ?files probes) = ?n" using len by (simp add: set_entries_def)
  show lo: "length ordered = ?n" using mset_eq_length [OF ms] le by simp
  have ent: "se_index (set_entries ?files probes ! i) = i \<and> se_name (set_entries ?files probes ! i) = fe_filename (?files ! i)"
    if "i < ?n" for i
    using that len set_ok_nth(1) [OF ok that] by (simp add: set_entries_def)
  have "mset (map se_index ordered) = mset (map se_index (set_entries ?files probes))" using ms by simp
  also have "map se_index (set_entries ?files probes) = [0..<?n]" using le ent by (intro nth_equalityI) simp_all
  finally have mi: "mset (map se_index ordered) = mset [0..<?n]" .
  have d: "distinct (map se_index ordered)" using mset_eq_imp_distinct_iff [OF mi] by simp
  have s: "set (map se_index ordered) = {..<?n}" using mset_eq_setD [OF mi] by auto
  have inj: "inj_on (source_of ordered) {..<?n}"
    using d lo by (auto simp: source_of_def inj_on_def distinct_conv_nth)
  moreover have "source_of ordered ` {..<?n} = {..<?n}"
  proof -
    have "source_of ordered ` {..<?n} = set (map se_index ordered)"
    proof -
      have "set ordered = (\<lambda>p. ordered ! p) ` {..<?n}" using lo by (auto simp: set_conv_nth)
      then show ?thesis by (simp add: image_image source_of_def)
    qed
    then show ?thesis using s by simp
  qed
  ultimately show "bij_betw (source_of ordered) {..<?n} {..<?n}" by (simp add: bij_betw_def)
  show "se_name (ordered ! p) = fe_filename (?files ! source_of ordered p)" if "p < ?n"
  proof -
    have "ordered ! p \<in> set (set_entries ?files probes)" using mset_eq_setD [OF ms] that lo by (metis nth_mem)
    then obtain i where i: "i < ?n" "ordered ! p = set_entries ?files probes ! i" using le by (metis in_set_conv_nth)
    then show ?thesis using ent [OF i(1)] by (simp add: source_of_def)
  qed
qed

lemma enumerate_upt: "enumerate 0 xs = map (\<lambda>p. (p, xs ! p)) [0..<length xs]"
  by (rule nth_equalityI) (simp_all add: nth_enumerate_eq)

text \<open>Both passes of the reorder are families of renames.\<close>

lemma reorder_families:
  assumes ok: "set_ok (fz_unicode env) (um_files meta)" and dec: "decision env meta b = Inr (ordered, rule)"
  shows "pass_one (fz_unicode env) ordered
      = family (length (um_files meta)) (\<lambda>p. final_at (um_files meta) (source_of ordered p)) (waiting_at (um_files meta) ordered)"
    and "pass_two (fz_unicode env) ordered
      = family (length (um_files meta)) (waiting_at (um_files meta) ordered) (target_at (um_files meta) ordered)"
proof -
  let ?files = "um_files meta" let ?n = "length ?files"
  note o = decision_order [OF ok dec]
  have lt: "source_of ordered p < ?n" if "p < ?n" for p using o(2) that by (auto simp: bij_betw_def)
  have sf: "lower_suffix (fz_unicode env) (se_name (ordered ! p)) = sfx_at ?files (source_of ordered p)" if "p < ?n" for p
    using o(3) [OF that] set_ok_nth(3) [OF ok lt [OF that]] by simp
  show "pass_one (fz_unicode env) ordered = family ?n (\<lambda>p. final_at ?files (source_of ordered p)) (waiting_at ?files ordered)"
    using o(1) sf by (auto simp: pass_one_def family_def enumerate_upt waiting_at_def final_at_def source_of_def Let_def)
  show "pass_two (fz_unicode env) ordered = family ?n (waiting_at ?files ordered) (target_at ?files ordered)"
    using o(1) sf set_ok_nth(2) [OF ok lt]
    by (auto simp: pass_two_def family_def enumerate_upt waiting_at_def target_at_def Let_def)
qed

text \<open>The names of a reorder do not clash.\<close>

lemma reorder_names:
  assumes ok: "set_ok uc files" and bij: "bij_betw (source_of ordered) {..<length files} {..<length files}"
  shows "inj_on (\<lambda>p. final_at files (source_of ordered p)) {..<length files}"
    and "inj_on (waiting_at files ordered) {..<length files}"
    and "inj_on (target_at files ordered) {..<length files}"
    and "waiting_at files ordered p \<noteq> final_at files q" "waiting_at files ordered p \<noteq> target_at files ordered q"
    and "final_at files q \<noteq> waiting_at files ordered p"
proof -
  have lt: "source_of ordered p < length files" if "p < length files" for p using bij that by (auto simp: bij_betw_def)
  have g: "good_suffix (sfx_at files (source_of ordered p))" if "p < length files" for p
    using set_ok_nth(2) [OF ok lt [OF that]] .
  show "inj_on (\<lambda>p. final_at files (source_of ordered p)) {..<length files}"
  proof (rule inj_onI)
    fix p q assume pq: "p \<in> {..<length files}" "q \<in> {..<length files}"
      and "final_at files (source_of ordered p) = final_at files (source_of ordered q)"
    then have "source_of ordered p = source_of ordered q" using inj_onD [OF inj_final [OF ok]] lt by simp
    then show "p = q" using bij pq unfolding bij_betw_def by (meson inj_onD)
  qed
  show "inj_on (waiting_at files ordered) {..<length files}"
    by (rule inj_onI) (use g in \<open>simp add: waiting_at_def\<close>)
  show "inj_on (target_at files ordered) {..<length files}"
    by (rule inj_onI) (use g in \<open>simp add: target_at_def\<close>)
qed (simp_all add: waiting_at_def final_at_def target_at_def)

section \<open>The plans\<close>

text \<open>An upload whose parts, with contents \<open>b\<close>, are at \<open>loc\<close>, and no task exists; and one of a complete
  set, where \<open>b i\<close> is the content of entry \<open>i\<close> and has its declared size.\<close>

definition placed ::
  "finalize_env \<Rightarrow> uuid \<Rightarrow> uuid \<Rightarrow> upload_meta \<Rightarrow> (nat \<Rightarrow> ustr) \<Rightarrow> (nat \<Rightarrow> bytes) \<Rightarrow> upload_state \<Rightarrow> bool" where
  "placed env user i meta loc b st \<longleftrightarrow> find_task (us_db st) i = None
     \<and> ud_sidecar (us_dir st) = Sidecar meta \<and> um_user meta = user
     \<and> set_ok (fz_unicode env) (um_files meta)
     \<and> holds (ud_media (us_dir st)) (length (um_files meta)) loc b"

definition ready ::
  "finalize_env \<Rightarrow> uuid \<Rightarrow> uuid \<Rightarrow> upload_meta \<Rightarrow> (nat \<Rightarrow> ustr) \<Rightarrow> (nat \<Rightarrow> bytes) \<Rightarrow> upload_state \<Rightarrow> bool" where
  "ready env user i meta loc b st \<longleftrightarrow> placed env user i meta loc b st
     \<and> (\<forall>j<length (um_files meta). int (length (b j)) = fe_total (um_files meta ! j))"

text \<open>The task exists, the parts are named by their place, the sidecar is gone.\<close>

definition finished_set ::
  "uuid \<Rightarrow> uuid \<Rightarrow> upload_meta \<Rightarrow> set_entry list \<times> string \<Rightarrow> (nat \<Rightarrow> bytes) \<Rightarrow> upload_state \<Rightarrow> bool" where
  "finished_set user i meta r c st \<longleftrightarrow> ud_sidecar (us_dir st) = NoSidecar
     \<and> holds (ud_media (us_dir st)) (length (um_files meta)) (target_at (um_files meta) (fst r)) c
     \<and> (\<exists>t. find_task (us_db st) i = Some t \<and> t_user t = user \<and> t_status t = Queued
          \<and> t_options t = JDict (set_options meta r))"

lemma no_task_for_user: "find_task db i = None \<Longrightarrow> get_task_for_user user i db = None"
  by (auto simp: find_task_def get_task_for_user_def find_None_iff)

lemma strays_mem: "f \<in> set (strays m) \<longleftrightarrow> starts_with (lit ''ordered.'') f \<and> dict_get m f \<noteq> None"
  by (auto simp: strays_def dict_get_def map_of_eq_None_iff)

lemma strays_none:
  assumes "holds m n loc b" "\<And>j. j < n \<Longrightarrow> \<not> starts_with (lit ''ordered.'') (loc j)"
  shows "strays m = []"
proof (cases "strays m")
  case (Cons f fs)
  then have "starts_with (lit ''ordered.'') f" "dict_get m f \<noteq> None" using strays_mem [of f m] by simp_all
  then show ?thesis using assms unfolding holds_def by metis
qed

lemma not_stray [simp]:
  "\<not> starts_with (lit ''ordered.'') (final_at files j)" "\<not> starts_with (lit ''ordered.'') (staged_at files j)"
  "\<not> starts_with (lit ''ordered.'') (target_at files ordered j)"
  by (simp_all add: final_at_def staged_at_def target_at_def)

lemma sort_key_sorted: "sorted (map f xs) \<Longrightarrow> sort_key f xs = xs"
  by (rule sort_key_id_if_sorted)

lemma decide_order_ready:
  assumes r: "ready env user i meta loc b st" and loc: "\<And>j. j < length (um_files meta) \<Longrightarrow>
      loc j = staged_at (um_files meta) j \<or> loc j = final_at (um_files meta) j"
  shows "decide_order env meta (ud_media (us_dir st))
    = (family (length (um_files meta)) (staged_at (um_files meta)) (final_at (um_files meta)), decision env meta b)"
proof -
  let ?m = "ud_media (us_dir st)" let ?files = "um_files meta" let ?n = "length ?files"
  have ok: "set_ok (fz_unicode env) ?files" and h: "holds ?m ?n loc b"
    and len: "\<And>j. j < ?n \<Longrightarrow> int (length (b j)) = fe_total (?files ! j)" using r by (simp_all add: ready_def placed_def)
  note fin = set_ok_nth(4) [OF ok]
  have at: "dict_get ?m (staged_at ?files j) = Some (b j) \<or> dict_get ?m (final_at ?files j) = Some (b j)" if "j < ?n" for j
    using holdsD [OF h that] loc [OF that] by auto
  have complete: "part_complete ?m (?files ! j)" if "j < ?n" for j
    using at [OF that] len [OF that] fin [OF that]
    by (auto simp: part_complete_def has_final_def received_bytes_def staged_at_def)
  have f1: "find (\<lambda>e. \<not> part_complete ?m e) ?files = None"
    using complete by (auto simp: find_None_iff in_set_conv_nth)
  have srt: "sort_key fe_index ?files = ?files"
    using ok by (intro sort_key_sorted) (simp add: set_ok_def)
  have "exists_file ?m (staged (final_of (?files ! j))) \<or> has_final ?m (?files ! j)" if "j < ?n" for j
    using at [OF that] len [OF that] fin [OF that] by (auto simp: exists_file_def has_final_def staged_at_def)
  then have "\<forall>e\<in>set ?files. exists_file ?m (staged (final_of e)) \<or> has_final ?m e"
    unfolding all_set_conv_all_nth by blast
  then have miss: "filter (\<lambda>e. \<not> exists_file ?m (staged (final_of e)) \<and> \<not> has_final ?m e) ?files = []"
    unfolding filter_empty_conv by blast
  have ms: "map (\<lambda>e. (staged (final_of e), final_of e)) ?files = family ?n (staged_at ?files) (final_at ?files)"
    by (rule nth_equalityI) (simp_all add: family_def fin staged_at_def)
  have fs: "map final_of ?files = map (final_at ?files) [0..<?n]"
    by (rule nth_equalityI) (simp_all add: fin)
  have multi: "finalize_multi ?m ?files = Inr (family ?n (staged_at ?files) (final_at ?files), map (final_at ?files) [0..<?n])"
    unfolding finalize_multi_def srt Let_def miss ms fs by simp
  let ?m' = "do_moves ?m (family ?n (staged_at ?files) (final_at ?files))"
  have "holds (do_moves ?m (take ?n (family ?n (staged_at ?files) (final_at ?files)))) ?n
      (\<lambda>j. if j < ?n then final_at ?files j else loc j) b"
    by (rule holds_family [OF h inj_staged [OF ok] inj_final [OF ok]]) (use staged_not_final [OF ok] loc in auto)
  then have h': "holds ?m' ?n (final_at ?files) b" by (auto elim: holds_cong)
  have "map (\<lambda>f. case dict_get ?m' f of None \<Rightarrow> None | Some b \<Rightarrow> fz_probe env b) (map (final_at ?files) [0..<?n])
      = map (\<lambda>j. fz_probe env (b j)) [0..<?n]"
    using holdsD [OF h'] by (intro nth_equalityI) simp_all
  then have pf: "probe_files env ?m' (map (final_at ?files) [0..<?n]) = all_some (map (\<lambda>j. fz_probe env (b j)) [0..<?n])"
    unfolding probe_files_def by (rule arg_cong)
  show ?thesis
    unfolding decide_order_def f1 option.case multi sum.case prod.case pf decision_def
    by (cases "all_some (map (\<lambda>j. fz_probe env (b j)) [0..<?n])") (simp_all split: option.split)
qed

lemma load_placed: "placed env user i meta loc b st \<Longrightarrow> load_owned_session user (us_dir st) = Inr meta"
  by (simp add: placed_def load_owned_session_def load_def)

lemma ready_placed: "ready env user i meta loc b st \<Longrightarrow> placed env user i meta loc b st"
  by (simp add: ready_def)

lemma plan_undecided:
  assumes r: "ready env user i meta loc b st" and un: "um_resolved meta = None"
    and loc: "\<And>j. j < length (um_files meta) \<Longrightarrow>
      loc j = staged_at (um_files meta) j \<or> loc j = final_at (um_files meta) j"
    and dec: "decision env meta b = Inr r'"
  shows "finalize_plan env user i st =
    (move_effects (family (length (um_files meta)) (staged_at (um_files meta)) (final_at (um_files meta)))
      @ [Persist r'] @ create_from_set env user i meta r', Created)"
proof -
  have s: "strays (ud_media (us_dir st)) = []"
  proof (rule strays_none)
    show "holds (ud_media (us_dir st)) (length (um_files meta)) loc b" using r by (simp add: ready_def placed_def)
    show "\<not> starts_with (lit ''ordered.'') (loc j)" if "j < length (um_files meta)" for j
      using loc [OF that] by (metis not_stray(1,2))
  qed
  have t: "get_task_for_user user i (us_db st) = None" "um_files meta \<noteq> []"
    using r by (auto simp: ready_def placed_def set_ok_def intro: no_task_for_user)
  have "decide_order env meta (do_moves (ud_media (us_dir st)) [])
      = (family (length (um_files meta)) (staged_at (um_files meta)) (final_at (um_files meta)), Inr r')"
    using decide_order_ready [OF r loc] dec by (simp add: do_moves_def)
  then show ?thesis
    using t un by (simp add: finalize_plan_def load_placed [OF ready_placed [OF r]] finalize_set_def s move_effects_def)
qed

lemma plan_decided:
  assumes r: "placed env user i meta loc b st" and res: "um_resolved meta = Some r'"
    and rec: "recovery_moves (strays (ud_media (us_dir st))) = (rs, True)"
  shows "finalize_plan env user i st = (move_effects rs @ create_from_set env user i meta r', Created)"
proof -
  have t: "get_task_for_user user i (us_db st) = None" "um_files meta \<noteq> []"
    using r by (auto simp: ready_def placed_def set_ok_def intro: no_task_for_user)
  then show ?thesis using res rec by (simp add: finalize_plan_def load_placed [OF r] finalize_set_def)
qed

text \<open>From the parts at their final names (some perhaps already under \<open>ordered.*\<close>), the rest of the plan
  brings them to their places and creates the task.\<close>

lemma run_create:
  assumes ok: "set_ok (fz_unicode env) (um_files meta)" and dec: "decision env meta b = Inr r'"
    and h: "holds (ud_media (us_dir st)) (length (um_files meta)) loc c" and new: "find_task (us_db st) i = None"
    and loc: "\<And>p. p < length (um_files meta) \<Longrightarrow> loc p = final_at (um_files meta) (source_of (fst r') p)
      \<or> loc p = waiting_at (um_files meta) (fst r') p"
  shows "finished_set user i meta r' c (run_effects env st (create_from_set env user i meta r'))"
proof -
  let ?files = "um_files meta" let ?n = "length ?files" let ?m = "ud_media (us_dir st)"
  obtain ordered rule where r': "r' = (ordered, rule)" by (metis prod.exhaust)
  note f = reorder_families [OF ok dec [unfolded r']]
  note names = reorder_names [OF ok decision_order(2) [OF ok dec [unfolded r']]]
  let ?one = "family ?n (\<lambda>p. final_at ?files (source_of ordered p)) (waiting_at ?files ordered)"
  let ?two = "family ?n (waiting_at ?files ordered) (target_at ?files ordered)"
  have "holds (do_moves ?m (take ?n ?one)) ?n (\<lambda>p. if p < ?n then waiting_at ?files ordered p else loc p) c"
    by (rule holds_family [OF h names(1,2)]) (use names(6) loc r' in auto)
  then have h1: "holds (do_moves ?m ?one) ?n (waiting_at ?files ordered) c" by (auto elim: holds_cong)
  have "holds (do_moves (do_moves ?m ?one) (take ?n ?two)) ?n
      (\<lambda>p. if p < ?n then target_at ?files ordered p else waiting_at ?files ordered p) c"
    by (rule holds_family [OF h1 names(2,3)]) (use names(5) in auto)
  then have h2: "holds (do_moves ?m (?one @ ?two)) ?n (target_at ?files ordered) c"
    by (auto simp: do_moves_append elim: holds_cong)
  have "find_task (create_task now i user url opts dir title (us_db st)) i = Some t'"
    if "t' = \<lparr>t_id = i, t_user = user, t_status = Queued, t_error = None,
        t_awaiting = None, t_created = now, t_updated = now, t_url = url, t_title = title,
        t_options = opts, t_dir = dir, t_transcript = None, t_summary = None, t_progress = None,
        t_steps = []\<rparr>" for now url opts dir title t'
  proof -
    have "find (\<lambda>t. t_id t = i) (xs @ [t']) = Some t'" if "find (\<lambda>t. t_id t = i) xs = None" "t_id t' = i" for xs
      using that by (induction xs) (auto split: if_splits)
    then show ?thesis using new that by (simp add: find_task_def create_task_def)
  qed
  then show ?thesis
    using h2 r' f by (simp add: finished_set_def create_from_set_def run_effects_append rename_to_concat_order_def)
qed

section \<open>Crashes and retries\<close>

abbreviation decided :: "upload_meta \<Rightarrow> set_entry list \<times> string \<Rightarrow> upload_meta" where
  "decided meta r \<equiv> meta\<lparr>um_resolved := Some r\<rparr>"

lemma decided_simps [simp]:
  "decision env (decided meta r) b = decision env meta b"
  "create_from_set env user i (decided meta r) r = create_from_set env user i meta r"
  "finished_set user i (decided meta r) r c st = finished_set user i meta r c st"
  by (simp_all add: decision_def create_from_set_def set_options_def finished_set_def cong: option.case_cong)

text \<open>A fresh complete set: all parts staged, no decision yet.\<close>

definition fresh_set :: "finalize_env \<Rightarrow> uuid \<Rightarrow> uuid \<Rightarrow> upload_meta \<Rightarrow> (nat \<Rightarrow> bytes) \<Rightarrow> upload_state \<Rightarrow> bool" where
  "fresh_set env user i meta b st \<longleftrightarrow> um_resolved meta = None \<and> ready env user i meta (staged_at (um_files meta)) b st"

text \<open>What the first \<open>k\<close> steps of its plan leave: before the decision is written, or after it.\<close>

lemma crash_before_decision:
  assumes fr: "fresh_set env user i meta b st" and dec: "decision env meta b = Inr r" and k: "k \<le> length (um_files meta)"
  shows "ready env user i meta (\<lambda>j. if j < k then final_at (um_files meta) j else staged_at (um_files meta) j) b
    (crash_after env user i k st)"
proof -
  let ?files = "um_files meta" let ?n = "length ?files" let ?F = "family ?n (staged_at ?files) (final_at ?files)"
  have rd: "ready env user i meta (staged_at ?files) b st" and un: "um_resolved meta = None"
    using fr by (simp_all add: fresh_set_def)
  have len: "length ?F = ?n" by (simp add: family_def)
  have e: "crash_after env user i k st
      = st\<lparr>us_dir := (us_dir st)\<lparr>ud_media := do_moves (ud_media (us_dir st)) (take k ?F)\<rparr>\<rparr>"
    using k len by (simp add: crash_after_def plan_undecided [OF rd un _ dec] take_move_effects)
  have ok: "set_ok (fz_unicode env) ?files" and h: "holds (ud_media (us_dir st)) ?n (staged_at ?files) b"
    using rd by (simp_all add: ready_def placed_def)
  have "holds (do_moves (ud_media (us_dir st)) (take k ?F)) ?n (\<lambda>j. if j < k then final_at ?files j else staged_at ?files j) b"
    by (rule holds_family [OF h inj_staged [OF ok] inj_final [OF ok]]) (use staged_not_final [OF ok] in auto)
  then show ?thesis using rd by (simp add: e ready_def placed_def)
qed

lemma crash_after_decision:
  assumes fr: "fresh_set env user i meta b st" and dec: "decision env meta b = Inr r"
  shows "\<exists>st1. ready env user i (decided meta r) (final_at (um_files meta)) b st1
    \<and> crash_after env user i (length (um_files meta) + 1 + k) st
      = run_effects env st1 (take k (create_from_set env user i meta r))"
proof -
  let ?files = "um_files meta" let ?n = "length ?files" let ?F = "family ?n (staged_at ?files) (final_at ?files)"
  have rd: "ready env user i meta (staged_at ?files) b st" and un: "um_resolved meta = None"
    using fr by (simp_all add: fresh_set_def)
  have len: "length ?F = ?n" by (simp add: family_def)
  let ?st = "run_effects env st (move_effects ?F @ [Persist r])"
  have e: "crash_after env user i (?n + 1 + k) st = run_effects env ?st (take k (create_from_set env user i meta r))"
    using len by (simp add: crash_after_def plan_undecided [OF rd un _ dec] run_effects_append)
  have ok: "set_ok (fz_unicode env) ?files" and h: "holds (ud_media (us_dir st)) ?n (staged_at ?files) b"
    using rd by (simp_all add: ready_def placed_def)
  have "holds (do_moves (ud_media (us_dir st)) (take ?n ?F)) ?n (\<lambda>j. if j < ?n then final_at ?files j else staged_at ?files j) b"
    by (rule holds_family [OF h inj_staged [OF ok] inj_final [OF ok]]) (use staged_not_final [OF ok] in auto)
  then have "holds (do_moves (ud_media (us_dir st)) ?F) ?n (final_at ?files) b" by (auto elim: holds_cong)
  then have "ready env user i (decided meta r) (final_at ?files) b ?st"
    using rd by (simp add: ready_def placed_def run_effects_append)
  then show ?thesis using e by blast
qed

text \<open>A retry that finds the decision: recovery, then both passes from where the parts are.\<close>

lemma retry_decided:
  assumes r: "placed env user i (decided meta r) loc c st" and dec: "decision env meta b = Inr r"
    and rec: "recovery_moves (strays (ud_media (us_dir st))) = (rs, True)"
    and h: "holds (do_moves (ud_media (us_dir st)) rs) (length (um_files meta)) (final_at (um_files meta)) c"
  shows "\<exists>st'. uploads_finalize env user i st = (st', Created)
    \<and> finished_set user i meta r (\<lambda>p. c (source_of (fst r) p)) st'"
proof -
  let ?files = "um_files meta" let ?n = "length ?files"
  have ok: "set_ok (fz_unicode env) (um_files meta)" and new: "find_task (us_db st) i = None" using r by (simp_all add: ready_def placed_def)
  obtain ordered rule where r': "r = (ordered, rule)" by (metis prod.exhaust)
  let ?st = "run_effects env st (move_effects rs)"
  have "holds (ud_media (us_dir ?st)) ?n (\<lambda>p. final_at ?files (source_of ordered p)) (\<lambda>p. c (source_of ordered p))"
    using holds_permute [OF h decision_order(2) [OF ok dec [unfolded r']]] by simp
  then have "finished_set user i meta r (\<lambda>p. c (source_of ordered p)) (run_effects env ?st (create_from_set env user i meta r))"
    by (rule run_create [OF ok dec]) (use new r' in auto)
  moreover have "uploads_finalize env user i st = (run_effects env ?st (create_from_set env user i meta r), Created)"
    using plan_decided [OF r _ rec] by (simp add: uploads_finalize_def run_effects_append)
  ultimately show ?thesis using r' by auto
qed

lemma early_crash_survived:
  assumes "fresh_set env user i meta b st" and "decision env meta b = Inr r"
    and "k \<le> length (um_files meta) + 1"
    and "uploads_finalize env user i (crash_after env user i k st) = (st', answer)"
  shows "answer = Created \<and> finished_set user i meta r (\<lambda>p. b (source_of (fst r) p)) st'"
proof -
  let ?files = "um_files meta" let ?n = "length ?files" let ?F = "family ?n (staged_at ?files) (final_at ?files)"
  have ok: "set_ok (fz_unicode env) ?files" and un: "um_resolved meta = None"
    using assms(1) by (simp_all add: fresh_set_def ready_def placed_def)
  show ?thesis
  proof (cases "k \<le> ?n")
    case True
    let ?loc = "\<lambda>j. if j < k then final_at ?files j else staged_at ?files j"
    let ?c = "crash_after env user i k st"
    have rd: "ready env user i meta ?loc b ?c" by (rule crash_before_decision [OF assms(1,2) True])
    have h: "holds (ud_media (us_dir ?c)) ?n ?loc b" using rd by (simp add: ready_def placed_def)
    have "holds (do_moves (ud_media (us_dir ?c)) (take ?n ?F)) ?n (\<lambda>j. if j < ?n then final_at ?files j else ?loc j) b"
      by (rule holds_family [OF h inj_staged [OF ok] inj_final [OF ok]]) (use staged_not_final [OF ok] in auto)
    then have h1: "holds (do_moves (ud_media (us_dir ?c)) ?F) ?n (final_at ?files) b" by (auto elim: holds_cong)
    obtain ordered rule where r: "r = (ordered, rule)" by (metis prod.exhaust)
    let ?st = "run_effects env ?c (move_effects ?F @ [Persist r])"
    have "holds (ud_media (us_dir ?st)) ?n (\<lambda>p. final_at ?files (source_of ordered p)) (\<lambda>p. b (source_of ordered p))"
      using holds_permute [OF h1 decision_order(2) [OF ok assms(2) [unfolded r]]] by (simp add: run_effects_append)
    then have "finished_set user i meta r (\<lambda>p. b (source_of ordered p)) (run_effects env ?st (create_from_set env user i meta r))"
      by (rule run_create [OF ok assms(2)]) (use rd r in \<open>auto simp: ready_def placed_def run_effects_append\<close>)
    moreover have "uploads_finalize env user i ?c = (run_effects env ?st (create_from_set env user i meta r), Created)"
      using plan_undecided [OF rd un _ assms(2)] by (simp add: uploads_finalize_def run_effects_append)
    ultimately show ?thesis using assms(4) r by auto
  next
    case False
    then have k: "k = ?n + 1 + 0" using assms(3) by simp
    obtain st1 where st1: "ready env user i (decided meta r) (final_at ?files) b st1" "crash_after env user i k st = st1"
      using crash_after_decision [OF assms(1,2), of 0] k by auto
    have h: "holds (ud_media (us_dir st1)) ?n (final_at ?files) b" using st1(1) by (simp add: ready_def placed_def)
    have "recovery_moves (strays (ud_media (us_dir st1))) = ([], True)" using strays_none [OF h] by simp
    then show ?thesis using retry_decided [OF ready_placed [OF st1(1)] assms(2)] h st1(2) assms(4) by (auto simp: do_moves_def)
  qed
qed

text \<open>(C39) A complete set is finalized into its resolved order: each part's bytes are at the place of its
  entry, the media directory holds nothing else, the task names the parts in that order and the sidecar
  is gone. This also holds when an earlier call died at any step before the first rename of the reorder
  (while it renamed staged parts, or after it wrote the decision): the retry completes the work.\<close>

theorem finalize_survives_early_crash:
  assumes "fresh_set env user i meta b st" and "decision env meta b = Inr r"
    and "k \<le> length (um_files meta) + 1"
    and "uploads_finalize env user i (crash_after env user i k st) = (st', answer)"
  shows "answer = Created \<and> finished_set user i meta r (\<lambda>p. b (source_of (fst r) p)) st'"
  using assms by (rule early_crash_survived)

subsection \<open>Inside the reorder\<close>

lemma create_from_set_steps:
  assumes ok: "set_ok (fz_unicode env) (um_files meta)" and dec: "decision env meta b = Inr r"
  shows "create_from_set env user i meta r = move_effects
      (family (length (um_files meta)) (\<lambda>p. final_at (um_files meta) (source_of (fst r) p)) (waiting_at (um_files meta) (fst r)))
    @ move_effects (family (length (um_files meta)) (waiting_at (um_files meta) (fst r)) (target_at (um_files meta) (fst r)))
    @ [CommitTask i user (lit ''file://'' @ se_name (hd (fst r))) (JDict (set_options meta r)) (um_display meta), RemoveSidecar]"
proof -
  obtain ordered rule where r: "r = (ordered, rule)" by (metis prod.exhaust)
  show ?thesis using reorder_families [OF ok dec [unfolded r]] r
    by (simp add: create_from_set_def rename_to_concat_order_def move_effects_def)
qed

lemma length_family [simp]: "length (family n a c) = n"
  by (simp add: family_def)

text \<open>What is placed after the first \<open>k\<close> renames of the first pass, and of the second.\<close>

lemma reorder_first:
  assumes rd: "placed env user i (decided meta r) (final_at (um_files meta)) b st1" and dec: "decision env meta b = Inr r"
    and k: "k \<le> length (um_files meta)"
  shows "placed env user i (decided meta r)
    (\<lambda>p. if p < k then waiting_at (um_files meta) (fst r) p else final_at (um_files meta) (source_of (fst r) p))
    (\<lambda>p. b (source_of (fst r) p)) (run_effects env st1 (take k (create_from_set env user i meta r)))"
proof -
  let ?files = "um_files meta" let ?n = "length ?files" let ?s = "source_of (fst r)"
  let ?one = "family ?n (\<lambda>p. final_at ?files (?s p)) (waiting_at ?files (fst r))"
  have ok: "set_ok (fz_unicode env) ?files" and h: "holds (ud_media (us_dir st1)) ?n (final_at ?files) b"
    using rd by (simp_all add: placed_def)
  obtain ordered rule where r: "r = (ordered, rule)" by (metis prod.exhaust)
  note bij = decision_order(2) [OF ok dec [unfolded r]]
  note names = reorder_names [OF ok bij]
  have "holds (do_moves (ud_media (us_dir st1)) (take k ?one)) ?n
      (\<lambda>p. if p < k then waiting_at ?files (fst r) p else final_at ?files (?s p)) (\<lambda>p. b (?s p))"
    by (rule holds_family [OF holds_permute [OF h]]) (use names bij r in auto)
  moreover have "take k (create_from_set env user i meta r) = move_effects (take k ?one)"
    using k by (simp add: create_from_set_steps [OF ok dec] take_move_effects)
  ultimately show ?thesis using rd by (simp add: placed_def)
qed

lemma reorder_second:
  assumes rd: "placed env user i (decided meta r) (final_at (um_files meta)) b st1" and dec: "decision env meta b = Inr r"
    and k: "k \<le> length (um_files meta)"
  shows "placed env user i (decided meta r)
    (\<lambda>p. if p < k then target_at (um_files meta) (fst r) p else waiting_at (um_files meta) (fst r) p)
    (\<lambda>p. b (source_of (fst r) p)) (run_effects env st1 (take (length (um_files meta) + k) (create_from_set env user i meta r)))"
proof -
  let ?files = "um_files meta" let ?n = "length ?files" let ?s = "source_of (fst r)"
  let ?two = "family ?n (waiting_at ?files (fst r)) (target_at ?files (fst r))"
  let ?st = "run_effects env st1 (take ?n (create_from_set env user i meta r))"
  have ok: "set_ok (fz_unicode env) ?files" using rd by (simp add: placed_def)
  obtain ordered rule where r: "r = (ordered, rule)" by (metis prod.exhaust)
  note names = reorder_names [OF ok decision_order(2) [OF ok dec [unfolded r]]]
  have p1: "placed env user i (decided meta r)
    (\<lambda>p. if p < ?n then waiting_at ?files (fst r) p else final_at ?files (?s p)) (\<lambda>p. b (?s p)) ?st"
    by (rule reorder_first [OF rd dec]) simp
  then have "holds (ud_media (us_dir ?st)) ?n (\<lambda>p. if p < ?n then waiting_at ?files (fst r) p else final_at ?files (?s p)) (\<lambda>p. b (?s p))"
    by (simp add: placed_def)
  then have "holds (ud_media (us_dir ?st)) ?n (waiting_at ?files (fst r)) (\<lambda>p. b (?s p))" by (auto elim: holds_cong)
  then have "holds (do_moves (ud_media (us_dir ?st)) (take k ?two)) ?n
      (\<lambda>p. if p < k then target_at ?files (fst r) p else waiting_at ?files (fst r) p) (\<lambda>p. b (?s p))"
    by (rule holds_family) (use names r in auto)
  moreover have "run_effects env st1 (take (?n + k) (create_from_set env user i meta r))
      = run_effects env ?st (move_effects (take k ?two))"
    using k by (simp add: create_from_set_steps [OF ok dec] take_move_effects run_effects_append del: run_move_effects)
  ultimately show ?thesis using p1 by (simp add: placed_def)
qed

text \<open>When every part has the same file type, recovery after the first pass brings each part to its place.\<close>

lemma target_same: "sfx_at files (source_of ordered p) = sfx_at files p \<Longrightarrow> target_at files ordered p = final_at files p"
  by (simp add: target_at_def final_at_def)

lemma recover_waiting:
  assumes pl: "placed env user i meta (\<lambda>p. if p < k then target_at files ordered p else waiting_at files ordered p) c st"
    and files: "um_files meta = files"
    and bij: "bij_betw (source_of ordered) {..<length files} {..<length files}"
  shows "\<exists>rs. recovery_moves (strays (ud_media (us_dir st))) = (rs, True)
    \<and> holds (do_moves (ud_media (us_dir st)) rs) (length files) (target_at files ordered) c"
proof -
  let ?files = files let ?n = "length ?files"
  have ok: "set_ok (fz_unicode env) ?files"
    and h: "holds (ud_media (us_dir st)) ?n (\<lambda>p. if p < k then target_at ?files ordered p else waiting_at ?files ordered p) c"
    using pl files by (simp_all add: placed_def)
  have lt: "source_of ordered p < ?n" if "p < ?n" for p using bij that by (auto simp: bij_betw_def)
  have g: "good_suffix (sfx_at ?files (source_of ordered p))" if "p < ?n" for p
    using set_ok_nth(2) [OF ok lt [OF that]] .
  have "\<exists>rs. recovery_moves (strays (ud_media (us_dir st))) = (rs, True)
    \<and> holds (do_moves (ud_media (us_dir st)) rs) ?n
       (\<lambda>p. if \<not> p < k then part_name p (sfx_at ?files (source_of ordered p))
            else (if p < k then target_at ?files ordered p else waiting_at ?files ordered p)) c"
    by (rule recover_holds [OF h]) (use g in \<open>auto simp: waiting_at_def target_at_def\<close>)
  then obtain rs where rs: "recovery_moves (strays (ud_media (us_dir st))) = (rs, True)"
    and "holds (do_moves (ud_media (us_dir st)) rs) ?n
       (\<lambda>p. if \<not> p < k then part_name p (sfx_at ?files (source_of ordered p))
            else (if p < k then target_at ?files ordered p else waiting_at ?files ordered p)) c" by blast
  then have "holds (do_moves (ud_media (us_dir st)) rs) ?n (target_at ?files ordered) c"
    by (auto simp: target_at_def elim: holds_cong)
  then show ?thesis using rs by blast
qed

text \<open>The comments promise that the reorder is safe to redo from wherever it stopped. It is not: when a
  call dies after the first pass and before the commit, the retry first finishes the renames and then
  applies the order once more to files that already have it, so for a set of one file type the part at
  each place is the one the order names for the place the order names. The task still lists the right order.\<close>

theorem interrupted_reorder_applied_twice:
  assumes "fresh_set env user i meta b st" and "decision env meta b = Inr r"
    and "\<forall>p<length (um_files meta). sfx_at (um_files meta) p = s"
    and "2 * length (um_files meta) + 1 \<le> k" and "k \<le> 3 * length (um_files meta) + 1"
    and "uploads_finalize env user i (crash_after env user i k st) = (st', answer)"
  shows "answer = Created \<and> finished_set user i meta r (\<lambda>p. b (source_of (fst r) (source_of (fst r) p))) st'"
proof -
  let ?files = "um_files meta" let ?n = "length ?files" let ?s = "source_of (fst r)"
  obtain j where k: "k = ?n + 1 + (?n + j)" and j: "j \<le> ?n"
    using assms(4,5) by (intro that [of "k - (2 * ?n + 1)"]) auto
  obtain st1 where st1: "ready env user i (decided meta r) (final_at ?files) b st1"
      "crash_after env user i k st = run_effects env st1 (take (?n + j) (create_from_set env user i meta r))"
    using crash_after_decision [OF assms(1,2), of "?n + j"] k by auto
  let ?c = "crash_after env user i k st"
  have pl: "placed env user i (decided meta r)
      (\<lambda>p. if p < j then target_at ?files (fst r) p else waiting_at ?files (fst r) p) (\<lambda>p. b (?s p)) ?c"
    using reorder_second [OF ready_placed [OF st1(1)] assms(2) j] st1(2) by simp
  have ok: "set_ok (fz_unicode env) ?files" using pl by (simp add: placed_def)
  obtain ordered rule where r: "r = (ordered, rule)" by (metis prod.exhaust)
  note bij = decision_order(2) [OF ok assms(2) [unfolded r]]
  have lt: "source_of ordered p < ?n" if "p < ?n" for p using bij that by (auto simp: bij_betw_def)
  obtain rs where rs: "recovery_moves (strays (ud_media (us_dir ?c))) = (rs, True)"
      "holds (do_moves (ud_media (us_dir ?c)) rs) ?n (target_at ?files ordered) (\<lambda>p. b (?s p))"
    using recover_waiting [OF pl [unfolded r fst_conv] _ bij] r by auto
  have "final_at ?files p = target_at ?files ordered p" if "p < ?n" for p
    using target_same [of ?files ordered p] assms(3) lt that by auto
  then have "holds (do_moves (ud_media (us_dir ?c)) rs) ?n (final_at ?files) (\<lambda>p. b (?s p))"
    by (intro holds_cong [OF rs(2)]) auto
  from retry_decided [OF pl assms(2) rs(1) this] show ?thesis using assms(6) by auto
qed

lemma created_task:
  assumes "find_task db i = None"
  shows "\<exists>t. find_task (create_task now i user url opts dir title db) i = Some t
    \<and> get_task_for_user user i (create_task now i user url opts dir title db) = Some t
    \<and> t_user t = user \<and> t_status t = Queued \<and> t_options t = opts"
proof -
  let ?t = "\<lparr>t_id = i, t_user = user, t_status = Queued, t_error = None,
        t_awaiting = None, t_created = now, t_updated = now, t_url = url, t_title = title,
        t_options = opts, t_dir = dir, t_transcript = None, t_summary = None, t_progress = None,
        t_steps = []\<rparr>"
  have f: "find P (xs @ [t]) = Some t" if "find P xs = None" "P t" for P and xs :: "task_row list" and t
    using that by (induction xs) (auto split: if_splits)
  have "find_task (create_task now i user url opts dir title db) i = Some ?t"
    using assms by (simp add: find_task_def create_task_def f)
  moreover have "get_task_for_user user i (create_task now i user url opts dir title db) = Some ?t"
    using no_task_for_user [OF assms] by (simp add: get_task_for_user_def create_task_def f)
  ultimately show ?thesis by (intro exI [of _ ?t]) simp
qed

text \<open>After the commit: the task is there, the parts are in place, and a retry answers with the task.\<close>

lemma after_commit:
  assumes rd: "placed env user i (decided meta r) (final_at (um_files meta)) b st1" and dec: "decision env meta b = Inr r"
    and k: "k > 2 * length (um_files meta)"
  defines "st \<equiv> run_effects env st1 (take k (create_from_set env user i meta r))"
  shows "holds (ud_media (us_dir st)) (length (um_files meta)) (target_at (um_files meta) (fst r)) (\<lambda>p. b (source_of (fst r) p))"
    and "\<exists>t. find_task (us_db st) i = Some t \<and> get_task_for_user user i (us_db st) = Some t
      \<and> t_user t = user \<and> t_status t = Queued \<and> t_options t = JDict (set_options meta r)"
    and "k = 2 * length (um_files meta) + 1 \<Longrightarrow> ud_sidecar (us_dir st) = Sidecar (decided meta r)"
proof -
  let ?files = "um_files meta" let ?n = "length ?files"
  have ok: "set_ok (fz_unicode env) ?files" using rd by (simp add: placed_def)
  let ?st = "run_effects env st1 (take (?n + ?n) (create_from_set env user i meta r))"
  let ?C = "CommitTask i user (lit ''file://'' @ se_name (hd (fst r))) (JDict (set_options meta r)) (um_display meta)"
  have p: "placed env user i (decided meta r)
    (\<lambda>p. if p < ?n then target_at ?files (fst r) p else waiting_at ?files (fst r) p) (\<lambda>p. b (source_of (fst r) p)) ?st"
    by (rule reorder_second [OF rd dec]) simp
  then have "holds (ud_media (us_dir ?st)) ?n (\<lambda>p. if p < ?n then target_at ?files (fst r) p else waiting_at ?files (fst r) p)
      (\<lambda>p. b (source_of (fst r) p))" by (simp add: placed_def)
  then have h: "holds (ud_media (us_dir ?st)) ?n (target_at ?files (fst r)) (\<lambda>p. b (source_of (fst r) p))"
    by (auto elim: holds_cong)
  have new: "find_task (us_db ?st) i = None" and sc: "ud_sidecar (us_dir ?st) = Sidecar (decided meta r)"
    using p by (simp_all add: placed_def)
  obtain j where j: "k = ?n + ?n + Suc j" using k by (metis add_Suc_right less_imp_Suc_add mult_2)
  have st: "st = run_effects env ?st (?C # take j [RemoveSidecar])"
    unfolding st_def j by (simp add: create_from_set_steps [OF ok dec] run_effects_append)
  show "holds (ud_media (us_dir st)) ?n (target_at ?files (fst r)) (\<lambda>p. b (source_of (fst r) p))"
    using h by (cases j) (simp_all add: st)
  show "\<exists>t. find_task (us_db st) i = Some t \<and> get_task_for_user user i (us_db st) = Some t
      \<and> t_user t = user \<and> t_status t = Queued \<and> t_options t = JDict (set_options meta r)"
    using created_task [OF new] by (cases j) (simp_all add: st)
  show "ud_sidecar (us_dir st) = Sidecar (decided meta r)" if "k = 2 * ?n + 1"
    using sc j that by (simp add: st)
qed

text \<open>When the files were selected in the order they are joined in, recovery undoes an unfinished reorder.\<close>

lemma settled_recovery:
  assumes rd: "placed env user i (decided meta r) (final_at (um_files meta)) b st1" and dec: "decision env meta b = Inr r"
    and id: "\<forall>p<length (um_files meta). source_of (fst r) p = p" and j: "j \<le> 2 * length (um_files meta)"
  defines "c \<equiv> run_effects env st1 (take j (create_from_set env user i meta r))"
  shows "\<exists>loc rs. placed env user i (decided meta r) loc b c
    \<and> recovery_moves (strays (ud_media (us_dir c))) = (rs, True)
    \<and> holds (do_moves (ud_media (us_dir c)) rs) (length (um_files meta)) (final_at (um_files meta)) b"
proof -
  let ?files = "um_files meta" let ?n = "length ?files" let ?s = "source_of (fst r)"
  have ok: "set_ok (fz_unicode env) ?files" using rd by (simp add: placed_def)
  obtain ordered rule where r: "r = (ordered, rule)" by (metis prod.exhaust)
  note bij = decision_order(2) [OF ok dec [unfolded r]]
  have b: "placed env user i (decided meta r) loc b c" if "placed env user i (decided meta r) loc (\<lambda>p. b (?s p)) c" for loc
    using that id unfolding placed_def by (auto elim: holds_cong)
  consider "j \<le> ?n" | x where "j = ?n + x" "x \<le> ?n"
    using j by (metis le_add_diff_inverse le_cases mult_2 nat_add_left_cancel_le)
  then show ?thesis
  proof cases
    case 1
    let ?loc = "\<lambda>p. if p < j then waiting_at ?files (fst r) p else final_at ?files (?s p)"
    have pl: "placed env user i (decided meta r) ?loc b c"
      using reorder_first [OF rd dec 1] by (intro b) (simp add: c_def)
    then have h: "holds (ud_media (us_dir c)) ?n ?loc b" by (simp add: placed_def)
    have "\<exists>rs. recovery_moves (strays (ud_media (us_dir c))) = (rs, True)
      \<and> holds (do_moves (ud_media (us_dir c)) rs) ?n (\<lambda>p. if p < j then part_name p (sfx_at ?files p) else ?loc p) b"
      by (rule recover_holds [OF h])
        (use id set_ok_nth(2) [OF ok] in \<open>auto simp: waiting_at_def final_at_def\<close>)
    then obtain rs where rs: "recovery_moves (strays (ud_media (us_dir c))) = (rs, True)"
      "holds (do_moves (ud_media (us_dir c)) rs) ?n (\<lambda>p. if p < j then part_name p (sfx_at ?files p) else ?loc p) b"
      by blast
    have "holds (do_moves (ud_media (us_dir c)) rs) ?n (final_at ?files) b"
      by (rule holds_cong [OF rs(2)]) (use id in \<open>simp_all add: final_at_def\<close>)
    then show ?thesis using pl rs(1) by blast
  next
    case (2 x)
    let ?loc = "\<lambda>p. if p < x then target_at ?files (fst r) p else waiting_at ?files (fst r) p"
    have pl: "placed env user i (decided meta r) ?loc b c"
      using reorder_second [OF rd dec 2(2)] 2(1) by (intro b) (simp add: c_def)
    obtain rs where rs: "recovery_moves (strays (ud_media (us_dir c))) = (rs, True)"
        "holds (do_moves (ud_media (us_dir c)) rs) ?n (target_at ?files ordered) b"
      using recover_waiting [OF pl [unfolded r fst_conv] _ bij] r by auto
    have "holds (do_moves (ud_media (us_dir c)) rs) ?n (final_at ?files) b"
      by (rule holds_cong [OF rs(2)]) (use id r in \<open>simp_all add: target_at_def final_at_def\<close>)
    then show ?thesis using pl rs(1) by blast
  qed
qed

text \<open>When the files were selected in the order they are joined in, a finalize may die at any step: the
  retry, or the task that is already there, is right, and every part is at its place.\<close>

theorem settled_order_survives_any_crash:
  assumes "fresh_set env user i meta b st" and "decision env meta b = Inr r"
    and "\<forall>p<length (um_files meta). source_of (fst r) p = p"
    and "uploads_finalize env user i (crash_after env user i k st) = (st', answer)"
  shows "(answer = Created \<or> (\<exists>t. answer = Existing t))
    \<and> holds (ud_media (us_dir st')) (length (um_files meta)) (final_at (um_files meta)) b
    \<and> (\<exists>t. find_task (us_db st') i = Some t \<and> t_user t = user \<and> t_options t = JDict (set_options meta r))"
proof -
  let ?files = "um_files meta" let ?n = "length ?files" let ?c = "crash_after env user i k st"
  have tgt: "target_at ?files (fst r) p = final_at ?files p" "b (source_of (fst r) p) = b p" if "p < ?n" for p
    using assms(3) that by (simp_all add: target_at_def final_at_def)
  have fin: ?thesis if "finished_set user i meta r (\<lambda>p. b (source_of (fst r) p)) st'" "answer = Created"
  proof -
    have "holds (ud_media (us_dir st')) ?n (target_at ?files (fst r)) (\<lambda>p. b (source_of (fst r) p))"
      using that(1) by (simp add: finished_set_def)
    then have "holds (ud_media (us_dir st')) ?n (final_at ?files) b" by (rule holds_cong) (simp_all add: tgt)
    then show ?thesis using that by (auto simp: finished_set_def)
  qed
  consider "k \<le> ?n + 1" | j where "k = ?n + 1 + j" by (metis le_add_diff_inverse nat_le_linear)
  then show ?thesis
  proof cases
    case 1
    then show ?thesis using early_crash_survived [OF assms(1,2) _ assms(4)] fin by blast
  next
    case (2 j)
    obtain st1 where st1: "ready env user i (decided meta r) (final_at ?files) b st1"
        "?c = run_effects env st1 (take j (create_from_set env user i meta r))"
      using crash_after_decision [OF assms(1,2), of j] 2 by auto
    note p1 = ready_placed [OF st1(1)]
    show ?thesis
    proof (cases "j \<le> 2 * ?n")
      case True
      obtain loc rs where "placed env user i (decided meta r) loc b ?c"
          "recovery_moves (strays (ud_media (us_dir ?c))) = (rs, True)"
          "holds (do_moves (ud_media (us_dir ?c)) rs) ?n (final_at ?files) b"
        using settled_recovery [OF p1 assms(2,3) True, folded st1(2)] by blast
      from retry_decided [OF this(1) assms(2) this(2,3)] show ?thesis using fin assms(4) by auto
    next
      case False
      then have "j > 2 * ?n" by simp
      note c = after_commit [OF p1 assms(2) this, folded st1(2)]
      have "holds (ud_media (us_dir ?c)) ?n (final_at ?files) b" by (rule holds_cong [OF c(1)]) (simp_all add: tgt)
      then show ?thesis using assms(4) c(2) by (auto simp: uploads_finalize_def finalize_plan_def)
    qed
  qed
qed

lemma distinct_single: "distinct xs \<Longrightarrow> set xs = {x} \<Longrightarrow> xs = [x]"
  by (cases xs; cases "tl xs") auto

lemma swapped_pair:
  assumes "bij_betw (source_of ordered) {..<2} {..<2}" "source_of ordered 0 = 1"
  shows "source_of ordered 0 = Suc 0" "source_of ordered (Suc 0) = 0"
proof -
  have b: "inj_on (source_of ordered) {..<2}" "source_of ordered ` {..<2} = {..<2}"
    using assms(1) by (simp_all add: bij_betw_def)
  have "source_of ordered 1 \<in> source_of ordered ` {..<2}" by (rule imageI) simp
  then have "source_of ordered 1 \<in> {..<2}" by (simp only: b(2))
  moreover have "source_of ordered 1 \<noteq> source_of ordered 0" using inj_on_eq_iff [OF b(1), of 1 0] by simp
  ultimately show "source_of ordered (Suc 0) = 0" using assms(2) by auto
  show "source_of ordered 0 = Suc 0" using assms(2) by simp
qed

text \<open>After one rename of the first pass, recovery puts the second file where the first one is.\<close>

lemma recovery_replaces:
  assumes h: "holds m 2 (\<lambda>p. if p < 1 then waiting_at files ordered p else final_at files (source_of ordered p)) c"
    and s: "source_of ordered 0 = Suc 0" "source_of ordered (Suc 0) = 0"
    and g: "good_suffix (sfx_at files 0)" "sfx_at files 0 = sfx_at files (Suc 0)"
  shows "recovery_moves (strays m) = ([(waiting_at files ordered 0, final_at files 0)], True)"
    and "dict_get (do_moves m [(waiting_at files ordered 0, final_at files 0)]) x
      = (if x = final_at files 0 then Some (c 0) else None)"
proof -
  define f0 w0 where n: "f0 = final_at files 0" "w0 = waiting_at files ordered 0"
  have ne: "w0 \<noteq> f0" by (simp add: n final_at_def waiting_at_def)
  have m: "dict_get m x = (if x = w0 then Some (c 0) else if x = f0 then Some (c 1) else None)" for x
  proof -
    have "dict_get m w0 = Some (c 0)" "dict_get m f0 = Some (c 1)"
      using holdsD [OF h, of 0] holdsD [OF h, of 1] by (simp_all add: n s)
    moreover have "dict_get m x = None" if "x \<noteq> w0" "x \<noteq> f0"
      using that by (intro holds_absent [OF h]) (auto simp: n s less_2_cases_iff)
    ultimately show ?thesis by simp
  qed
  have "starts_with (lit ''ordered.'') w0" "\<not> starts_with (lit ''ordered.'') f0" by (simp_all add: n waiting_at_def)
  then have "set (strays m) = {w0}" using strays_mem [of _ m] m by (auto split: if_splits)
  then have "strays m = [w0]" by (intro distinct_single) (simp_all add: strays_def)
  then show "recovery_moves (strays m) = ([(waiting_at files ordered 0, final_at files 0)], True)"
    using g by (simp add: n waiting_at_def final_at_def s)
  show "dict_get (do_moves m [(waiting_at files ordered 0, final_at files 0)]) x
      = (if x = final_at files 0 then Some (c 0) else None)"
    using ne by (simp add: do_moves_Cons rename_get m do_moves_def [of _ "[]"] flip: n)
qed

text \<open>The reorder then takes that one file to the second place.\<close>

lemma reorder_of_one:
  assumes s: "source_of ordered 0 = Suc 0" "source_of ordered (Suc 0) = 0"
    and g: "good_suffix (sfx_at files 0)" "sfx_at files 0 = sfx_at files (Suc 0)"
    and m: "\<And>x. dict_get m x = (if x = final_at files 0 then Some v else None)"
  shows "dict_get (do_moves m (family 2 (\<lambda>p. final_at files (source_of ordered p)) (waiting_at files ordered)
      @ family 2 (waiting_at files ordered) (target_at files ordered))) x = (if x = final_at files 1 then Some v else None)"
proof -
  define f0 f1 w0 w1 where n: "f0 = final_at files 0" "f1 = final_at files 1"
    "w0 = waiting_at files ordered 0" "w1 = waiting_at files ordered 1"
  have ne: "f0 \<noteq> f1" "w0 \<noteq> w1" "w0 \<noteq> f0" "w0 \<noteq> f1" "w1 \<noteq> f0" "w1 \<noteq> f1"
    using g by (auto simp: n final_at_def waiting_at_def s)
  have tgt: "target_at files ordered 0 = f0" "target_at files ordered (Suc 0) = f1"
    using g by (simp_all add: target_at_def n final_at_def s)
  have one: "family 2 (\<lambda>p. final_at files (source_of ordered p)) (waiting_at files ordered) = [(f1, w0), (f0, w1)]"
    by (simp add: family_def upt_rec n s)
  have two: "family 2 (waiting_at files ordered) (target_at files ordered) = [(w0, f0), (w1, f1)]"
    using tgt by (simp add: family_def upt_rec n)
  have "dict_get (do_moves m [(f1, w0), (f0, w1), (w0, f0), (w1, f1)]) x = (if x = f1 then Some v else None)"
    using ne m [folded n] by (simp add: do_moves_Cons rename_get do_moves_def [of _ "[]"])
  then show ?thesis unfolding one two append.simps n(2) .
qed

text \<open>A call that dies after the first rename of the reorder loses a part: two files of one type,
  selected in the wrong order. The retry moves the file under \<open>ordered.*\<close> to its place, where the other
  part still is, and replaces it; it reports success, and the task lists two files of which one is left.\<close>

theorem interrupted_first_pass_loses_part:
  assumes "fresh_set env user i meta b st" and "decision env meta b = Inr r"
    and "length (um_files meta) = 2" and "sfx_at (um_files meta) 0 = sfx_at (um_files meta) 1"
    and "source_of (fst r) 0 = 1"
    and "uploads_finalize env user i (crash_after env user i 4 st) = (st', answer)"
  shows "answer = Created
    \<and> (\<forall>x. dict_get (ud_media (us_dir st')) x = (if x = final_at (um_files meta) 1 then Some (b 1) else None))
    \<and> (\<exists>t. find_task (us_db st') i = Some t \<and> t_options t = JDict (set_options meta r) \<and> length (fst r) = 2)"
proof -
  let ?files = "um_files meta" let ?c = "crash_after env user i 4 st" let ?m = "ud_media (us_dir ?c)"
  have dec: "decision env meta b = Inr (fst r, snd r)" using assms(2) by simp
  obtain st1 where st1: "ready env user i (decided meta r) (final_at ?files) b st1"
      "?c = run_effects env st1 (take 1 (create_from_set env user i meta r))"
    using crash_after_decision [OF assms(1,2), of 1] assms(3) by auto
  note p1 = ready_placed [OF st1(1)]
  have ok: "set_ok (fz_unicode env) ?files" using p1 by (simp add: placed_def)
  note ord = decision_order [OF ok dec]
  note s = swapped_pair [OF ord(2) [unfolded assms(3)] assms(5)]
  have g: "good_suffix (sfx_at ?files 0)" "sfx_at ?files 0 = sfx_at ?files (Suc 0)"
    using set_ok_nth(2) [OF ok] assms(3,4) by simp_all
  let ?loc = "\<lambda>p. if p < 1 then waiting_at ?files (fst r) p else final_at ?files (source_of (fst r) p)"
  have pl: "placed env user i (decided meta r) ?loc (\<lambda>p. b (source_of (fst r) p)) ?c"
    using reorder_first [OF p1 assms(2), of 1] st1(2) assms(3) by simp
  then have h: "holds ?m 2 ?loc (\<lambda>p. b (source_of (fst r) p))" and new: "find_task (us_db ?c) i = None"
    using assms(3) by (simp_all add: placed_def)
  note rec = recovery_replaces [OF h s g]
  let ?rs = "[(waiting_at ?files (fst r) 0, final_at ?files 0)]"
  let ?M = "family 2 (\<lambda>p. final_at ?files (source_of (fst r) p)) (waiting_at ?files (fst r))
      @ family 2 (waiting_at ?files (fst r)) (target_at ?files (fst r))"
  let ?url = "lit ''file://'' @ se_name (hd (fst r))"
  have "uploads_finalize env user i ?c = (run_effects env ?c (move_effects ?rs @ create_from_set env user i meta r), Created)"
    using plan_decided [OF pl _ rec(1)] by (simp add: uploads_finalize_def)
  then have a: "answer = Created" and st': "st' = run_effects env ?c (move_effects (?rs @ ?M)
      @ [CommitTask i user ?url (JDict (set_options meta r)) (um_display meta), RemoveSidecar])"
    using assms(3,6) create_from_set_steps [OF ok assms(2)] by (simp_all add: move_effects_def)
  have md: "ud_media (us_dir st') = do_moves (do_moves ?m ?rs) ?M"
    unfolding st' by (simp add: run_effects_append do_moves_append [symmetric])
  have "dict_get (ud_media (us_dir st')) x = (if x = final_at ?files 1 then Some (b 1) else None)" for x
    unfolding md by (rule reorder_of_one [OF s g]) (simp add: rec(2) s)
  moreover have "\<exists>t. find_task (us_db st') i = Some t \<and> t_options t = JDict (set_options meta r)"
    using created_task [OF new, of "fz_now env" user ?url "JDict (set_options meta r)" "fz_dir env" "um_display meta"]
    unfolding st' by (auto simp: run_effects_append)
  ultimately show ?thesis using a ord(1) assms(3) by simp
qed

subsection \<open>The sidecar and the sweep\<close>

text \<open>The sweep asks the database before it deletes, and looks again only at the sidecar; but the
  sidecar of a set outlives the commit by one step. When a set older than the limit is finalized between
  the query and the deletion, the sweep removes the directory of a queued task.\<close>

theorem sweep_can_remove_live_task:
  assumes "fresh_set env user i meta b st" and "decision env meta b = Inr r"
    and "cs = find_abandoned_sessions pu now ttl arts" and "(i, path) \<in> set cs" and "\<not> fails path"
    and "live = task_ids_in (map fst cs) (us_db st)"
    and "st1 = crash_after env user i (3 * length (um_files meta) + 2) st"
    and "arts1 = dict_set arts path (us_dir st1)"
  shows "dict_get (fst (delete_abandoned_sessions (\<lambda>j. j \<in> set live) fails cs arts1)) path = None
    \<and> (\<exists>t. find_task (us_db st1) i = Some t \<and> t_user t = user \<and> t_status t = Queued)
    \<and> ud_sidecar (us_dir st1) \<noteq> NoSidecar"
proof -
  let ?n = "length (um_files meta)"
  obtain st0 where st0: "ready env user i (decided meta r) (final_at (um_files meta)) b st0"
      "crash_after env user i (?n + 1 + (2 * ?n + 1)) st = run_effects env st0 (take (2 * ?n + 1) (create_from_set env user i meta r))"
    using crash_after_decision [OF assms(1,2), of "2 * ?n + 1"] by blast
  have "?n + 1 + (2 * ?n + 1) = 3 * ?n + 2" by simp
  then have e: "st1 = run_effects env st0 (take (2 * ?n + 1) (create_from_set env user i meta r))"
    using st0(2) assms(7) by metis
  note c = after_commit [OF ready_placed [OF st0(1)] assms(2), of "2 * ?n + 1", folded e]
  have "find_task (us_db st) i = None" using assms(1) by (simp add: fresh_set_def ready_def placed_def)
  then have "i \<notin> set live" unfolding assms(6)
    by (auto simp: task_ids_in_def find_task_def find_None_iff)
  then have "dict_get (fst (delete_abandoned_sessions (\<lambda>j. j \<in> set live) fails cs arts1)) path = None"
    using delete_get [of "\<lambda>j. j \<in> set live" fails arts1 "[]" cs path] assms(4,5,8) c(3)
    by (auto simp: delete_abandoned_sessions_def)
  then show ?thesis using c(2,3) by auto
qed

text \<open>A single file is stranded when the process dies between the unlink of its sidecar and the commit:
  there is no task, every retry answers that the upload does not exist, no sweep ever collects the
  directory, and the file stays on disk.\<close>

theorem single_crash_strands_upload:
  assumes "ud_sidecar (us_dir st) = Sidecar meta" and "um_user meta = user" and "um_files meta = []"
    and "find_task (us_db st) i = None" and "dict_get (ud_media (us_dir st)) (staged (media_name (um_suffix meta))) = Some data"
    and "int (length data) = um_total meta" and "st1 = crash_after env user i 2 st"
  shows "uploads_finalize env user i st1 = (st1, Refused NotFound)
    \<and> find_task (us_db st1) i = None \<and> \<not> stale now ttl (us_dir st1)
    \<and> dict_get (ud_media (us_dir st1)) (media_name (um_suffix meta)) = Some data"
proof -
  have l: "load_owned_session user (us_dir st) = Inr meta" using assms(1,2) by (simp add: load_owned_session_def load_def)
  note nt = no_task_for_user [OF assms(4)]
  have s1: "st1 = run_effects env st [Move (staged (media_name (um_suffix meta))) (media_name (um_suffix meta)), RemoveSidecar]"
    using assms(3,5,6,7) by (simp add: crash_after_def finalize_plan_def nt l finalize_single_def received_bytes_def)
  then have e: "us_db st1 = us_db st" "ud_sidecar (us_dir st1) = NoSidecar"
    "dict_get (ud_media (us_dir st1)) (media_name (um_suffix meta)) = Some data"
    using assms(5) by (simp_all add: rename_get)
  have "uploads_finalize env user i st1 = (st1, Refused NotFound)"
    using e(1,2) nt [of user] by (simp add: uploads_finalize_def finalize_plan_def load_owned_session_def load_def)
  then show ?thesis using e assms(4) by (simp add: stale_def load_def)
qed

section \<open>Witnesses\<close>

definition demo_fz :: finalize_env where
  "demo_fz = \<lparr>fz_unicode = ascii_tables, fz_digits = ascii_digits, fz_stamp = (\<lambda>s. None),
     fz_probe = (\<lambda>d. Some \<lparr>mp_duration = 1, mp_creation = None, mp_has_video = False, mp_video_codec = None,
       mp_width = None, mp_height = None, mp_frame_rate = None, mp_audio_codec = None, mp_sample_rate = None,
       mp_channels = None\<rparr>), fz_now = 9, fz_dir = lit ''d''\<rparr>"

text \<open>A set of two files; \<open>swapped\<close> selects them in the wrong order.\<close>

definition demo_names :: "bool \<Rightarrow> ustr list" where
  "demo_names swapped = (if swapped then [lit ''r10.mp3'', lit ''r9.mp3''] else [lit ''r9.mp3'', lit ''r10.mp3''])"

definition demo_meta :: "bool \<Rightarrow> upload_meta" where
  "demo_meta swapped = \<lparr>um_user = 7, um_files = map (entry_of ascii_tables) (enumerate 0
       (map (\<lambda>n. \<lparr>fs_filename = n, fs_total = 2, fs_modified = None\<rparr>) (demo_names swapped))),
     um_kind = AudioSet, um_suffix = [], um_filename = [], um_received = 0, um_total = 4, um_options = [],
     um_display = None, um_created = Some 0, um_resolved = None\<rparr>"

definition demo_bytes :: "nat \<Rightarrow> bytes" where
  "demo_bytes i = [word_of_nat i, 5]"

definition demo_state :: "bool \<Rightarrow> upload_state" where
  "demo_state swapped = \<lparr>us_dir = \<lparr>ud_sidecar = Sidecar (demo_meta swapped),
     ud_media = map (\<lambda>i. (staged_at (um_files (demo_meta swapped)) i, demo_bytes i)) [0, 1]\<rparr>,
     us_db = \<lparr>db_tasks = [], db_asr = []\<rparr>\<rparr>"

definition demo_order :: "bool \<Rightarrow> set_entry list \<times> string" where
  "demo_order swapped = projr (decision demo_fz (demo_meta swapped) demo_bytes)"

lemma demo_decision: "decision demo_fz (demo_meta swapped) demo_bytes = Inr (demo_order swapped)"
proof -
  have "\<not> isl (decision demo_fz (demo_meta True) demo_bytes)" "\<not> isl (decision demo_fz (demo_meta False) demo_bytes)"
    by code_simp+
  then have "\<not> isl (decision demo_fz (demo_meta swapped) demo_bytes)" by (cases swapped) auto
  then show ?thesis by (simp add: demo_order_def)
qed

lemma demo_length: "length (um_files (demo_meta swapped)) = 2"
  by (simp add: demo_meta_def demo_names_def)

lemma demo_set_ok: "set_ok ascii_tables (um_files (demo_meta swapped))"
proof -
  have "set_ok ascii_tables (um_files (demo_meta True))" "set_ok ascii_tables (um_files (demo_meta False))" by code_simp+
  then show ?thesis by (cases swapped) auto
qed

lemma demo_fresh: "fresh_set demo_fz 7 3 (demo_meta swapped) demo_bytes (demo_state swapped)"
proof -
  let ?files = "um_files (demo_meta swapped)" let ?m = "ud_media (us_dir (demo_state swapped))"
  have ne: "staged_at ?files 0 \<noteq> staged_at ?files 1"
    using inj_onD [OF inj_staged [OF demo_set_ok [of swapped]], of 0 1] demo_length [of swapped] by auto
  have m: "dict_get ?m x = (if x = staged_at ?files 0 then Some (demo_bytes 0)
      else if x = staged_at ?files 1 then Some (demo_bytes 1) else None)" for x
    by (simp add: demo_state_def dict_get_def)
  have "holds ?m 2 (staged_at ?files) demo_bytes"
    unfolding holds_def using m ne by (auto simp: less_2_cases_iff split: if_splits)
  moreover have "int (length (demo_bytes j)) = fe_total (?files ! j)" if "j < 2" for j
    using that by (auto simp: less_2_cases_iff demo_meta_def demo_names_def entry_of_def demo_bytes_def)
  moreover have "set_ok (fz_unicode demo_fz) ?files" using demo_set_ok by (simp add: demo_fz_def)
  moreover have "um_user (demo_meta swapped) = 7" "um_resolved (demo_meta swapped) = None" by (simp_all add: demo_meta_def)
  moreover have "ud_sidecar (us_dir (demo_state swapped)) = Sidecar (demo_meta swapped)"
      "find_task (us_db (demo_state swapped)) 3 = None" by (simp_all add: demo_state_def find_task_def)
  ultimately show ?thesis by (simp add: fresh_set_def ready_def placed_def demo_length)
qed

theorem finalize_survives_early_crash_witness:
  "\<exists>st'. uploads_finalize demo_fz 7 3 (crash_after demo_fz 7 3 3 (demo_state True)) = (st', Created)
    \<and> finished_set 7 3 (demo_meta True) (demo_order True) (\<lambda>p. demo_bytes (source_of (fst (demo_order True)) p)) st'"
  using finalize_survives_early_crash [OF demo_fresh demo_decision _ prod.collapse [symmetric], of 3 True]
  by (metis demo_length numeral_2_eq_2 numeral_3_eq_3 One_nat_def add_Suc_right add_0_right order_refl prod.collapse)

theorem settled_order_survives_any_crash_witness:
  "holds (ud_media (us_dir (fst (uploads_finalize demo_fz 7 3 (crash_after demo_fz 7 3 4 (demo_state False)))))) 2
     (final_at (um_files (demo_meta False))) demo_bytes"
proof -
  have "list_all (\<lambda>p. source_of (fst (demo_order False)) p = p) [0, 1]" by code_simp
  then have "\<forall>p<length (um_files (demo_meta False)). source_of (fst (demo_order False)) p = p"
    by (auto simp: demo_length less_2_cases_iff)
  from settled_order_survives_any_crash [OF demo_fresh demo_decision this prod.collapse [symmetric], of 4]
  show ?thesis by (simp add: demo_length)
qed

theorem interrupted_reorder_applied_twice_witness:
  "\<exists>st'. uploads_finalize demo_fz 7 3 (crash_after demo_fz 7 3 6 (demo_state True)) = (st', Created)
     \<and> finished_set 7 3 (demo_meta True) (demo_order True)
        (\<lambda>p. demo_bytes (source_of (fst (demo_order True)) (source_of (fst (demo_order True)) p))) st'
     \<and> source_of (fst (demo_order True)) 0 = 1
     \<and> demo_bytes (source_of (fst (demo_order True)) (source_of (fst (demo_order True)) 0)) \<noteq> demo_bytes 1"
proof -
  have "list_all (\<lambda>p. sfx_at (um_files (demo_meta True)) p = lit ''.mp3'') [0, 1]" by code_simp
  then have "\<forall>p<length (um_files (demo_meta True)). sfx_at (um_files (demo_meta True)) p = lit ''.mp3''"
    by (auto simp: demo_length less_2_cases_iff)
  from interrupted_reorder_applied_twice [OF demo_fresh demo_decision this _ _ prod.collapse [symmetric], of 6]
  have a: "snd (uploads_finalize demo_fz 7 3 (crash_after demo_fz 7 3 6 (demo_state True))) = Created
     \<and> finished_set 7 3 (demo_meta True) (demo_order True)
        (\<lambda>p. demo_bytes (source_of (fst (demo_order True)) (source_of (fst (demo_order True)) p)))
        (fst (uploads_finalize demo_fz 7 3 (crash_after demo_fz 7 3 6 (demo_state True))))"
    by (simp add: demo_length)
  have "source_of (fst (demo_order True)) 0 = 1" by code_simp
  moreover have "demo_bytes (source_of (fst (demo_order True)) (source_of (fst (demo_order True)) 0)) \<noteq> demo_bytes 1" by code_simp
  ultimately show ?thesis using a by (metis prod.collapse)
qed

theorem interrupted_first_pass_loses_part_witness:
  "snd (uploads_finalize demo_fz 7 3 (crash_after demo_fz 7 3 4 (demo_state True))) = Created
   \<and> dict_get (ud_media (us_dir (fst (uploads_finalize demo_fz 7 3 (crash_after demo_fz 7 3 4 (demo_state True))))))
       (final_at (um_files (demo_meta True)) 0) = None"
proof -
  have "sfx_at (um_files (demo_meta True)) 0 = sfx_at (um_files (demo_meta True)) 1" by code_simp
  moreover have "source_of (fst (demo_order True)) 0 = 1" by code_simp
  moreover have "final_at (um_files (demo_meta True)) 0 \<noteq> final_at (um_files (demo_meta True)) 1"
    using inj_onD [OF inj_final [OF demo_set_ok [of True]], of 0 1] demo_length [of True] by auto
  ultimately show ?thesis
    using interrupted_first_pass_loses_part [OF demo_fresh demo_decision demo_length _ _ prod.collapse [symmetric]] by simp
qed

theorem sweep_can_remove_live_task_witness:
  "dict_get (fst (delete_abandoned_sessions (\<lambda>j. j \<in> set []) (\<lambda>p. False) [(3, [], [51])]
      (dict_set [(([], [51]), us_dir (demo_state True))] ([], [51]) (us_dir (crash_after demo_fz 7 3 8 (demo_state True))))))
     ([], [51]) = None
   \<and> find_task (us_db (crash_after demo_fz 7 3 8 (demo_state True))) 3 \<noteq> None"
proof -
  let ?pu = "\<lambda>s::ustr. if s = [51] then Some (3::uuid) else None"
  let ?arts = "[(([]::ustr, [51]::ustr), us_dir (demo_state True))]"
  have "stale 86400000000 86400 (us_dir (demo_state True))"
    by (simp add: stale_def load_def demo_state_def demo_meta_def)
  then have cs: "find_abandoned_sessions ?pu 86400000000 86400 ?arts = [(3, [], [51])]"
    by (simp add: find_abandoned_sessions_def scan_one_def)
  have live: "task_ids_in (map fst [(3::uuid, []::ustr, [51]::ustr)]) (us_db (demo_state True)) = []"
    by (simp add: task_ids_in_def demo_state_def)
  show ?thesis
    using sweep_can_remove_live_task [where path = "([], [51])" and fails = "\<lambda>p. False",
        OF demo_fresh demo_decision cs [symmetric] _ _ live [symmetric] refl refl]
    by (auto simp: demo_length)
qed

theorem single_crash_strands_upload_witness:
  "\<exists>st1. uploads_finalize demo_fz 1 3 st1 = (st1, Refused NotFound)
     \<and> dict_get (ud_media (us_dir st1)) (media_name (lit ''.mp4'')) = Some [7, 8, 9]"
proof -
  let ?meta = "case ud_sidecar demo_dir of Sidecar m \<Rightarrow> m"
  let ?st = "\<lparr>us_dir = demo_dir\<lparr>ud_media := [(demo_part, [7, 8, 9])]\<rparr>, us_db = \<lparr>db_tasks = [], db_asr = []\<rparr>\<rparr>"
  have s: "ud_sidecar demo_dir = Sidecar ?meta"
  proof -
    have "case ud_sidecar demo_dir of Sidecar m \<Rightarrow> True | _ \<Rightarrow> False" by code_simp
    then show ?thesis by (cases "ud_sidecar demo_dir") simp_all
  qed
  have m: "um_user ?meta = 1" "um_files ?meta = []" "um_suffix ?meta = lit ''.mp4''" "um_total ?meta = 3" by code_simp+
  have s': "ud_sidecar (us_dir ?st) = Sidecar ?meta" using s by simp
  have new: "find_task (us_db ?st) 3 = None" by (simp add: find_task_def)
  have d: "dict_get (ud_media (us_dir ?st)) (staged (media_name (um_suffix ?meta))) = Some [7, 8, 9]"
    using m(3) by (simp add: dict_get_def demo_part_def)
  have l: "int (length [7::8 word, 8, 9]) = um_total ?meta" using m(4) by simp
  show ?thesis using single_crash_strands_upload [OF s' m(1,2) new d l refl] m(3) by metis
qed

section \<open>From the first request to the task\<close>

abbreviation clear_received :: "file_entry \<Rightarrow> file_entry" where
  "clear_received e \<equiv> e\<lparr>fe_received := 0\<rparr>"

lemma clear_set_received [simp]: "map clear_received (set_received i n es) = map clear_received es"
  by (induction i n es rule: set_received.induct) auto

lemma final_of_clear [simp]: "final_of (clear_received e) = final_of e"
  by (simp add: final_of_def)

text \<open>A set session before its finalize: the sidecar describes the entries \<open>E\<close> or is lost, and the media
  directory holds staging files only.\<close>

definition uploading :: "uuid \<Rightarrow> file_entry list \<Rightarrow> upload_dir \<Rightarrow> bool" where
  "uploading user E d \<longleftrightarrow> (case ud_sidecar d of NoSidecar \<Rightarrow> False | Torn \<Rightarrow> True
     | Sidecar m \<Rightarrow> um_user m = user \<and> um_resolved m = None \<and> map clear_received (um_files m) = E)
   \<and> (\<forall>x. dict_get (ud_media d) x \<noteq> None \<longrightarrow> (\<exists>e\<in>set E. x = staged (final_of e)))"

lemma uploading_staging:
  assumes "uploading user E d" "E \<noteq> []" "staging_of u i d = Inr (part, n)"
  shows "\<exists>m. ud_sidecar d = Sidecar m \<and> um_files m \<noteq> [] \<and> (\<exists>e\<in>set E. part = staged (final_of e))"
proof -
  obtain m where m: "ud_sidecar d = Sidecar m" "map clear_received (um_files m) = E"
    using assms(1,3) by (auto simp: uploading_def staging_of_def load_owned_session_def load_def split: sidecar.splits)
  then have ne: "um_files m \<noteq> []" using assms(2) by auto
  obtain e where e: "find (\<lambda>e. fe_index e = i) (um_files m) = Some e" "part = staged (final_of e)"
    using assms(3) m(1) ne by (auto simp: staging_of_def load_owned_session_def load_def entry_for_index_def final_of_def
        split: if_splits option.splits)
  have "clear_received e \<in> set E" using find_member [OF e(1)] m(2) by auto
  then show ?thesis using m(1) ne e(2) by (intro exI [of _ m] conjI bexI [of _ "clear_received e"]) simp_all
qed

lemma uploading_append:
  assumes "uploading user E d" "e \<in> set E"
  shows "uploading user E (fst (append_chunk_at (staged (final_of e)) data i d))"
    and "uploading user E (crash_append (staged (final_of e)) data torn d)"
proof -
  have x: "\<exists>e\<in>set E. x = staged (final_of e)" if "dict_get (append_bytes (ud_media d) (staged (final_of e)) data) x \<noteq> None" for x
    using assms that by (auto simp: uploading_def append_bytes_def split: if_splits)
  then show "uploading user E (fst (append_chunk_at (staged (final_of e)) data i d))"
    using assms(1) by (auto simp: uploading_def append_chunk_at_def Let_def split: sidecar.splits)
  show "uploading user E (crash_append (staged (final_of e)) data torn d)"
    using assms(1) x by (auto simp: uploading_def crash_append_def split: sidecar.splits)
qed

lemma uploading_step:
  assumes "uploading user E d" "E \<noteq> []"
  shows "uploading user E (chunk_step u d ev)"
proof (cases ev)
  case (Patch i off data)
  show ?thesis
  proof (cases "patch_offset u i off d")
    case (Inr x)
    then obtain part n where st: "staging_of u i d = Inr (part, n)" and x: "x = (part, n, off)"
      by (auto simp: patch_offset_def Let_def split: sum.splits if_splits prod.splits)
    obtain m e where m: "ud_sidecar d = Sidecar m" "um_files m \<noteq> []" "e \<in> set E" "part = staged (final_of e)"
      using uploading_staging [OF assms st] by blast
    then have "is_multi d" by (simp add: is_multi_def load_def)
    then show ?thesis using Patch Inr x m(3,4) assms(1) uploading_append(1) [OF assms(1) m(3), of data i]
      by (auto simp: uploads_patch_def patch_append_def split: option.split prod.splits)
  qed (use Patch assms in \<open>simp add: uploads_patch_def\<close>)
next
  case (CrashedPatch i off data k torn)
  show ?thesis
  proof (cases "patch_offset u i off d")
    case (Inr x)
    then obtain part n where st: "staging_of u i d = Inr (part, n)" and x: "x = (part, n, off)"
      by (auto simp: patch_offset_def Let_def split: sum.splits if_splits prod.splits)
    obtain e where "e \<in> set E" "part = staged (final_of e)" using uploading_staging [OF assms st] by blast
    then show ?thesis using CrashedPatch Inr x assms(1) uploading_append(2) [OF assms(1)] by (auto simp del: patch_body_def)
  qed (use CrashedPatch assms in simp)
qed

lemma uploading_run: "uploading user E d \<Longrightarrow> E \<noteq> [] \<Longrightarrow> uploading user E (foldl (chunk_step u) d evs)"
  by (induction evs arbitrary: d) (simp_all add: uploading_step)

definition entries_of :: "unicode \<Rightarrow> file_spec list \<Rightarrow> file_entry list" where
  "entries_of uc files = map (entry_of uc) (enumerate 0 files)"

lemma touches_dom:
  "dict_get (foldl (\<lambda>m e. touch m (h e)) m es) x \<noteq> None \<Longrightarrow> dict_get m x \<noteq> None \<or> (\<exists>e\<in>set es. x = h e)"
  by (induction es arbitrary: m) (fastforce simp: content_touch split: if_splits)+

lemma uploading_init:
  assumes "uploads_init env user now r = Inr d" "ir_files r \<noteq> []"
  shows "uploading user (entries_of (ue_unicode env) (ir_files r)) d"
  using assms(1)
proof (cases rule: uploads_init_cases)
  case (multi kind options display)
  have "map clear_received (entries_of uc fs) = entries_of uc fs" for uc fs
    by (simp add: entries_of_def entry_of_def)
  moreover have "\<exists>e\<in>set (entries_of (ue_unicode env) (ir_files r)). x = staged (final_of e)"
    if "dict_get (ud_media d) x \<noteq> None" for x
    using touches_dom [of "\<lambda>e. staged (part_name (fe_index e) (fe_suffix e))" "[]" "entries_of (ue_unicode env) (ir_files r)" x]
      that multi(4) by (simp add: init_multi_def Let_def entries_of_def final_of_def)
  ultimately show ?thesis using multi(4) by (simp add: uploading_def init_multi_def Let_def entries_of_def)
qed (use assms in simp)

lemma set_ok_entries:
  assumes "check_files env files = Inr kind" "files \<noteq> []" "map clear_received es = entries_of (ue_unicode env) files"
  shows "set_ok (ue_unicode env) es" and "j < length es \<Longrightarrow> fe_total (es ! j) > 0"
    and "length es = length files"
proof -
  show l: "length es = length files" using arg_cong [OF assms(3), of length] by (simp add: entries_of_def)
  have nth: "clear_received (es ! j) = entry_of (ue_unicode env) (j, files ! j)" if "j < length es" for j
    using arg_cong [OF assms(3), of "\<lambda>xs. xs ! j"] that l by (simp add: entries_of_def nth_enumerate_eq)
  have e: "fe_index (es ! j) = j" "fe_suffix (es ! j) = lower_suffix (ue_unicode env) (fe_filename (es ! j))"
    "good_suffix (fe_suffix (es ! j))" "fe_total (es ! j) > 0" if "j < length es" for j
    using arg_cong [OF nth [OF that], of fe_index] arg_cong [OF nth [OF that], of fe_suffix]
      arg_cong [OF nth [OF that], of fe_filename] arg_cong [OF nth [OF that], of fe_total]
      check_files_good [OF assms(1), of "files ! j"] that l by (simp_all add: entry_of_def)
  show "set_ok (ue_unicode env) es"
    using e(1-3) assms(2) l by (auto simp: set_ok_def list_all_length intro: nth_equalityI)
  show "j < length es \<Longrightarrow> fe_total (es ! j) > 0" by (rule e(4))
qed

text \<open>When every staged file has its declared size, an uploaded set is ready to be finalized.\<close>

lemma uploaded_fresh:
  assumes init: "uploads_init env user now r = Inr d0" "ir_files r \<noteq> []"
    and run: "list_all (honest user src d0) evs" "d = foldl (chunk_step user) d0 evs" "ud_sidecar d = Sidecar meta"
    and complete: "\<forall>j<length (um_files meta).
      int (length (content d (staged_at (um_files meta) j))) = fe_total (um_files meta ! j)
      \<and> int (length (src (staged_at (um_files meta) j))) = fe_total (um_files meta ! j)"
    and fz: "fz_unicode fz = ue_unicode env" and new: "find_task db i = None"
  shows "fresh_set fz user i meta (\<lambda>j. src (staged_at (um_files meta) j)) \<lparr>us_dir = d, us_db = db\<rparr>"
proof -
  let ?files = "um_files meta" let ?E = "entries_of (ue_unicode env) (ir_files r)"
  obtain kind where cf: "check_files env (ir_files r) = Inr kind"
    using init by (cases rule: uploads_init_cases) auto
  have ne: "?E \<noteq> []" using init(2) by (simp add: entries_of_def)
  have up: "uploading user ?E d" unfolding run(2) by (rule uploading_run [OF uploading_init [OF init] ne])
  then have m: "um_user meta = user" "um_resolved meta = None" "map clear_received ?files = ?E"
    using run(3) by (simp_all add: uploading_def)
  note ok = set_ok_entries [OF cf init(2) m(3)]
  have f: "faithful user src d0 d" using faithful_run [OF init(1) run(1)] run(2) by simp
  have c: "content d (staged_at ?files j) = src (staged_at ?files j)" if "j < length ?files" for j
  proof -
    have "prefix (content d (staged_at ?files j)) (src (staged_at ?files j))" using f by (simp add: faithful_def)
    moreover have "length (content d (staged_at ?files j)) = length (src (staged_at ?files j))"
      using complete [rule_format, OF that] by (metis of_nat_eq_iff)
    ultimately show ?thesis by (auto simp: prefix_def)
  qed
  have h: "dict_get (ud_media d) (staged_at ?files j) = Some (src (staged_at ?files j))" if "j < length ?files" for j
    using c [OF that] ok(2) [OF that] complete that
    by (cases "dict_get (ud_media d) (staged_at ?files j)") (auto simp: content_def)
  have "\<exists>j<length ?files. x = staged_at ?files j" if x: "dict_get (ud_media d) x \<noteq> None" for x
  proof -
    obtain e where "e \<in> set ?E" "x = staged (final_of e)" using up x by (auto simp: uploading_def)
    then obtain e' where "e' \<in> set ?files" "x = staged (final_of e')" using m(3) by (metis (no_types, lifting) final_of_clear imageE list.set_map)
    then show ?thesis using set_ok_nth(4) [OF ok(1)] by (auto simp: in_set_conv_nth staged_at_def)
  qed
  then show ?thesis
    using m(1,2) ok(1) run(3) complete fz new h by (simp add: fresh_set_def ready_def placed_def holds_def)
qed

text \<open>(C40) The whole flow: a set whose files were sent by an honest client, with crashes in the middle of
  appends in between, and are complete becomes a task whose media are the sources, in the resolved order.
  The conditions: the sidecar can still be read (a crash that tore it on a chunk's rewrite leaves the files
  complete and finalize answering 404); the probe accepts every file, so that an order is decided; the
  session's id is not yet that of a task; and finalize lowers suffixes by the tables the session was
  opened with.\<close>

theorem uploaded_set_becomes_task:
  assumes "uploads_init env user now r = Inr d0" and "ir_files r \<noteq> []"
    and "list_all (honest user src d0) evs" and "d = foldl (chunk_step user) d0 evs" and "ud_sidecar d = Sidecar meta"
    and "\<forall>j<length (um_files meta).
      int (length (content d (staged_at (um_files meta) j))) = fe_total (um_files meta ! j)
      \<and> int (length (src (staged_at (um_files meta) j))) = fe_total (um_files meta ! j)"
    and "fz_unicode fz = ue_unicode env" and "find_task db i = None"
    and "decision fz meta (\<lambda>j. src (staged_at (um_files meta) j)) = Inr ro"
    and "uploads_finalize fz user i \<lparr>us_dir = d, us_db = db\<rparr> = (st', answer)"
  shows "answer = Created
    \<and> finished_set user i meta ro (\<lambda>p. src (staged_at (um_files meta) (source_of (fst ro) p))) st'"
proof -
  have "fresh_set fz user i meta (\<lambda>j. src (staged_at (um_files meta) j)) \<lparr>us_dir = d, us_db = db\<rparr>"
    by (rule uploaded_fresh [OF assms(1-8)])
  from early_crash_survived [OF this assms(9), of 0] assms(10) show ?thesis by (simp add: crash_after_def)
qed


definition demo_set_request :: init_request where
  "demo_set_request = demo_request\<lparr>ir_files := map (\<lambda>n. \<lparr>fs_filename = n, fs_total = 1, fs_modified = None\<rparr>) (demo_names True)\<rparr>"

definition demo_set_dir :: upload_dir where
  "demo_set_dir = projr (uploads_init demo_env 7 0 demo_set_request)"

definition demo_src :: "ustr \<Rightarrow> bytes" where
  "demo_src f = (if f = staged (part_name 0 (lit ''.mp3'')) then [7] else [8])"

definition demo_run :: upload_dir where
  "demo_run = foldl (chunk_step 7) demo_set_dir [Patch 0 0 [7], CrashedPatch 1 0 [8] 0 False, Patch 1 0 [8]]"

definition demo_run_meta :: upload_meta where
  "demo_run_meta = (case ud_sidecar demo_run of Sidecar m \<Rightarrow> m)"

text \<open>The hypotheses on the finished run, evaluated together.\<close>

definition run_complete :: "finalize_env \<Rightarrow> (ustr \<Rightarrow> bytes) \<Rightarrow> upload_dir \<Rightarrow> bool" where
  "run_complete fz src d = (case ud_sidecar d of Sidecar m \<Rightarrow>
       length (um_files m) = 2 \<and> list_all (\<lambda>j. int (length (content d (staged_at (um_files m) j))) = fe_total (um_files m ! j)
      \<and> int (length (src (staged_at (um_files m) j))) = fe_total (um_files m ! j)) [0, 1]
      \<and> \<not> isl (decision fz m (\<lambda>j. src (staged_at (um_files m) j))) | _ \<Rightarrow> False)"

theorem uploaded_set_becomes_task_witness:
  "\<exists>st' ro. uploads_finalize demo_fz 7 3 \<lparr>us_dir = demo_run, us_db = \<lparr>db_tasks = [], db_asr = []\<rparr>\<rparr> = (st', Created)
     \<and> finished_set 7 3 demo_run_meta ro (\<lambda>p. demo_src (staged_at (um_files demo_run_meta) (source_of (fst ro) p))) st'"
proof -
  have "\<not> isl (uploads_init demo_env 7 0 demo_set_request)" by code_simp
  then have init: "uploads_init demo_env 7 0 demo_set_request = Inr demo_set_dir" by (simp add: demo_set_dir_def)
  have ne: "ir_files demo_set_request \<noteq> []" by (simp add: demo_set_request_def demo_names_def)
  have honest: "list_all (honest 7 demo_src demo_set_dir) [Patch 0 0 [7], CrashedPatch 1 0 [8] 0 False, Patch 1 0 [8]]"
    by code_simp
  have all: "run_complete demo_fz demo_src demo_run" by code_simp
  then have meta: "ud_sidecar demo_run = Sidecar demo_run_meta"
    by (simp add: demo_run_meta_def run_complete_def split: sidecar.splits)
  have complete: "\<forall>j<length (um_files demo_run_meta).
      int (length (content demo_run (staged_at (um_files demo_run_meta) j))) = fe_total (um_files demo_run_meta ! j)
      \<and> int (length (demo_src (staged_at (um_files demo_run_meta) j))) = fe_total (um_files demo_run_meta ! j)"
    using all by (auto simp: run_complete_def meta less_2_cases_iff)
  have fz: "fz_unicode demo_fz = ue_unicode demo_env" by (simp add: demo_fz_def demo_env_def)
  have new: "find_task \<lparr>db_tasks = [], db_asr = []\<rparr> 3 = None" by (simp add: find_task_def)
  have "\<not> isl (decision demo_fz demo_run_meta (\<lambda>j. demo_src (staged_at (um_files demo_run_meta) j)))"
    using all by (simp add: run_complete_def meta)
  then obtain ro where ro: "decision demo_fz demo_run_meta (\<lambda>j. demo_src (staged_at (um_files demo_run_meta) j)) = Inr ro"
    by (cases "decision demo_fz demo_run_meta (\<lambda>j. demo_src (staged_at (um_files demo_run_meta) j))") simp_all
  obtain st' answer where f: "uploads_finalize demo_fz 7 3 \<lparr>us_dir = demo_run, us_db = \<lparr>db_tasks = [], db_asr = []\<rparr>\<rparr> = (st', answer)"
    by (metis prod.exhaust)
  show ?thesis
    using uploaded_set_becomes_task [OF init ne honest demo_run_def meta complete fz new ro f] f by blast
qed

end
