(* ===== verification/Token_Budget.thy ===== *)
theory Token_Budget
  imports VTS_Prelude
begin

text \<open>
  The token budget of the summary (\<open>pipeline/token_budget.py\<close>): how long a rewrite, a packed note
  and the final document should be, when a transcript may go to the model in one piece, how large
  the windows are when it may not, and when an error of the backend means that the prompt did not
  fit. Token counts are unbounded integers as in the code; the ratios, floats there, are exact
  rationals.
\<close>

section \<open>Configuration\<close>

record token_budget_config =
  n_ctx :: int
  safety_margin :: int
  segment_ratio :: rat
  segment_min_ratio :: rat
  segment_max_ratio :: rat
  segment_min_floor :: int
  segment_max_cap :: int
  pack_ratio :: rat
  pack_min_ratio :: rat
  pack_max_ratio :: rat
  pack_min_floor :: int
  pack_batch_max_input_tokens :: int
  final_ratio :: rat
  final_min_ratio :: rat
  final_max_ratio :: rat

text \<open>The defaults of the dataclass.\<close>

definition default_budget :: token_budget_config where
  "default_budget = \<lparr>n_ctx = 32768, safety_margin = 768,
     segment_ratio = 78 / 100, segment_min_ratio = 65 / 100, segment_max_ratio = 90 / 100,
     segment_min_floor = 200, segment_max_cap = 1800,
     pack_ratio = 90 / 100, pack_min_ratio = 80 / 100, pack_max_ratio = 95 / 100,
     pack_min_floor = 400, pack_batch_max_input_tokens = 12000,
     final_ratio = 70 / 100, final_min_ratio = 60 / 100, final_max_ratio = 80 / 100\<rparr>"

section \<open>Budgets\<close>

text \<open>\<open>int(x)\<close> of a float truncates towards zero.\<close>

definition int_trunc :: "rat \<Rightarrow> int" where
  "int_trunc x = (if 0 \<le> x then \<lfloor>x\<rfloor> else \<lceil>x\<rceil>)"

definition clamp :: "rat \<Rightarrow> int \<Rightarrow> int \<Rightarrow> int" where
  "clamp value min_val max_val = int_trunc (max (of_int min_val) (min value (of_int max_val)))"

definition compute_segment_budget :: "int \<Rightarrow> token_budget_config \<Rightarrow> int \<times> int \<times> int" where
  "compute_segment_budget input_tokens cfg =
     (let raw_target = of_int input_tokens * segment_ratio cfg;
          min_out = max \<lceil>of_int input_tokens * segment_min_ratio cfg\<rceil> (segment_min_floor cfg);
          max_out = min \<lfloor>of_int input_tokens * segment_max_ratio cfg\<rfloor> (segment_max_cap cfg)
      in (clamp raw_target min_out max_out, min_out, max_out))"

definition compute_pack_budget :: "int \<Rightarrow> token_budget_config \<Rightarrow> int \<times> int \<times> int" where
  "compute_pack_budget input_tokens cfg =
     (let raw_target = of_int input_tokens * pack_ratio cfg;
          min_out = max \<lceil>of_int input_tokens * pack_min_ratio cfg\<rceil> (pack_min_floor cfg);
          max_out = \<lfloor>of_int input_tokens * pack_max_ratio cfg\<rfloor>
      in (clamp raw_target min_out max_out, min_out, max_out))"

definition compute_final_budget :: "int \<Rightarrow> token_budget_config \<Rightarrow> int \<times> int \<times> int" where
  "compute_final_budget input_tokens cfg =
     (let raw_target = of_int input_tokens * final_ratio cfg;
          min_out = \<lceil>of_int input_tokens * final_min_ratio cfg\<rceil>;
          max_out = \<lfloor>of_int input_tokens * final_max_ratio cfg\<rfloor>
      in (clamp raw_target min_out max_out, min_out, max_out))"

section \<open>Whole transcript or windows\<close>

definition SEGMENT_WINDOW_FLOOR :: int where "SEGMENT_WINDOW_FLOOR = 2000"

definition fits_whole_transcript :: "token_budget_config \<Rightarrow> int \<Rightarrow> int \<Rightarrow> bool" where
  "fits_whole_transcript cfg prompt_tokens transcript_tokens \<longleftrightarrow>
     prompt_tokens + 2 * transcript_tokens + safety_margin cfg \<le> n_ctx cfg"

definition whole_transcript_possible :: "token_budget_config \<Rightarrow> int \<Rightarrow> int \<Rightarrow> bool" where
  "whole_transcript_possible cfg prompt_tokens transcript_tokens \<longleftrightarrow>
     (let estimated_out = \<lceil>of_int transcript_tokens * segment_min_ratio cfg\<rceil>
      in prompt_tokens + transcript_tokens + estimated_out + safety_margin cfg \<le> n_ctx cfg)"

definition derive_window_tokens :: "token_budget_config \<Rightarrow> int \<Rightarrow> int \<Rightarrow> int \<Rightarrow> int" where
  "derive_window_tokens cfg prompt_tokens cap flr =
     (let available = (n_ctx cfg - prompt_tokens - safety_margin cfg) div 2
      in clamp (of_int available) flr (max flr cap))"

definition uncap_segment_for_input :: "token_budget_config \<Rightarrow> int \<Rightarrow> token_budget_config" where
  "uncap_segment_for_input cfg input_tokens =
     (let needed = \<lceil>of_int input_tokens * segment_max_ratio cfg\<rceil>
      in if needed \<le> segment_max_cap cfg then cfg else cfg\<lparr>segment_max_cap := needed\<rparr>)"

definition fits_in_context :: "token_budget_config \<Rightarrow> int \<Rightarrow> int \<Rightarrow> bool" where
  "fits_in_context cfg prompt_tokens input_tokens \<longleftrightarrow>
     (let estimated_out = \<lceil>of_int input_tokens * final_max_ratio cfg\<rceil>
      in prompt_tokens + input_tokens + estimated_out + safety_margin cfg \<le> n_ctx cfg)"

section \<open>Overflow messages\<close>

definition ctx_overflow_hints :: "ustr list" where
  "ctx_overflow_hints = map lit
     [''exceeds the available context'', ''exceeds context'', ''exceed the context'',
      ''context length exceeded'', ''maximum context length'', ''exceeds context window'',
      ''input length exceeds'', ''context window'', ''prompt is too long'', ''too many tokens'',
      ''greater than the context'']"

definition is_context_overflow_error :: "unicode \<Rightarrow> ustr \<Rightarrow> bool" where
  "is_context_overflow_error uc message =
     (let msg = uc_lower uc message in
      if msg = [] then False
      else if list_ex (\<lambda>hint. contains hint msg) ctx_overflow_hints then True
      else contains (lit ''n_ctx'') msg
        \<and> (contains (lit ''exceed'') msg \<or> contains (lit ''too long'') msg \<or> contains (lit ''too large'') msg))"

section \<open>Lemmas\<close>

lemma int_trunc_of_int [simp]: "int_trunc (of_int i) = i"
  by (simp add: int_trunc_def)

lemma int_trunc_mono: "x \<le> y \<Longrightarrow> int_trunc x \<le> int_trunc y"
proof -
  assume le: "x \<le> y"
  show ?thesis
  proof (cases "0 \<le> x \<or> y < 0")
    case True
    then show ?thesis using le by (auto simp: int_trunc_def floor_mono ceiling_mono)
  next
    case False
    then have "\<lceil>x\<rceil> \<le> 0" "0 \<le> \<lfloor>y\<rfloor>" by simp_all
    then have "\<lceil>x\<rceil> \<le> \<lfloor>y\<rfloor>" by linarith
    then show ?thesis using False by (simp add: int_trunc_def)
  qed
qed

text \<open>A clamped value lies in its range; a degenerate range gives its lower end.\<close>

lemma clamp_bounds: "lo \<le> hi \<Longrightarrow> lo \<le> clamp v lo hi \<and> clamp v lo hi \<le> hi"
  using int_trunc_mono [of "of_int lo" "max (of_int lo) (min v (of_int hi))"]
    int_trunc_mono [of "max (of_int lo) (min v (of_int hi))" "of_int hi"]
  by (simp add: clamp_def)

lemma clamp_degenerate:
  assumes "hi < lo"
  shows "clamp v lo hi = lo"
proof -
  have "min v (of_int hi) \<le> (of_int lo :: rat)" using assms by (simp add: min.coboundedI2)
  then show ?thesis unfolding clamp_def by (simp add: max_absorb1)
qed

lemma clamp_inside: "of_int lo \<le> v \<Longrightarrow> v \<le> of_int hi \<Longrightarrow> clamp v lo hi = int_trunc v"
  by (simp add: clamp_def)

lemma clamp_of_int: "clamp (of_int v) lo hi = max lo (min v hi)"
  by (simp add: clamp_def flip: of_int_min of_int_max)

lemmas budget_defs = compute_segment_budget_def compute_pack_budget_def compute_final_budget_def

lemma ratio_bounded:
  fixes r :: rat
  assumes "0 \<le> n" "r \<le> 1"
  shows "\<lceil>of_int n * r\<rceil> \<le> n"
  using mult_left_mono [OF assms(2), of "of_int n"] assms(1) by (simp add: ceiling_le_iff)

text \<open>Raising the cap is enough: the upper bound of a rewrite is then the ratio alone.\<close>

lemma uncapped_max_out:
  "snd (snd (compute_segment_budget n (uncap_segment_for_input cfg n))) = \<lfloor>of_int n * segment_max_ratio cfg\<rfloor>"
proof -
  have "\<lfloor>of_int n * segment_max_ratio cfg\<rfloor> \<le> \<lceil>of_int n * segment_max_ratio cfg\<rceil>"
    by (rule floor_le_ceiling)
  then have "m \<ge> \<lceil>of_int n * segment_max_ratio cfg\<rceil> \<Longrightarrow>
      min \<lfloor>of_int n * segment_max_ratio cfg\<rfloor> m = \<lfloor>of_int n * segment_max_ratio cfg\<rfloor>" for m
    by linarith
  then show ?thesis by (auto simp: compute_segment_budget_def uncap_segment_for_input_def Let_def)
qed

section \<open>Properties\<close>

text \<open>(C30) The window size derived from the free context is one the whole-transcript check accepts: a
  window filled to the brim, counted twice for its rewrite, fits beside the prompt, unless the floor
  forces a larger one. It never leaves the configured range, and with a minimal ratio of at most
  one, whatever the conservative check accepts the hard check accepts too.\<close>

theorem derived_window_fits:
  assumes "w = derive_window_tokens cfg prompt cap flr"
  shows "flr \<le> w \<and> w \<le> max flr cap
    \<and> (w = flr \<or> fits_whole_transcript cfg prompt w)
    \<and> (segment_min_ratio cfg \<le> 1 \<longrightarrow> 0 \<le> t \<longrightarrow> fits_whole_transcript cfg prompt t \<longrightarrow> whole_transcript_possible cfg prompt t)"
proof -
  let ?a = "(n_ctx cfg - prompt - safety_margin cfg) div 2"
  have w: "w = max flr (min ?a (max flr cap))"
    using assms by (simp add: derive_window_tokens_def Let_def clamp_of_int)
  have "2 * ?a \<le> n_ctx cfg - prompt - safety_margin cfg" by linarith
  moreover have "w = flr \<or> w \<le> ?a" using w by linarith
  ultimately have fits: "w = flr \<or> fits_whole_transcript cfg prompt w"
    unfolding fits_whole_transcript_def by linarith
  have "whole_transcript_possible cfg prompt t"
    if "segment_min_ratio cfg \<le> 1" "0 \<le> t" "fits_whole_transcript cfg prompt t"
    using ratio_bounded [OF that(2,1)] that(3)
    by (simp add: fits_whole_transcript_def whole_transcript_possible_def)
  then show ?thesis using w fits by auto
qed

theorem derived_window_fits_witness:
  "fits_whole_transcript default_budget 900 8192 \<and> derive_window_tokens default_budget 900 8192 2000 = 8192
   \<and> whole_transcript_possible default_budget 900 15000"
proof -
  have w: "derive_window_tokens default_budget 900 8192 2000 = 8192"
    by (simp add: derive_window_tokens_def default_budget_def clamp_def int_trunc_def)
  show ?thesis
    using derived_window_fits [OF refl, where cfg = default_budget and prompt = 900 and cap = 8192 and flr = 2000 and t = 15000]
    unfolding w
    by (simp add: default_budget_def fits_whole_transcript_def)
qed

end
