(* ===== verification/Summary_Chunks.thy ===== *)
theory Summary_Chunks
  imports Contracts Diar_Merge Upload_Order "HOL-Library.Sublist"
begin

text \<open>
  How a transcript is cut into windows for the summary (\<open>services/summarizer.py\<close>): the utterances of
  a rendered dialogue, the sentences of a text without breaking after abbreviations, and the packing
  of those units into windows of a given number of tokens.

  The tokenizer is a library or a server: an argument, with its two operations. A failing request
  aborts the step before anything is written and is not a value here.
\<close>

section \<open>Speaker labels\<close>

definition LABEL_WORDS :: "ustr list" where
  "LABEL_WORDS = [golos, lit ''Speaker'']"

text \<open>\<open>[^\W\d_]\<close> and \<open>[^\s:,;.!?]\<close>.\<close>

definition letter :: "unicode \<Rightarrow> digit_tables \<Rightarrow> nat \<Rightarrow> bool" where
  "letter uc dt c \<longleftrightarrow> uc_word uc c \<and> \<not> is_dec dt c \<and> c \<noteq> 95"

definition name_char :: "nat \<Rightarrow> bool" where
  "name_char c \<longleftrightarrow> \<not> py_space c \<and> c \<notin> {58, 44, 59, 46, 33, 63}"

text \<open>The rest of the text after a word of a name. A word ends where the class does: a shorter match
  would leave a character that is neither a space nor a colon, so there is nothing to backtrack to.\<close>

definition eat_word :: "unicode \<Rightarrow> digit_tables \<Rightarrow> ustr \<Rightarrow> ustr option" where
  "eat_word uc dt s = (case s of c # cs \<Rightarrow> if letter uc dt c then Some (dropWhile name_char cs) else None
     | [] \<Rightarrow> None)"

fun name_tail :: "unicode \<Rightarrow> digit_tables \<Rightarrow> nat \<Rightarrow> ustr \<Rightarrow> ustr option" where
  "name_tail uc dt 0 s = (if starts_with (lit '': '') s then Some (drop 2 s) else None)"
| "name_tail uc dt (Suc k) s =
     (if starts_with (lit '': '') s then Some (drop 2 s)
      else if starts_with [32] s then Option.bind (eat_word uc dt (tl s)) (name_tail uc dt k) else None)"

definition name_label :: "unicode \<Rightarrow> digit_tables \<Rightarrow> ustr \<Rightarrow> ustr option" where
  "name_label uc dt s = Option.bind (eat_word uc dt s) (name_tail uc dt 2)"

fun numbered_label :: "digit_tables \<Rightarrow> ustr list \<Rightarrow> ustr \<Rightarrow> ustr option" where
  "numbered_label dt [] s = None"
| "numbered_label dt (w # ws) s =
     (let digits = drop (length w + 1) s; rest = dropWhile (is_dec dt) digits
      in if starts_with (w @ [32]) s \<and> rest \<noteq> digits \<and> starts_with (lit '': '') rest
         then Some (drop 2 rest) else numbered_label dt ws s)"

text \<open>\<open>_UTTERANCE_RE.match\<close> at the start of \<open>s\<close>: what follows the label.\<close>

definition after_label :: "unicode \<Rightarrow> digit_tables \<Rightarrow> ustr \<Rightarrow> ustr option" where
  "after_label uc dt s = (case numbered_label dt LABEL_WORDS s of Some r \<Rightarrow> Some r
     | None \<Rightarrow> name_label uc dt s)"

definition label_of :: "unicode \<Rightarrow> digit_tables \<Rightarrow> ustr \<Rightarrow> ustr" where
  "label_of uc dt s = (case after_label uc dt s of None \<Rightarrow> [] | Some r \<Rightarrow> take (length s - length r) s)"

text \<open>
  The positions of \<open>finditer\<close>: a label at the start, or right after a blank line. A label holds no line
  break, so no match starts inside another one.
\<close>

definition label_starts :: "unicode \<Rightarrow> digit_tables \<Rightarrow> ustr \<Rightarrow> nat list" where
  "label_starts uc dt s =
     filter (\<lambda>i. (i = 0 \<or> 2 \<le> i \<and> s ! (i - 1) = 10 \<and> s ! (i - 2) = 10) \<and> after_label uc dt (drop i s) \<noteq> None)
       [0..<length s]"

definition slice :: "'a list \<Rightarrow> nat \<times> nat \<Rightarrow> 'a list" where
  "slice xs ab = take (snd ab - fst ab) (drop (fst ab) xs)"

definition utterance_bounds :: "ustr \<Rightarrow> nat list \<Rightarrow> nat list" where
  "utterance_bounds s starts = (if hd starts \<noteq> 0 then [0] else []) @ starts @ [length s]"

definition split_utterances :: "unicode \<Rightarrow> digit_tables \<Rightarrow> ustr \<Rightarrow> ustr list" where
  "split_utterances uc dt s =
     (let starts = label_starts uc dt s in
      if starts = [] then [s]
      else (let bounds = utterance_bounds s starts
            in map (\<lambda>ab. strip (slice s ab)) (zip bounds (tl bounds))))"

section \<open>Sentences\<close>

definition russian_abbreviations :: "ustr list" where
  "russian_abbreviations =
    [[1090, 46, 1077, 46], [1090, 46, 1076, 46], [1090, 46, 1087, 46], [1090, 46, 1082, 46],
     [1090, 46, 1085, 46], [1080, 46, 1086, 46], [1076, 1088, 46], [1087, 1088, 46], [1089, 1084, 46],
     [1089, 1088, 46], [1089, 1090, 1088, 46], [1088, 1080, 1089, 46], [1090, 1072, 1073, 1083, 46],
     [1075, 1083, 46], [1087, 46], [1087, 1087, 46], [1089, 1090, 46], [1088, 1091, 1089, 46],
     [1072, 1085, 1075, 1083, 46], [1075, 46], [1075, 1075, 46], [1074, 46], [1074, 1074, 46],
     [1088, 1091, 1073, 46], [1082, 1086, 1087, 46], [1090, 1099, 1089, 46], [1084, 1083, 1085, 46],
     [1084, 1083, 1088, 1076, 46], [1087, 1088, 1086, 1092, 46], [1076, 1086, 1094, 46],
     [1072, 1082, 1072, 1076, 46], [1080, 1084, 46], [1091, 1083, 46], [1076, 46], [1082, 1074, 46],
     [1086, 1073, 1083, 46], [1088, 1077, 1089, 1087, 46], [1090, 1077, 1083, 46],
     [1085, 1072, 1087, 1088, 46], [1087, 1088, 1080, 1084, 46], [1080, 1079, 1076, 46], [1086, 1082, 46],
     [1084, 1080, 1085, 46], [1089, 1077, 1082, 46], [1095, 46], [1084, 1077, 1089, 46]]"

definition english_abbreviations :: "ustr list" where
  "english_abbreviations = map lit
    [''e.g.'', ''i.e.'', ''etc.'', ''vs.'', ''mr.'', ''mrs.'', ''ms.'', ''dr.'', ''prof.'', ''st.'',
     ''fig.'', ''no.'', ''vol.'', ''pp.'', ''approx.'', ''inc.'', ''ltd.'', ''co.'', ''jr.'', ''sr.'',
     ''cf.'', ''al.'']"

definition last_word :: "ustr \<Rightarrow> ustr" where
  "last_word s = rev (takeWhile (\<lambda>c. \<not> py_space c) (dropWhile py_space (rev s)))"

definition is_false_boundary :: "unicode \<Rightarrow> digit_tables \<Rightarrow> ustr \<Rightarrow> bool" where
  "is_false_boundary uc dt preceding =
     (if preceding = [] \<or> last preceding \<noteq> 46 then False
      else (let word = last_word preceding in
        if word = [] then False
        else if uc_lower uc word \<in> set (russian_abbreviations @ english_abbreviations) then True
        else if length word = 2 \<and> letter uc dt (hd word) \<and> last word = 46 then True
        else word \<noteq> [46] \<and> last word = 46 \<and> list_all (is_dec dt) (butlast word)))"

text \<open>
  \<open>split_sentences_for_chunking\<close>: the first argument is \<open>text[start:pos]\<close>, reversed. A separator is
  a maximal run of whitespace after a terminator, or of two line breaks or more; one that follows a
  false boundary stays inside the piece.
\<close>

function sentence_pieces :: "unicode \<Rightarrow> digit_tables \<Rightarrow> ustr \<Rightarrow> ustr \<Rightarrow> ustr list" where
  "sentence_pieces uc dt cur [] = (if strip (rev cur) = [] then [] else [strip (rev cur)])"
| "sentence_pieces uc dt cur (c # cs) =
     (let P = (if py_space c \<and> cur \<noteq> [] \<and> sentence_end (hd cur) then py_space else (\<lambda>d. d = 10));
          run = takeWhile P (c # cs); rest = dropWhile P (c # cs)
      in if (py_space c \<and> cur \<noteq> [] \<and> sentence_end (hd cur)) \<or> (c = 10 \<and> cs \<noteq> [] \<and> hd cs = 10)
         then (if is_false_boundary uc dt (rev cur) then sentence_pieces uc dt (rev run @ cur) rest
               else (if strip (rev cur) = [] then [] else [strip (rev cur)]) @ sentence_pieces uc dt [] rest)
         else sentence_pieces uc dt (c # cur) cs)"
  by pat_completeness auto
termination
  by (relation "measure (\<lambda>(uc, dt, cur, s). length s)") (auto simp: le_imp_less_Suc length_dropWhile_le)

definition split_sentences_for_chunking :: "unicode \<Rightarrow> digit_tables \<Rightarrow> ustr \<Rightarrow> ustr list" where
  "split_sentences_for_chunking uc dt s = (if strip s = [] then [] else sentence_pieces uc dt [] s)"

section \<open>Tokens\<close>

record tokenizer =
  tk_encode :: "ustr \<Rightarrow> nat list"
  tk_decode :: "nat list \<Rightarrow> ustr"

definition TOKENIZE_CONCURRENCY :: nat where "TOKENIZE_CONCURRENCY = 16"

text \<open>\<open>_tokenize_all\<close>: one by one with a local tokenizer, in waves with a remote one. \<open>gather\<close> returns the
  results in the order of its arguments.\<close>

fun tokenize_waves :: "tokenizer \<Rightarrow> ustr list \<Rightarrow> nat list list" where
  "tokenize_waves tk [] = []"
| "tokenize_waves tk (t # ts) =
     map (tk_encode tk) (take TOKENIZE_CONCURRENCY (t # ts)) @ tokenize_waves tk (drop (TOKENIZE_CONCURRENCY - 1) ts)"

definition tokenize_all :: "tokenizer \<Rightarrow> bool \<Rightarrow> ustr list \<Rightarrow> nat list list" where
  "tokenize_all tk loc texts = (if loc then map (tk_encode tk) texts else tokenize_waves tk texts)"

section \<open>Packing\<close>

text \<open>The loop of \<open>_split_long_utterance\<close> on the tokens from the cursor on. The caller's budget is at
  least one.\<close>

function cut_tokens :: "tokenizer \<Rightarrow> ustr \<Rightarrow> nat \<Rightarrow> nat list \<Rightarrow> ustr list" where
  "cut_tokens tk label body_budget tokens =
     (if tokens = [] \<or> body_budget = 0 then []
      else (let body = strip (tk_decode tk (take body_budget tokens)) in
        if body = [] then []
        else (if label \<noteq> [] \<and> starts_with (strip label) body then body else label @ body)
          # cut_tokens tk label body_budget (drop body_budget tokens)))"
  by pat_completeness auto
termination
  by (relation "measure (\<lambda>(tk, label, b, ts). length ts)") auto

declare cut_tokens.simps [simp del]

definition split_long_utterance :: "tokenizer \<Rightarrow> int \<Rightarrow> ustr \<Rightarrow> nat list \<Rightarrow> ustr list" where
  "split_long_utterance tk window_tokens label tokens =
     (let label_tokens = (if label \<noteq> [] then int (length (tk_encode tk label)) else 0);
          body_budget = max (window_tokens - label_tokens) 1
      in cut_tokens tk label (nat body_budget) tokens)"

text \<open>One round of the packing loop on \<open>(chunks, current, current_tokens)\<close>.\<close>

type_synonym pack_state = "ustr list \<times> ustr list \<times> int"

definition close_chunk :: "ustr \<Rightarrow> ustr list \<times> ustr list \<Rightarrow> ustr list" where
  "close_chunk joiner cc = (if snd cc \<noteq> [] then fst cc @ [join joiner (snd cc)] else fst cc)"

fun pack_unit :: "tokenizer \<Rightarrow> int \<Rightarrow> ustr \<Rightarrow> (ustr \<Rightarrow> ustr) \<Rightarrow> pack_state \<Rightarrow> ustr \<times> nat list \<Rightarrow> pack_state" where
  "pack_unit tk window_tokens joiner lab (chunks, current, current_tokens) (unit, tokens) =
     (let size = int (length tokens) in
      if size > window_tokens
      then (close_chunk joiner (chunks, current) @ split_long_utterance tk window_tokens (lab unit) tokens, [], 0)
      else if current_tokens + size > window_tokens \<and> current \<noteq> []
      then (close_chunk joiner (chunks, current), [unit], size)
      else (chunks, current @ [unit], current_tokens + size))"

definition pack_units :: "tokenizer \<Rightarrow> bool \<Rightarrow> int \<Rightarrow> ustr \<Rightarrow> (ustr \<Rightarrow> ustr) \<Rightarrow> ustr list \<Rightarrow> ustr list" where
  "pack_units tk loc window_tokens joiner lab units =
     (case foldl (pack_unit tk window_tokens joiner lab) ([], [], 0) (zip units (tokenize_all tk loc units)) of
        (chunks, current, _) \<Rightarrow> close_chunk joiner (chunks, current))"

definition chunk_text ::
  "unicode \<Rightarrow> digit_tables \<Rightarrow> tokenizer \<Rightarrow> bool \<Rightarrow> int \<Rightarrow> bool \<Rightarrow> ustr \<Rightarrow> ustr list" where
  "chunk_text uc dt tk loc window_tokens split_on_utterances s =
     (if strip s = [] then []
      else if split_on_utterances
      then pack_units tk loc window_tokens [10, 10] (label_of uc dt) (split_utterances uc dt s)
      else pack_units tk loc window_tokens [32] (\<lambda>_. []) (split_sentences_for_chunking uc dt s))"

section \<open>Nothing spoken is lost\<close>

lemma slice_append: "a \<le> b \<Longrightarrow> b \<le> c \<Longrightarrow> slice xs (a, b) @ slice xs (b, c) = slice xs (a, c)"
proof -
  assume ab: "a \<le> b" "b \<le> c"
  have "take (c - a) (drop a xs) = take (b - a) (drop a xs) @ take (c - b) (drop (b - a) (drop a xs))"
    using take_add [of "b - a" "c - b" "drop a xs"] ab by simp
  then show ?thesis using ab by (simp add: slice_def)
qed

lemma concat_slices:
  "sorted bs \<Longrightarrow> bs \<noteq> [] \<Longrightarrow> concat (map (slice xs) (zip bs (tl bs))) = slice xs (hd bs, last bs)"
proof (induction bs rule: induct_list012)
  case (3 a b bs)
  have "b \<le> last (b # bs)" using 3(3) by (cases bs rule: rev_cases) auto
  then show ?case using 3 by (simp add: slice_append)
qed (simp_all add: slice_def)

lemma label_starts_sorted: "sorted (label_starts uc dt s) \<and> (\<forall>i\<in>set (label_starts uc dt s). i < length s)"
  by (auto simp: label_starts_def sorted_wrt_filter)

lemma utterance_bounds_spec:
  assumes "starts = label_starts uc dt s" "starts \<noteq> []"
  shows "sorted (utterance_bounds s starts)" "hd (utterance_bounds s starts) = 0"
    "last (utterance_bounds s starts) = length s" "utterance_bounds s starts \<noteq> []"
proof -
  have "sorted starts" "\<forall>i\<in>set starts. i < length s"
    using label_starts_sorted [of uc dt s] assms(1) by auto
  then show "sorted (utterance_bounds s starts)"
    by (auto simp: utterance_bounds_def sorted_append less_imp_le)
  show "hd (utterance_bounds s starts) = 0" using assms(2) by (cases starts) (auto simp: utterance_bounds_def)
qed (simp_all add: utterance_bounds_def)

lemma solid_split_utterances: "concat (map solid (split_utterances uc dt s)) = solid s"
proof (cases "label_starts uc dt s = []")
  case True
  then show ?thesis by (simp add: split_utterances_def)
next
  case False
  let ?b = "utterance_bounds s (label_starts uc dt s)"
  have "concat (map solid (split_utterances uc dt s)) = concat (map (\<lambda>ab. solid (slice s ab)) (zip ?b (tl ?b)))"
    using False by (simp add: split_utterances_def Let_def comp_def)
  also have "\<dots> = solid (concat (map (slice s) (zip ?b (tl ?b))))"
    by (simp add: solid_def filter_concat comp_def)
  also have "concat (map (slice s) (zip ?b (tl ?b))) = s"
    using concat_slices [of ?b s] utterance_bounds_spec [OF refl False] by (simp add: slice_def)
  finally show ?thesis .
qed

lemma solid_stripped_piece: "concat (map solid (if strip x = [] then [] else [strip x])) = solid x"
  by (simp add: strip_eq_Nil_iff)

lemma solid_run: "(\<And>d. P d \<Longrightarrow> py_space d) \<Longrightarrow> solid (takeWhile P s) = []"
  by (induction s) (auto simp: solid_Cons)

lemma solid_sentence_pieces:
  "concat (map solid (sentence_pieces uc dt cur s)) = solid (rev cur) @ solid s"
proof (induction uc dt cur s rule: sentence_pieces.induct)
  case (1 uc dt cur)
  then show ?case using solid_stripped_piece [of "rev cur"] by simp
next
  case (2 uc dt cur c cs)
  define P where "P = (if py_space c \<and> cur \<noteq> [] \<and> sentence_end (hd cur) then py_space else (\<lambda>d. d = 10))"
  have sp: "solid (takeWhile P (c # cs)) = []"
    by (rule solid_run) (simp add: P_def py_space_def split: if_splits)
  have all: "solid (takeWhile P (c # cs)) @ solid (dropWhile P (c # cs)) = solid (c # cs)"
    by (metis solid_append takeWhile_dropWhile_id)
  show ?case
  proof (cases "(py_space c \<and> cur \<noteq> [] \<and> sentence_end (hd cur)) \<or> (c = 10 \<and> cs \<noteq> [] \<and> hd cs = 10)")
    case sep: True
    show ?thesis
    proof (cases "is_false_boundary uc dt (rev cur)")
      case True
      then show ?thesis
        using 2(1) [OF P_def refl refl sep True] sep sp all
        by (simp only: sentence_pieces.simps Let_def if_True P_def [symmetric])
          (simp only: rev_append rev_rev_ident solid_append append_Nil2 append_Nil append_assoc)
    next
      case False
      then show ?thesis
        using 2(2) [OF P_def refl refl sep False] sep sp all solid_stripped_piece [of "rev cur"]
        by (simp only: sentence_pieces.simps Let_def if_True if_False P_def [symmetric] map_append concat_append
            rev.simps solid_Nil append_Nil)
    qed
  next
    case False
    then have "sentence_pieces uc dt cur (c # cs) = sentence_pieces uc dt (c # cur) cs"
      by (simp only: sentence_pieces.simps Let_def if_False)
    then show ?thesis using 2(3) [OF P_def refl refl False] by (simp add: solid_Cons)
  qed
qed

lemma solid_split_sentences: "concat (map solid (split_sentences_for_chunking uc dt s)) = solid s"
  by (simp add: split_sentences_for_chunking_def solid_sentence_pieces strip_eq_Nil_iff)

section \<open>Waves of requests\<close>

lemma tokenize_waves_eq: "tokenize_waves tk ts = map (tk_encode tk) ts"
proof (induction tk ts rule: tokenize_waves.induct)
  case (2 tk t ts)
  then show ?case
    by (simp add: TOKENIZE_CONCURRENCY_def numeral_eq_Suc drop_map take_map flip: map_append)
qed simp

lemma tokenize_all_eq [simp]: "tokenize_all tk loc ts = map (tk_encode tk) ts"
  by (simp add: tokenize_all_def tokenize_waves_eq)

section \<open>Groups\<close>

text \<open>What the packing means: consecutive groups of units. A group is one over-long unit, or short
  units that fit the window together.\<close>

definition long_unit :: "tokenizer \<Rightarrow> int \<Rightarrow> ustr \<Rightarrow> bool" where
  "long_unit tk w x \<longleftrightarrow> int (length (tk_encode tk x)) > w"

definition tokens_of :: "tokenizer \<Rightarrow> ustr list \<Rightarrow> int" where
  "tokens_of tk g = sum_list (map (\<lambda>x. int (length (tk_encode tk x))) g)"

definition pack_group :: "tokenizer \<Rightarrow> int \<Rightarrow> ustr list \<Rightarrow> bool" where
  "pack_group tk w g \<longleftrightarrow> g \<noteq> [] \<and> (if long_unit tk w (hd g) then tl g = []
     else (\<forall>x\<in>set g. \<not> long_unit tk w x) \<and> tokens_of tk g \<le> w)"

text \<open>A group ends where it must: its successor does not fit, or one of them is over-long.\<close>

definition full_before :: "tokenizer \<Rightarrow> int \<Rightarrow> ustr list \<Rightarrow> ustr list \<Rightarrow> bool" where
  "full_before tk w g h \<longleftrightarrow> long_unit tk w (hd g) \<or> long_unit tk w (hd h)
     \<or> tokens_of tk g + int (length (tk_encode tk (hd h))) > w"

definition render_group :: "tokenizer \<Rightarrow> int \<Rightarrow> ustr \<Rightarrow> (ustr \<Rightarrow> ustr) \<Rightarrow> ustr list \<Rightarrow> ustr list" where
  "render_group tk w joiner lab g =
     (if long_unit tk w (hd g) then split_long_utterance tk w (lab (hd g)) (tk_encode tk (hd g))
      else [join joiner g])"

definition open_group :: "ustr list \<Rightarrow> ustr list list" where
  "open_group g = (if g = [] then [] else [g])"

definition packed_so_far ::
  "tokenizer \<Rightarrow> int \<Rightarrow> ustr \<Rightarrow> (ustr \<Rightarrow> ustr) \<Rightarrow> ustr list \<Rightarrow> pack_state \<Rightarrow> ustr list list \<Rightarrow> bool" where
  "packed_so_far tk w joiner lab units st groups \<longleftrightarrow>
     (case st of (chunks, current, current_tokens) \<Rightarrow>
        chunks = concat (map (render_group tk w joiner lab) groups) \<and> units = concat groups @ current
        \<and> list_all (pack_group tk w) (groups @ open_group current)
        \<and> successively (full_before tk w) (groups @ open_group current)
        \<and> current_tokens = tokens_of tk current
        \<and> (current \<noteq> [] \<longrightarrow> \<not> long_unit tk w (hd current))
        \<and> (current = [] \<longrightarrow> groups \<noteq> [] \<longrightarrow> long_unit tk w (hd (last groups))))"

lemma successively_snoc:
  "successively P (xs @ [x]) \<longleftrightarrow> successively P xs \<and> (xs = [] \<or> P (last xs) x)"
  by (simp add: successively_append_iff)

lemma packed_so_far_step:
  assumes inv: "packed_so_far tk w joiner lab units (chunks, current, ct) groups"
  shows "\<exists>groups'. packed_so_far tk w joiner lab (units @ [x])
    (pack_unit tk w joiner lab (chunks, current, ct) (x, tk_encode tk x)) groups'"
proof -
  have c: "chunks = concat (map (render_group tk w joiner lab) groups)" and un: "units = concat groups @ current"
    and all: "list_all (pack_group tk w) (groups @ open_group current)"
    and suc: "successively (full_before tk w) (groups @ open_group current)"
    and ct: "ct = tokens_of tk current" and short: "current \<noteq> [] \<longrightarrow> \<not> long_unit tk w (hd current)"
    and prev: "current = [] \<longrightarrow> groups \<noteq> [] \<longrightarrow> long_unit tk w (hd (last groups))"
    using inv by (simp_all add: packed_so_far_def)
  let ?closed = "groups @ open_group current"
  have close: "close_chunk joiner (chunks, current) = concat (map (render_group tk w joiner lab) ?closed)"
    using short by (simp add: close_chunk_def c open_group_def render_group_def)
  have cc: "concat ?closed = units" by (simp add: un open_group_def)
  show ?thesis
  proof (cases "long_unit tk w x")
    case True
    have "successively (full_before tk w) (?closed @ [[x]])"
      using suc True by (simp add: successively_snoc full_before_def del: append_assoc)
    then have "packed_so_far tk w joiner lab (units @ [x])
        (pack_unit tk w joiner lab (chunks, current, ct) (x, tk_encode tk x)) (?closed @ [[x]])"
      using True all close cc
      by (simp add: packed_so_far_def long_unit_def Let_def open_group_def render_group_def pack_group_def tokens_of_def)
    then show ?thesis ..
  next
    case sx: False
    show ?thesis
    proof (cases "ct + int (length (tk_encode tk x)) > w \<and> current \<noteq> []")
      case True
      have "full_before tk w current [x]" using True by (simp add: full_before_def ct)
      then have "successively (full_before tk w) (?closed @ [[x]])"
        using suc True by (simp add: successively_snoc open_group_def del: append_assoc)
      moreover have "pack_group tk w [x]" using sx by (simp add: pack_group_def tokens_of_def long_unit_def)
      moreover have "pack_unit tk w joiner lab (chunks, current, ct) (x, tk_encode tk x)
          = (close_chunk joiner (chunks, current), [x], int (length (tk_encode tk x)))"
        using True sx by (simp add: long_unit_def)
      ultimately have "packed_so_far tk w joiner lab (units @ [x])
          (pack_unit tk w joiner lab (chunks, current, ct) (x, tk_encode tk x)) ?closed"
        using all close cc sx by (simp add: packed_so_far_def open_group_def tokens_of_def)
      then show ?thesis ..
    next
      case False
      then have fit: "ct + int (length (tk_encode tk x)) \<le> w"
        using sx ct by (auto simp: long_unit_def tokens_of_def)
      have hdc: "current \<noteq> [] \<Longrightarrow> hd (current @ [x]) = hd current" by simp
      have "full_before tk w (last groups) (current @ [x])" if "groups \<noteq> []"
      proof (cases "current = []")
        case True
        then show ?thesis using prev that by (simp add: full_before_def)
      next
        case cne: False
        then have "full_before tk w (last groups) current"
          using suc that by (simp add: successively_append_iff open_group_def)
        then show ?thesis by (simp add: full_before_def cne)
      qed
      then have s: "successively (full_before tk w) (groups @ [current @ [x]])"
        using suc by (auto simp: successively_append_iff)
      have "pack_group tk w (current @ [x])"
        using all sx fit short ct
        by (cases "current = []") (auto simp: open_group_def pack_group_def tokens_of_def)
      then have a: "list_all (pack_group tk w) (groups @ [current @ [x]])" using all by simp
      have "packed_so_far tk w joiner lab (units @ [x])
          (pack_unit tk w joiner lab (chunks, current, ct) (x, tk_encode tk x)) groups"
        using False sx s a c un short
        by (simp add: packed_so_far_def long_unit_def Let_def open_group_def ct tokens_of_def hd_append)
      then show ?thesis ..
    qed
  qed
qed

lemma packed_so_far_foldl:
  "\<exists>groups. packed_so_far tk w joiner lab units
     (foldl (pack_unit tk w joiner lab) ([], [], 0) (map (\<lambda>x. (x, tk_encode tk x)) units)) groups"
proof (induction units rule: rev_induct)
  case Nil
  show ?case by (rule exI [of _ "[]"]) (simp add: packed_so_far_def open_group_def tokens_of_def)
next
  case (snoc x units)
  let ?st = "foldl (pack_unit tk w joiner lab) ([], [], 0) (map (\<lambda>x. (x, tk_encode tk x)) units)"
  obtain chunks current ct where st: "?st = (chunks, current, ct)" by (cases ?st) auto
  from snoc obtain groups where "packed_so_far tk w joiner lab units (chunks, current, ct) groups"
    unfolding st by blast
  from packed_so_far_step [OF this] show ?case by (simp add: st)
qed

lemma pack_units_groups:
  "\<exists>groups. concat groups = units \<and> list_all (pack_group tk w) groups \<and> successively (full_before tk w) groups
     \<and> pack_units tk loc w joiner lab units = concat (map (render_group tk w joiner lab) groups)"
proof -
  let ?st = "foldl (pack_unit tk w joiner lab) ([], [], 0) (map (\<lambda>x. (x, tk_encode tk x)) units)"
  obtain chunks current ct where f: "?st = (chunks, current, ct)" by (cases ?st) auto
  obtain groups where inv: "packed_so_far tk w joiner lab units (chunks, current, ct) groups"
    using packed_so_far_foldl [of tk w joiner lab units] unfolding f by blast
  have z: "zip units (map (tk_encode tk) units) = map (\<lambda>x. (x, tk_encode tk x)) units"
    by (induction units) auto
  have "pack_units tk loc w joiner lab units = concat (map (render_group tk w joiner lab) (groups @ open_group current))"
    using inv f z by (auto simp: pack_units_def close_chunk_def packed_so_far_def open_group_def render_group_def)
  moreover have "concat (groups @ open_group current) = units"
    using inv by (simp add: packed_so_far_def open_group_def)
  moreover have "list_all (pack_group tk w) (groups @ open_group current)"
    "successively (full_before tk w) (groups @ open_group current)"
    using inv by (simp_all add: packed_so_far_def)
  ultimately show ?thesis by blast
qed

section \<open>Over-long units\<close>

text \<open>Whether every slice of an over-long unit decodes to more than whitespace.\<close>

definition no_blank_slice :: "tokenizer \<Rightarrow> nat \<Rightarrow> nat list \<Rightarrow> bool" where
  "no_blank_slice tk b ts \<longleftrightarrow>
     list_all (\<lambda>k. length ts \<le> k * b \<or> solid (tk_decode tk (take b (drop (k * b) ts))) \<noteq> []) [0..<length ts]"

definition body_budget :: "tokenizer \<Rightarrow> int \<Rightarrow> ustr \<Rightarrow> nat" where
  "body_budget tk w label = nat (max (w - (if label \<noteq> [] then int (length (tk_encode tk label)) else 0)) 1)"

lemma split_long_cut: "split_long_utterance tk w label ts = cut_tokens tk label (body_budget tk w label) ts"
  by (simp add: split_long_utterance_def body_budget_def Let_def)

lemma body_budget_pos: "0 < body_budget tk w label"
  by (simp add: body_budget_def)

lemma no_blank_slice_step:
  assumes "no_blank_slice tk b ts" "ts \<noteq> []" "0 < b"
  shows "solid (tk_decode tk (take b ts)) \<noteq> [] \<and> no_blank_slice tk b (drop b ts)"
proof
  have ok: "k * b < length ts \<Longrightarrow> solid (tk_decode tk (take b (drop (k * b) ts))) \<noteq> []" for k
  proof -
    assume lt: "k * b < length ts"
    then have "k < length ts" using assms(3) by (metis le_less_trans mult.right_neutral mult_le_mono2 Suc_leI One_nat_def)
    then have "length ts \<le> k * b \<or> solid (tk_decode tk (take b (drop (k * b) ts))) \<noteq> []"
      using assms(1) unfolding no_blank_slice_def list_all_iff by (metis atLeastLessThan_iff less_eq_nat.simps(1) set_upt)
    then show ?thesis using lt by linarith
  qed
  show "solid (tk_decode tk (take b ts)) \<noteq> []" using ok [of 0] assms(2) by simp
  have "solid (tk_decode tk (take b (drop (k * b) (drop b ts)))) \<noteq> []" if "k * b < length (drop b ts)" for k
    using ok [of "Suc k"] that by (simp add: add.commute)
  then show "no_blank_slice tk b (drop b ts)"
    unfolding no_blank_slice_def list_all_iff by (metis not_le)
qed

text \<open>The slices of a list of tokens: every token is in exactly one, in order, and none is longer than the
  budget.\<close>

function token_slices :: "nat \<Rightarrow> nat list \<Rightarrow> nat list list" where
  "token_slices b ts = (if ts = [] \<or> b = 0 then [] else take b ts # token_slices b (drop b ts))"
  by pat_completeness auto
termination
  by (relation "measure (\<lambda>(b, ts). length ts)") (auto simp: neq_Nil_conv)

declare token_slices.simps [simp del]

lemma token_slices_Nil [simp]: "token_slices b [] = []"
  by (simp add: token_slices.simps)

lemma token_slices_step: "ts \<noteq> [] \<Longrightarrow> 0 < b \<Longrightarrow> token_slices b ts = take b ts # token_slices b (drop b ts)"
  by (simp add: token_slices.simps [of b ts])

lemma token_slices_spec:
  "0 < b \<Longrightarrow> concat (token_slices b ts) = ts \<and> list_all (\<lambda>x. x \<noteq> [] \<and> length x \<le> b) (token_slices b ts)"
proof (induction b ts rule: token_slices.induct)
  case (1 b ts)
  then show ?case by (cases "ts = []") (simp_all add: token_slices_step)
qed

lemma cut_tokens_keep:
  assumes "0 < b"
  shows "no_blank_slice tk b ts \<Longrightarrow>
      subseq (concat (map (\<lambda>x. solid (tk_decode tk x)) (token_slices b ts))) (concat (map solid (cut_tokens tk label b ts)))
    \<and> (label = [] \<longrightarrow> concat (map solid (cut_tokens tk label b ts)) = concat (map (\<lambda>x. solid (tk_decode tk x)) (token_slices b ts)))"
proof (induction ts rule: length_induct)
  case (1 ts)
  let ?S = "\<lambda>ts. concat (map (\<lambda>x. solid (tk_decode tk x)) (token_slices b ts))"
  show ?case
  proof (cases "ts = []")
    case True
    then show ?thesis by (simp add: cut_tokens.simps)
  next
    case False
    let ?body = "strip (tk_decode tk (take b ts))"
    let ?part = "if label \<noteq> [] \<and> starts_with (strip label) ?body then ?body else label @ ?body"
    note step = no_blank_slice_step [OF 1(2) False assms]
    have ne: "?body \<noteq> []" using step by (simp add: strip_eq_Nil_iff)
    have cut: "cut_tokens tk label b ts = ?part # cut_tokens tk label b (drop b ts)"
      using False ne assms by (subst cut_tokens.simps) (simp add: Let_def)
    have whole: "?S ts = solid ?body @ ?S (drop b ts)"
      by (simp add: token_slices_step [OF False assms])
    have part: "subseq (solid ?body) (solid ?part)"
      by (simp add: list_emb_append2)
    have rest: "subseq (?S (drop b ts)) (concat (map solid (cut_tokens tk label b (drop b ts))))
      \<and> (label = [] \<longrightarrow> concat (map solid (cut_tokens tk label b (drop b ts))) = ?S (drop b ts))"
    proof -
      have "length (drop b ts) < length ts" using False assms by (cases ts) simp_all
      then show ?thesis using 1(1) step by blast
    qed
    show ?thesis
    proof
      show "subseq (?S ts) (concat (map solid (cut_tokens tk label b ts)))"
        unfolding cut whole list.map concat.simps
        using list_emb_append_mono [OF part conjunct1 [OF rest]] .
      show "label = [] \<longrightarrow> concat (map solid (cut_tokens tk label b ts)) = ?S ts"
        unfolding cut whole using rest by auto
    qed
  qed
qed

text \<open>A slice that decodes to whitespace ends the cutting.\<close>

lemma cut_tokens_blank:
  assumes "0 < b"
  shows "strip (tk_decode tk (take b (drop (k * b) ts))) = [] \<Longrightarrow>
    cut_tokens tk label b ts = cut_tokens tk label b (take (k * b) ts)"
proof (induction k arbitrary: ts)
  case 0
  then show ?case by (cases "ts = []") (simp_all add: cut_tokens.simps Let_def)
next
  case (Suc k)
  show ?case
  proof (cases "ts = []")
    case False
    define T where "T = take (Suc k * b) ts"
    have "take b T = take b ts" by (simp add: T_def min_def)
    moreover have "drop b T = take (k * b) (drop b ts)" by (simp add: T_def drop_take)
    moreover have "T \<noteq> []" using False assms by (simp add: T_def)
    moreover have "cut_tokens tk label b (drop b ts) = cut_tokens tk label b (take (k * b) (drop b ts))"
      using Suc.prems by (intro Suc.IH) (simp add: add.commute)
    ultimately have "cut_tokens tk label b ts = cut_tokens tk label b T"
      using False assms by (simp add: cut_tokens.simps [of tk label b ts] cut_tokens.simps [of tk label b T] Let_def)
    then show ?thesis by (simp only: T_def)
  qed simp
qed

definition chunk_units :: "unicode \<Rightarrow> digit_tables \<Rightarrow> bool \<Rightarrow> ustr \<Rightarrow> ustr list" where
  "chunk_units uc dt split s = (if split then split_utterances uc dt s else split_sentences_for_chunking uc dt s)"

definition chunk_label :: "unicode \<Rightarrow> digit_tables \<Rightarrow> bool \<Rightarrow> ustr \<Rightarrow> ustr" where
  "chunk_label uc dt split x = (if split then label_of uc dt x else [])"

definition chunk_joiner :: "bool \<Rightarrow> ustr" where
  "chunk_joiner split = (if split then [10, 10] else [32])"

lemma chunk_text_pack:
  "chunk_text uc dt tk loc w split s = (if strip s = [] then []
     else pack_units tk loc w (chunk_joiner split) (chunk_label uc dt split) (chunk_units uc dt split s))"
proof -
  have "chunk_label uc dt True = label_of uc dt" "chunk_label uc dt False = (\<lambda>_. [])"
    by (simp_all add: chunk_label_def fun_eq_iff)
  then show ?thesis by (cases split) (simp_all add: chunk_text_def chunk_joiner_def chunk_units_def)
qed

lemma solid_chunk_units: "concat (map solid (chunk_units uc dt split s)) = solid s"
  by (simp add: chunk_units_def solid_split_utterances solid_split_sentences)

interpretation utterances: splitter "split_utterances uc dt" for uc dt
  by unfold_locales (rule solid_split_utterances)

interpretation units: splitter "chunk_units uc dt split" for uc dt split
  by unfold_locales (rule solid_chunk_units)

lemma solid_joiner: "solid (join (chunk_joiner split) g) = concat (map solid g)"
proof -
  have "solid (chunk_joiner split) = []" by (simp add: chunk_joiner_def solid_def py_space_def)
  then show ?thesis by (rule solid_join)
qed

text \<open>What the windows hold of a unit: the unit itself, or, of an over-long one, what its slices decode to.\<close>

definition unit_words :: "tokenizer \<Rightarrow> int \<Rightarrow> (ustr \<Rightarrow> ustr) \<Rightarrow> ustr \<Rightarrow> ustr" where
  "unit_words tk w lab x = (if long_unit tk w x
     then concat (map (\<lambda>ts. solid (tk_decode tk ts)) (token_slices (body_budget tk w (lab x)) (tk_encode tk x))) else solid x)"

text \<open>What a rendered group keeps, when no slice is blank.\<close>

lemma render_group_keeps:
  assumes nb: "long_unit tk w (hd g) \<Longrightarrow> no_blank_slice tk (body_budget tk w (lab (hd g))) (tk_encode tk (hd g))"
    and g: "pack_group tk w g"
  shows "subseq (concat (map (unit_words tk w lab) g)) (concat (map solid (render_group tk w (chunk_joiner split) lab g)))
    \<and> ((\<forall>x. lab x = []) \<longrightarrow> concat (map solid (render_group tk w (chunk_joiner split) lab g)) = concat (map (unit_words tk w lab) g))"
proof (cases "long_unit tk w (hd g)")
  case True
  then have g1: "g = [hd g]" using g by (cases g) (simp_all add: pack_group_def)
  have "concat (map (unit_words tk w lab) g) = unit_words tk w lab (hd g)" by (subst g1) simp
  then show ?thesis
    using cut_tokens_keep [OF body_budget_pos nb [OF True], of "lab (hd g)"] True
    by (simp add: render_group_def split_long_cut unit_words_def)
next
  case False
  have "\<not> long_unit tk w x" if "x \<in> set g" for x
    using g that False by (cases g) (auto simp: pack_group_def list_all_iff)
  then have "map (unit_words tk w lab) g = map solid g" unfolding map_eq_conv by (simp add: unit_words_def)
  then have "concat (map (unit_words tk w lab) g) = concat (map solid g)" by (rule arg_cong)
  then show ?thesis using False by (simp add: render_group_def solid_joiner)
qed

lemma subseq_concat_groups:
  assumes "\<And>g. g \<in> set groups \<Longrightarrow> subseq (concat (map W g)) (concat (map solid (r g)))
      \<and> (\<not> split \<longrightarrow> concat (map solid (r g)) = concat (map W g))"
  shows "subseq (concat (map W (concat groups))) (concat (map solid (concat (map r groups))))
      \<and> (\<not> split \<longrightarrow> concat (map solid (concat (map r groups))) = concat (map W (concat groups)))"
  using assms
proof (induction groups)
  case (Cons g gs)
  then show ?case by (auto intro: list_emb_append_mono)
qed simp

section \<open>Properties\<close>

text \<open>(C16) The windows are the units of the transcript, in order, in groups: an over-long unit alone, cut by
  tokens, or whole units whose tokens together fit the window, and a group is closed only when the
  next unit would not fit or is over-long. Nothing is reordered, repeated or left out of the groups,
  with a local tokenizer and with a remote one.\<close>

theorem windows_are_greedy_groups:
  "if strip s = [] then chunk_text uc dt tk loc w split s = []
   else (\<exists>groups. concat groups = chunk_units uc dt split s
     \<and> list_all (pack_group tk w) groups \<and> successively (full_before tk w) groups
     \<and> chunk_text uc dt tk loc w split s =
         concat (map (render_group tk w (chunk_joiner split) (chunk_label uc dt split)) groups))"
  using pack_units_groups [of "chunk_units uc dt split s" tk w loc] by (simp add: chunk_text_pack)

text \<open>(C15) No word is lost on the way into the windows, whatever the tokenizer does. The units of the
  transcript hold all its characters but whitespace. The windows hold, in order, every such character of
  a unit that fits a window; of an over-long unit they hold what its slices decode to, where every token
  of the unit is in exactly one slice and no slice exceeds the budget. Without speaker labels nothing is
  added either. This is when no slice of an over-long unit decodes to whitespace (the rest is lost
  otherwise). Nothing is assumed of how the tokenizer decodes: when decoding the slices one by one gives
  the unit back, over-long units lose no character either.\<close>

theorem windows_keep_every_word:
  assumes nb: "list_all (\<lambda>x. \<not> long_unit tk w x \<or>
        no_blank_slice tk (body_budget tk w (chunk_label uc dt split x)) (tk_encode tk x)) (chunk_units uc dt split s)"
    and units: "units = (if strip s = [] then [] else chunk_units uc dt split s)"
  shows "concat (map solid units) = solid s
    \<and> subseq (concat (map (unit_words tk w (chunk_label uc dt split)) units))
        (concat (map solid (chunk_text uc dt tk loc w split s)))
    \<and> (\<not> split \<longrightarrow> concat (map solid (chunk_text uc dt tk loc w split s))
        = concat (map (unit_words tk w (chunk_label uc dt split)) units))
    \<and> (\<forall>x. \<not> long_unit tk w x \<longrightarrow> unit_words tk w (chunk_label uc dt split) x = solid x)
    \<and> (let slices = (\<lambda>x. token_slices (body_budget tk w (chunk_label uc dt split x)) (tk_encode tk x)) in
       \<forall>x. concat (slices x) = tk_encode tk x
         \<and> list_all (\<lambda>ts. ts \<noteq> [] \<and> length ts \<le> body_budget tk w (chunk_label uc dt split x)) (slices x)
         \<and> (concat (map (\<lambda>ts. solid (tk_decode tk ts)) (slices x)) = solid x
              \<longrightarrow> unit_words tk w (chunk_label uc dt split) x = solid x))"
proof -
  let ?W = "unit_words tk w (chunk_label uc dt split)" and ?r = "render_group tk w (chunk_joiner split) (chunk_label uc dt split)"
  have "subseq (concat (map ?W units)) (concat (map solid (chunk_text uc dt tk loc w split s)))
    \<and> (\<not> split \<longrightarrow> concat (map solid (chunk_text uc dt tk loc w split s)) = concat (map ?W units))"
  proof (cases "strip s = []")
    case True
    then show ?thesis by (simp add: chunk_text_pack units)
  next
    case False
    then obtain groups where cg: "concat groups = chunk_units uc dt split s" and all: "list_all (pack_group tk w) groups"
      and cu: "concat groups = units" and ct: "chunk_text uc dt tk loc w split s = concat (map ?r groups)"
      using pack_units_groups [of "chunk_units uc dt split s" tk w loc] by (auto simp: chunk_text_pack units)
    have "subseq (concat (map ?W g)) (concat (map solid (?r g)))
        \<and> (\<not> split \<longrightarrow> concat (map solid (?r g)) = concat (map ?W g))" if gin: "g \<in> set groups" for g
    proof -
      have pg: "pack_group tk w g" using all gin by (simp add: list_all_iff)
      then have "g \<noteq> []" by (simp add: pack_group_def)
      then have "hd g \<in> set (chunk_units uc dt split s)" unfolding cg [symmetric] set_concat using gin
        by (meson UN_I hd_in_set)
      then have "long_unit tk w (hd g) \<Longrightarrow>
          no_blank_slice tk (body_budget tk w (chunk_label uc dt split (hd g))) (tk_encode tk (hd g))"
        using nb by (auto simp: list_all_iff)
      from render_group_keeps [of tk w g "chunk_label uc dt split" split, OF this pg]
      show ?thesis by (cases split) (simp_all add: chunk_label_def)
    qed
    then show ?thesis unfolding ct cu [symmetric] by (rule subseq_concat_groups)
  qed
  moreover have "concat (map solid units) = solid s"
    by (simp add: units solid_chunk_units) (simp add: strip_eq_Nil_iff)
  ultimately show ?thesis
    using token_slices_spec [OF body_budget_pos] by (simp add: unit_words_def Let_def)
qed

text \<open>A tokenizer whose tokens are the characters, one that also decodes without the surrounding blanks, and
  the definitions a cut evaluates with.\<close>

definition char_tokens :: tokenizer where
  "char_tokens = \<lparr>tk_encode = (\<lambda>s. s), tk_decode = (\<lambda>s. s)\<rparr>"

definition stripping_tokens :: tokenizer where
  "stripping_tokens = \<lparr>tk_encode = (\<lambda>s. s), tk_decode = strip\<rparr>"

lemmas cut_eval = chunk_text_def split_sentences_for_chunking_def pack_units_def zip_map2 close_chunk_def
  split_long_utterance_def cut_tokens.simps char_tokens_def ascii_tables_def ascii_digits_def ascii_word_def
  ascii_lower1_def is_dec_def letter_def is_false_boundary_def last_word_def russian_abbreviations_def
  english_abbreviations_def sentence_end_def py_space_def strip_def lstrip_def rstrip_def Let_def lit_def

theorem windows_keep_every_word_witness:
  "chunk_text ascii_tables ascii_digits stripping_tokens True 9 False (lit ''Ask Mr. Smith. No? Yes.'')
     = [lit ''Ask Mr. S'', lit ''mith.'', lit ''No? Yes.'']
   \<and> subseq (concat (map (unit_words stripping_tokens 9 (chunk_label ascii_tables ascii_digits False))
         (chunk_units ascii_tables ascii_digits False (lit ''Ask Mr. Smith. No? Yes.''))))
       (concat (map solid (chunk_text ascii_tables ascii_digits stripping_tokens True 9 False (lit ''Ask Mr. Smith. No? Yes.''))))"
proof
  show "chunk_text ascii_tables ascii_digits stripping_tokens True 9 False (lit ''Ask Mr. Smith. No? Yes.'')
     = [lit ''Ask Mr. S'', lit ''mith.'', lit ''No? Yes.'']"
    by (simp add: cut_eval stripping_tokens_def)
  have nb: "list_all (\<lambda>x. \<not> long_unit stripping_tokens 9 x \<or> no_blank_slice stripping_tokens
      (body_budget stripping_tokens 9 (chunk_label ascii_tables ascii_digits False x)) (tk_encode stripping_tokens x))
      (chunk_units ascii_tables ascii_digits False (lit ''Ask Mr. Smith. No? Yes.''))"
    by (simp add: cut_eval stripping_tokens_def chunk_units_def chunk_label_def long_unit_def no_blank_slice_def body_budget_def
        solid_def upt_rec)
  have "strip (lit ''Ask Mr. Smith. No? Yes.'') \<noteq> []" by (simp add: cut_eval)
  then have "chunk_units ascii_tables ascii_digits False (lit ''Ask Mr. Smith. No? Yes.'')
      = (if strip (lit ''Ask Mr. Smith. No? Yes.'') = [] then [] else chunk_units ascii_tables ascii_digits False (lit ''Ask Mr. Smith. No? Yes.''))"
    by simp
  from windows_keep_every_word [OF nb this, where loc = True]
  show "subseq (concat (map (unit_words stripping_tokens 9 (chunk_label ascii_tables ascii_digits False))
         (chunk_units ascii_tables ascii_digits False (lit ''Ask Mr. Smith. No? Yes.''))))
       (concat (map solid (chunk_text ascii_tables ascii_digits stripping_tokens True 9 False (lit ''Ask Mr. Smith. No? Yes.''))))"
    by blast
qed

text \<open>An over-long unit is cut short at its first blank slice: the loop stops where it meant to skip. If
  the tokens of one slice decode to whitespace, the result is that of the tokens before that slice,
  and what follows never reaches a window.\<close>

theorem blank_slice_loses_rest:
  assumes "strip (tk_decode tk (take (body_budget tk w label) (drop (k * body_budget tk w label) ts))) = []"
  shows "split_long_utterance tk w label ts =
    split_long_utterance tk w label (take (k * body_budget tk w label) ts)"
  unfolding split_long_cut by (rule cut_tokens_blank [OF body_budget_pos assms])

theorem blank_slice_loses_rest_witness:
  "chunk_text ascii_tables ascii_digits char_tokens True 3 False (lit ''one   two.'') = [lit ''one'']
   \<and> split_long_utterance char_tokens 3 [] (lit ''one   two.'') = split_long_utterance char_tokens 3 [] (lit ''one'')"
proof
  show "chunk_text ascii_tables ascii_digits char_tokens True 3 False (lit ''one   two.'') = [lit ''one'']"
    by (simp add: cut_eval)
  have "strip (tk_decode char_tokens (take (body_budget char_tokens 3 []) (drop (1 * body_budget char_tokens 3 [])
      (lit ''one   two.'')))) = []"
    by (simp add: cut_eval body_budget_def)
  from blank_slice_loses_rest [OF this]
  show "split_long_utterance char_tokens 3 [] (lit ''one   two.'') = split_long_utterance char_tokens 3 [] (lit ''one'')"
    by (simp add: body_budget_def lit_def numeral_eq_Suc)
qed

end
