(* ===== verification/Summary_Prompts.thy ===== *)
theory Summary_Prompts
  imports Diar_Merge
begin

text \<open>
  The prompts of the summary: the variables of a prompt template and what replaces them
  (\<open>services/summarizer.py\<close>, \<open>pipeline/steps/summarization.py\<close>), and the participants of a recording
  as the prompts list them.
\<close>

section \<open>Text replacement\<close>

text \<open>\<open>s.replace(old, new)\<close> for a text \<open>old\<close> that is not empty: the occurrences are taken from the left
  and do not overlap.\<close>

function py_replace :: "ustr \<Rightarrow> ustr \<Rightarrow> ustr \<Rightarrow> ustr" where
  "py_replace old new s =
     (if old = [] then s else
      case s of [] \<Rightarrow> []
      | c # cs \<Rightarrow> if starts_with old s then new @ py_replace old new (drop (length old) s)
                 else c # py_replace old new cs)"
  by pat_completeness auto
termination
  by (relation "measure (\<lambda>(old, new, s). length s)") auto

declare py_replace.simps [simp del]

text \<open>\<open>round(x)\<close>: to the nearest integer, halves to the even one.\<close>

definition py_round :: "rat \<Rightarrow> int" where
  "py_round x = (let f = \<lfloor>x\<rfloor>; r = x - of_int f in
     if r < 1 / 2 then f else if 1 / 2 < r then f + 1 else if even f then f else f + 1)"

definition int_str :: "int \<Rightarrow> ustr" where
  "int_str i = (if i < 0 then 45 # decimal (nat (- i)) else decimal (nat i))"

definition tokens_to_words :: "int \<Rightarrow> int" where
  "tokens_to_words tokens = max 1 (py_round (of_int tokens * (75 / 100)))"

definition inject_budget_vars :: "int option \<Rightarrow> int option \<Rightarrow> rat option \<Rightarrow> ustr \<Rightarrow> ustr" where
  "inject_budget_vars input_tokens target_tokens target_ratio prompt =
     (let p1 = (case input_tokens of None \<Rightarrow> prompt
            | Some n \<Rightarrow> py_replace (lit ''${INPUT_WORDS}'') (int_str (tokens_to_words n)) prompt);
          p2 = (case target_tokens of None \<Rightarrow> p1
            | Some n \<Rightarrow> py_replace (lit ''${TARGET_WORDS}'') (int_str (tokens_to_words n)) p1)
      in (case target_ratio of None \<Rightarrow> p2
            | Some r \<Rightarrow> py_replace (lit ''${TARGET_RATIO}'') (int_str (py_round (r * 100))) p2))"

section \<open>Language\<close>

definition language_display_name :: "unicode \<Rightarrow> ustr option \<Rightarrow> ustr" where
  "language_display_name uc language =
     (let l = uc_lower uc (strip (case language of None \<Rightarrow> lit ''en'' | Some x \<Rightarrow> if x = [] then lit ''en'' else x))
      in case map_of [(lit ''en'', lit ''English''), (lit ''ru'', lit ''Russian''), (lit ''de'', lit ''German''),
           (lit ''fr'', lit ''French''), (lit ''es'', lit ''Spanish'')] l of Some n \<Rightarrow> n | None \<Rightarrow> l)"

definition render_prompt_with_language :: "unicode \<Rightarrow> ustr option \<Rightarrow> ustr \<Rightarrow> ustr" where
  "render_prompt_with_language uc language prompt =
     py_replace (lit ''${LANG}'') (language_display_name uc language) prompt"

section \<open>Participants\<close>

text \<open>\<open>json.dumps(names, ensure_ascii=False)\<close>.\<close>

definition hex_digit :: "nat \<Rightarrow> nat" where
  "hex_digit d = (if d < 10 then 48 + d else 87 + d)"

definition json_escape :: "nat \<Rightarrow> ustr" where
  "json_escape c =
     (if c = 34 \<or> c = 92 then [92, c] else if c = 10 then lit [CHR 0x5C, CHR ''n'']
      else if c = 13 then lit [CHR 0x5C, CHR ''r''] else if c = 9 then lit [CHR 0x5C, CHR ''t'']
      else if c = 12 then lit [CHR 0x5C, CHR ''f''] else if c = 8 then lit [CHR 0x5C, CHR ''b'']
      else if c < 32 then lit [CHR 0x5C, CHR ''u'', CHR ''0'', CHR ''0''] @ [hex_digit (c div 16), hex_digit (c mod 16)]
      else [c])"

definition json_quote :: "ustr \<Rightarrow> ustr" where
  "json_quote s = 34 # concat (map json_escape s) @ [34]"

definition json_names :: "ustr list \<Rightarrow> ustr" where
  "json_names xs = 91 # join (lit '', '') (map json_quote xs) @ [93]"

definition participant_vars :: "ustr list \<Rightarrow> ustr list \<Rightarrow> (ustr \<times> ustr) list" where
  "participant_vars named anonymous =
     [(lit ''NAMED_SPEAKERS'', json_names named), (lit ''ANONYMOUS_SPEAKERS'', json_names anonymous)]"

text \<open>The participants with a registry name, and the others under their labels.\<close>

definition split_participants ::
  "transcript_entry list \<Rightarrow> (ustr \<times> ustr) list \<Rightarrow> ustr \<Rightarrow> ustr list \<times> ustr list" where
  "split_participants entries names label_word =
     (let mapping = label_map entries label_word names
      in (map snd (filter (\<lambda>(tag, rendered). dict_get names tag \<noteq> None) mapping),
          map snd (filter (\<lambda>(tag, rendered). dict_get names tag = None) mapping)))"

definition variable :: "ustr \<Rightarrow> ustr" where
  "variable key = lit ''${'' @ key @ lit ''}''"

definition render_prompt_vars ::
  "unicode \<Rightarrow> ustr option \<Rightarrow> int option \<Rightarrow> int option \<Rightarrow> rat option \<Rightarrow> ustr list \<Rightarrow> ustr list \<Rightarrow> ustr \<Rightarrow> ustr" where
  "render_prompt_vars uc language input_tokens target_tokens target_ratio named anonymous prompt =
     (let p1 = (case language of None \<Rightarrow> prompt | Some _ \<Rightarrow> render_prompt_with_language uc language prompt);
          p2 = inject_budget_vars input_tokens target_tokens target_ratio p1
      in foldl (\<lambda>p (key, value). py_replace (variable key) value p) p2 (participant_vars named anonymous))"

section \<open>The rewrite prompt\<close>

definition keep_speakers_instruction :: "ustr \<Rightarrow> ustr" where
  "keep_speakers_instruction label_word =
     lit '' The text is a dialogue where an utterance may start with a speaker label''
     @ lit '' ('' @ [34] @ label_word @ lit '' 1:'' @ [34] @ lit '', '' @ [34] @ label_word @ lit '' 2:'' @ [34]
     @ lit '', ...). Keep every label exactly as''
     @ lit '' it appears, at the start of that speaker'' @ [39] @ lit ''s utterance. Never merge''
     @ lit '' utterances from different speakers and never invent labels.''
     @ lit '' Some text carries no label '' @ [8212] @ lit '' that means the speaker is unknown. Leave it''
     @ lit '' unlabelled: never attribute it to a nearby speaker and never guess who''
     @ lit '' said it.''"

definition rewrite_prompt :: "unicode \<Rightarrow> ustr \<Rightarrow> bool \<Rightarrow> ustr option \<Rightarrow> ustr" where
  "rewrite_prompt uc base_prompt diarized language =
     (if \<not> diarized then base_prompt
      else base_prompt @ keep_speakers_instruction (speaker_label_word uc language))"

section \<open>What a replacement can leave\<close>

lemma starts_with_append_iff:
  "starts_with (a # p) s \<longleftrightarrow> s \<noteq> [] \<and> hd s = a \<and> starts_with p (tl s)"
  by (cases s) (auto simp: starts_with_def)

lemma starts_with_empty [simp]: "starts_with p [] \<longleftrightarrow> p = []"
  by (auto simp: starts_with_def)

lemma contains_skip: "a \<notin> set new \<Longrightarrow> contains (a # p) (new @ r) \<longleftrightarrow> contains (a # p) r"
  by (induction new) (auto simp: starts_with_append_iff)

lemma contains_drop: "contains p (drop n s) \<Longrightarrow> contains p s"
  by (metis append_take_drop_id contains_append)

lemma py_replace_Nil [simp]: "py_replace old new [] = []"
  by (simp add: py_replace.simps)

lemma py_replace_Cons:
  "old \<noteq> [] \<Longrightarrow> py_replace old new (c # cs) = (if starts_with old (c # cs)
     then new @ py_replace old new (drop (length old) (c # cs)) else c # py_replace old new cs)"
  by (subst py_replace.simps) simp

text \<open>What the result starts with, short of an inserted text, the original starts with.\<close>

lemma prefix_of_replaced:
  assumes "old \<noteq> []" "new \<noteq> []"
  shows "hd new \<notin> set p \<Longrightarrow> starts_with p (py_replace old new s) \<Longrightarrow> starts_with p s"
proof (induction p arbitrary: s)
  case (Cons x p)
  show ?case
  proof (cases s)
    case (Cons c cs)
    have "\<not> starts_with old s"
      using Cons.prems Cons assms by (auto simp: py_replace_Cons starts_with_append_iff hd_append)
    then show ?thesis using Cons.prems Cons.IH [of cs] Cons assms
      by (auto simp: py_replace_Cons starts_with_append_iff)
  qed (use Cons.prems in simp)
qed simp

lemma replace_keeps_out:
  assumes "old \<noteq> []" "new \<noteq> []" "a \<notin> set new" "hd new \<notin> set p"
  shows "contains (a # p) (py_replace old new s) \<Longrightarrow> contains (a # p) s"
proof (induction s rule: length_induct)
  case (1 s)
  show ?case
  proof (cases s)
    case (Cons c cs)
    show ?thesis
    proof (cases "starts_with old s")
      case True
      have "length (drop (length old) s) < length s" using assms(1) Cons by simp
      moreover have "contains (a # p) (py_replace old new (drop (length old) s))"
        using 1(2) True Cons assms by (simp add: py_replace_Cons contains_skip)
      ultimately show ?thesis using 1(1) contains_drop by blast
    next
      case False
      then have r: "py_replace old new s = c # py_replace old new cs" using Cons assms by (simp add: py_replace_Cons)
      have "starts_with (a # p) (c # py_replace old new cs) \<Longrightarrow> starts_with (a # p) s"
        using prefix_of_replaced [OF assms(1,2,4), of cs] Cons by (simp add: starts_with_append_iff)
      moreover have "contains (a # p) (py_replace old new cs) \<Longrightarrow> contains (a # p) cs" using 1(1) Cons by simp
      moreover have "contains (a # p) (c # py_replace old new cs)" using 1(2) by (simp only: r)
      ultimately show ?thesis using Cons by auto
    qed
  qed (use 1(2) in simp)
qed

lemma replaced_is_gone:
  assumes "old = a # p" "a \<notin> set p" "new \<noteq> []" "a \<notin> set new" "hd new \<notin> set p"
  shows "\<not> contains old (py_replace old new s)"
proof (induction s rule: length_induct)
  case (1 s)
  have ne: "old \<noteq> []" using assms(1) by simp
  show ?case
  proof (cases s)
    case Nil
    then show ?thesis using ne by simp
  next
    case (Cons c cs)
    show ?thesis
    proof (cases "starts_with old s")
      case True
      have "length (drop (length old) s) < length s" using ne Cons by simp
      then have "\<not> contains old (py_replace old new (drop (length old) s))" using 1 by blast
      then show ?thesis using True Cons ne assms by (simp add: py_replace_Cons contains_skip)
    next
      case False
      then have r: "py_replace old new s = c # py_replace old new cs" using Cons ne by (simp add: py_replace_Cons)
      have "\<not> starts_with old (c # py_replace old new cs)"
        using prefix_of_replaced [OF ne assms(3,5), of cs] False Cons by (auto simp: assms(1) starts_with_append_iff)
      moreover have "\<not> contains old (py_replace old new cs)" using 1 Cons by simp
      ultimately show ?thesis unfolding r by simp
    qed
  qed
qed

lemma set_decimal: "set (decimal n) \<subseteq> {48..57}"
proof (induction n rule: decimal.induct)
  case (1 n)
  then show ?case by (subst decimal.simps) auto
qed

lemma int_str_chars: "set (int_str i) \<subseteq> insert 45 {48..57} \<and> int_str i \<noteq> []"
  using set_decimal [of "nat i"] set_decimal [of "nat (- i)"] by (auto simp: int_str_def)

lemma json_escape_dollar: "36 \<notin> set (json_escape c) \<or> c = 36"
  by (auto simp: json_escape_def hex_digit_def lit_def)

lemma set_join: "set (join sep xs) \<subseteq> set sep \<union> \<Union> (set (map set xs))"
  by (induction sep xs rule: join.induct) auto

lemma json_names_chars:
  assumes "\<And>x. x \<in> set xs \<Longrightarrow> 36 \<notin> set x"
  shows "36 \<notin> set (json_names xs) \<and> hd (json_names xs) = 91 \<and> json_names xs \<noteq> []"
proof -
  have "36 \<notin> set (json_quote x)" if "x \<in> set xs" for x
    using assms [OF that] json_escape_dollar by (fastforce simp: json_quote_def)
  then have "36 \<notin> set (join (lit '', '') (map json_quote xs))"
    using set_join [of "lit '', ''" "map json_quote xs"] by (auto simp: lit_def)
  then show ?thesis by (simp add: json_names_def)
qed

section \<open>Properties\<close>

definition budget_variables :: "ustr list" where
  "budget_variables = map (\<lambda>k. variable (lit k))
     [''INPUT_WORDS'', ''TARGET_WORDS'', ''TARGET_RATIO'', ''NAMED_SPEAKERS'', ''ANONYMOUS_SPEAKERS'']"

text \<open>A value that may replace a variable: not empty, without a dollar sign, and not beginning like the
  name of a variable.\<close>

definition harmless :: "ustr \<Rightarrow> bool" where
  "harmless new \<longleftrightarrow> new \<noteq> [] \<and> 36 \<notin> set new \<and> list_all (\<lambda>x. hd new \<notin> set (tl x)) budget_variables"

lemma budget_variable_parts: "x \<in> set budget_variables \<Longrightarrow> x = 36 # tl x \<and> 36 \<notin> set (tl x)"
  by (auto simp: budget_variables_def variable_def lit_def)

lemma harmless_replaces:
  assumes "harmless new" "x \<in> set budget_variables"
  shows "\<not> contains x (py_replace x new s)"
    and "y \<in> set budget_variables \<Longrightarrow> contains y (py_replace x new s) \<Longrightarrow> contains y s"
proof -
  have h: "new \<noteq> []" "36 \<notin> set new" "\<And>z. z \<in> set budget_variables \<Longrightarrow> hd new \<notin> set (tl z)"
    using assms(1) by (auto simp: harmless_def list_all_iff)
  note x = budget_variable_parts [OF assms(2)]
  show "\<not> contains x (py_replace x new s)"
    by (rule replaced_is_gone [of x 36 "tl x"]) (use x h assms(2) in auto)
  assume y: "y \<in> set budget_variables" and c: "contains y (py_replace x new s)"
  have "x \<noteq> []" using x by auto
  then show "contains y s"
    using replace_keeps_out [of x new 36 "tl y" s] budget_variable_parts [OF y] h(1,2) h(3) [OF y] c by metis
qed

lemma budget_variable_chars: "x \<in> set budget_variables \<Longrightarrow> c \<in> set (tl x) \<Longrightarrow> 58 \<le> c"
  by (auto simp: budget_variables_def variable_def lit_def)

lemma harmless_int: "harmless (int_str i)"
proof -
  have hd: "hd (int_str i) \<in> insert 45 {48..57}" using int_str_chars [of i] by (meson hd_in_set subsetD)
  have "hd (int_str i) \<notin> set (tl x)" if "x \<in> set budget_variables" for x
    using budget_variable_chars [OF that, of "hd (int_str i)"] hd by auto
  moreover have "36 \<notin> set (int_str i)" using int_str_chars [of i] by auto
  ultimately show ?thesis using int_str_chars [of i] by (simp add: harmless_def list_all_iff)
qed

lemma harmless_names: "(\<And>x. x \<in> set xs \<Longrightarrow> 36 \<notin> set x) \<Longrightarrow> harmless (json_names xs)"
  using json_names_chars [of xs] by (simp add: harmless_def budget_variables_def variable_def lit_def)

text \<open>(C29) No placeholder reaches the model. When the budget is given, the rendered prompt contains none of
  the five variables, whatever the prompt file says, as long as no speaker's name has a dollar
  sign.\<close>

theorem no_placeholder_left:
  assumes names: "list_all (\<lambda>x. 36 \<notin> set x) (named @ anonymous)"
  shows "list_all (\<lambda>x. \<not> contains x
    (render_prompt_vars uc None (Some n) (Some t) (Some r) named anonymous prompt)) budget_variables"
proof -
  let ?v = "\<lambda>k. variable (lit k)"
  define p1 where "p1 = py_replace (?v ''INPUT_WORDS'') (int_str (tokens_to_words n)) prompt"
  define p2 where "p2 = py_replace (?v ''TARGET_WORDS'') (int_str (tokens_to_words t)) p1"
  define p3 where "p3 = py_replace (?v ''TARGET_RATIO'') (int_str (py_round (r * 100))) p2"
  define p4 where "p4 = py_replace (?v ''NAMED_SPEAKERS'') (json_names named) p3"
  define p5 where "p5 = py_replace (?v ''ANONYMOUS_SPEAKERS'') (json_names anonymous) p4"
  have vars: "?v ''INPUT_WORDS'' \<in> set budget_variables" "?v ''TARGET_WORDS'' \<in> set budget_variables"
    "?v ''TARGET_RATIO'' \<in> set budget_variables" "?v ''NAMED_SPEAKERS'' \<in> set budget_variables"
    "?v ''ANONYMOUS_SPEAKERS'' \<in> set budget_variables"
    by (simp_all add: budget_variables_def)
  have harm: "harmless (json_names named)" "harmless (json_names anonymous)"
    using names by (auto intro!: harmless_names simp: list_all_iff)
  have gone: "\<not> contains (?v ''INPUT_WORDS'') p1" "\<not> contains (?v ''TARGET_WORDS'') p2"
    "\<not> contains (?v ''TARGET_RATIO'') p3" "\<not> contains (?v ''NAMED_SPEAKERS'') p4"
    "\<not> contains (?v ''ANONYMOUS_SPEAKERS'') p5"
    unfolding p1_def p2_def p3_def p4_def p5_def
    by (intro harmless_replaces(1) harmless_int harm vars)+
  have keep: "contains y p5 \<Longrightarrow> contains y p4" "contains y p4 \<Longrightarrow> contains y p3" "contains y p3 \<Longrightarrow> contains y p2"
    "contains y p2 \<Longrightarrow> contains y p1" if "y \<in> set budget_variables" for y
    unfolding p5_def p4_def p3_def p2_def
    by (erule harmless_replaces(2) [OF harm(2) vars(5) that] harmless_replaces(2) [OF harm(1) vars(4) that]
        harmless_replaces(2) [OF harmless_int vars(3) that] harmless_replaces(2) [OF harmless_int vars(2) that])+
  have "\<not> contains (?v ''INPUT_WORDS'') p5" using keep [OF vars(1)] gone(1) by blast
  moreover have "\<not> contains (?v ''TARGET_WORDS'') p5" using keep [OF vars(2)] gone(2) by blast
  moreover have "\<not> contains (?v ''TARGET_RATIO'') p5" using keep [OF vars(3)] gone(3) by blast
  moreover have "\<not> contains (?v ''NAMED_SPEAKERS'') p5" using keep [OF vars(4)] gone(4) by blast
  moreover note gone(5)
  moreover have "render_prompt_vars uc None (Some n) (Some t) (Some r) named anonymous prompt = p5"
    by (simp add: render_prompt_vars_def inject_budget_vars_def participant_vars_def Let_def p5_def p4_def p3_def p2_def p1_def
        variable_def lit_def)
  ultimately show ?thesis by (simp add: budget_variables_def)
qed

theorem no_placeholder_left_witness:
  "\<not> contains (lit ''${NAMED_SPEAKERS}'') (render_prompt_vars ascii_tables None (Some 100) (Some 80) (Some (78 / 100))
     [lit ''Ann''] [] (lit ''${TARGET_WORDS} words by ${NAMED_SPEAKERS}''))"
proof -
  have "list_all (\<lambda>x. 36 \<notin> set x) ([lit ''Ann''] @ [])" by (simp add: lit_def)
  from no_placeholder_left [OF this, of ascii_tables 100 80 "78 / 100" "lit ''${TARGET_WORDS} words by ${NAMED_SPEAKERS}''"]
  show ?thesis by (simp add: budget_variables_def variable_def lit_def)
qed

end
