(* ===== verification/Summary_Windows.thy ===== *)
theory Summary_Windows
  imports Token_Budget Summary_Chunks Summary_Prompts Json_Values
begin

text \<open>
  The steps that cut the transcript and summarise its windows (\<open>PrepareSummaryChunksStep\<close> and
  \<open>SummarizeWindowsStep\<close> of \<open>pipeline/steps/summarization.py\<close>): the choice between one piece and
  windows, the recovery of the windows of an interrupted run, the loop over the windows with its
  fallback from one piece to windows, and what each round leaves on disk.

  A run is the list of its effects in order. \<open>write_json\<close> replaces a file atomically and is one
  effect; \<open>write_text\<close> truncates and then writes, so a crash inside it leaves any beginning of the
  text. A pause is raised between two windows and leaves the same files as a crash there.

  The language model and the JSON parser are arguments, as is \<open>repr\<close>.
\<close>

section \<open>Files\<close>

text \<open>A text file, or one that was cut inside a multi-byte character.\<close>

datatype textfile = Text ustr | Undecodable

record chunk_payload =
  cp_chunks :: "ustr list"
  cp_segmentation :: ustr
  cp_diarized :: "bool option"

text \<open>\<open>summary/\<close> and the mirrors under \<open>outputs/\<close>. The outer option is the existence of the file, the
  inner one whether it parses.\<close>

record summary_disk =
  sd_chunks :: "chunk_payload option"
  sd_chunks_mirror :: "chunk_payload option"
  sd_windows :: "json option option"
  sd_windows_mirror :: "json option option"
  sd_files :: "(ustr \<times> textfile) list"
  sd_redacted :: "ustr option"

datatype effect =
    PutChunks chunk_payload
  | PutChunksMirror chunk_payload
  | PutWindows json
  | PutWindowsMirror json
  | PutFile ustr ustr
  | PutRedacted ustr
  | AddRedacted ustr
  | Ask nat

fun apply_effect :: "effect \<Rightarrow> summary_disk \<Rightarrow> summary_disk" where
  "apply_effect (PutChunks p) d = d\<lparr>sd_chunks := Some p\<rparr>"
| "apply_effect (PutChunksMirror p) d = d\<lparr>sd_chunks_mirror := Some p\<rparr>"
| "apply_effect (PutWindows j) d = d\<lparr>sd_windows := Some (Some j)\<rparr>"
| "apply_effect (PutWindowsMirror j) d = d\<lparr>sd_windows_mirror := Some (Some j)\<rparr>"
| "apply_effect (PutFile name s) d = d\<lparr>sd_files := dict_set (sd_files d) name (Text s)\<rparr>"
| "apply_effect (PutRedacted s) d = d\<lparr>sd_redacted := Some s\<rparr>"
| "apply_effect (AddRedacted s) d =
     d\<lparr>sd_redacted := Some ((case sd_redacted d of None \<Rightarrow> [] | Some t \<Rightarrow> t) @ s)\<rparr>"
| "apply_effect (Ask i) d = d"

definition apply_effects :: "effect list \<Rightarrow> summary_disk \<Rightarrow> summary_disk" where
  "apply_effects es d = foldl (\<lambda>d e. apply_effect e d) d es"

datatype outcome = Completed | Raised ustr

section \<open>Settings and collaborators\<close>

record summary_env =
  sv_uc :: unicode
  sv_dt :: digit_tables
  sv_loads :: "ustr \<Rightarrow> json option"
  sv_rp :: "json \<Rightarrow> ustr"
  sv_tk :: tokenizer
  sv_local :: bool
  sv_mode :: ustr
  sv_cfg :: token_budget_config
  sv_cap :: int
  sv_floor :: int
  sv_prompt :: ustr
  sv_language :: "ustr option"
  sv_named :: "ustr list"
  sv_anonymous :: "ustr list"
  sv_dir :: ustr
  sv_llm :: "ustr \<Rightarrow> ustr \<Rightarrow> ustr + ustr"

definition count_tokens :: "summary_env \<Rightarrow> ustr \<Rightarrow> int" where
  "count_tokens v s = int (length (tk_encode (sv_tk v) s))"

definition base_prompt :: "summary_env \<Rightarrow> ustr" where
  "base_prompt v = render_prompt_with_language (sv_uc v) (sv_language v) (sv_prompt v)"

definition segment_prompt :: "summary_env \<Rightarrow> bool \<Rightarrow> ustr" where
  "segment_prompt v diarized = rewrite_prompt (sv_uc v) (base_prompt v) diarized (sv_language v)"

definition cut_into_windows :: "summary_env \<Rightarrow> ustr \<Rightarrow> bool \<Rightarrow> ustr \<Rightarrow> ustr list" where
  "cut_into_windows v prompt diarized transcript =
     chunk_text (sv_uc v) (sv_dt v) (sv_tk v) (sv_local v)
       (derive_window_tokens (sv_cfg v) (count_tokens v prompt) (sv_cap v) (sv_floor v)) diarized transcript"

section \<open>Cutting the transcript\<close>

definition chunks_done :: "summary_disk \<Rightarrow> bool" where
  "chunks_done d = (case sd_chunks d of None \<Rightarrow> False | Some p \<Rightarrow> cp_diarized p \<noteq> None)"

definition whole_mode :: "chunk_payload \<Rightarrow> bool" where
  "whole_mode p \<longleftrightarrow> cp_segmentation p = lit ''whole''"

definition make_chunks :: "summary_env \<Rightarrow> ustr \<Rightarrow> ustr + chunk_payload" where
  "make_chunks v transcript =
     (if strip transcript = []
      then Inr \<lparr>cp_chunks = [], cp_segmentation = lit ''split'', cp_diarized = Some False\<rparr>
      else (let diarized = length (split_utterances (sv_uc v) (sv_dt v) transcript) > 1;
                prompt_tokens = count_tokens v (base_prompt v);
                transcript_tokens = count_tokens v transcript
            in if sv_mode v = lit ''never'' \<and> \<not> whole_transcript_possible (sv_cfg v) prompt_tokens transcript_tokens
               then Inl (lit ''summary segmentation=never: transcript cannot fit the model context window'')
               else if sv_mode v = lit ''never''
                 \<or> sv_mode v = lit ''auto'' \<and> fits_whole_transcript (sv_cfg v) prompt_tokens transcript_tokens
               then Inr \<lparr>cp_chunks = [transcript], cp_segmentation = lit ''whole'', cp_diarized = Some diarized\<rparr>
               else Inr \<lparr>cp_chunks = cut_into_windows v (base_prompt v) diarized transcript,
                         cp_segmentation = lit ''split'', cp_diarized = Some diarized\<rparr>))"

definition prepare_summary_chunks :: "summary_env \<Rightarrow> ustr option \<Rightarrow> summary_disk \<Rightarrow> effect list \<times> outcome" where
  "prepare_summary_chunks v transcript_file d =
     (if chunks_done d then ([], Completed)
      else (case transcript_file of None \<Rightarrow> ([], Raised (lit ''Missing transcript for summarization''))
        | Some transcript \<Rightarrow>
            (case make_chunks v transcript of Inl msg \<Rightarrow> ([], Raised msg)
             | Inr p \<Rightarrow> ([PutChunks p, PutChunksMirror p], Completed))))"

section \<open>Recovered windows\<close>

text \<open>\<open>windows_by_index\<close>: the summary and the path of each window that is done.\<close>

type_synonym windows = "(nat \<times> json \<times> ustr) list"

text \<open>\<open>int(text)\<close>: surrounding whitespace, a sign, and single underscores between digits.\<close>

definition int_of_text :: "digit_tables \<Rightarrow> ustr \<Rightarrow> int option" where
  "int_of_text dt s =
     (let t = strip s; neg = (t \<noteq> [] \<and> hd t = 45); r = (if t \<noteq> [] \<and> hd t \<in> {43, 45} then tl t else t)
      in if r \<noteq> [] \<and> hd r \<noteq> 95 \<and> last r \<noteq> 95 \<and> successively (\<lambda>a b. \<not> (a = 95 \<and> b = 95)) r
         then map_option (\<lambda>n. if neg then - int n else int n) (int_of_digits dt (filter (\<lambda>c. c \<noteq> 95) r))
         else None)"

fun py_int :: "digit_tables \<Rightarrow> json \<Rightarrow> int option" where
  "py_int dt (JInt i) = Some i"
| "py_int dt (JBool b) = Some (if b then 1 else 0)"
| "py_int dt (JNum q) = Some (int_trunc q)"
| "py_int dt (JStr s) = int_of_text dt s"
| "py_int dt _ = None"

definition window_name :: "nat \<Rightarrow> ustr" where
  "window_name i = lit ''window_'' @ (if i < 10 then 48 # decimal i else decimal i) @ lit ''.txt''"

definition window_path :: "summary_env \<Rightarrow> nat \<Rightarrow> ustr" where
  "window_path v i = sv_dir v @ 47 # window_name i"

definition restore_item :: "summary_env \<Rightarrow> windows \<Rightarrow> json \<Rightarrow> windows" where
  "restore_item v ws item =
     (case item of JDict w \<Rightarrow>
        (case py_int (sv_dt v) (jget w (lit ''window_index'')) of None \<Rightarrow> ws
         | Some i \<Rightarrow> if i < 1 then ws
             else (let p = (case jget w (lit ''path'') of JStr s \<Rightarrow> if strip s = [] then window_path v (nat i) else s
                            | _ \<Rightarrow> window_path v (nat i))
                   in dict_set ws (nat i) (jget w (lit ''summary''), p)))
      | _ \<Rightarrow> ws)"

definition restore_listed :: "summary_env \<Rightarrow> json option option \<Rightarrow> windows" where
  "restore_listed v f =
     (case f of Some (Some (JDict payload)) \<Rightarrow>
        (case jget payload (lit ''windows'') of JList items \<Rightarrow> foldl (restore_item v) [] items | _ \<Rightarrow> [])
      | _ \<Rightarrow> [])"

text \<open>\<open>window_(\d+)\.txt\<close>.\<close>

definition file_index :: "digit_tables \<Rightarrow> ustr \<Rightarrow> nat option" where
  "file_index dt name =
     (if starts_with (lit ''window_'') name \<and> starts_with (rev (lit ''.txt'')) (rev name) \<and> 11 < length name
      then int_of_digits dt (drop 7 (take (length name - 4) name)) else None)"

text \<open>\<open>read_text\<close> turns every line ending into a line feed.\<close>

fun universal_newlines :: "ustr \<Rightarrow> ustr" where
  "universal_newlines [] = []"
| "universal_newlines (c # s) =
     (if c = 13 then 10 # universal_newlines (if starts_with [10] s then tl s else s) else c # universal_newlines s)"

definition parse_summary :: "summary_env \<Rightarrow> ustr \<Rightarrow> json" where
  "parse_summary v content = (case sv_loads v content of Some (JDict w) \<Rightarrow> JDict w | _ \<Rightarrow> JStr content)"

text \<open>The second pass fills the gaps from the files, in the order of their names. A file that cannot be
  decoded raises.\<close>

fun restore_files :: "summary_env \<Rightarrow> (ustr \<times> textfile) list \<Rightarrow> windows \<Rightarrow> windows option" where
  "restore_files v [] ws = Some ws"
| "restore_files v ((name, f) # fs) ws =
     (case file_index (sv_dt v) name of None \<Rightarrow> restore_files v fs ws
      | Some i \<Rightarrow> if dict_get ws i \<noteq> None then restore_files v fs ws
          else (case f of Undecodable \<Rightarrow> None
            | Text s \<Rightarrow> restore_files v fs (dict_set ws i (parse_summary v (universal_newlines s), sv_dir v @ 47 # name))))"

definition restore_windows :: "summary_env \<Rightarrow> summary_disk \<Rightarrow> nat \<Rightarrow> windows option" where
  "restore_windows v d total_windows =
     map_option (filter (\<lambda>w. fst w \<le> total_windows))
       (restore_files v (sort_key fst (sd_files d)) (restore_listed v (sd_windows d)))"

definition window_record :: "nat \<times> json \<times> ustr \<Rightarrow> json" where
  "window_record w = JDict [(lit ''window_index'', JInt (int (fst w))), (lit ''summary'', fst (snd w)),
     (lit ''path'', JStr (snd (snd w)))]"

text \<open>\<open>[windows_by_index[idx] for idx in sorted(windows_by_index)]\<close>.\<close>

definition in_order :: "windows \<Rightarrow> windows" where
  "in_order ws = sort_key fst ws"

definition windows_json :: "windows \<Rightarrow> json" where
  "windows_json ws = JDict [(lit ''windows'', JList (map window_record (in_order ws)))]"

definition write_window_summaries :: "windows \<Rightarrow> effect list" where
  "write_window_summaries ws = [PutWindows (windows_json ws), PutWindowsMirror (windows_json ws)]"

section \<open>Summarising\<close>

definition rstrip_newlines :: "ustr \<Rightarrow> ustr" where
  "rstrip_newlines s = rev (dropWhile (\<lambda>c. c = 10) (rev s))"

definition redacted_of :: "summary_env \<Rightarrow> windows \<Rightarrow> ustr" where
  "redacted_of v ws = concat (map (\<lambda>w. rstrip_newlines (py_str (sv_rp v) (fst (snd w))) @ [10, 10]) (in_order ws))"

definition user_prompt :: "nat \<Rightarrow> nat \<Rightarrow> ustr \<Rightarrow> ustr" where
  "user_prompt n i chunk = lit ''Window '' @ decimal i @ 47 # decimal n @ [10, 10] @ chunk"

definition ask_window :: "summary_env \<Rightarrow> bool \<Rightarrow> nat \<Rightarrow> nat \<Rightarrow> ustr \<Rightarrow> ustr + ustr" where
  "ask_window v diarized n i chunk =
     (let input_tokens = count_tokens v (user_prompt n i chunk);
          window_cfg = uncap_segment_for_input (sv_cfg v) input_tokens;
          target_tokens = fst (compute_segment_budget input_tokens window_cfg);
          budgeted = render_prompt_vars (sv_uc v) None (Some input_tokens) (Some target_tokens)
            (Some (segment_ratio window_cfg)) (sv_named v) (sv_anonymous v) (segment_prompt v diarized)
      in sv_llm v budgeted (user_prompt n i chunk))"

datatype loop_end = AllDone windows | Overflow | Failed ustr

text \<open>The loop over the windows. The error of a request in one piece that names the context window is the
  overflow the caller falls back from, unless the mode forbids it.\<close>

fun window_loop :: "summary_env \<Rightarrow> bool \<Rightarrow> bool \<Rightarrow> nat \<Rightarrow> (nat \<times> ustr) list \<Rightarrow> windows \<Rightarrow> effect list \<times> loop_end" where
  "window_loop v whole diarized n [] ws = ([], AllDone ws)"
| "window_loop v whole diarized n ((i, chunk) # rest) ws =
     (if dict_get ws i \<noteq> None then window_loop v whole diarized n rest ws
      else (case ask_window v diarized n i chunk of
          Inl msg \<Rightarrow> ([Ask i],
            if whole \<and> is_context_overflow_error (sv_uc v) msg
            then (if sv_mode v = lit ''never'' then Failed (lit ''summary segmentation=never: '' @ msg) else Overflow)
            else Failed msg)
        | Inr raw \<Rightarrow>
            (let ws' = dict_set ws i (JStr raw, window_path v i);
                 r = window_loop v whole diarized n rest ws'
             in ([Ask i, PutFile (window_name i) raw] @ write_window_summaries ws'
                 @ [AddRedacted (rstrip_newlines raw @ [10, 10])] @ fst r, snd r))))"

lemma window_loop_overflow: "snd (window_loop v whole diarized n cs ws) = Overflow \<Longrightarrow> whole"
  by (induction v whole diarized n cs ws rule: window_loop.induct)
    (auto simp: Let_def split: if_splits sum.splits prod.splits)

text \<open>\<open>while True\<close>: after an overflow the single chunk is cut into windows and the loop starts over,
  now without a fallback.\<close>

function run_loop :: "summary_env \<Rightarrow> bool \<Rightarrow> bool \<Rightarrow> ustr list \<Rightarrow> windows \<Rightarrow> effect list \<times> outcome" where
  "run_loop v whole diarized chunks ws =
     (let r = window_loop v whole diarized (length chunks) (enumerate 1 chunks) ws in
      case snd r of
        AllDone ws' \<Rightarrow> (fst r @ write_window_summaries ws', Completed)
      | Failed msg \<Rightarrow> (fst r, Raised msg)
      | Overflow \<Rightarrow>
          (let chunks' = cut_into_windows v (segment_prompt v diarized) diarized (hd chunks);
               p = \<lparr>cp_chunks = chunks', cp_segmentation = lit ''split'', cp_diarized = Some diarized\<rparr>;
               r' = run_loop v False diarized chunks' []
           in (fst r @ [PutChunks p, PutChunksMirror p, PutRedacted []] @ fst r', snd r')))"
  by pat_completeness auto
termination
  by (relation "measure (\<lambda>(v, whole, diarized, chunks, ws). if whole then 1 else 0)")
    (auto dest: window_loop_overflow)

declare run_loop.simps [simp del]

definition chunks_of :: "summary_disk \<Rightarrow> chunk_payload option" where
  "chunks_of d = (case sd_chunks d of Some p \<Rightarrow> Some p | None \<Rightarrow> sd_chunks_mirror d)"

definition summarize_windows :: "summary_env \<Rightarrow> summary_disk \<Rightarrow> effect list \<times> outcome" where
  "summarize_windows v d =
     (case chunks_of d of None \<Rightarrow> ([], Raised (lit ''Missing summary chunks''))
      | Some p \<Rightarrow>
          (let diarized = (cp_diarized p = Some True); total_windows = length (cp_chunks p) in
           case restore_windows v d total_windows of
             None \<Rightarrow> ([], Raised (lit ''UnicodeDecodeError''))
           | Some ws \<Rightarrow>
               (if length (filter (\<lambda>w. 1 \<le> fst w \<and> fst w \<le> total_windows) ws) = total_windows
                then (write_window_summaries ws @ [PutRedacted (redacted_of v ws)], Completed)
                else (let r = run_loop v (whole_mode p) diarized (cp_chunks p) ws
                      in (PutRedacted (redacted_of v ws) # fst r, snd r)))))"

section \<open>Names of window files\<close>

text \<open>What the digit tables say about the ASCII digits.\<close>

definition ascii_digits_ok :: "digit_tables \<Rightarrow> bool" where
  "ascii_digits_ok dt \<longleftrightarrow> list_all (\<lambda>d. dt_value dt (48 + d) = Some d) [0..<10]"

lemma dt_value_digit: "ascii_digits_ok dt \<Longrightarrow> d < 10 \<Longrightarrow> dt_value dt (48 + d) = Some d"
  by (simp add: ascii_digits_ok_def list_all_iff)

lemma int_of_digits_decimal:
  assumes ok: "ascii_digits_ok dt"
  shows "list_all (is_dec dt) (decimal n) \<and> foldl (\<lambda>m c. 10 * m + the (dt_value dt c)) 0 (decimal n) = n"
proof (induction n rule: decimal.induct)
  case (1 n)
  show ?case
  proof (cases "n < 10")
    case True
    then show ?thesis by (subst (1 2) decimal.simps) (simp add: is_dec_def dt_value_digit [OF ok])
  next
    case False
    have "n mod 10 < 10" by simp
    then have "is_dec dt (48 + n mod 10) \<and> the (dt_value dt (48 + n mod 10)) = n mod 10"
      by (simp add: is_dec_def dt_value_digit [OF ok])
    then show ?thesis using 1 [OF False] False by (subst (1 2) decimal.simps) simp
  qed
qed

lemma file_index_name:
  assumes ok: "ascii_digits_ok dt"
  shows "file_index dt (window_name i) = Some i"
proof -
  let ?digits = "if i < 10 then 48 # decimal i else decimal i"
  have name: "window_name i = lit ''window_'' @ ?digits @ lit ''.txt''" by (simp add: window_name_def)
  have len: "length (window_name i) = 11 + length ?digits" by (simp add: name lit_def)
  have z: "dt_value dt 48 = Some 0" using dt_value_digit [OF ok, of 0] by simp
  have "drop 7 (take (length (window_name i) - 4) (window_name i)) = ?digits"
    unfolding len by (simp add: name) (simp add: lit_def take_Cons' drop_Cons')
  moreover have "int_of_digits dt ?digits = Some i"
    using int_of_digits_decimal [OF ok, of i] z by (simp add: int_of_digits_def is_dec_def)
  moreover have "starts_with (lit ''window_'') (window_name i)"
    "starts_with (rev (lit ''.txt'')) (rev (window_name i))"
    by (simp_all add: name)
  moreover have "0 < length ?digits" by simp
  ultimately show ?thesis using len by (simp add: file_index_def)
qed

lemma window_path_strip: "strip (window_path v i) \<noteq> []"
  by (simp add: strip_eq_Nil_iff window_path_def window_name_def lit_def solid_Cons py_space_def)

section \<open>Answers and what they leave\<close>

text \<open>The windows \<open>is\<close> with the answers \<open>a\<close>, and the effects of one round.\<close>

definition summaries :: "summary_env \<Rightarrow> (nat \<Rightarrow> ustr) \<Rightarrow> nat list \<Rightarrow> windows" where
  "summaries v a is = map (\<lambda>i. (i, JStr (a i), window_path v i)) is"

definition round_effects :: "summary_env \<Rightarrow> (nat \<Rightarrow> ustr) \<Rightarrow> nat \<Rightarrow> effect list" where
  "round_effects v a i = [Ask i, PutFile (window_name i) (a i)]
     @ write_window_summaries (summaries v a [1..<Suc i]) @ [AddRedacted (rstrip_newlines (a i) @ [10, 10])]"

definition rewritten :: "(nat \<Rightarrow> ustr) \<Rightarrow> nat list \<Rightarrow> ustr" where
  "rewritten a is = concat (map (\<lambda>i. rstrip_newlines (a i) @ [10, 10]) is)"

lemma summaries_llm [simp]: "summaries (v\<lparr>sv_llm := l\<rparr>) a is = summaries v a is"
  by (simp add: summaries_def window_path_def)

lemma dict_get_summaries:
  "distinct is \<Longrightarrow> dict_get (summaries v a is) i = (if i \<in> set is then Some (JStr (a i), window_path v i) else None)"
  by (induction "is") (auto simp: summaries_def dict_get_def)

lemma dict_set_summaries:
  "i \<notin> set is \<Longrightarrow> dict_set (summaries v a is) i (JStr (a i), window_path v i) = summaries v a (is @ [i])"
  by (induction "is") (auto simp: summaries_def)

lemma in_order_summaries: "sorted is \<Longrightarrow> in_order (summaries v a is) = summaries v a is"
  by (simp add: in_order_def summaries_def sorted_sort_id sort_key_id_if_sorted comp_def)

lemma redacted_summaries: "sorted is \<Longrightarrow> redacted_of v (summaries v a is) = rewritten a is"
  by (simp add: redacted_of_def in_order_summaries rewritten_def) (simp add: summaries_def comp_def)

lemma upt_Suc_snoc: "[1..<Suc (Suc j)] = [1..<Suc j] @ [Suc j]"
  by simp

lemma summaries_cong: "(\<And>i. i \<in> set is \<Longrightarrow> a i = b i) \<Longrightarrow> summaries v a is = summaries v b is"
  by (simp add: summaries_def)

text \<open>The loop over windows that are all answered.\<close>

lemma loop_answers:
  assumes "\<And>i. j < i \<Longrightarrow> i \<le> j + length cs \<Longrightarrow> ask_window v dz n i (cs ! (i - Suc j)) = Inr (a i)"
  shows "window_loop v whole dz n (enumerate (Suc j) cs) (summaries v a [1..<Suc j]) =
    (concat (map (round_effects v a) [Suc j..<Suc (j + length cs)]),
     AllDone (summaries v a [1..<Suc (j + length cs)]))"
  using assms
proof (induction cs arbitrary: j)
  case Nil
  then show ?case by simp
next
  case (Cons c cs)
  have ask: "ask_window v dz n (Suc j) c = Inr (a (Suc j))" using Cons.prems [of "Suc j"] by simp
  have free: "dict_get (summaries v a [1..<Suc j]) (Suc j) = None"
    by (simp add: dict_get_summaries del: upt_Suc)
  have set: "dict_set (summaries v a [1..<Suc j]) (Suc j) (JStr (a (Suc j)), window_path v (Suc j))
      = summaries v a [1..<Suc (Suc j)]"
    using dict_set_summaries [of "Suc j" "[1..<Suc j]" v a] by simp
  have "ask_window v dz n i (cs ! (i - Suc (Suc j))) = Inr (a i)"
    if "Suc j < i" "i \<le> Suc j + length cs" for i
  proof -
    have "i - Suc j = Suc (i - Suc (Suc j))" using that by simp
    then show ?thesis using Cons.prems [of i] that by simp
  qed
  note ih = Cons.IH [OF this]
  have upt: "[Suc j..<Suc (j + length (c # cs))] = Suc j # [Suc (Suc j)..<Suc (Suc j + length cs)]"
    by (simp add: upt_conv_Cons del: upt_Suc)
  show ?case
    unfolding upt using ih
    by (simp add: ask free set Let_def round_effects_def del: upt_Suc One_nat_def)
qed

lemma loop_skips:
  "(\<And>p. p \<in> set ps \<Longrightarrow> dict_get ws (fst p) \<noteq> None) \<Longrightarrow>
   window_loop v whole dz n (ps @ rest) ws = window_loop v whole dz n rest ws"
proof (induction ps)
  case (Cons p ps)
  obtain i c where p: "p = (i, c)" by (cases p)
  have "dict_get ws i \<noteq> None" using Cons.prems [of p] by (simp add: p)
  then show ?case using Cons by (simp add: p del: not_None_eq)
qed simp

text \<open>A run that starts with the first \<open>j\<close> windows done.\<close>

lemma run_from:
  assumes ans: "\<And>i. j < i \<Longrightarrow> i \<le> length cs \<Longrightarrow> ask_window v dz (length cs) i (cs ! (i - 1)) = Inr (a i)"
    and le: "j \<le> length cs"
  shows "run_loop v whole dz cs (summaries v a [1..<Suc j]) =
    (concat (map (round_effects v a) [Suc j..<Suc (length cs)])
       @ write_window_summaries (summaries v a [1..<Suc (length cs)]), Completed)"
proof -
  have split: "enumerate 1 cs = enumerate 1 (take j cs) @ enumerate (Suc j) (drop j cs)"
    using enumerate_append_eq [of 1 "take j cs" "drop j cs"] le by simp
  have skip: "dict_get (summaries v a [1..<Suc j]) (fst p) \<noteq> None" if "p \<in> set (enumerate 1 (take j cs))" for p
    using that le by (auto simp: dict_get_summaries in_set_enumerate_eq simp del: upt_Suc)
  have "ask_window v dz (length cs) i (drop j cs ! (i - Suc j)) = Inr (a i)"
    if "j < i" "i \<le> j + length (drop j cs)" for i
    using ans [of i] that by simp
  then have "window_loop v whole dz (length cs) (enumerate (Suc j) (drop j cs)) (summaries v a [1..<Suc j])
    = (concat (map (round_effects v a) [Suc j..<Suc (length cs)]), AllDone (summaries v a [1..<Suc (length cs)]))"
    using loop_answers [of j "drop j cs" v dz "length cs" a whole] le by simp
  then have "window_loop v whole dz (length cs) (enumerate 1 cs) (summaries v a [1..<Suc j])
    = (concat (map (round_effects v a) [Suc j..<Suc (length cs)]), AllDone (summaries v a [1..<Suc (length cs)]))"
    using loop_skips [OF skip, where v = v and whole = whole and dz = dz and n = "length cs"] unfolding split by simp
  then show ?thesis by (subst run_loop.simps) (simp add: Let_def)
qed

section \<open>What a crash leaves\<close>

text \<open>After some rounds: \<open>m\<close> windows are listed and \<open>f\<close> have their file; the answers are \<open>a\<close>.\<close>

definition listing :: "summary_env \<Rightarrow> (nat \<Rightarrow> ustr) \<Rightarrow> nat \<Rightarrow> json option option" where
  "listing v a m = (if m = 0 then None else Some (Some (windows_json (summaries v a [1..<Suc m]))))"

definition left_at :: "summary_env \<Rightarrow> (nat \<Rightarrow> ustr) \<Rightarrow> chunk_payload \<Rightarrow> nat \<Rightarrow> nat \<Rightarrow> summary_disk \<Rightarrow> bool" where
  "left_at v a p m f d \<longleftrightarrow> chunks_of d = Some p \<and> sd_windows d = listing v a m
     \<and> sd_files d = map (\<lambda>i. (window_name i, Text (a i))) [1..<Suc f] \<and> (f = m \<or> f = Suc m)"

definition is_put_file :: "effect \<Rightarrow> bool" where
  "is_put_file e = (case e of PutFile _ _ \<Rightarrow> True | _ \<Rightarrow> False)"

definition files_written :: "effect list \<Rightarrow> nat" where
  "files_written es = length (filter is_put_file es)"

fun asked_of :: "effect list \<Rightarrow> nat list" where
  "asked_of [] = []"
| "asked_of (Ask i # es) = i # asked_of es"
| "asked_of (_ # es) = asked_of es"

lemma apply_effects_append: "apply_effects (xs @ ys) d = apply_effects ys (apply_effects xs d)"
  by (simp add: apply_effects_def)

lemma apply_effects_simps [simp]:
  "apply_effects [] d = d" "apply_effects (e # es) d = apply_effects es (apply_effect e d)"
  by (simp_all add: apply_effects_def)

lemma files_written_simps [simp]:
  "files_written [] = 0" "files_written (e # es) = (if is_put_file e then Suc (files_written es) else files_written es)"
  "files_written (xs @ ys) = files_written xs + files_written ys"
  by (simp_all add: files_written_def)

lemma asked_of_append [simp]: "asked_of (xs @ ys) = asked_of xs @ asked_of ys"
  by (induction xs rule: asked_of.induct) simp_all

lemma chunks_of_update [simp]:
  "chunks_of (d\<lparr>sd_files := x\<rparr>) = chunks_of d" "chunks_of (d\<lparr>sd_windows := y\<rparr>) = chunks_of d"
  "chunks_of (d\<lparr>sd_windows_mirror := y\<rparr>) = chunks_of d" "chunks_of (d\<lparr>sd_redacted := z\<rparr>) = chunks_of d"
  by (simp_all add: chunks_of_def split: option.split)

lemma window_name_inject: "ascii_digits_ok dt \<Longrightarrow> window_name i = window_name j \<longleftrightarrow> i = j"
  by (metis file_index_name option.inject)

lemma new_file:
  assumes "ascii_digits_ok dt"
  shows "dict_set (map (\<lambda>i. (window_name i, Text (a i))) [1..<Suc f]) (window_name (Suc f)) (Text (a (Suc f)))
    = map (\<lambda>i. (window_name i, Text (a i))) [1..<Suc (Suc f)]"
proof -
  have "Suc f \<notin> set is \<Longrightarrow> dict_set (map (\<lambda>i. (window_name i, Text (a i))) is) (window_name (Suc f)) (Text (a (Suc f)))
      = map (\<lambda>i. (window_name i, Text (a i))) (is @ [Suc f])" for "is"
    by (induction "is") (auto simp: window_name_inject [OF assms])
  from this [of "[1..<Suc f]"] show ?thesis by simp
qed

lemma round_prefix_cases:
  assumes "k < 5"
  shows "take k (round_effects v a i) \<in> {[], [Ask i], [Ask i, PutFile (window_name i) (a i)],
    [Ask i, PutFile (window_name i) (a i), PutWindows (windows_json (summaries v a [1..<Suc i]))],
    [Ask i, PutFile (window_name i) (a i)] @ write_window_summaries (summaries v a [1..<Suc i])}"
proof -
  have "k = 0 \<or> k = 1 \<or> k = 2 \<or> k = 3 \<or> k = 4" using assms by auto
  then show ?thesis
    by (elim disjE) (simp_all add: round_effects_def write_window_summaries_def take_Cons' del: upt_Suc)
qed

lemma left_at_round_prefix:
  assumes ok: "ascii_digits_ok dt" and at: "left_at v a p j j d" and k: "k < 5"
  shows "\<exists>m. left_at v a p m (j + files_written (take k (round_effects v a (Suc j))))
    (apply_effects (take k (round_effects v a (Suc j))) d)"
proof -
  let ?d1 = "d\<lparr>sd_files := map (\<lambda>i. (window_name i, Text (a i))) [1..<Suc (Suc j)]\<rparr>"
  have files: "apply_effect (PutFile (window_name (Suc j)) (a (Suc j))) d = ?d1"
    using at new_file [OF ok, of a j] by (simp add: left_at_def del: upt_Suc)
  have d1: "left_at v a p j (Suc j) ?d1" using at by (simp add: left_at_def del: upt_Suc)
  have d2: "left_at v a p (Suc j) (Suc j) (?d1\<lparr>sd_windows := listing v a (Suc j)\<rparr>)"
    using at by (simp add: left_at_def del: upt_Suc)
  have d3: "left_at v a p (Suc j) (Suc j) (?d1\<lparr>sd_windows := listing v a (Suc j), sd_windows_mirror := x\<rparr>)" for x
    using at by (simp add: left_at_def del: upt_Suc)
  show ?thesis
    using round_prefix_cases [OF k, of v a "Suc j"] at d1 d2 d3
    by (elim insertE emptyE)
      (auto simp: files is_put_file_def write_window_summaries_def listing_def simp del: upt_Suc apply_effect.simps(5))
qed

lemma left_at_round:
  assumes "ascii_digits_ok dt" "left_at v a p j j d"
  shows "left_at v a p (Suc j) (Suc j) (apply_effects (round_effects v a (Suc j)) d)"
  using assms(2) new_file [OF assms(1), of a j]
  by (simp add: left_at_def round_effects_def write_window_summaries_def listing_def del: upt_Suc)

lemma files_written_round [simp]: "files_written (round_effects v a i) = 1"
  by (simp add: round_effects_def write_window_summaries_def is_put_file_def)

lemma length_round_effects [simp]: "length (round_effects v a i) = 5"
  by (simp add: round_effects_def write_window_summaries_def)

lemma left_at_prefix:
  assumes ok: "ascii_digits_ok dt"
  shows "left_at v a p j j d \<Longrightarrow> \<exists>m. left_at v a p m
      (j + files_written (take k (concat (map (round_effects v a) [Suc j..<Suc (j + l)]))))
      (apply_effects (take k (concat (map (round_effects v a) [Suc j..<Suc (j + l)]))) d)"
proof (induction l arbitrary: j k d)
  case 0
  then show ?case by auto
next
  case (Suc l)
  have upt: "[Suc j..<Suc (j + Suc l)] = Suc j # [Suc (Suc j)..<Suc (Suc j + l)]"
    by (simp add: upt_conv_Cons del: upt_Suc)
  show ?case
  proof (cases "k < 5")
    case True
    then have "take k (concat (map (round_effects v a) [Suc j..<Suc (j + Suc l)])) = take k (round_effects v a (Suc j))"
      unfolding upt by simp
    then show ?thesis using left_at_round_prefix [OF ok Suc.prems True] by simp
  next
    case False
    then have "take k (concat (map (round_effects v a) [Suc j..<Suc (j + Suc l)])) =
        round_effects v a (Suc j) @ take (k - 5) (concat (map (round_effects v a) [Suc (Suc j)..<Suc (Suc j + l)]))"
      unfolding upt by (simp del: upt_Suc)
    then show ?thesis
      using Suc.IH [OF left_at_round [OF ok Suc.prems], of "k - 5"] by (simp add: apply_effects_append del: upt_Suc)
  qed
qed

section \<open>What a later run recovers\<close>

text \<open>A text that survives the way through a window file.\<close>

definition plain_answer :: "summary_env \<Rightarrow> ustr \<Rightarrow> bool" where
  "plain_answer v s \<longleftrightarrow> 13 \<notin> set s \<and> (case sv_loads v s of Some j \<Rightarrow> \<not> is_dict j | None \<Rightarrow> True)"

lemma universal_newlines_id: "13 \<notin> set s \<Longrightarrow> universal_newlines s = s"
  by (induction s) auto

lemma parse_plain: "plain_answer v s \<Longrightarrow> parse_summary v (universal_newlines s) = JStr s"
  by (auto simp: plain_answer_def universal_newlines_id parse_summary_def split: option.splits json.splits)

lemma restore_record:
  "0 < i \<Longrightarrow> restore_item v ws (window_record (i, JStr (a i), window_path v i)) = dict_set ws i (JStr (a i), window_path v i)"
  using window_path_strip [of v i]
  by (simp add: restore_item_def window_record_def jget_def dict_get_def Let_def)

lemma restore_listing: "restore_listed v (listing v a m) = summaries v a [1..<Suc m]"
proof -
  have "foldl (restore_item v) [] (map window_record (summaries v a [1..<Suc k])) = summaries v a [1..<Suc k]" for k
  proof (induction k)
    case 0
    then show ?case by (simp add: summaries_def)
  next
    case (Suc k)
    have "summaries v a [1..<Suc (Suc k)] = summaries v a [1..<Suc k] @ [(Suc k, JStr (a (Suc k)), window_path v (Suc k))]"
      by (simp add: summaries_def)
    then show ?case
      using Suc dict_set_summaries [of "Suc k" "[1..<Suc k]" v a] by (simp add: restore_record del: upt_Suc One_nat_def) (simp add: summaries_def)
  qed
  then show ?thesis
    by (simp add: listing_def restore_listed_def windows_json_def jget_def dict_get_def in_order_summaries del: upt_Suc)
      (simp add: summaries_def)
qed

lemma restore_window_files:
  assumes ok: "ascii_digits_ok (sv_dt v)" and plain: "plain_answer v (a (Suc m))"
    and fs: "set fs \<subseteq> (\<lambda>i. (window_name i, Text (a i))) ` {1..Suc m}"
  shows "restore_files v fs (summaries v a [1..<Suc m]) =
    Some (summaries v a [1..<Suc (if (window_name (Suc m), Text (a (Suc m))) \<in> set fs then Suc m else m)])"
  using fs
proof (induction fs)
  case Nil
  then show ?case by simp
next
  case (Cons nf fs)
  obtain i where i: "1 \<le> i" "i \<le> Suc m" "nf = (window_name i, Text (a i))" using Cons.prems by auto
  have get: "dict_get (summaries v a [1..<Suc k]) l = (if 1 \<le> l \<and> l \<le> k then Some (JStr (a l), window_path v l) else None)" for k l
    by (simp add: dict_get_summaries del: upt_Suc)
  show ?case
  proof (cases "i = Suc m")
    case False
    then show ?thesis using Cons i get [of m i] window_name_inject [OF ok, of "Suc m" i]
      by (simp add: file_index_name [OF ok] del: upt_Suc)
  next
    case True
    have all: "restore_files v gs (summaries v a [1..<Suc (Suc m)]) = Some (summaries v a [1..<Suc (Suc m)])"
      if "set gs \<subseteq> (\<lambda>i. (window_name i, Text (a i))) ` {1..Suc m}" for gs
      using that
    proof (induction gs)
      case (Cons g gs)
      then obtain l where "1 \<le> l" "l \<le> Suc m" "g = (window_name l, Text (a l))" by auto
      then show ?case using Cons get [of "Suc m" l] by (simp add: file_index_name [OF ok] del: upt_Suc)
    qed simp
    have "dict_set (summaries v a [1..<Suc m]) (Suc m) (JStr (a (Suc m)), window_path v (Suc m))
        = summaries v a [1..<Suc (Suc m)]"
      using dict_set_summaries [of "Suc m" "[1..<Suc m]" v a] by simp
    then show ?thesis using Cons i True get [of m "Suc m"] all [of fs]
      by (simp add: file_index_name [OF ok] parse_plain [OF plain] window_path_def del: upt_Suc)
  qed
qed

lemma restore_left_at:
  assumes ok: "ascii_digits_ok (sv_dt v)" and plain: "\<And>i. 1 \<le> i \<Longrightarrow> i \<le> f \<Longrightarrow> plain_answer v (a i)"
    and at: "left_at v a p m f d" and "f \<le> n"
  shows "restore_windows v d n = Some (summaries v a [1..<Suc f])"
proof -
  let ?fs = "sort_key fst (sd_files d)"
  have fs: "set ?fs = (\<lambda>i. (window_name i, Text (a i))) ` {1..f}"
    using at by (auto simp: left_at_def simp del: upt_Suc)
  have mem: "(window_name (Suc m), Text (a (Suc m))) \<in> set ?fs \<longleftrightarrow> f = Suc m"
    using at window_name_inject [OF ok] unfolding fs by (auto simp: left_at_def)
  have rf: "restore_files v ?fs (summaries v a [1..<Suc m]) = Some (summaries v a [1..<Suc f])"
  proof (cases "f = Suc m")
    case True
    then have "plain_answer v (a (Suc m))" using plain by simp
    from restore_window_files [where fs = ?fs and m = m and a = a, OF ok this] show ?thesis
      using True fs mem by (simp del: upt_Suc)
  next
    case False
    then have fm: "f = m" using at by (simp add: left_at_def)
    have "restore_files v gs (summaries v a [1..<Suc m]) = Some (summaries v a [1..<Suc m])"
      if "set gs \<subseteq> (\<lambda>i. (window_name i, Text (a i))) ` {1..m}" for gs
      using that
    proof (induction gs)
      case (Cons g gs)
      then obtain l where "1 \<le> l" "l \<le> m" "g = (window_name l, Text (a l))" by auto
      then show ?case using Cons by (simp add: file_index_name [OF ok] dict_get_summaries del: upt_Suc)
    qed simp
    then show ?thesis using fs fm by simp
  qed
  have "filter (\<lambda>w. fst w \<le> n) (summaries v a [1..<Suc f]) = summaries v a [1..<Suc f]"
    using assms(4) by (auto simp: summaries_def filter_id_conv simp del: upt_Suc)
  then show ?thesis
    using rf at by (simp add: restore_windows_def left_at_def restore_listing del: upt_Suc)
qed

section \<open>Resuming\<close>

lemma rounds_redacted:
  "sd_redacted d = Some r \<Longrightarrow>
   sd_redacted (apply_effects (concat (map (round_effects v b) is)) d) = Some (r @ rewritten b is)"
proof (induction "is" arbitrary: d r)
  case Nil
  then show ?case by (simp add: rewritten_def)
next
  case (Cons i "is")
  have "sd_redacted (apply_effects (round_effects v b i) d) = Some (r @ rstrip_newlines (b i) @ [10, 10])"
    using Cons.prems by (simp add: round_effects_def write_window_summaries_def del: upt_Suc)
  from Cons.IH [OF this] show ?case by (simp add: apply_effects_append rewritten_def)
qed

lemma rounds_asked: "asked_of (concat (map (round_effects v b) is)) = is"
  by (induction "is") (simp_all add: round_effects_def write_window_summaries_def)

definition finished_with :: "summary_env \<Rightarrow> (nat \<Rightarrow> ustr) \<Rightarrow> nat \<Rightarrow> summary_disk \<Rightarrow> bool" where
  "finished_with v a n d \<longleftrightarrow>
     sd_windows d = Some (Some (windows_json (summaries v a [1..<Suc n])))
     \<and> sd_windows_mirror d = Some (Some (windows_json (summaries v a [1..<Suc n])))
     \<and> sd_redacted d = Some (rewritten a [1..<Suc n])"

lemma write_then_finished:
  assumes "sd_redacted (apply_effects es d) = Some (rewritten b [1..<Suc n])"
  shows "finished_with v b n (apply_effects (es @ write_window_summaries (summaries v b [1..<Suc n])) d)"
  using assms by (simp add: finished_with_def apply_effects_append write_window_summaries_def del: upt_Suc)

lemma rewritten_append: "rewritten a (xs @ ys) = rewritten a xs @ rewritten a ys"
  by (simp add: rewritten_def)

lemma upt_split_at: "f \<le> n \<Longrightarrow> [1..<Suc n] = [1..<Suc f] @ [Suc f..<Suc n]"
  using upt_add_eq_append [of 1 "Suc f" "n - f"] by simp

lemma resume_from:
  assumes ok: "ascii_digits_ok (sv_dt v)" and at: "left_at v a p m f d" and n: "n = length (cp_chunks p)" "0 < n" "f \<le> n"
    and plain: "\<And>i. 1 \<le> i \<Longrightarrow> i \<le> f \<Longrightarrow> plain_answer v (a i)"
    and ans: "\<And>i. f < i \<Longrightarrow> i \<le> n \<Longrightarrow> ask_window v (cp_diarized p = Some True) n i (cp_chunks p ! (i - 1)) = Inr (b i)"
    and b: "\<And>i. i \<le> f \<Longrightarrow> b i = a i"
  shows "snd (summarize_windows v d) = Completed \<and> asked_of (fst (summarize_windows v d)) = [Suc f..<Suc n]
    \<and> finished_with v b n (apply_effects (fst (summarize_windows v d)) d)"
proof -
  let ?dz = "cp_diarized p = Some True"
  have ch: "chunks_of d = Some p" using at by (simp add: left_at_def)
  have "summaries v a [1..<Suc f] = summaries v b [1..<Suc f]" using b by (intro summaries_cong) auto
  then have ws: "restore_windows v d n = Some (summaries v b [1..<Suc f])"
    using restore_left_at [OF ok plain at n(3)] by simp
  have "filter (\<lambda>w. 1 \<le> fst w \<and> fst w \<le> n) (summaries v b [1..<Suc f]) = summaries v b [1..<Suc f]"
    using n(3) by (auto simp: summaries_def filter_id_conv simp del: upt_Suc)
  then have restored: "length (filter (\<lambda>w. 1 \<le> fst w \<and> fst w \<le> n) (summaries v b [1..<Suc f])) = f"
    by (simp add: summaries_def del: upt_Suc)
  have red: "redacted_of v (summaries v b [1..<Suc f]) = rewritten b [1..<Suc f]"
    by (rule redacted_summaries) (simp del: upt_Suc)
  show ?thesis
  proof (cases "f = n")
    case True
    have "summarize_windows v d = (write_window_summaries (summaries v b [1..<Suc n]) @ [PutRedacted (rewritten b [1..<Suc n])], Completed)"
      using ch ws restored red True n(1) by (simp add: summarize_windows_def Let_def del: upt_Suc)
    then show ?thesis using True
      by (simp add: finished_with_def write_window_summaries_def apply_effects_append del: upt_Suc)
  next
    case False
    let ?rounds = "concat (map (round_effects v b) [Suc f..<Suc n])"
    have "run_loop v (whole_mode p) ?dz (cp_chunks p) (summaries v b [1..<Suc f]) =
        (?rounds @ write_window_summaries (summaries v b [1..<Suc n]), Completed)"
      using run_from [of f "cp_chunks p" v ?dz b "whole_mode p"] ans n by (simp del: upt_Suc)
    then have sw: "summarize_windows v d = ((PutRedacted (rewritten b [1..<Suc f]) # ?rounds)
        @ write_window_summaries (summaries v b [1..<Suc n]), Completed)"
      using ch ws restored red False n(1) by (simp add: summarize_windows_def Let_def del: upt_Suc)
    have "sd_redacted (apply_effects (PutRedacted (rewritten b [1..<Suc f]) # ?rounds) d) = Some (rewritten b [1..<Suc n])"
      using rounds_redacted [of "apply_effect (PutRedacted (rewritten b [1..<Suc f])) d" "rewritten b [1..<Suc f]" v b "[Suc f..<Suc n]"]
      unfolding upt_split_at [OF n(3)] rewritten_append by (simp del: upt_Suc)
    from write_then_finished [OF this] show ?thesis
      unfolding sw by (simp add: rounds_asked write_window_summaries_def del: upt_Suc append_Cons)
  qed
qed

text \<open>A directory nothing has been summarised in.\<close>

definition fresh_disk :: "chunk_payload \<Rightarrow> summary_disk \<Rightarrow> bool" where
  "fresh_disk p d \<longleftrightarrow> chunks_of d = Some p \<and> sd_windows d = None \<and> sd_files d = []"

definition answers_with :: "summary_env \<Rightarrow> chunk_payload \<Rightarrow> (nat \<Rightarrow> ustr) \<Rightarrow> bool" where
  "answers_with v p a \<longleftrightarrow> list_all (\<lambda>i. ask_window v (cp_diarized p = Some True) (length (cp_chunks p)) i
     (cp_chunks p ! (i - 1)) = Inr (a i)) [1..<Suc (length (cp_chunks p))]"

definition plain_answers :: "summary_env \<Rightarrow> chunk_payload \<Rightarrow> (nat \<Rightarrow> ustr) \<Rightarrow> bool" where
  "plain_answers v p a \<longleftrightarrow> list_all (\<lambda>i. plain_answer v (a i)) [1..<Suc (length (cp_chunks p))]"

lemma answers_withD:
  "answers_with v p a \<Longrightarrow> 1 \<le> i \<Longrightarrow> i \<le> length (cp_chunks p) \<Longrightarrow>
    ask_window v (cp_diarized p = Some True) (length (cp_chunks p)) i (cp_chunks p ! (i - 1)) = Inr (a i)"
  by (simp add: answers_with_def list_all_iff del: upt_Suc)

lemma plain_answersD: "plain_answers v p a \<Longrightarrow> 1 \<le> i \<Longrightarrow> i \<le> length (cp_chunks p) \<Longrightarrow> plain_answer v (a i)"
  by (simp add: plain_answers_def list_all_iff del: upt_Suc)

lemma fresh_left_at: "fresh_disk p d \<Longrightarrow> left_at v a p 0 0 d"
  by (simp add: fresh_disk_def left_at_def listing_def)

text \<open>The effects of the first run, and what any beginning of them leaves.\<close>

lemma first_run:
  assumes ok: "ascii_digits_ok (sv_dt v)" and fresh: "fresh_disk p d" and ans: "answers_with v p a" and ne: "cp_chunks p \<noteq> []"
  shows "fst (summarize_windows v d) = (PutRedacted [] # concat (map (round_effects v a) [1..<Suc (length (cp_chunks p))]))
    @ write_window_summaries (summaries v a [1..<Suc (length (cp_chunks p))])"
proof -
  let ?n = "length (cp_chunks p)"
  have ws: "restore_windows v d ?n = Some []"
    using fresh by (simp add: fresh_disk_def restore_windows_def restore_listed_def)
  have "run_loop v (whole_mode p) (cp_diarized p = Some True) (cp_chunks p) (summaries v a [1..<Suc 0]) =
      (concat (map (round_effects v a) [Suc 0..<Suc ?n]) @ write_window_summaries (summaries v a [1..<Suc ?n]), Completed)"
    using run_from [of 0 "cp_chunks p" v "cp_diarized p = Some True" a "whole_mode p"] answers_withD [OF ans] by simp
  then show ?thesis
    using fresh ws ne
    by (simp add: summarize_windows_def fresh_disk_def Let_def summaries_def redacted_of_def in_order_def del: upt_Suc)
qed

lemma take_write:
  "take l (write_window_summaries ws) \<in> {[], [PutWindows (windows_json ws)], write_window_summaries ws}"
proof -
  have "l = 0 \<or> l = 1 \<or> 2 \<le> l" by linarith
  then show ?thesis by (elim disjE) (simp_all add: write_window_summaries_def take_Cons')
qed

lemma left_at_take:
  assumes ok: "ascii_digits_ok (sv_dt v)" and fresh: "fresh_disk p d" and ans: "answers_with v p a" and ne: "cp_chunks p \<noteq> []"
  shows "\<exists>m. left_at v a p m (files_written (take k (fst (summarize_windows v d))))
    (apply_effects (take k (fst (summarize_windows v d))) d)"
proof (cases k)
  case 0
  then show ?thesis using fresh_left_at [OF fresh] by auto
next
  case (Suc k')
  let ?n = "length (cp_chunks p)"
  let ?rounds = "concat (map (round_effects v a) [1..<Suc ?n])"
  let ?d = "d\<lparr>sd_redacted := Some []\<rparr>"
  have at0: "left_at v a p 0 0 ?d" using fresh_left_at [OF fresh, of v a] by (simp add: left_at_def)
  have rounds: "\<exists>m. left_at v a p m (files_written (take l ?rounds)) (apply_effects (take l ?rounds) ?d)" for l
    using left_at_prefix [OF ok at0, of l ?n] by simp
  have run: "take k (fst (summarize_windows v d)) = PutRedacted [] # take k' ?rounds
      @ take (k' - length ?rounds) (write_window_summaries (summaries v a [1..<Suc ?n]))"
    unfolding first_run [OF assms] Suc by simp
  show ?thesis
  proof (cases "k' \<le> length ?rounds")
    case True
    then show ?thesis using rounds [of k'] unfolding run by (simp add: is_put_file_def)
  next
    case False
    let ?d' = "apply_effects ?rounds ?d"
    have full: "files_written ?rounds = ?n"
    proof -
      have "files_written (concat (map (round_effects v a) is)) = length is" for "is"
        by (induction "is") simp_all
      then show ?thesis by (simp del: upt_Suc)
    qed
    obtain m where m: "left_at v a p m ?n ?d'" using rounds [of "length ?rounds"] full by auto
    have "sd_windows ?d' = listing v a ?n"
    proof -
      have "sd_windows (apply_effects (concat (map (round_effects v a) [Suc j..<Suc (j + l)])) e) =
          (if l = 0 then sd_windows e else listing v a (j + l))" for j l e
      proof (induction l)
        case (Suc l)
        then show ?case
          by (simp add: apply_effects_append round_effects_def write_window_summaries_def listing_def)
      qed simp
      from this [of 0 ?n ?d] ne show ?thesis by simp
    qed
    then have at: "left_at v a p ?n ?n ?d'" using m by (simp add: left_at_def)
    have "left_at v a p ?n (?n + files_written (take l (write_window_summaries (summaries v a [1..<Suc ?n]))))
        (apply_effects (take l (write_window_summaries (summaries v a [1..<Suc ?n]))) ?d')" for l
      using take_write [of l "summaries v a [1..<Suc ?n]"]
    proof (elim insertE emptyE)
    qed (use at ne in \<open>simp_all add: left_at_def listing_def write_window_summaries_def is_put_file_def del: upt_Suc\<close>)
    from this [of "k' - length ?rounds"] show ?thesis
      unfolding run using False full by (auto simp: is_put_file_def apply_effects_append simp del: upt_Suc)
  qed
qed

section \<open>Properties\<close>

text \<open>A window whose file was left half-written: the effect at position \<open>k\<close> is its write, and the crash
  came when \<open>t\<close> was on disk.\<close>

definition torn_at :: "effect list \<Rightarrow> nat \<Rightarrow> textfile \<Rightarrow> summary_disk \<Rightarrow> summary_disk" where
  "torn_at es k t d = (let d' = apply_effects (take k es) d in
     if k < length es then (case es ! k of PutFile name _ \<Rightarrow> d'\<lparr>sd_files := dict_set (sd_files d') name t\<rparr> | _ \<Rightarrow> d')
     else d')"

lemma torn_left_at:
  assumes ok: "ascii_digits_ok (sv_dt v)" and fresh: "fresh_disk p d" and ans: "answers_with v p a" and ne: "cp_chunks p \<noteq> []"
    and j: "j < length (cp_chunks p)" "k = 5 * j + 2"
  shows "fst (summarize_windows v d) ! k = PutFile (window_name (Suc j)) (a (Suc j))"
    "k < length (fst (summarize_windows v d))"
    "left_at v a p j j (apply_effects (take k (fst (summarize_windows v d))) d)"
proof -
  let ?n = "length (cp_chunks p)"
  let ?r = "\<lambda>is. concat (map (round_effects v a) is)"
  have split: "?r [1..<Suc ?n] = ?r [1..<Suc j] @ round_effects v a (Suc j) @ ?r [Suc (Suc j)..<Suc ?n]"
    using upt_split_at [of j ?n] j(1) by (simp add: upt_conv_Cons del: upt_Suc)
  have len: "length (?r is) = 5 * length is" for "is" by (induction "is") simp_all
  have run: "fst (summarize_windows v d) = (PutRedacted [] # ?r [1..<Suc j]) @ Ask (Suc j)
      # PutFile (window_name (Suc j)) (a (Suc j)) # tl (tl (round_effects v a (Suc j))) @ ?r [Suc (Suc j)..<Suc ?n]
      @ write_window_summaries (summaries v a [1..<Suc ?n])"
    unfolding first_run [OF assms(1-4)] split by (simp add: round_effects_def del: upt_Suc)
  have len1: "length (PutRedacted [] # ?r [1..<Suc j]) = Suc (5 * j)" by (simp add: len del: upt_Suc)
  show "fst (summarize_windows v d) ! k = PutFile (window_name (Suc j)) (a (Suc j))"
    unfolding run j(2) nth_append len1 by simp
  show "k < length (fst (summarize_windows v d))"
    unfolding run j(2) length_append len1 by simp
  have tk: "take k (fst (summarize_windows v d)) = (PutRedacted [] # ?r [1..<Suc j]) @ [Ask (Suc j)]"
    unfolding run j(2) take_append len1 by (simp add: len del: upt_Suc)
  have "left_at v a p i i (apply_effects (?r [1..<Suc i]) (d\<lparr>sd_redacted := Some []\<rparr>))" for i
  proof (induction i)
    case 0
    then show ?case using fresh_left_at [OF fresh] by (simp add: left_at_def)
  next
    case (Suc i)
    have "?r [1..<Suc (Suc i)] = ?r [1..<Suc i] @ round_effects v a (Suc i)" by simp
    then show ?case using left_at_round [OF ok Suc.IH] by (simp add: apply_effects_append del: upt_Suc)
  qed
  then show "left_at v a p j j (apply_effects (take k (fst (summarize_windows v d))) d)"
    unfolding tk by (simp add: apply_effects_append del: upt_Suc)
qed

text \<open>(C2) An interrupted run is resumed without loss or repetition. Cut the first run between any two
  effects; whatever the model answers afterwards, the next run asks exactly for the windows whose
  file is missing, each once and in order, completes, and leaves in the listing, its mirror and the
  redacted transcript the first run's answer for every window that had its file and the new answer
  for the others. Hypotheses: the answers contain no carriage return and do not parse as a JSON
  object, and both runs are answered.\<close>

theorem interrupted_run_resumes:
  assumes ok: "ascii_digits_ok (sv_dt v)" and fresh: "fresh_disk p d" and ne: "cp_chunks p \<noteq> []"
    and first: "answers_with v p a" "plain_answers v p a"
    and later: "answers_with (v\<lparr>sv_llm := llm\<rparr>) p a'"
    and crash: "es = take k (fst (summarize_windows v d))" "d' = apply_effects es d"
    and kept: "b = (\<lambda>i. if i \<le> files_written es then a i else a' i)"
  shows "case summarize_windows (v\<lparr>sv_llm := llm\<rparr>) d' of (es', out) \<Rightarrow>
      out = Completed \<and> asked_of es' = [Suc (files_written es)..<Suc (length (cp_chunks p))]
      \<and> finished_with v b (length (cp_chunks p)) (apply_effects es' d')"
proof -
  let ?v = "v\<lparr>sv_llm := llm\<rparr>" and ?n = "length (cp_chunks p)" and ?f = "files_written es"
  obtain m where at: "left_at v a p m ?f d'"
    using left_at_take [OF ok fresh first(1) ne, of k] crash by auto
  have le: "?f \<le> ?n"
  proof -
    have part: "files_written (take i xs) \<le> files_written xs" for i and xs :: "effect list"
      by (metis append_take_drop_id files_written_simps(3) le_add1)
    have rounds: "files_written (concat (map (round_effects v a) is)) = length is" for "is"
      by (induction "is") simp_all
    have "files_written (fst (summarize_windows v d)) = ?n"
      unfolding first_run [OF ok fresh first(1) ne]
      by (simp add: rounds is_put_file_def write_window_summaries_def del: upt_Suc)
    then show ?thesis using part [of k "fst (summarize_windows v d)"] crash by simp
  qed
  have at': "left_at ?v a p m ?f d'" using at by (simp add: left_at_def listing_def del: upt_Suc)
  have "snd (summarize_windows ?v d') = Completed
      \<and> asked_of (fst (summarize_windows ?v d')) = [Suc ?f..<Suc ?n]
      \<and> finished_with ?v b ?n (apply_effects (fst (summarize_windows ?v d')) d')"
  proof (rule resume_from [OF _ at'])
    show "plain_answer ?v (a i)" if "1 \<le> i" "i \<le> ?f" for i
      using plain_answersD [OF first(2), of i] that le by (simp add: plain_answer_def)
    show "ask_window ?v (cp_diarized p = Some True) ?n i (cp_chunks p ! (i - 1)) = Inr (b i)"
      if "?f < i" "i \<le> ?n" for i
      using answers_withD [OF later, of i] that by (simp add: kept)
  qed (use ok ne le kept in simp_all)
  then show ?thesis by (simp add: case_prod_beta finished_with_def del: upt_Suc)
qed

text \<open>A run of two windows the model answers with one word each, for the witnesses.\<close>

definition two_chunks :: chunk_payload where
  "two_chunks = \<lparr>cp_chunks = [lit ''first part'', lit ''second part''], cp_segmentation = lit ''split'', cp_diarized = Some False\<rparr>"

definition blank_disk :: "chunk_payload \<Rightarrow> summary_disk" where
  "blank_disk p = \<lparr>sd_chunks = Some p, sd_chunks_mirror = Some p, sd_windows = None, sd_windows_mirror = None,
     sd_files = [], sd_redacted = None\<rparr>"

definition steady_summary :: "ustr \<Rightarrow> summary_env" where
  "steady_summary w = \<lparr>sv_uc = ascii_tables, sv_dt = ascii_digits, sv_loads = (\<lambda>_. None), sv_rp = (\<lambda>_. []),
     sv_tk = char_tokens, sv_local = True, sv_mode = lit ''auto'', sv_cfg = default_budget, sv_cap = 8192,
     sv_floor = 2000, sv_prompt = lit ''Rewrite.'', sv_language = None, sv_named = [], sv_anonymous = [],
     sv_dir = lit ''/summary'', sv_llm = (\<lambda>_ _. Inr w)\<rparr>"

lemma steady_summary_ok:
  "ascii_digits_ok (sv_dt (steady_summary w))" "fresh_disk p (blank_disk p)"
  "answers_with (steady_summary w) p (\<lambda>_. w)" "answers_with (steady_summary w\<lparr>sv_llm := \<lambda>_ _. Inr x\<rparr>) p (\<lambda>_. x)"
  "13 \<notin> set w \<Longrightarrow> plain_answers (steady_summary w) p (\<lambda>_. w)"
  by (simp_all add: ascii_digits_ok_def steady_summary_def ascii_digits_def fresh_disk_def blank_disk_def chunks_of_def
      answers_with_def ask_window_def Let_def plain_answers_def plain_answer_def list_all_iff del: upt_Suc)

lemma two_chunks_simps [simp]: "cp_chunks two_chunks \<noteq> []" "length (cp_chunks two_chunks) = 2"
  by (simp_all add: two_chunks_def)

theorem interrupted_run_resumes_witness:
  "let v = steady_summary (lit ''one''); d = blank_disk two_chunks; es = take 3 (fst (summarize_windows v d));
       d' = apply_effects es d; r = summarize_windows (v\<lparr>sv_llm := \<lambda>_ _. Inr (lit ''two'')\<rparr>) d'
   in files_written es = 1 \<and> snd r = Completed \<and> asked_of (fst r) = [2]
      \<and> finished_with v (\<lambda>i. if i \<le> 1 then lit ''one'' else lit ''two'') 2 (apply_effects (fst r) d')"
proof -
  let ?v = "steady_summary (lit ''one'')" and ?d = "blank_disk two_chunks"
  let ?es = "take 3 (fst (summarize_windows ?v ?d))"
  have plain: "plain_answers ?v two_chunks (\<lambda>_. lit ''one'')" by (rule steady_summary_ok) (simp add: lit_def)
  have f: "files_written ?es = 1"
    unfolding first_run [OF steady_summary_ok(1-3) two_chunks_simps(1)]
    by (simp add: round_effects_def is_put_file_def upt_rec)
  show ?thesis
    using interrupted_run_resumes [OF steady_summary_ok(1,2) two_chunks_simps(1) steady_summary_ok(3) plain
        steady_summary_ok(4) [where x = "lit ''two''"] refl refl refl, where k = 3] f
    by (simp add: Let_def case_prod_beta upt_rec)
qed

text \<open>A window file that a crash left half-written is taken for the whole answer. When the process
  dies inside the write of window \<open>j + 1\<close>, the next run finds the beginning of the text, does not ask
  for the window again, and completes with the truncated text in the listing and in the redacted
  transcript.\<close>

theorem half_written_window_kept:
  assumes ok: "ascii_digits_ok (sv_dt v)" and fresh: "fresh_disk p d" and ne: "cp_chunks p \<noteq> []"
    and first: "answers_with v p a" "plain_answers v p a" and j: "j < length (cp_chunks p)"
    and torn: "t = take l (a (Suc j))" "plain_answer v t"
      "d' = torn_at (fst (summarize_windows v d)) (5 * j + 2) (Text t) d"
  shows "case summarize_windows v d' of (es', out) \<Rightarrow>
      out = Completed \<and> asked_of es' = [Suc (Suc j)..<Suc (length (cp_chunks p))]
      \<and> finished_with v (a(Suc j := t)) (length (cp_chunks p)) (apply_effects es' d')"
proof -
  let ?n = "length (cp_chunks p)" and ?b = "a(Suc j := t)"
  let ?d = "apply_effects (take (5 * j + 2) (fst (summarize_windows v d))) d"
  note at = torn_left_at [OF ok fresh first(1) ne j refl]
  have files: "dict_set (sd_files ?d) (window_name (Suc j)) (Text t)
      = map (\<lambda>i. (window_name i, Text (?b i))) [1..<Suc (Suc j)]"
  proof -
    have "sd_files ?d = map (\<lambda>i. (window_name i, Text (?b i))) [1..<Suc j]"
      using at(3) by (simp add: left_at_def del: upt_Suc)
    then show ?thesis using new_file [OF ok, of ?b j] by (simp del: upt_Suc)
  qed
  have "summaries v a [1..<Suc j] = summaries v ?b [1..<Suc j]" by (rule summaries_cong) (simp del: upt_Suc)
  then have atd: "left_at v ?b p j (Suc j) d'"
    using at files by (simp add: torn(3) torn_at_def Let_def left_at_def listing_def del: upt_Suc)
  have "snd (summarize_windows v d') = Completed
      \<and> asked_of (fst (summarize_windows v d')) = [Suc (Suc j)..<Suc ?n]
      \<and> finished_with v ?b ?n (apply_effects (fst (summarize_windows v d')) d')"
  proof (rule resume_from [OF ok atd])
    show "plain_answer v (?b i)" if "1 \<le> i" "i \<le> Suc j" for i
      using plain_answersD [OF first(2), of i] that j torn(2) by simp
    show "ask_window v (cp_diarized p = Some True) ?n i (cp_chunks p ! (i - 1)) = Inr (?b i)"
      if "Suc j < i" "i \<le> ?n" for i
      using answers_withD [OF first(1), of i] that by simp
  qed (use ne j in simp_all)
  then show ?thesis by (simp add: case_prod_beta)
qed

theorem half_written_window_kept_witness:
  "let v = steady_summary (lit ''one''); d = blank_disk two_chunks;
       d' = torn_at (fst (summarize_windows v d)) 7 (Text (lit ''on'')) d; r = summarize_windows v d'
   in snd r = Completed \<and> asked_of (fst r) = []
      \<and> finished_with v ((\<lambda>_. lit ''one'')(2 := lit ''on'')) 2 (apply_effects (fst r) d')"
proof -
  let ?v = "steady_summary (lit ''one'')"
  have plain: "plain_answers ?v two_chunks (\<lambda>_. lit ''one'')" by (rule steady_summary_ok) (simp add: lit_def)
  have t: "lit ''on'' = take 2 (lit ''one'')" "plain_answer ?v (lit ''on'')"
    by (simp_all add: lit_def plain_answer_def steady_summary_def)
  have "1 < length (cp_chunks two_chunks)" by simp
  from half_written_window_kept [OF steady_summary_ok(1,2) two_chunks_simps(1) steady_summary_ok(3) plain this t refl]
  show ?thesis by (simp add: Let_def case_prod_beta numeral_2_eq_2)
qed

text \<open>A window file cut inside a character stops the task for good. The step then fails before it
  asks or writes anything, whatever the model would answer, so every later attempt finds the same
  file and fails the same way.\<close>

theorem undecodable_window_blocks:
  assumes ok: "ascii_digits_ok (sv_dt v)" and fresh: "fresh_disk p d" and ne: "cp_chunks p \<noteq> []"
    and first: "answers_with v p a" "plain_answers v p a" and j: "j < length (cp_chunks p)"
    and torn: "d' = torn_at (fst (summarize_windows v d)) (5 * j + 2) Undecodable d"
  shows "summarize_windows (v\<lparr>sv_llm := llm\<rparr>) d' = ([], Raised (lit ''UnicodeDecodeError''))"
proof -
  let ?v = "v\<lparr>sv_llm := llm\<rparr>"
  let ?d = "apply_effects (take (5 * j + 2) (fst (summarize_windows v d))) d"
  note at = torn_left_at [OF ok fresh first(1) ne j refl]
  have at3: "chunks_of ?d = Some p" "sd_windows ?d = listing v a j"
    "sd_files ?d = map (\<lambda>i. (window_name i, Text (a i))) [1..<Suc j]"
    using at(3) by (simp_all add: left_at_def del: upt_Suc)
  have "Suc j \<notin> set is \<Longrightarrow> dict_set (map (\<lambda>i. (window_name i, Text (a i))) is) (window_name (Suc j)) Undecodable
      = map (\<lambda>i. (window_name i, Text (a i))) is @ [(window_name (Suc j), Undecodable)]" for "is"
    by (induction "is") (auto simp: window_name_inject [OF ok])
  from this [of "[1..<Suc j]"]
  have files: "sd_files d' = map (\<lambda>i. (window_name i, Text (a i))) [1..<Suc j] @ [(window_name (Suc j), Undecodable)]"
    using at at3 by (simp add: torn torn_at_def Let_def del: upt_Suc)
  have rest: "chunks_of d' = Some p" "sd_windows d' = listing ?v a j"
    using at at3 by (simp_all add: torn torn_at_def Let_def listing_def del: upt_Suc)
  have get: "dict_get (summaries ?v a [1..<Suc j]) l = None \<longleftrightarrow> \<not> (1 \<le> l \<and> l \<le> j)" for l
    by (auto simp: dict_get_summaries simp del: upt_Suc)
  have none: "restore_files ?v fs (summaries ?v a [1..<Suc j]) = None"
    if "set fs \<subseteq> (\<lambda>i. (window_name i, Text (a i))) ` {1..j} \<union> {(window_name (Suc j), Undecodable)}"
      "(window_name (Suc j), Undecodable) \<in> set fs" for fs
    using that
  proof (induction fs)
    case (Cons nf fs)
    show ?case
    proof (cases "nf = (window_name (Suc j), Undecodable)")
      case True
      then show ?thesis using get [of "Suc j"] by (simp add: file_index_name [OF ok])
    next
      case False
      then have "nf \<in> (\<lambda>i. (window_name i, Text (a i))) ` {1..j}" using Cons.prems by simp
      then obtain l where "1 \<le> l" "l \<le> j" "nf = (window_name l, Text (a l))" by auto
      then show ?thesis using Cons False get [of l] by (simp add: file_index_name [OF ok] del: upt_Suc)
    qed
  qed simp
  have "{Suc 0..<Suc j} = {1..j}" by auto
  then have "restore_files ?v (sort_key fst (sd_files d')) (summaries ?v a [1..<Suc j]) = None"
    by (intro none) (auto simp: files simp del: upt_Suc)
  then have "restore_windows ?v d' n = None" for n
    by (simp add: restore_windows_def rest restore_listing del: upt_Suc)
  then show ?thesis by (simp add: summarize_windows_def rest)
qed

theorem undecodable_window_blocks_witness:
  "let v = steady_summary (lit ''one''); d = blank_disk two_chunks;
       d' = torn_at (fst (summarize_windows v d)) 7 Undecodable d
   in summarize_windows (v\<lparr>sv_llm := \<lambda>_ _. Inr (lit ''two'')\<rparr>) d' = ([], Raised (lit ''UnicodeDecodeError''))"
proof -
  have plain: "plain_answers (steady_summary (lit ''one'')) two_chunks (\<lambda>_. lit ''one'')"
    by (rule steady_summary_ok) (simp add: lit_def)
  have "1 < length (cp_chunks two_chunks)" by simp
  from undecodable_window_blocks [OF steady_summary_ok(1,2) two_chunks_simps(1) steady_summary_ok(3) plain this refl]
  show ?thesis by (simp add: Let_def)
qed

text \<open>When the model reports that the whole transcript does not fit its context, the step cuts it into
  windows and starts over, once: the new cut replaces the old one on disk before any window is asked
  for, every window is then summarised, and a crash from there on resumes under the new cut. In
  mode \<open>never\<close> it fails instead and leaves the cut alone.\<close>

theorem overflow_falls_back_once:
  assumes fresh: "fresh_disk p d" and whole: "whole_mode p" "cp_chunks p = [t]"
    and over: "ask_window v (cp_diarized p = Some True) 1 1 t = Inl msg" "is_context_overflow_error (sv_uc v) msg"
    and cut: "p' = \<lparr>cp_chunks = cut_into_windows v (segment_prompt v (cp_diarized p = Some True)) (cp_diarized p = Some True) t,
       cp_segmentation = lit ''split'', cp_diarized = Some (cp_diarized p = Some True)\<rparr>"
    and ans: "answers_with v p' a"
  shows "case summarize_windows v d of (es, out) \<Rightarrow>
     if sv_mode v = lit ''never''
     then es = [PutRedacted [], Ask 1] \<and> out = Raised (lit ''summary segmentation=never: '' @ msg)
     else out = Completed \<and> asked_of es = 1 # [1..<Suc (length (cp_chunks p'))]
       \<and> fresh_disk p' (apply_effects (take 5 es) d)
       \<and> chunks_of (apply_effects es d) = Some p' \<and> finished_with v a (length (cp_chunks p')) (apply_effects es d)"
proof -
  let ?dz = "cp_diarized p = Some True" and ?n = "length (cp_chunks p')"
  have ws: "restore_windows v d 1 = Some []"
    using fresh by (simp add: fresh_disk_def restore_windows_def restore_listed_def)
  have red: "redacted_of v [] = []" by (simp add: redacted_of_def in_order_def)
  have sw: "summarize_windows v d = (PutRedacted [] # fst (run_loop v True ?dz [t] []), snd (run_loop v True ?dz [t] []))"
    using fresh ws red whole by (simp add: summarize_windows_def fresh_disk_def Let_def)
  have loop: "window_loop v True ?dz 1 (enumerate 1 [t]) [] = ([Ask 1],
      if sv_mode v = lit ''never'' then Failed (lit ''summary segmentation=never: '' @ msg) else Overflow)"
    using over by (simp add: dict_get_def)
  show ?thesis
  proof (cases "sv_mode v = lit ''never''")
    case True
    have "run_loop v True ?dz [t] [] = ([Ask 1], Raised (lit ''summary segmentation=never: '' @ msg))"
      using loop True by (subst run_loop.simps) (simp add: Let_def)
    then show ?thesis using sw True by simp
  next
    case False
    let ?rest = "concat (map (round_effects v a) [1..<Suc ?n]) @ write_window_summaries (summaries v a [1..<Suc ?n])"
    have cs: "cut_into_windows v (segment_prompt v ?dz) ?dz t = cp_chunks p'" by (simp add: cut)
    have pp: "\<lparr>cp_chunks = cp_chunks p', cp_segmentation = lit ''split'', cp_diarized = Some ?dz\<rparr> = p'" by (simp add: cut)
    have "ask_window v ?dz ?n i (cp_chunks p' ! (i - 1)) = Inr (a i)" if "0 < i" "i \<le> ?n" for i
      using answers_withD [OF ans, of i] that by (simp add: cut)
    from run_from [OF this, of 0 False] have "run_loop v False ?dz (cp_chunks p') [] = (?rest, Completed)"
      by (simp add: summaries_def del: upt_Suc)
    then have "run_loop v True ?dz [t] [] = (Ask 1 # PutChunks p' # PutChunksMirror p' # PutRedacted [] # ?rest, Completed)"
      using loop False by (subst run_loop.simps) (simp add: Let_def cs pp del: upt_Suc window_loop.simps)
    then have es: "fst (summarize_windows v d) = [PutRedacted [], Ask 1, PutChunks p', PutChunksMirror p', PutRedacted []] @ ?rest"
      "snd (summarize_windows v d) = Completed" using sw by (simp_all del: upt_Suc)
    let ?d5 = "apply_effects [PutRedacted [], Ask 1, PutChunks p', PutChunksMirror p', PutRedacted []] d"
    have d5: "fresh_disk p' ?d5" using fresh by (simp add: fresh_disk_def chunks_of_def)
    have "sd_redacted (apply_effects (concat (map (round_effects v a) [1..<Suc ?n])) ?d5) = Some (rewritten a [1..<Suc ?n])"
      using rounds_redacted [of ?d5 "[]" v a] by (simp del: upt_Suc)
    from write_then_finished [OF this] have fin: "finished_with v a ?n (apply_effects ?rest ?d5)" .
    have keep: "chunks_of (apply_effects (concat (map (round_effects v a) is)) e) = chunks_of e" for "is" e
      by (induction "is" arbitrary: e)
        (simp_all add: apply_effects_append round_effects_def write_window_summaries_def del: upt_Suc)
    have "chunks_of (apply_effects ?rest ?d5) = Some p'"
      using d5 by (simp add: apply_effects_append keep write_window_summaries_def fresh_disk_def del: upt_Suc apply_effects_simps(2))
        (simp add: keep write_window_summaries_def del: upt_Suc)
    then show ?thesis
      using es fin d5 False
      by (simp add: case_prod_beta apply_effects_append rounds_asked write_window_summaries_def del: upt_Suc)
  qed
qed

text \<open>A model whose context holds twenty characters.\<close>

definition small_context :: summary_env where
  "small_context = steady_summary []\<lparr>sv_cap := 5, sv_floor := 5, sv_llm := (\<lambda>_ user.
     if 20 < length user then Inl (lit ''Context window exceeded'') else Inr (lit ''ok''))\<rparr>"

definition one_piece :: chunk_payload where
  "one_piece = \<lparr>cp_chunks = [lit ''one. two.''], cp_segmentation = lit ''whole'', cp_diarized = Some False\<rparr>"

theorem overflow_falls_back_once_witness:
  "snd (summarize_windows small_context (blank_disk one_piece)) = Completed
   \<and> asked_of (fst (summarize_windows small_context (blank_disk one_piece))) = [1, 1, 2]
   \<and> finished_with small_context (\<lambda>_. lit ''ok'') 2
       (apply_effects (fst (summarize_windows small_context (blank_disk one_piece))) (blank_disk one_piece))"
proof -
  let ?t = "lit ''one. two.''"
  let ?p = "\<lparr>cp_chunks = cut_into_windows small_context (segment_prompt small_context (cp_diarized one_piece = Some True))
      (cp_diarized one_piece = Some True) ?t, cp_segmentation = lit ''split'',
      cp_diarized = Some (cp_diarized one_piece = Some True)\<rparr>"
  have w: "derive_window_tokens cfg n 5 5 = 5" for cfg n
    by (simp add: derive_window_tokens_def Let_def clamp_of_int)
  have cut: "cut_into_windows small_context q False ?t = [lit ''one.'', lit ''two.'']" for q
    by (simp add: cut_into_windows_def small_context_def steady_summary_def w) (simp add: cut_eval)
  have user: "length (user_prompt n i c) = 10 + length (decimal i) + length (decimal n) + length c" for n i c
    by (simp add: user_prompt_def lit_def)
  have one: "length (decimal 1) = 1" "length (decimal 2) = 1" by (simp_all add: decimal.simps)
  have over: "ask_window small_context (cp_diarized one_piece = Some True) 1 1 ?t = Inl (lit ''Context window exceeded'')"
    using one by (simp add: ask_window_def small_context_def Let_def user) (simp add: lit_def)
  have hint: "is_context_overflow_error (sv_uc small_context) (lit ''Context window exceeded'')"
    by (simp add: is_context_overflow_error_def small_context_def steady_summary_def ascii_tables_def ctx_overflow_hints_def
        starts_with_def ascii_lower1_def lit_def Let_def)
  have short: "ask_window small_context x 2 i c = Inr (lit ''ok'')" if "i \<in> {1, 2}" "length c = 4" for x i c
    using that one by (auto simp: ask_window_def small_context_def Let_def user)
  have len: "length (lit ''one.'') = 4" "length (lit ''two.'') = 4" by (simp_all add: lit_def)
  have ans: "answers_with small_context ?p (\<lambda>_. lit ''ok'')"
    using short [OF _ len(1)] short [OF _ len(2)]
    by (simp add: answers_with_def one_piece_def cut upt_rec numeral_2_eq_2)
  have fresh: "fresh_disk one_piece (blank_disk one_piece)" by (rule steady_summary_ok(2))
  have auto: "sv_mode small_context \<noteq> lit ''never''" by (simp add: small_context_def steady_summary_def)
  have "whole_mode one_piece" "cp_chunks one_piece = [?t]" by (simp_all add: whole_mode_def one_piece_def)
  from overflow_falls_back_once [OF fresh this over hint refl ans] auto
  show ?thesis by (simp add: case_prod_beta one_piece_def cut upt_rec numeral_2_eq_2)
qed

end
