(* ===== verification/Summary_Notes.thy ===== *)
theory Summary_Notes
  imports Summary_Windows Prompt_Options
begin

text \<open>
  From the windows to the final document (\<open>PackWindowNotesStep\<close> and \<open>FinalizePromptStep\<close> of
  \<open>pipeline/steps/summarization.py\<close>): packing the notes until they fit the context, in passes over
  batches, and writing the document of one prompt with its recovery.

  The packing loop runs as long as the model keeps it running: it takes a fuel, and not returning is
  the value \<open>None\<close> at every fuel.
\<close>

section \<open>Notes\<close>

text \<open>\<open>load_window_summaries\<close>: the listing or its mirror. A file that does not parse or is no dictionary
  raises in the parser or at \<open>get\<close>.\<close>

definition load_window_summaries :: "summary_disk \<Rightarrow> ustr + json list" where
  "load_window_summaries d =
     (case (case sd_windows d of None \<Rightarrow> sd_windows_mirror d | Some f \<Rightarrow> Some f) of
        None \<Rightarrow> Inl (lit ''Missing window summaries'')
      | Some None \<Rightarrow> Inl (lit ''JSONDecodeError'')
      | Some (Some j) \<Rightarrow>
          (case j of JDict payload \<Rightarrow>
             (case jget_or payload (lit ''windows'') (JList []) of JList ws \<Rightarrow> Inr ws
              | _ \<Rightarrow> Inl (lit ''Invalid window summaries payload''))
           | _ \<Rightarrow> Inl (lit ''AttributeError'')))"

fun text_or_empty :: "json \<Rightarrow> ustr" where
  "text_or_empty (JStr s) = strip s"
| "text_or_empty _ = []"

fun summary_lines :: "(json \<Rightarrow> ustr) \<Rightarrow> jdict \<Rightarrow> ustr list" where
  "summary_lines rp [] = []"
| "summary_lines rp ((key, val) # rest) =
     (if key = lit ''raw'' then summary_lines rp rest
      else case val of
        JList xs \<Rightarrow> (key @ lit '': '' @ join (lit ''; '') (map (py_str rp) xs)) # summary_lines rp rest
      | JStr s \<Rightarrow> if strip s = [] then summary_lines rp rest else (key @ lit '': '' @ strip s) # summary_lines rp rest
      | _ \<Rightarrow> summary_lines rp rest)"

definition extract_window_text :: "(json \<Rightarrow> ustr) \<Rightarrow> jdict \<Rightarrow> ustr" where
  "extract_window_text rp window =
     (case jget_or window (lit ''summary'') (JDict []) of
        JStr s \<Rightarrow> strip s
      | JDict summary \<Rightarrow>
          (if text_or_empty (jget summary (lit ''summary'')) \<noteq> [] then text_or_empty (jget summary (lit ''summary''))
           else if text_or_empty (jget summary (lit ''raw'')) \<noteq> [] then text_or_empty (jget summary (lit ''raw''))
           else join [10] (summary_lines rp summary))
      | v \<Rightarrow> strip (py_str rp v))"

text \<open>The texts of the windows; a window that is no dictionary raises at \<open>get\<close>.\<close>

fun window_texts :: "(json \<Rightarrow> ustr) \<Rightarrow> json list \<Rightarrow> ustr + ustr list" where
  "window_texts rp [] = Inr []"
| "window_texts rp (w # ws) =
     (case w of JDict d \<Rightarrow> (case window_texts rp ws of Inl e \<Rightarrow> Inl e | Inr ts \<Rightarrow> Inr (extract_window_text rp d # ts))
      | _ \<Rightarrow> Inl (lit ''AttributeError''))"

section \<open>Packing\<close>

text \<open>A note with its number of tokens. A batch is closed when the next note would take it over the limit.\<close>

type_synonym sized_note = "ustr \<times> int"

definition add_note :: "int \<Rightarrow> ustr list list \<times> ustr list \<times> int \<Rightarrow> sized_note \<Rightarrow> ustr list list \<times> ustr list \<times> int" where
  "add_note limit st n = (case (st, n) of ((batches, current_batch, current_batch_tokens), (note_text, note_tc)) \<Rightarrow>
     if current_batch \<noteq> [] \<and> current_batch_tokens + note_tc > limit
     then (batches @ [current_batch], [note_text], note_tc)
     else (batches, current_batch @ [note_text], current_batch_tokens + note_tc))"

definition make_batches :: "int \<Rightarrow> sized_note list \<Rightarrow> ustr list list" where
  "make_batches limit notes = (case foldl (add_note limit) ([], [], 0) notes of
     (batches, current_batch, _) \<Rightarrow> if current_batch \<noteq> [] then batches @ [current_batch] else batches)"

definition pack_batch :: "summary_env \<Rightarrow> ustr \<Rightarrow> ustr list \<Rightarrow> ustr + sized_note" where
  "pack_batch v pack_prompt batch =
     (let batch_input = join [10, 10] batch;
          batch_input_tokens = count_tokens v batch_input;
          target_tokens = fst (compute_pack_budget batch_input_tokens (sv_cfg v));
          pack_system_prompt = render_prompt_vars (sv_uc v) None (Some batch_input_tokens) (Some target_tokens)
            (Some (pack_ratio (sv_cfg v))) [] [] pack_prompt
      in case sv_llm v pack_system_prompt batch_input of Inl e \<Rightarrow> Inl e
         | Inr packed_text \<Rightarrow> Inr (packed_text, count_tokens v packed_text))"

fun pack_pass :: "summary_env \<Rightarrow> ustr \<Rightarrow> ustr list list \<Rightarrow> ustr + sized_note list" where
  "pack_pass v pack_prompt [] = Inr []"
| "pack_pass v pack_prompt (b # bs) =
     (case pack_batch v pack_prompt b of Inl e \<Rightarrow> Inl e
      | Inr n \<Rightarrow> (case pack_pass v pack_prompt bs of Inl e \<Rightarrow> Inl e | Inr ns \<Rightarrow> Inr (n # ns)))"

definition notes_tokens :: "sized_note list \<Rightarrow> int" where
  "notes_tokens notes = sum_list (map snd notes)"

fun pack_loop :: "summary_env \<Rightarrow> ustr \<Rightarrow> int \<Rightarrow> nat \<Rightarrow> sized_note list \<Rightarrow> nat \<Rightarrow> (ustr + sized_note list \<times> nat) option" where
  "pack_loop v pack_prompt final_prompt_tokens 0 notes passes = None"
| "pack_loop v pack_prompt final_prompt_tokens (Suc fuel) notes passes =
     (if fits_in_context (sv_cfg v) final_prompt_tokens (notes_tokens notes) \<or> notes = []
      then Some (Inr (notes, passes))
      else (case pack_pass v pack_prompt (make_batches (pack_batch_max_input_tokens (sv_cfg v)) notes) of
          Inl e \<Rightarrow> Some (Inl e)
        | Inr notes' \<Rightarrow>
            if length notes' = 1 \<and> \<not> fits_in_context (sv_cfg v) final_prompt_tokens (notes_tokens notes')
            then Some (Inr (notes', Suc passes))
            else pack_loop v pack_prompt final_prompt_tokens fuel notes' (Suc passes)))"

record packed_notes =
  pn_notes :: "ustr list"
  pn_packing_triggered :: bool
  pn_packing_pass_count :: nat
  pn_total_notes_tokens :: int

text \<open>\<open>PackWindowNotesStep.run\<close> with no packed file yet: what it writes, or what it raises.\<close>

definition pack_window_notes ::
  "summary_env \<Rightarrow> ustr \<Rightarrow> ustr \<Rightarrow> nat \<Rightarrow> summary_disk \<Rightarrow> (ustr + packed_notes) option" where
  "pack_window_notes v system_prompt pack_template fuel d =
     (case load_window_summaries d of Inl e \<Rightarrow> Some (Inl e)
      | Inr windows \<Rightarrow>
        (case window_texts (sv_rp v) windows of Inl e \<Rightarrow> Some (Inl e)
         | Inr notes_texts \<Rightarrow>
           (let final_prompt = render_prompt_vars (sv_uc v) None None None None [] []
                  (render_prompt_with_language (sv_uc v) (sv_language v) system_prompt);
                final_prompt_tokens = count_tokens v final_prompt;
                notes = map (\<lambda>t. (t, count_tokens v t)) notes_texts;
                packing_triggered = (\<not> fits_in_context (sv_cfg v) final_prompt_tokens (notes_tokens notes));
                pack_prompt = render_prompt_with_language (sv_uc v) (sv_language v) pack_template
            in if \<not> packing_triggered
               then Some (Inr \<lparr>pn_notes = notes_texts, pn_packing_triggered = False, pn_packing_pass_count = 0,
                 pn_total_notes_tokens = notes_tokens notes\<rparr>)
               else map_option (\<lambda>r. case r of Inl e \<Rightarrow> Inl e
                 | Inr (ns, passes) \<Rightarrow> Inr \<lparr>pn_notes = map fst ns, pn_packing_triggered = True,
                     pn_packing_pass_count = passes, pn_total_notes_tokens = notes_tokens ns\<rparr>)
                 (pack_loop v pack_prompt final_prompt_tokens fuel notes 0))))"

text \<open>The whole step: a packed file that is already there is kept.\<close>

definition run_pack_step ::
  "summary_env \<Rightarrow> ustr \<Rightarrow> ustr \<Rightarrow> nat \<Rightarrow> packed_notes option \<Rightarrow> summary_disk \<Rightarrow> (ustr + packed_notes) option" where
  "run_pack_step v system_prompt pack_template fuel packed_file d =
     (case packed_file of Some p \<Rightarrow> Some (Inr p) | None \<Rightarrow> pack_window_notes v system_prompt pack_template fuel d)"

section \<open>Batches\<close>

definition sized :: "summary_env \<Rightarrow> sized_note list \<Rightarrow> bool" where
  "sized v nts \<longleftrightarrow> list_all (\<lambda>n. snd n = count_tokens v (fst n)) nts"

definition text_tokens :: "summary_env \<Rightarrow> ustr list \<Rightarrow> int" where
  "text_tokens v ts = sum_list (map (count_tokens v) ts)"

lemma count_tokens_nonneg: "0 \<le> count_tokens v s"
  by (simp add: count_tokens_def)

lemma text_tokens_nonneg: "0 \<le> text_tokens v ts"
  by (induction ts) (simp_all add: text_tokens_def count_tokens_nonneg)

lemma text_tokens_simps [simp]:
  "text_tokens v [] = 0" "text_tokens v (t # ts) = count_tokens v t + text_tokens v ts"
  "text_tokens v (xs @ ys) = text_tokens v xs + text_tokens v ys"
  by (simp_all add: text_tokens_def)

lemma text_tokens_concat: "text_tokens v (concat bs) = sum_list (map (text_tokens v) bs)"
  by (induction bs) simp_all

lemma notes_tokens_simps [simp]:
  "notes_tokens [] = 0" "notes_tokens (n # ns) = snd n + notes_tokens ns"
  "notes_tokens (xs @ ys) = notes_tokens xs + notes_tokens ys"
  by (simp_all add: notes_tokens_def)

lemma sized_simps [simp]:
  "sized v []" "sized v (n # ns) \<longleftrightarrow> snd n = count_tokens v (fst n) \<and> sized v ns"
  "sized v (xs @ ys) \<longleftrightarrow> sized v xs \<and> sized v ys"
  by (simp_all add: sized_def)

lemma sized_tokens: "sized v nts \<Longrightarrow> notes_tokens nts = text_tokens v (map fst nts)"
  by (induction nts) simp_all

lemma sized_tokens_nonneg: "sized v nts \<Longrightarrow> 0 \<le> notes_tokens nts"
  by (simp add: sized_tokens text_tokens_nonneg)

lemma add_note_simp [simp]:
  "add_note limit (bs, cur, t) (x, c) =
     (if cur \<noteq> [] \<and> t + c > limit then (bs @ [cur], [x], c) else (bs, cur @ [x], t + c))"
  by (simp add: add_note_def)

lemma batching_invariant:
  assumes "sized v nts" "0 \<le> limit"
  shows "case foldl (add_note limit) ([], [], 0) nts of (bs, cur, t) \<Rightarrow>
    concat bs @ cur = map fst nts \<and> list_all (\<lambda>b. b \<noteq> []) bs \<and> (nts \<noteq> [] \<longrightarrow> cur \<noteq> []) \<and> t = text_tokens v cur
    \<and> list_all (\<lambda>b. text_tokens v b \<le> limit \<or> tl b = []) (bs @ [cur])"
  using assms(1)
proof (induction nts rule: rev_induct)
  case Nil
  then show ?case using assms(2) by simp
next
  case (snoc n nts)
  obtain bs cur t where f: "foldl (add_note limit) ([], [], 0) nts = (bs, cur, t)" by (metis prod_cases3)
  obtain x c where n: "n = (x, c)" by (cases n)
  show ?case using snoc by (cases "cur = []") (simp_all add: f n)
qed

lemma make_batches_spec:
  assumes "sized v nts" "0 \<le> limit"
  shows "concat (make_batches limit nts) = map fst nts"
    "list_all (\<lambda>b. b \<noteq> []) (make_batches limit nts)"
    "list_all (\<lambda>b. text_tokens v b \<le> limit \<or> tl b = []) (make_batches limit nts)"
  using batching_invariant [OF assms] by (auto simp: make_batches_def split: prod.splits)

lemma make_batches_one:
  assumes "sized v nts" "notes_tokens nts \<le> limit" "nts \<noteq> []"
  shows "make_batches limit nts = [map fst nts]"
proof -
  have "foldl (add_note limit) ([], [], 0) ns = ([], map fst ns, notes_tokens ns)"
    if "sized v ns" "notes_tokens ns \<le> limit" for ns
    using that
  proof (induction ns rule: rev_induct)
    case (snoc n ns)
    have "0 \<le> snd n" using snoc.prems count_tokens_nonneg [of v "fst n"] by simp
    then have "notes_tokens ns \<le> limit" using snoc.prems by simp
    then show ?case using snoc by (cases n) simp
  qed simp
  from this [OF assms(1,2)] assms(3) show ?thesis by (simp add: make_batches_def)
qed

lemma make_batches_singletons:
  assumes "list_all (\<lambda>n. limit < 2 * snd n) nts"
  shows "make_batches limit nts = map (\<lambda>n. [fst n]) nts"
proof -
  have "foldl (add_note limit) ([], [], 0) ns = (map (\<lambda>n. [fst n]) (butlast ns), [fst (last ns)], snd (last ns))"
    if "list_all (\<lambda>n. limit < 2 * snd n) ns" "ns \<noteq> []" for ns
    using that
  proof (induction ns rule: rev_induct)
    case (snoc n ns)
    show ?case
    proof (cases "ns = []")
      case True
      then show ?thesis by (cases n) simp
    next
      case False
      have "limit < 2 * snd (last ns)" using snoc.prems False by (simp add: list_all_iff)
      then have "limit < snd (last ns) + snd n" using snoc.prems by simp
      moreover have "map (\<lambda>n. [fst n]) (butlast ns) @ [[fst (last ns)]] = map (\<lambda>n. [fst n]) ns"
        using False by (metis (no_types, lifting) append_butlast_last_id list.simps(8,9) map_append)
      ultimately show ?thesis using snoc False by (cases n) simp
    qed
  qed simp
  note f = this
  show ?thesis
  proof (cases "nts = []")
    case True
    then show ?thesis by (simp add: make_batches_def)
  next
    case False
    have "map (\<lambda>n. [fst n]) (butlast nts) @ [[fst (last nts)]] = map (\<lambda>n. [fst n]) nts"
      using False by (metis (no_types, lifting) append_butlast_last_id list.simps(8,9) map_append)
    then show ?thesis using f [OF assms False] by (simp add: make_batches_def)
  qed
qed

section \<open>Passes\<close>

text \<open>A model that packs: its answer to a batch has fewer tokens than the notes of the batch, or none when
  they have none.\<close>

definition shrinks :: "summary_env \<Rightarrow> bool" where
  "shrinks v \<longleftrightarrow> (\<forall>sys batch. batch \<noteq> [] \<longrightarrow> (\<exists>raw. sv_llm v sys (join [10, 10] batch) = Inr raw
     \<and> (count_tokens v raw < text_tokens v batch \<or> count_tokens v raw = 0)))"

lemma shrinksD:
  assumes "shrinks v" "b \<noteq> []"
  obtains raw where "pack_batch v pp b = Inr (raw, count_tokens v raw)"
    "count_tokens v raw < text_tokens v b \<or> count_tokens v raw = 0"
proof -
  let ?sys = "render_prompt_vars (sv_uc v) None (Some (count_tokens v (join [10, 10] b)))
    (Some (fst (compute_pack_budget (count_tokens v (join [10, 10] b)) (sv_cfg v)))) (Some (pack_ratio (sv_cfg v))) [] [] pp"
  obtain raw where "sv_llm v ?sys (join [10, 10] b) = Inr raw"
    "count_tokens v raw < text_tokens v b \<or> count_tokens v raw = 0"
    using assms unfolding shrinks_def by blast
  then show thesis by (intro that [of raw]) (simp_all add: pack_batch_def Let_def)
qed

lemma pack_pass_shrinks:
  assumes "shrinks v" "list_all (\<lambda>b. b \<noteq> []) bs"
  shows "\<exists>ns. pack_pass v pp bs = Inr ns \<and> length ns = length bs \<and> sized v ns
    \<and> notes_tokens ns \<le> text_tokens v (concat bs)
    \<and> (0 < text_tokens v (concat bs) \<longrightarrow> notes_tokens ns < text_tokens v (concat bs))"
  using assms(2)
proof (induction bs)
  case Nil
  then show ?case by simp
next
  case (Cons b bs)
  then obtain ns where ns: "pack_pass v pp bs = Inr ns" "length ns = length bs" "sized v ns"
    "notes_tokens ns \<le> text_tokens v (concat bs)"
    "0 < text_tokens v (concat bs) \<longrightarrow> notes_tokens ns < text_tokens v (concat bs)" by auto
  have "b \<noteq> []" using Cons.prems by simp
  from shrinksD [OF assms(1) this, of pp] obtain raw where raw: "pack_batch v pp b = Inr (raw, count_tokens v raw)"
    "count_tokens v raw < text_tokens v b \<or> count_tokens v raw = 0" .
  have "0 \<le> text_tokens v b" "0 \<le> text_tokens v (concat bs)" "0 \<le> notes_tokens ns"
    using sized_tokens_nonneg [OF ns(3)] text_tokens_nonneg by simp_all
  then show ?case using ns raw by (intro exI [of _ "(raw, count_tokens v raw) # ns"]) auto
qed

lemma pack_loop_terminates:
  assumes "shrinks v" "0 \<le> pack_batch_max_input_tokens (sv_cfg v)"
  shows "sized v nts \<Longrightarrow> notes_tokens nts < int fuel \<Longrightarrow>
    \<exists>ns k. pack_loop v pp pt (Suc fuel) nts passes = Some (Inr (ns, k)) \<and> sized v ns
      \<and> (fits_in_context (sv_cfg v) pt (notes_tokens ns) \<or> length ns \<le> 1)
      \<and> notes_tokens ns \<le> notes_tokens nts \<and> passes \<le> k \<and> k \<le> passes + fuel"
proof (induction fuel arbitrary: nts passes)
  case 0
  then show ?case using sized_tokens_nonneg [of v nts] by simp
next
  case (Suc fuel)
  let ?limit = "pack_batch_max_input_tokens (sv_cfg v)"
  show ?case
  proof (cases "fits_in_context (sv_cfg v) pt (notes_tokens nts) \<or> nts = []")
    case True
    then show ?thesis using Suc.prems by (auto intro!: exI)
  next
    case False
    note spec = make_batches_spec [OF Suc.prems(1) assms(2)]
    obtain ns where ns: "pack_pass v pp (make_batches ?limit nts) = Inr ns"
      "length ns = length (make_batches ?limit nts)" "sized v ns"
      "notes_tokens ns \<le> notes_tokens nts" "0 < notes_tokens nts \<longrightarrow> notes_tokens ns < notes_tokens nts"
      using pack_pass_shrinks [OF assms(1) spec(2), of pp] spec(1) sized_tokens [OF Suc.prems(1)] by auto
    show ?thesis
    proof (cases "length ns = 1")
      case True
      show ?thesis
      proof (cases "fits_in_context (sv_cfg v) pt (notes_tokens ns)")
        case fit: True
        then have "pack_loop v pp pt (Suc (Suc fuel)) nts passes = Some (Inr (ns, Suc passes))"
          using False ns True by simp
        then show ?thesis using ns fit by auto
      next
        case unfit: False
        then have "pack_loop v pp pt (Suc (Suc fuel)) nts passes = Some (Inr (ns, Suc passes))"
          using False ns True by simp
        then show ?thesis using ns True by auto
      qed
    next
      case many: False
      have "\<not> notes_tokens nts \<le> ?limit"
        using make_batches_one [OF Suc.prems(1)] False ns(2) many by auto
      then have "0 < notes_tokens nts" using assms(2) by linarith
      then have lt: "notes_tokens ns < int fuel" using ns(5) Suc.prems(2) by simp
      have "pack_loop v pp pt (Suc (Suc fuel)) nts passes = pack_loop v pp pt (Suc fuel) ns (Suc passes)"
        using False ns many by simp
      then show ?thesis using Suc.IH [OF ns(3) lt, of "Suc passes"] ns(4) by fastforce
    qed
  qed
qed

section \<open>A model that does not pack\<close>

lemma fits_mono:
  assumes "0 \<le> final_max_ratio cfg" "a \<le> b" "fits_in_context cfg pt b"
  shows "fits_in_context cfg pt a"
proof -
  have "of_int a * final_max_ratio cfg \<le> of_int b * final_max_ratio cfg"
    using assms by (simp add: mult_right_mono)
  then have "\<lceil>of_int a * final_max_ratio cfg\<rceil> \<le> \<lceil>of_int b * final_max_ratio cfg\<rceil>" by (rule ceiling_mono)
  then show ?thesis using assms by (simp add: fits_in_context_def)
qed

text \<open>Every answer has more than half the tokens of a batch.\<close>

definition bulky :: "summary_env \<Rightarrow> bool" where
  "bulky v \<longleftrightarrow> (\<forall>sys user. \<exists>raw. sv_llm v sys user = Inr raw
     \<and> pack_batch_max_input_tokens (sv_cfg v) < 2 * count_tokens v raw)"

lemma pack_pass_bulky:
  assumes "bulky v"
  shows "\<exists>ns. pack_pass v pp bs = Inr ns \<and> length ns = length bs \<and> sized v ns
    \<and> list_all (\<lambda>n. pack_batch_max_input_tokens (sv_cfg v) < 2 * snd n) ns"
proof (induction bs)
  case (Cons b bs)
  then obtain ns where ns: "pack_pass v pp bs = Inr ns" "length ns = length bs" "sized v ns"
    "list_all (\<lambda>n. pack_batch_max_input_tokens (sv_cfg v) < 2 * snd n) ns" by auto
  let ?sys = "render_prompt_vars (sv_uc v) None (Some (count_tokens v (join [10, 10] b)))
    (Some (fst (compute_pack_budget (count_tokens v (join [10, 10] b)) (sv_cfg v)))) (Some (pack_ratio (sv_cfg v))) [] [] pp"
  obtain raw where llm: "sv_llm v ?sys (join [10, 10] b) = Inr raw"
    and bulk: "pack_batch_max_input_tokens (sv_cfg v) < 2 * count_tokens v raw"
    using assms unfolding bulky_def by blast
  have "pack_batch v pp b = Inr (raw, count_tokens v raw)" using llm by (simp add: pack_batch_def Let_def)
  then show ?case using ns bulk by (intro exI [of _ "(raw, count_tokens v raw) # ns"]) auto
qed simp

lemma bulky_total:
  "list_all (\<lambda>n. limit < 2 * snd n) nts \<Longrightarrow> int (length nts) * limit \<le> 2 * notes_tokens nts"
  by (induction nts) (auto simp: algebra_simps)

lemma pack_loop_bulky:
  assumes "bulky v" "0 \<le> final_max_ratio (sv_cfg v)"
    and unfit: "\<not> fits_in_context (sv_cfg v) pt (int k * pack_batch_max_input_tokens (sv_cfg v) div 2)" and "2 \<le> k"
  shows "length nts = k \<Longrightarrow> list_all (\<lambda>n. pack_batch_max_input_tokens (sv_cfg v) < 2 * snd n) nts \<Longrightarrow>
    pack_loop v pp pt fuel nts passes = None"
proof (induction fuel arbitrary: nts passes)
  case (Suc fuel)
  let ?limit = "pack_batch_max_input_tokens (sv_cfg v)"
  have "int k * ?limit div 2 \<le> notes_tokens nts" using bulky_total [OF Suc.prems(2)] Suc.prems(1) by simp
  then have nofit: "\<not> fits_in_context (sv_cfg v) pt (notes_tokens nts)" using fits_mono [OF assms(2)] unfit by blast
  have batches: "make_batches ?limit nts = map (\<lambda>n. [fst n]) nts" by (rule make_batches_singletons [OF Suc.prems(2)])
  obtain ns where ns: "pack_pass v pp (make_batches ?limit nts) = Inr ns" "length ns = k"
    "list_all (\<lambda>n. ?limit < 2 * snd n) ns"
    using pack_pass_bulky [OF assms(1), of pp "make_batches ?limit nts"] batches Suc.prems(1) by auto
  have "nts \<noteq> []" using Suc.prems(1) assms(4) by auto
  then have "pack_loop v pp pt (Suc fuel) nts passes = pack_loop v pp pt fuel ns (Suc passes)"
    using nofit ns assms(4) by simp
  then show ?case using Suc.IH [OF ns(2,3)] by simp
qed simp

section \<open>The final document\<close>

text \<open>The files and the columns of the task row the step touches; files are named by their paths.\<close>

datatype doc = RawJson ustr | Doc textfile

record final_state =
  fs_files :: "(ustr \<times> doc) list"
  fs_task :: bool
  fs_summary_path :: "ustr option"
  fs_options :: jdict

datatype final_effect =
    PutRawJson ustr ustr
  | PutDoc ustr ustr
  | SetSummaryPath ustr
  | PersistResult ustr ustr
  | AskFinal

record final_env =
  fv_env :: summary_env
  fv_source :: ustr
  fv_id :: ustr
  fv_root :: ustr
  fv_outputs :: ustr
  fv_is_uuid :: bool
  fv_prompt :: ustr
  fv_name :: ustr

definition persist_prompt_result :: "final_env \<Rightarrow> ustr \<Rightarrow> ustr \<Rightarrow> final_state \<Rightarrow> final_state" where
  "persist_prompt_result fv name path st =
     (if \<not> fs_task st then st
      else (case upsert_result_entry (sv_rp (fv_env fv)) (fs_options st) (fv_source fv) (fv_id fv) name path (lit ''completed'') of
          None \<Rightarrow> st
        | Some entries \<Rightarrow> st\<lparr>fs_options := dict_set (fs_options st) (lit ''prompt_results'') (JList (map JDict entries))\<rparr>))"

fun apply_final :: "final_env \<Rightarrow> final_effect \<Rightarrow> final_state \<Rightarrow> final_state" where
  "apply_final fv (PutRawJson path raw) st = st\<lparr>fs_files := dict_set (fs_files st) path (RawJson raw)\<rparr>"
| "apply_final fv (PutDoc path raw) st = st\<lparr>fs_files := dict_set (fs_files st) path (Doc (Text raw))\<rparr>"
| "apply_final fv (SetSummaryPath path) st = (if fs_task st then st\<lparr>fs_summary_path := Some path\<rparr> else st)"
| "apply_final fv (PersistResult name path) st = persist_prompt_result fv name path st"
| "apply_final fv AskFinal st = st"

definition run_final :: "final_env \<Rightarrow> final_effect list \<Rightarrow> final_state \<Rightarrow> final_state" where
  "run_final fv es st = foldl (\<lambda>st e. apply_final fv e st) st es"

definition is_summary_step :: "final_env \<Rightarrow> bool" where
  "is_summary_step fv \<longleftrightarrow> fv_source fv = lit ''system'' \<and> fv_id fv = lit ''summary''"

definition result_stem :: "final_env \<Rightarrow> ustr" where
  "result_stem fv = (if is_summary_step fv then fv_root fv @ lit ''/summary/final''
     else fv_root fv @ lit ''/summary/results/'' @ fv_source fv @ lit ''__'' @ fv_id fv)"

definition summary_json_path :: "final_env \<Rightarrow> ustr" where
  "summary_json_path fv = result_stem fv @ lit ''.json''"

definition summary_md_path :: "final_env \<Rightarrow> ustr" where
  "summary_md_path fv = result_stem fv @ lit ''.md''"

definition invalid_id :: "final_env \<Rightarrow> bool" where
  "invalid_id fv \<longleftrightarrow> fv_source fv = lit ''user'' \<and> \<not> fv_is_uuid fv"

definition file_present :: "final_state \<Rightarrow> ustr \<Rightarrow> bool" where
  "file_present st path \<longleftrightarrow> dict_get (fs_files st) path \<noteq> None"

text \<open>\<open>_restore_if_present\<close>: the effects and whether the document is there.\<close>

definition restore_if_present :: "final_env \<Rightarrow> final_state \<Rightarrow> ustr + final_effect list \<times> bool" where
  "restore_if_present fv st =
     (if invalid_id fv then Inl (lit ''invalid user prompt id'')
      else if \<not> (file_present st (summary_json_path fv) \<and> file_present st (summary_md_path fv)) then Inr ([], False)
      else if is_summary_step fv
      then (if \<not> fs_task st then Inl (lit ''task not found during final summary restore'')
            else Inr (if fs_summary_path st \<noteq> Some (summary_md_path fv) then [SetSummaryPath (summary_md_path fv)] else [], True))
      else Inr ([PersistResult (fv_name fv) (summary_md_path fv)], True))"

text \<open>The input: the packed notes, or the windows under their numbers.\<close>

definition segment_part :: "(json \<Rightarrow> ustr) \<Rightarrow> jdict \<Rightarrow> ustr" where
  "segment_part rp w = (let head = lit ''[Segment '' @ py_str rp (jget_or w (lit ''window_index'') (JStr (lit ''?''))) @ lit '']'';
       body = extract_window_text rp w in if body = [] then head else head @ 10 # body)"

fun segment_parts :: "(json \<Rightarrow> ustr) \<Rightarrow> json list \<Rightarrow> ustr + ustr list" where
  "segment_parts rp [] = Inr []"
| "segment_parts rp (w # ws) =
     (case w of JDict d \<Rightarrow> (case segment_parts rp ws of Inl e \<Rightarrow> Inl e | Inr ps \<Rightarrow> Inr (segment_part rp d # ps))
      | _ \<Rightarrow> Inl (lit ''AttributeError''))"

definition merged_notes :: "final_env \<Rightarrow> packed_notes option \<Rightarrow> summary_disk \<Rightarrow> ustr + ustr" where
  "merged_notes fv packed d =
     (case packed of Some p \<Rightarrow> Inr (join [10, 10] (pn_notes p))
      | None \<Rightarrow> (case load_window_summaries d of Inl e \<Rightarrow> Inl e
          | Inr ws \<Rightarrow> (case segment_parts (sv_rp (fv_env fv)) ws of Inl e \<Rightarrow> Inl e
              | Inr ps \<Rightarrow> Inr (join [10, 10] ps))))"

definition ask_final :: "final_env \<Rightarrow> ustr \<Rightarrow> ustr + ustr" where
  "ask_final fv merged =
     (let v = fv_env fv; input_tokens = count_tokens v merged;
          target_tokens = fst (compute_final_budget input_tokens (sv_cfg v));
          global_prompt = render_prompt_vars (sv_uc v) None (Some input_tokens) (Some target_tokens)
            (Some (final_ratio (sv_cfg v))) (sv_named v) (sv_anonymous v) (fv_prompt fv)
      in sv_llm v global_prompt merged)"

definition store_document :: "final_env \<Rightarrow> ustr \<Rightarrow> final_effect list" where
  "store_document fv raw = [PutRawJson (summary_json_path fv) raw, PutDoc (summary_md_path fv) raw]
     @ (if is_summary_step fv then [PutRawJson (fv_outputs fv @ lit ''/summary.json'') raw,
          PutDoc (fv_outputs fv @ lit ''/summary.md'') raw] else [])"

definition finalize_prompt ::
  "final_env \<Rightarrow> packed_notes option \<Rightarrow> summary_disk \<Rightarrow> final_state \<Rightarrow> final_effect list \<times> outcome" where
  "finalize_prompt fv packed d st =
     (case restore_if_present fv st of Inl e \<Rightarrow> ([], Raised e)
      | Inr (es, True) \<Rightarrow> (es, Completed)
      | Inr (es, False) \<Rightarrow>
          (case merged_notes fv packed d of Inl e \<Rightarrow> ([], Raised e)
           | Inr merged \<Rightarrow>
               (case ask_final fv merged of Inl e \<Rightarrow> ([AskFinal], Raised e)
                | Inr raw \<Rightarrow>
                    (if is_summary_step fv \<and> \<not> fs_task st
                     then (AskFinal # store_document fv raw, Raised (lit ''task not found during final summary''))
                     else (AskFinal # store_document fv raw
                       @ (if is_summary_step fv then [SetSummaryPath (summary_md_path fv)] else [])
                       @ [PersistResult (fv_name fv) (summary_md_path fv)], Completed)))))"

lemma result_paths_differ: "summary_json_path fv \<noteq> summary_md_path fv"
  by (simp add: summary_json_path_def summary_md_path_def)

section \<open>Properties\<close>

text \<open>Batches of notes: each pass hands every note to the model exactly once and in order, in batches
  that are never empty and stay within the limit unless a single note is larger than it.\<close>

theorem batches_partition_notes:
  assumes "sized v nts" "0 \<le> limit"
  shows "concat (make_batches limit nts) = map fst nts
    \<and> list_all (\<lambda>b. b \<noteq> [] \<and> (text_tokens v b \<le> limit \<or> length b = 1)) (make_batches limit nts)"
proof -
  have "b \<noteq> [] \<and> (text_tokens v b \<le> limit \<or> length b = 1)" if "b \<in> set (make_batches limit nts)" for b
    using make_batches_spec(2,3) [OF assms] that by (cases b) (auto simp: list_all_iff)
  then show ?thesis using make_batches_spec(1) [OF assms] by (simp add: list_all_iff)
qed

text \<open>(C27) Packing comes to an end when the model packs. If every answer to a batch has fewer tokens than its
  notes, the step returns: within as many passes as there are tokens it either fits the context or is
  down to one note, and the notes have not grown.\<close>

theorem packing_terminates:
  assumes shr: "shrinks v" and limit: "0 \<le> pack_batch_max_input_tokens (sv_cfg v)"
    and ws: "load_window_summaries d = Inr ws" "window_texts (sv_rp v) ws = Inr texts"
    and fuel: "text_tokens v texts < int fuel"
  shows "case pack_window_notes v sys tmpl (Suc fuel) d of Some (Inr p) \<Rightarrow>
      (fits_in_context (sv_cfg v) (count_tokens v (render_prompt_vars (sv_uc v) None None None None [] []
         (render_prompt_with_language (sv_uc v) (sv_language v) sys))) (pn_total_notes_tokens p) \<or> length (pn_notes p) \<le> 1)
      \<and> pn_total_notes_tokens p = text_tokens v (pn_notes p) \<and> pn_total_notes_tokens p \<le> text_tokens v texts
      \<and> pn_packing_pass_count p \<le> fuel
    | _ \<Rightarrow> False"
proof -
  let ?nts = "map (\<lambda>t. (t, count_tokens v t)) texts"
  let ?pt = "count_tokens v (render_prompt_vars (sv_uc v) None None None None [] []
         (render_prompt_with_language (sv_uc v) (sv_language v) sys))"
  let ?pp = "render_prompt_with_language (sv_uc v) (sv_language v) tmpl"
  have sz: "sized v ?nts" by (simp add: sized_def list_all_iff)
  have tot: "notes_tokens ?nts = text_tokens v texts" using sized_tokens [OF sz] by (simp add: comp_def)
  have "notes_tokens ?nts < int fuel" using fuel tot by simp
  from pack_loop_terminates [OF shr limit sz this, of ?pp ?pt 0]
  obtain ns k where r: "pack_loop v ?pp ?pt (Suc fuel) ?nts 0 = Some (Inr (ns, k))" "sized v ns"
    "fits_in_context (sv_cfg v) ?pt (notes_tokens ns) \<or> length ns \<le> 1" "notes_tokens ns \<le> notes_tokens ?nts" "k \<le> fuel"
    by auto
  show ?thesis
  proof (cases "fits_in_context (sv_cfg v) ?pt (notes_tokens ?nts)")
    case True
    then show ?thesis using tot by (simp add: pack_window_notes_def ws Let_def)
  next
    case False
    then show ?thesis using r tot sized_tokens [OF r(2)]
      by (simp add: pack_window_notes_def ws Let_def del: pack_loop.simps)
  qed
qed

text \<open>(C28) Packing never comes to an end when the model does not pack. If every answer has more than half the
  tokens of a batch, there are at least two windows like that, and as many halves do not fit the
  context, the step runs forever: no fuel is enough. The guard of the loop only stops at one note.\<close>

theorem packing_never_returns:
  assumes "bulky v" "0 \<le> final_max_ratio (sv_cfg v)"
    and ws: "load_window_summaries d = Inr ws" "window_texts (sv_rp v) ws = Inr texts" "2 \<le> length texts"
    and bulk: "list_all (\<lambda>t. pack_batch_max_input_tokens (sv_cfg v) < 2 * count_tokens v t) texts"
    and unfit: "\<not> fits_in_context (sv_cfg v) (count_tokens v (render_prompt_vars (sv_uc v) None None None None [] []
         (render_prompt_with_language (sv_uc v) (sv_language v) sys)))
         (int (length texts) * pack_batch_max_input_tokens (sv_cfg v) div 2)"
  shows "pack_window_notes v sys tmpl fuel d = None"
proof -
  let ?nts = "map (\<lambda>t. (t, count_tokens v t)) texts"
  have nb: "list_all (\<lambda>n. pack_batch_max_input_tokens (sv_cfg v) < 2 * snd n) ?nts"
    using bulk by (simp add: list_all_iff)
  have "int (length texts) * pack_batch_max_input_tokens (sv_cfg v) div 2 \<le> notes_tokens ?nts"
    using bulky_total [OF nb] by simp
  then have trig: "\<not> fits_in_context (sv_cfg v) (count_tokens v (render_prompt_vars (sv_uc v) None None None None [] []
         (render_prompt_with_language (sv_uc v) (sv_language v) sys))) (notes_tokens ?nts)"
    using fits_mono [OF assms(2)] unfit by blast
  show ?thesis
    using pack_loop_bulky [OF assms(1,2) unfit ws(3) _ nb, of _ fuel 0] trig
    by (simp add: pack_window_notes_def ws Let_def)
qed

text \<open>A final document that a crash left half-written is taken for the whole one. When the process dies
  inside the write of the Markdown file, the next run finds both files, does not ask the model, and
  completes with the truncated text as the document of the task.\<close>

theorem half_written_document_kept:
  assumes summ: "is_summary_step fv" and task: "fs_task st"
    and new: "\<not> file_present st (summary_md_path fv)"
    and ans: "merged_notes fv packed d = Inr merged" "ask_final fv merged = Inr raw"
    and torn: "st' = (run_final fv (take 2 (fst (finalize_prompt fv packed d st))) st)
       \<lparr>fs_files := dict_set (fs_files (run_final fv (take 2 (fst (finalize_prompt fv packed d st))) st))
          (summary_md_path fv) (Doc (Text t))\<rparr>"
  shows "fst (finalize_prompt fv packed d st) ! 2 = PutDoc (summary_md_path fv) raw
    \<and> (case finalize_prompt fv packed' d' st' of (es, out) \<Rightarrow> out = Completed \<and> AskFinal \<notin> set es
        \<and> fs_summary_path (run_final fv es st') = Some (summary_md_path fv)
        \<and> dict_get (fs_files (run_final fv es st')) (summary_md_path fv) = Some (Doc (Text t)))"
proof -
  have valid: "\<not> invalid_id fv" using summ by (auto simp: is_summary_step_def invalid_id_def lit_def)
  have run: "fst (finalize_prompt fv packed d st) = AskFinal # store_document fv raw
      @ [SetSummaryPath (summary_md_path fv), PersistResult (fv_name fv) (summary_md_path fv)]"
    using summ task new ans valid by (simp add: finalize_prompt_def restore_if_present_def)
  have st': "st' = st\<lparr>fs_files := dict_set (dict_set (fs_files st) (summary_json_path fv) (RawJson raw))
      (summary_md_path fv) (Doc (Text t))\<rparr>"
    using torn unfolding run by (simp add: store_document_def run_final_def)
  have both: "file_present st' (summary_json_path fv)" "file_present st' (summary_md_path fv)"
    by (simp_all add: st' file_present_def)
  have "finalize_prompt fv packed' d' st' =
      (if fs_summary_path st' \<noteq> Some (summary_md_path fv) then [SetSummaryPath (summary_md_path fv)] else [], Completed)"
    using summ task valid both by (simp add: finalize_prompt_def restore_if_present_def st')
  then show ?thesis using task unfolding run
    by (simp add: store_document_def run_final_def st')
qed

theorem batches_partition_notes_witness:
  "make_batches 10 [(lit ''aaaa'', 4), (lit ''bbbb'', 4), (lit ''cccc'', 4)] = [[lit ''aaaa'', lit ''bbbb''], [lit ''cccc'']]
   \<and> concat (make_batches 10 [(lit ''aaaa'', 4), (lit ''bbbb'', 4), (lit ''cccc'', 4)]) = [lit ''aaaa'', lit ''bbbb'', lit ''cccc'']"
proof
  have "sized (steady_summary []) [(lit ''aaaa'', 4), (lit ''bbbb'', 4), (lit ''cccc'', 4)]"
    by (simp add: count_tokens_def steady_summary_def char_tokens_def lit_def)
  from batches_partition_notes [OF this, of 10]
  show "concat (make_batches 10 [(lit ''aaaa'', 4), (lit ''bbbb'', 4), (lit ''cccc'', 4)]) = [lit ''aaaa'', lit ''bbbb'', lit ''cccc'']"
    by simp
qed (simp add: make_batches_def)

text \<open>Three windows of six tokens, and a context of twenty.\<close>

definition three_windows :: summary_disk where
  "three_windows = blank_disk two_chunks\<lparr>sd_windows := Some (Some (JDict [(lit ''windows'',
     JList (replicate 3 (JDict [(lit ''summary'', JStr (lit ''window''))])))]))\<rparr>"

definition tight_summary :: "ustr \<Rightarrow> summary_env" where
  "tight_summary w = steady_summary w\<lparr>sv_cfg := default_budget\<lparr>n_ctx := 20, safety_margin := 0,
     pack_batch_max_input_tokens := 10\<rparr>\<rparr>"

lemma three_windows_texts:
  "load_window_summaries three_windows = Inr (replicate 3 (JDict [(lit ''summary'', JStr (lit ''window''))]))"
  "window_texts rp (replicate 3 (JDict [(lit ''summary'', JStr (lit ''window''))])) = Inr (replicate 3 (lit ''window''))"
  by (simp_all add: three_windows_def load_window_summaries_def jget_or_def dict_get_def numeral_3_eq_3
      extract_window_text_def strip_def lstrip_def rstrip_def py_space_def lit_def)

lemma tight_summary_tokens: "count_tokens (tight_summary w) s = int (length s)"
  by (simp add: count_tokens_def tight_summary_def steady_summary_def char_tokens_def)

lemma tight_summary_cfg: "sv_cfg (tight_summary w) = default_budget\<lparr>n_ctx := 20, safety_margin := 0,
     pack_batch_max_input_tokens := 10\<rparr>"
  by (simp add: tight_summary_def)

theorem packing_terminates_witness:
  "case pack_window_notes (tight_summary []) [] [] 20 three_windows of
     Some (Inr p) \<Rightarrow> pn_total_notes_tokens p \<le> 18 \<and> pn_packing_pass_count p \<le> 19 | _ \<Rightarrow> False"
proof -
  have shr: "shrinks (tight_summary [])"
    by (simp add: shrinks_def tight_summary_tokens) (simp add: tight_summary_def steady_summary_def)
  have limit: "0 \<le> pack_batch_max_input_tokens (sv_cfg (tight_summary []))" by (simp add: tight_summary_cfg)
  have tokens: "text_tokens (tight_summary []) (replicate 3 (lit ''window'')) = 18"
    by (simp add: numeral_3_eq_3 tight_summary_tokens lit_def)
  have fuel: "text_tokens (tight_summary []) (replicate 3 (lit ''window'')) < int 19" by (simp add: tokens)
  from packing_terminates [OF shr limit three_windows_texts fuel, of "[]" "[]"] tokens
  show ?thesis by (auto split: option.splits sum.splits)
qed

theorem packing_never_returns_witness:
  "\<forall>fuel. pack_window_notes (tight_summary (lit ''nothing'')) [] [] fuel three_windows = None"
proof
  fix fuel
  let ?v = "tight_summary (lit ''nothing'')"
  have bulky: "bulky ?v" by (simp add: bulky_def tight_summary_tokens tight_summary_cfg)
      (simp add: tight_summary_def steady_summary_def lit_def)
  have ratio: "0 \<le> final_max_ratio (sv_cfg ?v)" by (simp add: tight_summary_cfg default_budget_def)
  have two: "2 \<le> length (replicate 3 (lit ''window''))" by simp
  have bulk: "list_all (\<lambda>t. pack_batch_max_input_tokens (sv_cfg ?v) < 2 * count_tokens ?v t) (replicate 3 (lit ''window''))"
    by (simp add: tight_summary_tokens tight_summary_cfg list_all_iff) (simp add: lit_def)
  have unfit: "\<not> fits_in_context (sv_cfg ?v) (count_tokens ?v s)
      (int (length (replicate 3 (lit ''window''))) * pack_batch_max_input_tokens (sv_cfg ?v) div 2)" for s
    by (simp add: fits_in_context_def tight_summary_tokens tight_summary_cfg default_budget_def)
  show "pack_window_notes ?v [] [] fuel three_windows = None"
    by (rule packing_never_returns [OF bulky ratio three_windows_texts two bulk unfit])
qed

definition summary_step :: final_env where
  "summary_step = \<lparr>fv_env = steady_summary (lit ''whole text''), fv_source = lit ''system'', fv_id = lit ''summary'',
     fv_root = lit ''/t'', fv_outputs = lit ''/t/outputs'', fv_is_uuid = False, fv_prompt = lit ''Sum up.'', fv_name = lit ''Summary''\<rparr>"

theorem half_written_document_kept_witness:
  "let st = \<lparr>fs_files = [], fs_task = True, fs_summary_path = None, fs_options = []\<rparr>;
       run = fst (finalize_prompt summary_step None three_windows st);
       crashed = run_final summary_step (take 2 run) st;
       torn = crashed\<lparr>fs_files := dict_set (fs_files crashed) (summary_md_path summary_step) (Doc (Text (lit ''who'')))\<rparr>;
       r = finalize_prompt summary_step None three_windows torn
   in snd r = Completed \<and> AskFinal \<notin> set (fst r)
      \<and> dict_get (fs_files (run_final summary_step (fst r) torn)) (summary_md_path summary_step) = Some (Doc (Text (lit ''who'')))"
proof -
  let ?st = "\<lparr>fs_files = [], fs_task = True, fs_summary_path = None, fs_options = []\<rparr>"
  have s: "is_summary_step summary_step" by (simp add: is_summary_step_def summary_step_def)
  have new: "\<not> file_present ?st (summary_md_path summary_step)" by (simp add: file_present_def dict_get_def)
  obtain ps where ps: "segment_parts (sv_rp (fv_env summary_step)) (replicate 3 (JDict [(lit ''summary'', JStr (lit ''window''))])) = Inr ps"
    by (simp add: numeral_3_eq_3)
  then have m: "merged_notes summary_step None three_windows = Inr (join [10, 10] ps)"
    using three_windows_texts(1) by (simp add: merged_notes_def)
  have a: "ask_final summary_step x = Inr (lit ''whole text'')" for x
    by (simp add: ask_final_def summary_step_def steady_summary_def Let_def)
  have "fs_task ?st" by simp
  from half_written_document_kept [OF s this new m a refl, of "lit ''who''" None three_windows]
  show ?thesis by (simp add: Let_def case_prod_beta)
qed

end
