(* ===== verification/Transcription.thy ===== *)
theory Transcription
  imports Task_Store Diar_Merge "HOL-Library.Sublist"
begin

text \<open>
  Recognition and the merge of its segments (\<open>pipeline/steps/transcription.py\<close>): the language, the
  heuristics that tell a hallucinated segment, the loop that transcribes the missing segments with
  its retry, and the step that writes the transcript.

  The recogniser is an argument. A run is the list of its effects; a database commit and \<open>write_json\<close>
  are one effect each, \<open>write_text\<close> truncates first and then writes.
\<close>

section \<open>Language\<close>

text \<open>\<open>None\<close> where the code has a falsy language.\<close>

definition normalize_language :: "unicode \<Rightarrow> (json \<Rightarrow> ustr) \<Rightarrow> json \<Rightarrow> ustr option" where
  "normalize_language uc rp value =
     (if value = JNull then None
      else (let normalized = uc_lower uc (strip (py_str rp value)) in if normalized = [] then None else Some normalized))"

text \<open>The marker file: missing, not parsing, or its value.\<close>

definition effective_language ::
  "unicode \<Rightarrow> (json \<Rightarrow> ustr) \<Rightarrow> jdict \<Rightarrow> json option option \<Rightarrow> ustr option" where
  "effective_language uc rp options marker =
     (case normalize_language uc rp (jget options (lit ''language'')) of Some l \<Rightarrow> Some l
      | None \<Rightarrow> (case normalize_language uc rp (jget options (lit ''detected_language'')) of Some l \<Rightarrow> Some l
          | None \<Rightarrow> (case marker of Some (Some (JDict payload)) \<Rightarrow> normalize_language uc rp (jget payload (lit ''language''))
              | _ \<Rightarrow> None)))"

section \<open>Hallucinations\<close>

text \<open>\<open>re.sub(r"\s+", " ", text).strip().lower()\<close>, and the tokens of \<open>re.split(r"\s+", ...)\<close> that
  normalise to something.\<close>

definition squeezed :: "unicode \<Rightarrow> ustr \<Rightarrow> ustr" where
  "squeezed uc text = uc_lower uc (flatten_ws text)"

definition normal_tokens :: "unicode \<Rightarrow> ustr \<Rightarrow> ustr list" where
  "normal_tokens uc normalized = filter (\<lambda>t. t \<noteq> []) (map (normalize_token uc) (split_ws normalized))"

text \<open>\<open>re.split(r"[.!?...]+", text)\<close>.\<close>

fun split_ends :: "ustr \<Rightarrow> ustr \<Rightarrow> ustr list" where
  "split_ends cur [] = [rev cur]"
| "split_ends cur (c # cs) = (if sentence_end c then rev cur # split_ends [] (dropWhile sentence_end cs)
     else split_ends (c # cur) cs)"

definition normal_sentences :: "unicode \<Rightarrow> ustr \<Rightarrow> ustr list" where
  "normal_sentences uc normalized = filter (\<lambda>t. t \<noteq> []) (map (normalize_token uc) (split_ends [] normalized))"

text \<open>\<open>Counter(tokens).most_common(1)[0][1]\<close>.\<close>

definition top_count :: "ustr list \<Rightarrow> nat" where
  "top_count tokens = fold max (map (\<lambda>t. length (filter (\<lambda>x. x = t) tokens)) tokens) 0"

definition repeated_edge :: "ustr list \<Rightarrow> bool" where
  "repeated_edge sentences \<longleftrightarrow> 5 \<le> length sentences
     \<and> 5 \<le> max (length (takeWhile (\<lambda>s. s = hd sentences) sentences))
                (length (takeWhile (\<lambda>s. s = last sentences) (rev sentences)))"

definition is_probable_asr_hallucination :: "unicode \<Rightarrow> ustr \<Rightarrow> bool" where
  "is_probable_asr_hallucination uc text =
     (let normalized = squeezed uc text; tokens = normal_tokens uc normalized in
      if normalized = [] \<or> length tokens < 10 then False
      else (let unique_ratio = (of_nat (length (remdups tokens)) / of_nat (length tokens) :: rat);
                top_token_ratio = (of_nat (top_count tokens) / of_nat (length tokens) :: rat);
                signals = length (filter (\<lambda>b. b) [unique_ratio < 30 / 100, 35 / 100 < top_token_ratio,
                  repeated_edge (normal_sentences uc normalized)])
            in 2 \<le> signals))"

definition transcript_quality_score :: "unicode \<Rightarrow> ustr \<Rightarrow> rat" where
  "transcript_quality_score uc text =
     (let tokens = normal_tokens uc (squeezed uc text) in
      if tokens = [] then 0
      else of_nat (length tokens) * (of_nat (length (remdups tokens)) / of_nat (length tokens)))"

definition trim_repetitive_edges :: "unicode \<Rightarrow> ustr \<Rightarrow> ustr \<times> trim_meta" where
  "trim_repetitive_edges uc text =
     (if strip text = [] then ([], empty_meta)
      else (let raw_sentences = filter (\<lambda>s. s \<noteq> []) (map strip (sentence_split text)) in
        if raw_sentences = [] then (strip text, empty_meta)
        else (case trim_repetitive_units uc raw_sentences of (sentences, meta) \<Rightarrow>
          (let cleaned = strip (unwords sentences) in (if cleaned = [] then strip text else cleaned, meta)))))"

definition tail_prompt :: "ustr \<Rightarrow> ustr option" where
  "tail_prompt text = (let normalized = strip text in
     if normalized = [] then None else Some (drop (length normalized - 800) normalized))"

text \<open>\<open>normalize_output\<close> of the client.\<close>

definition normalize_output :: "(json \<Rightarrow> ustr) \<Rightarrow> jdict \<Rightarrow> ustr" where
  "normalize_output rp payload = strip (py_str rp (jget_or payload (lit ''text'') (JStr [])))"

section \<open>State\<close>

record asr_spec =
  sp_index :: nat
  sp_file :: ustr
  sp_start :: rat
  sp_end :: rat

record transcript_file =
  tf_text :: ustr
  tf_raw_text :: ustr
  tf_entries :: "transcript_entry list"
  tf_all_entries :: "transcript_entry list"
  tf_cleanup :: trim_meta

record transcript_state =
  tr_db :: task_db
  tr_txt :: "ustr option"
  tr_json :: "transcript_file option"
  tr_raw :: "(nat \<times> rat \<times> rat \<times> segment_view) list option"
  tr_wavs :: bool
  tr_indexed :: bool

record asr_env =
  ae_task :: uuid
  ae_now :: instant
  ae_path :: ustr
  ae_uc :: unicode
  ae_fs :: "ustr \<Rightarrow> rat option"
  ae_rp :: "json \<Rightarrow> ustr"
  ae_asr :: "ustr \<Rightarrow> ustr \<Rightarrow> ustr option \<Rightarrow> ustr + jdict"

datatype asr_effect =
    AskAsr nat "ustr option"
  | AppendTxt ustr
  | CommitSegment nat rat rat ustr json bool
  | WriteRaw
  | WriteTranscript transcript_file
  | TruncateTxt
  | WriteTxt ustr
  | CommitPath
  | UnlinkWavs
  | Reindex
  | Announce ustr

text \<open>A commit that changes a column of the task refreshes \<open>updated_at\<close>.\<close>

definition set_transcript_path :: "asr_env \<Rightarrow> task_db \<Rightarrow> task_db" where
  "set_transcript_path v db = update_task (ae_task v)
     (\<lambda>r. if t_transcript r = Some (ae_path v) then r else r\<lparr>t_transcript := Some (ae_path v), t_updated := ae_now v\<rparr>) db"

definition fill_transcript_path :: "asr_env \<Rightarrow> task_db \<Rightarrow> task_db" where
  "fill_transcript_path v db = update_task (ae_task v)
     (\<lambda>r. if t_transcript r \<in> {None, Some []} then r\<lparr>t_transcript := Some (ae_path v), t_updated := ae_now v\<rparr> else r) db"

definition payload_present :: "asr_row \<Rightarrow> bool" where
  "payload_present r = (case segment_raw_payload (ar_raw r) (ar_payload r) of Recomposed _ \<Rightarrow> True | Legacy d \<Rightarrow> d \<noteq> [])"

definition raw_listing :: "uuid \<Rightarrow> task_db \<Rightarrow> (nat \<times> rat \<times> rat \<times> segment_view) list" where
  "raw_listing i db = map (\<lambda>r. (ar_index r, ar_start r, ar_end r, segment_raw_payload (ar_raw r) (ar_payload r)))
     (filter payload_present (get_task_segments i db))"

fun apply_asr :: "asr_env \<Rightarrow> asr_effect \<Rightarrow> transcript_state \<Rightarrow> transcript_state" where
  "apply_asr v (AppendTxt s) t = t\<lparr>tr_txt := Some ((case tr_txt t of None \<Rightarrow> [] | Some x \<Rightarrow> x) @ s)\<rparr>"
| "apply_asr v (CommitSegment n a b text raw path) t =
     (case upsert_asr_segment_payload (ae_fs v) (ae_task v) n a b text raw (tr_db t) of None \<Rightarrow> t
      | Some db \<Rightarrow> t\<lparr>tr_db := (if path then set_transcript_path v db else db)\<rparr>)"
| "apply_asr v WriteRaw t = t\<lparr>tr_raw := Some (raw_listing (ae_task v) (tr_db t))\<rparr>"
| "apply_asr v (WriteTranscript f) t = t\<lparr>tr_json := Some f\<rparr>"
| "apply_asr v TruncateTxt t = t\<lparr>tr_txt := Some []\<rparr>"
| "apply_asr v (WriteTxt s) t = t\<lparr>tr_txt := Some s\<rparr>"
| "apply_asr v CommitPath t = t\<lparr>tr_db := fill_transcript_path v (tr_db t)\<rparr>"
| "apply_asr v UnlinkWavs t = t\<lparr>tr_wavs := False\<rparr>"
| "apply_asr v Reindex t = t\<lparr>tr_indexed := True\<rparr>"
| "apply_asr v (AskAsr n p) t = t"
| "apply_asr v (Announce e) t = t"

datatype asr_outcome = Returned bool | Raises ustr

section \<open>Transcribing the missing segments\<close>

text \<open>The row the code finds for an index: the last one of the listing.\<close>

definition existing_row :: "asr_env \<Rightarrow> task_db \<Rightarrow> nat \<Rightarrow> asr_row option" where
  "existing_row v db n = find (\<lambda>r. ar_index r = n) (rev (get_task_segments (ae_task v) db))"

definition missing_specs :: "asr_env \<Rightarrow> task_db \<Rightarrow> asr_spec list \<Rightarrow> asr_spec list" where
  "missing_specs v db specs = filter (\<lambda>s. case existing_row v db (sp_index s) of None \<Rightarrow> True
     | Some r \<Rightarrow> \<not> payload_present r) specs"

text \<open>\<open>text_by_index\<close> and \<open>suspicious_by_index\<close>.\<close>

record asr_memory =
  am_text :: "(nat \<times> ustr) list"
  am_suspicious :: "(nat \<times> bool) list"

definition stored_memory :: "asr_env \<Rightarrow> task_db \<Rightarrow> asr_memory" where
  "stored_memory v db =
     (let rows = filter (\<lambda>r. strip (ar_text r) \<noteq> []) (get_task_segments (ae_task v) db) in
      \<lparr>am_text = foldl (\<lambda>d r. dict_set d (ar_index r) (ar_text r)) [] rows,
       am_suspicious = foldl (\<lambda>d r. dict_set d (ar_index r) (is_probable_asr_hallucination (ae_uc v) (ar_text r))) [] rows\<rparr>)"

definition prompt_for :: "asr_memory \<Rightarrow> nat \<Rightarrow> ustr option" where
  "prompt_for m n =
     (if n = 0 then None
      else if dict_get (am_suspicious m) (n - 1) = Some True then None
      else tail_prompt (case dict_get (am_text m) (n - 1) of None \<Rightarrow> [] | Some x \<Rightarrow> x))"

record asr_result =
  ar_spec :: asr_spec
  ar_prompts :: "ustr option list"
  ar_kept :: ustr
  ar_kept_raw :: jdict
  ar_flag :: bool

text \<open>One segment: recognised with the prompt, and once more without it when the text looks
  hallucinated. The retry wins when it is clean or scores higher.\<close>

definition transcribe_one :: "asr_env \<Rightarrow> ustr \<Rightarrow> ustr option \<Rightarrow> asr_spec \<Rightarrow> ustr + asr_result" where
  "transcribe_one v language initial_prompt s =
     (case ae_asr v (sp_file s) language initial_prompt of Inl e \<Rightarrow> Inl e
      | Inr raw \<Rightarrow>
          (let text = normalize_output (ae_rp v) raw; suspicious = is_probable_asr_hallucination (ae_uc v) text in
           if \<not> suspicious then Inr \<lparr>ar_spec = s, ar_prompts = [initial_prompt], ar_kept = text, ar_kept_raw = raw, ar_flag = False\<rparr>
           else (case ae_asr v (sp_file s) language None of Inl e \<Rightarrow> Inl e
             | Inr retry_raw \<Rightarrow>
                 (let retry_text = normalize_output (ae_rp v) retry_raw;
                      retry_suspicious = is_probable_asr_hallucination (ae_uc v) retry_text;
                      old_score = transcript_quality_score (ae_uc v) text;
                      new_score = transcript_quality_score (ae_uc v) retry_text
                  in if \<not> retry_suspicious \<or> new_score > old_score
                     then Inr \<lparr>ar_spec = s, ar_prompts = [initial_prompt, None], ar_kept = retry_text,
                            ar_kept_raw = retry_raw, ar_flag = retry_suspicious\<rparr>
                     else Inr \<lparr>ar_spec = s, ar_prompts = [initial_prompt, None], ar_kept = text,
                            ar_kept_raw = raw, ar_flag = True\<rparr>))))"

definition remember :: "asr_result \<Rightarrow> asr_memory \<Rightarrow> asr_memory" where
  "remember r m = \<lparr>am_text = dict_set (am_text m) (sp_index (ar_spec r)) (ar_kept r),
     am_suspicious = dict_set (am_suspicious m) (sp_index (ar_spec r)) (ar_flag r)\<rparr>"

text \<open>What one segment writes: the text is appended to the file, then the row is committed, with the
  path of the file the first time.\<close>

definition segment_effects :: "bool \<Rightarrow> asr_result \<Rightarrow> asr_effect list" where
  "segment_effects set_path r = map (AskAsr (sp_index (ar_spec r))) (ar_prompts r)
     @ [AppendTxt (strip (ar_kept r) @ [32]),
        CommitSegment (sp_index (ar_spec r)) (sp_start (ar_spec r)) (sp_end (ar_spec r)) (ar_kept r)
          (JDict (ar_kept_raw r)) set_path]"

definition storable :: "asr_env \<Rightarrow> asr_result \<Rightarrow> bool" where
  "storable v r \<longleftrightarrow> decompose_raw_json (ae_fs v) (JDict (ar_kept_raw r)) \<noteq> None"

fun transcribe_loop ::
  "asr_env \<Rightarrow> ustr \<Rightarrow> bool \<Rightarrow> asr_memory \<Rightarrow> asr_spec list \<Rightarrow> asr_effect list \<times> ustr option" where
  "transcribe_loop v language set_path m [] = ([], None)"
| "transcribe_loop v language set_path m (s # ss) =
     (case transcribe_one v language (prompt_for m (sp_index s)) s of Inl e \<Rightarrow> ([], Some e)
      | Inr r \<Rightarrow> if \<not> storable v r then (butlast (segment_effects set_path r), Some (lit ''TypeError''))
          else (let rest = transcribe_loop v language False (remember r m) ss
                in (segment_effects set_path r @ fst rest, snd rest)))"

definition transcribe_segments ::
  "asr_env \<Rightarrow> ustr option \<Rightarrow> asr_spec list option \<Rightarrow> transcript_state \<Rightarrow> asr_effect list \<times> asr_outcome" where
  "transcribe_segments v language manifest t =
     (case manifest of None \<Rightarrow> ([], Raises (lit ''Missing segment manifest''))
      | Some specs \<Rightarrow>
          (if specs = [] then ([], Returned False)
           else (let missing = sort_key sp_index (missing_specs v (tr_db t) specs) in
             if missing = [] then ([], Returned True)
             else (case language of None \<Rightarrow> ([], Raises (lit ''Missing transcription language after detection''))
               | Some l \<Rightarrow>
                   (let r = transcribe_loop v l (tr_txt t = None) (stored_memory v (tr_db t)) missing
                    in case snd r of Some e \<Rightarrow> (fst r, Raises e)
                       | None \<Rightarrow> (fst r @ [WriteRaw], Returned True))))))"

section \<open>Detecting the language\<close>

text \<open>\<open>float(x) if isinstance(x, (int, float)) else None\<close>; a truth value is an integer.\<close>

definition confidence_of :: "json \<Rightarrow> rat option" where
  "confidence_of v = (case v of JInt i \<Rightarrow> Some (of_int i) | JNum q \<Rightarrow> Some q | JBool b \<Rightarrow> Some (if b then 1 else 0) | _ \<Rightarrow> None)"

text \<open>The options after the step, and the language and confidence it writes to the marker and the task,
  if it writes them. \<open>answer\<close> is what the recogniser returns for the first segment.\<close>

definition detect_language ::
  "unicode \<Rightarrow> (json \<Rightarrow> ustr) \<Rightarrow> jdict \<Rightarrow> 'a list option \<Rightarrow> bool \<Rightarrow> jdict \<Rightarrow> rat
     \<Rightarrow> ustr + (jdict \<times> (ustr \<times> rat) option)" where
  "detect_language uc rp options manifest first_exists answer threshold =
     (if normalize_language uc rp (jget options (lit ''detected_language'')) \<noteq> None then Inr (options, None)
      else (case normalize_language uc rp (jget options (lit ''language'')) of
        Some explicit \<Rightarrow> Inr (dict_set options (lit ''detected_language'') (JStr explicit), Some (explicit, 1))
      | None \<Rightarrow> (case manifest of
          None \<Rightarrow> Inl (lit ''Missing segment manifest for language detection'')
        | Some [] \<Rightarrow> Inl (lit ''Missing segment files for language detection'')
        | Some (spec # specs) \<Rightarrow>
            if \<not> first_exists then Inl (lit ''Missing first segment for language detection'')
            else (case normalize_language uc rp (jget answer (lit ''language'')) of
                None \<Rightarrow> Inl (lit ''Auto language detection failed: language not recognized'')
              | Some language \<Rightarrow> (case confidence_of (jget answer (lit ''language_probability'')) of
                    None \<Rightarrow> Inl (lit ''Auto language detection failed: language_probability missing'')
                  | Some confidence \<Rightarrow>
                      if confidence < threshold then Inl (lit ''Auto language detection confidence too low'')
                      else Inr (dict_set options (lit ''detected_language'') (JStr language), Some (language, confidence)))))))"

text \<open>What the step reports when it is asked whether it is done; an explicit language is recorded.\<close>

definition detection_done :: "unicode \<Rightarrow> (json \<Rightarrow> ustr) \<Rightarrow> jdict \<Rightarrow> bool \<times> jdict" where
  "detection_done uc rp options =
     (if normalize_language uc rp (jget options (lit ''detected_language'')) \<noteq> None then (True, options)
      else (case normalize_language uc rp (jget options (lit ''language'')) of
          Some explicit \<Rightarrow> (True, dict_set options (lit ''detected_language'') (JStr explicit)) | None \<Rightarrow> (False, options)))"

text \<open>Lower-casing keeps a text from being blank.\<close>

definition lower_keeps_text :: "unicode \<Rightarrow> bool" where
  "lower_keeps_text uc \<longleftrightarrow> (\<forall>x. strip x \<noteq> [] \<longrightarrow> strip (uc_lower uc x) \<noteq> [] \<and> uc_lower uc (strip (uc_lower uc x)) \<noteq> [])"

lemma strip_strip: "strip x \<noteq> [] \<Longrightarrow> strip (strip x) \<noteq> []"
  by (simp add: strip_eq_Nil_iff)

lemma normalize_again:
  assumes "lower_keeps_text uc" and "normalize_language uc rp v = Some l" and "uc_lower uc [] = []"
  shows "normalize_language uc rp (JStr l) \<noteq> None"
proof -
  have l: "l = uc_lower uc (strip (py_str rp v))" "l \<noteq> []"
    using assms(2) by (auto simp: normalize_language_def Let_def split: if_splits)
  then have "strip (py_str rp v) \<noteq> []" using assms(3) by auto
  then have "strip (strip (py_str rp v)) \<noteq> []" by (rule strip_strip)
  then have "uc_lower uc (strip l) \<noteq> []" using assms(1) l(1) by (simp add: lower_keeps_text_def)
  then show ?thesis by (simp add: normalize_language_def Let_def)
qed

lemma effective_after_detected:
  "normalize_language uc rp (jget options (lit ''detected_language'')) \<noteq> None \<Longrightarrow> effective_language uc rp options marker \<noteq> None"
  by (auto simp: effective_language_def split: option.split)

lemma detect_language_options:
  "detect_language uc rp options manifest fe answer threshold = Inr (options', w) \<Longrightarrow>
     options' = options \<and> normalize_language uc rp (jget options (lit ''detected_language'')) \<noteq> None
   \<or> (\<exists>v l. normalize_language uc rp v = Some l \<and> options' = dict_set options (lit ''detected_language'') (JStr l))"
  unfolding detect_language_def by (force split: option.splits if_splits list.splits)

lemma detection_done_options:
  "detection_done uc rp options = (True, options') \<Longrightarrow>
     options' = options \<and> normalize_language uc rp (jget options (lit ''detected_language'')) \<noteq> None
   \<or> (\<exists>v l. normalize_language uc rp v = Some l \<and> options' = dict_set options (lit ''detected_language'') (JStr l))"
  unfolding detection_done_def by (force split: option.splits if_splits)

text \<open>After a detection that succeeds, or is reported done, transcription has its language.\<close>

lemma language_known_after_detection:
  assumes "lower_keeps_text uc" and "uc_lower uc [] = []"
    and "detect_language uc rp options manifest fe answer threshold = Inr (options', w)
       \<or> detection_done uc rp options = (True, options')"
  shows "effective_language uc rp options' marker \<noteq> None"
proof -
  have "jget (dict_set options (lit ''detected_language'') (JStr l)) (lit ''detected_language'') = JStr l" for l
    unfolding jget_def dict_get_set by simp
  then have "normalize_language uc rp (jget options' (lit ''detected_language'')) \<noteq> None"
    using assms(3) detect_language_options detection_done_options normalize_again [OF assms(1) _ assms(2)] by metis
  then show ?thesis by (rule effective_after_detected)
qed

section \<open>Writing the transcript\<close>

text \<open>\<open>diarization.json\<close>: missing, not parsing, not decodable, or what it holds (\<open>None\<close> where it is
  no dictionary or its segments are no list).\<close>

datatype diar_file = NoDiarization | NotJson | NotText | Parsed "diar_segment list option"

record merge_env =
  me_diar :: diar_file
  me_names :: "(ustr \<times> ustr) list"
  me_language :: "ustr option"
  me_words :: nat
  me_seconds :: rat
  me_legacy :: "jdict \<Rightarrow> whisper_segments"

text \<open>The left values are exceptions; the inner \<open>None\<close> is a transcript without speakers.\<close>

definition apply_diarization ::
  "unicode \<Rightarrow> merge_env \<Rightarrow> transcript_entry list \<Rightarrow> (nat \<Rightarrow> whisper_segments option) \<Rightarrow> rat
     \<Rightarrow> ustr + (transcript_entry list \<times> (ustr \<times> trim_meta) option)" where
  "apply_diarization uc d entries raw_by_index min_share =
     (case me_diar d of
        NotText \<Rightarrow> Inl (lit ''UnicodeDecodeError'')
      | Parsed (Some (s # ss)) \<Rightarrow>
          (let merged = merge_entries entries raw_by_index (s # ss) (me_words d) (me_seconds d);
               (trimmed, cleanup_meta) = trim_repetitive_entries uc merged;
               cleaned = drop_marginal_speakers trimmed min_share;
               mapping = label_map cleaned (speaker_label_word uc (me_language d)) (me_names d)
           in case render_cleaned_transcript cleaned mapping of None \<Rightarrow> Inl (lit ''KeyError'')
              | Some text \<Rightarrow> Inr (cleaned, Some (text, cleanup_meta)))
      | _ \<Rightarrow> Inr (entries, None))"

definition view_words :: "merge_env \<Rightarrow> segment_view \<Rightarrow> whisper_segments" where
  "view_words d view = (case view of Recomposed p \<Rightarrow> payload_view p | Legacy x \<Rightarrow> me_legacy d x)"

text \<open>The rows with text: one entry each, their payloads by the entry's position.\<close>

definition texted_rows :: "asr_env \<Rightarrow> task_db \<Rightarrow> asr_row list" where
  "texted_rows v db = filter (\<lambda>r. strip (ar_text r) \<noteq> []) (get_task_segments (ae_task v) db)"

definition row_entry :: "asr_row \<Rightarrow> transcript_entry" where
  "row_entry r = \<lparr>te_start = ar_start r, te_end = ar_end r, te_text = strip (ar_text r), te_speaker = None\<rparr>"

definition raw_by_entry :: "merge_env \<Rightarrow> asr_row list \<Rightarrow> nat \<Rightarrow> whisper_segments option" where
  "raw_by_entry d rows k =
     (if k < length rows \<and> payload_present (rows ! k)
      then Some (view_words d (segment_raw_payload (ar_raw (rows ! k)) (ar_payload (rows ! k)))) else None)"

definition merged_transcript :: "asr_env \<Rightarrow> merge_env \<Rightarrow> task_db \<Rightarrow> ustr + transcript_file" where
  "merged_transcript v d db =
     (let rows = texted_rows v db; merged_text = strip (unwords (map (\<lambda>r. strip (ar_text r)) rows));
          (cleaned_text, cleanup_meta) = trim_repetitive_edges (ae_uc v) merged_text
      in case apply_diarization (ae_uc v) d (map row_entry rows) (raw_by_entry d rows) 0 of Inl e \<Rightarrow> Inl e
         | Inr (entries, None) \<Rightarrow> Inr \<lparr>tf_text = cleaned_text, tf_raw_text = merged_text, tf_entries = entries,
             tf_all_entries = entries, tf_cleanup = cleanup_meta\<rparr>
         | Inr (entries, Some (text, meta)) \<Rightarrow> Inr \<lparr>tf_text = text, tf_raw_text = merged_text, tf_entries = entries,
             tf_all_entries = entries, tf_cleanup = meta\<rparr>)"

definition merge_effects :: "transcript_file \<Rightarrow> asr_effect list" where
  "merge_effects f = [WriteTranscript f, TruncateTxt, WriteTxt (tf_text f), CommitPath, UnlinkWavs,
     Announce (lit ''phase''), Reindex, Announce (lit ''transcript_updated'')]"

definition merge_transcript :: "asr_env \<Rightarrow> merge_env \<Rightarrow> transcript_state \<Rightarrow> asr_effect list \<times> asr_outcome" where
  "merge_transcript v d t =
     (if tr_json t \<noteq> None \<and> tr_txt t \<noteq> None then ([], Returned True)
      else (case merged_transcript v d (tr_db t) of Inl e \<Rightarrow> ([], Raises e)
        | Inr f \<Rightarrow> (if find_task (tr_db t) (ae_task v) = None
             then (take 3 (merge_effects f), Raises (lit ''task not found during merge''))
             else (merge_effects f, Returned True))))"

section \<open>The results of a run\<close>

fun loop_results :: "asr_env \<Rightarrow> ustr \<Rightarrow> asr_memory \<Rightarrow> asr_spec list \<Rightarrow> asr_result list option" where
  "loop_results v l m [] = Some []"
| "loop_results v l m (s # ss) =
     (case transcribe_one v l (prompt_for m (sp_index s)) s of Inl e \<Rightarrow> None
      | Inr r \<Rightarrow> if storable v r then map_option (Cons r) (loop_results v l (remember r m) ss) else None)"

fun blocks :: "bool \<Rightarrow> asr_result list \<Rightarrow> asr_effect list" where
  "blocks b [] = []"
| "blocks b (r # rs) = segment_effects b r @ blocks False rs"

lemma loop_of_results:
  "loop_results v l m ss = Some rs \<Longrightarrow> transcribe_loop v l b m ss = (blocks b rs, None)"
proof (induction ss arbitrary: m rs b)
  case Nil
  then show ?case by simp
next
  case (Cons s ss)
  then show ?case by (auto split: sum.splits if_splits)
qed

lemma results_of_loop:
  "snd (transcribe_loop v l b m ss) = None \<Longrightarrow> \<exists>rs. loop_results v l m ss = Some rs"
proof (induction ss arbitrary: m b)
  case Nil
  then show ?case by simp
next
  case (Cons s ss)
  then show ?case by (auto simp: Let_def split: sum.splits if_splits)
qed

lemma transcribe_one_spec: "transcribe_one v l p s = Inr r \<Longrightarrow> ar_spec r = s"
  by (auto simp: transcribe_one_def Let_def split: sum.splits if_splits)

lemma transcribe_one_flag:
  "transcribe_one v l p s = Inr r \<Longrightarrow> ar_flag r = is_probable_asr_hallucination (ae_uc v) (ar_kept r)"
  by (auto simp: transcribe_one_def Let_def split: sum.splits if_splits)

lemma transcribe_one_prompts:
  "transcribe_one v l p s = Inr r \<Longrightarrow> ar_prompts r = [p] \<or> ar_prompts r = [p, None]"
  by (auto simp: transcribe_one_def Let_def split: sum.splits if_splits)

lemma transcribe_one_raw:
  "transcribe_one v l p s = Inr r \<Longrightarrow> \<exists>q. ae_asr v (sp_file s) l q = Inr (ar_kept_raw r)"
  by (auto simp: transcribe_one_def Let_def split: sum.splits if_splits)

definition result_ok :: "asr_env \<Rightarrow> asr_result \<Rightarrow> bool" where
  "result_ok v r \<longleftrightarrow> storable v r \<and> ar_flag r = is_probable_asr_hallucination (ae_uc v) (ar_kept r)
     \<and> (\<exists>f l q. ae_asr v f l q = Inr (ar_kept_raw r))"

lemma loop_results_ok:
  "loop_results v l m ss = Some rs \<Longrightarrow> map ar_spec rs = ss \<and> list_all (result_ok v) rs"
proof (induction ss arbitrary: m rs)
  case Nil
  then show ?case by simp
next
  case (Cons s ss)
  then obtain r rs' where t: "transcribe_one v l (prompt_for m (sp_index s)) s = Inr r"
    and st: "storable v r" and rs': "loop_results v l (remember r m) ss = Some rs'" "rs = r # rs'"
    by (auto split: sum.splits if_splits)
  have "result_ok v r"
    using transcribe_one_flag [OF t] transcribe_one_raw [OF t] st by (auto simp: result_ok_def)
  then show ?case using Cons.IH [OF rs'(1)] transcribe_one_spec [OF t] rs'(2) by simp
qed

section \<open>The prompt a segment gets\<close>

definition primer :: "asr_result \<Rightarrow> ustr option" where
  "primer r = (if ar_flag r then None else tail_prompt (ar_kept r))"

lemma prompt_remember:
  "prompt_for (remember r m) n = (if n = Suc (sp_index (ar_spec r)) then primer r else prompt_for m n)"
  by (cases n) (auto simp: prompt_for_def remember_def primer_def)

lemma loop_results_cong:
  "(\<And>n. prompt_for m n = prompt_for m' n) \<Longrightarrow> loop_results v l m ss = loop_results v l m' ss"
proof (induction ss arbitrary: m m')
  case Nil
  then show ?case by simp
next
  case (Cons s ss)
  have "loop_results v l (remember r m) ss = loop_results v l (remember r m') ss" for r
    by (rule Cons.IH) (simp add: prompt_remember Cons.prems)
  then show ?case by (simp add: Cons.prems split: sum.split)
qed

definition memory_after :: "asr_memory \<Rightarrow> asr_result list \<Rightarrow> asr_memory" where
  "memory_after m rs = foldl (\<lambda>m r. remember r m) m rs"

lemma loop_results_drop:
  "loop_results v l m ss = Some rs \<Longrightarrow> loop_results v l (memory_after m (take j rs)) (drop j ss) = Some (drop j rs)"
proof (induction ss arbitrary: m rs j)
  case Nil
  then show ?case by simp
next
  case (Cons s ss)
  then show ?case by (cases j) (auto simp: memory_after_def split: sum.splits if_splits)
qed

definition memory_of :: "asr_env \<Rightarrow> asr_row list \<Rightarrow> asr_memory" where
  "memory_of v xs = (let rows = filter (\<lambda>r. strip (ar_text r) \<noteq> []) xs in
     \<lparr>am_text = foldl (\<lambda>d r. dict_set d (ar_index r) (ar_text r)) [] rows,
      am_suspicious = foldl (\<lambda>d r. dict_set d (ar_index r) (is_probable_asr_hallucination (ae_uc v) (ar_text r))) [] rows\<rparr>)"

lemma stored_memory_of: "stored_memory v db = memory_of v (get_task_segments (ae_task v) db)"
  by (simp add: stored_memory_def memory_of_def)

lemma memory_of_snoc:
  "memory_of v (xs @ [x]) = (if strip (ar_text x) = [] then memory_of v xs
     else \<lparr>am_text = dict_set (am_text (memory_of v xs)) (ar_index x) (ar_text x),
           am_suspicious = dict_set (am_suspicious (memory_of v xs)) (ar_index x)
             (is_probable_asr_hallucination (ae_uc v) (ar_text x))\<rparr>)"
  by (simp add: memory_of_def Let_def)

lemma memory_of_unknown:
  "n \<notin> ar_index ` set xs \<Longrightarrow> dict_get (am_text (memory_of v xs)) n = None
     \<and> dict_get (am_suspicious (memory_of v xs)) n = None"
proof (induction xs rule: rev_induct)
  case Nil
  then show ?case by (simp add: memory_of_def dict_get_def)
next
  case (snoc x xs)
  then show ?case by (auto simp: memory_of_snoc)
qed

lemma tail_prompt_blank: "strip x = [] \<Longrightarrow> tail_prompt x = None"
  by (simp add: tail_prompt_def)

lemma prompt_of_snoc:
  assumes "ar_index x \<notin> ar_index ` set xs"
  shows "prompt_for (memory_of v (xs @ [x])) n =
    (if n = Suc (ar_index x) then (if strip (ar_text x) \<noteq> [] \<and> is_probable_asr_hallucination (ae_uc v) (ar_text x) then None
         else tail_prompt (ar_text x))
     else prompt_for (memory_of v xs) n)"
proof (cases "strip (ar_text x) = []")
  case True
  then show ?thesis using memory_of_unknown [OF assms, of v]
    by (cases n) (auto simp: memory_of_snoc prompt_for_def tail_prompt_blank tail_prompt_def strip_Nil)
next
  case False
  then show ?thesis by (cases n) (auto simp: memory_of_snoc prompt_for_def)
qed

definition result_row :: "asr_env \<Rightarrow> asr_result \<Rightarrow> asr_row" where
  "result_row v r = \<lparr>ar_task = ae_task v, ar_index = sp_index (ar_spec r), ar_start = sp_start (ar_spec r),
     ar_end = sp_end (ar_spec r), ar_text = ar_kept r, ar_raw = JDict (ar_kept_raw r),
     ar_payload = decompose_raw_json (ae_fs v) (JDict (ar_kept_raw r))\<rparr>"

lemma result_row_simps [simp]:
  "ar_task (result_row v r) = ae_task v" "ar_index (result_row v r) = sp_index (ar_spec r)"
  "ar_text (result_row v r) = ar_kept r"
  by (simp_all add: result_row_def)

abbreviation "no_memory \<equiv> \<lparr>am_text = [], am_suspicious = []\<rparr>"

abbreviation result_index :: "asr_result \<Rightarrow> nat" where
  "result_index r \<equiv> sp_index (ar_spec r)"

text \<open>The memory rebuilt from the rows gives every segment the prompt the interrupted run gave it.\<close>

lemma memory_restored:
  assumes "distinct (map result_index rs)" and "list_all (result_ok v) rs"
  shows "prompt_for (memory_of v (map (result_row v) rs)) n = prompt_for (memory_after no_memory rs) n"
  using assms
proof (induction rs arbitrary: n rule: rev_induct)
  case Nil
  then show ?case by (simp add: memory_of_def memory_after_def)
next
  case (snoc r rs)
  have fresh: "ar_index (result_row v r) \<notin> ar_index ` set (map (result_row v) rs)"
    using snoc.prems(1) by (auto simp: image_image)
  have flag: "ar_flag r = is_probable_asr_hallucination (ae_uc v) (ar_kept r)"
    using snoc.prems(2) by (simp add: result_ok_def)
  have "primer r = (if strip (ar_kept r) \<noteq> [] \<and> is_probable_asr_hallucination (ae_uc v) (ar_kept r) then None
         else tail_prompt (ar_kept r))"
    by (simp add: primer_def flag tail_prompt_blank)
  moreover have "memory_after no_memory (rs @ [r]) = remember r (memory_after no_memory rs)"
    by (simp add: memory_after_def)
  ultimately show ?case
    using prompt_of_snoc [OF fresh, of v n] snoc.IH snoc.prems by (simp add: prompt_remember)
qed

section \<open>What a run leaves in the tables\<close>

definition holds :: "asr_env \<Rightarrow> asr_row list \<Rightarrow> asr_result list \<Rightarrow> transcript_state \<Rightarrow> bool" where
  "holds v base rs t \<longleftrightarrow> db_asr (tr_db t) = base @ map (result_row v) rs"

lemma asr_set_path [simp]: "db_asr (set_transcript_path v db) = db_asr db" "db_asr (fill_transcript_path v db) = db_asr db"
  by (simp_all add: set_transcript_path_def fill_transcript_path_def update_task_def)

lemma asks_do_nothing: "Contracts.run (apply_asr v) (map (AskAsr n) ps) t = t"
  by (induction ps) simp_all

lemma commit_result:
  assumes "holds v base rs t" and "storable v r" and "\<forall>x\<in>set base. ar_task x \<noteq> ae_task v"
    and "result_index r \<notin> result_index ` set rs"
  shows "holds v base (rs @ [r]) (apply_asr v (CommitSegment (result_index r) (sp_start (ar_spec r)) (sp_end (ar_spec r))
           (ar_kept r) (JDict (ar_kept_raw r)) b) t)"
proof -
  obtain ax where ax: "decompose_raw_json (ae_fs v) (JDict (ar_kept_raw r)) = Some ax"
    using assms(2) by (auto simp: storable_def)
  have "\<forall>x\<in>set rs. result_index x \<noteq> result_index r" using assms(4) by (metis image_eqI)
  then have "\<not> has_segment (ae_task v) (result_index r) (tr_db t)"
    using assms(1,3) by (auto simp: has_segment_def holds_def list_ex_iff)
  then show ?thesis using assms(1)
    by (simp add: upsert_asr_segment_payload_def add_asr_segment_def ax holds_def result_row_def)
qed

lemma run_segment_effects:
  assumes "holds v base rs t" and "storable v r" and "\<forall>x\<in>set base. ar_task x \<noteq> ae_task v"
    and "result_index r \<notin> result_index ` set rs"
  shows "holds v base (if k < length (segment_effects b r) then rs else rs @ [r])
     (Contracts.run (apply_asr v) (take k (segment_effects b r)) t)"
proof -
  let ?n = "length (ar_prompts r)"
  have h: "holds v base rs (Contracts.run (apply_asr v) (take i (map (AskAsr (result_index r)) (ar_prompts r))) t)" for i
    using assms(1) by (simp add: take_map asks_do_nothing)
  have a: "holds v base rs (apply_asr v (AppendTxt s) t)" for s using assms(1) by (simp add: holds_def)
  have len: "length (segment_effects b r) = Suc (Suc ?n)" by (simp add: segment_effects_def)
  consider "k \<le> ?n" | "k = Suc ?n" | "Suc (Suc ?n) \<le> k" by linarith
  then show ?thesis
  proof cases
    case 1
    then show ?thesis using h [of k] by (simp add: segment_effects_def)
  next
    case 2
    then show ?thesis using a by (simp add: segment_effects_def asks_do_nothing)
  next
    case 3
    then show ?thesis using commit_result [OF a assms(2-4)]
      by (simp add: len, simp add: segment_effects_def asks_do_nothing)
  qed
qed

lemma run_blocks:
  assumes "holds v base rs t" and "list_all (storable v) qs" and "\<forall>x\<in>set base. ar_task x \<noteq> ae_task v"
    and "distinct (map result_index (rs @ qs))"
  shows "\<exists>j\<le>length qs. (length (blocks b qs) \<le> k \<longrightarrow> j = length qs)
     \<and> holds v base (rs @ take j qs) (Contracts.run (apply_asr v) (take k (blocks b qs)) t)"
  using assms(1,2,4)
proof (induction qs arbitrary: rs t b k)
  case Nil
  then show ?case by (auto intro: exI [of _ 0])
next
  case (Cons r qs)
  let ?n = "length (segment_effects b r)"
  have st: "storable v r" and nw: "result_index r \<notin> result_index ` set rs" using Cons.prems by auto
  note s = run_segment_effects [OF Cons.prems(1) st assms(3) nw]
  show ?case
  proof (cases "k < ?n")
    case True
    have "holds v base rs (Contracts.run (apply_asr v) (take k (blocks b (r # qs))) t)"
      using s [of k b] True by simp
    then show ?thesis using True by (intro exI [of _ 0]) auto
  next
    case False
    have h: "holds v base (rs @ [r]) (Contracts.run (apply_asr v) (segment_effects b r) t)"
      using s [of ?n b] by simp
    have d: "distinct (map result_index ((rs @ [r]) @ qs))" using Cons.prems(3) by simp
    obtain j where "j \<le> length qs" "length (blocks False qs) \<le> k - ?n \<longrightarrow> j = length qs"
      "holds v base ((rs @ [r]) @ take j qs) (Contracts.run (apply_asr v) (take (k - ?n) (blocks False qs))
         (Contracts.run (apply_asr v) (segment_effects b r) t))"
      using Cons.IH [OF h _ d, of False "k - ?n"] Cons.prems(2) by fastforce
    then show ?thesis using False by (intro exI [of _ "Suc j"]) auto
  qed
qed

text \<open>A segment whose row is there is committed once more: the row gets the values it has.\<close>

lemma commit_again:
  assumes "holds v base rs t" and "storable v r" and "\<forall>x\<in>set base. ar_task x \<noteq> ae_task v"
    and "r \<in> set rs" and "distinct (map result_index rs)"
  shows "holds v base rs (apply_asr v (CommitSegment (result_index r) (sp_start (ar_spec r)) (sp_end (ar_spec r))
           (ar_kept r) (JDict (ar_kept_raw r)) b) t)"
proof -
  obtain ax where ax: "decompose_raw_json (ae_fs v) (JDict (ar_kept_raw r)) = Some ax"
    using assms(2) by (auto simp: storable_def)
  let ?f = "\<lambda>x. if ar_task x = ae_task v \<and> ar_index x = result_index r
    then x\<lparr>ar_start := sp_start (ar_spec r), ar_end := sp_end (ar_spec r), ar_text := ar_kept r,
           ar_raw := JDict (ar_kept_raw r), ar_payload := Some ax\<rparr> else x"
  have "has_segment (ae_task v) (result_index r) (tr_db t)"
    using assms(1,4) by (force simp: has_segment_def holds_def list_ex_iff)
  moreover have "map ?f base = base" using assms(3) by (intro map_idI) auto
  moreover have "?f (result_row v q) = result_row v q" if "q \<in> set rs" for q
  proof (cases "result_index q = result_index r")
    case True
    then have "q = r" using assms(4,5) that by (auto simp: distinct_map inj_on_def)
    then show ?thesis by (simp add: result_row_def ax)
  qed simp
  then have "\<forall>x\<in>set (map (result_row v) rs). ?f x = x" unfolding set_map by blast
  then have "map ?f (map (result_row v) rs) = map (result_row v) rs" by (intro map_idI) blast
  ultimately show ?thesis using assms(1)
    by (simp add: upsert_asr_segment_payload_def ax holds_def)
qed

lemma run_effects_again:
  assumes "holds v base rs t" and "storable v r" and "\<forall>x\<in>set base. ar_task x \<noteq> ae_task v"
    and "r \<in> set rs" and "distinct (map result_index rs)"
  shows "holds v base rs (Contracts.run (apply_asr v) (take k (segment_effects b r)) t)"
proof -
  let ?n = "length (ar_prompts r)"
  have h: "holds v base rs (Contracts.run (apply_asr v) (take i (map (AskAsr (result_index r)) (ar_prompts r))) t)" for i
    using assms(1) by (simp add: take_map asks_do_nothing)
  have a: "holds v base rs (apply_asr v (AppendTxt s) t)" for s using assms(1) by (simp add: holds_def)
  consider "k \<le> ?n" | "k = Suc ?n" | "Suc (Suc ?n) \<le> k" by linarith
  then show ?thesis
  proof cases
    case 1
    then show ?thesis using h [of k] by (simp add: segment_effects_def)
  next
    case 2
    then show ?thesis using a by (simp add: segment_effects_def asks_do_nothing)
  next
    case 3
    have len: "length (segment_effects b r) = Suc (Suc ?n)" by (simp add: segment_effects_def)
    show ?thesis using 3 commit_again [OF a assms(2-5)]
      by (simp add: len, simp add: segment_effects_def asks_do_nothing)
  qed
qed

lemma run_blocks_again:
  assumes "holds v base rs t" and "list_all (storable v) (ds @ qs)" and "\<forall>x\<in>set base. ar_task x \<noteq> ae_task v"
    and "distinct (map result_index (rs @ qs))" and "set ds \<subseteq> set rs"
  shows "\<exists>j\<le>length qs. (length (blocks b (ds @ qs)) \<le> k \<longrightarrow> j = length qs)
     \<and> holds v base (rs @ take j qs) (Contracts.run (apply_asr v) (take k (blocks b (ds @ qs))) t)"
  using assms(1,2,5)
proof (induction ds arbitrary: t b k)
  case Nil
  then show ?case using run_blocks [OF _ _ assms(3,4), of t b k] by simp
next
  case (Cons r ds)
  let ?n = "length (segment_effects b r)"
  have st: "storable v r" "r \<in> set rs" "distinct (map result_index rs)" using Cons.prems assms(4) by auto
  note s = run_effects_again [OF Cons.prems(1) st(1) assms(3) st(2,3)]
  show ?case
  proof (cases "k < ?n")
    case True
    then show ?thesis using s [of k b] by (intro exI [of _ 0]) auto
  next
    case False
    have h: "holds v base rs (Contracts.run (apply_asr v) (segment_effects b r) t)"
      using s [of ?n b] by simp
    obtain j where "j \<le> length qs" "length (blocks False (ds @ qs)) \<le> k - ?n \<longrightarrow> j = length qs"
      "holds v base (rs @ take j qs) (Contracts.run (apply_asr v) (take (k - ?n) (blocks False (ds @ qs)))
         (Contracts.run (apply_asr v) (segment_effects b r) t))"
      using Cons.IH [OF h, of False "k - ?n"] Cons.prems(2,3) by auto
    then show ?thesis using False by (intro exI [of _ j]) auto
  qed
qed

section \<open>Resuming\<close>

lemma segments_of_holds:
  assumes "holds v base rs t" and "\<forall>x\<in>set base. ar_task x \<noteq> ae_task v" and "sorted_wrt (<) (map result_index rs)"
  shows "get_task_segments (ae_task v) (tr_db t) = map (result_row v) rs"
proof -
  have "filter (\<lambda>r. ar_task r = ae_task v) base = []" using assms(2) by (simp add: filter_empty_conv)
  moreover have "sorted (map ar_index (map (result_row v) rs))"
    using strict_sorted_imp_sorted [OF assms(3)] by (simp add: comp_def)
  moreover have "filter (\<lambda>r. ar_task r = ae_task v) (map (result_row v) rs) = map (result_row v) rs"
    by (simp add: filter_map comp_def)
  ultimately show ?thesis using assms(1)
    by (simp add: get_task_segments_def holds_def sort_key_id_if_sorted)
qed

lemma payload_of_result:
  assumes "result_ok v r" and "\<forall>f l q d. ae_asr v f l q = Inr d \<longrightarrow> d \<noteq> []"
  shows "payload_present (result_row v r)"
proof -
  have "ar_kept_raw r \<noteq> []" using assms by (auto simp: result_ok_def)
  then show ?thesis
    by (simp add: payload_present_def result_row_def segment_raw_payload_def split: option.split)
qed

lemma row_after:
  assumes h: "holds v base (take j rs) t" and b: "\<forall>x\<in>set base. ar_task x \<noteq> ae_task v"
    and asc: "sorted_wrt (<) (map result_index rs)"
  shows "existing_row v (tr_db t) n = find (\<lambda>r. ar_index r = n) (rev (map (result_row v) (take j rs)))"
proof -
  have "sorted_wrt (<) (map result_index (take j rs))"
    using asc by (simp add: take_map [symmetric] sorted_wrt_take)
  from segments_of_holds [OF h b this] show ?thesis by (simp add: existing_row_def)
qed

lemma open_after:
  assumes h: "holds v base (take j rs) t" and b: "\<forall>x\<in>set base. ar_task x \<noteq> ae_task v"
    and asc: "sorted_wrt (<) (map result_index rs)" and i: "i < length (drop j rs)"
  shows "existing_row v (tr_db t) (result_index (drop j rs ! i)) = None"
proof -
  have "sorted_wrt (<) (map result_index (take j rs) @ map result_index (drop j rs))"
    using asc by (simp flip: map_append)
  then have "\<forall>x\<in>set (take j rs). result_index x < result_index (drop j rs ! i)"
    using nth_mem [OF i] by (auto simp: sorted_wrt_append)
  then show ?thesis by (force simp: row_after [OF h b asc] find_None_iff)
qed

text \<open>An empty answer is stored, but its row does not count as done: the segment is asked for again.\<close>

definition empty_answers :: "asr_env \<Rightarrow> asr_result list \<Rightarrow> asr_result list" where
  "empty_answers v rs = filter (\<lambda>r. \<not> payload_present (result_row v r)) rs"

lemma find_mem: "find P xs = Some x \<Longrightarrow> x \<in> set xs \<and> P x"
  by (induction xs) (auto split: if_splits)

lemma row_of_result:
  assumes h: "holds v base (take j rs) t" and b: "\<forall>x\<in>set base. ar_task x \<noteq> ae_task v"
    and asc: "sorted_wrt (<) (map result_index rs)" and r: "r \<in> set (take j rs)"
  shows "existing_row v (tr_db t) (result_index r) = Some (result_row v r)"
proof -
  note row = row_after [OF h b asc]
  have "distinct (map result_index rs)" using asc strict_sorted_iff by blast
  then have inj: "inj_on result_index (set rs)" by (simp add: distinct_map)
  show ?thesis
  proof (cases "existing_row v (tr_db t) (result_index r)")
    case None
    then have "\<forall>x\<in>set (take j rs). result_index x \<noteq> result_index r" by (auto simp: row find_None_iff)
    then show ?thesis using r by blast
  next
    case (Some x)
    then have "x \<in> set (rev (map (result_row v) (take j rs))) \<and> ar_index x = result_index r"
      using find_mem [OF Some [unfolded row]] by simp
    then obtain q where q: "x = result_row v q" "q \<in> set (take j rs)" "result_index q = result_index r" by auto
    then have "q = r" using inj r by (auto simp: inj_on_def dest: in_set_takeD)
    then show ?thesis using Some q(1) by simp
  qed
qed

lemma missing_after:
  assumes h: "holds v base (take j rs) t" and b: "\<forall>x\<in>set base. ar_task x \<noteq> ae_task v"
    and asc: "sorted_wrt (<) (map result_index rs)"
  shows "missing_specs v (tr_db t) (map ar_spec rs) = map ar_spec (empty_answers v (take j rs) @ drop j rs)"
proof -
  let ?M = "\<lambda>s. case existing_row v (tr_db t) (sp_index s) of None \<Rightarrow> True | Some r \<Rightarrow> \<not> payload_present r"
  have open1: "existing_row v (tr_db t) (result_index r) = None" if "r \<in> set (drop j rs)" for r
    using that open_after [OF h b asc] by (metis in_set_conv_nth)
  have "filter ?M (map ar_spec (take j rs)) = map ar_spec (empty_answers v (take j rs))"
    using row_of_result [OF h b asc] by (auto simp: empty_answers_def filter_map comp_def cong: filter_cong)
  moreover have "filter ?M (map ar_spec (drop j rs)) = map ar_spec (drop j rs)"
    using open1 by (auto intro!: filter_True)
  moreover have "map ar_spec rs = map ar_spec (take j rs) @ map ar_spec (drop j rs)"
    by (simp flip: map_append)
  ultimately show ?thesis by (simp only: missing_specs_def filter_append map_append)
qed

text \<open>The memory gives a segment asked again the prompt it had, and remembering its answer changes
  nothing.\<close>

lemma memory_snoc: "memory_after m (rs @ [r]) = remember r (memory_after m rs)"
  by (simp add: memory_after_def)

lemma prompt_skips:
  "(\<And>y. y \<in> set ys \<Longrightarrow> Suc (result_index y) \<noteq> n) \<Longrightarrow> prompt_for (memory_after m (xs @ ys)) n = prompt_for (memory_after m xs) n"
proof (induction ys rule: rev_induct)
  case (snoc y ys)
  have "memory_after m (xs @ ys @ [y]) = remember y (memory_after m (xs @ ys))"
    using memory_snoc [of m "xs @ ys" y] by simp
  then show ?case using snoc.prems [of y] snoc.IH snoc.prems by (auto simp: prompt_remember)
qed simp

lemma prompt_of_known:
  assumes "q \<in> set rs" and "distinct (map result_index rs)"
  shows "prompt_for (memory_after m rs) (Suc (result_index q)) = primer q"
proof -
  obtain xs ys where rs: "rs = xs @ [q] @ ys" using assms(1) by (metis append_Cons append_Nil split_list)
  have "prompt_for (memory_after m ((xs @ [q]) @ ys)) (Suc (result_index q)) = prompt_for (memory_after m (xs @ [q])) (Suc (result_index q))"
  proof (rule prompt_skips)
    fix y assume "y \<in> set ys"
    moreover have "result_index q \<notin> result_index ` set ys" using assms(2) by (simp add: rs)
    ultimately show "Suc (result_index y) \<noteq> Suc (result_index q)" by (metis image_eqI nat.inject)
  qed
  then show ?thesis by (simp add: rs memory_snoc prompt_remember)
qed

lemma result_again:
  assumes res: "loop_results v l m ss = Some rs" and asc: "sorted_wrt (<) (map result_index rs)" and q: "q \<in> set (take j rs)"
  shows "transcribe_one v l (prompt_for (memory_after m (take j rs)) (result_index q)) (ar_spec q) = Inr q \<and> storable v q"
proof -
  obtain i where i: "i < j" "i < length rs" "q = rs ! i" using q by (auto simp: in_set_conv_nth)
  have len: "length ss = length rs" using loop_results_ok [OF res] by auto
  have "drop i ss = ss ! i # drop (Suc i) ss" "drop i rs = rs ! i # drop (Suc i) rs"
    using i(2) len by (simp_all add: Cons_nth_drop_Suc)
  with loop_results_drop [OF res, of i]
  have one: "transcribe_one v l (prompt_for (memory_after m (take i rs)) (sp_index (ss ! i))) (ss ! i) = Inr q" "storable v q"
    using i(3) by (auto split: sum.splits if_splits)
  have spec: "ar_spec q = ss ! i" using transcribe_one_spec [OF one(1)] .
  have "take j rs = take i rs @ take (j - i) (drop i rs)" using i(1) by (metis le_add_diff_inverse less_imp_le take_add)
  moreover have "Suc (result_index y) \<noteq> result_index q" if "y \<in> set (take (j - i) (drop i rs))" for y
  proof -
    have "y \<in> set (drop i rs)" using that by (rule in_set_takeD)
    then obtain k where k: "i + k < length rs" "y = rs ! (i + k)"
      unfolding in_set_conv_nth by (metis add.commute length_drop less_diff_conv nth_drop i(2) less_imp_le)
    have "result_index (rs ! a) < result_index (rs ! c)" if "a < c" "c < length rs" for a c
      using asc sorted_wrt_iff_nth_less [of "(<)" "map result_index rs"] that by simp
    then have "result_index q \<le> result_index y" using k i(3) by (cases k) (simp_all add: less_imp_le)
    then show ?thesis by simp
  qed
  ultimately have "prompt_for (memory_after m (take j rs)) (result_index q) = prompt_for (memory_after m (take i rs)) (result_index q)"
    using prompt_skips [of "take (j - i) (drop i rs)" "result_index q" m "take i rs"] by simp
  then show ?thesis using one spec by simp
qed

lemma loop_again:
  assumes res: "loop_results v l m0 ss = Some rs" and asc: "sorted_wrt (<) (map result_index rs)"
    and ds: "set ds \<subseteq> set (take j rs)" and m: "\<And>n. prompt_for m n = prompt_for (memory_after m0 (take j rs)) n"
  shows "loop_results v l m (map ar_spec ds @ map ar_spec (drop j rs)) = Some (ds @ drop j rs)"
  using ds m
proof (induction ds arbitrary: m)
  case Nil
  have "map ar_spec rs = ss" using loop_results_ok [OF res] by simp
  then have "loop_results v l (memory_after m0 (take j rs)) (map ar_spec (drop j rs)) = Some (drop j rs)"
    using loop_results_drop [OF res, of j] by (metis drop_map)
  then show ?case using loop_results_cong [OF Nil(2)] by simp
next
  case (Cons q ds)
  have "sorted_wrt (<) (map result_index (take j rs))" using asc by (simp add: take_map [symmetric] sorted_wrt_take)
  then have d: "distinct (map result_index (take j rs))" using strict_sorted_iff by blast
  have q: "q \<in> set (take j rs)" using Cons.prems(1) by simp
  have "prompt_for (remember q m) n = prompt_for (memory_after m0 (take j rs)) n" for n
    using prompt_of_known [OF q d, of m0] Cons.prems(2) by (auto simp: prompt_remember)
  then have "loop_results v l (remember q m) (map ar_spec ds @ map ar_spec (drop j rs)) = Some (ds @ drop j rs)"
    using Cons.IH Cons.prems(1) by simp
  then show ?case using result_again [OF res asc q] Cons.prems(2) by simp
qed

text \<open>What a run does from a state in which the first results are stored.\<close>

lemma resume_run:
  assumes h: "holds v base (take j rs) t" and b: "\<forall>x\<in>set base. ar_task x \<noteq> ae_task v"
    and asc: "sorted_wrt (<) (map result_index rs)"
    and res: "loop_results v l no_memory specs = Some rs" and ne: "rs \<noteq> []"
    and todo: "todo = empty_answers v (take j rs) @ drop j rs"
  shows "transcribe_segments v (Some l) (Some specs) t
    = (if todo = [] then [] else blocks (tr_txt t = None) todo @ [WriteRaw], Returned True)"
proof -
  have ok: "list_all (result_ok v) rs" and specs: "specs = map ar_spec rs" using loop_results_ok [OF res] by auto
  let ?ds = "empty_answers v (take j rs)"
  have ascj: "sorted_wrt (<) (map result_index (take j rs))"
    using asc by (simp add: take_map [symmetric] sorted_wrt_take)
  have "sorted_wrt (<) (map result_index (take j rs @ drop j rs))" using asc by (simp del: map_append)
  then have "sorted_wrt (<) (map result_index (?ds @ drop j rs))"
    by (auto simp: empty_answers_def sorted_wrt_append sorted_wrt_map intro: sorted_wrt_filter simp del: append_take_drop_id)
  then have srt: "sort_key sp_index (map ar_spec (?ds @ drop j rs)) = map ar_spec (?ds @ drop j rs)"
    using strict_sorted_imp_sorted by (intro sort_key_id_if_sorted) (simp add: comp_def)
  have mem: "prompt_for (stored_memory v (tr_db t)) n = prompt_for (memory_after no_memory (take j rs)) n" for n
  proof -
    have d: "distinct (map result_index (take j rs))" using ascj strict_sorted_iff by blast
    have "list_all (result_ok v) (take j rs)" using ok by (auto simp: list_all_iff dest: in_set_takeD)
    from memory_restored [OF d this] show ?thesis by (simp only: stored_memory_of segments_of_holds [OF h b ascj])
  qed
  have "set ?ds \<subseteq> set (take j rs)" by (auto simp: empty_answers_def)
  from loop_again [OF res asc this mem]
  have "loop_results v l (stored_memory v (tr_db t)) (map ar_spec todo) = Some todo" by (simp add: todo)
  note loop = loop_of_results [OF this]
  have "missing_specs v (tr_db t) specs = map ar_spec todo" unfolding specs todo by (rule missing_after [OF h b asc])
  moreover have "sort_key sp_index (map ar_spec todo) = map ar_spec todo" unfolding todo by (rule srt)
  moreover have "specs \<noteq> []" using ne specs by simp
  ultimately show ?thesis by (simp add: transcribe_segments_def loop Let_def)
qed

text \<open>Runs cut off after any number of effects, each continued by the next.\<close>

inductive interrupted ::
  "asr_env \<Rightarrow> ustr option \<Rightarrow> asr_spec list option \<Rightarrow> transcript_state \<Rightarrow> transcript_state \<Rightarrow> bool"
  for v l specs t where
  start: "interrupted v l specs t t"
| again: "interrupted v l specs t t' \<Longrightarrow>
    interrupted v l specs t (Contracts.run (apply_asr v) (take k (fst (transcribe_segments v l specs t'))) t')"

lemma run_results:
  assumes "transcribe_segments v (Some l) (Some specs) t = (es, Returned True)"
    and "get_task_segments (ae_task v) (tr_db t) = []" and "specs \<noteq> []" and "sorted_wrt (<) (map sp_index specs)"
  shows "\<exists>rs. loop_results v l no_memory specs = Some rs \<and> map ar_spec rs = specs \<and> rs \<noteq> []
     \<and> list_all (result_ok v) rs \<and> es = blocks (tr_txt t = None) rs @ [WriteRaw]"
proof -
  have m: "missing_specs v (tr_db t) specs = specs"
    using assms(2) by (simp add: missing_specs_def existing_row_def)
  have s: "sort_key sp_index specs = specs"
    using strict_sorted_imp_sorted [OF assms(4)] by (simp add: sort_key_id_if_sorted)
  have mem: "stored_memory v (tr_db t) = no_memory" using assms(2) by (simp add: stored_memory_def)
  have r: "snd (transcribe_loop v l (tr_txt t = None) no_memory specs) = None"
    "es = fst (transcribe_loop v l (tr_txt t = None) no_memory specs) @ [WriteRaw]"
    using assms(1,3) by (auto simp: transcribe_segments_def m s mem Let_def split: option.splits)
  obtain rs where rs: "loop_results v l no_memory specs = Some rs" using results_of_loop [OF r(1)] by blast
  have "map ar_spec rs = specs" "list_all (result_ok v) rs" using loop_results_ok [OF rs] by auto
  then show ?thesis using rs r(2) loop_of_results [OF rs, of "tr_txt t = None"] assms(3) by auto
qed

lemma interrupted_holds:
  assumes "interrupted v (Some l) (Some specs) t t'" and b: "\<forall>x\<in>set (db_asr (tr_db t)). ar_task x \<noteq> ae_task v"
    and res: "loop_results v l no_memory specs = Some rs" and rs: "map ar_spec rs = specs" "rs \<noteq> []"
    and asc: "sorted_wrt (<) (map result_index rs)"
  shows "\<exists>j\<le>length rs. holds v (db_asr (tr_db t)) (take j rs) t'"
  using assms(1)
proof (induction rule: interrupted.induct)
  case start
  then show ?case by (intro exI [of _ 0]) (simp add: holds_def)
next
  case (again t' k)
  then obtain j where j: "j \<le> length rs" "holds v (db_asr (tr_db t)) (take j rs) t'" by blast
  let ?ds = "empty_answers v (take j rs)"
  obtain todo where todo: "todo = ?ds @ drop j rs" by blast
  note run = resume_run [OF j(2) b asc res rs(2) todo]
  let ?R = "\<lambda>es. Contracts.run (apply_asr v) es t'"
  show ?case
  proof (cases "todo = []")
    case True
    then show ?thesis using j by (intro exI [of _ j]) (simp add: run)
  next
    case False
    let ?bl = "blocks (tr_txt t' = None) todo"
    have fx: "fst (transcribe_segments v (Some l) (Some specs) t') = ?bl @ [WriteRaw]"
      using False by (simp add: run)
    have ok: "list_all (storable v) (?ds @ drop j rs)" "set ?ds \<subseteq> set (take j rs)"
      using loop_results_ok [OF res] by (auto simp: list_all_iff result_ok_def empty_answers_def dest: in_set_dropD in_set_takeD)
    have d: "distinct (map result_index (take j rs @ drop j rs))" using asc strict_sorted_iff by fastforce
    obtain i where i: "i \<le> length (drop j rs)" "holds v (db_asr (tr_db t)) (take j rs @ take i (drop j rs)) (?R (take k ?bl))"
      using run_blocks_again [OF j(2) ok(1) b d ok(2)] unfolding todo by blast
    have e: "take j rs @ take i (drop j rs) = take (j + i) rs" by (simp add: take_add)
    have "db_asr (tr_db (?R (take k (?bl @ [WriteRaw])))) = db_asr (tr_db (?R (take k ?bl)))"
      by (cases "k - length ?bl") simp_all
    then have "holds v (db_asr (tr_db t)) (take (j + i) rs) (?R (take k (?bl @ [WriteRaw])))"
      using i(2) by (simp add: holds_def e)
    then show ?thesis using i(1) j(1) fx by (intro exI [of _ "j + i"]) simp
  qed
qed

lemma ask_in_blocks:
  "AskAsr n p \<in> set (blocks b rs) \<Longrightarrow> \<exists>j<length rs. n = result_index (rs ! j) \<and> p \<in> set (ar_prompts (rs ! j))"
proof (induction rs arbitrary: b)
  case Nil
  then show ?case by simp
next
  case (Cons r rs)
  from Cons.prems consider "AskAsr n p \<in> set (segment_effects b r)" | "AskAsr n p \<in> set (blocks False rs)" by auto
  then show ?case
  proof cases
    case 1
    then show ?thesis by (intro exI [of _ 0]) (auto simp: segment_effects_def)
  next
    case 2
    then show ?thesis using Cons.IH by (metis length_Cons not_less_eq nth_Cons_Suc)
  qed
qed

lemma asks_of_blocks: "AskAsr n p \<in> set (blocks b rs) \<longleftrightarrow> (\<exists>r\<in>set rs. n = result_index r \<and> p \<in> set (ar_prompts r))"
  by (induction rs arbitrary: b) (auto simp: segment_effects_def)

lemma prompt_of_memory:
  "prompt_for (memory_after no_memory rs) n = Some q \<Longrightarrow> \<exists>r\<in>set rs. n = Suc (result_index r) \<and> primer r = Some q"
proof (induction rs rule: rev_induct)
  case Nil
  then show ?case by (cases n) (simp_all add: memory_after_def prompt_for_def dict_get_def tail_prompt_def strip_Nil)
next
  case (snoc r rs)
  have "memory_after no_memory (rs @ [r]) = remember r (memory_after no_memory rs)" by (simp add: memory_after_def)
  then show ?case using snoc by (auto simp: prompt_remember split: if_splits)
qed

lemma result_prompts:
  assumes "loop_results v l m ss = Some rs" and "j < length rs"
  shows "ar_prompts (rs ! j) \<in> {[prompt_for (memory_after m (take j rs)) (result_index (rs ! j))],
     [prompt_for (memory_after m (take j rs)) (result_index (rs ! j)), None]}"
proof -
  have len: "length ss = length rs" using loop_results_ok [OF assms(1)] by auto
  have "drop j ss = ss ! j # drop (Suc j) ss" "drop j rs = rs ! j # drop (Suc j) rs"
    using assms(2) len by (simp_all add: Cons_nth_drop_Suc)
  with loop_results_drop [OF assms(1), of j]
  have "transcribe_one v l (prompt_for (memory_after m (take j rs)) (sp_index (ss ! j))) (ss ! j) = Inr (rs ! j)"
    by (auto split: sum.splits if_splits)
  from transcribe_one_prompts [OF this] transcribe_one_spec [OF this] show ?thesis by auto
qed

lemma run_all_blocks:
  assumes "holds v base rs t" and "list_all (storable v) (ds @ qs)" and "\<forall>x\<in>set base. ar_task x \<noteq> ae_task v"
    and "distinct (map result_index (rs @ qs))" and "set ds \<subseteq> set rs"
  shows "holds v base (rs @ qs) (Contracts.run (apply_asr v) (blocks b (ds @ qs) @ [WriteRaw]) t)"
  using run_blocks_again [OF assms, of b "length (blocks b (ds @ qs))"] by (auto simp: holds_def)

lemma fresh_segments: "\<forall>x\<in>set (db_asr db). ar_task x \<noteq> i \<Longrightarrow> get_task_segments i db = []"
  by (simp add: get_task_segments_def filter_empty_conv)

text \<open>The prompts one segment is asked with, in order.\<close>

definition asks_of :: "nat \<Rightarrow> asr_effect list \<Rightarrow> ustr option list" where
  "asks_of n es = concat (map (\<lambda>e. case e of AskAsr m p \<Rightarrow> if m = n then [p] else [] | _ \<Rightarrow> []) es)"

lemma asks_of_append [simp]: "asks_of n (xs @ ys) = asks_of n xs @ asks_of n ys"
  by (simp add: asks_of_def)

lemma asks_of_segment: "asks_of n (segment_effects b r) = (if n = result_index r then ar_prompts r else [])"
proof -
  have "asks_of n (map (AskAsr m) ps) = (if n = m then ps else [])" for m ps
    by (induction ps) (simp_all add: asks_of_def)
  then show ?thesis by (simp add: segment_effects_def asks_of_def)
qed

lemma asks_of_absent: "n \<notin> result_index ` set rs \<Longrightarrow> asks_of n (blocks b rs) = []"
  by (induction rs arbitrary: b) (auto simp: asks_of_segment, simp add: asks_of_def)

lemma asks_of_result:
  "distinct (map result_index rs) \<Longrightarrow> r \<in> set rs \<Longrightarrow> asks_of (result_index r) (blocks b rs) = ar_prompts r"
proof (induction rs arbitrary: b)
  case (Cons a rs)
  show ?case
  proof (cases "r = a")
    case True
    then show ?thesis using Cons.prems by (simp add: asks_of_segment asks_of_absent)
  next
    case False
    then have "r \<in> set rs" using Cons.prems by simp
    then have "result_index r \<in> result_index ` set rs" by (rule imageI)
    moreover have "result_index a \<notin> result_index ` set rs" using Cons.prems(1) by simp
    ultimately have "result_index r \<noteq> result_index a" by metis
    then show ?thesis using Cons \<open>r \<in> set rs\<close> by (simp add: asks_of_segment)
  qed
qed simp

text \<open>The rows after the rest of a run, and the segments it asks for.\<close>

lemma stores_after:
  assumes "holds v base (take j rs) t" and "\<forall>x\<in>set base. ar_task x \<noteq> ae_task v"
    and asc: "sorted_wrt (<) (map result_index rs)" and "list_all (result_ok v) rs"
  shows "holds v base rs (Contracts.run (apply_asr v) (blocks b (empty_answers v (take j rs) @ drop j rs) @ [WriteRaw]) t)"
proof -
  have st: "list_all (storable v) (empty_answers v (take j rs) @ drop j rs)" "set (empty_answers v (take j rs)) \<subseteq> set (take j rs)"
    using assms(4) by (auto simp: list_all_iff result_ok_def empty_answers_def dest: in_set_dropD in_set_takeD)
  have d: "distinct (map result_index (take j rs @ drop j rs))" using asc strict_sorted_iff by fastforce
  show ?thesis using run_all_blocks [OF assms(1) st(1) assms(2) d st(2)] by simp
qed

lemma stores_all:
  assumes "\<forall>x\<in>set (db_asr (tr_db t)). ar_task x \<noteq> ae_task v" and "sorted_wrt (<) (map result_index rs)"
    and "list_all (result_ok v) rs"
  shows "holds v (db_asr (tr_db t)) rs (Contracts.run (apply_asr v) (blocks b rs @ [WriteRaw]) t)"
  using stores_after [of v "db_asr (tr_db t)" 0 rs t b, OF _ assms] by (simp add: holds_def empty_answers_def)

lemma asks_after:
  assumes h: "holds v base (take j rs) t" and b: "\<forall>x\<in>set base. ar_task x \<noteq> ae_task v"
    and asc: "sorted_wrt (<) (map result_index rs)"
  shows "(\<exists>r\<in>set (empty_answers v (take j rs) @ drop j rs). n = result_index r \<and> p \<in> set (ar_prompts r))
     \<longleftrightarrow> (\<exists>r\<in>set rs. n = result_index r \<and> p \<in> set (ar_prompts r))
        \<and> (case existing_row v (tr_db t) n of None \<Rightarrow> True | Some r \<Rightarrow> \<not> payload_present r)"
proof -
  have all: "set rs = set (take j rs) \<union> set (drop j rs)" by (metis append_take_drop_id set_append)
  have o: "existing_row v (tr_db t) (result_index r) = None" if "r \<in> set (drop j rs)" for r
    using that open_after [OF h b asc] by (metis in_set_conv_nth)
  note k = row_of_result [OF h b asc]
  show ?thesis unfolding all by (auto simp: empty_answers_def o k)
qed

lemma raw_of_blocks: "tr_raw (Contracts.run (apply_asr v) (blocks b rs) t) = tr_raw t"
proof (induction rs arbitrary: b t)
  case Nil
  then show ?case by simp
next
  case (Cons r rs)
  have "tr_raw (Contracts.run (apply_asr v) (segment_effects b r) t) = tr_raw t"
    by (simp add: segment_effects_def asks_do_nothing split: option.split)
  then show ?case by (simp add: Cons.IH)
qed

section \<open>An example\<close>

text \<open>Two segments whose texts are their file names.\<close>

definition sample_asr :: asr_env where
  "sample_asr = \<lparr>ae_task = 1, ae_now = 5, ae_path = lit ''t'', ae_uc = ascii_tables, ae_fs = (\<lambda>_. None),
     ae_rp = (\<lambda>_. []), ae_asr = (\<lambda>f l q. Inr [(lit ''text'', JStr f)])\<rparr>"

definition sample_specs :: "asr_spec list" where
  "sample_specs = [\<lparr>sp_index = 0, sp_file = [97], sp_start = 0, sp_end = 1\<rparr>,
     \<lparr>sp_index = 1, sp_file = [98], sp_start = 1, sp_end = 2\<rparr>]"

definition sample_transcript :: transcript_state where
  "sample_transcript = \<lparr>tr_db = \<lparr>db_tasks = [], db_asr = []\<rparr>, tr_txt = None, tr_json = None, tr_raw = None,
     tr_wavs = True, tr_indexed = False\<rparr>"

definition sample_effects :: "asr_effect list" where
  "sample_effects = [AskAsr 0 None, AppendTxt [97, 32], CommitSegment 0 0 1 [97] (JDict [(lit ''text'', JStr [97])]) True,
     AskAsr 1 (Some [97]), AppendTxt [98, 32], CommitSegment 1 1 2 [98] (JDict [(lit ''text'', JStr [98])]) False, WriteRaw]"

lemma sample_one:
  assumes "sp_file s = [c]" and "c = 97 \<or> c = 98"
  shows "transcribe_one sample_asr l p s = Inr \<lparr>ar_spec = s, ar_prompts = [p], ar_kept = [c],
     ar_kept_raw = [(lit ''text'', JStr [c])], ar_flag = False\<rparr>"
proof -
  have c: "\<not> py_space c" using assms(2) by (auto simp: py_space_def)
  have n: "normalize_output rp [(lit ''text'', JStr [c])] = [c]" for rp
    using c by (simp add: normalize_output_def jget_or_def dict_get_def strip_def lstrip_def rstrip_def)
  have w: "split_ws [c] = [[c]]" using c by (subst split_ws.simps) (simp add: lstrip_def)
  have "squeezed ascii_tables [c] = [c]"
    using assms(2) by (auto simp: squeezed_def flatten_ws_def w ascii_tables_def ascii_lower1_def)
  then have "\<not> is_probable_asr_hallucination ascii_tables [c]"
    by (simp add: is_probable_asr_hallucination_def Let_def normal_tokens_def w)
  then show ?thesis by (simp add: transcribe_one_def n assms(1) sample_asr_def Let_def)
qed

lemma sample_storable: "storable sample_asr r" if "ar_kept_raw r = [(lit ''text'', JStr [c])]"
  by (simp add: storable_def that decompose_raw_json_def segments_of_def jget_def dict_get_def)

lemma sample_tail: "tail_prompt [97] = Some [97]"
  by (simp add: tail_prompt_def strip_def lstrip_def rstrip_def py_space_def)

lemma sample_run:
  "transcribe_segments sample_asr (Some l) (Some sample_specs) sample_transcript = (sample_effects, Returned True)"
  by (simp add: transcribe_segments_def sample_specs_def sample_transcript_def missing_specs_def existing_row_def
      get_task_segments_def stored_memory_def sample_one [where c = 97] sample_one [where c = 98] sample_storable
      prompt_for_def remember_def dict_get_def sample_tail segment_effects_def sample_effects_def Let_def
      strip_def lstrip_def rstrip_def py_space_def)

lemma sample_fresh: "\<forall>r\<in>set (db_asr (tr_db sample_transcript)). ar_task r \<noteq> ae_task sample_asr"
  by (simp add: sample_transcript_def)

lemma sample_ascending: "sorted_wrt (<) (map sp_index sample_specs)"
  by (simp add: sample_specs_def)

lemma sample_payloads: "\<forall>f l q d. ae_asr sample_asr f l q = Inr d \<longrightarrow> d \<noteq> []"
  by (auto simp: sample_asr_def)

lemma sample_interrupted:
  "interrupted sample_asr (Some l) (Some sample_specs) sample_transcript
     (Contracts.run (apply_asr sample_asr) (take k sample_effects) sample_transcript)"
  using interrupted.again [OF interrupted.start [of sample_asr "Some l" "Some sample_specs" sample_transcript], of k]
  by (simp add: sample_run)

section \<open>Properties\<close>

text \<open>(C3) Transcription survives interruption. Take a run over a fresh task that succeeds, on a manifest
  whose segments are numbered in ascending order, with a recogniser that answers the same question the
  same way. Interrupt it after any of its effects (an answer of the recogniser, an append, a commit),
  continue, interrupt that run too, and so on any number of times: from every state so reached the next
  run succeeds, ends with exactly the rows of the uninterrupted run, one per segment, and asks the
  recogniser exactly for the segments that have no row or whose row holds an empty answer (an empty
  dictionary is stored, but never counts as done, and so is asked for again by every run), each with the
  very prompts of the uninterrupted run, though it rebuilds them from the rows.\<close>

theorem transcription_resumes:
  assumes "transcribe_segments v (Some l) (Some specs) t = (es, Returned True)"
    and "\<forall>r\<in>set (db_asr (tr_db t)). ar_task r \<noteq> ae_task v" and "sorted_wrt (<) (map sp_index specs)"
    and "interrupted v (Some l) (Some specs) t t'"
  shows "\<exists>rest. transcribe_segments v (Some l) (Some specs) t' = (rest, Returned True)
     \<and> db_asr (tr_db (Contracts.run (apply_asr v) rest t')) = db_asr (tr_db (Contracts.run (apply_asr v) es t))
     \<and> map ar_index (get_task_segments (ae_task v) (tr_db (Contracts.run (apply_asr v) rest t'))) = map sp_index specs
     \<and> (\<forall>n p. AskAsr n p \<in> set rest \<longleftrightarrow> AskAsr n p \<in> set es
          \<and> (case existing_row v (tr_db t') n of None \<Rightarrow> True | Some r \<Rightarrow> \<not> payload_present r))"
proof -
  have ne: "specs \<noteq> []" using assms(1) by (auto simp: transcribe_segments_def)
  obtain rs where rs: "loop_results v l no_memory specs = Some rs" "map ar_spec rs = specs" "rs \<noteq> []"
    "list_all (result_ok v) rs" "es = blocks (tr_txt t = None) rs @ [WriteRaw]"
    using run_results [OF assms(1) fresh_segments [OF assms(2)] ne assms(3)] by blast
  have asc: "sorted_wrt (<) (map result_index rs)" using assms(3) unfolding rs(2) [symmetric] by (simp add: comp_def)
  obtain j where j: "j \<le> length rs" "holds v (db_asr (tr_db t)) (take j rs) t'"
    using interrupted_holds [OF assms(4,2) rs(1-3) asc] by blast
  obtain todo where todo: "todo = empty_answers v (take j rs) @ drop j rs" by blast
  let ?rest = "if todo = [] then [] else blocks (tr_txt t' = None) todo @ [WriteRaw]"
  have run: "transcribe_segments v (Some l) (Some specs) t' = (?rest, Returned True)"
    by (rule resume_run [OF j(2) assms(2) asc rs(1,3) todo])
  have full: "holds v (db_asr (tr_db t)) rs (Contracts.run (apply_asr v) es t)"
    unfolding rs(5) by (rule stores_all [OF assms(2) asc rs(4)])
  have "holds v (db_asr (tr_db t)) rs (Contracts.run (apply_asr v) (blocks (tr_txt t' = None) todo @ [WriteRaw]) t')"
    unfolding todo by (rule stores_after [OF j(2) assms(2) asc rs(4)])
  moreover have "todo = [] \<Longrightarrow> take j rs = rs" using todo by simp
  ultimately have rest: "holds v (db_asr (tr_db t)) rs (Contracts.run (apply_asr v) ?rest t')"
    using j(2) by (cases "todo = []") simp_all
  have "AskAsr n p \<in> set ?rest \<longleftrightarrow> AskAsr n p \<in> set es
      \<and> (case existing_row v (tr_db t') n of None \<Rightarrow> True | Some r \<Rightarrow> \<not> payload_present r)" for n p
    using asks_after [OF j(2) assms(2) asc, of n p] unfolding todo [symmetric] by (auto simp: rs(5) asks_of_blocks)
  moreover have "map ar_index (get_task_segments (ae_task v) (tr_db (Contracts.run (apply_asr v) ?rest t'))) = map sp_index specs"
    unfolding segments_of_holds [OF rest assms(2) asc] rs(2) [symmetric] by (simp add: comp_def)
  ultimately show ?thesis using run rest full by (auto simp only: holds_def)
qed

theorem transcription_resumes_witness:
  "let t' = Contracts.run (apply_asr sample_asr) (take 4 sample_effects) sample_transcript in
   \<exists>rest. transcribe_segments sample_asr (Some [101]) (Some sample_specs) t' = (rest, Returned True)
     \<and> db_asr (tr_db (Contracts.run (apply_asr sample_asr) rest t'))
       = db_asr (tr_db (Contracts.run (apply_asr sample_asr) sample_effects sample_transcript))"
  unfolding Let_def
  using transcription_resumes [OF sample_run sample_fresh sample_ascending sample_interrupted [of "[101]" 4]]
  by blast


text \<open>(C14) No hallucination primes the recogniser. Take a run over a fresh task that succeeds, on a
  manifest whose segments are numbered in ascending order. A segment it asks for with a prompt is asked
  with it once, first, and again at most without one; the prompt is the tail (at most 800 characters)
  of the text stored for the segment numbered just before, and that text is not a probable
  hallucination. So the first segment, a segment after a hallucinated one and every retry are asked
  without a prompt.\<close>

theorem hallucinations_never_prime:
  assumes "transcribe_segments v (Some l) (Some specs) t = (es, Returned True)"
    and "\<forall>r\<in>set (db_asr (tr_db t)). ar_task r \<noteq> ae_task v" and "sorted_wrt (<) (map sp_index specs)"
    and "AskAsr n (Some q) \<in> set es"
  shows "asks_of n es \<in> {[Some q], [Some q, None]} \<and> length q \<le> 800
     \<and> (\<exists>r. {x \<in> set (get_task_segments (ae_task v) (tr_db (Contracts.run (apply_asr v) es t))). Suc (ar_index x) = n} = {r}
          \<and> \<not> is_probable_asr_hallucination (ae_uc v) (ar_text r) \<and> Sublist.suffix q (strip (ar_text r)))"
proof -
  have ne: "specs \<noteq> []" using assms(1) by (auto simp: transcribe_segments_def)
  obtain rs where rs: "loop_results v l no_memory specs = Some rs" "map ar_spec rs = specs"
    "list_all (result_ok v) rs" "es = blocks (tr_txt t = None) rs @ [WriteRaw]"
    using run_results [OF assms(1) fresh_segments [OF assms(2)] ne assms(3)] by blast
  have asc: "sorted_wrt (<) (map result_index rs)" using assms(3) unfolding rs(2) [symmetric] by (simp add: comp_def)
  then have d: "distinct (map result_index rs)" using strict_sorted_iff by blast
  have "AskAsr n (Some q) \<in> set (blocks (tr_txt t = None) rs)" using assms(4) rs(4) by simp
  then obtain j where j: "j < length rs" "n = result_index (rs ! j)" "Some q \<in> set (ar_prompts (rs ! j))"
    using ask_in_blocks by blast
  then have p: "prompt_for (memory_after no_memory (take j rs)) n = Some q" using result_prompts [OF rs(1) j(1)] by auto
  then have "ar_prompts (rs ! j) \<in> {[Some q], [Some q, None]}" using result_prompts [OF rs(1) j(1)] j(2) by auto
  then have asked: "asks_of n es \<in> {[Some q], [Some q, None]}"
    using asks_of_result [OF d nth_mem [OF j(1)]] j(2) by (simp add: rs(4)) (simp add: asks_of_def)
  obtain r where r: "r \<in> set (take j rs)" "n = Suc (result_index r)" "primer r = Some q"
    using prompt_of_memory [OF p] by blast
  have mem: "r \<in> set rs" using r(1) by (rule in_set_takeD)
  have "holds v (db_asr (tr_db t)) rs (Contracts.run (apply_asr v) es t)"
    unfolding rs(4) by (rule stores_all [OF assms(2) asc rs(3)])
  note rows = segments_of_holds [OF this assms(2) asc]
  have "{x \<in> set (map (result_row v) rs). Suc (ar_index x) = n} = {result_row v r}"
    using mem r(2) d by (auto simp: distinct_map inj_on_def)
  moreover have "\<not> is_probable_asr_hallucination (ae_uc v) (ar_kept r)"
    using r(3) rs(3) mem by (auto simp: primer_def list_all_iff result_ok_def split: if_splits)
  moreover have "length q \<le> 800 \<and> Sublist.suffix q (strip (ar_kept r))"
    using r(3) by (auto simp: primer_def tail_prompt_def Let_def suffix_drop split: if_splits)
  ultimately show ?thesis using asked unfolding rows by (metis result_row_simps(3))
qed

theorem hallucinations_never_prime_witness:
  "AskAsr 1 (Some [97]) \<in> set sample_effects
   \<and> (\<exists>r. {x \<in> set (get_task_segments 1 (tr_db (Contracts.run (apply_asr sample_asr) sample_effects sample_transcript))).
         Suc (ar_index x) = 1} = {r} \<and> Sublist.suffix [97] (strip (ar_text r)))"
proof -
  have m: "AskAsr 1 (Some [97]) \<in> set sample_effects" by (simp add: sample_effects_def)
  have a: "ae_task sample_asr = 1" by (simp add: sample_asr_def)
  show ?thesis
    using hallucinations_never_prime [OF sample_run sample_fresh sample_ascending m, unfolded a] m by metis
qed


text \<open>A listing that is never written. A run is interrupted after its last commit, before it writes
  \<open>asr/segments_raw.json\<close>. The next run finds no missing segment and returns at once, so the file the
  player reads its sentences from is never written, though every row is there.\<close>

theorem raw_listing_never_written:
  assumes "transcribe_segments v (Some l) (Some specs) t = (es, Returned True)"
    and "\<forall>r\<in>set (db_asr (tr_db t)). ar_task r \<noteq> ae_task v" and "sorted_wrt (<) (map sp_index specs)"
    and "\<forall>f l q d. ae_asr v f l q = Inr d \<longrightarrow> d \<noteq> []"
    and "t' = Contracts.run (apply_asr v) (butlast es) t"
  shows "last es = WriteRaw \<and> transcribe_segments v (Some l) (Some specs) t' = ([], Returned True)
     \<and> db_asr (tr_db t') = db_asr (tr_db (Contracts.run (apply_asr v) es t)) \<and> tr_raw t' = tr_raw t"
proof -
  have ne: "specs \<noteq> []" using assms(1) by (auto simp: transcribe_segments_def)
  obtain rs where rs: "loop_results v l no_memory specs = Some rs" "map ar_spec rs = specs" "rs \<noteq> []"
    "list_all (result_ok v) rs" "es = blocks (tr_txt t = None) rs @ [WriteRaw]"
    using run_results [OF assms(1) fresh_segments [OF assms(2)] ne assms(3)] by blast
  have asc: "sorted_wrt (<) (map result_index rs)" using assms(3) unfolding rs(2) [symmetric] by (simp add: comp_def)
  have st: "list_all (storable v) rs" using rs(4) by (auto simp: list_all_iff result_ok_def)
  have d: "distinct (map result_index ([] @ rs))" using asc strict_sorted_iff by fastforce
  have h: "holds v (db_asr (tr_db t)) (take (length rs) rs) t'"
    using run_blocks [OF _ st assms(2) d, of t "tr_txt t = None" "length (blocks (tr_txt t = None) rs)"]
    by (auto simp: assms(5) rs(5) holds_def)
  have none: "empty_answers v rs = []"
    using payload_of_result [OF _ assms(4)] rs(4) by (auto simp: empty_answers_def filter_empty_conv list_all_iff)
  have "transcribe_segments v (Some l) (Some specs) t' = ([], Returned True)"
    using resume_run [OF h assms(2) asc rs(1,3) refl] none by simp
  moreover have "tr_raw t' = tr_raw t"
    using raw_of_blocks [of v "tr_txt t = None" rs t] by (simp add: assms(5) rs(5))
  moreover have "db_asr (tr_db t') = db_asr (tr_db (Contracts.run (apply_asr v) es t))"
    by (simp add: assms(5) rs(5))
  ultimately show ?thesis using rs(5) by simp
qed

theorem raw_listing_never_written_witness:
  "let t' = Contracts.run (apply_asr sample_asr) (butlast sample_effects) sample_transcript in
   transcribe_segments sample_asr (Some [101]) (Some sample_specs) t' = ([], Returned True) \<and> tr_raw t' = None"
  using raw_listing_never_written [OF sample_run [of "[101]"] sample_fresh sample_ascending sample_payloads refl]
  by (simp add: Let_def) (simp add: sample_transcript_def)


text \<open>The write of the transcript, and what it leaves.\<close>

text \<open>A half-finished merge is taken for a finished one. The merge step writes
  \<open>transcript.json\<close> first and replaces \<open>transcript.txt\<close> after; recognition has left a
  \<open>transcript.txt\<close> of its own by then. Interrupted in between, the step finds both files when it runs
  again and returns at once: the text file keeps the uncleaned, unattributed text of recognition (or
  is empty, when the interruption hits the write itself), while the JSON holds the final one; the
  recording is not indexed, the segment files stay.\<close>

theorem interrupted_merge_keeps_raw_text:
  assumes "merge_transcript v d t = (es, Returned True)" and "tr_json t = None" and "tr_txt t = Some raw"
    and "k \<in> {1, 2}" and "t' = Contracts.run (apply_asr v) (take k es) t"
  shows "merge_transcript v d t' = ([], Returned True)
     \<and> tr_txt t' = Some (if k = 1 then raw else [])
     \<and> (\<exists>f. tr_json t' = Some f \<and> merged_transcript v d (tr_db t) = Inr f
           \<and> tr_txt (Contracts.run (apply_asr v) es t) = Some (tf_text f))
     \<and> tr_indexed t' = tr_indexed t \<and> tr_wavs t' = tr_wavs t
     \<and> tr_indexed (Contracts.run (apply_asr v) es t) \<and> \<not> tr_wavs (Contracts.run (apply_asr v) es t)"
proof -
  obtain f where f: "merged_transcript v d (tr_db t) = Inr f" "es = merge_effects f"
    using assms(1,2) by (auto simp: merge_transcript_def split: sum.splits if_splits)
  have k: "k = 1 \<or> k = 2" using assms(4) by auto
  have "tr_json t' = Some f" "tr_txt t' = Some (if k = 1 then raw else [])" "tr_indexed t' = tr_indexed t" "tr_wavs t' = tr_wavs t"
    using k assms(3) by (auto simp: assms(5) f(2) merge_effects_def)
  then show ?thesis by (auto simp: merge_transcript_def f merge_effects_def)
qed

definition sample_merge :: merge_env where
  "sample_merge = \<lparr>me_diar = NoDiarization, me_names = [], me_language = None, me_words = 2, me_seconds = 1,
     me_legacy = (\<lambda>_. None)\<rparr>"

definition merge_before :: transcript_state where
  "merge_before = sample_transcript\<lparr>tr_db := \<lparr>db_tasks = [sample_task 1 1 Running 0], db_asr = []\<rparr>, tr_txt := Some [120]\<rparr>"

definition empty_transcript :: transcript_file where
  "empty_transcript = \<lparr>tf_text = [], tf_raw_text = [], tf_entries = [], tf_all_entries = [], tf_cleanup = empty_meta\<rparr>"

theorem interrupted_merge_keeps_raw_text_witness:
  "let t' = Contracts.run (apply_asr sample_asr) (take 1 (merge_effects empty_transcript)) merge_before in
   merge_transcript sample_asr sample_merge t' = ([], Returned True) \<and> tr_txt t' = Some [120]"
proof -
  have m: "merged_transcript sample_asr sample_merge (tr_db merge_before) = Inr empty_transcript"
    by (simp add: merged_transcript_def texted_rows_def merge_before_def get_task_segments_def trim_repetitive_edges_def
        apply_diarization_def sample_merge_def empty_transcript_def)
  have "merge_transcript sample_asr sample_merge merge_before = (merge_effects empty_transcript, Returned True)"
    by (simp add: merge_transcript_def m) (simp add: merge_before_def sample_transcript_def find_task_def sample_asr_def)
  from interrupted_merge_keeps_raw_text [OF this, of "[120]" 1, OF _ _ _ refl] show ?thesis
    by (simp add: merge_before_def sample_transcript_def Let_def)
qed


text \<open>A diarization file that is not text fails the merge, whatever the recording holds.\<close>

lemma undecodable_diarization_fails:
  "me_diar d = NotText \<Longrightarrow> tr_json t = None \<Longrightarrow> merge_transcript v d t = ([], Raises (lit ''UnicodeDecodeError''))"
  by (simp add: merge_transcript_def merged_transcript_def apply_diarization_def split: prod.split)

text \<open>The choice between an attempt and its retry.\<close>

lemma retry_keeps_better:
  assumes "transcribe_one v l p s = Inr r"
  shows "\<exists>raw. ae_asr v (sp_file s) l p = Inr raw
     \<and> (let text = normalize_output (ae_rp v) raw; bad = is_probable_asr_hallucination (ae_uc v) in
        if \<not> bad text then ar_kept r = text \<and> ar_prompts r = [p]
        else (\<exists>raw2. ae_asr v (sp_file s) l None = Inr raw2
           \<and> (let text2 = normalize_output (ae_rp v) raw2 in ar_prompts r = [p, None] \<and> ar_kept r \<in> {text, text2}
             \<and> (\<not> bad text2 \<longrightarrow> ar_kept r = text2)
             \<and> (bad text2 \<longrightarrow> transcript_quality_score (ae_uc v) (ar_kept r)
                  = max (transcript_quality_score (ae_uc v) text) (transcript_quality_score (ae_uc v) text2)))))"
proof -
  obtain raw where raw: "ae_asr v (sp_file s) l p = Inr raw"
    using assms by (auto simp: transcribe_one_def split: sum.splits)
  let ?text = "normalize_output (ae_rp v) raw"
  show ?thesis
  proof (cases "is_probable_asr_hallucination (ae_uc v) ?text")
    case False
    then show ?thesis using assms by (auto simp: transcribe_one_def raw)
  next
    case True
    have "\<exists>raw2. ae_asr v (sp_file s) l None = Inr raw2"
    proof (cases "ae_asr v (sp_file s) l None")
      case (Inl e)
      then show ?thesis using assms True by (simp add: transcribe_one_def raw)
    next
      case (Inr raw2)
      then show ?thesis by blast
    qed
    then obtain raw2 where raw2: "ae_asr v (sp_file s) l None = Inr raw2" by blast
    let ?text2 = "normalize_output (ae_rp v) raw2"
    have "\<not> is_probable_asr_hallucination (ae_uc v) ?text2
        \<or> transcript_quality_score (ae_uc v) ?text < transcript_quality_score (ae_uc v) ?text2
        \<longrightarrow> ar_prompts r = [p, None] \<and> ar_kept r = ?text2"
      "is_probable_asr_hallucination (ae_uc v) ?text2
        \<and> \<not> transcript_quality_score (ae_uc v) ?text < transcript_quality_score (ae_uc v) ?text2
        \<longrightarrow> ar_prompts r = [p, None] \<and> ar_kept r = ?text"
      using assms True by (auto simp: transcribe_one_def raw raw2 Let_def)
    then show ?thesis using True
      by (cases "is_probable_asr_hallucination (ae_uc v) ?text2
        \<and> \<not> transcript_quality_score (ae_uc v) ?text < transcript_quality_score (ae_uc v) ?text2")
        (auto simp: raw raw2 Let_def max_def)
  qed
qed

end
