(* ===== verification/Account_Merge.thy ===== *)
theory Account_Merge
  imports Json_Values Prompt_Options
begin

text \<open>
  Folding one account into another (\<open>services/account_merge.py\<close>): the database half, generic in the
  schema as the code is, and the move of the artifact directory.

  A table is the list of its rows, a row a dictionary from columns to values; the absent column is
  null. The schema is data, as SQLAlchemy's metadata is for the code: a table's primary key, the column
  that references \<open>users.id\<close> (the models have at most one per table), its unique keys with the
  predicate of a partial index, and its references to other tables with what a deletion does. Tables
  are listed as \<open>sorted_tables\<close> lists them: a table after those it references. What Postgres does on a
  deletion is \<open>delete_pass\<close>; a violated \<open>RESTRICT\<close> or unique key is \<open>IntegrityError\<close>.
\<close>

section \<open>Schema and tables\<close>

type_synonym row = jdict

type_synonym tables = "(ustr \<times> row list) list"

datatype key_where = Always | IsTrue ustr | NotNull ustr

record unique_key =
  uk_cols :: "ustr list"
  uk_where :: key_where

datatype on_delete = Restrict | Cascade | SetNull

record reference =
  rf_col :: ustr
  rf_table :: ustr
  rf_action :: on_delete

record table_spec =
  tb_name :: ustr
  tb_pk :: ustr
  tb_columns :: "ustr list"
  tb_user :: "ustr option"
  tb_keys :: "unique_key list"
  tb_refs :: "reference list"

definition rows_of :: "tables \<Rightarrow> ustr \<Rightarrow> row list" where
  "rows_of st n = (case dict_get st n of None \<Rightarrow> [] | Some rs \<Rightarrow> rs)"

fun in_index :: "key_where \<Rightarrow> row \<Rightarrow> bool" where
  "in_index Always r = True"
| "in_index (IsTrue c) r = (jget r c = JBool True)"
| "in_index (NotNull c) r = (jget r c \<noteq> JNull)"

definition key_tuple :: "ustr list \<Rightarrow> row \<Rightarrow> json list" where
  "key_tuple cols r = map (jget r) cols"

text \<open>A unique key: the tuples of the rows in the index are distinct, null never equal to null.\<close>

definition key_ok :: "unique_key \<Rightarrow> row list \<Rightarrow> bool" where
  "key_ok k rows = distinct (map (key_tuple (uk_cols k))
     (filter (\<lambda>r. in_index (uk_where k) r \<and> JNull \<notin> set (key_tuple (uk_cols k) r)) rows))"

definition unique_ok :: "table_spec \<Rightarrow> row list \<Rightarrow> bool" where
  "unique_ok s rows = list_all (\<lambda>k. key_ok k rows) (tb_keys s)"

section \<open>Deleting rows\<close>

definition nulled :: "(ustr \<times> json) list \<Rightarrow> reference list \<Rightarrow> row \<Rightarrow> row" where
  "nulled gone refs r = foldl (\<lambda>r f. if rf_action f = SetNull \<and> (rf_table f, jget r (rf_col f)) \<in> set gone
     then dict_set r (rf_col f) JNull else r) r refs"

text \<open>One pass over the tables, with the rows deleted so far: a row goes when it is one of those named or
  references a deleted row by a cascade. \<open>None\<close> is a restricting reference to a deleted row.\<close>

fun delete_pass :: "table_spec list \<Rightarrow> ustr \<Rightarrow> json list \<Rightarrow> (ustr \<times> json) list \<Rightarrow> tables \<Rightarrow> tables option" where
  "delete_pass [] n ids gone st = Some st"
| "delete_pass (s # ss) n ids gone st =
     (let rows = rows_of st (tb_name s);
          hit = (\<lambda>a r. list_ex (\<lambda>f. rf_action f = a \<and> (rf_table f, jget r (rf_col f)) \<in> set gone) (tb_refs s));
          doomed = (\<lambda>r. (tb_name s = n \<and> jget r (tb_pk s) \<in> set ids) \<or> hit Cascade r)
      in if list_ex (hit Restrict) rows then None
         else delete_pass ss n ids (gone @ map (\<lambda>r. (tb_name s, jget r (tb_pk s))) (filter doomed rows))
                (dict_set st (tb_name s) (map (nulled gone (tb_refs s)) (filter (\<lambda>r. \<not> doomed r) rows))))"

definition delete_rows :: "table_spec list \<Rightarrow> ustr \<Rightarrow> json list \<Rightarrow> tables \<Rightarrow> tables option" where
  "delete_rows schema n ids st = delete_pass schema n ids [] st"

section \<open>Moving the rows of an account\<close>

definition user_id_columns :: "table_spec list \<Rightarrow> (table_spec \<times> ustr) list" where
  "user_id_columns schema = List.map_filter (\<lambda>s. map_option (Pair s) (tb_user s)) schema"

definition unique_keys_involving :: "table_spec \<Rightarrow> ustr \<Rightarrow> (ustr list \<times> key_where) list" where
  "unique_keys_involving s c = map (\<lambda>k. (filter (\<lambda>x. x \<noteq> c) (uk_cols k), uk_where k)) (filter (\<lambda>k. c \<in> set (uk_cols k)) (tb_keys s))"

text \<open>The rows of an owner in the index, and the primary keys of the absorbed rows whose tuple the kept
  account has.\<close>

definition owned :: "ustr \<Rightarrow> json \<Rightarrow> key_where \<Rightarrow> row list \<Rightarrow> row list" where
  "owned c owner w rows = filter (\<lambda>r. jget r c = owner \<and> in_index w r) rows"

definition doomed_ids :: "table_spec \<Rightarrow> ustr \<Rightarrow> json \<Rightarrow> json \<Rightarrow> ustr list \<Rightarrow> key_where \<Rightarrow> row list \<Rightarrow> json list" where
  "doomed_ids s c keep absorb others w rows =
     map (\<lambda>r. jget r (tb_pk s)) (filter (\<lambda>r. key_tuple others r \<in> set (map (key_tuple others) (owned c keep w rows)))
       (owned c absorb w rows))"

fun drop_colliding_rows ::
  "table_spec list \<Rightarrow> table_spec \<Rightarrow> ustr \<Rightarrow> json \<Rightarrow> json \<Rightarrow> (ustr list \<times> key_where) list \<Rightarrow> tables \<times> nat
     \<Rightarrow> (tables \<times> nat) option" where
  "drop_colliding_rows schema s c keep absorb [] (st, n) = Some (st, n)"
| "drop_colliding_rows schema s c keep absorb ((others, w) # ks) (st, n) =
     (let doomed = doomed_ids s c keep absorb others w (rows_of st (tb_name s)) in
      if doomed = [] then drop_colliding_rows schema s c keep absorb ks (st, n)
      else (case delete_rows schema (tb_name s) doomed st of None \<Rightarrow> None
        | Some st' \<Rightarrow> drop_colliding_rows schema s c keep absorb ks (st', n + length doomed)))"

definition repoint :: "ustr \<Rightarrow> json \<Rightarrow> json \<Rightarrow> row \<Rightarrow> row" where
  "repoint c keep absorb r = (if jget r c = absorb then dict_set r c keep else r)"

datatype merge_error = NoAccount | SameAccount | InFlight nat | IntegrityError

record merge_counts =
  mc_moved :: "(ustr \<times> nat) list"
  mc_dropped :: "(ustr \<times> nat) list"

definition note_count :: "ustr \<Rightarrow> nat \<Rightarrow> (ustr \<times> nat) list \<Rightarrow> (ustr \<times> nat) list" where
  "note_count t n d = (if n = 0 then d else dict_set d t n)"

definition session_table :: ustr where "session_table = lit ''user_sessions''"

fun absorb_tables ::
  "table_spec list \<Rightarrow> json \<Rightarrow> json \<Rightarrow> (table_spec \<times> ustr) list \<Rightarrow> tables \<times> merge_counts
     \<Rightarrow> merge_error + (tables \<times> merge_counts)" where
  "absorb_tables schema keep absorb [] (st, m) = Inr (st, m)"
| "absorb_tables schema keep absorb ((s, c) # cs) (st, m) =
     (if tb_name s = session_table then absorb_tables schema keep absorb cs (st, m)
      else (case drop_colliding_rows schema s c keep absorb (unique_keys_involving s c) (st, 0) of None \<Rightarrow> Inl IntegrityError
        | Some (st1, dropped) \<Rightarrow>
            (let rows = map (repoint c keep absorb) (rows_of st1 (tb_name s));
                 moved = length (filter (\<lambda>r. jget r c = absorb) (rows_of st1 (tb_name s)))
             in if \<not> unique_ok s rows then Inl IntegrityError
                else absorb_tables schema keep absorb cs (dict_set st1 (tb_name s) rows,
                  \<lparr>mc_moved = note_count (tb_name s) moved (mc_moved m), mc_dropped = note_count (tb_name s) dropped (mc_dropped m)\<rparr>))))"

section \<open>Paths\<close>

definition ends_path :: "ustr \<Rightarrow> bool" where
  "ends_path n \<longleftrightarrow> starts_with (rev (lit ''_path'')) (rev n)"

definition path_columns :: "table_spec \<Rightarrow> ustr list" where
  "path_columns s = filter (\<lambda>n. n = lit ''artifact_dir'' \<or> ends_path n) (tb_columns s)"

definition user_prefix :: "ustr \<Rightarrow> ustr \<Rightarrow> ustr" where
  "user_prefix base h = base @ 47 # h @ [47]"

definition repath :: "ustr \<Rightarrow> ustr \<Rightarrow> json \<Rightarrow> json" where
  "repath old_prefix new_prefix v = (case v of
     JStr p \<Rightarrow> JStr (if starts_with old_prefix p then new_prefix @ drop (length old_prefix) p else p) | _ \<Rightarrow> v)"

definition under :: "ustr \<Rightarrow> json \<Rightarrow> bool" where
  "under prefix v = (case v of JStr p \<Rightarrow> starts_with prefix p | _ \<Rightarrow> False)"

definition repath_row :: "ustr list \<Rightarrow> ustr \<Rightarrow> ustr \<Rightarrow> row \<Rightarrow> row" where
  "repath_row cols old_prefix new_prefix r = map (\<lambda>(c, v). (c, if c \<in> set cols then repath old_prefix new_prefix v else v)) r"

fun rewrite_artifact_paths ::
  "ustr \<Rightarrow> ustr \<Rightarrow> json \<Rightarrow> (table_spec \<times> ustr) list \<Rightarrow> tables \<times> (ustr \<times> nat) list \<Rightarrow> tables \<times> (ustr \<times> nat) list" where
  "rewrite_artifact_paths old_prefix new_prefix owner [] (st, d) = (st, d)"
| "rewrite_artifact_paths old_prefix new_prefix owner ((s, c) # cs) (st, d) =
     (let cols = path_columns s; rows = rows_of st (tb_name s);
          hit = (\<lambda>r. jget r c = owner \<and> list_ex (\<lambda>p. under old_prefix (jget r p)) cols)
      in if cols = [] then rewrite_artifact_paths old_prefix new_prefix owner cs (st, d)
         else rewrite_artifact_paths old_prefix new_prefix owner cs
           (dict_set st (tb_name s) (map (\<lambda>r. if hit r then repath_row cols old_prefix new_prefix r else r) rows),
            note_count (tb_name s) (length (filter hit rows)) d))"

section \<open>The merge\<close>

record account_db =
  ac_users :: "(json \<times> ustr) list"
  ac_tables :: tables

record merge_report =
  mg_kept :: json
  mg_absorbed :: "json option"
  mg_counts :: merge_counts
  mg_sessions :: nat
  mg_paths :: "(ustr \<times> nat) list"
  mg_move :: "(ustr \<times> ustr) option"

definition terminal_statuses :: "json list" where
  "terminal_statuses = map JStr [lit ''completed'', lit ''archived'', lit ''failed'', lit ''canceled'']"

definition in_flight :: "json list \<Rightarrow> tables \<Rightarrow> nat" where
  "in_flight owners st = length (filter (\<lambda>r. jget r (lit ''user_id'') \<in> set owners
     \<and> jget r (lit ''status'') \<notin> set terminal_statuses) (rows_of st (lit ''tasks'')))"

definition revoke_sessions :: "json list \<Rightarrow> tables \<Rightarrow> tables \<times> nat" where
  "revoke_sessions owners st =
     (let rows = rows_of st session_table; mine = (\<lambda>r. jget r (lit ''user_id'') \<in> set owners)
      in (dict_set st session_table (filter (\<lambda>r. \<not> mine r) rows), length (filter mine rows)))"

text \<open>Deleting a user deletes what references it.\<close>

definition cascade_user :: "(table_spec \<times> ustr) list \<Rightarrow> json \<Rightarrow> tables \<Rightarrow> tables" where
  "cascade_user cols i st = foldl (\<lambda>st (s, c). dict_set st (tb_name s)
     (filter (\<lambda>r. jget r c \<noteq> i) (rows_of st (tb_name s)))) st cols"

definition find_user :: "account_db \<Rightarrow> ustr \<Rightarrow> json option" where
  "find_user db name = map_option fst (find (\<lambda>p. snd p = name) (ac_users db))"

definition rename_user :: "json \<Rightarrow> ustr \<Rightarrow> (json \<times> ustr) list \<Rightarrow> (json \<times> ustr) list" where
  "rename_user i name us = map (\<lambda>p. if fst p = i then (i, name) else p) us"

definition absorb_account ::
  "table_spec list \<Rightarrow> json \<Rightarrow> json option \<Rightarrow> account_db \<Rightarrow> merge_error + (account_db \<times> merge_counts)" where
  "absorb_account schema keep absorbed db =
     (case absorbed of None \<Rightarrow> Inr (db, \<lparr>mc_moved = [], mc_dropped = []\<rparr>)
      | Some a \<Rightarrow> (case absorb_tables schema keep a (user_id_columns schema) (ac_tables db, \<lparr>mc_moved = [], mc_dropped = []\<rparr>) of
            Inl e \<Rightarrow> Inl e
          | Inr (st, m) \<Rightarrow> Inr (\<lparr>ac_users = filter (\<lambda>p. fst p \<noteq> a) (ac_users db),
               ac_tables = cascade_user (user_id_columns schema) a st\<rparr>, m)))"

definition merge_accounts ::
  "table_spec list \<Rightarrow> (ustr \<Rightarrow> ustr) \<Rightarrow> ustr option \<Rightarrow> ustr \<Rightarrow> ustr \<Rightarrow> account_db
     \<Rightarrow> merge_error + (account_db \<times> merge_report)" where
  "merge_accounts schema hash base old new db =
     (case find_user db old of None \<Rightarrow> Inl NoAccount
      | Some keep \<Rightarrow>
         (let absorbed = find_user db new; owners = keep # (case absorbed of None \<Rightarrow> [] | Some a \<Rightarrow> [a]) in
          if absorbed = Some keep then Inl SameAccount
          else if base \<noteq> None \<and> in_flight owners (ac_tables db) \<noteq> 0 then Inl (InFlight (in_flight owners (ac_tables db)))
          else (let (st, revoked) = revoke_sessions owners (ac_tables db) in
            case absorb_account schema keep absorbed (db\<lparr>ac_tables := st\<rparr>) of Inl e \<Rightarrow> Inl e
            | Inr (db1, m) \<Rightarrow>
               (let (st2, paths) = (case base of None \<Rightarrow> (ac_tables db1, [])
                      | Some r \<Rightarrow> rewrite_artifact_paths (user_prefix r (hash old)) (user_prefix r (hash new)) keep
                          (user_id_columns schema) (ac_tables db1, []))
                in Inr (\<lparr>ac_users = rename_user keep new (ac_users db1), ac_tables = st2\<rparr>,
                     \<lparr>mg_kept = keep, mg_absorbed = absorbed, mg_counts = m, mg_sessions = revoked, mg_paths = paths,
                      mg_move = map_option (\<lambda>r. (hash old, hash new)) base\<rparr>)))))"

section \<open>The move on disk\<close>

text \<open>The artifacts root: user directories and their children, a child being whatever stands under that
  name. The steps are those the function performs; a crash leaves a first part of them.\<close>

datatype move_step = RenameDir ustr ustr | RenameChild ustr ustr ustr | RemoveDir ustr

type_synonym 'f disk = "(ustr \<times> (ustr \<times> 'f) list) list"

definition children_of :: "'f disk \<Rightarrow> ustr \<Rightarrow> (ustr \<times> 'f) list" where
  "children_of fs d = (case dict_get fs d of None \<Rightarrow> [] | Some cs \<Rightarrow> cs)"

fun do_step :: "move_step \<Rightarrow> 'f disk \<Rightarrow> 'f disk" where
  "do_step (RenameDir a b) fs = dict_set (dict_del fs a) b (children_of fs a)"
| "do_step (RenameChild a b n) fs = (case dict_get (children_of fs a) n of None \<Rightarrow> fs
     | Some f \<Rightarrow> dict_set (dict_set fs a (dict_del (children_of fs a) n)) b (dict_set (children_of fs b) n f))"
| "do_step (RemoveDir a) fs = (if children_of fs a = [] then dict_del fs a else fs)"

text \<open>\<open>None\<close> is the refusal.\<close>

definition apply_artifact_move :: "ustr \<Rightarrow> ustr \<Rightarrow> 'f disk \<Rightarrow> move_step list option" where
  "apply_artifact_move source destination fs =
     (if dict_get fs source = None then Some []
      else if dict_get fs destination = None then Some [RenameDir source destination]
      else if list_ex (\<lambda>n. dict_get (children_of fs destination) n \<noteq> None) (map fst (children_of fs source)) then None
      else Some (map (RenameChild source destination) (map fst (children_of fs source)) @ [RemoveDir source]))"

definition do_steps :: "move_step list \<Rightarrow> 'f disk \<Rightarrow> 'f disk" where
  "do_steps es fs = foldl (\<lambda>fs e. do_step e fs) fs es"

text \<open>What a stored path leads to: the child of a user directory it names, and the rest of the path.\<close>

definition file_at :: "ustr \<Rightarrow> 'f disk \<Rightarrow> ustr \<Rightarrow> ('f \<times> ustr) option" where
  "file_at base fs p =
     (if \<not> starts_with (base @ [47]) p then None
      else (let q = drop (length base + 1) p; h = takeWhile (\<lambda>c. c \<noteq> 47) q; rest = drop (length h + 1) q;
                n = takeWhile (\<lambda>c. c \<noteq> 47) rest
            in map_option (\<lambda>f. (f, drop (length n) rest)) (dict_get (children_of fs h) n)))"

section \<open>Keys as pairs of rows that must not clash\<close>

definition clash :: "unique_key \<Rightarrow> row \<Rightarrow> row \<Rightarrow> bool" where
  "clash k a b \<longleftrightarrow> in_index (uk_where k) a \<and> in_index (uk_where k) b \<and> JNull \<notin> set (key_tuple (uk_cols k) a)
     \<and> key_tuple (uk_cols k) a = key_tuple (uk_cols k) b"

lemma key_ok_pairwise: "key_ok k rows \<longleftrightarrow> sorted_wrt (\<lambda>a b. \<not> clash k a b) rows"
  unfolding key_ok_def by (induction rows) (auto simp: clash_def)

lemma key_ok_mono:
  assumes "key_ok k rows" and "\<And>a b. clash k (f a) (f b) \<Longrightarrow> clash k a b"
  shows "key_ok k (map f (filter P rows))"
proof -
  have "sorted_wrt (\<lambda>a b. \<not> clash k a b) (filter P rows)"
    using assms(1) by (simp add: key_ok_pairwise sorted_wrt_filter)
  then have "sorted_wrt (\<lambda>a b. \<not> clash k (f a) (f b)) (filter P rows)"
    by (rule sorted_wrt_mono_rel [rotated]) (use assms(2) in blast)
  then show ?thesis by (simp add: key_ok_pairwise sorted_wrt_map)
qed

text \<open>A change that only turns cells into null.\<close>

definition only_nulls :: "(row \<Rightarrow> row) \<Rightarrow> bool" where
  "only_nulls f \<longleftrightarrow> (\<forall>r c. jget (f r) c = jget r c \<or> jget (f r) c = JNull)"

lemma clash_only_nulls:
  assumes "only_nulls f" and "clash k (f a) (f b)"
  shows "clash k a b"
proof -
  have cell: "jget (f r) c \<noteq> JNull \<Longrightarrow> jget (f r) c = jget r c" for r c
    using assms(1) by (auto simp: only_nulls_def)
  have idx: "in_index w (f r) \<Longrightarrow> in_index w r" for w r
    using cell by (cases w) auto
  have "JNull \<notin> set (key_tuple (uk_cols k) (f a))" "JNull \<notin> set (key_tuple (uk_cols k) (f b))"
    using assms(2) by (auto simp: clash_def)
  then have tup: "key_tuple (uk_cols k) (f a) = key_tuple (uk_cols k) a" "key_tuple (uk_cols k) (f b) = key_tuple (uk_cols k) b"
    by (auto simp: key_tuple_def intro!: cell) (metis image_eqI)+
  show ?thesis using assms(2) idx unfolding clash_def tup by blast
qed

lemma nulled_Cons: "nulled g (f # refs) r
    = nulled g refs (if rf_action f = SetNull \<and> (rf_table f, jget r (rf_col f)) \<in> set g then dict_set r (rf_col f) JNull else r)"
  by (simp add: nulled_def)

lemma nulled_Nil [simp]: "nulled g [] r = r"
  by (simp add: nulled_def)

lemma nulled_cell: "jget (nulled g refs r) c = jget r c \<or> jget (nulled g refs r) c = JNull"
proof (induction refs arbitrary: r)
  case Nil
  then show ?case by simp
next
  case (Cons f refs)
  show ?case using Cons.IH [of r] Cons.IH [of "dict_set r (rf_col f) JNull"]
    by (auto simp: nulled_Cons jget_set split: if_splits)
qed

lemma only_nulls_nulled: "only_nulls (nulled g refs)"
  using nulled_cell by (auto simp: only_nulls_def)

lemma nulled_keeps: "c \<notin> rf_col ` set refs \<Longrightarrow> jget (nulled g refs r) c = jget r c"
  by (induction refs arbitrary: r) (auto simp: nulled_Cons jget_set)

lemma nulled_id: "\<forall>f\<in>set refs. rf_action f = SetNull \<longrightarrow> rf_table f \<notin> fst ` set g \<Longrightarrow> nulled g refs r = r"
  by (induction refs arbitrary: r) (auto simp: nulled_Cons rev_image_eqI)

lemma rows_of_set [simp]: "rows_of (dict_set st n rows) m = (if m = n then rows else rows_of st m)"
  by (simp add: rows_of_def)

section \<open>What a deletion leaves\<close>

lemma delete_pass_rows:
  assumes "delete_pass ss n ids gone st = Some st'" and "distinct (map tb_name ss)"
    and "fst ` set gone \<subseteq> {n}" and "\<forall>s\<in>set ss. \<forall>f\<in>set (tb_refs s). rf_action f = Cascade \<longrightarrow> rf_table f \<noteq> n"
  shows "(\<forall>m. m \<notin> tb_name ` set ss \<longrightarrow> rows_of st' m = rows_of st m)
     \<and> (\<forall>s\<in>set ss. \<exists>g. fst ` set g \<subseteq> {n} \<and> rows_of st' (tb_name s)
          = map (nulled g (tb_refs s)) (filter (\<lambda>r. \<not> (tb_name s = n \<and> jget r (tb_pk s) \<in> set ids)) (rows_of st (tb_name s))))"
  using assms
proof (induction ss arbitrary: gone st)
  case Nil
  then show ?case by simp
next
  case (Cons s ss)
  let ?rows = "rows_of st (tb_name s)"
  let ?hit = "\<lambda>a r. list_ex (\<lambda>f. rf_action f = a \<and> (rf_table f, jget r (rf_col f)) \<in> set gone) (tb_refs s)"
  have nohit: "?hit Cascade r = False" for r
    using Cons.prems(3,4) by (force simp: list_ex_iff)
  let ?doomed = "\<lambda>r. tb_name s = n \<and> jget r (tb_pk s) \<in> set ids"
  let ?gone = "gone @ map (\<lambda>r. (tb_name s, jget r (tb_pk s))) (filter ?doomed ?rows)"
  let ?st = "dict_set st (tb_name s) (map (nulled gone (tb_refs s)) (filter (\<lambda>r. \<not> ?doomed r) ?rows))"
  have step: "delete_pass ss n ids ?gone ?st = Some st'"
    using Cons.prems(1) by (simp add: Let_def nohit split: if_splits)
  have g: "fst ` set ?gone \<subseteq> {n}" using Cons.prems(3) by auto
  have IH: "(\<forall>m. m \<notin> tb_name ` set ss \<longrightarrow> rows_of st' m = rows_of ?st m)
     \<and> (\<forall>s'\<in>set ss. \<exists>g. fst ` set g \<subseteq> {n} \<and> rows_of st' (tb_name s')
          = map (nulled g (tb_refs s')) (filter (\<lambda>r. \<not> (tb_name s' = n \<and> jget r (tb_pk s') \<in> set ids)) (rows_of ?st (tb_name s'))))"
    using Cons.IH [OF step _ g] Cons.prems(2,4) by simp
  have "tb_name s \<notin> tb_name ` set ss" using Cons.prems(2) by simp
  then have nm: "tb_name s' \<noteq> tb_name s" if "s' \<in> set ss" for s' using that by (metis image_eqI)
  show ?case
  proof (intro conjI allI impI ballI)
    fix m assume "m \<notin> tb_name ` set (s # ss)"
    then show "rows_of st' m = rows_of st m" using IH by simp
  next
    fix s' assume "s' \<in> set (s # ss)"
    then consider "s' = s" "tb_name s \<notin> tb_name ` set ss" | "s' \<in> set ss" using Cons.prems(2) by auto
    then show "\<exists>g. fst ` set g \<subseteq> {n} \<and> rows_of st' (tb_name s')
          = map (nulled g (tb_refs s')) (filter (\<lambda>r. \<not> (tb_name s' = n \<and> jget r (tb_pk s') \<in> set ids)) (rows_of st (tb_name s')))"
    proof cases
      case 1
      then show ?thesis using IH Cons.prems(3) by (intro exI [of _ gone]) simp
    next
      case 2
      then show ?thesis using IH nm [OF 2] by fastforce
    qed
  qed
qed

section \<open>Well-formed schemas and databases\<close>

definition droppable :: "table_spec \<Rightarrow> bool" where
  "droppable s = (case tb_user s of None \<Rightarrow> False | Some c \<Rightarrow> unique_keys_involving s c \<noteq> [])"

text \<open>No table with a unique key on its owner is referenced by a cascade or by itself, and neither the
  owner nor the primary key of a table is a reference, a path, or the column of a partial index.\<close>

definition spec_ok :: "table_spec list \<Rightarrow> table_spec \<Rightarrow> bool" where
  "spec_ok schema s \<longleftrightarrow> tb_pk s \<notin> rf_col ` set (tb_refs s) \<and> tb_pk s \<notin> set (path_columns s)
     \<and> (tb_name s = session_table \<longrightarrow> tb_user s = Some (lit ''user_id''))
     \<and> (\<forall>f\<in>set (tb_refs s). \<forall>t\<in>set schema. droppable t \<and> rf_table f = tb_name t \<longrightarrow> rf_action f \<noteq> Cascade \<and> t \<noteq> s)
     \<and> (\<forall>c. tb_user s = Some c \<longrightarrow> c \<notin> rf_col ` set (tb_refs s) \<and> c \<noteq> tb_pk s \<and> c \<notin> set (path_columns s)
          \<and> (\<forall>k\<in>set (tb_keys s). uk_where k \<noteq> IsTrue c \<and> uk_where k \<noteq> NotNull c
              \<and> (c \<in> set (uk_cols k) \<longrightarrow> (\<forall>f\<in>set (tb_refs s). rf_col f \<notin> set (uk_cols k)
                    \<and> uk_where k \<noteq> IsTrue (rf_col f) \<and> uk_where k \<noteq> NotNull (rf_col f)))))
     \<and> (\<forall>k\<in>set (tb_keys s). set (uk_cols k) \<inter> set (path_columns s) = {}
          \<and> (\<forall>c\<in>set (path_columns s). uk_where k \<noteq> IsTrue c \<and> uk_where k \<noteq> NotNull c))"

definition schema_ok :: "table_spec list \<Rightarrow> bool" where
  "schema_ok schema \<longleftrightarrow> distinct (map tb_name schema) \<and> list_all (spec_ok schema) schema"

definition table_ok :: "table_spec \<Rightarrow> row list \<Rightarrow> bool" where
  "table_ok s rows \<longleftrightarrow> unique_ok s rows \<and> distinct (map (\<lambda>r. jget r (tb_pk s)) rows)
     \<and> (\<forall>r\<in>set rows. jget r (tb_pk s) \<noteq> JNull)"

definition tables_ok :: "table_spec list \<Rightarrow> tables \<Rightarrow> bool" where
  "tables_ok schema st \<longleftrightarrow> list_all (\<lambda>s. table_ok s (rows_of st (tb_name s))) schema"

lemma table_ok_weaken:
  assumes "table_ok s rows" and "tb_pk s \<notin> rf_col ` set (tb_refs s)"
  shows "table_ok s (map (nulled g (tb_refs s)) (filter P rows))"
proof -
  have "unique_ok s (map (nulled g (tb_refs s)) (filter P rows))"
    using assms(1) key_ok_mono [OF _ clash_only_nulls [OF only_nulls_nulled]]
    by (auto simp: table_ok_def unique_ok_def list_all_iff)
  moreover have "distinct (map (\<lambda>r. jget r (tb_pk s)) (filter P rows))"
    using assms(1) by (auto simp: table_ok_def intro: distinct_map_filter)
  moreover have "\<forall>r\<in>set (filter P rows). jget r (tb_pk s) \<noteq> JNull" using assms(1) by (simp add: table_ok_def)
  ultimately show ?thesis using nulled_keeps [OF assms(2)] by (simp add: table_ok_def comp_def)
qed

text \<open>A row and what became of it: cells are kept, but a reference may be null.\<close>

definition same_cells :: "table_spec \<Rightarrow> row \<Rightarrow> row \<Rightarrow> bool" where
  "same_cells t r r' \<longleftrightarrow> (\<forall>x. jget r' x = jget r x \<or> (x \<in> rf_col ` set (tb_refs t) \<and> jget r' x = JNull))"

lemma same_cells_refl: "same_cells t r r"
  by (simp add: same_cells_def)

lemma same_cells_trans: "same_cells t a b \<Longrightarrow> same_cells t b c \<Longrightarrow> same_cells t a c"
  unfolding same_cells_def by metis

lemma same_cells_nulled: "same_cells t r (nulled g (tb_refs t) r)"
  using nulled_cell nulled_keeps by (metis same_cells_def)

lemma same_cells_keeps: "same_cells t r r' \<Longrightarrow> x \<notin> rf_col ` set (tb_refs t) \<Longrightarrow> jget r' x = jget r x"
  by (auto simp: same_cells_def)

lemma delete_rows_rows:
  assumes "delete_rows schema (tb_name t) ids st = Some st'" and "schema_ok schema" and "t \<in> set schema" and "droppable t"
    and s: "s \<in> set schema"
  shows "\<exists>g. fst ` set g \<subseteq> {tb_name t} \<and> rows_of st' (tb_name s) = map (nulled g (tb_refs s))
     (filter (\<lambda>r. \<not> (s = t \<and> jget r (tb_pk s) \<in> set ids)) (rows_of st (tb_name s)))"
proof -
  have ok: "distinct (map tb_name schema)" "\<forall>s\<in>set schema. spec_ok schema s"
    using assms(2) by (auto simp: schema_ok_def list_all_iff)
  have c: "\<forall>s\<in>set schema. \<forall>f\<in>set (tb_refs s). rf_action f = Cascade \<longrightarrow> rf_table f \<noteq> tb_name t"
    using ok(2) assms(3,4) unfolding spec_ok_def by blast
  have inj: "tb_name s = tb_name t \<longleftrightarrow> s = t" using ok(1) s assms(3) by (auto simp: distinct_map inj_on_def)
  have "delete_pass schema (tb_name t) ids [] st = Some st'" using assms(1) by (simp add: delete_rows_def)
  note rows = delete_pass_rows [OF this ok(1) _ c, THEN conjunct2, THEN bspec, OF _ s]
  show ?thesis using rows by (simp only: inj set_simps image_empty empty_subsetI simp_thms)
qed

text \<open>Rows of the table itself are only filtered.\<close>

lemma nulled_self:
  assumes "schema_ok schema" and "t \<in> set schema" and "droppable t" and "fst ` set g \<subseteq> {tb_name t}"
  shows "nulled g (tb_refs t) r = r"
proof (rule nulled_id)
  have "spec_ok schema t" using assms(1,2) by (auto simp: schema_ok_def list_all_iff)
  then have "\<forall>f\<in>set (tb_refs t). rf_table f \<noteq> tb_name t" unfolding spec_ok_def using assms(2,3) by blast
  then show "\<forall>f\<in>set (tb_refs t). rf_action f = SetNull \<longrightarrow> rf_table f \<notin> fst ` set g" using assms(4) by blast
qed

text \<open>A table that references none whose rows may be dropped, or only by restricting, is not touched by a
  drop.\<close>

definition settled :: "table_spec list \<Rightarrow> table_spec \<Rightarrow> bool" where
  "settled schema s \<longleftrightarrow> (\<forall>f\<in>set (tb_refs s). \<forall>t\<in>set schema. rf_action f = SetNull \<longrightarrow> droppable t \<longrightarrow> rf_table f \<noteq> tb_name t)"

lemma nulled_settled:
  assumes "settled schema s" and "t \<in> set schema" and "droppable t" and "fst ` set g \<subseteq> {tb_name t}"
  shows "nulled g (tb_refs s) r = r"
  using assms by (intro nulled_id) (fastforce simp: settled_def)

section \<open>Dropping and moving\<close>

definition collides_by :: "ustr \<Rightarrow> json \<Rightarrow> json \<Rightarrow> (ustr list \<times> key_where) list \<Rightarrow> row list \<Rightarrow> row \<Rightarrow> bool" where
  "collides_by c keep absorb ks rows r \<longleftrightarrow> jget r c = absorb
     \<and> list_ex (\<lambda>(others, w). in_index w r \<and> list_ex (\<lambda>x. jget x c = keep \<and> in_index w x
          \<and> key_tuple others x = key_tuple others r) rows) ks"

lemma in_set_map: "a \<in> set (map f xs) \<longleftrightarrow> (\<exists>x\<in>set xs. f x = a)"
  by auto

lemma doomed_iff:
  assumes "distinct (map (\<lambda>r. jget r (tb_pk s)) rows)" and "r \<in> set rows"
  shows "jget r (tb_pk s) \<in> set (doomed_ids s c keep absorb others w rows) \<longleftrightarrow> collides_by c keep absorb [(others, w)] rows r"
proof -
  have inj: "x = r" if "x \<in> set rows" "jget x (tb_pk s) = jget r (tb_pk s)" for x
    using assms that by (auto simp: distinct_map dest: inj_onD)
  let ?P = "collides_by c keep absorb [(others, w)] rows"
  have "set (doomed_ids s c keep absorb others w rows) = (\<lambda>r. jget r (tb_pk s)) ` {x \<in> set rows. ?P x}"
  proof -
    have "set (filter (\<lambda>r. key_tuple others r \<in> set (map (key_tuple others) (owned c keep w rows))) (owned c absorb w rows))
        = {x \<in> set rows. ?P x}"
      by (simp add: owned_def collides_by_def list_ex_iff in_set_map Bex_def conj_ac del: set_map)
    then show ?thesis by (simp only: doomed_ids_def set_map)
  qed
  then have "jget r (tb_pk s) \<in> set (doomed_ids s c keep absorb others w rows)
      \<longleftrightarrow> (\<exists>x\<in>set rows. ?P x \<and> jget x (tb_pk s) = jget r (tb_pk s))"
    by (simp add: image_iff eq_commute) blast
  then show ?thesis using assms(2) inj by metis
qed

lemma drop_effect:
  assumes "drop_colliding_rows schema s c keep absorb ks (st, n) = Some (st', n')"
    and "schema_ok schema" and "s \<in> set schema" and "droppable s" and "tables_ok schema st" and "keep \<noteq> absorb"
  shows "rows_of st' (tb_name s) = filter (\<lambda>r. \<not> collides_by c keep absorb ks (rows_of st (tb_name s)) r) (rows_of st (tb_name s))
    \<and> tables_ok schema st'
    \<and> (\<forall>t\<in>set schema. t \<noteq> s \<longrightarrow> settled schema t \<longrightarrow> rows_of st' (tb_name t) = rows_of st (tb_name t))
    \<and> (\<forall>t\<in>set schema. \<forall>r'\<in>set (rows_of st' (tb_name t)). \<exists>r\<in>set (rows_of st (tb_name t)).
         same_cells t r r')"
  using assms(1,5)
proof (induction ks arbitrary: st n)
  case Nil
  then show ?case by (auto simp: collides_by_def intro: same_cells_refl)
next
  case (Cons k ks)
  obtain others w where k: "k = (others, w)" by (cases k)
  let ?rows = "rows_of st (tb_name s)"
  let ?ids = "doomed_ids s c keep absorb others w ?rows"
  have pk: "distinct (map (\<lambda>r. jget r (tb_pk s)) ?rows)"
    using Cons.prems(2) assms(3) by (auto simp: tables_ok_def table_ok_def list_all_iff)
  have spec: "spec_ok schema t" if "t \<in> set schema" for t using assms(2) that by (auto simp: schema_ok_def list_all_iff)
  let ?C = "\<lambda>ks r. collides_by c keep absorb ks ?rows r"
  show ?case
  proof (cases "?ids = []")
    case True
    have none: "\<not> ?C [(others, w)] r" if "r \<in> set ?rows" for r
      using doomed_iff [OF pk that, of c keep absorb others w] True by simp
    then have "filter (\<lambda>r. \<not> ?C ks r) ?rows = filter (\<lambda>r. \<not> ?C (k # ks) r) ?rows"
      by (intro filter_cong refl) (auto simp: collides_by_def k)
    then show ?thesis using Cons.IH [OF _ Cons.prems(2), of n] Cons.prems(1) True k by simp
  next
    case False
    then obtain st1 where d: "delete_rows schema (tb_name s) ?ids st = Some st1"
      and rest: "drop_colliding_rows schema s c keep absorb ks (st1, n + length ?ids) = Some (st', n')"
      using Cons.prems(1) k by (auto simp: Let_def split: option.splits)
    note dr = delete_rows_rows [OF d assms(2,3,4)]
    have self: "rows_of st1 (tb_name s) = filter (\<lambda>r. \<not> ?C [(others, w)] r) ?rows"
    proof -
      obtain g where g: "fst ` set g \<subseteq> {tb_name s}"
        "rows_of st1 (tb_name s) = map (nulled g (tb_refs s)) (filter (\<lambda>r. jget r (tb_pk s) \<notin> set ?ids) ?rows)"
        using dr [OF assms(3)] by auto
      have "filter (\<lambda>r. jget r (tb_pk s) \<notin> set ?ids) ?rows = filter (\<lambda>r. \<not> ?C [(others, w)] r) ?rows"
        by (intro filter_cong refl) (simp add: doomed_iff [OF pk])
      then show ?thesis using g(2) nulled_self [OF assms(2,3,4) g(1)] by (simp add: map_idI)
    qed
    have ok1: "tables_ok schema st1"
      unfolding tables_ok_def list_all_iff
    proof
      fix t assume t: "t \<in> set schema"
      then have "table_ok t (rows_of st (tb_name t))" using Cons.prems(2) by (auto simp: tables_ok_def list_all_iff)
      then show "table_ok t (rows_of st1 (tb_name t))"
        using dr [OF t] table_ok_weaken spec [OF t] unfolding spec_ok_def by metis
    qed
    have other: "rows_of st1 (tb_name t) = rows_of st (tb_name t)" if "t \<in> set schema" "t \<noteq> s" "settled schema t" for t
      using dr [OF that(1)] nulled_settled [OF that(3) assms(3,4)] that(2) by (auto simp: map_idI)
    have cells: "\<exists>r\<in>set (rows_of st (tb_name t)). same_cells t r r'"
      if "t \<in> set schema" "r' \<in> set (rows_of st1 (tb_name t))" for t r'
      using dr [OF that(1)] that(2) same_cells_nulled by fastforce
    have same: "collides_by c keep absorb ks (filter (\<lambda>r. \<not> ?C [(others, w)] r) ?rows) r = ?C ks r" for r
      using assms(6) by (auto simp: collides_by_def list_ex_iff)
    note IH = Cons.IH [OF rest ok1]
    have "rows_of st' (tb_name s) = filter (\<lambda>r. \<not> ?C (k # ks) r) ?rows"
      using IH by (simp add: self same) (auto simp: collides_by_def k intro!: filter_cong)
    moreover have "\<exists>r\<in>set (rows_of st (tb_name t)). same_cells t r r'"
      if "t \<in> set schema" "r' \<in> set (rows_of st' (tb_name t))" for t r'
      using IH that cells [OF that(1)] same_cells_trans by metis
    ultimately show ?thesis using IH other by auto
  qed
qed

definition absorbed_rows :: "table_spec \<Rightarrow> ustr \<Rightarrow> json \<Rightarrow> json \<Rightarrow> row list \<Rightarrow> row list" where
  "absorbed_rows s c keep absorb rows = map (repoint c keep absorb)
     (filter (\<lambda>r. \<not> collides_by c keep absorb (unique_keys_involving s c) rows r) rows)"

lemma repoint_cell: "x \<noteq> c \<Longrightarrow> jget (repoint c keep absorb r) x = jget r x"
  by (simp add: repoint_def jget_set)

lemma repoint_owner: "jget (repoint c keep absorb r) c = (if jget r c = absorb then keep else jget r c)"
  by (simp add: repoint_def jget_set)

lemma in_index_repoint: "w \<noteq> IsTrue c \<Longrightarrow> w \<noteq> NotNull c \<Longrightarrow> in_index w (repoint c keep absorb r) = in_index w r"
  by (cases w) (auto simp: repoint_cell)

lemma key_tuple_cong: "(\<And>x. x \<in> set cols \<Longrightarrow> jget a x = jget b x) \<Longrightarrow> key_tuple cols a = key_tuple cols b"
  by (simp add: key_tuple_def)

lemma key_tuple_eq_iff: "key_tuple cols a = key_tuple cols b \<longleftrightarrow> (\<forall>x\<in>set cols. jget a x = jget b x)"
  by (auto simp: key_tuple_def)

text \<open>Once no absorbed row collides, giving all of them to the kept account breaks no unique key.\<close>

lemma clash_repoint:
  assumes "clash k (repoint c keep absorb a) (repoint c keep absorb b)"
    and "uk_where k \<noteq> IsTrue c" and "uk_where k \<noteq> NotNull c" and "k \<in> set (tb_keys s)"
    and "a \<in> set rows" and "b \<in> set rows"
    and "\<forall>r\<in>set rows. \<not> collides_by c keep absorb (unique_keys_involving s c) rows r" and "absorb \<noteq> JNull"
  shows "clash k a b"
proof -
  let ?f = "repoint c keep absorb"
  have idx: "in_index (uk_where k) a" "in_index (uk_where k) b"
    using assms(1-3) by (auto simp: clash_def in_index_repoint)
  have eq: "jget (?f a) x = jget (?f b) x" if "x \<in> set (uk_cols k)" for x
    using assms(1) that by (auto simp: clash_def key_tuple_eq_iff)
  have nn: "jget (?f a) x \<noteq> JNull" if "x \<in> set (uk_cols k)" for x
    using assms(1) that by (auto simp: clash_def key_tuple_def) (metis image_eqI)
  have other: "jget a x = jget b x \<and> jget a x \<noteq> JNull" if "x \<in> set (uk_cols k)" "x \<noteq> c" for x
    using eq [OF that(1)] nn [OF that(1)] that(2) by (simp add: repoint_cell)
  have own: "jget a c = jget b c \<and> jget a c \<noteq> JNull" if c: "c \<in> set (uk_cols k)"
  proof -
    let ?others = "filter (\<lambda>x. x \<noteq> c) (uk_cols k)"
    have mem: "(?others, uk_where k) \<in> set (unique_keys_involving s c)"
      using assms(4) c by (auto simp: unique_keys_involving_def)
    have same: "key_tuple ?others a = key_tuple ?others b" using other by (simp add: key_tuple_eq_iff)
    have no: "\<not> (jget r c = absorb \<and> in_index (uk_where k) r \<and> x \<in> set rows \<and> jget x c = keep
         \<and> in_index (uk_where k) x \<and> key_tuple ?others x = key_tuple ?others r)" if "r \<in> set rows" for r x
      using assms(7) that mem by (fastforce simp: collides_by_def list_ex_iff)
    have "\<not> (jget a c = absorb \<and> jget b c = keep)" "\<not> (jget b c = absorb \<and> jget a c = keep)"
      using no [OF assms(5), of b] no [OF assms(6), of a] idx same assms(5,6) by auto
    then show ?thesis using eq [OF c] nn [OF c] assms(8) by (auto simp: repoint_owner split: if_splits)
  qed
  have "\<forall>x\<in>set (uk_cols k). jget a x = jget b x \<and> jget a x \<noteq> JNull" using other own by metis
  then show ?thesis using idx by (auto simp: clash_def key_tuple_eq_iff) (auto simp: key_tuple_def)
qed

lemma move_ok:
  assumes "table_ok s rows" and "spec_ok schema s" and "tb_user s = Some c"
    and "\<forall>r\<in>set rows. \<not> collides_by c keep absorb (unique_keys_involving s c) rows r" and "absorb \<noteq> JNull"
  shows "table_ok s (map (repoint c keep absorb) rows)"
proof -
  have pk: "tb_pk s \<noteq> c" and w: "\<forall>k\<in>set (tb_keys s). uk_where k \<noteq> IsTrue c \<and> uk_where k \<noteq> NotNull c"
    using assms(2,3) by (auto simp: spec_ok_def)
  have "key_ok k (map (repoint c keep absorb) rows)" if k: "k \<in> set (tb_keys s)" for k
  proof -
    have "sorted_wrt (\<lambda>a b. \<not> clash k a b) rows"
      using assms(1) k by (auto simp: table_ok_def unique_ok_def list_all_iff key_ok_pairwise)
    then have "sorted_wrt (\<lambda>a b. \<not> clash k (repoint c keep absorb a) (repoint c keep absorb b)) rows"
      using clash_repoint [OF _ _ _ k _ _ assms(4,5)] w k by (elim sorted_wrt_mono_rel [rotated]) blast
    then show ?thesis by (simp add: key_ok_pairwise sorted_wrt_map)
  qed
  then show ?thesis using assms(1) pk by (simp add: table_ok_def unique_ok_def list_all_iff repoint_cell comp_def)
qed

section \<open>All tables\<close>

text \<open>A table without a key on its owner drops nothing.\<close>

lemma drop_none: "\<not> droppable s \<Longrightarrow> tb_user s = Some c \<Longrightarrow> unique_keys_involving s c = []"
  by (simp add: droppable_def)

text \<open>What one round of the loop leaves behind, dropped or not.\<close>

lemma drop_effect_any:
  assumes "drop_colliding_rows schema s c keep absorb (unique_keys_involving s c) (st, 0) = Some (st', n')"
    and "schema_ok schema" and "s \<in> set schema" and "tb_user s = Some c" and "tables_ok schema st" and "keep \<noteq> absorb"
  shows "rows_of st' (tb_name s) = filter (\<lambda>r. \<not> collides_by c keep absorb (unique_keys_involving s c) (rows_of st (tb_name s)) r)
        (rows_of st (tb_name s))
    \<and> tables_ok schema st'
    \<and> (\<forall>t\<in>set schema. t \<noteq> s \<longrightarrow> settled schema t \<longrightarrow> rows_of st' (tb_name t) = rows_of st (tb_name t))
    \<and> (\<forall>t\<in>set schema. \<forall>r'\<in>set (rows_of st' (tb_name t)). \<exists>r\<in>set (rows_of st (tb_name t)).
         same_cells t r r')"
proof (cases "droppable s")
  case True
  show ?thesis by (rule drop_effect [OF assms(1-3) True assms(5,6)])
next
  case False
  then show ?thesis using assms(1,4,5) drop_none [OF False assms(4)] by (auto simp: collides_by_def intro: same_cells_refl)
qed

lemma not_colliding_filtered:
  assumes "keep \<noteq> absorb" and "r \<in> set (filter (\<lambda>r. \<not> collides_by c keep absorb ks rows r) rows)"
  shows "\<not> collides_by c keep absorb ks (filter (\<lambda>r. \<not> collides_by c keep absorb ks rows r) rows) r"
  using assms by (force simp: collides_by_def list_ex_iff)

lemma absorb_round:
  assumes "drop_colliding_rows schema s c keep absorb (unique_keys_involving s c) (st, 0) = Some (st1, n)"
    and "schema_ok schema" and "s \<in> set schema" and "tb_user s = Some c" and "tables_ok schema st"
    and "keep \<noteq> absorb" and "absorb \<noteq> JNull"
  defines "rows \<equiv> map (repoint c keep absorb) (rows_of st1 (tb_name s))"
  shows "unique_ok s rows \<and> tables_ok schema (dict_set st1 (tb_name s) rows)
     \<and> rows = absorbed_rows s c keep absorb (rows_of st (tb_name s))"
proof -
  note d = drop_effect_any [OF assms(1-6)]
  have spec: "spec_ok schema s" using assms(2,3) by (auto simp: schema_ok_def list_all_iff)
  have "table_ok s (rows_of st1 (tb_name s))" using d assms(3) by (auto simp: tables_ok_def list_all_iff)
  then have t: "table_ok s rows"
    unfolding rows_def
    by (rule move_ok [OF _ spec assms(4) _ assms(7)]) (use d not_colliding_filtered [OF assms(6)] in auto)
  have "tb_name t = tb_name s \<longleftrightarrow> t = s" if "t \<in> set schema" for t
    using assms(2,3) that by (auto simp: schema_ok_def distinct_map inj_on_def)
  then have "tables_ok schema (dict_set st1 (tb_name s) rows)"
    using d t by (auto simp: tables_ok_def list_all_iff)
  then show ?thesis using t d by (simp add: table_ok_def rows_def absorbed_rows_def)
qed

definition round_of :: "table_spec list \<Rightarrow> json \<Rightarrow> json \<Rightarrow> table_spec \<times> ustr \<Rightarrow> tables \<Rightarrow> (tables \<times> nat) option" where
  "round_of schema keep absorb p st = (case p of (s, c) \<Rightarrow>
     map_option (\<lambda>(st1, n). (dict_set st1 (tb_name s) (map (repoint c keep absorb) (rows_of st1 (tb_name s))), n))
       (drop_colliding_rows schema s c keep absorb (unique_keys_involving s c) (st, 0)))"

lemma user_columns_mem: "(s, c) \<in> set (user_id_columns schema) \<longleftrightarrow> s \<in> set schema \<and> tb_user s = Some c"
  by (force simp: user_id_columns_def List.map_filter_def)

text \<open>What a round does to each table.\<close>

lemma round_effect:
  assumes "round_of schema keep absorb (s, c) st = Some (st', n)" and "schema_ok schema" and "s \<in> set schema"
    and "tb_user s = Some c" and "tables_ok schema st" and "keep \<noteq> absorb" and "absorb \<noteq> JNull"
  shows "unique_ok s (rows_of st' (tb_name s)) \<and> tables_ok schema st'
     \<and> rows_of st' (tb_name s) = absorbed_rows s c keep absorb (rows_of st (tb_name s))
     \<and> (\<forall>t\<in>set schema. t \<noteq> s \<longrightarrow> settled schema t \<longrightarrow> rows_of st' (tb_name t) = rows_of st (tb_name t))
     \<and> (\<forall>t\<in>set schema. t \<noteq> s \<longrightarrow> (\<forall>r'\<in>set (rows_of st' (tb_name t)). \<exists>r\<in>set (rows_of st (tb_name t)). same_cells t r r'))"
proof -
  obtain st1 where d: "drop_colliding_rows schema s c keep absorb (unique_keys_involving s c) (st, 0) = Some (st1, n)"
    and st': "st' = dict_set st1 (tb_name s) (map (repoint c keep absorb) (rows_of st1 (tb_name s)))"
    using assms(1) by (auto simp: round_of_def)
  have nm: "tb_name t \<noteq> tb_name s" if "t \<in> set schema" "t \<noteq> s" for t
    using assms(2,3) that by (auto simp: schema_ok_def distinct_map inj_on_def)
  note a = absorb_round [OF d assms(2-7)] and e = drop_effect_any [OF d assms(2-6)]
  have "rows_of st' (tb_name s) = map (repoint c keep absorb) (rows_of st1 (tb_name s))" by (simp add: st')
  moreover have "rows_of st' (tb_name t) = rows_of st1 (tb_name t)" if "t \<in> set schema" "t \<noteq> s" for t
    using nm [OF that] by (simp add: st')
  moreover have "tables_ok schema st'" using a unfolding st' by blast
  ultimately show ?thesis using a e by metis
qed

lemma absorb_tables_Cons:
  assumes "schema_ok schema" and "s \<in> set schema" and "tb_user s = Some c" and "tables_ok schema st"
    and "keep \<noteq> absorb" and "absorb \<noteq> JNull" and "tb_name s \<noteq> session_table"
  shows "\<exists>m'. absorb_tables schema keep absorb ((s, c) # cs) (st, m)
     = (case round_of schema keep absorb (s, c) st of None \<Rightarrow> Inl IntegrityError
        | Some (st', n) \<Rightarrow> absorb_tables schema keep absorb cs (st', m'))"
proof (cases "drop_colliding_rows schema s c keep absorb (unique_keys_involving s c) (st, 0)")
  case None
  then show ?thesis using assms(7) by (simp add: round_of_def)
next
  case (Some p)
  obtain st1 n where p: "p = (st1, n)" by (cases p)
  have "unique_ok s (map (repoint c keep absorb) (rows_of st1 (tb_name s)))"
    using absorb_round [OF Some [unfolded p] assms(1-6)] by blast
  then show ?thesis using assms(7) Some p by (auto simp: round_of_def Let_def)
qed

lemma repointed_owner: "keep \<noteq> absorb \<Longrightarrow> r \<in> set (absorbed_rows s c keep absorb rows) \<Longrightarrow> jget r c \<noteq> absorb"
  by (auto simp: absorbed_rows_def repoint_owner split: if_splits)

lemma absorb_tables_effect:
  assumes "absorb_tables schema keep absorb cs (st, m) = Inr (st', m')" and "schema_ok schema" and "tables_ok schema st"
    and "keep \<noteq> absorb" and "absorb \<noteq> JNull" and "\<forall>(s, c)\<in>set cs. s \<in> set schema \<and> tb_user s = Some c"
    and "distinct (map fst cs)"
  shows "tables_ok schema st'
     \<and> (\<forall>t\<in>set schema. settled schema t \<longrightarrow> tb_name t = session_table \<or> t \<notin> fst ` set cs
          \<longrightarrow> rows_of st' (tb_name t) = rows_of st (tb_name t))
     \<and> (\<forall>(s, c)\<in>set cs. tb_name s \<noteq> session_table \<longrightarrow> (\<forall>r\<in>set (rows_of st' (tb_name s)). jget r c \<noteq> absorb)
          \<and> (settled schema s \<longrightarrow> rows_of st' (tb_name s) = absorbed_rows s c keep absorb (rows_of st (tb_name s))))
     \<and> (\<forall>t\<in>set schema. tb_name t = session_table \<or> t \<notin> fst ` set cs \<longrightarrow>
          (\<forall>r'\<in>set (rows_of st' (tb_name t)). \<exists>r\<in>set (rows_of st (tb_name t)). same_cells t r r'))"
  using assms(1,3,6,7)
proof (induction cs arbitrary: st m)
  case Nil
  then show ?case by (auto intro: same_cells_refl)
next
  case (Cons p cs)
  obtain s c where p: "p = (s, c)" by (cases p)
  have s: "s \<in> set schema" "tb_user s = Some c" "s \<notin> fst ` set cs" using Cons.prems(3,4) p by auto
  have inj: "tb_name t = tb_name s \<longleftrightarrow> t = s" if "t \<in> set schema" for t
    using assms(2) s(1) that by (auto simp: schema_ok_def distinct_map inj_on_def)
  have rest: "\<forall>(s, c)\<in>set cs. s \<in> set schema \<and> tb_user s = Some c" "distinct (map fst cs)"
    using Cons.prems(3,4) p by auto
  show ?case
  proof (cases "tb_name s = session_table")
    case True
    then have "absorb_tables schema keep absorb cs (st, m) = Inr (st', m')" using Cons.prems(1) p by simp
    from Cons.IH [OF this Cons.prems(2) rest] show ?thesis using True s inj by (auto simp: p)
  next
    case False
    obtain m1 where "absorb_tables schema keep absorb ((s, c) # cs) (st, m)
     = (case round_of schema keep absorb (s, c) st of None \<Rightarrow> Inl IntegrityError
        | Some (st1, n) \<Rightarrow> absorb_tables schema keep absorb cs (st1, m1))"
      using absorb_tables_Cons [OF assms(2) s(1,2) Cons.prems(2) assms(4,5) False] by blast
    then obtain st1 n where r: "round_of schema keep absorb (s, c) st = Some (st1, n)"
      and a: "absorb_tables schema keep absorb cs (st1, m1) = Inr (st', m')"
      using Cons.prems(1) p by (auto split: option.splits)
    note e = round_effect [OF r assms(2) s(1,2) Cons.prems(2) assms(4,5)]
    have ok1: "tables_ok schema st1" using e by simp
    note IH = Cons.IH [OF a ok1 rest]
    have c: "c \<notin> rf_col ` set (tb_refs s)"
      using assms(2) s(1,2) by (auto simp: schema_ok_def list_all_iff spec_ok_def)
    have own: "\<forall>r\<in>set (rows_of st' (tb_name s)). jget r c \<noteq> absorb"
    proof
      fix r' assume "r' \<in> set (rows_of st' (tb_name s))"
      then obtain r where "r \<in> set (rows_of st1 (tb_name s))" "same_cells s r r'" using IH s(1,3) by blast
      then show "jget r' c \<noteq> absorb" using same_cells_keeps [OF _ c] repointed_owner [OF assms(4)] e by metis
    qed
    have here: "rows_of st' (tb_name s) = absorbed_rows s c keep absorb (rows_of st (tb_name s))" if "settled schema s"
      using IH e s(1,3) that by auto
    have later: "rows_of st1 (tb_name t) = rows_of st (tb_name t)" if "t \<in> set schema" "t \<noteq> s" "settled schema t" for t
      using e that by blast
    have others: "(\<forall>r\<in>set (rows_of st' (tb_name t)). jget r d \<noteq> absorb)
          \<and> (settled schema t \<longrightarrow> rows_of st' (tb_name t) = absorbed_rows t d keep absorb (rows_of st (tb_name t)))"
      if td: "(t, d) \<in> set cs" "tb_name t \<noteq> session_table" for t d
    proof -
      have "t \<in> set schema" "t \<noteq> s" using td rest(1) s(3) by force+
      then show ?thesis using IH td later by fastforce
    qed
    have cells: "\<exists>r\<in>set (rows_of st (tb_name t)). same_cells t r r'"
      if t: "t \<in> set schema" and n: "tb_name t = session_table \<or> t \<notin> fst ` set (p # cs)"
        and r': "r' \<in> set (rows_of st' (tb_name t))" for t r'
    proof -
      have "t \<noteq> s" using n False p by auto
      moreover have "tb_name t = session_table \<or> t \<notin> fst ` set cs" using n by auto
      then obtain r1 where "r1 \<in> set (rows_of st1 (tb_name t))" "same_cells t r1 r'" using IH t r' by blast
      ultimately show ?thesis using e t same_cells_trans by metis
    qed
    have keepers: "rows_of st' (tb_name t) = rows_of st (tb_name t)"
      if "t \<in> set schema" "settled schema t" "tb_name t = session_table \<or> t \<notin> fst ` set (p # cs)" for t
    proof -
      have "t \<noteq> s" "tb_name t = session_table \<or> t \<notin> fst ` set cs" using that(3) False p by auto
      moreover from this have "rows_of st' (tb_name t) = rows_of st1 (tb_name t)" using IH that(1,2) by blast
      ultimately show ?thesis using later that(1,2) by simp
    qed
    show ?thesis using IH own here others cells keepers by (auto simp: p)
  qed
qed

section \<open>When the merge fails\<close>

lemma delete_pass_None:
  assumes "delete_pass ss n ids gone st = None" and "distinct (map tb_name ss)" and "fst ` set gone \<subseteq> {n}"
    and "\<forall>s\<in>set ss. \<forall>f\<in>set (tb_refs s). rf_action f = Cascade \<longrightarrow> rf_table f \<noteq> n"
  shows "\<exists>s\<in>set ss. \<exists>f\<in>set (tb_refs s). \<exists>r\<in>set (rows_of st (tb_name s)).
     rf_action f = Restrict \<and> rf_table f = n \<and> jget r (rf_col f) \<in> set ids \<union> snd ` set gone"
  using assms
proof (induction ss arbitrary: gone st)
  case Nil
  then show ?case by simp
next
  case (Cons s ss)
  let ?rows = "rows_of st (tb_name s)"
  let ?hit = "\<lambda>a r. list_ex (\<lambda>f. rf_action f = a \<and> (rf_table f, jget r (rf_col f)) \<in> set gone) (tb_refs s)"
  have nohit: "?hit Cascade r = False" for r
    using Cons.prems(3,4) by (force simp: list_ex_iff)
  let ?doomed = "\<lambda>r. tb_name s = n \<and> jget r (tb_pk s) \<in> set ids"
  let ?gone = "gone @ map (\<lambda>r. (tb_name s, jget r (tb_pk s))) (filter ?doomed ?rows)"
  let ?st = "dict_set st (tb_name s) (map (nulled gone (tb_refs s)) (filter (\<lambda>r. \<not> ?doomed r) ?rows))"
  show ?case
  proof (cases "list_ex (?hit Restrict) ?rows")
    case True
    then obtain r f where rf: "r \<in> set ?rows" "f \<in> set (tb_refs s)" "rf_action f = Restrict"
      "(rf_table f, jget r (rf_col f)) \<in> set gone"
      by (auto simp: list_ex_iff)
    then have "rf_table f = n" "jget r (rf_col f) \<in> snd ` set gone" using Cons.prems(3) by force+
    then show ?thesis using rf by auto
  next
    case False
    then have step: "delete_pass ss n ids ?gone ?st = None"
      using Cons.prems(1) by (simp add: Let_def nohit)
    have g: "fst ` set ?gone \<subseteq> {n}" using Cons.prems(3) by auto
    obtain t f r where t: "t \<in> set ss" "f \<in> set (tb_refs t)" "r \<in> set (rows_of ?st (tb_name t))"
      "rf_action f = Restrict" "rf_table f = n" "jget r (rf_col f) \<in> set ids \<union> snd ` set ?gone"
      using Cons.IH [OF step _ g] Cons.prems(2,4) by auto
    have "tb_name s \<notin> tb_name ` set ss" using Cons.prems(2) by simp
    then have "tb_name t \<noteq> tb_name s" using t(1) by (metis image_eqI)
    then have "r \<in> set (rows_of st (tb_name t))" using t(3) by simp
    moreover have "jget r (rf_col f) \<in> set ids \<union> snd ` set gone" using t(6) by auto
    moreover have "t \<in> set (s # ss)" using t(1) by simp
    ultimately show ?thesis using t(2,4,5) by blast
  qed
qed

text \<open>A row that is to be dropped is the target of a restricting reference.\<close>

definition restricted :: "table_spec list \<Rightarrow> json \<Rightarrow> json \<Rightarrow> (table_spec \<times> ustr) list \<Rightarrow> tables \<Rightarrow> bool" where
  "restricted schema keep absorb cs st \<longleftrightarrow> (\<exists>t\<in>set schema. \<exists>f\<in>set (tb_refs t). \<exists>r\<in>set (rows_of st (tb_name t)).
     \<exists>(s, c)\<in>set cs. \<exists>d\<in>set (rows_of st (tb_name s)). rf_action f = Restrict \<and> rf_table f = tb_name s
       \<and> tb_name s \<noteq> session_table \<and> jget r (rf_col f) = jget d (tb_pk s)
       \<and> collides_by c keep absorb (unique_keys_involving s c) (rows_of st (tb_name s)) d)"

lemma collides_mono:
  "collides_by c keep absorb ks rows' d \<Longrightarrow> set rows' \<subseteq> set rows \<Longrightarrow> set ks \<subseteq> set ks' \<Longrightarrow> collides_by c keep absorb ks' rows d"
  unfolding collides_by_def list_ex_iff by blast

lemma drop_None:
  assumes "drop_colliding_rows schema s c keep absorb ks (st, n) = None" and "schema_ok schema" and "s \<in> set schema"
    and "droppable s" and "tables_ok schema st" and "keep \<noteq> absorb"
  shows "\<exists>t\<in>set schema. \<exists>f\<in>set (tb_refs t). \<exists>r\<in>set (rows_of st (tb_name t)). \<exists>d\<in>set (rows_of st (tb_name s)).
     rf_action f = Restrict \<and> rf_table f = tb_name s \<and> jget r (rf_col f) = jget d (tb_pk s)
     \<and> collides_by c keep absorb ks (rows_of st (tb_name s)) d"
  using assms(1,5)
proof (induction ks arbitrary: st n)
  case Nil
  then show ?case by simp
next
  case (Cons k ks)
  obtain others w where k: "k = (others, w)" by (cases k)
  let ?rows = "rows_of st (tb_name s)"
  let ?ids = "doomed_ids s c keep absorb others w ?rows"
  have pk: "distinct (map (\<lambda>r. jget r (tb_pk s)) ?rows)"
    using Cons.prems(2) assms(3) by (auto simp: tables_ok_def table_ok_def list_all_iff)
  consider "?ids = []" | "?ids \<noteq> []" "delete_rows schema (tb_name s) ?ids st = None"
    | st1 where "?ids \<noteq> []" "delete_rows schema (tb_name s) ?ids st = Some st1" by fastforce
  then show ?case
  proof cases
    case 1
    then have "drop_colliding_rows schema s c keep absorb ks (st, n) = None" using Cons.prems(1) k by simp
    from Cons.IH [OF this Cons.prems(2)] show ?thesis using collides_mono [of c keep absorb ks ?rows _ ?rows "k # ks"] by fastforce
  next
    case 2
    have c: "\<forall>t\<in>set schema. \<forall>f\<in>set (tb_refs t). rf_action f = Cascade \<longrightarrow> rf_table f \<noteq> tb_name s"
      using assms(2-4) unfolding schema_ok_def list_all_iff spec_ok_def by blast
    obtain t f r where t: "t \<in> set schema" "f \<in> set (tb_refs t)" "r \<in> set (rows_of st (tb_name t))"
      "rf_action f = Restrict" "rf_table f = tb_name s" "jget r (rf_col f) \<in> set ?ids"
      using delete_pass_None [OF 2(2) [unfolded delete_rows_def] _ _ c] assms(2) by (auto simp: schema_ok_def)
    then obtain d where "d \<in> set ?rows" "jget d (tb_pk s) = jget r (rf_col f)" by (auto simp: doomed_ids_def owned_def)
    moreover from this have "collides_by c keep absorb [(others, w)] ?rows d" using doomed_iff [OF pk] t(6) by metis
    then have "collides_by c keep absorb (k # ks) ?rows d" by (rule collides_mono) (simp_all add: k)
    ultimately show ?thesis using t by metis
  next
    case 3
    have one: "drop_colliding_rows schema s c keep absorb [k] (st, n) = Some (st1, n + length ?ids)" using 3 k by simp
    note e = drop_effect [OF one assms(2-4) Cons.prems(2) assms(6)]
    have "drop_colliding_rows schema s c keep absorb ks (st1, n + length ?ids) = None" using Cons.prems(1) 3 k by simp
    from Cons.IH [OF this] e obtain t f r' d where t: "t \<in> set schema" "f \<in> set (tb_refs t)"
      "r' \<in> set (rows_of st1 (tb_name t))" "d \<in> set (rows_of st1 (tb_name s))" "rf_action f = Restrict"
      "rf_table f = tb_name s" "jget r' (rf_col f) = jget d (tb_pk s)"
      "collides_by c keep absorb ks (rows_of st1 (tb_name s)) d" by blast
    have sub: "set (rows_of st1 (tb_name s)) \<subseteq> set ?rows" using e by auto
    obtain r where r: "r \<in> set (rows_of st (tb_name t))" "same_cells t r r'" using e t(1,3) by blast
    have "jget d (tb_pk s) \<noteq> JNull" using Cons.prems(2) assms(3) sub t(4) by (auto simp: tables_ok_def table_ok_def list_all_iff)
    then have "jget r (rf_col f) = jget d (tb_pk s)" using r(2) t(7) by (metis same_cells_def)
    moreover have "collides_by c keep absorb (k # ks) ?rows d" by (rule collides_mono [OF t(8) sub]) auto
    moreover have "d \<in> set ?rows" using sub t(4) by blast
    ultimately show ?thesis using t(1,2,5,6) r(1) by blast
  qed
qed

lemma in_index_cells: "same_cells t r r' \<Longrightarrow> \<forall>f\<in>set (tb_refs t). w \<noteq> IsTrue (rf_col f) \<and> w \<noteq> NotNull (rf_col f)
    \<Longrightarrow> in_index w r' = in_index w r"
  using same_cells_keeps [of t r r'] by (cases w) (simp_all add: image_iff)

lemma collides_pull:
  assumes "collides_by c keep absorb (unique_keys_involving s c) rows' d'" and "same_cells s d d'"
    and "\<forall>x'\<in>set rows'. \<exists>x\<in>set rows. same_cells s x x'" and "spec_ok schema s" and "tb_user s = Some c"
  shows "collides_by c keep absorb (unique_keys_involving s c) rows d"
proof -
  obtain others w x' where k: "(others, w) \<in> set (unique_keys_involving s c)" "in_index w d'" "x' \<in> set rows'"
    "jget x' c = keep" "in_index w x'" "key_tuple others x' = key_tuple others d'" and o: "jget d' c = absorb"
    using assms(1) by (auto simp: collides_by_def list_ex_iff)
  obtain x where x: "x \<in> set rows" "same_cells s x x'" using assms(3) k(3) by blast
  have c: "c \<notin> rf_col ` set (tb_refs s)" using assms(4,5) by (auto simp: spec_ok_def)
  have n: "\<forall>f\<in>set (tb_refs s). rf_col f \<notin> set others \<and> w \<noteq> IsTrue (rf_col f) \<and> w \<noteq> NotNull (rf_col f)"
    using k(1) assms(4,5) unfolding spec_ok_def unique_keys_involving_def by auto
  have tup: "key_tuple others y' = key_tuple others y" if "same_cells s y y'" for y y'
    using n by (intro key_tuple_cong same_cells_keeps [OF that]) blast
  have "in_index w d" "in_index w x" using k(2,5) n in_index_cells [OF assms(2), of w] in_index_cells [OF x(2), of w] by blast+
  moreover have "jget d c = absorb" "jget x c = keep"
    using o k(4) same_cells_keeps [OF assms(2) c] same_cells_keeps [OF x(2) c] by auto
  moreover have "key_tuple others x = key_tuple others d" using k(6) tup [OF assms(2)] tup [OF x(2)] by simp
  ultimately show ?thesis using k(1) x(1) by (force simp: collides_by_def list_ex_iff)
qed

lemma absorbed_row_source:
  "r' \<in> set (absorbed_rows s c keep absorb rows) \<Longrightarrow> \<exists>r\<in>set rows. \<forall>x. x \<noteq> c \<longrightarrow> jget r' x = jget r x"
  by (auto simp: absorbed_rows_def repoint_cell)

lemma restricted_pull:
  assumes "round_of schema keep absorb (s, c) st = Some (st1, n)" and "schema_ok schema" and "s \<in> set schema"
    and "tb_user s = Some c" and "tables_ok schema st" and "keep \<noteq> absorb" and "absorb \<noteq> JNull"
    and "restricted schema keep absorb cs st1" and "\<forall>(s, c)\<in>set cs. s \<in> set schema \<and> tb_user s = Some c"
    and "s \<notin> fst ` set cs"
  shows "restricted schema keep absorb ((s, c) # cs) st"
proof -
  note e = round_effect [OF assms(1-7)]
  obtain t f r' s2 c2 d' where t: "t \<in> set schema" "f \<in> set (tb_refs t)" "r' \<in> set (rows_of st1 (tb_name t))"
    "(s2, c2) \<in> set cs" "d' \<in> set (rows_of st1 (tb_name s2))" "rf_action f = Restrict" "rf_table f = tb_name s2"
    "tb_name s2 \<noteq> session_table" "jget r' (rf_col f) = jget d' (tb_pk s2)"
    "collides_by c2 keep absorb (unique_keys_involving s2 c2) (rows_of st1 (tb_name s2)) d'"
    using assms(8) unfolding restricted_def by blast
  have s2: "s2 \<in> set schema" "tb_user s2 = Some c2" "s2 \<noteq> s" using assms(9,10) t(4) by force+
  have spec: "spec_ok schema x" if "x \<in> set schema" for x using assms(2) that by (auto simp: schema_ok_def list_all_iff)
  have backward: "\<forall>x'\<in>set (rows_of st1 (tb_name s2)). \<exists>x\<in>set (rows_of st (tb_name s2)). same_cells s2 x x'"
    using e s2(1,3) by blast
  then obtain d where d: "d \<in> set (rows_of st (tb_name s2))" "same_cells s2 d d'" using t(5) by blast
  have coll: "collides_by c2 keep absorb (unique_keys_involving s2 c2) (rows_of st (tb_name s2)) d"
    by (rule collides_pull [OF t(10) d(2) backward spec [OF s2(1)] s2(2)])
  have pk: "jget d' (tb_pk s2) = jget d (tb_pk s2)"
    using same_cells_keeps [OF d(2)] spec [OF s2(1)] by (simp add: spec_ok_def)
  have nn: "jget d (tb_pk s2) \<noteq> JNull" using assms(5) s2(1) d(1) by (auto simp: tables_ok_def table_ok_def list_all_iff)
  have "\<exists>r\<in>set (rows_of st (tb_name t)). jget r (rf_col f) = jget r' (rf_col f)"
  proof (cases "t = s")
    case True
    then have "c \<noteq> rf_col f" using spec [OF assms(3)] assms(4) t(2) by (auto simp: spec_ok_def)
    moreover have "r' \<in> set (absorbed_rows s c keep absorb (rows_of st (tb_name s)))" using e t(3) True by simp
    ultimately show ?thesis using absorbed_row_source True by metis
  next
    case False
    then obtain r where "r \<in> set (rows_of st (tb_name t))" "same_cells t r r'" using e t(1,3) by blast
    then show ?thesis using t(9) pk nn by (metis same_cells_def)
  qed
  then obtain r where r: "r \<in> set (rows_of st (tb_name t))" "jget r (rf_col f) = jget d (tb_pk s2)"
    using t(9) pk by auto
  have m: "(s2, c2) \<in> set ((s, c) # cs)" using t(4) by simp
  show ?thesis unfolding restricted_def
    by (rule bexI [OF _ t(1)], rule bexI [OF _ t(2)], rule bexI [OF _ r(1)], rule bexI [OF _ m])
      (use t(6-8) r(2) d(1) coll in auto)
qed

lemma round_None:
  assumes "round_of schema keep absorb (s, c) st = None" and "schema_ok schema" and "s \<in> set schema"
    and "tb_user s = Some c" and "tables_ok schema st" and "keep \<noteq> absorb" and "tb_name s \<noteq> session_table"
  shows "restricted schema keep absorb ((s, c) # cs) st"
proof -
  have n: "drop_colliding_rows schema s c keep absorb (unique_keys_involving s c) (st, 0) = None"
    using assms(1) by (simp add: round_of_def)
  have d: "droppable s"
  proof (rule ccontr)
    assume "\<not> droppable s"
    from n drop_none [OF this assms(4)] show False by simp
  qed
  show ?thesis using drop_None [OF n assms(2,3) d assms(5,6)] assms(7) unfolding restricted_def by fastforce
qed

lemma absorb_tables_fails:
  assumes "absorb_tables schema keep absorb cs (st, m) = Inl e" and "schema_ok schema" and "tables_ok schema st"
    and "keep \<noteq> absorb" and "absorb \<noteq> JNull" and "\<forall>(s, c)\<in>set cs. s \<in> set schema \<and> tb_user s = Some c"
    and "distinct (map fst cs)"
  shows "e = IntegrityError \<and> restricted schema keep absorb cs st"
  using assms(1,3,6,7)
proof (induction cs arbitrary: st m)
  case Nil
  then show ?case by simp
next
  case (Cons p cs)
  obtain s c where p: "p = (s, c)" by (cases p)
  have s: "s \<in> set schema" "tb_user s = Some c" "s \<notin> fst ` set cs" using Cons.prems(3,4) p by auto
  have rest: "\<forall>(s, c)\<in>set cs. s \<in> set schema \<and> tb_user s = Some c" "distinct (map fst cs)"
    using Cons.prems(3,4) p by auto
  show ?case
  proof (cases "tb_name s = session_table")
    case True
    then have "absorb_tables schema keep absorb cs (st, m) = Inl e" using Cons.prems(1) p by simp
    from Cons.IH [OF this Cons.prems(2) rest] show ?thesis unfolding restricted_def p by fastforce
  next
    case False
    obtain m1 where a: "absorb_tables schema keep absorb ((s, c) # cs) (st, m)
     = (case round_of schema keep absorb (s, c) st of None \<Rightarrow> Inl IntegrityError
        | Some (st1, n) \<Rightarrow> absorb_tables schema keep absorb cs (st1, m1))"
      using absorb_tables_Cons [OF assms(2) s(1,2) Cons.prems(2) assms(4,5) False] by blast
    show ?thesis
    proof (cases "round_of schema keep absorb (s, c) st")
      case None
      then show ?thesis
        using a Cons.prems(1) round_None [OF None assms(2) s(1,2) Cons.prems(2) assms(4) False] by (simp add: p)
    next
      case (Some q)
      obtain st1 n where q: "round_of schema keep absorb (s, c) st = Some (st1, n)" using Some by (cases q) auto
      have "absorb_tables schema keep absorb cs (st1, m1) = Inl e" using a q Cons.prems(1) p by simp
      moreover have "tables_ok schema st1" using round_effect [OF q assms(2) s(1,2) Cons.prems(2) assms(4,5)] by simp
      ultimately have "e = IntegrityError" "restricted schema keep absorb cs st1" using Cons.IH rest by blast+
      then show ?thesis using restricted_pull [OF q assms(2) s(1,2) Cons.prems(2) assms(4,5) _ rest(1) s(3)] by (simp add: p)
    qed
  qed
qed

section \<open>References to dropped rows\<close>

text \<open>A table references only tables listed before it.\<close>

fun refs_before :: "table_spec list \<Rightarrow> bool" where
  "refs_before [] = True"
| "refs_before (s # ss) = ((\<forall>f\<in>set (tb_refs s). rf_table f \<notin> tb_name ` set (s # ss)) \<and> refs_before ss)"

text \<open>A row after the rows of a set are gone: exactly the \<open>SET NULL\<close> references to them are null.\<close>

definition cleared :: "(ustr \<times> json) set \<Rightarrow> table_spec \<Rightarrow> row \<Rightarrow> row \<Rightarrow> bool" where
  "cleared G s r r' \<longleftrightarrow> (\<forall>x. jget r' x = (if \<exists>f\<in>set (tb_refs s). rf_action f = SetNull \<and> rf_col f = x
     \<and> (rf_table f, jget r x) \<in> G then JNull else jget r x))"

lemma cleared_empty: "cleared {} s r r"
  by (simp add: cleared_def)

lemma cleared_keeps: "cleared G s r r' \<Longrightarrow> x \<notin> rf_col ` set (tb_refs s) \<Longrightarrow> jget r' x = jget r x"
  by (auto simp: cleared_def)

lemma nulled_exact:
  assumes "\<forall>t. (t, JNull) \<notin> set g"
  shows "jget (nulled g refs r) x
    = (if \<exists>f\<in>set refs. rf_action f = SetNull \<and> rf_col f = x \<and> (rf_table f, jget r x) \<in> set g then JNull else jget r x)"
proof (induction refs arbitrary: r)
  case (Cons f refs)
  show ?case
  proof (cases "rf_action f = SetNull \<and> (rf_table f, jget r (rf_col f)) \<in> set g")
    case True
    then show ?thesis using Cons.IH [of "dict_set r (rf_col f) JNull"] assms
      by (cases "x = rf_col f") (auto simp: nulled_Cons jget_set)
  next
    case False
    then show ?thesis using Cons.IH [of r] by (auto simp: nulled_Cons)
  qed
qed simp

lemma cleared_nulled: "\<forall>t. (t, JNull) \<notin> set g \<Longrightarrow> cleared (set g) s r (nulled g (tb_refs s) r)"
  unfolding cleared_def using nulled_exact by blast

lemma cleared_trans:
  assumes "cleared G s a b" and "cleared H s b c" and "\<forall>t. (t, JNull) \<notin> H"
  shows "cleared (G \<union> H) s a c"
  unfolding cleared_def
proof
  fix x
  let ?hit = "\<lambda>K v. \<exists>f\<in>set (tb_refs s). rf_action f = SetNull \<and> rf_col f = x \<and> (rf_table f, v) \<in> K"
  have b: "jget b x = (if ?hit G (jget a x) then JNull else jget a x)" using assms(1) by (simp add: cleared_def)
  have c: "jget c x = (if ?hit H (jget b x) then JNull else jget b x)" using assms(2) by (simp add: cleared_def)
  have n: "\<not> ?hit H JNull" using assms(3) by blast
  show "jget c x = (if ?hit (G \<union> H) (jget a x) then JNull else jget a x)"
    using b c n by (cases "?hit G (jget a x)") auto
qed

lemma cleared_rows_trans:
  assumes "list_all2 (cleared G s) as bs" and "list_all2 (cleared H s) bs cs" and "\<forall>t. (t, JNull) \<notin> H"
  shows "list_all2 (cleared (G \<union> H) s) as cs"
  using list_all2_trans [OF _ assms(1,2)] cleared_trans [OF _ _ assms(3)] by blast

lemma cleared_rows_same: "list_all2 (cleared {} s) rows rows"
  by (simp add: list_all2_same cleared_empty)

lemma nulled_nothing: "nulled [] refs = (\<lambda>r. r)"
  by (rule ext, rule nulled_id) simp

text \<open>The tables listed after the one whose rows were deleted.\<close>

lemma delete_pass_after:
  assumes "delete_pass ss n ids gone st = Some st'" and "distinct (map tb_name ss)" and "n \<notin> tb_name ` set ss"
    and "fst ` set gone \<subseteq> {n}" and "\<forall>s\<in>set ss. \<forall>f\<in>set (tb_refs s). rf_action f = Cascade \<longrightarrow> rf_table f \<noteq> n"
  shows "(\<forall>m. m \<notin> tb_name ` set ss \<longrightarrow> rows_of st' m = rows_of st m)
     \<and> (\<forall>s\<in>set ss. rows_of st' (tb_name s) = map (nulled gone (tb_refs s)) (rows_of st (tb_name s)))"
  using assms
proof (induction ss arbitrary: st)
  case (Cons s ss)
  let ?hit = "\<lambda>a r. list_ex (\<lambda>f. rf_action f = a \<and> (rf_table f, jget r (rf_col f)) \<in> set gone) (tb_refs s)"
  have nohit: "?hit Cascade r = False" for r
    using Cons.prems(4,5) by (force simp: list_ex_iff)
  have n: "tb_name s \<noteq> n" using Cons.prems(3) by auto
  let ?st = "dict_set st (tb_name s) (map (nulled gone (tb_refs s)) (rows_of st (tb_name s)))"
  have step: "delete_pass ss n ids gone ?st = Some st'"
    using Cons.prems(1) by (simp add: Let_def nohit n split: if_splits)
  have nm: "tb_name s' \<noteq> tb_name s" if "s' \<in> set ss" for s' using that Cons.prems(2) by (metis distinct.simps(2) image_eqI list.simps(9) set_map)
  show ?case using Cons.IH [OF step] Cons.prems nm by auto
qed simp

lemma delete_pass_exact:
  assumes "delete_pass ss n ids [] st = Some st'" and "distinct (map tb_name ss)" and "t \<in> set ss" and "n = tb_name t"
    and "refs_before ss" and "\<forall>s\<in>set ss. \<forall>f\<in>set (tb_refs s). rf_action f = Cascade \<longrightarrow> rf_table f \<noteq> n"
    and "s \<in> set ss" and "s \<noteq> t"
  shows "rows_of st' (tb_name s) = map (nulled (map (\<lambda>r. (n, jget r (tb_pk t)))
     (filter (\<lambda>r. jget r (tb_pk t) \<in> set ids) (rows_of st n))) (tb_refs s)) (rows_of st (tb_name s))"
  using assms
proof (induction ss arbitrary: st)
  case (Cons a ss)
  let ?gone = "\<lambda>st. map (\<lambda>r. (n, jget r (tb_pk t))) (filter (\<lambda>r. jget r (tb_pk t) \<in> set ids) (rows_of st n))"
  have nm: "tb_name x \<noteq> tb_name a" if "x \<in> set ss" for x using that Cons.prems(2) by (metis distinct.simps(2) image_eqI list.simps(9) set_map)
  show ?case
  proof (cases "a = t")
    case True
    have s: "s \<in> set ss" "tb_name s \<noteq> n" using Cons.prems(4,7,8) True nm by auto
    let ?st = "dict_set st n (filter (\<lambda>r. jget r (tb_pk t) \<notin> set ids) (rows_of st n))"
    have step: "delete_pass ss n ids (?gone st) ?st = Some st'"
      using Cons.prems(1,4) True by (simp add: Let_def list_ex_iff nulled_nothing split: if_splits)
    have "n \<notin> tb_name ` set ss" using nm True Cons.prems(4) by (metis imageE)
    moreover have "fst ` set (?gone st) \<subseteq> {n}" by auto
    ultimately have "rows_of st' (tb_name s) = map (nulled (?gone st) (tb_refs s)) (rows_of ?st (tb_name s))"
      using delete_pass_after [OF step] Cons.prems(2,6) s(1) by simp
    then show ?thesis using s(2) by simp
  next
    case False
    then have t: "t \<in> set ss" using Cons.prems(3) by simp
    then have n: "tb_name a \<noteq> n" using nm [OF t] Cons.prems(4) by simp
    let ?st = "dict_set st (tb_name a) (rows_of st (tb_name a))"
    have step: "delete_pass ss n ids [] ?st = Some st'"
      using Cons.prems(1) n by (simp add: Let_def list_ex_iff nulled_nothing split: if_splits)
    have same: "rows_of ?st m = rows_of st m" for m by simp
    have g: "?gone ?st = ?gone st" unfolding same ..
    show ?thesis
    proof (cases "s = a")
      case True
      have "rows_of st' (tb_name a) = rows_of ?st (tb_name a)"
        using delete_pass_rows [OF step] Cons.prems(2,6) by auto
      moreover have "nulled (?gone st) (tb_refs a) r = r" for r
        by (rule nulled_id) (use Cons.prems(4,5) t in auto)
      ultimately show ?thesis using True same by simp
    next
      case False
      have "rows_of st' (tb_name s) = map (nulled (?gone ?st) (tb_refs s)) (rows_of ?st (tb_name s))"
        using Cons.IH [OF step _ t] Cons.prems(2,4-8) False by simp
      then show ?thesis unfolding g same .
    qed
  qed
qed simp

text \<open>The rows a table loses, as targets of references.\<close>

definition lost_rows :: "table_spec \<Rightarrow> ustr \<Rightarrow> json \<Rightarrow> json \<Rightarrow> (ustr list \<times> key_where) list \<Rightarrow> row list \<Rightarrow> (ustr \<times> json) set" where
  "lost_rows s c keep absorb ks rows
     = (\<lambda>r. (tb_name s, jget r (tb_pk s))) ` {r \<in> set rows. collides_by c keep absorb ks rows r}"

lemma lost_not_null: "table_ok s rows \<Longrightarrow> (t, JNull) \<notin> lost_rows s c keep absorb ks rows"
  by (auto simp: table_ok_def lost_rows_def)

lemma drop_cleared:
  assumes "drop_colliding_rows schema s c keep absorb ks (st, n) = Some (st', n')"
    and "schema_ok schema" and "refs_before schema" and "s \<in> set schema" and "droppable s" and "tables_ok schema st" and "keep \<noteq> absorb"
    and t: "t \<in> set schema" "t \<noteq> s"
  shows "list_all2 (cleared (lost_rows s c keep absorb ks (rows_of st (tb_name s))) t) (rows_of st (tb_name t)) (rows_of st' (tb_name t))"
  using assms(1,6)
proof (induction ks arbitrary: st n)
  case Nil
  then show ?case by (simp add: lost_rows_def collides_by_def cleared_rows_same)
next
  case (Cons k ks)
  obtain others w where k: "k = (others, w)" by (cases k)
  let ?rows = "rows_of st (tb_name s)"
  let ?ids = "doomed_ids s c keep absorb others w ?rows"
  have ok: "table_ok s ?rows" using Cons.prems(2) assms(4) by (auto simp: tables_ok_def list_all_iff)
  then have pk: "distinct (map (\<lambda>r. jget r (tb_pk s)) ?rows)" by (simp add: table_ok_def)
  let ?C = "\<lambda>ks r. collides_by c keep absorb ks ?rows r"
  have split: "?C (k # ks) r \<longleftrightarrow> ?C [k] r \<or> ?C ks r" for r by (auto simp: collides_by_def)
  have doomed: "jget r (tb_pk s) \<in> set ?ids \<longleftrightarrow> ?C [k] r" if "r \<in> set ?rows" for r
    unfolding k by (rule doomed_iff [OF pk that])
  show ?case
  proof (cases "?ids = []")
    case True
    have "\<not> ?C [k] r" if "r \<in> set ?rows" for r using doomed [OF that] True by simp
    then have "lost_rows s c keep absorb (k # ks) ?rows = lost_rows s c keep absorb ks ?rows"
      by (auto simp: lost_rows_def split)
    moreover have "drop_colliding_rows schema s c keep absorb ks (st, n) = Some (st', n')"
      using Cons.prems(1) True k by simp
    ultimately show ?thesis using Cons.IH [OF _ Cons.prems(2)] by simp
  next
    case False
    then obtain st1 where d: "delete_rows schema (tb_name s) ?ids st = Some st1"
      and rest: "drop_colliding_rows schema s c keep absorb ks (st1, n + length ?ids) = Some (st', n')"
      using Cons.prems(1) k by (auto simp: Let_def split: option.splits)
    have "drop_colliding_rows schema s c keep absorb [k] (st, n) = Some (st1, n + length ?ids)" using False d k by simp
    note e = drop_effect [OF this assms(2,4,5) Cons.prems(2) assms(7)]
    let ?gone = "map (\<lambda>r. (tb_name s, jget r (tb_pk s))) (filter (\<lambda>r. jget r (tb_pk s) \<in> set ?ids) ?rows)"
    have casc: "\<forall>x\<in>set schema. \<forall>f\<in>set (tb_refs x). rf_action f = Cascade \<longrightarrow> rf_table f \<noteq> tb_name s"
      using assms(2,4,5) unfolding schema_ok_def list_all_iff spec_ok_def by blast
    have dist: "distinct (map tb_name schema)" using assms(2) by (simp add: schema_ok_def)
    have "rows_of st1 (tb_name t) = map (nulled ?gone (tb_refs t)) (rows_of st (tb_name t))"
      by (rule delete_pass_exact [OF d [unfolded delete_rows_def] dist assms(4) refl assms(3) casc t])
    moreover have gone: "set ?gone = lost_rows s c keep absorb [k] ?rows" using doomed by (auto simp: lost_rows_def)
    moreover have "\<forall>x. (x, JNull) \<notin> set ?gone" unfolding gone using lost_not_null [OF ok] by blast
    ultimately have first: "list_all2 (cleared (lost_rows s c keep absorb [k] ?rows) t) (rows_of st (tb_name t)) (rows_of st1 (tb_name t))"
      using cleared_nulled [of ?gone t] by (simp add: list.rel_map list_all2_same)
    have self: "rows_of st1 (tb_name s) = filter (\<lambda>r. \<not> ?C [k] r) ?rows" and ok1: "tables_ok schema st1" using e by auto
    have same: "collides_by c keep absorb ks (filter (\<lambda>r. \<not> ?C [k] r) ?rows) r = ?C ks r" for r
      using assms(7) by (auto simp: collides_by_def list_ex_iff)
    have "lost_rows s c keep absorb [k] ?rows \<union> lost_rows s c keep absorb ks (rows_of st1 (tb_name s)) = lost_rows s c keep absorb (k # ks) ?rows"
      unfolding self lost_rows_def same split by auto
    moreover have "table_ok s (rows_of st1 (tb_name s))" using ok1 assms(4) by (auto simp: tables_ok_def list_all_iff)
    ultimately show ?thesis using cleared_rows_trans [OF first Cons.IH [OF rest ok1]] lost_not_null by auto
  qed
qed

lemma round_cleared:
  assumes "round_of schema keep absorb (s, c) st = Some (st', n)" and "schema_ok schema" and "refs_before schema" and "s \<in> set schema"
    and "tb_user s = Some c" and "tables_ok schema st" and "keep \<noteq> absorb" and t: "t \<in> set schema" "t \<noteq> s"
  shows "list_all2 (cleared (lost_rows s c keep absorb (unique_keys_involving s c) (rows_of st (tb_name s))) t)
     (rows_of st (tb_name t)) (rows_of st' (tb_name t))"
proof -
  obtain st1 where d: "drop_colliding_rows schema s c keep absorb (unique_keys_involving s c) (st, 0) = Some (st1, n)"
    and st': "st' = dict_set st1 (tb_name s) (map (repoint c keep absorb) (rows_of st1 (tb_name s)))"
    using assms(1) by (auto simp: round_of_def)
  have "tb_name t \<noteq> tb_name s" using assms(2,4) t by (auto simp: schema_ok_def distinct_map inj_on_def)
  then have r: "rows_of st' (tb_name t) = rows_of st1 (tb_name t)" by (simp add: st')
  show ?thesis
  proof (cases "droppable s")
    case True
    show ?thesis unfolding r by (rule drop_cleared [OF d assms(2-4) True assms(6,7) t])
  next
    case False
    then have "unique_keys_involving s c = []" by (rule drop_none [OF _ assms(5)])
    then show ?thesis using d unfolding r by (simp add: lost_rows_def collides_by_def cleared_rows_same)
  qed
qed

text \<open>All rows the merge drops.\<close>

definition dropped_rows :: "(table_spec \<times> ustr) list \<Rightarrow> json \<Rightarrow> json \<Rightarrow> tables \<Rightarrow> (ustr \<times> json) set" where
  "dropped_rows cs keep absorb st = (\<Union>(s, c)\<in>set (filter (\<lambda>p. tb_name (fst p) \<noteq> session_table) cs).
     lost_rows s c keep absorb (unique_keys_involving s c) (rows_of st (tb_name s)))"

lemma absorb_cleared:
  assumes "absorb_tables schema keep absorb cs (st, m) = Inr (st', m')" and "schema_ok schema" and "refs_before schema"
    and "tables_ok schema st" and "keep \<noteq> absorb" and "absorb \<noteq> JNull"
    and "\<forall>(s, c)\<in>set cs. s \<in> set schema \<and> tb_user s = Some c \<and> settled schema s" and "distinct (map fst cs)"
    and t: "t \<in> set schema" "t \<notin> fst ` set cs"
  shows "list_all2 (cleared (dropped_rows cs keep absorb st) t) (rows_of st (tb_name t)) (rows_of st' (tb_name t))"
  using assms(1,4,7,8) t(2)
proof (induction cs arbitrary: st m)
  case Nil
  then show ?case by (simp add: dropped_rows_def cleared_rows_same)
next
  case (Cons p cs)
  obtain s c where p: "p = (s, c)" by (cases p)
  have s: "s \<in> set schema" "tb_user s = Some c" "s \<notin> fst ` set cs" "t \<noteq> s" using Cons.prems(3-5) p by auto
  have rest: "\<forall>(s, c)\<in>set cs. s \<in> set schema \<and> tb_user s = Some c \<and> settled schema s" "distinct (map fst cs)" "t \<notin> fst ` set cs"
    using Cons.prems(3-5) p by auto
  show ?case
  proof (cases "tb_name s = session_table")
    case True
    then have "absorb_tables schema keep absorb cs (st, m) = Inr (st', m')" using Cons.prems(1) p by simp
    from Cons.IH [OF this Cons.prems(2) rest] show ?thesis using True by (simp add: p dropped_rows_def)
  next
    case False
    obtain m1 where "absorb_tables schema keep absorb ((s, c) # cs) (st, m)
     = (case round_of schema keep absorb (s, c) st of None \<Rightarrow> Inl IntegrityError
        | Some (st1, n) \<Rightarrow> absorb_tables schema keep absorb cs (st1, m1))"
      using absorb_tables_Cons [OF assms(2) s(1,2) Cons.prems(2) assms(5,6) False] by blast
    then obtain st1 n where r: "round_of schema keep absorb (s, c) st = Some (st1, n)"
      and a: "absorb_tables schema keep absorb cs (st1, m1) = Inr (st', m')"
      using Cons.prems(1) p by (auto split: option.splits)
    note e = round_effect [OF r assms(2) s(1,2) Cons.prems(2) assms(5,6)]
    have ok1: "tables_ok schema st1" using e by simp
    have later: "rows_of st1 (tb_name x) = rows_of st (tb_name x)" if "(x, d) \<in> set cs" for x d
    proof -
      have "x \<in> set schema" "settled schema x" "x \<noteq> s" using that rest(1) s(3) by force+
      then show ?thesis using e by blast
    qed
    have "dropped_rows cs keep absorb st1 = dropped_rows cs keep absorb st"
      unfolding dropped_rows_def by (rule SUP_cong) (use later in auto)
    moreover have "\<forall>x. (x, JNull) \<notin> dropped_rows cs keep absorb st1"
      using ok1 rest(1) lost_not_null unfolding dropped_rows_def tables_ok_def list_all_iff by fastforce
    moreover have "dropped_rows (p # cs) keep absorb st
      = lost_rows s c keep absorb (unique_keys_involving s c) (rows_of st (tb_name s)) \<union> dropped_rows cs keep absorb st"
      using False by (simp add: dropped_rows_def p)
    ultimately show ?thesis
      using cleared_rows_trans [OF round_cleared [OF r assms(2,3) s(1,2) Cons.prems(2) assms(5) t(1) s(4)] Cons.IH [OF a ok1 rest]]
      by simp
  qed
qed

section \<open>The whole merge\<close>

lemma jget_map_snd: "jget (map (\<lambda>(c, v). (c, f c v)) r) x = (case dict_get r x of None \<Rightarrow> JNull | Some v \<Rightarrow> f x v)"
  by (induction r) (auto simp: jget_def dict_get_def)

lemma jget_repath: "jget (repath_row cols p q r) x = (if x \<in> set cols then repath p q (jget r x) else jget r x)"
  unfolding repath_row_def jget_map_snd by (auto simp: jget_def repath_def split: option.split)

definition readdress :: "ustr \<Rightarrow> ustr \<Rightarrow> json \<Rightarrow> table_spec \<Rightarrow> ustr \<Rightarrow> row \<Rightarrow> row" where
  "readdress p q owner s c r = (if jget r c = owner \<and> list_ex (\<lambda>x. under p (jget r x)) (path_columns s)
     then repath_row (path_columns s) p q r else r)"

lemma repath_not_under: "\<not> under p v \<Longrightarrow> repath p q v = v"
  by (auto simp: under_def repath_def split: json.split)

lemma readdress_cell:
  "jget (readdress p q owner s c r) x = (if jget r c = owner \<and> x \<in> set (path_columns s) then repath p q (jget r x) else jget r x)"
  by (auto simp: readdress_def jget_repath list_ex_iff repath_not_under)

lemma rewrite_rows:
  assumes "distinct (map (\<lambda>p. tb_name (fst p)) cs)" and "rewrite_artifact_paths p q owner cs (st, d) = (st', d')"
  shows "(\<forall>(s, c)\<in>set cs. rows_of st' (tb_name s) = map (readdress p q owner s c) (rows_of st (tb_name s)))
     \<and> (\<forall>m. m \<notin> (\<lambda>p. tb_name (fst p)) ` set cs \<longrightarrow> rows_of st' m = rows_of st m)"
  using assms
proof (induction cs arbitrary: st d)
  case Nil
  then show ?case by simp
next
  case (Cons x cs)
  obtain s c where x: "x = (s, c)" by (cases x)
  let ?st = "dict_set st (tb_name s) (map (readdress p q owner s c) (rows_of st (tb_name s)))"
  have new: "tb_name s \<notin> (\<lambda>p. tb_name (fst p)) ` set cs" using Cons.prems(1) x by simp
  have "\<exists>st1 d1. rewrite_artifact_paths p q owner cs (st1, d1) = (st', d')
     \<and> (\<forall>m. rows_of st1 m = rows_of ?st m)"
  proof (cases "path_columns s = []")
    case True
    then have "map (readdress p q owner s c) (rows_of st (tb_name s)) = rows_of st (tb_name s)"
      by (simp add: readdress_def map_idI)
    then show ?thesis using Cons.prems(2) x True by (intro exI [of _ st] exI [of _ d]) simp
  next
    case False
    then show ?thesis using Cons.prems(2) x by (auto simp: Let_def readdress_def [abs_def])
  qed
  then obtain st1 d1 where r: "rewrite_artifact_paths p q owner cs (st1, d1) = (st', d')" "\<forall>m. rows_of st1 m = rows_of ?st m"
    by blast
  note IH = Cons.IH [OF _ r(1)]
  have other: "rows_of st1 (tb_name t) = rows_of st (tb_name t)" if "(t, e) \<in> set cs" for t e
    using new that r(2) by force
  show ?case
  proof (intro conjI ballI allI impI)
    fix y assume "y \<in> set (x # cs)"
    then consider "y = x" | t e where "y = (t, e)" "(t, e) \<in> set cs" by (metis prod.exhaust set_ConsD)
    then show "case y of (t, e) \<Rightarrow> rows_of st' (tb_name t) = map (readdress p q owner t e) (rows_of st (tb_name t))"
    proof cases
      case 1
      then show ?thesis using IH Cons.prems(1) new r(2) by (simp add: x)
    next
      case 2
      then show ?thesis using IH Cons.prems(1) other [OF 2(2)] by fastforce
    qed
  next
    fix m assume "m \<notin> (\<lambda>p. tb_name (fst p)) ` set (x # cs)"
    then show "rows_of st' m = rows_of st m" using IH Cons.prems(1) r(2) by (simp add: x)
  qed
qed

lemma table_ok_readdress:
  assumes "table_ok s rows" and "spec_ok schema s" shows "table_ok s (map (readdress p q owner s c) rows)"
proof -
  let ?f = "readdress p q owner s c"
  have "clash k a b" if k: "k \<in> set (tb_keys s)" and cl: "clash k (?f a) (?f b)" for k a b
  proof -
    have d: "set (uk_cols k) \<inter> set (path_columns s) = {}"
      and w: "\<forall>c\<in>set (path_columns s). uk_where k \<noteq> IsTrue c \<and> uk_where k \<noteq> NotNull c"
      using assms(2) k by (auto simp: spec_ok_def)
    have t: "key_tuple (uk_cols k) (?f r) = key_tuple (uk_cols k) r" for r
      using d by (intro key_tuple_cong) (auto simp: readdress_cell)
    have i: "in_index (uk_where k) (?f r) = in_index (uk_where k) r" for r
      using w by (cases "uk_where k") (auto simp: readdress_cell)
    show ?thesis using cl unfolding clash_def t i .
  qed
  then have "key_ok k (map ?f (filter (\<lambda>_. True) rows))" if "k \<in> set (tb_keys s)" for k
    using that assms(1) by (intro key_ok_mono) (auto simp: table_ok_def unique_ok_def list_all_iff)
  moreover have "tb_pk s \<notin> set (path_columns s)" using assms(2) by (simp add: spec_ok_def)
  ultimately show ?thesis using assms(1)
    by (simp add: table_ok_def unique_ok_def list_all_iff readdress_cell comp_def)
qed

lemma cascade_user_rows:
  "\<forall>(s, c)\<in>set cs. \<forall>r\<in>set (rows_of st (tb_name s)). jget r c \<noteq> i \<Longrightarrow> rows_of (cascade_user cs i st) m = rows_of st m"
proof (induction cs arbitrary: st)
  case Nil
  then show ?case by (simp add: cascade_user_def)
next
  case (Cons p cs)
  obtain s c where p: "p = (s, c)" by (cases p)
  let ?st = "dict_set st (tb_name s) (filter (\<lambda>r. jget r c \<noteq> i) (rows_of st (tb_name s)))"
  have same: "rows_of ?st n = rows_of st n" for n using Cons.prems p by (auto intro!: filter_True)
  have "rows_of (cascade_user cs i ?st) m = rows_of ?st m" by (rule Cons.IH) (use Cons.prems same in auto)
  then show ?case using same by (simp add: cascade_user_def p)
qed

lemma table_ok_filter: "table_ok s rows \<Longrightarrow> table_ok s (filter P rows)"
  using key_ok_mono [where f = "\<lambda>r. r" and P = P and rows = rows]
  by (auto simp: table_ok_def unique_ok_def list_all_iff intro: distinct_map_filter)

lemma user_columns_names:
  assumes "distinct (map tb_name schema)"
  shows "distinct (map (\<lambda>p. tb_name (fst p)) (user_id_columns schema))" "distinct (map fst (user_id_columns schema))"
proof -
  have e: "map fst (user_id_columns schema) = filter (\<lambda>s. tb_user s \<noteq> None) schema"
    unfolding user_id_columns_def by (induction schema) (auto simp: List.map_filter_simps split: option.split)
  have "map (\<lambda>p. tb_name (fst p)) (user_id_columns schema) = map tb_name (filter (\<lambda>s. tb_user s \<noteq> None) schema)"
    unfolding e [symmetric] by simp
  then show "distinct (map (\<lambda>p. tb_name (fst p)) (user_id_columns schema))" using distinct_map_filter [OF assms] by simp
  show "distinct (map fst (user_id_columns schema))" using assms by (simp add: e distinct_map)
qed

definition users_ok :: "(json \<times> ustr) list \<Rightarrow> bool" where
  "users_ok us \<longleftrightarrow> distinct (map fst us) \<and> distinct (map snd us) \<and> JNull \<notin> fst ` set us"

lemma find_user_mem: "find_user db n = Some i \<Longrightarrow> (i, n) \<in> set (ac_users db)"
proof -
  assume "find_user db n = Some i"
  then obtain p where p: "find (\<lambda>p. snd p = n) (ac_users db) = Some p" "fst p = i" by (auto simp: find_user_def)
  then have "p \<in> set (ac_users db)" "snd p = n" by (auto simp: find_Some_iff)
  then show ?thesis using p(2) by (metis prod.collapse)
qed

lemma find_user_unique: "users_ok (ac_users db) \<Longrightarrow> (i, n) \<in> set (ac_users db) \<Longrightarrow> find_user db n = Some i"
proof -
  assume ok: "users_ok (ac_users db)" and m: "(i, n) \<in> set (ac_users db)"
  have "find (\<lambda>p. snd p = n) us = Some (i, n)" if "(i, n) \<in> set us" "distinct (map snd us)" for us :: "(json \<times> ustr) list"
    using that by (induction us) (auto simp: rev_image_eqI)
  then show "find_user db n = Some i" using ok m by (simp add: find_user_def users_ok_def)
qed

lemma revoke_effect:
  assumes "revoke_sessions owners st = (st', n)"
  shows "rows_of st' m = (if m = session_table then filter (\<lambda>r. jget r (lit ''user_id'') \<notin> set owners) (rows_of st m) else rows_of st m)"
  using assms by (auto simp: revoke_sessions_def Let_def)

lemma tables_ok_revoke:
  assumes "tables_ok schema st" and "revoke_sessions owners st = (st', n)" shows "tables_ok schema st'"
  unfolding tables_ok_def list_all_iff
proof
  fix s assume "s \<in> set schema"
  then have "table_ok s (rows_of st (tb_name s))" using assms(1) by (simp add: tables_ok_def list_all_iff)
  then show "table_ok s (rows_of st' (tb_name s))" unfolding revoke_effect [OF assms(2)]
    by (cases "tb_name s = session_table") (simp_all add: table_ok_filter)
qed

lemma rename_user_effect:
  assumes "users_ok us" and "(keep, old) \<in> set us" and "new \<notin> snd ` set us"
  shows "users_ok (rename_user keep new us) \<and> (keep, new) \<in> set (rename_user keep new us)
     \<and> (\<forall>n. (\<exists>i. (i, n) \<in> set (rename_user keep new us)) \<longleftrightarrow> n = new \<or> (n \<noteq> old \<and> n \<in> snd ` set us))
     \<and> fst ` set (rename_user keep new us) = fst ` set us"
proof -
  have d: "distinct (map fst us)" "distinct (map snd us)" using assms(1) by (auto simp: users_ok_def)
  have u: "n = old" if "(keep, n) \<in> set us" for n
    using d(1) assms(2) that by (metis eq_key_imp_eq_value)
  have k: "i = keep" if "(i, old) \<in> set us" for i
    using d(2) assms(2) that by (metis distinct_map fst_conv inj_onD snd_conv)
  have f: "map fst (rename_user keep new us) = map fst us" by (auto simp: rename_user_def)
  have "inj_on snd (set (rename_user keep new us))"
    using d(2) assms(3) by (auto simp: rename_user_def inj_on_def distinct_map) (force+)
  moreover have "distinct (rename_user keep new us)" using d(1) f by (metis distinct_map)
  ultimately have s: "distinct (map snd (rename_user keep new us))" by (simp add: distinct_map)
  have n: "(\<exists>i. (i, n) \<in> set (rename_user keep new us)) \<longleftrightarrow> n = new \<or> (n \<noteq> old \<and> n \<in> snd ` set us)" for n
  proof
    assume "\<exists>i. (i, n) \<in> set (rename_user keep new us)"
    then show "n = new \<or> (n \<noteq> old \<and> n \<in> snd ` set us)"
      using k by (auto simp: rename_user_def image_iff split: if_splits) force+
  next
    assume a: "n = new \<or> (n \<noteq> old \<and> n \<in> snd ` set us)"
    then show "\<exists>i. (i, n) \<in> set (rename_user keep new us)"
    proof
      assume "n = new"
      then show ?thesis using assms(2) by (intro exI [of _ keep]) (force simp: rename_user_def)
    next
      assume "n \<noteq> old \<and> n \<in> snd ` set us"
      then obtain i where "(i, n) \<in> set us" "i \<noteq> keep" using u by force
      then show ?thesis by (intro exI [of _ i]) (force simp: rename_user_def)
    qed
  qed
  have "fst ` set (rename_user keep new us) = fst ` set us" using f by (metis set_map)
  moreover have "(keep, new) \<in> set (rename_user keep new us)" using assms(2) by (force simp: rename_user_def)
  ultimately show ?thesis using s n f d(1) assms(1) by (simp add: users_ok_def)
qed

text \<open>How a merge that succeeds is put together.\<close>

lemma merge_accounts_parts:
  assumes "merge_accounts schema hash base old new db = Inr (db', rep)" and "mg_absorbed rep = Some absorb"
  obtains keep st n st1 m where "find_user db old = Some keep" "find_user db new = Some absorb" "keep \<noteq> absorb"
    "mg_kept rep = keep" "revoke_sessions [keep, absorb] (ac_tables db) = (st, n)"
    "absorb_tables schema keep absorb (user_id_columns schema) (st, \<lparr>mc_moved = [], mc_dropped = []\<rparr>) = Inr (st1, m)"
    "ac_users db' = rename_user keep new (filter (\<lambda>p. fst p \<noteq> absorb) (ac_users db))"
    "ac_tables db' = (let st2 = cascade_user (user_id_columns schema) absorb st1 in case base of None \<Rightarrow> st2
       | Some r \<Rightarrow> fst (rewrite_artifact_paths (user_prefix r (hash old)) (user_prefix r (hash new)) keep
                          (user_id_columns schema) (st2, [])))"
proof -
  obtain keep where k: "find_user db old = Some keep" using assms(1) by (auto simp: merge_accounts_def split: option.splits)
  obtain st n where rv: "revoke_sessions (keep # (case find_user db new of None \<Rightarrow> [] | Some a \<Rightarrow> [a])) (ac_tables db) = (st, n)"
    by fastforce
  obtain db1 m where a: "absorb_account schema keep (find_user db new) (db\<lparr>ac_tables := st\<rparr>) = Inr (db1, m)"
    "find_user db new \<noteq> Some keep"
    using assms(1) by (auto simp: merge_accounts_def k rv Let_def split: if_splits sum.splits)
  have r: "mg_absorbed rep = find_user db new" "mg_kept rep = keep"
      "ac_users db' = rename_user keep new (ac_users db1)"
      "ac_tables db' = (case base of None \<Rightarrow> ac_tables db1
       | Some r \<Rightarrow> fst (rewrite_artifact_paths (user_prefix r (hash old)) (user_prefix r (hash new)) keep
                          (user_id_columns schema) (ac_tables db1, [])))"
    using assms(1) a(2) by (auto simp: merge_accounts_def k rv a(1) Let_def split: if_splits option.splits prod.splits)
  have f: "find_user db new = Some absorb" using r(1) assms(2) by simp
  obtain st1 where s: "absorb_tables schema keep absorb (user_id_columns schema) (st, \<lparr>mc_moved = [], mc_dropped = []\<rparr>) = Inr (st1, m)"
      "db1 = \<lparr>ac_users = filter (\<lambda>p. fst p \<noteq> absorb) (ac_users db), ac_tables = cascade_user (user_id_columns schema) absorb st1\<rparr>"
    using a(1) by (auto simp: absorb_account_def f split: sum.splits)
  show thesis
    by (rule that [OF k f _ r(2) _ s(1)]) (use a(2) f rv r(3,4) s(2) in \<open>auto simp: Let_def split: option.split\<close>)
qed

text \<open>The rows of a table after the merge: the absorbed account's rows go to the kept one, but for those
  that collide with one of its own, and the kept account's paths are re-addressed.\<close>

definition readdressed :: "(ustr \<Rightarrow> ustr) \<Rightarrow> ustr option \<Rightarrow> ustr \<Rightarrow> ustr \<Rightarrow> json \<Rightarrow> table_spec \<Rightarrow> ustr \<Rightarrow> row \<Rightarrow> row" where
  "readdressed hash base old new keep s c = (case base of None \<Rightarrow> (\<lambda>r. r)
     | Some b \<Rightarrow> readdress (user_prefix b (hash old)) (user_prefix b (hash new)) keep s c)"

definition merged_rows ::
  "(ustr \<Rightarrow> ustr) \<Rightarrow> ustr option \<Rightarrow> ustr \<Rightarrow> ustr \<Rightarrow> json \<Rightarrow> json \<Rightarrow> table_spec \<Rightarrow> ustr \<Rightarrow> row list \<Rightarrow> row list" where
  "merged_rows hash base old new keep absorb s c rows =
     map (readdressed hash base old new keep s c) (absorbed_rows s c keep absorb rows)"

text \<open>The stages of a merge: sessions revoked, tables absorbed (nothing is left for the cascade), paths
  rewritten.\<close>

lemma merge_stages:
  assumes m: "merge_accounts schema hash base old new db = Inr (db', rep)" "mg_absorbed rep = Some absorb" "mg_kept rep = keep"
    and ok: "schema_ok schema" "tables_ok schema (ac_tables db)" "users_ok (ac_users db)"
  obtains st n st1 m1 where "keep \<noteq> absorb" "absorb \<noteq> JNull" "revoke_sessions [keep, absorb] (ac_tables db) = (st, n)"
    "absorb_tables schema keep absorb (user_id_columns schema) (st, \<lparr>mc_moved = [], mc_dropped = []\<rparr>) = Inr (st1, m1)"
    "\<forall>(s, c)\<in>set (user_id_columns schema). (\<forall>r\<in>set (rows_of st1 (tb_name s)). jget r c \<noteq> absorb)
       \<and> rows_of (ac_tables db') (tb_name s) = map (readdressed hash base old new keep s c) (rows_of st1 (tb_name s))"
    "\<forall>m. m \<notin> (\<lambda>p. tb_name (fst p)) ` set (user_id_columns schema) \<longrightarrow> rows_of (ac_tables db') m = rows_of st1 m"
proof -
  obtain st n st1 m where p: "find_user db new = Some absorb" "keep \<noteq> absorb"
    "revoke_sessions [keep, absorb] (ac_tables db) = (st, n)"
    "absorb_tables schema keep absorb (user_id_columns schema) (st, \<lparr>mc_moved = [], mc_dropped = []\<rparr>) = Inr (st1, m)"
    "ac_tables db' = (let st2 = cascade_user (user_id_columns schema) absorb st1 in case base of None \<Rightarrow> st2
       | Some r \<Rightarrow> fst (rewrite_artifact_paths (user_prefix r (hash old)) (user_prefix r (hash new)) keep
                          (user_id_columns schema) (st2, [])))"
    by (rule merge_accounts_parts [OF m(1,2)]) (use m(3) in blast)
  have nn: "absorb \<noteq> JNull" using ok(3) find_user_mem [OF p(1)] by (force simp: users_ok_def)
  have dist: "distinct (map tb_name schema)" and spec: "\<forall>s\<in>set schema. spec_ok schema s"
    using ok(1) by (auto simp: schema_ok_def list_all_iff)
  have cols: "\<forall>(s, c)\<in>set (user_id_columns schema). s \<in> set schema \<and> tb_user s = Some c" by (auto simp: user_columns_mem)
  note names = user_columns_names [OF dist]
  note e = absorb_tables_effect [OF p(4) ok(1) tables_ok_revoke [OF ok(2) p(3)] p(2) nn cols names(2)]
  have free1: "jget r c \<noteq> absorb" if sc: "(s, c) \<in> set (user_id_columns schema)" and r: "r \<in> set (rows_of st1 (tb_name s))" for s c r
  proof (cases "tb_name s = session_table")
    case True
    have s: "s \<in> set schema" "tb_user s = Some c" using sc by (auto simp: user_columns_mem)
    then have c: "c = lit ''user_id''" "c \<notin> rf_col ` set (tb_refs s)" using spec True by (auto simp: spec_ok_def)
    obtain r0 where "r0 \<in> set (rows_of st (tb_name s))" "same_cells s r0 r" using e s(1) r True by blast
    then show ?thesis using same_cells_keeps [OF _ c(2)] revoke_effect [OF p(3), of "tb_name s"] True c(1) by force
  next
    case False
    then show ?thesis using e sc r by fastforce
  qed
  let ?st2 = "cascade_user (user_id_columns schema) absorb st1"
  have casc: "rows_of ?st2 m = rows_of st1 m" for m by (rule cascade_user_rows) (use free1 in blast)
  have rows: "(\<forall>(s, c)\<in>set (user_id_columns schema). rows_of (ac_tables db') (tb_name s)
       = map (readdressed hash base old new keep s c) (rows_of st1 (tb_name s)))
     \<and> (\<forall>m. m \<notin> (\<lambda>p. tb_name (fst p)) ` set (user_id_columns schema) \<longrightarrow> rows_of (ac_tables db') m = rows_of st1 m)"
  proof (cases base)
    case None
    then show ?thesis by (simp add: p(5) readdressed_def casc)
  next
    case (Some b)
    obtain st3 d3 where w: "rewrite_artifact_paths (user_prefix b (hash old)) (user_prefix b (hash new)) keep
        (user_id_columns schema) (?st2, []) = (st3, d3)" by fastforce
    show ?thesis using rewrite_rows [OF names(1) w] by (simp add: p(5) readdressed_def casc Some w)
  qed
  show thesis by (rule that [OF p(2) nn p(3,4)]) (use rows free1 in blast)+
qed

lemma merged_tables:
  assumes m: "merge_accounts schema hash base old new db = Inr (db', rep)" "mg_absorbed rep = Some absorb" "mg_kept rep = keep"
    and ok: "schema_ok schema" "tables_ok schema (ac_tables db)" "users_ok (ac_users db)"
  shows "tables_ok schema (ac_tables db')
     \<and> (\<forall>(s, c)\<in>set (user_id_columns schema). (\<forall>r\<in>set (rows_of (ac_tables db') (tb_name s)). jget r c \<noteq> absorb)
         \<and> (settled schema s \<and> tb_name s \<noteq> session_table \<longrightarrow> rows_of (ac_tables db') (tb_name s)
               = merged_rows hash base old new keep absorb s c (rows_of (ac_tables db) (tb_name s))))"
proof -
  obtain st n st1 m where p: "keep \<noteq> absorb" "absorb \<noteq> JNull" "revoke_sessions [keep, absorb] (ac_tables db) = (st, n)"
    "absorb_tables schema keep absorb (user_id_columns schema) (st, \<lparr>mc_moved = [], mc_dropped = []\<rparr>) = Inr (st1, m)"
    and rows: "\<forall>(s, c)\<in>set (user_id_columns schema). (\<forall>r\<in>set (rows_of st1 (tb_name s)). jget r c \<noteq> absorb)
       \<and> rows_of (ac_tables db') (tb_name s) = map (readdressed hash base old new keep s c) (rows_of st1 (tb_name s))"
    and others: "\<forall>m. m \<notin> (\<lambda>p. tb_name (fst p)) ` set (user_id_columns schema) \<longrightarrow> rows_of (ac_tables db') m = rows_of st1 m"
    by (rule merge_stages [OF m ok]) blast
  have dist: "distinct (map tb_name schema)" and spec: "\<forall>s\<in>set schema. spec_ok schema s"
    using ok(1) by (auto simp: schema_ok_def list_all_iff)
  have cols: "\<forall>(s, c)\<in>set (user_id_columns schema). s \<in> set schema \<and> tb_user s = Some c" by (auto simp: user_columns_mem)
  note names = user_columns_names [OF dist]
  note e = absorb_tables_effect [OF p(4) ok(1) tables_ok_revoke [OF ok(2) p(3)] p(1,2) cols names(2)]
  let ?rw = "readdressed hash base old new keep"
  have own: "jget (?rw s c r) c = jget r c" if "(s, c) \<in> set (user_id_columns schema)" for s c r
    using that spec by (auto simp: readdressed_def readdress_cell user_columns_mem spec_ok_def split: option.split)
  have "tables_ok schema (ac_tables db')"
    unfolding tables_ok_def list_all_iff
  proof
    fix s assume s: "s \<in> set schema"
    then have t: "table_ok s (rows_of st1 (tb_name s))" using e by (auto simp: tables_ok_def list_all_iff)
    show "table_ok s (rows_of (ac_tables db') (tb_name s))"
    proof (cases "tb_user s")
      case None
      have "t = s" if "t \<in> set schema" "tb_name t = tb_name s" for t
        using dist s that by (metis distinct_map inj_onD)
      then have "tb_name s \<notin> (\<lambda>p. tb_name (fst p)) ` set (user_id_columns schema)"
        using None by (force simp: user_columns_mem)
      then show ?thesis using others t by simp
    next
      case (Some c)
      then have "rows_of (ac_tables db') (tb_name s) = map (?rw s c) (rows_of st1 (tb_name s))"
        using rows s by (auto simp: user_columns_mem)
      moreover have "spec_ok schema s" using spec s by blast
      note table_ok_readdress [OF t this]
      then have "table_ok s (map (?rw s c) (rows_of st1 (tb_name s)))" using t by (cases base) (simp_all add: readdressed_def)
      ultimately show ?thesis by simp
    qed
  qed
  moreover have "jget r c \<noteq> absorb" if sc: "(s, c) \<in> set (user_id_columns schema)" "r \<in> set (rows_of (ac_tables db') (tb_name s))" for s c r
    using rows sc own [OF sc(1)] by fastforce
  moreover have "rows_of (ac_tables db') (tb_name s) = merged_rows hash base old new keep absorb s c (rows_of (ac_tables db) (tb_name s))"
    if sc: "(s, c) \<in> set (user_id_columns schema)" and st: "settled schema s" "tb_name s \<noteq> session_table" for s c
  proof -
    have "rows_of st1 (tb_name s) = absorbed_rows s c keep absorb (rows_of st (tb_name s))" using e sc st by fastforce
    then show ?thesis using rows sc revoke_effect [OF p(3)] st(2) by (fastforce simp: merged_rows_def)
  qed
  ultimately show ?thesis by blast
qed

text \<open>The tables that are not the accounts', and the sessions.\<close>

lemma dropped_cong:
  "(\<And>s c. (s, c) \<in> set cs \<Longrightarrow> tb_name s \<noteq> session_table \<Longrightarrow> rows_of st (tb_name s) = rows_of st' (tb_name s))
     \<Longrightarrow> dropped_rows cs keep absorb st = dropped_rows cs keep absorb st'"
  unfolding dropped_rows_def by (rule SUP_cong) auto

lemma merged_others:
  assumes m: "merge_accounts schema hash base old new db = Inr (db', rep)" "mg_absorbed rep = Some absorb" "mg_kept rep = keep"
    and ok: "schema_ok schema" "tables_ok schema (ac_tables db)" "users_ok (ac_users db)"
    and order: "refs_before schema" and settled: "\<forall>(s, c)\<in>set (user_id_columns schema). settled schema s"
    and t: "t \<in> set schema"
  shows "tb_user t = None \<Longrightarrow> list_all2 (cleared (dropped_rows (user_id_columns schema) keep absorb (ac_tables db)) t)
       (rows_of (ac_tables db) (tb_name t)) (rows_of (ac_tables db') (tb_name t))"
    and "tb_name t = session_table \<Longrightarrow> path_columns t = [] \<Longrightarrow> rows_of (ac_tables db') session_table
       = filter (\<lambda>r. jget r (lit ''user_id'') \<notin> {keep, absorb}) (rows_of (ac_tables db) session_table)"
proof -
  obtain st n st1 m where p: "keep \<noteq> absorb" "absorb \<noteq> JNull" "revoke_sessions [keep, absorb] (ac_tables db) = (st, n)"
    "absorb_tables schema keep absorb (user_id_columns schema) (st, \<lparr>mc_moved = [], mc_dropped = []\<rparr>) = Inr (st1, m)"
    and rows: "\<forall>(s, c)\<in>set (user_id_columns schema). (\<forall>r\<in>set (rows_of st1 (tb_name s)). jget r c \<noteq> absorb)
       \<and> rows_of (ac_tables db') (tb_name s) = map (readdressed hash base old new keep s c) (rows_of st1 (tb_name s))"
    and others: "\<forall>m. m \<notin> (\<lambda>p. tb_name (fst p)) ` set (user_id_columns schema) \<longrightarrow> rows_of (ac_tables db') m = rows_of st1 m"
    by (rule merge_stages [OF m ok]) blast
  have dist: "distinct (map tb_name schema)" and spec: "spec_ok schema t"
    using ok(1) t by (auto simp: schema_ok_def list_all_iff)
  have cols: "\<forall>(s, c)\<in>set (user_id_columns schema). s \<in> set schema \<and> tb_user s = Some c \<and> settled schema s"
    using settled by (auto simp: user_columns_mem)
  have ok1: "tables_ok schema st" by (rule tables_ok_revoke [OF ok(2) p(3)])
  note names = user_columns_names [OF dist] and rv = revoke_effect [OF p(3)]
  show "list_all2 (cleared (dropped_rows (user_id_columns schema) keep absorb (ac_tables db)) t)
       (rows_of (ac_tables db) (tb_name t)) (rows_of (ac_tables db') (tb_name t))" if u: "tb_user t = None"
  proof -
    have new: "t \<notin> fst ` set (user_id_columns schema)" using u by (force simp: user_columns_mem)
    have "x = t" if "x \<in> set schema" "tb_name x = tb_name t" for x using dist t that by (metis distinct_map inj_onD)
    then have "tb_name t \<notin> (\<lambda>p. tb_name (fst p)) ` set (user_id_columns schema)"
      using u by (force simp: user_columns_mem)
    then have r': "rows_of (ac_tables db') (tb_name t) = rows_of st1 (tb_name t)" using others by blast
    have "tb_name t \<noteq> session_table" using spec u by (auto simp: spec_ok_def)
    then have r: "rows_of st (tb_name t) = rows_of (ac_tables db) (tb_name t)" using rv by simp
    have "dropped_rows (user_id_columns schema) keep absorb st = dropped_rows (user_id_columns schema) keep absorb (ac_tables db)"
      by (rule dropped_cong) (simp add: rv)
    then show ?thesis
      using absorb_cleared [OF p(4) ok(1) order ok1 p(1,2) cols names(2) t new] by (simp add: r r')
  qed
  show "rows_of (ac_tables db') session_table = filter (\<lambda>r. jget r (lit ''user_id'') \<notin> {keep, absorb}) (rows_of (ac_tables db) session_table)"
    if s: "tb_name t = session_table" "path_columns t = []"
  proof -
    have u: "(t, lit ''user_id'') \<in> set (user_id_columns schema)" using spec s(1) t by (simp add: user_columns_mem spec_ok_def)
    have "readdressed hash base old new keep t (lit ''user_id'') r = r" for r
      by (simp add: readdressed_def readdress_def s(2) split: option.split)
    then have "rows_of (ac_tables db') (tb_name t) = rows_of st1 (tb_name t)" using rows u by (fastforce intro: map_idI)
    moreover have cols': "\<forall>(s, c)\<in>set (user_id_columns schema). s \<in> set schema \<and> tb_user s = Some c" using cols by blast
    have "rows_of st1 (tb_name t) = rows_of st (tb_name t)"
      using absorb_tables_effect [OF p(4) ok(1) ok1 p(1,2) cols' names(2)] t s(1) settled u by blast
    ultimately show ?thesis using rv [of session_table] s(1) by simp
  qed
qed

text \<open>The rows that are left, by their primary keys: all but the duplicates.\<close>

lemma dropped_key:
  assumes "schema_ok schema" and "tables_ok schema st" and "t \<in> set schema" and "tb_name t \<noteq> session_table"
    and "r \<in> set (rows_of st (tb_name t))"
  shows "(tb_name t, jget r (tb_pk t)) \<in> dropped_rows (user_id_columns schema) keep absorb st
     \<longleftrightarrow> (\<exists>c. tb_user t = Some c \<and> collides_by c keep absorb (unique_keys_involving t c) (rows_of st (tb_name t)) r)"
proof -
  have inj: "x = t" if "x \<in> set schema" "tb_name x = tb_name t" for x
    using assms(1,3) that by (auto simp: schema_ok_def distinct_map dest: inj_onD)
  have "distinct (map (\<lambda>r. jget r (tb_pk t)) (rows_of st (tb_name t)))"
    using assms(2,3) by (auto simp: tables_ok_def table_ok_def list_all_iff)
  then have one: "d = r" if "d \<in> set (rows_of st (tb_name t))" "jget d (tb_pk t) = jget r (tb_pk t)" for d
    using assms(5) that by (auto simp: distinct_map dest: inj_onD)
  show ?thesis
  proof
    assume "(tb_name t, jget r (tb_pk t)) \<in> dropped_rows (user_id_columns schema) keep absorb st"
    then obtain s c d where x: "(s, c) \<in> set (user_id_columns schema)" "tb_name s = tb_name t" "d \<in> set (rows_of st (tb_name s))"
      "collides_by c keep absorb (unique_keys_involving s c) (rows_of st (tb_name s)) d" "jget d (tb_pk s) = jget r (tb_pk t)"
      unfolding dropped_rows_def lost_rows_def by auto
    have s: "s = t" "tb_user t = Some c" using inj [of s] x(1,2) by (auto simp: user_columns_mem)
    then have "d = r" using one x(3,5) by simp
    then show "\<exists>c. tb_user t = Some c \<and> collides_by c keep absorb (unique_keys_involving t c) (rows_of st (tb_name t)) r"
      using x(4) s by blast
  next
    assume "\<exists>c. tb_user t = Some c \<and> collides_by c keep absorb (unique_keys_involving t c) (rows_of st (tb_name t)) r"
    then obtain c where c: "tb_user t = Some c" "collides_by c keep absorb (unique_keys_involving t c) (rows_of st (tb_name t)) r" by blast
    then have "(t, c) \<in> set (filter (\<lambda>p. tb_name (fst p) \<noteq> session_table) (user_id_columns schema))"
      using assms(3,4) by (simp add: user_columns_mem)
    then show "(tb_name t, jget r (tb_pk t)) \<in> dropped_rows (user_id_columns schema) keep absorb st"
      unfolding dropped_rows_def lost_rows_def using c(2) assms(5) by blast
  qed
qed

lemma merged_keys:
  assumes m: "merge_accounts schema hash base old new db = Inr (db', rep)" "mg_absorbed rep = Some absorb" "mg_kept rep = keep"
    and ok: "schema_ok schema" "tables_ok schema (ac_tables db)" "users_ok (ac_users db)"
    and order: "refs_before schema" and settled: "\<forall>(s, c)\<in>set (user_id_columns schema). settled schema s"
    and t: "t \<in> set schema" "tb_name t \<noteq> session_table"
  shows "map (\<lambda>r. jget r (tb_pk t)) (rows_of (ac_tables db') (tb_name t))
     = map (\<lambda>r. jget r (tb_pk t)) (filter (\<lambda>r. (tb_name t, jget r (tb_pk t)) \<notin> dropped_rows (user_id_columns schema) keep absorb (ac_tables db))
          (rows_of (ac_tables db) (tb_name t)))"
proof -
  let ?rows = "rows_of (ac_tables db) (tb_name t)"
  note key = dropped_key [OF ok(1,2) t]
  have spec: "spec_ok schema t" using ok(1) t(1) by (simp add: schema_ok_def list_all_iff)
  then have pk0: "tb_pk t \<notin> rf_col ` set (tb_refs t)" unfolding spec_ok_def by (rule conjunct1)
  show ?thesis
  proof (cases "tb_user t")
    case None
    have "filter (\<lambda>r. (tb_name t, jget r (tb_pk t)) \<notin> dropped_rows (user_id_columns schema) keep absorb (ac_tables db)) ?rows = ?rows"
      using key None by (intro filter_True) simp
    moreover have "list_all2 (\<lambda>r r'. jget r' (tb_pk t) = jget r (tb_pk t)) ?rows (rows_of (ac_tables db') (tb_name t))"
      by (rule list_all2_mono [OF merged_others(1) [OF m ok order settled t(1) None]])
        (rule cleared_keeps [OF _ pk0])
    then have "map (\<lambda>r. jget r (tb_pk t)) (rows_of (ac_tables db') (tb_name t)) = map (\<lambda>r. jget r (tb_pk t)) ?rows"
      by (induction rule: list_all2_induct) simp_all
    ultimately show ?thesis by simp
  next
    case (Some c)
    then have u: "(t, c) \<in> set (user_id_columns schema)" using t(1) by (simp add: user_columns_mem)
    have pk: "tb_pk t \<noteq> c" "tb_pk t \<notin> set (path_columns t)" using spec Some by (auto simp: spec_ok_def)
    have "rows_of (ac_tables db') (tb_name t) = merged_rows hash base old new keep absorb t c ?rows"
      using merged_tables [OF m ok] settled t(2) u by blast
    moreover have "jget (readdressed hash base old new keep t c r) (tb_pk t) = jget r (tb_pk t)" for r
      using pk(2) by (simp add: readdressed_def readdress_cell split: option.split)
    ultimately have "map (\<lambda>r. jget r (tb_pk t)) (rows_of (ac_tables db') (tb_name t))
        = map (\<lambda>r. jget r (tb_pk t)) (filter (\<lambda>r. \<not> collides_by c keep absorb (unique_keys_involving t c) ?rows r) ?rows)"
      by (simp add: merged_rows_def absorbed_rows_def repoint_cell [OF pk(1)] comp_def)
    moreover have "filter (\<lambda>r. \<not> collides_by c keep absorb (unique_keys_involving t c) ?rows r) ?rows
        = filter (\<lambda>r. (tb_name t, jget r (tb_pk t)) \<notin> dropped_rows (user_id_columns schema) keep absorb (ac_tables db)) ?rows"
      by (intro filter_cong refl) (simp add: key Some)
    ultimately show ?thesis by simp
  qed
qed

lemma merged_users:
  assumes "merge_accounts schema hash base old new db = Inr (db', rep)" "mg_absorbed rep = Some absorb" "mg_kept rep = keep"
    and "users_ok (ac_users db)"
  shows "users_ok (ac_users db') \<and> find_user db' new = Some keep \<and> (old \<noteq> new \<longrightarrow> find_user db' old = None)
     \<and> fst ` set (ac_users db') = fst ` set (ac_users db) - {absorb} \<and> find_user db old = Some keep
     \<and> (\<forall>x. x \<noteq> old \<longrightarrow> x \<noteq> new \<longrightarrow> find_user db' x = find_user db x)"
proof -
  obtain st n st1 m where p: "find_user db old = Some keep" "find_user db new = Some absorb" "keep \<noteq> absorb"
    "ac_users db' = rename_user keep new (filter (\<lambda>p. fst p \<noteq> absorb) (ac_users db))"
    by (rule merge_accounts_parts [OF assms(1,2)]) (use assms(3) in blast)
  let ?us = "filter (\<lambda>p. fst p \<noteq> absorb) (ac_users db)"
  have us: "users_ok ?us" using assms(4) by (auto simp: users_ok_def intro: distinct_map_filter)
  have k: "(keep, old) \<in> set ?us" using find_user_mem [OF p(1)] p(3) by simp
  have d: "distinct (map snd (ac_users db))" "distinct (map fst (ac_users db))" using assms(4) by (auto simp: users_ok_def)
  have n: "new \<notin> snd ` set ?us"
  proof -
    have "i = absorb" if "(i, new) \<in> set (ac_users db)" for i
      using find_user_mem [OF p(2)] d(1) that by (metis distinct_map fst_conv inj_onD snd_conv)
    then show ?thesis by auto
  qed
  note r = rename_user_effect [OF us k n, folded p(4)]
  have u: "users_ok (ac_users db')" and kn: "(keep, new) \<in> set (ac_users db')" using r by blast+
  have none: "find_user db' x = None" if "\<forall>i. (i, x) \<notin> set (ac_users db')" for x
    using that find_user_mem [of db' x] by (cases "find_user db' x") auto
  have "old \<noteq> new \<longrightarrow> find_user db' old = None" using r none [of old] by blast
  moreover have "find_user db' x = find_user db x" if x: "x \<noteq> old" "x \<noteq> new" for x
  proof (cases "find_user db x")
    case None
    have "x \<notin> snd ` set (ac_users db)"
      using find_user_unique [OF assms(4)] None by force
    then show ?thesis using none [of x] r x None by (metis (mono_tags, lifting) filter_is_subset image_mono subsetD)
  next
    case (Some i)
    note m = find_user_mem [OF Some]
    have "i \<noteq> absorb" "i \<noteq> keep"
      using m x find_user_mem [OF p(2)] find_user_mem [OF p(1)] d(2) by (metis eq_key_imp_eq_value)+
    then have "(i, x) \<in> set (ac_users db')" using m unfolding p(4) rename_user_def by force
    then show ?thesis using find_user_unique [OF u] Some by simp
  qed
  moreover have "fst ` set (ac_users db') = fst ` set (ac_users db) - {absorb}" using r by auto
  ultimately show ?thesis using u p(1) find_user_unique [OF u kn] by blast
qed

section \<open>The models' schema\<close>

definition table_of :: "string \<Rightarrow> string list \<Rightarrow> string option \<Rightarrow> unique_key list \<Rightarrow> reference list \<Rightarrow> table_spec" where
  "table_of n cols user keys refs = \<lparr>tb_name = lit n, tb_pk = lit ''id'', tb_columns = map lit cols,
     tb_user = map_option lit user, tb_keys = keys, tb_refs = refs\<rparr>"

definition key_on :: "string list \<Rightarrow> key_where \<Rightarrow> unique_key" where
  "key_on cols w = \<lparr>uk_cols = map lit cols, uk_where = w\<rparr>"

definition refers :: "string \<Rightarrow> string \<Rightarrow> on_delete \<Rightarrow> reference" where
  "refers c t a = \<lparr>rf_col = lit c, rf_table = lit t, rf_action = a\<rparr>"

definition api_tokens_table :: table_spec where
  "api_tokens_table = table_of ''api_tokens''
     [''id'', ''user_id'', ''name'', ''token_hash'', ''prefix'', ''created_at'', ''last_used_at'', ''revoked_at'']
     (Some ''user_id'') [key_on [''token_hash''] Always] []"

definition credentials_table :: table_spec where
  "credentials_table = table_of ''delivery_credentials''
     [''id'', ''user_id'', ''name'', ''adapter'', ''config_json'', ''secrets_enc'', ''created_at'', ''updated_at'']
     (Some ''user_id'') [key_on [''user_id'', ''name''] Always] []"

definition presets_table :: table_spec where
  "presets_table = table_of ''presets'' [''id'', ''user_id'', ''name'', ''options'', ''created_at'', ''updated_at'']
     (Some ''user_id'') [] []"

definition prompts_table :: table_spec where
  "prompts_table = table_of ''prompts'' [''id'', ''user_id'', ''name'', ''system_prompt'', ''is_system'', ''created_at'', ''updated_at'']
     (Some ''user_id'') [key_on [''user_id''] (IsTrue (lit ''is_system''))] []"

definition push_table :: table_spec where
  "push_table = table_of ''push_subscriptions'' [''id'', ''user_id'', ''endpoint'', ''p256dh'', ''auth'', ''user_agent'', ''created_at'']
     (Some ''user_id'') [key_on [''endpoint''] Always] []"

definition speakers_table :: table_spec where
  "speakers_table = table_of ''speakers'' [''id'', ''user_id'', ''name'', ''created_at'', ''updated_at''] (Some ''user_id'') [] []"

definition tasks_table :: table_spec where
  "tasks_table = table_of ''tasks'' [''id'', ''user_id'', ''source_url'', ''source_title'', ''status'', ''options'', ''artifact_dir'',
     ''transcript_path'', ''summary_path'', ''error_message'', ''summary_progress'', ''awaiting_step'', ''created_at'', ''updated_at'']
     (Some ''user_id'') [] []"

definition sessions_table :: table_spec where
  "sessions_table = table_of ''user_sessions'' [''id'', ''user_id'', ''email'', ''sid_hash'', ''issued_at'', ''created_at'', ''expires_at'']
     (Some ''user_id'') [key_on [''sid_hash''] Always] []"

definition weights_table :: table_spec where
  "weights_table = table_of ''user_step_weights''
     [''id'', ''user_id'', ''weights'', ''final_summary_fallback'', ''computed_at'', ''sample_counts'']
     (Some ''user_id'') [key_on [''user_id''] Always] []"

definition targets_table :: table_spec where
  "targets_table = table_of ''delivery_targets''
     [''id'', ''user_id'', ''name'', ''adapter'', ''credential_id'', ''config_json'', ''created_at'', ''updated_at'']
     (Some ''user_id'') [key_on [''user_id'', ''name''] Always] [refers ''credential_id'' ''delivery_credentials'' Restrict]"

definition recordings_table :: table_spec where
  "recordings_table = table_of ''recordings'' [''id'', ''user_id'', ''source_task_id'', ''title'', ''title_is_custom'', ''source_url'',
     ''artifact_dir'', ''transcript_path'', ''summary_path'', ''duration_sec'', ''language'', ''tags'', ''meta'', ''recorded_at'',
     ''created_at'', ''updated_at''] (Some ''user_id'')
     [key_on [''source_task_id''] (NotNull (lit ''source_task_id''))] [refers ''source_task_id'' ''tasks'' SetNull]"

definition steps_table :: table_spec where
  "steps_table = table_of ''steps'' [''id'', ''task_id'', ''name'', ''status'', ''attempt'', ''started_at'', ''finished_at'', ''message'']
     None [key_on [''task_id'', ''name''] Always] [refers ''task_id'' ''tasks'' Cascade]"

definition segments_table :: table_spec where
  "segments_table = table_of ''asr_segments''
     [''id'', ''task_id'', ''segment_index'', ''start_sec'', ''end_sec'', ''text'', ''raw_json'', ''payload'']
     None [key_on [''task_id'', ''segment_index''] Always] [refers ''task_id'' ''tasks'' Cascade]"

definition samples_table :: table_spec where
  "samples_table = table_of ''voice_samples'' [''id'', ''speaker_id'', ''embedding'', ''embedding_model'', ''audio'', ''audio_format'',
     ''duration_sec'', ''source_task_id'', ''created_at''] None []
     [refers ''speaker_id'' ''speakers'' Cascade, refers ''source_task_id'' ''tasks'' SetNull]"

definition attempts_table :: table_spec where
  "attempts_table = table_of ''delivery_attempts'' [''id'', ''task_id'', ''target_id'', ''adapter'', ''variant'', ''status'', ''attempts'',
     ''max_attempts'', ''next_attempt_at'', ''last_error'', ''external_id'', ''external_url'', ''created_at'', ''updated_at''] None []
     [refers ''task_id'' ''tasks'' Cascade, refers ''target_id'' ''delivery_targets'' SetNull]"

definition chunks_table :: table_spec where
  "chunks_table = table_of ''transcript_chunks'' [''id'', ''recording_id'', ''user_id'', ''chunk_index'', ''text'', ''start_sec'', ''end_sec'',
     ''speakers'', ''embedding'', ''embedding_model'', ''created_at''] (Some ''user_id'')
     [key_on [''recording_id'', ''chunk_index''] Always] [refers ''recording_id'' ''recordings'' Cascade]"

definition decisions_table :: table_spec where
  "decisions_table = table_of ''match_decisions'' [''id'', ''user_id'', ''source_task_id'', ''speaker_label'', ''speaker_id'',
     ''voice_sample_id'', ''distance'', ''embedding_model'', ''outcome'', ''is_noise'', ''created_at''] (Some ''user_id'') []
     [refers ''source_task_id'' ''tasks'' SetNull, refers ''speaker_id'' ''speakers'' SetNull,
      refers ''voice_sample_id'' ''voice_samples'' SetNull]"

definition vts_schema :: "table_spec list" where
  "vts_schema = [api_tokens_table, credentials_table, presets_table, prompts_table, push_table, speakers_table, tasks_table,
     sessions_table, weights_table, targets_table, recordings_table, steps_table, segments_table, samples_table,
     attempts_table, chunks_table, decisions_table]"

lemmas table_defs = api_tokens_table_def credentials_table_def presets_table_def prompts_table_def push_table_def
  speakers_table_def tasks_table_def sessions_table_def weights_table_def targets_table_def recordings_table_def
  steps_table_def segments_table_def samples_table_def attempts_table_def chunks_table_def decisions_table_def

lemma ends_path_lit [simp]: "ends_path (lit s) \<longleftrightarrow> take 5 (rev s) = rev ''_path''"
proof -
  have l: "length (rev (lit ''_path'')) = 5" by (simp add: lit_def)
  have "ends_path (lit s) \<longleftrightarrow> take 5 (rev (lit s)) = rev (lit ''_path'')" unfolding ends_path_def starts_with_def l ..
  also have "\<dots> \<longleftrightarrow> map of_char (take 5 (rev s)) = (map of_char (rev ''_path'') :: nat list)"
    unfolding lit_def rev_map take_map ..
  also have "\<dots> \<longleftrightarrow> take 5 (rev s) = rev ''_path''" by (rule inj_map_eq_map) (simp add: inj_on_def)
  finally show ?thesis .
qed

text \<open>The tables with a unique key on their owner.\<close>

definition keyed_names :: "ustr list" where
  "keyed_names = map lit [''delivery_credentials'', ''prompts'', ''user_step_weights'', ''delivery_targets'']"

definition spec_plain :: "table_spec \<Rightarrow> bool" where
  "spec_plain s \<longleftrightarrow> tb_pk s \<noteq> lit ''user_id'' \<and> tb_pk s \<notin> rf_col ` set (tb_refs s) \<and> tb_pk s \<notin> set (path_columns s)
     \<and> (tb_name s = session_table \<longrightarrow> tb_user s = Some (lit ''user_id''))
     \<and> (droppable s \<longrightarrow> tb_name s \<in> set keyed_names)
     \<and> (\<forall>f\<in>set (tb_refs s). rf_table f \<noteq> tb_name s \<and> (rf_action f = Cascade \<longrightarrow> rf_table f \<notin> set keyed_names))
     \<and> (tb_user s = None \<or> tb_user s = Some (lit ''user_id'')) \<and> lit ''user_id'' \<notin> set (path_columns s)
     \<and> lit ''user_id'' \<notin> rf_col ` set (tb_refs s)
     \<and> (\<forall>k\<in>set (tb_keys s). uk_where k \<noteq> IsTrue (lit ''user_id'') \<and> uk_where k \<noteq> NotNull (lit ''user_id'')
          \<and> (lit ''user_id'' \<in> set (uk_cols k) \<longrightarrow> (\<forall>f\<in>set (tb_refs s). rf_col f \<notin> set (uk_cols k)
                \<and> uk_where k \<noteq> IsTrue (rf_col f) \<and> uk_where k \<noteq> NotNull (rf_col f)))
          \<and> set (uk_cols k) \<inter> set (path_columns s) = {}
          \<and> (\<forall>c\<in>set (path_columns s). uk_where k \<noteq> IsTrue c \<and> uk_where k \<noteq> NotNull c))"

lemmas table_eval = table_of_def refers_def key_on_def path_columns_def session_table_def droppable_def
  unique_keys_involving_def keyed_names_def

lemma vts_plain: "list_all spec_plain vts_schema"
proof -
  have "spec_plain api_tokens_table" "spec_plain credentials_table" "spec_plain presets_table" "spec_plain prompts_table"
    "spec_plain push_table" "spec_plain speakers_table" "spec_plain tasks_table" "spec_plain sessions_table"
    "spec_plain weights_table" "spec_plain targets_table" "spec_plain recordings_table" "spec_plain steps_table"
    "spec_plain segments_table" "spec_plain samples_table" "spec_plain attempts_table" "spec_plain chunks_table"
    "spec_plain decisions_table"
    by (simp_all add: spec_plain_def table_defs table_eval)
  then show ?thesis by (simp add: vts_schema_def)
qed

lemma spec_plain_ok: "spec_plain s \<Longrightarrow> \<forall>t\<in>set schema. droppable t \<longrightarrow> tb_name t \<in> set keyed_names \<Longrightarrow> spec_ok schema s"
  unfolding spec_plain_def spec_ok_def by (intro conjI allI impI ballI) auto

lemma vts_schema_ok: "schema_ok vts_schema"
proof -
  have n: "distinct (map tb_name vts_schema)" by (simp add: vts_schema_def table_defs table_of_def)
  have "\<forall>t\<in>set vts_schema. droppable t \<longrightarrow> tb_name t \<in> set keyed_names"
    using vts_plain by (auto simp: list_all_iff spec_plain_def)
  then show ?thesis using n vts_plain spec_plain_ok by (auto simp: schema_ok_def list_all_iff)
qed

lemma vts_settled: "(s, c) \<in> set (user_id_columns vts_schema) \<Longrightarrow> settled vts_schema s"
proof -
  assume m: "(s, c) \<in> set (user_id_columns vts_schema)"
  have "list_all (\<lambda>s. tb_user s \<noteq> None \<longrightarrow> (\<forall>f\<in>set (tb_refs s). rf_action f = SetNull \<longrightarrow> rf_table f \<notin> set keyed_names)) vts_schema"
    by (simp add: vts_schema_def table_defs table_eval)
  moreover have "\<forall>t\<in>set vts_schema. droppable t \<longrightarrow> tb_name t \<in> set keyed_names"
    using vts_plain by (auto simp: list_all_iff spec_plain_def)
  ultimately show ?thesis using m by (fastforce simp: settled_def user_columns_mem list_all_iff)
qed

lemma vts_all_settled: "\<forall>(s, c)\<in>set (user_id_columns vts_schema). settled vts_schema s"
  using vts_settled by blast

lemma vts_refs_before: "refs_before vts_schema"
  by (simp add: vts_schema_def table_defs table_eval)


section \<open>Restricting references\<close>

lemma delete_pass_hit:
  assumes "t \<in> set ss" and "distinct (map tb_name ss)" and "f \<in> set (tb_refs t)" and "rf_action f = Restrict"
    and "r \<in> set (rows_of st (tb_name t))" and "(rf_table f, jget r (rf_col f)) \<in> set gone"
  shows "delete_pass ss n ids gone st = None"
  using assms(1,2,5,6)
proof (induction ss arbitrary: gone st)
  case Nil
  then show ?case by simp
next
  case (Cons s ss)
  show ?case
  proof (cases "t = s")
    case True
    then show ?thesis using Cons.prems(3,4) assms(3,4) by (auto simp: list_ex_iff Let_def)
  next
    case False
    have t: "t \<in> set ss" "distinct (map tb_name ss)" using Cons.prems(1,2) False by auto
    have "tb_name s \<notin> tb_name ` set ss" using Cons.prems(2) by simp
    then have "tb_name t \<noteq> tb_name s" using t(1) by (metis image_eqI)
    then have "r \<in> set (rows_of (dict_set st (tb_name s) xs) (tb_name t))" for xs using Cons.prems(3) by simp
    from Cons.IH [OF t this] Cons.prems(4) show ?thesis by (simp add: Let_def)
  qed
qed

lemma delete_pass_restricts:
  assumes "ss = a @ s # b" and "t \<in> set b" and "distinct (map tb_name ss)" and "d \<in> set (rows_of st (tb_name s))"
    and "jget d (tb_pk s) \<in> set ids" and "f \<in> set (tb_refs t)" and "rf_action f = Restrict" and "rf_table f = tb_name s"
    and "r \<in> set (rows_of st (tb_name t))" and "jget r (rf_col f) = jget d (tb_pk s)"
  shows "delete_pass ss (tb_name s) ids gone st = None"
  using assms(1,3,4,9)
proof (induction a arbitrary: ss gone st)
  case Nil
  have "tb_name s \<notin> tb_name ` set b" using Nil.prems(1,2) by simp
  then have "tb_name t \<noteq> tb_name s" using assms(2) by (metis image_eqI)
  then have "r \<in> set (rows_of (dict_set st (tb_name s) xs) (tb_name t))" for xs using Nil.prems(4) by simp
  moreover have "(rf_table f, jget r (rf_col f)) \<in> set (gone @ map (\<lambda>r. (tb_name s, jget r (tb_pk s)))
      (filter (\<lambda>r. jget r (tb_pk s) \<in> set ids \<or> hit r) (rows_of st (tb_name s))))" for hit
    using Nil.prems(3) assms(5,8,10) by auto
  moreover have "distinct (map tb_name b)" using Nil.prems(1,2) by simp
  ultimately have "delete_pass b (tb_name s) ids (gone @ map (\<lambda>r. (tb_name s, jget r (tb_pk s)))
      (filter (\<lambda>r. jget r (tb_pk s) \<in> set ids \<or> hit r) (rows_of st (tb_name s)))) (dict_set st (tb_name s) xs) = None" for hit xs
    using delete_pass_hit [OF assms(2) _ assms(6,7)] by blast
  then show ?case using Nil.prems(1) by (simp add: Let_def)
next
  case (Cons x a)
  have ss: "ss = x # (a @ s # b)" using Cons.prems(1) by simp
  have d: "distinct (map tb_name (a @ s # b))" "tb_name x \<noteq> tb_name s" "tb_name x \<noteq> tb_name t"
    using Cons.prems(2) assms(2) ss by auto
  have "d \<in> set (rows_of (dict_set st (tb_name x) xs) (tb_name s))" "r \<in> set (rows_of (dict_set st (tb_name x) xs) (tb_name t))" for xs
    using Cons.prems(3,4) d(2,3) by auto
  from Cons.IH [OF refl d(1) this] show ?case by (simp add: ss Let_def)
qed

text \<open>A credential the two accounts both have by name, used by a target of the absorbed one.\<close>

lemma shared_credential_restricts:
  assumes "c1 \<in> set (rows_of st (lit ''delivery_credentials''))" and "c2 \<in> set (rows_of st (lit ''delivery_credentials''))"
    and "t \<in> set (rows_of st (lit ''delivery_targets''))" and "jget c1 (lit ''user_id'') = keep"
    and "jget c2 (lit ''user_id'') = absorb" and "jget c1 (lit ''name'') = jget c2 (lit ''name'')"
    and "jget t (lit ''credential_id'') = jget c2 (lit ''id'')"
  shows "absorb_tables vts_schema keep absorb (user_id_columns vts_schema) (st, m) = Inl IntegrityError"
proof -
  have cols: "user_id_columns vts_schema = (api_tokens_table, lit ''user_id'') # (credentials_table, lit ''user_id'')
     # user_id_columns (drop 2 vts_schema)"
    by (simp add: user_id_columns_def vts_schema_def List.map_filter_simps table_defs table_of_def)
  have k: "unique_keys_involving api_tokens_table (lit ''user_id'') = []"
    "unique_keys_involving credentials_table (lit ''user_id'') = [([lit ''name''], Always)]"
    by (simp_all add: unique_keys_involving_def table_defs table_of_def key_on_def)
  have n: "tb_name api_tokens_table = lit ''api_tokens''" "tb_name credentials_table = lit ''delivery_credentials''"
     "tb_pk credentials_table = lit ''id''" "tb_name targets_table = lit ''delivery_targets''"
     "tb_refs targets_table = [refers ''credential_id'' ''delivery_credentials'' Restrict]"
    by (simp_all add: table_defs table_of_def)
  define st1 where "st1 = dict_set st (lit ''api_tokens'') (map (repoint (lit ''user_id'') keep absorb) (rows_of st (lit ''api_tokens'')))"
  let ?ids = "doomed_ids credentials_table (lit ''user_id'') keep absorb [lit ''name''] Always (rows_of st1 (lit ''delivery_credentials''))"
  have rows: "rows_of st1 (lit ''delivery_credentials'') = rows_of st (lit ''delivery_credentials'')"
    "rows_of st1 (lit ''delivery_targets'') = rows_of st (lit ''delivery_targets'')" by (simp_all add: st1_def)
  let ?own = "\<lambda>i. owned (lit ''user_id'') i Always (rows_of st (lit ''delivery_credentials''))"
  have o: "c1 \<in> set (?own keep)" "c2 \<in> set (?own absorb)" using assms(1,2,4,5) by (simp_all add: owned_def)
  have "key_tuple [lit ''name''] c2 \<in> set (map (key_tuple [lit ''name'']) (?own keep))"
    unfolding in_set_map using o(1) assms(6) by (intro bexI [of _ c1]) (simp_all add: key_tuple_def)
  then have "jget c2 (lit ''id'') \<in> set ?ids"
    unfolding doomed_ids_def rows n(3) in_set_map using o(2) by (intro bexI [of _ c2]) simp_all
  then have "delete_pass vts_schema (tb_name credentials_table) ?ids [] st1 = None"
    using delete_pass_restricts [of vts_schema "[api_tokens_table]" credentials_table "drop 2 vts_schema" targets_table c2 st1 ?ids
        "refers ''credential_id'' ''delivery_credentials'' Restrict" t "[]"] assms(2,3,7) vts_schema_ok
    by (simp add: schema_ok_def rows n refers_def) (simp add: vts_schema_def)
  moreover have "?ids \<noteq> []" using \<open>jget c2 (lit ''id'') \<in> set ?ids\<close> by auto
  ultimately have "drop_colliding_rows vts_schema credentials_table (lit ''user_id'') keep absorb [([lit ''name''], Always)] (st1, 0) = None"
    by (simp add: delete_rows_def n)
  then show ?thesis by (simp add: cols k n session_table_def st1_def Let_def)
qed

section \<open>Moving the directory\<close>

definition clean_name :: "ustr \<Rightarrow> bool" where
  "clean_name h \<longleftrightarrow> 47 \<notin> set h"

lemma clean_takeWhile: "clean_name h \<Longrightarrow> takeWhile (\<lambda>c. c \<noteq> 47) (h @ 47 # q) = h"
  by (induction h) (auto simp: clean_name_def)

lemma file_at_prefix:
  assumes "clean_name h"
  shows "file_at base fs (user_prefix base h @ q)
    = (let n = takeWhile (\<lambda>c. c \<noteq> 47) q in map_option (\<lambda>f. (f, drop (length n) q)) (dict_get (children_of fs h) n))"
proof -
  have "starts_with (base @ [47]) (user_prefix base h @ q)" by (simp add: starts_with_def user_prefix_def)
  moreover have "drop (length base + 1) (user_prefix base h @ q) = h @ 47 # q" by (simp add: user_prefix_def)
  ultimately show ?thesis by (simp add: file_at_def clean_takeWhile [OF assms] Let_def)
qed

lemma children_of_set [simp]: "children_of (dict_set fs d cs) d' = (if d' = d then cs else children_of fs d')"
  by (simp add: children_of_def)

lemma children_of_del [simp]: "children_of (dict_del fs d) d' = (if d' = d then [] else children_of fs d')"
  by (simp add: children_of_def)

lemma rename_children:
  assumes "a \<noteq> b"
  shows "(\<forall>d. d \<noteq> a \<longrightarrow> d \<noteq> b \<longrightarrow> children_of (do_steps (map (RenameChild a b) ns) fs) d = children_of fs d)
    \<and> (\<forall>n. dict_get (children_of (do_steps (map (RenameChild a b) ns) fs) a) n
         = (if n \<in> set ns then None else dict_get (children_of fs a) n))
    \<and> (\<forall>n. dict_get (children_of (do_steps (map (RenameChild a b) ns) fs) b) n
         = (if n \<in> set ns \<and> dict_get (children_of fs a) n \<noteq> None then dict_get (children_of fs a) n else dict_get (children_of fs b) n))"
proof (induction ns arbitrary: fs)
  case Nil
  then show ?case by (simp add: do_steps_def)
next
  case (Cons m ns)
  define fs1 where "fs1 = do_step (RenameChild a b m) fs"
  have s: "do_steps (map (RenameChild a b) (m # ns)) fs = do_steps (map (RenameChild a b) ns) fs1"
    by (simp add: do_steps_def fs1_def)
  have c: "d \<noteq> a \<Longrightarrow> d \<noteq> b \<Longrightarrow> children_of fs1 d = children_of fs d"
    "dict_get (children_of fs1 a) n = (if n = m then None else dict_get (children_of fs a) n)"
    "dict_get (children_of fs1 b) n = (if n = m \<and> dict_get (children_of fs a) m \<noteq> None then dict_get (children_of fs a) m
       else dict_get (children_of fs b) n)" for d n
    using assms by (auto simp: fs1_def split: option.split)
  show ?case using Cons.IH [of fs1] unfolding s by (auto simp: c)
qed

lemma no_children: assumes "\<forall>n. dict_get cs n = None" shows "cs = []"
proof (cases cs)
  case Nil
  then show ?thesis .
next
  case (Cons p cs')
  have "dict_get cs (fst p) \<noteq> None" by (simp add: Cons dict_get_def)
  then show ?thesis using assms by metis
qed

lemma dict_get_mem: "dict_get d k \<noteq> None \<longleftrightarrow> k \<in> fst ` set d"
  unfolding dict_get_def by (induction d) (auto split: if_splits)

text \<open>The children after a complete move.\<close>

lemma moved_children:
  assumes "apply_artifact_move a b fs = Some es" and "a \<noteq> b"
  shows "(\<forall>d. d \<noteq> a \<longrightarrow> d \<noteq> b \<longrightarrow> children_of (do_steps es fs) d = children_of fs d)
    \<and> children_of (do_steps es fs) a = []
    \<and> (\<forall>n. dict_get (children_of (do_steps es fs) b) n
         = (if dict_get (children_of fs a) n \<noteq> None then dict_get (children_of fs a) n else dict_get (children_of fs b) n))"
proof -
  consider "dict_get fs a = None" "es = []" | "dict_get fs a \<noteq> None" "dict_get fs b = None" "es = [RenameDir a b]"
    | "es = map (RenameChild a b) (map fst (children_of fs a)) @ [RemoveDir a]"
    using assms(1) by (auto simp: apply_artifact_move_def split: if_splits)
  then show ?thesis
  proof cases
    case 1
    then show ?thesis by (simp add: do_steps_def children_of_def dict_get_def)
  next
    case 2
    have "children_of fs b = []" by (simp add: children_of_def 2(2))
    then have "dict_get (children_of fs b) n = None" for n by (simp add: dict_get_def)
    then show ?thesis using assms(2) by (simp add: 2(3) do_steps_def)
  next
    case 3
    let ?ns = "map fst (children_of fs a)"
    let ?fs = "do_steps (map (RenameChild a b) ?ns) fs"
    note r = rename_children [OF assms(2), of ?ns fs]
    have "dict_get (children_of ?fs a) n = None" for n
      using r dict_get_mem [of "children_of fs a" n] by auto
    then have e: "children_of ?fs a = []" by (intro no_children) simp
    have "do_steps es fs = dict_del ?fs a" by (simp add: 3 do_steps_def) (use e in \<open>simp add: do_steps_def\<close>)
    then show ?thesis using r e assms(2) dict_get_mem [of "children_of fs a"] by auto
  qed
qed

text \<open>A move that is not refused folds disjoint directories.\<close>

lemma disjoint_children:
  assumes "apply_artifact_move a b fs = Some es" and "dict_get (children_of fs b) n \<noteq> None"
  shows "dict_get (children_of fs a) n = None"
proof -
  have "dict_get fs b \<noteq> None" using assms(2) by (auto simp: children_of_def dict_get_def split: option.splits)
  moreover have "children_of fs a = []" if "dict_get fs a = None" using that by (simp add: children_of_def)
  ultimately show ?thesis
    using assms dict_get_mem [of "children_of fs a" n]
    by (cases "dict_get fs a = None") (auto simp: apply_artifact_move_def list_ex_iff dict_get_def split: if_splits)
qed

lemma dir_kept: "dict_get fs d \<noteq> None \<Longrightarrow> dict_get (do_steps (map (RenameChild a b) ns) fs) d \<noteq> None"
proof (induction ns arbitrary: fs)
  case Nil
  then show ?case by (simp add: do_steps_def)
next
  case (Cons n ns)
  have "dict_get (do_step (RenameChild a b n) fs) d \<noteq> None" using Cons.prems by (auto split: option.split)
  from Cons.IH [OF this] show ?case by (simp add: do_steps_def)
qed

text \<open>A crash, and the move once more.\<close>

lemma move_again_some:
  assumes "apply_artifact_move a b fs = Some es" and "a \<noteq> b" and "dict_get fs a \<noteq> None" and "dict_get fs b \<noteq> None"
    and "fs1 = do_steps (map (RenameChild a b) ns) fs" and "set ns \<subseteq> fst ` set (children_of fs a)"
  shows "\<exists>es'. apply_artifact_move a b fs1 = Some es'
     \<and> (\<forall>d n. dict_get (children_of (do_steps es' fs1) d) n = dict_get (children_of (do_steps es fs) d) n)"
proof -
  note r = rename_children [OF assms(2), of ns fs, folded assms(5)]
  have dirs: "dict_get fs1 a \<noteq> None" "dict_get fs1 b \<noteq> None" unfolding assms(5)
    by (rule dir_kept [OF assms(3)], rule dir_kept [OF assms(4)])
  have in_a: "n \<in> set ns \<Longrightarrow> dict_get (children_of fs a) n \<noteq> None" for n unfolding dict_get_mem using assms(6) by blast
  have "dict_get (children_of fs1 b) n = None" if "n \<in> fst ` set (children_of fs1 a)" for n
  proof -
    have "dict_get (children_of fs1 a) n \<noteq> None" unfolding dict_get_mem by (rule that)
    then have n: "n \<notin> set ns" "dict_get (children_of fs a) n \<noteq> None" using r by (auto split: if_splits)
    then have "dict_get (children_of fs b) n = None" using disjoint_children [OF assms(1), of n] by (cases "dict_get (children_of fs b) n") simp_all
    then show ?thesis using r n(1) by simp
  qed
  then obtain es' where es': "apply_artifact_move a b fs1 = Some es'"
    using dirs by (auto simp: apply_artifact_move_def list_ex_iff)
  note m = moved_children [OF assms(1,2)] and m' = moved_children [OF es' assms(2)]
  have "dict_get (children_of (do_steps es' fs1) d) n = dict_get (children_of (do_steps es fs) d) n" for d n
  proof -
    consider "d = a" | "d = b" "d \<noteq> a" | "d \<noteq> a" "d \<noteq> b" by blast
    then show ?thesis
    proof cases
      case 1
      then show ?thesis using m m' by simp
    next
      case 2
      have A: "dict_get (children_of fs1 a) n = (if n \<in> set ns then None else dict_get (children_of fs a) n)"
        "dict_get (children_of fs1 b) n = (if n \<in> set ns \<and> dict_get (children_of fs a) n \<noteq> None
            then dict_get (children_of fs a) n else dict_get (children_of fs b) n)" using r by blast+
      have "dict_get (children_of (do_steps es' fs1) b) n = (if dict_get (children_of fs1 a) n \<noteq> None
          then dict_get (children_of fs1 a) n else dict_get (children_of fs1 b) n)" using m' by blast
      moreover have "dict_get (children_of (do_steps es fs) b) n = (if dict_get (children_of fs a) n \<noteq> None
          then dict_get (children_of fs a) n else dict_get (children_of fs b) n)" using m by blast
      ultimately show ?thesis using in_a [of n] unfolding 2(1) A by (cases "n \<in> set ns") simp_all
    next
      case 3
      then show ?thesis using m m' r by simp
    qed
  qed
  then show ?thesis using es' by blast
qed

lemma move_again:
  assumes "apply_artifact_move a b fs = Some es" and "a \<noteq> b" and "fs' = do_steps (take k es) fs"
  shows "\<exists>es'. apply_artifact_move a b fs' = Some es'
     \<and> (\<forall>d n. dict_get (children_of (do_steps es' fs') d) n = dict_get (children_of (do_steps es fs) d) n)"
proof -
  let ?ns = "map fst (children_of fs a)"
  have stop: ?thesis if "fs' = do_steps es fs" "dict_get fs' a = None"
    using that by (intro exI [of _ "[]"]) (simp add: apply_artifact_move_def do_steps_def)
  have same: ?thesis if "fs' = fs" using that assms(1) by auto
  have kind: "es = [] \<or> es = [RenameDir a b]
      \<or> (es = map (RenameChild a b) ?ns @ [RemoveDir a] \<and> dict_get fs a \<noteq> None \<and> dict_get fs b \<noteq> None)"
    using assms(1) by (auto simp: apply_artifact_move_def split: if_splits)
  have one: "fs' = fs \<or> fs' = do_steps es fs" if "es = [] \<or> es = [RenameDir a b]"
    using that assms(3) by (cases k) (auto simp: do_steps_def)
  have gone: "dict_get (do_steps [RenameDir a b] fs) a = None" using assms(2) by (simp add: do_steps_def)
  show ?thesis
  proof (cases "es = [] \<or> es = [RenameDir a b]")
    case True
    then show ?thesis using one [OF True] same stop gone by (auto simp: do_steps_def)
  next
    case False
    then have es: "es = map (RenameChild a b) ?ns @ [RemoveDir a]" "dict_get fs a \<noteq> None" "dict_get fs b \<noteq> None"
      using kind by auto
    show ?thesis
    proof (cases "k \<le> length ?ns")
      case True
      then have "fs' = do_steps (map (RenameChild a b) (take k ?ns)) fs" using assms(3) es(1) by (simp add: take_map)
      moreover have "set (take k ?ns) \<subseteq> fst ` set (children_of fs a)" by (auto dest: in_set_takeD)
      ultimately show ?thesis using move_again_some [OF assms(1,2) es(2,3)] by blast
    next
      case False
      then have all: "fs' = do_steps es fs" using assms(3) es(1) by simp
      let ?fs = "do_steps (map (RenameChild a b) ?ns) fs"
      have "dict_get (children_of ?fs a) n = None" for n
        using rename_children [OF assms(2), of ?ns fs] dict_get_mem [of "children_of fs a" n] by auto
      then have "children_of ?fs a = []" by (intro no_children) simp
      then have "do_steps es fs = dict_del ?fs a" by (simp add: es(1) do_steps_def)
      then show ?thesis using stop all by simp
    qed
  qed
qed

section \<open>What a delivery reads\<close>

text \<open>The path stored for a prompt result (\<open>services/prompt_results.py\<close>): an entry of the task's options,
  or the summary column.\<close>

definition resolve_result_path :: "(json \<Rightarrow> ustr) \<Rightarrow> row \<Rightarrow> ustr \<Rightarrow> ustr \<Rightarrow> ustr option" where
  "resolve_result_path rp task source ref =
     (let entries = filter (\<lambda>e. ref_key (py_str rp (jget e (lit ''source''))) (py_str rp (jget e (lit ''id''))) = ref_key source ref)
            (map as_dict (result_entries (jget task (lit ''options''))));
          paths = List.map_filter (\<lambda>e. case jget e (lit ''path'') of JStr p \<Rightarrow> if p = [] then None else Some p | _ \<Rightarrow> None) entries
      in case paths of p # ps \<Rightarrow> Some p
         | [] \<Rightarrow> if source = lit ''system'' \<and> ref = lit ''summary''
                then (case jget task (lit ''summary_path'') of JStr p \<Rightarrow> if p = [] then None else Some p | _ \<Rightarrow> None) else None)"

section \<open>An example\<close>

definition sample_users :: "(json \<times> ustr) list" where
  "sample_users = [(JInt 1, lit ''old''), (JInt 2, lit ''new''), (JInt 3, lit ''third'')]"

definition credential :: "int \<Rightarrow> int \<Rightarrow> string \<Rightarrow> row" where
  "credential i owner name = [(lit ''id'', JInt i), (lit ''user_id'', JInt owner), (lit ''name'', JStr (lit name))]"

definition sample_accounts :: account_db where
  "sample_accounts = \<lparr>ac_users = sample_users, ac_tables = [(lit ''delivery_credentials'',
     [credential 10 1 ''wiki'', credential 11 2 ''wiki'', credential 12 2 ''mail'', credential 13 3 ''wiki''])]\<rparr>"

definition target_row :: row where
  "target_row = [(lit ''id'', JInt 20), (lit ''user_id'', JInt 2), (lit ''name'', JStr (lit ''t'')), (lit ''credential_id'', JInt 11)]"

definition blocked_accounts :: account_db where
  "blocked_accounts = sample_accounts\<lparr>ac_tables := (lit ''delivery_targets'', [target_row]) # ac_tables sample_accounts\<rparr>"

lemma sample_users_ok: "users_ok sample_users"
  by (simp add: users_ok_def sample_users_def)

lemma sample_find: "find_user sample_accounts (lit ''old'') = Some (JInt 1)" "find_user sample_accounts (lit ''new'') = Some (JInt 2)"
  "find_user blocked_accounts (lit ''old'') = Some (JInt 1)" "find_user blocked_accounts (lit ''new'') = Some (JInt 2)"
  by (simp_all add: find_user_def sample_accounts_def blocked_accounts_def sample_users_def)

lemma rows_sample: "rows_of (ac_tables sample_accounts) n = (if n = lit ''delivery_credentials''
     then [credential 10 1 ''wiki'', credential 11 2 ''wiki'', credential 12 2 ''mail'', credential 13 3 ''wiki''] else [])"
  by (simp add: rows_of_def sample_accounts_def dict_get_def)

lemma sample_tables_ok: "tables_ok vts_schema (ac_tables sample_accounts)"
proof -
  have e: "table_ok s []" for s by (simp add: table_ok_def unique_ok_def key_ok_def list_all_iff)
  have "table_ok credentials_table
     [credential 10 1 ''wiki'', credential 11 2 ''wiki'', credential 12 2 ''mail'', credential 13 3 ''wiki'']"
    by (simp add: table_ok_def unique_ok_def key_ok_def table_defs table_eval credential_def jget_def dict_get_def key_tuple_def)
  then have "table_ok s (rows_of (ac_tables sample_accounts) (tb_name s))" if "s \<in> set vts_schema" for s
    using that e unfolding rows_sample by (auto simp: vts_schema_def table_defs table_of_def)
  then show ?thesis by (simp add: tables_ok_def list_all_iff)
qed

lemma sample_unrestricted: "\<not> restricted vts_schema (JInt 1) (JInt 2) (user_id_columns vts_schema) (ac_tables sample_accounts)"
proof -
  have "rows_of (ac_tables sample_accounts) (tb_name t) = []" if "t \<in> set vts_schema" "tb_refs t \<noteq> []" for t
    using that unfolding rows_sample by (auto simp: vts_schema_def table_defs table_of_def)
  then show ?thesis unfolding restricted_def by fastforce
qed

section \<open>Properties\<close>


lemma merge_succeeds_any:
  assumes "find_user db old = Some keep" and "find_user db new = Some absorb" and "keep \<noteq> absorb"
    and "tables_ok vts_schema (ac_tables db)" and "users_ok (ac_users db)"
    and "base = None \<or> in_flight [keep, absorb] (ac_tables db) = 0"
    and "\<not> restricted vts_schema keep absorb (user_id_columns vts_schema) (ac_tables db)"
  shows "\<exists>db' rep. merge_accounts vts_schema hash base old new db = Inr (db', rep) \<and> mg_absorbed rep = Some absorb \<and> mg_kept rep = keep"
proof -
  obtain st n where rv: "revoke_sessions [keep, absorb] (ac_tables db) = (st, n)" by fastforce
  have dist: "distinct (map tb_name vts_schema)" using vts_schema_ok by (simp add: schema_ok_def)
  have cols: "\<forall>(s, c)\<in>set (user_id_columns vts_schema). s \<in> set vts_schema \<and> tb_user s = Some c" by (auto simp: user_columns_mem)
  have nn: "absorb \<noteq> JNull" using assms(5) find_user_mem [OF assms(2)] by (force simp: users_ok_def)
  have sub: "set (rows_of st x) \<subseteq> set (rows_of (ac_tables db) x)" for x using revoke_effect [OF rv, of x] by auto
  have nr: "\<not> restricted vts_schema keep absorb (user_id_columns vts_schema) st"
  proof
    assume "restricted vts_schema keep absorb (user_id_columns vts_schema) st"
    then obtain t f r s c d where x: "t \<in> set vts_schema" "f \<in> set (tb_refs t)" "r \<in> set (rows_of st (tb_name t))"
      "(s, c) \<in> set (user_id_columns vts_schema)" "d \<in> set (rows_of st (tb_name s))" "rf_action f = Restrict"
      "rf_table f = tb_name s" "tb_name s \<noteq> session_table" "jget r (rf_col f) = jget d (tb_pk s)"
      "collides_by c keep absorb (unique_keys_involving s c) (rows_of st (tb_name s)) d"
      unfolding restricted_def by blast
    have "collides_by c keep absorb (unique_keys_involving s c) (rows_of (ac_tables db) (tb_name s)) d"
      by (rule collides_mono [OF x(10) sub subset_refl])
    moreover have "r \<in> set (rows_of (ac_tables db) (tb_name t))" "d \<in> set (rows_of (ac_tables db) (tb_name s))"
      using x(3,5) sub by blast+
    ultimately have "restricted vts_schema keep absorb (user_id_columns vts_schema) (ac_tables db)"
      unfolding restricted_def using x(1,2,4,6-9) by blast
    then show False using assms(7) by contradiction
  qed
  let ?m = "\<lparr>mc_moved = [], mc_dropped = []\<rparr>"
  obtain st1 m where "absorb_tables vts_schema keep absorb (user_id_columns vts_schema) (st, ?m) = Inr (st1, m)"
    using absorb_tables_fails [OF _ vts_schema_ok tables_ok_revoke [OF assms(4) rv] assms(3) nn cols user_columns_names(2) [OF dist], of ?m]
      nr by (cases "absorb_tables vts_schema keep absorb (user_id_columns vts_schema) (st, ?m)") auto
  then show ?thesis using assms(1-3,6) rv
    by (cases base) (auto simp: merge_accounts_def absorb_account_def Let_def split: prod.split)
qed


text \<open>(C10) A merge fails for one reason only. With consistent tables and no task in flight, the merge of two
  existing accounts succeeds, for every contents of the tables, unless a row that is to be dropped as a
  duplicate is the target of a restricting reference: giving rows to the kept account never violates a
  unique key. And no cascade takes rows along, neither from the dropped duplicates nor from the absorbed
  account itself: every table but the sessions has, in order, the rows it had without the duplicates.\<close>

theorem merge_succeeds:
  assumes "find_user db old = Some keep" and "find_user db new = Some absorb" and "keep \<noteq> absorb"
    and "tables_ok vts_schema (ac_tables db)" and "users_ok (ac_users db)"
    and "base = None \<or> in_flight [keep, absorb] (ac_tables db) = 0"
    and "\<not> restricted vts_schema keep absorb (user_id_columns vts_schema) (ac_tables db)"
  shows "\<exists>db' rep. merge_accounts vts_schema hash base old new db = Inr (db', rep) \<and> mg_kept rep = keep
     \<and> mg_absorbed rep = Some absorb \<and> absorb \<notin> fst ` set (ac_users db')
     \<and> (\<forall>t\<in>set vts_schema. tb_name t \<noteq> session_table \<longrightarrow>
          map (\<lambda>r. jget r (tb_pk t)) (rows_of (ac_tables db') (tb_name t))
          = map (\<lambda>r. jget r (tb_pk t)) (filter (\<lambda>r. (tb_name t, jget r (tb_pk t))
                \<notin> dropped_rows (user_id_columns vts_schema) keep absorb (ac_tables db)) (rows_of (ac_tables db) (tb_name t))))"
proof -
  obtain db' rep where m: "merge_accounts vts_schema hash base old new db = Inr (db', rep)"
    "mg_absorbed rep = Some absorb" "mg_kept rep = keep"
    using merge_succeeds_any [OF assms] by blast
  have "fst ` set (ac_users db') = fst ` set (ac_users db) - {absorb}" using merged_users [OF m assms(5)] by blast
  then have "absorb \<notin> fst ` set (ac_users db')" by simp
  then show ?thesis using m merged_keys [OF m vts_schema_ok assms(4,5) vts_refs_before vts_all_settled] by blast
qed

theorem merge_succeeds_witness:
  "\<exists>db' rep. merge_accounts vts_schema (\<lambda>x. x) (Some (lit ''/data'')) (lit ''old'') (lit ''new'') sample_accounts = Inr (db', rep)
     \<and> JInt 2 \<notin> fst ` set (ac_users db')"
proof -
  have u: "users_ok (ac_users sample_accounts)" by (simp add: sample_accounts_def sample_users_ok)
  have "in_flight [JInt 1, JInt 2] (ac_tables sample_accounts) = 0" by (simp add: in_flight_def rows_sample)
  then show ?thesis
    using merge_succeeds [OF sample_find(1,2) _ sample_tables_ok u _ sample_unrestricted, of "Some (lit ''/data'')" "\<lambda>x. x"] by auto
qed

text \<open>(C12) A shared credential name blocks the merge. When both accounts have a delivery credential of one name
  and a target of the absorbed account uses its own, the merge is an \<open>IntegrityError\<close>, however often it
  is tried: the credential is dropped as a duplicate while the target, which is moved later, still
  references it.\<close>

theorem shared_credential_blocks_merge:
  assumes "find_user db old = Some keep" and "find_user db new = Some absorb" and "keep \<noteq> absorb"
    and "base = None \<or> in_flight [keep, absorb] (ac_tables db) = 0"
    and "c1 \<in> set (rows_of (ac_tables db) (lit ''delivery_credentials''))" and "jget c1 (lit ''user_id'') = keep"
    and "c2 \<in> set (rows_of (ac_tables db) (lit ''delivery_credentials''))" and "jget c2 (lit ''user_id'') = absorb"
    and "jget c1 (lit ''name'') = jget c2 (lit ''name'')"
    and "t \<in> set (rows_of (ac_tables db) (lit ''delivery_targets''))" and "jget t (lit ''credential_id'') = jget c2 (lit ''id'')"
  shows "merge_accounts vts_schema hash base old new db = Inl IntegrityError"
proof -
  obtain st n where rv: "revoke_sessions [keep, absorb] (ac_tables db) = (st, n)" by fastforce
  have rows: "rows_of st (lit ''delivery_credentials'') = rows_of (ac_tables db) (lit ''delivery_credentials'')"
    "rows_of st (lit ''delivery_targets'') = rows_of (ac_tables db) (lit ''delivery_targets'')"
    using revoke_effect [OF rv] by (simp_all add: session_table_def)
  have "absorb_tables vts_schema keep absorb (user_id_columns vts_schema) (st, \<lparr>mc_moved = [], mc_dropped = []\<rparr>) = Inl IntegrityError"
    by (rule shared_credential_restricts [of c1 _ c2 t]) (use assms(5-11) rows in auto)
  then show ?thesis using assms(1-4) rv by (auto simp: merge_accounts_def absorb_account_def Let_def)
qed

theorem shared_credential_blocks_merge_witness:
  "merge_accounts vts_schema (\<lambda>x. x) None (lit ''old'') (lit ''new'') blocked_accounts = Inl IntegrityError"
  by (rule shared_credential_blocks_merge [OF sample_find(3,4), of _ "credential 10 1 ''wiki''" "credential 11 2 ''wiki''" target_row])
    (simp_all add: blocked_accounts_def sample_accounts_def rows_of_def dict_get_def credential_def target_row_def jget_def)

text \<open>(C11) Re-addressed paths lead where they led. The directory move that a merge with \<open>--move-artifacts\<close>
  asks for, when it is not refused, keeps every file reachable: the re-addressed form of a path under the
  old directory leads to what the path led to before, and paths under any other directory lead where
  they led. A crash in the middle of the move can be repaired by running it again: it is not refused and
  ends with the same children.\<close>

theorem moved_paths_still_lead:
  assumes "apply_artifact_move a b fs = Some es" and "a \<noteq> b" and "clean_name a" and "clean_name b" and "clean_name h"
    and "fs' = do_steps (take k es) fs"
  shows "(file_at base fs (user_prefix base a @ q) \<noteq> None \<longrightarrow> repath (user_prefix base a) (user_prefix base b) (JStr (user_prefix base a @ q))
         = JStr (user_prefix base b @ q)
       \<and> file_at base (do_steps es fs) (user_prefix base b @ q) = file_at base fs (user_prefix base a @ q))
     \<and> (h \<noteq> a \<longrightarrow> file_at base fs (user_prefix base h @ q) \<noteq> None
         \<longrightarrow> file_at base (do_steps es fs) (user_prefix base h @ q) = file_at base fs (user_prefix base h @ q))
     \<and> (\<exists>es'. apply_artifact_move a b fs' = Some es'
         \<and> (\<forall>d n. dict_get (children_of (do_steps es' fs') d) n = dict_get (children_of (do_steps es fs) d) n))"
proof -
  note mv = moved_children [OF assms(1,2)]
  have r: "repath (user_prefix base a) (user_prefix base b) (JStr (user_prefix base a @ q)) = JStr (user_prefix base b @ q)"
    by (simp add: repath_def starts_with_def)
  have old: "file_at base (do_steps es fs) (user_prefix base b @ q) = file_at base fs (user_prefix base a @ q)"
    if "file_at base fs (user_prefix base a @ q) \<noteq> None"
    using that mv by (auto simp: file_at_prefix [OF assms(3)] file_at_prefix [OF assms(4)] Let_def)
  have other: "file_at base (do_steps es fs) (user_prefix base h @ q) = file_at base fs (user_prefix base h @ q)"
    if "h \<noteq> a" "file_at base fs (user_prefix base h @ q) \<noteq> None"
    using that mv disjoint_children [OF assms(1)]
    by (cases "h = b") (auto simp: file_at_prefix [OF assms(4)] file_at_prefix [OF assms(5)] Let_def)
  show ?thesis using r old other move_again [OF assms(1,2,6)] by blast
qed

definition sample_disk :: "nat disk" where
  "sample_disk = [(lit ''h1'', [(lit ''t1'', 7)]), (lit ''h2'', [(lit ''t2'', 8)])]"

lemma sample_move: "apply_artifact_move (lit ''h1'') (lit ''h2'') sample_disk
    = Some [RenameChild (lit ''h1'') (lit ''h2'') (lit ''t1''), RemoveDir (lit ''h1'')]"
  by (simp add: apply_artifact_move_def sample_disk_def dict_get_def children_of_def)

lemma sample_clean: "clean_name (lit ''h1'')" "clean_name (lit ''h2'')"
  by (simp_all add: clean_name_def lit_def)

lemma sample_file: "file_at (lit ''/d'') sample_disk (user_prefix (lit ''/d'') (lit ''h1'') @ lit ''t1/x'') = Some (7, lit ''/x'')"
  unfolding file_at_prefix [OF sample_clean(1)]
  by (simp add: sample_disk_def children_of_def dict_get_def lit_def)

theorem moved_paths_still_lead_witness:
  "let es = [RenameChild (lit ''h1'') (lit ''h2'') (lit ''t1''), RemoveDir (lit ''h1'')] in
   file_at (lit ''/d'') (do_steps es sample_disk) (user_prefix (lit ''/d'') (lit ''h2'') @ lit ''t1/x'') = Some (7, lit ''/x'')
   \<and> (\<exists>es'. apply_artifact_move (lit ''h1'') (lit ''h2'') (do_steps (take 1 es) sample_disk) = Some es')"
proof -
  have ne: "lit ''h1'' \<noteq> lit ''h2''" by simp
  from moved_paths_still_lead [OF sample_move ne sample_clean sample_clean(1) refl, where k = 1 and base = "lit ''/d''" and q = "lit ''t1/x''"]
  show ?thesis unfolding Let_def sample_file by blast
qed

lemma map_filter_nonempty: "x \<in> set xs \<Longrightarrow> f x \<noteq> None \<Longrightarrow> List.map_filter f xs \<noteq> []"
  by (induction xs) (auto simp: List.map_filter_simps split: option.split)

text \<open>The row of a task of the kept account after a merge with the artifacts moved.\<close>

lemma merged_task:
  assumes "merge_accounts vts_schema hash (Some base) old new db = Inr (db', rep)" and "mg_absorbed rep = Some absorb"
    and "tables_ok vts_schema (ac_tables db)" and "users_ok (ac_users db)"
    and "r \<in> set (rows_of (ac_tables db) (lit ''tasks''))" and "jget r (lit ''user_id'') = mg_kept rep"
  shows "\<exists>r'. {z \<in> set (rows_of (ac_tables db') (lit ''tasks'')). jget z (lit ''id'') = jget r (lit ''id'')} = {r'}
     \<and> (\<forall>y. jget r' y = (if y \<in> set (path_columns tasks_table)
          then repath (user_prefix base (hash old)) (user_prefix base (hash new)) (jget r y) else jget r y))"
proof -
  have T: "(tasks_table, lit ''user_id'') \<in> set (user_id_columns vts_schema)" "tb_name tasks_table = lit ''tasks''"
    "tasks_table \<in> set vts_schema" "tb_pk tasks_table = lit ''id''" "tb_name tasks_table \<noteq> session_table"
    by (simp_all add: user_columns_mem vts_schema_def) (simp_all add: tasks_table_def table_of_def session_table_def)
  note t = merged_tables [OF assms(1,2) refl vts_schema_ok assms(3,4)]
  let ?rows = "rows_of (ac_tables db) (lit ''tasks'')"
  let ?f = "readdressed hash (Some base) old new (mg_kept rep) tasks_table (lit ''user_id'')"
  have k: "unique_keys_involving tasks_table (lit ''user_id'') = []" by (simp add: tasks_table_def table_of_def unique_keys_involving_def)
  have "absorbed_rows tasks_table (lit ''user_id'') (mg_kept rep) absorb ?rows = map (repoint (lit ''user_id'') (mg_kept rep) absorb) ?rows"
    by (simp add: absorbed_rows_def k collides_by_def)
  then have rows: "rows_of (ac_tables db') (lit ''tasks'') = map ?f (map (repoint (lit ''user_id'') (mg_kept rep) absorb) ?rows)"
    using t T vts_settled [OF T(1)] by (fastforce simp: merged_rows_def)
  let ?r = "?f r"
  have "repoint (lit ''user_id'') (mg_kept rep) absorb r = r \<or> mg_kept rep = absorb" using assms(6) by (auto simp: repoint_def)
  moreover have "mg_kept rep \<noteq> absorb" by (rule merge_stages [OF assms(1,2) refl vts_schema_ok assms(3,4)]) blast
  ultimately have mem: "?r \<in> set (rows_of (ac_tables db') (lit ''tasks''))" using assms(5) unfolding rows by force
  have id: "jget ?r (lit ''id'') = jget r (lit ''id'')"
    by (simp add: readdressed_def readdress_cell tasks_table_def table_of_def path_columns_def)
  have "table_ok tasks_table (rows_of (ac_tables db') (lit ''tasks''))"
    using t T(2,3) by (auto simp: tables_ok_def list_all_iff)
  then have "inj_on (\<lambda>r. jget r (lit ''id'')) (set (rows_of (ac_tables db') (lit ''tasks'')))"
    by (simp add: table_ok_def T(4) distinct_map)
  then have "{z \<in> set (rows_of (ac_tables db') (lit ''tasks'')). jget z (lit ''id'') = jget r (lit ''id'')} = {?r}"
    using mem id by (auto simp: inj_on_def)
  then show ?thesis using assms(6) by (intro exI [of _ ?r]) (simp add: readdressed_def readdress_cell)
qed

lemma entry_path_first:
  assumes "\<exists>e\<in>set (result_entries (jget r (lit ''options''))). jget (as_dict e) (lit ''path'') = JStr (user_prefix base a @ q)
      \<and> ref_key (py_str rp (jget (as_dict e) (lit ''source''))) (py_str rp (jget (as_dict e) (lit ''id''))) = ref_key source ref"
    and o: "jget r' (lit ''options'') = jget r (lit ''options'')"
  shows "resolve_result_path rp r' source ref = resolve_result_path rp r source ref"
proof -
  let ?m = "\<lambda>e. ref_key (py_str rp (jget e (lit ''source''))) (py_str rp (jget e (lit ''id''))) = ref_key source ref"
  let ?f = "\<lambda>e. case jget e (lit ''path'') of JStr p \<Rightarrow> if p = [] then None else Some p | _ \<Rightarrow> None"
  have ne: "user_prefix base a @ q \<noteq> []" by (simp add: user_prefix_def)
  obtain e where e: "e \<in> set (result_entries (jget r (lit ''options'')))"
    "jget (as_dict e) (lit ''path'') = JStr (user_prefix base a @ q)" "?m (as_dict e)" using assms(1) by blast
  have "as_dict e \<in> set (filter ?m (map as_dict (result_entries (jget r (lit ''options'')))))" using e(1,3) by simp
  moreover have "?f (as_dict e) \<noteq> None" using e(2) ne by simp
  ultimately have "List.map_filter ?f (filter ?m (map as_dict (result_entries (jget r (lit ''options''))))) \<noteq> []"
    by (rule map_filter_nonempty)
  then obtain p ps where "List.map_filter ?f (filter ?m (map as_dict (result_entries (jget r (lit ''options''))))) = p # ps"
    by (meson neq_Nil_conv)
  then show ?thesis unfolding resolve_result_path_def o Let_def by simp
qed

text \<open>(C13) Result paths are left behind. The path of a prompt result is stored inside the options, a JSON
  column, and \<open>--move-artifacts\<close> re-addresses path columns only. Take a task of the kept account with a
  result under its directory. After a merge that absorbed an account, with the artifacts moved, the task's
  row has its own directory re-addressed, but the result's path still names the old directory, where
  nothing stands any more, although the file is there under the new address. The summary goes the same
  way, since its entry is looked up before its column.\<close>

theorem result_paths_left_behind:
  assumes "merge_accounts vts_schema hash (Some base) old new db = Inr (db', rep)" and "mg_absorbed rep = Some absorb"
    and "tables_ok vts_schema (ac_tables db)" and "users_ok (ac_users db)"
    and "r \<in> set (rows_of (ac_tables db) (lit ''tasks''))" and "jget r (lit ''user_id'') = mg_kept rep"
    and "\<exists>e\<in>set (result_entries (jget r (lit ''options''))). jget (as_dict e) (lit ''path'') = JStr (user_prefix base (hash old) @ q)
        \<and> ref_key (py_str rp (jget (as_dict e) (lit ''source''))) (py_str rp (jget (as_dict e) (lit ''id''))) = ref_key source ref"
    and "resolve_result_path rp r source ref = Some (user_prefix base (hash old) @ q)"
    and "apply_artifact_move (hash old) (hash new) fs = Some es" and "hash old \<noteq> hash new"
    and "clean_name (hash old)" and "clean_name (hash new)"
    and "file_at base fs (user_prefix base (hash old) @ q) = Some x"
  shows "\<exists>r'. {z \<in> set (rows_of (ac_tables db') (lit ''tasks'')). jget z (lit ''id'') = jget r (lit ''id'')} = {r'}
     \<and> jget r' (lit ''artifact_dir'') = repath (user_prefix base (hash old)) (user_prefix base (hash new)) (jget r (lit ''artifact_dir''))
     \<and> resolve_result_path rp r' source ref = Some (user_prefix base (hash old) @ q)
     \<and> file_at base (do_steps es fs) (user_prefix base (hash old) @ q) = None
     \<and> file_at base (do_steps es fs) (user_prefix base (hash new) @ q) = Some x"
proof -
  obtain r' where r': "{z \<in> set (rows_of (ac_tables db') (lit ''tasks'')). jget z (lit ''id'') = jget r (lit ''id'')} = {r'}"
    and cells: "\<forall>y. jget r' y = (if y \<in> set (path_columns tasks_table)
       then repath (user_prefix base (hash old)) (user_prefix base (hash new)) (jget r y) else jget r y)"
    using merged_task [OF assms(1-6)] by blast
  have cols: "lit ''options'' \<notin> set (path_columns tasks_table)" "lit ''artifact_dir'' \<in> set (path_columns tasks_table)"
    by (simp_all add: table_defs table_of_def path_columns_def)
  have o: "jget r' (lit ''options'') = jget r (lit ''options'')" using cells cols(1) by simp
  have res: "resolve_result_path rp r' source ref = Some (user_prefix base (hash old) @ q)"
    using entry_path_first [OF assms(7) o] assms(8) by simp
  note mv = moved_children [OF assms(9,10)]
  have "file_at base (do_steps es fs) (user_prefix base (hash old) @ q) = None"
    using mv by (simp add: file_at_prefix [OF assms(11)] Let_def dict_get_def)
  moreover have "file_at base (do_steps es fs) (user_prefix base (hash new) @ q) = Some x"
    using mv assms(13) by (auto simp: file_at_prefix [OF assms(11)] file_at_prefix [OF assms(12)] Let_def)
  ultimately show ?thesis using r' res cells cols(2) by (intro exI [of _ r']) simp
qed

definition result_task :: row where
  "result_task = [(lit ''id'', JInt 5), (lit ''user_id'', JInt 1), (lit ''status'', JStr (lit ''completed'')), (lit ''options'', JDict [(lit ''prompt_results'', JList
     [JDict [(lit ''source'', JStr (lit ''user'')), (lit ''id'', JStr (lit ''p'')),
             (lit ''path'', JStr (user_prefix (lit ''/d'') (lit ''h1'') @ lit ''t1/x''))]])])]"

text \<open>The directories of the accounts are named by the hashes.\<close>

definition sample_hash :: "ustr \<Rightarrow> ustr" where
  "sample_hash x = (if x = lit ''old'' then lit ''h1'' else lit ''h2'')"

definition result_accounts :: account_db where
  "result_accounts = \<lparr>ac_users = sample_users, ac_tables = [(lit ''tasks'', [result_task])]\<rparr>"

lemma rows_result: "rows_of (ac_tables result_accounts) n = (if n = lit ''tasks'' then [result_task] else [])"
  by (simp add: rows_of_def result_accounts_def dict_get_def)

lemma result_tables_ok: "tables_ok vts_schema (ac_tables result_accounts)"
proof -
  have e: "table_ok s []" for s by (simp add: table_ok_def unique_ok_def key_ok_def list_all_iff)
  have "table_ok tasks_table [result_task]"
    by (simp add: table_ok_def unique_ok_def table_defs table_eval result_task_def jget_def dict_get_def)
  then have "table_ok s (rows_of (ac_tables result_accounts) (tb_name s))" if "s \<in> set vts_schema" for s
    using that e unfolding rows_result by (auto simp: vts_schema_def table_defs table_of_def)
  then show ?thesis by (simp add: tables_ok_def list_all_iff)
qed

lemma result_unrestricted: "\<not> restricted vts_schema (JInt 1) (JInt 2) (user_id_columns vts_schema) (ac_tables result_accounts)"
proof -
  have "rows_of (ac_tables result_accounts) (tb_name t) = []" if "t \<in> set vts_schema" "tb_refs t \<noteq> []" for t
    using that unfolding rows_result by (auto simp: vts_schema_def table_defs table_of_def)
  then show ?thesis unfolding restricted_def by fastforce
qed

theorem result_paths_left_behind_witness:
  "\<exists>db' rep r'. merge_accounts vts_schema sample_hash (Some (lit ''/d'')) (lit ''old'') (lit ''new'') result_accounts = Inr (db', rep)
     \<and> r' \<in> set (rows_of (ac_tables db') (lit ''tasks''))
     \<and> resolve_result_path (\<lambda>_. []) r' (lit ''user'') (lit ''p'') = Some (user_prefix (lit ''/d'') (lit ''h1'') @ lit ''t1/x'')"
proof -
  have u: "users_ok (ac_users result_accounts)" by (simp add: result_accounts_def sample_users_ok)
  have f: "find_user result_accounts (lit ''old'') = Some (JInt 1)" "find_user result_accounts (lit ''new'') = Some (JInt 2)"
    by (simp_all add: find_user_def result_accounts_def sample_users_def)
  have h: "sample_hash (lit ''old'') = lit ''h1''" "sample_hash (lit ''new'') = lit ''h2''" by (simp_all add: sample_hash_def)
  have "in_flight [JInt 1, JInt 2] (ac_tables result_accounts) = 0"
    by (simp add: in_flight_def rows_result result_task_def jget_def dict_get_def terminal_statuses_def)
  then obtain db' rep where m: "merge_accounts vts_schema sample_hash (Some (lit ''/d'')) (lit ''old'') (lit ''new'') result_accounts = Inr (db', rep)"
    "mg_absorbed rep = Some (JInt 2)" "mg_kept rep = JInt 1"
    using merge_succeeds_any [OF f _ result_tables_ok u _ result_unrestricted, of "Some (lit ''/d'')" sample_hash] by auto
  have ne: "lit ''h1'' \<noteq> lit ''h2''" by simp
  have r: "result_task \<in> set (rows_of (ac_tables result_accounts) (lit ''tasks''))" "jget result_task (lit ''user_id'') = mg_kept rep"
    unfolding rows_result m(3) by (simp_all add: result_task_def jget_def dict_get_def)
  have p: "resolve_result_path (\<lambda>_. []) result_task (lit ''user'') (lit ''p'') = Some (user_prefix (lit ''/d'') (lit ''h1'') @ lit ''t1/x'')"
    by (simp add: resolve_result_path_def result_task_def jget_def dict_get_def result_entries_def List.map_filter_simps user_prefix_def)
  have e: "\<exists>e\<in>set (result_entries (jget result_task (lit ''options''))).
      jget (as_dict e) (lit ''path'') = JStr (user_prefix (lit ''/d'') (lit ''h1'') @ lit ''t1/x'')
      \<and> ref_key (py_str (\<lambda>_. []) (jget (as_dict e) (lit ''source''))) (py_str (\<lambda>_. []) (jget (as_dict e) (lit ''id'')))
        = ref_key (lit ''user'') (lit ''p'')"
    by (simp add: result_task_def jget_def dict_get_def result_entries_def)
  from result_paths_left_behind [OF m(1,2) result_tables_ok u r, unfolded h, OF e p sample_move ne sample_clean sample_file] m(1)
  show ?thesis by blast
qed

end
