(* ===== verification/Speaker_Registry.thy ===== *)
theory Speaker_Registry
  imports Task_Control
begin

text \<open>
  The speaker registry (the speaker part of \<open>db/repo.py\<close>): the people a user knows, the voice
  fragments filed under them, and the decisions that bind the voices of a task to people.

  A table is the list of its rows. Identifiers and clocks are arguments of the operations that insert.
  Deleting a person deletes its fragments and clears the references of the decisions, as the foreign
  keys of \<open>db/models.py\<close> say (\<open>CASCADE\<close>, \<open>SET NULL\<close>). The cosine distance is the database extension's
  and a parameter, as is the collation by which the database orders names.
\<close>

section \<open>Tables\<close>

record speaker =
  sp_id :: uuid
  sp_user :: uuid
  sp_name :: ustr

record voice_sample =
  vs_id :: uuid
  vs_speaker :: uuid
  vs_embedding :: "real list"
  vs_model :: ustr
  vs_audio :: "nat list"
  vs_format :: ustr
  vs_duration :: rat
  vs_task :: "uuid option"
  vs_created :: instant

record match_decision =
  md_id :: uuid
  md_user :: uuid
  md_task :: "uuid option"
  md_label :: ustr
  md_speaker :: "uuid option"
  md_sample :: "uuid option"
  md_distance :: "real option"
  md_model :: ustr
  md_outcome :: ustr
  md_noise :: bool
  md_created :: instant

record registry =
  rg_speakers :: "speaker list"
  rg_samples :: "voice_sample list"
  rg_decisions :: "match_decision list"

section \<open>People\<close>

definition create_speaker :: "uuid \<Rightarrow> uuid \<Rightarrow> ustr \<Rightarrow> registry \<Rightarrow> registry" where
  "create_speaker i user name rg = rg\<lparr>rg_speakers := rg_speakers rg @ [\<lparr>sp_id = i, sp_user = user, sp_name = name\<rparr>]\<rparr>"

definition list_speakers :: "(ustr \<Rightarrow> 'n::linorder) \<Rightarrow> uuid \<Rightarrow> registry \<Rightarrow> speaker list" where
  "list_speakers collation user rg = sort_key (\<lambda>s. collation (sp_name s)) (filter (\<lambda>s. sp_user s = user) (rg_speakers rg))"

definition get_speaker :: "uuid \<Rightarrow> uuid \<Rightarrow> registry \<Rightarrow> speaker option" where
  "get_speaker user i rg = find (\<lambda>s. sp_id s = i \<and> sp_user s = user) (rg_speakers rg)"

definition rename_speaker :: "uuid \<Rightarrow> uuid \<Rightarrow> ustr \<Rightarrow> registry \<Rightarrow> registry option" where
  "rename_speaker user i name rg = (case get_speaker user i rg of None \<Rightarrow> None
     | Some s \<Rightarrow> Some (rg\<lparr>rg_speakers := map (\<lambda>s. if sp_id s = i then s\<lparr>sp_name := name\<rparr> else s) (rg_speakers rg)\<rparr>))"

text \<open>The fragments that satisfy a condition go, and the decisions no longer name them.\<close>

definition remove_samples :: "(voice_sample \<Rightarrow> bool) \<Rightarrow> registry \<Rightarrow> registry" where
  "remove_samples gone rg =
     (let ids = map vs_id (filter gone (rg_samples rg)) in
      rg\<lparr>rg_samples := filter (\<lambda>v. \<not> gone v) (rg_samples rg),
         rg_decisions := map (\<lambda>d. case md_sample d of None \<Rightarrow> d
           | Some i \<Rightarrow> if i \<in> set ids then d\<lparr>md_sample := None\<rparr> else d) (rg_decisions rg)\<rparr>)"

text \<open>\<open>session.delete(speaker)\<close>.\<close>

definition delete_speaker_row :: "uuid \<Rightarrow> registry \<Rightarrow> registry" where
  "delete_speaker_row i rg =
     (let rg1 = remove_samples (\<lambda>v. vs_speaker v = i) rg in
      rg1\<lparr>rg_speakers := filter (\<lambda>s. sp_id s \<noteq> i) (rg_speakers rg1),
          rg_decisions := map (\<lambda>d. if md_speaker d = Some i then d\<lparr>md_speaker := None\<rparr> else d) (rg_decisions rg1)\<rparr>)"

definition delete_speaker :: "uuid \<Rightarrow> uuid \<Rightarrow> registry \<Rightarrow> registry option" where
  "delete_speaker user i rg = (case get_speaker user i rg of None \<Rightarrow> None | Some s \<Rightarrow> Some (delete_speaker_row i rg))"

text \<open>\<open>LIKE\<close> of SQL, which \<open>ilike\<close> applies to the lower-cased texts: \<open>%\<close> is any text, \<open>_\<close> any
  character, and a backslash takes the next character as it is.\<close>

fun sql_like :: "ustr \<Rightarrow> ustr \<Rightarrow> bool" where
  "sql_like [] t = (t = [])"
| "sql_like (p # ps) t =
     (if p = 37 then sql_like ps t \<or> (case t of [] \<Rightarrow> False | c # cs \<Rightarrow> sql_like (p # ps) cs)
      else if p = 92 then (case ps of [] \<Rightarrow> False
        | q # qs \<Rightarrow> (case t of [] \<Rightarrow> False | c # cs \<Rightarrow> c = q \<and> sql_like qs cs))
      else (case t of [] \<Rightarrow> False | c # cs \<Rightarrow> (p = 95 \<or> c = p) \<and> sql_like ps cs))"

definition speakers_by_name :: "unicode \<Rightarrow> (ustr \<Rightarrow> 'n::linorder) \<Rightarrow> uuid \<Rightarrow> ustr \<Rightarrow> registry \<Rightarrow> speaker list" where
  "speakers_by_name uc collation user name rg =
     (let needle = strip name in
      if needle = [] then []
      else sort_key (\<lambda>s. collation (sp_name s)) (filter (\<lambda>s. sp_user s = user
             \<and> sql_like (uc_lower uc (37 # needle @ [37])) (uc_lower uc (sp_name s))) (rg_speakers rg)))"

section \<open>Voice fragments\<close>

definition add_voice_sample :: "voice_sample \<Rightarrow> registry \<Rightarrow> registry" where
  "add_voice_sample v rg = rg\<lparr>rg_samples := rg_samples rg @ [v]\<rparr>"

definition list_voice_samples :: "uuid \<Rightarrow> registry \<Rightarrow> voice_sample list" where
  "list_voice_samples i rg =
     rev (sort_key (\<lambda>v. RowKey (vs_created v) (vs_id v)) (filter (\<lambda>v. vs_speaker v = i) (rg_samples rg)))"

text \<open>Fragments belong to a user through their speaker.\<close>

definition users_speaker :: "uuid \<Rightarrow> registry \<Rightarrow> uuid \<Rightarrow> bool" where
  "users_speaker user rg i = list_ex (\<lambda>s. sp_id s = i \<and> sp_user s = user) (rg_speakers rg)"

definition get_voice_sample :: "uuid \<Rightarrow> uuid \<Rightarrow> registry \<Rightarrow> voice_sample option" where
  "get_voice_sample user i rg = find (\<lambda>v. vs_id v = i \<and> users_speaker user rg (vs_speaker v)) (rg_samples rg)"

definition delete_voice_sample :: "uuid \<Rightarrow> uuid \<Rightarrow> registry \<Rightarrow> registry option" where
  "delete_voice_sample user i rg = (case get_voice_sample user i rg of None \<Rightarrow> None
     | Some v \<Rightarrow> Some (remove_samples (\<lambda>v. vs_id v = i) rg))"

definition load_sample_audio :: "uuid \<Rightarrow> uuid \<Rightarrow> registry \<Rightarrow> (nat list \<times> ustr) option" where
  "load_sample_audio user i rg = map_option (\<lambda>v. (vs_audio v, vs_format v)) (get_voice_sample user i rg)"

definition reassign_speaker_samples :: "uuid \<Rightarrow> uuid \<Rightarrow> uuid \<Rightarrow> registry \<Rightarrow> registry \<times> nat" where
  "reassign_speaker_samples user source target rg =
     (if get_speaker user source rg = None \<or> get_speaker user target rg = None then (rg, 0)
      else (rg\<lparr>rg_samples := map (\<lambda>v. if vs_speaker v = source then v\<lparr>vs_speaker := target\<rparr> else v) (rg_samples rg)\<rparr>,
            length (filter (\<lambda>v. vs_speaker v = source) (rg_samples rg))))"

definition move_voice_sample :: "uuid \<Rightarrow> uuid \<Rightarrow> uuid \<Rightarrow> registry \<Rightarrow> registry option" where
  "move_voice_sample user i target rg =
     (if get_voice_sample user i rg = None \<or> get_speaker user target rg = None then None
      else Some (rg\<lparr>rg_samples := map (\<lambda>v. if vs_id v = i then v\<lparr>vs_speaker := target\<rparr> else v) (rg_samples rg)\<rparr>))"

text \<open>The nearest fragment of a person among some of the fragments.\<close>

definition nearest_of :: "(real list \<Rightarrow> real list \<Rightarrow> real) \<Rightarrow> real list \<Rightarrow> voice_sample list \<Rightarrow> speaker \<Rightarrow> real option" where
  "nearest_of cosine e vs s =
     (let ds = map (\<lambda>v. cosine (vs_embedding v) e) (filter (\<lambda>v. vs_speaker v = sp_id s) vs) in
      if ds = [] then None else Some (Min (set ds)))"

definition limited :: "nat option \<Rightarrow> 'a list \<Rightarrow> 'a list" where
  "limited limit xs = (case limit of None \<Rightarrow> xs | Some n \<Rightarrow> take n xs)"

text \<open>The people with a fragment of the model, nearest first.\<close>

definition nearest_speakers ::
  "(real list \<Rightarrow> real list \<Rightarrow> real) \<Rightarrow> uuid \<Rightarrow> real list \<Rightarrow> ustr \<Rightarrow> nat option \<Rightarrow> registry \<Rightarrow> (speaker \<times> real) list" where
  "nearest_speakers cosine user e model limit rg =
     limited limit (sort_key snd (List.map_filter
       (\<lambda>s. map_option (Pair s) (nearest_of cosine e (filter (\<lambda>v. vs_model v = model) (rg_samples rg)) s))
       (filter (\<lambda>s. sp_user s = user) (rg_speakers rg))))"

text \<open>Every other person, those without a comparable fragment last.\<close>

definition move_candidates_for_sample ::
  "(real list \<Rightarrow> real list \<Rightarrow> real) \<Rightarrow> (ustr \<Rightarrow> 'n::linorder) \<Rightarrow> uuid \<Rightarrow> uuid \<Rightarrow> nat option \<Rightarrow> registry \<Rightarrow> (speaker \<times> real option) list" where
  "move_candidates_for_sample cosine collation user i limit rg =
     (case get_voice_sample user i rg of None \<Rightarrow> []
      | Some v \<Rightarrow>
         (let vs = filter (\<lambda>x. vs_model x = vs_model v \<and> vs_id x \<noteq> i) (rg_samples rg);
              people = sort_key (\<lambda>s. collation (sp_name s))
                (filter (\<lambda>s. sp_user s = user \<and> sp_id s \<noteq> vs_speaker v) (rg_speakers rg));
              rows = map (\<lambda>s. (s, nearest_of cosine (vs_embedding v) vs s)) people
          in limited limit (sort_key (\<lambda>r. the (snd r)) (filter (\<lambda>r. snd r \<noteq> None) rows) @ filter (\<lambda>r. snd r = None) rows)))"

section \<open>Decisions\<close>

definition record_decision :: "match_decision \<Rightarrow> registry \<Rightarrow> registry" where
  "record_decision d rg = rg\<lparr>rg_decisions := rg_decisions rg @ [d]\<rparr>"

definition in_order :: "match_decision list \<Rightarrow> match_decision list" where
  "in_order ds = sort_key (\<lambda>d. RowKey (md_created d) (md_id d)) ds"

definition task_decisions :: "uuid \<Rightarrow> uuid \<Rightarrow> registry \<Rightarrow> match_decision list" where
  "task_decisions user t rg = in_order (filter (\<lambda>d. md_user d = user \<and> md_task d = Some t) (rg_decisions rg))"

definition name_of :: "registry \<Rightarrow> uuid \<Rightarrow> ustr option" where
  "name_of rg i = map_option sp_name (find (\<lambda>s. sp_id s = i) (rg_speakers rg))"

text \<open>The inner join of a decision with its person.\<close>

definition joined_name :: "registry \<Rightarrow> match_decision \<Rightarrow> ustr option" where
  "joined_name rg d = (case md_speaker d of None \<Rightarrow> None | Some i \<Rightarrow> name_of rg i)"

definition put_name :: "registry \<Rightarrow> (ustr \<times> ustr) list \<Rightarrow> match_decision \<Rightarrow> (ustr \<times> ustr) list" where
  "put_name rg m d = (case joined_name rg d of None \<Rightarrow> m | Some n \<Rightarrow> dict_set m (md_label d) n)"

definition speaker_names_for_task :: "uuid \<Rightarrow> uuid \<Rightarrow> registry \<Rightarrow> (ustr \<times> ustr) list" where
  "speaker_names_for_task user t rg = foldl (put_name rg) [] (task_decisions user t rg)"

definition diarized_task_ids :: "uuid \<Rightarrow> registry \<Rightarrow> uuid list" where
  "diarized_task_ids user rg = remdups (List.map_filter (\<lambda>d. if md_user d = user \<and> md_speaker d \<noteq> None then md_task d else None)
     (rg_decisions rg))"

definition tasks_featuring_speaker :: "uuid \<Rightarrow> uuid \<Rightarrow> registry \<Rightarrow> uuid list" where
  "tasks_featuring_speaker user i rg = remdups (List.map_filter (\<lambda>d. if md_user d = user \<and> md_speaker d = Some i then md_task d else None)
     (rg_decisions rg))"

text \<open>A whole page of tasks at once.\<close>

definition page_decisions :: "uuid \<Rightarrow> uuid list \<Rightarrow> registry \<Rightarrow> match_decision list" where
  "page_decisions user ts rg =
     in_order (filter (\<lambda>d. md_user d = user \<and> (case md_task d of None \<Rightarrow> False | Some t \<Rightarrow> t \<in> set ts)) (rg_decisions rg))"

definition dict_or :: "('k \<times> 'v) list \<Rightarrow> 'k \<Rightarrow> 'v \<Rightarrow> 'v" where
  "dict_or m k v = (case dict_get m k of None \<Rightarrow> v | Some x \<Rightarrow> x)"

definition put_cast :: "registry \<Rightarrow> (uuid \<times> ustr list) list \<Rightarrow> match_decision \<Rightarrow> (uuid \<times> ustr list) list" where
  "put_cast rg m d = (case (md_task d, joined_name rg d) of
       (Some t, Some n) \<Rightarrow> (let names = dict_or m t [] in dict_set m t (if n \<in> set names then names else names @ [n]))
     | _ \<Rightarrow> m)"

definition speaker_names_for_tasks :: "uuid \<Rightarrow> uuid list \<Rightarrow> registry \<Rightarrow> (uuid \<times> ustr list) list" where
  "speaker_names_for_tasks user ts rg = (if ts = [] then [] else foldl (put_cast rg) [] (page_decisions user ts rg))"

definition put_label :: "registry \<Rightarrow> (uuid \<times> (ustr \<times> ustr) list) list \<Rightarrow> match_decision \<Rightarrow> (uuid \<times> (ustr \<times> ustr) list) list" where
  "put_label rg m d = (case (md_task d, joined_name rg d) of
       (Some t, Some n) \<Rightarrow> dict_set m t (dict_set (dict_or m t []) (md_label d) n)
     | _ \<Rightarrow> m)"

definition speaker_labels_for_tasks :: "uuid \<Rightarrow> uuid list \<Rightarrow> registry \<Rightarrow> (uuid \<times> (ustr \<times> ustr) list) list" where
  "speaker_labels_for_tasks user ts rg = (if ts = [] then [] else foldl (put_label rg) [] (page_decisions user ts rg))"

text \<open>The outer join: what the operator decided last for each label.\<close>

record decided =
  dc_speaker :: "uuid option"
  dc_name :: "ustr option"
  dc_noise :: bool

definition decided_of :: "registry \<Rightarrow> match_decision \<Rightarrow> decided" where
  "decided_of rg d = \<lparr>dc_speaker = (if joined_name rg d = None then None else md_speaker d),
     dc_name = joined_name rg d, dc_noise = md_noise d\<rparr>"

definition decisions_for_task :: "uuid \<Rightarrow> uuid \<Rightarrow> registry \<Rightarrow> (ustr \<times> decided) list" where
  "decisions_for_task user t rg = foldl (\<lambda>m d. dict_set m (md_label d) (decided_of rg d)) [] (task_decisions user t rg)"

definition noise_labels_from_decisions :: "uuid \<Rightarrow> uuid \<Rightarrow> registry \<Rightarrow> ustr list" where
  "noise_labels_from_decisions user t rg =
     map fst (filter snd (foldl (\<lambda>m d. dict_set m (md_label d) (md_noise d)) [] (task_decisions user t rg)))"

definition has_decisions_for_task :: "uuid \<Rightarrow> uuid \<Rightarrow> registry \<Rightarrow> bool" where
  "has_decisions_for_task user t rg = list_ex (\<lambda>d. md_user d = user \<and> md_task d = Some t) (rg_decisions rg)"

definition merge_speakers :: "uuid \<Rightarrow> uuid \<Rightarrow> uuid \<Rightarrow> registry \<Rightarrow> registry option" where
  "merge_speakers user source target rg =
     (if source = target then None
      else if get_speaker user source rg = None \<or> get_speaker user target rg = None then None
      else (let rg1 = fst (reassign_speaker_samples user source target rg);
                rg2 = rg1\<lparr>rg_decisions := map (\<lambda>d. if md_user d = user \<and> md_speaker d = Some source
                  then d\<lparr>md_speaker := Some target\<rparr> else d) (rg_decisions rg1)\<rparr>
            in Some (delete_speaker_row source rg2)))"

text \<open>The newest decision for a label: its person and its fragment.\<close>

definition find_prior_decision_sample :: "uuid \<Rightarrow> uuid \<Rightarrow> ustr \<Rightarrow> registry \<Rightarrow> (uuid option \<times> uuid option) option" where
  "find_prior_decision_sample user t l rg =
     (case rev (sort_key md_created (filter (\<lambda>d. md_user d = user \<and> md_task d = Some t \<and> md_label d = l) (rg_decisions rg))) of
        [] \<Rightarrow> None | d # ds \<Rightarrow> Some (md_speaker d, md_sample d))"

section \<open>Endpoints\<close>

text \<open>\<open>Inl\<close> is the HTTP status of a refusal (\<open>api/routers/speakers.py\<close>).\<close>

definition list_speakers_endpoint :: "(ustr \<Rightarrow> 'n::linorder) \<Rightarrow> uuid \<Rightarrow> registry \<Rightarrow> (uuid \<times> ustr \<times> nat) list" where
  "list_speakers_endpoint collation user rg =
     map (\<lambda>s. (sp_id s, sp_name s, length (list_voice_samples (sp_id s) rg))) (list_speakers collation user rg)"

definition rename_speaker_endpoint :: "uuid \<Rightarrow> uuid \<Rightarrow> ustr \<Rightarrow> registry \<Rightarrow> nat + registry" where
  "rename_speaker_endpoint user i name rg = (case rename_speaker user i (strip name) rg of None \<Rightarrow> Inl 404 | Some rg' \<Rightarrow> Inr rg')"

definition delete_speaker_endpoint :: "uuid \<Rightarrow> uuid \<Rightarrow> registry \<Rightarrow> nat + registry" where
  "delete_speaker_endpoint user i rg = (case delete_speaker user i rg of None \<Rightarrow> Inl 404 | Some rg' \<Rightarrow> Inr rg')"

definition owned_sample :: "uuid \<Rightarrow> uuid \<Rightarrow> uuid \<Rightarrow> registry \<Rightarrow> voice_sample option" where
  "owned_sample user i j rg = (case get_voice_sample user j rg of None \<Rightarrow> None
     | Some v \<Rightarrow> if vs_speaker v \<noteq> i then None else Some v)"

definition delete_voice_sample_endpoint :: "uuid \<Rightarrow> uuid \<Rightarrow> uuid \<Rightarrow> registry \<Rightarrow> nat + registry" where
  "delete_voice_sample_endpoint user i j rg = (case owned_sample user i j rg of None \<Rightarrow> Inl 404
     | Some v \<Rightarrow> (case delete_voice_sample user j rg of None \<Rightarrow> Inl 404 | Some rg' \<Rightarrow> Inr rg'))"

definition move_voice_sample_endpoint :: "uuid \<Rightarrow> uuid \<Rightarrow> uuid \<Rightarrow> uuid \<Rightarrow> registry \<Rightarrow> nat + registry" where
  "move_voice_sample_endpoint user i j target rg = (case owned_sample user i j rg of None \<Rightarrow> Inl 404
     | Some v \<Rightarrow> (case move_voice_sample user j target rg of None \<Rightarrow> Inl 404 | Some rg' \<Rightarrow> Inr rg'))"

definition move_candidates_endpoint ::
  "(real list \<Rightarrow> real list \<Rightarrow> real) \<Rightarrow> (ustr \<Rightarrow> 'n::linorder) \<Rightarrow> nat \<Rightarrow> uuid \<Rightarrow> uuid \<Rightarrow> uuid \<Rightarrow> registry
     \<Rightarrow> nat + (uuid \<times> ustr \<times> nat \<times> real option) list" where
  "move_candidates_endpoint cosine collation cap user i j rg = (case owned_sample user i j rg of None \<Rightarrow> Inl 404
     | Some v \<Rightarrow> Inr (map (\<lambda>(s, d). (sp_id s, sp_name s, length (list_voice_samples (sp_id s) rg), d))
         (move_candidates_for_sample cosine collation user j (Some cap) rg)))"

definition merge_speakers_endpoint :: "uuid \<Rightarrow> uuid \<Rightarrow> uuid \<Rightarrow> registry \<Rightarrow> nat + registry" where
  "merge_speakers_endpoint user source target rg = (if source = target then Inl 409
     else (case merge_speakers user source target rg of None \<Rightarrow> Inl 404 | Some rg' \<Rightarrow> Inr rg'))"

text \<open>A merge is refused for these reasons only.\<close>

lemma merge_endpoint_total:
  "merge_speakers_endpoint user source target rg = (if source = target then Inl 409
     else if get_speaker user source rg = None \<or> get_speaker user target rg = None then Inl 404
     else Inr (the (merge_speakers user source target rg)))"
  by (simp add: merge_speakers_endpoint_def merge_speakers_def Let_def)

section \<open>Folding decisions into a dictionary\<close>

lemma foldl_dict_set: "dict_get (foldl (\<lambda>m d. dict_set m (k d) (v d)) m ds) l
    = (let ds' = filter (\<lambda>d. k d = l) ds in if ds' = [] then dict_get m l else Some (v (last ds')))"
  by (induction ds arbitrary: m) (auto simp: Let_def)

lemma insort_key_append: "f a \<le> f x \<Longrightarrow> insort_key f a (ys @ [x]) = insort_key f a ys @ [x]"
  by (induction ys) auto

lemma sort_key_append: "\<forall>y\<in>set xs. f y \<le> f x \<Longrightarrow> sort_key f (xs @ [x]) = sort_key f xs @ [x]"
  by (induction xs) (auto simp: insort_key_append)

lemma filter_in_order: "filter P (in_order ds) = in_order (filter P ds)"
  by (simp add: in_order_def filter_sort)

lemma set_in_order [simp]: "set (in_order ds) = set ds"
  by (simp add: in_order_def)

lemma in_order_Nil [simp]: "in_order ds = [] \<longleftrightarrow> ds = []"
  by (metis set_in_order set_empty)

text \<open>A decision newer than all others comes last.\<close>

definition newest :: "match_decision \<Rightarrow> registry \<Rightarrow> bool" where
  "newest d rg \<longleftrightarrow> (\<forall>d'\<in>set (rg_decisions rg). md_created d' < md_created d)"

lemma task_decisions_record:
  assumes "newest d rg"
  shows "task_decisions user t (record_decision d rg)
    = task_decisions user t rg @ (if md_user d = user \<and> md_task d = Some t then [d] else [])"
proof -
  have "\<forall>d'\<in>set (rg_decisions rg). RowKey (md_created d') (md_id d') \<le> RowKey (md_created d) (md_id d)"
    using assms by (auto simp: newest_def less_eq_row_key_def)
  then show ?thesis by (simp add: task_decisions_def record_decision_def in_order_def sort_key_append)
qed

lemma foldl_skip: "foldl (put_name rg) m ds = foldl (put_name rg) m (filter (\<lambda>d. joined_name rg d \<noteq> None) ds)"
  by (induction ds arbitrary: m) (auto simp: put_name_def)

lemma name_of_same: "rg_speakers rg' = rg_speakers rg \<Longrightarrow> name_of rg' = name_of rg"
  by (rule ext) (simp add: name_of_def)

lemma joined_name_record [simp]: "joined_name (record_decision d rg) = joined_name rg"
proof -
  have "name_of (record_decision d rg) = name_of rg" by (rule name_of_same) (simp add: record_decision_def)
  then show ?thesis by (intro ext) (simp add: joined_name_def split: option.split)
qed

lemma put_name_record [simp]: "put_name (record_decision d rg) = put_name rg"
  by (intro ext) (simp add: put_name_def)

text \<open>A decision without a person leaves the names as they are, whenever it was made.\<close>

lemma unbound_decision_ignored:
  assumes "joined_name rg d = None"
  shows "speaker_names_for_task user t (record_decision d rg) = speaker_names_for_task user t rg"
proof -
  let ?j = "\<lambda>d. joined_name rg d \<noteq> None"
  have "filter ?j (task_decisions user t (record_decision d rg)) = filter ?j (task_decisions user t rg)"
    using assms by (simp add: task_decisions_def filter_in_order record_decision_def)
  then show ?thesis unfolding speaker_names_for_task_def put_name_record
    by (subst (1 2) foldl_skip) simp
qed

section \<open>One task and a page of tasks\<close>

lemma put_label_task:
  "dict_get (foldl (put_label rg) m ds) t
     = (let ds' = filter (\<lambda>d. md_task d = Some t \<and> joined_name rg d \<noteq> None) ds
        in if ds' = [] then dict_get m t else Some (foldl (put_name rg) (dict_or m t []) ds'))"
proof (induction ds arbitrary: m)
  case Nil
  then show ?case by simp
next
  case (Cons d ds)
  then show ?case
    by (cases "joined_name rg d"; cases "md_task d")
      (auto simp: put_label_def put_name_def dict_or_def Let_def)
qed

lemma page_of_task: "t \<in> set ts \<Longrightarrow> filter (\<lambda>d. md_task d = Some t \<and> P d) (page_decisions user ts rg)
    = filter P (task_decisions user t rg)"
  unfolding page_decisions_def task_decisions_def filter_in_order filter_filter
  by (rule arg_cong [where f = in_order], rule filter_cong) auto

lemma page_other_task: "t \<notin> set ts \<Longrightarrow> filter (\<lambda>d. md_task d = Some t \<and> P d) (page_decisions user ts rg) = []"
  unfolding page_decisions_def filter_in_order filter_filter by (auto simp: filter_empty_conv)

lemma names_empty: "speaker_names_for_task user t rg = [] \<longleftrightarrow> filter (\<lambda>d. joined_name rg d \<noteq> None) (task_decisions user t rg) = []"
proof -
  have ne: "dict_set m k v \<noteq> []" for m :: "(ustr \<times> ustr) list" and k v
    by (induction m k v rule: dict_set.induct) auto
  have step: "foldl (put_name rg) m ds \<noteq> []" if "m \<noteq> []" for m ds
    using that by (induction ds arbitrary: m) (auto simp: put_name_def ne split: option.split)
  let ?ds = "filter (\<lambda>d. joined_name rg d \<noteq> None) (task_decisions user t rg)"
  have "foldl (put_name rg) [] ?ds = [] \<longleftrightarrow> ?ds = []"
  proof (cases ?ds)
    case (Cons d ds)
    then have "joined_name rg d \<noteq> None" by (metis (mono_tags, lifting) filter_eq_ConsD)
    then show ?thesis unfolding Cons using step [of "put_name rg [] d" ds] by (auto simp: put_name_def ne split: option.splits)
  qed simp
  then show ?thesis unfolding speaker_names_for_task_def by (subst foldl_skip)
qed

text \<open>The batched query gives what the query of each task gives.\<close>

lemma labels_for_tasks:
  "dict_get (speaker_labels_for_tasks user ts rg) t
     = (let names = speaker_names_for_task user t rg in if t \<in> set ts \<and> names \<noteq> [] then Some names else None)"
proof (cases "t \<in> set ts")
  case True
  have n: "dict_get [] k = None" for k :: 'k by (simp add: dict_get_def)
  let ?ds = "filter (\<lambda>d. joined_name rg d \<noteq> None) (task_decisions user t rg)"
  have "speaker_labels_for_tasks user ts rg = foldl (put_label rg) [] (page_decisions user ts rg)"
    using True by (auto simp: speaker_labels_for_tasks_def)
  then have "dict_get (speaker_labels_for_tasks user ts rg) t = (if ?ds = [] then None else Some (foldl (put_name rg) [] ?ds))"
    by (simp add: put_label_task page_of_task [OF True] dict_or_def n Let_def)
  moreover have "foldl (put_name rg) [] ?ds = speaker_names_for_task user t rg"
    unfolding speaker_names_for_task_def by (subst (2) foldl_skip) simp
  ultimately show ?thesis using True names_empty [of user t rg] by simp
next
  case False
  have n: "dict_get [] k = None" for k :: 'k by (simp add: dict_get_def)
  show ?thesis
    using False by (simp add: speaker_labels_for_tasks_def put_label_task page_other_task [OF False] n)
qed

section \<open>Merging people\<close>

text \<open>The person each label of a task is shown as.\<close>

definition put_person :: "registry \<Rightarrow> (ustr \<times> uuid) list \<Rightarrow> match_decision \<Rightarrow> (ustr \<times> uuid) list" where
  "put_person rg m d = (case joined_name rg d of None \<Rightarrow> m | Some n \<Rightarrow> dict_set m (md_label d) (the (md_speaker d)))"

definition label_people :: "uuid \<Rightarrow> uuid \<Rightarrow> registry \<Rightarrow> (ustr \<times> uuid) list" where
  "label_people user t rg = foldl (put_person rg) [] (task_decisions user t rg)"

definition renamed :: "(uuid \<Rightarrow> ustr) \<Rightarrow> (ustr \<times> uuid) list \<Rightarrow> (ustr \<times> ustr) list" where
  "renamed f m = map (\<lambda>(l, i). (l, f i)) m"

lemma renamed_set: "renamed f (dict_set m l i) = dict_set (renamed f m) l (f i)"
  unfolding renamed_def by (induction m l i rule: dict_set.induct) auto

lemma names_of_people: "speaker_names_for_task user t rg = renamed (\<lambda>i. the (name_of rg i)) (label_people user t rg)"
proof -
  have "foldl (put_name rg) (renamed (\<lambda>i. the (name_of rg i)) m) ds = renamed (\<lambda>i. the (name_of rg i)) (foldl (put_person rg) m ds)" for m ds
  proof (induction ds arbitrary: m)
    case (Cons d ds)
    have "put_name rg (renamed (\<lambda>i. the (name_of rg i)) m) d = renamed (\<lambda>i. the (name_of rg i)) (put_person rg m d)"
      by (cases "md_speaker d") (auto simp: put_name_def put_person_def renamed_set joined_name_def split: option.split)
    then show ?case using Cons.IH by simp
  qed simp
  from this [of "[]"] show ?thesis by (simp add: speaker_names_for_task_def label_people_def renamed_def)
qed

lemma find_filter_other: "i \<noteq> j \<Longrightarrow> find (\<lambda>s. sp_id s = i) (filter (\<lambda>s. sp_id s \<noteq> j) ss) = find (\<lambda>s. sp_id s = i) ss"
  by (induction ss) auto

lemma in_order_map:
  assumes "\<And>d. md_created (f d) = md_created d \<and> md_id (f d) = md_id d"
  shows "in_order (map f ds) = map f (in_order ds)"
proof -
  have ins: "insort_key (\<lambda>d. RowKey (md_created d) (md_id d)) (f a) (map f xs)
      = map f (insort_key (\<lambda>d. RowKey (md_created d) (md_id d)) a xs)" for a xs
    by (induction xs) (simp_all add: assms)
  show ?thesis unfolding in_order_def by (induction ds) (simp_all add: ins)
qed

text \<open>What a merge does to the tables.\<close>

definition given :: "uuid \<Rightarrow> uuid \<Rightarrow> uuid \<Rightarrow> uuid" where
  "given source target i = (if i = source then target else i)"

lemma given_simps [simp]: "given source target source = target" "i \<noteq> source \<Longrightarrow> given source target i = i"
  by (simp_all add: given_def)

lemma merge_tables:
  assumes "merge_speakers user source target rg = Some rg'"
  shows "source \<noteq> target" and "get_speaker user source rg \<noteq> None" and "get_speaker user target rg \<noteq> None"
    and "rg_speakers rg' = filter (\<lambda>s. sp_id s \<noteq> source) (rg_speakers rg)"
    and "rg_samples rg' = map (\<lambda>v. v\<lparr>vs_speaker := given source target (vs_speaker v)\<rparr>) (rg_samples rg)"
    and "rg_decisions rg' = map (\<lambda>d. d\<lparr>md_speaker := (case md_speaker d of None \<Rightarrow> None
        | Some i \<Rightarrow> if i = source then if md_user d = user then Some target else None else Some i)\<rparr>) (rg_decisions rg)"
proof -
  show ne: "source \<noteq> target" and s: "get_speaker user source rg \<noteq> None" and t: "get_speaker user target rg \<noteq> None"
    using assms by (auto simp: merge_speakers_def split: if_splits)
  let ?vs = "map (\<lambda>v. if vs_speaker v = source then v\<lparr>vs_speaker := target\<rparr> else v) (rg_samples rg)"
  have keep: "filter (\<lambda>v. vs_speaker v = source) ?vs = []" using ne by (auto simp: filter_empty_conv)
  have all: "filter (\<lambda>v. vs_speaker v \<noteq> source) ?vs = ?vs" unfolding filter_id_conv using ne by auto
  have rm: "rg' = delete_speaker_row source (rg\<lparr>rg_samples := ?vs,
      rg_decisions := map (\<lambda>d. if md_user d = user \<and> md_speaker d = Some source then d\<lparr>md_speaker := Some target\<rparr> else d) (rg_decisions rg)\<rparr>)"
    using assms s t by (simp add: merge_speakers_def reassign_speaker_samples_def split: if_splits)
  show "rg_speakers rg' = filter (\<lambda>s. sp_id s \<noteq> source) (rg_speakers rg)"
    by (simp add: rm delete_speaker_row_def remove_samples_def Let_def)
  show "rg_samples rg' = map (\<lambda>v. v\<lparr>vs_speaker := given source target (vs_speaker v)\<rparr>) (rg_samples rg)"
    by (simp add: rm delete_speaker_row_def remove_samples_def Let_def all given_def)
  show "rg_decisions rg' = map (\<lambda>d. d\<lparr>md_speaker := (case md_speaker d of None \<Rightarrow> None
        | Some i \<Rightarrow> if i = source then if md_user d = user then Some target else None else Some i)\<rparr>) (rg_decisions rg)"
    using ne by (simp add: rm delete_speaker_row_def remove_samples_def Let_def keep) (auto split: option.split)
qed

lemma get_speaker_name: "get_speaker user i rg \<noteq> None \<Longrightarrow> name_of rg i \<noteq> None"
  by (auto simp: get_speaker_def name_of_def find_None_iff)

lemma merge_people:
  assumes "merge_speakers user source target rg = Some rg'"
  shows "label_people user t rg' = map (\<lambda>(l, i). (l, given source target i)) (label_people user t rg)"
    and "i \<noteq> source \<Longrightarrow> name_of rg' i = name_of rg i"
proof -
  note m = merge_tables [OF assms]
  show other: "i \<noteq> source \<Longrightarrow> name_of rg' i = name_of rg i" for i
    by (simp add: name_of_def m(4) find_filter_other)
  let ?f = "\<lambda>d. d\<lparr>md_speaker := (case md_speaker d of None \<Rightarrow> None
        | Some i \<Rightarrow> if i = source then if md_user d = user then Some target else None else Some i)\<rparr>"
  let ?g = "map (\<lambda>(l :: ustr, i). (l, given source target i))"
  have ds: "task_decisions user t rg' = map ?f (task_decisions user t rg)"
    by (simp add: task_decisions_def m(6) filter_map o_def in_order_map)
  have names: "name_of rg source \<noteq> None" "name_of rg target \<noteq> None" using get_speaker_name m(2,3) by blast+
  have set: "?g (dict_set p l i) = dict_set (?g p) l (given source target i)" for p l i
    by (induction p l i rule: dict_set.induct) auto
  have one: "put_person rg' (?g p) (?f d) = ?g (put_person rg p d)" if "md_user d = user" for p d
    using that names other m(1)
    by (cases "md_speaker d") (auto simp: put_person_def joined_name_def set split: option.split)
  have "foldl (put_person rg') (?g p) (map ?f es) = ?g (foldl (put_person rg) p es)" if "\<forall>d\<in>set es. md_user d = user" for p es
    using that
  proof (induction es arbitrary: p)
    case (Cons d es)
    then show ?case using one [of d p] by simp
  qed simp
  from this [of "task_decisions user t rg" "[]"] show "label_people user t rg' = ?g (label_people user t rg)"
    by (simp add: label_people_def ds) (simp add: task_decisions_def)
qed

text \<open>(C6) Merging two people loses nothing. Every fragment is kept and those of the merged person are
  filed under the other; every decision keeps its fragment, distance and outcome; in every task a voice
  that was shown as the merged person is shown under the other's name and all other voices as before.
  The other person is found in all tasks of both, and the merged one no longer exists.\<close>

theorem merge_keeps_fragments_and_names:
  assumes "merge_speakers user source target rg = Some rg'"
  shows "rg_samples rg' = map (\<lambda>v. v\<lparr>vs_speaker := given source target (vs_speaker v)\<rparr>) (rg_samples rg)
    \<and> map (\<lambda>d. d\<lparr>md_speaker := None\<rparr>) (rg_decisions rg') = map (\<lambda>d. d\<lparr>md_speaker := None\<rparr>) (rg_decisions rg)
    \<and> (\<forall>t. speaker_names_for_task user t rg = renamed (\<lambda>i. the (name_of rg i)) (label_people user t rg)
         \<and> speaker_names_for_task user t rg' = renamed (\<lambda>i. the (name_of rg (given source target i))) (label_people user t rg))
    \<and> set (tasks_featuring_speaker user target rg')
        = set (tasks_featuring_speaker user target rg) \<union> set (tasks_featuring_speaker user source rg)
    \<and> get_speaker user source rg' = None"
proof (intro conjI allI)
  note m = merge_tables [OF assms] and p = merge_people [OF assms]
  show "rg_samples rg' = map (\<lambda>v. v\<lparr>vs_speaker := given source target (vs_speaker v)\<rparr>) (rg_samples rg)" by (rule m(5))
  show "map (\<lambda>d. d\<lparr>md_speaker := None\<rparr>) (rg_decisions rg') = map (\<lambda>d. d\<lparr>md_speaker := None\<rparr>) (rg_decisions rg)"
    by (simp add: m(6))
  show "speaker_names_for_task user t rg = renamed (\<lambda>i. the (name_of rg i)) (label_people user t rg)" for t by (rule names_of_people)
  have "speaker_names_for_task user t rg' = renamed (\<lambda>i. the (name_of rg' (given source target i))) (label_people user t rg)" for t
    unfolding names_of_people p(1) by (simp add: renamed_def comp_def case_prod_beta)
  moreover have "name_of rg' (given source target i) = name_of rg (given source target i)" for i
    by (rule p(2)) (use m(1) in \<open>simp add: given_def\<close>)
  ultimately show "speaker_names_for_task user t rg' = renamed (\<lambda>i. the (name_of rg (given source target i))) (label_people user t rg)" for t
    by simp
  have feat: "t \<in> set (tasks_featuring_speaker user i r) \<longleftrightarrow> (\<exists>d\<in>set (rg_decisions r). md_user d = user \<and> md_speaker d = Some i \<and> md_task d = Some t)"
    for t i r unfolding tasks_featuring_speaker_def List.map_filter_def by (auto simp: image_iff split: if_splits)
  let ?f = "\<lambda>d. d\<lparr>md_speaker := (case md_speaker d of None \<Rightarrow> None
        | Some i \<Rightarrow> if i = source then if md_user d = user then Some target else None else Some i)\<rparr>"
  have one: "md_user d = user \<Longrightarrow> md_speaker (?f d) = Some target \<longleftrightarrow> md_speaker d = Some target \<or> md_speaker d = Some source" for d
    using m(1) by (cases "md_speaker d") auto
  have "t \<in> set (tasks_featuring_speaker user target rg')
      \<longleftrightarrow> (\<exists>d\<in>set (rg_decisions rg). md_user d = user \<and> md_speaker (?f d) = Some target \<and> md_task d = Some t)" for t
    unfolding feat m(6) by simp
  also have "(\<exists>d\<in>set (rg_decisions rg). md_user d = user \<and> md_speaker (?f d) = Some target \<and> md_task d = Some t)
      \<longleftrightarrow> t \<in> set (tasks_featuring_speaker user target rg) \<union> set (tasks_featuring_speaker user source rg)" for t
    unfolding Un_iff feat using one by blast
  finally show "set (tasks_featuring_speaker user target rg')
        = set (tasks_featuring_speaker user target rg) \<union> set (tasks_featuring_speaker user source rg)" by blast
  show "get_speaker user source rg' = None" by (simp add: get_speaker_def m(4) find_None_iff)
qed

definition sample_decision :: "uuid \<Rightarrow> string \<Rightarrow> uuid option \<Rightarrow> instant \<Rightarrow> match_decision" where
  "sample_decision i l p now = \<lparr>md_id = i, md_user = 1, md_task = Some 7, md_label = lit l, md_speaker = p, md_sample = None,
     md_distance = None, md_model = [], md_outcome = [], md_noise = False, md_created = now\<rparr>"

definition sample_registry :: registry where
  "sample_registry = \<lparr>rg_speakers = [\<lparr>sp_id = 1, sp_user = 1, sp_name = lit ''Anna''\<rparr>, \<lparr>sp_id = 2, sp_user = 1, sp_name = lit ''Ann''\<rparr>],
     rg_samples = [], rg_decisions = [sample_decision 5 ''S0'' (Some 1) 10, sample_decision 6 ''S1'' (Some 2) 11]\<rparr>"

theorem merge_keeps_fragments_and_names_witness:
  "\<exists>rg'. merge_speakers 1 2 1 sample_registry = Some rg'
     \<and> speaker_names_for_task 1 7 rg' = renamed (\<lambda>i. the (name_of sample_registry (given 2 1 i))) (label_people 1 7 sample_registry)
     \<and> get_speaker 1 2 rg' = None"
proof -
  obtain rg' where "merge_speakers 1 2 1 sample_registry = Some rg'"
    by (simp add: merge_speakers_def get_speaker_def sample_registry_def Let_def)
  from this merge_keeps_fragments_and_names [OF this] show ?thesis by blast
qed
end
