(* ===== verification/Speaker_Resolution.thy ===== *)
theory Speaker_Resolution
  imports Speaker_Registry Diar_Merge
begin

text \<open>
  What the voices of a task become: the matching step (\<open>pipeline/steps/speaker_match.py\<close>,
  \<open>services/speaker_registry.py\<close>), the operator's resolution (\<open>resolve_task_speakers\<close> of
  \<open>api/routers/speakers.py\<close>) and the transcript rendered anew (\<open>pipeline/rerender.py\<close>).

  The artifacts are values: the diarization's model, the preview clips and the contents of their
  files, the parsed \<open>transcript.json\<close> and \<open>speaker_matches.json\<close>. \<open>uuid.UUID\<close> on text and the
  embedder are parameters. An exception rolls the transaction back: the registry is as before. The
  index of the corpus, which never fails a save, is left out.
\<close>

section \<open>Resolving the voices of a task\<close>

record resolution =
  rv_label :: ustr
  rv_action :: ustr
  rv_speaker :: "ustr option"
  rv_new :: "ustr option"
  rv_fragment :: bool
  rv_distance :: "real option"
  rv_sample :: "ustr option"
  rv_outcome :: ustr
  rv_noise :: bool

record clip =
  cl_path :: ustr
  cl_start :: rat
  cl_end :: rat

text \<open>What a save finds: identifiers of new rows (a person, a fragment, a decision) and the clock, by the
  position of the resolution in the request; the diarization's embedding model (empty when there is
  none), the previews, the files and the embedder.\<close>

record save_env =
  sv_uuid :: "ustr \<Rightarrow> uuid option"
  sv_speaker_id :: "nat \<Rightarrow> uuid"
  sv_sample_id :: "nat \<Rightarrow> uuid"
  sv_decision_id :: "nat \<Rightarrow> uuid"
  sv_now :: "nat \<Rightarrow> instant"
  sv_model :: ustr
  sv_previews :: "(ustr \<times> clip list) list"
  sv_file :: "ustr \<Rightarrow> nat list option"
  sv_embed :: "nat list \<Rightarrow> real list option"

datatype resolve_error = TaskNotFound | CannotResolve | Unprocessable | SpeakerNotFound | ServerFailure

definition existing_target :: "save_env \<Rightarrow> uuid \<Rightarrow> resolution \<Rightarrow> registry \<Rightarrow> resolve_error + uuid" where
  "existing_target env user res rg =
     (case rv_speaker res of None \<Rightarrow> Inl Unprocessable
      | Some x \<Rightarrow> if x = [] then Inl Unprocessable
          else (case sv_uuid env x of None \<Rightarrow> Inl ServerFailure
            | Some i \<Rightarrow> (case get_speaker user i rg of None \<Rightarrow> Inl SpeakerNotFound | Some s \<Rightarrow> Inr (sp_id s))))"

definition resolve_target :: "save_env \<Rightarrow> uuid \<Rightarrow> nat \<Rightarrow> resolution \<Rightarrow> registry \<Rightarrow> resolve_error + (registry \<times> uuid option)" where
  "resolve_target env user n res rg =
     (if rv_action res = lit ''bind_new''
      then (case rv_new res of None \<Rightarrow> Inl Unprocessable
        | Some name \<Rightarrow> if strip name = [] then Inl Unprocessable
            else Inr (create_speaker (sv_speaker_id env n) user (strip name) rg, Some (sv_speaker_id env n)))
      else if rv_action res = lit ''bind_existing'' \<or> rv_action res = lit ''accept_auto''
      then (case existing_target env user res rg of Inl e \<Rightarrow> Inl e | Inr i \<Rightarrow> Inr (rg, Some i))
      else if rv_action res = lit ''leave_anonymous'' then Inr (rg, None)
      else Inl Unprocessable)"

text \<open>The fragment the client names.\<close>

definition echoed_sample :: "save_env \<Rightarrow> resolution \<Rightarrow> resolve_error + uuid option" where
  "echoed_sample env res =
     (case rv_sample res of None \<Rightarrow> Inr None
      | Some x \<Rightarrow> if x = [] then Inr None
          else (case sv_uuid env x of None \<Rightarrow> Inl ServerFailure | Some i \<Rightarrow> Inr (Some i)))"

definition rollback_prior :: "uuid \<Rightarrow> uuid \<Rightarrow> ustr \<Rightarrow> uuid option \<Rightarrow> registry \<Rightarrow> registry" where
  "rollback_prior user t l keep rg =
     (case find_prior_decision_sample user t l rg of
        Some (_, Some v) \<Rightarrow> if Some v \<noteq> keep
          then (case delete_voice_sample user v rg of None \<Rightarrow> rg | Some rg' \<Rightarrow> rg') else rg
      | _ \<Rightarrow> rg)"

definition new_fragment :: "save_env \<Rightarrow> uuid \<Rightarrow> nat \<Rightarrow> ustr \<Rightarrow> uuid \<Rightarrow> resolve_error + voice_sample" where
  "new_fragment env t n l i =
     (if sv_model env = [] then Inl Unprocessable
      else (case dict_or (sv_previews env) l [] of [] \<Rightarrow> Inl Unprocessable
        | c # cs \<Rightarrow> (case sv_file env (cl_path c) of None \<Rightarrow> Inl Unprocessable
            | Some audio \<Rightarrow> (case sv_embed env audio of None \<Rightarrow> Inl ServerFailure
                | Some e \<Rightarrow> Inr \<lparr>vs_id = sv_sample_id env n, vs_speaker = i, vs_embedding = e, vs_model = sv_model env,
                    vs_audio = audio, vs_format = lit ''wav'', vs_duration = cl_end c - cl_start c,
                    vs_task = Some t, vs_created = sv_now env n\<rparr>))))"

definition decision_of :: "save_env \<Rightarrow> uuid \<Rightarrow> uuid \<Rightarrow> nat \<Rightarrow> resolution \<Rightarrow> uuid option \<Rightarrow> uuid option \<Rightarrow> match_decision" where
  "decision_of env user t n res target v = \<lparr>md_id = sv_decision_id env n, md_user = user, md_task = Some t,
     md_label = rv_label res, md_speaker = target, md_sample = v, md_distance = rv_distance res,
     md_model = sv_model env, md_outcome = rv_outcome res, md_noise = rv_noise res, md_created = sv_now env n\<rparr>"

definition resolve_one :: "save_env \<Rightarrow> uuid \<Rightarrow> uuid \<Rightarrow> nat \<Rightarrow> resolution \<Rightarrow> registry \<Rightarrow> resolve_error + registry" where
  "resolve_one env user t n res rg =
     (case resolve_target env user n res rg of Inl e \<Rightarrow> Inl e
      | Inr (rg1, target) \<Rightarrow> (case echoed_sample env res of Inl e \<Rightarrow> Inl e
          | Inr echo \<Rightarrow>
              (let rg2 = rollback_prior user t (rv_label res) echo rg1 in
               case target of
                 Some i \<Rightarrow> if rv_fragment res
                   then (case new_fragment env t n (rv_label res) i of Inl e \<Rightarrow> Inl e
                     | Inr v \<Rightarrow> Inr (record_decision (decision_of env user t n res target (Some (vs_id v))) (add_voice_sample v rg2)))
                   else Inr (record_decision (decision_of env user t n res target echo) rg2)
               | None \<Rightarrow> Inr (record_decision (decision_of env user t n res target echo) rg2))))"

fun resolve_all :: "save_env \<Rightarrow> uuid \<Rightarrow> uuid \<Rightarrow> nat \<Rightarrow> resolution list \<Rightarrow> registry \<Rightarrow> resolve_error + registry" where
  "resolve_all env user t n [] rg = Inr rg"
| "resolve_all env user t n (r # rs) rg = (case resolve_one env user t n r rg of Inl e \<Rightarrow> Inl e
     | Inr rg' \<Rightarrow> resolve_all env user t (n + 1) rs rg')"

section \<open>Rendering the transcript anew\<close>

record transcript_payload =
  tp_entries :: "transcript_entry list option"
  tp_all :: "transcript_entry list option"
  tp_text :: ustr

text \<open>\<open>tf_json\<close> is \<open>None\<close> when the file is missing, unreadable or not an object; \<open>tf_matches\<close> is \<open>None\<close>
  when the file is missing and \<open>Some None\<close> when it is unreadable or not an object.\<close>

record transcript_files =
  tf_json :: "transcript_payload option"
  tf_txt :: "ustr option"
  tf_matches :: "jdict option option"

definition resolve_noise_labels :: "jdict \<Rightarrow> ustr list \<Rightarrow> bool \<Rightarrow> ustr list" where
  "resolve_noise_labels matches decision_noise has_decisions =
     (if has_decisions then decision_noise
      else map fst (filter (\<lambda>(l, m). truthy (jget (as_dict m) (lit ''noise''))) matches))"

definition speaker_str :: "transcript_entry \<Rightarrow> ustr" where
  "speaker_str e = (case te_speaker e of None \<Rightarrow> lit ''None'' | Some s \<Rightarrow> s)"

definition source_entries :: "transcript_payload \<Rightarrow> transcript_entry list option" where
  "source_entries p = (case tp_all p of Some es \<Rightarrow> Some es | None \<Rightarrow> tp_entries p)"

definition kept_entries :: "ustr list \<Rightarrow> transcript_entry list \<Rightarrow> transcript_entry list" where
  "kept_entries noise es = (let kept = filter (\<lambda>e. speaker_str e \<notin> set noise) es in if kept = [] then es else kept)"

datatype rerender_step = WriteJson transcript_payload | WriteTxt ustr

definition noise_now :: "uuid \<Rightarrow> uuid \<Rightarrow> registry \<Rightarrow> transcript_files \<Rightarrow> ustr list" where
  "noise_now user t rg f = resolve_noise_labels (case tf_matches f of Some (Some m) \<Rightarrow> m | _ \<Rightarrow> [])
     (noise_labels_from_decisions user t rg) (has_decisions_for_task user t rg)"

definition rerender_transcript ::
  "unicode \<Rightarrow> ustr option \<Rightarrow> uuid \<Rightarrow> uuid \<Rightarrow> registry \<Rightarrow> transcript_files \<Rightarrow> rerender_step list" where
  "rerender_transcript uc language user t rg f =
     (case tf_json f of None \<Rightarrow> []
      | Some p \<Rightarrow> (case source_entries p of None \<Rightarrow> []
          | Some es \<Rightarrow>
              (let kept = kept_entries (noise_now user t rg f) es;
                   mapping = label_map kept (speaker_label_word uc language) (speaker_names_for_task user t rg)
               in case render_cleaned_transcript kept mapping of None \<Rightarrow> []
                  | Some text \<Rightarrow> [WriteJson (p\<lparr>tp_entries := Some kept, tp_all := Some es, tp_text := text\<rparr>), WriteTxt text])))"

fun write_step :: "transcript_files \<Rightarrow> rerender_step \<Rightarrow> transcript_files" where
  "write_step f (WriteJson p) = f\<lparr>tf_json := Some p\<rparr>"
| "write_step f (WriteTxt s) = f\<lparr>tf_txt := Some s\<rparr>"

definition written :: "rerender_step list \<Rightarrow> transcript_files \<Rightarrow> transcript_files" where
  "written steps f = foldl write_step f steps"

section \<open>The save\<close>

record voice_world =
  vw_db :: task_db
  vw_bus :: bus
  vw_registry :: registry
  vw_files :: transcript_files

text \<open>The second transaction of a save that continues the task: the row is written without another look
  at its status.\<close>

definition continue_task :: "instant \<Rightarrow> uuid \<Rightarrow> voice_world \<Rightarrow> voice_world" where
  "continue_task now t w = w\<lparr>vw_bus := clear_pause_request t (vw_bus w), vw_db := set_task_status now t Queued None (vw_db w)\<rparr>"

definition commit_resolutions ::
  "unicode \<Rightarrow> save_env \<Rightarrow> ustr option \<Rightarrow> uuid \<Rightarrow> uuid \<Rightarrow> resolution list \<Rightarrow> voice_world \<Rightarrow> resolve_error + voice_world" where
  "commit_resolutions uc env language user t rs w =
     (case get_task_for_user user t (vw_db w) of None \<Rightarrow> Inl TaskNotFound
      | Some task \<Rightarrow>
          if \<not> can_resolve_speakers_task (tf_matches (vw_files w) \<noteq> None) task then Inl CannotResolve
          else (case resolve_all env user t 0 rs (vw_registry w) of Inl e \<Rightarrow> Inl e
            | Inr rg \<Rightarrow> Inr (w\<lparr>vw_registry := rg,
                vw_files := written (rerender_transcript uc language user t rg (vw_files w)) (vw_files w)\<rparr>)))"

definition resolve_task_speakers ::
  "unicode \<Rightarrow> save_env \<Rightarrow> ustr option \<Rightarrow> instant \<Rightarrow> uuid \<Rightarrow> uuid \<Rightarrow> resolution list \<Rightarrow> bool \<Rightarrow> voice_world
     \<Rightarrow> resolve_error + voice_world" where
  "resolve_task_speakers uc env language now user t rs continue w =
     (case commit_resolutions uc env language user t rs w of Inl e \<Rightarrow> Inl e
      | Inr w' \<Rightarrow> Inr (if continue then continue_task now t w' else w'))"

section \<open>The matching step\<close>

datatype match_outcome = AutoMatch | GreyMatch | NoMatch

definition bucket :: "real option \<Rightarrow> real \<Rightarrow> real \<Rightarrow> match_outcome" where
  "bucket distance auto_max candidate_max = (case distance of None \<Rightarrow> NoMatch
     | Some d \<Rightarrow> if d \<le> auto_max then AutoMatch else if d \<le> candidate_max then GreyMatch else NoMatch)"

record voice_match =
  vm_outcome :: match_outcome
  vm_speaker :: "uuid option"
  vm_distance :: "real option"
  vm_share :: rat
  vm_seconds :: rat
  vm_noise :: bool
  vm_candidates :: "(uuid \<times> ustr \<times> real) list"

record diarization =
  dz_model :: ustr
  dz_embeddings :: "(ustr \<times> real list) list"
  dz_segments :: "diar_segment list"

record match_settings =
  ms_auto :: real
  ms_candidate :: real
  ms_cap :: nat
  ms_min_share :: rat
  ms_noise_distance :: real

definition labels_without_entries :: "ustr list \<Rightarrow> transcript_entry list \<Rightarrow> ustr list" where
  "labels_without_entries diar_labels entries =
     filter (\<lambda>l. l \<notin> set (List.map_filter te_speaker entries)) diar_labels"

text \<open>The entries are those of \<open>transcript.json\<close>, \<open>None\<close> when it gives none.\<close>

definition noise_labels :: "match_settings \<Rightarrow> diarization \<Rightarrow> transcript_entry list option \<Rightarrow> ustr list" where
  "noise_labels ms dz entries =
     auto_noise_labels (speaker_shares (dz_segments dz)) (dz_embeddings dz) (ms_min_share ms) (ms_noise_distance ms)
     @ (case entries of None \<Rightarrow> []
        | Some es \<Rightarrow> labels_without_entries (filter (\<lambda>l. l \<noteq> []) (map ds_speaker (dz_segments dz))) es)"

definition match_voice ::
  "(real list \<Rightarrow> real list \<Rightarrow> real) \<Rightarrow> match_settings \<Rightarrow> diarization \<Rightarrow> ustr list \<Rightarrow> uuid \<Rightarrow> registry \<Rightarrow> ustr \<Rightarrow> real list \<Rightarrow> voice_match" where
  "match_voice cosine ms dz noise user rg l vector =
     (let ranked = nearest_speakers cosine user vector (dz_model dz) (Some (ms_cap ms)) rg;
          nearest = (case ranked of [] \<Rightarrow> None | p # ps \<Rightarrow> Some p);
          outcome = bucket (map_option snd nearest) (ms_auto ms) (ms_candidate ms)
      in \<lparr>vm_outcome = outcome,
          vm_speaker = (if outcome = AutoMatch then map_option (\<lambda>p. sp_id (fst p)) nearest else None),
          vm_distance = map_option snd nearest,
          vm_share = dict_or (speaker_shares (dz_segments dz)) l 0,
          vm_seconds = dict_or (speaker_seconds (dz_segments dz)) l 0,
          vm_noise = (l \<in> set noise),
          vm_candidates = map (\<lambda>(s, d). (sp_id s, sp_name s, d)) ranked\<rparr>)"

definition decide_pause :: "(ustr \<times> voice_match) list \<Rightarrow> bool \<Rightarrow> bool" where
  "decide_pause matches no_stop =
     (if no_stop then False else list_ex (\<lambda>(l, m). vm_outcome m \<noteq> AutoMatch \<and> \<not> vm_noise m) matches)"

text \<open>What the step does: nothing, or the file it writes and whether it parks the task.\<close>

definition match_speakers ::
  "(real list \<Rightarrow> real list \<Rightarrow> real) \<Rightarrow> match_settings \<Rightarrow> bool \<Rightarrow> bool \<Rightarrow> diarization option \<Rightarrow> transcript_entry list option
     \<Rightarrow> uuid \<Rightarrow> registry \<Rightarrow> ((ustr \<times> voice_match) list \<times> bool) option" where
  "match_speakers cosine ms enabled no_stop diarized entries user rg =
     (if \<not> enabled then None
      else (case diarized of None \<Rightarrow> None
        | Some dz \<Rightarrow>
            (let noise = noise_labels ms dz entries;
                 matches = foldl (\<lambda>m (l, vector). dict_set m l (match_voice cosine ms dz noise user rg l vector)) [] (dz_embeddings dz)
             in Some (matches, decide_pause matches no_stop))))"

section \<open>The dialog's labels\<close>

definition speaker_ordering :: "diarization option \<Rightarrow> transcript_entry list option \<Rightarrow> jdict \<Rightarrow> ustr list" where
  "speaker_ordering diarized entries matches =
     (case (case diarized of None \<Rightarrow> [] | Some dz \<Rightarrow> dz_segments dz) of
        d # ds \<Rightarrow> map ds_speaker (d # ds)
      | [] \<Rightarrow> (case (case entries of None \<Rightarrow> [] | Some es \<Rightarrow> es) of
           e # es \<Rightarrow> List.map_filter te_speaker (e # es)
         | [] \<Rightarrow> map fst matches))"

definition bare_entry :: "ustr \<Rightarrow> transcript_entry" where
  "bare_entry l = \<lparr>te_start = 0, te_end = 0, te_text = [], te_speaker = Some l\<rparr>"

definition display_labels :: "unicode \<Rightarrow> ustr option \<Rightarrow> diarization option \<Rightarrow> transcript_entry list option \<Rightarrow> jdict \<Rightarrow> (ustr \<times> ustr) list" where
  "display_labels uc language diarized entries matches =
     label_map (map bare_entry (speaker_ordering diarized entries matches)) (speaker_label_word uc language) []"

section \<open>Rendering again\<close>

lemma rendered_total: "render_cleaned_transcript es (label_map es w names) \<noteq> None"
  using render_blocks_total [of es "label_map es w names" "[]" None]
  by (auto simp: render_cleaned_transcript_def label_map_labelled spoken_order_spec)

lemma rerender_steps:
  assumes "tf_json f = Some p" and "source_entries p = Some es"
  obtains out where "rerender_transcript uc language user t rg f
       = [WriteJson (p\<lparr>tp_entries := Some (kept_entries (noise_now user t rg f) es), tp_all := Some es, tp_text := out\<rparr>), WriteTxt out]"
    and "\<And>f' p'. tf_json f' = Some p' \<Longrightarrow> source_entries p' = Some es \<Longrightarrow> tf_matches f' = tf_matches f
       \<Longrightarrow> rerender_transcript uc language user t rg f' = rerender_transcript uc language user t rg f"
proof -
  let ?kept = "kept_entries (noise_now user t rg f) es"
  obtain out where r: "render_cleaned_transcript ?kept
      (label_map ?kept (speaker_label_word uc language) (speaker_names_for_task user t rg)) = Some out"
    using rendered_total by blast
  have "rerender_transcript uc language user t rg f
       = [WriteJson (p\<lparr>tp_entries := Some ?kept, tp_all := Some es, tp_text := out\<rparr>), WriteTxt out]"
    using assms r by (simp add: rerender_transcript_def Let_def)
  moreover have "rerender_transcript uc language user t rg f' = rerender_transcript uc language user t rg f"
    if "tf_json f' = Some p'" "source_entries p' = Some es" "tf_matches f' = tf_matches f" for f' p'
  proof -
    have "noise_now user t rg f' = noise_now user t rg f" by (simp add: noise_now_def that(3))
    then show ?thesis using assms that r by (simp add: rerender_transcript_def Let_def)
  qed
  ultimately show ?thesis using that by blast
qed

text \<open>What every rendering leaves as it is, cut short or not.\<close>

lemma partial_rerender:
  assumes "tf_json f = Some p" and "source_entries p = Some es"
  shows "\<exists>p'. tf_json (written (take k (rerender_transcript uc language user t rg f)) f) = Some p' \<and> source_entries p' = Some es
    \<and> tf_matches (written (take k (rerender_transcript uc language user t rg f)) f) = tf_matches f"
proof -
  obtain out where r: "rerender_transcript uc language user t rg f
       = [WriteJson (p\<lparr>tp_entries := Some (kept_entries (noise_now user t rg f) es), tp_all := Some es, tp_text := out\<rparr>), WriteTxt out]"
    using rerender_steps [OF assms, of uc language user t rg] by blast
  show ?thesis unfolding r using assms
    by (cases k; cases "k - 1") (auto simp: written_def source_entries_def)
qed

definition rerendered :: "unicode \<Rightarrow> ustr option \<Rightarrow> uuid \<Rightarrow> uuid \<Rightarrow> transcript_files \<Rightarrow> registry \<times> nat \<Rightarrow> transcript_files" where
  "rerendered uc language user t f h = written (take (snd h) (rerender_transcript uc language user t (fst h) f)) f"

lemma rerendered_many:
  assumes "tf_json f = Some p" and "source_entries p = Some es"
  shows "\<exists>p'. tf_json (foldl (rerendered uc language user t) f hist) = Some p' \<and> source_entries p' = Some es
    \<and> tf_matches (foldl (rerendered uc language user t) f hist) = tf_matches f"
  using assms
proof (induction hist arbitrary: f p)
  case (Cons h hist)
  let ?f = "rerendered uc language user t f h"
  obtain p' where p': "tf_json ?f = Some p'" "source_entries p' = Some es" "tf_matches ?f = tf_matches f"
    using partial_rerender [OF Cons.prems, of "snd h" uc language user t "fst h"] unfolding rerendered_def by blast
  show ?case using Cons.IH [OF p'(1,2)] p'(3) by simp
qed simp

section \<open>One fragment per voice\<close>

definition prior_decision :: "uuid \<Rightarrow> uuid \<Rightarrow> ustr \<Rightarrow> registry \<Rightarrow> match_decision option" where
  "prior_decision user t l rg =
     (case rev (sort_key md_created (filter (\<lambda>d. md_user d = user \<and> md_task d = Some t \<and> md_label d = l) (rg_decisions rg))) of
        [] \<Rightarrow> None | d # ds \<Rightarrow> Some d)"

lemma find_prior: "find_prior_decision_sample user t l rg = map_option (\<lambda>d. (md_speaker d, md_sample d)) (prior_decision user t l rg)"
  by (simp add: find_prior_decision_sample_def prior_decision_def split: list.split)

lemma prior_record:
  assumes "newest d rg"
  shows "prior_decision user t l (record_decision d rg)
    = (if md_user d = user \<and> md_task d = Some t \<and> md_label d = l then Some d else prior_decision user t l rg)"
proof -
  have "\<forall>d'\<in>set (rg_decisions rg). md_created d' \<le> md_created d" using assms by (auto simp: newest_def intro: less_imp_le)
  then show ?thesis by (simp add: prior_decision_def record_decision_def sort_key_append)
qed

lemma sort_key_map:
  assumes "\<And>d. md_created (f d) = md_created d"
  shows "sort_key md_created (map f ds) = map f (sort_key md_created ds)"
proof -
  have ins: "insort_key md_created (f a) (map f xs) = map f (insort_key md_created a xs)" for a xs
    by (induction xs) (simp_all add: assms)
  show ?thesis by (induction ds) (simp_all add: ins)
qed

lemma prior_map:
  assumes "rg_decisions rg' = map f (rg_decisions rg)"
    and "\<And>d. md_created (f d) = md_created d \<and> md_user (f d) = md_user d \<and> md_task (f d) = md_task d \<and> md_label (f d) = md_label d"
  shows "prior_decision user t l rg' = map_option f (prior_decision user t l rg)"
  using assms(2) by (simp add: prior_decision_def assms(1) filter_map o_def sort_key_map rev_map split: list.split)

text \<open>The samples a task has added, each known to the newest decision for a label.\<close>

definition fragments :: "uuid \<Rightarrow> registry \<Rightarrow> voice_sample list" where
  "fragments t rg = filter (\<lambda>v. vs_task v = Some t) (rg_samples rg)"

definition tracked :: "uuid \<Rightarrow> uuid \<Rightarrow> registry \<Rightarrow> bool" where
  "tracked user t rg \<longleftrightarrow> (\<forall>v\<in>set (fragments t rg). users_speaker user rg (vs_speaker v)
     \<and> (\<exists>l d. prior_decision user t l rg = Some d \<and> md_sample d = Some (vs_id v)))"

definition ids_ok :: "registry \<Rightarrow> bool" where
  "ids_ok rg \<longleftrightarrow> distinct (map vs_id (rg_samples rg)) \<and> distinct (map sp_id (rg_speakers rg))"

lemma prior_mem: "prior_decision user t l rg = Some d
    \<Longrightarrow> d \<in> set (rg_decisions rg) \<and> md_user d = user \<and> md_task d = Some t \<and> md_label d = l"
proof -
  let ?ds = "filter (\<lambda>d. md_user d = user \<and> md_task d = Some t \<and> md_label d = l) (rg_decisions rg)"
  assume "prior_decision user t l rg = Some d"
  then have "d \<in> set (rev (sort_key md_created ?ds))"
    unfolding prior_decision_def by (cases "rev (sort_key md_created ?ds)") auto
  then show ?thesis by auto
qed

lemma tracked_bound:
  assumes "tracked user t rg" and "ids_ok rg"
  shows "length (fragments t rg) \<le> card (md_label ` {d \<in> set (rg_decisions rg). md_user d = user \<and> md_task d = Some t})"
proof -
  let ?L = "md_label ` {d \<in> set (rg_decisions rg). md_user d = user \<and> md_task d = Some t}"
  let ?V = "vs_id ` set (fragments t rg)"
  define label where "label i = (SOME l. \<exists>d. prior_decision user t l rg = Some d \<and> md_sample d = Some i)" for i
  have l: "\<exists>d. prior_decision user t (label i) rg = Some d \<and> md_sample d = Some i" if "i \<in> ?V" for i
    unfolding label_def by (rule someI_ex) (use assms(1) that in \<open>auto simp: tracked_def\<close>)
  have "inj_on label ?V"
  proof (rule inj_onI)
    fix i j assume "i \<in> ?V" "j \<in> ?V" "label i = label j"
    then show "i = j" using l [of i] l [of j] by auto
  qed
  moreover have "label ` ?V \<subseteq> ?L"
  proof
    fix x assume "x \<in> label ` ?V"
    then obtain i where "i \<in> ?V" "x = label i" by blast
    then obtain d where "prior_decision user t x rg = Some d" using l by blast
    from prior_mem [OF this] show "x \<in> ?L" by (intro rev_image_eqI [of d]) auto
  qed
  ultimately have "card ?V \<le> card ?L" by (intro card_inj_on_le) auto
  moreover have "distinct (map vs_id (fragments t rg))"
    using assms(2) unfolding fragments_def ids_ok_def by (simp add: distinct_map_filter)
  then have "card ?V = length (fragments t rg)" by (simp add: distinct_card flip: set_map)
  ultimately show ?thesis by simp
qed

text \<open>The invariant, and its parts under the operations that change a table.\<close>

definition well_kept :: "(uuid \<Rightarrow> uuid) \<Rightarrow> registry \<Rightarrow> bool" where
  "well_kept owner rg \<longleftrightarrow> ids_ok rg \<and> (\<forall>t. tracked (owner t) t rg)"

lemma users_speaker_mono: "set (rg_speakers rg) \<subseteq> set (rg_speakers rg') \<Longrightarrow> users_speaker user rg i \<Longrightarrow> users_speaker user rg' i"
  by (auto simp: users_speaker_def list_ex_iff)

lemma users_speaker_same: "rg_speakers rg' = rg_speakers rg \<Longrightarrow> users_speaker user rg' i = users_speaker user rg i"
  by (simp add: users_speaker_def)

lemma prior_same: "rg_decisions rg' = rg_decisions rg \<Longrightarrow> prior_decision user t l rg' = prior_decision user t l rg"
  by (simp add: prior_decision_def)

lemma well_kept_create:
  assumes "well_kept owner rg" and "i \<notin> sp_id ` set (rg_speakers rg)"
  shows "well_kept owner (create_speaker i user name rg)"
proof -
  let ?rg = "create_speaker i user name rg"
  have d: "rg_decisions ?rg = rg_decisions rg" and v: "rg_samples ?rg = rg_samples rg"
    and s: "set (rg_speakers rg) \<subseteq> set (rg_speakers ?rg)" by (auto simp: create_speaker_def)
  have "ids_ok ?rg" using assms by (auto simp: well_kept_def ids_ok_def create_speaker_def)
  moreover have "tracked (owner t) t ?rg" for t
    using assms(1) users_speaker_mono [OF s] unfolding well_kept_def tracked_def fragments_def v prior_same [OF d] by blast
  ultimately show ?thesis by (simp add: well_kept_def)
qed

abbreviation forget_samples :: "uuid set \<Rightarrow> match_decision \<Rightarrow> match_decision" where
  "forget_samples ids d \<equiv> (case md_sample d of None \<Rightarrow> d | Some i \<Rightarrow> if i \<in> ids then d\<lparr>md_sample := None\<rparr> else d)"

lemma remove_samples_tables:
  "rg_speakers (remove_samples gone rg) = rg_speakers rg"
  "rg_samples (remove_samples gone rg) = filter (\<lambda>v. \<not> gone v) (rg_samples rg)"
  "rg_decisions (remove_samples gone rg) = map (forget_samples (vs_id ` {v \<in> set (rg_samples rg). gone v})) (rg_decisions rg)"
proof -
  have e: "set (map vs_id (filter gone (rg_samples rg))) = vs_id ` {v \<in> set (rg_samples rg). gone v}" by simp
  show "rg_decisions (remove_samples gone rg) = map (forget_samples (vs_id ` {v \<in> set (rg_samples rg). gone v})) (rg_decisions rg)"
    unfolding remove_samples_def Let_def e by simp
qed (simp_all add: remove_samples_def Let_def)

lemma ids_ok_remove: "ids_ok rg \<Longrightarrow> ids_ok (remove_samples gone rg)"
  by (simp add: ids_ok_def remove_samples_tables distinct_map_filter)

lemma kept_id:
  assumes "ids_ok rg" and "v \<in> set (rg_samples rg)" and "\<not> gone v"
  shows "vs_id v \<notin> vs_id ` {v \<in> set (rg_samples rg). gone v}"
  using assms by (auto simp: ids_ok_def distinct_map dest: inj_onD)

lemma prior_remove:
  assumes "prior_decision user t l rg = Some d" and "md_sample d = Some (vs_id v)"
    and "ids_ok rg" and "v \<in> set (rg_samples rg)" and "\<not> gone v"
  shows "prior_decision user t l (remove_samples gone rg) = Some d"
proof -
  let ?f = "forget_samples (vs_id ` {v \<in> set (rg_samples rg). gone v})"
  have "prior_decision user t l (remove_samples gone rg) = map_option ?f (prior_decision user t l rg)"
    by (rule prior_map [OF remove_samples_tables(3)]) (simp split: option.split)
  then show ?thesis using assms(1,2) kept_id [OF assms(3,4), of gone] assms(5) by simp
qed

lemma well_kept_remove:
  assumes "well_kept owner rg"
  shows "well_kept owner (remove_samples gone rg)"
proof -
  have ok: "ids_ok rg" using assms by (simp add: well_kept_def)
  have "tracked (owner t) t (remove_samples gone rg)" for t
    unfolding tracked_def
  proof
    fix v assume v: "v \<in> set (fragments t (remove_samples gone rg))"
    then have in_rg: "v \<in> set (fragments t rg)" "v \<in> set (rg_samples rg)" "\<not> gone v"
      by (auto simp: fragments_def remove_samples_tables)
    then obtain l d where d: "users_speaker (owner t) rg (vs_speaker v)" "prior_decision (owner t) t l rg = Some d" "md_sample d = Some (vs_id v)"
      using assms unfolding well_kept_def tracked_def by blast
    show "users_speaker (owner t) (remove_samples gone rg) (vs_speaker v)
      \<and> (\<exists>l d. prior_decision (owner t) t l (remove_samples gone rg) = Some d \<and> md_sample d = Some (vs_id v))"
      using d(1,3) prior_remove [OF d(2,3) ok in_rg(2), of gone] in_rg(3) by (auto simp: users_speaker_same [OF remove_samples_tables(1)])
  qed
  then show ?thesis using ids_ok_remove [OF ok] by (simp add: well_kept_def)
qed

lemma delete_voice_sample_some: "delete_voice_sample user i rg = Some rg' \<Longrightarrow> rg' = remove_samples (\<lambda>v. vs_id v = i) rg"
  by (auto simp: delete_voice_sample_def split: option.splits)

lemma delete_voice_sample_known:
  assumes "v \<in> set (rg_samples rg)" and "users_speaker user rg (vs_speaker v)"
  shows "delete_voice_sample user (vs_id v) rg = Some (remove_samples (\<lambda>x. vs_id x = vs_id v) rg)"
proof -
  have "get_voice_sample user (vs_id v) rg \<noteq> None" using assms by (auto simp: get_voice_sample_def find_None_iff)
  then show ?thesis by (auto simp: delete_voice_sample_def)
qed

lemma rollback_cases:
  "rollback_prior user t l keep rg = rg \<or> (\<exists>i. rollback_prior user t l keep rg = remove_samples (\<lambda>v. vs_id v = i) rg)"
proof (cases "find_prior_decision_sample user t l rg")
  case (Some p)
  then show ?thesis using delete_voice_sample_some
    by (cases p; cases "snd p") (fastforce simp: rollback_prior_def split: option.split)+
qed (simp add: rollback_prior_def)

lemma rollback_well_kept: "well_kept owner rg \<Longrightarrow> well_kept owner (rollback_prior user t l keep rg)"
  using rollback_cases [of user t l keep rg] well_kept_remove [of owner rg] by metis

lemma rollback_speakers: "rg_speakers (rollback_prior user t l keep rg) = rg_speakers rg"
  using rollback_cases [of user t l keep rg] by (auto simp: remove_samples_tables)

text \<open>After the rollback no fragment of the task is known by this label alone, but the one to keep.\<close>

lemma rollback_other_label:
  assumes "well_kept owner rg" and "v \<in> set (fragments t (rollback_prior (owner t) t l keep rg))" and keep: "keep \<noteq> Some (vs_id v)"
  shows "\<exists>l' d. l' \<noteq> l \<and> prior_decision (owner t) t l' (rollback_prior (owner t) t l keep rg) = Some d \<and> md_sample d = Some (vs_id v)"
proof -
  let ?rg = "rollback_prior (owner t) t l keep rg"
  have kept: "well_kept owner ?rg" by (rule rollback_well_kept [OF assms(1)])
  then obtain l' d where d: "prior_decision (owner t) t l' ?rg = Some d" "md_sample d = Some (vs_id v)"
    using assms(2) unfolding well_kept_def tracked_def by blast
  have "l' \<noteq> l"
  proof
    assume l: "l' = l"
    show False
    proof (cases "prior_decision (owner t) t l rg")
      case None
      then have "?rg = rg" by (simp add: rollback_prior_def find_prior)
      then show False using None d(1) l by simp
    next
      case (Some d0)
      show False
      proof (cases "md_sample d0")
        case None
        then have "?rg = rg" using Some by (simp add: rollback_prior_def find_prior)
        then show False using Some None d l by simp
      next
        case (Some i)
        note i = \<open>prior_decision (owner t) t l rg = Some d0\<close> Some
        consider (del) "?rg = remove_samples (\<lambda>x. vs_id x = i) rg"
          | (same) "?rg = rg" "Some i = keep \<or> delete_voice_sample (owner t) i rg = None"
          using i delete_voice_sample_some [of "owner t" i rg]
          by (cases "Some i = keep"; cases "delete_voice_sample (owner t) i rg") (auto simp: rollback_prior_def find_prior)
        then show False
        proof cases
          case del
          have "prior_decision (owner t) t l ?rg = map_option (forget_samples (vs_id ` {v \<in> set (rg_samples rg). vs_id v = i})) (prior_decision (owner t) t l rg)"
            unfolding del by (rule prior_map [OF remove_samples_tables(3)]) (simp split: option.split)
          moreover have "v \<in> set (rg_samples rg)" "vs_id v \<noteq> i" using assms(2) by (auto simp: del fragments_def remove_samples_tables)
          ultimately show False using d l i by (auto split: if_splits)
        next
          case same
          then have "d = d0" using d(1) l i by simp
          then have v: "vs_id v = i" using d(2) i by simp
          have "v \<in> set (rg_samples rg)" using assms(2) by (simp add: same fragments_def)
          moreover have "users_speaker (owner t) rg (vs_speaker v)"
            using assms same unfolding well_kept_def tracked_def by simp
          ultimately show False using delete_voice_sample_known [of v rg "owner t"] same(2) v keep by auto
        qed
      qed
    qed
  qed
  then show ?thesis using d by blast
qed

text \<open>One resolution.\<close>

definition decided_before :: "instant \<Rightarrow> registry \<Rightarrow> bool" where
  "decided_before now rg \<longleftrightarrow> (\<forall>d\<in>set (rg_decisions rg). md_created d < now)"

lemma decided_newest: "decided_before (md_created d) rg \<Longrightarrow> newest d rg"
  by (simp add: decided_before_def newest_def)

lemma decided_before_map:
  assumes "rg_decisions rg' = map f (rg_decisions rg)" and "\<And>d. md_created (f d) = md_created d"
  shows "decided_before now rg' = decided_before now rg"
  by (simp add: decided_before_def assms)

lemma rollback_decided [simp]: "decided_before now (rollback_prior user t l keep rg) = decided_before now rg"
proof -
  have "decided_before now (remove_samples gone rg) = decided_before now rg" for gone
    by (rule decided_before_map [OF remove_samples_tables(3)]) (simp split: option.split)
  then show ?thesis using rollback_cases [of user t l keep rg] by metis
qed

lemma record_tables [simp]:
  "rg_speakers (record_decision d rg) = rg_speakers rg" "rg_samples (record_decision d rg) = rg_samples rg"
  "rg_decisions (record_decision d rg) = rg_decisions rg @ [d]"
  by (simp_all add: record_decision_def)

lemma add_tables [simp]:
  "rg_speakers (add_voice_sample v rg) = rg_speakers rg" "rg_samples (add_voice_sample v rg) = rg_samples rg @ [v]"
  "rg_decisions (add_voice_sample v rg) = rg_decisions rg"
  by (simp_all add: add_voice_sample_def)

text \<open>A decision for a label by which no fragment is known, but the one it names.\<close>

lemma well_kept_record:
  assumes "well_kept owner rg" and "decided_before (md_created d) rg" and "md_user d = owner t" and "md_task d = Some t"
    and "\<forall>v\<in>set (fragments t rg). md_sample d = Some (vs_id v)
       \<or> (\<exists>l' d'. l' \<noteq> md_label d \<and> prior_decision (owner t) t l' rg = Some d' \<and> md_sample d' = Some (vs_id v))"
  shows "well_kept owner (record_decision d rg)"
proof -
  note p = prior_record [OF decided_newest [OF assms(2)]]
  have u: "users_speaker user (record_decision d rg) i = users_speaker user rg i" for user i by (simp add: users_speaker_def)
  have f: "fragments t' (record_decision d rg) = fragments t' rg" for t' by (simp add: fragments_def)
  have "tracked (owner t') t' (record_decision d rg)" for t'
  proof (cases "t' = t")
    case True
    have "\<exists>l d'. prior_decision (owner t) t l (record_decision d rg) = Some d' \<and> md_sample d' = Some (vs_id v)"
      if v: "v \<in> set (fragments t rg)" for v
    proof -
      have own: "prior_decision (owner t) t (md_label d) (record_decision d rg) = Some d"
        using p assms(3,4) by simp
      from assms(5) v show ?thesis
      proof (elim ballE disjE exE conjE)
        fix l' d' assume "l' \<noteq> md_label d" "prior_decision (owner t) t l' rg = Some d'" "md_sample d' = Some (vs_id v)"
        then show ?thesis using p [of "owner t" t l'] by auto
      next
        assume "md_sample d = Some (vs_id v)"
        then show ?thesis using own by blast
      qed simp
    qed
    then show ?thesis using assms(1) True unfolding well_kept_def tracked_def u f by blast
  next
    case False
    then have "prior_decision (owner t') t' l (record_decision d rg) = prior_decision (owner t') t' l rg" for l
      using p assms(4) by simp
    then show ?thesis using assms(1) unfolding well_kept_def tracked_def u f by simp
  qed
  then show ?thesis using assms(1) by (simp add: well_kept_def ids_ok_def)
qed

text \<open>The same with a new fragment.\<close>

lemma well_kept_record_new:
  assumes "well_kept owner rg" and "decided_before (md_created d) rg" and "md_user d = owner t" and "md_task d = Some t"
    and "\<forall>v\<in>set (fragments t rg). \<exists>l' d'. l' \<noteq> md_label d \<and> prior_decision (owner t) t l' rg = Some d' \<and> md_sample d' = Some (vs_id v)"
    and "md_sample d = Some (vs_id v)" and "vs_task v = Some t" and "users_speaker (owner t) rg (vs_speaker v)"
    and "vs_id v \<notin> vs_id ` set (rg_samples rg)"
  shows "well_kept owner (record_decision d (add_voice_sample v rg))"
proof -
  let ?rg = "record_decision d (add_voice_sample v rg)"
  have base: "well_kept owner (record_decision d rg)" by (rule well_kept_record [OF assms(1-4)]) (use assms(5) in blast)
  have pr: "prior_decision user t' l ?rg = prior_decision user t' l (record_decision d rg)" for user t' l
    by (rule prior_same) simp
  have u: "users_speaker user ?rg i = users_speaker user rg i" "users_speaker user (record_decision d rg) i = users_speaker user rg i" for user i
    by (simp_all add: users_speaker_def)
  have f: "set (fragments t' ?rg) \<subseteq> insert v (set (fragments t' (record_decision d rg)))" "t' \<noteq> t \<Longrightarrow> fragments t' ?rg = fragments t' (record_decision d rg)" for t'
    using assms(7) by (auto simp: fragments_def)
  have v: "prior_decision (owner t) t (md_label d) (record_decision d rg) = Some d"
    using prior_record [OF decided_newest [OF assms(2)]] assms(3,4) by simp
  have "tracked (owner t') t' ?rg" for t'
  proof (cases "t' = t")
    case True
    then show ?thesis
      using base f(1) [of t] v assms(6,8) unfolding well_kept_def tracked_def pr u by blast
  next
    case False
    then show ?thesis using base f(2) unfolding well_kept_def tracked_def pr u by simp
  qed
  then show ?thesis using base assms(9) by (simp add: well_kept_def ids_ok_def)
qed

definition quiet :: "resolution \<Rightarrow> bool" where
  "quiet r \<longleftrightarrow> rv_sample r = None \<or> rv_sample r = Some []"

lemma echoed_quiet: "quiet r \<Longrightarrow> echoed_sample env r = Inr None"
  by (auto simp: quiet_def echoed_sample_def)

lemma users_speaker_get: "get_speaker user i rg = Some s \<Longrightarrow> sp_id s = i \<and> users_speaker user rg i"
  by (auto simp: get_speaker_def users_speaker_def find_Some_iff list_ex_iff)

text \<open>Who a resolution binds: the registry afterwards, at most one person more, and the person is the user's.\<close>

lemma resolve_target_spec:
  assumes "resolve_target env user n r rg = Inr (rg1, target)"
  shows "rg1 = rg \<or> (\<exists>name. rg1 = create_speaker (sv_speaker_id env n) user name rg)"
    and "target = Some i \<Longrightarrow> users_speaker user rg1 i"
proof -
  show "rg1 = rg \<or> (\<exists>name. rg1 = create_speaker (sv_speaker_id env n) user name rg)"
    using assms by (auto simp: resolve_target_def split: if_splits option.splits sum.splits)
  have "users_speaker user (create_speaker j user name rg) j" for j name by (simp add: users_speaker_def create_speaker_def)
  then show "users_speaker user rg1 i" if "target = Some i"
    using assms that users_speaker_get [of user _ rg]
    by (auto simp: resolve_target_def existing_target_def split: if_splits option.splits sum.splits)
qed

lemma new_fragment_spec: "new_fragment env t n l i = Inr v
    \<Longrightarrow> vs_id v = sv_sample_id env n \<and> vs_speaker v = i \<and> vs_task v = Some t"
  by (auto simp: new_fragment_def split: if_splits list.splits option.splits)

lemma resolve_one_spec:
  assumes "resolve_one env user t n r rg = Inr rg'" and "quiet r"
  obtains rg1 where "rg1 = rg \<or> (\<exists>name. rg1 = create_speaker (sv_speaker_id env n) user name rg)"
    and "(\<exists>d. md_user d = user \<and> md_task d = Some t \<and> md_label d = rv_label r \<and> md_created d = sv_now env n \<and> md_sample d = None
            \<and> rg' = record_decision d (rollback_prior user t (rv_label r) None rg1))
       \<or> (\<exists>d v. md_user d = user \<and> md_task d = Some t \<and> md_label d = rv_label r \<and> md_created d = sv_now env n \<and> md_sample d = Some (vs_id v)
            \<and> vs_id v = sv_sample_id env n \<and> vs_task v = Some t \<and> users_speaker user rg1 (vs_speaker v)
            \<and> rg' = record_decision d (add_voice_sample v (rollback_prior user t (rv_label r) None rg1)))"
proof -
  obtain rg1 target where tg: "resolve_target env user n r rg = Inr (rg1, target)"
    using assms(1) by (auto simp: resolve_one_def split: sum.splits)
  note sp = resolve_target_spec [OF tg]
  have D: "md_user (decision_of env user t n r x y) = user" "md_task (decision_of env user t n r x y) = Some t"
    "md_label (decision_of env user t n r x y) = rv_label r" "md_created (decision_of env user t n r x y) = sv_now env n"
    "md_sample (decision_of env user t n r x y) = y" for x y by (simp_all add: decision_of_def)
  show ?thesis
  proof (cases "\<exists>i v. target = Some i \<and> rv_fragment r \<and> new_fragment env t n (rv_label r) i = Inr v")
    case True
    then obtain i v where i: "target = Some i" "rv_fragment r" "new_fragment env t n (rv_label r) i = Inr v" by blast
    have "rg' = record_decision (decision_of env user t n r target (Some (vs_id v))) (add_voice_sample v (rollback_prior user t (rv_label r) None rg1))"
      using assms(1) i by (simp add: resolve_one_def tg echoed_quiet [OF assms(2)] Let_def)
    then show ?thesis using sp(1) sp(2) [OF i(1)] new_fragment_spec [OF i(3)] D that [of rg1] by blast
  next
    case False
    then have "rg' = record_decision (decision_of env user t n r target None) (rollback_prior user t (rv_label r) None rg1)"
      using assms(1) by (auto simp: resolve_one_def tg echoed_quiet [OF assms(2)] Let_def split: option.splits if_splits sum.splits)
    then show ?thesis using sp(1) D that [of rg1] by blast
  qed
qed

text \<open>A request is clear when it does not both name a fragment and ask for a new one.\<close>

definition clear_request :: "resolution \<Rightarrow> bool" where
  "clear_request r \<longleftrightarrow> quiet r \<or> \<not> rv_fragment r"

lemma resolve_one_clear:
  assumes "resolve_one env user t n r rg = Inr rg'" and "clear_request r"
  obtains rg1 keep where "rg1 = rg \<or> (\<exists>name. rg1 = create_speaker (sv_speaker_id env n) user name rg)"
    and "(\<exists>d. md_user d = user \<and> md_task d = Some t \<and> md_label d = rv_label r \<and> md_created d = sv_now env n \<and> md_sample d = keep
            \<and> rg' = record_decision d (rollback_prior user t (rv_label r) keep rg1))
       \<or> (\<exists>d v. md_user d = user \<and> md_task d = Some t \<and> md_label d = rv_label r \<and> md_created d = sv_now env n \<and> md_sample d = Some (vs_id v)
            \<and> vs_id v = sv_sample_id env n \<and> vs_task v = Some t \<and> users_speaker user rg1 (vs_speaker v) \<and> keep = None
            \<and> rg' = record_decision d (add_voice_sample v (rollback_prior user t (rv_label r) keep rg1)))"
proof (cases "quiet r")
  case True
  then show ?thesis using resolve_one_spec [OF assms(1)] that [of _ None] by metis
next
  case False
  then have nf: "\<not> rv_fragment r" using assms(2) by (simp add: clear_request_def)
  obtain rg1 target where tg: "resolve_target env user n r rg = Inr (rg1, target)"
    using assms(1) by (auto simp: resolve_one_def split: sum.splits)
  obtain echo where e: "echoed_sample env r = Inr echo"
    using assms(1) by (auto simp: resolve_one_def tg split: sum.splits)
  have "rg' = record_decision (decision_of env user t n r target echo) (rollback_prior user t (rv_label r) echo rg1)"
    using assms(1) nf by (auto simp: resolve_one_def tg e Let_def split: option.splits)
  moreover have "md_user (decision_of env user t n r target echo) = user" "md_task (decision_of env user t n r target echo) = Some t"
    "md_label (decision_of env user t n r target echo) = rv_label r"
    "md_created (decision_of env user t n r target echo) = sv_now env n" "md_sample (decision_of env user t n r target echo) = echo"
    by (simp_all add: decision_of_def)
  ultimately show ?thesis using that [OF resolve_target_spec(1) [OF tg], of echo] by blast
qed

text \<open>Identifiers and instants are new.\<close>

definition fresh_from :: "nat \<Rightarrow> save_env \<Rightarrow> registry \<Rightarrow> bool" where
  "fresh_from n env rg \<longleftrightarrow> inj (sv_sample_id env) \<and> inj (sv_speaker_id env) \<and> strict_mono (sv_now env)
     \<and> (\<forall>m\<ge>n. sv_sample_id env m \<notin> vs_id ` set (rg_samples rg) \<and> sv_speaker_id env m \<notin> sp_id ` set (rg_speakers rg)
          \<and> decided_before (sv_now env m) rg)"

lemma rollback_samples: "set (rg_samples (rollback_prior user t l keep rg)) \<subseteq> set (rg_samples rg)"
  using rollback_cases [of user t l keep rg] by (auto simp: remove_samples_tables)

lemma resolve_one_keeps:
  assumes "resolve_one env (owner t) t n r rg = Inr rg'" and "clear_request r" and "well_kept owner rg" and "fresh_from n env rg"
  shows "well_kept owner rg' \<and> fresh_from (n + 1) env rg'"
proof -
  obtain rg1 keep where rg1: "rg1 = rg \<or> (\<exists>name. rg1 = create_speaker (sv_speaker_id env n) (owner t) name rg)"
    and res: "(\<exists>d. md_user d = owner t \<and> md_task d = Some t \<and> md_label d = rv_label r \<and> md_created d = sv_now env n \<and> md_sample d = keep
            \<and> rg' = record_decision d (rollback_prior (owner t) t (rv_label r) keep rg1))
       \<or> (\<exists>d v. md_user d = owner t \<and> md_task d = Some t \<and> md_label d = rv_label r \<and> md_created d = sv_now env n \<and> md_sample d = Some (vs_id v)
            \<and> vs_id v = sv_sample_id env n \<and> vs_task v = Some t \<and> users_speaker (owner t) rg1 (vs_speaker v) \<and> keep = None
            \<and> rg' = record_decision d (add_voice_sample v (rollback_prior (owner t) t (rv_label r) keep rg1)))"
    by (rule resolve_one_clear [OF assms(1,2)])
  let ?rg = "rollback_prior (owner t) t (rv_label r) keep rg1"
  have fr: "sv_sample_id env n \<notin> vs_id ` set (rg_samples rg)" "sv_speaker_id env n \<notin> sp_id ` set (rg_speakers rg)"
    "decided_before (sv_now env n) rg" using assms(4) by (simp_all add: fresh_from_def)
  have same: "rg_samples rg1 = rg_samples rg" "rg_decisions rg1 = rg_decisions rg"
    "set (rg_speakers rg1) \<subseteq> set (rg_speakers rg) \<union> {s. sp_id s = sv_speaker_id env n}"
    using rg1 by (auto simp: create_speaker_def)
  have k1: "well_kept owner rg1" using rg1 assms(3) well_kept_create fr(2) by blast
  have k: "well_kept owner ?rg" by (rule rollback_well_kept [OF k1])
  have db: "decided_before m ?rg = decided_before m rg" for m by (simp add: decided_before_def [of _ rg1] decided_before_def [of _ rg] same)
  have lab: "\<forall>v\<in>set (fragments t ?rg). keep = Some (vs_id v)
      \<or> (\<exists>l' d'. l' \<noteq> rv_label r \<and> prior_decision (owner t) t l' ?rg = Some d' \<and> md_sample d' = Some (vs_id v))"
    using rollback_other_label [OF k1] by blast
  have ids: "vs_id ` set (rg_samples ?rg) \<subseteq> vs_id ` set (rg_samples rg)"
    using rollback_samples [of "owner t" t "rv_label r" keep rg1] same(1) by auto
  have u: "users_speaker (owner t) ?rg i = users_speaker (owner t) rg1 i" for i by (rule users_speaker_same [OF rollback_speakers])
  have dbn: "decided_before (sv_now env n) ?rg" using db fr(3) by simp
  have kept: "well_kept owner rg'" using res
  proof (elim disjE exE conjE)
    fix d assume "md_user d = owner t" "md_task d = Some t" "md_label d = rv_label r" "md_created d = sv_now env n"
      "md_sample d = keep" "rg' = record_decision d ?rg"
    then show ?thesis using well_kept_record [OF k, of d t] dbn lab by simp
  next
    fix d v assume "md_user d = owner t" "md_task d = Some t" "md_label d = rv_label r" "md_created d = sv_now env n" "md_sample d = Some (vs_id v)"
      "vs_id v = sv_sample_id env n" "vs_task v = Some t" "users_speaker (owner t) rg1 (vs_speaker v)" "keep = None" "rg' = record_decision d (add_voice_sample v ?rg)"
    then show ?thesis using well_kept_record_new [OF k, of d t v] dbn lab ids fr(1) u by auto
  qed
  have sub: "set (rg_samples rg') \<subseteq> set (rg_samples ?rg) \<union> {v. vs_id v = sv_sample_id env n}"
    "set (rg_decisions rg') \<subseteq> set (rg_decisions ?rg) \<union> {d. md_created d = sv_now env n}" "rg_speakers rg' = rg_speakers rg1"
    using res by (auto simp: rollback_speakers)
  have "fresh_from (n + 1) env rg'"
    unfolding fresh_from_def
  proof (intro conjI allI impI)
    show inj: "inj (sv_sample_id env)" "inj (sv_speaker_id env)" "strict_mono (sv_now env)" using assms(4) by (simp_all add: fresh_from_def)
    fix m assume m: "n + 1 \<le> m"
    then have mn: "m \<noteq> n" "n \<le> m" "sv_now env n < sv_now env m" using inj(3) by (auto simp: strict_mono_def)
    have old: "sv_sample_id env m \<notin> vs_id ` set (rg_samples rg)" "sv_speaker_id env m \<notin> sp_id ` set (rg_speakers rg)" "decided_before (sv_now env m) rg"
      using assms(4) mn(2) by (simp_all add: fresh_from_def)
    have new: "sv_sample_id env m \<noteq> sv_sample_id env n" "sv_speaker_id env m \<noteq> sv_speaker_id env n" using mn(1) inj(1,2) by (auto dest: injD)
    show "sv_sample_id env m \<notin> vs_id ` set (rg_samples rg')" using sub(1) ids old(1) new(1) by force
    show "sv_speaker_id env m \<notin> sp_id ` set (rg_speakers rg')" using same(3) old(2) new(2) unfolding sub(3) by auto
    have "decided_before (sv_now env m) ?rg" using db old(3) by simp
    then show "decided_before (sv_now env m) rg'" using sub(2) mn(3) by (auto simp: decided_before_def)
  qed
  then show ?thesis using kept by simp
qed

lemma resolve_all_keeps:
  assumes "resolve_all env (owner t) t n rs rg = Inr rg'" and "list_all clear_request rs" and "well_kept owner rg" and "fresh_from n env rg"
  shows "well_kept owner rg'"
  using assms
proof (induction rs arbitrary: n rg)
  case (Cons r rs)
  obtain rg1 where r: "resolve_one env (owner t) t n r rg = Inr rg1" "resolve_all env (owner t) t (n + 1) rs rg1 = Inr rg'"
    using Cons.prems(1) by (auto split: sum.splits)
  from resolve_one_keeps [of env owner t n r rg rg1] r Cons.prems have "well_kept owner rg1" "fresh_from (n + 1) env rg1" by auto
  then show ?case using Cons.IH r(2) Cons.prems(2) by simp
qed simp

text \<open>The registry's other operations.\<close>

lemma same_owner:
  assumes "ids_ok rg" and "users_speaker a rg i" and "users_speaker b rg i"
  shows "a = b"
proof -
  obtain s s' where "s \<in> set (rg_speakers rg)" "s' \<in> set (rg_speakers rg)" "sp_id s = i" "sp_id s' = i" "sp_user s = a" "sp_user s' = b"
    using assms(2,3) by (auto simp: users_speaker_def list_ex_iff)
  then show ?thesis using assms(1) by (auto simp: ids_ok_def distinct_map dest: inj_onD)
qed

lemma get_users_speaker: "get_speaker user i rg \<noteq> None \<Longrightarrow> users_speaker user rg i"
  using users_speaker_get by blast

text \<open>An operation that repoints fragments inside one account and leaves the decisions' fragments alone.\<close>

lemma well_kept_repoint:
  assumes "well_kept owner rg" and "rg_samples rg' = map g (rg_samples rg)"
    and "\<And>v. vs_id (g v) = vs_id v \<and> vs_task (g v) = vs_task v"
    and "rg_decisions rg' = map f (rg_decisions rg)"
    and "\<And>d. md_created (f d) = md_created d \<and> md_user (f d) = md_user d \<and> md_task (f d) = md_task d \<and> md_label (f d) = md_label d
          \<and> md_sample (f d) = md_sample d"
    and "\<And>v user. v \<in> set (rg_samples rg) \<Longrightarrow> users_speaker user rg (vs_speaker v) \<Longrightarrow> users_speaker user rg' (vs_speaker (g v))"
    and "distinct (map sp_id (rg_speakers rg'))"
  shows "well_kept owner rg'"
proof -
  have "map vs_id (rg_samples rg') = map vs_id (rg_samples rg)" using assms(3) by (simp add: assms(2))
  then have ok: "ids_ok rg'" using assms(1,7) by (simp add: well_kept_def ids_ok_def)
  have "tracked (owner t) t rg'" for t
    unfolding tracked_def
  proof
    fix v assume "v \<in> set (fragments t rg')"
    then obtain v0 where v0: "v = g v0" "v0 \<in> set (rg_samples rg)" "v0 \<in> set (fragments t rg)"
      using assms(2,3) by (auto simp: fragments_def)
    then obtain l d where d: "users_speaker (owner t) rg (vs_speaker v0)" "prior_decision (owner t) t l rg = Some d" "md_sample d = Some (vs_id v0)"
      using assms(1) unfolding well_kept_def tracked_def by blast
    have "prior_decision (owner t) t l rg' = Some (f d)"
      using prior_map [OF assms(4), of "owner t" t l] assms(5) d(2) by simp
    moreover have "md_sample (f d) = Some (vs_id v)" using assms(3,5) d(3) v0(1) by simp
    ultimately show "users_speaker (owner t) rg' (vs_speaker v) \<and> (\<exists>l d. prior_decision (owner t) t l rg' = Some d \<and> md_sample d = Some (vs_id v))"
      using assms(6) [OF v0(2) d(1)] v0(1) by blast
  qed
  then show ?thesis using ok by (simp add: well_kept_def)
qed

lemma well_kept_rename:
  assumes "well_kept owner rg" and "rename_speaker user i name rg = Some rg'"
  shows "well_kept owner rg'"
proof (rule well_kept_repoint [OF assms(1), where g = id and f = id])
  define f where "f s = (if sp_id s = i then s\<lparr>sp_name := name\<rparr> else s)" for s :: speaker
  have f: "sp_id (f s) = sp_id s" "sp_user (f s) = sp_user s" for s by (simp_all add: f_def)
  have s: "rg_speakers rg' = map f (rg_speakers rg)"
    and v: "rg_samples rg' = map id (rg_samples rg)" and d: "rg_decisions rg' = map id (rg_decisions rg)"
    using assms(2) by (auto simp: rename_speaker_def f_def [abs_def] split: option.splits)
  show "rg_samples rg' = map id (rg_samples rg)" "rg_decisions rg' = map id (rg_decisions rg)" by (fact v d)+
  show "users_speaker user rg' (vs_speaker (id v))" if "users_speaker user rg (vs_speaker v)" for v user
    using that by (simp add: users_speaker_def s list_ex_iff f)
  have "map sp_id (rg_speakers rg') = map sp_id (rg_speakers rg)" unfolding s by (simp add: f)
  then show "distinct (map sp_id (rg_speakers rg'))" using assms(1) by (simp add: well_kept_def ids_ok_def)
qed simp_all

lemma well_kept_move:
  assumes "well_kept owner rg" and "move_voice_sample user i target rg = Some rg'"
  shows "well_kept owner rg'"
proof (rule well_kept_repoint [OF assms(1), where g = "\<lambda>v. if vs_id v = i then v\<lparr>vs_speaker := target\<rparr> else v" and f = id])
  have ok: "ids_ok rg" using assms(1) by (simp add: well_kept_def)
  have m: "get_voice_sample user i rg \<noteq> None" "get_speaker user target rg \<noteq> None"
    and r: "rg' = rg\<lparr>rg_samples := map (\<lambda>v. if vs_id v = i then v\<lparr>vs_speaker := target\<rparr> else v) (rg_samples rg)\<rparr>"
    using assms(2) by (auto simp: move_voice_sample_def split: if_splits)
  obtain v0 where v0: "v0 \<in> set (rg_samples rg)" "vs_id v0 = i" "users_speaker user rg (vs_speaker v0)"
    using m(1) unfolding get_voice_sample_def find_None_iff by blast
  show "users_speaker a rg' (vs_speaker (if vs_id v = i then v\<lparr>vs_speaker := target\<rparr> else v))"
    if v: "v \<in> set (rg_samples rg)" "users_speaker a rg (vs_speaker v)" for v a
  proof (cases "vs_id v = i")
    case True
    then have "v = v0" using ok v(1) v0(1,2) by (auto simp: ids_ok_def distinct_map dest: inj_onD)
    then have "a = user" using same_owner [OF ok v(2)] v0(3) by simp
    then show ?thesis using True get_users_speaker [OF m(2)] by (simp add: r users_speaker_def)
  qed (use v(2) in \<open>simp add: r users_speaker_def\<close>)
  show "distinct (map sp_id (rg_speakers rg'))" using ok by (simp add: r ids_ok_def)
  show "rg_samples rg' = map (\<lambda>v. if vs_id v = i then v\<lparr>vs_speaker := target\<rparr> else v) (rg_samples rg)"
    "rg_decisions rg' = map id (rg_decisions rg)" by (simp_all add: r)
qed simp_all

lemma well_kept_merge:
  assumes "well_kept owner rg" and "merge_speakers user source target rg = Some rg'"
  shows "well_kept owner rg'"
proof -
  note m = merge_tables [OF assms(2)]
  have ok: "ids_ok rg" using assms(1) by (simp add: well_kept_def)
  have sp: "users_speaker a rg' (given source target (vs_speaker v))" if "users_speaker a rg (vs_speaker v)" for v :: voice_sample and a
  proof (cases "vs_speaker v = source")
    case True
    then have "a = user" using same_owner [OF ok that] get_users_speaker [OF m(2)] by simp
    then have "users_speaker a rg target" using get_users_speaker [OF m(3)] by simp
    then show ?thesis using True m(1) by (auto simp: users_speaker_def m(4) list_ex_iff)
  next
    case False
    then show ?thesis using that by (auto simp: users_speaker_def m(4) list_ex_iff)
  qed
  show ?thesis
  proof (rule well_kept_repoint [OF assms(1) m(5) _ m(6)])
    show "distinct (map sp_id (rg_speakers rg'))" using ok by (simp add: m(4) ids_ok_def distinct_map_filter)
    show "users_speaker a rg' (vs_speaker (v\<lparr>vs_speaker := given source target (vs_speaker v)\<rparr>))"
      if "users_speaker a rg (vs_speaker v)" for v :: voice_sample and a using sp [OF that] by simp
  qed simp_all
qed

lemma well_kept_delete:
  assumes "well_kept owner rg"
  shows "well_kept owner (delete_speaker_row i rg)"
proof -
  let ?rg = "remove_samples (\<lambda>v. vs_speaker v = i) rg"
  have k: "well_kept owner ?rg" by (rule well_kept_remove [OF assms])
  have sp: "rg_speakers ?rg = rg_speakers rg" by (rule remove_samples_tables)
  show ?thesis
  proof (rule well_kept_repoint [OF k, where g = id and f = "\<lambda>d. if md_speaker d = Some i then d\<lparr>md_speaker := None\<rparr> else d"])
    show "users_speaker user (delete_speaker_row i rg) (vs_speaker (id v))"
      if "v \<in> set (rg_samples ?rg)" "users_speaker user ?rg (vs_speaker v)" for v user
      using that by (auto simp: users_speaker_def delete_speaker_row_def Let_def remove_samples_tables list_ex_iff)
    show "distinct (map sp_id (rg_speakers (delete_speaker_row i rg)))"
      using k by (simp add: well_kept_def ids_ok_def delete_speaker_row_def Let_def distinct_map_filter)
  qed (simp_all add: delete_speaker_row_def Let_def)
qed

section \<open>Histories of a registry\<close>

text \<open>Each task has an owner; only its owner saves its voices. Identifiers and instants of a save are
  new. No resolution of a save both names a fragment and asks for a new one (the web client names none).\<close>

inductive registry_step :: "(uuid \<Rightarrow> uuid) \<Rightarrow> registry \<Rightarrow> registry \<Rightarrow> bool" for owner where
  step_save: "resolve_all env (owner t) t 0 rs rg = Inr rg' \<Longrightarrow> list_all clear_request rs \<Longrightarrow> fresh_from 0 env rg \<Longrightarrow> registry_step owner rg rg'"
| step_create: "i \<notin> sp_id ` set (rg_speakers rg) \<Longrightarrow> registry_step owner rg (create_speaker i user name rg)"
| step_rename: "rename_speaker user i name rg = Some rg' \<Longrightarrow> registry_step owner rg rg'"
| step_delete: "delete_speaker user i rg = Some rg' \<Longrightarrow> registry_step owner rg rg'"
| step_forget: "delete_voice_sample user i rg = Some rg' \<Longrightarrow> registry_step owner rg rg'"
| step_move: "move_voice_sample user i target rg = Some rg' \<Longrightarrow> registry_step owner rg rg'"
| step_merge: "merge_speakers user source target rg = Some rg' \<Longrightarrow> registry_step owner rg rg'"

lemma step_well_kept: "registry_step owner rg rg' \<Longrightarrow> well_kept owner rg \<Longrightarrow> well_kept owner rg'"
proof (induction rule: registry_step.induct)
  case (step_save env t rs rg rg')
  then show ?case using resolve_all_keeps by blast
next
  case (step_delete user i rg rg')
  then show ?case using well_kept_delete by (auto simp: delete_speaker_def split: option.splits)
next
  case (step_forget user i rg rg')
  then show ?case using well_kept_remove delete_voice_sample_some by blast
qed (auto intro: well_kept_create well_kept_rename well_kept_move well_kept_merge)

lemma reachable_well_kept: "(registry_step owner)\<^sup>*\<^sup>* rg rg' \<Longrightarrow> well_kept owner rg \<Longrightarrow> well_kept owner rg'"
  by (induction rule: rtranclp_induct) (auto intro: step_well_kept)

section \<open>Properties\<close>

text \<open>(C5) Rendering is undoable. Whatever was rendered before, with whatever registry, and wherever each
  of those renderings was cut short, rendering with the present registry gives the files that it gives
  from the beginning: the entries are all of the merge step's but those of the labels that are noise now,
  and the full set is carried on.\<close>

theorem rerender_undoable:
  assumes "tf_json f = Some p" and "source_entries p = Some es"
  shows "\<exists>p'. let f' = foldl (rerendered uc language user t) f hist; g = written (rerender_transcript uc language user t rg f') f' in
      g = written (rerender_transcript uc language user t rg f) f
    \<and> tf_json g = Some p' \<and> tf_txt g = Some (tp_text p') \<and> tp_all p' = Some es
    \<and> tp_entries p' = Some (kept_entries (noise_now user t rg f) es)"
proof -
  let ?f = "foldl (rerendered uc language user t) f hist"
  obtain p1 where p1: "tf_json ?f = Some p1" "source_entries p1 = Some es" "tf_matches ?f = tf_matches f"
    using rerendered_many [OF assms] by blast
  obtain out where out: "rerender_transcript uc language user t rg f
       = [WriteJson (p\<lparr>tp_entries := Some (kept_entries (noise_now user t rg f) es), tp_all := Some es, tp_text := out\<rparr>), WriteTxt out]"
    and again: "rerender_transcript uc language user t rg ?f = rerender_transcript uc language user t rg f"
    using rerender_steps [OF assms, of uc language user t rg] p1 by metis
  have "written (rerender_transcript uc language user t rg ?f) ?f = written (rerender_transcript uc language user t rg f) f"
    unfolding again out using p1(3) by (simp add: written_def transcript_files.equality)
  then show ?thesis unfolding Let_def by (simp add: out written_def)
qed

definition sample_entry :: "string \<Rightarrow> string \<Rightarrow> transcript_entry" where
  "sample_entry l s = \<lparr>te_start = 0, te_end = 1, te_text = lit s, te_speaker = Some (lit l)\<rparr>"

definition sample_files :: transcript_files where
  "sample_files = \<lparr>tf_json = Some \<lparr>tp_entries = Some [sample_entry ''S0'' ''one'', sample_entry ''S1'' ''two''], tp_all = None, tp_text = []\<rparr>,
     tf_txt = None, tf_matches = Some (Some [(lit ''S0'', JDict [(lit ''noise'', JBool True)])])\<rparr>"

theorem rerender_undoable_witness:
  "\<exists>p'. let f' = rerendered ascii_tables None 1 7 sample_files (\<lparr>rg_speakers = [], rg_samples = [], rg_decisions = []\<rparr>, 1);
        g = written (rerender_transcript ascii_tables None 1 7 sample_registry f') f' in
     tf_json g = Some p' \<and> tp_entries p' = Some [sample_entry ''S0'' ''one'', sample_entry ''S1'' ''two'']"
proof -
  have k: "kept_entries (noise_now 1 7 sample_registry sample_files) [sample_entry ''S0'' ''one'', sample_entry ''S1'' ''two'']
      = [sample_entry ''S0'' ''one'', sample_entry ''S1'' ''two'']"
    by (simp add: noise_now_def resolve_noise_labels_def has_decisions_for_task_def noise_labels_from_decisions_def
        task_decisions_def in_order_def sample_registry_def sample_decision_def kept_entries_def Let_def)
  obtain p where p: "tf_json sample_files = Some p" "source_entries p = Some [sample_entry ''S0'' ''one'', sample_entry ''S1'' ''two'']"
    by (simp add: sample_files_def source_entries_def)
  from rerender_undoable [OF p, of ascii_tables None 1 7 "[(\<lparr>rg_speakers = [], rg_samples = [], rg_decisions = []\<rparr>, 1)]" sample_registry]
  show ?thesis unfolding k Let_def by auto
qed

text \<open>(C4) One fragment per voice. Take any history of a registry that starts without fragments: saves of
  voices any number of times over, people created, renamed, merged and deleted, fragments moved and
  deleted. Only a task's owner saves its voices, each save uses identifiers no row has and records its
  decisions later than all before, and no entry of a save both names a fragment and asks for a new one.
  Then a task has added at most as many of the fragments that stand as its owner has decided labels. (An
  entry that does both leaves a voice with two: the rollback spares the named fragment, the decision
  names the new one.)\<close>

theorem one_fragment_per_voice:
  assumes "(registry_step owner)\<^sup>*\<^sup>* rg rg'" and "rg_samples rg = []" and "distinct (map sp_id (rg_speakers rg))"
  shows "length (fragments t rg') \<le> card (md_label ` {d \<in> set (rg_decisions rg'). md_user d = owner t \<and> md_task d = Some t})"
proof -
  have "well_kept owner rg" using assms(2,3) by (simp add: well_kept_def ids_ok_def tracked_def fragments_def)
  then have "well_kept owner rg'" by (rule reachable_well_kept [OF assms(1)])
  then show ?thesis by (intro tracked_bound) (simp_all add: well_kept_def)
qed

definition sample_save :: "nat \<Rightarrow> save_env" where
  "sample_save k = \<lparr>sv_uuid = (\<lambda>x. Some (length x)), sv_speaker_id = (\<lambda>n. 100 * k + n), sv_sample_id = (\<lambda>n. 100 * k + n),
     sv_decision_id = (\<lambda>n. 100 * k + n), sv_now = (\<lambda>n. int (100 * k + n)), sv_model = lit ''m'',
     sv_previews = [(lit ''S0'', [\<lparr>cl_path = lit ''c'', cl_start = 0, cl_end = 2\<rparr>])],
     sv_file = (\<lambda>p. Some [4]), sv_embed = (\<lambda>a. Some [4])\<rparr>"

definition bind_anna :: resolution where
  "bind_anna = \<lparr>rv_label = lit ''S0'', rv_action = lit ''bind_new'', rv_speaker = None, rv_new = Some (lit ''Anna''), rv_fragment = True,
     rv_distance = None, rv_sample = None, rv_outcome = [], rv_noise = False\<rparr>"

definition no_registry :: registry where
  "no_registry = \<lparr>rg_speakers = [], rg_samples = [], rg_decisions = []\<rparr>"

lemma strip_Anna: "strip (lit ''Anna'') = lit ''Anna''"
  by (simp add: strip_def lstrip_def rstrip_def lit_def py_space_def)

lemma save_fresh: "fresh_from 0 (sample_save 2) no_registry"
  by (simp add: fresh_from_def sample_save_def no_registry_def decided_before_def inj_def strict_mono_def)

definition anna_registry :: registry where
  "anna_registry = \<lparr>rg_speakers = [\<lparr>sp_id = 200, sp_user = 3, sp_name = lit ''Anna''\<rparr>],
     rg_samples = [\<lparr>vs_id = 200, vs_speaker = 200, vs_embedding = [4], vs_model = lit ''m'', vs_audio = [4], vs_format = lit ''wav'',
        vs_duration = 2, vs_task = Some 7, vs_created = 200\<rparr>],
     rg_decisions = [\<lparr>md_id = 200, md_user = 3, md_task = Some 7, md_label = lit ''S0'', md_speaker = Some 200, md_sample = Some 200,
        md_distance = None, md_model = lit ''m'', md_outcome = [], md_noise = False, md_created = 200\<rparr>]\<rparr>"

lemma lit_some: "lit ''m'' \<noteq> []" "lit ''Anna'' \<noteq> []" "lit ''4'' \<noteq> []"
  by (simp_all add: lit_def)

definition anna_only :: registry where
  "anna_only = no_registry\<lparr>rg_speakers := [\<lparr>sp_id = 200, sp_user = 3, sp_name = lit ''Anna''\<rparr>]\<rparr>"

lemma anna_target: "resolve_target (sample_save 2) 3 0 bind_anna no_registry = Inr (anna_only, Some 200)"
  unfolding resolve_target_def bind_anna_def
  by (simp add: strip_Anna lit_some create_speaker_def sample_save_def anna_only_def no_registry_def)

lemma anna_fragment: "new_fragment (sample_save 2) 7 0 (lit ''S0'') 200 = Inr (hd (rg_samples anna_registry))"
  by (simp add: new_fragment_def sample_save_def lit_some dict_or_def dict_get_def anna_registry_def)

lemma anna_saved: "resolve_all (sample_save 2) 3 7 0 [bind_anna] no_registry = Inr anna_registry"
proof -
  have e: "echoed_sample (sample_save 2) bind_anna = Inr None" by (simp add: echoed_sample_def bind_anna_def)
  have b: "rv_label bind_anna = lit ''S0''" "rv_fragment bind_anna" by (simp_all add: bind_anna_def)
  have r: "rollback_prior 3 7 (lit ''S0'') None anna_only = anna_only"
    by (simp add: rollback_prior_def find_prior_decision_sample_def anna_only_def no_registry_def)
  have "resolve_one (sample_save 2) 3 7 0 bind_anna no_registry = Inr anna_registry"
    unfolding resolve_one_def anna_target e
    by (simp add: b r anna_fragment)
      (simp add: record_decision_def add_voice_sample_def decision_of_def bind_anna_def sample_save_def anna_only_def no_registry_def anna_registry_def)
  then show ?thesis by simp
qed

theorem one_fragment_per_voice_witness:
  "\<exists>rg'. (registry_step (\<lambda>t. 3))\<^sup>*\<^sup>* no_registry rg' \<and> fragments 7 rg' \<noteq> [] \<and> length (fragments 7 rg') \<le> 1"
proof -
  have s: "registry_step (\<lambda>t. 3) no_registry anna_registry"
    by (rule step_save [OF anna_saved _ save_fresh]) (simp add: clear_request_def quiet_def bind_anna_def)
  then have r: "(registry_step (\<lambda>t. 3))\<^sup>*\<^sup>* no_registry anna_registry" by (rule r_into_rtranclp)
  have l: "md_label ` {d \<in> set (rg_decisions anna_registry). md_user d = 3 \<and> md_task d = Some 7} = {lit ''S0''}"
    unfolding set_filter [symmetric] by (simp add: anna_registry_def)
  have "rg_samples no_registry = []" "distinct (map sp_id (rg_speakers no_registry))" by (simp_all add: no_registry_def)
  from one_fragment_per_voice [OF r this, of 7] have "length (fragments 7 anna_registry) \<le> 1" unfolding l by simp
  moreover have "fragments 7 anna_registry \<noteq> []" by (simp add: fragments_def anna_registry_def)
  ultimately show ?thesis using r by blast
qed

text \<open>A save that leaves voices anonymous.\<close>

lemma anonymous_one:
  assumes "resolve_one env user t n r rg = Inr rg'" and "rv_action r = lit ''leave_anonymous''"
  obtains echo rg2 where "rg2 = rollback_prior user t (rv_label r) echo rg" and "rg' = record_decision (decision_of env user t n r None echo) rg2"
proof -
  have "resolve_target env user n r rg = Inr (rg, None)" using assms(2) by (simp add: resolve_target_def)
  then show ?thesis using assms(1) that by (auto simp: resolve_one_def Let_def split: sum.splits)
qed

text \<open>What the rollback keeps of the decisions.\<close>

lemma rollback_view:
  assumes "rg' = rollback_prior user' t' l keep rg"
  shows "speaker_names_for_task user t rg' = speaker_names_for_task user t rg"
    and "tasks_featuring_speaker user i rg' = tasks_featuring_speaker user i rg"
    and "dict_get (decisions_for_task user t rg') x = dict_get (decisions_for_task user t rg) x"
proof -
  have "speaker_names_for_task user t rg' = speaker_names_for_task user t rg
      \<and> tasks_featuring_speaker user i rg' = tasks_featuring_speaker user i rg
      \<and> dict_get (decisions_for_task user t rg') x = dict_get (decisions_for_task user t rg) x"
    if r: "rg' = remove_samples gone rg" for gone
  proof -
    let ?f = "forget_samples (vs_id ` {v \<in> set (rg_samples rg). gone v})"
    have f: "md_created (?f d) = md_created d \<and> md_id (?f d) = md_id d" "md_user (?f d) = md_user d" "md_task (?f d) = md_task d"
      "md_label (?f d) = md_label d" "md_speaker (?f d) = md_speaker d" "md_noise (?f d) = md_noise d" for d
      by (simp_all split: option.split)
    have n: "name_of rg' = name_of rg" by (rule name_of_same) (simp add: r remove_samples_tables)
    have D: "rg_decisions rg' = map ?f (rg_decisions rg)" unfolding r by (rule remove_samples_tables)
    have ds: "task_decisions user t rg' = map ?f (task_decisions user t rg)"
      unfolding task_decisions_def r remove_samples_tables filter_map o_def f by (rule in_order_map) (rule f(1))
    have j: "joined_name rg' (?f d) = joined_name rg d" for d unfolding joined_name_def f n ..
    have pn: "put_name rg' m (?f d) = put_name rg m d" for m d unfolding put_name_def j f ..
    have dc: "decided_of rg' (?f d) = decided_of rg d" for d unfolding decided_of_def j f ..
    have "foldl (put_name rg') m (map ?f es) = foldl (put_name rg) m es" for m es
      by (induction es arbitrary: m) (simp_all only: list.map foldl_Nil foldl_Cons pn)
    moreover have "foldl (\<lambda>m d. dict_set m (md_label d) (decided_of rg' d)) m (map ?f es)
        = foldl (\<lambda>m d. dict_set m (md_label d) (decided_of rg d)) m es" for m es
      by (induction es arbitrary: m) (simp_all only: list.map foldl_Nil foldl_Cons dc f)
    moreover have "List.map_filter (\<lambda>d. if md_user d = user \<and> md_speaker d = Some i then md_task d else None) (map ?f es)
        = List.map_filter (\<lambda>d. if md_user d = user \<and> md_speaker d = Some i then md_task d else None) es" for es
      by (induction es) (simp_all only: list.map List.map_filter_simps f)
    ultimately show ?thesis
      unfolding speaker_names_for_task_def decisions_for_task_def ds tasks_featuring_speaker_def D by simp
  qed
  then have "speaker_names_for_task user t rg' = speaker_names_for_task user t rg
      \<and> tasks_featuring_speaker user i rg' = tasks_featuring_speaker user i rg
      \<and> dict_get (decisions_for_task user t rg') x = dict_get (decisions_for_task user t rg) x"
    using rollback_cases [of user' t' l keep rg] assms by auto
  then show "speaker_names_for_task user t rg' = speaker_names_for_task user t rg"
    and "tasks_featuring_speaker user i rg' = tasks_featuring_speaker user i rg"
    and "dict_get (decisions_for_task user t rg') x = dict_get (decisions_for_task user t rg) x" by simp_all
qed

lemma anonymous_step:
  assumes "resolve_one env user t n r rg = Inr rg'" and "rv_action r = lit ''leave_anonymous''" and "decided_before (sv_now env n) rg"
  shows "speaker_names_for_task user t rg' = speaker_names_for_task user t rg"
    and "tasks_featuring_speaker user i rg' = tasks_featuring_speaker user i rg"
    and "dict_get (decisions_for_task user t rg') x = (if x = rv_label r
           then Some \<lparr>dc_speaker = None, dc_name = None, dc_noise = rv_noise r\<rparr> else dict_get (decisions_for_task user t rg) x)"
    and "sv_now env n < later \<Longrightarrow> decided_before later rg'"
proof -
  obtain echo rg2 where rg2: "rg2 = rollback_prior user t (rv_label r) echo rg"
    and rg': "rg' = record_decision (decision_of env user t n r None echo) rg2"
    using anonymous_one [OF assms(1,2)] by blast
  let ?d = "decision_of env user t n r None echo"
  have d: "md_user ?d = user" "md_task ?d = Some t" "md_label ?d = rv_label r" "md_speaker ?d = None" "md_noise ?d = rv_noise r"
    "md_created ?d = sv_now env n" by (simp_all add: decision_of_def)
  note view = rollback_view [OF rg2]
  have old: "decided_before (sv_now env n) rg2" using assms(3) by (simp add: rg2)
  have j: "joined_name rg2 ?d = None" by (simp add: joined_name_def d)
  show "speaker_names_for_task user t rg' = speaker_names_for_task user t rg"
    unfolding rg' unbound_decision_ignored [OF j] by (rule view)
  show "tasks_featuring_speaker user i rg' = tasks_featuring_speaker user i rg"
    unfolding view(2) [of user i, symmetric] by (simp add: tasks_featuring_speaker_def rg' List.map_filter_def d)
  have dc: "decided_of (record_decision ?d rg2) = decided_of rg2" by (rule ext) (simp add: decided_of_def)
  have "dict_get (decisions_for_task user t rg') x = (if x = rv_label r
           then Some \<lparr>dc_speaker = None, dc_name = None, dc_noise = rv_noise r\<rparr> else dict_get (decisions_for_task user t rg2) x)"
    using task_decisions_record [OF decided_newest, of ?d rg2 user t] old
    by (simp add: decisions_for_task_def rg' dc d) (simp add: decided_of_def j d)
  then show "dict_get (decisions_for_task user t rg') x = (if x = rv_label r
           then Some \<lparr>dc_speaker = None, dc_name = None, dc_noise = rv_noise r\<rparr> else dict_get (decisions_for_task user t rg) x)"
    by (simp add: view)
  show "decided_before later rg'" if "sv_now env n < later"
    using old that by (auto simp: decided_before_def rg' d)
qed

text \<open>(C7) Unbinding a voice leaves its name. A save that leaves voices of a task anonymous is recorded
  as the decision for each of them, but the names with which the transcript is rendered, and the tasks in
  which each person is found, are those of before: the join that reads the names passes over decisions
  without a person, so an earlier binding of the label shows again.\<close>

theorem unbound_label_keeps_name:
  assumes "resolve_all env user t n rs rg = Inr rg'" and "\<forall>r\<in>set rs. rv_action r = lit ''leave_anonymous''"
    and "strict_mono (sv_now env)" and "decided_before (sv_now env n) rg"
  shows "speaker_names_for_task user t rg' = speaker_names_for_task user t rg
    \<and> tasks_featuring_speaker user i rg' = tasks_featuring_speaker user i rg
    \<and> (\<forall>r\<in>set rs. \<exists>noise. dict_get (decisions_for_task user t rg') (rv_label r) = Some \<lparr>dc_speaker = None, dc_name = None, dc_noise = noise\<rparr>)"
proof -
  have "speaker_names_for_task user t rg' = speaker_names_for_task user t rg
    \<and> tasks_featuring_speaker user i rg' = tasks_featuring_speaker user i rg
    \<and> (\<forall>l. l \<in> rv_label ` set rs \<or> (\<exists>noise. dict_get (decisions_for_task user t rg) l = Some \<lparr>dc_speaker = None, dc_name = None, dc_noise = noise\<rparr>)
        \<longrightarrow> (\<exists>noise. dict_get (decisions_for_task user t rg') l = Some \<lparr>dc_speaker = None, dc_name = None, dc_noise = noise\<rparr>))"
    using assms(1,2,4)
  proof (induction rs arbitrary: n rg)
    case (Cons r rs)
    obtain rg1 where r: "resolve_one env user t n r rg = Inr rg1" "resolve_all env user t (n + 1) rs rg1 = Inr rg'"
      using Cons.prems(1) by (auto split: sum.splits)
    have a: "rv_action r = lit ''leave_anonymous''" using Cons.prems(2) by simp
    note s = anonymous_step [OF r(1) a Cons.prems(3)]
    have "sv_now env n < sv_now env (n + 1)" using assms(3) by (simp add: strict_mono_def)
    then have "decided_before (sv_now env (n + 1)) rg1" by (rule s(4))
    from Cons.IH [OF r(2) _ this] show ?case using Cons.prems(2) s(1) s(2) [of i] s(3) by auto
  qed simp
  then show ?thesis by blast
qed

definition leave_s0 :: resolution where
  "leave_s0 = bind_anna\<lparr>rv_action := lit ''leave_anonymous'', rv_fragment := False\<rparr>"

theorem unbound_label_keeps_name_witness:
  "\<exists>rg'. resolve_all (sample_save 5) 3 7 0 [leave_s0] anna_registry = Inr rg'
     \<and> speaker_names_for_task 3 7 rg' = [(lit ''S0'', lit ''Anna'')]
     \<and> dict_get (decisions_for_task 3 7 rg') (lit ''S0'') \<noteq> None"
proof -
  have l: "rv_label leave_s0 = lit ''S0''" "rv_action leave_s0 = lit ''leave_anonymous''" "rv_sample leave_s0 = None"
    by (simp_all add: leave_s0_def bind_anna_def)
  have t: "resolve_target (sample_save 5) 3 0 leave_s0 anna_registry = Inr (anna_registry, None)"
    by (simp add: resolve_target_def l)
  have e: "echoed_sample (sample_save 5) leave_s0 = Inr None" by (simp add: echoed_sample_def l)
  obtain rg' where r: "resolve_all (sample_save 5) 3 7 0 [leave_s0] anna_registry = Inr rg'"
    by (simp add: resolve_one_def t e Let_def)
  have n: "speaker_names_for_task 3 7 anna_registry = [(lit ''S0'', lit ''Anna'')]"
    by (simp add: speaker_names_for_task_def task_decisions_def in_order_def anna_registry_def put_name_def joined_name_def name_of_def)
  have m: "strict_mono (sv_now (sample_save 5))" "decided_before (sv_now (sample_save 5) 0) anna_registry"
    by (simp_all add: sample_save_def strict_mono_def decided_before_def anna_registry_def)
  from unbound_label_keeps_name [OF r _ m, of 200] show ?thesis using r n l by auto
qed

text \<open>A named fragment is lost. A resolution may name a fragment of the registry (the schema calls it
  the winning fragment of the decision), wherever that fragment came from. The next save of the same
  voice that names none deletes it, also when another task or no task added it: the rollback takes every
  fragment of the last decision for one that this task added.\<close>

theorem named_fragment_lost:
  assumes "resolve_one env user t n r rg = Inr rg1" and "rv_sample r = Some x" and "x \<noteq> []" and "sv_uuid env x = Some (vs_id v)"
    and "\<not> rv_fragment r" and "v \<in> set (rg_samples rg)" and "users_speaker user rg (vs_speaker v)" and "vs_task v \<noteq> Some t"
    and "decided_before (sv_now env n) rg"
    and "resolve_one env' user t n' r' rg1 = Inr rg2" and "quiet r'" and "rv_label r' = rv_label r"
    and "vs_id v \<noteq> sv_sample_id env' n'"
  shows "(\<exists>d. prior_decision user t (rv_label r) rg1 = Some d \<and> md_sample d = Some (vs_id v))
    \<and> v \<in> set (rg_samples rg1) \<and> v \<notin> set (rg_samples rg2)"
proof -
  obtain rg0 target where tg: "resolve_target env user n r rg = Inr (rg0, target)"
    using assms(1) by (auto simp: resolve_one_def split: sum.splits)
  have e: "echoed_sample env r = Inr (Some (vs_id v))" using assms(2-4) by (simp add: echoed_sample_def)
  let ?rg = "rollback_prior user t (rv_label r) (Some (vs_id v)) rg0" and ?d = "decision_of env user t n r target (Some (vs_id v))"
  have rg1: "rg1 = record_decision ?d ?rg"
    using assms(1,5) by (auto simp: resolve_one_def tg e Let_def split: option.splits)
  have same: "rg_samples rg0 = rg_samples rg" "rg_decisions rg0 = rg_decisions rg" "set (rg_speakers rg) \<subseteq> set (rg_speakers rg0)"
    using resolve_target_spec(1) [OF tg] by (auto simp: create_speaker_def)
  have kept: "v \<in> set (rg_samples ?rg)"
  proof (cases "prior_decision user t (rv_label r) rg0")
    case (Some d)
    then show ?thesis using assms(6)
      by (cases "md_sample d") (auto simp: rollback_prior_def find_prior same remove_samples_tables
          dest!: delete_voice_sample_some split: option.split)
  qed (use assms(6) same in \<open>simp add: rollback_prior_def find_prior\<close>)
  have "decided_before (sv_now env n) ?rg" using assms(9) by (simp add: decided_before_def [of _ rg0] decided_before_def [of _ rg] same)
  then have new: "newest ?d ?rg" by (intro decided_newest) (simp add: decision_of_def)
  have prior: "prior_decision user t (rv_label r) rg1 = Some ?d"
    unfolding rg1 prior_record [OF new] by (simp add: decision_of_def)
  have d: "md_sample ?d = Some (vs_id v)" by (simp add: decision_of_def)
  have us: "users_speaker user rg1 (vs_speaker v)"
    using users_speaker_mono [OF same(3) assms(7)] by (simp add: rg1 users_speaker_def rollback_speakers)
  have in1: "v \<in> set (rg_samples rg1)" using kept by (simp add: rg1)
  obtain rg1' where s1: "rg1' = rg1 \<or> (\<exists>name. rg1' = create_speaker (sv_speaker_id env' n') user name rg1)"
    and s2: "(\<exists>d. rg2 = record_decision d (rollback_prior user t (rv_label r) None rg1'))
       \<or> (\<exists>d v'. vs_id v' = sv_sample_id env' n' \<and> rg2 = record_decision d (add_voice_sample v' (rollback_prior user t (rv_label r) None rg1')))"
    using resolve_one_spec [OF assms(10,11)] unfolding assms(12) by metis
  have same1: "rg_samples rg1' = rg_samples rg1" "rg_decisions rg1' = rg_decisions rg1" "set (rg_speakers rg1) \<subseteq> set (rg_speakers rg1')"
    using s1 by (auto simp: create_speaker_def)
  have "delete_voice_sample user (vs_id v) rg1' = Some (remove_samples (\<lambda>y. vs_id y = vs_id v) rg1')"
    by (rule delete_voice_sample_known) (use in1 users_speaker_mono [OF same1(3) us] same1(1) in simp_all)
  then have "rollback_prior user t (rv_label r) None rg1' = remove_samples (\<lambda>y. vs_id y = vs_id v) rg1'"
    using prior d by (simp add: rollback_prior_def find_prior prior_same [OF same1(2)])
  then have "v \<notin> set (rg_samples rg2)" using s2 assms(13) by (auto simp: remove_samples_tables)
  then show ?thesis using prior d in1 by blast
qed

definition accept_named :: resolution where
  "accept_named = bind_anna\<lparr>rv_action := lit ''accept_auto'', rv_speaker := Some (lit ''xx''), rv_fragment := False, rv_sample := Some (lit ''xx'')\<rparr>"

text \<open>In the example the fragment of task 7 is named in a save of task 8.\<close>

definition named_env :: "nat \<Rightarrow> save_env" where
  "named_env k = (sample_save k)\<lparr>sv_uuid := (\<lambda>x. Some 200)\<rparr>"

theorem named_fragment_lost_witness:
  "\<exists>rg1 rg2. resolve_one (named_env 5) 3 8 0 accept_named anna_registry = Inr rg1
     \<and> resolve_one (named_env 6) 3 8 0 leave_s0 rg1 = Inr rg2
     \<and> hd (rg_samples anna_registry) \<in> set (rg_samples rg1) \<and> hd (rg_samples anna_registry) \<notin> set (rg_samples rg2)"
proof -
  let ?v = "hd (rg_samples anna_registry)"
  have x: "lit ''xx'' \<noteq> []" by (simp add: lit_def)
  have a: "rv_sample accept_named = Some (lit ''xx'')" "\<not> rv_fragment accept_named" "rv_label accept_named = lit ''S0''"
    "rv_action accept_named = lit ''accept_auto''" "rv_speaker accept_named = Some (lit ''xx'')"
    by (simp_all add: accept_named_def bind_anna_def)
  have l: "rv_label leave_s0 = lit ''S0''" "rv_action leave_s0 = lit ''leave_anonymous''" "rv_sample leave_s0 = None"
    by (simp_all add: leave_s0_def bind_anna_def)
  have v: "?v \<in> set (rg_samples anna_registry)" "vs_id ?v = 200" "vs_speaker ?v = 200" "vs_task ?v = Some 7" "users_speaker 3 anna_registry 200"
    by (simp_all add: anna_registry_def users_speaker_def)
  have env: "sv_uuid (named_env k) y = Some 200" "sv_sample_id (named_env 6) 0 = 600" "sv_now (named_env k) 0 = int (100 * k)" for k y
    by (simp_all add: named_env_def sample_save_def)
  have t: "resolve_target (named_env 5) 3 0 accept_named anna_registry = Inr (anna_registry, Some 200)"
    by (simp add: resolve_target_def existing_target_def a env x) (simp add: get_speaker_def anna_registry_def)
  obtain rg1 where r1: "resolve_one (named_env 5) 3 8 0 accept_named anna_registry = Inr rg1"
    by (simp add: resolve_one_def t a echoed_sample_def x env)
  have t2: "resolve_target (named_env 6) 3 0 leave_s0 rg1 = Inr (rg1, None)" by (simp add: resolve_target_def l)
  obtain rg2 where r2: "resolve_one (named_env 6) 3 8 0 leave_s0 rg1 = Inr rg2"
    by (simp add: resolve_one_def t2 echoed_sample_def l Let_def)
  have db: "decided_before (sv_now (named_env 5) 0) anna_registry" by (simp add: env decided_before_def anna_registry_def)
  have u: "users_speaker 3 anna_registry (vs_speaker ?v)" "sv_uuid (named_env 5) (lit ''xx'') = Some (vs_id ?v)" "vs_task ?v \<noteq> Some 8"
    "quiet leave_s0" "rv_label leave_s0 = rv_label accept_named" "vs_id ?v \<noteq> sv_sample_id (named_env 6) 0"
    using v by (simp_all add: env quiet_def l a)
  from named_fragment_lost [OF r1 a(1) x u(2) a(2) v(1) u(1,3) db r2 u(4-6)] r1 r2 show ?thesis by blast
qed

text \<open>The nearest fragments.\<close>

definition comparable :: "uuid \<Rightarrow> ustr \<Rightarrow> registry \<Rightarrow> (speaker \<times> voice_sample) set" where
  "comparable user model rg = {(s, v). s \<in> set (rg_speakers rg) \<and> sp_user s = user \<and> v \<in> set (rg_samples rg)
     \<and> vs_speaker v = sp_id s \<and> vs_model v = model}"

lemma nearest_of_spec:
  assumes "nearest_of cosine e vs s = Some d"
  shows "(\<exists>v\<in>set vs. vs_speaker v = sp_id s \<and> cosine (vs_embedding v) e = d)
    \<and> (\<forall>v\<in>set vs. vs_speaker v = sp_id s \<longrightarrow> d \<le> cosine (vs_embedding v) e)"
proof -
  let ?ds = "map (\<lambda>v. cosine (vs_embedding v) e) (filter (\<lambda>v. vs_speaker v = sp_id s) vs)"
  have ne: "?ds \<noteq> []" and d: "d = Min (set ?ds)" using assms by (auto simp: nearest_of_def Let_def split: if_splits)
  have "d \<in> set ?ds" unfolding d using ne by (intro Min_in) (simp_all del: set_map)
  moreover have "d \<le> x" if "x \<in> set ?ds" for x unfolding d by (rule Min_le) (use that in simp_all)
  ultimately show ?thesis by auto
qed

lemma nearest_of_None: "nearest_of cosine e vs s = None \<longleftrightarrow> (\<forall>v\<in>set vs. vs_speaker v \<noteq> sp_id s)"
proof -
  have "nearest_of cosine e vs s = None \<longleftrightarrow> filter (\<lambda>v. vs_speaker v = sp_id s) vs = []" by (simp add: nearest_of_def)
  then show ?thesis unfolding filter_empty_conv .
qed

definition scored :: "(real list \<Rightarrow> real list \<Rightarrow> real) \<Rightarrow> uuid \<Rightarrow> real list \<Rightarrow> ustr \<Rightarrow> registry \<Rightarrow> (speaker \<times> real) list" where
  "scored cosine user e model rg = List.map_filter
       (\<lambda>s. map_option (Pair s) (nearest_of cosine e (filter (\<lambda>v. vs_model v = model) (rg_samples rg)) s))
       (filter (\<lambda>s. sp_user s = user) (rg_speakers rg))"

lemma scored_mem: "(s, d) \<in> set (scored cosine user e model rg)
    \<longleftrightarrow> s \<in> set (rg_speakers rg) \<and> sp_user s = user \<and> nearest_of cosine e (filter (\<lambda>v. vs_model v = model) (rg_samples rg)) s = Some d"
  unfolding scored_def List.map_filter_def by force

lemma nearest_head:
  assumes "nearest_speakers cosine user e model (Some cap) rg = (s, d) # rest"
  shows "(\<exists>v. (s, v) \<in> comparable user model rg \<and> cosine (vs_embedding v) e = d)
    \<and> (\<forall>(s', v)\<in>comparable user model rg. d \<le> cosine (vs_embedding v) e)"
proof -
  let ?vs = "filter (\<lambda>v. vs_model v = model) (rg_samples rg)"
  let ?xs = "sort_key snd (scored cosine user e model rg)"
  have "take cap ?xs = (s, d) # rest" using assms by (simp add: nearest_speakers_def limited_def scored_def)
  then have h: "?xs \<noteq> []" "hd ?xs = (s, d)" by (cases ?xs; cases cap; simp)+
  then have "(s, d) \<in> set ?xs" using hd_in_set by metis
  then have sd: "s \<in> set (rg_speakers rg)" "sp_user s = user" "nearest_of cosine e ?vs s = Some d" by (simp_all add: scored_mem)
  have least: "d \<le> d'" if "(s', d') \<in> set (scored cosine user e model rg)" for s' d'
  proof -
    have "sorted (map snd ?xs)" by simp
    then have "\<forall>y\<in>set (tl (map snd ?xs)). hd (map snd ?xs) \<le> y" using h(1) by (cases "map snd ?xs") auto
    moreover have "d' \<in> set (map snd ?xs)" using that by force
    moreover have "hd (map snd ?xs) = d" using h by (simp add: hd_map)
    ultimately show ?thesis using h(1) by (cases "map snd ?xs") auto
  qed
  have "d \<le> cosine (vs_embedding v) e" if c: "(s', v) \<in> comparable user model rg" for s' v
  proof -
    have v: "v \<in> set ?vs" "vs_speaker v = sp_id s'" "s' \<in> set (rg_speakers rg)" "sp_user s' = user" using c by (auto simp: comparable_def)
    then obtain d' where d': "nearest_of cosine e ?vs s' = Some d'" using nearest_of_None by (metis not_Some_eq)
    then have "d \<le> d'" using least [of s' d'] v(3,4) by (simp add: scored_mem)
    also have "d' \<le> cosine (vs_embedding v) e" using nearest_of_spec [OF d'] v(1,2) by blast
    finally show ?thesis .
  qed
  moreover have "\<exists>v. (s, v) \<in> comparable user model rg \<and> cosine (vs_embedding v) e = d"
    using nearest_of_spec [OF sd(3)] sd(1,2) by (auto simp: comparable_def)
  ultimately show ?thesis by blast
qed

lemma dict_get_folded:
  assumes "distinct (map fst xs)" and "(l, x) \<in> set xs"
  shows "dict_get (foldl (\<lambda>m (l, x). dict_set m l (f l x)) m xs) l = Some (f l x)"
proof -
  have keep: "l \<notin> fst ` set ys \<Longrightarrow> dict_get (foldl (\<lambda>m (l, x). dict_set m l (f l x)) m ys) l = dict_get m l" for m ys
    by (induction ys arbitrary: m) (auto split: prod.split)
  show ?thesis using assms
  proof (induction xs arbitrary: m)
    case (Cons y ys)
    then show ?case using keep [of ys] by (cases y) auto
  qed simp
qed

lemma folded_values: "(l, y) \<in> set (foldl (\<lambda>m (l, x). dict_set m l (f l x)) m xs)
    \<Longrightarrow> (l, y) \<in> set m \<or> (\<exists>x. (l, x) \<in> set xs \<and> y = f l x)"
proof (induction xs arbitrary: m)
  case (Cons x xs)
  have ds: "(l, y) \<in> set (dict_set m k v) \<Longrightarrow> (l, y) \<in> set m \<or> (l = k \<and> y = v)" for m k v
    by (induction m k v rule: dict_set.induct) (auto split: if_splits)
  show ?case using Cons.IH [of "dict_set m (fst x) (f (fst x) (snd x))"] Cons.prems ds
    by (cases x) fastforce
qed simp

lemma folded_keys:
  assumes "distinct (map fst m @ map fst xs)"
  shows "map fst (foldl (\<lambda>m (l, x). dict_set m l (f l x)) m xs) = map fst m @ map fst xs"
  using assms
proof (induction xs arbitrary: m)
  case (Cons x xs)
  have new: "map fst (dict_set m k v) = map fst m @ [k]" if "k \<notin> set (map fst m)" for k and v
    using that by (induction m k v rule: dict_set.induct) auto
  have "map fst (dict_set m (fst x) (f (fst x) (snd x))) = map fst m @ [fst x]" using Cons.prems by (intro new) auto
  moreover have "distinct ((map fst m @ [fst x]) @ map fst xs)" using Cons.prems by auto
  ultimately show ?case using Cons.IH [of "dict_set m (fst x) (f (fst x) (snd x))"] by (cases x) simp
qed simp

text \<open>An entry that names the fragment of the last save and asks for a new one leaves both: the voice has two
  fragments of the task, and its decision names the new one only.\<close>

lemma named_and_added_stay:
  assumes "resolve_one env user t n r rg = Inr rg'" and "rv_fragment r" and "rv_sample r = Some x" and "x \<noteq> []"
    and "sv_uuid env x = Some (vs_id v)" and "rv_action r \<noteq> lit ''leave_anonymous''"
    and "prior_decision user t (rv_label r) rg = Some d" and "md_sample d = Some (vs_id v)" and "v \<in> set (fragments t rg)"
  shows "\<exists>v' d'. v \<in> set (fragments t rg') \<and> v' \<in> set (fragments t rg') \<and> vs_id v' = sv_sample_id env n
    \<and> rg_decisions rg' = rg_decisions rg @ [d'] \<and> md_label d' = rv_label r \<and> md_sample d' = Some (vs_id v')"
proof -
  obtain rg1 target where tg: "resolve_target env user n r rg = Inr (rg1, target)"
    using assms(1) by (auto simp: resolve_one_def split: sum.splits)
  obtain i where i: "target = Some i"
    using tg assms(6) by (auto simp: resolve_target_def existing_target_def split: if_splits option.splits sum.splits)
  have e: "echoed_sample env r = Inr (Some (vs_id v))" using assms(3-5) by (simp add: echoed_sample_def)
  have same: "rg_samples rg1 = rg_samples rg" "rg_decisions rg1 = rg_decisions rg"
    using resolve_target_spec(1) [OF tg] by (auto simp: create_speaker_def)
  have "rollback_prior user t (rv_label r) (Some (vs_id v)) rg1 = rg1"
    using assms(7,8) by (simp add: rollback_prior_def find_prior prior_same [OF same(2)])
  then obtain v' where v': "new_fragment env t n (rv_label r) i = Inr v'"
    "rg' = record_decision (decision_of env user t n r target (Some (vs_id v'))) (add_voice_sample v' rg1)"
    using assms(1,2) by (auto simp: resolve_one_def tg e i Let_def split: sum.splits)
  have "v \<in> set (fragments t rg')" "v' \<in> set (fragments t rg')" "vs_id v' = sv_sample_id env n"
    using assms(9) new_fragment_spec [OF v'(1)] by (auto simp: v'(2) fragments_def same)
  then show ?thesis using same(2) by (auto simp: v'(2) decision_of_def)
qed

text \<open>(C8) A task that is not parked is resolved. When the matching step does not park the task and was
  not told not to, the voices of the file are those of the diarization, in its order, and every voice
  that is not noise is bound to a person of the user: the one with the nearest fragment of all comparable
  fragments of all the user's people, within the threshold.\<close>

theorem unparked_voices_matched:
  assumes "match_speakers cosine ms enabled False (Some dz) entries user rg = Some (matches, False)"
    and "distinct (map fst (dz_embeddings dz))" and "(l, vector) \<in> set (dz_embeddings dz)"
    and "l \<notin> set (noise_labels ms dz entries)"
  shows "map fst matches = map fst (dz_embeddings dz)
    \<and> (\<exists>m s v. dict_get matches l = Some m \<and> vm_speaker m = Some (sp_id s) \<and> vm_outcome m = AutoMatch
    \<and> (s, v) \<in> comparable user (dz_model dz) rg \<and> vm_distance m = Some (cosine (vs_embedding v) vector)
    \<and> cosine (vs_embedding v) vector \<le> ms_auto ms
    \<and> (\<forall>(s', v')\<in>comparable user (dz_model dz) rg. cosine (vs_embedding v) vector \<le> cosine (vs_embedding v') vector))"
proof -
  let ?noise = "noise_labels ms dz entries"
  let ?f = "match_voice cosine ms dz ?noise user rg"
  have matches: "matches = foldl (\<lambda>m (l, vector). dict_set m l (?f l vector)) [] (dz_embeddings dz)"
    and pause: "\<not> decide_pause matches False"
    using assms(1) by (auto simp: match_speakers_def Let_def split: if_splits)
  have get: "dict_get matches l = Some (?f l vector)" unfolding matches by (rule dict_get_folded [OF assms(2,3)])
  then have "(l, ?f l vector) \<in> set matches" by (simp add: dict_get_def map_of_SomeD)
  moreover have "\<not> vm_noise (?f l vector)" using assms(4) by (simp add: match_voice_def Let_def)
  ultimately have auto: "vm_outcome (?f l vector) = AutoMatch"
    using pause by (auto simp: decide_pause_def list_ex_iff)
  let ?ranked = "nearest_speakers cosine user vector (dz_model dz) (Some (ms_cap ms)) rg"
  obtain s d rest where r: "?ranked = (s, d) # rest"
    using auto by (cases ?ranked) (auto simp: match_voice_def bucket_def Let_def)
  then have d: "d \<le> ms_auto ms" "vm_speaker (?f l vector) = Some (sp_id s)" "vm_distance (?f l vector) = Some d"
    using auto by (auto simp: match_voice_def bucket_def Let_def split: if_splits)
  have voices: "map fst matches = map fst (dz_embeddings dz)"
    unfolding matches using folded_keys [of "[]" "dz_embeddings dz" ?f] assms(2) by simp
  show ?thesis using nearest_head [OF r] get auto d voices by fastforce
qed

definition sample_diarization :: diarization where
  "sample_diarization = \<lparr>dz_model = lit ''m'', dz_embeddings = [(lit ''S0'', [4])], dz_segments = []\<rparr>"

definition sample_settings :: match_settings where
  "sample_settings = \<lparr>ms_auto = 1, ms_candidate = 2, ms_cap = 100, ms_min_share = 0, ms_noise_distance = 0\<rparr>"

theorem unparked_voices_matched_witness:
  "\<exists>matches m. match_speakers (\<lambda>a b. 0) sample_settings True False (Some sample_diarization) None 3 anna_registry = Some (matches, False)
     \<and> dict_get matches (lit ''S0'') = Some m \<and> vm_speaker m \<noteq> None"
proof -
  have n: "noise_labels sample_settings sample_diarization None = []"
    by (simp add: noise_labels_def sample_diarization_def auto_noise_labels_def speaker_shares_def speaker_seconds_def Let_def)
  have "nearest_speakers (\<lambda>a b. 0) 3 [4] (lit ''m'') (Some 100) anna_registry = [(hd (rg_speakers anna_registry), 0)]"
    by (simp add: nearest_speakers_def anna_registry_def List.map_filter_simps nearest_of_def limited_def)
  then have v: "vm_outcome (match_voice (\<lambda>a b. 0) sample_settings sample_diarization [] 3 anna_registry (lit ''S0'') [4]) = AutoMatch"
    by (simp add: match_voice_def sample_diarization_def sample_settings_def bucket_def)
  have e: "dz_embeddings sample_diarization = [(lit ''S0'', [4])]" by (simp add: sample_diarization_def)
  obtain matches where m: "match_speakers (\<lambda>a b. 0) sample_settings True False (Some sample_diarization) None 3 anna_registry = Some (matches, False)"
    by (simp add: match_speakers_def n e Let_def decide_pause_def v)
  have "distinct (map fst (dz_embeddings sample_diarization))" "(lit ''S0'', [4]) \<in> set (dz_embeddings sample_diarization)"
    "lit ''S0'' \<notin> set (noise_labels sample_settings sample_diarization None)" by (simp_all add: e n)
  from unparked_voices_matched [OF m this] m show ?thesis by blast
qed

text \<open>The numbers of the dialog and of the transcript. A noise voice that speaks first keeps its number in
  the dialog but has none in the transcript: every other voice without a name is called by one number in
  the dialog and by the number before in the transcript.\<close>

lemma first_seen_without: "a \<notin> set seen \<Longrightarrow>
    filter (\<lambda>s. s \<noteq> a) (first_seen seen es) = first_seen seen (filter (\<lambda>e. te_speaker e \<noteq> Some a) es)"
proof -
  have "filter (\<lambda>s. s \<noteq> a) (first_seen seen es) = first_seen (filter (\<lambda>s. s \<noteq> a) seen) (filter (\<lambda>e. te_speaker e \<noteq> Some a) es)" for seen
    by (induction seen es rule: first_seen.induct) (auto split: option.split)
  moreover have "filter (\<lambda>s. s \<noteq> a) seen = seen" if "a \<notin> set seen" using that by (auto simp: filter_id_conv)
  ultimately show "a \<notin> set seen \<Longrightarrow> ?thesis" by metis
qed

lemma dialog_numbers_differ:
  assumes "spoken_order es = a # ss" and "spoken_order (map bare_entry (speaker_ordering diarized entries matches)) = a # ss"
    and "a \<noteq> lit ''None''" and "i < length ss" and "dict_get names (ss ! i) = None"
  shows "dict_get (display_labels uc language diarized entries matches) (ss ! i)
      = Some (speaker_label_word uc language @ 32 # decimal (i + 2))
    \<and> dict_get (label_map (kept_entries [a] es) (speaker_label_word uc language) names) (ss ! i)
      = Some (speaker_label_word uc language @ 32 # decimal (i + 1))"
proof -
  have dist: "distinct (a # ss)" using spoken_order_spec(1) [of es] assms(1) by simp
  have "dict_get (display_labels uc language diarized entries matches) ((a # ss) ! Suc i)
      = Some (label_at (speaker_label_word uc language) [] (Suc i) ((a # ss) ! Suc i))"
    unfolding display_labels_def label_map_labelled assms(2) by (rule dict_get_labelled [OF dist]) (use assms(4) in simp)
  moreover have sp: "speaker_str e \<notin> set [a] \<longleftrightarrow> te_speaker e \<noteq> Some a" for e
    using assms(3) by (auto simp: speaker_str_def split: option.split)
  have order: "spoken_order (filter (\<lambda>e. te_speaker e \<noteq> Some a) es) = ss"
  proof -
    have "filter (\<lambda>s. s \<noteq> a) ss = ss" by (rule filter_True) (use dist in auto)
    then show ?thesis using first_seen_without [of a "[]" es] assms(1) unfolding spoken_order_def by simp
  qed
  moreover have "filter (\<lambda>e. te_speaker e \<noteq> Some a) es \<noteq> []" using order assms(4) by (auto simp: spoken_order_def)
  then have "kept_entries [a] es = filter (\<lambda>e. te_speaker e \<noteq> Some a) es" unfolding kept_entries_def sp Let_def by simp
  then have "dict_get (label_map (kept_entries [a] es) (speaker_label_word uc language) names) (ss ! i)
      = Some (label_at (speaker_label_word uc language) names i (ss ! i))"
    unfolding label_map_labelled using order dict_get_labelled [of ss i] dist assms(4) by simp
  ultimately show ?thesis using assms(5) by (simp add: label_at_def dict_get_def)
qed

text \<open>Continuing a task puts it into the queue whatever its status is, also when a worker runs it.\<close>

lemma continue_requeues:
  assumes "resolve_task_speakers uc env language now user t rs True w = Inr w'"
    and "get_task_for_user user t (vw_db w) = Some task"
  shows "\<exists>task'. find_task (vw_db w') t = Some task' \<and> t_status task' = Queued"
proof -
  have db: "vw_db w' = set_task_status now t Queued None (vw_db w)"
    using assms by (auto simp: resolve_task_speakers_def commit_resolutions_def continue_task_def split: sum.splits if_splits)
  have "find (\<lambda>x. t_id x = t) (db_tasks (vw_db w)) \<noteq> None"
    using assms(2) unfolding get_task_for_user_def find_Some_iff find_None_iff by (metis nth_mem)
  moreover have "find (\<lambda>x. t_id x = t) xs \<noteq> None \<Longrightarrow> \<exists>task'. find (\<lambda>x. t_id x = t) (map (\<lambda>x. if t_id x = t
      then x\<lparr>t_status := Queued, t_error := None, t_awaiting := None, t_updated := now\<rparr> else x) xs) = Some task' \<and> t_status task' = Queued" for xs
    by (induction xs) auto
  ultimately show ?thesis by (simp add: find_task_def db set_task_status_def update_task_def)
qed
end
