(* ===== verification/Spec2Isabelle.thy ===== *)
theory Spec2Isabelle
  imports VTS_Prelude Contracts Json_Values Chunking Diar_Merge Task_Status Prompt_Options Asr_Payload
    Task_Store Lanes Task_Control Worker_Pool Processor Delivery_Config Delivery_Queue Delivery_Workers Upload_Finalize
    Token_Budget Summary_Notes Transcription Account_Merge Speaker_Resolution
begin

text \<open>
  A model of vts, a service that downloads recordings, transcribes them, attributes the speech to
  speakers, summarises it and delivers the results, with the theorems that make its core correct.

  The parts of the program and how they interact. A web API (\<open>vts/api\<close>) and an MCP server
  (\<open>vts/mcp\<close>) write task rows to Postgres and request flags to Redis. A worker process
  (\<open>vts/worker/main.py\<close>) admits queued tasks into a pool, watches the flags and reaps finished
  runs; a run (\<open>vts/pipeline/processor.py\<close>) drives a task through its steps, competing with other
  runs for the slots of the resource lanes (\<open>vts/worker/lanes.py\<close>). The steps merge recognition and
  diarization (\<open>vts/services/diarization/merge.py\<close>), store recognised payloads as two axes
  (\<open>vts/services/asr_payload.py\<close>) and cut the transcript into passages
  (\<open>vts/services/chunking.py\<close>); which steps run follows from the task's options and prompts
  (\<open>vts/pipeline/types.py\<close>, \<open>vts/services/prompt_*.py\<close>, \<open>vts/services/preset_*.py\<close>). A completed task
  queues deliveries (\<open>vts/delivery\<close>), which the same worker carries out through plugins.

  The theories, from the bottom.

  \<^item> \<open>VTS_Prelude\<close>: text as lists of code points, Python's whitespace operations, dictionaries in
    insertion order, and facts shared by all. \<open>Json_Values\<close>: JSON values with Python's truth, equality,
    iteration and \<open>str\<close>.
  \<^item> \<open>Contracts\<close>: the interfaces as locales: a machine with an invariant and one with a measure that
    only grows (interpreted by the lanes), a store of rows with a status and its conditional update
    (the task table), a loop whose rounds act on independent items (the pool's watch and reap), and a
    splitter that loses nothing (the chunker's).
  \<^item> \<open>Chunking\<close> (\<open>services/chunking.py\<close>): no text is lost, the chunks respect the cap, their
    spans cover their fragments, their speakers are those of the fragments.
  \<^item> \<open>Diar_Merge\<close> (\<open>services/diarization/merge.py\<close>): splitting an entry by speaker keeps its words in
    order; trimming removes only the repetitions of a run; folding marginal speakers removes no entry.
  \<^item> \<open>Asr_Payload\<close> (\<open>services/asr_payload.py\<close>): decomposition into tokens and sentences and back.
  \<^item> \<open>Task_Status\<close> (\<open>services/task_status.py\<close>, \<open>services/delivery_status.py\<close>) and \<open>Prompt_Options\<close>
    (registries, results, \<open>pipeline/types.py\<close>): the status sets, the plan of a task's steps, the
    index of prompt results.
  \<^item> \<open>Task_Store\<close> (\<open>db/models.py\<close>, the task part of \<open>db/repo.py\<close>): the queue, guarded transitions,
    recovery, steps, segments, the donor clone.
  \<^item> \<open>Lanes\<close> (\<open>worker/lanes.py\<close>): every await is a point where others run and a cancellation may
    arrive; slots are never over-committed, the queues are fair, a free slot with waiters is left by a shut night
    window only, \<open>llm\<close> calls are not starved.
  \<^item> \<open>Task_Control\<close> (\<open>api/routers/tasks.py\<close>, \<open>services/summary_restart.py\<close>, the resets of
    \<open>api/_helpers\<close>, the flags of \<open>services/redis_bus.py\<close>) and \<open>Worker_Pool\<close> (\<open>worker/main.py\<close>): what a
    user can ask of a task and what the pool makes of it.
  \<^item> \<open>Processor\<close> (\<open>pipeline/processor.py\<close>, the marks of \<open>pipeline/context.py\<close>,
    \<open>core/failures.py\<close>): a run settles its task and announces how, starts the unfinished steps in
    order, and what an interruption records.
  \<^item> \<open>Delivery_Config\<close> (\<open>delivery/registry.py\<close>, \<open>delivery/resolve.py\<close>,
    \<open>services/delivery_config.py\<close>, \<open>services/delivery_submit.py\<close>), \<open>Delivery_Queue\<close>
    (\<open>delivery/queue.py\<close>, \<open>delivery/consumer.py\<close>, the delivery part of \<open>db/repo.py\<close>) and
    \<open>Delivery_Workers\<close> (many consumers as a step relation): plugins are isolated, a failing delivery
    is tried a bounded number of times, a missing plugin costs nothing, and under a respected lease a
    delivery is sent at most once.
  \<^item> \<open>Upload_Order\<close> (\<open>services/upload_set.py\<close>, \<open>services/upload_order.py\<close>), \<open>Upload_Session\<close>
    (\<open>services/upload_session.py\<close>, init and chunks of \<open>api/routers/uploads.py\<close>, the sweep of
    \<open>worker/main.py\<close>) and \<open>Upload_Finalize\<close> (\<open>uploads_finalize\<close>): the names on disk are told apart,
    honest chunks build a prefix of their source whatever dies in between, the session staying resumable
    unless a crash tears its sidecar; a finalize is a list of atomic steps of which a crash performs a
    first part, and what a retry makes of each such state. (Of these steps the code's write of the
    resolved order is not atomic; a crash inside it tears the sidecar, as one on a chunk's rewrite does.)
  \<^item> \<open>Token_Budget\<close> (\<open>pipeline/token_budget.py\<close>), \<open>Summary_Chunks\<close> and \<open>Summary_Prompts\<close>
    (\<open>services/summarizer.py\<close>), \<open>Summary_Windows\<close> and \<open>Summary_Notes\<close>
    (\<open>pipeline/steps/summarization.py\<close>): the windows are whole units in order and lose no word of a unit that fits, nor of one that is
    cut more than the tokenizer loses when it decodes the slices, a
    derived window fits the context, an interrupted run is resumed without loss or repetition, a
    transcript that does not fit is cut once, packing ends when the model packs, and no placeholder
    of a prompt is left.
  \<^item> \<open>Transcription\<close> (\<open>pipeline/steps/transcription.py\<close>, the normalisation of
    \<open>services/transcription/_base.py\<close>): recognition interrupted any number of times ends as the
    uninterrupted one does, asking again only for what has no answer or an empty one, a hallucinated text never primes the next segment, and what a crash between
    two writes of the merge step leaves for good.
  \<^item> \<open>Account_Merge\<close> (\<open>services/account_merge.py\<close>, the schema of \<open>db/models.py\<close>): a merge of two
    accounts moves every row or finds it twice, clears exactly the references to the rows it drops, loses
    no row to a cascade, succeeds unless a dropped duplicate is the target of a restricting reference, and re-addressed paths lead where they led, crashes in the move included.
  \<^item> \<open>Speaker_Registry\<close> (the speaker part of \<open>db/repo.py\<close>, \<open>api/routers/speakers.py\<close>) and
    \<open>Speaker_Resolution\<close> (\<open>pipeline/steps/speaker_match.py\<close>, \<open>services/speaker_registry.py\<close>,
    \<open>resolve_task_speakers\<close>, \<open>pipeline/rerender.py\<close>): merging people loses nothing, in every history of the
    registry whose saves do not both name a fragment and add one a task has at most one per voice, a rendering depends on nothing that was rendered
    before, and a task that is not parked has its voices bound to the nearest people.

  How state and operations correspond to the code. A class with state is a record (\<open>lane_state\<close>,
  \<open>pool\<close>, \<open>proc\<close>), a table is the list of its rows, a transaction is one function of the tables; an
  exception is a value (\<open>option\<close>, a sum, or the datatype \<open>ended\<close> of a run). Coroutines are steps: the
  model cuts them at their awaits, and the order of the steps is arbitrary (\<open>lane_event\<close>, the rounds of
  the pool, the environment of a run, \<open>dstep\<close>). In \<open>Processor\<close>, what the run does not decide itself is
  an environment \<open>run_env\<close>: the bodies of the steps, the contention of a lane, what others do to the
  tables between two steps. Transactions on the task table are serialised. In \<open>Delivery_Workers\<close>, the session of a worker loads a row once and writes
  back only the columns it changed.

  Abstractions. Python's floats are exact rationals. UUIDs are natural numbers, instants integers
  (microseconds where seconds are added to them). The Unicode tables, \<open>repr\<close> of floats and
  containers, \<open>float()\<close> and \<open>uuid.UUID()\<close> on text, files, clocks, secrets and what plugins and steps
  do are arguments of the definitions; the theorems hold for all of them unless a premise says
  otherwise. All recursions terminate in Isabelle's sense (structurally or by a measure), but one:
  \<open>pack_loop\<close> runs as long as the language model keeps it running and takes a fuel;
  \<open>packing_terminates\<close> says how much is enough for a model that packs, \<open>packing_never_returns\<close> that
  none is for one that does not.

  What the lemmas show where the code falls short of its intent: the theorems
  \<open>cancelled_announcement_leaks_gpu\<close>, \<open>resume_spawns_second_coroutine\<close>, \<open>restart_while_worker_down\<close>,
  \<open>final_restart_diverted\<close>, \<open>final_restart_without_summary_step\<close>, \<open>donor_clone_loses_axes\<close>,
  \<open>late_pause_lost\<close>, \<open>slow_delivery_sent_twice\<close>, \<open>racing_chunks_corrupt\<close>,
  \<open>interrupted_first_pass_loses_part\<close>, \<open>interrupted_reorder_applied_twice\<close>,
  \<open>sweep_can_remove_live_task\<close>, \<open>single_crash_strands_upload\<close>, \<open>blank_slice_loses_rest\<close>,
  \<open>half_written_window_kept\<close>, \<open>undecodable_window_blocks\<close>, \<open>packing_never_returns\<close>,
  \<open>half_written_document_kept\<close>, \<open>raw_listing_never_written\<close>, \<open>interrupted_merge_keeps_raw_text\<close>,
  \<open>shared_credential_blocks_merge\<close>, \<open>result_paths_left_behind\<close>, \<open>unbound_label_keeps_name\<close> and
  \<open>named_fragment_lost\<close> each prove such a behaviour.

  Not modelled, and why. Steps that drive processes and models (download, ffmpeg, recognition backends,
  diarization, requests to language models), SQL full-text and vector search, OAuth and cookies, HTTP
  routing and serialisation, the MCP glue, the plugin loader and migrations are input and output
  around the modelled core. Parts with logic of their own that are not modelled yet: the guards on outgoing requests, the session store, subtitles, and the pagination of the task
  list.
\<close>

end
